(* ===== verification/FOS_Prelude.thy ===== *)
theory FOS_Prelude
  imports Main "HOL-Library.Word"
begin

text \<open>
  The prelude of the development: failures as values and their sequencing, the 32 bit
  unsigned arithmetic of the C sources on \<^typ>\<open>nat\<close> with the wrap-around written out,
  the rounding macros of \<^verbatim>\<open>src/inc/types.h\<close>, the memory layout constants of
  \<^verbatim>\<open>src/inc/memlayout.h\<close> and \<^verbatim>\<open>src/inc/mmu.h\<close>, and the facts about
  lists that several components share.
\<close>

named_theorems u32_simps \<open>equations that remove the wrap-around where nothing overflows\<close>
named_theorems res_simps \<open>case analysis of sequenced results\<close>

section \<open>Failures and sequencing\<close>

text \<open>
  A kernel routine returns a value or does not come back: \<open>Panic\<close> is a call of
  \<^verbatim>\<open>panic()\<close> or a failed \<^verbatim>\<open>assert()\<close>, \<open>Cpu_trap\<close> a processor exception
  (a division by zero, a null dereference), \<open>Corrupted\<close> a write that breaks a
  linked data structure or leaves an array (undefined behaviour in C), \<open>Spins\<close> a
  busy-wait that nobody ends, \<open>Env_exit\<close> a call of \<^verbatim>\<open>env_exit()\<close>, which hands
  the processor to the scheduler and never returns to its caller.
\<close>

datatype failure = Panic string | Cpu_trap string | Corrupted string | Spins | Env_exit

type_synonym 'a result = "failure + 'a"

definition andThen :: "'a result \<Rightarrow> ('a \<Rightarrow> 'b result) \<Rightarrow> 'b result" where
  "andThen m f = (case m of Inl e \<Rightarrow> Inl e | Inr x \<Rightarrow> f x)"

definition c_assert :: "bool \<Rightarrow> string \<Rightarrow> unit result" where
  "c_assert b msg = (if b then Inr () else Inl (Panic msg))"

lemma andThen_simps [simp]:
  "andThen (Inl e) f = Inl e"
  "andThen (Inr x) f = f x"
  by (simp_all add: andThen_def)

lemma andThen_Inr [res_simps]:
  "andThen m f = Inr y \<longleftrightarrow> (\<exists>x. m = Inr x \<and> f x = Inr y)"
  by (cases m) auto

lemma andThen_Inl [res_simps]:
  "andThen m f = Inl e \<longleftrightarrow> m = Inl e \<or> (\<exists>x. m = Inr x \<and> f x = Inl e)"
  by (cases m) auto

text \<open>What holds of the value, if there is one.\<close>

definition yields :: "('a \<Rightarrow> bool) \<Rightarrow> 'a result \<Rightarrow> bool" where
  "yields P m \<longleftrightarrow> (\<forall>x. m = Inr x \<longrightarrow> P x)"

lemma yields_simps [simp]: "yields P (Inl e)" "yields P (Inr x) \<longleftrightarrow> P x"
  by (simp_all add: yields_def)

lemma yields_andThen: "yields P m \<Longrightarrow> (\<And>x. P x \<Longrightarrow> yields Q (f x)) \<Longrightarrow> yields Q (andThen m f)"
  by (auto simp: yields_def res_simps)

lemma yields_andThen_any: "(\<And>x. yields Q (f x)) \<Longrightarrow> yields Q (andThen m f)"
  by (auto simp: yields_def res_simps)

lemma yieldsD: "yields P m \<Longrightarrow> m = Inr x \<Longrightarrow> P x"
  by (simp add: yields_def)

lemma c_assert_True [simp]: "c_assert True msg = Inr ()"
  by (simp add: c_assert_def)

lemma c_assert_False [simp]: "c_assert False msg = Inl (Panic msg)"
  by (simp add: c_assert_def)

lemma c_assert_Inr [simp]: "c_assert b msg = Inr u \<longleftrightarrow> b"
  by (simp add: c_assert_def)

lemma c_assert_Inl [simp]: "c_assert b msg = Inl e \<longleftrightarrow> \<not> b \<and> e = Panic msg"
  by (auto simp add: c_assert_def)

section \<open>Unsigned 32 bit arithmetic on natural numbers\<close>

abbreviation U32 :: nat where "U32 \<equiv> 4294967296"

definition add32 :: "nat \<Rightarrow> nat \<Rightarrow> nat" where
  "add32 a b = (a + b) mod U32"

definition sub32 :: "nat \<Rightarrow> nat \<Rightarrow> nat" where
  "sub32 a b = (a + (U32 - b mod U32)) mod U32"

definition mul32 :: "nat \<Rightarrow> nat \<Rightarrow> nat" where
  "mul32 a b = (a * b) mod U32"

lemma add32_exact [u32_simps]: "a + b < U32 \<Longrightarrow> add32 a b = a + b"
  by (simp add: add32_def)

lemma sub32_exact [u32_simps]: "b \<le> a \<Longrightarrow> a < U32 \<Longrightarrow> sub32 a b = a - b"
  by (simp add: sub32_def mod_if)

lemma mul32_exact [u32_simps]: "a * b < U32 \<Longrightarrow> mul32 a b = a * b"
  by (simp add: mul32_def)

lemma u32_bounds: "add32 a b < U32" "sub32 a b < U32" "mul32 a b < U32"
  by (simp_all add: add32_def sub32_def mul32_def)

text \<open>A signed 32 bit result.\<close>

definition int32 :: "int \<Rightarrow> int" where
  "int32 x = (x + 2 ^ 31) mod 2 ^ 32 - 2 ^ 31"

lemma int32_id: "- (2 ^ 31) \<le> x \<Longrightarrow> x < 2 ^ 31 \<Longrightarrow> int32 x = x"
  by (simp add: int32_def)

text \<open>\<^verbatim>\<open>uint16\<close> fields wrap at \<open>65536\<close>.\<close>

definition inc16 :: "nat \<Rightarrow> nat" where
  "inc16 n = (n + 1) mod 65536"

definition dec16 :: "nat \<Rightarrow> nat" where
  "dec16 n = (n + 65535) mod 65536"

lemma inc16_exact [u32_simps]: "n < 65535 \<Longrightarrow> inc16 n = Suc n"
  by (simp add: inc16_def)

lemma dec16_exact [u32_simps]: "0 < n \<Longrightarrow> n < 65536 \<Longrightarrow> dec16 n = n - 1"
  by (cases n) (simp_all add: dec16_def)

section \<open>Layout constants and rounding\<close>

abbreviation PAGE_SIZE :: nat where "PAGE_SIZE \<equiv> 4096"
abbreviation KERNEL_BASE :: nat where "KERNEL_BASE \<equiv> 0xF0000000"
abbreviation KERNEL_HEAP_START :: nat where "KERNEL_HEAP_START \<equiv> 0xF6000000"
abbreviation KERNEL_HEAP_MAX :: nat where "KERNEL_HEAP_MAX \<equiv> 0xFFFFF000"
abbreviation USER_HEAP_START :: nat where "USER_HEAP_START \<equiv> 0x80000000"
abbreviation USER_HEAP_MAX :: nat where "USER_HEAP_MAX \<equiv> 0xA0000000"
abbreviation USER_TOP :: nat where "USER_TOP \<equiv> 0xEEC00000"
abbreviation USTACKTOP :: nat where "USTACKTOP \<equiv> 0xEEBFE000"

definition ROUNDDOWN :: "nat \<Rightarrow> nat \<Rightarrow> nat" where
  "ROUNDDOWN a n = a - a mod n"

definition ROUNDUP :: "nat \<Rightarrow> nat \<Rightarrow> nat" where
  "ROUNDUP a n = ROUNDDOWN (sub32 (add32 a n) 1) n"

lemma ROUNDDOWN_le: "ROUNDDOWN a n \<le> a"
  by (simp add: ROUNDDOWN_def)

lemma ROUNDDOWN_mod [simp]: "ROUNDDOWN a n mod n = 0"
  by (simp add: ROUNDDOWN_def minus_mod_eq_mult_div)

lemma ROUNDDOWN_dvd: "n dvd ROUNDDOWN a n"
  by (simp add: ROUNDDOWN_def minus_mod_eq_mult_div)

lemma ROUNDDOWN_gt: "0 < n \<Longrightarrow> a < ROUNDDOWN a n + n"
  using mod_less_divisor [of n a] mod_less_eq_dividend [of a n] unfolding ROUNDDOWN_def by linarith

lemma ROUNDDOWN_id: "a mod n = 0 \<Longrightarrow> ROUNDDOWN a n = a"
  by (simp add: ROUNDDOWN_def)

lemma ROUNDDOWN_idem [simp]: "ROUNDDOWN (ROUNDDOWN a n) n = ROUNDDOWN a n"
  by (rule ROUNDDOWN_id) simp

lemma ROUNDUP_page:
  assumes "a + 4096 < U32"
  shows "a \<le> ROUNDUP a 4096" and "ROUNDUP a 4096 < a + 4096" and "ROUNDUP a 4096 mod 4096 = 0"
proof -
  have e: "ROUNDUP a 4096 = ROUNDDOWN (a + 4095) 4096"
    using assms by (simp add: ROUNDUP_def u32_simps add.commute)
  show "a \<le> ROUNDUP a 4096" "ROUNDUP a 4096 < a + 4096"
    using ROUNDDOWN_gt [of 4096 "a + 4095"] ROUNDDOWN_le [of "a + 4095" 4096] by (auto simp: e)
  show "ROUNDUP a 4096 mod 4096 = 0" by (simp add: e)
qed

section \<open>Intrusive lists seen as sequences\<close>

text \<open>
  The list macros of \<^verbatim>\<open>src/inc/queue.h\<close> as operations on the sequence of elements
  from \<^verbatim>\<open>lh_first\<close> to \<^verbatim>\<open>lh_last\<close>. Linking an element that is already linked, or
  unlinking one that is not, breaks the links; theory \<open>Queue_Macros\<close> has the pointer
  code of the macros and proves that on well-formed lists it computes these operations.
\<close>

definition list_insert_head :: "'a \<Rightarrow> 'a list \<Rightarrow> 'a list result" where
  "list_insert_head x xs = (if x \<in> set xs then Inl (Corrupted ''LIST_INSERT_HEAD'') else Inr (x # xs))"

definition list_insert_tail :: "'a \<Rightarrow> 'a list \<Rightarrow> 'a list result" where
  "list_insert_tail x xs = (if x \<in> set xs then Inl (Corrupted ''LIST_INSERT_TAIL'') else Inr (xs @ [x]))"

definition list_remove :: "'a \<Rightarrow> 'a list \<Rightarrow> 'a list result" where
  "list_remove x xs = (if x \<in> set xs then Inr (remove1 x xs) else Inl (Corrupted ''LIST_REMOVE''))"

fun list_insert_before_aux :: "'a \<Rightarrow> 'a \<Rightarrow> 'a list \<Rightarrow> 'a list" where
  "list_insert_before_aux p x [] = []"
| "list_insert_before_aux p x (y # ys) =
     (if y = p then x # y # ys else y # list_insert_before_aux p x ys)"

definition list_insert_before :: "'a \<Rightarrow> 'a \<Rightarrow> 'a list \<Rightarrow> 'a list result" where
  "list_insert_before p x xs =
     (if p \<in> set xs \<and> x \<notin> set xs then Inr (list_insert_before_aux p x xs)
      else Inl (Corrupted ''LIST_INSERT_BEFORE''))"

lemma list_insert_head_Inr [res_simps]:
  "list_insert_head x xs = Inr ys \<longleftrightarrow> x \<notin> set xs \<and> ys = x # xs"
  by (auto simp: list_insert_head_def)

lemma list_insert_tail_Inr [res_simps]:
  "list_insert_tail x xs = Inr ys \<longleftrightarrow> x \<notin> set xs \<and> ys = xs @ [x]"
  by (auto simp: list_insert_tail_def)

lemma list_remove_Inr [res_simps]:
  "list_remove x xs = Inr ys \<longleftrightarrow> x \<in> set xs \<and> ys = remove1 x xs"
  by (auto simp: list_remove_def)

lemma list_insert_before_aux_absent [simp]:
  "p \<notin> set xs \<Longrightarrow> list_insert_before_aux p x xs = xs"
  by (induction xs) auto

lemma set_list_insert_before_aux [simp]:
  "p \<in> set xs \<Longrightarrow> set (list_insert_before_aux p x xs) = insert x (set xs)"
  by (induction xs) auto

lemma length_list_insert_before_aux [simp]:
  "p \<in> set xs \<Longrightarrow> length (list_insert_before_aux p x xs) = Suc (length xs)"
  by (induction xs) auto

lemma distinct_list_insert_before_aux [simp]:
  "x \<notin> set xs \<Longrightarrow> distinct xs \<Longrightarrow> distinct (list_insert_before_aux p x xs)"
proof (induction xs)
  case (Cons y ys)
  then show ?case
    by (cases "p \<in> set ys") auto
qed simp

section \<open>Facts on lists\<close>

lemma remove1_last: "distinct xs \<Longrightarrow> xs \<noteq> [] \<Longrightarrow> remove1 (last xs) xs = butlast xs"
  by (induction xs) auto

lemma length_filter_remove1:
  "x \<in> set xs \<Longrightarrow> P x \<Longrightarrow> length (filter P (remove1 x xs)) = length (filter P xs) - 1"
  by (simp add: filter_remove1 length_remove1)

lemma filter_remove1_other: "\<not> P x \<Longrightarrow> filter P (remove1 x xs) = filter P xs"
  by (induction xs) auto

end
