(* ===== verification/Queue_Macros.thy ===== *)
theory Queue_Macros
  imports FOS_Prelude
begin

text \<open>
  The intrusive doubly linked lists of \<^verbatim>\<open>src/inc/queue.h\<close> at the level of pointers:
  the head structure, the two link fields of every element, and the macros as sequences
  of assignments to them. The predicate \<open>list_rep\<close> relates a head and the links to the
  sequence of elements; each macro is shown to compute the operation on sequences that
  the components use (\<open>list_insert_head\<close>, \<open>list_insert_tail\<close>, \<open>list_remove\<close>,
  \<open>list_insert_before\<close> of the prelude), and \<open>LIST_CONCAT\<close> to lose the size of its
  second list.
\<close>

section \<open>Heads, links and the macros\<close>

text \<open>A pointer is an address option, \<open>None\<close> for \<^verbatim>\<open>NULL\<close>.\<close>

type_synonym 'a ptr = "'a option"

record 'a list_head =
  lh_first :: "'a ptr"
  lh_last :: "'a ptr"
  lh_size :: nat

record 'a links =
  le_next :: "'a \<Rightarrow> 'a ptr"
  le_prev :: "'a \<Rightarrow> 'a ptr"

type_synonym 'a list_state = "'a list_head \<times> 'a links"

definition set_next :: "'a \<Rightarrow> 'a ptr \<Rightarrow> 'a links \<Rightarrow> 'a links" where
  "set_next e p l = l\<lparr>le_next := (le_next l)(e := p)\<rparr>"

definition set_prev :: "'a \<Rightarrow> 'a ptr \<Rightarrow> 'a links \<Rightarrow> 'a links" where
  "set_prev e p l = l\<lparr>le_prev := (le_prev l)(e := p)\<rparr>"

definition LIST_INIT :: "'a list_head \<Rightarrow> 'a list_head" where
  "LIST_INIT h = h\<lparr>lh_first := None, lh_last := None, lh_size := 0\<rparr>"

definition LIST_INSERT_HEAD :: "'a ptr \<Rightarrow> 'a list_state \<Rightarrow> 'a list_state result" where
  "LIST_INSERT_HEAD elm s =
     (case elm of None \<Rightarrow> Inl (Panic ''LIST_INSERT_HEAD: element is NULL!'')
      | Some e \<Rightarrow>
        (let (h, l) = s;
             l = set_next e (lh_first h) l;
             (h, l) = (case lh_first h of
                         Some f \<Rightarrow> (h, set_prev f (Some e) l)
                       | None \<Rightarrow> (h\<lparr>lh_last := Some e\<rparr>, l));
             h = h\<lparr>lh_first := Some e\<rparr>;
             l = set_prev e None l
         in Inr (h\<lparr>lh_size := add32 (lh_size h) 1\<rparr>, l)))"

definition LIST_INSERT_TAIL :: "'a ptr \<Rightarrow> 'a list_state \<Rightarrow> 'a list_state result" where
  "LIST_INSERT_TAIL elm s =
     (case elm of None \<Rightarrow> Inl (Panic ''LIST_INSERT_TAIL: element is NULL!'')
      | Some e \<Rightarrow>
        (let (h, l) = s;
             l = set_prev e (lh_last h) l;
             (h, l) = (case lh_last h of
                         Some f \<Rightarrow> (h, set_next f (Some e) l)
                       | None \<Rightarrow> (h\<lparr>lh_first := Some e\<rparr>, l));
             h = h\<lparr>lh_last := Some e\<rparr>;
             l = set_next e None l
         in Inr (h\<lparr>lh_size := add32 (lh_size h) 1\<rparr>, l)))"

definition LIST_INSERT_BEFORE :: "'a ptr \<Rightarrow> 'a ptr \<Rightarrow> 'a list_state \<Rightarrow> 'a list_state result" where
  "LIST_INSERT_BEFORE listelm elm s =
     (case (listelm, elm) of
        (Some p, Some e) \<Rightarrow>
          (let (h, l) = s;
               l = set_prev e (le_prev l p) l;
               l = set_next e (Some p) l;
               (h, l) = (case le_prev l p of
                           Some q \<Rightarrow> (h, set_next q (Some e) l)
                         | None \<Rightarrow> (h\<lparr>lh_first := Some e\<rparr>, l));
               l = set_prev p (Some e) l
           in Inr (h\<lparr>lh_size := add32 (lh_size h) 1\<rparr>, l))
      | _ \<Rightarrow> Inl (Panic ''LIST_INSERT_BEFORE: one of the two elements is NULL!''))"

definition LIST_INSERT_AFTER :: "'a ptr \<Rightarrow> 'a ptr \<Rightarrow> 'a list_state \<Rightarrow> 'a list_state result" where
  "LIST_INSERT_AFTER listelm elm s =
     (case (listelm, elm) of
        (Some p, Some e) \<Rightarrow>
          (let (h, l) = s;
               l = set_next e (le_next l p) l;
               l = (case le_next l p of Some q \<Rightarrow> set_prev q (Some e) l | None \<Rightarrow> l);
               l = set_next p (Some e) l;
               l = set_prev e (Some p) l;
               h = (if le_next l e = None then h\<lparr>lh_last := Some e\<rparr> else h)
           in Inr (h\<lparr>lh_size := add32 (lh_size h) 1\<rparr>, l))
      | _ \<Rightarrow> Inl (Panic ''LIST_INSERT_AFTER: one of the two elements is NULL!''))"

definition LIST_REMOVE :: "'a ptr \<Rightarrow> 'a list_state \<Rightarrow> 'a list_state result" where
  "LIST_REMOVE elm s =
     (case elm of None \<Rightarrow> Inl (Panic ''LIST_REMOVE: element is NULL!'')
      | Some e \<Rightarrow>
        (let (h, l) = s;
             (h, l) = (case le_next l e of
                         Some n \<Rightarrow> (h, set_prev n (le_prev l e) l)
                       | None \<Rightarrow> (h\<lparr>lh_last := le_prev l e\<rparr>, l));
             (h, l) = (case le_prev l e of
                         Some p \<Rightarrow> (h, set_next p (le_next l e) l)
                       | None \<Rightarrow> (h\<lparr>lh_first := le_next l e\<rparr>, l));
             l = set_next e None l;
             l = set_prev e None l
         in Inr (h\<lparr>lh_size := sub32 (lh_size h) 1\<rparr>, l)))"

text \<open>
  \<^verbatim>\<open>LIST_CONCAT(list1, list2)\<close> resets \<open>list2\<close> before it reads the size of
  \<open>list2\<close>, so that the size it adds is zero (when \<open>list1\<close> is not empty). A last
  element that is \<^verbatim>\<open>NULL\<close> although the list is not empty would be dereferenced.
\<close>

definition LIST_CONCAT ::
  "'a list_head \<Rightarrow> 'a list_head \<Rightarrow> 'a links \<Rightarrow> ('a list_head \<times> 'a list_head \<times> 'a links) result" where
  "LIST_CONCAT h1 h2 l =
     andThen
       (if lh_first h1 = None
        then Inr (h1\<lparr>lh_first := lh_first h2, lh_last := lh_last h2\<rparr>, h2, l)
        else (case lh_first h2 of
                None \<Rightarrow> Inr (h1, h2, l)
              | Some f2 \<Rightarrow>
                  (case lh_last h1 of
                     None \<Rightarrow> Inl (Cpu_trap ''LIST_CONCAT'')
                   | Some l1 \<Rightarrow>
                       Inr (h1\<lparr>lh_last := lh_last h2\<rparr>, LIST_INIT h2,
                            set_prev f2 (Some l1) (set_next l1 (Some f2) l)))))
       (\<lambda>(h1, h2, l). Inr (h1\<lparr>lh_size := add32 (lh_size h1) (lh_size h2)\<rparr>, h2, l))"

section \<open>The sequence a list represents\<close>

text \<open>
  \<open>chain l p xs q\<close>: the elements \<open>xs\<close> are linked one after the other, the first has
  \<open>p\<close> before it, the last has \<open>q\<close> after it.
\<close>

fun chain :: "'a links \<Rightarrow> 'a ptr \<Rightarrow> 'a list \<Rightarrow> 'a ptr \<Rightarrow> bool" where
  "chain l p [] q \<longleftrightarrow> True"
| "chain l p (x # xs) q \<longleftrightarrow>
     le_prev l x = p \<and> le_next l x = (case xs of [] \<Rightarrow> q | y # _ \<Rightarrow> Some y) \<and>
     chain l (Some x) xs q"

definition first_ptr :: "'a list \<Rightarrow> 'a ptr \<Rightarrow> 'a ptr" where
  "first_ptr xs q = (case xs of [] \<Rightarrow> q | x # _ \<Rightarrow> Some x)"

definition last_ptr :: "'a list \<Rightarrow> 'a ptr \<Rightarrow> 'a ptr" where
  "last_ptr xs p = (if xs = [] then p else Some (last xs))"

definition list_rep :: "'a list_state \<Rightarrow> 'a list \<Rightarrow> bool" where
  "list_rep s xs \<longleftrightarrow>
     lh_first (fst s) = first_ptr xs None \<and> lh_last (fst s) = last_ptr xs None \<and>
     lh_size (fst s) = length xs \<and> distinct xs \<and> length xs < U32 \<and>
     chain (snd s) None xs None"

lemma links_simps [simp]:
  "le_next (set_next e p l) = (le_next l)(e := p)"
  "le_prev (set_next e p l) = le_prev l"
  "le_prev (set_prev e p l) = (le_prev l)(e := p)"
  "le_next (set_prev e p l) = le_next l"
  by (simp_all add: set_next_def set_prev_def)

lemma first_ptr_simps [simp]:
  "first_ptr [] q = q" "first_ptr (x # xs) q = Some x"
  "first_ptr (xs @ ys) q = first_ptr xs (first_ptr ys q)"
  by (cases xs; simp add: first_ptr_def)+

lemma last_ptr_simps [simp]:
  "last_ptr [] p = p" "last_ptr (xs @ [x]) p = Some x"
  "last_ptr (x # xs) p = last_ptr xs (Some x)"
  by (simp_all add: last_ptr_def)

lemma last_ptr_append [simp]: "last_ptr (xs @ ys) p = last_ptr ys (last_ptr xs p)"
  by (simp add: last_ptr_def)

lemma first_ptr_None [simp]: "first_ptr xs None = None \<longleftrightarrow> xs = []"
  by (cases xs) auto

lemma last_ptr_None [simp]: "last_ptr xs None = None \<longleftrightarrow> xs = []"
  by (simp add: last_ptr_def)

lemma first_ptr_nonempty [simp]: "xs \<noteq> [] \<Longrightarrow> first_ptr xs q = Some (hd xs)"
  by (cases xs) auto

lemma set_next_set_prev: "set_next a v (set_prev b w l) = set_prev b w (set_next a v l)"
  by (simp add: set_next_def set_prev_def)

lemma set_next_twist: "a \<noteq> b \<Longrightarrow> set_next a v (set_next b w l) = set_next b w (set_next a v l)"
  by (simp add: set_next_def fun_upd_twist)

lemma chain_Cons:
  "chain l p (x # xs) q \<longleftrightarrow>
     le_prev l x = p \<and> le_next l x = first_ptr xs q \<and> chain l (Some x) xs q"
  by (simp add: first_ptr_def)

lemmas chain_simps = chain.simps(1) chain_Cons

declare chain.simps(2) [simp del]

lemma chain_append:
  "chain l p (xs @ ys) q \<longleftrightarrow> chain l p xs (first_ptr ys q) \<and> chain l (last_ptr xs p) ys q"
  by (induction xs arbitrary: p) (auto simp: chain_simps)

lemma chain_cong:
  "(\<And>x. x \<in> set xs \<Longrightarrow> le_next l' x = le_next l x) \<Longrightarrow>
   (\<And>x. x \<in> set xs \<Longrightarrow> le_prev l' x = le_prev l x) \<Longrightarrow>
   chain l' p xs q = chain l p xs q"
  by (induction xs arbitrary: p) (auto simp: chain_simps)

text \<open>Writing the two ends of a chain changes only what stands before and after it.\<close>

lemma chain_set_next_last:
  "distinct xs \<Longrightarrow> xs \<noteq> [] \<Longrightarrow> chain l p xs q \<Longrightarrow> chain (set_next (last xs) q' l) p xs q'"
proof (induction xs arbitrary: p rule: rev_induct)
  case (snoc x xs)
  then show ?case
    by (auto simp: chain_append chain_simps cong: chain_cong)
      (subst chain_cong [where l = l]; auto)
qed simp

lemma chain_set_prev_first:
  "distinct (x # xs) \<Longrightarrow> chain l p (x # xs) q \<Longrightarrow> chain (set_prev x p' l) p' (x # xs) q"
  by (auto simp: chain_simps) (subst chain_cong [where l = l]; auto)

lemma chain_set_other:
  "e \<notin> set xs \<Longrightarrow> chain (set_next e v l) p xs q = chain l p xs q"
  "e \<notin> set xs \<Longrightarrow> chain (set_prev e v l) p xs q = chain l p xs q"
  by (rule chain_cong; auto)+

lemmas list_rep_simps = list_rep_def chain_append chain_simps chain_set_other set_next_set_prev

section \<open>The macros implement the sequence operations\<close>

lemma list_rep_init: "list_rep (LIST_INIT h, l) []"
  by (simp add: list_rep_simps LIST_INIT_def)

lemma list_rep_insert_head:
  assumes "list_rep s xs" and "e \<notin> set xs" and "Suc (length xs) < U32"
  shows "\<exists>s'. LIST_INSERT_HEAD (Some e) s = Inr s' \<and> list_rep s' (e # xs)"
proof (cases xs)
  case Nil
  with assms show ?thesis
    by (cases s) (auto simp: list_rep_simps LIST_INSERT_HEAD_def u32_simps)
next
  case (Cons x ys)
  with assms have "chain (set_prev x (Some e) (snd s)) (Some e) (x # ys) None"
    by (intro chain_set_prev_first) (auto simp: list_rep_def)
  with assms Cons show ?thesis
    by (cases s) (auto simp: list_rep_simps LIST_INSERT_HEAD_def u32_simps)
qed

lemma list_rep_insert_tail:
  assumes "list_rep s xs" and "e \<notin> set xs" and "Suc (length xs) < U32"
  shows "\<exists>s'. LIST_INSERT_TAIL (Some e) s = Inr s' \<and> list_rep s' (xs @ [e])"
proof (cases "xs = []")
  case True
  with assms show ?thesis
    by (cases s) (auto simp: list_rep_simps LIST_INSERT_TAIL_def u32_simps)
next
  case False
  with assms have "chain (set_next (last xs) (Some e) (snd s)) None xs (Some e)"
    by (intro chain_set_next_last) (auto simp: list_rep_def)
  with assms False show ?thesis
    by (cases s) (auto simp: list_rep_simps LIST_INSERT_TAIL_def u32_simps last_ptr_def)
qed

text \<open>
  Removing and inserting in the middle: the sequence is \<open>ys @ x # zs\<close>, the element
  before is the last of \<open>ys\<close> (or the head structure), the one after the first of
  \<open>zs\<close> (or the head structure).
\<close>

lemma last_notin_disjoint: "set xs \<inter> set ys = {} \<Longrightarrow> xs \<noteq> [] \<Longrightarrow> last xs \<notin> set ys"
  by (meson disjoint_iff last_in_set)

lemma chain_close_gap:
  assumes "distinct (ys @ x # zs)" and "chain l None (ys @ x # zs) None"
  shows "chain (set_prev x None (set_next x None
           (case last_ptr ys None of Some p \<Rightarrow> set_next p (first_ptr zs None)
              (case first_ptr zs None of Some n \<Rightarrow> set_prev n (last_ptr ys None) l | None \<Rightarrow> l)
            | None \<Rightarrow> (case first_ptr zs None of Some n \<Rightarrow> set_prev n (last_ptr ys None) l | None \<Rightarrow> l))))
         None (ys @ zs) None" (is "chain (set_prev x None (set_next x None ?l)) _ _ _")
proof -
  have lz: "ys \<noteq> [] \<Longrightarrow> last ys \<notin> set zs"
    using assms(1) by (intro last_notin_disjoint) auto
  define l1 where "l1 = (case first_ptr zs None of Some n \<Rightarrow> set_prev n (last_ptr ys None) l | None \<Rightarrow> l)"
  have z: "chain l1 (last_ptr ys None) zs None"
    using assms
    by (cases zs) (auto simp: l1_def chain_append chain_simps chain_set_other)
  have y: "chain l1 None ys (Some x)"
    using assms by (cases zs) (auto simp: l1_def chain_append chain_simps chain_set_other)
  have y2: "chain ?l None ys (first_ptr zs None)"
    using y assms by (auto simp: l1_def [symmetric] last_ptr_def intro: chain_set_next_last split: option.split)
  have z2: "chain ?l (last_ptr ys None) zs None"
    using z assms lz by (auto simp: l1_def [symmetric] last_ptr_def chain_set_other split: option.split)
  from y2 z2 assms(1) show ?thesis
    by (simp add: chain_append chain_set_other)
qed

lemma list_rep_remove:
  assumes "list_rep s xs" and "e \<in> set xs"
  shows "\<exists>s'. LIST_REMOVE (Some e) s = Inr s' \<and> list_rep s' (remove1 e xs)"
proof -
  from assms(2) obtain ys zs where xs: "xs = ys @ e # zs" and ny: "e \<notin> set ys"
    by (meson split_list_first)
  obtain h l where s: "s = (h, l)" by (cases s)
  have ch: "chain l None (ys @ e # zs) None" and d: "distinct (ys @ e # zs)"
    using assms(1) by (auto simp: list_rep_def s xs)
  have e: "le_next l e = first_ptr zs None" "le_prev l e = last_ptr ys None"
    using ch by (auto simp: chain_append chain_simps)
  have r: "remove1 e xs = ys @ zs" using ny by (simp add: xs remove1_append)
  show ?thesis
    using chain_close_gap [OF d ch] assms(1) d unfolding r
    by (cases zs; cases "ys = []")
      (auto simp: s xs LIST_REMOVE_def list_rep_def e u32_simps last_ptr_def Let_def)
qed

lemma list_insert_before_aux_split:
  "p \<notin> set ys \<Longrightarrow> list_insert_before_aux p e (ys @ p # zs) = ys @ e # p # zs"
  by (induction ys) auto

lemma list_rep_insert_before:
  assumes "list_rep s xs" and "p \<in> set xs" and "e \<notin> set xs" and "Suc (length xs) < U32"
  shows "\<exists>s'. LIST_INSERT_BEFORE (Some p) (Some e) s = Inr s' \<and>
              list_rep s' (list_insert_before_aux p e xs)"
proof -
  from assms(2) obtain ys zs where xs: "xs = ys @ p # zs" and ny: "p \<notin> set ys"
    by (meson split_list_first)
  obtain h l where s: "s = (h, l)" by (cases s)
  have ch: "chain l None ys (Some p)" "chain l (last_ptr ys None) (p # zs) None"
    and d: "distinct (ys @ p # zs)"
    using assms(1) by (auto simp: list_rep_def s xs chain_append)
  have e: "le_prev l p = last_ptr ys None"
    using ch(2) by (simp add: chain_simps)
  have pz: "chain (set_prev p (Some e) l) (Some e) (p # zs) None"
    by (rule chain_set_prev_first [OF _ ch(2)]) (use d in simp)
  have ny': "ys \<noteq> [] \<Longrightarrow> chain (set_next (last ys) (Some e) l) None ys (Some e)"
    by (rule chain_set_next_last [OF _ _ ch(1)]) (use d in simp)
  have lz: "ys \<noteq> [] \<Longrightarrow> last ys \<notin> set zs"
    using d by (intro last_notin_disjoint) auto
  show ?thesis
    using pz ny' lz assms d unfolding xs list_insert_before_aux_split [OF ny]
    by (cases "ys = []")
      (auto simp: s LIST_INSERT_BEFORE_def list_rep_simps e u32_simps last_ptr_def Let_def
        set_next_twist [of "last ys" e])
qed

lemma LIST_INSERT_AFTER_at_end:
  assumes "list_rep s (ys @ [p])" and "e \<notin> set (ys @ [p])" and "Suc (Suc (length ys)) < U32"
  shows "\<exists>s'. LIST_INSERT_AFTER (Some p) (Some e) s = Inr s' \<and> list_rep s' (ys @ [p, e])"
proof -
  obtain h l where s: "s = (h, l)" by (cases s)
  have "chain (set_next p (Some e) l) None (ys @ [p]) (Some e)"
    using chain_set_next_last [of "ys @ [p]" l None None "Some e"] assms(1)
    by (simp add: list_rep_def s)
  then show ?thesis
    using assms by (auto simp: s LIST_INSERT_AFTER_def list_rep_simps u32_simps Let_def)
qed


section \<open>Claims\<close>

text \<open>
  C31. On a well-formed list the pointer code of the macros computes the operations on
  sequences: insertion at the head, at the tail and before an element, and removal.
  The element inserted is not in the list and the element count stays below the range of
  the 32 bit size field.
\<close>

theorem list_macros_refine:
  assumes "list_rep s xs" and "Suc (length xs) < U32"
  shows "(list_insert_head e xs = Inr ys \<longrightarrow>
            (\<exists>s'. LIST_INSERT_HEAD (Some e) s = Inr s' \<and> list_rep s' ys)) \<and>
         (list_insert_tail e xs = Inr ys \<longrightarrow>
            (\<exists>s'. LIST_INSERT_TAIL (Some e) s = Inr s' \<and> list_rep s' ys)) \<and>
         (list_insert_before p e xs = Inr ys \<longrightarrow>
            (\<exists>s'. LIST_INSERT_BEFORE (Some p) (Some e) s = Inr s' \<and> list_rep s' ys)) \<and>
         (list_remove e xs = Inr ys \<longrightarrow>
            (\<exists>s'. LIST_REMOVE (Some e) s = Inr s' \<and> list_rep s' ys))"
  using list_rep_insert_head [OF assms(1) _ assms(2), of e]
    list_rep_insert_tail [OF assms(1) _ assms(2), of e]
    list_rep_insert_before [OF assms(1) _ _ assms(2), of p e]
    list_rep_remove [OF assms(1), of e]
  by (auto simp: list_insert_head_def list_insert_tail_def list_insert_before_def list_remove_def)

definition sample_head :: "nat list_head" where
  "sample_head = \<lparr>lh_first = Some 1, lh_last = Some 1, lh_size = 1\<rparr>"

definition sample_links :: "nat links" where
  "sample_links = \<lparr>le_next = (\<lambda>_. None), le_prev = (\<lambda>_. None)\<rparr>"

lemma sample_rep: "list_rep (sample_head, sample_links) [1]"
  by (simp add: list_rep_simps sample_head_def sample_links_def)

theorem list_macros_refine_witness:
  "\<exists>s'. LIST_INSERT_TAIL (Some (2::nat)) (sample_head, sample_links) = Inr s' \<and> list_rep s' [1, 2]"
  using list_macros_refine [OF sample_rep, of 2 "[1, 2]"] by (simp add: list_insert_tail_def)

text \<open>
  Appending a non-empty list to a non-empty list links all elements in order, but the
  size field of the result still counts the elements of the first list only: the second
  list is reset before its size is read.
\<close>

theorem LIST_CONCAT_loses_size:
  assumes "list_rep (h1, l) xs" and "list_rep (h2, l) ys"
    and "xs \<noteq> []" and "ys \<noteq> []" and "set xs \<inter> set ys = {}"
  shows "\<exists>h1' h2' l'. LIST_CONCAT h1 h2 l = Inr (h1', h2', l') \<and>
           chain l' None (xs @ ys) None \<and> lh_first h1' = Some (hd (xs @ ys)) \<and>
           lh_last h1' = Some (last (xs @ ys)) \<and>
           lh_size h1' = length xs \<and> lh_size h1' \<noteq> length (xs @ ys)"
proof -
  obtain y ys' where ys: "ys = y # ys'" using assms(4) by (cases ys) auto
  have lx: "last xs \<notin> set ys" using assms(3,5) last_in_set [of xs] by blast
  have "chain (set_next (last xs) (Some y) l) None xs (Some y)"
    using assms by (intro chain_set_next_last) (auto simp: list_rep_def)
  moreover have "chain (set_prev y (Some (last xs)) l) (Some (last xs)) ys None"
    unfolding ys using assms(2) by (intro chain_set_prev_first) (auto simp: list_rep_def ys)
  ultimately have "chain (set_prev y (Some (last xs)) (set_next (last xs) (Some y) l)) None (xs @ ys) None"
    using assms lx
    by (simp add: ys chain_append chain_set_other last_ptr_def)
      (simp add: chain_set_other flip: set_next_set_prev)
  then show ?thesis
    using assms by (auto simp: LIST_CONCAT_def LIST_INIT_def list_rep_def ys last_ptr_def u32_simps)
qed

theorem LIST_CONCAT_loses_size_witness:
  "\<exists>h1' h2' l'. LIST_CONCAT sample_head (sample_head\<lparr>lh_first := Some 2, lh_last := Some 2\<rparr>) sample_links
      = Inr (h1', h2', l') \<and> lh_size h1' = 1 \<and> chain l' None [1, 2] None"
proof -
  have "list_rep (sample_head\<lparr>lh_first := Some 2, lh_last := Some 2\<rparr>, sample_links) [2]"
    by (simp add: list_rep_simps sample_head_def sample_links_def)
  from LIST_CONCAT_loses_size [OF sample_rep this] show ?thesis by auto
qed

end
