(* ===== verification/Dynamic_Allocator.thy ===== *)
theory Dynamic_Allocator
  imports FOS_Prelude
begin

text \<open>
  The block allocator of \<^verbatim>\<open>src/lib/dynamic_allocator.c\<close>, which the kernel heap and the
  user heap share. A region of pages is carved into blocks of a power of two between 8 and
  2048 bytes; one free list per size class, one list of pages that are not carved, and per
  page its block size and its number of free blocks. The two link-time symbols
  \<^verbatim>\<open>get_page\<close> and \<^verbatim>\<open>return_page\<close> (defined in \<^verbatim>\<open>src/kern/mem/kheap.c\<close> for the
  kernel, in \<^verbatim>\<open>src/lib/uheap.c\<close> for user programs) are arguments of the operations
  that call them; \<open>'k\<close> is the state they work on.
\<close>

section \<open>State\<close>

abbreviation LOG2_MIN_SIZE :: nat where "LOG2_MIN_SIZE \<equiv> 3"
abbreviation LOG2_MAX_SIZE :: nat where "LOG2_MAX_SIZE \<equiv> 11"
abbreviation DYN_ALLOC_MAX_SIZE :: nat where "DYN_ALLOC_MAX_SIZE \<equiv> 33554432"
abbreviation DYN_ALLOC_MAX_BLOCK_SIZE :: nat where "DYN_ALLOC_MAX_BLOCK_SIZE \<equiv> 2048"
abbreviation NUM_PAGE_INFOS :: nat where "NUM_PAGE_INFOS \<equiv> 8192"

record page_info =
  block_size :: nat          \<comment> \<open>\<^verbatim>\<open>uint16\<close>\<close>
  num_of_free_blocks :: nat  \<comment> \<open>\<^verbatim>\<open>uint16\<close>\<close>

text \<open>
  A \<^verbatim>\<open>struct PageInfoElement *\<close> into \<^verbatim>\<open>pageBlockInfoArr\<close> is its index; a
  \<^verbatim>\<open>struct BlockElement *\<close> is the address of the block.
\<close>

record dyn_alloc =
  freeBlockLists :: "nat \<Rightarrow> nat list"
  freePagesList :: "nat list"
  pageBlockInfoArr :: "nat \<Rightarrow> page_info"
  dynAllocStart :: nat
  dynAllocEnd :: nat
  is_initialized :: bool

definition set_page_info :: "nat \<Rightarrow> page_info \<Rightarrow> dyn_alloc \<Rightarrow> dyn_alloc" where
  "set_page_info i v da = da\<lparr>pageBlockInfoArr := (pageBlockInfoArr da)(i := v)\<rparr>"

definition set_free_list :: "nat \<Rightarrow> nat list \<Rightarrow> dyn_alloc \<Rightarrow> dyn_alloc" where
  "set_free_list i v da = da\<lparr>freeBlockLists := (freeBlockLists da)(i := v)\<rparr>"

section \<open>Operations\<close>

definition to_page_va :: "int \<Rightarrow> dyn_alloc \<Rightarrow> nat result" where
  "to_page_va ptrPageInfo da =
     (if ptrPageInfo < 0 \<or> ptrPageInfo \<ge> int NUM_PAGE_INFOS
      then Inl (Panic ''to_page_va called with invalid pageInfoPtr'')
      else Inr (add32 (dynAllocStart da) (nat ptrPageInfo * PAGE_SIZE)))"

definition to_page_info :: "nat \<Rightarrow> dyn_alloc \<Rightarrow> nat result" where
  "to_page_info va da =
     (let idx = sub32 va (dynAllocStart da) div PAGE_SIZE
      in if idx \<ge> NUM_PAGE_INFOS then Inl (Panic ''to_page_info called with invalid pa'')
         else Inr idx)"

text \<open>\<^verbatim>\<open>initialize_dynamic_allocator\<close>: the two loops, then the operation.\<close>

fun init_free_lists :: "nat \<Rightarrow> nat \<Rightarrow> dyn_alloc \<Rightarrow> dyn_alloc" where
  "init_free_lists i 0 da = da"
| "init_free_lists i (Suc n) da = init_free_lists (Suc i) n (set_free_list i [] da)"

fun init_pages :: "nat \<Rightarrow> nat \<Rightarrow> dyn_alloc \<Rightarrow> dyn_alloc result" where
  "init_pages i 0 da = Inr da"
| "init_pages i (Suc n) da =
     andThen (list_insert_tail i (freePagesList da)) (\<lambda>fp.
     init_pages (Suc i) n
       ((set_page_info i \<lparr>block_size = 0, num_of_free_blocks = 0\<rparr> da)\<lparr>freePagesList := fp\<rparr>))"

definition initialize_dynamic_allocator :: "nat \<Rightarrow> nat \<Rightarrow> dyn_alloc \<Rightarrow> dyn_alloc result" where
  "initialize_dynamic_allocator daStart daEnd da =
     andThen (c_assert (daEnd \<le> add32 daStart DYN_ALLOC_MAX_SIZE)
                ''daEnd <= daStart + DYN_ALLOC_MAX_SIZE'') (\<lambda>_.
     (let da = da\<lparr>is_initialized := True, dynAllocStart := daStart, dynAllocEnd := daEnd\<rparr>;
          da = init_free_lists 0 (LOG2_MAX_SIZE - LOG2_MIN_SIZE + 1) da;
          da = da\<lparr>freePagesList := []\<rparr>;
          total_pages = sub32 daEnd daStart div PAGE_SIZE
      in if total_pages \<le> NUM_PAGE_INFOS then init_pages 0 total_pages da
         else Inl (Corrupted ''pageBlockInfoArr'')))"

definition get_block_size :: "nat \<Rightarrow> dyn_alloc \<Rightarrow> nat" where
  "get_block_size va da =
     (if va < dynAllocStart da \<or> va \<ge> dynAllocEnd da then 0
      else block_size (pageBlockInfoArr da (sub32 va (dynAllocStart da) div PAGE_SIZE)))"

text \<open>
  The size class: \<^verbatim>\<open>while (block_size < size && log2 <= LOG2_MAX_SIZE) { log2++; block_size = 1 << log2; }\<close>
\<close>

function find_log2 :: "nat \<Rightarrow> nat \<Rightarrow> nat" where
  "find_log2 sz log2 =
     (if 2 ^ log2 < sz \<and> log2 \<le> LOG2_MAX_SIZE then find_log2 sz (log2 + 1) else log2)"
  by pat_completeness auto
termination by (relation "measure (\<lambda>(sz, log2). Suc LOG2_MAX_SIZE - log2)") auto

declare find_log2.simps [simp del]

text \<open>The carving loop of a fresh page: \<open>n\<close> blocks are still to be linked.\<close>

fun carve_page :: "nat \<Rightarrow> nat \<Rightarrow> nat \<Rightarrow> nat \<Rightarrow> nat list \<Rightarrow> nat list result" where
  "carve_page page_va bs i 0 xs = Inr xs"
| "carve_page page_va bs i (Suc n) xs =
     (let b = add32 page_va (mul32 i bs)
      in if b = 0 then Inl (Panic ''LIST_INSERT_TAIL: element is NULL!'')
         else andThen (list_insert_tail b xs) (carve_page page_va bs (Suc i) n))"

text \<open>Taking the first block of a list and counting it off its page.\<close>

definition take_block :: "nat \<Rightarrow> nat \<Rightarrow> dyn_alloc \<Rightarrow> dyn_alloc result" where
  "take_block i blk da =
     andThen (list_remove blk (freeBlockLists da i)) (\<lambda>xs.
     (let page_idx = sub32 blk (dynAllocStart da) div PAGE_SIZE;
          pg = pageBlockInfoArr da page_idx
      in if page_idx < NUM_PAGE_INFOS
         then Inr (set_page_info page_idx (pg\<lparr>num_of_free_blocks := dec16 (num_of_free_blocks pg)\<rparr>)
                     (set_free_list i xs da))
         else Inl (Corrupted ''pageBlockInfoArr'')))"

text \<open>\<^verbatim>\<open>for (i = idx + 1; i <= LOG2_MAX_SIZE - LOG2_MIN_SIZE; i++)\<close>: the larger classes.\<close>

function alloc_larger :: "nat \<Rightarrow> dyn_alloc \<Rightarrow> (nat \<times> dyn_alloc) result" where
  "alloc_larger i da =
     (if i \<le> LOG2_MAX_SIZE - LOG2_MIN_SIZE then
        (case freeBlockLists da i of
           big_blk # _ \<Rightarrow> andThen (take_block i big_blk da) (\<lambda>da. Inr (big_blk, da))
         | [] \<Rightarrow> alloc_larger (i + 1) da)
      else Inl (Panic ''alloc_block() is out of free pages and blocks''))"
  by pat_completeness auto
termination by (relation "measure (\<lambda>(i, da). 9 - i)") auto

declare alloc_larger.simps [simp del]

definition alloc_block ::
  "(nat \<Rightarrow> 'k \<Rightarrow> 'k result) \<Rightarrow> nat \<Rightarrow> dyn_alloc \<times> 'k \<Rightarrow> (nat \<times> dyn_alloc \<times> 'k) result" where
  "alloc_block get_page sz st =
     (let (da, k) = st in
      andThen (c_assert (sz \<le> DYN_ALLOC_MAX_BLOCK_SIZE) ''size <= DYN_ALLOC_MAX_BLOCK_SIZE'') (\<lambda>_.
      if sz = 0 then Inr (0, da, k)
      else
        (let l = find_log2 sz LOG2_MIN_SIZE;
             bs = 2 ^ l;
             log2 = (if l > LOG2_MAX_SIZE then LOG2_MAX_SIZE else l);
             idx = log2 - LOG2_MIN_SIZE
         in case freeBlockLists da idx of
              blk # _ \<Rightarrow> andThen (take_block idx blk da) (\<lambda>da. Inr (blk, da, k))
            | [] \<Rightarrow>
              (case freePagesList da of
                 pagehead # _ \<Rightarrow>
                   andThen (list_remove pagehead (freePagesList da)) (\<lambda>fp.
                   (let da = da\<lparr>freePagesList := fp\<rparr> in
                    andThen (to_page_va (int pagehead) da) (\<lambda>page_va.
                    andThen (get_page page_va k) (\<lambda>k.
                    (let n = (PAGE_SIZE div bs) mod 65536 in
                     andThen (carve_page page_va bs 0 n (freeBlockLists da idx)) (\<lambda>xs.
                     (case xs of
                        [] \<Rightarrow> Inl (Panic ''LIST_REMOVE: element is NULL!'')
                      | alloc_blk # _ \<Rightarrow>
                          andThen (list_remove alloc_blk xs) (\<lambda>xs.
                          Inr (alloc_blk,
                               set_page_info pagehead
                                 \<lparr>block_size = bs mod 65536, num_of_free_blocks = dec16 n\<rparr>
                                 (set_free_list idx xs da), k)))))))))
               | [] \<Rightarrow> andThen (alloc_larger (idx + 1) da) (\<lambda>(b, da). Inr (b, da, k))))))"

text \<open>\<^verbatim>\<open>while (tmp >>= 1) log2++;\<close> on a non-negative value.\<close>

fun log2_shift :: "nat \<Rightarrow> nat" where
  "log2_shift tmp = (if tmp div 2 = 0 then 0 else Suc (log2_shift (tmp div 2)))"

declare log2_shift.simps [simp del]

text \<open>Unlinking all blocks of a page, in address order.\<close>

fun uncarve_page :: "nat \<Rightarrow> nat \<Rightarrow> nat \<Rightarrow> nat list \<Rightarrow> nat list result" where
  "uncarve_page cur bs 0 xs = Inr xs"
| "uncarve_page cur bs (Suc n) xs =
     andThen (list_remove cur xs) (uncarve_page (add32 cur bs) bs n)"

text \<open>
  \<^verbatim>\<open>free_block\<close>. A page that is not carved has block size 0: the list index is
  then \<open>-3\<close>, a write before the array, and the division traps.
\<close>

definition free_block ::
  "(nat \<Rightarrow> 'k \<Rightarrow> 'k result) \<Rightarrow> nat \<Rightarrow> dyn_alloc \<times> 'k \<Rightarrow> (dyn_alloc \<times> 'k) result" where
  "free_block return_page va st =
     (let (da, k) = st in
      andThen (c_assert (va \<ge> dynAllocStart da \<and> va < dynAllocEnd da)
                 ''(uint32)va >= dynAllocStart && (uint32)va < dynAllocEnd'') (\<lambda>_.
      (let page_idx = sub32 va (dynAllocStart da) div PAGE_SIZE;
           bs = block_size (pageBlockInfoArr da page_idx);
           log2 = log2_shift bs;
           idx = log2 - LOG2_MIN_SIZE
       in if log2 < LOG2_MIN_SIZE \<or> log2 > LOG2_MAX_SIZE \<or> page_idx \<ge> NUM_PAGE_INFOS
          then Inl (Corrupted ''freeBlockLists[idx]'')
          else
            andThen (list_insert_head va (freeBlockLists da idx)) (\<lambda>xs.
            (let pg = pageBlockInfoArr da page_idx;
                 pg = pg\<lparr>num_of_free_blocks := inc16 (num_of_free_blocks pg)\<rparr>;
                 da = set_page_info page_idx pg (set_free_list idx xs da);
                 blocks_per_page = PAGE_SIZE div bs
             in if num_of_free_blocks pg = blocks_per_page then
                  andThen (to_page_va (int page_idx) da) (\<lambda>page_va.
                  andThen (uncarve_page page_va bs blocks_per_page xs) (\<lambda>xs.
                  andThen (return_page page_va k) (\<lambda>k.
                  andThen (list_insert_tail page_idx (freePagesList da)) (\<lambda>fp.
                  Inr (set_page_info page_idx \<lparr>block_size = 0, num_of_free_blocks = 0\<rparr>
                         (set_free_list idx xs da)\<lparr>freePagesList := fp\<rparr>, k)))))
                else Inr (da, k))))))"

definition realloc_block :: "nat \<Rightarrow> nat \<Rightarrow> dyn_alloc \<Rightarrow> (nat \<times> dyn_alloc) result" where
  "realloc_block va new_size da = Inl (Panic ''realloc_block() Not implemented yet'')"

section \<open>The allocator invariant\<close>

definition num_pages :: "dyn_alloc \<Rightarrow> nat" where
  "num_pages da = (dynAllocEnd da - dynAllocStart da) div PAGE_SIZE"

definition page_of :: "dyn_alloc \<Rightarrow> nat \<Rightarrow> nat" where
  "page_of da b = (b - dynAllocStart da) div PAGE_SIZE"

abbreviation bsize :: "dyn_alloc \<Rightarrow> nat \<Rightarrow> nat" where
  "bsize da p \<equiv> block_size (pageBlockInfoArr da p)"

abbreviation nfree :: "dyn_alloc \<Rightarrow> nat \<Rightarrow> nat" where
  "nfree da p \<equiv> num_of_free_blocks (pageBlockInfoArr da p)"

definition class_size :: "nat \<Rightarrow> nat" where
  "class_size i = 2 ^ (i + LOG2_MIN_SIZE)"

definition free_on :: "dyn_alloc \<Rightarrow> nat \<Rightarrow> nat \<Rightarrow> nat list" where
  "free_on da i p = filter (\<lambda>b. page_of da b = p) (freeBlockLists da i)"

definition da_layout :: "dyn_alloc \<Rightarrow> bool" where
  "da_layout da \<longleftrightarrow> 0 < dynAllocStart da \<and> dynAllocStart da mod PAGE_SIZE = 0 \<and>
     dynAllocEnd da = dynAllocStart da + PAGE_SIZE * num_pages da \<and>
     num_pages da \<le> NUM_PAGE_INFOS \<and> dynAllocEnd da < U32"

definition da_pages :: "dyn_alloc \<Rightarrow> bool" where
  "da_pages da \<longleftrightarrow> distinct (freePagesList da) \<and>
     (\<forall>p \<in> set (freePagesList da). p < num_pages da \<and> bsize da p = 0 \<and> nfree da p = 0) \<and>
     (\<forall>p < num_pages da. p \<notin> set (freePagesList da) \<longrightarrow>
        (\<exists>i < 9. bsize da p = class_size i \<and> nfree da p = length (free_on da i p) \<and>
                 nfree da p < PAGE_SIZE div class_size i))"

definition da_blocks :: "dyn_alloc \<Rightarrow> bool" where
  "da_blocks da \<longleftrightarrow>
     (\<forall>i < 9. distinct (freeBlockLists da i) \<and>
        (\<forall>b \<in> set (freeBlockLists da i).
           dynAllocStart da \<le> b \<and> b < dynAllocEnd da \<and>
           (b - dynAllocStart da) mod class_size i = 0 \<and>
           bsize da (page_of da b) = class_size i))"

definition da_inv :: "dyn_alloc \<Rightarrow> bool" where
  "da_inv da \<longleftrightarrow> da_layout da \<and> da_pages da \<and> da_blocks da"

text \<open>The blocks handed out: aligned addresses of carved pages that are on no free list.\<close>

definition allocated :: "dyn_alloc \<Rightarrow> nat set" where
  "allocated da = {b. dynAllocStart da \<le> b \<and> b < dynAllocEnd da \<and>
     bsize da (page_of da b) \<noteq> 0 \<and>
     (b - dynAllocStart da) mod bsize da (page_of da b) = 0 \<and>
     (\<forall>i < 9. b \<notin> set (freeBlockLists da i))}"

lemma set_free_list_simps [simp]:
  "freeBlockLists (set_free_list i v da) = (freeBlockLists da)(i := v)"
  "freePagesList (set_free_list i v da) = freePagesList da"
  "pageBlockInfoArr (set_free_list i v da) = pageBlockInfoArr da"
  "dynAllocStart (set_free_list i v da) = dynAllocStart da"
  "dynAllocEnd (set_free_list i v da) = dynAllocEnd da"
  by (simp_all add: set_free_list_def)

lemma set_page_info_simps [simp]:
  "freeBlockLists (set_page_info p w da) = freeBlockLists da"
  "freePagesList (set_page_info p w da) = freePagesList da"
  "pageBlockInfoArr (set_page_info p w da) = (pageBlockInfoArr da)(p := w)"
  "dynAllocStart (set_page_info p w da) = dynAllocStart da"
  "dynAllocEnd (set_page_info p w da) = dynAllocEnd da"
  by (simp_all add: set_page_info_def)

lemma page_of_frame [simp]:
  "page_of (set_free_list i v da) = page_of da"
  "page_of (set_page_info p w da) = page_of da"
  "page_of (da\<lparr>freePagesList := fp\<rparr>) = page_of da"
  "num_pages (set_free_list i v da) = num_pages da"
  "num_pages (set_page_info p w da) = num_pages da"
  "num_pages (da\<lparr>freePagesList := fp\<rparr>) = num_pages da"
  by (simp_all add: page_of_def num_pages_def fun_eq_iff)

lemma class_size_pos [simp]: "0 < class_size i"
  by (simp add: class_size_def)

lemma class_size_neq [simp]: "class_size i \<noteq> 0"
  by (simp add: class_size_def)

lemma class_size_inj [simp]: "class_size i = class_size j \<longleftrightarrow> i = j"
  by (simp add: class_size_def)

lemma class_size_le: "i < 9 \<Longrightarrow> class_size i \<le> 2048"
proof -
  assume "i < 9"
  then have "(2::nat) ^ (i + 3) \<le> 2 ^ 11" by (intro power_increasing) auto
  then show ?thesis by (simp add: class_size_def)
qed

lemma class_size_dvd: "i < 9 \<Longrightarrow> class_size i dvd 4096"
  using le_imp_power_dvd [of "i + 3" 12 "2::nat"] by (simp add: class_size_def)

lemma class_size_mult: "i < 9 \<Longrightarrow> class_size i * (4096 div class_size i) = 4096"
  using class_size_dvd by simp

lemma blocks_per_page_bounds:
  assumes "i < 9" shows "0 < 4096 div class_size i" and "4096 div class_size i \<le> 512"
proof -
  have "8 \<le> class_size i" by (simp add: class_size_def power_add)
  then have "4096 div class_size i \<le> 4096 div 8" by (intro div_le_mono2) auto
  then show "4096 div class_size i \<le> 512" by simp
  show "0 < 4096 div class_size i"
    using class_size_le [OF assms] by (simp add: div_greater_zero_iff)
qed

lemma page_of_less: "da_layout da \<Longrightarrow> dynAllocStart da \<le> b \<Longrightarrow> b < dynAllocEnd da \<Longrightarrow> page_of da b < num_pages da"
  unfolding page_of_def da_layout_def by (simp add: less_mult_imp_div_less)

lemma page_of_exact:
  "da_layout da \<Longrightarrow> dynAllocStart da \<le> b \<Longrightarrow> b < dynAllocEnd da \<Longrightarrow>
     sub32 b (dynAllocStart da) div PAGE_SIZE = page_of da b"
  by (simp add: page_of_def da_layout_def u32_simps)

text \<open>The block addresses of one page.\<close>

definition page_blocks :: "dyn_alloc \<Rightarrow> nat \<Rightarrow> nat \<Rightarrow> nat list" where
  "page_blocks da i p =
     map (\<lambda>j. dynAllocStart da + p * PAGE_SIZE + j * class_size i) [0..<PAGE_SIZE div class_size i]"

lemma offset_in_page:
  assumes "i < 9" and "j < 4096 div class_size i"
  shows "j * class_size i + class_size i \<le> 4096"
proof -
  have "Suc j * class_size i \<le> (4096 div class_size i) * class_size i"
    using assms(2) by (intro mult_le_mono1) simp
  then show ?thesis using class_size_mult [OF assms(1)] by (simp add: mult.commute)
qed

lemma set_page_blocks:
  assumes "i < 9"
  shows "set (page_blocks da i p) =
    {b. dynAllocStart da \<le> b \<and> page_of da b = p \<and> (b - dynAllocStart da) mod class_size i = 0}"
    (is "?L = ?R")
proof
  show "?L \<subseteq> ?R"
  proof
    fix b assume "b \<in> ?L"
    then obtain j where j: "j < 4096 div class_size i"
      and b: "b = dynAllocStart da + p * 4096 + j * class_size i"
      by (auto simp: page_blocks_def)
    have off: "b - dynAllocStart da = p * 4096 + j * class_size i" by (simp add: b)
    have "p * 4096 + j * class_size i < Suc p * 4096"
      using offset_in_page [OF assms j] class_size_pos [of i] unfolding mult_Suc by linarith
    then have "page_of da b = p"
      unfolding page_of_def off by (intro div_nat_eqI) auto
    moreover have "(b - dynAllocStart da) mod class_size i = 0"
      unfolding off using class_size_dvd [OF assms] by (simp add: mod_add_eq [symmetric] mod_eq_0_iff_dvd)
    ultimately show "b \<in> ?R" using b by simp
  qed
next
  show "?R \<subseteq> ?L"
  proof
    fix b assume "b \<in> ?R"
    then have b: "dynAllocStart da \<le> b" "page_of da b = p" "(b - dynAllocStart da) mod class_size i = 0"
      by auto
    define off where "off = b - dynAllocStart da"
    have p: "off div 4096 = p" and m: "class_size i dvd off"
      using b by (auto simp: off_def page_of_def mod_eq_0_iff_dvd)
    have "class_size i dvd off mod 4096"
      using m class_size_dvd [OF assms] by (simp add: dvd_mod)
    then obtain j where j: "off mod 4096 = j * class_size i"
      by (metis dvd_def mult.commute)
    have "j * class_size i < 4096" using j by (metis mod_less_divisor zero_less_numeral)
    then have "j < 4096 div class_size i"
      using class_size_mult [OF assms] by (metis mult.commute mult_less_cancel2)
    moreover have "b = dynAllocStart da + p * 4096 + j * class_size i"
      using b(1) p j by (metis add.assoc div_mult_mod_eq le_add_diff_inverse off_def)
    ultimately show "b \<in> ?L" by (auto simp: page_blocks_def)
  qed
qed

lemma distinct_page_blocks: "distinct (page_blocks da i p)"
  by (simp add: page_blocks_def distinct_map inj_on_def)

lemma length_page_blocks [simp]: "length (page_blocks da i p) = 4096 div class_size i"
  by (simp add: page_blocks_def)


lemma page_of_cong: "dynAllocStart da' = dynAllocStart da \<Longrightarrow> page_of da' = page_of da"
  by (simp add: page_of_def fun_eq_iff)

lemma da_blocks_mono:
  assumes "da_blocks da" and "dynAllocStart da' = dynAllocStart da" and "dynAllocEnd da' = dynAllocEnd da"
    and "\<And>i. i < 9 \<Longrightarrow> distinct (freeBlockLists da' i)"
    and "\<And>i b. i < 9 \<Longrightarrow> b \<in> set (freeBlockLists da' i) \<Longrightarrow>
           b \<in> set (freeBlockLists da i) \<and> bsize da' (page_of da b) = bsize da (page_of da b)"
  shows "da_blocks da'"
  using assms(1,4,5) unfolding da_blocks_def page_of_cong [OF assms(2)] assms(2,3) by metis

section \<open>Taking a block from a free list\<close>

lemma da_invD:
  assumes "da_inv da" and "i < 9" and "b \<in> set (freeBlockLists da i)"
  shows "dynAllocStart da \<le> b" and "b < dynAllocEnd da" and "page_of da b < num_pages da"
    and "bsize da (page_of da b) = class_size i" and "page_of da b \<notin> set (freePagesList da)"
    and "(b - dynAllocStart da) mod class_size i = 0" and "distinct (freeBlockLists da i)"
proof -
  show r: "dynAllocStart da \<le> b" "b < dynAllocEnd da" "bsize da (page_of da b) = class_size i"
      "(b - dynAllocStart da) mod class_size i = 0" "distinct (freeBlockLists da i)"
    using assms by (auto simp: da_inv_def da_blocks_def)
  show "page_of da b < num_pages da"
    using assms(1) r by (auto simp: da_inv_def intro: page_of_less)
  show "page_of da b \<notin> set (freePagesList da)"
    using assms(1) r(3) class_size_pos [of i] by (auto simp: da_inv_def da_pages_def)
qed

lemma carved_page:
  assumes "da_inv da" and "p < num_pages da" and "p \<notin> set (freePagesList da)"
  obtains i where "i < 9" "bsize da p = class_size i" "nfree da p = length (free_on da i p)"
    "nfree da p < PAGE_SIZE div class_size i"
  using assms by (auto simp: da_inv_def da_pages_def)

lemma take_block_eq:
  assumes "da_inv da" and "i < 9" and "b \<in> set (freeBlockLists da i)"
  shows "take_block i b da =
    Inr (set_page_info (page_of da b)
           ((pageBlockInfoArr da (page_of da b))\<lparr>num_of_free_blocks := nfree da (page_of da b) - 1\<rparr>)
           (set_free_list i (remove1 b (freeBlockLists da i)) da))"
    and "0 < nfree da (page_of da b)"
proof -
  note f = da_invD [OF assms]
  have lay: "da_layout da" using assms(1) by (simp add: da_inv_def)
  obtain j where j: "j < 9" "bsize da (page_of da b) = class_size j"
      "nfree da (page_of da b) = length (free_on da j (page_of da b))"
      "nfree da (page_of da b) < PAGE_SIZE div class_size j"
    using carved_page [OF assms(1) f(3) f(5)] .
  have "j = i" using j(2) f(4) by simp
  moreover have "b \<in> set (free_on da i (page_of da b))"
    using assms(3) by (simp add: free_on_def)
  ultimately show pos: "0 < nfree da (page_of da b)" using j(3) by (auto intro: length_pos_if_in_set)
  have "nfree da (page_of da b) < 65536"
    using j(4) blocks_per_page_bounds(2) [OF j(1)] by linarith
  moreover have "page_of da b < NUM_PAGE_INFOS"
    using f(3) lay by (simp add: da_layout_def)
  ultimately show "take_block i b da = Inr (set_page_info (page_of da b)
           ((pageBlockInfoArr da (page_of da b))\<lparr>num_of_free_blocks := nfree da (page_of da b) - 1\<rparr>)
           (set_free_list i (remove1 b (freeBlockLists da i)) da))"
    using pos assms(3) page_of_exact [OF lay f(1,2)]
    by (simp add: take_block_def list_remove_def dec16_exact Let_def)
qed

lemma take_block_inv:
  assumes "da_inv da" and "i < 9" and "b \<in> set (freeBlockLists da i)" and "take_block i b da = Inr da'"
  shows "da_inv da'"
proof -
  note f = da_invD [OF assms(1-3)] and t = take_block_eq [OF assms(1-3)]
  let ?p = "page_of da b"
  have da': "da' = set_page_info ?p ((pageBlockInfoArr da ?p)\<lparr>num_of_free_blocks := nfree da ?p - 1\<rparr>)
           (set_free_list i (remove1 b (freeBlockLists da i)) da)"
    using t(1) assms(4) by simp
  have bs: "bsize da' q = bsize da q" for q by (simp add: da')
  have nf: "nfree da' q = (if q = ?p then nfree da ?p - 1 else nfree da q)" for q by (simp add: da')
  have fo: "free_on da' j q = (if j = i \<and> q = ?p then remove1 b (free_on da i q) else free_on da j q)" for j q
    by (auto simp: free_on_def da' filter_remove1 filter_remove1_other)
  have mem: "b \<in> set (free_on da i ?p)" using assms(3) by (simp add: free_on_def)
  have lay: "da_layout da'" using assms(1) by (simp add: da_inv_def da_layout_def da')
  have "da_pages da'"
    unfolding da_pages_def
  proof (intro conjI allI impI ballI)
    show "distinct (freePagesList da')" using assms(1) by (simp add: da' da_inv_def da_pages_def)
    fix p assume "p \<in> set (freePagesList da')"
    then show "p < num_pages da'" "bsize da' p = 0" "nfree da' p = 0"
      using assms(1) f(5) by (auto simp: da' da_inv_def da_pages_def)
  next
    fix p assume p: "p < num_pages da'" "p \<notin> set (freePagesList da')"
    obtain j where j: "j < 9" "bsize da p = class_size j" "nfree da p = length (free_on da j p)"
        "nfree da p < PAGE_SIZE div class_size j"
      using carved_page [OF assms(1)] p by (auto simp: da')
    show "\<exists>j<9. bsize da' p = class_size j \<and> nfree da' p = length (free_on da' j p) \<and>
            nfree da' p < PAGE_SIZE div class_size j"
    proof (intro exI conjI)
      show "nfree da' p = length (free_on da' j p)"
        using j(2,3) f(4) mem by (auto simp: fo nf length_remove1)
      show "nfree da' p < PAGE_SIZE div class_size j"
        using j(4) by (auto simp: da')
    qed (use j bs in auto)
  qed
  moreover have "da_blocks da'"
  proof (rule da_blocks_mono [of da])
    show "distinct (freeBlockLists da' j)" if "j < 9" for j
      using assms(1) that by (simp add: da' da_inv_def da_blocks_def)
    show "c \<in> set (freeBlockLists da j) \<and> bsize da' (page_of da c) = bsize da (page_of da c)"
      if "j < 9" "c \<in> set (freeBlockLists da' j)" for j c
      using that(2) set_remove1_subset [of b "freeBlockLists da i"]
      by (auto simp: da' split: if_splits)
  qed (use assms(1) in \<open>simp_all add: da_inv_def da'\<close>)
  ultimately show ?thesis using lay by (simp add: da_inv_def)
qed


lemma take_block_allocated:
  assumes "da_inv da" and "i < 9" and "b \<in> set (freeBlockLists da i)" and "take_block i b da = Inr da'"
  shows "allocated da' = insert b (allocated da)" and "b \<notin> allocated da"
    and "bsize da' p = bsize da p" and "freePagesList da' = freePagesList da"
    and "dynAllocStart da' = dynAllocStart da" and "dynAllocEnd da' = dynAllocEnd da"
proof -
  note f = da_invD [OF assms(1-3)] and t = take_block_eq [OF assms(1-3)]
  have da': "da' = set_page_info (page_of da b)
           ((pageBlockInfoArr da (page_of da b))\<lparr>num_of_free_blocks := nfree da (page_of da b) - 1\<rparr>)
           (set_free_list i (remove1 b (freeBlockLists da i)) da)"
    using t(1) assms(4) by simp
  show bs: "bsize da' p = bsize da p" for p by (simp add: da')
  show "freePagesList da' = freePagesList da" "dynAllocStart da' = dynAllocStart da"
      "dynAllocEnd da' = dynAllocEnd da" by (simp_all add: da')
  have uniq: "j = i" if "j < 9" "b \<in> set (freeBlockLists da j)" for j
    using da_invD(4) [OF assms(1) that] f(4) by simp
  have fl: "set (freeBlockLists da' j) = set (freeBlockLists da j) - {b}" if "j < 9" for j
    using uniq [OF that] f(7) by (cases "j = i") (auto simp: da' set_remove1_eq)
  have mem: "(\<forall>j<9. c \<notin> set (freeBlockLists da' j)) \<longleftrightarrow>
      c = b \<or> (\<forall>j<9. c \<notin> set (freeBlockLists da j))" for c
    using fl by auto
  have ab: "page_of da' = page_of da" "dynAllocStart da' = dynAllocStart da"
      "dynAllocEnd da' = dynAllocEnd da" by (simp_all add: da')
  show "allocated da' = insert b (allocated da)"
    unfolding allocated_def bs ab mem using f by auto
  show "b \<notin> allocated da" using assms(2,3) by (auto simp: allocated_def)
qed

section \<open>Carving and uncarving a page\<close>

lemma carve_page_eq:
  assumes "\<And>j. i \<le> j \<Longrightarrow> j < i + n \<Longrightarrow> 0 < page_va + j * bs \<and> page_va + j * bs < U32 \<and> page_va + j * bs \<notin> set xs"
    and "0 < bs"
  shows "carve_page page_va bs i n xs = Inr (xs @ map (\<lambda>j. page_va + j * bs) [i..<i + n])"
  using assms(1)
proof (induction n arbitrary: i xs)
  case (Suc n)
  have h: "0 < page_va + i * bs" "page_va + i * bs < U32" "page_va + i * bs \<notin> set xs"
    using Suc.prems [of i] by auto
  then have b: "add32 page_va (mul32 i bs) = page_va + i * bs"
    by (simp add: u32_simps)
  have "carve_page page_va bs (Suc i) n (xs @ [page_va + i * bs]) =
      Inr ((xs @ [page_va + i * bs]) @ map (\<lambda>j. page_va + j * bs) [Suc i..<Suc i + n])"
    by (rule Suc.IH) (use Suc.prems assms(2) in auto)
  then show ?case
    using h by (simp add: b list_insert_tail_def upt_conv_Cons)
qed simp

lemma uncarve_page_eq:
  assumes "\<And>j. j < n \<Longrightarrow> cur + j * bs \<in> set xs" and "cur + n * bs < U32"
    and "distinct xs" and "0 < bs"
  shows "uncarve_page cur bs n xs = Inr (filter (\<lambda>b. \<forall>j < n. b \<noteq> cur + j * bs) xs)"
  using assms
proof (induction n arbitrary: cur xs)
  case 0
  then show ?case by simp
next
  case (Suc n)
  have m: "cur \<in> set xs" using Suc.prems(1) [of 0] by simp
  have c: "add32 cur bs = cur + bs" using Suc.prems(2) by (simp add: u32_simps)
  have rest: "uncarve_page (cur + bs) bs n (remove1 cur xs) =
      Inr (filter (\<lambda>b. \<forall>j < n. b \<noteq> cur + bs + j * bs) (remove1 cur xs))"
  proof (rule Suc.IH)
    show "cur + bs + j * bs \<in> set (remove1 cur xs)" if "j < n" for j
      using Suc.prems(1) [of "Suc j"] that Suc.prems(3,4) by (simp add: add.assoc)
  qed (use Suc.prems in \<open>auto simp: algebra_simps\<close>)
  have "filter (\<lambda>b. \<forall>j < n. b \<noteq> cur + bs + j * bs) (remove1 cur xs) =
      filter (\<lambda>b. \<forall>j < Suc n. b \<noteq> cur + j * bs) xs"
    using Suc.prems(3)
    by (auto simp: distinct_remove1_removeAll removeAll_filter_not_eq less_Suc_eq_0_disj add.assoc
        intro!: filter_cong)
  then show ?case using m rest by (simp add: list_remove_def c)
qed

lemma find_log2_spec:
  assumes "2 ^ l < 2 * sz" "l \<le> 11" "sz \<le> 2048"
  shows "find_log2 sz l \<le> 11 \<and> sz \<le> 2 ^ find_log2 sz l \<and> l \<le> find_log2 sz l \<and> 2 ^ find_log2 sz l < 2 * sz"
  using assms
proof (induction sz l rule: find_log2.induct)
  case (1 sz l)
  show ?case
  proof (cases "2 ^ l < sz")
    case True
    then have "l \<noteq> 11" using "1.prems" by auto
    with True "1.IH" "1.prems" show ?thesis
      by (auto simp: find_log2.simps [of sz l])
  next
    case False
    with "1.prems" show ?thesis by (auto simp: find_log2.simps [of sz l])
  qed
qed

lemma find_log2_min:
  assumes "0 < sz" "sz \<le> 2048"
  shows "find_log2 sz 3 \<le> 11" "3 \<le> find_log2 sz 3" "sz \<le> 2 ^ find_log2 sz 3"
    "2 ^ find_log2 sz 3 < max 9 (2 * sz)"
proof -
  have "find_log2 sz 3 \<le> 11 \<and> 3 \<le> find_log2 sz 3 \<and> sz \<le> 2 ^ find_log2 sz 3 \<and>
      2 ^ find_log2 sz 3 < max 9 (2 * sz)"
  proof (cases "sz \<le> 8")
    case True
    then show ?thesis by (simp add: find_log2.simps [of sz 3])
  next
    case False
    then show ?thesis using find_log2_spec [of 3 sz] assms by (auto simp: max_def)
  qed
  then show "find_log2 sz 3 \<le> 11" "3 \<le> find_log2 sz 3" "sz \<le> 2 ^ find_log2 sz 3"
      "2 ^ find_log2 sz 3 < max 9 (2 * sz)" by auto
qed

lemma log2_shift_power: "log2_shift (2 ^ n) = n"
proof (induction n)
  case (Suc n)
  have "(2::nat) ^ Suc n div 2 = 2 ^ n" by simp
  then show ?case using Suc by (subst log2_shift.simps) simp
qed (simp add: log2_shift.simps)

lemma log2_shift_class_size [simp]: "log2_shift (class_size i) = i + 3"
  by (simp add: class_size_def log2_shift_power)


section \<open>A fresh page\<close>

definition fresh_page :: "nat \<Rightarrow> nat \<Rightarrow> dyn_alloc \<Rightarrow> dyn_alloc" where
  "fresh_page i p da =
     set_page_info p \<lparr>block_size = class_size i, num_of_free_blocks = PAGE_SIZE div class_size i - 1\<rparr>
       (set_free_list i (tl (page_blocks da i p)) (da\<lparr>freePagesList := remove1 p (freePagesList da)\<rparr>))"

lemma fresh_page_simps [simp]:
  "freeBlockLists (fresh_page i p da) = (freeBlockLists da)(i := tl (page_blocks da i p))"
  "freePagesList (fresh_page i p da) = remove1 p (freePagesList da)"
  "dynAllocStart (fresh_page i p da) = dynAllocStart da"
  "dynAllocEnd (fresh_page i p da) = dynAllocEnd da"
  "num_pages (fresh_page i p da) = num_pages da"
  "page_of (fresh_page i p da) = page_of da"
  "bsize (fresh_page i p da) q = (if q = p then class_size i else bsize da q)"
  "nfree (fresh_page i p da) q = (if q = p then PAGE_SIZE div class_size i - 1 else nfree da q)"
  by (simp_all add: fresh_page_def)

lemma page_blocks_hd:
  assumes "i < 9" shows "page_blocks da i p = (dynAllocStart da + p * PAGE_SIZE) # tl (page_blocks da i p)"
  using blocks_per_page_bounds(1) [OF assms] by (simp add: page_blocks_def upt_conv_Cons)

lemma page_blocks_range:
  assumes "da_layout da" "i < 9" "p < num_pages da" "b \<in> set (page_blocks da i p)"
  shows "dynAllocStart da \<le> b" "b < dynAllocEnd da" "page_of da b = p"
    "(b - dynAllocStart da) mod class_size i = 0"
proof -
  have b: "dynAllocStart da \<le> b" "page_of da b = p" "(b - dynAllocStart da) mod class_size i = 0"
    using assms(4) by (auto simp: set_page_blocks [OF assms(2)])
  then show "dynAllocStart da \<le> b" "page_of da b = p" "(b - dynAllocStart da) mod class_size i = 0" .
  have "b - dynAllocStart da < PAGE_SIZE * num_pages da"
    using b(2) assms(3) unfolding page_of_def
    by (metis div_less_iff_less_mult mult.commute zero_less_numeral)
  then show "b < dynAllocEnd da" using assms(1) b(1) unfolding da_layout_def by linarith
qed

lemma free_on_fresh_page:
  assumes "da_inv da" "i < 9" "p \<in> set (freePagesList da)" "freeBlockLists da i = []"
  shows "free_on (fresh_page i p da) i p = tl (page_blocks da i p)"
    and "q \<noteq> p \<Longrightarrow> free_on (fresh_page i p da) j q = free_on da j q"
proof -
  have on: "\<forall>b \<in> set (tl (page_blocks da i p)). page_of da b = p"
    using set_page_blocks [OF assms(2)] page_blocks_hd [OF assms(2), of da p]
    by (metis (mono_tags, lifting) list.set_intros(2) mem_Collect_eq)
  then show "free_on (fresh_page i p da) i p = tl (page_blocks da i p)"
    by (simp add: free_on_def)
  show "free_on (fresh_page i p da) j q = free_on da j q" if "q \<noteq> p"
    using on that assms(4) by (auto simp: free_on_def filter_empty_conv)
qed

lemma fresh_page_inv:
  assumes "da_inv da" "i < 9" "p \<in> set (freePagesList da)" "freeBlockLists da i = []"
  shows "da_inv (fresh_page i p da)"
proof -
  have lay: "da_layout da" and pg: "da_pages da" and bl: "da_blocks da"
    using assms(1) by (auto simp: da_inv_def)
  have p: "p < num_pages da" "distinct (freePagesList da)" using assms(3) pg by (auto simp: da_pages_def)
  have nb: "page_of da b \<noteq> p" if "j < 9" "b \<in> set (freeBlockLists da j)" for j b
    using da_invD(5) [OF assms(1) that] assms(3) by auto
  have "da_pages (fresh_page i p da)"
    unfolding da_pages_def
  proof (intro conjI allI impI ballI)
    fix q assume q: "q < num_pages (fresh_page i p da)" "q \<notin> set (freePagesList (fresh_page i p da))"
    show "\<exists>j<9. bsize (fresh_page i p da) q = class_size j \<and>
        nfree (fresh_page i p da) q = length (free_on (fresh_page i p da) j q) \<and>
        nfree (fresh_page i p da) q < PAGE_SIZE div class_size j"
    proof (cases "q = p")
      case True
      then show ?thesis
        using assms(2) blocks_per_page_bounds(1) [OF assms(2)] free_on_fresh_page(1) [OF assms]
        by (intro exI [of _ i]) auto
    next
      case False
      then obtain j where "j < 9" "bsize da q = class_size j" "nfree da q = length (free_on da j q)"
          "nfree da q < PAGE_SIZE div class_size j"
        using carved_page [OF assms(1), of q] q p(2) by auto
      with False show ?thesis
        using free_on_fresh_page(2) [OF assms False] by (intro exI [of _ j]) auto
    qed
  qed (use pg p in \<open>auto simp: da_pages_def\<close>)
  moreover have "da_blocks (fresh_page i p da)"
    unfolding da_blocks_def
  proof (intro allI impI conjI ballI)
    fix j :: nat assume j: "j < 9"
    show "distinct (freeBlockLists (fresh_page i p da) j)"
      using bl j distinct_page_blocks [of da i p] by (auto simp: da_blocks_def distinct_tl)
    fix b assume b: "b \<in> set (freeBlockLists (fresh_page i p da) j)"
    have "dynAllocStart da \<le> b \<and> b < dynAllocEnd da \<and> (b - dynAllocStart da) mod class_size j = 0 \<and>
        bsize (fresh_page i p da) (page_of da b) = class_size j"
    proof (cases "j = i")
      case True
      then have "b \<in> set (page_blocks da i p)" using b by (simp add: list.set_sel(2) tl_Nil) (metis list.set_sel(2) list.sel(2))
      from page_blocks_range [OF lay assms(2) p(1) this] show ?thesis using True by simp
    next
      case False
      then have "b \<in> set (freeBlockLists da j)" using b by simp
      with da_invD [OF assms(1) j this] nb [OF j this] show ?thesis by auto
    qed
    then show "dynAllocStart (fresh_page i p da) \<le> b" "b < dynAllocEnd (fresh_page i p da)"
      "(b - dynAllocStart (fresh_page i p da)) mod class_size j = 0"
      "bsize (fresh_page i p da) (page_of (fresh_page i p da) b) = class_size j"
      by auto
  qed
  moreover have "da_layout (fresh_page i p da)" using lay by (simp add: da_layout_def)
  ultimately show ?thesis by (simp add: da_inv_def)
qed


lemma fresh_page_allocated:
  assumes "da_inv da" "i < 9" "p \<in> set (freePagesList da)" "freeBlockLists da i = []"
  defines "b \<equiv> dynAllocStart da + p * PAGE_SIZE"
  shows "allocated (fresh_page i p da) = insert b (allocated da)" and "b \<notin> allocated da"
proof -
  have lay: "da_layout da" and pg: "da_pages da" using assms(1) by (auto simp: da_inv_def)
  have p: "p < num_pages da" "bsize da p = 0" using assms(3) pg by (auto simp: da_pages_def)
  have bp: "page_of da b = p" by (simp add: b_def page_of_def)
  then show "b \<notin> allocated da" using p(2) by (simp add: allocated_def)
  note pb = page_blocks_hd [OF assms(2), of da p, folded b_def]
  have bmem: "b \<in> set (page_blocks da i p)" by (subst pb) simp
  note r = page_blocks_range [OF lay assms(2) p(1)]
  have nb: "b \<notin> set (tl (page_blocks da i p))"
    using distinct_page_blocks [of da i p] pb by (metis distinct.simps(2))
  have free: "(\<forall>j<9. c \<notin> set (freeBlockLists (fresh_page i p da) j)) \<longleftrightarrow>
      c \<notin> set (tl (page_blocks da i p)) \<and> (\<forall>j<9. c \<notin> set (freeBlockLists da j))" for c
  proof -
    have fl: "freeBlockLists (fresh_page i p da) j =
        (if j = i then tl (page_blocks da i p) else freeBlockLists da j)" for j by simp
    have e: "c \<notin> set (freeBlockLists da i)" by (simp only: assms(4)) simp
    show ?thesis
    proof
      assume l: "\<forall>j<9. c \<notin> set (freeBlockLists (fresh_page i p da) j)"
      have "c \<notin> set (freeBlockLists da j)" if "j < 9" for j
        using l [rule_format, OF that] e by (cases "j = i") (simp_all only: fl if_True if_False refl simp_thms)
      then show "c \<notin> set (tl (page_blocks da i p)) \<and> (\<forall>j<9. c \<notin> set (freeBlockLists da j))"
        using l [rule_format, OF assms(2)] unfolding fl by simp
    qed (simp only: fl, simp)
  qed
  show "allocated (fresh_page i p da) = insert b (allocated da)"
  proof (intro set_eqI iffI)
    fix c assume c: "c \<in> allocated (fresh_page i p da)"
    show "c \<in> insert b (allocated da)"
    proof (cases "page_of da c = p")
      case True
      then have "c \<in> set (page_blocks da i p)"
        using c by (simp add: allocated_def set_page_blocks [OF assms(2)])
      moreover have "c \<notin> set (tl (page_blocks da i p))"
        using c free [of c] unfolding allocated_def by blast
      ultimately have "c = b" using pb by (metis set_ConsD)
      then show ?thesis by simp
    next
      case False
      with c free [of c] show ?thesis by (simp add: allocated_def)
    qed
  next
    fix c assume "c \<in> insert b (allocated da)"
    then consider "c = b" | "c \<in> allocated da" by blast
    then show "c \<in> allocated (fresh_page i p da)"
    proof cases
      case 1
      have "\<forall>j<9. b \<notin> set (freeBlockLists da j)"
        using da_invD(5) [OF assms(1)] bp assms(3) by auto
      then show ?thesis
        using 1 r [OF bmem] nb free [of b] by (simp add: allocated_def)
    next
      case 2
      then have "page_of da c \<noteq> p" using p(2) by (auto simp: allocated_def)
      moreover from this have "c \<notin> set (tl (page_blocks da i p))"
        using r(3) [of c] pb by (metis list.set_intros(2))
      ultimately show ?thesis using 2 free [of c] by (simp add: allocated_def)
    qed
  qed
qed

lemma carve_fresh_page:
  assumes "da_inv da" "i < 9" "p \<in> set (freePagesList da)"
  shows "carve_page (dynAllocStart da + p * PAGE_SIZE) (class_size i) 0 (PAGE_SIZE div class_size i) [] =
    Inr (page_blocks da i p)"
    and "to_page_va (int p) da = Inr (dynAllocStart da + p * PAGE_SIZE)"
proof -
  have lay: "da_layout da" and p: "p < num_pages da"
    using assms by (auto simp: da_inv_def da_pages_def)
  have s: "0 < dynAllocStart da" "dynAllocEnd da < U32" using lay by (auto simp: da_layout_def)
  have "carve_page (dynAllocStart da + p * PAGE_SIZE) (class_size i) 0 (PAGE_SIZE div class_size i) [] =
    Inr ([] @ map (\<lambda>j. dynAllocStart da + p * PAGE_SIZE + j * class_size i) [0..<0 + PAGE_SIZE div class_size i])"
  proof (rule carve_page_eq)
    fix j assume "j < 0 + 4096 div class_size i"
    then have "dynAllocStart da + p * PAGE_SIZE + j * class_size i \<in> set (page_blocks da i p)"
      by (simp add: page_blocks_def)
    from page_blocks_range(2) [OF lay assms(2) p this] s
    show "0 < dynAllocStart da + p * PAGE_SIZE + j * class_size i \<and>
        dynAllocStart da + p * PAGE_SIZE + j * class_size i < U32 \<and>
        dynAllocStart da + p * PAGE_SIZE + j * class_size i \<notin> set []" by simp
  qed simp
  then show "carve_page (dynAllocStart da + p * PAGE_SIZE) (class_size i) 0 (PAGE_SIZE div class_size i) [] =
    Inr (page_blocks da i p)" by (simp add: page_blocks_def)
  have "dynAllocStart da + p * PAGE_SIZE < U32"
    using lay p s(2) by (auto simp: da_layout_def)
  then show "to_page_va (int p) da = Inr (dynAllocStart da + p * PAGE_SIZE)"
    using lay p by (simp add: to_page_va_def da_layout_def u32_simps)
qed


section \<open>Allocation\<close>

definition sizeClass :: "nat \<Rightarrow> nat" where
  "sizeClass sz = find_log2 sz LOG2_MIN_SIZE - LOG2_MIN_SIZE"

lemma sizeClass_facts:
  assumes "0 < sz" "sz \<le> 2048"
  shows "sizeClass sz < 9" "2 ^ find_log2 sz 3 = class_size (sizeClass sz)"
    "sz \<le> class_size (sizeClass sz)" "class_size (sizeClass sz) < max 9 (2 * sz)"
  using find_log2_min [OF assms] by (auto simp: sizeClass_def class_size_def)

lemma alloc_block_eq:
  assumes "da_inv da" "0 < sz" "sz \<le> 2048"
  shows "alloc_block gp sz (da, k) =
    (case freeBlockLists da (sizeClass sz) of
       blk # _ \<Rightarrow> andThen (take_block (sizeClass sz) blk da) (\<lambda>da. Inr (blk, da, k))
     | [] \<Rightarrow> (case freePagesList da of
          p # _ \<Rightarrow> andThen (gp (dynAllocStart da + p * PAGE_SIZE) k)
                     (\<lambda>k. Inr (dynAllocStart da + p * PAGE_SIZE, fresh_page (sizeClass sz) p da, k))
        | [] \<Rightarrow> andThen (alloc_larger (sizeClass sz + 1) da) (\<lambda>(b, da). Inr (b, da, k))))"
proof -
  note c = sizeClass_facts [OF assms(2,3)] and l = find_log2_min [OF assms(2,3)]
  let ?i = "sizeClass sz"
  have fp: "to_page_va (int p) (da\<lparr>freePagesList := fp\<rparr>) = to_page_va (int p) da" for p fp
    by (simp add: to_page_va_def)
  have n: "PAGE_SIZE div class_size ?i mod 65536 = PAGE_SIZE div class_size ?i"
    "dec16 (PAGE_SIZE div class_size ?i) = PAGE_SIZE div class_size ?i - 1"
    "class_size ?i mod 65536 = class_size ?i"
    using blocks_per_page_bounds [OF c(1)] class_size_le [OF c(1)] by (simp_all add: dec16_exact)
  have idx: "find_log2 sz 3 - 3 = ?i" "\<not> 11 < find_log2 sz 3" using l by (auto simp: sizeClass_def)
  show ?thesis
  proof (cases "freeBlockLists da ?i")
    case Nil
    show ?thesis
    proof (cases "freePagesList da")
      case (Cons p ps)
      have p: "p \<in> set (freePagesList da)" by (simp add: Cons)
      note cv = carve_fresh_page [OF assms(1) c(1) p]
      have hd: "page_blocks da ?i p = (dynAllocStart da + p * PAGE_SIZE) # tl (page_blocks da ?i p)"
        by (rule page_blocks_hd [OF c(1)])
      have rm: "list_remove (dynAllocStart da + p * PAGE_SIZE) (page_blocks da ?i p) = Inr (tl (page_blocks da ?i p))"
        using hd by (metis list.set_intros(1) list_remove_def remove1.simps(2))
      have rp: "list_remove p (p # ps) = Inr ps" by (simp add: list_remove_def)
      have cs: "(case page_blocks da ?i p of [] \<Rightarrow> x | b # bs \<Rightarrow> f b) = f (dynAllocStart da + p * PAGE_SIZE)" for x f
        by (subst hd) simp
      show ?thesis
        using assms(2,3) Nil Cons
        by (simp add: alloc_block_def idx c(2) n fp cv rm cs rp fresh_page_def Let_def)
    qed (use assms(2,3) Nil in \<open>simp add: alloc_block_def idx c(2) Let_def\<close>)
  qed (use assms(2,3) in \<open>simp add: alloc_block_def idx c(2) Let_def\<close>)
qed

lemma alloc_larger_spec:
  assumes "da_inv da"
  shows "(\<exists>j b da'. i \<le> j \<and> j < 9 \<and> b \<in> set (freeBlockLists da j) \<and> take_block j b da = Inr da' \<and>
            alloc_larger i da = Inr (b, da')) \<or>
         (\<forall>j. i \<le> j \<and> j < 9 \<longrightarrow> freeBlockLists da j = []) \<and>
         alloc_larger i da = Inl (Panic ''alloc_block() is out of free pages and blocks'')"
  using assms
proof (induction i da rule: alloc_larger.induct)
  case (1 i da)
  show ?case
  proof (cases "i < 9")
    case False
    then have "alloc_larger i da = Inl (Panic ''alloc_block() is out of free pages and blocks'')"
      by (simp add: alloc_larger.simps)
    with False show ?thesis by (meson le_less_trans)
  next
    case True
    show ?thesis
    proof (cases "freeBlockLists da i")
      case (Cons b bs)
      then have b: "b \<in> set (freeBlockLists da i)" by simp
      obtain da' where "take_block i b da = Inr da'"
        using take_block_eq(1) [OF "1.prems" True b] by simp
      with b True Cons show ?thesis by (auto simp: alloc_larger.simps [of i])
    next
      case Nil
      have "alloc_larger i da = alloc_larger (i + 1) da"
        using True Nil by (simp add: alloc_larger.simps [of i])
      moreover have "i \<le> j \<longleftrightarrow> j = i \<or> i + 1 \<le> j" for j by auto
      moreover have "i \<le> LOG2_MAX_SIZE - LOG2_MIN_SIZE" using True by simp
      ultimately show ?thesis using "1.IH" [OF _ Nil "1.prems"] Nil by metis
    qed
  qed
qed


lemma allocated_bsize: "b \<in> allocated da \<Longrightarrow> bsize da (page_of da b) \<noteq> 0"
  by (simp add: allocated_def)

text \<open>What a successful call leaves: the invariant, one more block, everything else as it was.\<close>

definition block_added :: "nat \<Rightarrow> dyn_alloc \<Rightarrow> dyn_alloc \<Rightarrow> bool" where
  "block_added b da da' \<longleftrightarrow> da_inv da' \<and> b \<notin> allocated da \<and> allocated da' = insert b (allocated da) \<and>
     dynAllocStart da' = dynAllocStart da \<and> dynAllocEnd da' = dynAllocEnd da \<and>
     (\<forall>c \<in> allocated da. bsize da' (page_of da c) = bsize da (page_of da c))"

lemma take_block_added:
  assumes "da_inv da" "i < 9" "b \<in> set (freeBlockLists da i)" "take_block i b da = Inr da'"
  shows "block_added b da da'" and "bsize da' (page_of da b) = class_size i"
  using take_block_inv [OF assms] take_block_allocated [OF assms] da_invD(4) [OF assms(1-3)]
  by (auto simp: block_added_def)

lemma fresh_page_added:
  assumes "da_inv da" "i < 9" "p \<in> set (freePagesList da)" "freeBlockLists da i = []"
  shows "block_added (dynAllocStart da + p * PAGE_SIZE) da (fresh_page i p da)"
    and "bsize (fresh_page i p da) (page_of da (dynAllocStart da + p * PAGE_SIZE)) = class_size i"
proof -
  have "bsize da p = 0" using assms(1,3) by (simp add: da_inv_def da_pages_def)
  then have "\<forall>c \<in> allocated da. page_of da c \<noteq> p" using allocated_bsize by metis
  then show "block_added (dynAllocStart da + p * PAGE_SIZE) da (fresh_page i p da)"
    using fresh_page_inv [OF assms] fresh_page_allocated [OF assms] by (simp add: block_added_def)
  show "bsize (fresh_page i p da) (page_of da (dynAllocStart da + p * PAGE_SIZE)) = class_size i"
    by (simp add: page_of_def)
qed

lemma class_size_mono: "i \<le> j \<Longrightarrow> class_size i \<le> class_size j"
  by (simp add: class_size_def power_increasing)

lemma alloc_block_success:
  assumes "da_inv da" "0 < sz" "alloc_block gp sz (da, k) = Inr (b, da', k')"
  shows "block_added b da da' \<and> sz \<le> bsize da' (page_of da b)"
proof -
  have sz: "sz \<le> 2048" using assms(3) by (auto simp: alloc_block_def res_simps)
  note c = sizeClass_facts [OF assms(2) sz] and r = assms(3) [unfolded alloc_block_eq [OF assms(1,2) sz]]
  have big: "sz \<le> class_size j" if "sizeClass sz \<le> j" for j
    using c(3) class_size_mono [OF that] by linarith
  show ?thesis
  proof (cases "freeBlockLists da (sizeClass sz)")
    case (Cons x xs)
    with r have t: "take_block (sizeClass sz) b da = Inr da'" "b = x"
      by (auto simp: res_simps)
    then have "b \<in> set (freeBlockLists da (sizeClass sz))" by (simp add: Cons)
    from take_block_added [OF assms(1) c(1) this t(1)] big [of "sizeClass sz"]
    show ?thesis by simp
  next
    case Nil
    show ?thesis
    proof (cases "freePagesList da")
      case (Cons p ps)
      with r Nil have "b = dynAllocStart da + p * PAGE_SIZE" "da' = fresh_page (sizeClass sz) p da"
        by (auto simp: res_simps)
      with fresh_page_added [OF assms(1) c(1) _ Nil, of p] Cons big [of "sizeClass sz"]
      show ?thesis by simp
    next
      case fp: Nil
      with r Nil have "alloc_larger (sizeClass sz + 1) da = Inr (b, da')"
        by (auto simp: res_simps)
      then obtain j where j: "sizeClass sz + 1 \<le> j" "j < 9" "b \<in> set (freeBlockLists da j)" "take_block j b da = Inr da'"
        using alloc_larger_spec [OF assms(1), of "sizeClass sz + 1"] by auto
      from take_block_added [OF assms(1) j(2-4)] big [of j] j(1) show ?thesis by simp
    qed
  qed
qed

lemma block_in_region:
  "da_inv da \<Longrightarrow> b \<in> allocated da \<Longrightarrow>
     get_block_size b da = bsize da (page_of da b) \<and> page_of da b < num_pages da"
  by (auto simp: allocated_def get_block_size_def da_inv_def page_of_exact page_of_less)

lemma allocated_class:
  assumes "da_inv da" "b \<in> allocated da"
  obtains i where "i < 9" "bsize da (page_of da b) = class_size i" "b \<in> set (page_blocks da i (page_of da b))"
proof -
  have "page_of da b < num_pages da" using block_in_region [OF assms] by simp
  moreover have "page_of da b \<notin> set (freePagesList da)"
    using allocated_bsize [OF assms(2)] assms(1) by (auto simp: da_inv_def da_pages_def)
  ultimately obtain i where "i < 9" "bsize da (page_of da b) = class_size i"
    using carved_page [OF assms(1)] by metis
  with that assms(2) show ?thesis by (auto simp: set_page_blocks allocated_def)
qed

text \<open>Two blocks of one page do not overlap; blocks of different pages lie in different pages.\<close>

lemma aligned_disjoint:
  fixes a b n :: nat
  assumes "a mod n = 0" "b mod n = 0" "a < b" shows "a + n \<le> b"
proof -
  have "n dvd b - a" using assms by (simp add: mod_eq_0_iff_dvd dvd_diff_nat)
  then show ?thesis using assms(3) by (metis dvd_imp_le le_diff_conv2 less_imp_le add.commute zero_less_diff)
qed

lemma block_within_page:
  assumes "da_inv da" "b \<in> allocated da"
  shows "dynAllocStart da + page_of da b * PAGE_SIZE \<le> b"
    and "b + bsize da (page_of da b) \<le> dynAllocStart da + Suc (page_of da b) * PAGE_SIZE"
proof -
  obtain i where i: "i < 9" "bsize da (page_of da b) = class_size i" "b \<in> set (page_blocks da i (page_of da b))"
    using allocated_class [OF assms] .
  then obtain j where j: "j < 4096 div class_size i"
      and b: "b = dynAllocStart da + page_of da b * PAGE_SIZE + j * class_size i"
    by (auto simp: page_blocks_def)
  show "dynAllocStart da + page_of da b * PAGE_SIZE \<le> b" by (subst (2) b) simp
  show "b + bsize da (page_of da b) \<le> dynAllocStart da + Suc (page_of da b) * PAGE_SIZE"
    using offset_in_page [OF i(1) j] b i(2) unfolding mult_Suc by linarith
qed

lemma allocated_disjoint_ord:
  assumes "da_inv da" "b \<in> allocated da" "c \<in> allocated da" "b < c"
  shows "b + bsize da (page_of da b) \<le> c"
proof (cases "page_of da b = page_of da c")
  case True
  have "b - dynAllocStart da + bsize da (page_of da b) \<le> c - dynAllocStart da"
    using assms True by (intro aligned_disjoint) (auto simp: allocated_def)
  then show ?thesis using assms by (auto simp: allocated_def)
next
  case False
  have "page_of da b \<le> page_of da c" using assms(4) by (simp add: page_of_def div_le_mono diff_le_mono)
  with False have "Suc (page_of da b) * PAGE_SIZE \<le> page_of da c * PAGE_SIZE"
    by (intro mult_le_mono1) simp
  then show ?thesis
    using block_within_page(2) [OF assms(1,2)] block_within_page(1) [OF assms(1,3)] by linarith
qed


section \<open>Release\<close>

definition free_keep :: "nat \<Rightarrow> nat \<Rightarrow> dyn_alloc \<Rightarrow> dyn_alloc" where
  "free_keep i va da =
     set_page_info (page_of da va)
       ((pageBlockInfoArr da (page_of da va))\<lparr>num_of_free_blocks := Suc (nfree da (page_of da va))\<rparr>)
       (set_free_list i (va # freeBlockLists da i) da)"

definition free_last :: "nat \<Rightarrow> nat \<Rightarrow> dyn_alloc \<Rightarrow> dyn_alloc" where
  "free_last i va da =
     (set_page_info (page_of da va) \<lparr>block_size = 0, num_of_free_blocks = 0\<rparr>
       (set_free_list i (filter (\<lambda>b. page_of da b \<noteq> page_of da va) (freeBlockLists da i)) da))
     \<lparr>freePagesList := freePagesList da @ [page_of da va]\<rparr>"

lemma filter_page_blocks:
  assumes "da_inv da" "i < 9" "p < num_pages da" "b \<in> set (freeBlockLists da i) \<or> b \<in> allocated da \<and> bsize da (page_of da b) = class_size i"
  shows "(\<forall>j < PAGE_SIZE div class_size i. b \<noteq> dynAllocStart da + p * PAGE_SIZE + j * class_size i) \<longleftrightarrow>
           page_of da b \<noteq> p"
proof -
  have "dynAllocStart da \<le> b \<and> (b - dynAllocStart da) mod class_size i = 0"
    using assms(4) da_invD(1,6) [OF assms(1,2)] by (auto simp: allocated_def)
  then have "page_of da b = p \<longleftrightarrow> b \<in> set (page_blocks da i p)"
    by (auto simp: set_page_blocks [OF assms(2)])
  then show ?thesis by (auto simp: page_blocks_def)
qed

text \<open>When the last block of a page comes back, all blocks of the page are on the list.\<close>

lemma page_complete:
  assumes "da_inv da" "i < 9" "va \<in> allocated da" "bsize da (page_of da va) = class_size i"
    "Suc (nfree da (page_of da va)) = PAGE_SIZE div class_size i"
  shows "set (page_blocks da i (page_of da va)) \<subseteq> set (va # freeBlockLists da i)"
proof -
  let ?p = "page_of da va"
  have "?p < num_pages da" using block_in_region [OF assms(1,3)] by simp
  moreover have "?p \<notin> set (freePagesList da)"
    using allocated_bsize [OF assms(3)] assms(1) by (auto simp: da_inv_def da_pages_def)
  ultimately have n: "nfree da ?p = length (free_on da i ?p)"
    using carved_page [OF assms(1)] assms(4) by (metis class_size_inj)
  have d: "distinct (va # free_on da i ?p)"
    using assms(1-3) by (auto simp: free_on_def allocated_def da_inv_def da_blocks_def)
  have sub: "set (va # free_on da i ?p) \<subseteq> set (page_blocks da i ?p)"
    using assms(3,4) da_invD(1,6) [OF assms(1,2)]
    by (auto simp: set_page_blocks [OF assms(2)] free_on_def allocated_def)
  have "card (set (va # free_on da i ?p)) = card (set (page_blocks da i ?p))"
    using distinct_card [OF d] distinct_card [OF distinct_page_blocks [of da i ?p]] assms(5) n by simp
  then have "set (va # free_on da i ?p) = set (page_blocks da i ?p)"
    using sub by (intro card_subset_eq) auto
  then show ?thesis by (auto simp: free_on_def)
qed

lemma free_block_eq:
  assumes "da_inv da" "va \<in> allocated da"
  shows "\<exists>i < 9. bsize da (page_of da va) = class_size i \<and>
    free_block rp va (da, k) =
      (if Suc (nfree da (page_of da va)) = PAGE_SIZE div class_size i
       then andThen (rp (dynAllocStart da + page_of da va * PAGE_SIZE) k) (\<lambda>k. Inr (free_last i va da, k))
       else Inr (free_keep i va da, k))"
proof -
  obtain i where i: "i < 9" "bsize da (page_of da va) = class_size i"
    using allocated_class [OF assms] by metis
  let ?p = "page_of da va"
  have lay: "da_layout da" using assms(1) by (simp add: da_inv_def)
  have r: "dynAllocStart da \<le> va" "va < dynAllocEnd da" and nf: "va \<notin> set (freeBlockLists da i)"
    using assms(2) i(1) by (auto simp: allocated_def)
  have p: "?p < num_pages da" and nfp: "?p \<notin> set (freePagesList da)"
    using block_in_region [OF assms] allocated_bsize [OF assms(2)] assms(1)
    by (auto simp: da_inv_def da_pages_def)
  have p2: "?p < NUM_PAGE_INFOS" using p lay by (simp add: da_layout_def)
  have "nfree da ?p < 512"
    using carved_page [OF assms(1) p nfp] blocks_per_page_bounds(2) by (metis le_trans less_le_trans)
  then have inc: "inc16 (nfree da ?p) = Suc (nfree da ?p)" by (simp add: inc16_exact)
  have idx: "i + 3 - 3 = i" "\<not> i + 3 < 3" "\<not> 11 < i + 3" using i(1) by auto
  have pva: "dynAllocStart da + ?p * PAGE_SIZE < U32"
    using p lay by (auto simp: da_layout_def)
  then have tpv: "to_page_va (int ?p) d = Inr (dynAllocStart da + ?p * PAGE_SIZE)"
    if "dynAllocStart d = dynAllocStart da" for d
    using that p2 by (simp add: to_page_va_def u32_simps)
  have keep: "free_block rp va (da, k) = Inr (free_keep i va da, k)"
    if "Suc (nfree da ?p) \<noteq> PAGE_SIZE div class_size i"
    using that r nf page_of_exact [OF lay r] i p2 idx
    by (simp add: free_block_def list_insert_head_def inc free_keep_def Let_def)
  have last: "free_block rp va (da, k) =
      andThen (rp (dynAllocStart da + ?p * PAGE_SIZE) k) (\<lambda>k. Inr (free_last i va da, k))"
    if full: "Suc (nfree da ?p) = PAGE_SIZE div class_size i"
  proof -
    have "uncarve_page (dynAllocStart da + ?p * PAGE_SIZE) (class_size i) (PAGE_SIZE div class_size i)
        (va # freeBlockLists da i) =
      Inr (filter (\<lambda>b. \<forall>j < PAGE_SIZE div class_size i. b \<noteq> dynAllocStart da + ?p * PAGE_SIZE + j * class_size i)
        (va # freeBlockLists da i))"
    proof (rule uncarve_page_eq)
      show "dynAllocStart da + ?p * PAGE_SIZE + j * class_size i \<in> set (va # freeBlockLists da i)"
        if "j < PAGE_SIZE div class_size i" for j
        by (rule subsetD [OF page_complete [OF assms(1) i(1) assms(2) i(2) full]])
          (use that in \<open>simp add: page_blocks_def\<close>)
      have "Suc ?p * PAGE_SIZE \<le> num_pages da * PAGE_SIZE" using p by (intro mult_le_mono1) simp
      then show "dynAllocStart da + ?p * PAGE_SIZE + PAGE_SIZE div class_size i * class_size i < U32"
        using class_size_mult [OF i(1)] lay by (simp add: mult.commute da_layout_def)
      show "distinct (va # freeBlockLists da i)"
        using nf assms(1) i(1) by (simp add: da_inv_def da_blocks_def)
    qed simp
    also have "filter (\<lambda>b. \<forall>j < PAGE_SIZE div class_size i. b \<noteq> dynAllocStart da + ?p * PAGE_SIZE + j * class_size i)
        (va # freeBlockLists da i) = filter (\<lambda>b. page_of da b \<noteq> ?p) (va # freeBlockLists da i)"
      by (rule filter_cong [OF refl], rule filter_page_blocks [OF assms(1) i(1) p]) (use assms(2) i(2) in auto)
    also have "\<dots> = filter (\<lambda>b. page_of da b \<noteq> ?p) (freeBlockLists da i)" by simp
    finally have u: "uncarve_page (dynAllocStart da + ?p * PAGE_SIZE) (class_size i) (PAGE_SIZE div class_size i)
        (va # freeBlockLists da i) = Inr (filter (\<lambda>b. page_of da b \<noteq> ?p) (freeBlockLists da i))" .
    show ?thesis
      using full r nf page_of_exact [OF lay r] i p2 idx nfp u
      by (simp add: free_block_def list_insert_head_def list_insert_tail_def inc tpv Let_def free_last_def
          set_page_info_def set_free_list_def)
  qed
  show ?thesis using i keep last by auto
qed


definition block_removed :: "nat \<Rightarrow> dyn_alloc \<Rightarrow> dyn_alloc \<Rightarrow> bool" where
  "block_removed b da da' \<longleftrightarrow> da_inv da' \<and> allocated da' = allocated da - {b} \<and>
     dynAllocStart da' = dynAllocStart da \<and> dynAllocEnd da' = dynAllocEnd da \<and>
     (\<forall>c \<in> allocated da - {b}. bsize da' (page_of da c) = bsize da (page_of da c))"

lemma free_keep_simps [simp]:
  "freeBlockLists (free_keep i va da) = (freeBlockLists da)(i := va # freeBlockLists da i)"
  "freePagesList (free_keep i va da) = freePagesList da"
  "dynAllocStart (free_keep i va da) = dynAllocStart da"
  "dynAllocEnd (free_keep i va da) = dynAllocEnd da"
  "num_pages (free_keep i va da) = num_pages da"
  "page_of (free_keep i va da) = page_of da"
  "bsize (free_keep i va da) q = bsize da q"
  "nfree (free_keep i va da) q = (if q = page_of da va then Suc (nfree da q) else nfree da q)"
  by (simp_all add: free_keep_def)

lemma free_last_simps [simp]:
  "freeBlockLists (free_last i va da) =
     (freeBlockLists da)(i := filter (\<lambda>b. page_of da b \<noteq> page_of da va) (freeBlockLists da i))"
  "freePagesList (free_last i va da) = freePagesList da @ [page_of da va]"
  "dynAllocStart (free_last i va da) = dynAllocStart da"
  "dynAllocEnd (free_last i va da) = dynAllocEnd da"
  "num_pages (free_last i va da) = num_pages da"
  "page_of (free_last i va da) = page_of da"
  "bsize (free_last i va da) q = (if q = page_of da va then 0 else bsize da q)"
  "nfree (free_last i va da) q = (if q = page_of da va then 0 else nfree da q)"
  by (simp_all add: free_last_def)

lemma allocated_page_carved:
  assumes "da_inv da" "va \<in> allocated da" "bsize da (page_of da va) = class_size i"
  shows "page_of da va < num_pages da" "page_of da va \<notin> set (freePagesList da)"
    "nfree da (page_of da va) = length (free_on da i (page_of da va))"
    "nfree da (page_of da va) < PAGE_SIZE div class_size i"
proof -
  show p: "page_of da va < num_pages da" "page_of da va \<notin> set (freePagesList da)"
    using block_in_region [OF assms(1,2)] allocated_bsize [OF assms(2)] assms(1)
    by (auto simp: da_inv_def da_pages_def)
  show "nfree da (page_of da va) = length (free_on da i (page_of da va))"
    "nfree da (page_of da va) < PAGE_SIZE div class_size i"
    using carved_page [OF assms(1) p] assms(3) by (metis class_size_inj)+
qed

lemma free_keep_removed:
  assumes "da_inv da" "va \<in> allocated da" "i < 9" "bsize da (page_of da va) = class_size i"
    "Suc (nfree da (page_of da va)) \<noteq> PAGE_SIZE div class_size i"
  shows "block_removed va da (free_keep i va da)"
proof -
  let ?d = "free_keep i va da"
  note pc = allocated_page_carved [OF assms(1,2,4)]
  have lay: "da_layout da" and pg: "da_pages da" and bl: "da_blocks da"
    using assms(1) by (auto simp: da_inv_def)
  have fo: "free_on ?d j q = (if j = i \<and> q = page_of da va then va # free_on da j q else free_on da j q)" for j q
    by (auto simp: free_on_def)
  have "da_pages ?d"
    unfolding da_pages_def
  proof (intro conjI allI impI ballI)
    fix q assume q: "q < num_pages ?d" "q \<notin> set (freePagesList ?d)"
    then obtain j where j: "j < 9" "bsize da q = class_size j" "nfree da q = length (free_on da j q)"
        "nfree da q < PAGE_SIZE div class_size j"
      using carved_page [OF assms(1), of q] by auto
    then show "\<exists>j<9. bsize ?d q = class_size j \<and> nfree ?d q = length (free_on ?d j q) \<and>
        nfree ?d q < PAGE_SIZE div class_size j"
      using assms(4,5) pc(4) by (intro exI [of _ j]) (auto simp: fo)
  qed (use pg pc in \<open>auto simp: da_pages_def\<close>)
  moreover have "da_blocks ?d"
    using bl assms(2-4) by (simp add: da_blocks_def allocated_def)
  moreover have "da_layout ?d" using lay by (simp add: da_layout_def)
  moreover have "allocated ?d = allocated da - {va}"
  proof -
    have fl: "set (freeBlockLists ?d j) = (if j = i then insert va (set (freeBlockLists da i)) else set (freeBlockLists da j))" for j
      by simp
    have "(\<forall>j<9. c \<notin> set (freeBlockLists ?d j)) \<longleftrightarrow> c \<noteq> va \<and> (\<forall>j<9. c \<notin> set (freeBlockLists da j))" for c
      unfolding fl using assms(3) by (metis insert_iff)
    then show ?thesis unfolding allocated_def free_keep_simps by blast
  qed
  ultimately show ?thesis by (simp add: block_removed_def da_inv_def)
qed

lemma free_last_removed:
  assumes "da_inv da" "va \<in> allocated da" "i < 9" "bsize da (page_of da va) = class_size i"
    "Suc (nfree da (page_of da va)) = PAGE_SIZE div class_size i"
  shows "block_removed va da (free_last i va da)"
proof -
  let ?d = "free_last i va da" and ?p = "page_of da va"
  note pc = allocated_page_carved [OF assms(1,2,4)]
  have lay: "da_layout da" and pg: "da_pages da" and bl: "da_blocks da"
    using assms(1) by (auto simp: da_inv_def)
  have fo: "free_on ?d j q = free_on da j q" if "q \<noteq> ?p" for j q
    using that by (auto simp: free_on_def intro!: filter_cong)
  have on: "page_of da b \<noteq> ?p" if "j < 9" "b \<in> set (freeBlockLists ?d j)" for j b
    using that da_invD(4) [OF assms(1) that(1), of b] assms(4) by (auto split: if_splits)
  have "da_pages ?d"
    unfolding da_pages_def
  proof (intro conjI allI impI ballI)
    fix q assume q: "q < num_pages ?d" "q \<notin> set (freePagesList ?d)"
    then obtain j where j: "j < 9" "bsize da q = class_size j" "nfree da q = length (free_on da j q)"
        "nfree da q < PAGE_SIZE div class_size j"
      using carved_page [OF assms(1), of q] by auto
    then show "\<exists>j<9. bsize ?d q = class_size j \<and> nfree ?d q = length (free_on ?d j q) \<and>
        nfree ?d q < PAGE_SIZE div class_size j"
      using q by (intro exI [of _ j]) (auto simp: fo)
  qed (use pg pc in \<open>auto simp: da_pages_def\<close>)
  moreover have "da_blocks ?d"
  proof (rule da_blocks_mono [OF bl])
    show "distinct (freeBlockLists ?d j)" if "j < 9" for j
      using bl that by (simp add: da_blocks_def)
    show "b \<in> set (freeBlockLists da j) \<and> bsize ?d (page_of da b) = bsize da (page_of da b)"
      if "j < 9" "b \<in> set (freeBlockLists ?d j)" for j b
      using that(2) on [OF that] by (auto split: if_splits)
  qed simp_all
  moreover have "da_layout ?d" using lay by (simp add: da_layout_def)
  moreover
  have full: "c \<in> set (freeBlockLists da i)" if "c \<in> allocated da - {va}" "page_of da c = ?p" for c
    using page_complete [OF assms(1,3,2,4,5)] that assms(4)
    by (auto simp: set_page_blocks [OF assms(3)] allocated_def)
  have other: "page_of da c \<noteq> ?p" if "c \<in> allocated da - {va}" for c
    using full [OF that] that assms(3) unfolding allocated_def by blast
  have "allocated ?d = allocated da - {va}"
  proof (intro set_eqI iffI)
    fix c assume c: "c \<in> allocated ?d"
    then have p: "page_of da c \<noteq> ?p" by (auto simp: allocated_def)
    have "c \<notin> set (freeBlockLists da j)" if "j < 9" for j
    proof -
      have "c \<notin> set (freeBlockLists ?d j)" using c that unfolding allocated_def by blast
      then show ?thesis using p by (cases "j = i") auto
    qed
    then show "c \<in> allocated da - {va}" using c p by (auto simp: allocated_def)
  next
    fix c assume c: "c \<in> allocated da - {va}"
    have "c \<notin> set (freeBlockLists ?d j)" if "j < 9" for j
      using c that unfolding allocated_def by (cases "j = i") auto
    then show "c \<in> allocated ?d" using c other [OF c] by (simp add: allocated_def)
  qed
  ultimately show ?thesis using other by (simp add: block_removed_def da_inv_def)
qed


section \<open>Initialisation\<close>

lemma init_free_lists_eq:
  "init_free_lists i n da =
     da\<lparr>freeBlockLists := (\<lambda>j. if i \<le> j \<and> j < i + n then [] else freeBlockLists da j)\<rparr>"
proof (induction n arbitrary: i da)
  case (Suc n)
  show ?case by (auto simp: Suc set_free_list_def fun_eq_iff)
qed (simp add: not_less [symmetric])

lemma init_pages_eq:
  assumes "freePagesList da = [0..<i]"
  shows "init_pages i n da =
    Inr (da\<lparr>freePagesList := [0..<i + n],
            pageBlockInfoArr := (\<lambda>j. if i \<le> j \<and> j < i + n then \<lparr>block_size = 0, num_of_free_blocks = 0\<rparr>
                                    else pageBlockInfoArr da j)\<rparr>)"
  using assms
proof (induction n arbitrary: i da)
  case (Suc n)
  let ?d = "(set_page_info i \<lparr>block_size = 0, num_of_free_blocks = 0\<rparr> da)\<lparr>freePagesList := [0..<Suc i]\<rparr>"
  have "init_pages (Suc i) n ?d = Inr (?d\<lparr>freePagesList := [0..<Suc i + n],
            pageBlockInfoArr := (\<lambda>j. if Suc i \<le> j \<and> j < Suc i + n then \<lparr>block_size = 0, num_of_free_blocks = 0\<rparr>
                                    else pageBlockInfoArr ?d j)\<rparr>)"
    by (rule Suc.IH) simp
  then show ?case
    using Suc.prems by (auto simp: list_insert_tail_def set_page_info_def fun_eq_iff)
next
  case 0
  have "\<not> (i \<le> j \<and> j < i)" for j by simp
  with 0 show ?case by (cases da) (auto simp: fun_eq_iff)
qed

lemma initialize_inv:
  assumes "0 < s" "s mod PAGE_SIZE = 0" "e = s + PAGE_SIZE * n" "n \<le> NUM_PAGE_INFOS" "s + DYN_ALLOC_MAX_SIZE < U32"
  shows "\<exists>da'. initialize_dynamic_allocator s e da = Inr da' \<and> da_inv da' \<and> allocated da' = {} \<and>
           freePagesList da' = [0..<n] \<and> dynAllocStart da' = s \<and> dynAllocEnd da' = e"
proof -
  have e: "e < U32" "s \<le> e" "e \<le> s + DYN_ALLOC_MAX_SIZE" using assms by auto
  have n: "sub32 e s div PAGE_SIZE = n" "(e - s) div PAGE_SIZE = n"
    using e assms(3) by (simp_all add: u32_simps)
  let ?d = "init_free_lists 0 9 (da\<lparr>is_initialized := True, dynAllocStart := s, dynAllocEnd := e\<rparr>)"
  have "init_pages 0 n (?d\<lparr>freePagesList := []\<rparr>) =
    Inr (?d\<lparr>freePagesList := [0..<0 + n],
            pageBlockInfoArr := (\<lambda>j. if 0 \<le> j \<and> j < 0 + n then \<lparr>block_size = 0, num_of_free_blocks = 0\<rparr>
                                    else pageBlockInfoArr ?d j)\<rparr>)" (is "_ = Inr ?r")
    by (subst init_pages_eq) (simp_all add: init_free_lists_eq cong: if_cong)
  then have i: "initialize_dynamic_allocator s e da = Inr ?r"
    using e assms(4,5) n by (simp add: initialize_dynamic_allocator_def u32_simps Let_def)
  have "da_inv ?r"
    using assms e n by (auto simp: da_inv_def da_layout_def da_pages_def da_blocks_def num_pages_def init_free_lists_eq)
  moreover have "allocated ?r = {}"
    using page_of_less [of ?r] calculation n by (fastforce simp: allocated_def da_inv_def init_free_lists_eq num_pages_def)
  ultimately show ?thesis using i by (auto simp: init_free_lists_eq)
qed

section \<open>The interface the allocator needs from its heap\<close>

text \<open>
  What the allocator relies on when it calls \<open>get_page\<close> and \<open>return_page\<close>: which pages
  are backed by memory before and after the call. From it follows that every carved page,
  hence every block handed out, is backed.
\<close>

locale page_provider =
  fixes get_page :: "nat \<Rightarrow> 'k \<Rightarrow> 'k result"
    and return_page :: "nat \<Rightarrow> 'k \<Rightarrow> 'k result"
    and backed :: "'k \<Rightarrow> nat \<Rightarrow> bool"
    and usable :: "nat \<Rightarrow> bool"
    and kinv :: "'k \<Rightarrow> bool"
  assumes get_page_backs:
      "kinv k \<Longrightarrow> usable va \<Longrightarrow> get_page va k = Inr k' \<Longrightarrow>
         kinv k' \<and> backed k' va \<and> (\<forall>v. usable v \<longrightarrow> backed k v \<longrightarrow> backed k' v)"
    and return_page_unbacks:
      "kinv k \<Longrightarrow> usable va \<Longrightarrow> backed k va \<Longrightarrow> return_page va k = Inr k' \<Longrightarrow>
         kinv k' \<and> (\<forall>v. usable v \<longrightarrow> v \<noteq> va \<longrightarrow> backed k v \<longrightarrow> backed k' v)"
begin

definition carved_backed :: "dyn_alloc \<Rightarrow> 'k \<Rightarrow> bool" where
  "carved_backed da k \<longleftrightarrow> kinv k \<and>
     (\<forall>p < num_pages da. usable (dynAllocStart da + p * PAGE_SIZE) \<and>
        (p \<notin> set (freePagesList da) \<longrightarrow> backed k (dynAllocStart da + p * PAGE_SIZE)))"

lemma carved_backed_alloc:
  assumes "da_inv da" "carved_backed da k" "0 < sz" "alloc_block get_page sz (da, k) = Inr (b, da', k')"
  shows "carved_backed da' k'"
proof -
  have sz: "sz \<le> 2048" using assms(4) by (auto simp: alloc_block_def res_simps)
  note c = sizeClass_facts [OF assms(3) sz] and r = assms(4) [unfolded alloc_block_eq [OF assms(1,3) sz]]
  have same: "carved_backed da' k'" if "k' = k" "freePagesList da' = freePagesList da"
      "dynAllocStart da' = dynAllocStart da" "dynAllocEnd da' = dynAllocEnd da"
    using assms(2) that by (simp add: carved_backed_def num_pages_def)
  show ?thesis
  proof (cases "freeBlockLists da (sizeClass sz)")
    case (Cons x xs)
    with r have t: "take_block (sizeClass sz) x da = Inr da'" "k' = k" by (auto simp: res_simps)
    with take_block_allocated [OF assms(1) c(1) _ t(1)] Cons show ?thesis by (intro same) auto
  next
    case Nil
    show ?thesis
    proof (cases "freePagesList da")
      case (Cons p ps)
      let ?v = "dynAllocStart da + p * PAGE_SIZE"
      from r Nil Cons have g: "get_page ?v k = Inr k'" "da' = fresh_page (sizeClass sz) p da"
        by (auto simp: res_simps)
      have pl: "p < num_pages da" "distinct (freePagesList da)"
        using assms(1) Cons by (auto simp: da_inv_def da_pages_def)
      with assms(2) have u: "kinv k" "usable ?v" by (auto simp: carved_backed_def)
      show ?thesis
        using get_page_backs [OF u g(1)] assms(2) pl(2)
        unfolding carved_backed_def g(2) fresh_page_simps by (metis in_set_remove1)
    next
      case fp: Nil
      with r Nil have a: "alloc_larger (sizeClass sz + 1) da = Inr (b, da')" "k' = k"
        by (auto simp: res_simps)
      then obtain j where j: "j < 9" "b \<in> set (freeBlockLists da j)" "take_block j b da = Inr da'"
        using alloc_larger_spec [OF assms(1), of "sizeClass sz + 1"] by auto
      from take_block_allocated [OF assms(1) j] a show ?thesis by (intro same) auto
    qed
  qed
qed

lemma carved_backed_free:
  assumes "da_inv da" "carved_backed da k" "va \<in> allocated da" "free_block return_page va (da, k) = Inr (da', k')"
  shows "carved_backed da' k'"
proof -
  obtain i where i: "i < 9" "bsize da (page_of da va) = class_size i"
    "free_block return_page va (da, k) =
      (if Suc (nfree da (page_of da va)) = PAGE_SIZE div class_size i
       then andThen (return_page (dynAllocStart da + page_of da va * PAGE_SIZE) k) (\<lambda>k. Inr (free_last i va da, k))
       else Inr (free_keep i va da, k))"
    using free_block_eq [OF assms(1,3)] by metis
  note pc = allocated_page_carved [OF assms(1,3) i(2)]
  show ?thesis
  proof (cases "Suc (nfree da (page_of da va)) = PAGE_SIZE div class_size i")
    case False
    with i(3) assms(4) have "da' = free_keep i va da" "k' = k" by auto
    with assms(2) show ?thesis by (simp add: carved_backed_def)
  next
    case True
    let ?v = "dynAllocStart da + page_of da va * PAGE_SIZE"
    have "andThen (return_page ?v k) (\<lambda>k. Inr (free_last i va da, k)) = Inr (da', k')"
      using i(3) True assms(4) by simp
    then have r: "return_page ?v k = Inr k'" "da' = free_last i va da" by (auto simp: res_simps)
    have u: "kinv k" "usable ?v" "backed k ?v" using assms(2) pc(1,2) by (auto simp: carved_backed_def)
    from return_page_unbacks [OF u r(1)] assms(2) show ?thesis
      by (auto simp: carved_backed_def r(2))
  qed
qed

lemma allocated_backed:
  assumes "da_inv da" "carved_backed da k" "b \<in> allocated da"
  shows "backed k (dynAllocStart da + page_of da b * PAGE_SIZE)"
proof -
  obtain i where "bsize da (page_of da b) = class_size i" using allocated_class [OF assms(1,3)] by metis
  from allocated_page_carved(1,2) [OF assms(1,3) this] assms(2) show ?thesis
    by (simp add: carved_backed_def)
qed

end

lemma alloc_block_fails:
  assumes "da_inv da" and "alloc_block gp sz (da, k) = Inl e"
  shows "sz > DYN_ALLOC_MAX_BLOCK_SIZE \<and> e = Panic ''size <= DYN_ALLOC_MAX_BLOCK_SIZE'' \<or>
         (\<exists>p. p \<in> set (freePagesList da) \<and> gp (dynAllocStart da + p * PAGE_SIZE) k = Inl e) \<or>
         freePagesList da = [] \<and> (\<forall>j. sizeClass sz \<le> j \<and> j < 9 \<longrightarrow> freeBlockLists da j = []) \<and>
         e = Panic ''alloc_block() is out of free pages and blocks''"
proof (cases "0 < sz \<and> sz \<le> 2048")
  case False
  then show ?thesis using assms(2) by (auto simp: alloc_block_def res_simps split: if_splits)
next
  case True
  then have c: "sizeClass sz < 9" using sizeClass_facts by simp
  note r = assms(2) [unfolded alloc_block_eq [OF assms(1) conjunct1 [OF True] conjunct2 [OF True]]]
  show ?thesis
  proof (cases "freeBlockLists da (sizeClass sz)")
    case (Cons x xs)
    then have "x \<in> set (freeBlockLists da (sizeClass sz))" by simp
    from r take_block_eq(1) [OF assms(1) c this] Cons show ?thesis by simp
  next
    case Nil
    show ?thesis
    proof (cases "freePagesList da")
      case (Cons p ps)
      with r Nil show ?thesis by (auto simp: res_simps)
    next
      case fp: Nil
      have "\<forall>j. sizeClass sz \<le> j \<longleftrightarrow> j = sizeClass sz \<or> sizeClass sz + 1 \<le> j" by auto
      with r Nil fp alloc_larger_spec [OF assms(1), of "sizeClass sz + 1"] show ?thesis
        by (auto simp: res_simps)
    qed
  qed
qed

lemma free_block_bounds:
  "free_block rp va (da, k) = Inr (d, k') \<Longrightarrow> dynAllocStart d = dynAllocStart da \<and> dynAllocEnd d = dynAllocEnd da"
  by (auto simp: free_block_def res_simps Let_def split: if_splits)

lemma free_block_ok:
  assumes "da_inv da" and "va \<in> allocated da"
  shows "(\<exists>da' k'. free_block rp va (da, k) = Inr (da', k') \<and> da_inv da' \<and>
            allocated da' = allocated da - {va} \<and>
            (\<forall>c \<in> allocated da - {va}. get_block_size c da' = get_block_size c da) \<and>
            (k' = k \<or> rp (dynAllocStart da + page_of da va * PAGE_SIZE) k = Inr k')) \<or>
         (\<exists>e. rp (dynAllocStart da + page_of da va * PAGE_SIZE) k = Inl e \<and>
              free_block rp va (da, k) = Inl e)"
proof -
  let ?v = "dynAllocStart da + page_of da va * PAGE_SIZE"
  obtain i where i: "i < 9" "bsize da (page_of da va) = class_size i"
    "free_block rp va (da, k) =
      (if Suc (nfree da (page_of da va)) = PAGE_SIZE div class_size i
       then andThen (rp ?v k) (\<lambda>k. Inr (free_last i va da, k)) else Inr (free_keep i va da, k))"
    using free_block_eq [OF assms] by metis
  have conv: "da_inv d \<and> allocated d = allocated da - {va} \<and>
      (\<forall>c \<in> allocated da - {va}. get_block_size c d = get_block_size c da)" if r: "block_removed va da d" for d
  proof -
    have po: "page_of d = page_of da" by (rule page_of_cong) (use r in \<open>simp add: block_removed_def\<close>)
    have "get_block_size c d = get_block_size c da" if "c \<in> allocated da - {va}" for c
      using block_in_region [OF assms(1), of c] block_in_region [of d c] that r
      by (simp add: block_removed_def po)
    then show ?thesis using r by (simp add: block_removed_def)
  qed
  show ?thesis
  proof (cases "Suc (nfree da (page_of da va)) = PAGE_SIZE div class_size i")
    case True
    show ?thesis
    proof (cases "rp ?v k")
      case (Inr k')
      with i(3) True conv [OF free_last_removed [OF assms i(1,2) True]] show ?thesis by auto
    qed (use i(3) True in auto)
  next
    case False
    with i(3) False conv [OF free_keep_removed [OF assms i(1,2) False]] show ?thesis by auto
  qed
qed

section \<open>Claims\<close>

text \<open>
  C8. A block that \<open>alloc_block\<close> returns was not handed out before, lies in the region,
  is aligned to its block size, and has at least the requested size; the invariant holds
  again, exactly this block has become allocated, and all other blocks keep their size.
\<close>

theorem alloc_block_correct:
  assumes "da_inv da" and "0 < sz" and "alloc_block gp sz (da, k) = Inr (b, da', k')"
  shows "da_inv da' \<and> b \<notin> allocated da \<and> allocated da' = insert b (allocated da) \<and>
         dynAllocStart da \<le> b \<and> b < dynAllocEnd da \<and>
         sz \<le> get_block_size b da' \<and> (b - dynAllocStart da) mod get_block_size b da' = 0 \<and>
         (\<forall>c \<in> allocated da. get_block_size c da' = get_block_size c da)"
proof -
  have a: "block_added b da da'" "sz \<le> bsize da' (page_of da b)"
    using alloc_block_success [OF assms] by auto
  then have inv: "da_inv da'" and b: "b \<in> allocated da'" and s: "dynAllocStart da' = dynAllocStart da"
    by (auto simp: block_added_def)
  have po: "page_of da' = page_of da" by (rule page_of_cong [OF s])
  have "get_block_size c da' = get_block_size c da" if "c \<in> allocated da" for c
    using block_in_region [OF assms(1) that] block_in_region [OF inv, of c] that a(1)
    by (simp add: block_added_def po)
  then show ?thesis
    using a block_in_region [OF inv b] b by (simp add: block_added_def po) (auto simp: allocated_def po s)
qed

text \<open>A region of two pages at address \<open>4096\<close>, for the witnesses.\<close>

definition small_da :: dyn_alloc where
  "small_da = \<lparr>freeBlockLists = (\<lambda>_. []), freePagesList = [0, 1],
     pageBlockInfoArr = (\<lambda>_. \<lparr>block_size = 0, num_of_free_blocks = 0\<rparr>),
     dynAllocStart = 4096, dynAllocEnd = 12288, is_initialized = True\<rparr>"

definition no_pages :: "nat \<Rightarrow> unit \<Rightarrow> unit result" where
  "no_pages va k = Inr ()"

lemma small_da_inv: "da_inv small_da"
proof -
  have "p \<in> {0, 1}" if "p < num_pages small_da" for p
    using that by (auto simp: small_da_def num_pages_def)
  then show ?thesis
    by (auto simp: small_da_def da_inv_def da_layout_def da_pages_def da_blocks_def num_pages_def)
qed

lemma small_da_alloc: "alloc_block no_pages 1500 (small_da, ()) = Inr (4096, fresh_page 8 0 small_da, ())"
proof -
  have "sizeClass 1500 = 8"
    by (simp add: sizeClass_def find_log2.simps)
  then show ?thesis
    by (subst alloc_block_eq [OF small_da_inv]) (simp_all add: small_da_def no_pages_def)
qed

theorem alloc_block_correct_witness:
  "da_inv small_da \<and> 4096 \<notin> allocated small_da \<and>
   allocated (fresh_page 8 0 small_da) = insert 4096 (allocated small_da) \<and>
   1500 \<le> get_block_size 4096 (fresh_page 8 0 small_da)"
  using alloc_block_correct [OF small_da_inv _ small_da_alloc] small_da_inv by simp

text \<open>
  \<open>alloc_block\<close> fails in three ways only: the assertion on the size, a failure of
  \<open>get_page\<close>, or the final panic, and the panic only when no page is free and every list
  of the size class and above is empty. No list and no page record is corrupted.
\<close>

theorem alloc_block_failures:
  assumes "da_inv da" and "alloc_block gp sz (da, k) = Inl e"
  shows "sz > DYN_ALLOC_MAX_BLOCK_SIZE \<and> e = Panic ''size <= DYN_ALLOC_MAX_BLOCK_SIZE'' \<or>
         (\<exists>p. p \<in> set (freePagesList da) \<and> gp (dynAllocStart da + p * PAGE_SIZE) k = Inl e) \<or>
         freePagesList da = [] \<and> (\<forall>j. sizeClass sz \<le> j \<and> j < 9 \<longrightarrow> freeBlockLists da j = []) \<and>
         e = Panic ''alloc_block() is out of free pages and blocks''"
  using assms by (rule alloc_block_fails)

theorem alloc_block_failures_witness:
  "alloc_block no_pages 4096 (small_da, ()) = Inl (Panic ''size <= DYN_ALLOC_MAX_BLOCK_SIZE'') \<and>
   (4096::nat) > DYN_ALLOC_MAX_BLOCK_SIZE"
proof -
  have "alloc_block no_pages 4096 (small_da, ()) = Inl (Panic ''size <= DYN_ALLOC_MAX_BLOCK_SIZE'')"
    by (simp add: alloc_block_def)
  with alloc_block_failures [OF small_da_inv this] show ?thesis by auto
qed

text \<open>
  C9. Releasing an allocated block never corrupts the allocator: it either succeeds, with the
  invariant kept and exactly this block no longer allocated, or it is the last block of its
  page and \<open>return_page\<close> itself failed.
\<close>

theorem free_block_correct:
  assumes "da_inv da" and "va \<in> allocated da"
  shows "(\<exists>da' k'. free_block rp va (da, k) = Inr (da', k') \<and> da_inv da' \<and>
            allocated da' = allocated da - {va} \<and>
            (\<forall>c \<in> allocated da - {va}. get_block_size c da' = get_block_size c da) \<and>
            (k' = k \<or> rp (dynAllocStart da + page_of da va * PAGE_SIZE) k = Inr k')) \<or>
         (\<exists>e. rp (dynAllocStart da + page_of da va * PAGE_SIZE) k = Inl e \<and>
              free_block rp va (da, k) = Inl e)"
  using assms by (rule free_block_ok)

lemma small_da_fresh: "da_inv (fresh_page 8 0 small_da)" "4096 \<in> allocated (fresh_page 8 0 small_da)"
  using alloc_block_success [OF small_da_inv _ small_da_alloc] by (auto simp: block_added_def)

theorem free_block_correct_witness:
  "4096 \<in> allocated (fresh_page 8 0 small_da) \<and>
   (\<exists>da'. free_block no_pages 4096 (fresh_page 8 0 small_da, ()) = Inr (da', ()) \<and> da_inv da' \<and>
      4096 \<notin> allocated da')"
  using free_block_correct [OF small_da_fresh, of no_pages "()"] small_da_fresh(2)
  by (auto simp: no_pages_def)

lemma allocated_blocks_disjoint:
  assumes "da_inv da" and "b \<in> allocated da" and "c \<in> allocated da" and "b \<noteq> c"
  shows "{b ..< b + get_block_size b da} \<inter> {c ..< c + get_block_size c da} = {}"
proof -
  have "b + get_block_size b da \<le> c \<or> c + get_block_size c da \<le> b"
    using allocated_disjoint_ord [OF assms(1-3)] allocated_disjoint_ord [OF assms(1,3,2)] assms(4)
      block_in_region [OF assms(1,2)] block_in_region [OF assms(1,3)] by (cases "b < c") auto
  then show ?thesis by auto
qed

text \<open>
  A client that requests blocks and releases blocks it holds, in any order, over any supply of pages: \<open>L\<close> are the blocks it
  holds, with the sizes it asked for.
\<close>

inductive handed_out ::
    "(nat \<Rightarrow> 'k \<Rightarrow> 'k result) \<Rightarrow> (nat \<Rightarrow> 'k \<Rightarrow> 'k result) \<Rightarrow> dyn_alloc \<Rightarrow> (nat \<rightharpoonup> nat) \<Rightarrow> dyn_alloc \<Rightarrow> 'k \<Rightarrow> bool"
  for gp :: "nat \<Rightarrow> 'k \<Rightarrow> 'k result" and rp :: "nat \<Rightarrow> 'k \<Rightarrow> 'k result" and d0 :: dyn_alloc where
  start: "handed_out gp rp d0 Map.empty d0 k"
| request: "handed_out gp rp d0 L d k \<Longrightarrow> 0 < sz \<Longrightarrow> alloc_block gp sz (d, k) = Inr (b, d', k') \<Longrightarrow>
    handed_out gp rp d0 (L(b \<mapsto> sz)) d' k'"
| release: "handed_out gp rp d0 L d k \<Longrightarrow> L b = Some sz \<Longrightarrow> free_block rp b (d, k) = Inr (d', k') \<Longrightarrow>
    handed_out gp rp d0 (L(b := None)) d' k'"

lemma handed_out_inv:
  assumes "handed_out gp rp d0 L d k" "da_inv d0" "allocated d0 = {}"
  shows "da_inv d \<and> dynAllocStart d = dynAllocStart d0 \<and> dynAllocEnd d = dynAllocEnd d0 \<and> dom L = allocated d \<and>
    (\<forall>b sz. L b = Some sz \<longrightarrow> sz \<le> get_block_size b d)"
  using assms(1)
proof induction
  case (start k)
  then show ?case using assms(2,3) by simp
next
  case (request L d k sz b d' k')
  have i: "da_inv d" "dom L = allocated d" using request.IH by simp_all
  have a: "block_added b d d'" "sz \<le> bsize d' (page_of d b)" using alloc_block_success [OF i(1) request.hyps(2,3)] by simp_all
  have po: "page_of d' = page_of d" using a(1) by (intro page_of_cong) (simp add: block_added_def)
  have old: "get_block_size c d' = get_block_size c d" if "c \<in> allocated d" for c
    using block_in_region [OF i(1) that] block_in_region [of d' c] that a(1) by (simp add: block_added_def po)
  have "sz \<le> get_block_size b d'" using a block_in_region [of d' b] by (simp add: block_added_def po)
  moreover have "get_block_size c d' = get_block_size c d" if "L c = Some n" for c n
    using that i(2) by (intro old) (auto simp: dom_def)
  moreover have "dom (L(b \<mapsto> sz)) = allocated d'" using i(2) a(1) by (simp add: block_added_def)
  moreover have "da_inv d'" "dynAllocStart d' = dynAllocStart d0" "dynAllocEnd d' = dynAllocEnd d0"
    using request.IH a(1) by (simp_all add: block_added_def)
  moreover have "n \<le> get_block_size c d'" if "(L(b \<mapsto> sz)) c = Some n" for c n
    using that calculation(1,2) request.IH by (auto split: if_splits)
  ultimately show ?case by blast
next
  case (release L d k b sz d' k')
  have i: "da_inv d" "b \<in> allocated d" using release.IH release.hyps(2) by (auto simp: dom_def)
  have f: "da_inv d'" "allocated d' = allocated d - {b}" "\<forall>c \<in> allocated d - {b}. get_block_size c d' = get_block_size c d"
    using free_block_ok [OF i, of rp k] release.hyps(3) by auto
  have "get_block_size c d' = get_block_size c d" if "L c = Some n" "c \<noteq> b" for c n
    using that release.IH f(3) by (auto simp: dom_def)
  moreover have "dom (L(b := None)) = allocated d'" using release.IH f(2) by simp
  moreover have "dynAllocStart d' = dynAllocStart d0" "dynAllocEnd d' = dynAllocEnd d0"
    using release.IH free_block_bounds [OF release.hyps(3)] by simp_all
  moreover have "n \<le> get_block_size c d'" if "(L(b := None)) c = Some n" for c n
    using that calculation(1) release.IH by (auto split: if_splits)
  ultimately show ?case using f(1) by blast
qed

text \<open>
  C30. Whatever a client requests and releases, in any order and over any supply of pages, from the initialised allocator on: the
  blocks it holds are exactly the allocated ones, they lie in the region, and no two of them overlap in the bytes it asked for.
  The client releases only blocks that it holds.
\<close>

theorem blocks_never_overlap:
  assumes "0 < s" "s mod PAGE_SIZE = 0" "n \<le> NUM_PAGE_INFOS" "s + DYN_ALLOC_MAX_SIZE < U32"
    and "initialize_dynamic_allocator s (s + PAGE_SIZE * n) da = Inr d0" and "handed_out gp rp d0 L d k"
  shows "dom L = allocated d \<and> (\<forall>b sz. L b = Some sz \<longrightarrow> s \<le> b \<and> b + sz \<le> s + PAGE_SIZE * n) \<and>
    (\<forall>b sz c tz. L b = Some sz \<longrightarrow> L c = Some tz \<longrightarrow> b \<noteq> c \<longrightarrow> {b ..< b + sz} \<inter> {c ..< c + tz} = {})"
proof -
  have d0: "da_inv d0" "allocated d0 = {}" "dynAllocStart d0 = s" "dynAllocEnd d0 = s + PAGE_SIZE * n"
    using initialize_inv [OF assms(1,2) refl assms(3,4), of da] assms(5) by auto
  note I = handed_out_inv [OF assms(6) d0(1,2)]
  have in_L: "b \<in> allocated d" "sz \<le> get_block_size b d" if "L b = Some sz" for b sz using I that by (auto simp: dom_def)
  have "{b ..< b + sz} \<inter> {c ..< c + tz} = {}" if "L b = Some sz" "L c = Some tz" "b \<noteq> c" for b sz c tz
    using allocated_blocks_disjoint [of d b c] I in_L [OF that(1)] in_L [OF that(2)] that(3) by fastforce
  moreover have "s \<le> b \<and> b + sz \<le> s + PAGE_SIZE * n" if "L b = Some sz" for b sz
  proof -
    have i: "da_inv d" "dynAllocStart d = s" "num_pages d = n" using I d0(3,4) by (simp_all add: num_pages_def)
    note b = in_L [OF that] block_within_page [OF i(1) in_L(1) [OF that]] block_in_region [OF i(1) in_L(1) [OF that]]
    have "Suc (page_of d b) * PAGE_SIZE \<le> n * PAGE_SIZE" using b(5) i(3) by (intro mult_le_mono1) simp
    then show ?thesis using b i(2) by simp
  qed
  ultimately show ?thesis using I by blast
qed

lemma small_da_init: "initialize_dynamic_allocator 4096 (4096 + PAGE_SIZE * 2) small_da = Inr small_da"
proof -
  have "(\<lambda>j. if j < 2 then z else z) = (\<lambda>_. z)" "[0..<2] = [0, 1 :: nat]" for z :: page_info by (auto simp: upt_rec)
  then show ?thesis
    by (simp add: initialize_dynamic_allocator_def small_da_def add32_def sub32_def init_free_lists_eq init_pages_eq cong: if_cong)
qed

theorem blocks_never_overlap_witness:
  "\<exists>L d. handed_out no_pages no_pages small_da L d () \<and> L 4096 = Some 1500 \<and> L 8192 = Some 8 \<and> {4096 ..< 4096 + 1500} \<inter> {8192 ..< 8192 + 8 :: nat} = {}"
proof -
  let ?d = "fresh_page 8 0 small_da"
  have "sizeClass 8 = 0" by (simp add: sizeClass_def find_log2.simps)
  then have a: "alloc_block no_pages 8 (?d, ()) = Inr (8192, fresh_page 0 1 ?d, ())"
    by (subst alloc_block_eq [OF small_da_fresh(1)]) (simp_all add: small_da_def no_pages_def)
  have h: "handed_out no_pages no_pages small_da (Map.empty(4096 \<mapsto> 1500, 8192 \<mapsto> 8)) (fresh_page 0 1 ?d) ()"
    by (rule handed_out.request [OF handed_out.request [OF handed_out.start _ small_da_alloc] _ a]) simp_all
  from blocks_never_overlap [OF _ _ _ _ small_da_init h] have "{4096 ..< 4096 + 1500} \<inter> {8192 ..< 8192 + 8 :: nat} = {}" by simp
  with h show ?thesis by (intro exI [of _ "Map.empty(4096 \<mapsto> 1500, 8192 \<mapsto> 8)"] exI [of _ "fresh_page 0 1 ?d"]) simp
qed

text \<open>
  Initialising a page-aligned region of at most 8192 pages establishes the invariant with
  every page free and no block allocated.
\<close>

theorem initialize_dynamic_allocator_correct:
  assumes "0 < s" and "s mod PAGE_SIZE = 0" and "n \<le> NUM_PAGE_INFOS" and "s + DYN_ALLOC_MAX_SIZE < U32"
  shows "\<exists>da'. initialize_dynamic_allocator s (s + PAGE_SIZE * n) da = Inr da' \<and> da_inv da' \<and>
           allocated da' = {} \<and> freePagesList da' = [0..<n]"
  using initialize_inv [OF assms(1,2) refl assms(3,4)] by blast

theorem initialize_dynamic_allocator_correct_witness:
  "\<exists>da'. initialize_dynamic_allocator KERNEL_HEAP_START (KERNEL_HEAP_START + DYN_ALLOC_MAX_SIZE) small_da = Inr da' \<and>
     da_inv da' \<and> allocated da' = {}"
  using initialize_dynamic_allocator_correct [of KERNEL_HEAP_START 8192 small_da] by auto

text \<open>
  Releasing a block that is already on its free list is not detected: the element is
  linked into the list a second time.
\<close>

theorem double_free_corrupts:
  assumes "da_inv da" and "i < 9" and "va \<in> set (freeBlockLists da i)"
  shows "free_block rp va (da, k) = Inl (Corrupted ''LIST_INSERT_HEAD'')"
proof -
  note f = da_invD [OF assms]
  have lay: "da_layout da" using assms(1) by (simp add: da_inv_def)
  have "page_of da va < NUM_PAGE_INFOS" using f(3) lay by (simp add: da_layout_def)
  then show ?thesis
    using f assms(2,3) page_of_exact [OF lay f(1,2)]
    by (simp add: free_block_def list_insert_head_def Let_def)
qed

theorem double_free_corrupts_witness:
  "free_block no_pages 6144 (fresh_page 8 0 small_da, ()) = Inl (Corrupted ''LIST_INSERT_HEAD'')"
  by (rule double_free_corrupts [OF small_da_fresh(1), of 8])
    (simp_all add: page_blocks_def class_size_def small_da_def upt_rec)

end
