(* ===== verification/Kspinlock.thy ===== *)
theory Kspinlock
  imports FOS_Prelude
begin

text \<open>
  Spinlocks and interrupt masking on the single processor (\<^verbatim>\<open>NCPUS\<close> is 1):
  \<^verbatim>\<open>src/kern/conc/kspinlock.c\<close>, and \<^verbatim>\<open>pushcli\<close>, \<^verbatim>\<open>popcli\<close> of
  \<^verbatim>\<open>src/kern/cpu/cpu.c\<close>. The components above keep, for each lock, only whether it is
  held; the last section justifies this: on a well-formed state the lock code behaves
  like a flag that is tested, set and cleared.
\<close>

section \<open>Interrupt masking\<close>

record cpu =
  ncli :: int        \<comment> \<open>depth of \<^verbatim>\<open>pushcli\<close> nesting\<close>
  intena :: bool     \<comment> \<open>interrupts were enabled before the outermost \<^verbatim>\<open>pushcli\<close>\<close>
  eflags_IF :: bool  \<comment> \<open>the interrupt flag of the processor\<close>

definition pushcli :: "cpu \<Rightarrow> cpu" where
  "pushcli c =
     (let eflags = eflags_IF c;
          c = c\<lparr>eflags_IF := False\<rparr>;
          c = (if ncli c = 0 then c\<lparr>intena := eflags\<rparr> else c)
      in c\<lparr>ncli := ncli c + 1\<rparr>)"

definition popcli :: "cpu \<Rightarrow> cpu result" where
  "popcli c =
     (if eflags_IF c then Inl (Panic ''popcli - interruptible'')
      else
        (let c = c\<lparr>ncli := ncli c - 1\<rparr>
         in if ncli c < 0 then Inl (Panic ''popcli'')
            else if ncli c = 0 \<and> intena c then Inr (c\<lparr>eflags_IF := True\<rparr>)
            else Inr c))"

section \<open>The lock\<close>

text \<open>\<open>lk_cpu\<close> is the processor that holds the lock; the debugging fields are left out.\<close>

record kspinlock =
  locked :: bool
  lk_cpu :: "nat option"

definition mycpu :: nat where
  "mycpu = 0"

definition init_kspinlock :: "kspinlock \<Rightarrow> kspinlock" where
  "init_kspinlock lk = lk\<lparr>locked := False, lk_cpu := None\<rparr>"

definition holding_kspinlock :: "kspinlock \<Rightarrow> cpu \<Rightarrow> (bool \<times> cpu) result" where
  "holding_kspinlock lock c =
     (let c = pushcli c;
          r = (locked lock \<and> lk_cpu lock = Some mycpu)
      in andThen (popcli c) (\<lambda>c. Inr (r, c)))"

text \<open>\<^verbatim>\<open>xchg\<close> on a lock that another processor holds is repeated until that one lets go.\<close>

definition acquire_kspinlock :: "kspinlock \<Rightarrow> cpu \<Rightarrow> (kspinlock \<times> cpu) result" where
  "acquire_kspinlock lk c =
     andThen (holding_kspinlock lk c) (\<lambda>(held, c).
     if held then Inl (Panic ''acquire_spinlock: lock is already held by the same CPU.'')
     else
       (let c = pushcli c
        in if locked lk then Inl Spins
           else Inr (lk\<lparr>locked := True, lk_cpu := Some mycpu\<rparr>, c)))"

definition release_kspinlock :: "kspinlock \<Rightarrow> cpu \<Rightarrow> (kspinlock \<times> cpu) result" where
  "release_kspinlock lk c =
     andThen (holding_kspinlock lk c) (\<lambda>(held, c).
     if \<not> held then Inl (Panic ''release: lock is either not held or held by another CPU!'')
     else
       (let lk = lk\<lparr>lk_cpu := None\<rparr>;
            lk = lk\<lparr>locked := False\<rparr>
        in andThen (popcli c) (\<lambda>c. Inr (lk, c))))"

section \<open>Well-formed states\<close>

definition cpu_wf :: "cpu \<Rightarrow> bool" where
  "cpu_wf c \<longleftrightarrow> 0 \<le> ncli c \<and> (0 < ncli c \<longrightarrow> \<not> eflags_IF c)"

definition lock_wf :: "kspinlock \<Rightarrow> bool" where
  "lock_wf lk \<longleftrightarrow> (if locked lk then lk_cpu lk = Some mycpu else lk_cpu lk = None)"

text \<open>What a routine may rely on: same depth, same interrupt flag.\<close>

definition same_mask :: "cpu \<Rightarrow> cpu \<Rightarrow> bool" where
  "same_mask c c' \<longleftrightarrow> ncli c' = ncli c \<and> eflags_IF c' = eflags_IF c \<and>
     (0 < ncli c \<longrightarrow> intena c' = intena c)"

lemma cpu_wf_pushcli: "cpu_wf c \<Longrightarrow> cpu_wf (pushcli c)"
  by (auto simp: cpu_wf_def pushcli_def Let_def)

lemma popcli_pushcli: "cpu_wf c \<Longrightarrow> \<exists>c'. popcli (pushcli c) = Inr c' \<and> same_mask c c' \<and> cpu_wf c'"
  by (auto simp: cpu_wf_def pushcli_def popcli_def same_mask_def Let_def)

lemma holding_wf:
  assumes "cpu_wf c" "lock_wf lk"
  shows "\<exists>c'. holding_kspinlock lk c = Inr (locked lk, c') \<and> same_mask c c' \<and> cpu_wf c'"
  using popcli_pushcli [OF assms(1)] assms(2)
  by (auto simp: holding_kspinlock_def lock_wf_def Let_def split: if_splits)

lemma same_mask_trans: "same_mask a b \<Longrightarrow> same_mask b c \<Longrightarrow> same_mask a c"
  by (auto simp: same_mask_def)

text \<open>A lock is a flag: the contract the components use.\<close>

lemma acquire_wf:
  assumes "cpu_wf c" "lock_wf lk"
  shows "if locked lk then \<exists>m. acquire_kspinlock lk c = Inl (Panic m)
         else \<exists>lk' c'. acquire_kspinlock lk c = Inr (lk', c') \<and> locked lk' \<and> lock_wf lk' \<and> cpu_wf c' \<and>
                \<not> eflags_IF c'"
proof -
  obtain c1 where h: "holding_kspinlock lk c = Inr (locked lk, c1)" "cpu_wf c1"
    using holding_wf [OF assms] by auto
  then show ?thesis
    using cpu_wf_pushcli [OF h(2)]
    by (auto simp: acquire_kspinlock_def lock_wf_def Let_def pushcli_def)
qed

text \<open>
  Acquiring a free spinlock masks interrupts and marks the lock; releasing it again gives
  back a free lock and the interrupt mask and nesting depth of before. Acquiring a lock that is
  held panics instead of spinning.
\<close>

lemma acquire_release_restores:
  assumes "cpu_wf c" and "lock_wf lk" and "\<not> locked lk"
  shows "\<exists>lk1 c1 lk2 c2. acquire_kspinlock lk c = Inr (lk1, c1) \<and> locked lk1 \<and> \<not> eflags_IF c1 \<and>
           (\<exists>m. acquire_kspinlock lk1 c1 = Inl (Panic m)) \<and>
           release_kspinlock lk1 c1 = Inr (lk2, c2) \<and> \<not> locked lk2 \<and> lock_wf lk2 \<and>
           cpu_wf c2 \<and> same_mask c c2"
proof -
  obtain c0 where h: "holding_kspinlock lk c = Inr (False, c0)" "same_mask c c0" "cpu_wf c0"
    using holding_wf [OF assms(1,2)] assms(3) by auto
  let ?lk = "lk\<lparr>locked := True, lk_cpu := Some mycpu\<rparr>" and ?c = "pushcli c0"
  have a: "acquire_kspinlock lk c = Inr (?lk, ?c)"
    using assms(3) by (simp add: acquire_kspinlock_def h Let_def)
  have w: "cpu_wf ?c" "lock_wf ?lk" "0 < ncli ?c" "\<not> eflags_IF ?c"
    using cpu_wf_pushcli [OF h(3)] h(3) by (auto simp: lock_wf_def cpu_wf_def pushcli_def Let_def)
  obtain c1 where h1: "holding_kspinlock ?lk ?c = Inr (True, c1)" "same_mask ?c c1" "cpu_wf c1"
    using holding_wf [OF w(1,2)] by auto
  have p: "\<exists>m. acquire_kspinlock ?lk ?c = Inl (Panic m)"
    using acquire_wf [OF w(1,2)] by simp
  have c1: "ncli c1 = ncli c0 + 1" "\<not> eflags_IF c1" "intena c1 = intena ?c"
    using h1(2) w by (auto simp: same_mask_def pushcli_def Let_def)
  obtain c2 where c2: "popcli c1 = Inr c2" "same_mask c0 c2" "cpu_wf c2"
    using c1 h(3) by (auto simp: popcli_def same_mask_def cpu_wf_def pushcli_def Let_def split: if_splits)
  have "release_kspinlock ?lk ?c = Inr (?lk\<lparr>lk_cpu := None, locked := False\<rparr>, c2)"
    by (simp add: release_kspinlock_def h1 c2 Let_def)
  moreover have "lock_wf (?lk\<lparr>lk_cpu := None, locked := False\<rparr>)" by (simp add: lock_wf_def)
  ultimately show ?thesis using a w p c2 same_mask_trans [OF h(2)] by force
qed

lemma acquire_release_restores_witness:
  "\<exists>lk1 c1. acquire_kspinlock \<lparr>locked = False, lk_cpu = None\<rparr> \<lparr>ncli = 0, intena = False, eflags_IF = True\<rparr>
       = Inr (lk1, c1) \<and> locked lk1 \<and> \<not> eflags_IF c1"
  using acquire_release_restores
    [of "\<lparr>ncli = 0, intena = False, eflags_IF = True\<rparr>" "\<lparr>locked = False, lk_cpu = None\<rparr>"]
  by (auto simp: cpu_wf_def lock_wf_def)

section \<open>Locks as flags\<close>

text \<open>The form in which the other components use a lock: is it held by this processor?\<close>

definition lock_acquire :: "bool \<Rightarrow> bool result" where
  "lock_acquire held =
     (if held then Inl (Panic ''acquire_spinlock: lock is already held by the same CPU.'') else Inr True)"

definition lock_release :: "bool \<Rightarrow> bool result" where
  "lock_release held =
     (if held then Inr False else Inl (Panic ''release: lock is either not held or held by another CPU!''))"

lemma lock_acquire_Inr [res_simps]: "lock_acquire h = Inr h' \<longleftrightarrow> \<not> h \<and> h'"
  by (auto simp: lock_acquire_def)

lemma lock_release_Inr [res_simps]: "lock_release h = Inr h' \<longleftrightarrow> h \<and> \<not> h'"
  by (auto simp: lock_release_def)

lemma lock_simps [simp]: "lock_acquire False = Inr True" "lock_release True = Inr False"
  by (simp_all add: lock_acquire_def lock_release_def)

text \<open>The flag operations are what the lock code does on a well-formed lock.\<close>

lemma acquire_refines_flag:
  assumes "cpu_wf c" "lock_wf lk"
  shows "map_sum id (\<lambda>(lk, c). locked lk) (acquire_kspinlock lk c) = lock_acquire (locked lk)"
proof -
  obtain c1 where "holding_kspinlock lk c = Inr (locked lk, c1)"
    using holding_wf [OF assms] by auto
  then show ?thesis
    using assms(2) by (auto simp: acquire_kspinlock_def lock_acquire_def Let_def lock_wf_def)
qed

end
