(* ===== verification/Kernel_Memory.thy ===== *)
theory Kernel_Memory
  imports Dynamic_Allocator Kspinlock
begin

text \<open>
  Physical frames and page tables: \<^verbatim>\<open>src/kern/mem/memory_manager.c\<close>,
  \<^verbatim>\<open>src/kern/mem/memory_manager.h\<close> and \<^verbatim>\<open>src/kern/mem/paging_helpers.c\<close>, with
  \<^verbatim>\<open>kheap_virtual_address\<close> and \<^verbatim>\<open>kheap_physical_address\<close> of
  \<^verbatim>\<open>src/kern/mem/kheap.c\<close>, which the page table walk and the kernel heap call.
  One record holds the kernel's memory state, the heap included, because these routines
  call each other across the files. Page directories and page tables are words stored
  under their virtual address; the TLB and the contents of data pages are not modelled.
\<close>

unbundle bit_operations_syntax

section \<open>State\<close>

type_synonym u32 = "32 word"

abbreviation PERM_PRESENT :: u32 where "PERM_PRESENT \<equiv> 0x001"
abbreviation PERM_WRITEABLE :: u32 where "PERM_WRITEABLE \<equiv> 0x002"
abbreviation PERM_USER :: u32 where "PERM_USER \<equiv> 0x004"
abbreviation PERM_USED :: u32 where "PERM_USED \<equiv> 0x020"
abbreviation PERM_MODIFIED :: u32 where "PERM_MODIFIED \<equiv> 0x040"
abbreviation PERM_BUFFERED :: u32 where "PERM_BUFFERED \<equiv> 0x200"
abbreviation PERM_UHPAGE :: u32 where "PERM_UHPAGE \<equiv> 0x400"
abbreviation PERM_AVAILABLE :: u32 where "PERM_AVAILABLE \<equiv> 0xE00"
abbreviation OFFSET_MASK :: u32 where "OFFSET_MASK \<equiv> 0xFFF"

record frame_info =
  references :: nat     \<comment> \<open>\<^verbatim>\<open>uint16\<close>\<close>
  isBuffered :: bool
  fi_proc :: "nat option"   \<comment> \<open>\<^verbatim>\<open>struct Env *proc\<close>\<close>
  fi_va :: nat          \<comment> \<open>the virtual address the frame was last mapped at\<close>

definition zero_frame_info :: frame_info where
  "zero_frame_info = \<lparr>references = 0, isBuffered = False, fi_proc = None, fi_va = 0\<rparr>"

text \<open>A run of pages of the heap's page allocator: \<^verbatim>\<open>struct Bulk\<close>, with its address.\<close>

record bulk =
  bulk_addr :: nat
  bulk_start :: nat
  bulk_size :: nat

text \<open>A \<^verbatim>\<open>struct FrameInfo *\<close> is the number of the frame.\<close>

record kmem =
  frames_info :: "nat \<Rightarrow> frame_info"
  number_of_frames :: nat
  free_frame_list :: "nat list"
  modified_frame_list :: "nat list"
  mfllock :: bool
  directories :: "nat \<Rightarrow> nat \<Rightarrow> u32"   \<comment> \<open>directory address, index\<close>
  tables :: "nat \<Rightarrow> nat \<Rightarrow> u32"        \<comment> \<open>table address, index\<close>
  ptr_page_directory :: nat           \<comment> \<open>the kernel's directory\<close>
  da :: dyn_alloc
  kheap_lock :: bool
  kheapPageAllocStart :: nat
  kheapPageAllocBreak :: nat
  kheapPlacementStrategy :: nat
  bulks :: "bulk list"
  bulks_allocated :: "bulk list"

definition set_frame :: "nat \<Rightarrow> frame_info \<Rightarrow> kmem \<Rightarrow> kmem" where
  "set_frame f v s = s\<lparr>frames_info := (frames_info s)(f := v)\<rparr>"

definition set_entry :: "nat \<Rightarrow> nat \<Rightarrow> u32 \<Rightarrow> kmem \<Rightarrow> kmem" where
  "set_entry t i v s = s\<lparr>tables := (tables s)(t := (tables s t)(i := v))\<rparr>"

definition set_dir_entry :: "nat \<Rightarrow> nat \<Rightarrow> u32 \<Rightarrow> kmem \<Rightarrow> kmem" where
  "set_dir_entry d i v s = s\<lparr>directories := (directories s)(d := (directories s d)(i := v))\<rparr>"

section \<open>Address arithmetic\<close>

definition PPN :: "nat \<Rightarrow> nat" where
  "PPN la = la div 4096"

definition PDX :: "nat \<Rightarrow> nat" where
  "PDX la = la div 4194304 mod 1024"

definition PTX :: "nat \<Rightarrow> nat" where
  "PTX la = la div 4096 mod 1024"

definition EXTRACT_ADDRESS :: "u32 \<Rightarrow> nat" where
  "EXTRACT_ADDRESS entry = unat (entry AND NOT OFFSET_MASK)"

definition CONSTRUCT_ENTRY :: "nat \<Rightarrow> u32 \<Rightarrow> u32" where
  "CONSTRUCT_ENTRY phys_frame_address permissions = word_of_nat phys_frame_address OR permissions"

definition CHECK_IF_KERNEL_ADDRESS :: "nat \<Rightarrow> bool" where
  "CHECK_IF_KERNEL_ADDRESS va \<longleftrightarrow> va \<ge> USER_TOP \<and> va \<le> 0xFFFFFFFF"

definition to_physical_address :: "nat \<Rightarrow> nat" where
  "to_physical_address ptr_frame_info = (ptr_frame_info * 4096) mod U32"

definition to_frame_info :: "nat \<Rightarrow> kmem \<Rightarrow> nat result" where
  "to_frame_info pa s =
     (if PPN pa \<ge> number_of_frames s then Inl (Panic ''to_frame_info called with invalid pa'')
      else Inr (PPN pa))"

definition STATIC_KERNEL_VIRTUAL_ADDRESS :: "nat \<Rightarrow> kmem \<Rightarrow> nat result" where
  "STATIC_KERNEL_VIRTUAL_ADDRESS pa s =
     (if PPN pa \<ge> number_of_frames s then Inl (Panic ''K_VIRTUAL_ADDRESS called with invalid pa'')
      else Inr (add32 pa KERNEL_BASE))"

section \<open>Physical frames\<close>

definition allocate_frame :: "kmem \<Rightarrow> (nat \<times> kmem) result" where
  "allocate_frame s =
     (let lock_already_held = mfllock s in
      andThen (if \<not> lock_already_held then lock_acquire (mfllock s) else Inr (mfllock s)) (\<lambda>h.
      (let s = s\<lparr>mfllock := h\<rparr> in
       case free_frame_list s of
         [] \<Rightarrow> Inl (Panic ''ERROR: Kernel run out of memory... allocate_frame cannot find a free frame.'')
       | f # _ \<Rightarrow>
           andThen (list_remove f (free_frame_list s)) (\<lambda>fl.
           (let s = set_frame f zero_frame_info (s\<lparr>free_frame_list := fl\<rparr>) in
            andThen (if \<not> lock_already_held then lock_release (mfllock s) else Inr (mfllock s)) (\<lambda>h.
            Inr (f, s\<lparr>mfllock := h\<rparr>)))))))"

definition free_frame :: "nat \<Rightarrow> kmem \<Rightarrow> kmem result" where
  "free_frame f s =
     (let lock_already_held = mfllock s in
      andThen (if \<not> lock_already_held then lock_acquire (mfllock s) else Inr (mfllock s)) (\<lambda>h.
      (let s = set_frame f zero_frame_info (s\<lparr>mfllock := h\<rparr>) in
       andThen (list_insert_head f (free_frame_list s)) (\<lambda>fl.
       (let s = s\<lparr>free_frame_list := fl\<rparr> in
        andThen (if \<not> lock_already_held then lock_release (mfllock s) else Inr (mfllock s)) (\<lambda>h.
        Inr (s\<lparr>mfllock := h\<rparr>)))))))"

definition decrement_references :: "nat \<Rightarrow> kmem \<Rightarrow> kmem result" where
  "decrement_references f s =
     (let fi = frames_info s f;
          r = dec16 (references fi);
          s = set_frame f (fi\<lparr>references := r\<rparr>) s
      in if r = 0 then free_frame f s else Inr s)"

record freeFramesCounters =
  freeBuffered :: nat
  freeNotBuffered :: nat
  modified :: nat

definition calculate_available_frames :: "kmem \<Rightarrow> freeFramesCounters" where
  "calculate_available_frames s =
     \<lparr>freeBuffered = length (filter (\<lambda>f. isBuffered (frames_info s f)) (free_frame_list s)),
      freeNotBuffered = length (filter (\<lambda>f. \<not> isBuffered (frames_info s f)) (free_frame_list s)),
      modified = length (modified_frame_list s)\<rparr>"

section \<open>Heap addresses\<close>

text \<open>
  \<^verbatim>\<open>kheap_virtual_address\<close> and \<^verbatim>\<open>kheap_physical_address\<close> take and release
  \<^verbatim>\<open>kheap_lock\<close>; the result is the state with the lock as it was. \<open>0\<close> stands for
  \<^verbatim>\<open>NULL\<close>.
\<close>

definition in_heap_region :: "nat \<Rightarrow> kmem \<Rightarrow> bool" where
  "in_heap_region va s \<longleftrightarrow>
     (va \<ge> dynAllocStart (da s) \<and> va < dynAllocEnd (da s)) \<or>
     (va \<ge> kheapPageAllocStart s \<and> va < KERNEL_HEAP_MAX)"

definition kheap_virtual_address :: "nat \<Rightarrow> kmem \<Rightarrow> nat result" where
  "kheap_virtual_address physical_address s =
     andThen (lock_acquire (kheap_lock s)) (\<lambda>h.
     andThen (to_frame_info physical_address s) (\<lambda>fi.
     andThen
       (if fi_va (frames_info s fi) = 0 then Inr 0
        else
          (let va_base = fi_va (frames_info s fi) in
           if \<not> in_heap_region va_base s then Inr 0
           else Inr (add32 va_base (physical_address mod PAGE_SIZE)))) (\<lambda>r.
     andThen (lock_release h) (\<lambda>_. Inr r))))"

text \<open>
  The page table walk. An entry that is not present but not zero leads to
  \<^verbatim>\<open>fault_handler(NULL)\<close>, which dereferences its argument.
\<close>

datatype table_status = TABLE_IN_MEMORY | TABLE_NOT_EXIST

definition get_page_table :: "nat \<Rightarrow> nat \<Rightarrow> kmem \<Rightarrow> (table_status \<times> nat) result" where
  "get_page_table dir va s =
     (let page_directory_entry = directories s dir (PDX va) in
      if page_directory_entry AND PERM_PRESENT = PERM_PRESENT then
        andThen (if \<not> CHECK_IF_KERNEL_ADDRESS va
                 then kheap_virtual_address (EXTRACT_ADDRESS page_directory_entry) s
                 else STATIC_KERNEL_VIRTUAL_ADDRESS (EXTRACT_ADDRESS page_directory_entry) s)
          (\<lambda>t. Inr (TABLE_IN_MEMORY, t))
      else if page_directory_entry \<noteq> 0 then Inl (Cpu_trap ''fault_handler(NULL)'')
      else Inr (TABLE_NOT_EXIST, 0))"

definition kheap_physical_address :: "nat \<Rightarrow> kmem \<Rightarrow> nat result" where
  "kheap_physical_address va s =
     andThen (lock_acquire (kheap_lock s)) (\<lambda>h.
     andThen
       (if \<not> in_heap_region va s then Inr 0
        else
          andThen (get_page_table (ptr_page_directory s) va s) (\<lambda>(_, t).
          if t = 0 then Inr 0
          else
            (let entry = tables s t (PTX va) in
             if entry AND PERM_PRESENT = 0 then Inr 0
             else Inr (add32 (unat (entry AND 0xFFFFF000)) (va mod PAGE_SIZE))))) (\<lambda>r.
     andThen (lock_release h) (\<lambda>_. Inr r)))"

definition get_frame_info :: "nat \<Rightarrow> nat \<Rightarrow> kmem \<Rightarrow> (nat option \<times> nat) result" where
  "get_frame_info dir va s =
     andThen (get_page_table dir va s) (\<lambda>(_, t).
     if t \<noteq> 0 then
       (let page_table_entry = tables s t (PTX va) in
        if page_table_entry AND NOT OFFSET_MASK \<noteq> 0 \<or>
           page_table_entry AND (PERM_PRESENT OR PERM_BUFFERED) \<noteq> 0
        then andThen (to_frame_info (EXTRACT_ADDRESS page_table_entry) s) (\<lambda>f. Inr (Some f, t))
        else Inr (None, t))
     else Inr (None, t))"

definition unmap_frame :: "nat \<Rightarrow> nat \<Rightarrow> kmem \<Rightarrow> kmem result" where
  "unmap_frame dir va s =
     andThen (get_frame_info dir va s) (\<lambda>(fi, t).
     (case fi of
        None \<Rightarrow> Inr s
      | Some f \<Rightarrow>
          andThen (decrement_references f s) (\<lambda>s.
          (let s = set_frame f ((frames_info s f)\<lparr>fi_va := 0\<rparr>) s
           in Inr (set_entry t (PTX va) (tables s t (PTX va) AND PERM_AVAILABLE) s)))))"

text \<open>
  \<^verbatim>\<open>map_frame\<close> calls \<^verbatim>\<open>create_page_table\<close> when the directory has no table; that
  one calls \<^verbatim>\<open>kmalloc\<close>, which again calls \<^verbatim>\<open>map_frame\<close>. The recursion is cut
  here: \<open>cpt\<close> is the routine that creates a table (theory \<open>Kernel_Heap\<close> supplies it).
  All calls return 0 when they return; \<^verbatim>\<open>map_frame\<close> has no error return.
\<close>

definition map_frame ::
  "(nat \<Rightarrow> nat \<Rightarrow> kmem \<Rightarrow> (nat \<times> kmem) result) \<Rightarrow> nat \<Rightarrow> nat \<Rightarrow> nat \<Rightarrow> u32 \<Rightarrow> kmem \<Rightarrow> kmem result" where
  "map_frame cpt dir f va perm s =
     (let physical_address = to_physical_address f in
      andThen (get_page_table dir va s) (\<lambda>(st, t).
      andThen (if st = TABLE_NOT_EXIST then cpt dir va s else Inr (t, s)) (\<lambda>(t, s).
      if t = 0 then Inl (Cpu_trap ''ptr_page_table[PTX(virtual_address)]'')
      else
        (let page_table_entry = tables s t (PTX va) in
         if page_table_entry AND PERM_PRESENT = PERM_PRESENT \<and>
            EXTRACT_ADDRESS page_table_entry = physical_address
         then Inr s
         else
           andThen (if page_table_entry AND PERM_PRESENT = PERM_PRESENT
                    then unmap_frame dir va s else Inr s) (\<lambda>s.
           (let fi = frames_info s f;
                s = set_frame f (fi\<lparr>references := inc16 (references fi), fi_va := va\<rparr>) s;
                pte_available_bits = tables s t (PTX va) AND PERM_AVAILABLE
            in Inr (set_entry t (PTX va)
                     (CONSTRUCT_ENTRY physical_address (pte_available_bits OR perm OR PERM_PRESENT)) s)))))))"

definition loadtime_map_frame ::
  "(nat \<Rightarrow> nat \<Rightarrow> kmem \<Rightarrow> (nat \<times> kmem) result) \<Rightarrow> nat \<Rightarrow> nat \<Rightarrow> nat \<Rightarrow> u32 \<Rightarrow> kmem \<Rightarrow> kmem result" where
  "loadtime_map_frame cpt dir f va perm s =
     (let physical_address = to_physical_address f;
          page_directory_entry = directories s dir (PDX va)
      in
      andThen (if \<not> CHECK_IF_KERNEL_ADDRESS va
               then kheap_virtual_address (EXTRACT_ADDRESS page_directory_entry) s
               else STATIC_KERNEL_VIRTUAL_ADDRESS (EXTRACT_ADDRESS page_directory_entry) s) (\<lambda>t.
      andThen (if page_directory_entry = 0 then cpt dir va s else Inr (t, s)) (\<lambda>(t, s).
      if t = 0 then Inl (Cpu_trap ''ptr_page_table[PTX(virtual_address)]'')
      else
        (let fi = frames_info s f;
             s = set_frame f (fi\<lparr>references := inc16 (references fi)\<rparr>) s
         in Inr (set_entry t (PTX va) (CONSTRUCT_ENTRY physical_address (perm OR PERM_PRESENT)) s)))))"

section \<open>Paging helpers\<close>

definition pt_set_page_permissions :: "nat \<Rightarrow> nat \<Rightarrow> u32 \<Rightarrow> u32 \<Rightarrow> kmem \<Rightarrow> kmem result" where
  "pt_set_page_permissions dir va permissions_to_set permissions_to_clear s =
     andThen (get_page_table dir va s) (\<lambda>(_, t).
     if t \<noteq> 0 then
       (let s = set_entry t (PTX va) (tables s t (PTX va) OR permissions_to_set) s
        in Inr (set_entry t (PTX va) (tables s t (PTX va) AND NOT permissions_to_clear) s))
     else Inl (Panic ''function pt_set_page_permissions() called with invalid virtual address.''))"

text \<open>The result \<open>-1\<close> of \<^verbatim>\<open>pt_get_page_permissions\<close> is the word of all ones.\<close>

definition pt_get_page_permissions :: "nat \<Rightarrow> nat \<Rightarrow> kmem \<Rightarrow> u32 result" where
  "pt_get_page_permissions dir va s =
     andThen (get_page_table dir va s) (\<lambda>(_, t).
     if t = 0 then Inr (- 1) else Inr (tables s t (PTX va) AND 0x00000FFF))"

definition pt_clear_page_table_entry :: "nat \<Rightarrow> nat \<Rightarrow> kmem \<Rightarrow> kmem result" where
  "pt_clear_page_table_entry dir va s = Inl (Panic ''pt_clear_page_table_entry() is not implemented yet!'')"

definition num_of_references :: "nat \<Rightarrow> kmem \<Rightarrow> nat result" where
  "num_of_references pa s = andThen (to_frame_info pa s) (\<lambda>f. Inr (references (frames_info s f)))"

text \<open>\<^verbatim>\<open>alloc_page\<close> returns 1 if the page is mapped already, 0 if it mapped a frame.\<close>

definition alloc_page ::
  "(nat \<Rightarrow> nat \<Rightarrow> kmem \<Rightarrow> (nat \<times> kmem) result) \<Rightarrow> nat \<Rightarrow> nat \<Rightarrow> u32 \<Rightarrow> kmem \<Rightarrow> (int \<times> kmem) result" where
  "alloc_page cpt dir va perms s =
     andThen (get_frame_info dir va s) (\<lambda>(fi, t).
     if fi \<noteq> None then Inr (1, s)
     else
       andThen (allocate_frame s) (\<lambda>(f, s).
       andThen (map_frame cpt dir f va perms s) (\<lambda>s. Inr (0, s))))"

definition pd_is_table_used :: "nat \<Rightarrow> nat \<Rightarrow> kmem \<Rightarrow> bool" where
  "pd_is_table_used dir va s \<longleftrightarrow> directories s dir (PDX va) AND PERM_USED = PERM_USED"

definition pd_set_table_unused :: "nat \<Rightarrow> nat \<Rightarrow> kmem \<Rightarrow> kmem" where
  "pd_set_table_unused dir va s = set_dir_entry dir (PDX va) (directories s dir (PDX va) AND NOT PERM_USED) s"

definition pd_clear_page_dir_entry :: "nat \<Rightarrow> nat \<Rightarrow> kmem \<Rightarrow> kmem" where
  "pd_clear_page_dir_entry dir va s = set_dir_entry dir (PDX va) 0 s"

section \<open>Page table entries\<close>

lemma EXTRACT_CONSTRUCT:
  assumes "f < 1048576" and "perm AND NOT OFFSET_MASK = 0"
  shows "EXTRACT_ADDRESS (CONSTRUCT_ENTRY (f * 4096) perm) = f * 4096"
proof -
  have w: "word_of_nat (f * 4096) = push_bit 12 (word_of_nat f :: u32)"
    by (simp add: push_bit_eq_mult)
  have m: "(OFFSET_MASK :: u32) = mask 12" by (simp add: mask_eq_exp_minus_1)
  have "push_bit 12 (word_of_nat f :: u32) AND NOT (mask 12) = push_bit 12 (word_of_nat f)"
    by (rule bit_eqI) (auto simp: bit_simps)
  then have "CONSTRUCT_ENTRY (f * 4096) perm AND NOT OFFSET_MASK = word_of_nat (f * 4096)"
    using assms(2) unfolding CONSTRUCT_ENTRY_def w m by (simp add: bit.conj_disj_distrib2)
  then show ?thesis
    using assms(1) by (simp add: EXTRACT_ADDRESS_def unat_of_nat del: of_nat_mult)
qed

lemma CONSTRUCT_PRESENT: "CONSTRUCT_ENTRY pa (a OR perm OR PERM_PRESENT) AND PERM_PRESENT = PERM_PRESENT"
  by (simp add: CONSTRUCT_ENTRY_def bit.conj_disj_distrib2)

lemma CONSTRUCT_BUFFERED: "word_of_nat (f * 4096) AND PERM_BUFFERED = 0"
proof -
  have "word_of_nat (f * 4096) = push_bit 12 (word_of_nat f :: u32)" by (simp add: push_bit_eq_mult)
  moreover have "(PERM_BUFFERED :: u32) = push_bit 9 1" by simp
  moreover have "push_bit 12 (word_of_nat f :: u32) AND push_bit 9 1 = 0"
    by (rule bit_eqI) (auto simp only: bit_and_iff bit_push_bit_iff bit_1_iff bit_0_eq)
  ultimately show ?thesis by metis
qed

lemma present_cases: "(e :: u32) AND PERM_PRESENT = 0 \<or> e AND PERM_PRESENT = PERM_PRESENT"
  by (cases "even e") (simp_all add: and_one_eq even_iff_mod_2_eq_zero odd_iff_mod_2_eq_one)

lemma present_iff: "(e :: u32) AND PERM_PRESENT = PERM_PRESENT \<longleftrightarrow> e AND PERM_PRESENT \<noteq> 0"
  using present_cases [of e] by auto

lemma EXTRACT_mask: "unat (e AND 0xFFFFF000) = EXTRACT_ADDRESS e"
proof -
  have "(0xFFFFF000 :: u32) = NOT OFFSET_MASK" by simp
  then show ?thesis by (simp only: EXTRACT_ADDRESS_def)
qed

lemma PPN_frame [simp]: "PPN (f * 4096) = f"
  by (simp add: PPN_def)

lemma to_physical_address_exact: "f < 1048576 \<Longrightarrow> to_physical_address f = f * 4096"
  by (simp add: to_physical_address_def)

lemma page_index_unique:
  assumes "va < U32" "va' < U32" "PDX va = PDX va'" "PTX va = PTX va'" "va mod 4096 = va' mod 4096"
  shows "va = va'"
proof -
  have e: "v = (v div 4194304 mod 1024) * 4194304 + (v div 4096 mod 1024) * 4096 + v mod 4096" if "v < U32" for v :: nat
  proof -
    have "v div 4194304 mod 1024 = v div 4096 div 1024"
      using that by (simp add: div_mult2_eq [symmetric])
    then have "(v div 4194304 mod 1024) * 1024 + v div 4096 mod 1024 = v div 4096" by simp
    moreover have "v div 4096 * 4096 + v mod 4096 = v" by simp
    ultimately show ?thesis by linarith
  qed
  show ?thesis using e [OF assms(1)] e [OF assms(2)] assms(3-5) by (simp add: PDX_def PTX_def)
qed

section \<open>The kernel's heap mapping\<close>

text \<open>
  The kernel maps the heap region through its own page directory, whose tables are set up
  at boot: each is present, lies in physical memory and belongs to one directory entry.
\<close>

definition kpde :: "kmem \<Rightarrow> nat \<Rightarrow> u32" where
  "kpde s va = directories s (ptr_page_directory s) (PDX va)"

definition ktable :: "kmem \<Rightarrow> nat \<Rightarrow> nat" where
  "ktable s va = EXTRACT_ADDRESS (kpde s va) + KERNEL_BASE"

definition kpte :: "kmem \<Rightarrow> nat \<Rightarrow> u32" where
  "kpte s va = tables s (ktable s va) (PTX va)"

definition heap_page :: "nat \<Rightarrow> bool" where
  "heap_page va \<longleftrightarrow> va mod PAGE_SIZE = 0 \<and> KERNEL_HEAP_START \<le> va \<and> va < KERNEL_HEAP_MAX"

definition kernel_tables :: "kmem \<Rightarrow> bool" where
  "kernel_tables s \<longleftrightarrow> number_of_frames s \<le> 65536 \<and>
     (\<forall>va. KERNEL_HEAP_START \<le> va \<and> va < KERNEL_HEAP_MAX \<longrightarrow>
        kpde s va AND PERM_PRESENT = PERM_PRESENT \<and> PPN (EXTRACT_ADDRESS (kpde s va)) < number_of_frames s) \<and>
     (\<forall>va va'. KERNEL_HEAP_START \<le> va \<and> va < KERNEL_HEAP_MAX \<and> KERNEL_HEAP_START \<le> va' \<and> va' < KERNEL_HEAP_MAX \<and>
        ktable s va = ktable s va' \<longrightarrow> PDX va = PDX va')"

definition frame_lists_ok :: "kmem \<Rightarrow> bool" where
  "frame_lists_ok s \<longleftrightarrow> \<not> mfllock s \<and> distinct (free_frame_list s) \<and>
     (\<forall>f \<in> set (free_frame_list s). f < number_of_frames s \<and> references (frames_info s f) = 0 \<and>
        fi_va (frames_info s f) = 0)"

definition kmapped :: "kmem \<Rightarrow> nat \<Rightarrow> bool" where
  "kmapped s va \<longleftrightarrow> kpte s va AND PERM_PRESENT \<noteq> 0"

definition kframe :: "kmem \<Rightarrow> nat \<Rightarrow> nat" where
  "kframe s va = PPN (EXTRACT_ADDRESS (kpte s va))"

text \<open>
  A mapped heap page has its own frame, which is not free, has one reference and records
  the page as its virtual address; the entry of an unmapped page names no frame.
\<close>

definition heap_page_ok :: "kmem \<Rightarrow> nat \<Rightarrow> bool" where
  "heap_page_ok s va \<longleftrightarrow> kpte s va AND PERM_BUFFERED = 0 \<and>
     (if kmapped s va
      then kframe s va < number_of_frames s \<and> kframe s va \<notin> set (free_frame_list s) \<and>
           references (frames_info s (kframe s va)) = Suc 0 \<and> fi_va (frames_info s (kframe s va)) = va \<and>
           EXTRACT_ADDRESS (kpte s va) = kframe s va * 4096
      else kpte s va AND NOT OFFSET_MASK = 0)"

definition heap_mapping_ok :: "kmem \<Rightarrow> bool" where
  "heap_mapping_ok s \<longleftrightarrow> (\<forall>va. heap_page va \<longrightarrow> heap_page_ok s va)"

definition kmap_inv :: "kmem \<Rightarrow> bool" where
  "kmap_inv s \<longleftrightarrow> kernel_tables s \<and> frame_lists_ok s \<and> heap_mapping_ok s"

lemma set_frame_simps [simp]:
  "frames_info (set_frame f v s) = (frames_info s)(f := v)"
  "number_of_frames (set_frame f v s) = number_of_frames s"
  "free_frame_list (set_frame f v s) = free_frame_list s"
  "mfllock (set_frame f v s) = mfllock s"
  "tables (set_frame f v s) = tables s"
  "directories (set_frame f v s) = directories s"
  "ptr_page_directory (set_frame f v s) = ptr_page_directory s"
  "kheap_lock (set_frame f v s) = kheap_lock s"
  "da (set_frame f v s) = da s"
  by (simp_all add: set_frame_def)

lemma set_frame_twice [simp]: "set_frame f v (set_frame f w s) = set_frame f v s"
  by (simp add: set_frame_def)

lemma set_entry_simps [simp]:
  "frames_info (set_entry t i v s) = frames_info s"
  "number_of_frames (set_entry t i v s) = number_of_frames s"
  "free_frame_list (set_entry t i v s) = free_frame_list s"
  "mfllock (set_entry t i v s) = mfllock s"
  "tables (set_entry t i v s) = (tables s)(t := (tables s t)(i := v))"
  "directories (set_entry t i v s) = directories s"
  "ptr_page_directory (set_entry t i v s) = ptr_page_directory s"
  "kheap_lock (set_entry t i v s) = kheap_lock s"
  "da (set_entry t i v s) = da s"
  by (simp_all add: set_entry_def)

lemma ktable_frame [simp]:
  "kpde (set_frame f v s) = kpde s" "kpde (set_entry t i e s) = kpde s"
  "kpde (s\<lparr>free_frame_list := fl\<rparr>) = kpde s" "kpde (s\<lparr>mfllock := h\<rparr>) = kpde s"
  "ktable (set_frame f v s) = ktable s" "ktable (set_entry t i e s) = ktable s"
  "ktable (s\<lparr>free_frame_list := fl\<rparr>) = ktable s" "ktable (s\<lparr>mfllock := h\<rparr>) = ktable s"
  by (simp_all add: kpde_def ktable_def fun_eq_iff)

lemma kernel_tables_cong:
  "kpde s' = kpde s \<Longrightarrow> number_of_frames s' = number_of_frames s \<Longrightarrow> kernel_tables s' = kernel_tables s"
  by (simp add: kernel_tables_def ktable_def)

lemma EXTRACT_lt: "EXTRACT_ADDRESS e < U32"
  using unsigned_less [of "e AND NOT OFFSET_MASK", where ?'a = nat] by (simp add: EXTRACT_ADDRESS_def)

lemma k_get_page_table:
  assumes "kernel_tables s" "heap_page va"
  shows "get_page_table (ptr_page_directory s) va s = Inr (TABLE_IN_MEMORY, ktable s va)"
    and "ktable s va \<noteq> 0"
proof -
  have p: "kpde s va AND PERM_PRESENT = PERM_PRESENT" "PPN (EXTRACT_ADDRESS (kpde s va)) < number_of_frames s"
      "number_of_frames s \<le> 65536"
    using assms by (auto simp: kernel_tables_def heap_page_def)
  have "EXTRACT_ADDRESS (kpde s va) div 4096 < 65536" using p(2,3) by (simp add: PPN_def)
  then have "EXTRACT_ADDRESS (kpde s va) < 268435456" by linarith
  then show "get_page_table (ptr_page_directory s) va s = Inr (TABLE_IN_MEMORY, ktable s va)"
    using p assms(2)
    by (simp add: get_page_table_def kpde_def [symmetric] CHECK_IF_KERNEL_ADDRESS_def heap_page_def
        STATIC_KERNEL_VIRTUAL_ADDRESS_def ktable_def u32_simps)
  show "ktable s va \<noteq> 0" by (simp add: ktable_def)
qed

lemma kpte_set_entry:
  assumes "kernel_tables s" "heap_page va" "heap_page va'"
  shows "kpte (set_entry (ktable s va) (PTX va) e s) va' = (if va' = va then e else kpte s va')"
proof (cases "va' = va")
  case False
  have "\<not> (ktable s va' = ktable s va \<and> PTX va' = PTX va)"
  proof
    assume "ktable s va' = ktable s va \<and> PTX va' = PTX va"
    then have "PDX va' = PDX va" "PTX va' = PTX va"
      using assms by (auto simp: kernel_tables_def heap_page_def)
    then show False using False page_index_unique [of va' va] assms(2,3) by (simp add: heap_page_def)
  qed
  with False show ?thesis by (auto simp: kpte_def)
qed (simp add: kpte_def)

lemma kpte_frame [simp]:
  "kpte (set_frame f v s) = kpte s" "kpte (s\<lparr>free_frame_list := fl\<rparr>) = kpte s" "kpte (s\<lparr>mfllock := h\<rparr>) = kpte s"
  by (simp_all add: kpte_def fun_eq_iff)

lemma k_get_frame_info:
  assumes "kmap_inv s" "heap_page va"
  shows "get_frame_info (ptr_page_directory s) va s =
    Inr (if kmapped s va then Some (kframe s va) else None, ktable s va)"
proof -
  have kt: "kernel_tables s" and m: "heap_mapping_ok s" using assms(1) by (auto simp: kmap_inv_def)
  note g = k_get_page_table [OF kt assms(2)]
  show ?thesis
  proof (cases "kmapped s va")
    case True
    have "kpte s va AND (PERM_PRESENT OR PERM_BUFFERED) \<noteq> 0"
    proof
      assume a: "kpte s va AND (PERM_PRESENT OR PERM_BUFFERED) = 0"
      have "kpte s va AND PERM_PRESENT = (kpte s va AND (PERM_PRESENT OR PERM_BUFFERED)) AND PERM_PRESENT"
        by (simp add: and.assoc)
      then show False using True a by (simp add: kmapped_def)
    qed
    moreover have "kframe s va < number_of_frames s" using m assms(2) True by (auto simp: heap_mapping_ok_def heap_page_ok_def)
    ultimately show ?thesis
      using g True by (simp add: get_frame_info_def kpte_def [symmetric] to_frame_info_def kframe_def Let_def)
  next
    case False
    then have "kpte s va AND NOT OFFSET_MASK = 0" "kpte s va AND PERM_BUFFERED = 0" "kpte s va AND PERM_PRESENT = 0"
      using m assms(2) by (auto simp: heap_mapping_ok_def heap_page_ok_def kmapped_def)
    moreover have "kpte s va AND (PERM_PRESENT OR PERM_BUFFERED) = (kpte s va AND PERM_PRESENT) OR (kpte s va AND PERM_BUFFERED)"
      by (rule bit.conj_disj_distrib)
    ultimately show ?thesis
      using g False by (simp add: get_frame_info_def kpte_def [symmetric] Let_def)
  qed
qed


section \<open>Mapping and unmapping a heap page\<close>

lemma allocate_frame_eq:
  assumes "frame_lists_ok s"
  shows "allocate_frame s =
    (case free_frame_list s of
       [] \<Rightarrow> Inl (Panic ''ERROR: Kernel run out of memory... allocate_frame cannot find a free frame.'')
     | f # fl \<Rightarrow> Inr (f, set_frame f zero_frame_info (s\<lparr>free_frame_list := fl\<rparr>)))"
proof -
  have h: "mfllock s = False" using assms by (simp add: frame_lists_ok_def)
  then have "s\<lparr>mfllock := False\<rparr> = s" by (cases s) simp
  then have e: "set_frame f v (s\<lparr>mfllock := True, free_frame_list := fl\<rparr>)\<lparr>mfllock := False\<rparr> =
      set_frame f v (s\<lparr>free_frame_list := fl\<rparr>)" for f v fl
    by (cases s) (simp add: set_frame_def)
  show ?thesis
    using h by (cases "free_frame_list s") (simp_all add: allocate_frame_def Let_def list_remove_def e)
qed

definition perms_ok :: "u32 \<Rightarrow> bool" where
  "perms_ok perm \<longleftrightarrow> perm AND NOT OFFSET_MASK = 0 \<and> perm AND PERM_BUFFERED = 0"

text \<open>The state after a free frame has been taken and mapped at an unmapped heap page.\<close>

definition map_new :: "nat \<Rightarrow> u32 \<Rightarrow> kmem \<Rightarrow> kmem" where
  "map_new va perm s =
     (let f = hd (free_frame_list s);
          s = set_frame f \<lparr>references = 1, isBuffered = False, fi_proc = None, fi_va = va\<rparr>
                (s\<lparr>free_frame_list := tl (free_frame_list s)\<rparr>)
      in set_entry (ktable s va) (PTX va)
           (CONSTRUCT_ENTRY (f * 4096) ((kpte s va AND PERM_AVAILABLE) OR perm OR PERM_PRESENT)) s)"

lemma allocate_map_frame:
  assumes "kmap_inv s" "heap_page va" "\<not> kmapped s va" "free_frame_list s \<noteq> []"
  shows "\<exists>f s1. allocate_frame s = Inr (f, s1) \<and>
           map_frame cpt (ptr_page_directory s) f va perm s1 = Inr (map_new va perm s)"
proof -
  have kt: "kernel_tables s" and fl: "frame_lists_ok s" using assms(1) by (auto simp: kmap_inv_def)
  obtain f fs where fs: "free_frame_list s = f # fs" using assms(4) by (cases "free_frame_list s") auto
  let ?s1 = "set_frame f zero_frame_info (s\<lparr>free_frame_list := fs\<rparr>)"
  have a: "allocate_frame s = Inr (f, ?s1)" using allocate_frame_eq [OF fl] fs by simp
  have f: "f < 1048576" using fl fs kt by (auto simp: frame_lists_ok_def kernel_tables_def)
  have kt1: "kernel_tables ?s1" using kt kernel_tables_cong [of ?s1 s] by simp
  have dir: "ptr_page_directory ?s1 = ptr_page_directory s" by simp
  note g = k_get_page_table [OF kt1 assms(2), unfolded dir]
  have np: "kpte s va AND PERM_PRESENT = 0" using assms(3) by (simp add: kmapped_def)
  have kp: "tables s (ktable s va) (PTX va) = kpte s va" by (simp add: kpte_def)
  have "map_frame cpt (ptr_page_directory s) f va perm ?s1 = Inr (map_new va perm s)"
    using g np kp
    by (simp add: map_frame_def map_new_def fs to_physical_address_exact [OF f] Let_def zero_frame_info_def
        inc16_def)
  with a show ?thesis by blast
qed

lemma map_new_facts:
  assumes "kmap_inv s" "heap_page va" "\<not> kmapped s va" "free_frame_list s \<noteq> []" "perms_ok perm"
  shows "kmap_inv (map_new va perm s)"
    and "heap_page v \<Longrightarrow> kmapped (map_new va perm s) v \<longleftrightarrow> v = va \<or> kmapped s v"
    and "heap_page v \<Longrightarrow> v \<noteq> va \<Longrightarrow> kframe (map_new va perm s) v = kframe s v"
    and "kframe (map_new va perm s) va = hd (free_frame_list s)"
    and "free_frame_list (map_new va perm s) = tl (free_frame_list s)"
proof -
  have kt: "kernel_tables s" and fl: "frame_lists_ok s" and hm: "heap_mapping_ok s"
    using assms(1) by (auto simp: kmap_inv_def)
  obtain f fs where fs: "free_frame_list s = f # fs" using assms(4) by (cases "free_frame_list s") auto
  have f: "f < 1048576" "f < number_of_frames s" "references (frames_info s f) = 0" "f \<notin> set fs"
    using fl fs kt by (auto simp: frame_lists_ok_def kernel_tables_def)
  let ?m = "map_new va perm s"
  let ?s1 = "set_frame f \<lparr>references = 1, isBuffered = False, fi_proc = None, fi_va = va\<rparr> (s\<lparr>free_frame_list := fs\<rparr>)"
  let ?e = "CONSTRUCT_ENTRY (f * 4096) ((kpte s va AND PERM_AVAILABLE) OR perm OR PERM_PRESENT)"
  have m: "?m = set_entry (ktable ?s1 va) (PTX va) ?e ?s1" by (simp add: map_new_def fs Let_def)
  have kt1: "kernel_tables ?s1" using kt kernel_tables_cong [of ?s1 s] by simp
  have pte: "kpte ?m v = (if v = va then ?e else kpte s v)" if "heap_page v" for v
    using kpte_set_entry [OF kt1 assms(2) that, of ?e] by (simp add: m)
  have "((kpte s va AND PERM_AVAILABLE) OR perm OR PERM_PRESENT) AND NOT OFFSET_MASK = 0"
    using assms(5) by (simp add: perms_ok_def bit.conj_disj_distrib2 and.assoc)
  then have ext: "EXTRACT_ADDRESS ?e = f * 4096" by (rule EXTRACT_CONSTRUCT [OF f(1)])
  have "kpte s va AND PERM_BUFFERED = 0" using hm assms(2) by (auto simp: heap_mapping_ok_def heap_page_ok_def)
  then have "(kpte s va AND PERM_AVAILABLE) AND PERM_BUFFERED = 0" by (simp add: and.assoc)
  then have bu: "?e AND PERM_BUFFERED = 0"
    using assms(5) CONSTRUCT_BUFFERED [of f] by (simp add: perms_ok_def CONSTRUCT_ENTRY_def bit.conj_disj_distrib2)
  have pr: "?e AND PERM_PRESENT \<noteq> 0" using CONSTRUCT_PRESENT [of "f * 4096" "kpte s va AND PERM_AVAILABLE" perm] by simp
  show km: "kmapped ?m v \<longleftrightarrow> v = va \<or> kmapped s v" if "heap_page v" for v
    using pr by (simp add: kmapped_def pte [OF that])
  show kf: "kframe ?m v = kframe s v" if "heap_page v" "v \<noteq> va" for v
    using that by (simp add: kframe_def pte)
  show kf': "kframe ?m va = hd (free_frame_list s)" using ext by (simp add: kframe_def pte [OF assms(2)] fs)
  show frl: "free_frame_list ?m = tl (free_frame_list s)" by (simp add: m fs)
  have "kernel_tables ?m" using kt kernel_tables_cong [of ?m s] by (simp add: m)
  moreover have "frame_lists_ok ?m" using fl f(4) by (auto simp: frame_lists_ok_def m fs)
  moreover have "heap_page_ok ?m v" if v: "heap_page v" for v
  proof (cases "v = va")
    case True
    then show ?thesis
      using km [OF v] kf' f ext bu pte [OF v] unfolding heap_page_ok_def by (simp add: frl fs) (simp add: m)
  next
    case False
    have h: "heap_page_ok s v" using hm v by (simp add: heap_mapping_ok_def)
    then have "kframe s v \<noteq> f" if "kmapped s v" using that f(3) by (auto simp: heap_page_ok_def)
    then show ?thesis
      using h False unfolding heap_page_ok_def by (simp add: km [OF v] kf [OF v False] pte [OF v] frl fs) (auto simp: m fs)
  qed
  ultimately show "kmap_inv ?m" by (simp add: kmap_inv_def heap_mapping_ok_def)
qed

text \<open>The state after the frame of a mapped heap page has been given back.\<close>

definition unmap_page :: "nat \<Rightarrow> kmem \<Rightarrow> kmem" where
  "unmap_page va s =
     set_entry (ktable s va) (PTX va) (kpte s va AND PERM_AVAILABLE)
       (set_frame (kframe s va) zero_frame_info (s\<lparr>free_frame_list := kframe s va # free_frame_list s\<rparr>))"

lemma unmap_frame_eq:
  assumes "kmap_inv s" "heap_page va"
  shows "unmap_frame (ptr_page_directory s) va s = Inr (if kmapped s va then unmap_page va s else s)"
proof (cases "kmapped s va")
  case True
  let ?f = "kframe s va"
  have h: "\<not> mfllock s" and r: "references (frames_info s ?f) = Suc 0" "?f \<notin> set (free_frame_list s)"
    using assms True by (auto simp: kmap_inv_def frame_lists_ok_def heap_mapping_ok_def heap_page_ok_def)
  have d: "dec16 (Suc 0) = 0" by (simp add: dec16_def)
  have "s\<lparr>mfllock := False\<rparr> = s" using h by (cases s) simp
  then have e: "set_frame f v (set_frame f w s\<lparr>mfllock := True\<rparr>)\<lparr>free_frame_list := fl, mfllock := False\<rparr> =
      set_frame f v (s\<lparr>free_frame_list := fl\<rparr>)" for f v w fl
    by (cases s) (simp add: set_frame_def)
  have dr: "decrement_references ?f s = Inr (set_frame ?f zero_frame_info (s\<lparr>free_frame_list := ?f # free_frame_list s\<rparr>))"
    using h r by (simp add: decrement_references_def d free_frame_def list_insert_head_def Let_def e)
  have z: "zero_frame_info\<lparr>fi_va := 0\<rparr> = zero_frame_info" by (simp add: zero_frame_info_def)
  show ?thesis
    using k_get_frame_info [OF assms] True
    by (simp add: unmap_frame_def dr Let_def z unmap_page_def kpte_def)
qed (use k_get_frame_info [OF assms] in \<open>simp add: unmap_frame_def\<close>)

lemma unmap_page_facts:
  assumes "kmap_inv s" "heap_page va" "kmapped s va"
  shows "kmap_inv (unmap_page va s)"
    and "heap_page v \<Longrightarrow> kmapped (unmap_page va s) v \<longleftrightarrow> v \<noteq> va \<and> kmapped s v"
    and "heap_page v \<Longrightarrow> v \<noteq> va \<Longrightarrow> kframe (unmap_page va s) v = kframe s v"
proof -
  have kt: "kernel_tables s" and fl: "frame_lists_ok s" and hm: "heap_mapping_ok s"
    using assms(1) by (auto simp: kmap_inv_def)
  let ?f = "kframe s va" and ?m = "unmap_page va s"
  let ?s1 = "set_frame ?f zero_frame_info (s\<lparr>free_frame_list := ?f # free_frame_list s\<rparr>)"
  have m: "?m = set_entry (ktable ?s1 va) (PTX va) (kpte s va AND PERM_AVAILABLE) ?s1"
    by (simp add: unmap_page_def)
  have f: "?f < number_of_frames s" "?f \<notin> set (free_frame_list s)" "fi_va (frames_info s ?f) = va"
    using hm assms(2,3) by (auto simp: heap_mapping_ok_def heap_page_ok_def)
  have kt1: "kernel_tables ?s1" using kt kernel_tables_cong [of ?s1 s] by simp
  have pte: "kpte ?m v = (if v = va then kpte s va AND PERM_AVAILABLE else kpte s v)" if "heap_page v" for v
    using kpte_set_entry [OF kt1 assms(2) that] by (simp add: m)
  have av: "(kpte s va AND PERM_AVAILABLE) AND PERM_PRESENT = 0" "(kpte s va AND PERM_AVAILABLE) AND NOT OFFSET_MASK = 0"
    by (simp_all add: and.assoc)
  show km: "kmapped ?m v \<longleftrightarrow> v \<noteq> va \<and> kmapped s v" if "heap_page v" for v
    using av(1) by (simp add: kmapped_def pte [OF that] and.assoc)
  show kf: "kframe ?m v = kframe s v" if "heap_page v" "v \<noteq> va" for v
    using that by (simp add: kframe_def pte)
  have "kernel_tables ?m" using kt kernel_tables_cong [of ?m s] by (simp add: m)
  moreover have "frame_lists_ok ?m" using fl f by (auto simp: frame_lists_ok_def m zero_frame_info_def)
  moreover have "heap_page_ok ?m v" if v: "heap_page v" for v
  proof -
    have h: "heap_page_ok s v" "heap_page_ok s va" using hm v assms(2) by (auto simp: heap_mapping_ok_def heap_page_ok_def)
    show ?thesis
    proof (cases "v = va")
      case True
      have "(kpte s va AND PERM_AVAILABLE) AND PERM_BUFFERED = kpte s va AND PERM_BUFFERED"
        by (simp add: and.assoc)
      moreover have "\<not> kmapped ?m va" using km [OF assms(2)] by simp
      ultimately show ?thesis
        using h(2) av True by (simp add: heap_page_ok_def pte [OF assms(2)])
    next
      case False
      have "kframe s v \<noteq> ?f" if "kmapped s v" using that h(1) f(3) False by (auto simp: heap_page_ok_def)
      then show ?thesis
        using h(1) False unfolding heap_page_ok_def by (simp add: km [OF v] kf [OF v False] pte [OF v]) (auto simp: m)
    qed
  qed
  ultimately show "kmap_inv ?m" by (simp add: kmap_inv_def heap_mapping_ok_def)
qed

section \<open>Claims\<close>

text \<open>
  Taking a free frame and mapping it at an unmapped heap page, then unmapping the page, gives
  the frame back: the free frame list and the set of mapped pages are those of before, and in
  between exactly this page is mapped, to the first frame of the list.
\<close>

lemma map_unmap_round_trip:
  assumes "kmap_inv s" and "heap_page va" and "\<not> kmapped s va" and "free_frame_list s \<noteq> []" and "perms_ok perm"
  shows "\<exists>f s1 s2 s3. allocate_frame s = Inr (f, s1) \<and> map_frame cpt (ptr_page_directory s) f va perm s1 = Inr s2 \<and>
           kmap_inv s2 \<and> kframe s2 va = hd (free_frame_list s) \<and>
           (\<forall>v. heap_page v \<longrightarrow> (kmapped s2 v \<longleftrightarrow> v = va \<or> kmapped s v)) \<and>
           unmap_frame (ptr_page_directory s) va s2 = Inr s3 \<and> kmap_inv s3 \<and>
           free_frame_list s3 = free_frame_list s \<and>
           (\<forall>v. heap_page v \<longrightarrow> (kmapped s3 v \<longleftrightarrow> kmapped s v))"
proof -
  let ?m = "map_new va perm s"
  obtain f s1 where a: "allocate_frame s = Inr (f, s1)" "map_frame cpt (ptr_page_directory s) f va perm s1 = Inr ?m"
    using allocate_map_frame [OF assms(1-4)] by metis
  note F = map_new_facts [OF assms]
  have m: "kmapped ?m va" using F(2) [OF assms(2)] by simp
  have dir: "ptr_page_directory ?m = ptr_page_directory s" by (simp add: map_new_def Let_def)
  note U = unmap_page_facts [OF F(1) assms(2) m]
  have u: "unmap_frame (ptr_page_directory s) va ?m = Inr (unmap_page va ?m)"
    using unmap_frame_eq [OF F(1) assms(2)] m dir by simp
  have fl: "free_frame_list (unmap_page va ?m) = free_frame_list s"
    using F(4,5) assms(4) by (simp add: unmap_page_def)
  have "kmapped (unmap_page va ?m) v \<longleftrightarrow> kmapped s v" if "heap_page v" for v
    using U(2) [OF that] F(2) [OF that] assms(3) by auto
  then show ?thesis using a u fl U(1) F(1,2,4) by blast
qed

text \<open>Memory with the forty page tables of the heap region and one free frame, for the witnesses.\<close>

definition bare_kmem :: kmem where
  "bare_kmem =
    \<lparr>frames_info = (\<lambda>_. zero_frame_info), number_of_frames = 65536, free_frame_list = [200],
     modified_frame_list = [], mfllock = False,
     directories = (\<lambda>_ i. CONSTRUCT_ENTRY (i * 4096) (PERM_PRESENT OR PERM_WRITEABLE)), tables = (\<lambda>_ _. 0),
     ptr_page_directory = 0xF0100000,
     da = \<lparr>freeBlockLists = (\<lambda>_. []), freePagesList = [], pageBlockInfoArr = (\<lambda>_. \<lparr>block_size = 0, num_of_free_blocks = 0\<rparr>),
       dynAllocStart = KERNEL_HEAP_START, dynAllocEnd = KERNEL_HEAP_START, is_initialized = False\<rparr>,
     kheap_lock = False, kheapPageAllocStart = 0, kheapPageAllocBreak = 0,
     kheapPlacementStrategy = 0, bulks = [], bulks_allocated = []\<rparr>"

lemma static_entry:
  assumes "i < 1024"
  shows "EXTRACT_ADDRESS (CONSTRUCT_ENTRY (i * 4096) (PERM_PRESENT OR PERM_WRITEABLE)) = i * 4096"
    and "CONSTRUCT_ENTRY (i * 4096) (PERM_PRESENT OR PERM_WRITEABLE) AND PERM_PRESENT = PERM_PRESENT"
  using EXTRACT_CONSTRUCT [of i "PERM_PRESENT OR PERM_WRITEABLE"] assms CONSTRUCT_PRESENT [of "i * 4096" 0 PERM_WRITEABLE]
  by (simp_all add: or.commute)

lemma PDX_lt: "PDX va < 1024"
  by (simp add: PDX_def)

lemma static_kernel_tables:
  assumes "directories s (ptr_page_directory s) = (\<lambda>i. CONSTRUCT_ENTRY (i * 4096) (PERM_PRESENT OR PERM_WRITEABLE))"
    "number_of_frames s = 65536"
  shows "kernel_tables s"
proof -
  have e: "kpde s va = CONSTRUCT_ENTRY (PDX va * 4096) (PERM_PRESENT OR PERM_WRITEABLE)" for va
    using assms(1) by (simp add: kpde_def)
  have "PDX va < 65536" for va using PDX_lt [of va] by simp
  then show ?thesis
    unfolding kernel_tables_def ktable_def e assms(2) using static_entry [OF PDX_lt] by simp
qed

lemma bare_kmap_inv: "kmap_inv bare_kmem" "\<not> kmapped bare_kmem v"
proof -
  have "kernel_tables bare_kmem" by (rule static_kernel_tables) (simp_all add: bare_kmem_def)
  moreover have "frame_lists_ok bare_kmem" by (simp add: frame_lists_ok_def bare_kmem_def zero_frame_info_def)
  moreover have "heap_page_ok bare_kmem v" for v by (simp add: kmapped_def kpte_def bare_kmem_def heap_page_ok_def)
  ultimately show "kmap_inv bare_kmem" by (simp add: kmap_inv_def heap_mapping_ok_def)
  show "\<not> kmapped bare_kmem v" by (simp add: kmapped_def kpte_def bare_kmem_def)
qed

lemma map_unmap_round_trip_witness:
  "\<exists>f s1 s2 s3. allocate_frame bare_kmem = Inr (f, s1) \<and>
     map_frame (\<lambda>_ _ _. Inl Spins) (ptr_page_directory bare_kmem) f KERNEL_HEAP_START PERM_WRITEABLE s1 = Inr s2 \<and> kframe s2 KERNEL_HEAP_START = 200 \<and>
     unmap_frame (ptr_page_directory bare_kmem) KERNEL_HEAP_START s2 = Inr s3 \<and> free_frame_list s3 = [200]"
  using map_unmap_round_trip [OF bare_kmap_inv(1) _ bare_kmap_inv(2), of KERNEL_HEAP_START PERM_WRITEABLE "\<lambda>_ _ _. Inl Spins"]
  by (auto simp: bare_kmem_def heap_page_def perms_ok_def)

text \<open>
  Setting and clearing permission bits of a heap page changes the bits of this page only:
  reading them back gives the old bits with the given ones set, then the others cleared.
\<close>

theorem permissions_round_trip:
  assumes "kmap_inv s" and "heap_page va"
  shows "\<exists>s'. pt_set_page_permissions (ptr_page_directory s) va set_bits clear_bits s = Inr s' \<and>
           pt_get_page_permissions (ptr_page_directory s) va s' = Inr (((kpte s va OR set_bits) AND NOT clear_bits) AND OFFSET_MASK) \<and>
           (\<forall>v. heap_page v \<longrightarrow> v \<noteq> va \<longrightarrow>
              pt_get_page_permissions (ptr_page_directory s) v s' = pt_get_page_permissions (ptr_page_directory s) v s)"
proof -
  have kt: "kernel_tables s" using assms(1) by (simp add: kmap_inv_def)
  let ?e = "(kpte s va OR set_bits) AND NOT clear_bits"
  let ?s = "set_entry (ktable s va) (PTX va) ?e s"
  have set: "pt_set_page_permissions (ptr_page_directory s) va set_bits clear_bits s = Inr ?s"
    using k_get_page_table [OF kt assms(2)] by (simp add: pt_set_page_permissions_def kpte_def set_entry_def)
  have kt': "kernel_tables ?s" using kt kernel_tables_cong [of ?s s] by simp
  have dir: "ptr_page_directory ?s = ptr_page_directory s" by simp
  have get: "pt_get_page_permissions (ptr_page_directory s) v ?s = Inr (kpte ?s v AND OFFSET_MASK)"
      "pt_get_page_permissions (ptr_page_directory s) v s = Inr (kpte s v AND OFFSET_MASK)" if "heap_page v" for v
    using k_get_page_table [OF kt' that, unfolded dir] k_get_page_table [OF kt that]
    by (simp_all add: pt_get_page_permissions_def kpte_def)
  show ?thesis using set get kpte_set_entry [OF kt assms(2)] assms(2) by (intro exI [of _ ?s]) simp
qed

theorem permissions_round_trip_witness:
  "\<exists>s'. pt_set_page_permissions (ptr_page_directory bare_kmem) KERNEL_HEAP_START PERM_USED 0 bare_kmem = Inr s' \<and>
     pt_get_page_permissions (ptr_page_directory bare_kmem) KERNEL_HEAP_START s' = Inr PERM_USED"
  using permissions_round_trip [OF bare_kmap_inv(1), of KERNEL_HEAP_START PERM_USED 0]
  by (auto simp: heap_page_def kpte_def) (simp add: bare_kmem_def)

end
