(* ===== verification/Kernel_Heap.thy ===== *)
theory Kernel_Heap
  imports Kernel_Memory
begin

text \<open>
  The kernel heap, \<^verbatim>\<open>src/kern/mem/kheap.c\<close>: the page supply of the block allocator, the
  page allocator with its free and allocated runs of pages (\<^verbatim>\<open>struct Bulk\<close>), and
  \<^verbatim>\<open>kmalloc\<close>, \<^verbatim>\<open>kfree\<close>, \<^verbatim>\<open>kheap_init\<close>. The two lists of runs hang together by
  \<^verbatim>\<open>next\<close> and \<^verbatim>\<open>prev\<close>; the model has them as sequences, a run with the address of its
  descriptor, which is itself a block of the block allocator.
\<close>

section \<open>The page supply of the block allocator\<close>

text \<open>
  \<^verbatim>\<open>create_page_table\<close> calls \<^verbatim>\<open>kmalloc\<close>. Every call of \<^verbatim>\<open>map_frame\<close> below runs with
  \<^verbatim>\<open>kheap_lock\<close> held, so that this \<^verbatim>\<open>kmalloc\<close> panics when it acquires the lock.
\<close>

definition create_page_table_locked :: "nat \<Rightarrow> nat \<Rightarrow> kmem \<Rightarrow> (nat \<times> kmem) result" where
  "create_page_table_locked dir va s =
     Inl (Panic ''acquire_spinlock: lock is already held by the same CPU.'')"

definition get_page :: "nat \<Rightarrow> kmem \<Rightarrow> kmem result" where
  "get_page va s =
     andThen (alloc_page create_page_table_locked (ptr_page_directory s) (ROUNDDOWN va PAGE_SIZE) PERM_WRITEABLE s)
       (\<lambda>(ret, s). if ret < 0 then Inl (Panic ''get_page() in kern: failed to allocate page from the kernel'')
                   else Inr s)"

definition return_page :: "nat \<Rightarrow> kmem \<Rightarrow> kmem result" where
  "return_page va s = unmap_frame (ptr_page_directory s) (ROUNDDOWN va PAGE_SIZE) s"

text \<open>The block allocator on the kernel's state.\<close>

definition kalloc_block :: "nat \<Rightarrow> kmem \<Rightarrow> (nat \<times> kmem) result" where
  "kalloc_block sz s = andThen (alloc_block get_page sz (da s, s)) (\<lambda>(b, d, s). Inr (b, s\<lparr>da := d\<rparr>))"

definition kfree_block :: "nat \<Rightarrow> kmem \<Rightarrow> kmem result" where
  "kfree_block va s = andThen (free_block return_page va (da s, s)) (\<lambda>(d, s). Inr (s\<lparr>da := d\<rparr>))"

abbreviation KHP_PLACE_CUSTOMFIT :: nat where "KHP_PLACE_CUSTOMFIT \<equiv> 5"

definition kheap_init :: "kmem \<Rightarrow> kmem result" where
  "kheap_init s =
     andThen (initialize_dynamic_allocator KERNEL_HEAP_START (KERNEL_HEAP_START + DYN_ALLOC_MAX_SIZE) (da s)) (\<lambda>d.
     (let s = s\<lparr>kheap_lock := False, da := d, kheapPlacementStrategy := KHP_PLACE_CUSTOMFIT\<rparr>;
          s = s\<lparr>kheapPageAllocStart := add32 (dynAllocEnd (da s)) PAGE_SIZE\<rparr>
      in Inr (s\<lparr>kheapPageAllocBreak := kheapPageAllocStart s\<rparr>)))"

section \<open>Runs of pages\<close>

text \<open>
  \<^verbatim>\<open>map_frame_range\<close>: the loop ends after one step per page unless \<^verbatim>\<open>va\<close> wraps at the
  end of the address space; the counter covers the steps of a loop that does not wrap.
\<close>

fun map_frame_loop :: "nat \<Rightarrow> nat \<Rightarrow> nat \<Rightarrow> kmem \<Rightarrow> kmem result" where
  "map_frame_loop n va end_va s =
     (if va < end_va then
        (case n of
           0 \<Rightarrow> Inl Spins
         | Suc n \<Rightarrow>
             andThen (allocate_frame s) (\<lambda>(fi, s).
             andThen (map_frame create_page_table_locked (ptr_page_directory s) fi va PERM_WRITEABLE s) (\<lambda>s.
             map_frame_loop n (add32 va PAGE_SIZE) end_va s)))
      else Inr s)"

declare map_frame_loop.simps [simp del]

definition map_frame_range :: "nat \<Rightarrow> nat \<Rightarrow> kmem \<Rightarrow> kmem result" where
  "map_frame_range va_start sz s =
     map_frame_loop (Suc (sz div PAGE_SIZE)) va_start (add32 va_start sz) s"

text \<open>The free list is kept in descending order of size.\<close>

fun insert_desc :: "bulk \<Rightarrow> bulk list \<Rightarrow> bulk list" where
  "insert_desc b [] = [b]"
| "insert_desc b (c # cs) = (if bulk_size c > bulk_size b then c # insert_desc b cs else b # c # cs)"

definition insert_bulk_desc :: "bulk \<Rightarrow> bulk list \<Rightarrow> bulk list result" where
  "insert_bulk_desc b bs =
     (if bulk_addr b \<in> bulk_addr ` set bs then Inl (Corrupted ''insert_bulk_desc'') else Inr (insert_desc b bs))"

definition remove_bulk :: "bulk \<Rightarrow> bulk list \<Rightarrow> bulk list result" where
  "remove_bulk b bs = (if b \<in> set bs then Inr (remove1 b bs) else Inl (Corrupted ''remove_bulk''))"

text \<open>Writing the descriptor of an allocated run at the head of its list.\<close>

definition push_allocated :: "nat \<Rightarrow> nat \<Rightarrow> kmem \<Rightarrow> kmem result" where
  "push_allocated va needed s =
     andThen (kalloc_block 16 s) (\<lambda>(b, s).
     if b = 0 then Inl (Cpu_trap ''alloc_bulk->start'')
     else Inr (s\<lparr>bulks_allocated := \<lparr>bulk_addr = b, bulk_start = va, bulk_size = needed\<rparr> # bulks_allocated s\<rparr>))"

text \<open>The loop that maps a new run at the break: \<^verbatim>\<open>for (i = 0; i < needed_bytes; i += PAGE_SIZE)\<close>.\<close>

fun map_break_loop :: "nat \<Rightarrow> nat \<Rightarrow> nat \<Rightarrow> nat \<Rightarrow> kmem \<Rightarrow> kmem result" where
  "map_break_loop n i needed va s =
     (if i < needed then
        (case n of
           0 \<Rightarrow> Inl Spins
         | Suc n \<Rightarrow>
             andThen (allocate_frame s) (\<lambda>(fi, s).
             andThen (map_frame create_page_table_locked (ptr_page_directory s) fi (add32 va i) PERM_WRITEABLE s) (\<lambda>s.
             map_break_loop n (add32 i PAGE_SIZE) needed va s)))
      else Inr s)"

declare map_break_loop.simps [simp del]

definition page_alloc_custom_fit :: "nat \<Rightarrow> kmem \<Rightarrow> (nat \<times> kmem) result" where
  "page_alloc_custom_fit needed s =
     (case (if bulks s \<noteq> [] \<and> bulk_size (hd (bulks s)) \<ge> needed
            then find (\<lambda>b. bulk_size b = needed) (bulks s) else None) of
        Some b \<Rightarrow>
          (let va = bulk_start b in
           andThen (remove_bulk b (bulks s)) (\<lambda>bs.
           andThen (map_frame_range va needed (s\<lparr>bulks := bs\<rparr>)) (\<lambda>s.
           andThen (push_allocated va needed s) (\<lambda>s.
           Inr (va, s)))))
      | None \<Rightarrow>
          if bulks s \<noteq> [] \<and> bulk_size (hd (bulks s)) > needed then
            (let bb = hd (bulks s);
                 va = bulk_start bb
             in andThen (remove_bulk bb (bulks s)) (\<lambda>bs.
                (let bb = bb\<lparr>bulk_start := add32 (bulk_start bb) needed, bulk_size := sub32 (bulk_size bb) needed\<rparr> in
                 andThen (insert_bulk_desc bb bs) (\<lambda>bs.
                 andThen (map_frame_range va needed (s\<lparr>bulks := bs\<rparr>)) (\<lambda>s.
                 andThen (push_allocated va needed s) (\<lambda>s.
                 Inr (va, s)))))))
          else if kheapPageAllocBreak s < kheapPageAllocStart s then Inr (0, s)
          else if needed > sub32 KERNEL_HEAP_MAX (kheapPageAllocBreak s) then Inr (0, s)
          else if add32 (kheapPageAllocBreak s) needed > KERNEL_HEAP_MAX then Inr (0, s)
          else
            (let va = kheapPageAllocBreak s in
             andThen (map_break_loop (Suc (needed div PAGE_SIZE)) 0 needed va s) (\<lambda>s.
             andThen (push_allocated va needed s) (\<lambda>s.
             Inr (va, s\<lparr>kheapPageAllocBreak := add32 (kheapPageAllocBreak s) needed\<rparr>)))))"

text \<open>
  \<^verbatim>\<open>merge_bulks\<close> scans the whole list, so that the last neighbour it meets counts.
\<close>

fun find_last :: "('a \<Rightarrow> bool) \<Rightarrow> 'a list \<Rightarrow> 'a option \<Rightarrow> 'a option" where
  "find_last P [] r = r"
| "find_last P (x # xs) r = find_last P xs (if P x then Some x else r)"

definition merge_bulks :: "nat \<Rightarrow> nat \<Rightarrow> kmem \<Rightarrow> kmem result" where
  "merge_bulks start sz s =
     (let abl = find_last (\<lambda>c. add32 (bulk_start c) (bulk_size c) = start) (bulks s) None;
          ba3d = find_last (\<lambda>c. bulk_start c = add32 start sz) (bulks s) None
      in case (abl, ba3d) of
           (Some a, Some c) \<Rightarrow>
             andThen (remove_bulk a (bulks s)) (\<lambda>bs.
             andThen (remove_bulk c bs) (\<lambda>bs.
             andThen (insert_bulk_desc (a\<lparr>bulk_size := add32 (bulk_size a) (add32 sz (bulk_size c))\<rparr>) bs) (\<lambda>bs.
             kfree_block (bulk_addr c) (s\<lparr>bulks := bs\<rparr>))))
         | (Some a, None) \<Rightarrow>
             andThen (remove_bulk a (bulks s)) (\<lambda>bs.
             andThen (insert_bulk_desc (a\<lparr>bulk_size := add32 (bulk_size a) sz\<rparr>) bs) (\<lambda>bs.
             Inr (s\<lparr>bulks := bs\<rparr>)))
         | (None, Some c) \<Rightarrow>
             andThen (remove_bulk c (bulks s)) (\<lambda>bs.
             andThen (insert_bulk_desc (c\<lparr>bulk_start := start, bulk_size := add32 (bulk_size c) sz\<rparr>) bs) (\<lambda>bs.
             Inr (s\<lparr>bulks := bs\<rparr>)))
         | (None, None) \<Rightarrow>
             andThen (kalloc_block 16 s) (\<lambda>(b, s).
             if b = 0 then Inl (Panic ''Failed to allocate Bulk struct for free region!'')
             else
               andThen (insert_bulk_desc \<lparr>bulk_addr = b, bulk_start = start, bulk_size = sz\<rparr> (bulks s)) (\<lambda>bs.
               Inr (s\<lparr>bulks := bs\<rparr>))))"

section \<open>Allocation and release\<close>

definition kmalloc :: "nat \<Rightarrow> kmem \<Rightarrow> (nat \<times> kmem) result" where
  "kmalloc sz s =
     andThen (lock_acquire (kheap_lock s)) (\<lambda>h.
     (let s = s\<lparr>kheap_lock := h\<rparr> in
      andThen
        (if sz = 0 then Inr (0, s)
         else if sz \<le> DYN_ALLOC_MAX_BLOCK_SIZE then kalloc_block sz s
         else page_alloc_custom_fit (ROUNDUP sz PAGE_SIZE) s) (\<lambda>(p, s).
      andThen (lock_release (kheap_lock s)) (\<lambda>h. Inr (p, s\<lparr>kheap_lock := h\<rparr>)))))"

text \<open>The loop that unmaps a run; the counter as for \<open>map_frame_range\<close>.\<close>

fun unmap_loop :: "nat \<Rightarrow> nat \<Rightarrow> nat \<Rightarrow> kmem \<Rightarrow> kmem result" where
  "unmap_loop n va end_va s =
     (if va < end_va then
        (case n of
           0 \<Rightarrow> Inl Spins
         | Suc n \<Rightarrow> andThen (unmap_frame (ptr_page_directory s) va s) (unmap_loop n (add32 va PAGE_SIZE) end_va))
      else Inr s)"

declare unmap_loop.simps [simp del]

text \<open>
  Lowering the break while a free run ends at it. Each turn takes a run off the list, so
  as many turns as there are runs are enough.
\<close>

fun lower_break :: "nat \<Rightarrow> kmem \<Rightarrow> kmem result" where
  "lower_break n s =
     (case find (\<lambda>c. add32 (bulk_start c) (bulk_size c) = kheapPageAllocBreak s) (bulks s) of
        None \<Rightarrow> Inr s
      | Some c \<Rightarrow>
          (case n of
             0 \<Rightarrow> Inl Spins
           | Suc n \<Rightarrow>
               andThen (remove_bulk c (bulks s)) (\<lambda>bs.
               andThen (kfree_block (bulk_addr c) (s\<lparr>bulks := bs, kheapPageAllocBreak := bulk_start c\<rparr>)) (\<lambda>s.
               lower_break n s))))"

declare lower_break.simps [simp del]

text \<open>An address between the two regions reaches the end of \<^verbatim>\<open>kfree\<close> with the lock held.\<close>

definition kfree :: "nat \<Rightarrow> kmem \<Rightarrow> kmem result" where
  "kfree virtual_address s =
     andThen (lock_acquire (kheap_lock s)) (\<lambda>h.
     (let s = s\<lparr>kheap_lock := h\<rparr> in
      if virtual_address = 0 then andThen (lock_release (kheap_lock s)) (\<lambda>h. Inr (s\<lparr>kheap_lock := h\<rparr>))
      else if virtual_address < KERNEL_HEAP_START \<or> virtual_address \<ge> KERNEL_HEAP_MAX
      then Inl (Panic ''address out of bounds'')
      else if virtual_address \<ge> KERNEL_HEAP_START \<and> virtual_address < KERNEL_HEAP_START + DYN_ALLOC_MAX_SIZE
      then andThen (kfree_block virtual_address s) (\<lambda>s.
           andThen (lock_release (kheap_lock s)) (\<lambda>h. Inr (s\<lparr>kheap_lock := h\<rparr>)))
      else if virtual_address \<ge> kheapPageAllocStart s \<and> virtual_address < KERNEL_HEAP_MAX then
        (case find (\<lambda>c. bulk_start c = virtual_address) (bulks_allocated s) of
           None \<Rightarrow> Inl (Panic ''Pointer not allocated or already freed'')
         | Some currentbulk \<Rightarrow>
             andThen (unmap_loop (Suc (bulk_size currentbulk div PAGE_SIZE)) (bulk_start currentbulk)
                        (add32 (bulk_start currentbulk) (bulk_size currentbulk)) s) (\<lambda>s.
             andThen (remove_bulk currentbulk (bulks_allocated s)) (\<lambda>bs.
             andThen (kfree_block (bulk_addr currentbulk) (s\<lparr>bulks_allocated := bs\<rparr>)) (\<lambda>s.
             andThen (merge_bulks (bulk_start currentbulk) (bulk_size currentbulk) s) (\<lambda>s.
             andThen (lower_break (length (bulks s)) s) (\<lambda>s.
             andThen (lock_release (kheap_lock s)) (\<lambda>h. Inr (s\<lparr>kheap_lock := h\<rparr>))))))))
      else Inr s))"

definition krealloc :: "nat \<Rightarrow> nat \<Rightarrow> kmem \<Rightarrow> (nat \<times> kmem) result" where
  "krealloc virtual_address new_size s = Inl (Panic ''krealloc() is not implemented yet...!!'')"

section \<open>Creating a page table\<close>

definition create_page_table :: "nat \<Rightarrow> nat \<Rightarrow> kmem \<Rightarrow> (nat \<times> kmem) result" where
  "create_page_table dir va s =
     andThen (kmalloc PAGE_SIZE s) (\<lambda>(t, s).
     if t = 0 then Inl (Panic ''NOT ENOUGH KERNEL HEAP SPACE'')
     else
       andThen (kheap_physical_address t s) (\<lambda>pa.
       (let s = set_dir_entry dir (PDX va) (CONSTRUCT_ENTRY pa (PERM_PRESENT OR PERM_USER OR PERM_WRITEABLE)) s
        in Inr (t, s\<lparr>tables := (tables s)(t := (\<lambda>_. 0))\<rparr>))))"

text \<open>
  \<^verbatim>\<open>del_page_table\<close> looks up and clears the entry in the global \<^verbatim>\<open>ptr_page_directory\<close>;
  its argument \<^verbatim>\<open>page_dir\<close> is not used.
\<close>

definition del_page_table :: "nat \<Rightarrow> nat \<Rightarrow> kmem \<Rightarrow> kmem result" where
  "del_page_table page_dir va s =
     andThen (get_page_table (ptr_page_directory s) va s) (\<lambda>(_, t).
     if t = 0 then Inr s
     else andThen (kfree t s) (\<lambda>s. Inr (set_dir_entry (ptr_page_directory s) (PDX va) 0 s)))"

section \<open>Mapping runs of pages\<close>

abbreviation out_of_frames :: failure where
  "out_of_frames \<equiv> Panic ''ERROR: Kernel run out of memory... allocate_frame cannot find a free frame.''"

text \<open>The part of the state that the page supply does not touch.\<close>

definition kview :: "kmem \<Rightarrow> bool \<times> nat \<times> nat \<times> bulk list \<times> bulk list \<times> dyn_alloc \<times> nat" where
  "kview s = (kheap_lock s, kheapPageAllocStart s, kheapPageAllocBreak s, bulks s, bulks_allocated s, da s,
     ptr_page_directory s)"

lemma kview_frame [simp]:
  "kview (set_frame f v s) = kview s" "kview (set_entry t i e s) = kview s"
  "kview (s\<lparr>free_frame_list := fl\<rparr>) = kview s"
  by (simp_all add: kview_def set_frame_def set_entry_def)

lemma kview_map [simp]: "kview (map_new va perm s) = kview s" "kview (unmap_page va s) = kview s"
  by (simp_all add: map_new_def unmap_page_def Let_def)

lemma kviewD:
  assumes "kview s' = kview s"
  shows "kheap_lock s' = kheap_lock s" "kheapPageAllocStart s' = kheapPageAllocStart s"
    "kheapPageAllocBreak s' = kheapPageAllocBreak s" "bulks s' = bulks s" "bulks_allocated s' = bulks_allocated s"
    "da s' = da s" "ptr_page_directory s' = ptr_page_directory s"
  using assms by (simp_all add: kview_def)

lemma kernel_perms_ok [simp]: "perms_ok PERM_WRITEABLE"
  by (simp add: perms_ok_def)

lemma heap_page_bounds: "heap_page va \<Longrightarrow> va mod 4096 = 0" "heap_page va \<Longrightarrow> va < KERNEL_HEAP_MAX"
  by (simp_all add: heap_page_def)

lemma get_page_eq:
  assumes "kmap_inv s" "heap_page va"
  shows "get_page va s =
    (if kmapped s va then Inr s
     else if free_frame_list s = [] then Inl out_of_frames else Inr (map_new va PERM_WRITEABLE s))"
proof -
  have r: "ROUNDDOWN va PAGE_SIZE = va" using assms(2) by (simp add: heap_page_def ROUNDDOWN_id)
  have fl: "frame_lists_ok s" using assms(1) by (simp add: kmap_inv_def)
  note g = k_get_frame_info [OF assms]
  consider "kmapped s va" | "\<not> kmapped s va" "free_frame_list s = []"
    | "\<not> kmapped s va" "free_frame_list s \<noteq> []" by blast
  then show ?thesis
  proof cases
    case 3
    obtain f s1 where "allocate_frame s = Inr (f, s1)"
      "map_frame create_page_table_locked (ptr_page_directory s) f va PERM_WRITEABLE s1 = Inr (map_new va PERM_WRITEABLE s)"
      using allocate_map_frame [OF assms 3] by metis
    with 3 g show ?thesis by (simp add: get_page_def r alloc_page_def)
  qed (use g allocate_frame_eq [OF fl] in \<open>simp_all add: get_page_def r alloc_page_def\<close>)
qed

lemma return_page_eq:
  assumes "kmap_inv s" "heap_page va"
  shows "return_page va s = Inr (if kmapped s va then unmap_page va s else s)"
proof -
  have "ROUNDDOWN va PAGE_SIZE = va" using assms(2) by (simp add: heap_page_def ROUNDDOWN_id)
  then show ?thesis using unmap_frame_eq [OF assms] by (simp add: return_page_def)
qed

definition block_page :: "nat \<Rightarrow> bool" where
  "block_page v \<longleftrightarrow> heap_page v \<and> v < KERNEL_HEAP_START + DYN_ALLOC_MAX_SIZE"

text \<open>
  What an allocation leaves alone: the directories, every page table but those of the kernel heap, and the frames of the pages
  mapped beyond the blocks.
\<close>

definition pages_kept :: "kmem \<Rightarrow> kmem \<Rightarrow> bool" where
  "pages_kept s s' \<longleftrightarrow> directories s' = directories s \<and> ptr_page_directory s' = ptr_page_directory s \<and>
     (\<forall>t. (\<forall>va. KERNEL_HEAP_START \<le> va \<and> va < KERNEL_HEAP_MAX \<longrightarrow> t \<noteq> ktable s va) \<longrightarrow> tables s' t = tables s t) \<and>
     (\<forall>v. heap_page v \<longrightarrow> \<not> block_page v \<longrightarrow> kmapped s v \<longrightarrow> kmapped s' v \<and> kframe s' v = kframe s v)"

lemma pages_kept_refl [simp]: "pages_kept s s"
  by (simp add: pages_kept_def)

lemma pages_kept_ktable: "pages_kept s s' \<Longrightarrow> ktable s' = ktable s"
  by (simp add: pages_kept_def ktable_def kpde_def fun_eq_iff)

lemma pages_kept_trans [trans]: "pages_kept s s' \<Longrightarrow> pages_kept s' s'' \<Longrightarrow> pages_kept s s''"
  using pages_kept_ktable [of s s'] by (simp add: pages_kept_def)

lemma pages_kept_irrelevant [simp]:
  "pages_kept (s\<lparr>bulks := F\<rparr>) s' = pages_kept s s'" "pages_kept s (s'\<lparr>bulks := F\<rparr>) = pages_kept s s'"
  "pages_kept (s\<lparr>bulks_allocated := F\<rparr>) s' = pages_kept s s'" "pages_kept s (s'\<lparr>bulks_allocated := F\<rparr>) = pages_kept s s'"
  "pages_kept (s\<lparr>kheapPageAllocBreak := n\<rparr>) s' = pages_kept s s'" "pages_kept s (s'\<lparr>kheapPageAllocBreak := n\<rparr>) = pages_kept s s'"
  "pages_kept (s\<lparr>kheap_lock := h\<rparr>) s' = pages_kept s s'" "pages_kept s (s'\<lparr>kheap_lock := h\<rparr>) = pages_kept s s'"
  "pages_kept (s\<lparr>da := d\<rparr>) s' = pages_kept s s'" "pages_kept s (s'\<lparr>da := d\<rparr>) = pages_kept s s'"
  by (simp_all add: pages_kept_def kmapped_def kframe_def kpte_def ktable_def kpde_def)

lemma map_new_pages_kept:
  assumes "kmap_inv s" "heap_page va" "\<not> kmapped s va" "free_frame_list s \<noteq> []"
  shows "pages_kept s (map_new va PERM_WRITEABLE s)"
proof -
  note F = map_new_facts [OF assms kernel_perms_ok]
  have "directories (map_new va PERM_WRITEABLE s) = directories s" "ptr_page_directory (map_new va PERM_WRITEABLE s) = ptr_page_directory s"
      "t \<noteq> ktable s va \<Longrightarrow> tables (map_new va PERM_WRITEABLE s) t = tables s t" for t
    by (simp_all add: map_new_def Let_def)
  moreover have "KERNEL_HEAP_START \<le> va" "va < KERNEL_HEAP_MAX" using assms(2) by (simp_all add: heap_page_def)
  ultimately show ?thesis using F(2,3) assms(3) unfolding pages_kept_def by metis
qed

lemma unmap_page_pages_kept:
  assumes "kmap_inv s" "block_page va" "kmapped s va"
  shows "pages_kept s (unmap_page va s)"
proof -
  have h: "heap_page va" using assms(2) by (simp add: block_page_def)
  note F = unmap_page_facts [OF assms(1) h assms(3)]
  have "directories (unmap_page va s) = directories s" "ptr_page_directory (unmap_page va s) = ptr_page_directory s"
      "t \<noteq> ktable s va \<Longrightarrow> tables (unmap_page va s) t = tables s t" for t
    by (simp_all add: unmap_page_def Let_def)
  moreover have "KERNEL_HEAP_START \<le> va" "va < KERNEL_HEAP_MAX" using h by (simp_all add: heap_page_def)
  ultimately show ?thesis using F(2,3) assms(2) unfolding pages_kept_def by metis
qed

text \<open>A run of unmapped pages is mapped completely, or the frames run out.\<close>

definition run_pages :: "nat \<Rightarrow> nat \<Rightarrow> nat \<Rightarrow> bool" where
  "run_pages va n v \<longleftrightarrow> va \<le> v \<and> v < va + n * 4096"

lemma run_pages_Suc:
  assumes "va mod 4096 = 0" "v mod 4096 = 0"
  shows "run_pages va (Suc n) v \<longleftrightarrow> v = va \<or> run_pages (va + 4096) n v"
proof -
  have "va < v \<longleftrightarrow> va + 4096 \<le> v"
  proof -
    obtain a b where "va = 4096 * a" "v = 4096 * b"
      using assms by (metis mod_0_imp_dvd dvdE)
    then show ?thesis by auto
  qed
  then show ?thesis by (auto simp: run_pages_def)
qed

lemma map_frame_loop_eq:
  assumes "kmap_inv s" "va mod 4096 = 0" "KERNEL_HEAP_START \<le> va" "va + n * 4096 \<le> KERNEL_HEAP_MAX" "n \<le> m"
    and "\<forall>v. heap_page v \<longrightarrow> run_pages va n v \<longrightarrow> \<not> kmapped s v"
  shows "(if length (free_frame_list s) < n then map_frame_loop m va (va + n * 4096) s = Inl out_of_frames
     else \<exists>s'. map_frame_loop m va (va + n * 4096) s = Inr s' \<and> kmap_inv s' \<and> kview s' = kview s \<and> pages_kept s s' \<and>
        free_frame_list s' = drop n (free_frame_list s) \<and>
        (\<forall>v. heap_page v \<longrightarrow> (kmapped s' v \<longleftrightarrow> kmapped s v \<or> run_pages va n v)))"
  using assms
proof (induction n arbitrary: m va s)
  case 0
  then show ?case by (auto simp: map_frame_loop.simps [of m va va] run_pages_def)
next
  case (Suc n)
  obtain m' where m: "m = Suc m'" "n \<le> m'" using Suc.prems(5) by (cases m) auto
  have hp: "heap_page va" using Suc.prems(2-4) by (simp add: heap_page_def)
  have nm: "\<not> kmapped s va" using Suc.prems(6) hp by (simp add: run_pages_def)
  have nx: "add32 va 4096 = va + 4096" using Suc.prems(4) by (simp add: add32_def)
  have e: "va + Suc n * 4096 = (va + 4096) + n * 4096" by simp
  have fl: "frame_lists_ok s" using Suc.prems(1) by (simp add: kmap_inv_def)
  show ?case
  proof (cases "free_frame_list s = []")
    case True
    then show ?thesis using allocate_frame_eq [OF fl] by (simp add: map_frame_loop.simps [of "Suc m'" va] m)
  next
    case False
    let ?s = "map_new va PERM_WRITEABLE s"
    obtain f s1 where a: "allocate_frame s = Inr (f, s1)"
      "map_frame create_page_table_locked (ptr_page_directory s) f va PERM_WRITEABLE s1 = Inr ?s"
      using allocate_map_frame [OF Suc.prems(1) hp nm False] by metis
    have "ptr_page_directory s1 = ptr_page_directory s"
      using a(1) allocate_frame_eq [OF fl] by (auto split: list.splits)
    then have step: "map_frame_loop m va (va + Suc n * 4096) s = map_frame_loop m' (va + 4096) (va + 4096 + n * 4096) ?s"
      using a by (simp add: map_frame_loop.simps [of "Suc m'" va] m nx add.assoc)
    note F = map_new_facts [OF Suc.prems(1) hp nm False kernel_perms_ok]
    have um: "\<forall>v. heap_page v \<longrightarrow> run_pages (va + 4096) n v \<longrightarrow> \<not> kmapped ?s v"
      using Suc.prems(6) F(2) by (auto simp: run_pages_def)
    have "pages_kept ?s s' \<Longrightarrow> pages_kept s s'" for s' using pages_kept_trans [OF map_new_pages_kept [OF Suc.prems(1) hp nm False]] .
    moreover have "length (free_frame_list ?s) < n \<longleftrightarrow> length (free_frame_list s) < Suc n"
      using F(5) False by (cases "free_frame_list s") auto
    moreover have "drop n (free_frame_list ?s) = drop (Suc n) (free_frame_list s)"
      using F(5) by (simp add: drop_Suc)
    moreover have "kmapped ?s v \<or> run_pages (va + 4096) n v \<longleftrightarrow> kmapped s v \<or> run_pages va (Suc n) v" if "heap_page v" for v
      using that F(2) run_pages_Suc [OF Suc.prems(2) heap_page_bounds(1) [OF that]] by auto
    ultimately show ?thesis
      using Suc.IH [OF F(1) _ _ _ m(2) um] Suc.prems(2-4) step by (simp split: if_splits) blast
  qed
qed

lemma map_break_loop_eq:
  assumes "i + n * 4096 = needed" "va + needed < U32" "n \<le> m"
  shows "map_break_loop m i needed va s = map_frame_loop m (va + i) (va + needed) s"
  using assms
proof (induction n arbitrary: i m s)
  case 0
  then show ?case by (simp add: map_break_loop.simps [of m] map_frame_loop.simps [of m])
next
  case (Suc n)
  then obtain m' where m: "m = Suc m'" "n \<le> m'" by (cases m) auto
  have "add32 i 4096 = i + 4096" "add32 va i = va + i" "add32 (va + i) 4096 = va + (i + 4096)"
    using Suc.prems by (simp_all add: add32_def)
  moreover have "map_break_loop m' (i + 4096) needed va = map_frame_loop m' (va + (i + 4096)) (va + needed)"
    using Suc.IH [of "i + 4096" m'] m Suc.prems by (simp add: fun_eq_iff)
  ultimately show ?case
    using m Suc.prems
    by (simp add: map_break_loop.simps [of "Suc m'"] map_frame_loop.simps [of "Suc m'"])
qed

lemma unmap_loop_eq:
  assumes "kmap_inv s" "va mod 4096 = 0" "KERNEL_HEAP_START \<le> va" "va + n * 4096 \<le> KERNEL_HEAP_MAX" "n \<le> m"
  shows "\<exists>s'. unmap_loop m va (va + n * 4096) s = Inr s' \<and> kmap_inv s' \<and> kview s' = kview s \<and>
        (free_frame_list s \<noteq> [] \<or> 0 < n \<and> kmapped s va \<longrightarrow> free_frame_list s' \<noteq> []) \<and>
        (\<forall>v. heap_page v \<longrightarrow> (kmapped s' v \<longleftrightarrow> kmapped s v \<and> \<not> run_pages va n v))"
  using assms
proof (induction n arbitrary: m va s)
  case 0
  then show ?case by (auto simp: unmap_loop.simps [of m va va] run_pages_def)
next
  case (Suc n)
  obtain m' where m: "m = Suc m'" "n \<le> m'" using Suc.prems(5) by (cases m) auto
  have hp: "heap_page va" using Suc.prems(2-4) by (simp add: heap_page_def)
  have nx: "add32 va 4096 = va + 4096" using Suc.prems(4) by (simp add: add32_def)
  define t where "t = (if kmapped s va then unmap_page va s else s)"
  have step: "unmap_loop m va (va + Suc n * 4096) s = unmap_loop m' (va + 4096) (va + 4096 + n * 4096) t"
    using unmap_frame_eq [OF Suc.prems(1) hp] unfolding t_def by (simp add: unmap_loop.simps [of "Suc m'" va] m nx add.assoc)
  have fl: "free_frame_list s \<noteq> [] \<or> kmapped s va \<longrightarrow> free_frame_list t \<noteq> []"
    by (simp add: t_def unmap_page_def)
  have F: "kmap_inv t" "kview t = kview s"
      "\<And>v. heap_page v \<Longrightarrow> kmapped t v \<longleftrightarrow> kmapped s v \<and> v \<noteq> va"
    using unmap_page_facts [OF Suc.prems(1) hp] Suc.prems(1) unfolding t_def by auto
  have mp: "kmapped t v \<and> \<not> run_pages (va + 4096) n v \<longleftrightarrow> kmapped s v \<and> \<not> run_pages va (Suc n) v" if "heap_page v" for v
    using that F(3) run_pages_Suc [OF Suc.prems(2) heap_page_bounds(1) [OF that]] by auto
  have "(va + 4096) mod 4096 = 0" "KERNEL_HEAP_START \<le> va + 4096" "va + 4096 + n * 4096 \<le> KERNEL_HEAP_MAX"
    using Suc.prems(2-4) by simp_all
  from Suc.IH [OF F(1) this m(2)] show ?case unfolding step F(2) using mp fl by auto
qed

section \<open>The block allocator on kernel pages\<close>

text \<open>A state that differs from \<open>s\<close> in the pages of the blocks only.\<close>

definition kstable :: "kmem \<Rightarrow> kmem \<Rightarrow> bool" where
  "kstable s k \<longleftrightarrow> kmap_inv k \<and> kview k = kview s \<and> pages_kept s k \<and>
     (\<forall>v. heap_page v \<longrightarrow> \<not> block_page v \<longrightarrow> kmapped k v = kmapped s v)"

interpretation kp: page_provider get_page return_page kmapped block_page "kstable s" for s
proof (unfold_locales, goal_cases)
  case (1 k va k')
  then have k: "kmap_inv k" "heap_page va" by (auto simp: kstable_def block_page_def)
  note e = 1(3) [unfolded get_page_eq [OF k]]
  show ?case
  proof (cases "kmapped k va")
    case True
    with e 1 show ?thesis by auto
  next
    case False
    with e have k': "k' = map_new va PERM_WRITEABLE k" "free_frame_list k \<noteq> []" by (auto split: if_splits)
    have "pages_kept s k'" using 1(1) pages_kept_trans map_new_pages_kept [OF k False k'(2)] by (auto simp: k'(1) kstable_def)
    with map_new_facts [OF k False k'(2) kernel_perms_ok] 1 k show ?thesis
      by (auto simp: k'(1) kstable_def block_page_def)
  qed
next
  case (2 k va k')
  then have k: "kmap_inv k" "heap_page va" by (auto simp: kstable_def block_page_def)
  have k': "k' = unmap_page va k" using 2(3,4) return_page_eq [OF k] by simp
  have "pages_kept s k'" using 2(1) pages_kept_trans unmap_page_pages_kept [OF k(1) 2(2,3)] by (auto simp: k' kstable_def)
  with unmap_page_facts [OF k 2(3)] 2 k show ?case
    by (auto simp: k' kstable_def block_page_def)
qed

definition block_region_ok :: "kmem \<Rightarrow> bool" where
  "block_region_ok s \<longleftrightarrow> da_inv (da s) \<and> dynAllocStart (da s) = KERNEL_HEAP_START \<and>
     dynAllocEnd (da s) = KERNEL_HEAP_START + DYN_ALLOC_MAX_SIZE \<and>
     (\<forall>p < 8192. p \<notin> set (freePagesList (da s)) \<longrightarrow> kmapped s (KERNEL_HEAP_START + p * PAGE_SIZE))"

definition kheap_rest :: "kmem \<Rightarrow> bool \<times> nat \<times> nat \<times> bulk list \<times> bulk list \<times> nat" where
  "kheap_rest s = (kheap_lock s, kheapPageAllocStart s, kheapPageAllocBreak s, bulks s, bulks_allocated s,
     ptr_page_directory s)"

text \<open>What a call of the block allocator leaves alone.\<close>

definition blocks_only :: "kmem \<Rightarrow> kmem \<Rightarrow> bool" where
  "blocks_only s s' \<longleftrightarrow> kheap_rest s' = kheap_rest s \<and> pages_kept s s' \<and>
     (\<forall>v. heap_page v \<longrightarrow> \<not> block_page v \<longrightarrow> kmapped s' v = kmapped s v)"

lemma num_pages_kernel: "dynAllocStart d = KERNEL_HEAP_START \<Longrightarrow>
    dynAllocEnd d = KERNEL_HEAP_START + DYN_ALLOC_MAX_SIZE \<Longrightarrow> num_pages d = 8192"
  by (simp add: num_pages_def)

lemma kmapped_da [simp]: "kmapped (s\<lparr>da := d\<rparr>) = kmapped s" "kmap_inv (s\<lparr>da := d\<rparr>) = kmap_inv s"
  by (simp_all add: kmapped_def kpte_def ktable_def kpde_def fun_eq_iff kmap_inv_def kernel_tables_def
      frame_lists_ok_def heap_mapping_ok_def heap_page_ok_def kframe_def)

lemma block_page_index: "p < 8192 \<Longrightarrow> block_page (KERNEL_HEAP_START + p * PAGE_SIZE)"
proof -
  have "(4127195136 + p * 4096) mod 4096 = (0::nat)" by (simp add: mod_add_eq [symmetric])
  then show "p < 8192 \<Longrightarrow> ?thesis" by (simp add: block_page_def heap_page_def)
qed

lemma carved_backed_kernel:
  assumes "kmap_inv s" "block_region_ok s"
  shows "kp.carved_backed s (da s) s"
  using assms block_page_index
  unfolding kp.carved_backed_def kstable_def block_region_ok_def
  by (auto simp: num_pages_kernel)

lemma carved_backed_result:
  assumes "kp.carved_backed s d k" "da_inv d"
    "dynAllocStart d = KERNEL_HEAP_START" "dynAllocEnd d = KERNEL_HEAP_START + DYN_ALLOC_MAX_SIZE"
  shows "kmap_inv (k\<lparr>da := d\<rparr>) \<and> block_region_ok (k\<lparr>da := d\<rparr>) \<and> blocks_only s (k\<lparr>da := d\<rparr>)"
proof -
  have k: "kstable s k"
      "\<forall>p < 8192. p \<notin> set (freePagesList d) \<longrightarrow> kmapped k (KERNEL_HEAP_START + p * PAGE_SIZE)"
    using assms(1) unfolding kp.carved_backed_def num_pages_kernel [OF assms(3,4)] assms(3) by auto
  then show ?thesis
    using assms(2-4) by (auto simp: kstable_def block_region_ok_def blocks_only_def kheap_rest_def kview_def)
qed

lemma kalloc_block_ok:
  assumes "kmap_inv s" "block_region_ok s" "0 < sz" "kalloc_block sz s = Inr (b, s')"
  shows "kmap_inv s' \<and> block_region_ok s' \<and> blocks_only s s' \<and> block_added b (da s) (da s') \<and> sz \<le> get_block_size b (da s')"
proof -
  have inv: "da_inv (da s)" and r: "dynAllocStart (da s) = KERNEL_HEAP_START"
      "dynAllocEnd (da s) = KERNEL_HEAP_START + DYN_ALLOC_MAX_SIZE"
    using assms(2) by (auto simp: block_region_ok_def)
  obtain d k where a: "alloc_block get_page sz (da s, s) = Inr (b, d, k)" "s' = k\<lparr>da := d\<rparr>"
    using assms(4) by (auto simp: kalloc_block_def res_simps)
  have ad: "block_added b (da s) d" "sz \<le> bsize d (page_of (da s) b)"
    using alloc_block_success [OF inv assms(3) a(1)] by auto
  then have d: "da_inv d" "dynAllocStart d = KERNEL_HEAP_START" "dynAllocEnd d = KERNEL_HEAP_START + DYN_ALLOC_MAX_SIZE"
      "b \<in> allocated d"
    using r by (auto simp: block_added_def)
  have "page_of d = page_of (da s)" by (rule page_of_cong) (simp add: d(2) r(1))
  then have "sz \<le> get_block_size b d" using block_in_region [OF d(1,4)] ad(2) by simp
  then show ?thesis
    using carved_backed_result [OF kp.carved_backed_alloc [OF inv carved_backed_kernel [OF assms(1,2)] assms(3) a(1)] d(1-3)] ad
    by (simp add: a(2))
qed

lemma kfree_block_ok:
  assumes "kmap_inv s" "block_region_ok s" "va \<in> allocated (da s)"
  shows "\<exists>s'. kfree_block va s = Inr s' \<and> kmap_inv s' \<and> block_region_ok s' \<and> blocks_only s s' \<and>
           (free_frame_list s \<noteq> [] \<longrightarrow> free_frame_list s' \<noteq> []) \<and>
           allocated (da s') = allocated (da s) - {va} \<and>
           (\<forall>c \<in> allocated (da s) - {va}. get_block_size c (da s') = get_block_size c (da s))"
proof -
  have inv: "da_inv (da s)" and r: "dynAllocStart (da s) = KERNEL_HEAP_START"
      "dynAllocEnd (da s) = KERNEL_HEAP_START + DYN_ALLOC_MAX_SIZE"
    using assms(2) by (auto simp: block_region_ok_def)
  let ?v = "dynAllocStart (da s) + page_of (da s) va * PAGE_SIZE"
  obtain i where "bsize (da s) (page_of (da s) va) = class_size i" using allocated_class [OF inv assms(3)] by metis
  from allocated_page_carved(1) [OF inv assms(3) this] have "page_of (da s) va < 8192"
    by (simp add: num_pages_kernel [OF r])
  from block_page_index [OF this] have bp: "heap_page ?v" by (simp add: block_page_def r(1))
  obtain d k where f: "free_block return_page va (da s, s) = Inr (d, k)" "da_inv d"
      "allocated d = allocated (da s) - {va}"
      "\<forall>c \<in> allocated (da s) - {va}. get_block_size c d = get_block_size c (da s)"
      "k = s \<or> return_page ?v s = Inr k"
    using free_block_ok [OF inv assms(3), of return_page s] return_page_eq [OF assms(1) bp] by auto
  have "free_frame_list s \<noteq> [] \<longrightarrow> free_frame_list k \<noteq> []"
    using f(5) return_page_eq [OF assms(1) bp] by (auto simp: unmap_page_def split: if_splits)
  moreover
  have d: "dynAllocStart d = KERNEL_HEAP_START" "dynAllocEnd d = KERNEL_HEAP_START + DYN_ALLOC_MAX_SIZE"
    using free_block_bounds [OF f(1)] r by auto
  ultimately show ?thesis
    using carved_backed_result [OF kp.carved_backed_free [OF inv carved_backed_kernel [OF assms(1,2)] assms(3) f(1)] f(2) d] f
    by (simp add: kfree_block_def)
qed

abbreviation out_of_blocks :: failure where
  "out_of_blocks \<equiv> Panic ''alloc_block() is out of free pages and blocks''"

lemma kalloc_block_fails:
  assumes "kmap_inv s" "block_region_ok s" "sz \<le> 2048" "kalloc_block sz s = Inl e"
  shows "e = out_of_frames \<and> free_frame_list s = [] \<or> e = out_of_blocks \<and> freePagesList (da s) = []"
proof -
  have inv: "da_inv (da s)" and r: "dynAllocStart (da s) = KERNEL_HEAP_START"
      "dynAllocEnd (da s) = KERNEL_HEAP_START + DYN_ALLOC_MAX_SIZE"
    using assms(2) by (auto simp: block_region_ok_def)
  have a: "alloc_block get_page sz (da s, s) = Inl e" using assms(4) by (auto simp: kalloc_block_def res_simps)
  have "e = out_of_frames \<and> free_frame_list s = []"
    if p: "p \<in> set (freePagesList (da s))" "get_page (KERNEL_HEAP_START + p * PAGE_SIZE) s = Inl e" for p
  proof -
    have "p < 8192" using inv p(1) num_pages_kernel [OF r] by (auto simp: da_inv_def da_pages_def)
    from block_page_index [OF this] have "heap_page (KERNEL_HEAP_START + p * PAGE_SIZE)" by (simp add: block_page_def)
    from p(2) get_page_eq [OF assms(1) this] show ?thesis by (auto split: if_splits)
  qed
  with alloc_block_fails [OF inv a] assms(3) r(1) show ?thesis by auto
qed

section \<open>Runs that tile an address range\<close>

definition run_end :: "bulk \<Rightarrow> nat" where
  "run_end b = bulk_start b + bulk_size b"

definition ext :: "bulk \<Rightarrow> nat set" where
  "ext b = {bulk_start b ..< run_end b}"

definition run_ok :: "bulk \<Rightarrow> bool" where
  "run_ok b \<longleftrightarrow> 0 < bulk_size b \<and> bulk_start b mod 4096 = 0 \<and> bulk_size b mod 4096 = 0"

definition tiles :: "bulk set \<Rightarrow> nat set \<Rightarrow> bool" where
  "tiles S X \<longleftrightarrow> (\<forall>b \<in> S. run_ok b) \<and> (\<forall>b \<in> S. \<forall>c \<in> S. b \<noteq> c \<longrightarrow> ext b \<inter> ext c = {}) \<and> \<Union> (ext ` S) = X"

lemma tiles_un:
  assumes "tiles S X" "tiles T Y" "X \<inter> Y = {}" shows "tiles (S \<union> T) (X \<union> Y)"
proof -
  have d: "ext b \<inter> ext c = {}" if "b \<in> S" "c \<in> T" for b c using assms that unfolding tiles_def by blast
  have "\<forall>b \<in> S \<union> T. \<forall>c \<in> S \<union> T. b \<noteq> c \<longrightarrow> ext b \<inter> ext c = {}"
  proof (intro ballI impI)
    fix b c assume "b \<in> S \<union> T" "c \<in> S \<union> T" "b \<noteq> c"
    then show "ext b \<inter> ext c = {}"
      using assms(1,2) d [of b c] d [of c b] unfolding tiles_def by (metis UnE inf_commute)
  qed
  then show ?thesis using assms unfolding tiles_def by (simp add: ball_Un image_Un)
qed

lemma tiles_diff:
  assumes "tiles S X" "T \<subseteq> S" shows "tiles (S - T) (X - \<Union> (ext ` T))"
proof -
  have d: "ext b \<inter> ext c = {}" if "b \<in> S - T" "c \<in> T" for b c
    using assms that unfolding tiles_def by (metis DiffD1 DiffD2 subsetD)
  have "\<Union> (ext ` (S - T)) = X - \<Union> (ext ` T)"
  proof
    show "\<Union> (ext ` (S - T)) \<subseteq> X - \<Union> (ext ` T)" using assms d unfolding tiles_def by blast
    show "X - \<Union> (ext ` T) \<subseteq> \<Union> (ext ` (S - T))" using assms unfolding tiles_def by blast
  qed
  then show ?thesis using assms(1) unfolding tiles_def by auto
qed

lemma tiles_one: "run_ok b \<Longrightarrow> tiles {b} (ext b)"
  by (simp add: tiles_def)

lemma tiles_ext: "tiles S X \<Longrightarrow> b \<in> S \<Longrightarrow> ext b \<subseteq> X"
  by (auto simp: tiles_def)

lemma tiles_runD: "tiles S X \<Longrightarrow> b \<in> S \<Longrightarrow> run_ok b"
  by (simp add: tiles_def)

lemma start_in_ext: "run_ok b \<Longrightarrow> bulk_start b \<in> ext b"
  by (simp add: ext_def run_end_def run_ok_def)

lemma tiles_start_inj:
  assumes "tiles S X" "b \<in> S" "c \<in> S" "bulk_start b = bulk_start c" shows "b = c"
proof (rule ccontr)
  assume "b \<noteq> c"
  with assms have "ext b \<inter> ext c = {}" unfolding tiles_def by blast
  with start_in_ext [OF tiles_runD [OF assms(1,2)]] start_in_ext [OF tiles_runD [OF assms(1,3)]] assms(4)
  show False by auto
qed

lemma tiles_end_inj:
  assumes "tiles S X" "b \<in> S" "c \<in> S" "run_end b = run_end c" shows "b = c"
proof (rule ccontr)
  assume "b \<noteq> c"
  with assms have "ext b \<inter> ext c = {}" unfolding tiles_def by blast
  moreover have "run_end b - 1 \<in> ext b" "run_end c - 1 \<in> ext c"
    using tiles_runD [OF assms(1,2)] tiles_runD [OF assms(1,3)] by (auto simp: ext_def run_end_def run_ok_def)
  ultimately show False using assms(4) by auto
qed

section \<open>The free list\<close>

lemma set_insert_desc [simp]: "set (insert_desc b bs) = insert b (set bs)"
  by (induction bs) auto

lemma distinct_insert_desc [simp]:
  "distinct (map bulk_addr (insert_desc b bs)) \<longleftrightarrow> bulk_addr b \<notin> bulk_addr ` set bs \<and> distinct (map bulk_addr bs)"
  by (induction bs) auto

abbreviation descending :: "bulk list \<Rightarrow> bool" where
  "descending \<equiv> sorted_wrt (\<lambda>b c. bulk_size c \<le> bulk_size b)"

lemma descending_insert: "descending bs \<Longrightarrow> descending (insert_desc b bs)"
  by (induction bs) auto

lemma descending_remove1: "descending bs \<Longrightarrow> descending (remove1 b bs)"
  by (induction bs) (auto dest: in_set_remove1 [THEN iffD1, rotated] notin_set_remove1)

lemma distinct_addr_remove1:
  "distinct (map bulk_addr bs) \<Longrightarrow> distinct (map bulk_addr (remove1 b bs))"
  by (induction bs) (auto dest!: set_remove1_subset [THEN subsetD])

lemma set_remove1_addr: "distinct (map bulk_addr bs) \<Longrightarrow> set (remove1 b bs) = set bs - {b}"
  by (simp add: distinct_map set_remove1_eq)

lemma addr_inj: "distinct (map bulk_addr bs) \<Longrightarrow> b \<in> set bs \<Longrightarrow> c \<in> set bs \<Longrightarrow> bulk_addr b = bulk_addr c \<Longrightarrow> b = c"
  by (simp add: distinct_map inj_on_def)

lemma descending_hd: "descending bs \<Longrightarrow> b \<in> set bs \<Longrightarrow> bulk_size b \<le> bulk_size (hd bs)"
  by (cases bs) auto

lemma find_last_spec:
  "find_last P xs r = (case filter P xs of [] \<Rightarrow> r | ys \<Rightarrow> Some (last ys))"
  by (induction xs arbitrary: r) (auto split: list.splits)

lemma find_last_None: "find_last P xs None = None \<Longrightarrow> x \<in> set xs \<Longrightarrow> \<not> P x"
  by (auto simp: find_last_spec filter_empty_conv split: list.splits)

lemma find_last_Some: "find_last P xs None = Some x \<Longrightarrow> x \<in> set xs \<and> P x"
proof -
  assume "find_last P xs None = Some x"
  then have "x \<in> set (filter P xs)"
    unfolding find_last_spec by (cases "filter P xs") (auto split: if_splits)
  then show ?thesis by simp
qed

section \<open>The heap invariant\<close>

abbreviation PAGES_START :: nat where "PAGES_START \<equiv> 0xF8001000"

text \<open>
  The runs, free and allocated, tile \<open>X\<close>; their descriptors are distinct allocated blocks; the free
  list is sorted; the pages mapped beyond the block region are those of the allocated runs.
\<close>

definition nodes_ok :: "bulk set \<Rightarrow> dyn_alloc \<Rightarrow> bool" where
  "nodes_ok S d \<longleftrightarrow> (\<forall>b \<in> S. bulk_addr b \<in> allocated d \<and> 16 \<le> get_block_size (bulk_addr b) d)"

definition page_map_ok :: "bulk set \<Rightarrow> kmem \<Rightarrow> bool" where
  "page_map_ok A s \<longleftrightarrow> (\<forall>v. heap_page v \<longrightarrow> \<not> block_page v \<longrightarrow> (kmapped s v \<longleftrightarrow> (\<exists>b \<in> A. v \<in> ext b)))"

definition heap_core :: "nat set \<Rightarrow> kmem \<Rightarrow> bool" where
  "heap_core X s \<longleftrightarrow> kmap_inv s \<and> block_region_ok s \<and> kheapPageAllocStart s = PAGES_START \<and>
     PAGES_START \<le> kheapPageAllocBreak s \<and> kheapPageAllocBreak s \<le> KERNEL_HEAP_MAX \<and>
     kheapPageAllocBreak s mod 4096 = 0 \<and>
     distinct (map bulk_addr (bulks s @ bulks_allocated s)) \<and> descending (bulks s) \<and>
     nodes_ok (set (bulks s) \<union> set (bulks_allocated s)) (da s) \<and>
     page_map_ok (set (bulks_allocated s)) s \<and>
     tiles (set (bulks s) \<union> set (bulks_allocated s)) X"

definition coalesced :: "bulk set \<Rightarrow> bool" where
  "coalesced F \<longleftrightarrow> (\<forall>b \<in> F. \<forall>c \<in> F. run_end b \<noteq> bulk_start c)"

definition heap_inv :: "kmem \<Rightarrow> bool" where
  "heap_inv s \<longleftrightarrow> heap_core {PAGES_START ..< kheapPageAllocBreak s} s \<and> coalesced (set (bulks s)) \<and>
     (\<forall>b \<in> set (bulks s). run_end b \<noteq> kheapPageAllocBreak s)"

section \<open>Allocating a run\<close>

lemma kmap_irrelevant [simp]:
  "kmapped (s\<lparr>bulks := F\<rparr>) = kmapped s" "kmap_inv (s\<lparr>bulks := F\<rparr>) = kmap_inv s"
  "kmapped (s\<lparr>bulks_allocated := A\<rparr>) = kmapped s" "kmap_inv (s\<lparr>bulks_allocated := A\<rparr>) = kmap_inv s"
  "kmapped (s\<lparr>kheapPageAllocBreak := n\<rparr>) = kmapped s" "kmap_inv (s\<lparr>kheapPageAllocBreak := n\<rparr>) = kmap_inv s"
  "kmapped (s\<lparr>kheap_lock := h\<rparr>) = kmapped s" "kmap_inv (s\<lparr>kheap_lock := h\<rparr>) = kmap_inv s"
  by (simp_all add: kmapped_def kpte_def ktable_def kpde_def fun_eq_iff kmap_inv_def kernel_tables_def
      frame_lists_ok_def heap_mapping_ok_def heap_page_ok_def kframe_def)

lemma block_region_irrelevant [simp]:
  "block_region_ok (s\<lparr>bulks := F\<rparr>) = block_region_ok s" "block_region_ok (s\<lparr>bulks_allocated := A\<rparr>) = block_region_ok s"
  "block_region_ok (s\<lparr>kheapPageAllocBreak := n\<rparr>) = block_region_ok s"
  "block_region_ok (s\<lparr>kheap_lock := h\<rparr>) = block_region_ok s"
  by (simp_all add: block_region_ok_def)

lemma page_map_irrelevant [simp]:
  "page_map_ok A (s\<lparr>bulks := F\<rparr>) = page_map_ok A s" "page_map_ok A (s\<lparr>bulks_allocated := B\<rparr>) = page_map_ok A s"
  "page_map_ok A (s\<lparr>kheapPageAllocBreak := n\<rparr>) = page_map_ok A s" "page_map_ok A (s\<lparr>kheap_lock := h\<rparr>) = page_map_ok A s"
  by (simp_all add: page_map_ok_def)

lemma heap_inv_lock [simp]: "heap_inv (s\<lparr>kheap_lock := h\<rparr>) = heap_inv s"
  by (simp add: heap_inv_def heap_core_def)

lemma block_region_mono:
  assumes "block_region_ok s" "da s' = da s" "\<And>v. heap_page v \<Longrightarrow> block_page v \<Longrightarrow> kmapped s v \<Longrightarrow> kmapped s' v"
  shows "block_region_ok s'"
  using assms block_page_index by (auto simp: block_region_ok_def block_page_def)

lemma run_not_block: "run_pages va n v \<Longrightarrow> PAGES_START \<le> va \<Longrightarrow> \<not> block_page v"
  by (simp add: run_pages_def block_page_def)

lemma kheap_restD:
  assumes "kheap_rest s' = kheap_rest s"
  shows "kheap_lock s' = kheap_lock s" "kheapPageAllocStart s' = kheapPageAllocStart s"
    "kheapPageAllocBreak s' = kheapPageAllocBreak s" "bulks s' = bulks s" "bulks_allocated s' = bulks_allocated s"
    "ptr_page_directory s' = ptr_page_directory s"
  using assms by (simp_all add: kheap_rest_def)

text \<open>Mapping a run and recording it: \<open>map_frame_range\<close>, then the descriptor.\<close>

lemma map_frame_range_eq:
  assumes "va + n * 4096 \<le> KERNEL_HEAP_MAX"
  shows "map_frame_range va (n * 4096) s = map_frame_loop (Suc n) va (va + n * 4096) s"
  using assms by (simp add: map_frame_range_def add32_exact)

definition run_recorded :: "nat \<Rightarrow> nat \<Rightarrow> nat \<Rightarrow> kmem \<Rightarrow> kmem \<Rightarrow> bool" where
  "run_recorded b va n s s' \<longleftrightarrow> kmap_inv s' \<and> block_region_ok s' \<and> block_added b (da s) (da s') \<and>
     16 \<le> get_block_size b (da s') \<and> pages_kept s s' \<and>
     kheap_rest s' = kheap_rest (s\<lparr>bulks_allocated :=
       \<lparr>bulk_addr = b, bulk_start = va, bulk_size = n * 4096\<rparr> # bulks_allocated s\<rparr>) \<and>
     (\<forall>v. heap_page v \<longrightarrow> \<not> block_page v \<longrightarrow> (kmapped s' v \<longleftrightarrow> kmapped s v \<or> run_pages va n v))"

lemma map_push:
  assumes "kmap_inv s" "block_region_ok s" "va mod 4096 = 0" "PAGES_START \<le> va" "va + n * 4096 \<le> KERNEL_HEAP_MAX"
    "\<forall>v. heap_page v \<longrightarrow> run_pages va n v \<longrightarrow> \<not> kmapped s v"
  shows "case andThen (map_frame_loop (Suc n) va (va + n * 4096) s) (push_allocated va (n * 4096)) of
      Inr s' \<Rightarrow> \<exists>b. run_recorded b va n s s'
    | Inl e \<Rightarrow> e = out_of_frames \<and> length (free_frame_list s) \<le> n \<or> e = out_of_blocks \<and> freePagesList (da s) = []"
proof (cases "length (free_frame_list s) < n")
  case True
  then show ?thesis using map_frame_loop_eq [OF assms(1,3) _ assms(5) _ assms(6), of "Suc n"] assms(4) by simp
next
  case False
  then obtain s1 where s1: "map_frame_loop (Suc n) va (va + n * 4096) s = Inr s1" "kmap_inv s1" "kview s1 = kview s"
      "pages_kept s s1" "free_frame_list s1 = drop n (free_frame_list s)"
      "\<And>v. heap_page v \<Longrightarrow> kmapped s1 v \<longleftrightarrow> kmapped s v \<or> run_pages va n v"
    using map_frame_loop_eq [OF assms(1,3) _ assms(5) _ assms(6), of "Suc n"] assms(4) by auto
  note kv = kviewD [OF s1(3)]
  have br: "block_region_ok s1" using block_region_mono [OF assms(2) kv(6)] s1(6) by blast
  show ?thesis
  proof (cases "kalloc_block 16 s1")
    case (Inl e)
    then have "e = out_of_frames \<and> free_frame_list s1 = [] \<or> e = out_of_blocks \<and> freePagesList (da s) = []"
      using kalloc_block_fails [OF s1(2) br _ Inl] kv(6) by simp
    then show ?thesis using Inl by (auto simp: s1 push_allocated_def)
  next
    case (Inr r)
    obtain b s2 where r: "r = (b, s2)" by force
    note k = kalloc_block_ok [OF s1(2) br _ Inr [unfolded r]]
    have "b \<in> allocated (da s2)" "da_inv (da s2)" "dynAllocStart (da s2) = KERNEL_HEAP_START"
      using k by (auto simp: block_added_def block_region_ok_def)
    then have b: "b \<noteq> 0" by (auto simp: allocated_def)
    have rest: "kheap_rest s2 = kheap_rest s" using k kv by (simp add: blocks_only_def kheap_rest_def)
    have "\<forall>v. heap_page v \<longrightarrow> \<not> block_page v \<longrightarrow> (kmapped s2 v \<longleftrightarrow> kmapped s v \<or> run_pages va n v)"
      using k s1(6) by (simp add: blocks_only_def)
    moreover have "pages_kept s s2" using k pages_kept_trans [OF s1(4)] by (simp add: blocks_only_def)
    ultimately have "run_recorded b va n s (s2\<lparr>bulks_allocated :=
        \<lparr>bulk_addr = b, bulk_start = va, bulk_size = n * 4096\<rparr> # bulks_allocated s2\<rparr>)"
      using k kv(6) rest by (simp add: run_recorded_def kheap_rest_def)
    then show ?thesis using b by (auto simp: s1(1) push_allocated_def Inr r)
  qed
qed

text \<open>
  Every allocation path comes to this: the free list has become \<open>F\<close>, the runs but the new one
  tile the rest of the range up to the break \<open>brk\<close>, and the new run has been mapped and recorded.
\<close>

definition run_carved :: "kmem \<Rightarrow> bulk list \<Rightarrow> nat \<Rightarrow> nat \<Rightarrow> nat \<Rightarrow> bool" where
  "run_carved s F brk va n \<longleftrightarrow> 0 < n \<and> va mod 4096 = 0 \<and> PAGES_START \<le> va \<and> va + n * 4096 \<le> brk \<and>
     brk \<le> KERNEL_HEAP_MAX \<and> brk mod 4096 = 0 \<and>
     bulk_addr ` set F \<subseteq> bulk_addr ` set (bulks s) \<and> distinct (map bulk_addr F) \<and> descending F \<and>
     coalesced (set F) \<and> (\<forall>b \<in> set F. run_end b \<noteq> brk) \<and>
     tiles (set F \<union> set (bulks_allocated s)) ({PAGES_START ..< brk} - {va ..< va + n * 4096})"

lemma run_carved_unmapped:
  assumes "heap_inv s" "run_carved s F brk va n"
  shows "\<forall>v. heap_page v \<longrightarrow> run_pages va n v \<longrightarrow> \<not> kmapped s v"
proof (intro allI impI)
  fix v assume v: "heap_page v" "run_pages va n v"
  have "\<not> block_page v" using run_not_block [OF v(2)] assms(2) by (simp add: run_carved_def)
  then have "kmapped s v \<longleftrightarrow> (\<exists>b \<in> set (bulks_allocated s). v \<in> ext b)"
    using assms(1) v(1) by (auto simp: heap_inv_def heap_core_def page_map_ok_def)
  moreover have "v \<notin> ext b" if "b \<in> set (bulks_allocated s)" for b
  proof -
    have "ext b \<subseteq> {PAGES_START ..< brk} - {va ..< va + n * 4096}"
      using assms(2) that tiles_ext unfolding run_carved_def by blast
    then show ?thesis using v(2) by (auto simp: run_pages_def)
  qed
  ultimately show "\<not> kmapped s v" by blast
qed

lemma block_added_sizes:
  assumes "block_added b d d'" "da_inv d" "c \<in> allocated d"
  shows "c \<in> allocated d' \<and> get_block_size c d' = get_block_size c d \<and> c \<noteq> b"
proof -
  have "page_of d' = page_of d" by (rule page_of_cong) (use assms(1) in \<open>simp add: block_added_def\<close>)
  then show ?thesis
    using assms block_in_region [OF assms(2,3)] block_in_region [of d' c] by (auto simp: block_added_def)
qed

lemma alloc_commit:
  assumes inv: "heap_inv s" and c: "run_carved s F brk va n" and r: "run_recorded b va n (s\<lparr>bulks := F\<rparr>) s'"
  shows "heap_inv (s'\<lparr>kheapPageAllocBreak := brk\<rparr>)"
proof -
  let ?new = "\<lparr>bulk_addr = b, bulk_start = va, bulk_size = n * 4096\<rparr>" and ?A = "bulks_allocated s"
  have core: "heap_core {PAGES_START ..< kheapPageAllocBreak s} s" using inv by (simp add: heap_inv_def)
  have rest: "bulks s' = F" "bulks_allocated s' = ?new # ?A" "kheapPageAllocStart s' = PAGES_START"
    using r core by (simp_all add: run_recorded_def heap_core_def kheap_rest_def)
  have di: "da_inv (da s)" using core by (simp add: heap_core_def block_region_ok_def)
  have ba: "block_added b (da s) (da s')" "16 \<le> get_block_size b (da s')" using r by (simp_all add: run_recorded_def)
  have old: "bulk_addr x \<in> allocated (da s) \<and> 16 \<le> get_block_size (bulk_addr x) (da s)" if x: "x \<in> set F \<union> set ?A" for x
  proof -
    obtain y where "y \<in> set (bulks s) \<union> set ?A" "bulk_addr y = bulk_addr x"
      using x c by (force simp: run_carved_def image_subset_iff image_iff)
    then show ?thesis using core unfolding heap_core_def nodes_ok_def by metis
  qed
  have nodes: "nodes_ok (set F \<union> set (?new # ?A)) (da s')"
    using old block_added_sizes [OF ba(1) di] ba by (auto simp: nodes_ok_def block_added_def)
  have "b \<notin> bulk_addr ` (set F \<union> set ?A)" using old block_added_sizes [OF ba(1) di] by blast
  moreover have "distinct (map bulk_addr (F @ ?A))"
    using c core by (auto simp: run_carved_def heap_core_def)
  ultimately have dist: "distinct (map bulk_addr (F @ ?new # ?A))" by auto
  have ok: "run_ok ?new" using c by (simp add: run_ok_def run_carved_def)
  have e: "ext ?new = {va ..< va + n * 4096}" by (simp add: ext_def run_end_def)
  have t: "tiles (set F \<union> set (?new # ?A)) {PAGES_START ..< brk}"
  proof -
    have "({PAGES_START ..< brk} - {va ..< va + n * 4096}) \<union> ext ?new = {PAGES_START ..< brk}"
      using c unfolding e run_carved_def by auto
    moreover have "(set F \<union> set ?A) \<union> {?new} = set F \<union> set (?new # ?A)" by auto
    ultimately show ?thesis
      using tiles_un [OF _ tiles_one [OF ok], of "set F \<union> set ?A" "{PAGES_START ..< brk} - {va ..< va + n * 4096}"] c
      by (auto simp: run_carved_def e)
  qed
  have "page_map_ok (set (?new # ?A)) s'"
    using r core unfolding page_map_ok_def run_recorded_def heap_core_def
    by (auto simp: e run_pages_def)
  then show ?thesis
    using r c rest nodes dist t by (simp add: heap_inv_def heap_core_def run_recorded_def run_carved_def)
qed

text \<open>Free and allocated runs of a heap: what the invariant says about one of them.\<close>

lemma heap_invD:
  assumes "heap_inv s"
  shows "tiles (set (bulks s) \<union> set (bulks_allocated s)) {PAGES_START ..< kheapPageAllocBreak s}"
    "distinct (map bulk_addr (bulks s))" "distinct (map bulk_addr (bulks_allocated s))"
    "set (bulks s) \<inter> set (bulks_allocated s) = {}"
    "descending (bulks s)" "coalesced (set (bulks s))"
    "PAGES_START \<le> kheapPageAllocBreak s" "kheapPageAllocBreak s \<le> KERNEL_HEAP_MAX"
    "kheapPageAllocBreak s mod 4096 = 0"
  using assms by (auto simp: heap_inv_def heap_core_def)

lemma heap_run_bounds:
  assumes "heap_inv s" "b \<in> set (bulks s) \<union> set (bulks_allocated s)"
  shows "run_ok b" "PAGES_START \<le> bulk_start b" "run_end b \<le> kheapPageAllocBreak s"
    "bulk_start b + bulk_size b < U32"
proof -
  show ok: "run_ok b" using tiles_runD heap_invD(1) [OF assms(1)] assms(2) by blast
  have e: "ext b \<subseteq> {PAGES_START ..< kheapPageAllocBreak s}" using tiles_ext heap_invD(1) [OF assms(1)] assms(2) by blast
  show "PAGES_START \<le> bulk_start b" using e start_in_ext [OF ok] by auto
  have "run_end b - 1 \<in> ext b" using ok by (auto simp: ext_def run_end_def run_ok_def)
  with e ok show "run_end b \<le> kheapPageAllocBreak s" by (fastforce simp: run_end_def run_ok_def)
  with heap_invD(8) [OF assms(1)] show "bulk_start b + bulk_size b < U32" by (simp add: run_end_def)
qed

lemma run_ok_pages: "run_ok b \<Longrightarrow> bulk_size b = (bulk_size b div 4096) * 4096 \<and> 0 < bulk_size b div 4096"
  by (auto simp: run_ok_def dvd_div_eq_0_iff)

lemma carve_exact:
  assumes "heap_inv s" "b \<in> set (bulks s)" "bulk_size b = n * 4096"
  shows "run_carved s (remove1 b (bulks s)) (kheapPageAllocBreak s) (bulk_start b) n"
proof -
  note D = heap_invD [OF assms(1)] and B = heap_run_bounds [OF assms(1), of b]
  have F: "set (remove1 b (bulks s)) = set (bulks s) - {b}" using set_remove1_addr [OF D(2)] .
  have "set (bulks s) \<union> set (bulks_allocated s) - {b} = set (remove1 b (bulks s)) \<union> set (bulks_allocated s)"
    using F D(4) assms(2) by auto
  then have "tiles (set (remove1 b (bulks s)) \<union> set (bulks_allocated s)) ({PAGES_START ..< kheapPageAllocBreak s} - ext b)"
    using tiles_diff [OF D(1), of "{b}"] assms(2) by simp
  moreover have "0 < n" using B(1) assms(2,3) by (auto simp: run_ok_def)
  ultimately show ?thesis
    using D B assms F descending_remove1 [OF D(5)] distinct_addr_remove1 [OF D(2)]
    by (simp add: run_carved_def ext_def run_end_def run_ok_def coalesced_def heap_inv_def) blast
qed

lemma carve_split:
  assumes "heap_inv s" "b \<in> set (bulks s)" "n * 4096 < bulk_size b" "0 < n"
    and b': "b' = b\<lparr>bulk_start := bulk_start b + n * 4096, bulk_size := bulk_size b - n * 4096\<rparr>"
  shows "run_carved s (insert_desc b' (remove1 b (bulks s))) (kheapPageAllocBreak s) (bulk_start b) n"
proof -
  let ?A = "set (bulks_allocated s)" and ?F = "set (bulks s)"
  note D = heap_invD [OF assms(1)] and B = heap_run_bounds [OF assms(1), of b]
  have ad: "bulk_addr b' = bulk_addr b" and re: "run_end b' = run_end b" and st: "bulk_start b' = bulk_start b + n * 4096"
    using assms(3) by (simp_all add: b' run_end_def)
  have ok: "run_ok b'" using B(1) assms(2,3) by (auto simp: b' run_ok_def mod_eq_0_iff_dvd dvd_diff_nat)
  have F: "set (remove1 b (bulks s)) = ?F - {b}" using set_remove1_addr [OF D(2)] .
  have na: "bulk_addr b' \<notin> bulk_addr ` (?F - {b})" using addr_inj [OF D(2)] assms(2) ad by auto
  have lt: "bulk_start b + n * 4096 < run_end b" using assms(3) by (simp add: run_end_def)
  have eb: "ext b = {bulk_start b ..< bulk_start b + n * 4096} \<union> ext b'"
      "ext b' \<inter> {bulk_start b ..< bulk_start b + n * 4096} = {}" "ext b \<subseteq> {PAGES_START ..< kheapPageAllocBreak s}"
    using lt B(2,3) assms(2) by (auto simp: ext_def re st)
  have mid: "run_end c \<noteq> bulk_start b'" if c: "c \<in> ?F - {b}" for c
  proof
    assume h: "run_end c = bulk_start b'"
    have "ext b \<inter> ext c = {}" using D(1) assms(2) c unfolding tiles_def by blast
    moreover have "run_end c - 1 \<in> ext c" "run_end c - 1 \<in> ext b"
      using heap_run_bounds(1) [OF assms(1), of c] c h st assms(3,4) by (auto simp: ext_def run_end_def run_ok_def)
    ultimately show False by blast
  qed
  have "tiles (?F \<union> ?A - {b} \<union> {b'}) ({PAGES_START ..< kheapPageAllocBreak s} - ext b \<union> ext b')"
    using tiles_un [OF tiles_diff [OF D(1), of "{b}"] tiles_one [OF ok]] assms(2) eb(1) by auto
  moreover have "{PAGES_START ..< kheapPageAllocBreak s} - ext b \<union> ext b' =
      {PAGES_START ..< kheapPageAllocBreak s} - {bulk_start b ..< bulk_start b + n * 4096}"
    using eb by blast
  moreover have "?F \<union> ?A - {b} \<union> {b'} = insert b' (?F - {b}) \<union> ?A" using D(4) assms(2) by auto
  ultimately have t: "tiles (insert b' (?F - {b}) \<union> ?A)
      ({PAGES_START ..< kheapPageAllocBreak s} - {bulk_start b ..< bulk_start b + n * 4096})" by simp
  have co: "coalesced (insert b' (?F - {b}))"
    using D(6) mid assms(2) re ok by (auto simp: coalesced_def run_end_def run_ok_def)
  show ?thesis
    using D B assms(1-4) F t co na ad re descending_insert [OF descending_remove1 [OF D(5)]] distinct_addr_remove1 [OF D(2)]
    by (auto simp: run_carved_def run_ok_def heap_inv_def run_end_def)
qed

lemma carve_break:
  assumes "heap_inv s" "0 < n" "kheapPageAllocBreak s + n * 4096 \<le> KERNEL_HEAP_MAX"
  shows "run_carved s (bulks s) (kheapPageAllocBreak s + n * 4096) (kheapPageAllocBreak s) n"
proof -
  note D = heap_invD [OF assms(1)]
  let ?k = "kheapPageAllocBreak s"
  have "{PAGES_START ..< ?k + n * 4096} - {?k ..< ?k + n * 4096} = {PAGES_START ..< ?k}" by auto
  moreover have "run_end b \<noteq> ?k + n * 4096" if "b \<in> set (bulks s)" for b
    using heap_run_bounds(3) [OF assms(1), of b] that assms(2) by auto
  ultimately show ?thesis using D assms by (simp add: run_carved_def)
qed

definition alloc_fails :: "failure \<Rightarrow> nat \<Rightarrow> kmem \<Rightarrow> bool" where
  "alloc_fails e n s \<longleftrightarrow> e = out_of_frames \<and> length (free_frame_list s) \<le> n \<or>
     e = out_of_blocks \<and> freePagesList (da s) = []"

definition run_added :: "nat \<Rightarrow> nat \<Rightarrow> kmem \<Rightarrow> kmem \<Rightarrow> bool" where
  "run_added va n s s' \<longleftrightarrow> heap_inv s' \<and> kheap_lock s' = kheap_lock s \<and> PAGES_START \<le> va \<and> pages_kept s s' \<and>
     (\<exists>b. block_added b (da s) (da s') \<and> bulks_allocated s' =
        \<lparr>bulk_addr = b, bulk_start = va, bulk_size = n * 4096\<rparr> # bulks_allocated s)"

lemma commit_path:
  assumes "heap_inv s" "run_carved s F brk va n"
  shows "case andThen (map_frame_loop (Suc n) va (va + n * 4096) (s\<lparr>bulks := F\<rparr>)) (push_allocated va (n * 4096)) of
      Inr s' \<Rightarrow> run_added va n s (s'\<lparr>kheapPageAllocBreak := brk\<rparr>) \<and> kheapPageAllocBreak s' = kheapPageAllocBreak s
    | Inl e \<Rightarrow> alloc_fails e n s"
proof -
  let ?m = "andThen (map_frame_loop (Suc n) va (va + n * 4096) (s\<lparr>bulks := F\<rparr>)) (push_allocated va (n * 4096))"
  have s: "kmap_inv (s\<lparr>bulks := F\<rparr>)" "block_region_ok (s\<lparr>bulks := F\<rparr>)"
    using assms(1) by (simp_all add: heap_inv_def heap_core_def)
  have u: "\<forall>v. heap_page v \<longrightarrow> run_pages va n v \<longrightarrow> \<not> kmapped (s\<lparr>bulks := F\<rparr>) v"
    using run_carved_unmapped [OF assms] by simp
  have b: "va mod 4096 = 0" "PAGES_START \<le> va" "va + n * 4096 \<le> KERNEL_HEAP_MAX"
    using assms(2) by (auto simp: run_carved_def)
  note mp = map_push [OF s b u]
  show ?thesis
  proof (cases ?m)
    case (Inl e)
    then show ?thesis using mp by (simp add: alloc_fails_def)
  next
    case (Inr s')
    then obtain nb where r: "run_recorded nb va n (s\<lparr>bulks := F\<rparr>) s'" using mp by auto
    have "run_added va n s (s'\<lparr>kheapPageAllocBreak := brk\<rparr>)"
      using alloc_commit [OF assms r] r b by (auto simp: run_added_def run_recorded_def kheap_rest_def)
    then show ?thesis using Inr r by (simp add: run_recorded_def kheap_rest_def)
  qed
qed

definition no_room :: "nat \<Rightarrow> kmem \<Rightarrow> bool" where
  "no_room needed s \<longleftrightarrow> (\<forall>b \<in> set (bulks s). bulk_size b < needed) \<and>
     KERNEL_HEAP_MAX < kheapPageAllocBreak s + needed"

definition page_alloc_result :: "nat \<Rightarrow> kmem \<Rightarrow> (nat \<times> kmem) result \<Rightarrow> bool" where
  "page_alloc_result n s r \<longleftrightarrow>
     (case r of
        Inl e \<Rightarrow> alloc_fails e n s \<and> \<not> no_room (n * 4096) s
      | Inr (p, s') \<Rightarrow> if no_room (n * 4096) s then p = 0 \<and> s' = s else run_added p n s s')"

lemma page_alloc_pathI:
  assumes "heap_inv s" "run_carved s F brk va n" "\<not> no_room (n * 4096) s"
    and "r = andThen (andThen (map_frame_loop (Suc n) va (va + n * 4096) (s\<lparr>bulks := F\<rparr>)) (push_allocated va (n * 4096)))
           (\<lambda>s'. Inr (va, s'\<lparr>kheapPageAllocBreak := brk\<rparr>))"
  shows "page_alloc_result n s r"
  using commit_path [OF assms(1,2)] assms(3,4) by (auto simp: page_alloc_result_def split: sum.splits)

lemma andThen_assoc: "andThen (andThen m f) g = andThen m (\<lambda>x. andThen (f x) g)"
  by (cases m) simp_all

lemma break_update_same: "kheapPageAllocBreak s = k \<Longrightarrow> s\<lparr>kheapPageAllocBreak := k\<rparr> = s"
  by (cases s) simp

lemma page_alloc_keep_break:
  assumes "heap_inv s" "run_carved s F (kheapPageAllocBreak s) va n" "\<not> no_room (n * 4096) s"
  shows "page_alloc_result n s
    (andThen (map_frame_range va (n * 4096) (s\<lparr>bulks := F\<rparr>)) (\<lambda>s. andThen (push_allocated va (n * 4096) s) (\<lambda>s. Inr (va, s))))"
proof (rule page_alloc_pathI [OF assms])
  have b: "va + n * 4096 \<le> KERNEL_HEAP_MAX" using assms(2) by (simp add: run_carved_def)
  show "andThen (map_frame_range va (n * 4096) (s\<lparr>bulks := F\<rparr>)) (\<lambda>s. andThen (push_allocated va (n * 4096) s) (\<lambda>s. Inr (va, s))) =
    andThen (andThen (map_frame_loop (Suc n) va (va + n * 4096) (s\<lparr>bulks := F\<rparr>)) (push_allocated va (n * 4096)))
           (\<lambda>s'. Inr (va, s'\<lparr>kheapPageAllocBreak := kheapPageAllocBreak s\<rparr>))"
    using commit_path [OF assms(1,2)]
    unfolding map_frame_range_eq [OF b] andThen_assoc [symmetric]
    by (auto split: sum.splits simp: andThen_def break_update_same)
qed

text \<open>No free run is large enough: the break moves, or the region is full.\<close>

lemma page_alloc_at_break:
  assumes inv: "heap_inv s" and n: "0 < n" and None: "find (\<lambda>b. bulk_size b = n * 4096) (bulks s) = None"
    and small: "\<not> (bulks s \<noteq> [] \<and> bulk_size (hd (bulks s)) > n * 4096)"
  shows "page_alloc_result n s (page_alloc_custom_fit (n * 4096) s)"
proof -
  let ?w = "n * 4096" and ?F = "bulks s" and ?k = "kheapPageAllocBreak s"
  note D = heap_invD [OF inv]
  have st: "kheapPageAllocStart s = PAGES_START" using inv by (simp add: heap_inv_def heap_core_def)
  have sub: "sub32 KERNEL_HEAP_MAX ?k = KERNEL_HEAP_MAX - ?k" using D(8) by (simp add: sub32_exact)
  have none: "(if ?F \<noteq> [] \<and> bulk_size (hd ?F) \<ge> ?w then find (\<lambda>b. bulk_size b = ?w) ?F else None) = None"
    using None by simp
  have g1: "\<not> ?k < PAGES_START" and dv: "?w div 4096 = n" using D(7) by auto
  note unf = page_alloc_custom_fit_def none st sub option.case if_not_P [OF small] if_not_P [OF g1] Let_def dv
  show ?thesis
  proof (cases "?k + ?w \<le> KERNEL_HEAP_MAX")
    case True
    note c = carve_break [OF inv n True]
    have room: "\<not> no_room ?w s" using True by (simp add: no_room_def)
    have a: "add32 ?k ?w = ?k + ?w" using True by (simp add: add32_exact)
    have l: "map_break_loop (Suc n) 0 ?w ?k s = map_frame_loop (Suc n) ?k (?k + ?w) s"
      using map_break_loop_eq [of 0 n ?w ?k "Suc n" s] True by simp
    let ?m = "andThen (map_frame_loop (Suc n) ?k (?k + ?w) s) (push_allocated ?k ?w)"
    have cp: "case ?m of Inr s' \<Rightarrow> kheapPageAllocBreak s' = ?k | Inl e \<Rightarrow> True"
      using commit_path [OF inv c] by (auto split: sum.splits)
    have g2: "\<not> ?w > KERNEL_HEAP_MAX - ?k" "\<not> ?k + ?w > KERNEL_HEAP_MAX" using True by auto
    have "page_alloc_custom_fit ?w s = andThen ?m
           (\<lambda>s'. Inr (?k, s'\<lparr>kheapPageAllocBreak := add32 (kheapPageAllocBreak s') ?w\<rparr>))"
      unfolding unf a if_not_P [OF g2(1)] if_not_P [OF g2(2)] l andThen_assoc [symmetric] ..
    also have "\<dots> = andThen ?m (\<lambda>s'. Inr (?k, s'\<lparr>kheapPageAllocBreak := ?k + ?w\<rparr>))"
      using cp a by (cases ?m) simp_all
    finally show ?thesis by (intro page_alloc_pathI [OF inv c room]) simp
  next
    case False
    then have g2: "?w > KERNEL_HEAP_MAX - ?k" using D(8) by linarith
    have "page_alloc_custom_fit ?w s = Inr (0, s)" unfolding unf if_P [OF g2] ..
    moreover have "bulk_size b < ?w" if "b \<in> set ?F" for b
    proof -
      have "bulk_size b \<le> bulk_size (hd ?F)" "?F \<noteq> []" using descending_hd [OF D(5) that] that by auto
      moreover have "bulk_size b \<noteq> ?w" using None that by (auto simp: find_None_iff)
      ultimately show ?thesis using small by simp
    qed
    ultimately show ?thesis using False by (auto simp: page_alloc_result_def no_room_def)
  qed
qed

lemma page_alloc_spec:
  assumes inv: "heap_inv s" and n: "0 < n"
  shows "page_alloc_result n s (page_alloc_custom_fit (n * 4096) s)"
proof -
  let ?w = "n * 4096" and ?F = "bulks s"
  note D = heap_invD [OF inv]
  show ?thesis
  proof (cases "find (\<lambda>b. bulk_size b = ?w) ?F")
    case (Some b)
    then have b: "b \<in> set ?F" "bulk_size b = ?w" by (auto simp: find_Some_iff)
    have "?F \<noteq> [] \<and> bulk_size (hd ?F) \<ge> ?w" using descending_hd [OF D(5) b(1)] b by auto
    moreover have "\<not> no_room ?w s" using b unfolding no_room_def by (metis less_irrefl)
    ultimately show ?thesis
      using page_alloc_keep_break [OF inv carve_exact [OF inv b]] b Some
      by (simp add: page_alloc_custom_fit_def remove_bulk_def Let_def)
  next
    case None
    show ?thesis
    proof (cases "?F \<noteq> [] \<and> bulk_size (hd ?F) > ?w")
      case True
      let ?b = "hd ?F"
      have b: "?b \<in> set ?F" using True by simp
      have e: "add32 (bulk_start ?b) ?w = bulk_start ?b + ?w" "sub32 (bulk_size ?b) ?w = bulk_size ?b - ?w"
        using heap_run_bounds(4) [OF inv, of ?b] b True by (auto intro!: add32_exact sub32_exact)
      have na: "bulk_addr ?b \<notin> bulk_addr ` set (remove1 ?b ?F)"
        using addr_inj [OF D(2) b] set_remove1_addr [OF D(2)] by auto
      have "\<not> no_room ?w s" using b True unfolding no_room_def by (metis less_asym)
      from page_alloc_keep_break [OF inv carve_split [OF inv b _ n refl] this] True None b na show ?thesis
        by (simp add: page_alloc_custom_fit_def remove_bulk_def insert_bulk_desc_def Let_def e)
    qed (rule page_alloc_at_break [OF inv n None])
  qed
qed

section \<open>kmalloc\<close>

lemma heap_core_blocks:
  assumes "heap_core X s" "blocks_only s s'" "kmap_inv s'" "block_region_ok s'"
    "nodes_ok (set (bulks s) \<union> set (bulks_allocated s)) (da s')"
  shows "heap_core X s'"
proof -
  have "page_map_ok (set (bulks_allocated s)) s'"
    using assms(1,2) by (simp add: heap_core_def page_map_ok_def blocks_only_def)
  then show ?thesis
    using assms kheap_restD [of s' s] by (simp add: heap_core_def blocks_only_def)
qed

lemma kalloc_block_heap:
  assumes "heap_core X s" "0 < sz" "kalloc_block sz s = Inr (b, s')"
  shows "heap_core X s' \<and> kheap_rest s' = kheap_rest s \<and> block_added b (da s) (da s') \<and> sz \<le> get_block_size b (da s')"
proof -
  have s: "kmap_inv s" "block_region_ok s" "da_inv (da s)" using assms(1) by (simp_all add: heap_core_def block_region_ok_def)
  note k = kalloc_block_ok [OF s(1,2) assms(2,3)]
  have "nodes_ok (set (bulks s) \<union> set (bulks_allocated s)) (da s')"
    using assms(1) k block_added_sizes [OF _ s(3)] unfolding heap_core_def nodes_ok_def by metis
  with heap_core_blocks [OF assms(1)] k show ?thesis by (simp add: blocks_only_def)
qed

lemma ROUNDUP_pages:
  assumes "0 < sz" "sz + 4096 < U32"
  shows "\<exists>n. 0 < n \<and> ROUNDUP sz 4096 = n * 4096"
proof (intro exI conjI)
  show "ROUNDUP sz 4096 = ROUNDUP sz 4096 div 4096 * 4096"
    using ROUNDUP_page(3) [OF assms(2)] by (simp add: mod_0_imp_dvd)
  then show "0 < ROUNDUP sz 4096 div 4096" using ROUNDUP_page(1) [OF assms(2)] assms(1) by (metis gr0I le_zero_eq mult_zero_left neq0_conv)
qed

lemma kmalloc_eq:
  assumes "\<not> kheap_lock s" "0 < sz"
  shows "kmalloc sz s = andThen
      (if sz \<le> DYN_ALLOC_MAX_BLOCK_SIZE then kalloc_block sz (s\<lparr>kheap_lock := True\<rparr>)
       else page_alloc_custom_fit (ROUNDUP sz PAGE_SIZE) (s\<lparr>kheap_lock := True\<rparr>)) (\<lambda>(p, s).
      andThen (lock_release (kheap_lock s)) (\<lambda>h. Inr (p, s\<lparr>kheap_lock := h\<rparr>)))"
  using assms by (simp add: kmalloc_def Let_def)

lemma lock_update_same: "\<not> kheap_lock s \<Longrightarrow> s\<lparr>kheap_lock := False\<rparr> = s"
  by (cases s) simp

lemma no_room_lock [simp]: "no_room w (s\<lparr>kheap_lock := h\<rparr>) = no_room w s"
  by (simp add: no_room_def)

lemma kmalloc_block:
  assumes "heap_inv s" "\<not> kheap_lock s" "0 < sz" "sz \<le> 2048"
  shows "case kmalloc sz s of
     Inr (p, s') \<Rightarrow> heap_inv s' \<and> \<not> kheap_lock s' \<and> block_added p (da s) (da s') \<and> sz \<le> get_block_size p (da s') \<and>
       bulks s' = bulks s \<and> bulks_allocated s' = bulks_allocated s
   | Inl e \<Rightarrow> alloc_fails e 0 s"
proof -
  let ?s = "s\<lparr>kheap_lock := True\<rparr>"
  have i: "heap_inv ?s" "heap_core {PAGES_START ..< kheapPageAllocBreak s} ?s" using assms(1) by (simp_all add: heap_inv_def heap_core_def)
  show ?thesis
  proof (cases "kalloc_block sz ?s")
    case (Inl e)
    have "kmap_inv ?s" "block_region_ok ?s" using i(2) by (simp_all add: heap_core_def)
    from kalloc_block_fails [OF this assms(4) Inl] show ?thesis
      using kmalloc_eq [OF assms(2,3)] Inl assms(4) by (simp add: alloc_fails_def)
  next
    case (Inr r)
    obtain b s1 where r: "r = (b, s1)" by force
    note k = kalloc_block_heap [OF i(2) assms(3) Inr [unfolded r]]
    then have k1: "kheap_lock s1" "bulks s1 = bulks s" "bulks_allocated s1 = bulks_allocated s"
        "kheapPageAllocBreak s1 = kheapPageAllocBreak s"
      by (simp_all add: kheap_rest_def)
    have "heap_inv s1" using k k1 assms(1) by (simp add: heap_inv_def)
    then show ?thesis
      using kmalloc_eq [OF assms(2,3)] Inr r assms(4) k k1 by simp
  qed
qed

lemma kmalloc_pages:
  assumes "heap_inv s" "\<not> kheap_lock s" "2048 < sz" "0 < n" "ROUNDUP sz 4096 = n * 4096"
  shows "case kmalloc sz s of
     Inr (p, s') \<Rightarrow> if no_room (n * 4096) s then p = 0 \<and> s' = s else run_added p n s s'
   | Inl e \<Rightarrow> alloc_fails e n s \<and> \<not> no_room (n * 4096) s"
proof -
  let ?s = "s\<lparr>kheap_lock := True\<rparr>"
  have i: "heap_inv ?s" using assms(1) by simp
  note r = page_alloc_spec [OF i assms(4)]
  have k: "kmalloc sz s = andThen (page_alloc_custom_fit (n * 4096) ?s)
      (\<lambda>(p, s). andThen (lock_release (kheap_lock s)) (\<lambda>h. Inr (p, s\<lparr>kheap_lock := h\<rparr>)))"
    using kmalloc_eq [OF assms(2)] assms(3,5) by simp
  show ?thesis
  proof (cases "page_alloc_custom_fit (n * 4096) ?s")
    case (Inl e)
    then show ?thesis using r k by (simp add: page_alloc_result_def alloc_fails_def)
  next
    case (Inr x)
    obtain p s1 where x: "x = (p, s1)" by force
    show ?thesis
    proof (cases "no_room (n * 4096) s")
      case True
      then show ?thesis using r k Inr x lock_update_same [OF assms(2)] by (simp add: page_alloc_result_def)
    next
      case False
      then have "run_added p n ?s s1" using r Inr x by (simp add: page_alloc_result_def)
      then have "kheap_lock s1" "run_added p n s (s1\<lparr>kheap_lock := False\<rparr>)"
        using assms(2) by (auto simp: run_added_def)
      then show ?thesis using k Inr x False by simp
    qed
  qed
qed

section \<open>Releasing a run\<close>

lemma sizeClass_16 [simp]: "sizeClass 16 = 1"
  by (simp add: sizeClass_def find_log2.simps)

text \<open>
  After a descriptor has been released, a descriptor can be allocated again: its block is on a
  list, or its page is free and, once a page has been unmapped, a frame is free too.
\<close>

lemma free_block_reusable:
  assumes "da_inv d" "va \<in> allocated d" "16 \<le> get_block_size va d" "free_block rp va (d, k) = Inr (d', k')"
  shows "freePagesList d' \<noteq> [] \<or> (\<exists>j. 1 \<le> j \<and> j < 9 \<and> freeBlockLists d' j \<noteq> [])"
proof -
  obtain i where i: "i < 9" "bsize d (page_of d va) = class_size i"
    "free_block rp va (d, k) =
      (if Suc (nfree d (page_of d va)) = PAGE_SIZE div class_size i
       then andThen (rp (dynAllocStart d + page_of d va * PAGE_SIZE) k) (\<lambda>k. Inr (free_last i va d, k))
       else Inr (free_keep i va d, k))"
    using free_block_eq [OF assms(1,2)] by metis
  have "16 \<le> class_size i" using block_in_region [OF assms(1,2)] i(2) assms(3) by simp
  then have "1 \<le> i" by (cases i) (simp_all add: class_size_def)
  moreover from assms(4) [unfolded i(3)] have "d' = free_last i va d \<or> d' = free_keep i va d"
    by (auto simp: res_simps split: if_splits)
  ultimately show ?thesis using i(1) by auto
qed

lemma kfree_block_heap:
  assumes "heap_core X s" "va \<in> allocated (da s)" "va \<notin> bulk_addr ` (set (bulks s) \<union> set (bulks_allocated s))"
  shows "\<exists>s'. kfree_block va s = Inr s' \<and> heap_core X s' \<and> kheap_rest s' = kheap_rest s \<and>
           (free_frame_list s \<noteq> [] \<longrightarrow> free_frame_list s' \<noteq> []) \<and>
           allocated (da s') = allocated (da s) - {va} \<and>
           (16 \<le> get_block_size va (da s) \<longrightarrow>
             freePagesList (da s') \<noteq> [] \<or> (\<exists>j. 1 \<le> j \<and> j < 9 \<and> freeBlockLists (da s') j \<noteq> []))"
proof -
  have s: "kmap_inv s" "block_region_ok s" "da_inv (da s)" using assms(1) by (simp_all add: heap_core_def block_region_ok_def)
  obtain s' where k: "kfree_block va s = Inr s'" "kmap_inv s'" "block_region_ok s'" "blocks_only s s'"
      "allocated (da s') = allocated (da s) - {va}"
      "\<forall>c \<in> allocated (da s) - {va}. get_block_size c (da s') = get_block_size c (da s)"
      "free_frame_list s \<noteq> [] \<longrightarrow> free_frame_list s' \<noteq> []"
    using kfree_block_ok [OF s(1,2) assms(2)] by metis
  have "bulk_addr b \<in> allocated (da s) - {va} \<and> 16 \<le> get_block_size (bulk_addr b) (da s)"
    if "b \<in> set (bulks s) \<union> set (bulks_allocated s)" for b
    using assms(1,3) that unfolding heap_core_def nodes_ok_def by blast
  then have "nodes_ok (set (bulks s) \<union> set (bulks_allocated s)) (da s')"
    using k(5,6) by (simp add: nodes_ok_def)
  from heap_core_blocks [OF assms(1) k(4,2,3) this] have c: "heap_core X s'" .
  obtain d t where f: "free_block return_page va (da s, s) = Inr (d, t)" "da s' = d"
    using k(1) by (auto simp: kfree_block_def res_simps)
  show ?thesis using k c free_block_reusable [OF s(3) assms(2) _ f(1)] f(2) by (auto simp: blocks_only_def)
qed

lemma kalloc_descriptor:
  assumes "kmap_inv s" "block_region_ok s" "free_frame_list s \<noteq> []"
    "freePagesList (da s) \<noteq> [] \<or> (\<exists>j. 1 \<le> j \<and> j < 9 \<and> freeBlockLists (da s) j \<noteq> [])"
  shows "\<exists>r. kalloc_block 16 s = Inr r"
proof (cases "kalloc_block 16 s")
  case (Inl e)
  then have a: "alloc_block get_page 16 (da s, s) = Inl e" by (auto simp: kalloc_block_def res_simps)
  have inv: "da_inv (da s)" using assms(2) by (simp add: block_region_ok_def)
  have "e = out_of_frames \<and> free_frame_list s = [] \<or> e = out_of_blocks \<and> freePagesList (da s) = []"
    by (rule kalloc_block_fails [OF assms(1,2) _ Inl]) simp
  then have e: "e = out_of_blocks" "freePagesList (da s) = []" using assms(3) by auto
  from alloc_block_fails [OF inv a] e(2) have "\<forall>j. 1 \<le> j \<and> j < 9 \<longrightarrow> freeBlockLists (da s) j = []" by simp
  with e(2) assms(4) show ?thesis by blast
qed simp

text \<open>A new free run \<open>b'\<close> takes the place of the free runs \<open>T\<close> and of the range \<open>R\<close>.\<close>

lemma free_insert:
  assumes core: "heap_core Y s" and T: "T \<subseteq> set (bulks s)" and F0: "set F0 = set (bulks s) - T"
      "distinct (map bulk_addr F0)" "descending F0"
    and b': "run_ok b'" "ext b' = R \<union> \<Union> (ext ` T)" "R \<inter> Y = {}"
      "bulk_addr b' \<notin> bulk_addr ` (set F0 \<union> set (bulks_allocated s))"
      "bulk_addr b' \<in> allocated (da s)" "16 \<le> get_block_size (bulk_addr b') (da s)"
  shows "heap_core (Y \<union> R) (s\<lparr>bulks := insert_desc b' F0\<rparr>)"
proof -
  let ?A = "set (bulks_allocated s)" and ?F = "set (bulks s)"
  have t: "tiles (?F \<union> ?A) Y" and d: "distinct (map bulk_addr (bulks s @ bulks_allocated s))"
    using core by (simp_all add: heap_core_def)
  have un: "\<Union> (ext ` T) \<subseteq> Y" using t T by (auto simp: tiles_def)
  have "tiles (?F \<union> ?A - T \<union> {b'}) (Y - \<Union> (ext ` T) \<union> ext b')"
    using b'(2,3) T by (intro tiles_un [OF tiles_diff [OF t] tiles_one [OF b'(1)]]) auto
  moreover have "Y - \<Union> (ext ` T) \<union> ext b' = Y \<union> R" using un b'(2) by blast
  moreover have "?F \<union> ?A - T \<union> {b'} = insert b' (set F0) \<union> ?A" using F0(1) T d by auto
  ultimately have t': "tiles (insert b' (set F0) \<union> ?A) (Y \<union> R)" by simp
  have "nodes_ok (insert b' (set F0) \<union> ?A) (da s)"
    using core b'(5,6) F0(1) by (auto simp: heap_core_def nodes_ok_def)
  moreover have "distinct (map bulk_addr (insert_desc b' F0 @ bulks_allocated s))"
    using b'(4) F0(1,2) d by auto
  ultimately show ?thesis
    using core t' descending_insert [OF F0(3)] by (simp add: heap_core_def)
qed

lemma coalesced_insert:
  assumes "coalesced F" "run_ok b" "\<And>c. c \<in> F - T \<Longrightarrow> run_end c \<noteq> bulk_start b \<and> run_end b \<noteq> bulk_start c"
  shows "coalesced (insert b (F - T))"
proof -
  have "run_end b \<noteq> bulk_start b" using assms(2) by (simp add: run_end_def run_ok_def)
  then show ?thesis using assms(1,3) by (auto simp: coalesced_def)
qed

lemma core_run:
  assumes "heap_core Y s" "Y \<subseteq> {PAGES_START ..< KERNEL_HEAP_MAX}" "c \<in> set (bulks s)"
  shows "run_ok c" "run_end c \<le> KERNEL_HEAP_MAX" "add32 (bulk_start c) (bulk_size c) = run_end c"
    "bulk_addr c \<in> allocated (da s)" "16 \<le> get_block_size (bulk_addr c) (da s)" "ext c \<subseteq> Y"
proof -
  have t: "tiles (set (bulks s) \<union> set (bulks_allocated s)) Y" using assms(1) by (simp add: heap_core_def)
  show ok: "run_ok c" "ext c \<subseteq> Y" using tiles_runD [OF t] tiles_ext [OF t] assms(3) by auto
  have "run_end c - 1 \<in> ext c" using ok(1) by (auto simp: ext_def run_end_def run_ok_def)
  then have "run_end c - 1 < KERNEL_HEAP_MAX" using ok(2) assms(2) by auto
  then show le: "run_end c \<le> KERNEL_HEAP_MAX" by linarith
  then show "add32 (bulk_start c) (bulk_size c) = run_end c" by (simp add: run_end_def add32_exact)
  show "bulk_addr c \<in> allocated (da s)" "16 \<le> get_block_size (bulk_addr c) (da s)"
    using assms(1,3) unfolding heap_core_def nodes_ok_def by auto
qed

lemma core_addr:
  assumes "heap_core Y s" "c \<in> set (bulks s)" "c \<in> T"
  shows "bulk_addr c \<notin> bulk_addr ` (set (bulks s) - T \<union> set (bulks_allocated s))"
proof -
  have "distinct (map bulk_addr (bulks s))" "bulk_addr ` set (bulks s) \<inter> bulk_addr ` set (bulks_allocated s) = {}"
    using assms(1) by (simp_all add: heap_core_def)
  then show ?thesis using addr_inj [of "bulks s" c] assms(2,3) by blast
qed

lemma core_lists:
  assumes "heap_core Y s"
  shows "distinct (map bulk_addr (bulks s))" "descending (bulks s)"
  using assms by (simp_all add: heap_core_def)

text \<open>The four cases of \<open>merge_bulks\<close>, for a range next to the tiled set \<open>Y\<close>.\<close>

definition merge_pre :: "nat set \<Rightarrow> nat \<Rightarrow> nat \<Rightarrow> kmem \<Rightarrow> bool" where
  "merge_pre Y st w s \<longleftrightarrow> heap_core Y s \<and> Y \<subseteq> {PAGES_START ..< KERNEL_HEAP_MAX} \<and> {st ..< st + w} \<inter> Y = {} \<and>
     0 < w \<and> st mod 4096 = 0 \<and> w mod 4096 = 0 \<and> st + w \<le> KERNEL_HEAP_MAX \<and> coalesced (set (bulks s))"

definition merged :: "nat set \<Rightarrow> nat \<Rightarrow> nat \<Rightarrow> kmem \<Rightarrow> kmem \<Rightarrow> bool" where
  "merged Y st w s s' \<longleftrightarrow> heap_core (Y \<union> {st ..< st + w}) s' \<and> coalesced (set (bulks s')) \<and>
     bulks_allocated s' = bulks_allocated s \<and> kheapPageAllocBreak s' = kheapPageAllocBreak s \<and> kheap_lock s' = kheap_lock s"

lemma merge_preD:
  assumes "merge_pre Y st w s"
  shows "heap_core Y s" "Y \<subseteq> {PAGES_START ..< KERNEL_HEAP_MAX}" "{st ..< st + w} \<inter> Y = {}"
    "0 < w" "st mod 4096 = 0" "w mod 4096 = 0" "st + w \<le> KERNEL_HEAP_MAX" "coalesced (set (bulks s))"
  using assms by (simp_all add: merge_pre_def)

lemma mergedI:
  assumes pre: "merge_pre Y st w s"
    and T: "T \<subseteq> set (bulks s)" "set F0 = set (bulks s) - T" "distinct (map bulk_addr F0)" "descending F0"
    and b': "run_ok b'" "ext b' = {st ..< st + w} \<union> \<Union> (ext ` T)" "bulk_addr b' = bulk_addr a" "a \<in> T"
    and n: "\<And>c. c \<in> set (bulks s) - T \<Longrightarrow> run_end c \<noteq> bulk_start b' \<and> run_end b' \<noteq> bulk_start c"
  shows "merged Y st w s (s\<lparr>bulks := insert_desc b' F0\<rparr>)"
proof -
  note P = merge_preD [OF pre]
  have a: "a \<in> set (bulks s)" using T(1) b'(4) by auto
  have na: "bulk_addr b' \<notin> bulk_addr ` (set F0 \<union> set (bulks_allocated s))"
    using core_addr [OF P(1) a b'(4)] T(2) b'(3) by simp
  have "heap_core (Y \<union> {st ..< st + w}) (s\<lparr>bulks := insert_desc b' F0\<rparr>)"
    using free_insert [OF P(1) T b'(1,2) P(3) na] core_run(4,5) [OF P(1,2) a] b'(3) by simp
  moreover have "coalesced (insert b' (set F0))"
    using coalesced_insert [OF P(8) b'(1) n] T(2) by simp
  ultimately show ?thesis by (simp add: merged_def)
qed

lemma merge_before:
  assumes pre: "merge_pre Y st w s" and a: "a \<in> set (bulks s)" "run_end a = st"
    and none: "\<And>c. c \<in> set (bulks s) \<Longrightarrow> bulk_start c \<noteq> st + w"
    and b: "b = a\<lparr>bulk_size := bulk_size a + w\<rparr>"
  shows "merged Y st w s (s\<lparr>bulks := insert_desc b (remove1 a (bulks s))\<rparr>)"
proof (rule mergedI [OF pre, where T = "{a}" and a = a])
  note P = merge_preD [OF pre] and cl = core_lists [OF merge_preD(1) [OF pre]]
  have e: "run_end b = st + w" "bulk_start b = bulk_start a" using a(2) by (simp_all add: run_end_def b)
  have "bulk_start a < st" using a(2) core_run(1) [OF P(1,2) a(1)] by (auto simp: run_end_def run_ok_def)
  then show "ext b = {st ..< st + w} \<union> \<Union> (ext ` {a})" using a(2) by (auto simp: ext_def e)
  show "run_ok b" using core_run(1) [OF P(1,2) a(1)] P(4-6) by (simp add: run_ok_def b mod_eq_0_iff_dvd)
  show "run_end c \<noteq> bulk_start b \<and> run_end b \<noteq> bulk_start c" if "c \<in> set (bulks s) - {a}" for c
    using that none [of c] a(1) P(8) unfolding e coalesced_def by (metis DiffD1)
  show "set (remove1 a (bulks s)) = set (bulks s) - {a}" using set_remove1_addr [OF cl(1)] .
  show "distinct (map bulk_addr (remove1 a (bulks s)))" using distinct_addr_remove1 [OF cl(1)] .
  show "descending (remove1 a (bulks s))" using descending_remove1 [OF cl(2)] .
qed (use a in \<open>simp_all add: b\<close>)

lemma merge_after:
  assumes pre: "merge_pre Y st w s" and a: "a \<in> set (bulks s)" "bulk_start a = st + w"
    and none: "\<And>c. c \<in> set (bulks s) \<Longrightarrow> run_end c \<noteq> st"
    and b: "b = a\<lparr>bulk_start := st, bulk_size := bulk_size a + w\<rparr>"
  shows "merged Y st w s (s\<lparr>bulks := insert_desc b (remove1 a (bulks s))\<rparr>)"
proof (rule mergedI [OF pre, where T = "{a}" and a = a])
  note P = merge_preD [OF pre] and cl = core_lists [OF merge_preD(1) [OF pre]]
  have e: "run_end b = run_end a" "bulk_start b = st" using a(2) by (simp_all add: run_end_def b)
  have "st + w < run_end a" using a(2) core_run(1) [OF P(1,2) a(1)] by (simp add: run_end_def run_ok_def)
  then show "ext b = {st ..< st + w} \<union> \<Union> (ext ` {a})" using a(2) by (auto simp: ext_def e)
  show "run_ok b" using core_run(1) [OF P(1,2) a(1)] P(4-6) by (simp add: run_ok_def b mod_eq_0_iff_dvd)
  show "run_end c \<noteq> bulk_start b \<and> run_end b \<noteq> bulk_start c" if "c \<in> set (bulks s) - {a}" for c
    using that none [of c] a(1) P(8) unfolding e coalesced_def by (metis DiffD1)
  show "set (remove1 a (bulks s)) = set (bulks s) - {a}" using set_remove1_addr [OF cl(1)] .
  show "distinct (map bulk_addr (remove1 a (bulks s)))" using distinct_addr_remove1 [OF cl(1)] .
  show "descending (remove1 a (bulks s))" using descending_remove1 [OF cl(2)] .
qed (use a in \<open>simp_all add: b\<close>)

lemma merge_both:
  assumes pre: "merge_pre Y st w s" and a: "a \<in> set (bulks s)" "run_end a = st"
    and c: "c \<in> set (bulks s)" "bulk_start c = st + w"
    and b: "b = a\<lparr>bulk_size := bulk_size a + (w + bulk_size c)\<rparr>"
  shows "merged Y st w s (s\<lparr>bulks := insert_desc b (remove1 c (remove1 a (bulks s)))\<rparr>)"
proof (rule mergedI [OF pre, where T = "{a, c}" and a = a])
  note P = merge_preD [OF pre] and cl = core_lists [OF merge_preD(1) [OF pre]]
  have e: "run_end b = run_end c" "bulk_start b = bulk_start a" using a(2) c(2) by (simp_all add: run_end_def b)
  have "bulk_start a < st" using a(2) core_run(1) [OF P(1,2) a(1)] by (auto simp: run_end_def run_ok_def)
  moreover have "st + w < run_end c" using c(2) core_run(1) [OF P(1,2) c(1)] by (simp add: run_end_def run_ok_def)
  ultimately show "ext b = {st ..< st + w} \<union> \<Union> (ext ` {a, c})" using a(2) c(2) by (auto simp: ext_def e)
  show "run_ok b" using core_run(1) [OF P(1,2) a(1)] core_run(1) [OF P(1,2) c(1)] P(4-6)
    by (simp add: run_ok_def b mod_eq_0_iff_dvd)
  show "run_end x \<noteq> bulk_start b \<and> run_end b \<noteq> bulk_start x" if "x \<in> set (bulks s) - {a, c}" for x
    using that a(1) c(1) P(8) unfolding e coalesced_def by (metis DiffD1)
  show "set (remove1 c (remove1 a (bulks s))) = set (bulks s) - {a, c}"
    using set_remove1_addr [OF distinct_addr_remove1 [OF cl(1)]] set_remove1_addr [OF cl(1)] by blast
  show "distinct (map bulk_addr (remove1 c (remove1 a (bulks s))))"
    using distinct_addr_remove1 [OF distinct_addr_remove1 [OF cl(1)]] .
  show "descending (remove1 c (remove1 a (bulks s)))" using descending_remove1 [OF descending_remove1 [OF cl(2)]] .
qed (use a c in \<open>simp_all add: b\<close>)

lemma merge_alone:
  assumes pre: "merge_pre Y st w s" and k: "kalloc_block 16 s = Inr (nb, s1)"
    and none: "\<And>c. c \<in> set (bulks s) \<Longrightarrow> run_end c \<noteq> st \<and> bulk_start c \<noteq> st + w"
    and b: "b = \<lparr>bulk_addr = nb, bulk_start = st, bulk_size = w\<rparr>"
  shows "nb \<noteq> 0 \<and> insert_bulk_desc b (bulks s1) = Inr (insert_desc b (bulks s)) \<and>
    merged Y st w s (s1\<lparr>bulks := insert_desc b (bulks s)\<rparr>)"
proof -
  note P = merge_preD [OF pre]
  have K: "heap_core Y s1" "kheap_rest s1 = kheap_rest s" "block_added nb (da s) (da s1)" "16 \<le> get_block_size nb (da s1)"
    using kalloc_block_heap [OF P(1) _ k] by auto
  note R = kheap_restD [OF K(2)]
  have al: "nb \<in> allocated (da s1)" "nb \<notin> allocated (da s)" using K(3) by (auto simp: block_added_def)
  have "dynAllocStart (da s1) = KERNEL_HEAP_START" using K(1) by (simp add: heap_core_def block_region_ok_def)
  then have nz: "nb \<noteq> 0" using al(1) by (auto simp: allocated_def)
  have nn: "nb \<notin> bulk_addr ` (set (bulks s) \<union> set (bulks_allocated s))"
    using P(1) al(2) unfolding heap_core_def nodes_ok_def by blast
  have ok: "run_ok b" "ext b = {st ..< st + w} \<union> \<Union> (ext ` {})" "run_end b = st + w"
    using P(4-6) by (simp_all add: b run_ok_def ext_def run_end_def)
  have "heap_core (Y \<union> {st ..< st + w}) (s1\<lparr>bulks := insert_desc b (bulks s1)\<rparr>)"
    by (rule free_insert [OF K(1) _ _ _ _ ok(1,2) P(3)])
      (use core_lists [OF K(1)] nn al(1) K(4) R in \<open>simp_all add: b\<close>)
  moreover have "coalesced (insert b (set (bulks s) - {}))"
    using coalesced_insert [OF P(8) ok(1), of "{}"] none ok(3) by (simp add: b) metis
  ultimately have "merged Y st w s (s1\<lparr>bulks := insert_desc b (bulks s)\<rparr>)" using R by (simp add: merged_def)
  moreover have "nb \<notin> bulk_addr ` set (bulks s)" using nn by blast
  ultimately show ?thesis using nz R(4) by (simp add: insert_bulk_desc_def b)
qed

lemma merge_bulks_spec:
  assumes pre: "merge_pre Y st w s" and k: "\<exists>r. kalloc_block 16 s = Inr r"
  shows "\<exists>s'. merge_bulks st w s = Inr s' \<and> merged Y st w s s'"
proof -
  note P = merge_preD [OF pre] and cr = core_run [OF merge_preD(1,2) [OF pre]] and cl = core_lists [OF merge_preD(1) [OF pre]]
  let ?P = "\<lambda>c. add32 (bulk_start c) (bulk_size c) = st" and ?Q = "\<lambda>c. bulk_start c = add32 st w"
  have sw: "add32 st w = st + w" using P(7) by (simp add: add32_exact)
  have na: "bulk_addr a \<notin> bulk_addr ` set (remove1 a (bulks s))" if "a \<in> set (bulks s)" for a
    using core_addr [OF P(1) that, of "{a}"] set_remove1_addr [OF cl(1)] by auto
  show ?thesis
  proof (cases "find_last ?P (bulks s) None")
    case None
    then have noP: "run_end c \<noteq> st" if "c \<in> set (bulks s)" for c using find_last_None [OF None that] cr(3) [OF that] by auto
    show ?thesis
    proof (cases "find_last ?Q (bulks s) None")
      case n2: None
      then have "bulk_start c \<noteq> st + w" if "c \<in> set (bulks s)" for c using find_last_None [OF n2 that] sw by auto
      moreover obtain nb s1 where "kalloc_block 16 s = Inr (nb, s1)" using k by force
      ultimately show ?thesis using merge_alone [OF pre _ _ refl] noP None n2 by (simp add: merge_bulks_def)
    next
      case (Some c)
      note c = find_last_Some [OF Some]
      have "add32 (bulk_size c) w = bulk_size c + w"
        using cr(2) c P(4) sw by (intro add32_exact) (fastforce simp: run_end_def)
      then show ?thesis
        using merge_after [OF pre _ _ noP refl, of c] c sw None Some na [of c]
        by (simp add: merge_bulks_def remove_bulk_def insert_bulk_desc_def)
    qed
  next
    case (Some a)
    have a: "a \<in> set (bulks s)" "run_end a = st" using find_last_Some [OF Some] cr(3) by auto
    show ?thesis
    proof (cases "find_last ?Q (bulks s) None")
      case None
      then have "bulk_start c \<noteq> st + w" if "c \<in> set (bulks s)" for c using find_last_None [OF None that] sw by auto
      moreover have "add32 (bulk_size a) w = bulk_size a + w"
        using a(2) P(7) by (intro add32_exact) (simp add: run_end_def)
      ultimately show ?thesis
        using merge_before [OF pre a _ refl] Some None na [OF a(1)] a(1)
        by (simp add: merge_bulks_def remove_bulk_def insert_bulk_desc_def)
    next
      case s2: (Some c)
      have c: "c \<in> set (bulks s)" "bulk_start c = st + w" using find_last_Some [OF s2] sw by auto
      let ?b = "a\<lparr>bulk_size := bulk_size a + (w + bulk_size c)\<rparr>"
      let ?s = "s\<lparr>bulks := insert_desc ?b (remove1 c (remove1 a (bulks s)))\<rparr>"
      note M = merge_both [OF pre a c refl]
      have ac: "a \<noteq> c" using a(2) c(2) P(4) by (auto simp: run_end_def)
      have e: "add32 w (bulk_size c) = w + bulk_size c" "add32 (bulk_size a) (w + bulk_size c) = bulk_size a + (w + bulk_size c)"
        using cr(2) [OF c(1)] a(2) c(2) by (auto intro!: add32_exact simp: run_end_def)
      have F0: "set (remove1 c (remove1 a (bulks s))) = set (bulks s) - {a, c}"
        using set_remove1_addr [OF distinct_addr_remove1 [OF cl(1)]] set_remove1_addr [OF cl(1)] by blast
      have na2: "bulk_addr a \<notin> bulk_addr ` set (remove1 c (remove1 a (bulks s)))"
        using core_addr [OF P(1) a(1), of "{a, c}"] F0 by auto
      have "bulk_addr c \<noteq> bulk_addr a" using addr_inj [OF cl(1) c(1) a(1)] ac by auto
      then have nc: "bulk_addr c \<notin> bulk_addr ` (set (bulks ?s) \<union> set (bulks_allocated ?s))"
        using core_addr [OF P(1) c(1), of "{a, c}"] F0 by auto
      have "heap_core (Y \<union> {st ..< st + w}) ?s" using M by (simp add: merged_def)
      from kfree_block_heap [OF this _ nc] cr(4) [OF c(1)] obtain s' where
        s': "kfree_block (bulk_addr c) ?s = Inr s'" "heap_core (Y \<union> {st ..< st + w}) s'" "kheap_rest s' = kheap_rest ?s"
        by auto
      have "merged Y st w s s'" using M s'(2) kheap_restD [OF s'(3)] by (simp add: merged_def)
      then show ?thesis
        using s'(1) Some s2 a(1) c(1) ac na2 e
        by (simp add: merge_bulks_def remove_bulk_def insert_bulk_desc_def)
    qed
  qed
qed

lemma lower_break_spec:
  assumes core: "heap_core {PAGES_START ..< kheapPageAllocBreak s} s" and co: "coalesced (set (bulks s))"
  shows "\<exists>s'. lower_break (length (bulks s)) s = Inr s' \<and> heap_inv s' \<and>
           bulks_allocated s' = bulks_allocated s \<and> kheap_lock s' = kheap_lock s"
proof -
  let ?k = "kheapPageAllocBreak s"
  let ?P = "\<lambda>c. add32 (bulk_start c) (bulk_size c) = ?k"
  have Y: "{PAGES_START ..< ?k} \<subseteq> {PAGES_START ..< KERNEL_HEAP_MAX}" using core by (auto simp: heap_core_def)
  note cr = core_run [OF core Y] and cl = core_lists [OF core]
  show ?thesis
  proof (cases "find ?P (bulks s)")
    case None
    then have "run_end c \<noteq> ?k" if "c \<in> set (bulks s)" for c using cr(3) [OF that] that by (auto simp: find_None_iff)
    then show ?thesis using None core co by (simp add: lower_break.simps [of "length (bulks s)" s] heap_inv_def)
  next
    case (Some c)
    then have c: "c \<in> set (bulks s)" "run_end c = ?k" using cr(3) by (auto simp: find_Some_iff)
    let ?s = "s\<lparr>bulks := remove1 c (bulks s), kheapPageAllocBreak := bulk_start c\<rparr>"
    have F: "set (remove1 c (bulks s)) = set (bulks s) - {c}" using set_remove1_addr [OF cl(1)] .
    have t: "tiles (set (bulks s) \<union> set (bulks_allocated s)) {PAGES_START ..< ?k}" using core by (simp add: heap_core_def)
    have "bulk_start c \<in> ext c" using start_in_ext [OF cr(1) [OF c(1)]] .
    then have st: "PAGES_START \<le> bulk_start c" "bulk_start c < ?k" using cr(6) [OF c(1)] by auto
    have "{PAGES_START ..< ?k} - ext c = {PAGES_START ..< bulk_start c}" using c(2) st by (auto simp: ext_def)
    moreover have "set (bulks s) \<union> set (bulks_allocated s) - {c} = set (remove1 c (bulks s)) \<union> set (bulks_allocated s)"
      using F c(1) core_addr [OF core c(1), of "{c}"] by auto
    ultimately have t': "tiles (set (remove1 c (bulks s)) \<union> set (bulks_allocated s)) {PAGES_START ..< bulk_start c}"
      using tiles_diff [OF t, of "{c}"] c(1) by simp
    have core': "heap_core {PAGES_START ..< bulk_start c} ?s"
      using core t' st cr(1) [OF c(1)] F distinct_addr_remove1 [OF cl(1)] descending_remove1 [OF cl(2)]
      by (auto simp: heap_core_def nodes_ok_def run_ok_def)
    have "bulk_addr c \<in> allocated (da ?s)" "bulk_addr c \<notin> bulk_addr ` (set (bulks ?s) \<union> set (bulks_allocated ?s))"
      using cr(4) [OF c(1)] core_addr [OF core c(1), of "{c}"] F by simp_all
    from kfree_block_heap [OF core' this] obtain s' where
        s': "kfree_block (bulk_addr c) ?s = Inr s'" "heap_core {PAGES_START ..< bulk_start c} s'"
        "kheap_rest s' = kheap_rest ?s"
      by blast
    note R = kheap_restD [OF s'(3)]
    obtain n where n: "length (bulks s) = Suc n" using c(1) by (cases "bulks s") auto
    have no: "run_end b \<noteq> bulk_start c" if "b \<in> set (bulks s)" for b using co c(1) that by (auto simp: coalesced_def)
    have "find (\<lambda>b. add32 (bulk_start b) (bulk_size b) = kheapPageAllocBreak s') (bulks s') = None"
      using no cr(3) R F by (auto simp: find_None_iff)
    then have "lower_break (length (bulks s)) s = Inr s'"
      using Some c(1) s'(1) n by (simp add: lower_break.simps [of "Suc n" s] remove_bulk_def lower_break.simps [of n s'])
    moreover have "heap_inv s'" using s'(2) R F co no by (auto simp: heap_inv_def coalesced_def)
    ultimately show ?thesis using R by auto
  qed
qed

section \<open>kfree\<close>

lemma find_run:
  assumes "heap_inv s" "b \<in> set (bulks_allocated s)"
  shows "find (\<lambda>c. bulk_start c = bulk_start b) (bulks_allocated s) = Some b"
proof (cases "find (\<lambda>c. bulk_start c = bulk_start b) (bulks_allocated s)")
  case None
  then show ?thesis using assms(2) by (auto simp: find_None_iff)
next
  case (Some c)
  then have "c \<in> set (bulks_allocated s)" "bulk_start c = bulk_start b" by (auto simp: find_Some_iff)
  then show ?thesis using Some tiles_start_inj [OF heap_invD(1) [OF assms(1)], of c b] assms(2) by simp
qed

text \<open>Unmapping a run and taking it off the list of allocated runs.\<close>

lemma unmap_run:
  assumes inv: "heap_inv s" and b: "b \<in> set (bulks_allocated s)"
  shows "\<exists>s1. unmap_loop (Suc (bulk_size b div PAGE_SIZE)) (bulk_start b) (add32 (bulk_start b) (bulk_size b)) s = Inr s1 \<and>
    kview s1 = kview s \<and> free_frame_list s1 \<noteq> [] \<and>
    heap_core ({PAGES_START ..< kheapPageAllocBreak s} - ext b) (s1\<lparr>bulks_allocated := remove1 b (bulks_allocated s)\<rparr>)"
proof -
  note D = heap_invD [OF inv] and B = heap_run_bounds [OF inv, of b]
  have core: "heap_core {PAGES_START ..< kheapPageAllocBreak s} s" using inv by (simp add: heap_inv_def)
  let ?n = "bulk_size b div 4096" and ?A = "remove1 b (bulks_allocated s)"
  have ok: "run_ok b" using B(1) b by simp
  have n: "bulk_size b = ?n * 4096" "0 < ?n" using run_ok_pages [OF ok] by auto
  have e: "add32 (bulk_start b) (bulk_size b) = bulk_start b + ?n * 4096" using B(4) b n by (simp add: add32_exact)
  have k: "kmap_inv s" using core by (simp add: heap_core_def)
  have bd: "bulk_start b mod 4096 = 0" "PAGES_START \<le> bulk_start b" "bulk_start b + ?n * 4096 \<le> KERNEL_HEAP_MAX"
    using ok B(2,3) b n D(8) by (auto simp: run_ok_def run_end_def)
  then have hs: "KERNEL_HEAP_START \<le> bulk_start b" by simp
  obtain s1 where s1: "unmap_loop (Suc ?n) (bulk_start b) (bulk_start b + ?n * 4096) s = Inr s1" "kmap_inv s1"
      "kview s1 = kview s" "free_frame_list s \<noteq> [] \<or> 0 < ?n \<and> kmapped s (bulk_start b) \<longrightarrow> free_frame_list s1 \<noteq> []"
      "\<And>v. heap_page v \<Longrightarrow> kmapped s1 v \<longleftrightarrow> kmapped s v \<and> \<not> run_pages (bulk_start b) ?n v"
    using unmap_loop_eq [OF k bd(1) hs bd(3), of "Suc ?n"] by auto
  have hb: "heap_page (bulk_start b)" "\<not> block_page (bulk_start b)"
    using bd n(2) by (auto simp: heap_page_def block_page_def)
  have "kmapped s (bulk_start b)"
    using core hb b start_in_ext [OF ok] by (auto simp: heap_core_def page_map_ok_def)
  then have fl: "free_frame_list s1 \<noteq> []" using s1(4) n(2) by blast
  note V = kviewD [OF s1(3)]
  have A: "set ?A = set (bulks_allocated s) - {b}" using set_remove1_addr [OF D(3)] .
  have "set (bulks s) \<union> set (bulks_allocated s) - {b} = set (bulks s) \<union> set ?A" using A D(4) b by auto
  then have t: "tiles (set (bulks s) \<union> set ?A) ({PAGES_START ..< kheapPageAllocBreak s} - ext b)"
    using tiles_diff [OF D(1), of "{b}"] b by simp
  have eb: "v \<in> ext b \<longleftrightarrow> run_pages (bulk_start b) ?n v" for v
    using n(1) by (simp add: ext_def run_end_def run_pages_def)
  have "\<exists>c \<in> set ?A. v \<in> ext c" if "c \<in> set (bulks_allocated s)" "v \<in> ext c" "v \<notin> ext b" for v c
    using that A by auto
  moreover have "v \<notin> ext b" if "c \<in> set ?A" "v \<in> ext c" for v c
    using that A b D(1) unfolding tiles_def by (metis DiffE IntI Un_iff empty_iff insertI1)
  ultimately have pm: "page_map_ok (set ?A) s1"
    using core A unfolding page_map_ok_def heap_core_def by (metis DiffD1 eb s1(5))
  have br: "block_region_ok s1"
    using block_region_mono [of s s1] core V(6) s1(5) run_not_block [OF _ bd(2)] unfolding heap_core_def by blast
  have "heap_core ({PAGES_START ..< kheapPageAllocBreak s} - ext b) (s1\<lparr>bulks_allocated := ?A\<rparr>)"
    using core V A t pm br s1(2) distinct_addr_remove1 [OF D(3)] by (auto simp: heap_core_def nodes_ok_def)
  then show ?thesis using s1(1,3) fl e by auto
qed

lemma kfree_run:
  assumes inv: "heap_inv s" and lock: "\<not> kheap_lock s" and b: "b \<in> set (bulks_allocated s)"
  shows "\<exists>s'. kfree (bulk_start b) s = Inr s' \<and> heap_inv s' \<and> \<not> kheap_lock s' \<and>
           bulks_allocated s' = remove1 b (bulks_allocated s)"
proof -
  let ?s = "s\<lparr>kheap_lock := True\<rparr>" and ?A = "remove1 b (bulks_allocated s)"
  let ?Y = "{PAGES_START ..< kheapPageAllocBreak s} - ext b"
  have i: "heap_inv ?s" and b1: "b \<in> set (bulks_allocated ?s)" using inv b by simp_all
  note B = heap_run_bounds [OF inv, of b] and D = heap_invD [OF inv]
  obtain s1 where s1: "unmap_loop (Suc (bulk_size b div PAGE_SIZE)) (bulk_start b) (add32 (bulk_start b) (bulk_size b)) ?s = Inr s1"
      "kview s1 = kview ?s" "free_frame_list s1 \<noteq> []" "heap_core ?Y (s1\<lparr>bulks_allocated := ?A\<rparr>)"
    using unmap_run [OF i b1] by auto
  note V = kviewD [OF s1(2)]
  have core: "heap_core {PAGES_START ..< kheapPageAllocBreak s} s" using inv by (simp add: heap_inv_def)
  have nd: "bulk_addr b \<in> allocated (da s)" "16 \<le> get_block_size (bulk_addr b) (da s)"
    using core b unfolding heap_core_def nodes_ok_def by auto
  have "bulk_addr b \<notin> bulk_addr ` (set (bulks s) \<union> set ?A)"
  proof -
    have "bulk_addr ` set (bulks s) \<inter> bulk_addr ` set (bulks_allocated s) = {}" using core by (simp add: heap_core_def)
    moreover have "set ?A = set (bulks_allocated s) - {b}" using set_remove1_addr [OF D(3)] .
    ultimately show ?thesis using addr_inj [OF D(3) b] b by blast
  qed
  then obtain s2 where s2: "kfree_block (bulk_addr b) (s1\<lparr>bulks_allocated := ?A\<rparr>) = Inr s2" "heap_core ?Y s2"
      "kheap_rest s2 = kheap_rest (s1\<lparr>bulks_allocated := ?A\<rparr>)" "free_frame_list s2 \<noteq> []"
      "freePagesList (da s2) \<noteq> [] \<or> (\<exists>j. 1 \<le> j \<and> j < 9 \<and> freeBlockLists (da s2) j \<noteq> [])"
    using kfree_block_heap [OF s1(4), of "bulk_addr b"] nd V s1(3) by auto
  note R = kheap_restD [OF s2(3)]
  have k: "kmap_inv s2" "block_region_ok s2" using s2(2) by (simp_all add: heap_core_def)
  have pre: "merge_pre ?Y (bulk_start b) (bulk_size b) s2"
    using s2(2) B b D(6,8) R V by (auto simp: merge_pre_def run_ok_def run_end_def ext_def)
  obtain s3 where s3: "merge_bulks (bulk_start b) (bulk_size b) s2 = Inr s3" "merged ?Y (bulk_start b) (bulk_size b) s2 s3"
    using merge_bulks_spec [OF pre kalloc_descriptor [OF k s2(4,5)]] by auto
  have "?Y \<union> {bulk_start b ..< bulk_start b + bulk_size b} = {PAGES_START ..< kheapPageAllocBreak s3}"
    using B(2,3) b s3(2) R V by (auto simp: ext_def run_end_def merged_def)
  then have "heap_core {PAGES_START ..< kheapPageAllocBreak s3} s3" using s3(2) unfolding merged_def by metis
  then obtain s4 where s4: "lower_break (length (bulks s3)) s3 = Inr s4" "heap_inv s4"
      "bulks_allocated s4 = bulks_allocated s3" "kheap_lock s4 = kheap_lock s3"
    using lower_break_spec [of s3] s3(2) by (auto simp: merged_def)
  have l: "kheap_lock s4" "bulks_allocated s4 = ?A" using s4 s3(2) R V by (simp_all add: merged_def)
  have st: "kheapPageAllocStart s = PAGES_START" using core by (simp add: heap_core_def)
  have g: "PAGES_START \<le> bulk_start b" "bulk_start b < KERNEL_HEAP_MAX"
    using B b D(8) by (auto simp: run_end_def run_ok_def)
  have "kfree (bulk_start b) s = Inr (s4\<lparr>kheap_lock := False\<rparr>)"
    using g st find_run [OF inv b] b s1(1) V s2(1) s3(1) s4(1) l(1) lock
    by (simp add: kfree_def Let_def remove_bulk_def)
  then show ?thesis using s4(2) l(2) by simp
qed

section \<open>A freshly booted heap\<close>

text \<open>
  A state for the witnesses: forty page tables for the heap region, four free frames, the
  block region uncarved, no run of pages.
\<close>

definition boot_kmem :: kmem where
  "boot_kmem =
    \<lparr>frames_info = (\<lambda>_. zero_frame_info), number_of_frames = 65536, free_frame_list = [200, 201, 202, 203],
     modified_frame_list = [], mfllock = False,
     directories = (\<lambda>_ i. CONSTRUCT_ENTRY (i * 4096) (PERM_PRESENT OR PERM_WRITEABLE)), tables = (\<lambda>_ _. 0),
     ptr_page_directory = 0xF0100000,
     da = \<lparr>freeBlockLists = (\<lambda>_. []), freePagesList = [0..<8192],
       pageBlockInfoArr = (\<lambda>_. \<lparr>block_size = 0, num_of_free_blocks = 0\<rparr>),
       dynAllocStart = KERNEL_HEAP_START, dynAllocEnd = KERNEL_HEAP_START + DYN_ALLOC_MAX_SIZE, is_initialized = True\<rparr>,
     kheap_lock = False, kheapPageAllocStart = PAGES_START, kheapPageAllocBreak = PAGES_START,
     kheapPlacementStrategy = KHP_PLACE_CUSTOMFIT, bulks = [], bulks_allocated = []\<rparr>"

lemma boot_kernel_tables: "kernel_tables boot_kmem"
  by (rule static_kernel_tables) (simp_all add: boot_kmem_def)

lemma boot_heap_inv: "heap_inv boot_kmem" "\<not> kheap_lock boot_kmem"
proof -
  have "\<not> kmapped boot_kmem v" "heap_page_ok boot_kmem v" for v
    by (simp_all add: kmapped_def kpte_def boot_kmem_def heap_page_ok_def)
  moreover have "frame_lists_ok boot_kmem" by (simp add: frame_lists_ok_def boot_kmem_def zero_frame_info_def)
  moreover have "da_inv (da boot_kmem)"
    by (simp add: da_inv_def da_layout_def da_pages_def da_blocks_def num_pages_def boot_kmem_def)
  ultimately show "heap_inv boot_kmem"
    using boot_kernel_tables
    by (simp add: heap_inv_def heap_core_def kmap_inv_def heap_mapping_ok_def block_region_ok_def nodes_ok_def
        page_map_ok_def tiles_def coalesced_def)
      (simp add: boot_kmem_def)
  show "\<not> kheap_lock boot_kmem" by (simp add: boot_kmem_def)
qed

section \<open>Claims\<close>

lemma run_added_facts:
  assumes "run_added p n s s'"
  shows "p mod 4096 = 0" "PAGES_START \<le> p" "p + n * 4096 \<le> KERNEL_HEAP_MAX"
    "\<forall>v. heap_page v \<longrightarrow> p \<le> v \<longrightarrow> v < p + n * 4096 \<longrightarrow> kmapped s' v"
    "\<forall>c \<in> set (bulks_allocated s). {p ..< p + n * 4096} \<inter> ext c = {}"
    "\<exists>b. bulks_allocated s' = \<lparr>bulk_addr = b, bulk_start = p, bulk_size = n * 4096\<rparr> # bulks_allocated s"
proof -
  obtain b where inv: "heap_inv s'" and p: "PAGES_START \<le> p"
    and A: "bulks_allocated s' = \<lparr>bulk_addr = b, bulk_start = p, bulk_size = n * 4096\<rparr> # bulks_allocated s"
    using assms by (auto simp: run_added_def)
  let ?b = "\<lparr>bulk_addr = b, bulk_start = p, bulk_size = n * 4096\<rparr>"
  note B = heap_run_bounds [OF inv, of ?b] and D = heap_invD [OF inv]
  have e: "ext ?b = {p ..< p + n * 4096}" by (simp add: ext_def run_end_def)
  show "p mod 4096 = 0" "PAGES_START \<le> p" "p + n * 4096 \<le> KERNEL_HEAP_MAX"
    using B A p D(8) by (auto simp: run_ok_def run_end_def)
  have "page_map_ok (set (bulks_allocated s')) s'" using inv by (simp add: heap_inv_def heap_core_def)
  then show "\<forall>v. heap_page v \<longrightarrow> p \<le> v \<longrightarrow> v < p + n * 4096 \<longrightarrow> kmapped s' v"
    using p A e by (auto simp: page_map_ok_def block_page_def)
  show "\<forall>c \<in> set (bulks_allocated s). {p ..< p + n * 4096} \<inter> ext c = {}"
  proof
    fix c assume c: "c \<in> set (bulks_allocated s)"
    have "bulk_addr ?b \<notin> bulk_addr ` set (bulks_allocated s)" using D(3) by (simp add: A)
    then have "?b \<noteq> c" using c by blast
    then show "{p ..< p + n * 4096} \<inter> ext c = {}"
      using D(1) c A unfolding tiles_def e [symmetric] by (metis UnCI list.set_intros(1,2))
  qed
  show "\<exists>b. bulks_allocated s' = \<lparr>bulk_addr = b, bulk_start = p, bulk_size = n * 4096\<rparr> # bulks_allocated s"
    using A by blast
qed

text \<open>
  C1. \<open>kmalloc\<close> keeps the heap invariant and releases the lock. A small request gets a block
  that was free and is large enough; a large one gets a page-aligned run of mapped pages that
  overlaps no allocated run, or \<open>NULL\<close>, exactly when no free run is large enough and the region
  above the break is too small. The size is positive and not within a page of 4 GB.
\<close>

theorem kmalloc_correct:
  assumes "heap_inv s" and "\<not> kheap_lock s" and "0 < sz" and "sz + PAGE_SIZE < U32"
    and "kmalloc sz s = Inr (p, s')"
  shows "heap_inv s' \<and> \<not> kheap_lock s' \<and>
    (if sz \<le> DYN_ALLOC_MAX_BLOCK_SIZE
     then p \<notin> allocated (da s) \<and> allocated (da s') = insert p (allocated (da s)) \<and> sz \<le> get_block_size p (da s') \<and>
          bulks_allocated s' = bulks_allocated s
     else if no_room (ROUNDUP sz PAGE_SIZE) s then p = 0 \<and> s' = s
     else p mod PAGE_SIZE = 0 \<and> PAGES_START \<le> p \<and> p + ROUNDUP sz PAGE_SIZE \<le> KERNEL_HEAP_MAX \<and>
          (\<forall>v. heap_page v \<longrightarrow> p \<le> v \<longrightarrow> v < p + ROUNDUP sz PAGE_SIZE \<longrightarrow> kmapped s' v) \<and>
          (\<forall>c \<in> set (bulks_allocated s). {p ..< p + ROUNDUP sz PAGE_SIZE} \<inter> ext c = {}) \<and>
          (\<exists>b. bulks_allocated s' = \<lparr>bulk_addr = b, bulk_start = p, bulk_size = ROUNDUP sz PAGE_SIZE\<rparr> # bulks_allocated s))"
proof (cases "sz \<le> 2048")
  case True
  then show ?thesis using kmalloc_block [OF assms(1-3) True] assms(5) by (simp add: block_added_def)
next
  case False
  obtain n where n: "0 < n" "ROUNDUP sz 4096 = n * 4096" using ROUNDUP_pages [OF assms(3,4)] by blast
  have r: "if no_room (n * 4096) s then p = 0 \<and> s' = s else run_added p n s s'"
    using kmalloc_pages [OF assms(1,2) _ n] False assms(5) by simp
  show ?thesis
  proof (cases "no_room (n * 4096) s")
    case True
    then show ?thesis using r assms(1,2) False by (simp add: n)
  next
    case nr: False
    then have a: "run_added p n s s'" using r by simp
    then have "heap_inv s' \<and> \<not> kheap_lock s'" using assms(2) by (simp add: run_added_def)
    then show ?thesis using run_added_facts [OF a] False nr by (simp add: n)
  qed
qed

lemma boot_kmalloc: "\<exists>p s'. kmalloc 5000 boot_kmem = Inr (p, s')"
proof -
  have r: "ROUNDUP 5000 4096 = 2 * 4096" by (simp add: ROUNDUP_def ROUNDDOWN_def add32_def sub32_def)
  have "\<not> alloc_fails e 2 boot_kmem" for e by (simp add: alloc_fails_def boot_kmem_def)
  then show ?thesis
    using kmalloc_pages [OF boot_heap_inv _ _ r] by (cases "kmalloc 5000 boot_kmem") auto
qed

theorem kmalloc_correct_witness:
  "\<exists>p s'. kmalloc 5000 boot_kmem = Inr (p, s') \<and> heap_inv s' \<and> PAGES_START \<le> p \<and> kmapped s' p"
proof -
  obtain p s' where k: "kmalloc 5000 boot_kmem = Inr (p, s')" using boot_kmalloc by blast
  have "\<not> no_room (ROUNDUP 5000 4096) boot_kmem"
    by (simp add: no_room_def boot_kmem_def ROUNDUP_def ROUNDDOWN_def add32_def sub32_def)
  moreover have "ROUNDUP 5000 4096 = 8192" by (simp add: ROUNDUP_def ROUNDDOWN_def add32_def sub32_def)
  ultimately show ?thesis
    using kmalloc_correct [OF boot_heap_inv _ _ k] k by (auto simp: heap_page_def)
qed

text \<open>
  C27. \<open>kmalloc\<close> fails only with one of the two panics for exhausted memory: no frame is left for
  the pages of the request and one more, or no page of the block region is left. It never trips
  over the heap lock, a broken list or a null pointer.
\<close>

theorem kmalloc_failures:
  assumes "heap_inv s" and "\<not> kheap_lock s" and "sz + PAGE_SIZE < U32" and "kmalloc sz s = Inl e"
  shows "e = Panic ''ERROR: Kernel run out of memory... allocate_frame cannot find a free frame.'' \<and>
           length (free_frame_list s) \<le> ROUNDUP sz PAGE_SIZE div PAGE_SIZE \<or>
         e = Panic ''alloc_block() is out of free pages and blocks'' \<and> freePagesList (da s) = []"
proof -
  have pos: "0 < sz" using assms(2,4) by (cases "sz = 0") (simp_all add: kmalloc_def)
  obtain n where n: "0 < n" "ROUNDUP sz 4096 = n * 4096" using ROUNDUP_pages [OF pos assms(3)] by blast
  show ?thesis
  proof (cases "sz \<le> 2048")
    case True
    then show ?thesis using kmalloc_block [OF assms(1,2) pos True] assms(4) by (auto simp: alloc_fails_def)
  next
    case False
    then show ?thesis using kmalloc_pages [OF assms(1,2) _ n] assms(4) n by (auto simp: alloc_fails_def)
  qed
qed

definition starved_kmem :: kmem where
  "starved_kmem = boot_kmem\<lparr>free_frame_list := []\<rparr>"

lemma starved_inv: "heap_inv starved_kmem" "\<not> kheap_lock starved_kmem"
proof -
  have k: "kernel_tables starved_kmem"
    using boot_kernel_tables kernel_tables_cong [of starved_kmem boot_kmem] by (simp add: starved_kmem_def)
  have "frame_lists_ok starved_kmem" by (simp add: frame_lists_ok_def starved_kmem_def boot_kmem_def)
  moreover have "\<not> kmapped starved_kmem v" "heap_page_ok starved_kmem v" for v
    by (simp_all add: kmapped_def kpte_def starved_kmem_def boot_kmem_def heap_page_ok_def)
  ultimately show "heap_inv starved_kmem"
    using boot_heap_inv(1) k
    by (simp add: heap_inv_def heap_core_def kmap_inv_def heap_mapping_ok_def block_region_ok_def nodes_ok_def page_map_ok_def)
      (simp add: starved_kmem_def boot_kmem_def)
  show "\<not> kheap_lock starved_kmem" using boot_heap_inv(2) by (simp add: starved_kmem_def)
qed

theorem kmalloc_failures_witness:
  "\<exists>e. kmalloc 5000 starved_kmem = Inl e \<and>
     e = Panic ''ERROR: Kernel run out of memory... allocate_frame cannot find a free frame.''"
proof -
  have "\<exists>e. kmalloc 5000 starved_kmem = Inl e"
    using allocate_frame_eq [of starved_kmem] starved_inv
    by (simp add: kmalloc_def ROUNDUP_def ROUNDDOWN_def add32_def sub32_def page_alloc_custom_fit_def starved_kmem_def
        boot_kmem_def map_break_loop.simps [of 3] allocate_frame_def)
  then obtain e where e: "kmalloc 5000 starved_kmem = Inl e" by blast
  from kmalloc_failures [OF starved_inv _ e] e show ?thesis
    by (auto simp: starved_kmem_def boot_kmem_def)
qed

text \<open>
  C3. Releasing an allocated run always succeeds: the run leaves the list of allocated runs, none
  of its pages stays mapped, the lock is released and the invariant holds again, so that the
  free runs are again sorted, disjoint, not adjacent to each other and below the break.
\<close>

theorem kfree_run_correct:
  assumes "heap_inv s" and "\<not> kheap_lock s" and "b \<in> set (bulks_allocated s)"
  shows "\<exists>s'. kfree (bulk_start b) s = Inr s' \<and> heap_inv s' \<and> \<not> kheap_lock s' \<and>
           bulks_allocated s' = remove1 b (bulks_allocated s) \<and>
           (\<forall>v. heap_page v \<longrightarrow> v \<in> ext b \<longrightarrow> \<not> kmapped s' v)"
proof -
  obtain s' where s': "kfree (bulk_start b) s = Inr s'" "heap_inv s'" "\<not> kheap_lock s'"
      "bulks_allocated s' = remove1 b (bulks_allocated s)"
    using kfree_run [OF assms] by blast
  note D = heap_invD [OF assms(1)]
  have "\<not> kmapped s' v" if v: "heap_page v" "v \<in> ext b" for v
  proof -
    have "v \<notin> ext c" if "c \<in> set (bulks_allocated s')" for c
      using that v(2) D(1) assms(3) set_remove1_addr [OF D(3)] unfolding tiles_def s'(4)
      by (metis DiffE IntI Un_iff empty_iff insertI1)
    moreover have "\<not> block_page v"
      using v(2) heap_run_bounds(2) [OF assms(1), of b] assms(3) by (auto simp: block_page_def ext_def)
    ultimately show ?thesis using s'(2) v(1) by (auto simp: heap_inv_def heap_core_def page_map_ok_def)
  qed
  with s' show ?thesis by blast
qed

theorem kfree_run_correct_witness:
  "\<exists>p s1 s2. kmalloc 5000 boot_kmem = Inr (p, s1) \<and> kfree p s1 = Inr s2 \<and> heap_inv s2 \<and> bulks_allocated s2 = []"
proof -
  have r: "ROUNDUP 5000 4096 = 2 * 4096" by (simp add: ROUNDUP_def ROUNDDOWN_def add32_def sub32_def)
  obtain p s1 where k: "kmalloc 5000 boot_kmem = Inr (p, s1)" using boot_kmalloc by blast
  have "\<not> no_room (2 * 4096) boot_kmem" by (simp add: no_room_def boot_kmem_def)
  then have "run_added p 2 boot_kmem s1" using kmalloc_pages [OF boot_heap_inv _ _ r] k by simp
  then obtain b where "heap_inv s1" "\<not> kheap_lock s1"
      "bulks_allocated s1 = [\<lparr>bulk_addr = b, bulk_start = p, bulk_size = 2 * 4096\<rparr>]"
    by (auto simp: run_added_def boot_kmem_def)
  with kfree_run_correct [of s1 "\<lparr>bulk_addr = b, bulk_start = p, bulk_size = 2 * 4096\<rparr>"] k show ?thesis by auto
qed

lemma kfree_small_block:
  assumes "heap_inv s" "\<not> kheap_lock s" "p \<in> allocated (da s)"
    "p \<notin> bulk_addr ` (set (bulks s) \<union> set (bulks_allocated s))"
  shows "\<exists>s'. kfree p s = Inr s' \<and> heap_inv s' \<and> \<not> kheap_lock s' \<and>
           allocated (da s') = allocated (da s) - {p} \<and> bulks_allocated s' = bulks_allocated s"
proof -
  let ?s = "s\<lparr>kheap_lock := True\<rparr>"
  have c: "heap_core {PAGES_START ..< kheapPageAllocBreak s} ?s" using assms(1) by (simp add: heap_inv_def heap_core_def)
  obtain s1 where s1: "kfree_block p ?s = Inr s1" "heap_core {PAGES_START ..< kheapPageAllocBreak s} s1"
      "kheap_rest s1 = kheap_rest ?s" "allocated (da s1) = allocated (da s) - {p}"
    using kfree_block_heap [OF c, of p] assms(3,4) by auto
  note R = kheap_restD [OF s1(3)]
  have "heap_inv s1" using s1(2) R assms(1) by (simp add: heap_inv_def)
  moreover have "KERNEL_HEAP_START \<le> p" "p < KERNEL_HEAP_START + DYN_ALLOC_MAX_SIZE"
    using assms(1,3) by (auto simp: heap_inv_def heap_core_def block_region_ok_def allocated_def)
  ultimately show ?thesis using s1 R assms(2) by (simp add: kfree_def Let_def)
qed

text \<open>
  C26. Releasing an allocated block (that is not the descriptor of a run) always succeeds: exactly
  this block is no longer allocated, the lock is released and the heap invariant holds again.
\<close>

theorem kfree_block_correct:
  assumes "heap_inv s" and "\<not> kheap_lock s" and "p \<in> allocated (da s)"
    and "p \<notin> bulk_addr ` (set (bulks s) \<union> set (bulks_allocated s))"
  shows "\<exists>s'. kfree p s = Inr s' \<and> heap_inv s' \<and> \<not> kheap_lock s' \<and>
           allocated (da s') = allocated (da s) - {p} \<and> bulks_allocated s' = bulks_allocated s"
  using assms by (rule kfree_small_block)

theorem kfree_block_correct_witness:
  "\<exists>p s1 s2. kmalloc 100 boot_kmem = Inr (p, s1) \<and> kfree p s1 = Inr s2 \<and> heap_inv s2 \<and> p \<notin> allocated (da s2)"
proof -
  have nf: "\<not> alloc_fails e 0 boot_kmem" for e by (simp add: alloc_fails_def boot_kmem_def)
  obtain p s1 where k: "kmalloc 100 boot_kmem = Inr (p, s1)" "heap_inv s1" "\<not> kheap_lock s1" "p \<in> allocated (da s1)"
      "bulks s1 = []" "bulks_allocated s1 = []"
    using kmalloc_block [OF boot_heap_inv, of 100] nf
    by (cases "kmalloc 100 boot_kmem") (auto simp: block_added_def boot_kmem_def)
  with kfree_block_correct [of s1 p] show ?thesis by auto
qed

text \<open>
  An address in the guard page between the block region and the page region makes \<open>kfree\<close>
  return with the heap lock held: every later \<open>kmalloc\<close> and \<open>kfree\<close> panics.
\<close>

lemma kfree_gap_keeps_lock:
  assumes "heap_inv s" and "\<not> kheap_lock s"
    and "KERNEL_HEAP_START + DYN_ALLOC_MAX_SIZE \<le> va" and "va < PAGES_START"
  shows "\<exists>s'. kfree va s = Inr s' \<and> kheap_lock s' \<and>
           (\<forall>sz. kmalloc sz s' = Inl (Panic ''acquire_spinlock: lock is already held by the same CPU.'')) \<and>
           (\<forall>v. kfree v s' = Inl (Panic ''acquire_spinlock: lock is already held by the same CPU.''))"
proof -
  have "kheapPageAllocStart s = PAGES_START" using assms(1) by (simp add: heap_inv_def heap_core_def)
  then have "kfree va s = Inr (s\<lparr>kheap_lock := True\<rparr>)"
    using assms(2-4) by (simp add: kfree_def Let_def)
  then show ?thesis by (simp add: kmalloc_def kfree_def lock_acquire_def)
qed

lemma kfree_gap_keeps_lock_witness:
  "\<exists>s'. kfree 0xF8000000 boot_kmem = Inr s' \<and>
     kmalloc 8 s' = Inl (Panic ''acquire_spinlock: lock is already held by the same CPU.'')"
  using kfree_gap_keeps_lock [OF boot_heap_inv, of "0xF8000000"] by auto

text \<open>
  A request of more than \<open>0xFFFFF000\<close> bytes wraps to zero when it is rounded up: on a heap
  without free runs \<open>kmalloc\<close> then returns the break, which is not \<open>NULL\<close>, with no page mapped
  there, and does not move the break.
\<close>

lemma kmalloc_rounding_wraps:
  assumes "heap_inv s" and "\<not> kheap_lock s" and "bulks s = []" and "0xFFFFF000 < sz" and "sz < U32"
    and "kmalloc sz s = Inr (p, s')"
  shows "ROUNDUP sz PAGE_SIZE = 0 \<and> p = kheapPageAllocBreak s \<and> p \<noteq> 0 \<and> kheapPageAllocBreak s' = p \<and>
         (\<forall>v. heap_page v \<longrightarrow> \<not> block_page v \<longrightarrow> kmapped s' v = kmapped s v)"
proof -
  let ?s = "s\<lparr>kheap_lock := True\<rparr>" and ?k = "kheapPageAllocBreak s"
  have "add32 sz 4096 = sz + 4096 - U32" using assms(4,5) by (simp add: add32_def mod_if)
  then have r: "ROUNDUP sz PAGE_SIZE = 0"
    using assms(4,5) by (simp add: ROUNDUP_def sub32_exact ROUNDDOWN_def)
  have core: "heap_core {PAGES_START ..< ?k} ?s" using assms(1) by (simp add: heap_inv_def heap_core_def)
  have st: "kheapPageAllocStart s = PAGES_START" and k: "PAGES_START \<le> ?k" "?k \<le> KERNEL_HEAP_MAX"
    using core by (simp_all add: heap_core_def)
  have "page_alloc_custom_fit 0 ?s = andThen (push_allocated ?k 0 ?s)
      (\<lambda>s. Inr (?k, s\<lparr>kheapPageAllocBreak := add32 (kheapPageAllocBreak s) 0\<rparr>))"
    using st k assms(3)
    by (simp add: page_alloc_custom_fit_def Let_def map_break_loop.simps [of "Suc 0"] add32_def)
  then obtain s1 where s1: "push_allocated ?k 0 ?s = Inr s1" "p = ?k"
      "s' = s1\<lparr>kheapPageAllocBreak := add32 (kheapPageAllocBreak s1) 0, kheap_lock := False\<rparr>"
    using assms(2,4,6) r by (auto simp: kmalloc_def res_simps)
  then obtain b s2 where s2: "kalloc_block 16 ?s = Inr (b, s2)"
      "s1 = s2\<lparr>bulks_allocated := \<lparr>bulk_addr = b, bulk_start = ?k, bulk_size = 0\<rparr> # bulks_allocated s2\<rparr>"
    by (auto simp: push_allocated_def res_simps split: if_splits)
  have i: "kmap_inv ?s" "block_region_ok ?s" using core by (simp_all add: heap_core_def)
  have "blocks_only ?s s2" using kalloc_block_ok [OF i _ s2(1)] by simp
  then have m: "kheapPageAllocBreak s2 = ?k" "\<forall>v. heap_page v \<longrightarrow> \<not> block_page v \<longrightarrow> kmapped s2 v = kmapped s v"
    by (simp_all add: blocks_only_def kheap_rest_def)
  then show ?thesis using r s1 s2 k by (simp add: add32_def)
qed

lemma kmalloc_rounding_wraps_witness:
  "\<exists>p s'. kmalloc 0xFFFFFFFF boot_kmem = Inr (p, s') \<and> p = PAGES_START"
proof -
  let ?s = "boot_kmem\<lparr>kheap_lock := True\<rparr>"
  have core: "heap_core {PAGES_START ..< kheapPageAllocBreak boot_kmem} ?s"
    using boot_heap_inv(1) by (simp add: heap_inv_def heap_core_def)
  then have i: "kmap_inv ?s" "block_region_ok ?s" by (simp_all add: heap_core_def)
  obtain b s2 where b: "kalloc_block 16 ?s = Inr (b, s2)"
    using kalloc_descriptor [OF i] by (auto simp: boot_kmem_def)
  have a: "b \<in> allocated (da s2)" "dynAllocStart (da s2) = KERNEL_HEAP_START" "kheap_lock s2"
    using kalloc_block_ok [OF i _ b] by (auto simp: block_added_def block_region_ok_def blocks_only_def kheap_rest_def)
  then have "b \<noteq> 0" by (auto simp: allocated_def)
  then have "\<exists>p s'. kmalloc 0xFFFFFFFF boot_kmem = Inr (p, s')"
    using b a(3)
    by (simp add: kmalloc_def ROUNDUP_def ROUNDDOWN_def add32_def sub32_def page_alloc_custom_fit_def push_allocated_def Let_def)
      (simp add: boot_kmem_def map_break_loop.simps [of "Suc 0"] push_allocated_def add32_def)
  then obtain p s' where "kmalloc 0xFFFFFFFF boot_kmem = Inr (p, s')" by blast
  with kmalloc_rounding_wraps [OF boot_heap_inv _ _ _ this] show ?thesis by (simp add: boot_kmem_def)
qed

text \<open>The page table walk looks at the page of an address only.\<close>

lemma page_index_offset:
  assumes "pg mod 4096 = 0" "d < 4096"
  shows "PDX (pg + d) = PDX pg" "PTX (pg + d) = PTX pg"
proof -
  have "(pg + d) div 4096 = pg div 4096" using assms by (simp add: div_add1_eq)
  then show "PTX (pg + d) = PTX pg" by (simp add: PTX_def)
  have "(pg + d) div 4096 div 1024 = pg div 4096 div 1024" using \<open>(pg + d) div 4096 = pg div 4096\<close> by simp
  then show "PDX (pg + d) = PDX pg" by (simp add: PDX_def div_mult2_eq [symmetric])
qed

lemma walk_offset:
  assumes "heap_page pg" "d < 4096"
  shows "get_page_table dir (pg + d) s = get_page_table dir pg s"
proof -
  have "CHECK_IF_KERNEL_ADDRESS (pg + d)" "CHECK_IF_KERNEL_ADDRESS pg"
    using assms by (simp_all add: CHECK_IF_KERNEL_ADDRESS_def heap_page_def)
  then show ?thesis
    using page_index_offset(1) [OF heap_page_bounds(1) [OF assms(1)] assms(2)] by (simp add: get_page_table_def Let_def)
qed

lemma kheap_translate:
  assumes "heap_inv s" and "\<not> kheap_lock s" and "heap_page pg" and "kmapped s pg" and "d < PAGE_SIZE"
    and "in_heap_region pg s"
  shows "kheap_physical_address (pg + d) s = Inr (kframe s pg * PAGE_SIZE + d) \<and>
         kheap_virtual_address (kframe s pg * PAGE_SIZE + d) s = Inr (pg + d)"
proof -
  have kt: "kernel_tables s" and pg: "heap_page_ok s pg"
    using assms(1,3) by (auto simp: heap_inv_def heap_core_def kmap_inv_def heap_mapping_ok_def)
  have f: "kframe s pg < number_of_frames s" "fi_va (frames_info s (kframe s pg)) = pg"
      "EXTRACT_ADDRESS (kpte s pg) = kframe s pg * 4096"
    using pg assms(4) by (auto simp: heap_page_ok_def)
  have nf: "kframe s pg < 65536" using f(1) kt by (simp add: kernel_tables_def)
  have r: "dynAllocStart (da s) = KERNEL_HEAP_START" "dynAllocEnd (da s) = KERNEL_HEAP_START + DYN_ALLOC_MAX_SIZE"
      "kheapPageAllocStart s = PAGES_START"
    using assms(1) by (auto simp: heap_inv_def heap_core_def block_region_ok_def)
  have a: "pg mod 4096 = 0" "pg < KERNEL_HEAP_MAX" "0 < pg" using assms(3) by (auto simp: heap_page_def)
  obtain q where q: "pg = 4096 * q" using a(1) by (metis mod_0_imp_dvd dvdE)
  have "pg + 4096 \<le> KERNEL_HEAP_START + DYN_ALLOC_MAX_SIZE" if "pg < KERNEL_HEAP_START + DYN_ALLOC_MAX_SIZE"
    using that by (simp add: q)
  moreover have "pg + 4096 \<le> KERNEL_HEAP_MAX" using a(2) by (simp add: q)
  ultimately have rg: "in_heap_region (pg + d) s" "pg + d < U32"
    using assms(5,6) by (auto simp: in_heap_region_def r)
  have "tables s (ktable s pg) (PTX (pg + d)) = kpte s pg"
    using page_index_offset(2) [OF a(1) assms(5)] by (simp add: kpte_def)
  then have p: "kheap_physical_address (pg + d) s = Inr (kframe s pg * 4096 + d)"
    using assms(2,4,5) rg k_get_page_table [OF kt assms(3)] walk_offset [OF assms(3,5)] a(1) nf
    by (simp add: kheap_physical_address_def EXTRACT_mask f(3) kmapped_def add32_exact mod_add_eq [symmetric, of pg d])
  have "PPN (kframe s pg * 4096 + d) = kframe s pg" using assms(5) by (simp add: PPN_def)
  then have "kheap_virtual_address (kframe s pg * 4096 + d) s = Inr (pg + d)"
    using assms(2,5,6) f rg(2) a(3) by (simp add: kheap_virtual_address_def to_frame_info_def add32_exact Let_def)
  with p show ?thesis by simp
qed

text \<open>
  On a mapped page of the heap the two translations are inverse: \<open>kheap_physical_address\<close>
  gives a frame address with the same offset, and \<open>kheap_virtual_address\<close> leads back.
\<close>

lemma kheap_address_round_trip:
  assumes "heap_inv s" and "\<not> kheap_lock s" and "heap_page pg" and "kmapped s pg" and "d < PAGE_SIZE"
    and "in_heap_region pg s"
  shows "kheap_physical_address (pg + d) s = Inr (kframe s pg * PAGE_SIZE + d) \<and>
         kheap_virtual_address (kframe s pg * PAGE_SIZE + d) s = Inr (pg + d)"
  using assms by (rule kheap_translate)

lemma kheap_address_round_trip_witness:
  "\<exists>p s'. kmalloc 5000 boot_kmem = Inr (p, s') \<and>
     kheap_physical_address (p + 7) s' = Inr (kframe s' p * PAGE_SIZE + 7) \<and>
     kheap_virtual_address (kframe s' p * PAGE_SIZE + 7) s' = Inr (p + 7)"
proof -
  have r: "ROUNDUP 5000 4096 = 2 * 4096" by (simp add: ROUNDUP_def ROUNDDOWN_def add32_def sub32_def)
  obtain p s1 where k: "kmalloc 5000 boot_kmem = Inr (p, s1)" using boot_kmalloc by blast
  have "\<not> no_room (2 * 4096) boot_kmem" by (simp add: no_room_def boot_kmem_def)
  then have a: "run_added p 2 boot_kmem s1" using kmalloc_pages [OF boot_heap_inv _ _ r] k by simp
  then have i: "heap_inv s1" "\<not> kheap_lock s1" by (auto simp: run_added_def boot_kmem_def)
  have h: "heap_page p" "kmapped s1 p" "in_heap_region p s1"
    using run_added_facts [OF a] i(1) by (auto simp: heap_page_def in_heap_region_def heap_inv_def heap_core_def)
  show ?thesis using kheap_address_round_trip [OF i h(1,2) _ h(3), of 7] k by auto
qed

text \<open>
  \<open>kheap_init\<close> on a machine with its page tables set up and no heap page mapped establishes
  the heap invariant with an empty heap; it leaves the page tables and the free frames.
\<close>

lemma kheap_init_correct:
  assumes "kmap_inv s" and "\<forall>v. heap_page v \<longrightarrow> \<not> kmapped s v" and "bulks s = []" and "bulks_allocated s = []"
  shows "\<exists>s'. kheap_init s = Inr s' \<and> heap_inv s' \<and> \<not> kheap_lock s' \<and> allocated (da s') = {} \<and>
           kheapPageAllocStart s' = KERNEL_HEAP_START + DYN_ALLOC_MAX_SIZE + PAGE_SIZE \<and>
           kheapPageAllocBreak s' = kheapPageAllocStart s' \<and>
           free_frame_list s' = free_frame_list s \<and> kpte s' = kpte s"
proof -
  obtain d where d: "initialize_dynamic_allocator KERNEL_HEAP_START (KERNEL_HEAP_START + DYN_ALLOC_MAX_SIZE) (da s) = Inr d"
      "da_inv d" "allocated d = {}" "freePagesList d = [0..<8192]"
      "dynAllocStart d = KERNEL_HEAP_START" "dynAllocEnd d = KERNEL_HEAP_START + DYN_ALLOC_MAX_SIZE"
    using initialize_inv [of KERNEL_HEAP_START "KERNEL_HEAP_START + DYN_ALLOC_MAX_SIZE" 8192 "da s"] by auto
  let ?s = "s\<lparr>kheap_lock := False, da := d, kheapPlacementStrategy := KHP_PLACE_CUSTOMFIT,
    kheapPageAllocStart := PAGES_START, kheapPageAllocBreak := PAGES_START\<rparr>"
  have e: "kheap_init s = Inr ?s" using d by (simp add: kheap_init_def Let_def add32_def)
  have k: "kmap_inv ?s = kmap_inv s" "kmapped ?s = kmapped s"
    by (simp_all add: kmapped_def kpte_def ktable_def kpde_def fun_eq_iff kmap_inv_def kernel_tables_def
      frame_lists_ok_def heap_mapping_ok_def heap_page_ok_def kframe_def)
  have "block_region_ok ?s" using d by (simp add: block_region_ok_def)
  then have "heap_inv ?s"
    using assms k by (simp add: heap_inv_def heap_core_def nodes_ok_def page_map_ok_def tiles_def coalesced_def)
  moreover have "kpte ?s = kpte s" by (simp add: kpte_def ktable_def kpde_def fun_eq_iff)
  ultimately show ?thesis using e d(3) by simp
qed

lemma virtual_address_frame [simp]:
  "kheap_virtual_address pa (set_dir_entry d i e s) = kheap_virtual_address pa s"
  "kheap_virtual_address pa (s\<lparr>tables := t\<rparr>) = kheap_virtual_address pa s"
  by (simp_all add: kheap_virtual_address_def to_frame_info_def in_heap_region_def set_dir_entry_def)

text \<open>
  A table that \<open>create_page_table\<close> makes for a user address is the one the page table walk
  finds afterwards, all its entries are zero, and it is a page of its own on the kernel heap.
\<close>

lemma create_page_table_found:
  assumes "heap_inv s" and "\<not> kheap_lock s" and "va < USER_TOP" and "create_page_table dir va s = Inr (t, s')"
  shows "get_page_table dir va s' = Inr (TABLE_IN_MEMORY, t) \<and> (\<forall>i. tables s' t i = 0) \<and>
         (\<forall>c \<in> set (bulks_allocated s). {t ..< t + PAGE_SIZE} \<inter> ext c = {})"
proof -
  obtain s1 pa where k: "kmalloc 4096 s = Inr (t, s1)" "t \<noteq> 0" "kheap_physical_address t s1 = Inr pa"
    and s': "s' = (set_dir_entry dir (PDX va) (CONSTRUCT_ENTRY pa (PERM_PRESENT OR PERM_USER OR PERM_WRITEABLE)) s1)
        \<lparr>tables := (tables s1)(t := (\<lambda>_. 0))\<rparr>"
    using assms(4) by (auto simp: create_page_table_def res_simps set_dir_entry_def split: if_splits)
  have r: "ROUNDUP 4096 4096 = 1 * 4096" by (simp add: ROUNDUP_def ROUNDDOWN_def add32_def sub32_def)
  have a: "run_added t 1 s s1"
    using kmalloc_pages [OF assms(1,2) _ _ r] k(1,2) by (auto split: if_splits)
  note A = run_added_facts [OF a]
  have i: "heap_inv s1" "\<not> kheap_lock s1" using a assms(2) by (auto simp: run_added_def)
  have h: "heap_page t" "kmapped s1 t" "in_heap_region t s1"
    using A i(1) by (auto simp: heap_page_def in_heap_region_def heap_inv_def heap_core_def)
  have T: "kheap_physical_address t s1 = Inr (kframe s1 t * 4096)" "kheap_virtual_address (kframe s1 t * 4096) s1 = Inr t"
    using kheap_translate [OF i h(1,2) _ h(3), of 0] by auto
  have pa: "pa = kframe s1 t * 4096" using T(1) k(3) by simp
  have "kframe s1 t < number_of_frames s1" "number_of_frames s1 \<le> 65536"
    using i(1) h(1,2) by (auto simp: heap_inv_def heap_core_def kmap_inv_def heap_mapping_ok_def heap_page_ok_def kernel_tables_def)
  then have f: "kframe s1 t < 1048576" by simp
  let ?e = "CONSTRUCT_ENTRY pa (PERM_PRESENT OR PERM_USER OR PERM_WRITEABLE)"
  have e: "EXTRACT_ADDRESS ?e = pa" "?e AND PERM_PRESENT = PERM_PRESENT"
    using EXTRACT_CONSTRUCT [OF f, of "PERM_PRESENT OR PERM_USER OR PERM_WRITEABLE"]
      CONSTRUCT_PRESENT [of pa PERM_USER PERM_WRITEABLE] pa by (simp_all add: or.commute)
  have "directories s' dir (PDX va) = ?e" by (simp add: s' set_dir_entry_def)
  moreover have "kheap_virtual_address pa s' = Inr t" using T(2) pa by (simp add: s')
  moreover have "\<not> CHECK_IF_KERNEL_ADDRESS va" using assms(3) by (simp add: CHECK_IF_KERNEL_ADDRESS_def)
  ultimately have "get_page_table dir va s' = Inr (TABLE_IN_MEMORY, t)"
    using e by (simp add: get_page_table_def Let_def)
  then show ?thesis using A(5) by (simp add: s')
qed

lemma create_page_table_found_witness:
  "\<exists>t s'. create_page_table 0x1000 0x80000000 boot_kmem = Inr (t, s') \<and>
     get_page_table 0x1000 0x80000000 s' = Inr (TABLE_IN_MEMORY, t)"
proof -
  have r: "ROUNDUP 4096 4096 = 1 * 4096" by (simp add: ROUNDUP_def ROUNDDOWN_def add32_def sub32_def)
  have nf: "\<not> alloc_fails e 1 boot_kmem" "\<not> no_room (1 * 4096) boot_kmem" for e
    by (simp_all add: alloc_fails_def no_room_def boot_kmem_def)
  obtain t s1 where k: "kmalloc 4096 boot_kmem = Inr (t, s1)" and a: "run_added t 1 boot_kmem s1"
    using kmalloc_pages [OF boot_heap_inv _ _ r] nf by (cases "kmalloc 4096 boot_kmem") auto
  note A = run_added_facts [OF a]
  have i: "heap_inv s1" "\<not> kheap_lock s1" using a boot_heap_inv(2) by (auto simp: run_added_def)
  have h: "heap_page t" "kmapped s1 t" "in_heap_region t s1"
    using A i(1) by (auto simp: heap_page_def in_heap_region_def heap_inv_def heap_core_def)
  have "\<exists>s'. create_page_table 0x1000 0x80000000 boot_kmem = Inr (t, s')"
    using k kheap_translate [OF i h(1,2) _ h(3), of 0] A(2) by (simp add: create_page_table_def Let_def)
  then obtain s' where "create_page_table 0x1000 0x80000000 boot_kmem = Inr (t, s')" by blast
  with create_page_table_found [OF boot_heap_inv _ this] show ?thesis by auto
qed

text \<open>The heap invariant does not depend on the directories of processes and on tables that are not the kernel heap's.\<close>

lemma heap_inv_tables:
  assumes "\<And>va. KERNEL_HEAP_START \<le> va \<Longrightarrow> va < KERNEL_HEAP_MAX \<Longrightarrow> D (ptr_page_directory s) (PDX va) = kpde s va"
    and "\<And>va. KERNEL_HEAP_START \<le> va \<Longrightarrow> va < KERNEL_HEAP_MAX \<Longrightarrow> T (ktable s va) = tables s (ktable s va)"
  shows "heap_inv (s\<lparr>directories := D, tables := T\<rparr>) = heap_inv s"
    and "heap_page v \<Longrightarrow> kmapped (s\<lparr>directories := D, tables := T\<rparr>) v = kmapped s v"
    and "heap_page v \<Longrightarrow> kframe (s\<lparr>directories := D, tables := T\<rparr>) v = kframe s v"
proof -
  let ?s = "s\<lparr>directories := D, tables := T\<rparr>"
  have d: "kpde ?s va = kpde s va" if "KERNEL_HEAP_START \<le> va" "va < KERNEL_HEAP_MAX" for va
    using assms(1) [OF that] by (simp add: kpde_def)
  have k: "ktable ?s va = ktable s va" if "KERNEL_HEAP_START \<le> va" "va < KERNEL_HEAP_MAX" for va
    using d [OF that] by (simp add: ktable_def)
  have e: "kpte ?s va = kpte s va" if "heap_page va" for va
    using k [of va] assms(2) [of va] that by (simp add: kpte_def heap_page_def)
  show m: "heap_page v \<Longrightarrow> kmapped ?s v = kmapped s v" for v by (simp add: kmapped_def e)
  show f: "heap_page v \<Longrightarrow> kframe ?s v = kframe s v" for v by (simp add: kframe_def e)
  have "kernel_tables ?s = kernel_tables s" unfolding kernel_tables_def by (simp add: d k cong: conj_cong imp_cong)
  moreover have "heap_page va \<Longrightarrow> heap_page_ok ?s va = heap_page_ok s va" for va by (simp add: heap_page_ok_def m f e)
  ultimately have "kmap_inv ?s = kmap_inv s" by (simp add: kmap_inv_def frame_lists_ok_def heap_mapping_ok_def)
  moreover have "block_region_ok ?s = block_region_ok s"
    using block_page_index m by (auto simp: block_region_ok_def block_page_def)
  moreover have "page_map_ok A ?s = page_map_ok A s" for A by (auto simp: page_map_ok_def m)
  ultimately show "heap_inv ?s = heap_inv s" by (simp add: heap_inv_def heap_core_def)
qed

text \<open>
  A page of a run, and the kernel's own tables, which lie below the heap. A table for the directory of a process is a page of a
  run of its own: what was allocated before keeps its frame and its contents.
\<close>

definition run_page :: "kmem \<Rightarrow> nat \<Rightarrow> bool" where
  "run_page s v \<longleftrightarrow> heap_page v \<and> \<not> block_page v \<and> kmapped s v"

definition tables_low :: "kmem \<Rightarrow> bool" where
  "tables_low s \<longleftrightarrow> (\<forall>va. KERNEL_HEAP_START \<le> va \<and> va < KERNEL_HEAP_MAX \<longrightarrow> ktable s va < KERNEL_HEAP_START)"

definition table_failure :: "failure \<Rightarrow> bool" where
  "table_failure e \<longleftrightarrow> e \<in> {out_of_frames, out_of_blocks, Panic ''NOT ENOUGH KERNEL HEAP SPACE''}"

lemma run_page_translate:
  assumes "heap_inv s" "\<not> kheap_lock s" "run_page s T"
  shows "kheap_virtual_address (kframe s T * 4096) s = Inr T" "kframe s T < 1048576" "KERNEL_HEAP_START \<le> T"
    and "\<exists>b \<in> set (bulks_allocated s). T \<in> ext b"
proof -
  have h: "heap_page T" "\<not> block_page T" "kmapped s T" using assms(3) by (simp_all add: run_page_def)
  show b: "\<exists>b \<in> set (bulks_allocated s). T \<in> ext b"
    using assms(1) h by (auto simp: heap_inv_def heap_core_def page_map_ok_def)
  moreover have "tiles (set (bulks s) \<union> set (bulks_allocated s)) {PAGES_START ..< kheapPageAllocBreak s}"
    using assms(1) by (simp add: heap_inv_def heap_core_def)
  ultimately have "PAGES_START \<le> T" using tiles_ext by fastforce
  then have "in_heap_region T s" using assms(1) h(1) by (simp add: in_heap_region_def heap_inv_def heap_core_def heap_page_def)
  then show "kheap_virtual_address (kframe s T * 4096) s = Inr T" using kheap_translate [OF assms(1,2) h(1,3), of 0] by simp
  have "kframe s T < number_of_frames s" "number_of_frames s \<le> 65536"
    using assms(1) h(1,3) by (auto simp: heap_inv_def heap_core_def kmap_inv_def heap_mapping_ok_def heap_page_ok_def kernel_tables_def)
  then show "kframe s T < 1048576" by simp
  show "KERNEL_HEAP_START \<le> T" using h(1) by (simp add: heap_page_def)
qed

lemma create_page_table_ok:
  assumes "heap_inv s" "\<not> kheap_lock s" "tables_low s" "dir \<noteq> ptr_page_directory s"
  shows "case create_page_table dir va s of
      Inl e \<Rightarrow> table_failure e \<and> (length (free_frame_list s) \<le> 1 \<or> freePagesList (da s) = [] \<or> no_room 4096 s)
    | Inr (t, s') \<Rightarrow> heap_inv s' \<and> \<not> kheap_lock s' \<and> tables_low s' \<and> ptr_page_directory s' = ptr_page_directory s \<and> run_page s' t \<and>
        (\<forall>i. tables s' t i = 0) \<and>
        (\<exists>e. directories s' = (directories s)(dir := (directories s dir)(PDX va := e)) \<and>
           e AND PERM_PRESENT = PERM_PRESENT \<and> EXTRACT_ADDRESS e = kframe s' t * 4096) \<and>
        (\<forall>T. run_page s T \<longrightarrow> T \<noteq> t \<and> run_page s' T \<and> kframe s' T = kframe s T \<and> tables s' T = tables s T)"
proof (cases "kmalloc 4096 s")
  case (Inl e)
  have r: "ROUNDUP 4096 4096 = 1 * 4096" by (simp add: ROUNDUP_def ROUNDDOWN_def add32_def sub32_def)
  show ?thesis using kmalloc_pages [OF assms(1,2) _ _ r] Inl by (auto simp: create_page_table_def alloc_fails_def table_failure_def)
next
  case (Inr x)
  obtain t s1 where x: "kmalloc 4096 s = Inr (t, s1)" using Inr by (cases x) simp
  have r: "ROUNDUP 4096 4096 = 1 * 4096" by (simp add: ROUNDUP_def ROUNDDOWN_def add32_def sub32_def)
  note kp = kmalloc_pages [OF assms(1,2) _ _ r]
  show ?thesis
  proof (cases "t = 0")
    case True
    then have "no_room 4096 s" using kp x by (auto simp: run_added_def split: if_splits)
    then show ?thesis using x True by (simp add: create_page_table_def table_failure_def)
  next
    case False
    then have a: "run_added t 1 s s1" using kp x by (auto split: if_splits)
    note A = run_added_facts [OF a]
    have i: "heap_inv s1" "\<not> kheap_lock s1" and kk: "pages_kept s s1" using a assms(2) by (auto simp: run_added_def)
    have h: "run_page s1 t" using A by (auto simp: run_page_def heap_page_def block_page_def)
    note R = run_page_translate [OF i h]
    let ?e = "CONSTRUCT_ENTRY (kframe s1 t * 4096) (PERM_PRESENT OR PERM_USER OR PERM_WRITEABLE)"
    let ?D = "(directories s)(dir := (directories s dir)(PDX va := ?e))" and ?T = "(tables s1)(t := (\<lambda>_. 0))"
    have d: "directories s1 = directories s" "ptr_page_directory s1 = ptr_page_directory s" using kk by (simp_all add: pages_kept_def)
    have reg: "in_heap_region t s1" using i(1) A by (auto simp: in_heap_region_def heap_inv_def heap_core_def)
    have pa: "kheap_physical_address t s1 = Inr (kframe s1 t * 4096)"
      using kheap_translate [OF i _ _ _ reg, of 0] h by (simp add: run_page_def)
    have c: "create_page_table dir va s = Inr (t, s1\<lparr>directories := ?D, tables := ?T\<rparr>)"
      using x False pa by (simp add: create_page_table_def set_dir_entry_def Let_def d)
    have e: "EXTRACT_ADDRESS ?e = kframe s1 t * 4096" "?e AND PERM_PRESENT = PERM_PRESENT"
      using EXTRACT_CONSTRUCT [OF R(2), of "PERM_PRESENT OR PERM_USER OR PERM_WRITEABLE"]
        CONSTRUCT_PRESENT [of "kframe s1 t * 4096" PERM_USER PERM_WRITEABLE] by (simp_all add: or.commute)
    have low: "tables_low s1" using assms(3) pages_kept_ktable [OF kk] by (simp add: tables_low_def)
    have D: "?D (ptr_page_directory s1) (PDX v) = kpde s1 v" for v using assms(4) by (simp add: kpde_def d)
    have T: "?T (ktable s1 v) = tables s1 (ktable s1 v)" if "KERNEL_HEAP_START \<le> v" "v < KERNEL_HEAP_MAX" for v
      using low R(3) that by (auto simp: tables_low_def)
    note H = heap_inv_tables [of ?D s1 ?T, OF D T]
    have kt: "ktable (s1\<lparr>directories := ?D, tables := ?T\<rparr>) = ktable s1" using D by (simp add: ktable_def kpde_def fun_eq_iff)
    have rp: "run_page (s1\<lparr>directories := ?D, tables := ?T\<rparr>) v = run_page s1 v" for v using H(2) by (auto simp: run_page_def)
    have old: "T \<noteq> t \<and> run_page s1 T \<and> kframe s1 T = kframe s T \<and> tables s1 T = tables s T" if "run_page s T" for T
    proof -
      note RT = run_page_translate [OF assms(1,2) that]
      obtain b where b: "b \<in> set (bulks_allocated s)" "T \<in> ext b" using RT(4) by blast
      have "{t ..< t + 1 * 4096} \<inter> ext b = {}" using A(5) b(1) by blast
      moreover have "t \<in> {t ..< t + 1 * 4096}" by simp
      ultimately have "T \<noteq> t" using b(2) by blast
      moreover have "\<forall>va. KERNEL_HEAP_START \<le> va \<and> va < KERNEL_HEAP_MAX \<longrightarrow> T \<noteq> ktable s va"
        using assms(3) RT(3) by (auto simp: tables_low_def)
      ultimately show ?thesis using kk that by (auto simp: pages_kept_def run_page_def)
    qed
    have "kframe (s1\<lparr>directories := ?D, tables := ?T\<rparr>) v = kframe s1 v" if "run_page s1 v" for v using that H(3) by (simp add: run_page_def)
    then show ?thesis
      unfolding c using H(1) i h e low kt old rp by (simp add: d tables_low_def) blast
  qed
qed

end
