(* ===== verification/Scheduler.thy ===== *)
theory Scheduler
  imports Kernel_Heap
begin

text \<open>
  Environments and their scheduling: the queue helpers of \<^verbatim>\<open>src/kern/cpu/sched_helpers.c\<close>,
  the schedulers and the clock interrupt of \<^verbatim>\<open>src/kern/cpu/sched.c\<close>, and the parts of
  \<^verbatim>\<open>src/kern/proc/user_environment.c\<close> that move an environment between states. A
  \<^verbatim>\<open>struct Env *\<close> is the index of the environment in \<^verbatim>\<open>envs\<close>, \<open>None\<close> is
  \<^verbatim>\<open>NULL\<close>. There is one processor; \<open>ncli\<close> counts the spinlocks it holds, which is its
  interrupt nesting depth in all the code modelled here.
\<close>

section \<open>State\<close>

datatype env_status =
  ENV_FREE | ENV_READY | ENV_RUNNING | ENV_BLOCKED | ENV_NEW | ENV_EXIT | ENV_KILLED | ENV_UNKNOWN

record env =
  env_id :: int
  env_parent_id :: int
  env_status :: env_status
  priority :: int
  channel :: "nat option"
  starvcounteer :: nat    \<comment> \<open>\<^verbatim>\<open>uint32\<close>\<close>
  nClocks :: nat          \<comment> \<open>\<^verbatim>\<open>uint32\<close>\<close>

definition zero_env :: env where
  "zero_env = \<lparr>env_id = 0, env_parent_id = 0, env_status = ENV_FREE, priority = 0, channel = None,
     starvcounteer = 0, nClocks = 0\<rparr>"

datatype sched_status = SCH_UNINITIALIZED | SCH_STOPPED | SCH_STARTED

datatype sched_kind = SCH_RR | SCH_MLFQ | SCH_BSD | SCH_PRIRR

text \<open>
  Where the processor is: running a process, in the inner loop of \<^verbatim>\<open>fos_scheduler\<close> with the
  queue lock held, at the head of its outer loop, or back in the command prompt.
\<close>

datatype cpu_ctx = In_process | In_scheduler | Idle_scheduler | Prompt

record sched_st =
  nenv :: nat                  \<comment> \<open>\<^verbatim>\<open>NENV\<close>\<close>
  log2nenv :: nat              \<comment> \<open>\<^verbatim>\<open>LOG2NENV\<close>, so that \<^verbatim>\<open>NENV <= 1 << LOG2NENV\<close>\<close>
  envs :: "nat \<Rightarrow> env"
  env_free_list :: "nat list"
  qlock :: bool
  ncli :: nat
  env_new_queue :: "nat list"
  env_exit_queue :: "nat list"
  env_ready_queues :: "nat list list"
  ready_queues_ptr :: nat      \<comment> \<open>the address of the array on the kernel heap\<close>
  quantums :: "nat list"
  quantums_ptr :: nat
  num_of_ready_queues :: nat   \<comment> \<open>\<^verbatim>\<open>uint8\<close>\<close>
  cpu_proc :: "nat option"
  ctx :: cpu_ctx
  scheduler_status :: sched_status
  scheduler_method :: sched_kind
  starvThreshold :: nat
  ticks :: int
  clock_quantum :: nat
  EnableBuffering :: bool
  kheap :: kmem

definition upd_env :: "nat \<Rightarrow> (env \<Rightarrow> env) \<Rightarrow> sched_st \<Rightarrow> sched_st" where
  "upd_env e f s = s\<lparr>envs := (envs s)(e := f (envs s e))\<rparr>"

section \<open>Locks and queues\<close>

definition acquire_qlock :: "sched_st \<Rightarrow> sched_st result" where
  "acquire_qlock s = andThen (lock_acquire (qlock s)) (\<lambda>h. Inr (s\<lparr>qlock := h, ncli := ncli s + 1\<rparr>))"

definition release_qlock :: "sched_st \<Rightarrow> sched_st result" where
  "release_qlock s = andThen (lock_release (qlock s)) (\<lambda>h. Inr (s\<lparr>qlock := h, ncli := ncli s - 1\<rparr>))"

definition need_qlock :: "sched_st \<Rightarrow> unit result" where
  "need_qlock s = c_assert (qlock s) ''sched: q.lock is not held by this CPU while it's expected to be.''"

definition init_queue :: "nat list \<Rightarrow> nat list" where
  "init_queue q = []"

definition queue_size :: "nat list \<Rightarrow> nat" where
  "queue_size q = length q"

definition enqueue :: "nat list \<Rightarrow> nat option \<Rightarrow> nat list result" where
  "enqueue q e = (case e of None \<Rightarrow> Inr q | Some e \<Rightarrow> list_insert_head e q)"

definition dequeue :: "nat list \<Rightarrow> (nat option \<times> nat list) result" where
  "dequeue q = (if q = [] then Inr (None, q)
                else andThen (list_remove (last q) q) (\<lambda>q'. Inr (Some (last q), q')))"

definition remove_from_queue :: "nat list \<Rightarrow> nat option \<Rightarrow> nat list result" where
  "remove_from_queue q e = (case e of None \<Rightarrow> Inr q | Some e \<Rightarrow> list_remove e q)"

definition find_env_in_queue :: "nat list \<Rightarrow> int \<Rightarrow> sched_st \<Rightarrow> nat option" where
  "find_env_in_queue q envID s = find (\<lambda>e. env_id (envs s e) = envID) q"

text \<open>An index outside the array of ready queues is a wild access.\<close>

definition ready_queue :: "int \<Rightarrow> sched_st \<Rightarrow> nat list result" where
  "ready_queue i s = (if 0 \<le> i \<and> nat i < length (env_ready_queues s) then Inr (env_ready_queues s ! nat i)
                      else Inl (Corrupted ''env_ready_queues''))"

definition set_ready_queue :: "int \<Rightarrow> nat list \<Rightarrow> sched_st \<Rightarrow> sched_st" where
  "set_ready_queue i q s = s\<lparr>env_ready_queues := (env_ready_queues s)[nat i := q]\<rparr>"

section \<open>Moving environments between queues\<close>

definition sched_insert_ready :: "nat \<Rightarrow> sched_st \<Rightarrow> sched_st result" where
  "sched_insert_ready e s =
     andThen (need_qlock s) (\<lambda>_.
     (let s = upd_env e (\<lambda>v. v\<lparr>env_status := ENV_READY\<rparr>) s;
          i = priority (envs s e)
      in andThen (ready_queue i s) (\<lambda>q.
         andThen (enqueue q (Some e)) (\<lambda>q. Inr (set_ready_queue i q s)))))"

text \<open>The loop of \<^verbatim>\<open>sched_remove_ready\<close> from queue \<open>i\<close> on, \<open>n\<close> queues still to look at.\<close>

fun remove_ready_from :: "nat \<Rightarrow> nat \<Rightarrow> nat \<Rightarrow> sched_st \<Rightarrow> sched_st result" where
  "remove_ready_from 0 i e s = Inr s"
| "remove_ready_from (Suc n) i e s =
     andThen (ready_queue (int i) s) (\<lambda>q.
     (case find_env_in_queue q (env_id (envs s e)) s of
        Some _ \<Rightarrow>
          andThen (list_remove e q) (\<lambda>q.
          Inr (upd_env e (\<lambda>v. v\<lparr>env_status := ENV_UNKNOWN\<rparr>) (set_ready_queue (int i) q s)))
      | None \<Rightarrow> remove_ready_from n (Suc i) e s))"

definition sched_remove_ready :: "nat \<Rightarrow> sched_st \<Rightarrow> sched_st result" where
  "sched_remove_ready e s =
     andThen (need_qlock s) (\<lambda>_.
     andThen (c_assert (env_status (envs s e) = ENV_READY) ''env != NULL && env->env_status == ENV_READY'') (\<lambda>_.
     remove_ready_from (num_of_ready_queues s) 0 e s))"

definition sched_insert_new :: "nat \<Rightarrow> sched_st \<Rightarrow> sched_st result" where
  "sched_insert_new e s =
     andThen (need_qlock s) (\<lambda>_.
     (let s = upd_env e (\<lambda>v. v\<lparr>env_status := ENV_NEW\<rparr>) s in
      andThen (enqueue (env_new_queue s) (Some e)) (\<lambda>q. Inr (s\<lparr>env_new_queue := q\<rparr>))))"

definition sched_remove_new :: "nat \<Rightarrow> sched_st \<Rightarrow> sched_st result" where
  "sched_remove_new e s =
     andThen (need_qlock s) (\<lambda>_.
     andThen (c_assert (env_status (envs s e) = ENV_NEW) ''env != NULL && env->env_status == ENV_NEW'') (\<lambda>_.
     andThen (list_remove e (env_new_queue s)) (\<lambda>q.
     Inr (upd_env e (\<lambda>v. v\<lparr>env_status := ENV_UNKNOWN\<rparr>) (s\<lparr>env_new_queue := q\<rparr>)))))"

text \<open>\<^verbatim>\<open>cleanup_buffers\<close>: the modified frames of the environment are freed, under the frame lock.\<close>

fun cleanup_loop :: "nat list \<Rightarrow> nat \<Rightarrow> kmem \<Rightarrow> kmem result" where
  "cleanup_loop [] e k = Inr k"
| "cleanup_loop (f # fs) e k =
     (if fi_proc (frames_info k f) = Some e then
        andThen (list_remove f (modified_frame_list k)) (\<lambda>ml.
        andThen (free_frame f (k\<lparr>modified_frame_list := ml\<rparr>)) (cleanup_loop fs e))
      else cleanup_loop fs e k)"

definition cleanup_buffers :: "nat \<Rightarrow> kmem \<Rightarrow> kmem result" where
  "cleanup_buffers e k =
     (let lock_already_held = mfllock k in
      andThen (if \<not> lock_already_held then lock_acquire (mfllock k) else Inr (mfllock k)) (\<lambda>h.
      andThen (cleanup_loop (modified_frame_list k) e (k\<lparr>mfllock := h\<rparr>)) (\<lambda>k.
      andThen (if \<not> lock_already_held then lock_release (mfllock k) else Inr (mfllock k)) (\<lambda>h.
      Inr (k\<lparr>mfllock := h\<rparr>)))))"

definition sched_insert_exit :: "nat option \<Rightarrow> sched_st \<Rightarrow> sched_st result" where
  "sched_insert_exit env s =
     andThen (need_qlock s) (\<lambda>_.
     (case env of
        None \<Rightarrow> Inl (Panic ''env != NULL'')
      | Some e \<Rightarrow>
          andThen (if EnableBuffering s then cleanup_buffers e (kheap s) else Inr (kheap s)) (\<lambda>k.
          (let s = upd_env e (\<lambda>v. v\<lparr>env_status := ENV_EXIT\<rparr>) (s\<lparr>kheap := k\<rparr>) in
           andThen (enqueue (env_exit_queue s) (Some e)) (\<lambda>q. Inr (s\<lparr>env_exit_queue := q\<rparr>))))))"

definition sched_remove_exit :: "nat \<Rightarrow> sched_st \<Rightarrow> sched_st result" where
  "sched_remove_exit e s =
     andThen (need_qlock s) (\<lambda>_.
     andThen (c_assert (env_status (envs s e) = ENV_EXIT) ''env != NULL && env->env_status == ENV_EXIT'') (\<lambda>_.
     andThen (list_remove e (env_exit_queue s)) (\<lambda>q.
     Inr (upd_env e (\<lambda>v. v\<lparr>env_status := ENV_UNKNOWN\<rparr>) (s\<lparr>env_exit_queue := q\<rparr>)))))"

definition sched_new_env :: "nat \<Rightarrow> sched_st \<Rightarrow> sched_st result" where
  "sched_new_env e s = andThen (acquire_qlock s) (\<lambda>s. andThen (sched_insert_new e s) release_qlock)"

section \<open>Giving up the processor\<close>

text \<open>
  \<^verbatim>\<open>sched()\<close> and the code of \<^verbatim>\<open>fos_scheduler\<close> that follows the context switch it
  causes: a process that is not \<^verbatim>\<open>READY\<close> any more is taken off the processor.
\<close>

definition scheduler_resumed :: "sched_st \<Rightarrow> sched_st result" where
  "scheduler_resumed s =
     andThen (c_assert (qlock s) ''fos_scheduler(): qlock is either not held or held by another CPU!'') (\<lambda>_.
     (case cpu_proc s of
        None \<Rightarrow> Inl (Cpu_trap ''c->proc->env_status'')
      | Some p \<Rightarrow>
          andThen (c_assert (env_status (envs s p) \<noteq> ENV_RUNNING) ''status != ENV_RUNNING'') (\<lambda>_.
          Inr (s\<lparr>ctx := In_scheduler,
                 cpu_proc := (if env_status (envs s p) = ENV_READY then Some p else None)\<rparr>))))"

definition sched :: "sched_st \<Rightarrow> sched_st result" where
  "sched s =
     (case cpu_proc s of
        None \<Rightarrow> Inl (Panic ''p != NULL'')
      | Some p \<Rightarrow>
          if \<not> qlock s then Inl (Panic ''sched: q.lock is not held by this CPU while it's expected to be. '')
          else if ncli s \<noteq> 1 then Inl (Panic ''sched locks: ncli'')
          else if env_status (envs s p) = ENV_RUNNING then Inl (Panic ''sched a running process'')
          else scheduler_resumed s)"

text \<open>\<^verbatim>\<open>yield()\<close> up to the context switch; what follows it is \<open>resume_process\<close>.\<close>

definition yield :: "sched_st \<Rightarrow> sched_st result" where
  "yield s =
     andThen (acquire_qlock s) (\<lambda>s.
     (case cpu_proc s of
        None \<Rightarrow> Inl (Panic ''p != NULL'')
      | Some p \<Rightarrow> sched (upd_env p (\<lambda>v. v\<lparr>env_status := ENV_READY\<rparr>) s)))"

text \<open>
  What a process does first when it gets the processor, be it in \<^verbatim>\<open>env_start\<close> or after the
  call of \<^verbatim>\<open>sched()\<close> in \<^verbatim>\<open>yield\<close> and \<^verbatim>\<open>sleep\<close>: it releases the queue lock.
\<close>

definition resume_process :: "sched_st \<Rightarrow> sched_st result" where
  "resume_process s = release_qlock s"

section \<open>The schedulers\<close>

definition kclock_set_quantum :: "nat \<Rightarrow> sched_st \<Rightarrow> sched_st result" where
  "kclock_set_quantum q s =
     (if q < 54 then
        (if q = 0 then Inl (Cpu_trap ''1000/quantum_in_ms'') else Inr (s\<lparr>clock_quantum := q\<rparr>))
      else Inl (Panic ''attempt to set the CPU quantum by too large value.''))"

definition quantum0 :: "sched_st \<Rightarrow> nat result" where
  "quantum0 s = (case quantums s of [] \<Rightarrow> Inl (Corrupted ''quantums[0]'') | q # _ \<Rightarrow> Inr q)"

definition fos_scheduler_RR :: "sched_st \<Rightarrow> (nat option \<times> sched_st) result" where
  "fos_scheduler_RR s =
     andThen (c_assert (qlock s) ''fos_scheduler_RR: q.lock is not held by this CPU while it's expected to be.'') (\<lambda>_.
     andThen (ready_queue 0 s) (\<lambda>q.
     andThen (enqueue q (cpu_proc s)) (\<lambda>q.
     andThen (dequeue q) (\<lambda>(next_env, q).
     andThen (quantum0 s) (\<lambda>qu.
     andThen (kclock_set_quantum qu (set_ready_queue 0 q s)) (\<lambda>s.
     Inr (next_env, s)))))))"

text \<open>The first queue that is not empty, from queue \<open>i\<close> on.\<close>

fun pick_from :: "nat \<Rightarrow> nat \<Rightarrow> sched_st \<Rightarrow> (nat option \<times> sched_st) result" where
  "pick_from 0 i s = Inr (None, s)"
| "pick_from (Suc n) i s =
     andThen (ready_queue (int i) s) (\<lambda>q.
     if queue_size q \<noteq> 0
     then andThen (dequeue q) (\<lambda>(e, q). Inr (e, set_ready_queue (int i) q s))
     else pick_from n (Suc i) s)"

definition fos_scheduler_PRIRR :: "sched_st \<Rightarrow> (nat option \<times> sched_st) result" where
  "fos_scheduler_PRIRR s =
     andThen (c_assert (qlock s) ''fos_scheduler_PRIRR: q.lock is not held by this CPU while it's expected to be.'') (\<lambda>_.
     andThen
       (case cpu_proc s of
          None \<Rightarrow> Inr s
        | Some elast \<Rightarrow>
            if env_status (envs s elast) = ENV_READY then
              andThen (ready_queue (priority (envs s elast)) s) (\<lambda>q.
              andThen (enqueue q (Some elast)) (\<lambda>q. Inr (set_ready_queue (priority (envs s elast)) q s)))
            else Inr s) (\<lambda>s.
     andThen (pick_from (num_of_ready_queues s) 0 s) (\<lambda>(enew, s).
     (case enew of
        None \<Rightarrow> Inr (None, s)
      | Some e \<Rightarrow>
          andThen (quantum0 s) (\<lambda>qu.
          andThen (kclock_set_quantum qu (upd_env e (\<lambda>v. v\<lparr>starvcounteer := 0\<rparr>) s)) (\<lambda>s.
          Inr (Some e, s)))))))"

definition sched_next :: "sched_st \<Rightarrow> (nat option \<times> sched_st) result" where
  "sched_next s =
     (case scheduler_method s of
        SCH_RR \<Rightarrow> fos_scheduler_RR s
      | SCH_PRIRR \<Rightarrow> fos_scheduler_PRIRR s
      | _ \<Rightarrow> Inl (Panic ''Not implemented yet''))"

text \<open>
  \<^verbatim>\<open>fos_scheduler\<close>, cut at its context switches: entering it, one turn of the inner loop
  with the check for blocked processes when no process is ready, and the head of the outer
  loop.
\<close>

definition fos_scheduler_enter :: "sched_st \<Rightarrow> sched_st result" where
  "fos_scheduler_enter s =
     Inr (s\<lparr>cpu_proc := None, scheduler_status := SCH_STARTED, ctx := Idle_scheduler\<rparr>)"

definition fos_scheduler_outer :: "sched_st \<Rightarrow> sched_st result" where
  "fos_scheduler_outer s = andThen (acquire_qlock s) (\<lambda>s. Inr (s\<lparr>ctx := In_scheduler\<rparr>))"

definition is_any_blocked :: "sched_st \<Rightarrow> bool" where
  "is_any_blocked s \<longleftrightarrow> list_ex (\<lambda>i. env_status (envs s i) = ENV_BLOCKED) [0..<nenv s]"

definition fos_scheduler_turn :: "sched_st \<Rightarrow> sched_st result" where
  "fos_scheduler_turn s =
     andThen (sched_next s) (\<lambda>(next_env, s).
     (case next_env of
        Some e \<Rightarrow> Inr (upd_env e (\<lambda>v. v\<lparr>env_status := ENV_RUNNING\<rparr>) (s\<lparr>cpu_proc := Some e, ctx := In_process\<rparr>))
      | None \<Rightarrow>
          (let blocked = is_any_blocked s in
           andThen (release_qlock s) (\<lambda>s. Inr (s\<lparr>ctx := (if blocked then Idle_scheduler else Prompt)\<rparr>)))))"

section \<open>Commands on environments\<close>

text \<open>
  \<^verbatim>\<open>sched_run_env\<close>; the flag says that \<^verbatim>\<open>fos_scheduler\<close> was entered, which does not
  return.
\<close>

definition sched_run_env :: "int \<Rightarrow> sched_st \<Rightarrow> (bool \<times> sched_st) result" where
  "sched_run_env envId s =
     andThen (acquire_qlock s) (\<lambda>s.
     (case find_env_in_queue (env_new_queue s) envId s of
        Some e \<Rightarrow>
          andThen (sched_remove_new e s) (\<lambda>s.
          andThen (sched_insert_ready e s) (\<lambda>s.
          if scheduler_status s = SCH_STOPPED
          then andThen (release_qlock s) (\<lambda>s. andThen (fos_scheduler_enter s) (\<lambda>s. Inr (True, s)))
          else andThen (release_qlock s) (\<lambda>s. Inr (False, s))))
      | None \<Rightarrow> andThen (release_qlock s) (\<lambda>s. Inr (False, s))))"

text \<open>
  \<^verbatim>\<open>sched_exit_env\<close>. The scan of the NEW queue has no \<^verbatim>\<open>break\<close>: the loop variable is
  \<^verbatim>\<open>NULL\<close> when the loop ends, also when the environment was found and removed.
\<close>

fun exit_scan_new :: "nat list \<Rightarrow> int \<Rightarrow> sched_st \<Rightarrow> (bool \<times> sched_st) result" where
  "exit_scan_new [] envId s = Inr (False, s)"
| "exit_scan_new (e # es) envId s =
     (if env_id (envs s e) = envId
      then andThen (sched_remove_new e s) (\<lambda>s.
           andThen (exit_scan_new es envId s) (\<lambda>(_, s). Inr (True, s)))
      else exit_scan_new es envId s)"

fun exit_scan_ready :: "nat \<Rightarrow> nat \<Rightarrow> int \<Rightarrow> sched_st \<Rightarrow> (nat option \<times> sched_st) result" where
  "exit_scan_ready 0 i envId s = Inr (None, s)"
| "exit_scan_ready (Suc n) i envId s =
     andThen (ready_queue (int i) s) (\<lambda>q.
     (case find_env_in_queue q envId s of
        Some e \<Rightarrow> andThen (list_remove e q) (\<lambda>q. Inr (Some e, set_ready_queue (int i) q s))
      | None \<Rightarrow> exit_scan_ready n (Suc i) envId s))"

text \<open>The flag of the result: the caller has lost the processor and does not run on.\<close>

definition sched_exit_env :: "int \<Rightarrow> sched_st \<Rightarrow> (bool \<times> sched_st) result" where
  "sched_exit_env envId s =
     (let lock_already_held = qlock s in
      andThen (if \<not> lock_already_held then acquire_qlock s else Inr s) (\<lambda>s.
      andThen (exit_scan_new (env_new_queue s) envId s) (\<lambda>(found_new, s).
      andThen (if \<not> found_new then exit_scan_ready (num_of_ready_queues s) 0 envId s else Inr (None, s)) (\<lambda>(ptr, s).
      (case cpu_proc s of
         None \<Rightarrow> Inl (Panic ''cur_env != NULL'')
       | Some cur \<Rightarrow>
           (let is_cur = (env_id (envs s cur) = envId);
                ptr = (if \<not> found_new \<and> ptr = None \<and> is_cur then Some cur else ptr);
                found = (found_new \<or> ptr \<noteq> None)
            in andThen (if found then sched_insert_exit ptr s else Inr s) (\<lambda>s.
               if found \<and> is_cur then andThen (sched s) (\<lambda>s. Inr (True, s))
               else andThen (if \<not> lock_already_held then release_qlock s else Inr s) (\<lambda>s. Inr (False, s))))))))) "

definition env_exit :: "sched_st \<Rightarrow> (bool \<times> sched_st) result" where
  "env_exit s =
     (case cpu_proc s of
        None \<Rightarrow> Inl (Panic ''cur_env != NULL'')
      | Some p \<Rightarrow> sched_exit_env (env_id (envs s p)) s)"

definition env_free :: "nat \<Rightarrow> sched_st \<Rightarrow> sched_st result" where
  "env_free e s = Inl (Panic ''env_free() is not implemented yet...!!'')"

definition sched_kill_env :: "int \<Rightarrow> sched_st \<Rightarrow> sched_st result" where
  "sched_kill_env envId s =
     andThen (acquire_qlock s) (\<lambda>s.
     andThen
       (case find_env_in_queue (env_new_queue s) envId s of
          Some e \<Rightarrow> andThen (sched_remove_new e s) (\<lambda>s. Inr (Some e, s))
        | None \<Rightarrow>
            andThen (exit_scan_ready (num_of_ready_queues s) 0 envId s) (\<lambda>(ptr, s).
            (case ptr of
               Some e \<Rightarrow> Inr (Some e, s)
             | None \<Rightarrow>
                 (case find_env_in_queue (env_exit_queue s) envId s of
                    Some e \<Rightarrow> andThen (sched_remove_exit e s) (\<lambda>s. Inr (Some e, s))
                  | None \<Rightarrow> Inr (None, s))))) (\<lambda>(ptr, s).
     andThen (release_qlock s) (\<lambda>s.
     (case ptr of
        Some e \<Rightarrow> env_free e s
      | None \<Rightarrow>
          (case cpu_proc s of
             None \<Rightarrow> Inl (Panic ''cur_env != NULL'')
           | Some cur \<Rightarrow>
               if env_id (envs s cur) = envId then
                 andThen (c_assert (env_status (envs s cur) = ENV_RUNNING) ''ptr_env->env_status == ENV_RUNNING'') (\<lambda>_.
                 andThen (env_free cur s) (\<lambda>s.
                 andThen (acquire_qlock s) sched))
               else Inr s)))))"

fun run_all_loop :: "nat \<Rightarrow> sched_st \<Rightarrow> sched_st result" where
  "run_all_loop 0 s = Inr s"
| "run_all_loop (Suc n) s =
     andThen (dequeue (env_new_queue s)) (\<lambda>(e, q).
     (case e of
        None \<Rightarrow> Inl (Panic ''env != NULL'')
      | Some e \<Rightarrow> andThen (sched_insert_ready e (s\<lparr>env_new_queue := q\<rparr>)) (run_all_loop n)))"

definition sched_run_all :: "sched_st \<Rightarrow> sched_st result" where
  "sched_run_all s =
     andThen (acquire_qlock s) (\<lambda>s.
     andThen (run_all_loop (queue_size (env_new_queue s)) s) (\<lambda>s.
     andThen (release_qlock s) (\<lambda>s.
     if scheduler_status s = SCH_STOPPED then fos_scheduler_enter s
     else Inl (Panic ''scheduler status is NOT STOPPED while it's expected to be!!''))))"

fun exit_queue_loop :: "nat list \<Rightarrow> nat \<Rightarrow> sched_st \<Rightarrow> sched_st result" where
  "exit_queue_loop [] i s = Inr s"
| "exit_queue_loop (e # es) i s =
     andThen (ready_queue (int i) s) (\<lambda>q.
     andThen (list_remove e q) (\<lambda>q.
     andThen (sched_insert_exit (Some e) (set_ready_queue (int i) q s)) (exit_queue_loop es i)))"

fun exit_all_loop :: "nat \<Rightarrow> nat \<Rightarrow> sched_st \<Rightarrow> sched_st result" where
  "exit_all_loop 0 i s = Inr s"
| "exit_all_loop (Suc n) i s =
     andThen (ready_queue (int i) s) (\<lambda>q.
     andThen (exit_queue_loop q i s) (exit_all_loop n (Suc i)))"

definition sched_exit_all_ready_envs :: "sched_st \<Rightarrow> sched_st result" where
  "sched_exit_all_ready_envs s =
     andThen (acquire_qlock s) (\<lambda>s.
     andThen (exit_all_loop (num_of_ready_queues s) 0 s) release_qlock)"

section \<open>Environment numbers and priorities\<close>

definition ENVX :: "int \<Rightarrow> sched_st \<Rightarrow> nat" where
  "ENVX envid s = nat (envid mod 2 ^ log2nenv s)"

text \<open>\<^verbatim>\<open>envid2env\<close>; \<open>None\<close> for \<^verbatim>\<open>E_BAD_ENV\<close>. A number beyond the table is a wild read.\<close>

definition envid2env :: "int \<Rightarrow> bool \<Rightarrow> sched_st \<Rightarrow> nat option option result" where
  "envid2env envid checkperm s =
     (if envid = 0 then Inr (Some (cpu_proc s))
      else
        (let e = ENVX envid s in
         if e \<ge> nenv s then Inl (Corrupted ''envs[ENVX(envid)]'')
         else if env_status (envs s e) = ENV_FREE \<or> env_id (envs s e) \<noteq> envid then Inr None
         else if checkperm \<and> cpu_proc s \<noteq> Some e then
           (case cpu_proc s of
              None \<Rightarrow> Inl (Cpu_trap ''cur_env->env_id'')
            | Some c \<Rightarrow> if env_parent_id (envs s e) \<noteq> env_id (envs s c) then Inr None else Inr (Some (Some e)))
         else Inr (Some (Some e))))"

definition env_set_priority :: "int \<Rightarrow> int \<Rightarrow> sched_st \<Rightarrow> sched_st result" where
  "env_set_priority envID pr s =
     andThen (acquire_qlock s) (\<lambda>s.
     andThen (envid2env envID False s) (\<lambda>r.
     (case r of
        None \<Rightarrow> Inl (Panic ''Environment is null'')
      | Some None \<Rightarrow>
          if pr < 0 \<or> pr \<ge> int (num_of_ready_queues s)
          then andThen (release_qlock s) (\<lambda>_. Inl (Panic ''priority out of bounds for the ready queue array.''))
          else Inl (Cpu_trap ''env->env_status'')
      | Some (Some e) \<Rightarrow>
          if pr < 0 \<or> pr \<ge> int (num_of_ready_queues s)
          then andThen (release_qlock s) (\<lambda>_. Inl (Panic ''priority out of bounds for the ready queue array.''))
          else
            andThen
              (if env_status (envs s e) = ENV_READY then
                 andThen (sched_remove_ready e s) (\<lambda>s.
                 sched_insert_ready e (upd_env e (\<lambda>v. v\<lparr>priority := pr, starvcounteer := 0\<rparr>) s))
               else Inr (upd_env e (\<lambda>v. v\<lparr>priority := pr\<rparr>) s))
              release_qlock)))"

definition sched_set_starv_thresh :: "nat \<Rightarrow> sched_st \<Rightarrow> sched_st result" where
  "sched_set_starv_thresh starvThresh s =
     (if starvThresh \<le> 0 then Inl (Panic ''can't have threshold less than or equal to zero'')
      else Inr (s\<lparr>starvThreshold := starvThresh\<rparr>))"

section \<open>The clock interrupt\<close>

text \<open>The environments of one queue, in the order and number they have when the loop starts.\<close>

fun age_queue :: "nat list \<Rightarrow> sched_st \<Rightarrow> sched_st result" where
  "age_queue [] s = Inr s"
| "age_queue (e # es) s =
     (let s = upd_env e (\<lambda>v. v\<lparr>starvcounteer := add32 (starvcounteer v) 1\<rparr>) s in
      if starvcounteer (envs s e) > starvThreshold s then
        (let newprio = priority (envs s e) - 1 in
         if newprio < 0 then age_queue es s
         else andThen (env_set_priority (env_id (envs s e)) newprio s) (age_queue es))
      else age_queue es s)"

fun age_queues :: "nat \<Rightarrow> nat \<Rightarrow> sched_st \<Rightarrow> sched_st result" where
  "age_queues 0 i s = Inr s"
| "age_queues (Suc n) i s =
     andThen (ready_queue (int i) s) (\<lambda>q. andThen (age_queue q s) (age_queues n (Suc i)))"

text \<open>
  \<^verbatim>\<open>clock_interrupt_handler\<close> up to the context switch in \<^verbatim>\<open>yield\<close>; \<open>lru\<close> stands for
  the update of the time stamps of the working set (theory \<open>Working_Set\<close>) when the
  replacement algorithm asks for it.
\<close>

definition clock_interrupt_handler :: "(sched_st \<Rightarrow> sched_st result) \<Rightarrow> sched_st \<Rightarrow> sched_st result" where
  "clock_interrupt_handler lru s =
     andThen (if scheduler_method s = SCH_PRIRR then age_queues (num_of_ready_queues s) 0 s else Inr s) (\<lambda>s.
     (let s = s\<lparr>ticks := ticks s + 1\<rparr> in
      case cpu_proc s of
        None \<Rightarrow> Inr s
      | Some p \<Rightarrow> andThen (lru (upd_env p (\<lambda>v. v\<lparr>nClocks := add32 (nClocks v) 1\<rparr>) s)) yield))"

section \<open>Setting up a scheduler\<close>

definition sched_delete_ready_queues :: "sched_st \<Rightarrow> sched_st result" where
  "sched_delete_ready_queues s =
     andThen (acquire_qlock s) (\<lambda>s.
     andThen (if ready_queues_ptr s \<noteq> 0 then kfree (ready_queues_ptr s) (kheap s) else Inr (kheap s)) (\<lambda>k.
     andThen (if quantums_ptr s \<noteq> 0 then kfree (quantums_ptr s) k else Inr k) (\<lambda>k.
     release_qlock (s\<lparr>kheap := k\<rparr>))))"

text \<open>Arrays of \<open>n\<close> queues and \<open>n\<close> quantums; their first contents are whatever the heap gives.\<close>

definition alloc_ready_queues :: "nat \<Rightarrow> sched_st \<Rightarrow> sched_st result" where
  "alloc_ready_queues n s =
     andThen (kmalloc (n * 16) (kheap s)) (\<lambda>(p, k).
     andThen (kmalloc n k) (\<lambda>(q, k).
     if p = 0 \<or> q = 0 then Inl (Corrupted ''env_ready_queues'')
     else Inr (s\<lparr>kheap := k, ready_queues_ptr := p, quantums_ptr := q\<rparr>)))"

definition sched_init_RR :: "nat \<Rightarrow> sched_st \<Rightarrow> sched_st result" where
  "sched_init_RR quantum s =
     andThen (sched_delete_ready_queues (s\<lparr>num_of_ready_queues := 1\<rparr>)) (\<lambda>s.
     andThen (alloc_ready_queues 1 s) (\<lambda>s.
     andThen (kclock_set_quantum quantum (s\<lparr>quantums := [quantum]\<rparr>)) (\<lambda>s.
     Inr (s\<lparr>env_ready_queues := [[]], scheduler_status := SCH_STOPPED, scheduler_method := SCH_RR\<rparr>))))"

definition sched_init_PRIRR :: "nat \<Rightarrow> nat \<Rightarrow> nat \<Rightarrow> sched_st \<Rightarrow> sched_st result" where
  "sched_init_PRIRR numOfPriorities quantum starvThresh s =
     (if quantum = 0 then Inl (Panic ''Quantum cannot be zero for PRIRR scheduler'')
      else if numOfPriorities = 0 then sched_init_RR quantum s
      else
        andThen (sched_delete_ready_queues (s\<lparr>num_of_ready_queues := numOfPriorities\<rparr>)) (\<lambda>s.
        andThen (alloc_ready_queues numOfPriorities s) (\<lambda>s.
        andThen (acquire_qlock s) (\<lambda>s.
        andThen (release_qlock (s\<lparr>env_ready_queues := replicate numOfPriorities []\<rparr>)) (\<lambda>s.
        andThen (kclock_set_quantum quantum (s\<lparr>quantums := replicate numOfPriorities quantum\<rparr>)) (\<lambda>s.
        andThen (sched_set_starv_thresh starvThresh s) (\<lambda>s.
        Inr (s\<lparr>scheduler_status := SCH_STOPPED, scheduler_method := SCH_PRIRR\<rparr>))))))))"

definition sched_init_MLFQ :: "nat \<Rightarrow> nat list \<Rightarrow> sched_st \<Rightarrow> sched_st result" where
  "sched_init_MLFQ numOfLevels quantumOfEachLevel s = Inl (Panic ''Not implemented yet'')"

definition sched_init_BSD :: "nat \<Rightarrow> nat \<Rightarrow> sched_st \<Rightarrow> sched_st result" where
  "sched_init_BSD numOfLevels quantum s = Inl (Panic ''Not implemented yet'')"

abbreviation INIT_QUANTUM_IN_MS :: nat where "INIT_QUANTUM_IN_MS \<equiv> 10"

definition sched_init :: "sched_st \<Rightarrow> sched_st result" where
  "sched_init s =
     andThen (sched_init_RR INIT_QUANTUM_IN_MS s) (\<lambda>s.
     Inr (s\<lparr>env_new_queue := init_queue (env_new_queue s), env_exit_queue := init_queue (env_exit_queue s),
            scheduler_status := SCH_STOPPED, qlock := False\<rparr>))"

section \<open>The invariant of the process queues\<close>

text \<open>
  The status of an environment says where it is linked: the ready queue of its priority, the
  NEW queue, the EXIT queue, or the queue of a channel (\<open>B\<close> holds the environments blocked on
  channels). \<open>L\<close> are environments that are on their way from one list to another.
\<close>

definition placed :: "nat set \<Rightarrow> sched_st \<Rightarrow> nat \<Rightarrow> bool" where
  "placed B s e \<longleftrightarrow>
     (e \<in> set (env_new_queue s) \<longrightarrow> env_status (envs s e) = ENV_NEW) \<and>
     (e \<in> set (env_exit_queue s) \<longleftrightarrow> env_status (envs s e) = ENV_EXIT) \<and>
     (\<forall>i < length (env_ready_queues s). e \<in> set (env_ready_queues s ! i) \<longleftrightarrow>
        env_status (envs s e) = ENV_READY \<and> priority (envs s e) = int i \<and> cpu_proc s \<noteq> Some e) \<and>
     (e \<in> B \<longleftrightarrow> env_status (envs s e) = ENV_BLOCKED) \<and>
     (env_status (envs s e) = ENV_RUNNING \<longrightarrow> cpu_proc s = Some e)"

definition unplaced :: "nat set \<Rightarrow> sched_st \<Rightarrow> nat \<Rightarrow> bool" where
  "unplaced B s e \<longleftrightarrow> e \<notin> set (env_new_queue s) \<and> e \<notin> set (env_exit_queue s) \<and>
     (\<forall>q \<in> set (env_ready_queues s). e \<notin> set q) \<and> e \<notin> B"

definition lists_ok :: "sched_st \<Rightarrow> bool" where
  "lists_ok s \<longleftrightarrow> distinct (env_new_queue s) \<and> distinct (env_exit_queue s) \<and>
     (\<forall>q \<in> set (env_ready_queues s). distinct q) \<and>
     set (env_new_queue s) \<union> set (env_exit_queue s) \<union> \<Union> (set ` set (env_ready_queues s)) \<subseteq> {..<nenv s} \<and>
     length (env_ready_queues s) = num_of_ready_queues s \<and> 0 < num_of_ready_queues s"

definition envs_ok :: "sched_st \<Rightarrow> bool" where
  "envs_ok s \<longleftrightarrow> nenv s \<le> 2 ^ log2nenv s \<and>
     (\<forall>e < nenv s. 0 \<le> priority (envs s e) \<and> priority (envs s e) < int (num_of_ready_queues s) \<and>
        (env_status (envs s e) \<noteq> ENV_FREE \<longrightarrow> 0 < env_id (envs s e) \<and> ENVX (env_id (envs s e)) s = e))"

definition quantums_ok :: "sched_st \<Rightarrow> bool" where
  "quantums_ok s \<longleftrightarrow> quantums s \<noteq> [] \<and> 0 < hd (quantums s) \<and> hd (quantums s) < 54 \<and>
     (scheduler_method s = SCH_RR \<and> num_of_ready_queues s = 1 \<or> scheduler_method s = SCH_PRIRR)"

definition q_inv :: "nat set \<Rightarrow> nat set \<Rightarrow> sched_st \<Rightarrow> bool" where
  "q_inv L B s \<longleftrightarrow> lists_ok s \<and> envs_ok s \<and> quantums_ok s \<and> B \<subseteq> {..<nenv s} \<and>
     (\<forall>e < nenv s. if e \<in> L then unplaced B s e else placed B s e) \<and>
     (case cpu_proc s of
        None \<Rightarrow> True
      | Some p \<Rightarrow> p < nenv s \<and>
          (p \<in> L \<or> env_status (envs s p) = ENV_RUNNING \<or> env_status (envs s p) = ENV_READY))"

text \<open>Between two kernel operations nothing is on its way, and the queue lock is held by the scheduler only.\<close>

definition sched_inv :: "nat set \<Rightarrow> sched_st \<Rightarrow> bool" where
  "sched_inv B s \<longleftrightarrow> q_inv {} B s \<and> (qlock s \<longleftrightarrow> ctx s = In_scheduler) \<and> ncli s = (if qlock s then 1 else 0) \<and>
     (case ctx s of
        In_process \<Rightarrow> \<exists>p. cpu_proc s = Some p \<and> env_status (envs s p) = ENV_RUNNING
      | In_scheduler \<Rightarrow> (\<forall>p. cpu_proc s = Some p \<longrightarrow> env_status (envs s p) = ENV_READY)
      | _ \<Rightarrow> cpu_proc s = None)"

lemma upd_env_simps [simp]:
  "envs (upd_env e f s) = (envs s)(e := f (envs s e))"
  "nenv (upd_env e f s) = nenv s" "log2nenv (upd_env e f s) = log2nenv s"
  "env_new_queue (upd_env e f s) = env_new_queue s" "env_exit_queue (upd_env e f s) = env_exit_queue s"
  "env_ready_queues (upd_env e f s) = env_ready_queues s" "num_of_ready_queues (upd_env e f s) = num_of_ready_queues s"
  "quantums (upd_env e f s) = quantums s" "scheduler_method (upd_env e f s) = scheduler_method s"
  "cpu_proc (upd_env e f s) = cpu_proc s" "ctx (upd_env e f s) = ctx s" "qlock (upd_env e f s) = qlock s"
  "ncli (upd_env e f s) = ncli s" "scheduler_status (upd_env e f s) = scheduler_status s"
  "starvThreshold (upd_env e f s) = starvThreshold s" "EnableBuffering (upd_env e f s) = EnableBuffering s"
  "kheap (upd_env e f s) = kheap s" "ticks (upd_env e f s) = ticks s"
  by (simp_all add: upd_env_def)

lemma set_ready_queue_simps [simp]:
  "env_ready_queues (set_ready_queue i q s) = (env_ready_queues s)[nat i := q]"
  "envs (set_ready_queue i q s) = envs s" "nenv (set_ready_queue i q s) = nenv s"
  "log2nenv (set_ready_queue i q s) = log2nenv s"
  "env_new_queue (set_ready_queue i q s) = env_new_queue s" "env_exit_queue (set_ready_queue i q s) = env_exit_queue s"
  "num_of_ready_queues (set_ready_queue i q s) = num_of_ready_queues s"
  "quantums (set_ready_queue i q s) = quantums s" "scheduler_method (set_ready_queue i q s) = scheduler_method s"
  "cpu_proc (set_ready_queue i q s) = cpu_proc s" "ctx (set_ready_queue i q s) = ctx s"
  "qlock (set_ready_queue i q s) = qlock s" "ncli (set_ready_queue i q s) = ncli s"
  "scheduler_status (set_ready_queue i q s) = scheduler_status s"
  "starvThreshold (set_ready_queue i q s) = starvThreshold s" "EnableBuffering (set_ready_queue i q s) = EnableBuffering s"
  "kheap (set_ready_queue i q s) = kheap s"
  by (simp_all add: set_ready_queue_def)

lemma ENVX_frame [simp]:
  "ENVX n (upd_env e f s) = ENVX n s" "ENVX n (set_ready_queue i q s) = ENVX n s"
  by (simp_all add: ENVX_def)

lemma q_invD:
  assumes "q_inv L B s"
  shows "lists_ok s" "envs_ok s" "quantums_ok s" "B \<subseteq> {..<nenv s}"
    "\<And>e. e < nenv s \<Longrightarrow> e \<notin> L \<Longrightarrow> placed B s e" "\<And>e. e < nenv s \<Longrightarrow> e \<in> L \<Longrightarrow> unplaced B s e"
  using assms by (auto simp: q_inv_def split: option.splits if_splits)

lemma ready_queue_eq:
  assumes "lists_ok s" "0 \<le> i" "i < int (num_of_ready_queues s)"
  shows "ready_queue i s = Inr (env_ready_queues s ! nat i)" "nat i < length (env_ready_queues s)"
  using assms by (auto simp: ready_queue_def lists_ok_def)

text \<open>Environments with a number that is in use have different numbers.\<close>

lemma env_id_inj:
  assumes "envs_ok s" "e < nenv s" "f < nenv s" "env_status (envs s e) \<noteq> ENV_FREE" "env_status (envs s f) \<noteq> ENV_FREE"
    "env_id (envs s e) = env_id (envs s f)"
  shows "e = f"
  using assms unfolding envs_ok_def by metis

lemma queued_status:
  assumes "q_inv L B s" "q \<in> set (env_ready_queues s)" "e \<in> set q"
  shows "e < nenv s" "env_status (envs s e) = ENV_READY" "e \<notin> L" "cpu_proc s \<noteq> Some e" "0 < env_id (envs s e)"
    "q = env_ready_queues s ! nat (priority (envs s e))" "0 \<le> priority (envs s e)"
proof -
  note I = q_invD [OF assms(1)]
  show e: "e < nenv s" using I(1) assms(2,3) by (auto simp: lists_ok_def)
  show nl: "e \<notin> L" using I(6) [OF e] assms(2,3) by (auto simp: unplaced_def)
  obtain i where i: "i < length (env_ready_queues s)" "q = env_ready_queues s ! i" using assms(2) by (auto simp: in_set_conv_nth)
  have p: "env_status (envs s e) = ENV_READY \<and> priority (envs s e) = int i \<and> cpu_proc s \<noteq> Some e"
    using I(5) [OF e nl] i assms(3) by (auto simp: placed_def)
  then show "env_status (envs s e) = ENV_READY" "cpu_proc s \<noteq> Some e" by auto
  show "q = env_ready_queues s ! nat (priority (envs s e))" "0 \<le> priority (envs s e)" using p i by auto
  show "0 < env_id (envs s e)" using I(2) e p by (simp add: envs_ok_def)
qed

section \<open>Taking an environment off a list and linking it again\<close>

lemma q_invI:
  assumes "lists_ok s" "envs_ok s" "quantums_ok s" "B \<subseteq> {..<nenv s}"
    "\<And>e. e < nenv s \<Longrightarrow> e \<notin> L \<Longrightarrow> placed B s e" "\<And>e. e < nenv s \<Longrightarrow> e \<in> L \<Longrightarrow> unplaced B s e"
    "\<And>p. cpu_proc s = Some p \<Longrightarrow> p < nenv s \<and>
       (p \<in> L \<or> env_status (envs s p) = ENV_RUNNING \<or> env_status (envs s p) = ENV_READY)"
  shows "q_inv L B s"
  using assms by (auto simp: q_inv_def split: option.splits)

lemma q_inv_cpu:
  "q_inv L B s \<Longrightarrow> cpu_proc s = Some p \<Longrightarrow> p < nenv s \<and>
     (p \<in> L \<or> env_status (envs s p) = ENV_RUNNING \<or> env_status (envs s p) = ENV_READY)"
  by (auto simp: q_inv_def)

text \<open>The fields of an environment in limbo may change.\<close>

lemma limbo_update:
  assumes I: "q_inv (insert e L) B s"
    and f: "env_id (f (envs s e)) = env_id (envs s e)" "env_status (envs s e) \<noteq> ENV_FREE"
      "0 \<le> priority (f (envs s e))" "priority (f (envs s e)) < int (num_of_ready_queues s)"
  shows "q_inv (insert e L) B (upd_env e f s)"
proof (rule q_invI)
  note D = q_invD [OF I]
  show "lists_ok (upd_env e f s)" using D(1) by (simp add: lists_ok_def)
  show "quantums_ok (upd_env e f s)" using D(3) by (simp add: quantums_ok_def)
  show "envs_ok (upd_env e f s)" using D(2) f by (auto simp: envs_ok_def)
  show "B \<subseteq> {..<nenv (upd_env e f s)}" using D(4) by simp
  show "placed B (upd_env e f s) x" if "x < nenv (upd_env e f s)" "x \<notin> insert e L" for x
    using D(5) [of x] that by (simp add: placed_def)
  show "unplaced B (upd_env e f s) x" if "x < nenv (upd_env e f s)" "x \<in> insert e L" for x
    using D(6) [of x] that by (simp add: unplaced_def)
  show "p < nenv (upd_env e f s) \<and> (p \<in> insert e L \<or> env_status (envs (upd_env e f s) p) = ENV_RUNNING \<or>
      env_status (envs (upd_env e f s) p) = ENV_READY)" if "cpu_proc (upd_env e f s) = Some p" for p
    using q_inv_cpu [OF I, of p] that by auto
qed

text \<open>A ready queue has changed by one environment \<open>e\<close>.\<close>

lemma nth_update_mem:
  "k < length qs \<Longrightarrow> i < length qs \<Longrightarrow> x \<in> set (qs[k := q] ! i) \<longleftrightarrow> (if i = k then x \<in> set q else x \<in> set (qs ! i))"
  by (simp add: nth_list_update)

lemma lists_ok_set_ready:
  assumes "lists_ok s" "distinct q" "set q \<subseteq> {..<nenv s}"
  shows "lists_ok (set_ready_queue i q s)"
  using assms unfolding lists_ok_def
  by (auto dest!: set_update_subset_insert [THEN subsetD])

lemma put_ready:
  assumes I: "q_inv (insert e L) B s" and e: "e \<notin> L" "e < nenv s" "env_status (envs s e) \<noteq> ENV_FREE" "cpu_proc s \<noteq> Some e"
    and k: "k = priority (envs s e)"
  shows "q_inv L B (set_ready_queue k (e # env_ready_queues s ! nat k) (upd_env e (\<lambda>v. v\<lparr>env_status := ENV_READY\<rparr>) s))"
    (is "q_inv L B ?s")
proof (rule q_invI)
  note D = q_invD [OF I]
  have k': "0 \<le> k" "k < int (num_of_ready_queues s)" using D(2) e(2) k by (auto simp: envs_ok_def)
  note R = ready_queue_eq [OF D(1) k']
  have u: "unplaced B s e" using D(6) [OF e(2)] by simp
  have m: "env_ready_queues s ! nat k \<in> set (env_ready_queues s)" using R(2) by simp
  show "lists_ok ?s"
    using D(1) u m e(2) by (intro lists_ok_set_ready) (auto simp: lists_ok_def unplaced_def)
  show "quantums_ok ?s" using D(3) by (simp add: quantums_ok_def)
  show "envs_ok ?s" using D(2) e(3) by (auto simp: envs_ok_def)
  show "B \<subseteq> {..<nenv ?s}" using D(4) by simp
  show "placed B ?s x" if x: "x < nenv ?s" "x \<notin> L" for x
  proof (cases "x = e")
    case True
    have "e \<in> set ((env_ready_queues s)[nat k := e # env_ready_queues s ! nat k] ! i) \<longleftrightarrow> k = int i"
      if "i < length (env_ready_queues s)" for i
      using nth_update_mem [OF R(2) that] u that k'(1) by (auto simp: unplaced_def)
    then show ?thesis using u e(4) True k by (auto simp: placed_def unplaced_def)
  next
    case False
    have "x \<in> set ((env_ready_queues s)[nat k := e # env_ready_queues s ! nat k] ! i) \<longleftrightarrow> x \<in> set (env_ready_queues s ! i)"
      if "i < length (env_ready_queues s)" for i
      using nth_update_mem [OF R(2) that] False by auto
    then show ?thesis using D(5) [of x] x False by (simp add: placed_def)
  qed
  show "unplaced B ?s x" if x: "x < nenv ?s" "x \<in> L" for x
  proof -
    have "unplaced B s x" "x \<noteq> e" using D(6) [of x] x e(1) by auto
    then show ?thesis using m by (auto simp: unplaced_def dest!: set_update_subset_insert [THEN subsetD])
  qed
  show "p < nenv ?s \<and> (p \<in> L \<or> env_status (envs ?s p) = ENV_RUNNING \<or> env_status (envs ?s p) = ENV_READY)"
    if "cpu_proc ?s = Some p" for p
    using q_inv_cpu [OF I, of p] that e(4) by auto
qed

lemma take_ready:
  assumes I: "q_inv L B s" and k: "0 \<le> k" "k < int (num_of_ready_queues s)" and e: "e \<in> set (env_ready_queues s ! nat k)"
  shows "q_inv (insert e L) B (set_ready_queue k (remove1 e (env_ready_queues s ! nat k)) s)" (is "q_inv _ B ?s")
proof (rule q_invI)
  note D = q_invD [OF I]
  note R = ready_queue_eq [OF D(1) k]
  have m: "env_ready_queues s ! nat k \<in> set (env_ready_queues s)" using R(2) by simp
  have dq: "distinct (env_ready_queues s ! nat k)" using D(1) m by (auto simp: lists_ok_def)
  then have sq: "set (remove1 e (env_ready_queues s ! nat k)) = set (env_ready_queues s ! nat k) - {e}" by (rule set_remove1_eq)
  note Q = queued_status [OF I m e]
  show "lists_ok ?s" using D(1) dq sq m by (intro lists_ok_set_ready) (auto simp: lists_ok_def)
  show "quantums_ok ?s" using D(3) by (simp add: quantums_ok_def)
  show "envs_ok ?s" using D(2) by (simp add: envs_ok_def)
  show "B \<subseteq> {..<nenv ?s}" using D(4) by simp
  show "placed B ?s x" if x: "x < nenv ?s" "x \<notin> insert e L" for x
  proof -
    have "x \<in> set ((env_ready_queues s)[nat k := remove1 e (env_ready_queues s ! nat k)] ! i) \<longleftrightarrow> x \<in> set (env_ready_queues s ! i)"
      if "i < length (env_ready_queues s)" for i
      using nth_update_mem [OF R(2) that] x sq by auto
    then show ?thesis using D(5) [of x] x by (simp add: placed_def)
  qed
  show "unplaced B ?s x" if x: "x < nenv ?s" "x \<in> insert e L" for x
  proof (cases "x = e")
    case True
    have p: "placed B s e" using D(5) [OF Q(1,3)] .
    have "e \<notin> set ((env_ready_queues s)[nat k := remove1 e (env_ready_queues s ! nat k)] ! i)"
      if "i < length (env_ready_queues s)" for i
    proof (cases "i = nat k")
      case False
      have "\<not> (priority (envs s e) = int i)" using p R(2) e False k(1) by (auto simp: placed_def)
      then show ?thesis using p that False nth_update_mem [OF R(2) that] by (auto simp: placed_def)
    qed (use sq that in simp)
    then have "\<forall>q \<in> set ((env_ready_queues s)[nat k := remove1 e (env_ready_queues s ! nat k)]). e \<notin> set q"
      by (metis in_set_conv_nth length_list_update)
    then show ?thesis using p Q(2) True by (auto simp: unplaced_def placed_def)
  next
    case False
    then have "unplaced B s x" using D(6) [of x] x by auto
    then show ?thesis using m sq by (auto simp: unplaced_def dest!: set_update_subset_insert [THEN subsetD])
  qed
  show "p < nenv ?s \<and> (p \<in> insert e L \<or> env_status (envs ?s p) = ENV_RUNNING \<or> env_status (envs ?s p) = ENV_READY)"
    if "cpu_proc ?s = Some p" for p
    using q_inv_cpu [OF I, of p] that by auto
qed

text \<open>The other places: the processor, the NEW and EXIT queues, the channels.\<close>

lemma q_inv_same:
  assumes "q_inv L B s" "env_ready_queues s' = env_ready_queues s" "envs s' = envs s" "nenv s' = nenv s"
    "log2nenv s' = log2nenv s" "num_of_ready_queues s' = num_of_ready_queues s" "quantums s' = quantums s"
    "scheduler_method s' = scheduler_method s" "env_new_queue s' = env_new_queue s" "env_exit_queue s' = env_exit_queue s"
    "cpu_proc s' = cpu_proc s"
  shows "q_inv L B s'"
proof -
  note e = assms(2-)
  have "placed B s' = placed B s" "unplaced B s' = unplaced B s"
    by (simp_all add: placed_def unplaced_def e fun_eq_iff)
  moreover have "lists_ok s' = lists_ok s" "envs_ok s' = envs_ok s" "quantums_ok s' = quantums_ok s"
    by (simp_all add: lists_ok_def envs_ok_def quantums_ok_def ENVX_def e)
  ultimately show ?thesis using assms(1) unfolding q_inv_def e by simp
qed

lemma take_cpu:
  assumes I: "q_inv {} B s" and p: "cpu_proc s = Some p"
  shows "q_inv {p} B (s\<lparr>cpu_proc := None\<rparr>)"
proof (rule q_invI)
  note D = q_invD [OF I]
  have p': "p < nenv s" "env_status (envs s p) = ENV_RUNNING \<or> env_status (envs s p) = ENV_READY"
    using q_inv_cpu [OF I p] by auto
  show "unplaced B (s\<lparr>cpu_proc := None\<rparr>) x" if "x < nenv (s\<lparr>cpu_proc := None\<rparr>)" "x \<in> {p}" for x
  proof -
    have pl: "placed B s p" using D(5) [OF p'(1)] by simp
    then have "\<forall>i < length (env_ready_queues s). p \<notin> set (env_ready_queues s ! i)" using p by (simp add: placed_def)
    then have "\<forall>q \<in> set (env_ready_queues s). p \<notin> set q" by (metis in_set_conv_nth)
    then show ?thesis using pl p'(2) that by (auto simp: unplaced_def placed_def)
  qed
  show "placed B (s\<lparr>cpu_proc := None\<rparr>) x" if "x < nenv (s\<lparr>cpu_proc := None\<rparr>)" "x \<notin> {p}" for x
    using D(5) [of x] that p by (auto simp: placed_def)
qed (use q_invD [OF I] in \<open>auto simp: lists_ok_def envs_ok_def quantums_ok_def ENVX_def\<close>)

lemma put_cpu:
  assumes I: "q_inv {e} B s" and e: "e < nenv s" "env_status (envs s e) \<noteq> ENV_FREE" and st: "st = ENV_RUNNING \<or> st = ENV_READY"
    and c: "cpu_proc s = None"
  shows "q_inv {} B (upd_env e (\<lambda>v. v\<lparr>env_status := st\<rparr>) (s\<lparr>cpu_proc := Some e\<rparr>))" (is "q_inv {} B ?s")
proof (rule q_invI)
  note D = q_invD [OF I]
  have u: "unplaced B s e" using D(6) [OF e(1)] by simp
  show "placed B ?s x" if "x < nenv ?s" "x \<notin> {}" for x
  proof (cases "x = e")
    case True
    have "e \<notin> set (env_ready_queues s ! i)" if "i < length (env_ready_queues s)" for i using u that by (auto simp: unplaced_def)
    then show ?thesis using u st True by (auto simp: placed_def unplaced_def)
  next
    case False
    then show ?thesis using D(5) [of x] that c by (auto simp: placed_def)
  qed
  show "lists_ok ?s" using D(1) by (simp add: lists_ok_def)
  show "quantums_ok ?s" using D(3) by (simp add: quantums_ok_def)
  show "envs_ok ?s" using D(2) e(2) by (auto simp: envs_ok_def ENVX_def)
qed (use q_invD [OF I] e st in auto)

lemma put_exit:
  assumes I: "q_inv (insert e L) B s" and e: "e \<notin> L" "e < nenv s" "env_status (envs s e) \<noteq> ENV_FREE" "cpu_proc s \<noteq> Some e"
  shows "q_inv L B (upd_env e (\<lambda>v. v\<lparr>env_status := ENV_EXIT\<rparr>) (s\<lparr>env_exit_queue := e # env_exit_queue s\<rparr>))" (is "q_inv L B ?s")
proof (rule q_invI)
  note D = q_invD [OF I]
  have u: "unplaced B s e" using D(6) [OF e(2)] by simp
  show "placed B ?s x" if "x < nenv ?s" "x \<notin> L" for x
  proof (cases "x = e")
    case True
    have "e \<notin> set (env_ready_queues s ! i)" if "i < length (env_ready_queues s)" for i using u that by (auto simp: unplaced_def)
    then show ?thesis using u True by (auto simp: placed_def unplaced_def)
  next
    case False
    then show ?thesis using D(5) [of x] that by (auto simp: placed_def)
  qed
  show "unplaced B ?s x" if "x < nenv ?s" "x \<in> L" for x using D(6) [of x] that e(1) by (auto simp: unplaced_def)
  show "lists_ok ?s" using D(1) u e(2) by (auto simp: lists_ok_def unplaced_def)
  show "quantums_ok ?s" using D(3) by (simp add: quantums_ok_def)
  show "envs_ok ?s" using D(2) e(3) by (auto simp: envs_ok_def ENVX_def)
  show "p < nenv ?s \<and> (p \<in> L \<or> env_status (envs ?s p) = ENV_RUNNING \<or> env_status (envs ?s p) = ENV_READY)"
    if "cpu_proc ?s = Some p" for p
    using q_inv_cpu [OF I, of p] that e(4) by auto
qed (use q_invD [OF I] in auto)

lemma take_new:
  assumes I: "q_inv L B s" and e: "e \<in> set (env_new_queue s)"
  shows "q_inv (insert e L) B (s\<lparr>env_new_queue := remove1 e (env_new_queue s)\<rparr>)" (is "q_inv _ B ?s")
    and "e < nenv s" "env_status (envs s e) = ENV_NEW" "e \<notin> L" "cpu_proc s \<noteq> Some e"
proof -
  note D = q_invD [OF I]
  show en: "e < nenv s" using D(1) e by (auto simp: lists_ok_def)
  show nl: "e \<notin> L" using D(6) [OF en] e by (auto simp: unplaced_def)
  have pl: "placed B s e" using D(5) [OF en nl] .
  then show st: "env_status (envs s e) = ENV_NEW" using e by (simp add: placed_def)
  then show nc: "cpu_proc s \<noteq> Some e" using q_inv_cpu [OF I, of e] nl by auto
  have sq: "set (remove1 e (env_new_queue s)) = set (env_new_queue s) - {e}"
    using D(1) by (intro set_remove1_eq) (simp add: lists_ok_def)
  show "q_inv (insert e L) B ?s"
  proof (rule q_invI)
    show "placed B ?s x" if "x < nenv ?s" "x \<notin> insert e L" for x
      using D(5) [of x] that sq by (auto simp: placed_def)
    show "unplaced B ?s x" if "x < nenv ?s" "x \<in> insert e L" for x
    proof (cases "x = e")
      case True
      have "\<forall>i < length (env_ready_queues s). e \<notin> set (env_ready_queues s ! i)" using pl st by (simp add: placed_def)
      then have "\<forall>q \<in> set (env_ready_queues s). e \<notin> set q" by (metis in_set_conv_nth)
      then show ?thesis using pl st sq True by (auto simp: placed_def unplaced_def)
    next
      case False
      then show ?thesis using D(6) [of x] that sq by (auto simp: unplaced_def)
    qed
    show "lists_ok ?s" using D(1) sq by (auto simp: lists_ok_def)
    show "quantums_ok ?s" using D(3) by (simp add: quantums_ok_def)
    show "envs_ok ?s" using D(2) by (auto simp: envs_ok_def ENVX_def)
    show "p < nenv ?s \<and> (p \<in> insert e L \<or> env_status (envs ?s p) = ENV_RUNNING \<or> env_status (envs ?s p) = ENV_READY)"
      if "cpu_proc ?s = Some p" for p
      using q_inv_cpu [OF I, of p] that by auto
  qed (use D in auto)
qed

lemma put_blocked:
  assumes I: "q_inv (insert e L) B s" and e: "e \<notin> L" "e < nenv s" "env_status (envs s e) \<noteq> ENV_FREE" "cpu_proc s \<noteq> Some e"
  shows "q_inv L (insert e B) (upd_env e (\<lambda>v. v\<lparr>env_status := ENV_BLOCKED, channel := c\<rparr>) s)" (is "q_inv L _ ?s")
proof (rule q_invI)
  note D = q_invD [OF I]
  have u: "unplaced B s e" using D(6) [OF e(2)] by simp
  show "placed (insert e B) ?s x" if "x < nenv ?s" "x \<notin> L" for x
  proof (cases "x = e")
    case True
    have "e \<notin> set (env_ready_queues s ! i)" if "i < length (env_ready_queues s)" for i using u that by (auto simp: unplaced_def)
    then show ?thesis using u True by (auto simp: placed_def unplaced_def)
  next
    case False
    then show ?thesis using D(5) [of x] that by (auto simp: placed_def)
  qed
  show "unplaced (insert e B) ?s x" if "x < nenv ?s" "x \<in> L" for x using D(6) [of x] that e(1) by (auto simp: unplaced_def)
  show "lists_ok ?s" using D(1) by (simp add: lists_ok_def)
  show "quantums_ok ?s" using D(3) by (simp add: quantums_ok_def)
  show "envs_ok ?s" using D(2) e(3) by (auto simp: envs_ok_def)
  show "p < nenv ?s \<and> (p \<in> L \<or> env_status (envs ?s p) = ENV_RUNNING \<or> env_status (envs ?s p) = ENV_READY)"
    if "cpu_proc ?s = Some p" for p
    using q_inv_cpu [OF I, of p] that e(4) by auto
qed (use q_invD [OF I] e in auto)

lemma take_blocked:
  assumes I: "q_inv L B s" and e: "e \<in> B"
  shows "q_inv (insert e L) (B - {e}) s"
    and "e < nenv s" "env_status (envs s e) = ENV_BLOCKED" "e \<notin> L" "cpu_proc s \<noteq> Some e"
proof -
  note D = q_invD [OF I]
  show en: "e < nenv s" using D(4) e by auto
  show nl: "e \<notin> L" using D(6) [OF en] e by (auto simp: unplaced_def)
  have pl: "placed B s e" using D(5) [OF en nl] .
  then show st: "env_status (envs s e) = ENV_BLOCKED" using e by (simp add: placed_def)
  then show nc: "cpu_proc s \<noteq> Some e" using q_inv_cpu [OF I, of e] nl by auto
  show "q_inv (insert e L) (B - {e}) s"
  proof (rule q_invI)
    show "placed (B - {e}) s x" if "x < nenv s" "x \<notin> insert e L" for x
      using D(5) [of x] that by (auto simp: placed_def)
    show "unplaced (B - {e}) s x" if "x < nenv s" "x \<in> insert e L" for x
    proof (cases "x = e")
      case True
      have "\<forall>i < length (env_ready_queues s). e \<notin> set (env_ready_queues s ! i)" using pl st by (simp add: placed_def)
      then have "\<forall>q \<in> set (env_ready_queues s). e \<notin> set q" by (metis in_set_conv_nth)
      then show ?thesis using pl st True by (auto simp: placed_def unplaced_def)
    next
      case False
      then show ?thesis using D(6) [of x] that by (auto simp: unplaced_def)
    qed
    show "p < nenv s \<and> (p \<in> insert e L \<or> env_status (envs s p) = ENV_RUNNING \<or> env_status (envs s p) = ENV_READY)"
      if "cpu_proc s = Some p" for p
      using q_inv_cpu [OF I, of p] that by auto
  qed (use D in auto)
qed

section \<open>One turn of the scheduler\<close>

lemma sched_invD:
  assumes "sched_inv B s"
  shows "q_inv {} B s" "qlock s \<longleftrightarrow> ctx s = In_scheduler" "ncli s = (if qlock s then 1 else 0)"
    "ctx s = In_process \<Longrightarrow> \<exists>p. cpu_proc s = Some p \<and> env_status (envs s p) = ENV_RUNNING"
    "ctx s = In_scheduler \<Longrightarrow> cpu_proc s = Some p \<Longrightarrow> env_status (envs s p) = ENV_READY"
  using assms by (auto simp: sched_inv_def)

lemma yield_ok:
  assumes I: "sched_inv B s" and c: "ctx s = In_process"
  shows "\<exists>s'. yield s = Inr s' \<and> sched_inv B s' \<and> ctx s' = In_scheduler \<and> cpu_proc s' = cpu_proc s \<and>
    env_ready_queues s' = env_ready_queues s \<and> scheduler_method s' = scheduler_method s \<and> ticks s' = ticks s \<and> nenv s' = nenv s \<and>
    (\<forall>e. cpu_proc s \<noteq> Some e \<longrightarrow> envs s' e = envs s e)"
proof -
  note D = sched_invD [OF I]
  obtain p where p: "cpu_proc s = Some p" "env_status (envs s p) = ENV_RUNNING" using D(4) c by auto
  let ?s = "upd_env p (\<lambda>v. v\<lparr>env_status := ENV_READY\<rparr>) (s\<lparr>qlock := True, ncli := 1, ctx := In_scheduler\<rparr>)"
  have l: "qlock s = False" "ncli s = 0" using D(2,3) c by auto
  have y: "yield s = Inr (?s\<lparr>cpu_proc := Some p\<rparr>)"
    using l p by (simp add: yield_def acquire_qlock_def sched_def scheduler_resumed_def upd_env_def)
  have pn: "p < nenv s" using q_inv_cpu [OF D(1) p(1)] by simp
  have "q_inv {} B (upd_env p (\<lambda>v. v\<lparr>env_status := ENV_READY\<rparr>) ((s\<lparr>cpu_proc := None\<rparr>)\<lparr>cpu_proc := Some p\<rparr>))"
    using put_cpu [OF take_cpu [OF D(1) p(1)], of ENV_READY] pn p(2) by simp
  then have "q_inv {} B (?s\<lparr>cpu_proc := Some p\<rparr>)" by (rule q_inv_same) (simp_all add: upd_env_def)
  then show ?thesis using y p by (simp add: sched_inv_def)
qed

definition requeue :: "sched_st \<Rightarrow> sched_st" where
  "requeue s = (case cpu_proc s of
       None \<Rightarrow> s
     | Some p \<Rightarrow> set_ready_queue (priority (envs s p)) (p # env_ready_queues s ! nat (priority (envs s p))) (s\<lparr>cpu_proc := None\<rparr>))"

lemma upd_env_same: "f (envs s e) = envs s e \<Longrightarrow> upd_env e f s = s"
  by (simp add: upd_env_def)

lemma requeue_inv:
  assumes I: "sched_inv B s" and c: "ctx s = In_scheduler"
  shows "q_inv {} B (requeue s)"
proof (cases "cpu_proc s")
  case None
  then show ?thesis using sched_invD(1) [OF I] by (simp add: requeue_def)
next
  case (Some p)
  note D = sched_invD [OF I]
  have r: "env_status (envs s p) = ENV_READY" using D(5) [OF c Some] .
  have pn: "p < nenv s" using q_inv_cpu [OF D(1) Some] by simp
  let ?s = "s\<lparr>cpu_proc := None\<rparr>"
  have e: "(envs s p)\<lparr>env_status := ENV_READY\<rparr> = envs s p" using r by (cases "envs s p") simp
  have u: "upd_env p (\<lambda>v. v\<lparr>env_status := ENV_READY\<rparr>) ?s = ?s" by (rule upd_env_same) (simp add: e)
  have "q_inv {} B (set_ready_queue (priority (envs ?s p)) (p # env_ready_queues ?s ! nat (priority (envs ?s p)))
      (upd_env p (\<lambda>v. v\<lparr>env_status := ENV_READY\<rparr>) ?s))"
    by (rule put_ready [OF take_cpu [OF D(1) Some]]) (use pn r in simp_all)
  then show ?thesis using u by (simp add: requeue_def Some)
qed

lemma requeue_simps [simp]:
  "envs (requeue s) = envs s" "nenv (requeue s) = nenv s" "num_of_ready_queues (requeue s) = num_of_ready_queues s"
  "quantums (requeue s) = quantums s" "cpu_proc (requeue s) = None" "qlock (requeue s) = qlock s"
  "scheduler_method (requeue s) = scheduler_method s" "ncli (requeue s) = ncli s" "ctx (requeue s) = ctx s"
  "length (env_ready_queues (requeue s)) = length (env_ready_queues s)"
  by (simp_all add: requeue_def split: option.split)

lemma dequeue_eq: "distinct q \<Longrightarrow> q \<noteq> [] \<Longrightarrow> dequeue q = Inr (Some (last q), butlast q)"
  by (simp add: dequeue_def list_remove_def remove1_last)

lemma pick_from_spec:
  assumes "lists_ok s" "i + n = num_of_ready_queues s"
  shows "(\<exists>k. i \<le> k \<and> k < i + n \<and> env_ready_queues s ! k \<noteq> [] \<and> (\<forall>j. i \<le> j \<and> j < k \<longrightarrow> env_ready_queues s ! j = []) \<and>
           pick_from n i s = Inr (Some (last (env_ready_queues s ! k)), set_ready_queue (int k) (butlast (env_ready_queues s ! k)) s)) \<or>
         (\<forall>j. i \<le> j \<and> j < i + n \<longrightarrow> env_ready_queues s ! j = []) \<and> pick_from n i s = Inr (None, s)"
  using assms(2)
proof (induction n arbitrary: i)
  case (Suc n)
  have q: "ready_queue (int i) s = Inr (env_ready_queues s ! i)" "i < length (env_ready_queues s)"
    using ready_queue_eq [OF assms(1), of "int i"] Suc.prems by auto
  show ?case
  proof (cases "env_ready_queues s ! i = []")
    case True
    then have e: "pick_from (Suc n) i s = pick_from n (Suc i) s" using q by (simp add: queue_size_def)
    have j: "(i \<le> j \<and> j < k) \<longleftrightarrow> j = i \<and> i < k \<or> Suc i \<le> j \<and> j < k" for j k by auto
    have "Suc i + n = num_of_ready_queues s" using Suc.prems by simp
    from Suc.IH [OF this] show ?thesis
    proof (elim disjE exE conjE)
      fix k assume k: "Suc i \<le> k" "k < Suc i + n" "env_ready_queues s ! k \<noteq> []" "\<forall>j. Suc i \<le> j \<and> j < k \<longrightarrow> env_ready_queues s ! j = []"
        "pick_from n (Suc i) s = Inr (Some (last (env_ready_queues s ! k)), set_ready_queue (int k) (butlast (env_ready_queues s ! k)) s)"
      then show ?thesis using e True j by (intro disjI1 exI [of _ k]) auto
    next
      assume "\<forall>j. Suc i \<le> j \<and> j < Suc i + n \<longrightarrow> env_ready_queues s ! j = []" "pick_from n (Suc i) s = Inr (None, s)"
      then show ?thesis using e True j [of _ "Suc i + n"] by (intro disjI2) auto
    qed
  next
    case False
    have "distinct (env_ready_queues s ! i)" using assms(1) q(2) by (auto simp: lists_ok_def)
    then have "pick_from (Suc n) i s = Inr (Some (last (env_ready_queues s ! i)), set_ready_queue (int i) (butlast (env_ready_queues s ! i)) s)"
      using False q(1) by (simp add: queue_size_def dequeue_eq)
    then show ?thesis using False by (intro disjI1 exI [of _ i]) auto
  qed
qed auto

text \<open>What every scheduler sees: the queues with the interrupted process linked again.\<close>

definition seen :: "sched_st \<Rightarrow> sched_st" where
  "seen s = (requeue s)\<lparr>cpu_proc := cpu_proc s\<rparr>"

lemma seen_simps [simp]:
  "envs (seen s) = envs s" "nenv (seen s) = nenv s" "num_of_ready_queues (seen s) = num_of_ready_queues s"
  "quantums (seen s) = quantums s" "cpu_proc (seen s) = cpu_proc s" "qlock (seen s) = qlock s"
  "scheduler_method (seen s) = scheduler_method s" "ncli (seen s) = ncli s" "ctx (seen s) = ctx s"
  "env_ready_queues (seen s) = env_ready_queues (requeue s)"
  by (simp_all add: seen_def)

lemma seen_lists:
  assumes "sched_inv B s" "ctx s = In_scheduler"
  shows "lists_ok (seen s)"
  using q_invD(1) [OF requeue_inv [OF assms]] by (simp add: lists_ok_def seen_def)

lemma quantum_ok:
  assumes "quantums_ok s" "quantums s' = quantums s"
  shows "quantum0 s' = Inr (hd (quantums s))" "kclock_set_quantum (hd (quantums s)) t = Inr (t\<lparr>clock_quantum := hd (quantums s)\<rparr>)"
  using assms by (auto simp: quantums_ok_def quantum0_def kclock_set_quantum_def neq_Nil_conv split: list.split)

lemma seen_idle: "cpu_proc s = None \<Longrightarrow> seen s = s"
  by (cases s) (simp add: seen_def requeue_def)

text \<open>The enqueueing of the interrupted process, as the two schedulers do it.\<close>

lemma enqueue_current:
  assumes I: "sched_inv B s" and c: "ctx s = In_scheduler" and p: "cpu_proc s = Some p"
  shows "ready_queue (priority (envs s p)) s = Inr (env_ready_queues s ! nat (priority (envs s p)))"
    and "enqueue (env_ready_queues s ! nat (priority (envs s p))) (Some p) = Inr (p # env_ready_queues s ! nat (priority (envs s p)))"
    and "set_ready_queue (priority (envs s p)) (p # env_ready_queues s ! nat (priority (envs s p))) s = seen s"
proof -
  note D = sched_invD [OF I] and Q = q_invD [OF sched_invD(1) [OF I]]
  have pn: "p < nenv s" using q_inv_cpu [OF D(1) p] by simp
  then have k: "0 \<le> priority (envs s p)" "priority (envs s p) < int (num_of_ready_queues s)" using Q(2) by (auto simp: envs_ok_def)
  note R = ready_queue_eq [OF Q(1) k]
  show "ready_queue (priority (envs s p)) s = Inr (env_ready_queues s ! nat (priority (envs s p)))" using R(1) .
  have "p \<notin> set (env_ready_queues s ! nat (priority (envs s p)))"
    using Q(5) [OF pn] R(2) p by (auto simp: placed_def)
  then show "enqueue (env_ready_queues s ! nat (priority (envs s p))) (Some p) = Inr (p # env_ready_queues s ! nat (priority (envs s p)))"
    by (simp add: enqueue_def list_insert_head_def)
  show "set_ready_queue (priority (envs s p)) (p # env_ready_queues s ! nat (priority (envs s p))) s = seen s"
    using p by (simp add: seen_def requeue_def set_ready_queue_def)
qed

lemma fos_scheduler_RR_eq:
  assumes I: "sched_inv B s" and c: "ctx s = In_scheduler" and m: "scheduler_method s = SCH_RR"
  shows "fos_scheduler_RR s =
    (let q = env_ready_queues (requeue s) ! 0 in
     Inr (if q = [] then None else Some (last q),
          (set_ready_queue 0 (butlast q) (seen s))\<lparr>clock_quantum := hd (quantums s)\<rparr>))"
proof -
  note D = sched_invD [OF I] and Q = q_invD [OF sched_invD(1) [OF I]]
  have lk: "qlock s" using D(2) c by simp
  have n1: "num_of_ready_queues s = 1" using Q(3) m by (auto simp: quantums_ok_def)
  have r0: "ready_queue 0 s = Inr (env_ready_queues s ! 0)" using ready_queue_eq [OF Q(1), of 0] n1 by simp
  note qu = quantum_ok [OF Q(3)]
  have dq: "distinct (env_ready_queues (requeue s) ! 0)"
    using seen_lists [OF I c] n1 by (auto simp: lists_ok_def)
  have len: "length (env_ready_queues s) = 1" using Q(1) n1 by (simp add: lists_ok_def)
  have enq: "andThen (enqueue (env_ready_queues s ! 0) (cpu_proc s)) f = f (env_ready_queues (requeue s) ! 0)"
      "set_ready_queue 0 x s = set_ready_queue 0 x (seen s)" for f :: "nat list \<Rightarrow> (nat option \<times> sched_st) result" and x
  proof -
    show "andThen (enqueue (env_ready_queues s ! 0) (cpu_proc s)) f = f (env_ready_queues (requeue s) ! 0)"
    proof (cases "cpu_proc s")
      case (Some p)
      have "p < nenv s" using q_inv_cpu [OF D(1) Some] by simp
      then have "priority (envs s p) = 0" using Q(2) n1 by (auto simp: envs_ok_def)
      then show ?thesis using enqueue_current [OF I c Some] len by (simp add: requeue_def Some)
    qed (simp add: enqueue_def requeue_def)
    show "set_ready_queue 0 x s = set_ready_queue 0 x (seen s)"
    proof (cases "cpu_proc s")
      case (Some p)
      have "p < nenv s" using q_inv_cpu [OF D(1) Some] by simp
      then have "priority (envs s p) = 0" using Q(2) n1 by (auto simp: envs_ok_def)
      then show ?thesis using Some by (simp add: seen_def requeue_def set_ready_queue_def)
    qed (simp add: seen_idle)
  qed
  show ?thesis
  proof (cases "env_ready_queues (requeue s) ! 0 = []")
    case True
    then show ?thesis using lk qu by (simp add: fos_scheduler_RR_def r0 enq dequeue_def Let_def)
  next
    case False
    then show ?thesis using lk qu dq by (simp add: fos_scheduler_RR_def r0 enq dequeue_eq Let_def)
  qed
qed

lemma fos_scheduler_PRIRR_eq:
  assumes I: "sched_inv B s" and c: "ctx s = In_scheduler"
  shows "fos_scheduler_PRIRR s =
    andThen (pick_from (num_of_ready_queues s) 0 (seen s)) (\<lambda>(enew, t).
      case enew of
        None \<Rightarrow> Inr (None, t)
      | Some e \<Rightarrow> andThen (quantum0 t) (\<lambda>qu.
          andThen (kclock_set_quantum qu (upd_env e (\<lambda>v. v\<lparr>starvcounteer := 0\<rparr>) t)) (\<lambda>s. Inr (Some e, s))))"
proof -
  note D = sched_invD [OF I]
  have lk: "qlock s" using D(2) c by simp
  show ?thesis
  proof (cases "cpu_proc s")
    case None
    then have "seen s = s" by (rule seen_idle)
    then show ?thesis using lk None by (simp add: fos_scheduler_PRIRR_def cong: option.case_cong)
  next
    case (Some p)
    then show ?thesis
      using lk enqueue_current [OF I c Some] D(5) [OF c Some]
      by (simp add: fos_scheduler_PRIRR_def cong: option.case_cong)
  qed
qed

text \<open>
  What \<^verbatim>\<open>sched_next\<close> of either scheduler does: the oldest process of the first ready queue
  that is not empty is unlinked; it is \<^verbatim>\<open>NULL\<close> only when no process is ready.
\<close>

definition picked :: "nat \<Rightarrow> sched_st \<Rightarrow> sched_st" where
  "picked k s =
     (let q = env_ready_queues (requeue s) ! k in
      (upd_env (last q) (\<lambda>v. v\<lparr>starvcounteer := (if scheduler_method s = SCH_PRIRR then 0 else starvcounteer v)\<rparr>)
         (set_ready_queue (int k) (butlast q) (seen s)))\<lparr>clock_quantum := hd (quantums s)\<rparr>)"

lemma seen_lists_idle:
  assumes "\<forall>j < length (env_ready_queues s). env_ready_queues (requeue s) ! j = []" "sched_inv B s" "ctx s = In_scheduler"
  shows "cpu_proc s = None"
proof (rule ccontr)
  assume "cpu_proc s \<noteq> None"
  then obtain p where p: "cpu_proc s = Some p" by auto
  note D = sched_invD [OF assms(2)] and Q = q_invD [OF sched_invD(1) [OF assms(2)]]
  have pn: "p < nenv s" using q_inv_cpu [OF D(1) p] by simp
  then have k: "0 \<le> priority (envs s p)" "priority (envs s p) < int (num_of_ready_queues s)" using Q(2) by (auto simp: envs_ok_def)
  have "env_ready_queues (requeue s) ! nat (priority (envs s p)) = p # env_ready_queues s ! nat (priority (envs s p))"
    using ready_queue_eq(2) [OF Q(1) k] p by (simp add: requeue_def)
  then show False using assms(1) ready_queue_eq(2) [OF Q(1) k] by simp
qed

lemma sched_next_spec:
  assumes I: "sched_inv B s" and c: "ctx s = In_scheduler"
  shows "(\<exists>k < num_of_ready_queues s. env_ready_queues (requeue s) ! k \<noteq> [] \<and>
            (\<forall>j < k. env_ready_queues (requeue s) ! j = []) \<and>
            sched_next s = Inr (Some (last (env_ready_queues (requeue s) ! k)), picked k s)) \<or>
         (\<forall>j < num_of_ready_queues s. env_ready_queues (requeue s) ! j = []) \<and> cpu_proc s = None \<and>
            (\<exists>q. sched_next s = Inr (None, s\<lparr>clock_quantum := q\<rparr>))"
proof -
  note D = sched_invD [OF I] and Q = q_invD [OF sched_invD(1) [OF I]]
  have len: "length (env_ready_queues s) = num_of_ready_queues s" using Q(1) by (simp add: lists_ok_def)
  have M: "scheduler_method s = SCH_RR \<and> num_of_ready_queues s = 1 \<or> scheduler_method s = SCH_PRIRR"
    using Q(3) by (simp add: quantums_ok_def)
  show ?thesis
  proof (cases "scheduler_method s = SCH_RR")
    case True
    note e = fos_scheduler_RR_eq [OF I c True]
    have n1: "num_of_ready_queues s = 1" using M True by simp
    show ?thesis
    proof (cases "env_ready_queues (requeue s) ! 0 = []")
      case False
      have "sched_next s = Inr (Some (last (env_ready_queues (requeue s) ! 0)), picked 0 s)"
        using True False by (simp add: sched_next_def e picked_def Let_def upd_env_same)
      then show ?thesis using False n1 by (intro disjI1 exI [of _ 0]) simp
    next
      case z: True
      have p: "cpu_proc s = None" by (rule seen_lists_idle [OF _ I c]) (simp add: z len n1)
      have "env_ready_queues s = [[]]" using z n1 len p by (cases "env_ready_queues s") (auto simp: requeue_def)
      then have r: "set_ready_queue 0 [] s = s" by (cases s) (simp add: set_ready_queue_def)
      have "sched_next s = Inr (None, s\<lparr>clock_quantum := hd (quantums s)\<rparr>)"
        using True z r seen_idle [OF p] by (simp add: sched_next_def e Let_def)
      then show ?thesis using z n1 p by (intro disjI2) auto
    qed
  next
    case False
    then have m: "scheduler_method s = SCH_PRIRR" using M by simp
    note e = fos_scheduler_PRIRR_eq [OF I c] and qu = quantum_ok [OF Q(3)]
    have "0 + num_of_ready_queues s = num_of_ready_queues (seen s)" by simp
    from pick_from_spec [OF seen_lists [OF I c] this] show ?thesis
    proof (elim disjE exE conjE)
      fix k assume k: "0 \<le> k" "k < 0 + num_of_ready_queues s" "env_ready_queues (seen s) ! k \<noteq> []"
        "\<forall>j. 0 \<le> j \<and> j < k \<longrightarrow> env_ready_queues (seen s) ! j = []"
        "pick_from (num_of_ready_queues s) 0 (seen s) =
           Inr (Some (last (env_ready_queues (seen s) ! k)), set_ready_queue (int k) (butlast (env_ready_queues (seen s) ! k)) (seen s))"
      have "sched_next s = Inr (Some (last (env_ready_queues (requeue s) ! k)), picked k s)"
        using m k(5) qu by (simp add: sched_next_def e picked_def Let_def)
      then show ?thesis using k(2-4) by (intro disjI1 exI [of _ k]) simp
    next
      assume z: "\<forall>j. 0 \<le> j \<and> j < 0 + num_of_ready_queues s \<longrightarrow> env_ready_queues (seen s) ! j = []"
        and n: "pick_from (num_of_ready_queues s) 0 (seen s) = Inr (None, seen s)"
      have p: "cpu_proc s = None" by (rule seen_lists_idle [OF _ I c]) (use z len in simp)
      have "sched_next s = Inr (None, s\<lparr>clock_quantum := clock_quantum s\<rparr>)"
        using m n seen_idle [OF p] by (simp add: sched_next_def e)
      then have "\<exists>q. sched_next s = Inr (None, s\<lparr>clock_quantum := q\<rparr>)" by (rule exI)
      then show ?thesis using z p by (intro disjI2) auto
    qed
  qed
qed

lemma q_inv_picked:
  assumes I: "sched_inv B s" and c: "ctx s = In_scheduler" and k: "k < num_of_ready_queues s"
    and q: "q = env_ready_queues (requeue s) ! k" "q \<noteq> []"
  shows "q_inv {} B (upd_env (last q) (\<lambda>v. v\<lparr>env_status := ENV_RUNNING\<rparr>) ((picked k s)\<lparr>cpu_proc := Some (last q), ctx := In_process\<rparr>))"
    and "last q < nenv s" "env_status (envs s (last q)) = ENV_READY"
proof -
  note R = requeue_inv [OF I c]
  note D = q_invD [OF R]
  let ?e = "last q"
  let ?f = "\<lambda>v. v\<lparr>starvcounteer := (if scheduler_method s = SCH_PRIRR then 0 else starvcounteer v)\<rparr>"
  have len: "k < length (env_ready_queues (requeue s))" using D(1) k by (simp add: lists_ok_def)
  have m: "q \<in> set (env_ready_queues (requeue s))" using q len by simp
  have dq: "distinct q" using D(1) m by (auto simp: lists_ok_def)
  have "?e \<in> set q" using q(2) by simp
  note S = queued_status [OF R m this]
  show en: "last q < nenv s" "env_status (envs s (last q)) = ENV_READY" using S(1,2) by simp_all
  have pr: "0 \<le> priority (envs s ?e)" "priority (envs s ?e) < int (num_of_ready_queues s)"
    using D(2) en by (auto simp: envs_ok_def)
  have "q_inv {?e} B (set_ready_queue (int k) (butlast q) (requeue s))"
    using take_ready [OF R, of "int k" ?e] k q remove1_last [OF dq q(2)] by simp
  then have "q_inv {?e} B (upd_env ?e ?f (set_ready_queue (int k) (butlast q) (requeue s)))"
    by (rule limbo_update) (use en pr in simp_all)
  from put_cpu [OF this, of ENV_RUNNING] en
  have "q_inv {} B (upd_env ?e (\<lambda>v. v\<lparr>env_status := ENV_RUNNING\<rparr>)
      ((upd_env ?e ?f (set_ready_queue (int k) (butlast q) (requeue s)))\<lparr>cpu_proc := Some ?e\<rparr>))" by simp
  then show "q_inv {} B (upd_env ?e (\<lambda>v. v\<lparr>env_status := ENV_RUNNING\<rparr>) ((picked k s)\<lparr>cpu_proc := Some ?e, ctx := In_process\<rparr>))"
    by (rule q_inv_same) (simp_all add: picked_def Let_def q(1) seen_def upd_env_def set_ready_queue_def)
qed

definition dispatch :: "sched_st \<Rightarrow> sched_st result" where
  "dispatch s = andThen (fos_scheduler_turn s) (\<lambda>s. if ctx s = In_process then resume_process s else Inr s)"

lemma is_any_blocked_iff:
  assumes "q_inv {} B s"
  shows "is_any_blocked s \<longleftrightarrow> B \<noteq> {}"
proof -
  note D = q_invD [OF assms]
  have "(env_status (envs s e) = ENV_BLOCKED) = (e \<in> B)" if "e < nenv s" for e
    using D(5) [OF that] by (simp add: placed_def)
  then show ?thesis using D(4) by (fastforce simp: is_any_blocked_def list_ex_iff)
qed

lemma dispatch_spec:
  assumes I: "sched_inv B s" and c: "ctx s = In_scheduler"
  shows "(\<exists>k e s'. k < num_of_ready_queues s \<and> env_ready_queues (requeue s) ! k \<noteq> [] \<and>
            (\<forall>j < k. env_ready_queues (requeue s) ! j = []) \<and> e = last (env_ready_queues (requeue s) ! k) \<and>
            dispatch s = Inr s' \<and> sched_inv B s' \<and> ctx s' = In_process \<and> cpu_proc s' = Some e \<and>
            env_ready_queues s' = (env_ready_queues (requeue s))[k := butlast (env_ready_queues (requeue s) ! k)] \<and>
            envs s' = (envs s)(e := (envs s e)\<lparr>
              starvcounteer := (if scheduler_method s = SCH_PRIRR then 0 else starvcounteer (envs s e)), env_status := ENV_RUNNING\<rparr>) \<and>
            scheduler_method s' = scheduler_method s) \<or>
         (\<forall>j < num_of_ready_queues s. env_ready_queues (requeue s) ! j = []) \<and>
            (\<exists>s'. dispatch s = Inr s' \<and> sched_inv B s' \<and> envs s' = envs s \<and> cpu_proc s' = None \<and>
              ctx s' = (if B = {} then Prompt else Idle_scheduler))"
  using sched_next_spec [OF I c]
proof (elim disjE exE conjE)
  note D = sched_invD [OF I]
  have l: "qlock s" "ncli s = 1" using D(2,3) c by auto
  {
    fix k assume k: "k < num_of_ready_queues s" "env_ready_queues (requeue s) ! k \<noteq> []"
      "\<forall>j < k. env_ready_queues (requeue s) ! j = []"
      "sched_next s = Inr (Some (last (env_ready_queues (requeue s) ! k)), picked k s)"
    let ?e = "last (env_ready_queues (requeue s) ! k)"
    let ?t = "upd_env ?e (\<lambda>v. v\<lparr>env_status := ENV_RUNNING\<rparr>) ((picked k s)\<lparr>cpu_proc := Some ?e, ctx := In_process\<rparr>)"
    note P = q_inv_picked [OF I c k(1) refl k(2)]
    have pl: "qlock (picked k s)" "ncli (picked k s) = 1" using l by (simp_all add: picked_def Let_def)
    have d: "dispatch s = Inr (?t\<lparr>qlock := False, ncli := 0\<rparr>)"
      using k(4) pl by (simp add: dispatch_def fos_scheduler_turn_def resume_process_def release_qlock_def)
    have "q_inv {} B (?t\<lparr>qlock := False, ncli := 0\<rparr>)" using P(1) by (rule q_inv_same) simp_all
    then have "sched_inv B (?t\<lparr>qlock := False, ncli := 0\<rparr>)" by (simp add: sched_inv_def)
    then show ?thesis using k d
      by (intro disjI1 exI [of _ k] exI [of _ ?e] exI [of _ "?t\<lparr>qlock := False, ncli := 0\<rparr>"]) (simp add: picked_def Let_def)
  }
  {
    fix q assume z: "\<forall>j < num_of_ready_queues s. env_ready_queues (requeue s) ! j = []" "cpu_proc s = None"
      and n: "sched_next s = Inr (None, s\<lparr>clock_quantum := q\<rparr>)"
    let ?t = "s\<lparr>clock_quantum := q, qlock := False, ncli := 0, ctx := (if B = {} then Prompt else Idle_scheduler)\<rparr>"
    have "q_inv {} B (s\<lparr>clock_quantum := q\<rparr>)" using D(1) by (rule q_inv_same) simp_all
    note b = is_any_blocked_iff [OF this]
    have d: "dispatch s = Inr ?t"
      using n b l by (simp add: dispatch_def fos_scheduler_turn_def release_qlock_def)
    have "q_inv {} B ?t" using D(1) by (rule q_inv_same) simp_all
    then have "sched_inv B ?t" using z(2) by (simp add: sched_inv_def)
    then show ?thesis using z d by (intro disjI2 conjI exI [of _ ?t]) simp_all
  }
qed

section \<open>Round robin\<close>

text \<open>\<open>n\<close> time slices: in each, the scheduler gives the processor away and takes it back by \<^verbatim>\<open>yield\<close>.\<close>

fun slices :: "nat \<Rightarrow> sched_st \<Rightarrow> (nat list \<times> sched_st) result" where
  "slices 0 s = Inr ([], s)"
| "slices (Suc n) s =
     andThen (dispatch s) (\<lambda>t.
     (case cpu_proc t of
        None \<Rightarrow> Inr ([], t)
      | Some p \<Rightarrow> andThen (yield t) (\<lambda>u. andThen (slices n u) (\<lambda>(ps, v). Inr (p # ps, v)))))"

text \<open>The ready processes of the only queue, the next one first.\<close>

definition rr_order :: "sched_st \<Rightarrow> nat list" where
  "rr_order s = rev (env_ready_queues (requeue s) ! 0)"

lemma rr_one_queue:
  assumes "sched_inv B s" "scheduler_method s = SCH_RR"
  shows "num_of_ready_queues s = 1" "length (env_ready_queues s) = 1"
  using assms by (auto simp: sched_inv_def q_inv_def lists_ok_def quantums_ok_def)

lemma rr_order_yielded:
  assumes "sched_inv B u" "ctx u = In_scheduler" "scheduler_method u = SCH_RR" "cpu_proc u = Some p"
  shows "rr_order u = rev (env_ready_queues u ! 0) @ [p]"
proof -
  note D = sched_invD [OF assms(1)] and n = rr_one_queue [OF assms(1,3)]
  have "p < nenv u" using q_inv_cpu [OF D(1) assms(4)] by simp
  then have "priority (envs u p) = 0" using q_invD(2) [OF D(1)] n by (auto simp: envs_ok_def)
  then show ?thesis using n assms(4) by (simp add: rr_order_def requeue_def)
qed

lemma rr_slice:
  assumes I: "sched_inv B s" and c: "ctx s = In_scheduler" and m: "scheduler_method s = SCH_RR" and ne: "rr_order s \<noteq> []"
  shows "\<exists>t u. dispatch s = Inr t \<and> cpu_proc t = Some (hd (rr_order s)) \<and> yield t = Inr u \<and>
    sched_inv B u \<and> ctx u = In_scheduler \<and> scheduler_method u = SCH_RR \<and> rr_order u = rotate1 (rr_order s)"
proof -
  note n = rr_one_queue [OF I m]
  let ?Q = "env_ready_queues (requeue s) ! 0"
  have ne': "?Q \<noteq> []" using ne by (simp add: rr_order_def)
  from dispatch_spec [OF I c] n ne' obtain t where t: "dispatch s = Inr t" "sched_inv B t" "ctx t = In_process"
      "cpu_proc t = Some (last ?Q)" "env_ready_queues t ! 0 = butlast ?Q" "scheduler_method t = scheduler_method s"
    by auto
  from yield_ok [OF t(2,3)] obtain u where u: "yield t = Inr u" "sched_inv B u" "ctx u = In_scheduler" "cpu_proc u = cpu_proc t"
      "env_ready_queues u = env_ready_queues t" "scheduler_method u = scheduler_method t" by auto
  have "rr_order u = rev (butlast ?Q) @ [last ?Q]"
    using rr_order_yielded [OF u(2,3)] u(4-) t(4-) m by simp
  moreover have "rotate1 (rr_order s) = rev (butlast ?Q) @ [last ?Q]"
    using ne' unfolding rr_order_def by (cases ?Q rule: rev_cases) auto
  moreover have "hd (rr_order s) = last ?Q" using ne' by (simp add: rr_order_def hd_rev)
  ultimately show ?thesis using t u m by auto
qed

lemma nth_rotate1_mod: "R \<noteq> [] \<Longrightarrow> rotate1 R ! (i mod length R) = R ! (Suc i mod length R)"
  by (simp add: nth_rotate1 mod_Suc_eq)

text \<open>
  C21. Round robin is fair. From any consistent state in which some process is ready, the
  \<open>n\<close> next time slices go, cyclically, to the ready processes in the order in which they wait:
  slice \<open>i\<close> goes to process \<open>i mod m\<close> of the \<open>m\<close> processes. No assertion fails, the queues stay consistent
  and after a whole number of rounds the order is the one at the start.
\<close>

theorem round_robin_fair:
  assumes "sched_inv B s" "ctx s = In_scheduler" "scheduler_method s = SCH_RR" "rr_order s \<noteq> []"
  shows "\<exists>v. slices n s = Inr (map (\<lambda>i. rr_order s ! (i mod length (rr_order s))) [0..<n], v) \<and>
    sched_inv B v \<and> ctx v = In_scheduler \<and> rr_order v = rotate n (rr_order s)"
  using assms
proof (induction n arbitrary: s)
  case (Suc n)
  let ?R = "rr_order s"
  from rr_slice [OF Suc.prems] obtain t u where u: "dispatch s = Inr t" "cpu_proc t = Some (hd ?R)" "yield t = Inr u"
    "sched_inv B u" "ctx u = In_scheduler" "scheduler_method u = SCH_RR" "rr_order u = rotate1 ?R" by auto
  from Suc.IH [OF u(4-6)] u(7) Suc.prems(4) obtain v where
    v: "slices n u = Inr (map (\<lambda>i. rotate1 ?R ! (i mod length ?R)) [0..<n], v)" "sched_inv B v" "ctx v = In_scheduler"
      "rr_order v = rotate n (rotate1 ?R)" by auto
  have "map (\<lambda>i. ?R ! (i mod length ?R)) [0..<Suc n] = hd ?R # map (\<lambda>i. rotate1 ?R ! (i mod length ?R)) [0..<n]"
    using Suc.prems(4) by (simp add: map_upt_Suc nth_rotate1_mod hd_conv_nth del: upt_Suc)
  moreover have "rotate (Suc n) ?R = rotate n (rotate1 ?R)" by (simp add: rotate1_rotate_swap)
  ultimately show ?case using u v by simp
qed simp

text \<open>
  Sample states with four environments: 0 is new, the others are ready in one queue, or
  spread over two queues of which the second is the lower priority.
\<close>

definition sample_env :: "nat \<Rightarrow> env_status \<Rightarrow> int \<Rightarrow> env" where
  "sample_env i st pr = zero_env\<lparr>env_id := int (4 + i), env_parent_id := 4, env_status := st, priority := pr\<rparr>"

definition sample_sched :: sched_st where
  "sample_sched =
     \<lparr>nenv = 4, log2nenv = 2,
      envs = (\<lambda>i. sample_env i (if i = 0 then ENV_NEW else ENV_READY) 0),
      env_free_list = [], qlock = True, ncli = 1, env_new_queue = [0], env_exit_queue = [],
      env_ready_queues = [[3, 2, 1]], ready_queues_ptr = 0, quantums = [10], quantums_ptr = 0,
      num_of_ready_queues = 1, cpu_proc = None, ctx = In_scheduler, scheduler_status = SCH_STARTED,
      scheduler_method = SCH_RR, starvThreshold = 5, ticks = 0, clock_quantum = 10, EnableBuffering = False,
      kheap = boot_kmem\<rparr>"

definition sample_prirr :: sched_st where
  "sample_prirr = sample_sched\<lparr>env_ready_queues := [[3], [2, 1]], num_of_ready_queues := 2, quantums := [10, 10],
     scheduler_method := SCH_PRIRR,
     envs := (\<lambda>i. sample_env i (if i = 0 then ENV_NEW else ENV_READY) (if i = 1 \<or> i = 2 then 1 else 0))\<rparr>"

text \<open>The same with environment 3 on the processor.\<close>

definition sample_running :: "sched_st \<Rightarrow> sched_st" where
  "sample_running s = (upd_env 3 (\<lambda>v. v\<lparr>env_status := ENV_RUNNING\<rparr>) s)\<lparr>
     env_ready_queues := (env_ready_queues s)[0 := remove1 3 (env_ready_queues s ! 0)],
     cpu_proc := Some 3, ctx := In_process, qlock := False, ncli := 0\<rparr>"

lemma less4: "(\<forall>e < (4::nat). P e) \<longleftrightarrow> P 0 \<and> P 1 \<and> P 2 \<and> P 3"
  by (auto simp: eval_nat_numeral less_Suc_eq)

lemmas sched_inv_defs = sched_inv_def q_inv_def lists_ok_def envs_ok_def quantums_ok_def placed_def unplaced_def ENVX_def

lemma sample_sched_inv: "sched_inv {} sample_sched"
  by (simp add: sched_inv_defs sample_sched_def sample_env_def zero_env_def less4)

lemma sample_prirr_inv: "sched_inv {} sample_prirr"
  by (simp add: sched_inv_defs sample_prirr_def sample_sched_def sample_env_def zero_env_def less4 All_less_Suc)

lemma sample_running_inv: "sched_inv {} (sample_running sample_sched)" "sched_inv {} (sample_running sample_prirr)"
  by (simp_all add: sched_inv_defs sample_running_def sample_prirr_def sample_sched_def sample_env_def zero_env_def less4 All_less_Suc upd_env_def)

theorem round_robin_fair_witness:
  "\<exists>v. slices 7 sample_sched = Inr ([1, 2, 3, 1, 2, 3, 1], v) \<and>
    sched_inv {} v \<and> ctx v = In_scheduler \<and> rr_order v = [2, 3, 1]"
proof -
  have r: "rr_order sample_sched = [1, 2, 3]" by (simp add: rr_order_def requeue_def sample_sched_def)
  have u: "map (\<lambda>i. [1, 2, 3] ! (i mod length [1, 2, 3 :: nat])) [0..<7] = [1, 2, 3, 1, 2, 3, 1 :: nat]"
    "rotate 7 [1, 2, 3 :: nat] = [2, 3, 1]" by code_simp+
  have "ctx sample_sched = In_scheduler" "scheduler_method sample_sched = SCH_RR" by (simp_all add: sample_sched_def)
  from round_robin_fair [OF sample_sched_inv this, of 7] show ?thesis unfolding r u by simp
qed

section \<open>Priority scheduling\<close>

lemma ready_in_requeue:
  assumes "sched_inv B s" "ctx s = In_scheduler" "f < nenv s" "env_status (envs s f) = ENV_READY"
  shows "f \<in> set (env_ready_queues (requeue s) ! nat (priority (envs s f)))" "nat (priority (envs s f)) < num_of_ready_queues s"
    "0 \<le> priority (envs s f)"
proof -
  note D = q_invD [OF requeue_inv [OF assms(1,2)]]
  have p: "0 \<le> priority (envs s f)" "priority (envs s f) < int (num_of_ready_queues s)" using D(2) assms(3) by (auto simp: envs_ok_def)
  then show "nat (priority (envs s f)) < num_of_ready_queues s" "0 \<le> priority (envs s f)" by auto
  moreover have "length (env_ready_queues (requeue s)) = num_of_ready_queues s" using D(1) by (simp add: lists_ok_def)
  ultimately show "f \<in> set (env_ready_queues (requeue s) ! nat (priority (envs s f)))"
    using D(5) [of f] assms(3,4) by (auto simp: placed_def)
qed

lemma in_requeue_ready:
  assumes "sched_inv B s" "ctx s = In_scheduler" "k < num_of_ready_queues s" "e \<in> set (env_ready_queues (requeue s) ! k)"
  shows "e < nenv s" "env_status (envs s e) = ENV_READY" "priority (envs s e) = int k"
proof -
  note R = requeue_inv [OF assms(1,2)]
  note D = q_invD [OF R]
  have len: "length (env_ready_queues (requeue s)) = num_of_ready_queues s" using D(1) by (simp add: lists_ok_def)
  have m: "env_ready_queues (requeue s) ! k \<in> set (env_ready_queues (requeue s))" using len assms(3) by simp
  note S = queued_status [OF R m assms(4)]
  show "e < nenv s" "env_status (envs s e) = ENV_READY" using S(1,2) by simp_all
  show "priority (envs s e) = int k" using D(5) [OF S(1)] S(3) len assms(3,4) by (auto simp: placed_def)
qed

text \<open>
  C23. The scheduler never leaves a more urgent process waiting. When some environment is ready (the
  interrupted one included), the one that gets the processor is ready, none that is ready has a smaller
  priority number, and among those of its priority it has waited longest. It runs, its starvation counter
  is back at 0 under priority scheduling, no other environment changes and the queues stay consistent. When none
  is ready the scheduler goes idle if some environment is blocked, and back to the prompt otherwise.
\<close>

theorem priority_dispatch:
  assumes I: "sched_inv B s" and c: "ctx s = In_scheduler"
  shows "\<exists>s'. dispatch s = Inr s' \<and> sched_inv B s' \<and>
    (if \<exists>f < nenv s. env_status (envs s f) = ENV_READY
     then \<exists>e < nenv s. cpu_proc s' = Some e \<and> ctx s' = In_process \<and> env_status (envs s e) = ENV_READY \<and>
       (\<forall>f < nenv s. env_status (envs s f) = ENV_READY \<longrightarrow> priority (envs s e) \<le> priority (envs s f)) \<and>
       e = last (env_ready_queues (requeue s) ! nat (priority (envs s e))) \<and>
       env_status (envs s' e) = ENV_RUNNING \<and> (scheduler_method s = SCH_PRIRR \<longrightarrow> starvcounteer (envs s' e) = 0) \<and>
       (\<forall>f. f \<noteq> e \<longrightarrow> envs s' f = envs s f)
     else cpu_proc s' = None \<and> envs s' = envs s \<and> ctx s' = (if B = {} then Prompt else Idle_scheduler))"
  using dispatch_spec [OF I c]
proof (elim disjE exE conjE)
  fix k e s'
  assume k: "k < num_of_ready_queues s" "env_ready_queues (requeue s) ! k \<noteq> []" "\<forall>j < k. env_ready_queues (requeue s) ! j = []"
    and e: "e = last (env_ready_queues (requeue s) ! k)"
    and s': "dispatch s = Inr s'" "sched_inv B s'" "ctx s' = In_process" "cpu_proc s' = Some e"
      "envs s' = (envs s)(e := (envs s e)\<lparr>
              starvcounteer := (if scheduler_method s = SCH_PRIRR then 0 else starvcounteer (envs s e)), env_status := ENV_RUNNING\<rparr>)"
  have "e \<in> set (env_ready_queues (requeue s) ! k)" using e k(2) by simp
  note E = in_requeue_ready [OF I c k(1) this]
  have least: "priority (envs s e) \<le> priority (envs s f)" if f: "f < nenv s" "env_status (envs s f) = ENV_READY" for f
  proof -
    note F = ready_in_requeue [OF I c f]
    have "\<not> nat (priority (envs s f)) < k" using k(3) F(1) by fastforce
    then show ?thesis using E(3) F(3) by simp
  qed
  then show ?thesis using s' E e by (intro exI [of _ s']) auto
next
  fix s'
  assume z: "\<forall>j < num_of_ready_queues s. env_ready_queues (requeue s) ! j = []"
    and s': "dispatch s = Inr s'" "sched_inv B s'" "envs s' = envs s" "cpu_proc s' = None" "ctx s' = (if B = {} then Prompt else Idle_scheduler)"
  have "\<not> (f < nenv s \<and> env_status (envs s f) = ENV_READY)" for f using ready_in_requeue [OF I c, of f] z by auto
  then show ?thesis using s' by (intro exI [of _ s']) auto
qed

theorem priority_dispatch_witness:
  "\<exists>s'. dispatch sample_prirr = Inr s' \<and> sched_inv {} s' \<and> cpu_proc s' = Some 3 \<and> env_status (envs s' 3) = ENV_RUNNING"
proof -
  have q: "env_ready_queues (requeue sample_prirr) = [[3], [2, 1]]"
    by (simp add: requeue_def sample_prirr_def sample_sched_def)
  have st: "env_status (envs sample_prirr e) = ENV_READY \<longleftrightarrow> e \<noteq> 0" "nenv sample_prirr = 4" "ctx sample_prirr = In_scheduler"
    "priority (envs sample_prirr e) = (if e = 1 \<or> e = 2 then 1 else 0)" for e
    by (simp_all add: sample_prirr_def sample_env_def zero_env_def sample_sched_def)
  have ex: "\<exists>f < nenv sample_prirr. env_status (envs sample_prirr f) = ENV_READY" by (rule exI [of _ 3]) (simp add: st)
  from priority_dispatch [OF sample_prirr_inv st(3), unfolded if_P [OF ex]] obtain s' e where
    s': "dispatch sample_prirr = Inr s'" "sched_inv {} s'" "cpu_proc s' = Some e" "env_status (envs s' e) = ENV_RUNNING"
    and e: "e < nenv sample_prirr" "env_status (envs sample_prirr e) = ENV_READY"
      "\<forall>f < nenv sample_prirr. env_status (envs sample_prirr f) = ENV_READY \<longrightarrow> priority (envs sample_prirr e) \<le> priority (envs sample_prirr f)"
    by blast
  have "priority (envs sample_prirr e) \<le> 0" using e(3) [rule_format, of 3] by (simp add: st)
  then have "e = 3" using e(1,2) unfolding st by (auto split: if_splits)
  then show ?thesis using s' by blast
qed

section \<open>Changing a priority\<close>

lemma find_unique: "(\<And>x. x \<in> set xs \<Longrightarrow> P x \<longleftrightarrow> x = e) \<Longrightarrow> find P xs = (if e \<in> set xs then Some e else None)"
  by (induction xs) auto

lemma find_env_unique:
  assumes "envs_ok s" "e < nenv s" "env_status (envs s e) \<noteq> ENV_FREE"
    "\<And>x. x \<in> set q \<Longrightarrow> x < nenv s \<and> env_status (envs s x) \<noteq> ENV_FREE"
  shows "find_env_in_queue q (env_id (envs s e)) s = (if e \<in> set q then Some e else None)"
  unfolding find_env_in_queue_def using assms env_id_inj [OF assms(1) _ assms(2)] by (intro find_unique) metis

lemma find_env_ready:
  assumes I: "q_inv L B s" and i: "i < num_of_ready_queues s" and e: "e < nenv s" "env_status (envs s e) \<noteq> ENV_FREE"
  shows "find_env_in_queue (env_ready_queues s ! i) (env_id (envs s e)) s = (if e \<in> set (env_ready_queues s ! i) then Some e else None)"
proof (rule find_env_unique [OF q_invD(2) [OF I] e])
  have "env_ready_queues s ! i \<in> set (env_ready_queues s)" using q_invD(1) [OF I] i by (simp add: lists_ok_def)
  then show "x < nenv s \<and> env_status (envs s x) \<noteq> ENV_FREE" if "x \<in> set (env_ready_queues s ! i)" for x
    using queued_status(1,2) [OF I _ that] by simp
qed

lemma queue_of_ready:
  assumes I: "q_inv L B s" and e: "e < nenv s" "e \<notin> L" and i: "i < num_of_ready_queues s"
  shows "e \<in> set (env_ready_queues s ! i) \<longleftrightarrow> env_status (envs s e) = ENV_READY \<and> priority (envs s e) = int i \<and> cpu_proc s \<noteq> Some e"
proof -
  have "i < length (env_ready_queues s)" using q_invD(1) [OF I] i by (simp add: lists_ok_def)
  then show ?thesis using q_invD(5) [OF I e] by (simp add: placed_def)
qed

lemma remove_ready_from_eq:
  assumes I: "q_inv L B s" and e: "e < nenv s" "e \<notin> L" "env_status (envs s e) = ENV_READY" "cpu_proc s \<noteq> Some e"
    and k: "priority (envs s e) = int k" and n: "i + n = num_of_ready_queues s" "i \<le> k"
  shows "remove_ready_from n i e s =
    Inr (upd_env e (\<lambda>v. v\<lparr>env_status := ENV_UNKNOWN\<rparr>) (set_ready_queue (int k) (remove1 e (env_ready_queues s ! k)) s))"
  using n
proof (induction n arbitrary: i)
  case 0
  have "k < num_of_ready_queues s" using q_invD(2) [OF I] e(1) k by (auto simp: envs_ok_def)
  then show ?case using 0 by simp
next
  case (Suc n)
  have i: "i < num_of_ready_queues s" using Suc.prems by simp
  have r: "ready_queue (int i) s = Inr (env_ready_queues s ! i)" using ready_queue_eq [OF q_invD(1) [OF I], of "int i"] i by simp
  note f = find_env_ready [OF I i e(1)] and m = queue_of_ready [OF I e(1,2) i]
  show ?case
  proof (cases "i = k")
    case True
    then show ?thesis using r f m e k by (simp add: list_remove_def)
  next
    case False
    then show ?thesis using r f m e k Suc.IH [of "Suc i"] Suc.prems by simp
  qed
qed

lemma sched_insert_ready_eq:
  assumes "q_inv (insert e L) B s" "e < nenv s" "qlock s"
  shows "sched_insert_ready e s = Inr (set_ready_queue (priority (envs s e)) (e # env_ready_queues s ! nat (priority (envs s e)))
    (upd_env e (\<lambda>v. v\<lparr>env_status := ENV_READY\<rparr>) s))"
proof -
  note D = q_invD [OF assms(1)]
  have k: "0 \<le> priority (envs s e)" "priority (envs s e) < int (num_of_ready_queues s)" using D(2) assms(2) by (auto simp: envs_ok_def)
  note R = ready_queue_eq [OF D(1) k]
  have "e \<notin> set (env_ready_queues s ! nat (priority (envs s e)))" using D(6) [OF assms(2)] R(2) by (auto simp: unplaced_def)
  then show ?thesis using assms(3) R
    by (simp add: sched_insert_ready_def need_qlock_def ready_queue_def enqueue_def list_insert_head_def Let_def split: if_splits)
qed

lemma envid2env_eq:
  assumes "envs_ok s" "e < nenv s" "env_status (envs s e) \<noteq> ENV_FREE"
  shows "envid2env (env_id (envs s e)) False s = Inr (Some (Some e))"
  using assms by (auto simp: envid2env_def envs_ok_def Let_def)

text \<open>A ready environment leaves its queue and joins the new one at the end of the line.\<close>

definition moved :: "nat \<Rightarrow> int \<Rightarrow> sched_st \<Rightarrow> sched_st" where
  "moved e pr s =
     (let k = nat (priority (envs s e)); qs = (env_ready_queues s)[k := remove1 e (env_ready_queues s ! k)]
      in upd_env e (\<lambda>v. v\<lparr>priority := pr, starvcounteer := 0\<rparr>) (s\<lparr>env_ready_queues := qs[nat pr := e # qs ! nat pr]\<rparr>))"

lemma set_priority_ready:
  assumes I: "sched_inv B s" and c: "ctx s \<noteq> In_scheduler" and e: "e < nenv s" "env_status (envs s e) = ENV_READY"
    and pr: "0 \<le> pr" "pr < int (num_of_ready_queues s)"
  shows "env_set_priority (env_id (envs s e)) pr s = Inr (moved e pr s)" "sched_inv B (moved e pr s)"
proof -
  note D = sched_invD [OF I]
  have l: "\<not> qlock s" "ncli s = 0" using D(2,3) c by auto
  have nc: "cpu_proc s \<noteq> Some e" using I c e(2) by (auto simp: sched_inv_def split: cpu_ctx.splits)
  let ?a = "s\<lparr>qlock := True, ncli := 1\<rparr>"
  let ?p = "priority (envs s e)" let ?q = "env_ready_queues s ! nat (priority (envs s e))"
  have Ia: "q_inv {} B ?a" using D(1) by (rule q_inv_same) simp_all
  have p: "0 \<le> ?p" "?p < int (num_of_ready_queues s)" using q_invD(2) [OF Ia] e(1) by (auto simp: envs_ok_def)
  have "remove_ready_from (num_of_ready_queues ?a) 0 e ?a =
      Inr (upd_env e (\<lambda>v. v\<lparr>env_status := ENV_UNKNOWN\<rparr>) (set_ready_queue (int (nat ?p)) (remove1 e (env_ready_queues ?a ! nat ?p)) ?a))"
    by (rule remove_ready_from_eq [OF Ia]) (use e nc p in simp_all)
  then have rm: "sched_remove_ready e ?a = Inr (upd_env e (\<lambda>v. v\<lparr>env_status := ENV_UNKNOWN\<rparr>) (set_ready_queue ?p (remove1 e ?q) ?a))"
    using e p by (simp add: sched_remove_ready_def need_qlock_def)
  let ?b = "upd_env e (\<lambda>v. v\<lparr>priority := pr, starvcounteer := 0\<rparr>)
     (upd_env e (\<lambda>v. v\<lparr>env_status := ENV_UNKNOWN\<rparr>) (set_ready_queue ?p (remove1 e ?q) ?a))"
  have "e \<in> set ?q" using queue_of_ready [OF Ia, of e "nat ?p"] e nc p by simp
  then have "q_inv {e} B (set_ready_queue ?p (remove1 e ?q) ?a)" using take_ready [OF Ia, of ?p e] p by simp
  then have "q_inv {e} B (upd_env e (\<lambda>v. v\<lparr>env_status := ENV_UNKNOWN\<rparr>) (set_ready_queue ?p (remove1 e ?q) ?a))"
    by (rule limbo_update) (use e p in simp_all)
  then have Ib: "q_inv {e} B ?b" by (rule limbo_update) (use e pr in simp_all)
  note ins = sched_insert_ready_eq [OF Ib] and put = put_ready [OF Ib _ _ _ _ refl]
  let ?c = "set_ready_queue pr (e # env_ready_queues ?b ! nat pr) (upd_env e (\<lambda>v. v\<lparr>env_status := ENV_READY\<rparr>) ?b)"
  have eq: "?c\<lparr>qlock := False, ncli := 0\<rparr> = moved e pr s"
  proof -
    have "(envs s e)\<lparr>env_status := ENV_READY\<rparr> = envs s e" using e(2) by (cases "envs s e") simp
    then have "(envs s e)\<lparr>env_status := ENV_UNKNOWN, priority := pr, starvcounteer := 0, env_status := ENV_READY\<rparr> =
      (envs s e)\<lparr>priority := pr, starvcounteer := 0\<rparr>" using e(2) by (cases "envs s e") simp
    then show ?thesis using l by (cases s) (simp add: moved_def Let_def upd_env_def set_ready_queue_def)
  qed
  show "env_set_priority (env_id (envs s e)) pr s = Inr (moved e pr s)"
    using l e pr envid2env_eq [OF q_invD(2) [OF Ia], of e] rm ins eq
    by (simp add: env_set_priority_def acquire_qlock_def release_qlock_def)
  have "q_inv {} B ?c" using put e nc by simp
  then have "q_inv {} B (moved e pr s)" unfolding eq [symmetric] by (rule q_inv_same) simp_all
  then show "sched_inv B (moved e pr s)"
    using I l c by (auto simp: sched_inv_def moved_def Let_def split: cpu_ctx.splits)
qed

text \<open>Updates of the fields that say nothing about where an environment is linked.\<close>

lemma sched_inv_free_update:
  assumes I: "sched_inv B s" and f: "env_id (f (envs s e)) = env_id (envs s e)" "env_status (f (envs s e)) = env_status (envs s e)"
    and pr: "priority (f (envs s e)) = priority (envs s e) \<or>
      env_status (envs s e) \<noteq> ENV_READY \<and> 0 \<le> priority (f (envs s e)) \<and> priority (f (envs s e)) < int (num_of_ready_queues s)"
  shows "sched_inv B (upd_env e f s)"
proof -
  note D = sched_invD [OF I]
  note Q = q_invD [OF D(1)]
  have "q_inv {} B (upd_env e f s)"
  proof (rule q_invI)
    show "placed B (upd_env e f s) x" if "x < nenv (upd_env e f s)" "x \<notin> {}" for x
      using Q(5) [of x] that f pr by (auto simp: placed_def)
    show "lists_ok (upd_env e f s)" using Q(1) by (simp add: lists_ok_def)
    show "quantums_ok (upd_env e f s)" using Q(3) by (simp add: quantums_ok_def)
    show "envs_ok (upd_env e f s)" using Q(2) f pr by (auto simp: envs_ok_def)
    show "p < nenv (upd_env e f s) \<and> (p \<in> {} \<or> env_status (envs (upd_env e f s) p) = ENV_RUNNING \<or> env_status (envs (upd_env e f s) p) = ENV_READY)"
      if "cpu_proc (upd_env e f s) = Some p" for p
      using q_inv_cpu [OF D(1), of p] that f by auto
  qed (use Q(4) in auto)
  then show ?thesis using I f by (auto simp: sched_inv_def split: cpu_ctx.splits)
qed

text \<open>
  \<^verbatim>\<open>env_set_priority\<close> on an environment in use, with a priority for which there is a queue: a ready
  environment moves from its queue to the end of the line of the new priority, its starvation counter
  restarts; any other one only gets the new priority. The queues stay consistent and no assertion fails.
\<close>

lemma env_set_priority_correct:
  assumes I: "sched_inv B s" and c: "ctx s \<noteq> In_scheduler" and e: "e < nenv s" "env_status (envs s e) \<noteq> ENV_FREE"
    and pr: "0 \<le> pr" "pr < int (num_of_ready_queues s)"
  shows "\<exists>s'. env_set_priority (env_id (envs s e)) pr s = Inr s' \<and> sched_inv B s' \<and> priority (envs s' e) = pr \<and>
    s' = (if env_status (envs s e) = ENV_READY then moved e pr s else upd_env e (\<lambda>v. v\<lparr>priority := pr\<rparr>) s)"
proof (cases "env_status (envs s e) = ENV_READY")
  case True
  then show ?thesis using set_priority_ready [OF I c e(1) True pr] by (simp add: moved_def Let_def)
next
  case False
  have l: "\<not> qlock s" "ncli s = 0" using sched_invD(2,3) [OF I] c by auto
  have "q_inv {} B (s\<lparr>qlock := True, ncli := 1\<rparr>)" using sched_invD(1) [OF I] by (rule q_inv_same) simp_all
  then have "envid2env (env_id (envs s e)) False (s\<lparr>qlock := True, ncli := 1\<rparr>) = Inr (Some (Some e))"
    using envid2env_eq [OF q_invD(2), of "{}" B "s\<lparr>qlock := True, ncli := 1\<rparr>" e] e by simp
  then have "env_set_priority (env_id (envs s e)) pr s = Inr (upd_env e (\<lambda>v. v\<lparr>priority := pr\<rparr>) s)"
    using l False e pr by (cases s) (simp add: env_set_priority_def acquire_qlock_def release_qlock_def upd_env_def)
  moreover have "sched_inv B (upd_env e (\<lambda>v. v\<lparr>priority := pr\<rparr>) s)" by (rule sched_inv_free_update [OF I]) (use False pr in simp_all)
  ultimately show ?thesis using False by simp
qed

lemma env_set_priority_correct_witness:
  "\<exists>s'. env_set_priority 6 0 (sample_running sample_prirr) = Inr s' \<and> sched_inv {} s' \<and> env_ready_queues s' = [[2], [1]]"
proof -
  let ?s = "sample_running sample_prirr"
  have st: "env_status (envs ?s 2) = ENV_READY" "nenv ?s = 4" "ctx ?s \<noteq> In_scheduler" "env_id (envs ?s 2) = 6"
    "num_of_ready_queues ?s = 2" "priority (envs ?s 2) = 1" "env_ready_queues ?s = [[], [2, 1]]"
    by (simp_all add: sample_running_def sample_prirr_def sample_env_def zero_env_def sample_sched_def upd_env_def)
  have "env_ready_queues (moved 2 0 ?s) = [[2], [1]]" by (simp add: moved_def Let_def st)
  then show ?thesis using env_set_priority_correct [OF sample_running_inv(2) st(3), of 2 0] st by auto
qed

section \<open>Ageing\<close>

text \<open>
  What one clock tick makes of a waiting environment: its starvation counter grows, and past the threshold an
  environment that is not in the most urgent queue moves up by one priority.
\<close>

definition starving :: "sched_st \<Rightarrow> nat \<Rightarrow> bool" where
  "starving s e \<longleftrightarrow> add32 (starvcounteer (envs s e)) 1 > starvThreshold s \<and> 0 < priority (envs s e)"

definition aged :: "sched_st \<Rightarrow> nat \<Rightarrow> env" where
  "aged s e = (if starving s e then (envs s e)\<lparr>priority := priority (envs s e) - 1, starvcounteer := 0\<rparr>
               else (envs s e)\<lparr>starvcounteer := add32 (starvcounteer (envs s e)) 1\<rparr>)"

lemma age_one:
  assumes I: "sched_inv B s" and c: "ctx s \<noteq> In_scheduler" and i: "i < num_of_ready_queues s" and e: "e \<in> set (env_ready_queues s ! i)"
  shows "\<exists>s'. age_queue (e # es) s = age_queue es s' \<and> sched_inv B s' \<and> ctx s' = ctx s \<and> nenv s' = nenv s \<and>
    num_of_ready_queues s' = num_of_ready_queues s \<and> starvThreshold s' = starvThreshold s \<and>
    scheduler_method s' = scheduler_method s \<and> cpu_proc s' = cpu_proc s \<and> ticks s' = ticks s \<and>
    envs s' = (envs s)(e := aged s e) \<and>
    env_ready_queues s' = (if starving s e
      then (env_ready_queues s)[i := remove1 e (env_ready_queues s ! i), i - 1 := e # env_ready_queues s ! (i - 1)]
      else env_ready_queues s)"
proof -
  let ?s = "upd_env e (\<lambda>v. v\<lparr>starvcounteer := add32 (starvcounteer v) 1\<rparr>) s"
  note D = sched_invD [OF I]
  have m: "env_ready_queues s ! i \<in> set (env_ready_queues s)" "length (env_ready_queues s) = num_of_ready_queues s"
    using q_invD(1) [OF D(1)] i by (simp_all add: lists_ok_def)
  note S = queued_status [OF D(1) m(1) e]
  have p: "priority (envs s e) = int i" using queue_of_ready [OF D(1) S(1) _ i] e by simp
  have Is: "sched_inv B ?s" by (rule sched_inv_free_update [OF I]) simp_all
  show ?thesis
  proof (cases "starving s e")
    case False
    then have "age_queue (e # es) s = age_queue es ?s" by (auto simp: starving_def Let_def)
    then show ?thesis using False Is by (intro exI [of _ ?s]) (simp add: aged_def)
  next
    case True
    then have i0: "0 < i" using p by (simp add: starving_def)
    have pr: "0 \<le> int i - 1" "int i - 1 < int (num_of_ready_queues ?s)" using i0 i by simp_all
    note M = set_priority_ready [OF Is, of e, OF _ _ _ pr]
    have "env_set_priority (env_id (envs s e)) (int i - 1) ?s = Inr (moved e (int i - 1) ?s)" "sched_inv B (moved e (int i - 1) ?s)"
      using M c S(1,2) by simp_all
    moreover have "age_queue (e # es) s = andThen (env_set_priority (env_id (envs s e)) (int i - 1) ?s) (age_queue es)"
      using True p i0 by (simp add: starving_def Let_def)
    moreover have "nat (int i - 1) = i - 1" "i \<noteq> i - 1" using i0 by auto
    ultimately show ?thesis using True p
      by (intro exI [of _ "moved e (int i - 1) ?s"]) (simp add: aged_def moved_def Let_def)
  qed
qed

definition same_sched :: "sched_st \<Rightarrow> sched_st \<Rightarrow> bool" where
  "same_sched s s' \<longleftrightarrow> ctx s' = ctx s \<and> nenv s' = nenv s \<and> num_of_ready_queues s' = num_of_ready_queues s \<and>
     starvThreshold s' = starvThreshold s \<and> scheduler_method s' = scheduler_method s \<and> cpu_proc s' = cpu_proc s \<and>
     ticks s' = ticks s"

lemma aged_cong: "envs s' e = envs s e \<Longrightarrow> starvThreshold s' = starvThreshold s \<Longrightarrow> aged s' e = aged s e \<and> starving s' e = starving s e"
  by (simp add: aged_def starving_def)

lemma age_queue_spec:
  assumes "sched_inv B s" "ctx s \<noteq> In_scheduler" "i < num_of_ready_queues s" "distinct es" "set es \<subseteq> set (env_ready_queues s ! i)"
  shows "\<exists>s'. age_queue es s = Inr s' \<and> sched_inv B s' \<and> same_sched s s' \<and>
    envs s' = (\<lambda>e. if e \<in> set es then aged s e else envs s e) \<and>
    env_ready_queues s' = (env_ready_queues s)
      [i := filter (\<lambda>e. \<not> (e \<in> set es \<and> starving s e)) (env_ready_queues s ! i),
       i - 1 := rev (filter (starving s) es) @ env_ready_queues s ! (i - 1)]"
  using assms
proof (induction es arbitrary: s)
  case Nil
  then show ?case by (intro exI [of _ s]) (auto simp: same_sched_def)
next
  case (Cons e es)
  let ?qs = "env_ready_queues s"
  have L: "lists_ok s" "length ?qs = num_of_ready_queues s"
    using q_invD(1) [OF sched_invD(1) [OF Cons.prems(1)]] by (simp_all add: lists_ok_def)
  have dq: "distinct (?qs ! i)" using L Cons.prems(3) by (auto simp: lists_ok_def)
  from age_one [OF Cons.prems(1-3), of e es] Cons.prems(5) obtain t where
    t: "age_queue (e # es) s = age_queue es t" "sched_inv B t" "ctx t = ctx s" "same_sched s t"
      "envs t = (envs s)(e := aged s e)" and tq: "env_ready_queues t = (if starving s e
      then ?qs[i := remove1 e (?qs ! i), i - 1 := e # ?qs ! (i - 1)] else ?qs)"
    by (auto simp: same_sched_def)
  have i0: "0 < i" if "starving s e"
    using that queue_of_ready [OF sched_invD(1) [OF Cons.prems(1)], of e i] Cons.prems(3,5) L(1)
    by (fastforce simp: starving_def lists_ok_def)
  have tm: "set es \<subseteq> set (env_ready_queues t ! i)"
    using Cons.prems(3-5) L(2) tq i0 dq by (auto simp: nth_list_update)
  have "i < num_of_ready_queues t" using t(4) Cons.prems(3) by (simp add: same_sched_def)
  from Cons.IH [OF t(2) _ this _ tm] Cons.prems(2,4) t(3) obtain s' where
    s': "age_queue es t = Inr s'" "sched_inv B s'" "same_sched t s'" "envs s' = (\<lambda>x. if x \<in> set es then aged t x else envs t x)"
      "env_ready_queues s' = (env_ready_queues t)
      [i := filter (\<lambda>x. \<not> (x \<in> set es \<and> starving t x)) (env_ready_queues t ! i),
       i - 1 := rev (filter (starving t) es) @ env_ready_queues t ! (i - 1)]" by auto
  have ag: "aged t x = aged s x" "starving t x = starving s x" if "x \<in> set es" for x
  proof -
    have "x \<noteq> e" using that Cons.prems(4) by auto
    then have "envs t x = envs s x" using t(5) by simp
    then show "aged t x = aged s x" "starving t x = starving s x" using aged_cong [of t x s] t(4) by (simp_all add: same_sched_def)
  qed
  have en: "envs s' = (\<lambda>x. if x \<in> set (e # es) then aged s x else envs s x)"
    using s'(4) t(5) ag Cons.prems(4) by (auto simp: fun_eq_iff)
  have f: "filter (starving t) es = filter (starving s) es" "\<And>q. filter (\<lambda>x. \<not> (x \<in> set es \<and> starving t x)) q = filter (\<lambda>x. \<not> (x \<in> set es \<and> starving s x)) q"
    using ag by (auto intro: filter_cong)
  have qs: "env_ready_queues s' = ?qs[i := filter (\<lambda>x. \<not> (x \<in> set (e # es) \<and> starving s x)) (?qs ! i),
       i - 1 := rev (filter (starving s) (e # es)) @ ?qs ! (i - 1)]"
  proof (cases "starving s e")
    case True
    have "filter (\<lambda>x. \<not> (x \<in> set es \<and> starving s x)) (remove1 e (?qs ! i)) = filter (\<lambda>x. \<not> (x \<in> set (e # es) \<and> starving s x)) (?qs ! i)"
      using True Cons.prems(4) by (auto simp: distinct_remove1_removeAll [OF dq] removeAll_filter_not_eq intro: filter_cong)
    moreover have "i - 1 \<noteq> i" using i0 [OF True] by simp
    ultimately show ?thesis using True s'(5) tq f L(2) Cons.prems(3)
      by (simp add: list_eq_iff_nth_eq nth_list_update)
  next
    case False
    then have "filter (\<lambda>x. \<not> (x \<in> set es \<and> starving s x)) q = filter (\<lambda>x. \<not> (x \<in> set (e # es) \<and> starving s x)) q" for q
      by (auto intro: filter_cong)
    then show ?thesis using False s'(5) tq f by simp
  qed
  have "same_sched s s'" using s'(3) t(4) by (simp add: same_sched_def)
  then show ?case using t(1) s'(1,2) en qs by auto
qed

text \<open>Who is promoted from queue \<open>j\<close>, the last one first, and who stays in it.\<close>

definition promoted :: "sched_st \<Rightarrow> nat \<Rightarrow> nat list" where
  "promoted s j = (if j < num_of_ready_queues s then rev (filter (starving s) (env_ready_queues s ! j)) else [])"

definition kept :: "sched_st \<Rightarrow> nat \<Rightarrow> nat list" where
  "kept s j = filter (\<lambda>e. \<not> starving s e) (env_ready_queues s ! j)"

lemma none_starving_first:
  assumes "q_inv {} B s" "e \<in> set (env_ready_queues s ! 0)"
  shows "\<not> starving s e"
proof -
  have n: "0 < num_of_ready_queues s" "env_ready_queues s ! 0 \<in> set (env_ready_queues s)"
    using q_invD(1) [OF assms(1)] by (auto simp: lists_ok_def)
  have "e < nenv s" using queued_status(1) [OF assms(1) n(2) assms(2)] .
  then have "priority (envs s e) = 0" using queue_of_ready [OF assms(1) _ _ n(1)] assms(2) by simp
  then show ?thesis by (simp add: starving_def)
qed

lemma queues_disjoint:
  assumes "q_inv {} B s" "e \<in> set (env_ready_queues s ! i)" "e \<in> set (env_ready_queues s ! j)"
    "i < num_of_ready_queues s" "j < num_of_ready_queues s"
  shows "i = j"
proof -
  have "env_ready_queues s ! i \<in> set (env_ready_queues s)" using q_invD(1) [OF assms(1)] assms(4) by (auto simp: lists_ok_def)
  then have "e < nenv s" using queued_status(1) [OF assms(1) _ assms(2)] by simp
  then show ?thesis using queue_of_ready [OF assms(1) _ _ assms(4)] queue_of_ready [OF assms(1) _ _ assms(5)] assms(2,3) by auto
qed

lemma age_queues_spec:
  assumes "sched_inv B s" "ctx s \<noteq> In_scheduler" "i + n = num_of_ready_queues s"
  shows "\<exists>s'. age_queues n i s = Inr s' \<and> sched_inv B s' \<and> same_sched s s' \<and>
    envs s' = (\<lambda>e. if \<exists>j. i \<le> j \<and> j < num_of_ready_queues s \<and> e \<in> set (env_ready_queues s ! j) then aged s e else envs s e) \<and>
    (\<forall>j < num_of_ready_queues s. env_ready_queues s' ! j =
       (if j + 1 < i then env_ready_queues s ! j
        else promoted s (j + 1) @ (if j < i then env_ready_queues s ! j else kept s j)))"
  using assms
proof (induction n arbitrary: i s)
  case 0
  then have "promoted s (j + 1) = []" if "\<not> j + 1 < i" for j using that by (simp add: promoted_def)
  then show ?case using 0 by (intro exI [of _ s]) (auto simp: same_sched_def fun_eq_iff)
next
  case (Suc n)
  let ?N = "num_of_ready_queues s" and ?qs = "env_ready_queues s"
  note D = sched_invD(1) [OF Suc.prems(1)]
  have L: "lists_ok s" "length ?qs = ?N" using q_invD(1) [OF D] by (simp_all add: lists_ok_def)
  have i: "i < ?N" using Suc.prems(3) by simp
  have r: "ready_queue (int i) s = Inr (?qs ! i)" using ready_queue_eq(1) [OF L(1), of "int i"] i by simp
  have "distinct (?qs ! i)" using L i by (auto simp: lists_ok_def)
  from age_queue_spec [OF Suc.prems(1,2) i this] obtain t where
    t: "age_queue (?qs ! i) s = Inr t" "sched_inv B t" "same_sched s t" "envs t = (\<lambda>e. if e \<in> set (?qs ! i) then aged s e else envs s e)"
      and tq: "env_ready_queues t = ?qs[i := filter (\<lambda>e. \<not> (e \<in> set (?qs ! i) \<and> starving s e)) (?qs ! i),
       i - 1 := rev (filter (starving s) (?qs ! i)) @ ?qs ! (i - 1)]"
    by auto
  have N: "num_of_ready_queues t = ?N" "ctx t \<noteq> In_scheduler" "Suc i + n = num_of_ready_queues t"
    using t(3) Suc.prems(2,3) by (simp_all add: same_sched_def)
  have tk: "filter (\<lambda>e. \<not> (e \<in> set (?qs ! i) \<and> starving s e)) (?qs ! i) = kept s i" by (auto simp: kept_def intro: filter_cong)
  have first: "kept s 0 = ?qs ! 0" "promoted s 0 = []"
    using none_starving_first [OF D] by (simp_all add: kept_def promoted_def filter_id_conv)
  have tq': "env_ready_queues t ! j = (if j = i then kept s i else if j + 1 = i then promoted s i @ ?qs ! j else ?qs ! j)" if "j < ?N" for j
    using tq tk first that i L(2) by (cases i) (auto simp: promoted_def nth_list_update)
  from Suc.IH [OF t(2) N(2,3)] obtain s' where
    s': "age_queues n (Suc i) t = Inr s'" "sched_inv B s'" "same_sched t s'"
      and se: "envs s' = (\<lambda>e. if \<exists>j. Suc i \<le> j \<and> j < ?N \<and> e \<in> set (env_ready_queues t ! j) then aged t e else envs t e)"
      and sq: "\<forall>j < ?N. env_ready_queues s' ! j = (if j + 1 < Suc i then env_ready_queues t ! j
        else promoted t (j + 1) @ (if j < Suc i then env_ready_queues t ! j else kept t j))"
    using N(1) by auto
  have ag: "aged t e = aged s e" "starving t e = starving s e" if "e \<in> set (?qs ! j)" "Suc i \<le> j" "j < ?N" for e j
  proof -
    have "e \<notin> set (?qs ! i)" using queues_disjoint [OF D _ that(1) i that(3)] that(2) by auto
    then have "envs t e = envs s e" using t(4) by simp
    then show "aged t e = aged s e" "starving t e = starving s e" using aged_cong [of t e s] t(3) by (simp_all add: same_sched_def)
  qed
  have pk: "promoted t j = promoted s j" "j < ?N \<Longrightarrow> kept t j = kept s j" if "Suc i \<le> j" for j
    using that ag tq' [of j] N(1) by (auto simp: promoted_def kept_def intro!: filter_cong)
  have en: "envs s' = (\<lambda>e. if \<exists>j. i \<le> j \<and> j < ?N \<and> e \<in> set (?qs ! j) then aged s e else envs s e)"
  proof
    fix e
    have "(\<exists>j. Suc i \<le> j \<and> j < ?N \<and> e \<in> set (env_ready_queues t ! j)) \<longleftrightarrow> (\<exists>j. Suc i \<le> j \<and> j < ?N \<and> e \<in> set (?qs ! j))"
      using tq' by auto
    moreover have "(\<exists>j. i \<le> j \<and> j < ?N \<and> e \<in> set (?qs ! j)) \<longleftrightarrow> e \<in> set (?qs ! i) \<or> (\<exists>j. Suc i \<le> j \<and> j < ?N \<and> e \<in> set (?qs ! j))"
      using i by (metis Suc_leD Suc_le_eq le_neq_implies_less order_refl)
    ultimately show "envs s' e = (if \<exists>j. i \<le> j \<and> j < ?N \<and> e \<in> set (?qs ! j) then aged s e else envs s e)"
      using se t(4) ag by auto
  qed
  have "env_ready_queues s' ! j = (if j + 1 < i then ?qs ! j else promoted s (j + 1) @ (if j < i then ?qs ! j else kept s j))" if "j < ?N" for j
    using sq tq' [OF that] pk that by (auto split: if_splits)
  moreover have "same_sched s s'" using s'(3) t(3) by (simp add: same_sched_def)
  ultimately show ?case using r t(1) s'(1,2) en by auto
qed

lemma waiting_queue:
  assumes I: "q_inv {} B s" and e: "e < nenv s" "env_status (envs s e) = ENV_READY" "cpu_proc s \<noteq> Some e"
  shows "\<exists>j < num_of_ready_queues s. e \<in> set (env_ready_queues s ! j)"
proof -
  have "0 \<le> priority (envs s e)" "priority (envs s e) < int (num_of_ready_queues s)"
    using q_invD(2) [OF I] e(1) by (auto simp: envs_ok_def)
  then show ?thesis using queue_of_ready [OF I e(1), of "nat (priority (envs s e))"] e
    by (intro exI [of _ "nat (priority (envs s e))"]) auto
qed

text \<open>
  C24. The clock interrupt under priority scheduling, while a process runs. Every waiting environment ages by
  exactly one tick. Those past the starvation threshold move to the end of the line of the next more urgent queue, with
  their counter restarted, each by one priority per tick even though the loop over the queues goes on while
  they move; the others keep their order. The running process gives up the processor, no assertion fails
  and the queues stay consistent.
\<close>

theorem clock_tick_ages:
  assumes I: "sched_inv B s" and c: "ctx s = In_process" and m: "scheduler_method s = SCH_PRIRR"
  shows "\<exists>s'. clock_interrupt_handler Inr s = Inr s' \<and> sched_inv B s' \<and> ctx s' = In_scheduler \<and>
    cpu_proc s' = cpu_proc s \<and> ticks s' = ticks s + 1 \<and>
    (\<forall>j < num_of_ready_queues s. env_ready_queues s' ! j = promoted s (j + 1) @ kept s j) \<and>
    (\<forall>e < nenv s. env_status (envs s e) = ENV_READY \<longrightarrow> envs s' e = aged s e)"
proof -
  note D = sched_invD [OF I]
  obtain p where p: "cpu_proc s = Some p" "env_status (envs s p) = ENV_RUNNING" using D(4) [OF c] by auto
  have "ctx s \<noteq> In_scheduler" "0 + num_of_ready_queues s = num_of_ready_queues s" using c by simp_all
  from age_queues_spec [OF I this] obtain t where t: "age_queues (num_of_ready_queues s) 0 s = Inr t" "sched_inv B t" "same_sched s t"
      "envs t = (\<lambda>e. if \<exists>j < num_of_ready_queues s. e \<in> set (env_ready_queues s ! j) then aged s e else envs s e)"
      "\<forall>j < num_of_ready_queues s. env_ready_queues t ! j = promoted s (j + 1) @ kept s j" by auto
  let ?f = "\<lambda>v. v\<lparr>nClocks := add32 (nClocks v) 1\<rparr>"
  let ?u = "upd_env p ?f (t\<lparr>ticks := ticks t + 1\<rparr>)"
  have "q_inv {} B (t\<lparr>ticks := ticks t + 1\<rparr>)" using sched_invD(1) [OF t(2)] by (rule q_inv_same) simp_all
  then have "sched_inv B (t\<lparr>ticks := ticks t + 1\<rparr>)" using t(2) by (auto simp: sched_inv_def split: cpu_ctx.splits)
  then have u: "sched_inv B ?u" by (rule sched_inv_free_update) simp_all
  have ct: "ctx ?u = In_process" using t(3) c by (simp add: same_sched_def)
  from yield_ok [OF u ct] obtain v where v: "yield ?u = Inr v" "sched_inv B v" "ctx v = In_scheduler" "cpu_proc v = cpu_proc ?u"
      "env_ready_queues v = env_ready_queues ?u" "ticks v = ticks ?u" "\<forall>e. cpu_proc ?u \<noteq> Some e \<longrightarrow> envs v e = envs ?u e" by auto
  have k: "clock_interrupt_handler Inr s = Inr v"
    using t(1,3) m p v(1) by (simp add: clock_interrupt_handler_def same_sched_def Let_def)
  have "envs v e = aged s e" if e: "e < nenv s" "env_status (envs s e) = ENV_READY" for e
  proof -
    have ne: "e \<noteq> p" using e p by auto
    then have "envs v e = envs t e" using v(7) p t(3) by (simp add: same_sched_def)
    also have "\<dots> = aged s e" using waiting_queue [OF D(1) e] p ne t(4) by auto
    finally show ?thesis .
  qed
  then show ?thesis using k v t(3,5) by (intro exI [of _ v]) (simp add: same_sched_def)
qed

theorem clock_tick_ages_witness:
  "\<exists>s'. clock_interrupt_handler Inr ((sample_running sample_prirr)\<lparr>starvThreshold := 0\<rparr>) = Inr s' \<and> sched_inv {} s' \<and>
    env_ready_queues s' ! 0 = [1, 2] \<and> env_ready_queues s' ! 1 = []"
proof -
  let ?s = "(sample_running sample_prirr)\<lparr>starvThreshold := 0\<rparr>"
  have st: "ctx ?s = In_process" "scheduler_method ?s = SCH_PRIRR" "num_of_ready_queues ?s = 2" "env_ready_queues ?s = [[], [2, 1]]"
    "starving ?s 1" "starving ?s 2"
    by (simp_all add: sample_running_def sample_prirr_def sample_env_def zero_env_def sample_sched_def upd_env_def starving_def add32_def)
  have "q_inv {} {} ?s" using sched_invD(1) [OF sample_running_inv(2)] by (rule q_inv_same) simp_all
  then have "sched_inv {} ?s" using sample_running_inv(2) by (auto simp: sched_inv_def split: cpu_ctx.splits)
  from clock_tick_ages [OF this st(1,2)] obtain s' where s': "clock_interrupt_handler Inr ?s = Inr s'" "sched_inv {} s'"
    "\<forall>j < 2. env_ready_queues s' ! j = promoted ?s (j + 1) @ kept ?s j" unfolding st(3) by auto
  have "promoted ?s 1 = [1, 2]" "kept ?s 0 = []" "promoted ?s 2 = []" "kept ?s 1 = []"
    using st(5,6) by (simp_all only: promoted_def kept_def st(3,4), simp_all)
  then show ?thesis using s'(1,2) s'(3) [rule_format, of 0] s'(3) [rule_format, of 1] by (auto simp: numeral_2_eq_2)
qed

section \<open>Ending an environment\<close>

lemma exit_scan_new_none: "(\<And>x. x \<in> set q \<Longrightarrow> env_id (envs s x) \<noteq> envId) \<Longrightarrow> exit_scan_new q envId s = Inr (False, s)"
  by (induction q) auto

lemma new_queue_envs:
  assumes "q_inv {} B s" "x \<in> set (env_new_queue s)"
  shows "x < nenv s" "env_status (envs s x) = ENV_NEW"
  using take_new [OF assms] by simp_all

lemma exit_scan_new_other:
  assumes I: "q_inv {} B s" and e: "e < nenv s" "env_status (envs s e) \<noteq> ENV_FREE" "env_status (envs s e) \<noteq> ENV_NEW"
  shows "exit_scan_new (env_new_queue s) (env_id (envs s e)) s = Inr (False, s)"
proof (rule exit_scan_new_none)
  fix x assume x: "x \<in> set (env_new_queue s)"
  note X = new_queue_envs [OF I x]
  show "env_id (envs s x) \<noteq> env_id (envs s e)" using env_id_inj [OF q_invD(2) [OF I] X(1) e(1)] X(2) e(2,3) by auto
qed

lemma exit_scan_ready_eq:
  assumes I: "q_inv {} B s" and e: "e < nenv s" "env_status (envs s e) \<noteq> ENV_FREE" and n: "i + n = num_of_ready_queues s"
  shows "exit_scan_ready n i (env_id (envs s e)) s =
    (if env_status (envs s e) = ENV_READY \<and> cpu_proc s \<noteq> Some e \<and> int i \<le> priority (envs s e)
     then Inr (Some e, set_ready_queue (priority (envs s e)) (remove1 e (env_ready_queues s ! nat (priority (envs s e)))) s)
     else Inr (None, s))"
  using n
proof (induction n arbitrary: i)
  case 0
  have "priority (envs s e) < int (num_of_ready_queues s)" using q_invD(2) [OF I] e(1) by (auto simp: envs_ok_def)
  then show ?case using 0 by simp
next
  case (Suc n)
  have i: "i < num_of_ready_queues s" using Suc.prems by simp
  have r: "ready_queue (int i) s = Inr (env_ready_queues s ! i)" using ready_queue_eq [OF q_invD(1) [OF I], of "int i"] i by simp
  note f = find_env_ready [OF I i e(1,2)] and m = queue_of_ready [OF I e(1) _ i]
  show ?case
  proof (cases "e \<in> set (env_ready_queues s ! i)")
    case True
    then show ?thesis using r f m by (simp add: list_remove_def)
  next
    case False
    then have "exit_scan_ready (Suc n) i (env_id (envs s e)) s = exit_scan_ready n (Suc i) (env_id (envs s e)) s" using r f by simp
    then show ?thesis using Suc.IH [of "Suc i"] Suc.prems m False by auto
  qed
qed

text \<open>
  \<^verbatim>\<open>sched_exit_env\<close>, called while a process runs, on a ready environment or on the running one. It ends in the
  EXIT queue and in no other; the queues stay consistent and no assertion fails. When the caller
  ends itself the processor goes back to the scheduler, otherwise the caller runs on.
\<close>

lemma sched_exit_env_correct:
  assumes I: "sched_inv B s" and c: "ctx s = In_process" and nb: "\<not> EnableBuffering s" and e: "e < nenv s"
    and st: "env_status (envs s e) = ENV_READY \<or> cpu_proc s = Some e"
  shows "\<exists>s'. sched_exit_env (env_id (envs s e)) s = Inr (cpu_proc s = Some e, s') \<and> sched_inv B s' \<and>
    env_status (envs s' e) = ENV_EXIT \<and> env_exit_queue s' = e # env_exit_queue s \<and>
    (\<forall>q \<in> set (env_ready_queues s'). e \<notin> set q) \<and> (\<forall>f. f \<noteq> e \<longrightarrow> envs s' f = envs s f) \<and>
    ctx s' = (if cpu_proc s = Some e then In_scheduler else In_process) \<and>
    cpu_proc s' = (if cpu_proc s = Some e then None else cpu_proc s)"
proof -
  note D = sched_invD [OF I]
  have l: "\<not> qlock s" "ncli s = 0" using D(2,3) c by auto
  obtain p where p: "cpu_proc s = Some p" "env_status (envs s p) = ENV_RUNNING" using D(4) [OF c] by auto
  have pn: "p < nenv s" using q_inv_cpu [OF D(1) p(1)] by simp
  let ?a = "s\<lparr>qlock := True, ncli := 1\<rparr>"
  have Ia: "q_inv {} B ?a" using D(1) by (rule q_inv_same) simp_all
  have fr: "env_status (envs s e) \<noteq> ENV_FREE" "env_status (envs s e) \<noteq> ENV_NEW" using st p by auto
  have new: "exit_scan_new (env_new_queue s) (env_id (envs s e)) ?a = Inr (False, ?a)"
    using exit_scan_new_other [OF Ia, of e] e fr by simp
  have isc: "env_id (envs s p) = env_id (envs s e) \<longleftrightarrow> p = e"
    using env_id_inj [OF q_invD(2) [OF D(1)] pn e] p(2) fr by auto
  have nx: "e \<notin> set (env_exit_queue s)" using q_invD(5) [OF D(1) e] st p by (auto simp: placed_def)
  show ?thesis
  proof (cases "p = e")
    case False
    then have r: "env_status (envs s e) = ENV_READY" using st p by simp
    let ?p = "priority (envs s e)" let ?q = "remove1 e (env_ready_queues s ! nat ?p)"
    have pr: "0 \<le> ?p" "?p < int (num_of_ready_queues s)" using q_invD(2) [OF D(1)] e by (auto simp: envs_ok_def)
    have rd: "exit_scan_ready (num_of_ready_queues s) 0 (env_id (envs s e)) ?a = Inr (Some e, set_ready_queue ?p ?q ?a)"
      using exit_scan_ready_eq [OF Ia, of e 0 "num_of_ready_queues s"] e fr r False p pr by simp
    let ?b = "set_ready_queue ?p ?q ?a"
    let ?c = "upd_env e (\<lambda>v. v\<lparr>env_status := ENV_EXIT\<rparr>) (?b\<lparr>env_exit_queue := e # env_exit_queue ?b\<rparr>)"
    have "e \<in> set (env_ready_queues s ! nat ?p)" using queue_of_ready [OF D(1) e, of "nat ?p"] r False p pr by simp
    then have "q_inv {e} B ?b" using take_ready [OF Ia, of ?p e] pr by simp
    then have Ic: "q_inv {} B ?c" by (rule put_exit) (use e fr False p in simp_all)
    let ?d = "?c\<lparr>qlock := False, ncli := 0\<rparr>"
    have Id: "q_inv {} B ?d" using Ic by (rule q_inv_same) simp_all
    have x: "sched_exit_env (env_id (envs s e)) s = Inr (False, ?d)"
      using l new rd p isc False nb nx
      by (simp add: sched_exit_env_def acquire_qlock_def release_qlock_def sched_insert_exit_def need_qlock_def enqueue_def
          list_insert_head_def Let_def upd_env_def)
    have "sched_inv B ?d" using Id c p False l by (simp add: sched_inv_def)
    moreover have "\<forall>q \<in> set (env_ready_queues ?d). e \<notin> set q" using queued_status(2) [OF Id, of _ e] by fastforce
    ultimately show ?thesis using x p False c by (intro exI [of _ ?d]) simp
  next
    case True
    have rd: "exit_scan_ready (num_of_ready_queues s) 0 (env_id (envs s e)) ?a = Inr (None, ?a)"
      using exit_scan_ready_eq [OF Ia, of e 0 "num_of_ready_queues s"] e fr True p by simp
    let ?b = "upd_env e (\<lambda>v. v\<lparr>env_status := ENV_EXIT\<rparr>) (?a\<lparr>env_exit_queue := e # env_exit_queue s\<rparr>)"
    let ?d = "?b\<lparr>ctx := In_scheduler, cpu_proc := None\<rparr>"
    have x: "sched_exit_env (env_id (envs s e)) s = Inr (True, ?d)"
      using l new rd p isc True nb nx
      by (simp add: sched_exit_env_def acquire_qlock_def sched_insert_exit_def need_qlock_def enqueue_def
          list_insert_head_def Let_def upd_env_def sched_def scheduler_resumed_def)
    have "q_inv {e} B (s\<lparr>cpu_proc := None\<rparr>)" using take_cpu [OF D(1) p(1)] True by simp
    note put_exit [OF this]
    then have "q_inv {} B (upd_env e (\<lambda>v. v\<lparr>env_status := ENV_EXIT\<rparr>) (s\<lparr>cpu_proc := None, env_exit_queue := e # env_exit_queue s\<rparr>))"
      using e fr by simp
    then have Id: "q_inv {} B ?d" by (rule q_inv_same) (simp_all add: upd_env_def)
    have "sched_inv B ?d" using Id by (simp add: sched_inv_def)
    moreover have "\<forall>q \<in> set (env_ready_queues ?d). e \<notin> set q" using queued_status(2) [OF Id, of _ e] by fastforce
    ultimately show ?thesis using x p True by (intro exI [of _ ?d]) simp
  qed
qed

lemma sched_exit_env_correct_witness:
  "\<exists>s'. sched_exit_env 5 (sample_running sample_sched) = Inr (False, s') \<and> sched_inv {} s' \<and> env_exit_queue s' = [1]"
proof -
  let ?s = "sample_running sample_sched"
  have st: "ctx ?s = In_process" "\<not> EnableBuffering ?s" "1 < nenv ?s" "env_status (envs ?s 1) = ENV_READY"
    "env_id (envs ?s 1) = 5" "cpu_proc ?s = Some 3" "env_exit_queue ?s = []"
    by (simp_all add: sample_running_def sample_env_def zero_env_def sample_sched_def upd_env_def)
  then show ?thesis using sched_exit_env_correct [OF sample_running_inv(1) st(1-3)] by auto
qed

text \<open>
  On an environment that is still in the NEW queue \<^verbatim>\<open>sched_exit_env\<close> never returns: its scan leaves the loop
  variable at \<^verbatim>\<open>NULL\<close> although the environment was found, and the assertion of \<^verbatim>\<open>sched_insert_exit\<close> fails. The
  environment has already been unlinked at that point.
\<close>

theorem exit_new_env_panics:
  "sched_exit_env 4 (sample_running sample_sched) = Inl (Panic ''env != NULL'')"
  by (simp add: sample_running_def sample_env_def zero_env_def sample_sched_def upd_env_def sched_exit_env_def acquire_qlock_def
      sched_insert_exit_def sched_remove_new_def list_remove_def need_qlock_def Let_def)

end
