(* ===== verification/Sync.thy ===== *)
theory Sync
  imports Scheduler
begin

text \<open>
  Blocking synchronisation: channels (\<^verbatim>\<open>src/kern/conc/channel.c\<close>), sleeping locks
  (\<^verbatim>\<open>sleeplock.c\<close>) and semaphores (\<^verbatim>\<open>ksemaphore.c\<close>). A routine that may block is cut at the
  context switch in \<^verbatim>\<open>sched()\<close>: one definition runs up to it, one runs from the moment the
  scheduler resumes the environment. Guard spinlocks are flags; \<open>ncli\<close> of the scheduler state
  counts them too, so the check of \<^verbatim>\<open>sched()\<close> that only the queue lock is held is modelled.
\<close>

section \<open>Channels\<close>

text \<open>The queue and the guard of the object that owns the channel; \<open>chan_id\<close> stands for its address.\<close>

record chan =
  chan_id :: nat
  chan_queue :: "nat list"

definition init_channel :: "chan \<Rightarrow> chan" where
  "init_channel c = c\<lparr>chan_queue := init_queue (chan_queue c)\<rparr>"

definition acquire_guard :: "bool \<Rightarrow> sched_st \<Rightarrow> (bool \<times> sched_st) result" where
  "acquire_guard g s = andThen (lock_acquire g) (\<lambda>g. Inr (g, s\<lparr>ncli := ncli s + 1\<rparr>))"

definition release_guard :: "bool \<Rightarrow> sched_st \<Rightarrow> (bool \<times> sched_st) result" where
  "release_guard g s = andThen (lock_release g) (\<lambda>g. Inr (g, s\<lparr>ncli := ncli s - 1\<rparr>))"

text \<open>\<^verbatim>\<open>sleep\<close> up to and from the context switch.\<close>

definition sleep_enter :: "chan \<Rightarrow> bool \<Rightarrow> sched_st \<Rightarrow> (chan \<times> bool \<times> sched_st) result" where
  "sleep_enter c lk s =
     (case cpu_proc s of
        None \<Rightarrow> Inl (Panic ''sleep: no process is currently running'')
      | Some p \<Rightarrow>
          andThen (acquire_qlock s) (\<lambda>s.
          andThen (release_guard lk s) (\<lambda>(lk, s).
          (let s = upd_env p (\<lambda>v. v\<lparr>env_status := ENV_BLOCKED, channel := Some (chan_id c)\<rparr>) s in
           andThen (enqueue (chan_queue c) (Some p)) (\<lambda>q.
           andThen (sched s) (\<lambda>s. Inr (c\<lparr>chan_queue := q\<rparr>, lk, s)))))))"

definition sleep_resume :: "bool \<Rightarrow> sched_st \<Rightarrow> (bool \<times> sched_st) result" where
  "sleep_resume lk s =
     (case cpu_proc s of
        None \<Rightarrow> Inl (Cpu_trap ''current_env'')
      | Some p \<Rightarrow>
          andThen (release_qlock s) (\<lambda>s.
          andThen (acquire_guard lk s) (\<lambda>(lk, s).
          Inr (lk, upd_env p (\<lambda>v. v\<lparr>channel := None\<rparr>) s))))"

definition wake :: "nat \<Rightarrow> sched_st \<Rightarrow> sched_st result" where
  "wake e s = sched_insert_ready e (upd_env e (\<lambda>v. v\<lparr>env_status := ENV_READY, channel := None\<rparr>) s)"

definition wakeup_one :: "chan \<Rightarrow> sched_st \<Rightarrow> (chan \<times> sched_st) result" where
  "wakeup_one c s =
     andThen (acquire_qlock s) (\<lambda>s.
     andThen (dequeue (chan_queue c)) (\<lambda>(e, q).
     andThen (case e of None \<Rightarrow> Inr s | Some e \<Rightarrow> wake e s) (\<lambda>s.
     andThen (release_qlock s) (\<lambda>s. Inr (c\<lparr>chan_queue := q\<rparr>, s)))))"

text \<open>The loop of \<^verbatim>\<open>wakeup_all\<close>; one more round than there are environments is enough.\<close>

fun wakeup_loop :: "nat \<Rightarrow> nat list \<Rightarrow> sched_st \<Rightarrow> (nat list \<times> sched_st) result" where
  "wakeup_loop 0 q s = Inl Spins"
| "wakeup_loop (Suc n) q s =
     andThen (dequeue q) (\<lambda>(e, q).
     (case e of None \<Rightarrow> Inr (q, s) | Some e \<Rightarrow> andThen (wake e s) (wakeup_loop n q)))"

definition wakeup_all :: "chan \<Rightarrow> sched_st \<Rightarrow> (chan \<times> sched_st) result" where
  "wakeup_all c s =
     andThen (acquire_qlock s) (\<lambda>s.
     andThen (wakeup_loop (length (chan_queue c) + 1) (chan_queue c) s) (\<lambda>(q, s).
     andThen (release_qlock s) (\<lambda>s. Inr (c\<lparr>chan_queue := q\<rparr>, s))))"

section \<open>Sleeping locks\<close>

record sleeplock =
  sl_locked :: bool
  sl_lk :: bool
  sl_chan :: chan
  sl_pid :: int

definition init_sleeplock :: "sleeplock \<Rightarrow> sleeplock" where
  "init_sleeplock lk = lk\<lparr>sl_chan := init_channel (sl_chan lk), sl_lk := False, sl_locked := False, sl_pid := 0\<rparr>"

text \<open>
  The loop of \<^verbatim>\<open>acquire_sleeplock\<close> from its test on. The flag of the result: the lock was taken
  and the routine returned; otherwise the caller sleeps and goes on with \<open>acquire_sleeplock_resume\<close>.
\<close>

definition acquire_sleeplock_test :: "sleeplock \<Rightarrow> sched_st \<Rightarrow> (bool \<times> sleeplock \<times> sched_st) result" where
  "acquire_sleeplock_test lk s =
     (if sl_locked lk
      then andThen (sleep_enter (sl_chan lk) (sl_lk lk) s) (\<lambda>(c, g, s). Inr (False, lk\<lparr>sl_chan := c, sl_lk := g\<rparr>, s))
      else
        (case cpu_proc s of
           None \<Rightarrow> Inl (Cpu_trap ''get_cpu_proc()->env_id'')
         | Some p \<Rightarrow>
             andThen (release_guard (sl_lk lk) s) (\<lambda>(g, s).
             Inr (True, lk\<lparr>sl_locked := True, sl_pid := env_id (envs s p), sl_lk := g\<rparr>, s))))"

definition acquire_sleeplock :: "sleeplock \<Rightarrow> sched_st \<Rightarrow> (bool \<times> sleeplock \<times> sched_st) result" where
  "acquire_sleeplock lk s =
     andThen (acquire_guard (sl_lk lk) s) (\<lambda>(g, s). acquire_sleeplock_test (lk\<lparr>sl_lk := g\<rparr>) s)"

definition acquire_sleeplock_resume :: "sleeplock \<Rightarrow> sched_st \<Rightarrow> (bool \<times> sleeplock \<times> sched_st) result" where
  "acquire_sleeplock_resume lk s =
     andThen (sleep_resume (sl_lk lk) s) (\<lambda>(g, s). acquire_sleeplock_test (lk\<lparr>sl_lk := g\<rparr>) s)"

definition release_sleeplock :: "sleeplock \<Rightarrow> sched_st \<Rightarrow> (sleeplock \<times> sched_st) result" where
  "release_sleeplock lk s =
     andThen (acquire_guard (sl_lk lk) s) (\<lambda>(g, s).
     (let lk = lk\<lparr>sl_lk := g, sl_locked := False, sl_pid := 0\<rparr> in
      andThen (wakeup_all (sl_chan lk) s) (\<lambda>(c, s).
      andThen (release_guard (sl_lk lk) s) (\<lambda>(g, s). Inr (lk\<lparr>sl_chan := c, sl_lk := g\<rparr>, s)))))"

definition holding_sleeplock :: "sleeplock \<Rightarrow> sched_st \<Rightarrow> (bool \<times> sleeplock \<times> sched_st) result" where
  "holding_sleeplock lk s =
     andThen (acquire_guard (sl_lk lk) s) (\<lambda>(g, s).
     (case cpu_proc s of
        None \<Rightarrow> if sl_locked lk then Inl (Cpu_trap ''get_cpu_proc()->env_id'')
                 else andThen (release_guard g s) (\<lambda>(g, s). Inr (False, lk\<lparr>sl_lk := g\<rparr>, s))
      | Some p \<Rightarrow>
          andThen (release_guard g s) (\<lambda>(g, s).
          Inr (sl_locked lk \<and> sl_pid lk = env_id (envs s p), lk\<lparr>sl_lk := g\<rparr>, s))))"

section \<open>Semaphores\<close>

text \<open>\<open>count\<close> is an \<^verbatim>\<open>int\<close> of 32 bits.\<close>

record ksemaphore =
  sem_count :: int
  sem_lk :: bool
  sem_chan :: chan

definition init_ksemaphore :: "int \<Rightarrow> ksemaphore \<Rightarrow> ksemaphore" where
  "init_ksemaphore v sem = sem\<lparr>sem_chan := init_channel (sem_chan sem), sem_lk := False, sem_count := v\<rparr>"

definition wait_ksemaphore :: "ksemaphore \<Rightarrow> sched_st \<Rightarrow> (bool \<times> ksemaphore \<times> sched_st) result" where
  "wait_ksemaphore sem s =
     andThen (acquire_guard (sem_lk sem) s) (\<lambda>(g, s).
     (let sem = sem\<lparr>sem_lk := g, sem_count := int32 (sem_count sem - 1)\<rparr> in
      if sem_count sem < 0
      then andThen (sleep_enter (sem_chan sem) (sem_lk sem) s) (\<lambda>(c, g, s). Inr (False, sem\<lparr>sem_chan := c, sem_lk := g\<rparr>, s))
      else andThen (release_guard (sem_lk sem) s) (\<lambda>(g, s). Inr (True, sem\<lparr>sem_lk := g\<rparr>, s))))"

definition wait_ksemaphore_resume :: "ksemaphore \<Rightarrow> sched_st \<Rightarrow> (bool \<times> ksemaphore \<times> sched_st) result" where
  "wait_ksemaphore_resume sem s =
     andThen (sleep_resume (sem_lk sem) s) (\<lambda>(g, s).
     andThen (release_guard g s) (\<lambda>(g, s). Inr (True, sem\<lparr>sem_lk := g\<rparr>, s)))"

definition signal_ksemaphore :: "ksemaphore \<Rightarrow> sched_st \<Rightarrow> (ksemaphore \<times> sched_st) result" where
  "signal_ksemaphore sem s =
     andThen (acquire_guard (sem_lk sem) s) (\<lambda>(g, s).
     (let sem = sem\<lparr>sem_lk := g, sem_count := int32 (sem_count sem + 1)\<rparr> in
      andThen (if sem_count sem \<le> 0 then wakeup_one (sem_chan sem) s else Inr (sem_chan sem, s)) (\<lambda>(c, s).
      andThen (release_guard (sem_lk sem) s) (\<lambda>(g, s). Inr (sem\<lparr>sem_chan := c, sem_lk := g\<rparr>, s)))))"

section \<open>Sleeping and waking keep the process queues\<close>

text \<open>The states of an environment inside a guarded section, and right after it was resumed.\<close>

definition guarded :: "nat set \<Rightarrow> sched_st \<Rightarrow> bool" where
  "guarded B s \<longleftrightarrow> q_inv {} B s \<and> \<not> qlock s \<and> ncli s = 1 \<and> ctx s = In_process \<and>
     (\<exists>p. cpu_proc s = Some p \<and> env_status (envs s p) = ENV_RUNNING)"

definition dispatched :: "nat set \<Rightarrow> sched_st \<Rightarrow> bool" where
  "dispatched B s \<longleftrightarrow> q_inv {} B s \<and> qlock s \<and> ncli s = 1 \<and> ctx s = In_process \<and>
     (\<exists>p. cpu_proc s = Some p \<and> env_status (envs s p) = ENV_RUNNING)"

lemma acquire_guard_ok:
  assumes "sched_inv B s" "ctx s = In_process"
  shows "acquire_guard False s = Inr (True, s\<lparr>ncli := 1\<rparr>)" "guarded B (s\<lparr>ncli := 1\<rparr>)"
proof -
  note D = sched_invD [OF assms(1)]
  show "acquire_guard False s = Inr (True, s\<lparr>ncli := 1\<rparr>)" using D(2,3) assms(2) by (simp add: acquire_guard_def)
  have "q_inv {} B (s\<lparr>ncli := 1\<rparr>)" using D(1) by (rule q_inv_same) simp_all
  then show "guarded B (s\<lparr>ncli := 1\<rparr>)" using D assms(2) by (simp add: guarded_def)
qed

lemma release_guard_ok:
  assumes "guarded B s"
  shows "release_guard True s = Inr (False, s\<lparr>ncli := 0\<rparr>)" "sched_inv B (s\<lparr>ncli := 0\<rparr>)"
proof -
  show "release_guard True s = Inr (False, s\<lparr>ncli := 0\<rparr>)" using assms by (simp add: release_guard_def guarded_def)
  have "q_inv {} B s" using assms by (simp add: guarded_def)
  then have "q_inv {} B (s\<lparr>ncli := 0\<rparr>)" by (rule q_inv_same) simp_all
  then show "sched_inv B (s\<lparr>ncli := 0\<rparr>)" using assms by (auto simp: sched_inv_def guarded_def)
qed

lemma sleep_enter_ok:
  assumes G: "guarded B s" and p: "cpu_proc s = Some p" and q: "set (chan_queue c) = B"
  shows "\<exists>s'. sleep_enter c True s = Inr (c\<lparr>chan_queue := p # chan_queue c\<rparr>, False, s') \<and>
    sched_inv (insert p B) s' \<and> ctx s' = In_scheduler \<and> cpu_proc s' = None \<and> nenv s' = nenv s \<and> p \<notin> B \<and>
    (\<forall>e. e \<noteq> p \<longrightarrow> envs s' e = envs s e)"
proof -
  have I: "q_inv {} B s" and l: "\<not> qlock s" "ncli s = 1" and r: "env_status (envs s p) = ENV_RUNNING" and pn: "p < nenv s"
    using G p q_inv_cpu [of "{}" B s p] by (auto simp: guarded_def)
  have nb: "p \<notin> B" using q_invD(5) [OF I pn] r by (auto simp: placed_def)
  let ?f = "\<lambda>v. v\<lparr>env_status := ENV_BLOCKED, channel := Some (chan_id c)\<rparr>"
  let ?s = "(upd_env p ?f s)\<lparr>qlock := True, ctx := In_scheduler, cpu_proc := None\<rparr>"
  have e: "sleep_enter c True s = Inr (c\<lparr>chan_queue := p # chan_queue c\<rparr>, False, ?s)"
    using l p q nb by (simp add: sleep_enter_def acquire_qlock_def release_guard_def enqueue_def list_insert_head_def sched_def
        scheduler_resumed_def upd_env_def Let_def)
  have "q_inv {} (insert p B) (upd_env p ?f (s\<lparr>cpu_proc := None\<rparr>))"
    using put_blocked [OF take_cpu [OF I p]] pn r by simp
  then have "q_inv {} (insert p B) ?s" by (rule q_inv_same) (simp_all add: upd_env_def)
  then have "sched_inv (insert p B) ?s" using l by (simp add: sched_inv_def)
  then show ?thesis using e nb by simp
qed

lemma release_dispatched:
  assumes "dispatched B s"
  shows "release_qlock s = Inr (s\<lparr>qlock := False, ncli := 0\<rparr>)" "sched_inv B (s\<lparr>qlock := False, ncli := 0\<rparr>)"
proof -
  show "release_qlock s = Inr (s\<lparr>qlock := False, ncli := 0\<rparr>)" using assms by (simp add: release_qlock_def dispatched_def)
  have "q_inv {} B s" using assms by (simp add: dispatched_def)
  then have "q_inv {} B (s\<lparr>qlock := False, ncli := 0\<rparr>)" by (rule q_inv_same) simp_all
  then show "sched_inv B (s\<lparr>qlock := False, ncli := 0\<rparr>)" using assms by (auto simp: sched_inv_def dispatched_def)
qed

lemma sleep_resume_ok:
  assumes G: "dispatched B s" and p: "cpu_proc s = Some p"
  shows "\<exists>s'. sleep_resume False s = Inr (True, s') \<and> guarded B s' \<and> cpu_proc s' = Some p \<and> nenv s' = nenv s \<and>
    (\<forall>e. env_status (envs s' e) = env_status (envs s e))"
proof -
  let ?t = "s\<lparr>qlock := False, ncli := 0\<rparr>" and ?f = "\<lambda>v. v\<lparr>channel := None\<rparr>"
  note R = release_dispatched [OF G]
  have "sched_inv B (upd_env p ?f ?t)" by (rule sched_inv_free_update [OF R(2)]) simp_all
  then have g: "guarded B ((upd_env p ?f ?t)\<lparr>ncli := 1\<rparr>)"
    using G by (intro acquire_guard_ok(2)) (simp_all add: dispatched_def)
  have "sleep_resume False s = Inr (True, (upd_env p ?f ?t)\<lparr>ncli := 1\<rparr>)"
    using p R(1) by (simp add: sleep_resume_def acquire_guard_def upd_env_def)
  then show ?thesis using g p by simp
qed

definition same_core :: "sched_st \<Rightarrow> sched_st \<Rightarrow> bool" where
  "same_core s s' \<longleftrightarrow> ctx s' = ctx s \<and> cpu_proc s' = cpu_proc s \<and> qlock s' = qlock s \<and> ncli s' = ncli s \<and> nenv s' = nenv s"

lemma wake_ok:
  assumes I: "q_inv {} B s" and l: "qlock s" and e: "e \<in> B"
  shows "\<exists>s'. wake e s = Inr s' \<and> q_inv {} (B - {e}) s' \<and> same_core s s' \<and> env_status (envs s' e) = ENV_READY \<and>
    (\<forall>x. x \<noteq> e \<longrightarrow> envs s' x = envs s x)"
proof -
  note T = take_blocked [OF I e]
  let ?s = "upd_env e (\<lambda>v. v\<lparr>env_status := ENV_READY, channel := None\<rparr>) s"
  have "0 \<le> priority (envs s e)" "priority (envs s e) < int (num_of_ready_queues s)"
    using q_invD(2) [OF I] T(2) by (auto simp: envs_ok_def)
  then have Is: "q_inv {e} (B - {e}) ?s" using limbo_update [OF T(1)] T(3) by simp
  note W = sched_insert_ready_eq [OF Is] and P = put_ready [OF Is _ _ _ _ refl]
  show ?thesis unfolding wake_def using W P T(2,5) l by (simp add: same_core_def)
qed

lemma wakeup_loop_ok:
  assumes "q_inv {} B s" "qlock s" "distinct q" "set q \<subseteq> B" "length q < n"
  shows "\<exists>s'. wakeup_loop n q s = Inr ([], s') \<and> q_inv {} (B - set q) s' \<and> same_core s s' \<and>
    (\<forall>x. if x \<in> set q then env_status (envs s' x) = ENV_READY else envs s' x = envs s x)"
  using assms
proof (induction q arbitrary: n s B rule: rev_induct)
  case Nil
  then obtain m where "n = Suc m" by (cases n) auto
  then show ?case using Nil by (simp add: dequeue_def same_core_def)
next
  case (snoc e q)
  obtain m where n: "n = Suc m" using snoc.prems(5) by (cases n) auto
  from wake_ok [OF snoc.prems(1,2), of e] snoc.prems(4) obtain t where
    t: "wake e s = Inr t" "q_inv {} (B - {e}) t" "same_core s t" "env_status (envs t e) = ENV_READY" "\<forall>x. x \<noteq> e \<longrightarrow> envs t x = envs s x"
    by auto
  have "qlock t" "set q \<subseteq> B - {e}" "distinct q" "length q < m"
    using t(3) snoc.prems n by (auto simp: same_core_def)
  from snoc.IH [OF t(2) this(1,3,2,4)] obtain s' where
    s': "wakeup_loop m q t = Inr ([], s')" "q_inv {} (B - {e} - set q) s'" "same_core t s'"
      "\<forall>x. if x \<in> set q then env_status (envs s' x) = ENV_READY else envs s' x = envs t x" by auto
  have d: "dequeue (q @ [e]) = Inr (Some e, q)" using dequeue_eq [of "q @ [e]"] snoc.prems(3) by simp
  have "B - set (q @ [e]) = B - {e} - set q" by auto
  moreover have "same_core s s'" using t(3) s'(3) by (simp add: same_core_def)
  moreover have "if x \<in> set (q @ [e]) then env_status (envs s' x) = ENV_READY else envs s' x = envs s x" for x
    using s'(4) [rule_format, of x] t(4,5) by (cases "x = e") (auto split: if_splits)
  ultimately show ?case using n d t(1) s'(1,2) by simp
qed

lemma guarded_locked:
  assumes "guarded B s"
  shows "acquire_qlock s = Inr (s\<lparr>qlock := True, ncli := 2\<rparr>)" "q_inv {} B (s\<lparr>qlock := True, ncli := 2\<rparr>)"
proof -
  show "acquire_qlock s = Inr (s\<lparr>qlock := True, ncli := 2\<rparr>)" using assms by (simp add: acquire_qlock_def guarded_def)
  have "q_inv {} B s" using assms by (simp add: guarded_def)
  then show "q_inv {} B (s\<lparr>qlock := True, ncli := 2\<rparr>)" by (rule q_inv_same) simp_all
qed

text \<open>The queue lock is given back: what held of the environments still does.\<close>

lemma guarded_unlocked:
  assumes G: "guarded B s" and I: "q_inv {} B' t" and c: "same_core (s\<lparr>qlock := True, ncli := 2\<rparr>) t"
    and e: "\<And>p. cpu_proc s = Some p \<Longrightarrow> envs t p = envs s p"
  shows "release_qlock t = Inr (t\<lparr>qlock := False, ncli := 1\<rparr>)" "guarded B' (t\<lparr>qlock := False, ncli := 1\<rparr>)"
proof -
  show "release_qlock t = Inr (t\<lparr>qlock := False, ncli := 1\<rparr>)" using c by (simp add: release_qlock_def same_core_def)
  have "q_inv {} B' (t\<lparr>qlock := False, ncli := 1\<rparr>)" using I by (rule q_inv_same) simp_all
  then show "guarded B' (t\<lparr>qlock := False, ncli := 1\<rparr>)" using G c e by (auto simp: guarded_def same_core_def)
qed

lemma guarded_running:
  assumes "guarded B s" "cpu_proc s = Some p"
  shows "p \<notin> B" "q_inv {} B s" "env_status (envs s p) = ENV_RUNNING" "p < nenv s" "ctx s = In_process"
proof -
  show I: "q_inv {} B s" and r: "env_status (envs s p) = ENV_RUNNING" "ctx s = In_process" using assms by (auto simp: guarded_def)
  show n: "p < nenv s" using q_inv_cpu [OF I assms(2)] by simp
  show "p \<notin> B" using q_invD(5) [OF I n] r by (auto simp: placed_def)
qed

lemma wakeup_all_ok:
  assumes G: "guarded B s" and q: "distinct (chan_queue c)" "set (chan_queue c) = B"
  shows "\<exists>s'. wakeup_all c s = Inr (c\<lparr>chan_queue := []\<rparr>, s') \<and> guarded {} s' \<and> cpu_proc s' = cpu_proc s \<and> nenv s' = nenv s \<and>
    (\<forall>x. if x \<in> B then env_status (envs s' x) = ENV_READY else envs s' x = envs s x)"
proof -
  let ?a = "s\<lparr>qlock := True, ncli := 2\<rparr>"
  note A = guarded_locked [OF G]
  from wakeup_loop_ok [OF A(2) _ q(1), of "length (chan_queue c) + 1"] q(2) obtain t where
    t: "wakeup_loop (length (chan_queue c) + 1) (chan_queue c) ?a = Inr ([], t)" "q_inv {} {} t" "same_core ?a t"
      "\<forall>x. if x \<in> B then env_status (envs t x) = ENV_READY else envs t x = envs s x" by auto
  have "envs t p = envs s p" if "cpu_proc s = Some p" for p using t(4) guarded_running(1) [OF G that] by auto
  note R = guarded_unlocked [OF G t(2,3) this]
  show ?thesis using A(1) t R by (simp add: wakeup_all_def same_core_def)
qed

lemma wakeup_one_ok:
  assumes G: "guarded B s" and q: "distinct (chan_queue c)" "set (chan_queue c) = B" "chan_queue c \<noteq> []"
  shows "\<exists>s'. wakeup_one c s = Inr (c\<lparr>chan_queue := butlast (chan_queue c)\<rparr>, s') \<and> guarded (B - {last (chan_queue c)}) s' \<and>
    cpu_proc s' = cpu_proc s \<and> nenv s' = nenv s \<and>
    (\<forall>x. if x = last (chan_queue c) then env_status (envs s' x) = ENV_READY else envs s' x = envs s x)"
proof -
  let ?a = "s\<lparr>qlock := True, ncli := 2\<rparr>" and ?e = "last (chan_queue c)"
  note A = guarded_locked [OF G]
  have e: "?e \<in> B" using q(2,3) last_in_set by blast
  from wake_ok [OF A(2) _ e] obtain t where t: "wake ?e ?a = Inr t" "q_inv {} (B - {?e}) t" "same_core ?a t"
      "env_status (envs t ?e) = ENV_READY" "\<forall>x. x \<noteq> ?e \<longrightarrow> envs t x = envs s x" by auto
  have "envs t p = envs s p" if "cpu_proc s = Some p" for p using t(5) guarded_running(1) [OF G that] e by metis
  note R = guarded_unlocked [OF G t(2,3) this]
  show ?thesis using A(1) t R dequeue_eq [OF q(1,3)] by (simp add: wakeup_one_def same_core_def)
qed

lemma turn_ok:
  assumes I: "sched_inv B s" and c: "ctx s = In_scheduler"
  shows "\<exists>t. fos_scheduler_turn s = Inr t \<and> nenv t = nenv s \<and>
    ((\<exists>e < nenv s. dispatched B t \<and> cpu_proc t = Some e \<and> env_status (envs s e) = ENV_READY \<and> (\<forall>x. x \<noteq> e \<longrightarrow> envs t x = envs s x)) \<or>
     sched_inv B t \<and> cpu_proc t = None \<and> ctx t \<noteq> In_process \<and> envs t = envs s)"
  using sched_next_spec [OF I c]
proof (elim disjE exE conjE)
  note D = sched_invD [OF I]
  have l: "qlock s" "ncli s = 1" using D(2,3) c by auto
  {
    fix k assume k: "k < num_of_ready_queues s" "env_ready_queues (requeue s) ! k \<noteq> []"
      "sched_next s = Inr (Some (last (env_ready_queues (requeue s) ! k)), picked k s)"
    let ?e = "last (env_ready_queues (requeue s) ! k)"
    let ?t = "upd_env ?e (\<lambda>v. v\<lparr>env_status := ENV_RUNNING\<rparr>) ((picked k s)\<lparr>cpu_proc := Some ?e, ctx := In_process\<rparr>)"
    note P = q_inv_picked [OF I c k(1) refl k(2)]
    have "dispatched B ?t" using P(1) l by (simp add: dispatched_def picked_def Let_def)
    then show ?thesis using k(3) P(2,3)
      by (intro exI [of _ ?t]) (auto simp: fos_scheduler_turn_def picked_def Let_def)
  }
  {
    fix q assume z: "cpu_proc s = None" and n: "sched_next s = Inr (None, s\<lparr>clock_quantum := q\<rparr>)"
    let ?c = "if is_any_blocked (s\<lparr>clock_quantum := q\<rparr>) then Idle_scheduler else Prompt"
    let ?t = "s\<lparr>clock_quantum := q, qlock := False, ncli := 0, ctx := ?c\<rparr>"
    have "q_inv {} B ?t" using D(1) by (rule q_inv_same) simp_all
    then have "sched_inv B ?t" using z by (simp add: sched_inv_def)
    then show ?thesis using n l z
      by (intro exI [of _ ?t]) (simp add: fos_scheduler_turn_def release_qlock_def Let_def)
  }
qed

section \<open>Processes that use one blocking object\<close>

text \<open>
  A system of environments that call the operations of one object. \<open>op_enter\<close> may put its caller
  to sleep, \<open>op_resume\<close> is what a caller goes on with when the scheduler picks it again. A process
  is outside, asleep inside \<open>op_enter\<close>, or past it. The clock may take the processor away whenever no spinlock is held.
\<close>

datatype pc = Out | Waiting | Inside

record 'o ops =
  op_enter :: "'o \<Rightarrow> sched_st \<Rightarrow> (bool \<times> 'o \<times> sched_st) result"
  op_resume :: "'o \<Rightarrow> sched_st \<Rightarrow> (bool \<times> 'o \<times> sched_st) result"
  op_leave :: "'o \<Rightarrow> sched_st \<Rightarrow> ('o \<times> sched_st) result"
  op_inside :: pc                \<comment> \<open>where a process is that has passed\<close>
  op_enter_ok :: "'o \<Rightarrow> bool"    \<comment> \<open>calls that may be made\<close>
  op_leave_ok :: "'o \<Rightarrow> bool"

record 'o sys =
  obj :: 'o
  sst :: sched_st
  pcs :: "nat \<Rightarrow> pc"
  entered :: nat
  left :: nat

datatype action = Enter | Leave | Tick | Turn | Outer

definition enabled :: "'o ops \<Rightarrow> action \<Rightarrow> 'o sys \<Rightarrow> bool" where
  "enabled K a y \<longleftrightarrow>
     (case a of
        Enter \<Rightarrow> ctx (sst y) = In_process \<and> op_enter_ok K (obj y) \<and> (\<forall>p. cpu_proc (sst y) = Some p \<longrightarrow> pcs y p = Out)
      | Leave \<Rightarrow> ctx (sst y) = In_process \<and> op_leave_ok K (obj y) \<and> (\<forall>p. cpu_proc (sst y) = Some p \<longrightarrow> pcs y p = op_inside K)
      | Tick \<Rightarrow> ctx (sst y) = In_process
      | Turn \<Rightarrow> ctx (sst y) = In_scheduler
      | Outer \<Rightarrow> ctx (sst y) = Idle_scheduler)"

definition sys_step :: "'o ops \<Rightarrow> action \<Rightarrow> 'o sys \<Rightarrow> 'o sys result" where
  "sys_step K a y =
     (case a of
        Enter \<Rightarrow>
          andThen (op_enter K (obj y) (sst y)) (\<lambda>(r, b, s).
          Inr (y\<lparr>obj := b, sst := s, pcs := (pcs y)(the (cpu_proc (sst y)) := (if r then op_inside K else Waiting)),
                 entered := entered y + 1\<rparr>))
      | Leave \<Rightarrow>
          andThen (op_leave K (obj y) (sst y)) (\<lambda>(b, s).
          Inr (y\<lparr>obj := b, sst := s, pcs := (pcs y)(the (cpu_proc (sst y)) := Out), left := left y + 1\<rparr>))
      | Tick \<Rightarrow> andThen (yield (sst y)) (\<lambda>s. Inr (y\<lparr>sst := s\<rparr>))
      | Turn \<Rightarrow>
          andThen (fos_scheduler_turn (sst y)) (\<lambda>s.
          (case cpu_proc s of
             None \<Rightarrow> Inr (y\<lparr>sst := s\<rparr>)
           | Some p \<Rightarrow>
               if pcs y p = Waiting
               then andThen (op_resume K (obj y) s) (\<lambda>(r, b, s).
                    Inr (y\<lparr>obj := b, sst := s, pcs := (pcs y)(p := (if r then op_inside K else Waiting))\<rparr>))
               else andThen (resume_process s) (\<lambda>s. Inr (y\<lparr>sst := s\<rparr>))))
      | Outer \<Rightarrow> andThen (fos_scheduler_outer (sst y)) (\<lambda>s. Inr (y\<lparr>sst := s\<rparr>)))"

inductive reachable :: "'o ops \<Rightarrow> 'o sys \<Rightarrow> 'o sys \<Rightarrow> bool" for K y0 where
  start: "reachable K y0 y0"
| move: "reachable K y0 y \<Longrightarrow> enabled K a y \<Longrightarrow> sys_step K a y = Inr y' \<Longrightarrow> reachable K y0 y'"

text \<open>What a call that may block has done when it passed, or when its caller went to sleep.\<close>

definition went :: "('o \<Rightarrow> nat list) \<Rightarrow> ('o \<Rightarrow> bool) \<Rightarrow> nat \<Rightarrow> bool \<Rightarrow> 'o \<Rightarrow> sched_st \<Rightarrow> 'o \<Rightarrow> sched_st \<Rightarrow> bool" where
  "went queue ok p r b s b' s' \<longleftrightarrow> ok b' \<and> sched_inv (set (queue b')) s' \<and> nenv s' = nenv s \<and>
     (\<forall>e. e \<noteq> p \<longrightarrow> env_status (envs s' e) = env_status (envs s e)) \<and>
     (if r then ctx s' = In_process \<and> cpu_proc s' = Some p \<and> queue b' = queue b
      else ctx s' = In_scheduler \<and> cpu_proc s' = None \<and> queue b' = p # queue b)"

lemma went_from:
  "went queue ok p r b t b' s' \<Longrightarrow> nenv t = nenv s \<Longrightarrow> \<forall>e. env_status (envs t e) = env_status (envs s e) \<Longrightarrow>
     went queue ok p r b s b' s'"
  by (simp add: went_def)

text \<open>The contract of a blocking object towards the processes and the scheduler.\<close>

locale blocking_object =
  fixes K :: "'o ops" and queue :: "'o \<Rightarrow> nat list" and ok :: "'o \<Rightarrow> bool"
  assumes inside: "op_inside K \<noteq> Waiting"
    and enter: "ok b \<Longrightarrow> op_enter_ok K b \<Longrightarrow> sched_inv (set (queue b)) s \<Longrightarrow> ctx s = In_process \<Longrightarrow> cpu_proc s = Some p \<Longrightarrow>
      \<exists>r b' s'. op_enter K b s = Inr (r, b', s') \<and> went queue ok p r b s b' s'"
    and resume: "ok b \<Longrightarrow> dispatched (set (queue b)) s \<Longrightarrow> cpu_proc s = Some p \<Longrightarrow>
      \<exists>r b' s'. op_resume K b s = Inr (r, b', s') \<and> went queue ok p r b s b' s'"
    and leave: "ok b \<Longrightarrow> op_leave_ok K b \<Longrightarrow> sched_inv (set (queue b)) s \<Longrightarrow> ctx s = In_process \<Longrightarrow> cpu_proc s = Some p \<Longrightarrow>
      \<exists>b' s'. op_leave K b s = Inr (b', s') \<and> ok b' \<and> sched_inv (set (queue b')) s' \<and> nenv s' = nenv s \<and>
        ctx s' = In_process \<and> cpu_proc s' = Some p \<and> set (queue b') \<subseteq> set (queue b) \<and>
        (\<forall>x. if x \<in> set (queue b) - set (queue b') then env_status (envs s' x) = ENV_READY
             else env_status (envs s' x) = env_status (envs s x))"
begin

definition sys_inv :: "'o sys \<Rightarrow> bool" where
  "sys_inv y \<longleftrightarrow> ok (obj y) \<and> sched_inv (set (queue (obj y))) (sst y) \<and>
     (\<forall>p \<in> set (queue (obj y)). pcs y p = Waiting) \<and>
     (\<forall>p. pcs y p = Waiting \<longrightarrow> p < nenv (sst y) \<and> (p \<in> set (queue (obj y)) \<or> env_status (envs (sst y) p) = ENV_READY)) \<and>
     (\<forall>p. cpu_proc (sst y) = Some p \<longrightarrow> pcs y p \<noteq> Waiting)"

lemma running_not_queued:
  assumes "sched_inv (set (queue b)) s" "ctx s = In_process" "cpu_proc s = Some p"
  shows "p \<notin> set (queue b)" "p < nenv s" "env_status (envs s p) = ENV_RUNNING"
  using guarded_running [OF acquire_guard_ok(2) [OF assms(1,2)]] assms(3) by simp_all

lemma went_inv:
  assumes I: "ok (obj y)" "\<forall>x \<in> set (queue (obj y)). pcs y x = Waiting"
    "\<forall>x. pcs y x = Waiting \<longrightarrow> x < nenv s \<and> (x = p \<or> x \<in> set (queue (obj y)) \<or> env_status (envs s x) = ENV_READY)"
    and w: "went queue ok p r (obj y) s b' s'" and p: "p < nenv s" "p \<notin> set (queue (obj y))"
  shows "sys_inv (y\<lparr>obj := b', sst := s', pcs := (pcs y)(p := (if r then op_inside K else Waiting)), entered := n\<rparr>)"
proof (cases r)
  case True
  then show ?thesis using I w p inside by (auto simp: sys_inv_def went_def)
next
  case False
  then show ?thesis using I w p by (auto simp: sys_inv_def went_def)
qed

lemma enter_step:
  assumes "sys_inv y" "enabled K Enter y"
  shows "\<exists>y'. sys_step K Enter y = Inr y' \<and> sys_inv y'"
proof -
  have E: "ctx (sst y) = In_process" "op_enter_ok K (obj y)" and I: "ok (obj y)" "sched_inv (set (queue (obj y))) (sst y)"
    using assms by (auto simp: enabled_def sys_inv_def)
  obtain p where p: "cpu_proc (sst y) = Some p" using sched_invD(4) [OF I(2) E(1)] by auto
  obtain r b' s' where e: "op_enter K (obj y) (sst y) = Inr (r, b', s')" and w: "went queue ok p r (obj y) (sst y) b' s'"
    using enter [OF I(1) E(2) I(2) E(1) p] by auto
  note N = running_not_queued [OF I(2) E(1) p]
  have "sys_inv (y\<lparr>obj := b', sst := s', pcs := (pcs y)(p := (if r then op_inside K else Waiting)), entered := entered y + 1\<rparr>)"
    by (rule went_inv [OF _ _ _ w]) (use assms(1) N in \<open>auto simp: sys_inv_def\<close>)
  then show ?thesis using e p by (simp add: sys_step_def)
qed

lemma leave_step:
  assumes "sys_inv y" "enabled K Leave y"
  shows "\<exists>y'. sys_step K Leave y = Inr y' \<and> sys_inv y'"
proof -
  have E: "ctx (sst y) = In_process" "op_leave_ok K (obj y)" and I: "ok (obj y)" "sched_inv (set (queue (obj y))) (sst y)"
    using assms by (auto simp: enabled_def sys_inv_def)
  obtain p where p: "cpu_proc (sst y) = Some p" using sched_invD(4) [OF I(2) E(1)] by auto
  obtain b' s' where e: "op_leave K (obj y) (sst y) = Inr (b', s')"
    and w: "ok b'" "sched_inv (set (queue b')) s'" "nenv s' = nenv (sst y)" "cpu_proc s' = Some p" "set (queue b') \<subseteq> set (queue (obj y))"
      "\<And>x. x \<in> set (queue (obj y)) - set (queue b') \<Longrightarrow> env_status (envs s' x) = ENV_READY"
      "\<And>x. x \<notin> set (queue (obj y)) - set (queue b') \<Longrightarrow> env_status (envs s' x) = env_status (envs (sst y) x)"
    using leave [OF I(1) E(2) I(2) E(1) p] by metis
  note N = running_not_queued [OF I(2) E(1) p]
  have "x \<in> set (queue b') \<or> env_status (envs s' x) = ENV_READY"
    if "x \<in> set (queue (obj y)) \<or> env_status (envs (sst y) x) = ENV_READY" for x
    using that w(6,7) [of x] by (cases "x \<in> set (queue (obj y)) - set (queue b')") auto
  then have "sys_inv (y\<lparr>obj := b', sst := s', pcs := (pcs y)(p := Out), left := left y + 1\<rparr>)"
    using assms(1) w N by (auto simp: sys_inv_def)
  then show ?thesis using e p by (simp add: sys_step_def)
qed

end

context blocking_object
begin

lemma tick_step:
  assumes "sys_inv y" "enabled K Tick y"
  shows "\<exists>y'. sys_step K Tick y = Inr y' \<and> sys_inv y'"
proof -
  have c: "ctx (sst y) = In_process" and I: "sched_inv (set (queue (obj y))) (sst y)"
    using assms by (auto simp: enabled_def sys_inv_def)
  from yield_ok [OF I c] obtain s' where s': "yield (sst y) = Inr s'" "sched_inv (set (queue (obj y))) s'" "cpu_proc s' = cpu_proc (sst y)"
    "nenv s' = nenv (sst y)" "\<forall>e. cpu_proc (sst y) \<noteq> Some e \<longrightarrow> envs s' e = envs (sst y) e" by auto
  have "envs s' x = envs (sst y) x" if "pcs y x = Waiting" for x using s'(5) assms(1) that unfolding sys_inv_def by metis
  then have "sys_inv (y\<lparr>sst := s'\<rparr>)" using assms(1) s' by (simp add: sys_inv_def)
  then show ?thesis using s'(1) by (simp add: sys_step_def)
qed

lemma outer_step:
  assumes "sys_inv y" "enabled K Outer y"
  shows "\<exists>y'. sys_step K Outer y = Inr y' \<and> sys_inv y'"
proof -
  have c: "ctx (sst y) = Idle_scheduler" and I: "sched_inv (set (queue (obj y))) (sst y)"
    using assms by (auto simp: enabled_def sys_inv_def)
  let ?s = "(sst y)\<lparr>qlock := True, ncli := 1, ctx := In_scheduler\<rparr>"
  have l: "\<not> qlock (sst y)" "ncli (sst y) = 0" "cpu_proc (sst y) = None" using I c by (auto simp: sched_inv_def)
  have "q_inv {} (set (queue (obj y))) ?s" using sched_invD(1) [OF I] by (rule q_inv_same) simp_all
  then have "sched_inv (set (queue (obj y))) ?s" using l by (simp add: sched_inv_def)
  then have "sys_inv (y\<lparr>sst := ?s\<rparr>)" using assms(1) by (auto simp: sys_inv_def)
  then show ?thesis using l by (simp add: sys_step_def fos_scheduler_outer_def acquire_qlock_def)
qed

lemma turn_step:
  assumes Y: "sys_inv y" and e: "enabled K Turn y"
  shows "\<exists>y'. sys_step K Turn y = Inr y' \<and> sys_inv y'"
proof -
  let ?B = "set (queue (obj y))"
  have c: "ctx (sst y) = In_scheduler" and ok: "ok (obj y)" and I: "sched_inv ?B (sst y)"
    using assms by (auto simp: enabled_def sys_inv_def)
  from turn_ok [OF I c] obtain t where t: "fos_scheduler_turn (sst y) = Inr t" "nenv t = nenv (sst y)"
    "(\<exists>e < nenv (sst y). dispatched ?B t \<and> cpu_proc t = Some e \<and> env_status (envs (sst y) e) = ENV_READY \<and> (\<forall>x. x \<noteq> e \<longrightarrow> envs t x = envs (sst y) x)) \<or>
     sched_inv ?B t \<and> cpu_proc t = None \<and> ctx t \<noteq> In_process \<and> envs t = envs (sst y)" by auto
  from t(3) show ?thesis
  proof (elim disjE exE conjE)
    assume n: "sched_inv ?B t" "cpu_proc t = None" "envs t = envs (sst y)"
    then have "sys_inv (y\<lparr>sst := t\<rparr>)" using Y t(2) by (auto simp: sys_inv_def)
    then show ?thesis using t(1) n(2) by (simp add: sys_step_def)
  next
    fix p assume p: "p < nenv (sst y)" "dispatched ?B t" "cpu_proc t = Some p" "env_status (envs (sst y) p) = ENV_READY"
      "\<forall>x. x \<noteq> p \<longrightarrow> envs t x = envs (sst y) x"
    have nq: "p \<notin> ?B" using q_invD(5) [OF sched_invD(1) [OF I] p(1)] p(4) by (auto simp: placed_def)
    show ?thesis
    proof (cases "pcs y p = Waiting")
      case True
      obtain r b' s' where r: "op_resume K (obj y) t = Inr (r, b', s')" and w: "went queue ok p r (obj y) t b' s'"
        using resume [OF ok p(2,3)] by auto
      have "sys_inv (y\<lparr>obj := b', sst := s', pcs := (pcs y)(p := (if r then op_inside K else Waiting)), entered := entered y\<rparr>)"
        by (rule went_inv [OF _ _ _ w]) (use Y p t(2) nq in \<open>auto simp: sys_inv_def\<close>)
      moreover have "y\<lparr>obj := b', sst := s', pcs := (pcs y)(p := (if r then op_inside K else Waiting)), entered := entered y\<rparr> =
        y\<lparr>obj := b', sst := s', pcs := (pcs y)(p := (if r then op_inside K else Waiting))\<rparr>" by (cases y) simp
      ultimately show ?thesis using t(1) p(3) True r by (simp add: sys_step_def)
    next
      case False
      let ?t = "t\<lparr>qlock := False, ncli := 0\<rparr>"
      note R = release_dispatched [OF p(2)]
      have "envs t x = envs (sst y) x" if "pcs y x = Waiting" for x using p(5) False that by metis
      then have "sys_inv (y\<lparr>sst := ?t\<rparr>)" using Y R(2) t(2) p(3) False by (simp add: sys_inv_def)
      then show ?thesis using t(1) p(3) False R(1) by (simp add: sys_step_def resume_process_def)
    qed
  qed
qed

lemma step_ok:
  assumes "sys_inv y" "enabled K a y"
  shows "\<exists>y'. sys_step K a y = Inr y' \<and> sys_inv y'"
  using assms enter_step leave_step tick_step turn_step outer_step by (cases a) blast+

lemma reachable_inv: "reachable K y0 y \<Longrightarrow> sys_inv y0 \<Longrightarrow> sys_inv y"
proof (induction rule: reachable.induct)
  case (move y a y')
  then show ?case using step_ok [of y a] by auto
qed

lemma idle_start:
  assumes "ok b" "queue b = []" "sched_inv {} s" "\<And>p. pcs0 p = Out"
  shows "sys_inv \<lparr>obj = b, sst = s, pcs = pcs0, entered = 0, left = 0\<rparr>"
  using assms by (simp add: sys_inv_def)

end

section \<open>The sleeping lock as a blocking object\<close>

definition sl_queue :: "sleeplock \<Rightarrow> nat list" where
  "sl_queue lk = chan_queue (sl_chan lk)"

definition sl_ok :: "sleeplock \<Rightarrow> bool" where
  "sl_ok lk \<longleftrightarrow> \<not> sl_lk lk \<and> distinct (sl_queue lk) \<and> (\<not> sl_locked lk \<longrightarrow> sl_queue lk = [])"

definition sleeplock_ops :: "sleeplock ops" where
  "sleeplock_ops = \<lparr>op_enter = acquire_sleeplock, op_resume = acquire_sleeplock_resume, op_leave = release_sleeplock,
     op_inside = Inside, op_enter_ok = (\<lambda>_. True), op_leave_ok = (\<lambda>_. True)\<rparr>"

lemma sleeplock_ops_simps [simp]:
  "op_enter sleeplock_ops = acquire_sleeplock" "op_resume sleeplock_ops = acquire_sleeplock_resume"
  "op_leave sleeplock_ops = release_sleeplock" "op_inside sleeplock_ops = Inside"
  "op_enter_ok sleeplock_ops b" "op_leave_ok sleeplock_ops b"
  by (simp_all add: sleeplock_ops_def)

lemma acquire_test_ok:
  assumes G: "guarded (set (sl_queue lk)) s" and p: "cpu_proc s = Some p" and lk: "sl_ok (lk\<lparr>sl_lk := False\<rparr>)" "sl_lk lk"
  shows "\<exists>b' s'. acquire_sleeplock_test lk s = Inr (\<not> sl_locked lk, b', s') \<and>
    went sl_queue sl_ok p (\<not> sl_locked lk) (lk\<lparr>sl_lk := False\<rparr>) s b' s' \<and> sl_locked b' \<and>
    (\<not> sl_locked lk \<longrightarrow> sl_pid b' = env_id (envs s p))"
proof (cases "sl_locked lk")
  case True
  have q: "set (chan_queue (sl_chan lk)) = set (sl_queue lk)" by (simp add: sl_queue_def)
  from sleep_enter_ok [OF G p q] obtain s' where
    s': "sleep_enter (sl_chan lk) True s = Inr ((sl_chan lk)\<lparr>chan_queue := p # chan_queue (sl_chan lk)\<rparr>, False, s')"
      "sched_inv (insert p (set (sl_queue lk))) s'" "ctx s' = In_scheduler" "cpu_proc s' = None" "nenv s' = nenv s" "p \<notin> set (sl_queue lk)"
      "\<forall>e. e \<noteq> p \<longrightarrow> envs s' e = envs s e" by auto
  show ?thesis using True lk s' by (simp add: acquire_sleeplock_test_def went_def sl_ok_def sl_queue_def)
next
  case False
  note R = release_guard_ok [OF G]
  show ?thesis using False lk p R guarded_running [OF G p]
    by (simp add: acquire_sleeplock_test_def went_def sl_ok_def sl_queue_def)
qed

lemma acquire_sleeplock_ok:
  assumes lk: "sl_ok lk" and I: "sched_inv (set (sl_queue lk)) s" and c: "ctx s = In_process" and p: "cpu_proc s = Some p"
  shows "\<exists>b' s'. acquire_sleeplock lk s = Inr (\<not> sl_locked lk, b', s') \<and>
    went sl_queue sl_ok p (\<not> sl_locked lk) lk s b' s' \<and> sl_locked b' \<and> (\<not> sl_locked lk \<longrightarrow> sl_pid b' = env_id (envs s p))"
proof -
  note A = acquire_guard_ok [OF I c]
  have g: "sl_lk lk = False" "lk\<lparr>sl_lk := True, sl_lk := False\<rparr> = lk" using lk by (simp_all add: sl_ok_def)
  show ?thesis
    using acquire_test_ok [of "lk\<lparr>sl_lk := True\<rparr>" "s\<lparr>ncli := 1\<rparr>" p] A p lk g
    by (simp add: acquire_sleeplock_def went_def sl_queue_def)
qed

lemma acquire_sleeplock_resume_ok:
  assumes lk: "sl_ok lk" and D: "dispatched (set (sl_queue lk)) s" and p: "cpu_proc s = Some p"
  shows "\<exists>b' s'. acquire_sleeplock_resume lk s = Inr (\<not> sl_locked lk, b', s') \<and>
    went sl_queue sl_ok p (\<not> sl_locked lk) lk s b' s' \<and> sl_locked b'"
proof -
  from sleep_resume_ok [OF D p] obtain t where t: "sleep_resume False s = Inr (True, t)" "guarded (set (sl_queue lk)) t"
    "cpu_proc t = Some p" "nenv t = nenv s" "\<forall>e. env_status (envs t e) = env_status (envs s e)" by auto
  have g: "sl_lk lk = False" "lk\<lparr>sl_lk := True, sl_lk := False\<rparr> = lk" using lk by (simp_all add: sl_ok_def)
  from acquire_test_ok [of "lk\<lparr>sl_lk := True\<rparr>" t p] t lk g obtain b' s' where
    b': "acquire_sleeplock_test (lk\<lparr>sl_lk := True\<rparr>) t = Inr (\<not> sl_locked lk, b', s')"
      "went sl_queue sl_ok p (\<not> sl_locked lk) lk t b' s'" "sl_locked b'" by (auto simp: sl_queue_def)
  show ?thesis using went_from [OF b'(2) t(4,5)] b'(1,3) t(1) g by (simp add: acquire_sleeplock_resume_def)
qed

lemma release_sleeplock_ok:
  assumes lk: "sl_ok lk" and I: "sched_inv (set (sl_queue lk)) s" and c: "ctx s = In_process" and p: "cpu_proc s = Some p"
  shows "\<exists>b' s'. release_sleeplock lk s = Inr (b', s') \<and> sl_ok b' \<and> \<not> sl_locked b' \<and> sl_queue b' = [] \<and> sched_inv {} s' \<and>
    nenv s' = nenv s \<and> ctx s' = In_process \<and> cpu_proc s' = Some p \<and>
    (\<forall>x. if x \<in> set (sl_queue lk) then env_status (envs s' x) = ENV_READY else envs s' x = envs s x)"
proof -
  note A = acquire_guard_ok [OF I c]
  have d: "distinct (chan_queue (sl_chan lk))" "set (chan_queue (sl_chan lk)) = set (sl_queue lk)" "sl_lk lk = False"
    using lk by (auto simp: sl_ok_def sl_queue_def)
  from wakeup_all_ok [OF A(2) d(1,2)] obtain t where t: "wakeup_all (sl_chan lk) (s\<lparr>ncli := 1\<rparr>) = Inr ((sl_chan lk)\<lparr>chan_queue := []\<rparr>, t)"
    "guarded {} t" "cpu_proc t = cpu_proc s" "nenv t = nenv s"
    "\<forall>x. if x \<in> set (sl_queue lk) then env_status (envs t x) = ENV_READY else envs t x = envs s x" by auto
  note R = release_guard_ok [OF t(2)]
  show ?thesis using A(1) t R d(3) p guarded_running(5) [OF t(2)]
    by (simp add: release_sleeplock_def sl_ok_def sl_queue_def Let_def)
qed

interpretation sl: blocking_object sleeplock_ops sl_queue sl_ok
proof unfold_locales
  show "op_inside sleeplock_ops \<noteq> Waiting" by simp
next
  fix b s p assume "sl_ok b" "sched_inv (set (sl_queue b)) s" "ctx s = In_process" "cpu_proc s = Some p"
  then show "\<exists>r b' s'. op_enter sleeplock_ops b s = Inr (r, b', s') \<and> went sl_queue sl_ok p r b s b' s'"
    using acquire_sleeplock_ok [of b s p] by auto
next
  fix b s p assume "sl_ok b" "dispatched (set (sl_queue b)) s" "cpu_proc s = Some p"
  then show "\<exists>r b' s'. op_resume sleeplock_ops b s = Inr (r, b', s') \<and> went sl_queue sl_ok p r b s b' s'"
    using acquire_sleeplock_resume_ok [of b s p] by auto
next
  fix b s p assume A: "sl_ok b" "sched_inv (set (sl_queue b)) s" "ctx s = In_process" "cpu_proc s = Some p"
  from release_sleeplock_ok [OF this] obtain b' s' where R: "release_sleeplock b s = Inr (b', s')" "sl_ok b'" "sl_queue b' = []" "sched_inv {} s'"
    "nenv s' = nenv s" "ctx s' = In_process" "cpu_proc s' = Some p"
    "\<forall>x. if x \<in> set (sl_queue b) then env_status (envs s' x) = ENV_READY else envs s' x = envs s x" by auto
  then show "\<exists>b' s'. op_leave sleeplock_ops b s = Inr (b', s') \<and> sl_ok b' \<and> sched_inv (set (sl_queue b')) s' \<and> nenv s' = nenv s \<and>
        ctx s' = In_process \<and> cpu_proc s' = Some p \<and> set (sl_queue b') \<subseteq> set (sl_queue b) \<and>
        (\<forall>x. if x \<in> set (sl_queue b) - set (sl_queue b') then env_status (envs s' x) = ENV_READY
             else env_status (envs s' x) = env_status (envs s x))"
    by (intro exI [of _ b'] exI [of _ s']) simp
qed

text \<open>At most one process is past \<^verbatim>\<open>acquire_sleeplock\<close>, and it is one exactly when the lock is marked.\<close>

definition exclusive :: "sleeplock sys \<Rightarrow> bool" where
  "exclusive y \<longleftrightarrow> (sl_locked (obj y) \<longleftrightarrow> (\<exists>p. pcs y p = Inside)) \<and> (\<forall>p q. pcs y p = Inside \<longrightarrow> pcs y q = Inside \<longrightarrow> p = q)"

lemma exclusive_went:
  assumes "exclusive y" "pcs y p \<noteq> Inside" "sl_locked b'" "r = (\<not> sl_locked (obj y))"
  shows "exclusive (y\<lparr>obj := b', sst := s', pcs := (pcs y)(p := (if r then Inside else Waiting)), entered := n\<rparr>)"
  using assms by (cases r) (auto simp: exclusive_def)

lemma exclusive_left:
  assumes "exclusive y" "pcs y p = Inside" "\<not> sl_locked b'"
  shows "exclusive (y\<lparr>obj := b', sst := s', pcs := (pcs y)(p := Out), left := n\<rparr>)"
proof -
  have "((pcs y)(p := Out)) q \<noteq> Inside" for q using assms(1,2) by (simp add: exclusive_def) metis
  then show ?thesis using assms(3) by (simp add: exclusive_def)
qed

lemma exclusive_sst: "exclusive (y\<lparr>sst := s\<rparr>) = exclusive y" "exclusive (y\<lparr>entered := n\<rparr>) = exclusive y"
  by (simp_all add: exclusive_def)

lemma exclusive_step:
  assumes Y: "sl.sys_inv y" and X: "exclusive y" and e: "enabled sleeplock_ops a y" and st: "sys_step sleeplock_ops a y = Inr y'"
  shows "exclusive y'"
proof -
  have ok: "sl_ok (obj y)" and I: "sched_inv (set (sl_queue (obj y))) (sst y)" using Y by (auto simp: sl.sys_inv_def)
  show ?thesis
  proof (cases a)
    case Enter
    have c: "ctx (sst y) = In_process" using e Enter by (simp add: enabled_def)
    obtain p where p: "cpu_proc (sst y) = Some p" using sched_invD(4) [OF I c] by auto
    have "pcs y p \<noteq> Inside" using e Enter p by (simp add: enabled_def)
    from exclusive_went [OF X this _ refl] show ?thesis using acquire_sleeplock_ok [OF ok I c p] st Enter p
      by (auto simp: sys_step_def)
  next
    case Leave
    have c: "ctx (sst y) = In_process" using e Leave by (simp add: enabled_def)
    obtain p where p: "cpu_proc (sst y) = Some p" using sched_invD(4) [OF I c] by auto
    have "pcs y p = Inside" using e Leave p by (simp add: enabled_def)
    from exclusive_left [OF X this] show ?thesis using release_sleeplock_ok [OF ok I c p] st Leave p
      by (auto simp: sys_step_def)
  next
    case Turn
    have c: "ctx (sst y) = In_scheduler" using e Turn by (simp add: enabled_def)
    from turn_ok [OF I c] obtain t where t: "fos_scheduler_turn (sst y) = Inr t"
      "\<And>p. cpu_proc t = Some p \<Longrightarrow> dispatched (set (sl_queue (obj y))) t" by auto
    show ?thesis
    proof (cases "cpu_proc t")
      case None
      then show ?thesis using st Turn t(1) X by (auto simp: sys_step_def exclusive_def)
    next
      case (Some p)
      show ?thesis
      proof (cases "pcs y p = Waiting")
        case True
        obtain b' s' where r: "acquire_sleeplock_resume (obj y) t = Inr (\<not> sl_locked (obj y), b', s')" "sl_locked b'"
          using acquire_sleeplock_resume_ok [OF ok t(2) [OF Some] Some] by auto
        have "exclusive (y\<lparr>obj := b', sst := s', pcs := (pcs y)(p := (if \<not> sl_locked (obj y) then Inside else Waiting)), entered := entered y\<rparr>)"
          by (rule exclusive_went [OF X _ r(2) refl]) (use True in simp)
        then have "exclusive (y\<lparr>obj := b', sst := s', pcs := (pcs y)(p := (if \<not> sl_locked (obj y) then Inside else Waiting))\<rparr>)"
          unfolding exclusive_sst .
        moreover have "y' = y\<lparr>obj := b', sst := s', pcs := (pcs y)(p := (if \<not> sl_locked (obj y) then Inside else Waiting))\<rparr>"
          using st Turn t(1) Some True r(1) unfolding sys_step_def sleeplock_ops_simps by simp
        ultimately show ?thesis by simp
      next
        case False
        then show ?thesis using st Turn t(1) Some X
          by (auto simp: sys_step_def exclusive_sst resume_process_def release_qlock_def res_simps)
      qed
    qed
  qed (use st X in \<open>auto simp: sys_step_def exclusive_sst res_simps\<close>)
qed

lemma exclusive_reachable:
  assumes "reachable sleeplock_ops y0 y" "sl.sys_inv y0" "exclusive y0"
  shows "exclusive y"
  using assms(1)
proof (induction rule: reachable.induct)
  case (move y a y')
  then show ?case using exclusive_step sl.reachable_inv [OF move.hyps(1) assms(2)] by blast
qed (rule assms(3))

text \<open>The system at its start: the object as initialised, every process outside.\<close>

definition sys_start :: "'o \<Rightarrow> sched_st \<Rightarrow> 'o sys" where
  "sys_start b s = \<lparr>obj = b, sst = s, pcs = (\<lambda>_. Out), entered = 0, left = 0\<rparr>"

lemma sleeplock_start: "sched_inv {} s \<Longrightarrow> sl.sys_inv (sys_start (init_sleeplock lk) s) \<and> exclusive (sys_start (init_sleeplock lk) s)"
  using sl.idle_start [of "init_sleeplock lk" s "\<lambda>_. Out"]
  by (simp add: sys_start_def exclusive_def sl_ok_def sl_queue_def init_sleeplock_def init_channel_def init_queue_def)

text \<open>
  C19. Sleeping locks, over every interleaving of acquiring, releasing, clock interrupts and scheduling: at most one process is past
  \<^verbatim>\<open>acquire_sleeplock\<close>, and the lock is marked exactly when there is one. No wake-up is lost: while the lock is free no
  process is blocked, and a process inside \<^verbatim>\<open>acquire_sleeplock\<close> is either in the queue of the lock or ready to run. No
  operation that may be called fails an assertion, and the process queues stay consistent.
\<close>

theorem sleeplock_mutual_exclusion:
  assumes "sched_inv {} s" "reachable sleeplock_ops (sys_start (init_sleeplock lk) s) y"
  shows "(\<forall>p q. pcs y p = Inside \<longrightarrow> pcs y q = Inside \<longrightarrow> p = q) \<and>
    (sl_locked (obj y) \<longleftrightarrow> (\<exists>p. pcs y p = Inside)) \<and>
    (\<not> sl_locked (obj y) \<longrightarrow> (\<forall>p < nenv (sst y). env_status (envs (sst y) p) \<noteq> ENV_BLOCKED)) \<and>
    (\<forall>p. pcs y p = Waiting \<longrightarrow> p \<in> set (sl_queue (obj y)) \<or> env_status (envs (sst y) p) = ENV_READY) \<and>
    sched_inv (set (sl_queue (obj y))) (sst y) \<and>
    (\<forall>a. enabled sleeplock_ops a y \<longrightarrow> (\<exists>y'. sys_step sleeplock_ops a y = Inr y'))"
proof -
  note S = sleeplock_start [OF assms(1), of lk]
  have Y: "sl.sys_inv y" using sl.reachable_inv [OF assms(2)] S by simp
  have X: "exclusive y" using exclusive_reachable [OF assms(2)] S by simp
  have I: "sched_inv (set (sl_queue (obj y))) (sst y)" using Y by (simp add: sl.sys_inv_def)
  have W: "\<forall>p. pcs y p = Waiting \<longrightarrow> p \<in> set (sl_queue (obj y)) \<or> env_status (envs (sst y) p) = ENV_READY"
    using Y by (simp add: sl.sys_inv_def)
  have F: "\<not> sl_locked (obj y) \<longrightarrow> (\<forall>p < nenv (sst y). env_status (envs (sst y) p) \<noteq> ENV_BLOCKED)"
  proof (intro impI allI)
    fix p assume "\<not> sl_locked (obj y)" "p < nenv (sst y)"
    moreover from this have "sl_queue (obj y) = []" using Y by (simp add: sl.sys_inv_def sl_ok_def)
    ultimately show "env_status (envs (sst y) p) \<noteq> ENV_BLOCKED"
      using q_invD(5) [OF sched_invD(1) [OF I]] by (auto simp: placed_def)
  qed
  show ?thesis using X [unfolded exclusive_def] F W I sl.step_ok [OF Y] by blast
qed

definition sample_lock :: sleeplock where
  "sample_lock = \<lparr>sl_locked = False, sl_lk = False, sl_chan = \<lparr>chan_id = 1, chan_queue = []\<rparr>, sl_pid = 0\<rparr>"

lemma sample_acquire:
  "\<exists>y. sys_step sleeplock_ops Enter (sys_start (init_sleeplock sample_lock) (sample_running sample_sched)) = Inr y \<and> pcs y 3 = Inside"
  by (simp add: sys_step_def sys_start_def init_sleeplock_def init_channel_def init_queue_def sample_lock_def acquire_sleeplock_def
      acquire_guard_def acquire_sleeplock_test_def release_guard_def sample_running_def sample_sched_def)

theorem sleeplock_mutual_exclusion_witness:
  "\<exists>y. reachable sleeplock_ops (sys_start (init_sleeplock sample_lock) (sample_running sample_sched)) y \<and>
    pcs y 3 = Inside \<and> pcs y 1 \<noteq> Inside \<and> sl_locked (obj y)"
proof -
  let ?y0 = "sys_start (init_sleeplock sample_lock) (sample_running sample_sched)"
  obtain y where y: "sys_step sleeplock_ops Enter ?y0 = Inr y" "pcs y 3 = Inside" using sample_acquire by auto
  have "enabled sleeplock_ops Enter ?y0" by (simp add: enabled_def sys_start_def sample_running_def sample_sched_def)
  then have r: "reachable sleeplock_ops ?y0 y" using reachable.move [OF reachable.start] y(1) by blast
  note M = sleeplock_mutual_exclusion [OF sample_running_inv(1) r]
  have "sl_locked (obj y)" using M y(2) by blast
  moreover have "pcs y 1 \<noteq> Inside"
  proof
    assume "pcs y 1 = Inside"
    then have "(3::nat) = 1" using M y(2) by blast
    then show False by simp
  qed
  ultimately show ?thesis using y(2) r by blast
qed

section \<open>The semaphore as a blocking object\<close>

definition sem_queue :: "ksemaphore \<Rightarrow> nat list" where
  "sem_queue sem = chan_queue (sem_chan sem)"

definition sem_ok :: "ksemaphore \<Rightarrow> bool" where
  "sem_ok sem \<longleftrightarrow> \<not> sem_lk sem \<and> distinct (sem_queue sem) \<and> int (length (sem_queue sem)) = max 0 (- sem_count sem) \<and>
     - (2 ^ 31) \<le> sem_count sem \<and> sem_count sem < 2 ^ 31"

text \<open>A process that has passed may wait again, and any process may signal; the counter must not run over.\<close>

definition ksemaphore_ops :: "ksemaphore ops" where
  "ksemaphore_ops = \<lparr>op_enter = wait_ksemaphore, op_resume = wait_ksemaphore_resume, op_leave = signal_ksemaphore,
     op_inside = Out, op_enter_ok = (\<lambda>sem. - (2 ^ 31) < sem_count sem), op_leave_ok = (\<lambda>sem. sem_count sem < 2 ^ 31 - 1)\<rparr>"

lemma ksemaphore_ops_simps [simp]:
  "op_enter ksemaphore_ops = wait_ksemaphore" "op_resume ksemaphore_ops = wait_ksemaphore_resume"
  "op_leave ksemaphore_ops = signal_ksemaphore" "op_inside ksemaphore_ops = Out"
  "op_enter_ok ksemaphore_ops sem \<longleftrightarrow> - (2 ^ 31) < sem_count sem" "op_leave_ok ksemaphore_ops sem \<longleftrightarrow> sem_count sem < 2 ^ 31 - 1"
  by (simp_all add: ksemaphore_ops_def)

lemma wait_ksemaphore_ok:
  assumes sem: "sem_ok sem" "- (2 ^ 31) < sem_count sem" and I: "sched_inv (set (sem_queue sem)) s" and c: "ctx s = In_process"
    and p: "cpu_proc s = Some p"
  shows "\<exists>b' s'. wait_ksemaphore sem s = Inr (0 < sem_count sem, b', s') \<and>
    went sem_queue sem_ok p (0 < sem_count sem) sem s b' s' \<and> sem_count b' = sem_count sem - 1"
proof -
  note A = acquire_guard_ok [OF I c]
  have g: "sem_lk sem = False" and i: "int32 (sem_count sem - 1) = sem_count sem - 1" using sem by (auto simp: sem_ok_def intro: int32_id)
  show ?thesis
  proof (cases "0 < sem_count sem")
    case True
    then have "sem_queue sem = []" using sem by (simp add: sem_ok_def)
    then show ?thesis using True A release_guard_ok [OF A(2)] g i sem p c
      by (simp add: wait_ksemaphore_def Let_def went_def sem_ok_def sem_queue_def)
  next
    case False
    have q: "set (chan_queue (sem_chan sem)) = set (sem_queue sem)" "cpu_proc (s\<lparr>ncli := 1\<rparr>) = Some p" using p by (simp_all add: sem_queue_def)
    from sleep_enter_ok [OF A(2) q(2,1)] obtain s' where
      s': "sleep_enter (sem_chan sem) True (s\<lparr>ncli := 1\<rparr>) = Inr ((sem_chan sem)\<lparr>chan_queue := p # chan_queue (sem_chan sem)\<rparr>, False, s')"
        "sched_inv (insert p (set (sem_queue sem))) s'" "ctx s' = In_scheduler" "cpu_proc s' = None" "nenv s' = nenv s"
        "p \<notin> set (sem_queue sem)" "\<forall>e. e \<noteq> p \<longrightarrow> envs s' e = envs s e" by auto
    have "int (length (sem_queue sem)) = - sem_count sem" using sem(1) False by (simp add: sem_ok_def)
    then show ?thesis using False s' A g i sem
      by (simp add: wait_ksemaphore_def Let_def went_def sem_ok_def sem_queue_def)
  qed
qed

lemma wait_ksemaphore_resume_ok:
  assumes sem: "sem_ok sem" and D: "dispatched (set (sem_queue sem)) s" and p: "cpu_proc s = Some p"
  shows "\<exists>s'. wait_ksemaphore_resume sem s = Inr (True, sem, s') \<and> went sem_queue sem_ok p True sem s sem s'"
proof -
  from sleep_resume_ok [OF D p] obtain t where t: "sleep_resume False s = Inr (True, t)" "guarded (set (sem_queue sem)) t"
    "cpu_proc t = Some p" "nenv t = nenv s" "\<forall>e. env_status (envs t e) = env_status (envs s e)" by auto
  have g: "sem_lk sem = False" "sem\<lparr>sem_lk := False\<rparr> = sem" using sem by (simp_all add: sem_ok_def)
  show ?thesis using t release_guard_ok [OF t(2)] g sem guarded_running(5) [OF t(2)]
    by (simp add: wait_ksemaphore_resume_def went_def)
qed

lemma signal_ksemaphore_ok:
  assumes sem: "sem_ok sem" "sem_count sem < 2 ^ 31 - 1" and I: "sched_inv (set (sem_queue sem)) s" and c: "ctx s = In_process"
    and p: "cpu_proc s = Some p"
  shows "\<exists>b' s'. signal_ksemaphore sem s = Inr (b', s') \<and> sem_ok b' \<and> sem_count b' = sem_count sem + 1 \<and>
    sem_queue b' = butlast (sem_queue sem) \<and> sched_inv (set (sem_queue b')) s' \<and> nenv s' = nenv s \<and> ctx s' = In_process \<and> cpu_proc s' = Some p \<and>
    (\<forall>x. if x \<in> set (sem_queue sem) - set (sem_queue b') then env_status (envs s' x) = ENV_READY else envs s' x = envs s x)"
proof -
  note A = acquire_guard_ok [OF I c]
  have g: "sem_lk sem = False" and i: "int32 (sem_count sem + 1) = sem_count sem + 1" using sem by (auto simp: sem_ok_def intro: int32_id)
  show ?thesis
  proof (cases "0 \<le> sem_count sem")
    case True
    then have "sem_queue sem = []" using sem by (simp add: sem_ok_def)
    then show ?thesis using True A release_guard_ok [OF A(2)] g i sem p c
      by (simp add: signal_ksemaphore_def Let_def sem_ok_def sem_queue_def)
  next
    case False
    let ?q = "sem_queue sem"
    have l: "int (length ?q) = - sem_count sem" "?q \<noteq> []" "distinct ?q" using sem(1) False by (auto simp: sem_ok_def)
    have q: "distinct (chan_queue (sem_chan sem))" "set (chan_queue (sem_chan sem)) = set ?q" "chan_queue (sem_chan sem) \<noteq> []"
      using l by (simp_all add: sem_queue_def)
    from wakeup_one_ok [OF A(2) q] obtain t where
      t: "wakeup_one (sem_chan sem) (s\<lparr>ncli := 1\<rparr>) = Inr ((sem_chan sem)\<lparr>chan_queue := butlast ?q\<rparr>, t)" "guarded (set ?q - {last ?q}) t"
        "cpu_proc t = cpu_proc s" "nenv t = nenv s" "\<forall>x. if x = last ?q then env_status (envs t x) = ENV_READY else envs t x = envs s x"
      by (auto simp: sem_queue_def)
    have b: "set (butlast ?q) = set ?q - {last ?q}" "set ?q - set (butlast ?q) = {last ?q}" using l(2,3) by (cases ?q rule: rev_cases; auto)+
    have m: "sem_count sem + 1 \<le> 0" "int (length (butlast ?q)) = - (sem_count sem + 1)" using l False by auto
    note R = release_guard_ok [OF t(2)]
    let ?b = "sem\<lparr>sem_lk := False, sem_count := sem_count sem + 1, sem_chan := (sem_chan sem)\<lparr>chan_queue := butlast ?q\<rparr>\<rparr>"
    have "signal_ksemaphore sem s = Inr (?b, t\<lparr>ncli := 0\<rparr>)" using A(1) g i m(1) t(1) R(1) by (simp add: signal_ksemaphore_def Let_def)
    moreover have "sem_ok ?b" using sem m l(3) by (simp add: sem_ok_def sem_queue_def distinct_butlast)
    moreover have "sem_queue ?b = butlast ?q" by (simp add: sem_queue_def)
    ultimately show ?thesis using R(2) t p b guarded_running(5) [OF t(2)] by (intro exI [of _ ?b] exI [of _ "t\<lparr>ncli := 0\<rparr>"]) simp
  qed
qed

interpretation sem: blocking_object ksemaphore_ops sem_queue sem_ok
proof unfold_locales
  show "op_inside ksemaphore_ops \<noteq> Waiting" by simp
next
  fix b s p assume "sem_ok b" "op_enter_ok ksemaphore_ops b" "sched_inv (set (sem_queue b)) s" "ctx s = In_process" "cpu_proc s = Some p"
  then show "\<exists>r b' s'. op_enter ksemaphore_ops b s = Inr (r, b', s') \<and> went sem_queue sem_ok p r b s b' s'"
    using wait_ksemaphore_ok [of b s p] by auto
next
  fix b s p assume "sem_ok b" "dispatched (set (sem_queue b)) s" "cpu_proc s = Some p"
  then show "\<exists>r b' s'. op_resume ksemaphore_ops b s = Inr (r, b', s') \<and> went sem_queue sem_ok p r b s b' s'"
    using wait_ksemaphore_resume_ok [of b s p] by auto
next
  fix b s p assume A: "sem_ok b" "op_leave_ok ksemaphore_ops b" "sched_inv (set (sem_queue b)) s" "ctx s = In_process" "cpu_proc s = Some p"
  from signal_ksemaphore_ok [OF A(1) _ A(3-5)] A(2) obtain b' s' where R: "signal_ksemaphore b s = Inr (b', s')" "sem_ok b'"
    "sem_queue b' = butlast (sem_queue b)" "sched_inv (set (sem_queue b')) s'" "nenv s' = nenv s" "ctx s' = In_process" "cpu_proc s' = Some p"
    "\<forall>x. if x \<in> set (sem_queue b) - set (sem_queue b') then env_status (envs s' x) = ENV_READY else envs s' x = envs s x" by auto
  have "set (sem_queue b') \<subseteq> set (sem_queue b)" using R(3) by (auto dest: in_set_butlastD)
  moreover have "\<forall>x. if x \<in> set (sem_queue b) - set (sem_queue b') then env_status (envs s' x) = ENV_READY
             else env_status (envs s' x) = env_status (envs s x)" using R(8) by metis
  ultimately show "\<exists>b' s'. op_leave ksemaphore_ops b s = Inr (b', s') \<and> sem_ok b' \<and> sched_inv (set (sem_queue b')) s' \<and> nenv s' = nenv s \<and>
        ctx s' = In_process \<and> cpu_proc s' = Some p \<and> set (sem_queue b') \<subseteq> set (sem_queue b) \<and>
        (\<forall>x. if x \<in> set (sem_queue b) - set (sem_queue b') then env_status (envs s' x) = ENV_READY
             else env_status (envs s' x) = env_status (envs s x))"
    using R by (intro exI [of _ b'] exI [of _ s']) simp
qed

lemma count_step:
  assumes Y: "sem.sys_inv y" and e: "enabled ksemaphore_ops a y" and st: "sys_step ksemaphore_ops a y = Inr y'"
  shows "sem_count (obj y') + int (entered y') - int (left y') = sem_count (obj y) + int (entered y) - int (left y)"
proof -
  have ok: "sem_ok (obj y)" and I: "sched_inv (set (sem_queue (obj y))) (sst y)" using Y by (auto simp: sem.sys_inv_def)
  show ?thesis
  proof (cases a)
    case Enter
    have c: "ctx (sst y) = In_process" "- (2 ^ 31) < sem_count (obj y)" using e Enter by (simp_all add: enabled_def)
    obtain p where p: "cpu_proc (sst y) = Some p" using sched_invD(4) [OF I c(1)] by auto
    show ?thesis using wait_ksemaphore_ok [OF ok c(2) I c(1) p] st Enter by (auto simp: sys_step_def)
  next
    case Leave
    have c: "ctx (sst y) = In_process" "sem_count (obj y) < 2 ^ 31 - 1" using e Leave by (simp_all add: enabled_def)
    obtain p where p: "cpu_proc (sst y) = Some p" using sched_invD(4) [OF I c(1)] by auto
    show ?thesis using signal_ksemaphore_ok [OF ok c(2) I c(1) p] st Leave by (auto simp: sys_step_def)
  next
    case Turn
    have c: "ctx (sst y) = In_scheduler" using e Turn by (simp add: enabled_def)
    from turn_ok [OF I c] obtain t where t: "fos_scheduler_turn (sst y) = Inr t"
      "\<And>p. cpu_proc t = Some p \<Longrightarrow> dispatched (set (sem_queue (obj y))) t" by auto
    show ?thesis
    proof (cases "cpu_proc t")
      case None
      then show ?thesis using st Turn t(1) by (auto simp: sys_step_def)
    next
      case (Some p)
      then show ?thesis using st Turn t(1) wait_ksemaphore_resume_ok [OF ok t(2) [OF Some] Some]
        by (cases "pcs y p = Waiting") (auto simp: sys_step_def res_simps)
    qed
  qed (use st in \<open>auto simp: sys_step_def res_simps\<close>)
qed

lemma count_reachable:
  assumes "reachable ksemaphore_ops y0 y" "sem.sys_inv y0"
  shows "sem_count (obj y) + int (entered y) - int (left y) = sem_count (obj y0) + int (entered y0) - int (left y0)"
  using assms(1)
proof (induction rule: reachable.induct)
  case (move y a y')
  then show ?case using count_step sem.reachable_inv [OF move.hyps(1) assms(2)] by fastforce
qed simp

lemma semaphore_start:
  "sched_inv {} s \<Longrightarrow> 0 \<le> v \<Longrightarrow> v < 2 ^ 31 \<Longrightarrow> sem.sys_inv (sys_start (init_ksemaphore v sem0) s)"
  using sem.idle_start [of "init_ksemaphore v sem0" s "\<lambda>_. Out"]
  by (simp add: sys_start_def sem_ok_def sem_queue_def init_ksemaphore_def init_channel_def init_queue_def)

text \<open>
  C20. Semaphores, over every interleaving of waiting, signalling, clock interrupts and scheduling: with \<open>v\<close> the initial
  value, \<open>w\<close> the calls of \<^verbatim>\<open>wait_ksemaphore\<close> and \<open>g\<close> those of \<^verbatim>\<open>signal_ksemaphore\<close> so far, exactly
  \<open>min w (v + g)\<close> of the waits are past their block; the others are the blocked environments, each in the queue of the semaphore. So
  never too many pass and no wake-up is lost. No operation fails an assertion as long as the counter does not run over.
\<close>

theorem semaphore_counts:
  assumes "sched_inv {} s" "0 \<le> v" "v < 2 ^ 31" "reachable ksemaphore_ops (sys_start (init_ksemaphore v sem0) s) y"
  shows "int (entered y) - int (length (sem_queue (obj y))) = min (int (entered y)) (v + int (left y)) \<and>
    distinct (sem_queue (obj y)) \<and>
    (\<forall>p < nenv (sst y). p \<in> set (sem_queue (obj y)) \<longleftrightarrow> env_status (envs (sst y) p) = ENV_BLOCKED) \<and>
    (\<forall>p. pcs y p = Waiting \<longrightarrow> p \<in> set (sem_queue (obj y)) \<or> env_status (envs (sst y) p) = ENV_READY) \<and>
    (\<forall>a. enabled ksemaphore_ops a y \<longrightarrow> (\<exists>y'. sys_step ksemaphore_ops a y = Inr y'))"
proof -
  note S = semaphore_start [OF assms(1-3), of sem0]
  have Y: "sem.sys_inv y" using sem.reachable_inv [OF assms(4) S] .
  have "sem_count (obj y) = v - int (entered y) + int (left y)"
    using count_reachable [OF assms(4) S] by (simp add: sys_start_def init_ksemaphore_def)
  moreover have "int (length (sem_queue (obj y))) = max 0 (- sem_count (obj y))" "distinct (sem_queue (obj y))"
    using Y by (simp_all add: sem.sys_inv_def sem_ok_def)
  moreover have "p \<in> set (sem_queue (obj y)) \<longleftrightarrow> env_status (envs (sst y) p) = ENV_BLOCKED" if "p < nenv (sst y)" for p
  proof -
    have "sched_inv (set (sem_queue (obj y))) (sst y)" using Y by (simp add: sem.sys_inv_def)
    from q_invD(5) [OF sched_invD(1) [OF this] that] show ?thesis by (simp add: placed_def)
  qed
  moreover have "\<forall>p. pcs y p = Waiting \<longrightarrow> p \<in> set (sem_queue (obj y)) \<or> env_status (envs (sst y) p) = ENV_READY"
    using Y by (simp add: sem.sys_inv_def)
  moreover have "\<forall>a. enabled ksemaphore_ops a y \<longrightarrow> (\<exists>y'. sys_step ksemaphore_ops a y = Inr y')"
    using sem.step_ok [OF Y] by blast
  ultimately show ?thesis by simp
qed

definition sample_sem :: ksemaphore where
  "sample_sem = \<lparr>sem_count = 0, sem_lk = False, sem_chan = \<lparr>chan_id = 2, chan_queue = []\<rparr>\<rparr>"

lemma sample_wait:
  "\<exists>y. sys_step ksemaphore_ops Enter (sys_start (init_ksemaphore 0 sample_sem) (sample_running sample_sched)) = Inr y \<and> entered y = 1 \<and> left y = 0 \<and> nenv (sst y) = 4"
  by (simp add: sys_step_def sys_start_def init_ksemaphore_def init_channel_def init_queue_def sample_sem_def wait_ksemaphore_def int32_def
      acquire_guard_def sleep_enter_def release_guard_def acquire_qlock_def sched_def scheduler_resumed_def enqueue_def list_insert_head_def
      upd_env_def Let_def sample_running_def sample_sched_def)

theorem semaphore_counts_witness:
  "\<exists>y. reachable ksemaphore_ops (sys_start (init_ksemaphore 0 sample_sem) (sample_running sample_sched)) y \<and> entered y = 1 \<and>
    length (sem_queue (obj y)) = 1"
proof -
  let ?y0 = "sys_start (init_ksemaphore 0 sample_sem) (sample_running sample_sched)"
  obtain y where y: "sys_step ksemaphore_ops Enter ?y0 = Inr y" "entered y = 1" "left y = 0" using sample_wait by auto
  have "enabled ksemaphore_ops Enter ?y0" by (simp add: enabled_def sys_start_def sample_running_def sample_sched_def init_ksemaphore_def)
  then have r: "reachable ksemaphore_ops ?y0 y" using reachable.move [OF reachable.start] y(1) by blast
  have "int (entered y) - int (length (sem_queue (obj y))) = min (int (entered y)) (0 + int (left y))"
    using semaphore_counts [OF sample_running_inv(1) _ _ r] by simp
  then show ?thesis using y(2,3) r by (intro exI [of _ y]) simp
qed

end
