(* ===== verification/Environments.thy ===== *)
theory Environments
  imports Scheduler
begin

text \<open>
  The table of environments: \<^verbatim>\<open>env_init\<close>, the free list and the numbering of environments of
  \<^verbatim>\<open>src/kern/proc/user_environment.c\<close>, and \<^verbatim>\<open>sched_kill_all\<close>. The page directory and the saved
  registers that \<^verbatim>\<open>complete_environment_initialization\<close> sets as well are not part of this state.
\<close>

unbundle bit_operations_syntax

section \<open>The table\<close>

fun env_init_loop :: "nat \<Rightarrow> sched_st \<Rightarrow> sched_st result" where
  "env_init_loop 0 s = Inr s"
| "env_init_loop (Suc i) s =
     (let s = upd_env i (\<lambda>v. v\<lparr>env_status := ENV_FREE, env_id := 0\<rparr>) s in
      andThen (list_insert_head i (env_free_list s)) (\<lambda>l. env_init_loop i (s\<lparr>env_free_list := l\<rparr>)))"

definition env_init :: "sched_st \<Rightarrow> sched_st result" where
  "env_init s = env_init_loop (nenv s) s"

text \<open>\<open>None\<close> for \<^verbatim>\<open>E_NO_FREE_ENV\<close>. The environment stays on the free list.\<close>

definition allocate_environment :: "sched_st \<Rightarrow> nat option \<times> sched_st" where
  "allocate_environment s =
     (case env_free_list s of
        [] \<Rightarrow> (None, s)
      | e # _ \<Rightarrow> (Some e, upd_env e (\<lambda>v. v\<lparr>env_status := ENV_UNKNOWN\<rparr>) s))"

definition free_environment :: "nat \<Rightarrow> sched_st \<Rightarrow> sched_st result" where
  "free_environment e s =
     (let s = upd_env e (\<lambda>_. zero_env\<lparr>env_status := ENV_FREE\<rparr>) s in
      andThen (list_insert_head e (env_free_list s)) (\<lambda>l. Inr (s\<lparr>env_free_list := l\<rparr>)))"

text \<open>
  The number: a generation above the index. \<^verbatim>\<open>ENVGENSHIFT\<close> is \<^verbatim>\<open>LOG2NENV\<close> and \<^verbatim>\<open>NEARPOW2NENV\<close> is
  \<^verbatim>\<open>1 << LOG2NENV\<close>; clearing the low bits of a two's complement number rounds it down.
\<close>

definition new_env_id :: "int \<Rightarrow> nat \<Rightarrow> sched_st \<Rightarrow> int" where
  "new_env_id old e s =
     (let g = int32 (old + 2 ^ log2nenv s);
          g = g - g mod 2 ^ log2nenv s;
          g = (if g \<le> 0 then 2 ^ log2nenv s else g)
      in g OR int e)"

definition complete_environment_initialization :: "nat \<Rightarrow> sched_st \<Rightarrow> sched_st result" where
  "complete_environment_initialization e s =
     (let par = (case cpu_proc s of None \<Rightarrow> 0 | Some c \<Rightarrow> env_id (envs (upd_env e (\<lambda>v. v\<lparr>env_id := new_env_id (env_id v) e s\<rparr>) s) c));
          s = upd_env e (\<lambda>v. v\<lparr>env_id := new_env_id (env_id v) e s, env_parent_id := par, env_status := ENV_NEW\<rparr>) s
      in andThen (list_remove e (env_free_list s)) (\<lambda>l. Inr (s\<lparr>env_free_list := l\<rparr>)))"

section \<open>Killing everything\<close>

fun kill_new_loop :: "nat list \<Rightarrow> sched_st \<Rightarrow> sched_st result" where
  "kill_new_loop [] s = Inr s"
| "kill_new_loop (e # es) s = andThen (sched_remove_new e s) (\<lambda>s. andThen (env_free e s) (kill_new_loop es))"

fun kill_queue_loop :: "nat list \<Rightarrow> nat \<Rightarrow> sched_st \<Rightarrow> sched_st result" where
  "kill_queue_loop [] i s = Inr s"
| "kill_queue_loop (e # es) i s =
     andThen (ready_queue (int i) s) (\<lambda>q.
     andThen (list_remove e q) (\<lambda>q.
     andThen (env_free e (set_ready_queue (int i) q s)) (kill_queue_loop es i)))"

fun kill_ready_loop :: "nat \<Rightarrow> nat \<Rightarrow> sched_st \<Rightarrow> sched_st result" where
  "kill_ready_loop 0 i s = Inr s"
| "kill_ready_loop (Suc n) i s =
     andThen (ready_queue (int i) s) (\<lambda>q. andThen (kill_queue_loop q i s) (kill_ready_loop n (Suc i)))"

fun kill_exit_loop :: "nat list \<Rightarrow> sched_st \<Rightarrow> sched_st result" where
  "kill_exit_loop [] s = Inr s"
| "kill_exit_loop (e # es) s = andThen (sched_remove_exit e s) (\<lambda>s. andThen (env_free e s) (kill_exit_loop es))"

definition sched_kill_all :: "sched_st \<Rightarrow> sched_st result" where
  "sched_kill_all s =
     andThen (acquire_qlock s) (\<lambda>s.
     andThen (kill_new_loop (env_new_queue s) s) (\<lambda>s.
     andThen (kill_ready_loop (num_of_ready_queues s) 0 s) (\<lambda>s.
     andThen (kill_exit_loop (env_exit_queue s) s) (\<lambda>s.
     (case cpu_proc s of
        None \<Rightarrow> andThen (release_qlock s) (\<lambda>s. Inr (s\<lparr>ctx := Prompt\<rparr>))
      | Some p \<Rightarrow>
          andThen (c_assert (env_status (envs s p) = ENV_RUNNING) ''ptr_env->env_status == ENV_RUNNING'') (\<lambda>_.
          andThen (env_free p s) sched))))))"

section \<open>Numbers of environments\<close>

lemma or_low_bits:
  assumes "(g::int) mod 2 ^ L = 0" "e < 2 ^ L"
  shows "g OR int e = g + int e"
proof -
  have g: "\<not> bit g n" if "n < L" for n
  proof -
    have "take_bit L g = 0" using assms(1) by (simp add: take_bit_eq_mod)
    then show ?thesis using that by (metis bit_0_eq bit_take_bit_iff bot_apply bot_bool_def)
  qed
  have "\<not> bit (int e) n" if "L \<le> n" for n
  proof -
    have "take_bit L (int e) = int e" using assms(2) by (simp add: take_bit_int_eq_self)
    then show ?thesis using that by (metis bit_take_bit_iff leD)
  qed
  then show ?thesis using g by (metis disjunctive_add leI)
qed

lemma new_env_id_cong: "log2nenv s' = log2nenv s \<Longrightarrow> new_env_id old e s' = new_env_id old e s"
  unfolding new_env_id_def by (simp only:)

lemma new_env_id_ok:
  assumes L: "log2nenv s < 30" and e: "e < nenv s" "nenv s \<le> 2 ^ log2nenv s"
  shows "0 < new_env_id old e s" "ENVX (new_env_id old e s) s = e" "new_env_id old e s < 2 ^ 31"
proof -
  let ?N = "2 ^ log2nenv s :: int"
  define g0 where "g0 = int32 (old + ?N) - int32 (old + ?N) mod ?N"
  define g where "g = (if g0 \<le> 0 then ?N else g0)"
  have m: "g mod ?N = 0" by (simp add: g_def g0_def)
  have gpos: "0 < g" by (simp add: g_def)
  have "int e < ?N" using e by (metis less_le_trans of_nat_less_iff of_nat_numeral of_nat_power)
  have id: "new_env_id old e s = g + int e"
  proof -
    have "new_env_id old e s = g OR int e" unfolding new_env_id_def Let_def g_def g0_def ..
    then show ?thesis using or_low_bits [OF m, of e] e by simp
  qed
  show "0 < new_env_id old e s" using gpos id by simp
  have "(g + int e) mod ?N = int e" using m \<open>int e < ?N\<close> by (metis add.left_neutral mod_add_left_eq mod_pos_pos_trivial of_nat_0_le_iff)
  then show "ENVX (new_env_id old e s) s = e" using id by (simp add: ENVX_def)
  have N30: "?N \<le> 2 ^ 29" using L by (intro power_increasing) auto
  have b: "int32 x < 2 ^ 31" for x by (simp add: int32_def)
  have "g0 \<le> 2 ^ 31 - ?N"
  proof -
    have "?N dvd 2 ^ 31" by (rule le_imp_power_dvd) (use L in simp)
    then have "2 ^ 31 mod ?N = 0" by (rule dvd_imp_mod_0)
    moreover have "g0 < 2 ^ 31" "g0 mod ?N = 0" using b [of "old + ?N"] by (auto simp: g0_def intro: le_less_trans [rotated])
    ultimately have "(2 ^ 31 - g0) mod ?N = 0" "0 < 2 ^ 31 - g0" by (simp_all add: mod_diff_eq [symmetric])
    then have "?N \<le> 2 ^ 31 - g0" by (metis dvd_imp_le_int mod_0_imp_dvd abs_of_pos less_irrefl zdvd_imp_le)
    then show ?thesis by simp
  qed
  then have "g \<le> 2 ^ 31 - ?N" using N30 by (simp add: g_def)
  then show "new_env_id old e s < 2 ^ 31" using id \<open>int e < ?N\<close> by linarith
qed

text \<open>
  Creating an environment: the first free entry leaves the free list and gets a positive number from which
  \<^verbatim>\<open>ENVX\<close> finds the entry again, different from the number of every other environment in use, so that
  \<^verbatim>\<open>envid2env\<close> returns exactly this environment. When the free list is empty nothing changes.
\<close>

lemma create_environment_id:
  assumes I: "envs_ok s" and L: "log2nenv s < 30" and f: "distinct (env_free_list s)" "set (env_free_list s) \<subseteq> {..<nenv s}"
  shows "case env_free_list s of
      [] \<Rightarrow> allocate_environment s = (None, s)
    | e # fl \<Rightarrow> \<exists>s1 s2. allocate_environment s = (Some e, s1) \<and> complete_environment_initialization e s1 = Inr s2 \<and>
        env_free_list s2 = fl \<and> env_status (envs s2 e) = ENV_NEW \<and> 0 < env_id (envs s2 e) \<and> env_id (envs s2 e) < 2 ^ 31 \<and>
        envid2env (env_id (envs s2 e)) False s2 = Inr (Some (Some e)) \<and> envs_ok s2 \<and>
        (\<forall>g < nenv s. g \<noteq> e \<longrightarrow> envs s2 g = envs s g \<and>
           (env_status (envs s g) \<noteq> ENV_FREE \<longrightarrow> env_id (envs s2 g) \<noteq> env_id (envs s2 e)))"
proof (cases "env_free_list s")
  case Nil
  then show ?thesis by (simp add: allocate_environment_def)
next
  case (Cons e fl)
  have e: "e < nenv s" using f(2) Cons by simp
  have n: "nenv s \<le> 2 ^ log2nenv s" using I by (simp add: envs_ok_def)
  let ?s1 = "upd_env e (\<lambda>v. v\<lparr>env_status := ENV_UNKNOWN\<rparr>) s"
  let ?id = "new_env_id (env_id (envs s e)) e s"
  note N = new_env_id_ok [OF L e n]
  have a: "allocate_environment s = (Some e, ?s1)" using Cons by (simp add: allocate_environment_def)
  have "new_env_id (env_id (envs s e)) e ?s1 = ?id" by (rule new_env_id_cong) simp
  then obtain s2 where c: "complete_environment_initialization e ?s1 = Inr s2" and s2: "env_free_list s2 = fl"
    "env_id (envs s2 e) = ?id" "env_status (envs s2 e) = ENV_NEW" "priority (envs s2 e) = priority (envs s e)" "\<forall>g. g \<noteq> e \<longrightarrow> envs s2 g = envs s g"
    "nenv s2 = nenv s" "log2nenv s2 = log2nenv s" "num_of_ready_queues s2 = num_of_ready_queues s"
    using Cons f(1) by (simp add: complete_environment_initialization_def list_remove_def Let_def upd_env_def)
  have X: "ENVX i s2 = ENVX i s" for i using s2(7) by (simp add: ENVX_def)
  have ok: "envs_ok s2" using I s2 N X unfolding envs_ok_def by metis
  then have "envid2env (env_id (envs s2 e)) False s2 = Inr (Some (Some e))" using s2(3,6) e by (intro envid2env_eq) auto
  moreover have "env_id (envs s2 g) \<noteq> env_id (envs s2 e)" if "g < nenv s" "g \<noteq> e" "env_status (envs s g) \<noteq> ENV_FREE" for g
    using env_id_inj [OF ok, of g e] that s2 e by auto
  ultimately show ?thesis using Cons a c s2 N ok by auto
qed

lemma create_environment_id_witness:
  "\<exists>s1 s2. allocate_environment (sample_sched\<lparr>env_free_list := [2, 3]\<rparr>) = (Some 2, s1) \<and>
    complete_environment_initialization 2 s1 = Inr s2 \<and> env_free_list s2 = [3] \<and> 0 < env_id (envs s2 2)"
proof -
  let ?s = "sample_sched\<lparr>env_free_list := [2, 3]\<rparr>"
  have "envs_ok ?s" using q_invD(2) [OF sched_invD(1) [OF sample_sched_inv]] by (simp add: envs_ok_def ENVX_def)
  moreover have "log2nenv ?s < 30" "env_free_list ?s = [2, 3]" "nenv ?s = 4" by (simp_all add: sample_sched_def)
  ultimately show ?thesis using create_environment_id [of ?s] by auto
qed

lemma env_init_loop_ok:
  assumes "i \<le> nenv s" "env_free_list s = [i..<nenv s]"
  shows "\<exists>s'. env_init_loop i s = Inr s' \<and> env_free_list s' = [0..<nenv s] \<and> nenv s' = nenv s \<and>
    (\<forall>e. envs s' e = (if e < i then (envs s e)\<lparr>env_status := ENV_FREE, env_id := 0\<rparr> else envs s e))"
  using assms
proof (induction i arbitrary: s)
  case (Suc i)
  let ?s = "(upd_env i (\<lambda>v. v\<lparr>env_status := ENV_FREE, env_id := 0\<rparr>) s)\<lparr>env_free_list := i # [Suc i..<nenv s]\<rparr>"
  have fl: "env_free_list (upd_env i f s) = [Suc i..<nenv s]" for f using Suc.prems by (simp add: upd_env_def)
  have st: "env_init_loop (Suc i) s = env_init_loop i ?s" by (simp add: fl list_insert_head_def Let_def)
  have "env_free_list ?s = [i..<nenv ?s]" using Suc.prems by (simp add: upt_conv_Cons)
  from Suc.IH [OF _ this] Suc.prems obtain s' where "env_init_loop i ?s = Inr s'" "env_free_list s' = [0..<nenv s]" "nenv s' = nenv s"
    "\<forall>e. envs s' e = (if e < i then (envs ?s e)\<lparr>env_status := ENV_FREE, env_id := 0\<rparr> else envs ?s e)" by auto
  then show ?case using st by (auto simp: less_Suc_eq)
qed simp

text \<open>
  \<^verbatim>\<open>env_init\<close> on an empty free list puts every entry of the table on it, in the order of their index, and marks
  them free, so that the first environment created is entry 0.
\<close>

theorem env_init_correct:
  assumes "env_free_list s = []"
  shows "\<exists>s'. env_init s = Inr s' \<and> env_free_list s' = [0..<nenv s] \<and>
    (\<forall>e < nenv s. env_status (envs s' e) = ENV_FREE \<and> env_id (envs s' e) = 0)"
  using env_init_loop_ok [of "nenv s" s] assms by (auto simp: env_init_def)

theorem env_init_correct_witness:
  "\<exists>s'. env_init sample_sched = Inr s' \<and> env_free_list s' = [0, 1, 2, 3]"
proof -
  have u: "[0..<4] = [0, 1, 2, 3 :: nat]" by code_simp
  have "env_free_list sample_sched = []" "nenv sample_sched = 4" by (simp_all add: sample_sched_def)
  then show ?thesis using env_init_correct [of sample_sched] unfolding u [symmetric] by auto
qed

section \<open>Starting an environment\<close>

lemma put_new:
  assumes I: "q_inv {} B s" and e: "e < nenv s" "env_status (envs s e) = ENV_NEW" "e \<notin> set (env_new_queue s)"
  shows "q_inv {} B (s\<lparr>env_new_queue := e # env_new_queue s\<rparr>)" (is "q_inv _ _ ?s")
proof (rule q_invI)
  note D = q_invD [OF I]
  show "lists_ok ?s" using D(1) e by (auto simp: lists_ok_def)
  show "envs_ok ?s" using D(2) by (auto simp: envs_ok_def ENVX_def)
  show "quantums_ok ?s" using D(3) by (simp add: quantums_ok_def)
  show "placed B ?s x" if "x < nenv ?s" "x \<notin> {}" for x using D(5) [of x] that e by (auto simp: placed_def)
  show "p < nenv ?s \<and> (p \<in> {} \<or> env_status (envs ?s p) = ENV_RUNNING \<or> env_status (envs ?s p) = ENV_READY)" if "cpu_proc ?s = Some p" for p
    using q_inv_cpu [OF I, of p] that by auto
qed (use q_invD [OF I] in auto)

lemma sched_new_env_ok:
  assumes "sched_inv B s" "\<not> qlock s" "e < nenv s" "env_status (envs s e) = ENV_NEW" "e \<notin> set (env_new_queue s)"
  shows "sched_new_env e s = Inr (s\<lparr>env_new_queue := e # env_new_queue s\<rparr>)" "sched_inv B (s\<lparr>env_new_queue := e # env_new_queue s\<rparr>)"
proof -
  have u: "upd_env e (\<lambda>v. v\<lparr>env_status := ENV_NEW\<rparr>) (s\<lparr>qlock := True, ncli := Suc (ncli s)\<rparr>) = s\<lparr>qlock := True, ncli := Suc (ncli s)\<rparr>"
    by (rule upd_env_same) (use assms(4) in \<open>auto intro: env.equality\<close>)
  have n: "ncli s = 0" using sched_invD(3) [OF assms(1)] assms(2) by simp
  show "sched_new_env e s = Inr (s\<lparr>env_new_queue := e # env_new_queue s\<rparr>)"
    using assms(2,5) n u
    by (simp add: sched_new_env_def acquire_qlock_def release_qlock_def sched_insert_new_def need_qlock_def enqueue_def list_insert_head_def Let_def)
  show "sched_inv B (s\<lparr>env_new_queue := e # env_new_queue s\<rparr>)"
    using put_new [OF sched_invD(1) [OF assms(1)] assms(3-5)] assms(1) by (simp add: sched_inv_def split: cpu_ctx.splits)
qed

text \<open>An environment of the NEW queue, started from the prompt: it is the last to wait in the ready queue of its priority, and the scheduler runs.\<close>

definition started :: "nat \<Rightarrow> sched_st \<Rightarrow> sched_st \<Rightarrow> bool" where
  "started e s s' \<longleftrightarrow> env_status (envs s' e) = ENV_READY \<and> env_id (envs s' e) = env_id (envs s e) \<and> (\<forall>x. x \<noteq> e \<longrightarrow> envs s' x = envs s x) \<and>
     env_ready_queues s' = (env_ready_queues s)[nat (priority (envs s e)) := e # env_ready_queues s ! nat (priority (envs s e))] \<and>
     env_new_queue s' = remove1 e (env_new_queue s) \<and> scheduler_status s' = SCH_STARTED \<and> ctx s' = Idle_scheduler \<and> cpu_proc s' = None"

lemma sched_run_env_ok:
  assumes I: "sched_inv B s" and c: "ctx s = Prompt" and e: "e \<in> set (env_new_queue s)" and st: "scheduler_status s = SCH_STOPPED"
  shows "\<exists>s'. sched_run_env (env_id (envs s e)) s = Inr (True, s') \<and> sched_inv B s' \<and> started e s s'"
proof -
  note D = sched_invD [OF I] and T = take_new [OF sched_invD(1) [OF I] e]
  have l: "\<not> qlock s" "ncli s = 0" "cpu_proc s = None" using D(2,3) I c by (auto simp: sched_inv_def)
  let ?s0 = "s\<lparr>qlock := True, ncli := 1\<rparr>" let ?s1 = "?s0\<lparr>env_new_queue := remove1 e (env_new_queue s)\<rparr>"
  let ?s2 = "upd_env e (\<lambda>v. v\<lparr>env_status := ENV_UNKNOWN\<rparr>) ?s1"
  have f: "find_env_in_queue (env_new_queue s) (env_id (envs s e)) s = Some e"
    using find_env_unique [OF q_invD(2) [OF D(1)] T(2), of "env_new_queue s"] T(3) e take_new(2,3) [OF D(1)] by auto
  have q1: "q_inv {e} B ?s1" using T(1) by (rule q_inv_same) simp_all
  have k: "0 \<le> priority (envs s e)" "priority (envs s e) < int (num_of_ready_queues s)" using q_invD(2) [OF D(1)] T(2) by (auto simp: envs_ok_def)
  have q2: "q_inv {e} B ?s2" by (rule limbo_update) (use q1 T(3) k in simp_all)
  let ?s3 = "set_ready_queue (priority (envs s e)) (e # env_ready_queues s ! nat (priority (envs s e))) (upd_env e (\<lambda>v. v\<lparr>env_status := ENV_READY\<rparr>) ?s2)"
  have i: "sched_insert_ready e ?s2 = Inr ?s3" using sched_insert_ready_eq [OF q2] T(2) by simp
  have q3: "q_inv {} B ?s3" using put_ready [OF q2, of "priority (envs s e)"] T(2) l(3) by simp
  let ?s4 = "?s3\<lparr>qlock := False, ncli := 0, cpu_proc := None, scheduler_status := SCH_STARTED, ctx := Idle_scheduler\<rparr>"
  have r: "sched_remove_new e ?s0 = Inr ?s2" using T(3) e by (simp add: sched_remove_new_def need_qlock_def list_remove_def)
  have "sched_run_env (env_id (envs s e)) s = Inr (True, ?s4)"
    using l r i st f by (simp add: sched_run_env_def acquire_qlock_def release_qlock_def fos_scheduler_enter_def find_env_in_queue_def)
  moreover have "q_inv {} B ?s4" using q3 by (rule q_inv_same) (simp_all add: l(3))
  ultimately show ?thesis by (auto simp: sched_inv_def started_def)
qed

text \<open>
  C36. What \<^verbatim>\<open>run\<close> does with the environment it has created: placed in the NEW queue and started, it becomes the last to wait in the
  ready queue of its priority, the scheduler is entered, no other environment is touched and the queues stay consistent.
\<close>

theorem new_env_starts:
  assumes "sched_inv B s" and "ctx s = Prompt" and "scheduler_status s = SCH_STOPPED"
    and "e < nenv s" and "env_status (envs s e) = ENV_NEW" and "e \<notin> set (env_new_queue s)"
  shows "\<exists>s1 s'. sched_new_env e s = Inr s1 \<and> sched_run_env (env_id (envs s e)) s1 = Inr (True, s') \<and> sched_inv B s' \<and>
    started e s1 s' \<and> env_ready_queues s1 = env_ready_queues s \<and> envs s1 = envs s \<and> env_new_queue s' = env_new_queue s"
proof -
  have l: "\<not> qlock s" using sched_invD(2) [OF assms(1)] assms(2) by simp
  note N = sched_new_env_ok [OF assms(1) l assms(4-6)]
  let ?s1 = "s\<lparr>env_new_queue := e # env_new_queue s\<rparr>"
  obtain s' where "sched_run_env (env_id (envs ?s1 e)) ?s1 = Inr (True, s')" "sched_inv B s'" "started e ?s1 s'"
    using sched_run_env_ok [OF N(2), of e] assms(2,3) by auto
  then show ?thesis using N(1) by (auto simp: started_def)
qed

definition sample_prompt :: sched_st where
  "sample_prompt = sample_sched\<lparr>env_new_queue := [], ctx := Prompt, qlock := False, ncli := 0, scheduler_status := SCH_STOPPED\<rparr>"

theorem new_env_starts_witness:
  "\<exists>s1 s'. sched_new_env 0 sample_prompt = Inr s1 \<and> sched_run_env 4 s1 = Inr (True, s') \<and> env_ready_queues s' = [[0, 3, 2, 1]] \<and>
     env_status (envs s' 0) = ENV_READY"
proof -
  have "sched_inv {} sample_prompt" by (simp add: sample_prompt_def sched_inv_defs sample_sched_def sample_env_def zero_env_def less4)
  then show ?thesis using new_env_starts [of "{}" sample_prompt 0]
    by (auto simp: sample_prompt_def started_def sample_sched_def sample_env_def zero_env_def)
qed

end
