(* ===== verification/Page_File.thy ===== *)
theory Page_File
  imports Kernel_Heap
begin

text \<open>
  The page file (\<^verbatim>\<open>src/kern/disk/pagefile_manager.c\<close>): the frames of the disk, the per-environment disk
  directory and tables that say in which disk frame a page is kept, and the routines that add, write, read and
  remove a page. The disk directory and its tables are kernel heap pages; as arrays of 1024 words they live in
  \<open>tables\<close>, like page tables. What a frame of memory or of the disk holds is a token, so that moving a page can be
  followed. The disk driver is not part of the model: \<open>ide_read\<close> and \<open>ide_write\<close> are what it answers.
\<close>

unbundle bit_operations_syntax

section \<open>State\<close>

record wse =
  wse_addr :: nat           \<comment> \<open>where \<^verbatim>\<open>kmalloc\<close> put the element\<close>
  virtual_address :: nat
  time_stamp :: nat         \<comment> \<open>\<^verbatim>\<open>unsigned int\<close>\<close>
  sweeps_counter :: nat

text \<open>The fields of \<^verbatim>\<open>struct Env\<close> that paging uses. A pointer to a working set element is its address, 0 is \<^verbatim>\<open>NULL\<close>.\<close>

record uproc =
  env_page_directory :: nat
  disk_env_pgdir :: nat
  disk_env_tabledir :: nat
  page_WS_list :: "wse list"
  page_last_WS_element :: nat
  page_WS_max_size :: nat
  ActiveList :: "wse list"
  SecondList :: "wse list"
  referenceStreamList :: "nat list"
  initNumStackPages :: nat
  nPageIn :: nat
  nPageOut :: nat
  nNewPageAdded :: nat
  pageFaultsCounter :: nat
  tableFaultsCounter :: nat

datatype rep_algo =
  PG_REP_LRU_TIME_APPROX | PG_REP_LRU_LISTS_APPROX | PG_REP_FIFO | PG_REP_CLOCK | PG_REP_MODIFIEDCLOCK |
  PG_REP_NchanceCLOCK | PG_REP_DYNAMIC_LOCAL | PG_REP_OPTIMAL

record vm =
  km :: kmem
  up :: uproc
  disk_free_frame_list :: "nat list"
  dfllock :: bool
  pages_per_file :: nat     \<comment> \<open>\<^verbatim>\<open>PAGES_PER_FILE\<close>\<close>
  frame_data :: "nat \<Rightarrow> nat"
  disk_data :: "nat \<Rightarrow> nat"
  ide_read :: "nat \<Rightarrow> int"
  ide_write :: "nat \<Rightarrow> int"
  PageRepAlgoType :: rep_algo

abbreviation E_NO_PAGE_FILE_SPACE :: int where "E_NO_PAGE_FILE_SPACE \<equiv> - 8"
abbreviation E_PAGE_NOT_EXIST_IN_PF :: int where "E_PAGE_NOT_EXIST_IN_PF \<equiv> - 9"
abbreviation E_TABLE_NOT_EXIST_IN_PF :: int where "E_TABLE_NOT_EXIST_IN_PF \<equiv> - 10"
abbreviation E_NO_VM :: int where "E_NO_VM \<equiv> - 20"

definition upd_up :: "(uproc \<Rightarrow> uproc) \<Rightarrow> vm \<Rightarrow> vm" where
  "upd_up f v = v\<lparr>up := f (up v)\<rparr>"

text \<open>A routine of the memory manager, run on the memory of \<open>v\<close>.\<close>

definition in_mem :: "(kmem \<Rightarrow> kmem result) \<Rightarrow> vm \<Rightarrow> vm result" where
  "in_mem f v = andThen (f (km v)) (\<lambda>k. Inr (v\<lparr>km := k\<rparr>))"

section \<open>Disk frames\<close>

fun init_disk_loop :: "nat \<Rightarrow> nat \<Rightarrow> nat list \<Rightarrow> nat list result" where
  "init_disk_loop 0 i l = Inr l"
| "init_disk_loop (Suc n) i l = andThen (list_insert_head i l) (init_disk_loop n (Suc i))"

definition initialize_disk_page_file :: "vm \<Rightarrow> vm result" where
  "initialize_disk_page_file v =
     andThen (init_disk_loop (pages_per_file v - 1) 1 []) (\<lambda>l.
     Inr (v\<lparr>disk_free_frame_list := l, dfllock := False\<rparr>))"

text \<open>\<open>None\<close> for \<^verbatim>\<open>E_NO_PAGE_FILE_SPACE\<close>.\<close>

definition allocate_disk_frame :: "vm \<Rightarrow> (nat option \<times> vm) result" where
  "allocate_disk_frame v =
     andThen (lock_acquire (dfllock v)) (\<lambda>h.
     (case disk_free_frame_list v of
        [] \<Rightarrow> andThen (lock_release h) (\<lambda>h. Inr (None, v\<lparr>dfllock := h\<rparr>))
      | d # _ \<Rightarrow>
          andThen (list_remove d (disk_free_frame_list v)) (\<lambda>l.
          andThen (lock_release h) (\<lambda>h. Inr (Some d, v\<lparr>disk_free_frame_list := l, dfllock := h\<rparr>)))))"

definition free_disk_frame :: "nat \<Rightarrow> vm \<Rightarrow> vm result" where
  "free_disk_frame dfn v =
     (if dfn = 0 then Inr v
      else
        andThen (lock_acquire (dfllock v)) (\<lambda>h.
        if dfn \<ge> pages_per_file v then Inl (Corrupted ''disk_frames_info[dfn]'')
        else
          andThen (list_insert_head dfn (disk_free_frame_list v)) (\<lambda>l.
          andThen (lock_release h) (\<lambda>h. Inr (v\<lparr>disk_free_frame_list := l, dfllock := h\<rparr>)))))"

definition pf_calculate_free_frames :: "vm \<Rightarrow> (nat \<times> vm) result" where
  "pf_calculate_free_frames v =
     andThen (lock_acquire (dfllock v)) (\<lambda>h.
     andThen (lock_release h) (\<lambda>h. Inr (length (disk_free_frame_list v), v\<lparr>dfllock := h\<rparr>)))"

section \<open>Moving a page\<close>

text \<open>The frame a user page is mapped to, as the processor sees it: not present is a page fault in the kernel.\<close>

definition frame_at :: "nat \<Rightarrow> vm \<Rightarrow> nat result" where
  "frame_at va v =
     andThen (get_page_table (env_page_directory (up v)) va (km v)) (\<lambda>(_, t).
     if t = 0 \<or> tables (km v) t (PTX va) AND PERM_PRESENT = 0 then Inl (Cpu_trap ''page fault in the kernel'')
     else Inr (PPN (EXTRACT_ADDRESS (tables (km v) t (PTX va)))))"

definition read_disk_page :: "nat \<Rightarrow> nat \<Rightarrow> vm \<Rightarrow> (int \<times> vm) result" where
  "read_disk_page dfn va v =
     andThen (frame_at va v) (\<lambda>f.
     Inr (ide_read v dfn, if ide_read v dfn = 0 then v\<lparr>frame_data := (frame_data v)(f := disk_data v dfn)\<rparr> else v))"

definition write_disk_page :: "nat \<Rightarrow> nat \<Rightarrow> vm \<Rightarrow> (int \<times> vm) result" where
  "write_disk_page dfn va v =
     andThen (frame_at va v) (\<lambda>f.
     if ide_write v dfn \<noteq> 0 then Inl (Panic ''Error writing on disk'')
     else Inr (0, v\<lparr>disk_data := (disk_data v)(dfn := frame_data v f)\<rparr>))"

text \<open>
  \<^verbatim>\<open>USTACKBOTTOM\<close> is \<^verbatim>\<open>ROUNDUP(USER_HEAP_MAX + sizeof(struct WorkingSetElement) * USER_TOP / PAGE_SIZE, PAGE_SIZE)\<close> in
  32 bit arithmetic, with elements of 24 bytes; the product wraps.
\<close>

definition USTACKBOTTOM :: nat where
  "USTACKBOTTOM = ROUNDUP (add32 USER_HEAP_MAX (mul32 24 USER_TOP div PAGE_SIZE)) PAGE_SIZE"

section \<open>Disk directories and tables\<close>

definition disk_entry :: "nat \<Rightarrow> nat \<Rightarrow> vm \<Rightarrow> u32 result" where
  "disk_entry a i v = (if a = 0 then Inl (Cpu_trap ''null array of the page file'') else Inr (tables (km v) a i))"

definition set_disk_entry :: "nat \<Rightarrow> nat \<Rightarrow> u32 \<Rightarrow> vm \<Rightarrow> vm" where
  "set_disk_entry a i w v = v\<lparr>km := set_entry a i w (km v)\<rparr>"

text \<open>A zeroed page of the kernel heap and its physical address; 0 when the heap has no room.\<close>

definition new_disk_array :: "vm \<Rightarrow> (nat \<times> nat \<times> vm) result" where
  "new_disk_array v =
     andThen (kmalloc PAGE_SIZE (km v)) (\<lambda>(p, k).
     if p = 0 then Inr (0, 0, v\<lparr>km := k\<rparr>)
     else
       andThen (kheap_physical_address p k) (\<lambda>pa.
       Inr (p, pa, v\<lparr>km := k\<lparr>tables := (tables k)(p := (\<lambda>_. 0))\<rparr>\<rparr>)))"

definition get_disk_page_directory :: "vm \<Rightarrow> (int \<times> vm) result" where
  "get_disk_page_directory v =
     (if disk_env_pgdir (up v) \<noteq> 0 then Inr (0, v)
      else
        andThen (new_disk_array v) (\<lambda>(p, _, v).
        Inr (if p = 0 then E_NO_VM else 0, upd_up (\<lambda>u. u\<lparr>disk_env_pgdir := p\<rparr>) v)))"

text \<open>\<^verbatim>\<open>get_disk_page_table\<close>; the table is 0 for \<^verbatim>\<open>NULL\<close>, and no caller looks at the code it returns.\<close>

definition get_disk_page_table :: "nat \<Rightarrow> nat \<Rightarrow> bool \<Rightarrow> vm \<Rightarrow> (nat \<times> vm) result" where
  "get_disk_page_table dir va create v =
     andThen (disk_entry dir (PDX va) v) (\<lambda>e.
     andThen (if \<not> CHECK_IF_KERNEL_ADDRESS va then kheap_virtual_address (EXTRACT_ADDRESS e) (km v)
              else STATIC_KERNEL_VIRTUAL_ADDRESS (EXTRACT_ADDRESS e) (km v)) (\<lambda>t.
     if e = 0 then
       (if create then
          andThen (new_disk_array v) (\<lambda>(p, pa, v).
          if p = 0 then Inr (0, v)
          else Inr (p, set_disk_entry dir (PDX va) (CONSTRUCT_ENTRY pa PERM_PRESENT) v))
        else Inr (0, v))
     else Inr (t, v)))"

definition in_heap_or_stack :: "nat \<Rightarrow> bool" where
  "in_heap_or_stack va \<longleftrightarrow> USER_HEAP_START \<le> va \<and> va < USER_HEAP_MAX \<or> USTACKBOTTOM \<le> va \<and> va < USTACKTOP"

text \<open>The disk frame of a page, a new one if it has none; the result is its number or \<open>None\<close> when the page file is full.\<close>

definition disk_frame_of :: "nat \<Rightarrow> vm \<Rightarrow> (nat option \<times> vm) result" where
  "disk_frame_of va v =
     andThen (c_assert (va < KERNEL_BASE) ''(uint32)virtual_address < KERNEL_BASE'') (\<lambda>_.
     andThen (get_disk_page_directory v) (\<lambda>(_, v).
     andThen (get_disk_page_table (disk_env_pgdir (up v)) va True v) (\<lambda>(t, v).
     andThen (disk_entry t (PTX va) v) (\<lambda>dfn.
     if dfn = 0 then
       andThen (allocate_disk_frame v) (\<lambda>(d, v).
       (case d of
          None \<Rightarrow> Inr (None, v)
        | Some d \<Rightarrow> Inr (Some d, set_disk_entry t (PTX va) (word_of_nat d) v)))
     else Inr (Some (unat dfn), v)))))"

text \<open>The source of \<^verbatim>\<open>pf_add_env_page\<close> is a kernel address; \<open>d\<close> is what the page there holds.\<close>

definition pf_add_env_page :: "nat \<Rightarrow> nat \<Rightarrow> vm \<Rightarrow> (int \<times> vm) result" where
  "pf_add_env_page va d v =
     andThen (disk_frame_of va v) (\<lambda>(dfn, v).
     (case dfn of
        None \<Rightarrow> Inr (E_NO_PAGE_FILE_SPACE, v)
      | Some dfn \<Rightarrow>
          if ide_write v dfn \<noteq> 0 then Inl (Panic ''Error writing on disk'')
          else Inr (0, v\<lparr>disk_data := (disk_data v)(dfn := d)\<rparr>)))"

text \<open>
  The contents of a page of zeros. \<^verbatim>\<open>ptr_zero_page\<close> is the page of frame 1, of which \<^verbatim>\<open>initialize_paging\<close> clears the
  first 1024 bytes only; an empty page gets what is in it.
\<close>

definition ZERO_PAGE :: nat where "ZERO_PAGE = 0"

abbreviation zero_frame :: nat where "zero_frame \<equiv> 1"

definition pf_add_empty_env_page :: "nat \<Rightarrow> bool \<Rightarrow> vm \<Rightarrow> (int \<times> vm) result" where
  "pf_add_empty_env_page va initializeByZero v =
     (if initializeByZero then
        pf_add_env_page va (frame_data v zero_frame)
          (if va > USTACKBOTTOM \<and> va < sub32 USTACKTOP (mul32 (initNumStackPages (up v)) PAGE_SIZE)
           then upd_up (\<lambda>u. u\<lparr>nNewPageAdded := add32 (nNewPageAdded u) 1\<rparr>) v else v)
      else
        andThen (disk_frame_of va v) (\<lambda>(dfn, v). Inr (if dfn = None then E_NO_PAGE_FILE_SPACE else 0, v)))"

definition pf_update_env_page :: "nat \<Rightarrow> vm \<Rightarrow> (int \<times> vm) result" where
  "pf_update_env_page va v =
     andThen (c_assert (va < KERNEL_BASE) ''(uint32)virtual_address < KERNEL_BASE'') (\<lambda>_.
     andThen (get_disk_page_directory v) (\<lambda>(_, v).
     andThen (get_disk_page_table (disk_env_pgdir (up v)) va False v) (\<lambda>(t, v).
     andThen
       (if t = 0 \<or> tables (km v) t (PTX va) = 0 then
          (if in_heap_or_stack va then
             andThen (pf_add_empty_env_page va False v) (\<lambda>(ret, v).
             if ret = E_NO_PAGE_FILE_SPACE
             then Inl (Panic ''pf_update_env_page: attempt to add a new page, but page file out of space!'')
             else Inr (upd_up (\<lambda>u. u\<lparr>nNewPageAdded := add32 (nNewPageAdded u) 1\<rparr>) v))
           else Inl (Panic ''pf_update_env_page: Invalid Access''))
        else Inr v) (\<lambda>v.
     andThen (get_disk_page_table (disk_env_pgdir (up v)) va False v) (\<lambda>(t, v).
     andThen (disk_entry t (PTX va) v) (\<lambda>dfn.
     andThen (get_page_table (env_page_directory (up v)) va (km v)) (\<lambda>(_, pt).
     andThen (disk_entry pt (PTX va) v) (\<lambda>pte.
     (let origPerms = pte AND 0xFFF;
          v = (if origPerms AND PERM_PRESENT = 0 then set_disk_entry pt (PTX va) (pte OR PERM_PRESENT) v else v)
      in andThen (write_disk_page (unat dfn) (ROUNDDOWN va PAGE_SIZE) v) (\<lambda>(ret, v).
         (let e = tables (km v) pt (PTX va);
              v = set_disk_entry pt (PTX va) (((e AND 0xFFFFF000) OR origPerms) AND NOT PERM_MODIFIED) v
          in Inr (ret, upd_up (\<lambda>u. u\<lparr>nPageOut := add32 (nPageOut u) 1\<rparr>) v)))))))))))) "

definition pf_read_env_page :: "nat \<Rightarrow> vm \<Rightarrow> (int \<times> vm) result" where
  "pf_read_env_page va0 v =
     (let va = ROUNDDOWN va0 PAGE_SIZE in
      if disk_env_pgdir (up v) = 0 then Inr (E_PAGE_NOT_EXIST_IN_PF, v)
      else
        andThen (get_disk_page_table (disk_env_pgdir (up v)) va False v) (\<lambda>(t, v).
        if t = 0 then Inr (E_PAGE_NOT_EXIST_IN_PF, v)
        else if tables (km v) t (PTX va) = 0 then Inr (E_PAGE_NOT_EXIST_IN_PF, v)
        else
          andThen (read_disk_page (unat (tables (km v) t (PTX va))) va v) (\<lambda>(err, v).
          andThen (in_mem (pt_set_page_permissions (env_page_directory (up v)) va 0 PERM_MODIFIED) v) (\<lambda>v.
          Inr (err, upd_up (\<lambda>u. u\<lparr>nPageIn := add32 (nPageIn u) 1\<rparr>) v)))))"

definition pf_remove_env_page :: "nat \<Rightarrow> vm \<Rightarrow> vm result" where
  "pf_remove_env_page va v =
     (if disk_env_pgdir (up v) = 0 then Inr v
      else
        andThen (get_disk_page_table (disk_env_pgdir (up v)) va False v) (\<lambda>(t, v).
        if t = 0 then Inr v
        else
          (let dfn = tables (km v) t (PTX va) in
           free_disk_frame (unat dfn) (set_disk_entry t (PTX va) 0 v))))"

section \<open>All pages of an environment\<close>

text \<open>The first user page directory entries, \<^verbatim>\<open>PDX(USER_TOP)\<close> of them; \<open>i\<close> is the next one to look at.\<close>

fun free_table_loop :: "nat \<Rightarrow> nat \<Rightarrow> nat \<Rightarrow> vm \<Rightarrow> vm result" where
  "free_table_loop 0 i pt v = Inr v"
| "free_table_loop (Suc n) i pt v =
     andThen (disk_entry pt i v) (\<lambda>dfn.
     andThen (free_disk_frame (unat dfn) (set_disk_entry pt i 0 v)) (free_table_loop n (Suc i) pt))"

fun pf_free_loop :: "nat \<Rightarrow> nat \<Rightarrow> vm \<Rightarrow> vm result" where
  "pf_free_loop 0 i v = Inr v"
| "pf_free_loop (Suc n) i v =
     andThen (disk_entry (disk_env_pgdir (up v)) i v) (\<lambda>e.
     if e AND PERM_PRESENT = 0 then pf_free_loop n (Suc i) v
     else
       andThen (kheap_virtual_address (EXTRACT_ADDRESS e) (km v)) (\<lambda>pt.
       andThen (free_table_loop 1024 0 pt v) (\<lambda>v.
       andThen (in_mem (kfree pt) (set_disk_entry (disk_env_pgdir (up v)) i 0 v)) (\<lambda>v.
       pf_free_loop n (Suc i) v))))"

fun remove_tables_loop :: "nat \<Rightarrow> nat \<Rightarrow> vm \<Rightarrow> vm result" where
  "remove_tables_loop 0 i v = Inr v"
| "remove_tables_loop (Suc n) i v =
     andThen (disk_entry (disk_env_tabledir (up v)) i v) (\<lambda>dfn.
     andThen (free_disk_frame (unat dfn) (set_disk_entry (disk_env_tabledir (up v)) i 0 v)) (remove_tables_loop n (Suc i)))"

definition pf_remove_env_all_tables :: "vm \<Rightarrow> vm result" where
  "pf_remove_env_all_tables v =
     (if disk_env_tabledir (up v) = 0 then Inr v else remove_tables_loop (PDX USER_TOP) 0 v)"

definition pf_remove_env_table :: "nat \<Rightarrow> vm \<Rightarrow> vm result" where
  "pf_remove_env_table va v =
     (if disk_env_tabledir (up v) = 0 then Inr v
      else
        andThen (disk_entry (disk_env_tabledir (up v)) (PDX va) v) (\<lambda>dfn.
        free_disk_frame (unat dfn) (set_disk_entry (disk_env_tabledir (up v)) (PDX va) 0 v)))"

definition pf_free_env :: "vm \<Rightarrow> vm result" where
  "pf_free_env v =
     andThen (pf_free_loop (PDX USER_TOP) 0 v) (\<lambda>v.
     andThen (in_mem (kfree (disk_env_pgdir (up v))) v) (\<lambda>v.
     (let v = upd_up (\<lambda>u. u\<lparr>disk_env_pgdir := 0\<rparr>) v in
      if disk_env_tabledir (up v) = 0 then Inr v
      else
        andThen (pf_remove_env_all_tables v) (\<lambda>v.
        andThen (in_mem (kfree (disk_env_tabledir (up v))) v) (\<lambda>v.
        Inr (upd_up (\<lambda>u. u\<lparr>disk_env_tabledir := 0\<rparr>) v))))))"

fun count_pages_loop :: "nat \<Rightarrow> nat \<Rightarrow> nat \<Rightarrow> vm \<Rightarrow> nat result" where
  "count_pages_loop 0 i c v = Inr c"
| "count_pages_loop (Suc n) i c v =
     andThen (disk_entry (disk_env_pgdir (up v)) i v) (\<lambda>e.
     if e AND PERM_PRESENT = 0 then count_pages_loop n (Suc i) c v
     else
       andThen (kheap_virtual_address (EXTRACT_ADDRESS e) (km v)) (\<lambda>pt.
       if pt = 0 then Inl (Cpu_trap ''pt[ptIndex]'')
       else count_pages_loop n (Suc i) (c + length (filter (\<lambda>j. tables (km v) pt j \<noteq> 0) [0..<1024])) v))"

definition pf_calculate_allocated_pages :: "vm \<Rightarrow> nat result" where
  "pf_calculate_allocated_pages v = count_pages_loop (PDX USER_TOP) 0 0 v"

definition get_disk_table_directory :: "vm \<Rightarrow> (int \<times> vm) result" where
  "get_disk_table_directory v =
     (if disk_env_tabledir (up v) \<noteq> 0 then Inr (0, v)
      else
        andThen (new_disk_array v) (\<lambda>(p, _, v).
        Inr (if p = 0 then E_NO_VM else 0, upd_up (\<lambda>u. u\<lparr>disk_env_tabledir := p\<rparr>) v)))"

text \<open>Tables on the disk; \<open>d\<close> is what the table in memory holds.\<close>

definition pf_write_env_table :: "nat \<Rightarrow> nat \<Rightarrow> vm \<Rightarrow> (int \<times> vm) result" where
  "pf_write_env_table va d v =
     andThen (c_assert (va < KERNEL_BASE) ''(uint32)virtual_address < KERNEL_BASE'') (\<lambda>_.
     andThen (get_disk_table_directory v) (\<lambda>(_, v).
     andThen (disk_entry (disk_env_tabledir (up v)) (PDX va) v) (\<lambda>dfn.
     andThen
       (if dfn = 0 then
          andThen (allocate_disk_frame v) (\<lambda>(r, v).
          (case r of
             None \<Rightarrow> Inr (None, v)
           | Some n \<Rightarrow> Inr (Some n, set_disk_entry (disk_env_tabledir (up v)) (PDX va) (word_of_nat n) v)))
        else Inr (Some (unat dfn), v)) (\<lambda>(r, v).
     (case r of
        None \<Rightarrow> Inr (E_NO_PAGE_FILE_SPACE, v)
      | Some n \<Rightarrow>
          if ide_write v n \<noteq> 0 then Inl (Panic ''Error writing on disk'')
          else Inr (0, v\<lparr>disk_data := (disk_data v)(n := d)\<rparr>))))))"

text \<open>The result: the code, and what was read.\<close>

definition pf_read_env_table :: "nat \<Rightarrow> vm \<Rightarrow> (int \<times> nat) result" where
  "pf_read_env_table va v =
     (if disk_env_tabledir (up v) = 0 then Inr (E_TABLE_NOT_EXIST_IN_PF, 0)
      else
        (let dfn = tables (km v) (disk_env_tabledir (up v)) (PDX va) in
         if dfn = 0 then Inr (E_TABLE_NOT_EXIST_IN_PF, 0)
         else Inr (ide_read v (unat dfn), disk_data v (unat dfn))))"

section \<open>The list of free disk frames\<close>

definition disk_frames_ok :: "vm \<Rightarrow> bool" where
  "disk_frames_ok v \<longleftrightarrow> \<not> dfllock v \<and> distinct (disk_free_frame_list v) \<and>
     (\<forall>d \<in> set (disk_free_frame_list v). 0 < d \<and> d < pages_per_file v)"

lemma init_disk_loop_eq:
  "\<forall>d \<in> set l. d < i \<Longrightarrow> init_disk_loop n i l = Inr (rev [i..<i + n] @ l)"
proof (induction n arbitrary: i l)
  case (Suc n)
  have "i \<notin> set l" using Suc.prems by blast
  then have h: "list_insert_head i l = Inr (i # l)" by (simp add: list_insert_head_def)
  have "\<forall>d \<in> set (i # l). d < Suc i" using Suc.prems by (auto simp: less_Suc_eq)
  then have "init_disk_loop n (Suc i) (i # l) = Inr (rev [Suc i..<Suc i + n] @ i # l)" by (rule Suc.IH)
  moreover have "[i..<i + Suc n] = i # [Suc i..<Suc i + n]" by (simp add: upt_rec)
  ultimately show ?case by (simp add: h)
qed simp

lemma allocate_disk_frame_eq:
  assumes "disk_frames_ok v"
  shows "allocate_disk_frame v =
    Inr (case disk_free_frame_list v of [] \<Rightarrow> (None, v) | d # l \<Rightarrow> (Some d, v\<lparr>disk_free_frame_list := l\<rparr>))"
proof -
  have "\<not> dfllock v" using assms by (simp add: disk_frames_ok_def)
  then have "v\<lparr>dfllock := False\<rparr> = v" "v\<lparr>disk_free_frame_list := l, dfllock := False\<rparr> = v\<lparr>disk_free_frame_list := l\<rparr>" for l
    by (cases v; simp)+
  then show ?thesis using \<open>\<not> dfllock v\<close>
    by (simp add: allocate_disk_frame_def list_remove_def split: list.splits)
qed

lemma free_disk_frame_eq:
  assumes "disk_frames_ok v" "0 < d" "d < pages_per_file v" "d \<notin> set (disk_free_frame_list v)"
  shows "free_disk_frame d v = Inr (v\<lparr>disk_free_frame_list := d # disk_free_frame_list v\<rparr>)"
proof -
  have "\<not> dfllock v" using assms(1) by (simp add: disk_frames_ok_def)
  then have "v\<lparr>disk_free_frame_list := l, dfllock := False\<rparr> = v\<lparr>disk_free_frame_list := l\<rparr>" for l
    by (cases v) simp
  then show ?thesis using \<open>\<not> dfllock v\<close> assms(2-4)
    by (simp add: free_disk_frame_def list_insert_head_def)
qed

text \<open>
  After initialisation every disk frame but frame 0 is free. Taking a frame gives one that was free and is
  not handed out again before it is released, \<^verbatim>\<open>E_NO_PAGE_FILE_SPACE\<close> only when none is left; releasing
  it restores the list, and a frame outside the page file or one that is free already is never put on it.
\<close>

lemma disk_frame_allocation:
  assumes "disk_frames_ok v"
  shows "(\<exists>w. initialize_disk_page_file v = Inr w \<and> disk_frames_ok w \<and>
            set (disk_free_frame_list w) = {0<..<pages_per_file v}) \<and>
         (disk_free_frame_list v = [] \<longrightarrow> allocate_disk_frame v = Inr (None, v)) \<and>
         (disk_free_frame_list v \<noteq> [] \<longrightarrow>
            (\<exists>d w. allocate_disk_frame v = Inr (Some d, w) \<and> disk_frames_ok w \<and> 0 < d \<and> d < pages_per_file v \<and>
               d \<in> set (disk_free_frame_list v) \<and> set (disk_free_frame_list w) = set (disk_free_frame_list v) - {d} \<and>
               free_disk_frame d w = Inr v)) \<and>
         (\<forall>d w. free_disk_frame d v = Inr w \<longrightarrow> disk_frames_ok w)"
proof (intro conjI impI allI)
  have n: "rev [1..<1 + (pages_per_file v - 1)] @ [] = rev [1..<pages_per_file v]" by (cases "pages_per_file v") auto
  show "\<exists>w. initialize_disk_page_file v = Inr w \<and> disk_frames_ok w \<and> set (disk_free_frame_list w) = {0<..<pages_per_file v}"
    using init_disk_loop_eq [of "[]" 1 "pages_per_file v - 1", unfolded n]
    by (auto simp: initialize_disk_page_file_def disk_frames_ok_def)
  show "allocate_disk_frame v = Inr (None, v)" if "disk_free_frame_list v = []"
    using that allocate_disk_frame_eq [OF assms] by simp
  show "\<exists>d w. allocate_disk_frame v = Inr (Some d, w) \<and> disk_frames_ok w \<and> 0 < d \<and> d < pages_per_file v \<and>
      d \<in> set (disk_free_frame_list v) \<and> set (disk_free_frame_list w) = set (disk_free_frame_list v) - {d} \<and>
      free_disk_frame d w = Inr v" if ne: "disk_free_frame_list v \<noteq> []"
  proof -
    obtain d l where l: "disk_free_frame_list v = d # l" using ne by (cases "disk_free_frame_list v") auto
    let ?w = "v\<lparr>disk_free_frame_list := l\<rparr>"
    have w: "disk_frames_ok ?w" "0 < d" "d < pages_per_file v" "d \<notin> set l"
      using assms l by (auto simp: disk_frames_ok_def)
    have "v\<lparr>disk_free_frame_list := d # l\<rparr> = v" using l by (cases v) simp
    then have "free_disk_frame d ?w = Inr v" using free_disk_frame_eq [OF w(1,2)] w(3,4) by simp
    then show ?thesis using w l allocate_disk_frame_eq [OF assms] by (intro exI [of _ d] exI [of _ ?w]) auto
  qed
  show "disk_frames_ok w" if "free_disk_frame d v = Inr w" for d w
    using that assms unfolding free_disk_frame_def disk_frames_ok_def
    by (auto simp: res_simps split: if_splits)
qed

text \<open>
  An environment with three resident pages at the start of the user heap (frames 150 to 152, through one page table), two
  of them kept on the disk, for the witnesses.
\<close>

definition sample_kmem :: kmem where
  "sample_kmem = bare_kmem\<lparr>
     free_frame_list := [200, 201],
     frames_info := (\<lambda>f. if f = 301 then zero_frame_info\<lparr>fi_va := 0xF6001000\<rparr>
       else if f = 302 then zero_frame_info\<lparr>fi_va := 0xF6002000\<rparr>
       else if 150 \<le> f \<and> f \<le> 152 then zero_frame_info\<lparr>references := 1, fi_va := 0x80000000 + (f - 150) * 4096\<rparr>
       else zero_frame_info),
     directories := (\<lambda>_ i. if i = 512 then 0x12D007 else 0),
     tables := (\<lambda>t i. if t = 0xF6001000 then (if i = 0 then 0x96027 else if i = 1 then 0x97067 else if i = 2 then 0x98007 else 0)
       else if t = 0xF6002000 then (if i = 0 then 5 else if i = 1 then 6 else 0)
       else if t = 0xF6003000 then (if i = 512 then 0x12E001 else 0) else 0)\<rparr>"

definition sample_wse :: "nat \<Rightarrow> wse" where
  "sample_wse i = \<lparr>wse_addr = 0xF6000000 + 32 * i, virtual_address = 0x80000000 + 4096 * i, time_stamp = 8 - 2 * i, sweeps_counter = 0\<rparr>"

definition sample_vm :: vm where
  "sample_vm = \<lparr>km = sample_kmem,
     up = \<lparr>env_page_directory = 0xF6004000, disk_env_pgdir = 0xF6003000, disk_env_tabledir = 0,
        page_WS_list = [sample_wse 0, sample_wse 1, sample_wse 2], page_last_WS_element = 0xF6000000, page_WS_max_size = 3,
        ActiveList = [], SecondList = [], referenceStreamList = [], initNumStackPages = 1,
        nPageIn = 0, nPageOut = 0, nNewPageAdded = 0, pageFaultsCounter = 0, tableFaultsCounter = 0\<rparr>,
     disk_free_frame_list = [7, 8], dfllock = False, pages_per_file = 100,
     frame_data = (\<lambda>f. f), disk_data = (\<lambda>_. 0), ide_read = (\<lambda>_. 0), ide_write = (\<lambda>_. 0), PageRepAlgoType = PG_REP_CLOCK\<rparr>"

lemma disk_frame_allocation_witness:
  "\<exists>d w. allocate_disk_frame sample_vm = Inr (Some d, w) \<and> d = 7 \<and> disk_free_frame_list w = [8] \<and>
     free_disk_frame d w = Inr sample_vm"
proof -
  have "disk_frames_ok sample_vm" by (simp add: disk_frames_ok_def sample_vm_def)
  from disk_frame_allocation [OF this] allocate_disk_frame_eq [OF this] show ?thesis
    by (auto simp: sample_vm_def)
qed

section \<open>Writing a page out and reading it back\<close>

text \<open>Page \<open>va\<close> is kept in disk frame \<open>d\<close>, recorded in the disk table \<open>t\<close>.\<close>

definition on_disk :: "vm \<Rightarrow> nat \<Rightarrow> nat \<Rightarrow> nat \<Rightarrow> bool" where
  "on_disk v va t d \<longleftrightarrow> disk_env_pgdir (up v) \<noteq> 0 \<and> tables (km v) (disk_env_pgdir (up v)) (PDX va) \<noteq> 0 \<and>
     kheap_virtual_address (EXTRACT_ADDRESS (tables (km v) (disk_env_pgdir (up v)) (PDX va))) (km v) = Inr t \<and> t \<noteq> 0 \<and>
     0 < d \<and> d < U32 \<and> tables (km v) t (PTX va) = word_of_nat d"

text \<open>Page \<open>va\<close> is in memory, in frame \<open>f\<close>, through the page table \<open>pt\<close>.\<close>

definition resident :: "vm \<Rightarrow> nat \<Rightarrow> nat \<Rightarrow> nat \<Rightarrow> bool" where
  "resident v va pt f \<longleftrightarrow> get_page_table (env_page_directory (up v)) va (km v) = Inr (TABLE_IN_MEMORY, pt) \<and> pt \<noteq> 0 \<and>
     tables (km v) pt (PTX va) AND PERM_PRESENT \<noteq> 0 \<and> f = PPN (EXTRACT_ADDRESS (tables (km v) pt (PTX va)))"

lemma walk_set_entry [simp]:
  "to_frame_info pa (set_entry t i w k) = to_frame_info pa k"
  "in_heap_region a (set_entry t i w k) = in_heap_region a k"
  "kheap_virtual_address pa (set_entry t i w k) = kheap_virtual_address pa k"
  "STATIC_KERNEL_VIRTUAL_ADDRESS pa (set_entry t i w k) = STATIC_KERNEL_VIRTUAL_ADDRESS pa k"
  "directories (set_entry t i w k) = directories k"
  by (simp_all add: set_entry_def to_frame_info_def in_heap_region_def kheap_virtual_address_def
      STATIC_KERNEL_VIRTUAL_ADDRESS_def)

lemma get_page_table_set_entry [simp]: "get_page_table dir va (set_entry t i w k) = get_page_table dir va k"
  by (simp add: get_page_table_def Let_def)

lemma set_entry_twice [simp]: "set_entry t i a (set_entry t i b k) = set_entry t i a k"
  by (simp add: set_entry_def)

lemma tables_set_entry:
  "tables (set_entry t i w k) u j = (if u = t \<and> j = i then w else tables k u j)"
  by (simp add: set_entry_def)

lemma user_address: "va < USER_TOP \<Longrightarrow> \<not> CHECK_IF_KERNEL_ADDRESS va"
  by (simp add: CHECK_IF_KERNEL_ADDRESS_def)

lemma get_disk_page_table_on_disk:
  assumes "on_disk v va t d" "va < USER_TOP"
  shows "get_disk_page_table (disk_env_pgdir (up v)) va create v = Inr (t, v)"
  using assms by (simp add: get_disk_page_table_def on_disk_def disk_entry_def user_address)

lemma on_disk_entry: "on_disk v va t d \<Longrightarrow> tables (km v) t (PTX va) \<noteq> 0 \<and> unat (tables (km v) t (PTX va)) = d"
  by (auto simp: on_disk_def unat_of_nat word_of_nat_eq_0_iff dest: nat_dvd_not_less)

lemma keep_perms: "((e AND 0xFFFFF000) OR (e AND 0xFFF)) AND NOT PERM_MODIFIED = (e AND NOT PERM_MODIFIED :: u32)"
proof -
  have "(e AND 0xFFFFF000) OR (e AND 0xFFF) = e AND (0xFFFFF000 OR 0xFFF)" by (simp only: bit.conj_disj_distrib)
  also have "(0xFFFFF000 OR 0xFFF :: u32) = - 1" by simp
  finally show ?thesis by simp
qed

lemma pf_update_env_page_eq:
  assumes "on_disk v va t d" "resident v va pt f" "va < USER_TOP" "va mod PAGE_SIZE = 0" "ide_write v d = 0"
  shows "pf_update_env_page va v =
    Inr (0, v\<lparr>disk_data := (disk_data v)(d := frame_data v f),
              km := set_entry pt (PTX va) (tables (km v) pt (PTX va) AND NOT PERM_MODIFIED) (km v),
              up := (up v)\<lparr>nPageOut := add32 (nPageOut (up v)) 1\<rparr>\<rparr>)"
proof -
  have d: "get_disk_page_directory v = Inr (0, v)" using assms(1) by (simp add: get_disk_page_directory_def on_disk_def)
  have p: "\<not> (tables (km v) pt (PTX va) AND 0xFFF) AND PERM_PRESENT = 0"
    using assms(2) by (simp add: resident_def and.assoc)
  have fr: "frame_at va v = Inr f" "pt \<noteq> 0" "get_page_table (env_page_directory (up v)) va (km v) = Inr (TABLE_IN_MEMORY, pt)"
    using assms(2) by (auto simp: frame_at_def resident_def)
  have t: "t \<noteq> 0" using assms(1) by (simp add: on_disk_def)
  have w: "write_disk_page d va v = Inr (0, v\<lparr>disk_data := (disk_data v)(d := frame_data v f)\<rparr>)"
    using assms(5) fr(1) by (simp add: write_disk_page_def)
  show ?thesis
    using assms(3,4) fr(2,3) t p on_disk_entry [OF assms(1)] ROUNDDOWN_id [OF assms(4)]
    by (simp add: pf_update_env_page_def d get_disk_page_table_on_disk [OF assms(1,3)] disk_entry_def Let_def w
        set_disk_entry_def upd_up_def keep_perms [simplified])
qed

lemma pf_read_env_page_eq:
  assumes "on_disk v va t d" "resident v va pt f" "va < USER_TOP" "va mod PAGE_SIZE = 0" "ide_read v d = 0"
  shows "pf_read_env_page va v =
    Inr (0, v\<lparr>frame_data := (frame_data v)(f := disk_data v d),
              km := set_entry pt (PTX va) (tables (km v) pt (PTX va) AND NOT PERM_MODIFIED) (km v),
              up := (up v)\<lparr>nPageIn := add32 (nPageIn (up v)) 1\<rparr>\<rparr>)"
proof -
  have g: "disk_env_pgdir (up v) \<noteq> 0" "t \<noteq> 0" using assms(1) by (simp_all add: on_disk_def)
  have fr: "frame_at va v = Inr f" "pt \<noteq> 0" "get_page_table (env_page_directory (up v)) va (km v) = Inr (TABLE_IN_MEMORY, pt)"
    using assms(2) by (auto simp: frame_at_def resident_def)
  have r: "read_disk_page d va v = Inr (0, v\<lparr>frame_data := (frame_data v)(f := disk_data v d)\<rparr>)"
    using assms(5) fr(1) by (simp add: read_disk_page_def)
  let ?r = "v\<lparr>frame_data := (frame_data v)(f := disk_data v d)\<rparr>"
  have c: "in_mem (pt_set_page_permissions (env_page_directory (up v)) va 0 PERM_MODIFIED) ?r =
      Inr (?r\<lparr>km := set_entry pt (PTX va) (tables (km v) pt (PTX va) AND NOT PERM_MODIFIED) (km v)\<rparr>)"
    using fr(2,3) by (simp add: in_mem_def pt_set_page_permissions_def tables_set_entry)
  show ?thesis
    using g on_disk_entry [OF assms(1)] ROUNDDOWN_id [OF assms(4)]
    by (simp add: pf_read_env_page_def Let_def get_disk_page_table_on_disk [OF assms(1,3)] r c upd_up_def)
qed

text \<open>
  C11. Writing a page out and reading it back later gives the same contents. A resident page that has a disk frame is
  written to this disk frame and to no other, its modified bit is cleared and nothing else of its entry changes, and the
  page stays recorded on the disk; whenever it is resident again, in whatever frame, while the disk frame was not
  overwritten, reading it puts the contents of the time of writing into the new frame.
\<close>

theorem page_out_in_round_trip:
  assumes "on_disk v va t d" and "resident v va pt f" and "va < USER_TOP" and "va mod PAGE_SIZE = 0" and "ide_write v d = 0"
    and "pt \<noteq> t" and "pt \<noteq> disk_env_pgdir (up v)"
  shows "\<exists>w. pf_update_env_page va v = Inr (0, w) \<and>
           disk_data w = (disk_data v)(d := frame_data v f) \<and> frame_data w = frame_data v \<and>
           tables (km w) pt (PTX va) = tables (km v) pt (PTX va) AND NOT PERM_MODIFIED \<and>
           on_disk w va t d \<and>
           (\<forall>x t' pt' f'. on_disk x va t' d \<and> resident x va pt' f' \<and> disk_data x d = disk_data w d \<and> ide_read x d = 0 \<longrightarrow>
              (\<exists>y. pf_read_env_page va x = Inr (0, y) \<and> frame_data y f' = frame_data v f \<and>
                 (\<forall>g. g \<noteq> f' \<longrightarrow> frame_data y g = frame_data x g)))"
proof -
  let ?w = "v\<lparr>disk_data := (disk_data v)(d := frame_data v f),
              km := set_entry pt (PTX va) (tables (km v) pt (PTX va) AND NOT PERM_MODIFIED) (km v),
              up := (up v)\<lparr>nPageOut := add32 (nPageOut (up v)) 1\<rparr>\<rparr>"
  have "on_disk ?w va t d" using assms(1,6,7) by (simp add: on_disk_def tables_set_entry)
  then show ?thesis
    using pf_update_env_page_eq [OF assms(1-5)] pf_read_env_page_eq [OF _ _ assms(3,4)]
    by (intro exI [of _ ?w]) (auto simp: tables_set_entry)
qed

lemma sample_on_disk: "on_disk sample_vm 0x80001000 0xF6002000 6"
  by (simp add: on_disk_def sample_vm_def sample_kmem_def bare_kmem_def PDX_def PTX_def kheap_virtual_address_def
      to_frame_info_def PPN_def EXTRACT_ADDRESS_def in_heap_region_def zero_frame_info_def u32_simps)

lemma sample_resident: "resident sample_vm 0x80001000 0xF6001000 151"
  by (simp add: resident_def sample_vm_def sample_kmem_def bare_kmem_def PDX_def PTX_def kheap_virtual_address_def
      to_frame_info_def PPN_def EXTRACT_ADDRESS_def in_heap_region_def zero_frame_info_def u32_simps get_page_table_def
      CHECK_IF_KERNEL_ADDRESS_def)

theorem page_out_in_round_trip_witness:
  "\<exists>w. pf_update_env_page 0x80001000 sample_vm = Inr (0, w) \<and> disk_data w 6 = 151 \<and>
     tables (km w) 0xF6001000 1 = 0x97027"
  using page_out_in_round_trip [OF sample_on_disk sample_resident]
  by (auto simp: sample_vm_def sample_kmem_def PTX_def)

end
