(* ===== verification/Working_Set.thy ===== *)
theory Working_Set
  imports Page_File
begin

text \<open>
  The page and table working sets of an environment (\<^verbatim>\<open>src/kern/mem/working_set_manager.c\<close>), the ageing of the time
  stamps (\<^verbatim>\<open>update_WS_time_stamps\<close> of \<^verbatim>\<open>src/kern/cpu/sched.c\<close>) and
  \<^verbatim>\<open>src/kern/proc/priority_manager.c\<close>. An element is identified by its address \<open>wse_addr\<close>.
\<close>

unbundle bit_operations_syntax

section \<open>Elements and lists\<close>

abbreviation upgdir :: "vm \<Rightarrow> nat" where
  "upgdir v \<equiv> env_page_directory (up v)"

abbreviation WS :: "vm \<Rightarrow> wse list" where
  "WS v \<equiv> page_WS_list (up v)"

abbreviation hand :: "vm \<Rightarrow> nat" where
  "hand v \<equiv> page_last_WS_element (up v)"

text \<open>\<^verbatim>\<open>LIST_FIRST\<close> and \<^verbatim>\<open>LIST_NEXT\<close> as addresses, 0 for \<^verbatim>\<open>NULL\<close>.\<close>

definition ws_first :: "wse list \<Rightarrow> nat" where
  "ws_first l = (case l of [] \<Rightarrow> 0 | w # _ \<Rightarrow> wse_addr w)"

fun ws_next :: "nat \<Rightarrow> wse list \<Rightarrow> nat" where
  "ws_next a (w # x # l) = (if wse_addr w = a then wse_addr x else ws_next a (x # l))"
| "ws_next a _ = 0"

definition ws_elem :: "nat \<Rightarrow> wse list \<Rightarrow> wse option" where
  "ws_elem a l = find (\<lambda>w. wse_addr w = a) l"

definition same_page :: "nat \<Rightarrow> nat \<Rightarrow> bool" where
  "same_page a b \<longleftrightarrow> ROUNDDOWN a PAGE_SIZE = ROUNDDOWN b PAGE_SIZE"

definition upd_elem :: "nat \<Rightarrow> (wse \<Rightarrow> wse) \<Rightarrow> wse list \<Rightarrow> wse list" where
  "upd_elem a f l = map (\<lambda>w. if wse_addr w = a then f w else w) l"

abbreviation SIZEOF_WSE :: nat where "SIZEOF_WSE \<equiv> 24"

definition env_page_ws_list_create_element :: "nat \<Rightarrow> vm \<Rightarrow> (wse \<times> vm) result" where
  "env_page_ws_list_create_element va v =
     andThen (c_assert (va < USER_TOP) ''virtual_address >= 0 && virtual_address < USER_TOP'') (\<lambda>_.
     andThen (kmalloc SIZEOF_WSE (km v)) (\<lambda>(p, k).
     if p = 0 then Inl (Panic ''can't create a new WS element'')
     else Inr (\<lparr>wse_addr = p, virtual_address = ROUNDDOWN va PAGE_SIZE, time_stamp = 0, sweeps_counter = 0\<rparr>, v\<lparr>km := k\<rparr>)))"

section \<open>Removing a page from the working set\<close>

definition invalidate_active :: "wse \<Rightarrow> vm \<Rightarrow> vm result" where
  "invalidate_active w v =
     andThen (in_mem (unmap_frame (upgdir v) (virtual_address w)) v) (\<lambda>v.
     andThen (list_remove w (ActiveList (up v))) (\<lambda>al.
     andThen (in_mem (kfree (wse_addr w)) (upd_up (\<lambda>u. u\<lparr>ActiveList := al\<rparr>) v)) (\<lambda>v.
     (case SecondList (up v) of
        [] \<Rightarrow> Inr v
      | x # _ \<Rightarrow>
          andThen (list_remove x (SecondList (up v))) (\<lambda>sl.
          andThen (list_insert_tail x (ActiveList (up v))) (\<lambda>al.
          in_mem (pt_set_page_permissions (upgdir v) (virtual_address x) PERM_PRESENT 0)
            (upd_up (\<lambda>u. u\<lparr>SecondList := sl, ActiveList := al\<rparr>) v)))))))"

definition invalidate_second :: "wse \<Rightarrow> vm \<Rightarrow> vm result" where
  "invalidate_second w v =
     andThen (in_mem (unmap_frame (upgdir v) (virtual_address w)) v) (\<lambda>v.
     andThen (list_remove w (SecondList (up v))) (\<lambda>sl.
     in_mem (kfree (wse_addr w)) (upd_up (\<lambda>u. u\<lparr>SecondList := sl\<rparr>) v)))"

definition env_page_ws_invalidate :: "nat \<Rightarrow> vm \<Rightarrow> vm result" where
  "env_page_ws_invalidate va v =
     (if PageRepAlgoType v = PG_REP_LRU_LISTS_APPROX then
        (case find (\<lambda>w. same_page (virtual_address w) va) (ActiveList (up v)) of
           Some w \<Rightarrow> invalidate_active w v
         | None \<Rightarrow>
             (case find (\<lambda>w. same_page (virtual_address w) va) (SecondList (up v)) of
                Some w \<Rightarrow> invalidate_second w v
              | None \<Rightarrow> Inr v))
      else
        (case find (\<lambda>w. same_page (virtual_address w) va) (WS v) of
           None \<Rightarrow> Inr v
         | Some w \<Rightarrow>
             andThen (in_mem (unmap_frame (upgdir v) (virtual_address w)) v) (\<lambda>v.
             (let v = (if hand v = wse_addr w
                       then upd_up (\<lambda>u. u\<lparr>page_last_WS_element := ws_next (wse_addr w) (page_WS_list u)\<rparr>) v else v)
              in andThen (list_remove w (WS v)) (\<lambda>l.
                 in_mem (kfree (wse_addr w)) (upd_up (\<lambda>u. u\<lparr>page_WS_list := l\<rparr>) v))))))"

section \<open>The table working set\<close>

text \<open>The array \<^verbatim>\<open>__ptr_tws\<close>; reads and writes past its end go to other fields of the environment.\<close>

record tws_elem =
  tws_va :: nat
  tws_empty :: bool
  tws_time_stamp :: nat

abbreviation TWS_MAX_SIZE :: nat where "TWS_MAX_SIZE \<equiv> 50"
abbreviation TABLE_SPAN :: nat where "TABLE_SPAN \<equiv> 4194304"

definition env_table_ws_get_size :: "(nat \<Rightarrow> tws_elem) \<Rightarrow> nat" where
  "env_table_ws_get_size a = length (filter (\<lambda>i. \<not> tws_empty (a i)) [0..<TWS_MAX_SIZE])"

definition env_table_ws_clear_entry :: "nat \<Rightarrow> (nat \<Rightarrow> tws_elem) \<Rightarrow> (nat \<Rightarrow> tws_elem) result" where
  "env_table_ws_clear_entry i a =
     andThen (c_assert (i < TWS_MAX_SIZE) ''entry_index >= 0 && entry_index < __TWS_MAX_SIZE'') (\<lambda>_.
     Inr (a(i := \<lparr>tws_va = 0, tws_empty = True, tws_time_stamp = 0\<rparr>)))"

definition env_table_ws_invalidate :: "nat \<Rightarrow> (nat \<Rightarrow> tws_elem) \<Rightarrow> (nat \<Rightarrow> tws_elem) result" where
  "env_table_ws_invalidate va a =
     (case find (\<lambda>i. ROUNDDOWN (tws_va (a i)) TABLE_SPAN = ROUNDDOWN va TABLE_SPAN) [0..<TWS_MAX_SIZE] of
        None \<Rightarrow> Inr a
      | Some i \<Rightarrow> env_table_ws_clear_entry i a)"

definition env_table_ws_set_entry :: "nat \<Rightarrow> nat \<Rightarrow> (nat \<Rightarrow> tws_elem) \<Rightarrow> (nat \<Rightarrow> tws_elem) result" where
  "env_table_ws_set_entry i va a =
     andThen (c_assert (i < TWS_MAX_SIZE) ''entry_index >= 0 && entry_index < __TWS_MAX_SIZE'') (\<lambda>_.
     andThen (c_assert (va < USER_TOP) ''virtual_address >= 0 && virtual_address < USER_TOP'') (\<lambda>_.
     Inr (a(i := \<lparr>tws_va = ROUNDDOWN va TABLE_SPAN, tws_empty = False, tws_time_stamp = 0\<rparr>))))"

definition env_table_ws_get_virtual_address :: "nat \<Rightarrow> (nat \<Rightarrow> tws_elem) \<Rightarrow> nat result" where
  "env_table_ws_get_virtual_address i a =
     andThen (c_assert (i < TWS_MAX_SIZE) ''entry_index >= 0 && entry_index < __TWS_MAX_SIZE'') (\<lambda>_.
     Inr (ROUNDDOWN (tws_va (a i)) TABLE_SPAN))"

definition env_table_ws_get_time_stamp :: "nat \<Rightarrow> (nat \<Rightarrow> tws_elem) \<Rightarrow> nat result" where
  "env_table_ws_get_time_stamp i a =
     andThen (c_assert (i < TWS_MAX_SIZE) ''entry_index >= 0 && entry_index < __TWS_MAX_SIZE'') (\<lambda>_.
     Inr (tws_time_stamp (a i)))"

definition env_table_ws_is_entry_empty :: "nat \<Rightarrow> (nat \<Rightarrow> tws_elem) \<Rightarrow> bool" where
  "env_table_ws_is_entry_empty i a = tws_empty (a i)"

section \<open>Sizes and priorities\<close>

definition cut_paste_WS :: "vm \<Rightarrow> vm result" where
  "cut_paste_WS v = Inl (Panic ''not handled yet'')"

definition double_WS_Size :: "vm \<Rightarrow> int \<Rightarrow> vm result" where
  "double_WS_Size v isOneTimeOnly = Inl (Panic ''not handled yet'')"

definition half_WS_Size :: "vm \<Rightarrow> int \<Rightarrow> vm result" where
  "half_WS_Size v isImmidiate = Inl (Panic ''not handled yet'')"

text \<open>\<open>None\<close> is a null environment.\<close>

definition set_program_priority :: "vm option \<Rightarrow> int \<Rightarrow> vm option result" where
  "set_program_priority e priority =
     (if priority < 1 \<or> priority > 5 then Inl (Panic ''Please enter valid priority (1->5)'')
      else
        (case e of
           None \<Rightarrow> Inr None
         | Some v \<Rightarrow>
             andThen
               (if priority = 1 then half_WS_Size v 1
                else if priority = 2 then half_WS_Size v 0
                else if priority = 3 then Inr v
                else if priority = 4 then double_WS_Size v 1
                else double_WS_Size v 0) (\<lambda>v. Inr (Some v))))"

section \<open>Ageing\<close>

text \<open>The new time stamp: shifted right, with the used bit as its top bit.\<close>

definition aged :: "bool \<Rightarrow> nat \<Rightarrow> nat" where
  "aged u ts = (if u then drop_bit 1 ts OR 0x80000000 else drop_bit 1 ts)"

text \<open>One turn of the loop: the time stamp of element \<open>w\<close>, and its used bit cleared.\<close>

definition age_elem :: "wse \<Rightarrow> vm \<Rightarrow> (wse \<times> vm) result" where
  "age_elem w v =
     andThen (pt_get_page_permissions (upgdir v) (virtual_address w) (km v)) (\<lambda>perms.
     (let w = w\<lparr>time_stamp := aged (perms AND PERM_USED \<noteq> 0) (time_stamp w)\<rparr>
      in andThen (in_mem (pt_set_page_permissions (upgdir v) (virtual_address w) 0 PERM_USED) v) (\<lambda>v. Inr (w, v))))"

fun age_loop :: "wse list \<Rightarrow> vm \<Rightarrow> (wse list \<times> vm) result" where
  "age_loop [] v = Inr ([], v)"
| "age_loop (w # l) v =
     andThen (age_elem w v) (\<lambda>(w, v).
     andThen (age_loop l v) (\<lambda>(l, v). Inr (w # l, v)))"

definition update_WS_time_stamps :: "bool \<Rightarrow> vm \<Rightarrow> vm result" where
  "update_WS_time_stamps running v =
     (if \<not> running then Inr v
      else andThen (age_loop (WS v) v) (\<lambda>(l, v). Inr (upd_up (\<lambda>u. u\<lparr>page_WS_list := l\<rparr>) v)))"

end
