(* ===== verification/Fault_Handler.thy ===== *)
theory Fault_Handler
  imports Working_Set
begin

text \<open>
  The fault handlers of \<^verbatim>\<open>src/kern/trap/fault_handler.c\<close>: the checks on a faulting address, placement of a page, and
  replacement by CLOCK, LRU with ageing and modified CLOCK, the recording of a reference stream, and the count of faults of
  the optimal strategy for it.
\<close>

unbundle bit_operations_syntax

section \<open>Strategies and buffering\<close>

record fault_state =
  last_eip :: nat
  before_last_eip :: nat
  last_fault_va :: nat
  before_last_fault_va :: nat
  num_repeated_fault :: int   \<comment> \<open>\<^verbatim>\<open>int8\<close>\<close>
  last_faulted_env :: nat
  EnableModifiedBuffer :: nat
  EnableBuffering :: nat
  ModifiedBufferLength :: nat
  page_WS_max_sweeps :: int
  FASTNchanceCLOCK :: bool

definition setPageReplacmentAlgorithmLRU :: "rep_algo \<Rightarrow> vm \<Rightarrow> vm result" where
  "setPageReplacmentAlgorithmLRU LRU_TYPE v =
     andThen (c_assert (LRU_TYPE = PG_REP_LRU_TIME_APPROX \<or> LRU_TYPE = PG_REP_LRU_LISTS_APPROX) ''LRU_TYPE'') (\<lambda>_.
     Inr (v\<lparr>PageRepAlgoType := LRU_TYPE\<rparr>))"

definition setPageReplacmentAlgorithmCLOCK :: "vm \<Rightarrow> vm" where
  "setPageReplacmentAlgorithmCLOCK v = v\<lparr>PageRepAlgoType := PG_REP_CLOCK\<rparr>"

definition setPageReplacmentAlgorithmFIFO :: "vm \<Rightarrow> vm" where
  "setPageReplacmentAlgorithmFIFO v = v\<lparr>PageRepAlgoType := PG_REP_FIFO\<rparr>"

definition setPageReplacmentAlgorithmModifiedCLOCK :: "vm \<Rightarrow> vm" where
  "setPageReplacmentAlgorithmModifiedCLOCK v = v\<lparr>PageRepAlgoType := PG_REP_MODIFIEDCLOCK\<rparr>"

definition setPageReplacmentAlgorithmDynamicLocal :: "vm \<Rightarrow> vm" where
  "setPageReplacmentAlgorithmDynamicLocal v = v\<lparr>PageRepAlgoType := PG_REP_DYNAMIC_LOCAL\<rparr>"

definition setPageReplacmentAlgorithmNchanceCLOCK :: "int \<Rightarrow> fault_state \<Rightarrow> vm \<Rightarrow> fault_state \<times> vm" where
  "setPageReplacmentAlgorithmNchanceCLOCK PageWSMaxSweeps fs v =
     (fs\<lparr>page_WS_max_sweeps := PageWSMaxSweeps\<rparr>, v\<lparr>PageRepAlgoType := PG_REP_NchanceCLOCK\<rparr>)"

definition setFASTNchanceCLOCK :: "bool \<Rightarrow> fault_state \<Rightarrow> fault_state" where
  "setFASTNchanceCLOCK fast fs = fs\<lparr>FASTNchanceCLOCK := fast\<rparr>"

definition setPageReplacmentAlgorithmOPTIMAL :: "vm \<Rightarrow> vm" where
  "setPageReplacmentAlgorithmOPTIMAL v = v\<lparr>PageRepAlgoType := PG_REP_OPTIMAL\<rparr>"

definition enableModifiedBuffer :: "nat \<Rightarrow> fault_state \<Rightarrow> fault_state" where
  "enableModifiedBuffer enableIt fs = fs\<lparr>EnableModifiedBuffer := enableIt\<rparr>"

text \<open>The results of the two queries are \<^verbatim>\<open>uint8\<close>.\<close>

definition isModifiedBufferEnabled :: "fault_state \<Rightarrow> nat" where
  "isModifiedBufferEnabled fs = EnableModifiedBuffer fs mod 256"

definition enableBuffering :: "nat \<Rightarrow> fault_state \<Rightarrow> fault_state" where
  "enableBuffering enableIt fs = fs\<lparr>EnableBuffering := enableIt\<rparr>"

definition setModifiedBufferLength :: "nat \<Rightarrow> fault_state \<Rightarrow> fault_state" where
  "setModifiedBufferLength len fs = fs\<lparr>ModifiedBufferLength := len\<rparr>"

definition getModifiedBufferLength :: "fault_state \<Rightarrow> nat" where
  "getModifiedBufferLength fs = ModifiedBufferLength fs"

definition isBufferingEnabled :: "fault_state \<Rightarrow> nat" where
  "isBufferingEnabled fs = EnableBuffering fs mod 256"

definition fault_handler_init :: "fault_state \<Rightarrow> vm \<Rightarrow> fault_state \<times> vm" where
  "fault_handler_init fs v =
     (setModifiedBufferLength 1000 (enableModifiedBuffer 0 (enableBuffering 0 fs)), setPageReplacmentAlgorithmCLOCK v)"

section \<open>The optimal number of faults\<close>

abbreviation INT_MAX :: nat where "INT_MAX \<equiv> 2147483647"

fun next_use :: "nat \<Rightarrow> nat list \<Rightarrow> nat \<Rightarrow> nat" where
  "next_use page [] distance = INT_MAX"
| "next_use page (r # refs) distance =
     (if ROUNDDOWN r PAGE_SIZE = page then Suc distance else next_use page refs (Suc distance))"

fun opt_victim :: "nat list \<Rightarrow> nat list \<Rightarrow> nat \<Rightarrow> nat \<Rightarrow> nat \<Rightarrow> nat" where
  "opt_victim [] refs i best victim = victim"
| "opt_victim (p # ps) refs i best victim =
     (let distance = next_use p refs 0;
          (best, victim) = (if distance > best then (distance, i) else (best, victim))
      in if best = INT_MAX then victim else opt_victim ps refs (Suc i) best victim)"

text \<open>The walk over the reference stream; \<open>ws\<close> is the used part of the array.\<close>

fun opt_loop :: "nat \<Rightarrow> nat list \<Rightarrow> nat list \<Rightarrow> nat \<Rightarrow> nat" where
  "opt_loop maxWSSize ws [] faults = faults"
| "opt_loop maxWSSize ws (r # refs) faults =
     (let current_page = ROUNDDOWN r PAGE_SIZE in
      if current_page \<in> set ws then opt_loop maxWSSize ws refs faults
      else if length ws < maxWSSize then opt_loop maxWSSize (ws @ [current_page]) refs (Suc faults)
      else opt_loop maxWSSize (ws[opt_victim ws refs 0 0 0 := current_page]) refs (Suc faults))"

text \<open>
  An array of no elements is null, and so is an array the heap has no room for; writing to it is a fault in the kernel.
\<close>

definition get_optimal_num_faults :: "wse list \<Rightarrow> nat \<Rightarrow> nat list \<Rightarrow> kmem \<Rightarrow> (nat \<times> kmem) result" where
  "get_optimal_num_faults initWorkingSet maxWSSize pageReferences s =
     andThen (kmalloc (mul32 maxWSSize 4) s) (\<lambda>(p, s).
     if p = 0 \<and> (pageReferences \<noteq> [] \<or> initWorkingSet \<noteq> [] \<and> 0 < maxWSSize)
     then Inl (Cpu_trap ''working_set_beta3ty[current_size++]'')
     else
       (let faults = opt_loop maxWSSize (take maxWSSize (map virtual_address initWorkingSet)) pageReferences 0
        in andThen (kfree p s) (\<lambda>s. Inr (faults, s))))"

section \<open>Moving pages in and out\<close>

abbreviation FAULT_PERMS :: u32 where
  "FAULT_PERMS \<equiv> PERM_PRESENT OR PERM_WRITEABLE OR PERM_USER OR PERM_USED"

text \<open>A frame for the page at \<open>va\<close>, mapped, with what the page file keeps of it; a page that is neither there nor in the heap or the stack ends the environment.\<close>

definition bring_in :: "nat \<Rightarrow> vm \<Rightarrow> vm result" where
  "bring_in va v =
     andThen (allocate_frame (km v)) (\<lambda>(f, k).
     andThen (in_mem (map_frame create_page_table (upgdir v) f va FAULT_PERMS) (v\<lparr>km := k\<rparr>)) (\<lambda>v.
     andThen (pf_read_env_page va v) (\<lambda>(ret, v).
     if ret = E_PAGE_NOT_EXIST_IN_PF \<and> \<not> in_heap_or_stack va then Inl Env_exit else Inr v)))"

text \<open>The page of the victim leaves memory, and the page file gets it when it was modified.\<close>

definition send_out :: "nat \<Rightarrow> vm \<Rightarrow> vm result" where
  "send_out va v =
     andThen (pt_get_page_permissions (upgdir v) va (km v)) (\<lambda>perms.
     andThen (if perms AND PERM_MODIFIED \<noteq> 0 then andThen (pf_update_env_page va v) (\<lambda>(_, v). Inr v) else Inr v) (\<lambda>v.
     in_mem (unmap_frame (upgdir v) va) v))"

definition set_hand :: "nat \<Rightarrow> vm \<Rightarrow> vm" where
  "set_hand a v = upd_up (\<lambda>u. u\<lparr>page_last_WS_element := a\<rparr>) v"

definition set_WS :: "wse list \<Rightarrow> vm \<Rightarrow> vm" where
  "set_WS l v = upd_up (\<lambda>u. u\<lparr>page_WS_list := l\<rparr>) v"

text \<open>The element after \<open>a\<close>, round the end of the list.\<close>

definition ws_cycle :: "nat \<Rightarrow> wse list \<Rightarrow> nat" where
  "ws_cycle a l = (if ws_next a l = 0 then ws_first l else ws_next a l)"

section \<open>Placement\<close>

definition place_page :: "nat \<Rightarrow> vm \<Rightarrow> vm result" where
  "place_page fault_va v =
     (let va = ROUNDDOWN fault_va PAGE_SIZE in
      andThen (bring_in va v) (\<lambda>v.
      andThen (env_page_ws_list_create_element va v) (\<lambda>(w, v).
      andThen (if hand v = 0 then list_insert_tail w (WS v)
               else (case ws_elem (hand v) (WS v) of
                       None \<Rightarrow> Inl (Corrupted ''LIST_INSERT_BEFORE'')
                     | Some h \<Rightarrow> list_insert_before h w (WS v))) (\<lambda>l.
      (let v = set_WS l v in
       Inr (if length (WS v) = page_WS_max_size (up v) \<and> hand v = 0 then set_hand (ws_first (WS v)) v else v))))))"

section \<open>CLOCK\<close>

text \<open>One look at the element under the hand: a victim, or its used bit is cleared and the hand moves on.\<close>

definition clock_step :: "vm \<Rightarrow> (wse option \<times> vm) result" where
  "clock_step v =
     (case ws_elem (hand v) (WS v) of
        None \<Rightarrow> Inl (Cpu_trap ''victim_element->virtual_address'')
      | Some w \<Rightarrow>
          andThen (pt_get_page_permissions (upgdir v) (virtual_address w) (km v)) (\<lambda>perms.
          if perms AND PERM_USED = 0 then Inr (Some w, v)
          else
            andThen (in_mem (pt_set_page_permissions (upgdir v) (virtual_address w) 0 PERM_USED) v) (\<lambda>v.
            Inr (None, set_hand (ws_cycle (wse_addr w) (WS v)) v))))"

text \<open>The loop \<^verbatim>\<open>while(1)\<close>; \<open>Spins\<close> if \<open>n\<close> turns are not enough.\<close>

fun clock_loop :: "nat \<Rightarrow> vm \<Rightarrow> (wse \<times> vm) result" where
  "clock_loop 0 v = Inl Spins"
| "clock_loop (Suc n) v =
     andThen (clock_step v) (\<lambda>(r, v).
     (case r of Some w \<Rightarrow> Inr (w, v) | None \<Rightarrow> clock_loop n v))"

definition clock_replacement :: "nat \<Rightarrow> vm \<Rightarrow> vm result" where
  "clock_replacement fault_va v =
     andThen (clock_loop (Suc (length (WS v))) v) (\<lambda>(w, v).
     andThen (get_frame_info (upgdir v) (virtual_address w) (km v)) (\<lambda>_.
     andThen (send_out (virtual_address w) v) (\<lambda>v.
     (let va = ROUNDDOWN fault_va PAGE_SIZE in
      andThen (bring_in va v) (\<lambda>v.
      Inr (set_hand (ws_cycle (wse_addr w) (WS v))
            (set_WS (upd_elem (wse_addr w) (\<lambda>w. w\<lparr>virtual_address := va\<rparr>) (WS v)) v)))))))"

section \<open>LRU with ageing\<close>

fun lru_loop :: "wse list \<Rightarrow> nat \<Rightarrow> wse option \<Rightarrow> wse option" where
  "lru_loop [] min_time_stamp victim = victim"
| "lru_loop (w # l) min_time_stamp victim =
     (if time_stamp w < min_time_stamp then lru_loop l (time_stamp w) (Some w) else lru_loop l min_time_stamp victim)"

definition lru_victim :: "wse list \<Rightarrow> wse option" where
  "lru_victim l = lru_loop l 0xFFFFFFFF None"

definition lru_replacement :: "nat \<Rightarrow> vm \<Rightarrow> vm result" where
  "lru_replacement fault_va v =
     (case lru_victim (WS v) of
        None \<Rightarrow> Inl (Panic '' No victim found in working set, for LRU.'')
      | Some w \<Rightarrow>
          andThen (get_frame_info (upgdir v) (virtual_address w) (km v)) (\<lambda>(fi, _).
          if fi = None then Inl (Panic ''Victim frame info not found, for LRU.'')
          else
            andThen (send_out (virtual_address w) v) (\<lambda>v.
            (let va = ROUNDDOWN fault_va PAGE_SIZE in
             andThen (bring_in va v) (\<lambda>v.
             (let w' = w\<lparr>virtual_address := va, time_stamp := 0x80000000\<rparr>;
                  l = upd_elem (wse_addr w) (\<lambda>_. w') (WS v)
              in andThen (list_remove w' l) (\<lambda>l.
                 andThen (list_insert_tail w' l) (\<lambda>l.
                 (let v = set_WS l v;
                      v = set_hand (if length (WS v) = page_WS_max_size (up v) then ws_first (WS v) else 0) v
                  in in_mem (pt_set_page_permissions (upgdir v) va PERM_USED 0) v)))))))))"

section \<open>Modified CLOCK\<close>

text \<open>
  One \<^verbatim>\<open>do ... while (current != start)\<close> loop: the first element whose permissions satisfy \<open>P\<close>; with \<open>clear\<close> the used
  bits of the elements passed over are cleared. \<open>Spins\<close> if \<open>n\<close> turns are not enough.
\<close>

fun mclock_loop :: "(u32 \<Rightarrow> bool) \<Rightarrow> bool \<Rightarrow> nat \<Rightarrow> nat \<Rightarrow> nat \<Rightarrow> vm \<Rightarrow> (wse option \<times> vm) result" where
  "mclock_loop P clear start 0 current v = Inl Spins"
| "mclock_loop P clear start (Suc n) current v =
     (case ws_elem current (WS v) of
        None \<Rightarrow> Inl (Cpu_trap ''current->virtual_address'')
      | Some w \<Rightarrow>
          andThen (pt_get_page_permissions (upgdir v) (virtual_address w) (km v)) (\<lambda>perms.
          if P perms then Inr (Some w, v)
          else
            andThen (if clear then in_mem (pt_set_page_permissions (upgdir v) (virtual_address w) 0 PERM_USED) v else Inr v) (\<lambda>v.
            (let current = ws_cycle current (WS v) in
             if current = start then Inr (None, v) else mclock_loop P clear start n current v))))"

definition not_used_not_modified :: "u32 \<Rightarrow> bool" where
  "not_used_not_modified perms \<longleftrightarrow> perms AND PERM_USED = 0 \<and> perms AND PERM_MODIFIED = 0"

definition not_used :: "u32 \<Rightarrow> bool" where
  "not_used perms \<longleftrightarrow> perms AND PERM_USED = 0"

definition mclock_victim :: "nat \<Rightarrow> vm \<Rightarrow> (wse \<times> vm) result" where
  "mclock_victim start v =
     andThen (mclock_loop not_used_not_modified False start (length (WS v)) start v) (\<lambda>(r, v).
     (case r of Some w \<Rightarrow> Inr (w, v) | None \<Rightarrow>
     andThen (mclock_loop not_used True start (length (WS v)) start v) (\<lambda>(r, v).
     (case r of Some w \<Rightarrow> Inr (w, v) | None \<Rightarrow>
     andThen (mclock_loop not_used_not_modified False start (length (WS v)) start v) (\<lambda>(r, v).
     (case r of Some w \<Rightarrow> Inr (w, v) | None \<Rightarrow>
       (case ws_elem start (WS v) of
          None \<Rightarrow> Inl (Cpu_trap ''victim_element->virtual_address'')
        | Some w \<Rightarrow> Inr (w, v))))))))"

definition modified_clock_replacement :: "nat \<Rightarrow> vm \<Rightarrow> vm result" where
  "modified_clock_replacement fault_va v =
     (let current = (if hand v = 0 then ws_first (WS v) else hand v) in
      if current = 0 then Inl (Panic ''Modified Clock: Empty working set during replacement!'')
      else
        andThen (mclock_victim current v) (\<lambda>(w, v).
        andThen (get_frame_info (upgdir v) (virtual_address w) (km v)) (\<lambda>(fi, _).
        if fi = None then Inl (Panic ''Victim frame info not found, in modified Clock.'')
        else
          andThen (send_out (virtual_address w) v) (\<lambda>v.
          (let va = ROUNDDOWN fault_va PAGE_SIZE in
           andThen (bring_in va v) (\<lambda>v.
           (let v = set_WS (upd_elem (wse_addr w) (\<lambda>w. w\<lparr>virtual_address := va\<rparr>) (WS v)) v;
                v = set_hand (ws_cycle (wse_addr w) (WS v)) v
            in in_mem (pt_set_page_permissions (upgdir v) va PERM_USED 0) v)))))))"

section \<open>The reference stream of the optimal strategy\<close>

abbreviation SIZEOF_REF :: nat where "SIZEOF_REF \<equiv> 12"

fun clear_present_loop :: "wse list \<Rightarrow> vm \<Rightarrow> vm result" where
  "clear_present_loop [] v = Inr v"
| "clear_present_loop (w # l) v =
     andThen (in_mem (pt_set_page_permissions (upgdir v) (virtual_address w) 0 PERM_PRESENT) v) (clear_present_loop l)"

fun drop_active_loop :: "wse list \<Rightarrow> vm \<Rightarrow> vm result" where
  "drop_active_loop [] v = Inr v"
| "drop_active_loop (w # l) v =
     andThen (in_mem (pt_set_page_permissions (upgdir v) (virtual_address w) 0 PERM_PRESENT) v) (\<lambda>v.
     andThen (list_remove w (ActiveList (up v))) (\<lambda>al.
     andThen (in_mem (kfree (wse_addr w)) (upd_up (\<lambda>u. u\<lparr>ActiveList := al\<rparr>) v)) (drop_active_loop l)))"

definition load_for_optimal :: "nat \<Rightarrow> vm \<Rightarrow> vm result" where
  "load_for_optimal fault_va v =
     andThen (get_frame_info (upgdir v) fault_va (km v)) (\<lambda>(fi, _).
     if fi \<noteq> None then Inr v
     else
       andThen (allocate_frame (km v)) (\<lambda>(f, k).
       andThen (in_mem (map_frame create_page_table (upgdir v) f fault_va (PERM_USER OR PERM_WRITEABLE OR PERM_PRESENT))
                  (v\<lparr>km := k\<rparr>)) (\<lambda>v.
       andThen (pf_read_env_page fault_va v) (\<lambda>(ret, v).
       if ret = E_PAGE_NOT_EXIST_IN_PF \<and> \<not> in_heap_or_stack fault_va then Inl Env_exit else Inr v))))"

definition optimal_reference :: "nat \<Rightarrow> vm \<Rightarrow> vm result" where
  "optimal_reference fault_va v =
     andThen (kmalloc SIZEOF_REF (km v)) (\<lambda>(p, k).
     if p = 0 then Inl (Cpu_trap ''ref_geded->virtual_address'')
     else
       (let v = upd_up (\<lambda>u. u\<lparr>referenceStreamList := referenceStreamList u @ [ROUNDDOWN fault_va PAGE_SIZE]\<rparr>) (v\<lparr>km := k\<rparr>) in
        andThen (if ActiveList (up v) = [] \<and> page_WS_max_size (up v) < 1000
                 then clear_present_loop (WS v) v else Inr v) (\<lambda>v.
        andThen (load_for_optimal fault_va v) (\<lambda>v.
        if \<exists>w \<in> set (ActiveList (up v)). same_page (virtual_address w) fault_va
        then in_mem (pt_set_page_permissions (upgdir v) fault_va PERM_PRESENT 0) v
        else
          andThen (if length (ActiveList (up v)) \<ge> page_WS_max_size (up v)
                   then drop_active_loop (ActiveList (up v)) v else Inr v) (\<lambda>v.
          andThen (env_page_ws_list_create_element fault_va v) (\<lambda>(w, v).
          andThen (list_insert_tail w (ActiveList (up v))) (\<lambda>al.
          in_mem (pt_set_page_permissions (upgdir v) fault_va PERM_PRESENT 0)
            (upd_up (\<lambda>u. u\<lparr>ActiveList := al\<rparr>) v))))))))"

section \<open>The handlers\<close>

definition page_fault_handler :: "nat \<Rightarrow> vm \<Rightarrow> vm result" where
  "page_fault_handler fault_va v =
     (if PageRepAlgoType v = PG_REP_OPTIMAL then optimal_reference fault_va v
      else if length (WS v) < page_WS_max_size (up v) then place_page fault_va v
      else if PageRepAlgoType v = PG_REP_CLOCK then clock_replacement fault_va v
      else if PageRepAlgoType v = PG_REP_LRU_TIME_APPROX then lru_replacement fault_va v
      else if PageRepAlgoType v = PG_REP_MODIFIEDCLOCK then modified_clock_replacement fault_va v
      else Inr v)"

definition page_fault_handler_with_buffering :: "nat \<Rightarrow> vm \<Rightarrow> vm result" where
  "page_fault_handler_with_buffering fault_va v = Inl (Panic ''this function is not required...!!'')"

definition table_fault_handler :: "nat \<Rightarrow> vm \<Rightarrow> vm result" where
  "table_fault_handler fault_va v = in_mem (\<lambda>k. andThen (create_page_table (upgdir v) fault_va k) (\<lambda>(_, k). Inr k)) v"

text \<open>What the processor and the current CPU tell of a fault; \<open>cur_env\<close> 0 is no environment.\<close>

record trap_info =
  fault_address :: nat     \<comment> \<open>\<^verbatim>\<open>rcr2()\<close>\<close>
  tf_eip :: nat
  tf_cs :: nat
  cur_env :: nat
  kstack :: nat
  cpu_stack :: nat

definition stack_checks :: "bool \<Rightarrow> trap_info \<Rightarrow> unit result" where
  "stack_checks userTrap tf =
     (let va = fault_address tf in
      if \<not> userTrap then
        (if cur_env tf \<noteq> 0 \<and> va \<ge> kstack tf \<and> va < add32 (kstack tf) PAGE_SIZE
         then Inl (Panic ''User Kernel Stack: overflow exception!'')
         else if va \<ge> cpu_stack tf \<and> va < add32 (cpu_stack tf) PAGE_SIZE
         then Inl (Panic ''Sched Kernel Stack of CPU: overflow exception!'')
         else if va \<ge> KERNEL_HEAP_MAX then Inl (Panic ''Kernel: heap overflow exception!'')
         else Inr ())
      else if va \<ge> USTACKTOP \<and> va < USER_TOP then Inl (Panic ''User: stack underflow exception!'')
      else Inr ())"

text \<open>The checks on a user's pointer: the environment exits, or the fault is handled.\<close>

definition check_user_pointer :: "nat \<Rightarrow> vm \<Rightarrow> unit result" where
  "check_user_pointer va v =
     andThen (pt_get_page_permissions (upgdir v) va (km v)) (\<lambda>perms.
     if USER_HEAP_START \<le> va \<and> va < USER_HEAP_MAX \<and> perms AND PERM_UHPAGE = 0 then Inl Env_exit
     else if va \<ge> USTACKTOP then Inl Env_exit
     else if perms AND PERM_PRESENT \<noteq> 0 \<and> perms AND PERM_WRITEABLE = 0 then Inl Env_exit
     else Inr ())"

definition repeated_fault :: "trap_info \<Rightarrow> fault_state \<Rightarrow> fault_state result" where
  "repeated_fault tf fs =
     andThen
       (if last_fault_va fs = fault_address tf \<and> last_faulted_env fs = cur_env tf then
          (let n = num_repeated_fault fs + 1 in
           if n = 3 then Inl (Panic ''Failed to handle fault!'') else Inr (fs\<lparr>num_repeated_fault := n\<rparr>))
        else Inr (fs\<lparr>before_last_fault_va := last_fault_va fs, before_last_eip := last_eip fs, num_repeated_fault := 0\<rparr>)) (\<lambda>fs.
     Inr (fs\<lparr>last_eip := tf_eip tf, last_fault_va := fault_address tf, last_faulted_env := cur_env tf\<rparr>))"

definition fault_handler :: "trap_info \<Rightarrow> fault_state \<Rightarrow> vm \<Rightarrow> (fault_state \<times> vm) result" where
  "fault_handler tf fs v =
     (let fault_va = fault_address tf; userTrap = (tf_cs tf mod 4 = 3) in
      andThen (repeated_fault tf fs) (\<lambda>fs.
      andThen (stack_checks userTrap tf) (\<lambda>_.
      if cur_env tf = 0 then Inl (Panic ''faulted env == NULL!'')
      else if directories (km v) (upgdir v) (PDX fault_va) AND PERM_PRESENT \<noteq> PERM_PRESENT then
        andThen (table_fault_handler fault_va (upd_up (\<lambda>u. u\<lparr>tableFaultsCounter := add32 (tableFaultsCounter u) 1\<rparr>) v)) (\<lambda>v.
        Inr (fs, v))
      else
        andThen (if userTrap then check_user_pointer fault_va v else Inr ()) (\<lambda>_.
        andThen (pt_get_page_permissions (upgdir v) fault_va (km v)) (\<lambda>perms.
        if perms AND PERM_PRESENT \<noteq> 0
        then Inl (Panic ''Page is exist! page fault due to violation of ACCESS RIGHTS'')
        else
          (let v = upd_up (\<lambda>u. u\<lparr>pageFaultsCounter := add32 (pageFaultsCounter u) 1\<rparr>) v in
           andThen (if isBufferingEnabled fs \<noteq> 0 then page_fault_handler_with_buffering fault_va v
                    else page_fault_handler fault_va v) (\<lambda>v. Inr (fs, v)))))))) "

end
