(* ===== verification/Replacement.thy ===== *)
theory Replacement
  imports Fault_Handler
begin

text \<open>
  Page replacement: which page CLOCK, modified CLOCK and LRU with ageing choose, that their loops end, and what a
  replacement does to the working set (\<^verbatim>\<open>src/kern/trap/fault_handler.c\<close>, \<^verbatim>\<open>update_WS_time_stamps\<close> of
  \<^verbatim>\<open>src/kern/cpu/sched.c\<close>).
\<close>

unbundle bit_operations_syntax

section \<open>The page table entries of the working set\<close>

text \<open>The page table of \<open>va\<close> (0 if there is none) and the entry of \<open>va\<close> in it.\<close>

definition utable :: "vm \<Rightarrow> nat \<Rightarrow> nat" where
  "utable v va = (case get_page_table (upgdir v) va (km v) of Inl _ \<Rightarrow> 0 | Inr (_, t) \<Rightarrow> t)"

definition upte :: "vm \<Rightarrow> nat \<Rightarrow> u32" where
  "upte v va = tables (km v) (utable v va) (PTX va)"

definition has_table :: "vm \<Rightarrow> nat \<Rightarrow> bool" where
  "has_table v va \<longleftrightarrow> get_page_table (upgdir v) va (km v) = Inr (TABLE_IN_MEMORY, utable v va) \<and> utable v va \<noteq> 0"

text \<open>The elements have distinct addresses, none of them null; each page has a table, and no two pages share an entry.\<close>

definition ws_ok :: "vm \<Rightarrow> bool" where
  "ws_ok v \<longleftrightarrow> distinct (map wse_addr (WS v)) \<and> (\<forall>w \<in> set (WS v). wse_addr w \<noteq> 0 \<and> has_table v (virtual_address w)) \<and>
     (\<forall>w \<in> set (WS v). \<forall>x \<in> set (WS v). utable v (virtual_address w) = utable v (virtual_address x) \<and>
        PTX (virtual_address w) = PTX (virtual_address x) \<longrightarrow> w = x)"

definition used :: "vm \<Rightarrow> wse \<Rightarrow> bool" where
  "used v w \<longleftrightarrow> upte v (virtual_address w) AND PERM_USED \<noteq> 0"

definition dirty :: "vm \<Rightarrow> wse \<Rightarrow> bool" where
  "dirty v w \<longleftrightarrow> upte v (virtual_address w) AND PERM_MODIFIED \<noteq> 0"

definition set_pte :: "nat \<Rightarrow> u32 \<Rightarrow> vm \<Rightarrow> vm" where
  "set_pte va e v = v\<lparr>km := set_entry (utable v va) (PTX va) e (km v)\<rparr>"

definition clear_used :: "wse \<Rightarrow> vm \<Rightarrow> vm" where
  "clear_used w v = set_pte (virtual_address w) (upte v (virtual_address w) AND NOT PERM_USED) v"

lemma set_pte_simps [simp]:
  "up (set_pte va e v) = up v"
  "utable (set_pte va e v) = utable v"
  "has_table (set_pte va e v) = has_table v"
  "upte (set_pte va e v) a = (if utable v a = utable v va \<and> PTX a = PTX va then e else upte v a)"
  by (auto simp: set_pte_def utable_def has_table_def upte_def fun_eq_iff tables_set_entry)

lemma clear_used_simps [simp]:
  "up (clear_used w v) = up v"
  "utable (clear_used w v) = utable v"
  "has_table (clear_used w v) = has_table v"
  "ws_ok (clear_used w v) = ws_ok v"
  by (simp_all add: clear_used_def ws_ok_def)

lemma mask_used: "(e AND 0xFFF) AND PERM_USED = (e AND PERM_USED :: u32)" "(e AND 0xFFF) AND PERM_MODIFIED = (e AND PERM_MODIFIED :: u32)"
  by (simp_all add: and.assoc)

lemma get_permissions:
  "has_table v va \<Longrightarrow> pt_get_page_permissions (upgdir v) va (km v) = Inr (upte v va AND 0xFFF)"
  by (simp add: has_table_def pt_get_page_permissions_def upte_def)

lemma set_permissions:
  "has_table v va \<Longrightarrow> in_mem (pt_set_page_permissions (upgdir v) va on off) v = Inr (set_pte va ((upte v va OR on) AND NOT off) v)"
  by (simp add: has_table_def in_mem_def pt_set_page_permissions_def set_pte_def upte_def tables_set_entry)

lemma clear_permissions:
  "has_table v (virtual_address w) \<Longrightarrow>
     in_mem (pt_set_page_permissions (upgdir v) (virtual_address w) 0 PERM_USED) v = Inr (clear_used w v)"
  by (simp add: set_permissions clear_used_def)

lemma used_clear_used:
  assumes "ws_ok v" "w \<in> set (WS v)" "x \<in> set (WS v)"
  shows "used (clear_used w v) x \<longleftrightarrow> used v x \<and> x \<noteq> w" and "dirty (clear_used w v) x = dirty v x"
proof -
  have i: "utable v (virtual_address x) = utable v (virtual_address w) \<and> PTX (virtual_address x) = PTX (virtual_address w) \<longleftrightarrow> x = w"
    using assms by (auto simp: ws_ok_def)
  have "(e AND NOT PERM_USED) AND PERM_USED = 0" "(e AND NOT PERM_USED) AND PERM_MODIFIED = e AND PERM_MODIFIED" for e :: u32
    by (simp_all add: and.assoc)
  then show "used (clear_used w v) x \<longleftrightarrow> used v x \<and> x \<noteq> w" "dirty (clear_used w v) x = dirty v x"
    by (auto simp: used_def dirty_def clear_used_def i)
qed

section \<open>Going round the list\<close>

lemma ws_elem_nth: "distinct (map wse_addr l) \<Longrightarrow> i < length l \<Longrightarrow> ws_elem (wse_addr (l ! i)) l = Some (l ! i)"
proof (induction l arbitrary: i)
  case (Cons w l)
  show ?case
  proof (cases i)
    case (Suc j)
    then have "wse_addr w \<noteq> wse_addr (l ! j)" using Cons.prems by auto
    then show ?thesis using Cons Suc by (simp add: ws_elem_def)
  qed (simp add: ws_elem_def)
qed simp

lemma ws_next_nth:
  "distinct (map wse_addr l) \<Longrightarrow> i < length l \<Longrightarrow> ws_next (wse_addr (l ! i)) l = (if Suc i < length l then wse_addr (l ! Suc i) else 0)"
proof (induction l arbitrary: i)
  case (Cons w l)
  show ?case
  proof (cases i)
    case 0
    then show ?thesis by (cases l) auto
  next
    case (Suc j)
    then have "wse_addr w \<noteq> wse_addr (l ! j)" "l \<noteq> []" using Cons.prems by auto
    then have "ws_next (wse_addr (l ! j)) (w # l) = ws_next (wse_addr (l ! j)) l" by (cases l) auto
    then show ?thesis using Cons Suc by simp
  qed
qed simp

definition at :: "wse list \<Rightarrow> nat \<Rightarrow> wse" where
  "at l i = l ! (i mod length l)"

lemma at_mem [simp]: "l \<noteq> [] \<Longrightarrow> at l i \<in> set l"
  by (simp add: at_def)

lemma ws_elem_at: "distinct (map wse_addr l) \<Longrightarrow> l \<noteq> [] \<Longrightarrow> ws_elem (wse_addr (at l i)) l = Some (at l i)"
  by (simp add: at_def ws_elem_nth)

lemma ws_cycle_at:
  assumes "distinct (map wse_addr l)" "l \<noteq> []" "\<forall>w \<in> set l. wse_addr w \<noteq> 0"
  shows "ws_cycle (wse_addr (at l i)) l = wse_addr (at l (Suc i))"
proof -
  let ?j = "i mod length l"
  have j: "?j < length l" using assms(2) by simp
  have n: "ws_next (wse_addr (at l i)) l = (if Suc ?j < length l then wse_addr (l ! Suc ?j) else 0)"
    using ws_next_nth [OF assms(1) j] by (simp add: at_def)
  show ?thesis
  proof (cases "Suc ?j < length l")
    case True
    then have "Suc i mod length l = Suc ?j" by (simp add: mod_Suc)
    moreover have "wse_addr (l ! Suc ?j) \<noteq> 0" using assms(3) True by simp
    ultimately show ?thesis using n True by (simp add: ws_cycle_def at_def)
  next
    case False
    then have "Suc i mod length l = 0" using j by (simp add: mod_Suc)
    then show ?thesis using n False assms(2) by (cases l) (simp_all add: ws_cycle_def at_def ws_first_def)
  qed
qed

lemma at_eq: "distinct l \<Longrightarrow> 0 < d \<Longrightarrow> d < length l \<Longrightarrow> at l (i + d) \<noteq> at l i"
proof -
  assume a: "distinct l" "0 < d" "d < length l"
  have "(i + d) mod length l \<noteq> i mod length l"
  proof
    assume "(i + d) mod length l = i mod length l"
    then have "length l dvd d" by (simp add: mod_eq_dvd_iff_nat)
    then show False using a by (auto dest: dvd_imp_le)
  qed
  moreover have "i mod length l < length l" "(i + d) mod length l < length l" using a(2,3) by (auto intro: mod_less_divisor)
  ultimately show ?thesis using nth_eq_iff_index_eq [OF a(1)] by (simp add: at_def)
qed

lemma at_round: "at l (i + length l) = at l i"
  by (simp add: at_def)

section \<open>CLOCK\<close>

lemma set_hand_simps [simp]:
  "up (set_hand a v) = (up v)\<lparr>page_last_WS_element := a\<rparr>" "utable (set_hand a v) = utable v" "has_table (set_hand a v) = has_table v"
  "upte (set_hand a v) = upte v" "used (set_hand a v) = used v" "dirty (set_hand a v) = dirty v" "ws_ok (set_hand a v) = ws_ok v"
  "km (set_hand a v) = km v"
  by (simp_all add: set_hand_def upd_up_def utable_def has_table_def upte_def used_def dirty_def ws_ok_def fun_eq_iff)

lemma ws_okD:
  assumes "ws_ok v"
  shows "distinct (map wse_addr (WS v))" "distinct (WS v)" "\<forall>w \<in> set (WS v). wse_addr w \<noteq> 0"
    "w \<in> set (WS v) \<Longrightarrow> has_table v (virtual_address w)"
  using assms by (auto simp: ws_ok_def distinct_map)

lemma clock_step_eq:
  assumes "ws_ok v" "WS v \<noteq> []" "hand v = wse_addr (at (WS v) i)"
  shows "clock_step v =
    (let w = at (WS v) i in
     if used v w then Inr (None, set_hand (wse_addr (at (WS v) (Suc i))) (clear_used w v)) else Inr (Some w, v))"
proof -
  note ok = ws_okD [OF assms(1)]
  have "has_table v (virtual_address (at (WS v) i))" using ok(4) assms(2) by simp
  then show ?thesis
    using assms(3) by (simp add: clock_step_def ws_elem_at [OF ok(1) assms(2)] get_permissions clear_permissions mask_used used_def
        ws_cycle_at [OF ok(1) assms(2) ok(3)] Let_def)
qed

text \<open>The elements looked at before the victim, \<open>m\<close> of them from the hand on, were all used.\<close>

lemma clock_loop_scan:
  assumes "ws_ok v" "WS v \<noteq> []" "hand v = wse_addr (at (WS v) i)" "m \<le> length (WS v)" "m < k"
    "\<forall>j < m. used v (at (WS v) (i + j))" "m < length (WS v) \<longrightarrow> \<not> used v (at (WS v) (i + m))"
  shows "\<exists>v'. clock_loop k v = Inr (at (WS v) (i + m), v') \<and> ws_ok v' \<and> WS v' = WS v \<and> up v' = (up v)\<lparr>page_last_WS_element := hand v'\<rparr> \<and>
    hand v' = wse_addr (at (WS v) (i + m)) \<and>
    (\<forall>w \<in> set (WS v). used v' w \<longleftrightarrow> used v w \<and> w \<notin> (\<lambda>j. at (WS v) (i + j)) ` {..<m})"
  using assms
proof (induction m arbitrary: i k v)
  case 0
  obtain k' where "k = Suc k'" using 0(5) by (cases k) auto
  moreover have "\<not> used v (at (WS v) i)" using 0(2,7) by simp
  moreover have "(up v)\<lparr>page_last_WS_element := hand v\<rparr> = up v" by simp
  ultimately show ?case using 0(1,3) clock_step_eq [OF 0(1-3)] by (intro exI [of _ v]) (simp add: Let_def)
next
  case (Suc m)
  let ?l = "WS v" and ?w = "at (WS v) i"
  obtain k' where k: "k = Suc k'" using Suc.prems(5) by (cases k) auto
  have w: "?w \<in> set ?l" using Suc.prems(2) by simp
  have u: "used v ?w" using Suc.prems(6) by auto
  let ?v = "set_hand (wse_addr (at ?l (Suc i))) (clear_used ?w v)"
  have s: "clock_step v = Inr (None, ?v)" using clock_step_eq [OF Suc.prems(1-3)] u by (simp add: Let_def)
  have uv: "used ?v x \<longleftrightarrow> used v x \<and> x \<noteq> ?w" if "x \<in> set ?l" for x
    using used_clear_used [OF Suc.prems(1) w that] by simp
  have nxt: "at ?l (Suc i + j) \<noteq> ?w" if "Suc j < length ?l" for j
    using at_eq [OF ws_okD(2) [OF Suc.prems(1)], of "Suc j" i] that by simp
  have 6: "\<forall>j < m. used ?v (at ?l (Suc i + j))"
  proof (intro allI impI)
    fix j assume j: "j < m"
    then have "used v (at ?l (Suc i + j))" using Suc.prems(6) [rule_format, of "Suc j"] by simp
    then show "used ?v (at ?l (Suc i + j))" using uv Suc.prems(2,4) nxt j by simp
  qed
  have 7: "\<not> used ?v (at ?l (Suc i + m))"
  proof (cases "Suc m < length ?l")
    case True
    then show ?thesis using Suc.prems(2,7) uv by simp
  next
    case False
    then have "length ?l = Suc m" using Suc.prems(4) by simp
    then have "at ?l (Suc i + m) = ?w" using at_round [of ?l i] by simp
    then show ?thesis using uv [OF w] by simp
  qed
  have "\<exists>v'. clock_loop k' ?v = Inr (at (WS ?v) (Suc i + m), v') \<and> ws_ok v' \<and> WS v' = WS ?v \<and> up v' = (up ?v)\<lparr>page_last_WS_element := hand v'\<rparr> \<and>
    hand v' = wse_addr (at (WS ?v) (Suc i + m)) \<and>
    (\<forall>w \<in> set (WS ?v). used v' w \<longleftrightarrow> used ?v w \<and> w \<notin> (\<lambda>j. at (WS ?v) (Suc i + j)) ` {..<m})"
    using Suc.prems(1,2,4,5) 6 7 k by (intro Suc.IH) simp_all
  then obtain v' where v': "clock_loop k' ?v = Inr (at ?l (Suc i + m), v')" "ws_ok v'" "WS v' = ?l" "up v' = (up v)\<lparr>page_last_WS_element := hand v'\<rparr>"
      "hand v' = wse_addr (at ?l (Suc i + m))"
      "\<forall>w \<in> set ?l. used v' w \<longleftrightarrow> used ?v w \<and> w \<notin> (\<lambda>j. at ?l (Suc i + j)) ` {..<m}"
    by auto
  have im: "(\<lambda>j. at ?l (i + j)) ` {..<Suc m} = insert ?w ((\<lambda>j. at ?l (Suc i + j)) ` {..<m})"
    by (simp add: lessThan_Suc_eq_insert_0 image_image)
  show ?case
    using v' uv by (intro exI [of _ v']) (auto simp: k s im)
qed

text \<open>
  C10. The \<^verbatim>\<open>while(1)\<close> loop of CLOCK ends after at most one turn more than the working set has pages. The victim is
  the first page from the hand on whose used bit is clear; if all are set, the page under the hand. The used bits of the pages
  passed over, and no others, are cleared; the hand stands on the victim and the working set is unchanged.
\<close>

theorem clock_terminates:
  assumes "ws_ok v" and "i < length (WS v)" and "hand v = wse_addr (WS v ! i)"
  shows "\<exists>m v'. m \<le> length (WS v) \<and> clock_loop (Suc (length (WS v))) v = Inr (at (WS v) (i + m), v') \<and>
           (\<forall>j < m. used v (at (WS v) (i + j))) \<and> (m < length (WS v) \<longrightarrow> \<not> used v (at (WS v) (i + m))) \<and>
           (m = length (WS v) \<longrightarrow> at (WS v) (i + m) = WS v ! i) \<and>
           WS v' = WS v \<and> hand v' = wse_addr (at (WS v) (i + m)) \<and>
           (\<forall>w \<in> set (WS v). used v' w \<longleftrightarrow> used v w \<and> w \<notin> (\<lambda>j. at (WS v) (i + j)) ` {..<m})"
proof -
  let ?l = "WS v"
  have ne: "?l \<noteq> []" and h: "hand v = wse_addr (at ?l i)" using assms by (auto simp: at_def)
  define m where "m = (LEAST m. m = length ?l \<or> \<not> used v (at ?l (i + m)))"
  have le: "m \<le> length ?l" unfolding m_def by (rule Least_le) simp
  have at_m: "m = length ?l \<or> \<not> used v (at ?l (i + m))" unfolding m_def by (rule LeastI [of _ "length ?l"]) simp
  have before: "\<forall>j < m. used v (at ?l (i + j))" using not_less_Least unfolding m_def by blast
  have "at ?l (i + m) = ?l ! i" if "m = length ?l" using that assms(2) by (simp add: at_round at_def)
  then show ?thesis
    using clock_loop_scan [OF assms(1) ne h le _ before, of "Suc (length ?l)"] at_m le before
    by (intro exI [of _ m]) fastforce
qed

lemma sample_table: "0x80000000 \<le> va \<Longrightarrow> va < 0x80400000 \<Longrightarrow>
    get_page_table (upgdir sample_vm) va (km sample_vm) = Inr (TABLE_IN_MEMORY, 0xF6001000)"
proof -
  assume "0x80000000 \<le> va" "va < 0x80400000"
  then have "PDX va = 512" "\<not> CHECK_IF_KERNEL_ADDRESS va" by (auto simp: PDX_def CHECK_IF_KERNEL_ADDRESS_def)
  then show ?thesis
    by (simp add: get_page_table_def sample_vm_def sample_kmem_def bare_kmem_def kheap_virtual_address_def
        to_frame_info_def PPN_def EXTRACT_ADDRESS_def in_heap_region_def zero_frame_info_def u32_simps)
qed

lemma sample_ws: "WS sample_vm = [sample_wse 0, sample_wse 1, sample_wse 2]" "hand sample_vm = 0xF6000000"
  by (simp_all add: sample_vm_def)

lemma sample_utable:
  assumes "i < 3"
  shows "has_table sample_vm (virtual_address (sample_wse i))" "utable sample_vm (virtual_address (sample_wse i)) = 0xF6001000"
    "PTX (virtual_address (sample_wse i)) = i" "upte sample_vm (virtual_address (sample_wse i)) = tables sample_kmem 0xF6001000 i"
proof -
  have "get_page_table (upgdir sample_vm) (virtual_address (sample_wse i)) (km sample_vm) = Inr (TABLE_IN_MEMORY, 0xF6001000)"
    using assms by (intro sample_table) (simp_all add: sample_wse_def)
  then show h: "has_table sample_vm (virtual_address (sample_wse i))" "utable sample_vm (virtual_address (sample_wse i)) = 0xF6001000"
    by (simp_all add: has_table_def utable_def)
  show x: "PTX (virtual_address (sample_wse i)) = i"
    using assms by (auto simp: PTX_def sample_wse_def numeral_3_eq_3 less_Suc_eq)
  show "upte sample_vm (virtual_address (sample_wse i)) = tables sample_kmem 0xF6001000 i"
    by (simp add: upte_def h x) (simp add: sample_vm_def)
qed

lemma sample_ws_ok: "ws_ok sample_vm"
  unfolding ws_ok_def sample_ws using sample_utable [of 0] sample_utable [of 1] sample_utable [of 2]
  by (simp add: sample_wse_def)

lemma sample_used: "used sample_vm (sample_wse 0)" "used sample_vm (sample_wse 1)" "\<not> used sample_vm (sample_wse 2)"
  using sample_utable(4) [of 0] sample_utable(4) [of 1] sample_utable(4) [of 2]
  by (simp_all add: used_def sample_kmem_def)

theorem clock_terminates_witness:
  "\<exists>v'. clock_loop 4 sample_vm = Inr (sample_wse 2, v') \<and> \<not> used v' (sample_wse 0) \<and> hand v' = 0xF6000040"
proof -
  have h: "hand sample_vm = wse_addr (WS sample_vm ! 0)" by (simp add: sample_ws) (simp add: sample_wse_def)
  have l: "length (WS sample_vm) = 3" "0 < length (WS sample_vm)" by (simp_all add: sample_ws)
  obtain m v' where
    m: "m \<le> 3" "clock_loop (Suc 3) sample_vm = Inr (at (WS sample_vm) (0 + m), v')" "\<forall>j < m. used sample_vm (at (WS sample_vm) (0 + j))"
      "m < 3 \<longrightarrow> \<not> used sample_vm (at (WS sample_vm) (0 + m))" "hand v' = wse_addr (at (WS sample_vm) (0 + m))"
      "\<forall>w \<in> set (WS sample_vm). used v' w \<longleftrightarrow> used sample_vm w \<and> w \<notin> (\<lambda>j. at (WS sample_vm) (0 + j)) ` {..<m}"
    using clock_terminates [OF sample_ws_ok l(2) h, unfolded l(1)] by blast
  have a: "at (WS sample_vm) 0 = sample_wse 0" "at (WS sample_vm) 1 = sample_wse 1" "at (WS sample_vm) 2 = sample_wse 2"
    by (simp_all add: sample_ws at_def)
  have "m \<noteq> 0" "m \<noteq> 1" using m(4) a sample_used by (intro notI; simp)+
  moreover have "\<not> 2 < m" using m(3) [rule_format, of 2] a(3) sample_used(3) by (auto simp: numeral_2_eq_2)
  ultimately have "m = 2" by simp
  moreover have "sample_wse 0 \<in> (\<lambda>j. at (WS sample_vm) (0 + j)) ` {..<m}" using a(1) \<open>m = 2\<close> by (intro image_eqI [of _ _ 0]) simp_all
  then have "\<not> used v' (sample_wse 0)" using m(6) [rule_format, of "sample_wse 0"] by (simp add: sample_ws)
  ultimately show ?thesis using m(2,5) a(3) by (simp add: numeral_2_eq_2) (simp add: sample_wse_def)
qed

section \<open>Modified CLOCK\<close>

lemma wse_addr_inj: "distinct (map wse_addr l) \<Longrightarrow> x \<in> set l \<Longrightarrow> y \<in> set l \<Longrightarrow> wse_addr x = wse_addr y \<longleftrightarrow> x = y"
  by (auto simp: distinct_map inj_on_def)

text \<open>
  One pass of the loop with \<open>r\<close> turns left, from element \<open>c\<close> on, where the test \<open>P\<close> looks at the two bits only: the first \<open>m\<close>
  elements fail the test, and if there are turns left the next one passes it.
\<close>

lemma mclock_loop_scan:
  assumes "ws_ok v" "WS v \<noteq> []" "0 < r" "r \<le> length (WS v)" "m \<le> r"
    and "\<forall>j<m. \<not> Q (used v (at (WS v) (c + j))) (dirty v (at (WS v) (c + j)))"
    and "m < r \<longrightarrow> Q (used v (at (WS v) (c + m))) (dirty v (at (WS v) (c + m)))"
    and P: "\<And>e. P (e AND 0xFFF) \<longleftrightarrow> Q (e AND PERM_USED \<noteq> 0) (e AND PERM_MODIFIED \<noteq> 0)"
  shows "\<exists>v'. mclock_loop P clear (wse_addr (at (WS v) (c + r))) r (wse_addr (at (WS v) c)) v =
      Inr (if m < r then Some (at (WS v) (c + m)) else None, v') \<and> ws_ok v' \<and> WS v' = WS v \<and> up v' = up v \<and>
    (\<forall>w \<in> set (WS v). dirty v' w = dirty v w \<and> (used v' w \<longleftrightarrow> used v w \<and> \<not> (clear \<and> w \<in> (\<lambda>j. at (WS v) (c + j)) ` {..<m})))"
  using assms(1-7)
proof (induction m arbitrary: c r v)
  case 0
  obtain r' where r: "r = Suc r'" using 0(3) by (cases r) auto
  note ok = ws_okD [OF 0(1)]
  have "has_table v (virtual_address (at (WS v) c))" using ok(4) 0(2) by simp
  moreover have "Q (used v (at (WS v) c)) (dirty v (at (WS v) c))" using 0(3,7) by simp
  ultimately show ?case
    using 0(1) by (intro exI [of _ v]) (simp add: r ws_elem_at [OF ok(1) 0(2)] get_permissions P used_def dirty_def)
next
  case (Suc m)
  let ?l = "WS v" and ?w = "at (WS v) c"
  obtain r' where r: "r = Suc r'" using Suc.prems(3) by (cases r) auto
  note ok = ws_okD [OF Suc.prems(1)]
  have w: "?w \<in> set ?l" using Suc.prems(2) by simp
  have t: "has_table v (virtual_address ?w)" using ok(4) w by simp
  have q: "\<not> Q (used v ?w) (dirty v ?w)" using Suc.prems(6) [rule_format, of 0] by simp
  define y where "y = (if clear then clear_used ?w v else v)"
  have v: "ws_ok y" "WS y = ?l" "up y = up v" using Suc.prems(1) by (simp_all add: y_def)
  have u: "used y x \<longleftrightarrow> used v x \<and> \<not> (clear \<and> x = ?w)" "dirty y x = dirty v x" if "x \<in> set ?l" for x
    using used_clear_used [OF Suc.prems(1) w that] by (auto simp: y_def)
  have s: "mclock_loop P clear start r (wse_addr ?w) v =
      (if wse_addr (at ?l (Suc c)) = start then Inr (None, y) else mclock_loop P clear start r' (wse_addr (at ?l (Suc c))) y)" for start
    using q t
    by (simp add: r ws_elem_at [OF ok(1) Suc.prems(2)] get_permissions clear_permissions P used_def dirty_def
        ws_cycle_at [OF ok(1) Suc.prems(2) ok(3)] Let_def y_def)
  have im: "(\<lambda>j. at ?l (c + j)) ` {..<Suc m} = insert ?w ((\<lambda>j. at ?l (Suc c + j)) ` {..<m})"
    by (simp add: lessThan_Suc_eq_insert_0 image_image)
  show ?case
  proof (cases "r' = 0")
    case True
    then have "m = 0" "c + r = Suc c" using Suc.prems(5) r by simp_all
    then show ?thesis using s [of "wse_addr (at ?l (c + r))"] v u True im by (intro exI [of _ y]) (simp add: r)
  next
    case False
    have "at ?l (Suc c + r') \<noteq> at ?l (Suc c)" using at_eq [OF ok(2), of r' "Suc c"] False Suc.prems(4) r by simp
    then have ne: "wse_addr (at ?l (Suc c)) \<noteq> wse_addr (at ?l (Suc c + r'))"
      using wse_addr_inj [OF ok(1), of "at ?l (Suc c)" "at ?l (Suc c + r')"] Suc.prems(2) by simp
    have nxt: "at ?l (Suc c + j) \<noteq> ?w" if "Suc j < length ?l" for j using at_eq [OF ok(2), of "Suc j" c] that by simp
    have 6: "\<forall>j<m. \<not> Q (used y (at ?l (Suc c + j))) (dirty y (at ?l (Suc c + j)))"
    proof (intro allI impI)
      fix j assume j: "j < m"
      then have "Suc j < length ?l" using Suc.prems(4,5) by simp
      then have "used y (at ?l (Suc c + j)) = used v (at ?l (Suc c + j))" "dirty y (at ?l (Suc c + j)) = dirty v (at ?l (Suc c + j))"
        using u [of "at ?l (Suc c + j)"] nxt Suc.prems(2) by auto
      then show "\<not> Q (used y (at ?l (Suc c + j))) (dirty y (at ?l (Suc c + j)))"
        using Suc.prems(6) [rule_format, of "Suc j"] j by simp
    qed
    have 7: "m < r' \<longrightarrow> Q (used y (at ?l (Suc c + m))) (dirty y (at ?l (Suc c + m)))"
    proof
      assume m: "m < r'"
      then have "Suc m < length ?l" using Suc.prems(4) r by simp
      then have "used y (at ?l (Suc c + m)) = used v (at ?l (Suc c + m))" "dirty y (at ?l (Suc c + m)) = dirty v (at ?l (Suc c + m))"
        using u [of "at ?l (Suc c + m)"] nxt Suc.prems(2) by auto
      then show "Q (used y (at ?l (Suc c + m))) (dirty y (at ?l (Suc c + m)))" using Suc.prems(7) m r by simp
    qed
    have "\<exists>v'. mclock_loop P clear (wse_addr (at (WS y) (Suc c + r'))) r' (wse_addr (at (WS y) (Suc c))) y =
        Inr (if m < r' then Some (at (WS y) (Suc c + m)) else None, v') \<and> ws_ok v' \<and> WS v' = WS y \<and> up v' = up y \<and>
      (\<forall>w \<in> set (WS y). dirty v' w = dirty y w \<and> (used v' w \<longleftrightarrow> used y w \<and> \<not> (clear \<and> w \<in> (\<lambda>j. at (WS y) (Suc c + j)) ` {..<m})))"
      using v Suc.prems(2,4,5) False r 6 7 by (intro Suc.IH) simp_all
    then obtain v' where v': "mclock_loop P clear (wse_addr (at ?l (Suc c + r'))) r' (wse_addr (at ?l (Suc c))) y =
        Inr (if m < r' then Some (at ?l (Suc c + m)) else None, v')" "ws_ok v'" "WS v' = ?l" "up v' = up v"
      "\<forall>w \<in> set ?l. dirty v' w = dirty y w \<and> (used v' w \<longleftrightarrow> used y w \<and> \<not> (clear \<and> w \<in> (\<lambda>j. at ?l (Suc c + j)) ` {..<m}))"
      unfolding v(2,3) by blast
    have run: "mclock_loop P clear (wse_addr (at ?l (c + r))) r (wse_addr ?w) v = Inr (if Suc m < r then Some (at ?l (c + Suc m)) else None, v')"
      using s [of "wse_addr (at ?l (c + r))"] ne v'(1) by (simp add: r)
    show ?thesis using run v'(2-4) v'(5) u unfolding im by (intro exI [of _ v']) (auto simp del: at_mem)
  qed
qed

lemma mclock_pass:
  assumes "ws_ok v" "WS v \<noteq> []" and P: "\<And>e. P (e AND 0xFFF) \<longleftrightarrow> Q (e AND PERM_USED \<noteq> 0) (e AND PERM_MODIFIED \<noteq> 0)"
  shows "\<exists>m v'. m \<le> length (WS v) \<and> (\<forall>j<m. \<not> Q (used v (at (WS v) (i + j))) (dirty v (at (WS v) (i + j)))) \<and>
    (m < length (WS v) \<longrightarrow> Q (used v (at (WS v) (i + m))) (dirty v (at (WS v) (i + m)))) \<and>
    mclock_loop P clear (wse_addr (at (WS v) i)) (length (WS v)) (wse_addr (at (WS v) i)) v =
      Inr (if m < length (WS v) then Some (at (WS v) (i + m)) else None, v') \<and> ws_ok v' \<and> WS v' = WS v \<and> up v' = up v \<and>
    (\<forall>w \<in> set (WS v). dirty v' w = dirty v w \<and> (used v' w \<longleftrightarrow> used v w \<and> \<not> (clear \<and> w \<in> (\<lambda>j. at (WS v) (i + j)) ` {..<m})))"
proof -
  let ?l = "WS v" and ?q = "\<lambda>j. Q (used v (at (WS v) (i + j))) (dirty v (at (WS v) (i + j)))"
  define m where "m = (LEAST m. m = length ?l \<or> ?q m)"
  have le: "m \<le> length ?l" unfolding m_def by (rule Least_le) simp
  have at_m: "m = length ?l \<or> ?q m" unfolding m_def by (rule LeastI [of _ "length ?l"]) simp
  have before: "\<forall>j<m. \<not> ?q j" using not_less_Least unfolding m_def by blast
  have hit: "m < length ?l \<longrightarrow> ?q m" using at_m by auto
  show ?thesis
    using mclock_loop_scan [OF assms(1,2) _ _ le before hit P, of clear] assms(2) le before hit unfolding at_round
    by (intro exI [of _ m]) auto
qed

lemma not_used_bits:
  "not_used (e AND 0xFFF) \<longleftrightarrow> \<not> e AND PERM_USED \<noteq> 0"
  "not_used_not_modified (e AND 0xFFF) \<longleftrightarrow> \<not> e AND PERM_USED \<noteq> 0 \<and> \<not> e AND PERM_MODIFIED \<noteq> 0"
  by (simp_all add: not_used_def not_used_not_modified_def mask_used)

lemma at_all: "w \<in> set l \<Longrightarrow> \<exists>j<length l. w = at l (i + j)"
proof -
  assume "w \<in> set l"
  then obtain k where k: "k < length l" "w = l ! k" by (auto simp: in_set_conv_nth)
  let ?n = "length l"
  have "(i + (k + ?n - i mod ?n) mod ?n) mod ?n = (i mod ?n + (k + ?n - i mod ?n)) mod ?n" by (simp add: mod_add_left_eq mod_add_right_eq)
  also have "i mod ?n + (k + ?n - i mod ?n) = k + ?n" using k(1) mod_less_divisor [of ?n i] by linarith
  finally have "(i + (k + ?n - i mod ?n) mod ?n) mod ?n = k" using k(1) by simp
  moreover have "(k + ?n - i mod ?n) mod ?n < ?n" using k(1) by (intro mod_less_divisor) linarith
  ultimately show ?thesis using k by (intro exI [of _ "(k + ?n - i mod ?n) mod ?n"]) (simp add: at_def)
qed

text \<open>The four classes of pages, in the order in which they are given up.\<close>

definition page_class :: "vm \<Rightarrow> wse \<Rightarrow> nat" where
  "page_class v w = (if used v w then 2 else 0) + (if dirty v w then 1 else 0)"

text \<open>
  C13. Modified CLOCK always finds a victim, in at most three passes: it is the first page from the hand on of the least class,
  where a page that is not used goes before a used one and, among these, one that is not modified before a modified one. The
  modified bits and the working set stay as they are; the used bits that are cleared are none if the victim was neither used
  nor modified, those of the pages passed over if it was not used, and all if every page was used.
\<close>

theorem modified_clock_choice:
  assumes "ws_ok v" "i < length (WS v)"
  shows "\<exists>m v'. m < length (WS v) \<and> mclock_victim (wse_addr (WS v ! i)) v = Inr (at (WS v) (i + m), v') \<and> WS v' = WS v \<and> up v' = up v \<and>
    (\<forall>w \<in> set (WS v). page_class v (at (WS v) (i + m)) \<le> page_class v w) \<and>
    (\<forall>j<m. page_class v (at (WS v) (i + m)) < page_class v (at (WS v) (i + j))) \<and>
    (\<forall>w \<in> set (WS v). dirty v' w = dirty v w \<and>
       (used v' w \<longleftrightarrow> used v w \<and> (page_class v (at (WS v) (i + m)) = 0 \<or>
          page_class v (at (WS v) (i + m)) = 1 \<and> w \<notin> (\<lambda>j. at (WS v) (i + j)) ` {..<m})))"
proof -
  let ?l = "WS v" and ?n = "length (WS v)" and ?s = "wse_addr (at (WS v) i)" and ?a = "\<lambda>j. at (WS v) (i + j)"
  have ne: "?l \<noteq> []" and s: "WS v ! i = at ?l i" using assms(2) by (auto simp: at_def)
  have im: "w \<in> ?a ` {..<?n}" if "w \<in> set ?l" for w using at_all [OF that, of i] by auto
  obtain m1 v1 where 1: "m1 \<le> ?n" "\<forall>j<m1. \<not> (\<not> used v (?a j) \<and> \<not> dirty v (?a j))" "m1 < ?n \<longrightarrow> \<not> used v (?a m1) \<and> \<not> dirty v (?a m1)"
    "mclock_loop not_used_not_modified False ?s ?n ?s v = Inr (if m1 < ?n then Some (?a m1) else None, v1)"
    "ws_ok v1" "WS v1 = ?l" "up v1 = up v" "\<forall>w \<in> set ?l. dirty v1 w = dirty v w \<and> used v1 w = used v w"
    using mclock_pass [OF assms(1) ne, where Q = "\<lambda>u d. \<not> u \<and> \<not> d" and P = not_used_not_modified and clear = False and i = i] not_used_bits(2) by auto
  have le1: "page_class v (?a m) < page_class v (?a j)" if "page_class v (?a m) = 0" "j < m1" for m j
    using 1(2) that by (auto simp: page_class_def)
  show ?thesis
  proof (cases "m1 < ?n")
    case True
    then have c: "page_class v (?a m1) = 0" using 1(3) by (simp add: page_class_def)
    have "mclock_victim ?s v = Inr (?a m1, v1)" using 1(4) True by (simp add: mclock_victim_def)
    then show ?thesis using True 1(6-8) c le1 by (intro exI [of _ m1] exI [of _ v1]) (auto simp: s)
  next
    case False
    then have none: "used v w \<or> dirty v w" if "w \<in> set ?l" for w using 1(1,2) im [OF that] by auto
    obtain m2 v2 where 2: "m2 \<le> ?n" "\<forall>j<m2. used v1 (?a j)" "m2 < ?n \<longrightarrow> \<not> used v1 (?a m2)"
      "mclock_loop not_used True ?s ?n ?s v1 = Inr (if m2 < ?n then Some (?a m2) else None, v2)"
      "ws_ok v2" "WS v2 = ?l" "up v2 = up v" "\<forall>w \<in> set ?l. dirty v2 w = dirty v1 w \<and> (used v2 w \<longleftrightarrow> used v1 w \<and> w \<notin> ?a ` {..<m2})"
      using mclock_pass [OF 1(5), where Q = "\<lambda>u d. \<not> u" and P = not_used and clear = True and i = i] not_used_bits(1) ne 1(6,7) by auto
    have u1: "used v1 (?a j) = used v (?a j)" for j using 1(8) ne by simp
    show ?thesis
    proof (cases "m2 < ?n")
      case True
      then have c: "page_class v (?a m2) = 1" using 2(3) none [of "?a m2"] u1 ne by (auto simp: page_class_def)
      have "1 < page_class v (?a j)" if "j < m2" for j using 2(2) u1 that by (simp add: page_class_def)
      moreover have "1 \<le> page_class v w" if "w \<in> set ?l" for w using none [OF that] by (auto simp: page_class_def)
      moreover have "mclock_victim ?s v = Inr (?a m2, v2)" using 1(4,6) 2(4) True False by (simp add: mclock_victim_def)
      ultimately show ?thesis using True 1(8) 2(6-8) c by (intro exI [of _ m2] exI [of _ v2]) (auto simp: s)
    next
      case F2: False
      then have all: "used v w" if "w \<in> set ?l" for w using 2(1,2) u1 im [OF that] by auto
      have off: "\<not> used v2 w" "dirty v2 w = dirty v w" if "w \<in> set ?l" for w using 2(1,8) 1(8) F2 im [OF that] that by auto
      obtain m3 v3 where 3: "m3 \<le> ?n" "\<forall>j<m3. \<not> (\<not> used v2 (?a j) \<and> \<not> dirty v2 (?a j))" "m3 < ?n \<longrightarrow> \<not> used v2 (?a m3) \<and> \<not> dirty v2 (?a m3)"
        "mclock_loop not_used_not_modified False ?s ?n ?s v2 = Inr (if m3 < ?n then Some (?a m3) else None, v3)"
        "WS v3 = ?l" "up v3 = up v" "\<forall>w \<in> set ?l. dirty v3 w = dirty v2 w \<and> used v3 w = used v2 w"
        using mclock_pass [where Q = "\<lambda>u d. \<not> u \<and> \<not> d" and P = not_used_not_modified, OF 2(5) _ not_used_bits(2), where clear = False and i = i, unfolded 2(6,7), OF ne]
        by (elim exE conjE) (rule that, simp_all)
      have cl: "page_class v w = (if dirty v w then 3 else 2)" if "w \<in> set ?l" for w using all [OF that] by (simp add: page_class_def)
      have d: "dirty v (?a j)" if "j < m3" for j using 3(2) off ne that by simp
      define m where "m = (if m3 < ?n then m3 else 0)"
      have run: "mclock_victim ?s v = Inr (?a m, v3)"
        using 1(4,6) 2(4,6) 3(4,5) False F2 ws_elem_at [OF ws_okD(1) [OF assms(1)] ne, of i] by (simp add: mclock_victim_def m_def)
      have c: "page_class v (?a m) \<ge> 2" using cl [of "?a m"] ne by simp
      have least: "page_class v (?a m) \<le> page_class v w" if w: "w \<in> set ?l" for w
      proof (cases "m3 < ?n")
        case True
        then have "\<not> dirty v (?a m)" using 3(3) off ne by (simp add: m_def)
        then show ?thesis using cl [of "?a m"] cl [OF w] ne by simp
      next
        case F3: False
        then have "dirty v w" using d im [OF w] 3(1) by auto
        then show ?thesis using cl [of "?a m"] cl [OF w] ne by simp
      qed
      have first: "page_class v (?a m) < page_class v (?a j)" if "j < m" for j
        using that d [of j] 3(3) off cl [of "?a m"] cl [of "?a j"] ne by (auto simp: m_def split: if_splits)
      show ?thesis
        using run least first c off 3(5-7) ne
        by (intro exI [of _ m] exI [of _ v3]) (auto simp: s m_def all)
    qed
  qed
qed

theorem modified_clock_choice_witness:
  "\<exists>v'. mclock_victim (wse_addr (sample_wse 0)) sample_vm = Inr (sample_wse 2, v') \<and> WS v' = WS sample_vm"
proof -
  have l: "length (WS sample_vm) = 3" "0 < length (WS sample_vm)" "WS sample_vm ! 0 = sample_wse 0" by (simp_all add: sample_ws)
  obtain m v' where m: "m < 3" "mclock_victim (wse_addr (sample_wse 0)) sample_vm = Inr (at (WS sample_vm) (0 + m), v')" "WS v' = WS sample_vm"
    "\<forall>w \<in> set (WS sample_vm). page_class sample_vm (at (WS sample_vm) (0 + m)) \<le> page_class sample_vm w"
    using modified_clock_choice [OF sample_ws_ok l(2), unfolded l(1,3)] by blast
  have a: "at (WS sample_vm) 0 = sample_wse 0" "at (WS sample_vm) 1 = sample_wse 1" "at (WS sample_vm) 2 = sample_wse 2"
    by (simp_all add: sample_ws at_def)
  have "page_class sample_vm (at (WS sample_vm) (0 + m)) \<le> page_class sample_vm (sample_wse 2)" using m(4) by (simp add: sample_ws)
  moreover have "page_class sample_vm (sample_wse 2) < page_class sample_vm (sample_wse 0)"
    "page_class sample_vm (sample_wse 2) < page_class sample_vm (sample_wse 1)"
    using sample_used by (simp_all add: page_class_def)
  ultimately have "m \<noteq> 0" "m \<noteq> 1" using a by (intro notI; simp)+
  then have "m = 2" using m(1) by simp
  then show ?thesis using m(2,3) a(3) by (simp add: numeral_2_eq_2)
qed

section \<open>LRU with ageing\<close>

lemma aged_eq:
  assumes "ts < U32"
  shows "aged u ts = ts div 2 + (if u then 2 ^ 31 else 0)"
proof -
  have h: "drop_bit (Suc 0) ts = ts div 2" by (simp add: drop_bit_eq_div)
  have d: "ts div 2 < 2 ^ 31" using assms by simp
  have "\<not> bit (ts div 2) n \<or> \<not> bit (2 ^ 31 :: nat) n" for n
  proof (cases "n = 31")
    case True
    then show ?thesis using d by (simp only: bit_iff_odd) simp
  qed (simp only: bit_exp_iff possible_bit_nat, simp)
  then have "ts div 2 + 2 ^ 31 = ts div 2 OR 2 ^ 31" by (rule disjunctive_add)
  then show ?thesis by (simp add: aged_def h)
qed

lemma aged_bound: "ts < U32 \<Longrightarrow> aged u ts < U32"
  by (simp add: aged_eq) linarith

text \<open>Each use halves the distance to the largest stamp.\<close>

lemma aged_gap: "ts < U32 \<Longrightarrow> U32 - 1 - aged True ts = (U32 - 1 - ts) div 2"
  by (simp add: aged_eq)

lemma aged_pow: "ts < U32 \<Longrightarrow> (aged True ^^ n) ts < U32 \<and> U32 - 1 - (aged True ^^ n) ts = (U32 - 1 - ts) div 2 ^ n"
proof (induction n)
  case (Suc n)
  then have "(aged True ^^ n) ts < U32" by simp
  then have "U32 - 1 - aged True ((aged True ^^ n) ts) = (U32 - 1 - (aged True ^^ n) ts) div 2" "aged True ((aged True ^^ n) ts) < U32"
    by (rule aged_gap, rule aged_bound)
  moreover have "(U32 - 1 - ts) div 2 ^ n div 2 = (U32 - 1 - ts) div 2 ^ Suc n" by (simp only: power_Suc2 div_mult2_eq)
  ultimately show ?case using Suc by (simp only: funpow.simps o_apply)
qed simp

lemma aged_saturates: "ts < U32 \<Longrightarrow> (aged True ^^ 32) ts = 0xFFFFFFFF"
  using aged_pow [of ts 32] by simp

lemma age_elem_eq:
  "has_table v (virtual_address w) \<Longrightarrow>
     age_elem w v = Inr (w\<lparr>time_stamp := aged (used v w) (time_stamp w)\<rparr>, clear_used w v)"
  using clear_permissions [of v "w\<lparr>time_stamp := aged (used v w) (time_stamp w)\<rparr>"]
  by (simp add: age_elem_def get_permissions mask_used used_def clear_used_def)

lemma age_loop_eq:
  "ws_ok v \<Longrightarrow> set l \<subseteq> set (WS v) \<Longrightarrow> distinct l \<Longrightarrow>
   \<exists>v'. age_loop l v = Inr (map (\<lambda>w. w\<lparr>time_stamp := aged (used v w) (time_stamp w)\<rparr>) l, v') \<and> up v' = up v \<and>
     (\<forall>w \<in> set (WS v). (used v' w \<longleftrightarrow> used v w \<and> w \<notin> set l) \<and> dirty v' w = dirty v w)"
proof (induction l arbitrary: v)
  case (Cons w l)
  have w: "w \<in> set (WS v)" "w \<notin> set l" using Cons.prems by auto
  let ?v = "clear_used w v"
  have f: "used ?v x \<longleftrightarrow> used v x \<and> x \<noteq> w" "dirty ?v x = dirty v x" if "x \<in> set (WS v)" for x
    using used_clear_used [OF Cons.prems(1) w(1) that] .
  have used_l: "used ?v x = used v x" if "x \<in> set l" for x using f(1) [of x] that Cons.prems(2) w(2) by auto
  have "map (\<lambda>w. w\<lparr>time_stamp := aged (used ?v w) (time_stamp w)\<rparr>) l = map (\<lambda>w. w\<lparr>time_stamp := aged (used v w) (time_stamp w)\<rparr>) l"
    using used_l by simp
  moreover obtain v' where "age_loop l ?v = Inr (map (\<lambda>w. w\<lparr>time_stamp := aged (used ?v w) (time_stamp w)\<rparr>) l, v')" "up v' = up v"
      "\<forall>x \<in> set (WS v). (used v' x \<longleftrightarrow> used ?v x \<and> x \<notin> set l) \<and> dirty v' x = dirty ?v x"
    using Cons.IH [of ?v] Cons.prems by auto
  ultimately show ?case
    using age_elem_eq [OF ws_okD(4) [OF Cons.prems(1) w(1)]] f by (intro exI [of _ v']) auto
qed simp

lemma lru_loop_facts:
  "(case vic of None \<Rightarrow> m = 0xFFFFFFFF | Some x \<Rightarrow> time_stamp x = m) \<Longrightarrow>
   (case lru_loop l m vic of
      None \<Rightarrow> vic = None \<and> (\<forall>x \<in> set l. 0xFFFFFFFF \<le> time_stamp x)
    | Some w \<Rightarrow> (w \<in> set l \<or> vic = Some w) \<and> time_stamp w \<le> m \<and> (\<forall>x \<in> set l. time_stamp w \<le> time_stamp x))"
proof (induction l arbitrary: m vic)
  case (Cons w l)
  show ?case
  proof (cases "time_stamp w < m")
    case True
    then show ?thesis using Cons.IH [of "time_stamp w" "Some w"] by (auto split: option.splits)
  next
    case False
    then show ?thesis using Cons.IH [OF Cons.prems] Cons.prems by (auto split: option.splits)
  qed
qed (auto split: option.splits)

lemma lru_loop_max: "\<forall>x \<in> set l. time_stamp x = m \<Longrightarrow> lru_loop l m None = None"
  by (induction l) auto

text \<open>
  C25. At a tick every page of the working set gets its time stamp shifted, with the used bit as the top bit, and its used bit
  cleared; nothing else of the working set or of the modified bits changes, and stamps stay 32 bit values. LRU then chooses a page
  whose stamp is the least of all.
\<close>

theorem lru_ageing:
  assumes "ws_ok v" and "\<forall>w \<in> set (WS v). time_stamp w < U32"
  shows "(\<exists>v'. update_WS_time_stamps True v = Inr v' \<and>
            WS v' = map (\<lambda>w. w\<lparr>time_stamp := time_stamp w div 2 + (if used v w then 2 ^ 31 else 0)\<rparr>) (WS v) \<and>
            (\<forall>w \<in> set (WS v'). time_stamp w < U32) \<and>
            (\<forall>w \<in> set (WS v). \<not> used v' w \<and> dirty v' w = dirty v w)) \<and>
         (\<forall>w. lru_victim (WS v) = Some w \<longrightarrow> w \<in> set (WS v) \<and> (\<forall>x \<in> set (WS v). time_stamp w \<le> time_stamp x)) \<and>
         (lru_victim (WS v) = None \<longleftrightarrow> (\<forall>w \<in> set (WS v). time_stamp w = 0xFFFFFFFF))"
proof (intro conjI)
  let ?l = "map (\<lambda>w. w\<lparr>time_stamp := aged (used v w) (time_stamp w)\<rparr>) (WS v)"
  have e: "?l = map (\<lambda>w. w\<lparr>time_stamp := time_stamp w div 2 + (if used v w then 2 ^ 31 else 0)\<rparr>) (WS v)"
    using assms(2) by (intro map_cong) (simp_all add: aged_eq)
  obtain v1 where v1: "age_loop (WS v) v = Inr (?l, v1)" "\<forall>w \<in> set (WS v). \<not> used v1 w \<and> dirty v1 w = dirty v w" "up v1 = up v"
    using age_loop_eq [OF assms(1) _ ws_okD(2) [OF assms(1)]] by auto
  define v2 where "v2 = upd_up (\<lambda>u. u\<lparr>page_WS_list := ?l\<rparr>) v1"
  have v2: "WS v2 = ?l" "used v2 = used v1" "dirty v2 = dirty v1" "update_WS_time_stamps True v = Inr v2"
    using v1(1) by (simp_all add: v2_def update_WS_time_stamps_def upd_up_def used_def dirty_def upte_def utable_def fun_eq_iff)
  have "\<forall>w \<in> set ?l. time_stamp w < U32" using assms(2) by (auto intro: aged_bound)
  then show "\<exists>v'. update_WS_time_stamps True v = Inr v' \<and>
      WS v' = map (\<lambda>w. w\<lparr>time_stamp := time_stamp w div 2 + (if used v w then 2 ^ 31 else 0)\<rparr>) (WS v) \<and>
      (\<forall>w \<in> set (WS v'). time_stamp w < U32) \<and> (\<forall>w \<in> set (WS v). \<not> used v' w \<and> dirty v' w = dirty v w)"
    using v1(2) v2 unfolding e [symmetric] by (intro exI [of _ v2]) simp
  note L = lru_loop_facts [of "0xFFFFFFFF" None "WS v", folded lru_victim_def]
  show "\<forall>w. lru_victim (WS v) = Some w \<longrightarrow> w \<in> set (WS v) \<and> (\<forall>x \<in> set (WS v). time_stamp w \<le> time_stamp x)"
    using L by auto
  have "w \<in> set (WS v) \<Longrightarrow> time_stamp w \<le> 0xFFFFFFFF" for w using assms(2) by fastforce
  then have "0xFFFFFFFF \<le> time_stamp w \<longleftrightarrow> time_stamp w = 0xFFFFFFFF" if "w \<in> set (WS v)" for w using that by fastforce
  then show "lru_victim (WS v) = None \<longleftrightarrow> (\<forall>w \<in> set (WS v). time_stamp w = 0xFFFFFFFF)"
    using L lru_loop_max [of "WS v"] by (auto simp: lru_victim_def)
qed

theorem lru_ageing_witness:
  "(\<exists>v'. update_WS_time_stamps True sample_vm = Inr v' \<and> map time_stamp (WS v') = [0x80000004, 0x80000003, 2]) \<and>
   lru_victim (WS sample_vm) = Some (sample_wse 2)"
proof -
  have "\<forall>w \<in> set (WS sample_vm). time_stamp w < U32" by (simp add: sample_ws sample_wse_def)
  from lru_ageing [OF sample_ws_ok this]
  have "\<exists>v'. update_WS_time_stamps True sample_vm = Inr v' \<and>
      WS v' = map (\<lambda>w. w\<lparr>time_stamp := time_stamp w div 2 + (if used sample_vm w then 2 ^ 31 else 0)\<rparr>) (WS sample_vm)" by blast
  moreover have "lru_victim (WS sample_vm) = Some (sample_wse 2)"
    by (simp add: sample_ws lru_victim_def sample_wse_def)
  ultimately show ?thesis using sample_used by (auto simp: sample_ws) (simp_all add: sample_wse_def)
qed

text \<open>
  LRU has no victim when every page of a full working set was used in each of the last 32 quanta: whatever the stamps were
  before, they are all ones then, the search for a smaller one finds nothing, and a page fault panics the kernel.
\<close>

lemma lru_no_victim_panics:
  assumes "PageRepAlgoType v = PG_REP_LRU_TIME_APPROX" and "page_WS_max_size (up v) \<le> length (WS v)"
    and "\<forall>w \<in> set (WS v). \<exists>ts < U32. time_stamp w = (aged True ^^ 32) ts"
  shows "page_fault_handler fault_va v = Inl (Panic '' No victim found in working set, for LRU.'')"
proof -
  have "\<forall>w \<in> set (WS v). time_stamp w = 0xFFFFFFFF" using assms(3) aged_saturates by fastforce
  then show ?thesis
    using assms(1,2) lru_loop_max [of "WS v"] by (simp add: page_fault_handler_def lru_replacement_def lru_victim_def)
qed

lemma lru_no_victim_panics_witness:
  "page_fault_handler 0x80003000 (upd_up (\<lambda>u. u\<lparr>page_WS_list := [(sample_wse 0)\<lparr>time_stamp := 0xFFFFFFFF\<rparr>], page_WS_max_size := 1\<rparr>)
     (sample_vm\<lparr>PageRepAlgoType := PG_REP_LRU_TIME_APPROX\<rparr>)) = Inl (Panic '' No victim found in working set, for LRU.'')"
proof (rule lru_no_victim_panics)
  show "\<forall>w \<in> set (WS (upd_up (\<lambda>u. u\<lparr>page_WS_list := [(sample_wse 0)\<lparr>time_stamp := 0xFFFFFFFF\<rparr>], page_WS_max_size := 1\<rparr>)
     (sample_vm\<lparr>PageRepAlgoType := PG_REP_LRU_TIME_APPROX\<rparr>))). \<exists>ts < U32. time_stamp w = (aged True ^^ 32) ts"
    using aged_saturates [of 0] by (auto simp: upd_up_def intro!: exI [of _ 0])
qed (simp_all add: upd_up_def sample_vm_def)

section \<open>What a replacement does to the working set\<close>

text \<open>Moving pages leaves the directory, the working set, the hand and the size limit of the environment alone.\<close>

definition ws_of :: "vm \<Rightarrow> nat \<times> wse list \<times> nat \<times> nat" where
  "ws_of v = (upgdir v, WS v, hand v, page_WS_max_size (up v))"

abbreviation kept :: "vm \<Rightarrow> ('a \<times> vm) result \<Rightarrow> bool" where
  "kept v \<equiv> yields (\<lambda>(_, v'). ws_of v' = ws_of v)"

lemma ws_of_simps [simp]:
  "ws_of (set_disk_entry a i e v) = ws_of v" "ws_of (v\<lparr>km := k\<rparr>) = ws_of v" "ws_of (v\<lparr>disk_data := d\<rparr>) = ws_of v"
  "ws_of (v\<lparr>frame_data := d\<rparr>) = ws_of v" "ws_of (v\<lparr>dfllock := h\<rparr>) = ws_of v" "ws_of (v\<lparr>disk_free_frame_list := l\<rparr>) = ws_of v"
  "ws_of (upd_up (\<lambda>u. u\<lparr>disk_env_pgdir := p\<rparr>) v) = ws_of v"
  "ws_of (upd_up (\<lambda>u. u\<lparr>nPageIn := f u\<rparr>) v) = ws_of v" "ws_of (upd_up (\<lambda>u. u\<lparr>nPageOut := f u\<rparr>) v) = ws_of v"
  "ws_of (upd_up (\<lambda>u. u\<lparr>nNewPageAdded := f u\<rparr>) v) = ws_of v"
  by (simp_all add: ws_of_def set_disk_entry_def upd_up_def)

lemma in_mem_kept: "yields (\<lambda>v'. ws_of v' = ws_of v) (in_mem f v)"
  by (auto simp: in_mem_def intro: yields_andThen_any)

lemma new_disk_array_kept: "yields (\<lambda>(_, _, v'). ws_of v' = ws_of v) (new_disk_array v)"
  by (auto simp: new_disk_array_def intro!: yields_andThen_any)

lemma allocate_disk_frame_kept: "kept v (allocate_disk_frame v)"
  by (auto simp: allocate_disk_frame_def split: list.split intro!: yields_andThen_any)

lemma read_disk_page_kept: "kept v (read_disk_page n va v)"
  by (auto simp: read_disk_page_def intro!: yields_andThen_any)

lemma write_disk_page_kept: "kept v (write_disk_page n va v)"
  by (auto simp: write_disk_page_def intro!: yields_andThen_any)

lemma get_disk_page_directory_kept: "kept v (get_disk_page_directory v)"
  by (auto simp: get_disk_page_directory_def intro!: yields_andThen [OF new_disk_array_kept])

lemma get_disk_page_table_kept: "kept v (get_disk_page_table dir va create v)"
  unfolding get_disk_page_table_def
  by (intro yields_andThen_any) (auto intro!: yields_andThen [OF new_disk_array_kept])

text \<open>The same for a state that agrees with \<open>v\<close>.\<close>

lemma kept_trans: "kept x m \<Longrightarrow> ws_of x = ws_of v \<Longrightarrow> kept v m"
  by (auto simp: yields_def)

lemma kept_andThen: "kept x m \<Longrightarrow> ws_of x = ws_of v \<Longrightarrow> (\<And>r y. ws_of y = ws_of v \<Longrightarrow> yields Q (f (r, y))) \<Longrightarrow> yields Q (andThen m f)"
  by (auto simp: yields_def res_simps)

lemmas kept_steps = kept_andThen [OF get_disk_page_directory_kept] kept_andThen [OF get_disk_page_table_kept]
  kept_andThen [OF allocate_disk_frame_kept] kept_andThen [OF read_disk_page_kept] kept_andThen [OF write_disk_page_kept]

lemma disk_frame_of_kept: "kept v (disk_frame_of va v)"
  unfolding disk_frame_of_def
  apply (rule yields_andThen_any, rule kept_steps, rule refl, simp)
  apply (rule kept_steps, assumption, simp, rule yields_andThen_any)
  by (auto split: option.split intro!: kept_steps)

lemma pf_update_env_page_kept: "kept v (pf_update_env_page va v)"
proof -
  have a: "kept x (pf_add_empty_env_page va False x)" for x
    by (auto simp: pf_add_empty_env_page_def intro!: kept_andThen [OF disk_frame_of_kept])
  show ?thesis
    unfolding pf_update_env_page_def Let_def
    apply (rule yields_andThen_any, rule kept_steps, rule refl, simp only: prod.case)
    apply (rule kept_steps, assumption, simp only: prod.case)
    apply (rule yields_andThen [where P = "\<lambda>y. ws_of y = ws_of v"])
     apply (auto intro!: kept_andThen [OF a]) []
    apply (rule kept_steps, assumption, simp only: prod.case)
    apply (rule yields_andThen_any, rule yields_andThen_any, simp only: split_def, rule yields_andThen_any)
    by (auto intro!: kept_steps)
qed

lemma pf_read_env_page_kept: "kept v (pf_read_env_page va v)"
  unfolding pf_read_env_page_def Let_def
  by (auto intro!: kept_steps yields_andThen [OF in_mem_kept])

lemma bring_in_kept: "yields (\<lambda>v'. ws_of v' = ws_of v) (bring_in va v)"
  unfolding bring_in_def
  apply (rule yields_andThen_any, clarsimp, rule yields_andThen [OF in_mem_kept])
  by (auto intro!: kept_andThen [OF pf_read_env_page_kept])

lemma send_out_kept: "yields (\<lambda>v'. ws_of v' = ws_of v) (send_out va v)"
proof -
  have m: "yields (\<lambda>v'. ws_of v' = ws_of v) (in_mem f x)" if "ws_of x = ws_of v" for f x
    using in_mem_kept [of x f] that by simp
  show ?thesis
    unfolding send_out_def
    apply (rule yields_andThen_any, rule yields_andThen [where P = "\<lambda>y. ws_of y = ws_of v"])
    by (auto intro!: kept_andThen [OF pf_update_env_page_kept] m)
qed

text \<open>
  What the three strategies have in common: they choose an element of the working set and leave the set and its limit alone.
\<close>

locale victim_policy =
  fixes pick :: "vm \<Rightarrow> (wse \<times> vm) result"
  assumes chooses_element: "pick v = Inr (w, v') \<Longrightarrow> w \<in> set (WS v)"
    and chooses_only: "pick v = Inr (w, v') \<Longrightarrow> WS v' = WS v \<and> page_WS_max_size (up v') = page_WS_max_size (up v)"
begin

lemma swapped:
  assumes "pick v = Inr (w, v1)" "send_out (virtual_address w) v1 = Inr v2" "bring_in va v2 = Inr v3"
  shows "w \<in> set (WS v)" "WS v3 = WS v" "page_WS_max_size (up v3) = page_WS_max_size (up v)"
proof -
  have "ws_of v3 = ws_of v1" using yieldsD [OF send_out_kept assms(2)] yieldsD [OF bring_in_kept assms(3)] by simp
  then show "w \<in> set (WS v)" "WS v3 = WS v" "page_WS_max_size (up v3) = page_WS_max_size (up v)"
    using chooses_element [OF assms(1)] chooses_only [OF assms(1)] by (simp_all add: ws_of_def)
qed

end

lemma ws_elem_Some: "ws_elem a l = Some w \<Longrightarrow> w \<in> set l \<and> wse_addr w = a"
  by (auto simp: ws_elem_def find_Some_iff)

definition same_ws :: "vm \<Rightarrow> vm \<Rightarrow> bool" where
  "same_ws v v' \<longleftrightarrow> WS v' = WS v \<and> page_WS_max_size (up v') = page_WS_max_size (up v)"

lemma same_ws_trans: "same_ws a b \<Longrightarrow> same_ws b c \<Longrightarrow> same_ws a c"
  by (simp add: same_ws_def)

lemma in_mem_same_ws: "yields (same_ws v) (in_mem f v)"
  using in_mem_kept [of v f] by (auto simp: yields_def ws_of_def same_ws_def)

lemma clock_step_same:
  "yields (\<lambda>(r, v'). same_ws v v' \<and> (\<forall>w. r = Some w \<longrightarrow> w \<in> set (WS v) \<and> wse_addr w = hand v')) (clock_step v)"
proof (cases "ws_elem (hand v) (WS v)")
  case (Some w)
  have "yields (\<lambda>(r, v'). same_ws v v' \<and> (\<forall>w. r = Some w \<longrightarrow> w \<in> set (WS v) \<and> wse_addr w = hand v'))
      (andThen (in_mem f v) (\<lambda>v. Inr (None, set_hand (ws_cycle (wse_addr w) (WS v)) v)))" for f
    by (rule yields_andThen [OF in_mem_same_ws]) (simp add: same_ws_def)
  then show ?thesis
    using ws_elem_Some [OF Some] by (auto simp: clock_step_def Some same_ws_def intro!: yields_andThen_any)
qed (simp add: clock_step_def)

lemma clock_loop_same:
  "yields (\<lambda>(w, v'). same_ws v v' \<and> w \<in> set (WS v) \<and> wse_addr w = hand v') (clock_loop n v)"
proof (induction n arbitrary: v)
  case (Suc n)
  have "yields (\<lambda>(w, v'). same_ws v v' \<and> w \<in> set (WS v) \<and> wse_addr w = hand v') (clock_loop n x)" if "same_ws v x" for x
    using Suc [of x] that by (auto simp: yields_def same_ws_def)
  then show ?case
    by (auto split: option.split intro!: yields_andThen [OF clock_step_same])
qed simp

lemma mclock_loop_same:
  "yields (\<lambda>(r, v'). same_ws v v' \<and> (\<forall>w. r = Some w \<longrightarrow> w \<in> set (WS v))) (mclock_loop P clear start n current v)"
proof (induction n arbitrary: v current)
  case (Suc n)
  have IH: "yields (\<lambda>(r, v'). same_ws v v' \<and> (\<forall>w. r = Some w \<longrightarrow> w \<in> set (WS v))) (mclock_loop P clear start n c x)"
    if "same_ws v x" for c x
    using Suc [of x c] that by (auto simp: yields_def same_ws_def)
  show ?case
  proof (cases "ws_elem current (WS v)")
    case (Some w)
    have c: "yields (same_ws v) (if clear then in_mem f v else Inr v)" for f
      using in_mem_same_ws by (simp add: same_ws_def)
    have body: "yields (\<lambda>(r, v'). same_ws v v' \<and> (\<forall>w. r = Some w \<longrightarrow> w \<in> set (WS v)))
        (andThen (if clear then in_mem f v else Inr v) (\<lambda>v.
         (let current = ws_cycle current (WS v) in
          if current = start then Inr (None, v) else mclock_loop P clear start n current v)))" for f
      by (rule yields_andThen [OF c]) (simp add: Let_def IH)
    show ?thesis
      unfolding mclock_loop.simps Some option.case
      by (rule yields_andThen_any) (use ws_elem_Some [OF Some] body in \<open>simp add: same_ws_def\<close>)
  qed simp
qed simp

lemma mclock_victim_same: "yields (\<lambda>(w, v'). same_ws v v' \<and> w \<in> set (WS v)) (mclock_victim start v)"
proof -
  have step: "yields Q (andThen (mclock_loop P c start n cur x) f)"
    if "same_ws v x" "\<And>r y. same_ws v y \<Longrightarrow> (\<And>w. r = Some w \<Longrightarrow> w \<in> set (WS v)) \<Longrightarrow> yields Q (f (r, y))" for Q P c n cur x f
  proof (rule yields_andThen [OF mclock_loop_same])
    fix ry :: "wse option \<times> vm" assume "case ry of (r, v') \<Rightarrow> same_ws x v' \<and> (\<forall>w. r = Some w \<longrightarrow> w \<in> set (WS x))"
    then have "same_ws v (snd ry)" "\<And>w. fst ry = Some w \<Longrightarrow> w \<in> set (WS v)"
      using that(1) by (auto simp: same_ws_def split_beta)
    then show "yields Q (f ry)" using that(2) [of "snd ry" "fst ry"] by simp
  qed
  have last: "yields (\<lambda>(w, v'). same_ws v v' \<and> w \<in> set (WS v))
      (case ws_elem start (WS y) of None \<Rightarrow> Inl e | Some w \<Rightarrow> Inr (w, y))" if "same_ws v y" for y e
    using that ws_elem_Some [of start "WS y"] by (auto simp: same_ws_def split: option.split)
  show ?thesis
    unfolding mclock_victim_def
    by (rule step, simp add: same_ws_def, simp only: prod.case, simp split: option.split, intro impI, rule step, assumption,
        simp only: prod.case, simp split: option.split, intro impI, rule step, assumption, simp only: prod.case) 
      (simp split: option.split add: last)
qed

lemma lru_victim_mem: "lru_victim l = Some w \<Longrightarrow> w \<in> set l"
  using lru_loop_facts [of "0xFFFFFFFF" None l] by (simp add: lru_victim_def)

interpretation clock: victim_policy "\<lambda>v. clock_loop (Suc (length (WS v))) v"
  by unfold_locales (auto dest: yieldsD [OF clock_loop_same] simp: same_ws_def simp del: clock_loop.simps)

interpretation mclock: victim_policy "\<lambda>v. mclock_victim (if hand v = 0 then ws_first (WS v) else hand v) v"
  by unfold_locales (auto dest: yieldsD [OF mclock_victim_same] simp: same_ws_def)

interpretation lru: victim_policy
  "\<lambda>v. case lru_victim (WS v) of None \<Rightarrow> Inl (Panic '' No victim found in working set, for LRU.'') | Some w \<Rightarrow> Inr (w, v)"
  by unfold_locales (auto simp: lru_victim_mem split: option.splits)

lemma upd_elem_facts:
  assumes "distinct (map wse_addr l)" "w \<in> set l" "wse_addr (f w) = wse_addr w"
  shows "set (upd_elem (wse_addr w) f l) = insert (f w) (set l - {w})" "map wse_addr (upd_elem (wse_addr w) f l) = map wse_addr l"
proof -
  have i: "wse_addr x = wse_addr w \<longleftrightarrow> x = w" if "x \<in> set l" for x
    using assms(1,2) that by (auto simp: distinct_map dest: inj_onD)
  show "set (upd_elem (wse_addr w) f l) = insert (f w) (set l - {w})"
    using assms(2) by (auto simp: upd_elem_def i)
  show "map wse_addr (upd_elem (wse_addr w) f l) = map wse_addr l"
    using assms(3) by (auto simp: upd_elem_def i)
qed

lemma ws_next_mem: "ws_next a l = 0 \<or> ws_next a l \<in> wse_addr ` set l"
  by (induction a l rule: ws_next.induct) auto

lemma ws_first_mem: "l \<noteq> [] \<Longrightarrow> ws_first l \<in> wse_addr ` set l"
  by (cases l) (simp_all add: ws_first_def)

lemma ws_cycle_mem: "l \<noteq> [] \<Longrightarrow> ws_cycle a l \<in> wse_addr ` set l"
  using ws_next_mem [of a l] ws_first_mem [of l] by (auto simp: ws_cycle_def)

text \<open>The page \<open>va\<close> has taken the place of one page of \<open>l\<close>.\<close>

definition one_replaced :: "nat \<Rightarrow> wse list \<Rightarrow> wse list \<Rightarrow> bool" where
  "one_replaced va l l' \<longleftrightarrow> (\<exists>w \<in> set l. \<exists>w'. wse_addr w' = wse_addr w \<and> virtual_address w' = va \<and>
     set l' = insert w' (set l - {w}) \<and> length l' = length l \<and> distinct (map wse_addr l'))"

lemma one_replaced_length: "one_replaced va l l' \<Longrightarrow> length l' = length l"
  by (auto simp: one_replaced_def)

lemma upd_elem_replaced:
  assumes "distinct (map wse_addr l)" "w \<in> set l" "wse_addr (f w) = wse_addr w" "virtual_address (f w) = va"
  shows "one_replaced va l (upd_elem (wse_addr w) f l)"
proof -
  have "length (upd_elem (wse_addr w) f l) = length l" by (simp add: upd_elem_def)
  then show ?thesis
    unfolding one_replaced_def using upd_elem_facts [of l w f] assms by (intro bexI [of _ w] exI [of _ "f w"]) simp_all
qed

lemma moved_to_tail: "w \<in> set l \<Longrightarrow> one_replaced va l0 l \<Longrightarrow> one_replaced va l0 (remove1 w l @ [w])"
proof -
  assume a: "w \<in> set l" "one_replaced va l0 l"
  then have d: "distinct (map wse_addr l)" by (auto simp: one_replaced_def)
  then have "distinct l" by (simp add: distinct_map)
  then have s: "set (remove1 w l @ [w]) = set l" using a(1) by auto
  have "distinct (remove1 w l @ [w])" using \<open>distinct l\<close> by simp
  then have "distinct (map wse_addr (remove1 w l @ [w]))" using d s unfolding distinct_map by simp
  moreover have "length (remove1 w l @ [w]) = length l" using a(1) length_pos_if_in_set [OF a(1)] by (simp add: length_remove1)
  ultimately show ?thesis using a(2) s by (simp only: one_replaced_def) blast
qed

lemma swap_in_place:
  fixes va :: nat
  assumes "distinct (map wse_addr l)" "w \<in> set l" "l \<noteq> []"
  defines "l' \<equiv> upd_elem (wse_addr w) (\<lambda>w. w\<lparr>virtual_address := va\<rparr>) l"
  shows "one_replaced va l l'" "ws_cycle a l \<in> wse_addr ` set l'" "ws_cycle a l' \<in> wse_addr ` set l'"
proof -
  have m: "map wse_addr l' = map wse_addr l" unfolding l'_def by (rule upd_elem_facts(2) [OF assms(1,2)]) simp
  then have "wse_addr ` set l' = wse_addr ` set l" "l' \<noteq> []" using assms(3) by (metis list.set_map, auto)
  then show "ws_cycle a l \<in> wse_addr ` set l'" "ws_cycle a l' \<in> wse_addr ` set l'"
    using ws_cycle_mem [OF assms(3)] ws_cycle_mem [of l'] by simp_all
  show "one_replaced va l l'" unfolding l'_def by (rule upd_elem_replaced [OF assms(1,2)]) simp_all
qed

text \<open>
  C14. A page fault on a full working set replaces exactly one page, with CLOCK, modified CLOCK and LRU alike: one element of the
  set gets the page of the faulting address, all others are as before, the number of pages does not change, and the hand ends on
  an element of the set.
\<close>

theorem replacement_swaps_one_page:
  assumes "PageRepAlgoType v \<in> {PG_REP_CLOCK, PG_REP_LRU_TIME_APPROX, PG_REP_MODIFIEDCLOCK}"
    and "distinct (map wse_addr (WS v))" and "length (WS v) = page_WS_max_size (up v)" and "WS v \<noteq> []"
    and "page_fault_handler fault_va v = Inr v'"
  shows "one_replaced (ROUNDDOWN fault_va PAGE_SIZE) (WS v) (WS v') \<and> hand v' \<in> wse_addr ` set (WS v')"
proof -
  let ?va = "ROUNDDOWN fault_va PAGE_SIZE"
  consider (clock) "clock_replacement fault_va v = Inr v'" | (lru) "lru_replacement fault_va v = Inr v'"
    | (mclock) "modified_clock_replacement fault_va v = Inr v'"
    using assms(1,3,5) by (auto simp: page_fault_handler_def)
  then show ?thesis
  proof cases
    case clock
    then obtain w v1 v2 v3 where c: "clock_loop (Suc (length (WS v))) v = Inr (w, v1)" "send_out (virtual_address w) v1 = Inr v2"
        "bring_in ?va v2 = Inr v3" and
        e: "v' = set_hand (ws_cycle (wse_addr w) (WS v3)) (set_WS (upd_elem (wse_addr w) (\<lambda>w. w\<lparr>virtual_address := ?va\<rparr>) (WS v3)) v3)"
      by (auto simp: clock_replacement_def res_simps Let_def simp del: clock_loop.simps)
    note f = clock.swapped [OF c]
    have "WS v' = upd_elem (wse_addr w) (\<lambda>w. w\<lparr>virtual_address := ?va\<rparr>) (WS v)" "hand v' = ws_cycle (wse_addr w) (WS v)"
      using f(2) by (simp_all add: e set_WS_def upd_up_def)
    then show ?thesis
      using swap_in_place [OF assms(2) f(1) assms(4)] by simp
  next
    case lru
    then obtain w where v: "lru_victim (WS v) = Some w" by (auto simp: lru_replacement_def split: option.splits)
    let ?w = "w\<lparr>virtual_address := ?va, time_stamp := 0x80000000\<rparr>" and ?l = "upd_elem (wse_addr w) (\<lambda>_. w\<lparr>virtual_address := ?va, time_stamp := 0x80000000\<rparr>)"
    obtain v2 v3 v4 where c: "send_out (virtual_address w) v = Inr v2" "bring_in ?va v2 = Inr v3"
        and l: "?w \<in> set (?l (WS v3))" "v4 = set_WS (remove1 ?w (?l (WS v3)) @ [?w]) v3" and
        e: "in_mem (pt_set_page_permissions (upgdir v4) ?va PERM_USED 0)
          (set_hand (if length (WS v4) = page_WS_max_size (up v4) then ws_first (WS v4) else 0) v4) = Inr v'"
      using lru by (auto simp: lru_replacement_def v res_simps Let_def split: if_splits)
    have p: "(case lru_victim (WS v) of None \<Rightarrow> Inl (Panic '' No victim found in working set, for LRU.'') | Some w \<Rightarrow> Inr (w, v)) = Inr (w, v)"
      by (simp add: v)
    note f = lru.swapped [OF p c]
    have o: "one_replaced ?va (WS v) (remove1 ?w (?l (WS v)) @ [?w])"
      using l(1) upd_elem_replaced [OF assms(2) f(1), of "\<lambda>_. ?w"] by (intro moved_to_tail) (simp_all add: f(2))
    have n: "length (WS v4) = page_WS_max_size (up v4)" "WS v4 = remove1 ?w (?l (WS v)) @ [?w]"
      using one_replaced_length [OF o] assms(3) f by (simp_all add: l(2) set_WS_def upd_up_def)
    have "ws_of v' = ws_of (set_hand (ws_first (WS v4)) v4)" using yieldsD [OF in_mem_kept e] n(1) by simp
    then have "WS v' = remove1 ?w (?l (WS v)) @ [?w]" "hand v' = ws_first (WS v')" using n(2) by (simp_all add: ws_of_def)
    then show ?thesis using o ws_first_mem [of "WS v'"] by simp
  next
    case mclock
    then obtain w v1 v2 v3 v4 where c: "mclock_victim (if hand v = 0 then ws_first (WS v) else hand v) v = Inr (w, v1)"
        "send_out (virtual_address w) v1 = Inr v2" "bring_in ?va v2 = Inr v3" and
        l: "v4 = set_WS (upd_elem (wse_addr w) (\<lambda>w. w\<lparr>virtual_address := ?va\<rparr>) (WS v3)) v3" and
        e: "in_mem (pt_set_page_permissions (upgdir v4) ?va PERM_USED 0) (set_hand (ws_cycle (wse_addr w) (WS v4)) v4) = Inr v'"
      by (auto simp: modified_clock_replacement_def res_simps Let_def split: if_splits)
    note f = mclock.swapped [OF c]
    have "WS v' = upd_elem (wse_addr w) (\<lambda>w. w\<lparr>virtual_address := ?va\<rparr>) (WS v)" "hand v' = ws_cycle (wse_addr w) (WS v')"
      using yieldsD [OF in_mem_kept e] f(2) by (simp_all add: l set_WS_def upd_up_def ws_of_def)
    then show ?thesis using swap_in_place [OF assms(2) f(1) assms(4)] by simp
  qed
qed

text \<open>The sample with the hand on the third page, which was not used: its frame goes to the faulting page.\<close>

lemma sample_victim: "clock_loop (Suc n) (set_hand 0xF6000040 sample_vm) = Inr (sample_wse 2, set_hand 0xF6000040 sample_vm)"
proof -
  let ?v = "set_hand 0xF6000040 sample_vm"
  have v: "ws_ok ?v" "WS ?v \<noteq> []" "at (WS ?v) 2 = sample_wse 2" "hand ?v = wse_addr (at (WS ?v) 2)"
    using sample_ws_ok by (simp_all add: sample_ws at_def) (simp add: sample_wse_def)
  then show ?thesis using clock_step_eq [OF v(1,2,4)] sample_used(3) by (simp add: Let_def)
qed

lemmas sample_eval = sample_vm_def sample_kmem_def bare_kmem_def get_page_table_def PDX_def PTX_def CHECK_IF_KERNEL_ADDRESS_def
  kheap_virtual_address_def to_frame_info_def PPN_def EXTRACT_ADDRESS_def in_heap_region_def zero_frame_info_def u32_simps

lemma sample_frame_info: "get_frame_info (upgdir sample_vm) 0x80002000 (km sample_vm) = Inr (Some 152, 0xF6001000)"
  by (simp add: get_frame_info_def sample_table) (simp add: sample_eval)

definition sample_unmapped :: kmem where
  "sample_unmapped = set_entry 0xF6001000 2 0
     (set_frame 152 zero_frame_info (sample_kmem\<lparr>free_frame_list := [152, 200, 201]\<rparr>))"

lemma sample_unmap: "unmap_frame (upgdir sample_vm) 0x80002000 (km sample_vm) = Inr sample_unmapped"
proof -
  have k: "km sample_vm = sample_kmem" by (simp add: sample_vm_def)
  have d: "decrement_references 152 sample_kmem =
      Inr (set_frame 152 zero_frame_info (sample_kmem\<lparr>free_frame_list := [152, 200, 201]\<rparr>))"
    by (simp add: decrement_references_def sample_kmem_def bare_kmem_def dec16_def free_frame_def list_insert_head_def Let_def
        set_frame_def zero_frame_info_def)
  show ?thesis
    using sample_frame_info
    by (simp add: unmap_frame_def k d Let_def sample_unmapped_def PTX_def)
      (simp add: set_entry_def set_frame_def sample_kmem_def zero_frame_info_def)
qed

lemma sample_bring_in:
  assumes "km v = sample_unmapped" "up v = (up sample_vm)\<lparr>page_last_WS_element := h\<rparr>"
  shows "\<exists>v'. bring_in 0x80003000 v = Inr v'"
proof -
  have t: "get_page_table (upgdir v) 0x80003000 k = Inr (TABLE_IN_MEMORY, 0xF6001000)"
    if "directories k = directories sample_kmem" "number_of_frames k = number_of_frames sample_kmem" "da k = da sample_kmem"
      "kheapPageAllocStart k = 0" "\<not> kheap_lock k" "fi_va (frames_info k 301) = 0xF6001000" for k
    using that by (simp add: assms(2)) (simp add: sample_eval)
  obtain k where k: "allocate_frame sample_unmapped = Inr (152, k)"
      "k = set_frame 152 zero_frame_info (sample_unmapped\<lparr>free_frame_list := [200, 201]\<rparr>)"
    by (simp add: allocate_frame_def sample_unmapped_def sample_kmem_def bare_kmem_def Let_def list_remove_def set_entry_def set_frame_def)
  have tk: "get_page_table (upgdir v) 0x80003000 k = Inr (TABLE_IN_MEMORY, 0xF6001000)"
    by (rule t) (simp_all add: k(2) sample_unmapped_def set_frame_def set_entry_def sample_kmem_def bare_kmem_def)
  have "tables k 0xF6001000 3 = 0" by (simp add: k(2) sample_unmapped_def set_frame_def set_entry_def sample_kmem_def)
  then obtain k' where k': "map_frame create_page_table (upgdir v) 152 0x80003000 FAULT_PERMS k = Inr k'"
      "k' = set_entry 0xF6001000 3 (CONSTRUCT_ENTRY (to_physical_address 152) (FAULT_PERMS OR PERM_PRESENT))
         (set_frame 152 ((frames_info k 152)\<lparr>references := inc16 (references (frames_info k 152)), fi_va := 0x80003000\<rparr>) k)"
    using tk by (simp add: map_frame_def Let_def PTX_def set_frame_def)
  let ?v = "v\<lparr>km := k'\<rparr>"
  have "pf_read_env_page 0x80003000 ?v = Inr (E_PAGE_NOT_EXIST_IN_PF, ?v)"
    by (simp add: pf_read_env_page_def assms(2) k'(2) k(2) sample_unmapped_def get_disk_page_table_def disk_entry_def ROUNDDOWN_def
        set_frame_def set_entry_def) (simp add: sample_eval)
  moreover have "in_heap_or_stack 0x80003000" by (simp add: in_heap_or_stack_def)
  moreover have "v\<lparr>km := k, km := k'\<rparr> = ?v" by simp
  ultimately show ?thesis
    using k(1) k'(1) by (simp add: bring_in_def assms(1) in_mem_def)
qed

lemma sample_fault: "\<exists>v'. page_fault_handler 0x80003004 (set_hand 0xF6000040 sample_vm) = Inr v'"
proof -
  let ?v = "set_hand 0xF6000040 sample_vm"
  have "virtual_address (sample_wse 2) = 0x80002000" by (simp add: sample_wse_def)
  moreover have "upte sample_vm 0x80002000 = 0x98007" "has_table sample_vm 0x80002000"
    using sample_utable(1,4) [of 2] by (simp_all add: sample_wse_def sample_kmem_def)
  ultimately have "send_out (virtual_address (sample_wse 2)) ?v = Inr (?v\<lparr>km := sample_unmapped\<rparr>)"
    using sample_unmap get_permissions [of sample_vm "0x80002000"] by (simp add: send_out_def in_mem_def)
  moreover obtain v' where "bring_in 0x80003000 (?v\<lparr>km := sample_unmapped\<rparr>) = Inr v'"
    using sample_bring_in [of "?v\<lparr>km := sample_unmapped\<rparr>"] by auto
  moreover have "PageRepAlgoType ?v = PG_REP_CLOCK" "page_WS_max_size (up sample_vm) = 3" "ROUNDDOWN 0x80003004 4096 = 0x80003000"
    by (simp_all add: sample_vm_def set_hand_def upd_up_def ROUNDDOWN_def)
  ultimately show ?thesis
    using sample_victim [of "length (WS ?v)"] sample_frame_info
    by (simp add: page_fault_handler_def clock_replacement_def sample_ws sample_wse_def del: clock_loop.simps)
qed

theorem replacement_swaps_one_page_witness:
  "\<exists>v'. page_fault_handler 0x80003004 (set_hand 0xF6000040 sample_vm) = Inr v' \<and>
     one_replaced 0x80003000 (WS sample_vm) (WS v')"
proof -
  let ?v = "set_hand 0xF6000040 sample_vm"
  obtain v' where p: "page_fault_handler 0x80003004 ?v = Inr v'" using sample_fault by blast
  have "PageRepAlgoType ?v = PG_REP_CLOCK" "length (WS ?v) = page_WS_max_size (up ?v)" "distinct (map wse_addr (WS ?v))"
    using ws_okD(1) [OF sample_ws_ok] by (simp_all add: sample_vm_def set_hand_def upd_up_def)
  then show ?thesis
    using replacement_swaps_one_page [OF _ _ _ _ p] p by (simp add: sample_ws ROUNDDOWN_def)
qed

end
