(* ===== verification/Optimal_Faults.thy ===== *)
theory Optimal_Faults
  imports Fault_Handler
begin

text \<open>
  The number that \<^verbatim>\<open>get_optimal_num_faults\<close> returns is the least number of faults with which any demand paging
  strategy can serve the reference stream (Belady's theorem, for the loops of
  \<^verbatim>\<open>src/kern/trap/fault_handler.c\<close>). A strategy is what it does on a miss: it loads the page and keeps any of the
  others that fit. The argument exchanges the pages of two working sets: keeping the page that is used sooner is never worse.
\<close>

section \<open>Demand paging\<close>

text \<open>\<open>serves k S ps n\<close>: with room for \<open>k\<close> pages and the pages \<open>S\<close> in memory, some strategy serves \<open>ps\<close> with \<open>n\<close> faults.\<close>

inductive serves :: "nat \<Rightarrow> nat set \<Rightarrow> nat list \<Rightarrow> nat \<Rightarrow> bool" for k where
  serves_done: "serves k S [] 0"
| serves_hit: "p \<in> S \<Longrightarrow> serves k S ps n \<Longrightarrow> serves k S (p # ps) n"
| serves_miss: "p \<notin> S \<Longrightarrow> p \<in> S' \<Longrightarrow> S' \<subseteq> insert p S \<Longrightarrow> card S' \<le> k \<Longrightarrow> serves k S' ps n \<Longrightarrow> serves k S (p # ps) (Suc n)"

inductive_simps serves_Nil [simp]: "serves k S [] n"
inductive_cases serves_ConsE: "serves k S (p # ps) n"

definition no_worse :: "nat \<Rightarrow> nat set \<Rightarrow> nat list \<Rightarrow> nat \<Rightarrow> bool" where
  "no_worse k S ps n \<longleftrightarrow> (\<exists>m \<le> n. serves k S ps m)"

lemma no_worse_hit: "p \<in> S \<Longrightarrow> no_worse k S ps n \<Longrightarrow> no_worse k S (p # ps) n"
  by (auto simp: no_worse_def intro: serves_hit)

lemma no_worse_miss:
  "p \<notin> S \<Longrightarrow> p \<in> S' \<Longrightarrow> S' \<subseteq> insert p S \<Longrightarrow> card S' \<le> k \<Longrightarrow> no_worse k S' ps n \<Longrightarrow> no_worse k S (p # ps) (Suc n)"
  by (auto simp: no_worse_def intro: serves_miss)

lemma no_worse_mono: "no_worse k S ps n \<Longrightarrow> n \<le> m \<Longrightarrow> no_worse k S ps m"
  by (auto simp: no_worse_def intro: le_trans)

text \<open>More pages in memory are not worse.\<close>

lemma superset_no_worse: "serves k S ps n \<Longrightarrow> S \<subseteq> T \<Longrightarrow> no_worse k T ps n"
proof (induction arbitrary: T rule: serves.induct)
  case (serves_done S)
  then show ?case by (auto simp: no_worse_def)
next
  case (serves_hit p S ps n)
  then show ?case by (blast intro: no_worse_hit)
next
  case (serves_miss p S S' ps n)
  show ?case
  proof (cases "p \<in> T")
    case True
    then have "no_worse k T ps n" using serves_miss by blast
    then show ?thesis using True by (blast intro: no_worse_hit no_worse_mono le_SucI)
  next
    case False
    have "S' \<subseteq> insert p T" using serves_miss.hyps serves_miss.prems by blast
    then show ?thesis using False serves_miss.hyps serves_miss.IH [of S'] by (blast intro: no_worse_miss)
  qed
qed

text \<open>One page more in the other set costs at most one fault.\<close>

lemma one_page_one_fault: "serves k S ps n \<Longrightarrow> finite S \<Longrightarrow> card S \<le> k \<Longrightarrow> S \<subseteq> insert b T \<Longrightarrow> no_worse k T ps (Suc n)"
proof (induction arbitrary: T rule: serves.induct)
  case (serves_done S)
  then show ?case by (auto simp: no_worse_def)
next
  case (serves_hit p S ps n)
  show ?case
  proof (cases "p \<in> T")
    case True
    then show ?thesis using serves_hit by (blast intro: no_worse_hit)
  next
    case False
    then have b: "p = b" using serves_hit by blast
    have "no_worse k S ps n" using serves_hit.hyps(2) by (auto simp: no_worse_def)
    then show ?thesis using no_worse_miss [OF False serves_hit.hyps(1)] serves_hit.prems b by blast
  qed
next
  case (serves_miss p S S' ps n)
  have fin: "finite S'" using serves_miss.hyps(3) serves_miss.prems(1) by (meson finite.insertI finite_subset)
  show ?case
  proof (cases "p \<in> T")
    case True
    then have "S' \<subseteq> insert b T" using serves_miss.hyps(3) serves_miss.prems(3) by blast
    then have "no_worse k T ps (Suc n)" using serves_miss.IH [OF fin serves_miss.hyps(4)] by blast
    then show ?thesis using True by (blast intro: no_worse_hit no_worse_mono le_SucI)
  next
    case p: False
    show ?thesis
    proof (cases "p = b")
      case True
      then have "S' \<subseteq> insert p T" using serves_miss.hyps(1,3) serves_miss.prems(3) by blast
      moreover have "no_worse k S' ps n" using serves_miss.hyps(5) by (auto simp: no_worse_def)
      ultimately have "no_worse k T (p # ps) (Suc n)" by (intro no_worse_miss [OF p serves_miss.hyps(2) _ serves_miss.hyps(4)])
      then show ?thesis by (rule no_worse_mono) simp
    next
      case False
      let ?T = "S' - {b}"
      have "card ?T \<le> k" using serves_miss.hyps(4) fin by (meson card_Diff1_le le_trans)
      moreover have "p \<in> ?T" "?T \<subseteq> insert p T" using False serves_miss.hyps(2,3) serves_miss.prems(3) by auto
      moreover have "no_worse k ?T ps (Suc n)" by (rule serves_miss.IH [OF fin serves_miss.hyps(4)]) auto
      ultimately show ?thesis by (intro no_worse_miss [OF p, of ?T])
    qed
  qed
qed

text \<open>\<open>a\<close> is used again before \<open>b\<close>, or \<open>b\<close> is not used again.\<close>

fun sooner :: "nat \<Rightarrow> nat \<Rightarrow> nat list \<Rightarrow> bool" where
  "sooner a b [] = True"
| "sooner a b (p # ps) \<longleftrightarrow> p = a \<or> p \<noteq> b \<and> sooner a b ps"

lemma keep_sooner:
  "serves k S ps n \<Longrightarrow> finite S \<Longrightarrow> card S \<le> k \<Longrightarrow> S \<subseteq> insert b (T - {a}) \<Longrightarrow> a \<in> T \<Longrightarrow> a \<noteq> b \<Longrightarrow> sooner a b ps \<Longrightarrow>
    no_worse k T ps n"
proof (induction arbitrary: T rule: serves.induct)
  case (serves_done S)
  then show ?case by (auto simp: no_worse_def)
next
  case (serves_hit p S ps n)
  then have p: "p \<noteq> a" "p \<noteq> b" "p \<in> T" "sooner a b ps" by auto
  then show ?case using serves_hit.IH [OF serves_hit.prems(1-5)] by (blast intro: no_worse_hit)
next
  case (serves_miss p S S' ps n)
  have fin: "finite S'" using serves_miss.hyps(3) serves_miss.prems(1) by (meson finite.insertI finite_subset)
  note IH = serves_miss.IH [OF fin serves_miss.hyps(4)]
  have same: "no_worse k S' ps n" using serves_miss.hyps(5) by (auto simp: no_worse_def)
  consider (a) "p = a" | (b) "p \<noteq> a" "p \<noteq> b" "sooner a b ps" "p \<in> T" | (c) "p \<noteq> a" "p \<noteq> b" "sooner a b ps" "p \<notin> T"
    using serves_miss.prems(6) by auto
  then show ?case
  proof cases
    case a
    then have "S' \<subseteq> insert b T" using serves_miss.hyps(3) serves_miss.prems(3,4) by blast
    then have "no_worse k T ps (Suc n)" using one_page_one_fault [OF serves_miss.hyps(5) fin serves_miss.hyps(4)] by blast
    then show ?thesis using a serves_miss.prems(4) by (blast intro: no_worse_hit)
  next
    case b
    then have "S' \<subseteq> insert b (T - {a})" using serves_miss.hyps(3) serves_miss.prems(3) by blast
    then have "no_worse k T ps n" using IH serves_miss.prems(4,5) b(3) by blast
    then show ?thesis using b(4) by (blast intro: no_worse_hit no_worse_mono le_SucI)
  next
    case c
    have na: "a \<notin> S'" using c(1) serves_miss.hyps(3) serves_miss.prems(3,5) by blast
    show ?thesis
    proof (cases "b \<in> S'")
      case True
      let ?T = "insert a (S' - {b})"
      have "card ?T = card S'" using card_Suc_Diff1 [OF fin True] na fin by simp
      then have "card ?T \<le> k" using serves_miss.hyps(4) by simp
      moreover have "p \<in> ?T" "?T \<subseteq> insert p T" using c serves_miss.hyps(2,3) serves_miss.prems(3,4) by auto
      moreover have "no_worse k ?T ps n" using IH [of ?T] na serves_miss.prems(5) c(3) by blast
      ultimately show ?thesis by (intro no_worse_miss [OF c(4), of ?T])
    next
      case False
      then have "S' \<subseteq> insert p T" using serves_miss.hyps(3) serves_miss.prems(3) by blast
      then show ?thesis using no_worse_miss [OF c(4) serves_miss.hyps(2) _ serves_miss.hyps(4) same] by blast
    qed
  qed
qed

section \<open>The victim is the page used last\<close>

lemma next_use_bounds: "d + length refs < INT_MAX \<Longrightarrow> d < next_use p refs d \<and> next_use p refs d \<le> INT_MAX"
proof (induction refs arbitrary: d)
  case (Cons r refs)
  then have "Suc d < next_use p refs (Suc d) \<and> next_use p refs (Suc d) \<le> INT_MAX" using Cons.IH [of "Suc d"] by simp
  then show ?case using Cons.prems by auto
qed simp

abbreviation pages_of :: "nat list \<Rightarrow> nat list" where
  "pages_of refs \<equiv> map (\<lambda>r. ROUNDDOWN r PAGE_SIZE) refs"

lemma next_use_sooner:
  "d + length refs < INT_MAX \<Longrightarrow> a \<noteq> b \<Longrightarrow> next_use a refs d \<le> next_use b refs d \<Longrightarrow> sooner a b (pages_of refs)"
proof (induction refs arbitrary: d)
  case (Cons r refs)
  then show ?case using Cons.IH [of "Suc d"] next_use_bounds [of "Suc d" refs a] by (auto split: if_splits)
qed simp

lemma opt_victim_max:
  assumes "length refs < INT_MAX" "ws = pre @ ps" "ws \<noteq> []"
    "\<forall>q \<in> set pre. next_use q refs 0 \<le> best"
    "if pre = [] then best = 0 \<and> vic = 0 else vic < length pre \<and> best = next_use (ws ! vic) refs 0"
  defines "j \<equiv> opt_victim ps refs (length pre) best vic"
  shows "j < length ws \<and> (\<forall>q \<in> set ws. next_use q refs 0 \<le> next_use (ws ! j) refs 0)"
  using assms(2,4,5) unfolding j_def
proof (induction ps arbitrary: pre best vic)
  case Nil
  then show ?case using assms(3) by auto
next
  case (Cons p ps)
  have nu: "0 < next_use q refs 0" "next_use q refs 0 \<le> INT_MAX" for q
    using next_use_bounds [of 0 refs q] assms(1) by auto
  let ?d = "next_use p refs 0"
  define best' where "best' = (if ?d > best then ?d else best)"
  define vic' where "vic' = (if ?d > best then length pre else vic)"
  have w: "ws ! length pre = p" "ws = (pre @ [p]) @ ps" using Cons.prems(1) by auto
  have 1: "\<forall>q \<in> set (pre @ [p]). next_use q refs 0 \<le> best'" using Cons.prems(2) by (auto simp: best'_def)
  have 2: "vic' < length (pre @ [p]) \<and> best' = next_use (ws ! vic') refs 0"
    using Cons.prems(3) w(1) nu(1) [of p] by (auto simp: best'_def vic'_def split: if_splits)
  have "opt_victim (p # ps) refs (length pre) best vic =
      (if best' = INT_MAX then vic' else opt_victim ps refs (length (pre @ [p])) best' vic')"
    by (simp add: best'_def vic'_def Let_def)
  moreover have "vic' < length ws \<and> (\<forall>q \<in> set ws. next_use q refs 0 \<le> next_use (ws ! vic') refs 0)" if "best' = INT_MAX"
    using 2 that nu(2) w(2) by auto
  ultimately show ?case using Cons.IH [OF w(2) 1] 2 by simp
qed

section \<open>The loop is optimal\<close>

lemma opt_loop_acc: "opt_loop k ws refs f = f + opt_loop k ws refs 0"
proof (induction refs arbitrary: ws f)
  case (Cons r refs)
  have "opt_loop k ws' refs (Suc f) = Suc f + opt_loop k ws' refs 0" "opt_loop k ws' refs (Suc 0) = Suc 0 + opt_loop k ws' refs 0"
    "opt_loop k ws' refs f = f + opt_loop k ws' refs 0" for ws' by (rule Cons.IH)+
  then show ?case by (simp add: Let_def)
qed simp

lemma distinct_update: "distinct ws \<Longrightarrow> j < length ws \<Longrightarrow> p \<notin> set ws \<Longrightarrow>
    distinct (ws[j := p]) \<and> set (ws[j := p]) = insert p (set ws - {ws ! j})"
  by (auto simp: distinct_list_update set_update_distinct)

text \<open>What the loop does to its array on a miss, as a step of a strategy.\<close>

definition opt_next :: "nat \<Rightarrow> nat list \<Rightarrow> nat \<Rightarrow> nat list \<Rightarrow> nat list" where
  "opt_next k ws p refs = (if length ws < k then ws @ [p] else ws[opt_victim ws refs 0 0 0 := p])"

lemma opt_loop_Cons:
  "opt_loop k ws (r # refs) 0 =
    (if ROUNDDOWN r PAGE_SIZE \<in> set ws then opt_loop k ws refs 0
     else Suc (opt_loop k (opt_next k ws (ROUNDDOWN r PAGE_SIZE) refs) refs 0))"
  using opt_loop_acc [of k _ refs "Suc 0"] by (simp add: Let_def opt_next_def)

lemma opt_next_facts:
  assumes "distinct ws" "length ws \<le> k" "0 < k" "p \<notin> set ws" "length refs < INT_MAX"
  shows "distinct (opt_next k ws p refs)" "length (opt_next k ws p refs) \<le> k"
    "p \<in> set (opt_next k ws p refs)" "set (opt_next k ws p refs) \<subseteq> insert p (set ws)"
    "S \<subseteq> insert p (set ws) \<Longrightarrow> card S \<le> k \<Longrightarrow> p \<in> S \<Longrightarrow> serves k S (pages_of refs) n \<Longrightarrow>
       no_worse k (set (opt_next k ws p refs)) (pages_of refs) n"
proof -
  let ?j = "opt_victim ws refs 0 0 0" and ?w = "opt_next k ws p refs"
  have j: "?j < length ws" "\<forall>q \<in> set ws. next_use q refs 0 \<le> next_use (ws ! ?j) refs 0" if full: "\<not> length ws < k"
  proof -
    have "ws \<noteq> []" using full assms(3) by auto
    then show "?j < length ws" "\<forall>q \<in> set ws. next_use q refs 0 \<le> next_use (ws ! ?j) refs 0"
      using opt_victim_max [OF assms(5), of ws "[]" ws 0 0] by auto
  qed
  note u = distinct_update [OF assms(1) j(1) assms(4)]
  show 1: "distinct ?w" "length ?w \<le> k" "p \<in> set ?w" "set ?w \<subseteq> insert p (set ws)"
    using assms(1,2,4) u by (auto simp: opt_next_def)
  assume S: "S \<subseteq> insert p (set ws)" "card S \<le> k" "p \<in> S" "serves k S (pages_of refs) n"
  show "no_worse k (set ?w) (pages_of refs) n"
  proof (cases "length ws < k")
    case True
    then have "S \<subseteq> set ?w" using S(1) by (auto simp: opt_next_def)
    then show ?thesis by (rule superset_no_worse [OF S(4)])
  next
    case full: False
    let ?v = "ws ! ?j"
    have w: "set ?w = insert p (set ws - {?v})" using u [OF full] full by (simp add: opt_next_def)
    have fin: "finite S" using S(1) finite_subset by blast
    have "card (insert p (set ws)) = Suc k" using assms(1,2,4) full by (simp add: distinct_card)
    then obtain e where e: "e \<in> set ws" "e \<notin> S" using S fin
      by (metis assms(4) card_mono insert_subset not_less_eq_eq subsetI List.finite_set)
    show ?thesis
    proof (cases "e = ?v")
      case True
      then have "S \<subseteq> set ?w" using S(1) e(2) w by blast
      then show ?thesis by (rule superset_no_worse [OF S(4)])
    next
      case False
      have "sooner e ?v (pages_of refs)" using next_use_sooner [OF _ False, of 0 refs] j(2) [OF full] e(1) assms(5) by simp
      moreover have "S \<subseteq> insert ?v (set ?w - {e})" "e \<in> set ?w" using S(1,3) e w False by auto
      ultimately show ?thesis using keep_sooner [OF S(4) fin S(2) _ _ False] by blast
    qed
  qed
qed

lemma opt_loop_serves:
  "distinct ws \<Longrightarrow> length ws \<le> k \<Longrightarrow> 0 < k \<Longrightarrow> length refs < INT_MAX \<Longrightarrow>
    serves k (set ws) (pages_of refs) (opt_loop k ws refs 0)"
proof (induction refs arbitrary: ws)
  case (Cons r refs)
  let ?p = "ROUNDDOWN r PAGE_SIZE"
  have l: "length refs < INT_MAX" using Cons.prems(4) by simp
  show ?case
  proof (cases "?p \<in> set ws")
    case True
    then show ?thesis using Cons.IH [OF Cons.prems(1-3) l] by (simp only: opt_loop_Cons if_True list.map serves_hit)
  next
    case False
    note n = opt_next_facts [OF Cons.prems(1-3) False l]
    have "card (set (opt_next k ws ?p refs)) \<le> k" using n(1,2) by (simp add: distinct_card)
    then show ?thesis
      using serves_miss [OF False n(3,4) _ Cons.IH [OF n(1,2) Cons.prems(3) l]] False by (simp only: opt_loop_Cons if_False list.map)
  qed
qed simp

lemma opt_loop_least:
  "distinct ws \<Longrightarrow> length ws \<le> k \<Longrightarrow> 0 < k \<Longrightarrow> length refs < INT_MAX \<Longrightarrow> serves k (set ws) (pages_of refs) n \<Longrightarrow>
    opt_loop k ws refs 0 \<le> n"
proof (induction refs arbitrary: ws n)
  case (Cons r refs)
  let ?p = "ROUNDDOWN r PAGE_SIZE"
  have l: "length refs < INT_MAX" using Cons.prems(4) by simp
  from Cons.prems(5) have "serves k (set ws) (?p # pages_of refs) n" by simp
  then consider (hit) "?p \<in> set ws" "serves k (set ws) (pages_of refs) n"
    | (miss) S m where "n = Suc m" "?p \<notin> set ws" "?p \<in> S" "S \<subseteq> insert ?p (set ws)" "card S \<le> k" "serves k S (pages_of refs) m"
    by (rule serves_ConsE)
  then show ?case
  proof cases
    case hit
    have "opt_loop k ws refs 0 \<le> n" by (rule Cons.IH [OF Cons.prems(1-3) l hit(2)])
    then show ?thesis using hit(1) by (simp only: opt_loop_Cons if_True)
  next
    case miss
    note f = opt_next_facts [OF Cons.prems(1-3) miss(2) l]
    obtain m' where m': "m' \<le> m" "serves k (set (opt_next k ws ?p refs)) (pages_of refs) m'"
      using f(5) [OF miss(4,5,3,6)] by (auto simp: no_worse_def)
    have "opt_loop k (opt_next k ws ?p refs) refs 0 \<le> m'" by (rule Cons.IH [OF f(1,2) Cons.prems(3) l m'(2)])
    then show ?thesis using m'(1) miss(1,2) by (simp only: opt_loop_Cons if_False)
  qed
qed simp

section \<open>The routine\<close>

lemma kmalloc_kfree_array:
  assumes "heap_inv s" "\<not> kheap_lock s" "0 < sz" "sz \<le> DYN_ALLOC_MAX_BLOCK_SIZE" "free_frame_list s \<noteq> []" "freePagesList (da s) \<noteq> []"
  shows "\<exists>p s1 s2. kmalloc sz s = Inr (p, s1) \<and> p \<noteq> 0 \<and> kfree p s1 = Inr s2 \<and> heap_inv s2 \<and> \<not> kheap_lock s2 \<and>
    allocated (da s2) = allocated (da s) \<and> bulks_allocated s2 = bulks_allocated s"
proof -
  have nf: "\<not> alloc_fails e 0 s" for e using assms(5,6) by (simp add: alloc_fails_def)
  obtain p s1 where k: "kmalloc sz s = Inr (p, s1)" "heap_inv s1" "\<not> kheap_lock s1" "block_added p (da s) (da s1)"
      "bulks s1 = bulks s" "bulks_allocated s1 = bulks_allocated s"
    using kmalloc_block [OF assms(1-4)] nf by (cases "kmalloc sz s") auto
  have p: "p \<notin> allocated (da s)" "allocated (da s1) = insert p (allocated (da s))" using k(4) by (simp_all add: block_added_def)
  have "bulk_addr ` (set (bulks s) \<union> set (bulks_allocated s)) \<subseteq> allocated (da s)"
    using assms(1) by (auto simp: heap_inv_def heap_core_def nodes_ok_def)
  then have nb: "p \<notin> bulk_addr ` (set (bulks s1) \<union> set (bulks_allocated s1))" using p(1) by (auto simp: k(5,6))
  have "dynAllocStart (da s1) = KERNEL_HEAP_START" using k(2) by (simp add: heap_inv_def heap_core_def block_region_ok_def)
  moreover have "p \<in> allocated (da s1)" by (simp add: p(2))
  then have "dynAllocStart (da s1) \<le> p" unfolding allocated_def by blast
  ultimately have "p \<noteq> 0" by simp
  moreover obtain s2 where "kfree p s1 = Inr s2" "heap_inv s2" "\<not> kheap_lock s2" "allocated (da s2) = allocated (da s1) - {p}"
      "bulks_allocated s2 = bulks_allocated s1"
    using kfree_small_block [OF k(2,3) _ nb] p(2) by auto
  ultimately show ?thesis using k(1,6) p by (intro exI [of _ p] exI [of _ s1] exI [of _ s2]) simp
qed

text \<open>
  C7. \<^verbatim>\<open>get_optimal_num_faults\<close> returns, and its result is the least number of faults of any demand paging strategy that
  starts with the given working set and has room for \<open>k\<close> pages: one strategy reaches it and none is below. The array it
  works on is released: the heap is as before. The working set has distinct pages and fits in \<open>k\<close>, which is 1 to 512, the
  references are fewer than \<open>INT_MAX\<close>, and the heap has a free frame and a free page for the array.
\<close>

theorem get_optimal_num_faults_least:
  assumes "heap_inv s" and "\<not> kheap_lock s" and "free_frame_list s \<noteq> []" and "freePagesList (da s) \<noteq> []"
    and "0 < k" and "k \<le> 512" and "distinct (map virtual_address ws)" and "length ws \<le> k" and "length refs < INT_MAX"
  shows "\<exists>n s'. get_optimal_num_faults ws k refs s = Inr (n, s') \<and>
           serves k (virtual_address ` set ws) (pages_of refs) n \<and>
           (\<forall>m. serves k (virtual_address ` set ws) (pages_of refs) m \<longrightarrow> n \<le> m) \<and>
           heap_inv s' \<and> \<not> kheap_lock s' \<and> allocated (da s') = allocated (da s) \<and> bulks_allocated s' = bulks_allocated s"
proof -
  have sz: "mul32 k 4 = k * 4" "0 < k * 4" "k * 4 \<le> 2048" using assms(5,6) by (simp_all add: mul32_def)
  obtain p s1 s2 where k: "kmalloc (k * 4) s = Inr (p, s1)" "p \<noteq> 0" "kfree p s1 = Inr s2" "heap_inv s2" "\<not> kheap_lock s2"
      "allocated (da s2) = allocated (da s)" "bulks_allocated s2 = bulks_allocated s"
    using kmalloc_kfree_array [OF assms(1,2) sz(2,3) assms(3,4)] by blast
  have "get_optimal_num_faults ws k refs s = Inr (opt_loop k (map virtual_address ws) refs 0, s2)"
    using k(1-3) assms(8) by (simp add: get_optimal_num_faults_def sz(1) take_map)
  moreover have "length (map virtual_address ws) \<le> k" using assms(8) by simp
  ultimately show ?thesis
    using opt_loop_serves [OF assms(7) _ assms(5,9)] opt_loop_least [OF assms(7) _ assms(5,9)] k(4-7) by simp
qed

theorem get_optimal_num_faults_least_witness:
  "\<exists>s'. get_optimal_num_faults [sample_wse 0, sample_wse 1] 2 [0x80002000, 0x80000010, 0x80001000, 0x80000000] boot_kmem = Inr (2, s')"
proof -
  let ?ws = "[sample_wse 0, sample_wse 1]" and ?refs = "[0x80002000, 0x80000010, 0x80001000, 0x80000000]"
  have d: "distinct (map virtual_address ?ws)" by (simp add: sample_wse_def)
  obtain n s' where "get_optimal_num_faults ?ws 2 ?refs boot_kmem = Inr (n, s')"
    using get_optimal_num_faults_least [OF boot_heap_inv _ _ _ _ d, of 2 ?refs] by (auto simp: boot_kmem_def)
  moreover from this have "n = 2"
    by (auto simp: get_optimal_num_faults_def res_simps sample_wse_def ROUNDDOWN_def split: if_splits)
  ultimately show ?thesis by blast
qed

end
