(* ===== verification/User_Memory.thy ===== *)
theory User_Memory
  imports Fault_Handler
begin

text \<open>
  The kernel side of the user heap: \<^verbatim>\<open>src/kern/mem/chunk_operations.c\<close> and the memory system calls of
  \<^verbatim>\<open>src/kern/trap/syscall.c\<close>. The calls run on behalf of the current environment, which is the one \<open>up\<close> describes;
  \<^verbatim>\<open>get_cpu_proc()\<close> is not null in a system call.
\<close>

unbundle bit_operations_syntax

section \<open>Chunks\<close>

definition cut_paste_pages :: "nat \<Rightarrow> nat \<Rightarrow> nat \<Rightarrow> nat \<Rightarrow> vm \<Rightarrow> (int \<times> vm) result" where
  "cut_paste_pages page_directory source_va dest_va num_of_pages v = Inl (Panic ''cut_paste_pages() is not implemented yet...!!'')"

definition copy_paste_chunk :: "nat \<Rightarrow> nat \<Rightarrow> nat \<Rightarrow> nat \<Rightarrow> vm \<Rightarrow> (int \<times> vm) result" where
  "copy_paste_chunk page_directory source_va dest_va sz v = Inl (Panic ''copy_paste_chunk() is not implemented yet...!!'')"

definition share_chunk :: "nat \<Rightarrow> nat \<Rightarrow> nat \<Rightarrow> nat \<Rightarrow> u32 \<Rightarrow> vm \<Rightarrow> (int \<times> vm) result" where
  "share_chunk page_directory source_va dest_va sz perms v = Inl (Panic ''share_chunk() is not implemented yet...!!'')"

definition allocate_chunk :: "nat \<Rightarrow> nat \<Rightarrow> nat \<Rightarrow> u32 \<Rightarrow> vm \<Rightarrow> (int \<times> vm) result" where
  "allocate_chunk page_directory va sz perms v = Inl (Panic ''allocate_chunk() is not implemented yet...!!'')"

definition calculate_free_space :: "nat \<Rightarrow> nat \<Rightarrow> nat \<Rightarrow> vm \<Rightarrow> nat result" where
  "calculate_free_space page_directory sva eva v = Inl (Panic ''calculate_free_space() is not implemented yet...!!'')"

definition calculate_allocated_space :: "nat \<Rightarrow> nat \<Rightarrow> nat \<Rightarrow> vm \<Rightarrow> (nat \<times> nat) result" where
  "calculate_allocated_space page_directory sva eva v = Inl (Panic ''calculate_allocated_space() is not implemented yet...!!'')"

definition sys_sbrk :: "int \<Rightarrow> vm \<Rightarrow> (nat \<times> vm) result" where
  "sys_sbrk numOfPages v = Inl (Panic ''not implemented function'')"

definition calculate_required_frames :: "nat \<Rightarrow> nat \<Rightarrow> nat \<Rightarrow> vm \<Rightarrow> nat result" where
  "calculate_required_frames page_directory sva sz v = Inl (Panic ''calculate_required_frames() is not implemented yet...!!'')"

definition free_user_mem_with_buffering :: "nat \<Rightarrow> nat \<Rightarrow> vm \<Rightarrow> vm result" where
  "free_user_mem_with_buffering va sz v = Inl (Panic ''__free_user_mem_with_buffering() is not implemented yet...!!'')"

definition move_user_mem :: "nat \<Rightarrow> nat \<Rightarrow> nat \<Rightarrow> vm \<Rightarrow> vm result" where
  "move_user_mem src_virtual_address dst_virtual_address sz v = Inl (Panic ''move_user_mem() is not implemented yet...!!'')"

text \<open>Marking one page: its entry becomes \<^verbatim>\<open>PERM_UHPAGE\<close>, whatever it was before.\<close>

definition mark_page :: "nat \<Rightarrow> vm \<Rightarrow> vm result" where
  "mark_page cur v =
     andThen (get_page_table (upgdir v) cur (km v)) (\<lambda>(_, t).
     andThen (if t = 0 then create_page_table (upgdir v) cur (km v) else Inr (t, km v)) (\<lambda>(t, k).
     Inr (v\<lparr>km := set_entry t (PTX cur) PERM_UHPAGE k\<rparr>)))"

text \<open>The loops step through whole pages from \<open>cur\<close> to \<open>end\<close>; \<open>n\<close> turns are enough unless \<open>cur\<close> wraps.\<close>

fun mark_loop :: "nat \<Rightarrow> nat \<Rightarrow> nat \<Rightarrow> vm \<Rightarrow> vm result" where
  "mark_loop n cur end_va v =
     (if cur < end_va then
        (case n of 0 \<Rightarrow> Inl Spins | Suc n \<Rightarrow> andThen (mark_page cur v) (mark_loop n (add32 cur PAGE_SIZE) end_va))
      else Inr v)"

declare mark_loop.simps [simp del]

definition page_count :: "nat \<Rightarrow> nat \<Rightarrow> nat" where
  "page_count va sz = Suc (Suc (sz div PAGE_SIZE))"

definition allocate_user_mem :: "nat \<Rightarrow> nat \<Rightarrow> vm \<Rightarrow> vm result" where
  "allocate_user_mem va sz v =
     mark_loop (page_count va sz) (ROUNDDOWN va PAGE_SIZE) (ROUNDUP (add32 va sz) PAGE_SIZE) v"

definition release_page :: "nat \<Rightarrow> vm \<Rightarrow> vm result" where
  "release_page va v =
     andThen (in_mem (pt_set_page_permissions (upgdir v) va 0 PERM_UHPAGE) v) (\<lambda>v.
     andThen (pf_remove_env_page va v) (\<lambda>v.
     andThen (env_page_ws_invalidate va v) (\<lambda>v.
     in_mem (unmap_frame (upgdir v) va) v)))"

fun release_loop :: "nat \<Rightarrow> nat \<Rightarrow> nat \<Rightarrow> vm \<Rightarrow> vm result" where
  "release_loop n cur end_va v =
     (if cur < end_va then
        (case n of 0 \<Rightarrow> Inl Spins | Suc n \<Rightarrow> andThen (release_page cur v) (release_loop n (add32 cur PAGE_SIZE) end_va))
      else Inr v)"

declare release_loop.simps [simp del]

definition free_user_mem :: "nat \<Rightarrow> nat \<Rightarrow> vm \<Rightarrow> vm result" where
  "free_user_mem va sz v =
     release_loop (page_count va sz) (ROUNDDOWN va PAGE_SIZE) (ROUNDUP (add32 va sz) PAGE_SIZE) v"

section \<open>System calls\<close>

abbreviation E_BAD_ENV :: int where "E_BAD_ENV \<equiv> - 2"
abbreviation E_INVAL :: int where "E_INVAL \<equiv> - 3"

text \<open>A page that \<^verbatim>\<open>alloc_page\<close> mapped is filled with zeros.\<close>

definition sys_allocate_page :: "nat \<Rightarrow> u32 \<Rightarrow> vm \<Rightarrow> (int \<times> vm) result" where
  "sys_allocate_page va perm v =
     (if va \<ge> USER_TOP \<or> va mod PAGE_SIZE \<noteq> 0 then Inr (E_INVAL, v)
      else if perm AND (NOT PERM_AVAILABLE AND NOT PERM_WRITEABLE) \<noteq> PERM_USER then Inr (E_INVAL, v)
      else
        andThen (alloc_page create_page_table (upgdir v) va perm (km v)) (\<lambda>(ret, k).
        (let v = v\<lparr>km := k\<rparr> in
         if ret = 0 then andThen (frame_at va v) (\<lambda>f. Inr (0, v\<lparr>frame_data := (frame_data v)(f := ZERO_PAGE)\<rparr>))
         else Inr (0, v))))"

definition sys_map_frame :: "vm \<Rightarrow> (int \<times> vm) result" where
  "sys_map_frame v = Inl (Panic ''sys_map_frame not implemented'')"

definition sys_unmap_frame :: "nat \<Rightarrow> vm \<Rightarrow> (int \<times> vm) result" where
  "sys_unmap_frame va v =
     (if va \<ge> USER_TOP \<or> va mod PAGE_SIZE \<noteq> 0 then Inr (E_INVAL, v)
      else andThen (in_mem (unmap_frame (upgdir v) va) v) (\<lambda>v. Inr (0, v)))"

definition sys_calculate_required_frames :: "nat \<Rightarrow> nat \<Rightarrow> vm \<Rightarrow> nat result" where
  "sys_calculate_required_frames va sz v = calculate_required_frames (upgdir v) va sz v"

definition sys_calculate_free_frames :: "vm \<Rightarrow> nat" where
  "sys_calculate_free_frames v =
     (let counters = calculate_available_frames (km v) in add32 (freeBuffered counters) (freeNotBuffered counters))"

definition sys_calculate_modified_frames :: "vm \<Rightarrow> nat" where
  "sys_calculate_modified_frames v = modified (calculate_available_frames (km v))"

definition sys_calculate_notmod_frames :: "vm \<Rightarrow> nat" where
  "sys_calculate_notmod_frames v = freeBuffered (calculate_available_frames (km v))"

fun clear_loop :: "nat \<Rightarrow> kmem \<Rightarrow> kmem result" where
  "clear_loop 0 k = Inr k"
| "clear_loop (Suc n) k = andThen (allocate_frame k) (\<lambda>(_, k). clear_loop n k)"

definition sys_clearFFL :: "vm \<Rightarrow> vm result" where
  "sys_clearFFL v =
     andThen (lock_acquire (mfllock (km v))) (\<lambda>h.
     andThen (clear_loop (length (free_frame_list (km v))) ((km v)\<lparr>mfllock := h\<rparr>)) (\<lambda>k.
     andThen (lock_release (mfllock k)) (\<lambda>h. Inr (v\<lparr>km := k\<lparr>mfllock := h\<rparr>\<rparr>))))"

definition sys_pf_calculate_allocated_pages :: "vm \<Rightarrow> nat result" where
  "sys_pf_calculate_allocated_pages v = pf_calculate_allocated_pages v"

text \<open>An illegal range ends the environment: \<^verbatim>\<open>env_exit()\<close> does not return.\<close>

definition illegal_range :: "nat \<Rightarrow> nat \<Rightarrow> bool" where
  "illegal_range va sz \<longleftrightarrow> va = 0 \<or> va \<ge> USER_HEAP_MAX \<or> va < USER_HEAP_START \<or>
     add32 va sz \<ge> USER_HEAP_MAX \<or> add32 va sz < USER_HEAP_START"

definition sys_free_user_mem :: "fault_state \<Rightarrow> nat \<Rightarrow> nat \<Rightarrow> vm \<Rightarrow> vm result" where
  "sys_free_user_mem fs va sz v =
     (if illegal_range va sz then Inl Env_exit
      else if isBufferingEnabled fs \<noteq> 0 then free_user_mem_with_buffering va sz v
      else free_user_mem va sz v)"

definition sys_allocate_user_mem :: "nat \<Rightarrow> nat \<Rightarrow> vm \<Rightarrow> vm result" where
  "sys_allocate_user_mem va sz v = (if illegal_range va sz then Inl Env_exit else allocate_user_mem va sz v)"

definition sys_allocate_chunk :: "nat \<Rightarrow> nat \<Rightarrow> u32 \<Rightarrow> vm \<Rightarrow> (int \<times> vm) result" where
  "sys_allocate_chunk va sz perms v = allocate_chunk (upgdir v) va sz perms v"

definition sys_move_user_mem :: "nat \<Rightarrow> nat \<Rightarrow> nat \<Rightarrow> vm \<Rightarrow> vm result" where
  "sys_move_user_mem src_virtual_address dst_virtual_address sz v = move_user_mem src_virtual_address dst_virtual_address sz v"

text \<open>\<^verbatim>\<open>prepagedVAs\<close> is the array \<open>vas\<close>; reading past its end gives an unknown word, taken as a mismatch.\<close>

definition sys_get_optimal_num_faults :: "nat list \<Rightarrow> vm \<Rightarrow> (nat \<times> vm) result" where
  "sys_get_optimal_num_faults vas v =
     (if \<exists>i < length (WS v). i \<ge> length vas \<or> \<not> same_page (virtual_address (WS v ! i)) (vas ! i)
      then Inl (Panic ''sys_get_optimal_num_faults(): page working set is changed'')
      else
        andThen (get_optimal_num_faults (WS v) (page_WS_max_size (up v)) (referenceStreamList (up v)) (km v)) (\<lambda>(n, k).
        Inr (n, v\<lparr>km := k\<rparr>)))"

end
