(* ===== verification/User_Heap.thy ===== *)
theory User_Heap
  imports User_Memory
begin

text \<open>
  The user heap of \<^verbatim>\<open>src/lib/uheap.c\<close>: blocks from the dynamic allocator and runs of pages from a free list kept in
  descending order of size, with the size of every allocated run in \<^verbatim>\<open>allocation_sizes\<close>. A user process runs this code on
  its own memory and asks the kernel for pages by system calls; the state holds both.
\<close>

unbundle bit_operations_syntax

section \<open>State\<close>

text \<open>
  Free runs are the records \<open>bulk\<close> of the kernel heap; \<open>bulk_addr\<close> is the number of the node in \<^verbatim>\<open>free_nodes\<close>. The list
  \<^verbatim>\<open>bulks_allocated\<close> is never filled.
\<close>

record uheap =
  firstTimeFlag :: bool
  uda :: dyn_alloc
  uheapPlaceStrategy :: nat
  uheapPageAllocStart :: nat
  uheapPageAllocBreak :: nat
  allocation_sizes :: "nat \<Rightarrow> nat"
  ubulks :: "bulk list"
  ubulks_allocated :: "bulk list"
  free_nodes_index :: nat
  kernel :: vm
  kernel_faults :: fault_state
  UHeapPlacementStrategy :: nat   \<comment> \<open>the kernel's variable\<close>

abbreviation USER_HEAP_ARRAY_SIZE :: nat where
  "USER_HEAP_ARRAY_SIZE \<equiv> (USER_HEAP_MAX - USER_HEAP_START) div PAGE_SIZE"

section \<open>Blocks\<close>

definition uheap_init :: "uheap \<Rightarrow> uheap result" where
  "uheap_init h =
     (if firstTimeFlag h then
        andThen (initialize_dynamic_allocator USER_HEAP_START (USER_HEAP_START + DYN_ALLOC_MAX_SIZE) (uda h)) (\<lambda>d.
        (let start = add32 (dynAllocEnd d) PAGE_SIZE in
         Inr (h\<lparr>uda := d, uheapPlaceStrategy := UHeapPlacementStrategy h, uheapPageAllocStart := start,
                uheapPageAllocBreak := start, firstTimeFlag := False\<rparr>)))
      else Inr h)"

definition user_get_page :: "nat \<Rightarrow> vm \<Rightarrow> vm result" where
  "user_get_page va v =
     andThen (sys_allocate_page (ROUNDDOWN va PAGE_SIZE) (PERM_USER OR PERM_WRITEABLE OR PERM_UHPAGE) v) (\<lambda>(ret, v).
     if ret < 0 then Inl (Panic ''get_page() in user: failed to allocate page from the kernel'') else Inr v)"

definition user_return_page :: "nat \<Rightarrow> vm \<Rightarrow> vm result" where
  "user_return_page va v =
     andThen (sys_unmap_frame (ROUNDDOWN va PAGE_SIZE) v) (\<lambda>(ret, v).
     if ret < 0 then Inl (Panic ''return_page() in user: failed to return a page to the kernel'') else Inr v)"

section \<open>Free runs\<close>

fun user_insert_bulk_desc :: "bulk \<Rightarrow> bulk list \<Rightarrow> bulk list" where
  "user_insert_bulk_desc b [] = [b]"
| "user_insert_bulk_desc b (c # cs) = (if bulk_size c > bulk_size b then c # user_insert_bulk_desc b cs else b # c # cs)"

definition user_remove_bulk :: "bulk \<Rightarrow> bulk list \<Rightarrow> bulk list" where
  "user_remove_bulk b bs = remove1 b bs"

definition find_allocated_bulk :: "nat \<Rightarrow> uheap \<Rightarrow> bulk option" where
  "find_allocated_bulk va h = find (\<lambda>b. bulk_start b = va) (ubulks_allocated h)"

definition remove_allocated_bulk :: "bulk option \<Rightarrow> uheap \<Rightarrow> uheap" where
  "remove_allocated_bulk b h =
     (case b of None \<Rightarrow> h | Some b \<Rightarrow> h\<lparr>ubulks_allocated := remove1 b (ubulks_allocated h)\<rparr>)"

text \<open>The scan keeps the last neighbour it meets.\<close>

definition user_merge_bulks :: "nat \<Rightarrow> nat \<Rightarrow> uheap \<Rightarrow> uheap result" where
  "user_merge_bulks start sz h =
     (let before = find_last (\<lambda>c. add32 (bulk_start c) (bulk_size c) = start) (ubulks h) None;
          after = find_last (\<lambda>c. bulk_start c = add32 start sz) (ubulks h) None
      in case (before, after) of
           (Some a, Some c) \<Rightarrow>
             Inr (h\<lparr>ubulks := user_insert_bulk_desc (a\<lparr>bulk_size := add32 (bulk_size a) (add32 sz (bulk_size c))\<rparr>)
                     (user_remove_bulk c (user_remove_bulk a (ubulks h)))\<rparr>)
         | (Some a, None) \<Rightarrow>
             Inr (h\<lparr>ubulks := user_insert_bulk_desc (a\<lparr>bulk_size := add32 (bulk_size a) sz\<rparr>) (user_remove_bulk a (ubulks h))\<rparr>)
         | (None, Some c) \<Rightarrow>
             Inr (h\<lparr>ubulks := user_insert_bulk_desc (c\<lparr>bulk_start := start, bulk_size := add32 (bulk_size c) sz\<rparr>)
                     (user_remove_bulk c (ubulks h))\<rparr>)
         | (None, None) \<Rightarrow>
             if free_nodes_index h \<ge> 2048 then Inl (Panic ''Out of free Bulk nodes!'')
             else
               Inr (h\<lparr>ubulks := user_insert_bulk_desc \<lparr>bulk_addr = free_nodes_index h, bulk_start = start, bulk_size = sz\<rparr> (ubulks h),
                      free_nodes_index := Suc (free_nodes_index h)\<rparr>))"

section \<open>Allocation\<close>

definition page_index :: "nat \<Rightarrow> nat" where
  "page_index va = sub32 va USER_HEAP_START div PAGE_SIZE"

text \<open>The kernel marks the pages, and the size of the run is recorded; an index past the array is a write beyond it.\<close>

definition take_run :: "nat \<Rightarrow> nat \<Rightarrow> uheap \<Rightarrow> uheap result" where
  "take_run va needed h =
     andThen (sys_allocate_user_mem va needed (kernel h)) (\<lambda>v.
     if page_index va \<ge> USER_HEAP_ARRAY_SIZE then Inl (Corrupted ''allocation_sizes[index]'')
     else Inr (h\<lparr>kernel := v, allocation_sizes := (allocation_sizes h)(page_index va := needed)\<rparr>))"

definition user_page_alloc_custom_fit :: "nat \<Rightarrow> uheap \<Rightarrow> (nat \<times> uheap) result" where
  "user_page_alloc_custom_fit needed h =
     (case find (\<lambda>b. bulk_size b = needed) (ubulks h) of
        Some b \<Rightarrow>
          andThen (take_run (bulk_start b) needed (h\<lparr>ubulks := user_remove_bulk b (ubulks h)\<rparr>)) (\<lambda>h.
          Inr (bulk_start b, h))
      | None \<Rightarrow>
          if ubulks h \<noteq> [] \<and> bulk_size (hd (ubulks h)) > needed then
            (let bb = hd (ubulks h);
                 rest = bb\<lparr>bulk_start := add32 (bulk_start bb) needed, bulk_size := sub32 (bulk_size bb) needed\<rparr>
             in andThen (take_run (bulk_start bb) needed
                          (h\<lparr>ubulks := user_insert_bulk_desc rest (user_remove_bulk bb (ubulks h))\<rparr>)) (\<lambda>h.
                Inr (bulk_start bb, h)))
          else if uheapPageAllocBreak h < uheapPageAllocStart h then Inr (0, h)
          else if needed > sub32 USER_HEAP_MAX (uheapPageAllocBreak h) then Inr (0, h)
          else if add32 (uheapPageAllocBreak h) needed > USER_HEAP_MAX then Inr (0, h)
          else
            (let va = uheapPageAllocBreak h in
             andThen (take_run va needed h) (\<lambda>h. Inr (va, h\<lparr>uheapPageAllocBreak := add32 (uheapPageAllocBreak h) needed\<rparr>))))"

definition malloc :: "nat \<Rightarrow> uheap \<Rightarrow> (nat \<times> uheap) result" where
  "malloc sz h =
     andThen (uheap_init h) (\<lambda>h.
     if sz = 0 then Inr (0, h)
     else if sz \<le> DYN_ALLOC_MAX_BLOCK_SIZE then
       andThen (alloc_block user_get_page sz (uda h, kernel h)) (\<lambda>(b, d, v). Inr (b, h\<lparr>uda := d, kernel := v\<rparr>))
     else user_page_alloc_custom_fit (ROUNDUP sz PAGE_SIZE) h)"

section \<open>Release\<close>

text \<open>The scan from index \<open>i - 1\<close> down for the topmost run; \<open>brk\<close> if there is none.\<close>

fun top_run :: "nat \<Rightarrow> (nat \<Rightarrow> nat) \<Rightarrow> nat \<Rightarrow> nat" where
  "top_run 0 sizes brk = brk"
| "top_run (Suc i) sizes brk =
     (if sizes i \<noteq> 0 then add32 (add32 USER_HEAP_START (mul32 i PAGE_SIZE)) (sizes i) else top_run i sizes brk)"

definition free :: "nat \<Rightarrow> uheap \<Rightarrow> uheap result" where
  "free va h =
     (if va = 0 then Inr h
      else if va < USER_HEAP_START \<or> va \<ge> USER_HEAP_MAX then Inr h
      else if va \<ge> USER_HEAP_START \<and> va < uheapPageAllocStart h then
        andThen (free_block user_return_page va (uda h, kernel h)) (\<lambda>(d, v). Inr (h\<lparr>uda := d, kernel := v\<rparr>))
      else
        (let sz = allocation_sizes h (page_index va) in
         if sz = 0 then Inr h
         else
           andThen (user_merge_bulks va sz (h\<lparr>allocation_sizes := (allocation_sizes h)(page_index va := 0)\<rparr>)) (\<lambda>h.
           (let h = h\<lparr>uheapPageAllocBreak :=
                 top_run (page_index (uheapPageAllocBreak h)) (allocation_sizes h) (uheapPageAllocStart h)\<rparr>
            in andThen (sys_free_user_mem (kernel_faults h) va sz (kernel h)) (\<lambda>v. Inr (h\<lparr>kernel := v\<rparr>))))))"

definition realloc :: "nat \<Rightarrow> nat \<Rightarrow> uheap \<Rightarrow> (nat \<times> uheap) result" where
  "realloc va new_size h = andThen (uheap_init h) (\<lambda>h. Inl (Panic ''realloc() is not implemented yet...!!''))"

definition sfree :: "nat \<Rightarrow> uheap \<Rightarrow> uheap result" where
  "sfree va h = Inl (Panic ''sfree() is not implemented yet...!!'')"

section \<open>The runs of a heap\<close>

text \<open>The end of the block region and a guard page: \<^verbatim>\<open>USER_HEAP_START + DYN_ALLOC_MAX_SIZE + PAGE_SIZE\<close>.\<close>

abbreviation UPAGES_START :: nat where
  "UPAGES_START \<equiv> 0x82001000"

definition run_va :: "nat \<Rightarrow> nat" where
  "run_va i = USER_HEAP_START + i * PAGE_SIZE"

definition run_in :: "nat \<Rightarrow> nat \<Rightarrow> nat \<Rightarrow> bool" where
  "run_in brk s n \<longleftrightarrow> UPAGES_START \<le> s \<and> 0 < n \<and> s + n \<le> brk \<and> s mod PAGE_SIZE = 0 \<and> n mod PAGE_SIZE = 0"

abbreviation live_run :: "(nat \<Rightarrow> nat) \<Rightarrow> nat \<Rightarrow> nat set" where
  "live_run S i \<equiv> {run_va i ..< run_va i + S i}"

text \<open>The free runs \<open>F\<close> and the allocated ones, of sizes \<open>S\<close>, are whole pages below the break, and no two of them overlap.\<close>

definition runs_ok :: "nat \<Rightarrow> bulk set \<Rightarrow> (nat \<Rightarrow> nat) \<Rightarrow> bool" where
  "runs_ok brk F S \<longleftrightarrow>
     (\<forall>b \<in> F. run_in brk (bulk_start b) (bulk_size b)) \<and> (\<forall>i. S i \<noteq> 0 \<longrightarrow> run_in brk (run_va i) (S i)) \<and>
     (\<forall>b \<in> F. \<forall>c \<in> F. b \<noteq> c \<longrightarrow> ext b \<inter> ext c = {}) \<and>
     (\<forall>i j. S i \<noteq> 0 \<and> S j \<noteq> 0 \<and> i \<noteq> j \<longrightarrow> live_run S i \<inter> live_run S j = {}) \<and>
     (\<forall>b \<in> F. \<forall>i. S i \<noteq> 0 \<longrightarrow> ext b \<inter> live_run S i = {})"

definition uheap_inv :: "uheap \<Rightarrow> bool" where
  "uheap_inv h \<longleftrightarrow> uheapPageAllocStart h = UPAGES_START \<and> UPAGES_START \<le> uheapPageAllocBreak h \<and>
     uheapPageAllocBreak h \<le> USER_HEAP_MAX \<and> uheapPageAllocBreak h mod PAGE_SIZE = 0 \<and> distinct (ubulks h) \<and>
     runs_ok (uheapPageAllocBreak h) (set (ubulks h)) (allocation_sizes h)"

lemma ext_run: "ext b = {bulk_start b ..< bulk_start b + bulk_size b}"
  by (simp add: ext_def run_end_def)

lemma multiple_diff: "(a :: nat) mod k = 0 \<Longrightarrow> b mod k = 0 \<Longrightarrow> (a - b) mod k = 0"
  by (metis dvd_diff_nat dvd_eq_mod_eq_0)

lemma multiple_add: "(a :: nat) mod k = 0 \<Longrightarrow> b mod k = 0 \<Longrightarrow> (a + b) mod k = 0"
  by (metis dvd_add dvd_eq_mod_eq_0)

lemma run_va_index:
  assumes "run_in brk s n" "brk \<le> USER_HEAP_MAX"
  shows "run_va (page_index s) = s" "page_index s < USER_HEAP_ARRAY_SIZE"
proof -
  have s: "USER_HEAP_START \<le> s" "s < USER_HEAP_MAX" "s mod 4096 = 0" using assms by (auto simp: run_in_def)
  then have i: "page_index s = (s - USER_HEAP_START) div 4096" by (simp add: page_index_def u32_simps)
  have "(s - USER_HEAP_START) mod 4096 = 0" using s(3) by (intro multiple_diff) simp_all
  then have "(s - USER_HEAP_START) div 4096 * 4096 = s - USER_HEAP_START" by (metis add.right_neutral div_mult_mod_eq)
  then show "run_va (page_index s) = s" using s(1) by (simp add: run_va_def i)
  show "page_index s < USER_HEAP_ARRAY_SIZE" using s by (simp add: i less_mult_imp_div_less)
qed

lemma runs_ok_higher: "runs_ok brk F S \<Longrightarrow> brk \<le> brk' \<Longrightarrow> runs_ok brk' F S"
  unfolding runs_ok_def run_in_def by (meson order_trans)

lemma runs_ok_add:
  assumes "runs_ok brk F S" "run_in brk s n" "brk \<le> USER_HEAP_MAX"
    "\<forall>b \<in> F. ext b \<inter> {s ..< s + n} = {}" "\<forall>i. S i \<noteq> 0 \<longrightarrow> live_run S i \<inter> {s ..< s + n} = {}"
  shows "runs_ok brk F (S(page_index s := n))"
proof -
  let ?S = "S(page_index s := n)"
  have v: "run_va (page_index s) = s" by (rule run_va_index [OF assms(2,3)])
  have l: "live_run ?S i = (if i = page_index s then {s ..< s + n} else live_run S i)" for i by (simp add: v)
  have "S i \<noteq> 0 \<Longrightarrow> {s ..< s + n} \<inter> live_run S i = {}" for i using assms(5) by blast
  then show ?thesis using assms(1,2,4,5) unfolding runs_ok_def l by (simp add: v) auto
qed

lemma runs_ok_remove: "runs_ok brk F S \<Longrightarrow> F' \<subseteq> F \<Longrightarrow> runs_ok brk F' S"
  unfolding runs_ok_def by blast

lemma runs_ok_insert:
  assumes "runs_ok brk F S" "run_in brk (bulk_start b) (bulk_size b)"
    "\<forall>c \<in> F. ext b \<inter> ext c = {}" "\<forall>i. S i \<noteq> 0 \<longrightarrow> ext b \<inter> live_run S i = {}"
  shows "runs_ok brk (insert b F) S"
  using assms unfolding runs_ok_def by (auto simp del: ext_run)

lemma set_user_insert [simp]: "set (user_insert_bulk_desc b l) = insert b (set l)"
  by (induction l) auto

lemma distinct_user_insert: "distinct l \<Longrightarrow> b \<notin> set l \<Longrightarrow> distinct (user_insert_bulk_desc b l)"
  by (induction l) auto

lemma take_run_Inr:
  assumes "take_run va n h = Inr h'"
  shows "\<not> illegal_range va n" "h' = h\<lparr>kernel := kernel h', allocation_sizes := (allocation_sizes h)(page_index va := n)\<rparr>"
  using assms by (auto simp: take_run_def sys_allocate_user_mem_def res_simps split: if_splits)

text \<open>The run \<open>[va, va + n)\<close> is new: it meets none of the runs that were allocated before.\<close>

definition run_fresh :: "nat \<Rightarrow> nat \<Rightarrow> uheap \<Rightarrow> uheap \<Rightarrow> bool" where
  "run_fresh va n h h' \<longleftrightarrow> va mod PAGE_SIZE = 0 \<and> UPAGES_START \<le> va \<and> va + n \<le> uheapPageAllocBreak h' \<and>
     allocation_sizes h' = (allocation_sizes h)(page_index va := n) \<and>
     (\<forall>i. allocation_sizes h i \<noteq> 0 \<longrightarrow> live_run (allocation_sizes h) i \<inter> {va ..< va + n} = {})"

text \<open>A free run, or the front part of one, is handed out; \<open>l\<close> is what remains of the free list.\<close>

lemma take_free_run:
  assumes "uheap_inv h" "b \<in> set (ubulks h)" "0 < n" "n \<le> bulk_size b" "n mod PAGE_SIZE = 0" "distinct l"
    "set l = (if n = bulk_size b then {} else {b\<lparr>bulk_start := bulk_start b + n, bulk_size := bulk_size b - n\<rparr>}) \<union> (set (ubulks h) - {b})"
    "take_run (bulk_start b) n (h\<lparr>ubulks := l\<rparr>) = Inr h'"
  shows "uheap_inv h' \<and> run_fresh (bulk_start b) n h h'"
proof -
  let ?brk = "uheapPageAllocBreak h" and ?S = "allocation_sizes h" and ?F = "set (ubulks h)"
  let ?c = "b\<lparr>bulk_start := bulk_start b + n, bulk_size := bulk_size b - n\<rparr>"
  have h': "h' = h\<lparr>ubulks := l, kernel := kernel h', allocation_sizes := ?S(page_index (bulk_start b) := n)\<rparr>"
    using take_run_Inr(2) [OF assms(8)] by simp
  have ok: "runs_ok ?brk ?F ?S" and bm: "?brk \<le> USER_HEAP_MAX" using assms(1) by (auto simp: uheap_inv_def)
  have b: "run_in ?brk (bulk_start b) (bulk_size b)" using ok assms(2) by (auto simp: runs_ok_def)
  then have r: "run_in ?brk (bulk_start b) n" using assms(3-5) by (auto simp: run_in_def)
  have sub: "{bulk_start b ..< bulk_start b + n} \<subseteq> ext b" using assms(4) by (auto simp: ext_run)
  have live: "\<forall>i. ?S i \<noteq> 0 \<longrightarrow> live_run ?S i \<inter> {bulk_start b ..< bulk_start b + n} = {}"
    using ok assms(2) sub unfolding runs_ok_def by blast
  have rem: "runs_ok ?brk (?F - {b}) ?S" by (rule runs_ok_remove [OF ok]) blast
  have others: "\<forall>c \<in> ?F - {b}. ext c \<inter> ext b = {}" using ok assms(2) unfolding runs_ok_def by blast
  have F: "runs_ok ?brk (set l) ?S \<and> (\<forall>c \<in> set l. ext c \<inter> {bulk_start b ..< bulk_start b + n} = {})"
  proof (cases "n = bulk_size b")
    case True
    then show ?thesis using rem others sub assms(7) by auto
  next
    case False
    have e: "ext ?c \<subseteq> ext b" "ext ?c \<inter> {bulk_start b ..< bulk_start b + n} = {}" by (auto simp: ext_run)
    have "run_in ?brk (bulk_start ?c) (bulk_size ?c)" using b assms(3-5) False by (auto simp: run_in_def multiple_diff multiple_add)
    then have "runs_ok ?brk (insert ?c (?F - {b})) ?S"
    proof (rule runs_ok_insert [OF rem])
      show "\<forall>c \<in> ?F - {b}. ext ?c \<inter> ext c = {}" using others e(1) by blast
      show "\<forall>i. ?S i \<noteq> 0 \<longrightarrow> ext ?c \<inter> live_run ?S i = {}" using ok assms(2) e(1) unfolding runs_ok_def by blast
    qed
    moreover have "\<forall>c \<in> ?F - {b}. ext c \<inter> {bulk_start b ..< bulk_start b + n} = {}" using others sub by blast
    ultimately show ?thesis using False assms(7) e(2) by simp
  qed
  have "runs_ok ?brk (set l) (?S(page_index (bulk_start b) := n))" using runs_ok_add [OF _ r bm _ live] F by blast
  then have "uheap_inv h'" using assms(1,6) by (subst h') (simp add: uheap_inv_def)
  moreover have "uheapPageAllocBreak h' = ?brk" "allocation_sizes h' = ?S(page_index (bulk_start b) := n)" by (subst h', simp)+
  then have "run_fresh (bulk_start b) n h h'" using r live by (simp add: run_fresh_def run_in_def)
  ultimately show ?thesis by blast
qed

lemma find_Some_mem: "find P l = Some x \<Longrightarrow> x \<in> set l \<and> P x"
  by (auto simp: find_Some_iff)

lemma custom_fit_fresh:
  assumes "uheap_inv h" "0 < n" "n < U32" "n mod PAGE_SIZE = 0" "user_page_alloc_custom_fit n h = Inr (va, h')"
  shows "uheap_inv h' \<and> (va = 0 \<and> h' = h \<or> run_fresh va n h h')"
proof -
  let ?brk = "uheapPageAllocBreak h" and ?S = "allocation_sizes h"
  have ok: "runs_ok ?brk (set (ubulks h)) ?S" and bm: "?brk \<le> USER_HEAP_MAX" "UPAGES_START \<le> ?brk" "?brk mod PAGE_SIZE = 0"
      "distinct (ubulks h)"
    using assms(1) by (auto simp: uheap_inv_def)
  consider (exact) b where "find (\<lambda>b. bulk_size b = n) (ubulks h) = Some b"
    | (worst) "find (\<lambda>b. bulk_size b = n) (ubulks h) = None" "ubulks h \<noteq> []" "bulk_size (hd (ubulks h)) > n"
    | (extend) "find (\<lambda>b. bulk_size b = n) (ubulks h) = None" "\<not> (ubulks h \<noteq> [] \<and> bulk_size (hd (ubulks h)) > n)"
    by blast
  then show ?thesis
  proof cases
    case exact
    then have b: "b \<in> set (ubulks h)" "bulk_size b = n" using find_Some_mem by fastforce+
    have "take_run (bulk_start b) n (h\<lparr>ubulks := remove1 b (ubulks h)\<rparr>) = Inr h'" "va = bulk_start b"
      using assms(5) exact by (auto simp: user_page_alloc_custom_fit_def user_remove_bulk_def res_simps)
    then show ?thesis
      using take_free_run [OF assms(1) b(1) assms(2) _ assms(4), of "remove1 b (ubulks h)"] b(2) bm(4) by simp
  next
    case worst
    let ?b = "hd (ubulks h)" and ?c = "hd (ubulks h)\<lparr>bulk_start := bulk_start (hd (ubulks h)) + n, bulk_size := bulk_size (hd (ubulks h)) - n\<rparr>"
    let ?l = "user_insert_bulk_desc ?c (remove1 ?b (ubulks h))"
    have b: "?b \<in> set (ubulks h)" using worst(2) by simp
    then have rb: "run_in ?brk (bulk_start ?b) (bulk_size ?b)" using ok by (auto simp: runs_ok_def)
    then have sm: "bulk_start ?b + bulk_size ?b \<le> USER_HEAP_MAX" using bm(1) by (simp add: run_in_def)
    then have "add32 (bulk_start ?b) n = bulk_start ?b + n" "sub32 (bulk_size ?b) n = bulk_size ?b - n"
      using worst(3) by (auto intro!: add32_exact sub32_exact)
    then have t: "take_run (bulk_start ?b) n (h\<lparr>ubulks := ?l\<rparr>) = Inr h'" "va = bulk_start ?b"
      using assms(5) worst by (auto simp: user_page_alloc_custom_fit_def user_remove_bulk_def res_simps Let_def)
    have "?c \<notin> set (remove1 ?b (ubulks h))"
    proof
      assume c: "?c \<in> set (remove1 ?b (ubulks h))"
      then have "?c \<in> set (ubulks h)" "?c \<noteq> ?b" using bm(4) by (auto dest: notin_set_remove1)
      then have "ext ?c \<inter> ext ?b = {}" using ok b unfolding runs_ok_def by blast
      moreover have "bulk_start ?b + n \<in> ext ?c \<inter> ext ?b" using worst(3) by (auto simp: ext_run)
      ultimately show False by blast
    qed
    then have "distinct ?l" using bm(4) by (intro distinct_user_insert) simp_all
    then show ?thesis
      using take_free_run [OF assms(1) b assms(2) _ assms(4) _ _ t(1)] worst(3) bm(4) t(2) by simp
  next
    case extend
    show ?thesis
    proof (cases "va = 0 \<and> h' = h")
      case True
      then show ?thesis using assms(1) by simp
    next
      case False
      then have e: "n \<le> sub32 USER_HEAP_MAX ?brk" "\<not> add32 ?brk n > USER_HEAP_MAX" "va = ?brk" and
          t: "\<exists>h1. take_run ?brk n h = Inr h1 \<and> h' = h1\<lparr>uheapPageAllocBreak := add32 (uheapPageAllocBreak h1) n\<rparr>"
        using assms(5) extend by (auto simp: user_page_alloc_custom_fit_def res_simps Let_def split: if_splits)
      have "sub32 USER_HEAP_MAX ?brk = USER_HEAP_MAX - ?brk" using bm(1) by (intro sub32_exact) simp_all
      then have le: "?brk + n \<le> USER_HEAP_MAX" using e(1) bm(1) by simp
      then have a: "add32 ?brk n = ?brk + n" by (intro add32_exact) simp
      obtain h1 where h1: "take_run ?brk n h = Inr h1" "h' = h1\<lparr>uheapPageAllocBreak := add32 (uheapPageAllocBreak h1) n\<rparr>" using t by blast
      obtain v where "h1 = h\<lparr>kernel := v, allocation_sizes := ?S(page_index ?brk := n)\<rparr>" using take_run_Inr(2) [OF h1(1)] by blast
      then have h': "h' = h\<lparr>kernel := v, allocation_sizes := ?S(page_index ?brk := n), uheapPageAllocBreak := ?brk + n\<rparr>"
        using h1(2) a by simp
      have r: "run_in (?brk + n) ?brk n" using bm assms(2,4) by (simp add: run_in_def)
      have ok': "runs_ok (?brk + n) (set (ubulks h)) ?S" by (rule runs_ok_higher [OF ok]) simp
      have end_below: "b \<in> set (ubulks h) \<Longrightarrow> bulk_start b + bulk_size b \<le> ?brk" "?S i \<noteq> 0 \<Longrightarrow> run_va i + ?S i \<le> ?brk" for b i
        using ok unfolding runs_ok_def run_in_def by blast+
      have below: "\<forall>b \<in> set (ubulks h). ext b \<inter> {?brk ..< ?brk + n} = {}" "\<forall>i. ?S i \<noteq> 0 \<longrightarrow> live_run ?S i \<inter> {?brk ..< ?brk + n} = {}"
        using end_below by (fastforce simp: ext_run)+
      have "runs_ok (?brk + n) (set (ubulks h)) (?S(page_index ?brk := n))" by (rule runs_ok_add [OF ok' r le below])
      then have "uheap_inv h'" using assms(1,4) bm(3) le by (simp add: h' uheap_inv_def multiple_add)
      moreover have "run_fresh ?brk n h h'" using bm below(2) by (simp add: h' run_fresh_def)
      ultimately show ?thesis using e(3) by blast
    qed
  qed
qed

lemma malloc_run:
  assumes "uheap_inv h" and "\<not> firstTimeFlag h" and "DYN_ALLOC_MAX_BLOCK_SIZE < sz" and "sz + PAGE_SIZE < U32"
    and "malloc sz h = Inr (va, h')"
  shows "uheap_inv h' \<and> (va = 0 \<and> h' = h \<or> run_fresh va (ROUNDUP sz PAGE_SIZE) h h')"
proof -
  obtain n where n: "0 < n" "ROUNDUP sz 4096 = n * 4096" using ROUNDUP_pages [OF _ assms(4)] assms(3) by auto
  have "ROUNDUP sz 4096 < U32" using assms(4) ROUNDUP_page [of sz] by simp
  moreover have "user_page_alloc_custom_fit (ROUNDUP sz 4096) h = Inr (va, h')"
    using assms(2,3,5) by (simp add: malloc_def uheap_init_def)
  ultimately show ?thesis by (intro custom_fit_fresh [OF assms(1)]) (use n in simp_all)
qed


text \<open>A process whose heap has just been initialised, with a page table for the first pages of the heap; for the witnesses.\<close>

definition user_vm :: vm where
  "user_vm = sample_vm\<lparr>km := sample_kmem\<lparr>directories := (\<lambda>_ i. if i = 512 \<or> i = 520 then 0x12D007 else 0)\<rparr>,
     up := (up sample_vm)\<lparr>disk_env_pgdir := 0, page_WS_list := []\<rparr>\<rparr>"

definition sample_uheap :: uheap where
  "sample_uheap = \<lparr>firstTimeFlag = False, uda = da bare_kmem, uheapPlaceStrategy = 5, uheapPageAllocStart = UPAGES_START,
     uheapPageAllocBreak = UPAGES_START, allocation_sizes = (\<lambda>_. 0), ubulks = [], ubulks_allocated = [], free_nodes_index = 0,
     kernel = user_vm,
     kernel_faults = \<lparr>last_eip = 0, before_last_eip = 0, last_fault_va = 0, before_last_fault_va = 0, num_repeated_fault = 0,
       last_faulted_env = 0, EnableModifiedBuffer = 0, EnableBuffering = 0, ModifiedBufferLength = 1000, page_WS_max_sweeps = 0,
       FASTNchanceCLOCK = False\<rparr>,
     UHeapPlacementStrategy = 5\<rparr>"

text \<open>What the witnesses need of the kernel: the page at the start of the run region has a table and no frame, and nothing is on the disk.\<close>

definition user_ok :: "vm \<Rightarrow> bool" where
  "user_ok v \<longleftrightarrow> get_page_table (upgdir v) UPAGES_START (km v) = Inr (TABLE_IN_MEMORY, 0xF6001000) \<and>
     disk_env_pgdir (up v) = 0 \<and> WS v = [] \<and> PageRepAlgoType v = PG_REP_CLOCK"

lemma user_vm_ok: "user_ok user_vm"
  by (simp add: user_ok_def user_vm_def sample_vm_def sample_kmem_def bare_kmem_def get_page_table_def PDX_def PTX_def
      CHECK_IF_KERNEL_ADDRESS_def kheap_virtual_address_def to_frame_info_def PPN_def EXTRACT_ADDRESS_def in_heap_region_def
      zero_frame_info_def u32_simps)

lemma one_page_legal: "\<not> illegal_range UPAGES_START 4096"
  by (simp add: illegal_range_def add32_def)

lemma one_page_range: "ROUNDDOWN UPAGES_START 4096 = UPAGES_START" "ROUNDUP (add32 UPAGES_START 4096) 4096 = 0x82002000"
  by (simp_all add: ROUNDUP_def ROUNDDOWN_def add32_def sub32_def)

lemma one_page_loops:
  "mark_loop (Suc n) UPAGES_START (0x82002000) v = mark_page UPAGES_START v"
  "release_loop (Suc n) UPAGES_START (0x82002000) v = release_page UPAGES_START v"
proof -
  have "add32 UPAGES_START 4096 = 0x82002000" by (simp add: add32_def)
  then show "mark_loop (Suc n) UPAGES_START (0x82002000) v = mark_page UPAGES_START v"
    "release_loop (Suc n) UPAGES_START (0x82002000) v = release_page UPAGES_START v"
    by (subst mark_loop.simps, cases "mark_page UPAGES_START v", simp_all add: mark_loop.simps [of n])
      (subst release_loop.simps, cases "release_page UPAGES_START v", simp_all add: release_loop.simps [of n])
qed

lemma mark_user_page:
  assumes "user_ok v"
  shows "\<exists>v'. sys_allocate_user_mem UPAGES_START 4096 v = Inr v' \<and> user_ok v' \<and> tables (km v') 0xF6001000 1 = PERM_UHPAGE"
proof -
  let ?v = "v\<lparr>km := set_entry 0xF6001000 1 PERM_UHPAGE (km v)\<rparr>"
  have "mark_page UPAGES_START v = Inr ?v" using assms by (simp add: mark_page_def user_ok_def PTX_def)
  then have "sys_allocate_user_mem UPAGES_START 4096 v = Inr ?v"
    by (simp add: sys_allocate_user_mem_def one_page_legal allocate_user_mem_def page_count_def one_page_range one_page_loops)
  moreover have "user_ok ?v" using assms by (simp add: user_ok_def)
  ultimately show ?thesis by (simp add: tables_set_entry)
qed

lemma release_user_page:
  assumes "user_ok v" "tables (km v) 0xF6001000 1 = PERM_UHPAGE" "isBufferingEnabled fs = 0"
  shows "\<exists>v'. sys_free_user_mem fs UPAGES_START 4096 v = Inr v' \<and> user_ok v'"
proof -
  let ?v = "v\<lparr>km := set_entry 0xF6001000 1 0 (km v)\<rparr>"
  have ok: "user_ok ?v" using assms(1) by (simp add: user_ok_def)
  have "in_mem (pt_set_page_permissions (upgdir v) UPAGES_START 0 PERM_UHPAGE) v = Inr ?v"
    using assms(1,2) by (simp add: in_mem_def pt_set_page_permissions_def user_ok_def PTX_def tables_set_entry)
  moreover have "unmap_frame (upgdir v) UPAGES_START (km ?v) = Inr (km ?v)"
    using assms(1) by (simp add: unmap_frame_def get_frame_info_def user_ok_def PTX_def tables_set_entry)
  ultimately have "release_page UPAGES_START v = Inr ?v"
    using assms(1) by (simp add: release_page_def pf_remove_env_page_def user_ok_def env_page_ws_invalidate_def in_mem_def)
  then have "sys_free_user_mem fs UPAGES_START 4096 v = Inr ?v"
    using assms(3)
    by (simp add: sys_free_user_mem_def one_page_legal free_user_mem_def page_count_def one_page_range one_page_loops)
  then show ?thesis using ok by blast
qed

lemma sample_uheap_inv: "uheap_inv sample_uheap" "\<not> firstTimeFlag sample_uheap"
  by (simp_all add: uheap_inv_def sample_uheap_def runs_ok_def)

lemma page_of_bytes: "ROUNDUP 4096 4096 = 4096"
  by (simp add: ROUNDUP_def ROUNDDOWN_def add32_def sub32_def)

lemma first_index: "page_index UPAGES_START = 8193" "page_index 0x82002000 = 8194"
  by (simp_all add: page_index_def sub32_def)

text \<open>A page taken at the break of a heap without free runs, and a page taken from the only free run.\<close>

lemma malloc_at_break:
  assumes "user_ok (kernel h)" "\<not> firstTimeFlag h" "ubulks h = []" "uheapPageAllocStart h = UPAGES_START" "uheapPageAllocBreak h = UPAGES_START"
  shows "\<exists>v. malloc 4096 h = Inr (UPAGES_START, h\<lparr>kernel := v, allocation_sizes := (allocation_sizes h)(8193 := 4096),
      uheapPageAllocBreak := 0x82002000\<rparr>) \<and> user_ok v \<and> tables (km v) 0xF6001000 1 = PERM_UHPAGE"
proof -
  obtain v where v: "sys_allocate_user_mem UPAGES_START 4096 (kernel h) = Inr v" "user_ok v" "tables (km v) 0xF6001000 1 = PERM_UHPAGE"
    using mark_user_page [OF assms(1)] by blast
  have "malloc 4096 h = user_page_alloc_custom_fit 4096 h" using assms(2) by (simp add: malloc_def uheap_init_def page_of_bytes)
  then show ?thesis
    using assms(3-5) v by (intro exI [of _ v]) (simp add: user_page_alloc_custom_fit_def take_run_def first_index sub32_def add32_def)
qed

lemma malloc_exact:
  assumes "user_ok (kernel h)" "\<not> firstTimeFlag h" "ubulks h = [\<lparr>bulk_addr = a, bulk_start = UPAGES_START, bulk_size = 4096\<rparr>]"
  shows "\<exists>v. malloc 4096 h = Inr (UPAGES_START, h\<lparr>ubulks := [], kernel := v, allocation_sizes := (allocation_sizes h)(8193 := 4096)\<rparr>) \<and> user_ok v"
proof -
  obtain v where v: "sys_allocate_user_mem UPAGES_START 4096 (kernel h) = Inr v" "user_ok v" using mark_user_page [OF assms(1)] by blast
  have "malloc 4096 h = user_page_alloc_custom_fit 4096 h" using assms(2) by (simp add: malloc_def uheap_init_def page_of_bytes)
  then show ?thesis
    using assms(3) v by (intro exI [of _ v]) (simp add: user_page_alloc_custom_fit_def take_run_def first_index user_remove_bulk_def)
qed

section \<open>Releasing the topmost run\<close>

lemma top_run_none: "\<forall>j < i. S j = 0 \<Longrightarrow> top_run i S brk = brk"
  by (induction i) auto

text \<open>
  Releasing the topmost run lowers the break below it but leaves the run on the free list: the next \<open>malloc\<close> of this size takes it
  from the list without raising the break, and the one after that hands out the same address again, although it is allocated.
\<close>

lemma malloc_hands_out_twice:
  assumes "uheap_inv h" and "\<not> firstTimeFlag h" and "ubulks h = []" and "\<forall>i. allocation_sizes h i = 0"
    and "uheapPageAllocBreak h = UPAGES_START" and "DYN_ALLOC_MAX_BLOCK_SIZE < sz" and "sz + PAGE_SIZE < U32"
    and "malloc sz h = Inr (a, h1)" and "a \<noteq> 0" and "free a h1 = Inr h2" and "malloc sz h2 = Inr (b, h3)" and "malloc sz h3 = Inr (c, h4)"
  shows "a = UPAGES_START \<and> b = a \<and> c = a \<and> allocation_sizes h3 (page_index b) = ROUNDUP sz PAGE_SIZE \<and> 0 < ROUNDUP sz PAGE_SIZE"
proof -
  let ?n = "ROUNDUP sz 4096"
  obtain m where "0 < m" "?n = m * 4096" using ROUNDUP_pages [OF _ assms(7)] assms(6) by auto
  then have n: "0 < ?n" by simp
  have fit: "malloc sz h' = user_page_alloc_custom_fit ?n h'" if "\<not> firstTimeFlag h'" for h'
    using that assms(6) by (simp add: malloc_def uheap_init_def)
  have st: "uheapPageAllocStart h = UPAGES_START" using assms(1) by (simp add: uheap_inv_def)
  have f: "\<not> illegal_range UPAGES_START ?n \<and> a = UPAGES_START \<and> ?n \<le> sub32 USER_HEAP_MAX UPAGES_START \<and> \<not> add32 UPAGES_START ?n > USER_HEAP_MAX \<and>
      (\<exists>v. h1 = h\<lparr>kernel := v, allocation_sizes := (allocation_sizes h)(8193 := ?n), uheapPageAllocBreak := add32 UPAGES_START ?n\<rparr>)"
    using assms(2,3,5,8,9) st
    by (auto simp: fit user_page_alloc_custom_fit_def take_run_def sys_allocate_user_mem_def res_simps first_index split: if_splits)
  then obtain v where h1: "h1 = h\<lparr>kernel := v, allocation_sizes := (allocation_sizes h)(8193 := ?n), uheapPageAllocBreak := add32 UPAGES_START ?n\<rparr>"
    by blast
  have z: "(allocation_sizes h)(8193 := 0) = (\<lambda>_. 0)" using assms(4) by (auto simp: fun_eq_iff)
  have h2: "\<exists>v. h2 = h\<lparr>allocation_sizes := (\<lambda>_. 0), ubulks := [\<lparr>bulk_addr = free_nodes_index h, bulk_start = UPAGES_START, bulk_size = ?n\<rparr>],
      free_nodes_index := Suc (free_nodes_index h), uheapPageAllocBreak := UPAGES_START, kernel := v\<rparr>"
    using assms(10,3) f n st
    by (auto simp: h1 free_def first_index user_merge_bulks_def res_simps Let_def z top_run_none split: if_splits)
  then obtain v2 where h2: "h2 = h\<lparr>allocation_sizes := (\<lambda>_. 0), ubulks := [\<lparr>bulk_addr = free_nodes_index h, bulk_start = UPAGES_START, bulk_size = ?n\<rparr>],
      free_nodes_index := Suc (free_nodes_index h), uheapPageAllocBreak := UPAGES_START, kernel := v2\<rparr>"
    by blast
  have "\<not> firstTimeFlag h2" using assms(2) by (simp add: h2)
  then have m2: "user_page_alloc_custom_fit ?n h2 = Inr (b, h3)" using assms(11) fit [of h2] by simp
  have h3: "b = UPAGES_START \<and> (\<exists>v. h3 = h2\<lparr>ubulks := [], kernel := v, allocation_sizes := (\<lambda>_. 0)(8193 := ?n)\<rparr>)"
    using m2
    by (auto simp: h2 user_page_alloc_custom_fit_def take_run_def sys_allocate_user_mem_def res_simps first_index user_remove_bulk_def split: if_splits)
  then obtain v3 where v3: "h3 = h2\<lparr>ubulks := [], kernel := v3, allocation_sizes := (\<lambda>_. 0)(8193 := ?n)\<rparr>" by blast
  have "\<not> firstTimeFlag h3" using assms(2) by (simp add: v3 h2)
  then have "user_page_alloc_custom_fit ?n h3 = Inr (c, h4)" using assms(12) fit [of h3] by simp
  then have "c = UPAGES_START"
    using st f
    by (auto simp: v3 h2 user_page_alloc_custom_fit_def res_simps split: if_splits)
  then show ?thesis using f h3 n by (simp add: v3 first_index)
qed

lemma malloc_hands_out_twice_witness:
  "\<exists>h1 h2 h3 h4. malloc 4096 sample_uheap = Inr (UPAGES_START, h1) \<and> free UPAGES_START h1 = Inr h2 \<and>
     malloc 4096 h2 = Inr (UPAGES_START, h3) \<and> malloc 4096 h3 = Inr (UPAGES_START, h4)"
proof -
  let ?h = sample_uheap
  have s: "user_ok (kernel ?h)" "\<not> firstTimeFlag ?h" "ubulks ?h = []" "uheapPageAllocStart ?h = UPAGES_START"
      "uheapPageAllocBreak ?h = UPAGES_START" "allocation_sizes ?h = (\<lambda>_. 0)" "free_nodes_index ?h = 0" "isBufferingEnabled (kernel_faults ?h) = 0"
    using user_vm_ok by (simp_all add: sample_uheap_def isBufferingEnabled_def)
  obtain v1 h1 where 1: "malloc 4096 ?h = Inr (UPAGES_START, h1)" "user_ok v1" "tables (km v1) 0xF6001000 1 = PERM_UHPAGE"
      "h1 = ?h\<lparr>kernel := v1, allocation_sizes := (\<lambda>_. 0)(8193 := 4096), uheapPageAllocBreak := 0x82002000\<rparr>"
    using malloc_at_break [OF s(1-5)] s(6) by auto
  obtain v2 where v2: "sys_free_user_mem (kernel_faults ?h) UPAGES_START 4096 v1 = Inr v2" "user_ok v2"
    using release_user_page [OF 1(2,3) s(8)] by blast
  have z: "(\<lambda>_. 0 :: nat)(8193 := 0) = (\<lambda>_. 0)" by auto
  define h2 where "h2 = ?h\<lparr>allocation_sizes := (\<lambda>_. 0), ubulks := [\<lparr>bulk_addr = 0, bulk_start = UPAGES_START, bulk_size = 4096\<rparr>],
      free_nodes_index := 1, uheapPageAllocBreak := UPAGES_START, kernel := v2\<rparr>"
  have 2: "free UPAGES_START h1 = Inr h2"
    using s v2(1) by (simp add: 1(4) free_def first_index user_merge_bulks_def Let_def z top_run_none h2_def)
  obtain v3 h3 where 3: "malloc 4096 h2 = Inr (UPAGES_START, h3)" "user_ok v3" "h3 = h2\<lparr>ubulks := [], kernel := v3, allocation_sizes := (\<lambda>_. 0)(8193 := 4096)\<rparr>"
    using malloc_exact [of h2 0] v2(2) s(2) by (auto simp: h2_def)
  obtain h4 where 4: "malloc 4096 h3 = Inr (UPAGES_START, h4)"
    using malloc_at_break [of h3] 3(2,3) s by (auto simp: h2_def)
  show ?thesis
    using malloc_hands_out_twice [OF sample_uheap_inv s(3) _ s(5) _ _ 1(1) _ 2 3(1) 4] s(6) 1(1) 2 3(1) 4 by simp
qed

section \<open>Releasing a run below the topmost one\<close>

text \<open>
  The break is where the topmost run ends; \<open>malloc\<close> keeps this, and so does the release of any other run.
\<close>

definition tops :: "nat \<Rightarrow> uheap \<Rightarrow> bool" where
  "tops j h \<longleftrightarrow> allocation_sizes h j \<noteq> 0 \<and> run_va j + allocation_sizes h j = uheapPageAllocBreak h"

lemma top_run_max:
  "j < m \<Longrightarrow> S j \<noteq> 0 \<Longrightarrow> \<forall>k. j < k \<and> k < m \<longrightarrow> S k = 0 \<Longrightarrow>
    top_run m S b = add32 (add32 USER_HEAP_START (mul32 j PAGE_SIZE)) (S j)"
proof (induction m)
  case (Suc m)
  then show ?case by (cases "m = j") auto
qed simp

lemma top_run_tops:
  assumes "uheap_inv h" "tops j h"
  shows "top_run (page_index (uheapPageAllocBreak h)) (allocation_sizes h) b = uheapPageAllocBreak h"
proof -
  let ?S = "allocation_sizes h" and ?B = "uheapPageAllocBreak h"
  have I: "runs_ok ?B (set (ubulks h)) ?S" "?B \<le> USER_HEAP_MAX" "?B mod 4096 = 0" "UPAGES_START \<le> ?B"
    using assms(1) by (simp_all add: uheap_inv_def)
  have j: "?S j \<noteq> 0" "run_va j + ?S j = ?B" using assms(2) by (simp_all add: tops_def)
  have s: "page_index ?B = (?B - USER_HEAP_START) div 4096" using I(2,4) by (simp add: page_index_def u32_simps)
  have "(?B - USER_HEAP_START) mod 4096 = 0" using I(3) by (intro multiple_diff) simp_all
  then have "page_index ?B * 4096 = ?B - USER_HEAP_START" unfolding s by (metis add.right_neutral div_mult_mod_eq)
  then have v: "run_va (page_index ?B) = ?B" using I(4) by (simp add: run_va_def)
  have lt: "j < page_index ?B"
  proof (rule ccontr)
    assume "\<not> j < page_index ?B"
    then have "run_va (page_index ?B) \<le> run_va j" by (simp add: run_va_def)
    then show False using v j by simp
  qed
  have "?S k = 0" if "j < k" "k < page_index ?B" for k
  proof (rule ccontr)
    assume k: "?S k \<noteq> 0"
    have "run_va j < run_va k" using that(1) by (simp add: run_va_def)
    moreover have "run_va k < run_va (page_index ?B)" using that(2) by (simp add: run_va_def)
    ultimately have "run_va k \<in> live_run ?S j \<inter> live_run ?S k" using k j(2) v by simp
    moreover have "live_run ?S j \<inter> live_run ?S k = {}" using I(1) j(1) k that(1) unfolding runs_ok_def by (metis less_irrefl)
    ultimately show False by blast
  qed
  then have "top_run (page_index ?B) ?S b = add32 (add32 USER_HEAP_START (mul32 j PAGE_SIZE)) (?S j)"
    by (intro top_run_max [where j = j] lt j(1)) auto
  moreover have "j * 4096 < U32" "USER_HEAP_START + j * 4096 + ?S j < U32" using j(2) I(2) by (simp_all add: run_va_def)
  ultimately show ?thesis using j(2) by (simp add: u32_simps run_va_def)
qed

text \<open>The run of index \<open>i\<close> and the free runs \<open>A\<close> become one free run.\<close>

lemma runs_ok_merge:
  assumes "runs_ok brk F S" "S i \<noteq> 0" "A \<subseteq> F" "ext b = \<Union> (ext ` A) \<union> live_run S i" "run_in brk (bulk_start b) (bulk_size b)"
  shows "runs_ok brk (insert b (F - A)) (S(i := 0))" "b \<notin> F"
proof -
  have R: "runs_ok brk (F - A) (S(i := 0))"
    using assms(1) unfolding runs_ok_def by (auto simp del: ext_run)
  have d: "ext c \<inter> ext b = {}" if "c \<in> F - A" for c
  proof -
    have "ext c \<inter> ext a = {}" if "a \<in> A" for a
    proof -
      have "c \<noteq> a" "c \<in> F" "a \<in> F" using assms(3) that \<open>c \<in> F - A\<close> by auto
      then show ?thesis using assms(1) unfolding runs_ok_def by metis
    qed
    moreover have "ext c \<inter> live_run S i = {}" using assms(1,2) that unfolding runs_ok_def by blast
    ultimately show ?thesis unfolding assms(4) by blast
  qed
  have e: "ext b \<inter> live_run S k = {}" if "S k \<noteq> 0" "k \<noteq> i" for k
  proof -
    have "ext a \<inter> live_run S k = {}" if "a \<in> A" for a using assms(1,3) that \<open>S k \<noteq> 0\<close> unfolding runs_ok_def by blast
    moreover have "live_run S i \<inter> live_run S k = {}" using assms(1,2) that unfolding runs_ok_def by metis
    ultimately show ?thesis unfolding assms(4) by blast
  qed
  show "runs_ok brk (insert b (F - A)) (S(i := 0))"
    by (rule runs_ok_insert [OF R assms(5)]) (use d e in \<open>auto simp del: ext_run\<close>)
  show "b \<notin> F"
  proof
    assume "b \<in> F"
    then have "ext b \<inter> live_run S i = {}" using assms(1,2) unfolding runs_ok_def by blast
    moreover have "run_va i \<in> live_run S i" using assms(2) by simp
    ultimately show False using assms(4) by blast
  qed
qed

text \<open>What the merge has done: some neighbours \<open>A\<close> in the free list and the run have become one free run.\<close>

lemma user_merge_bulks_merges:
  assumes R: "runs_ok brk (set (ubulks h)) S" and D: "distinct (ubulks h)" and B: "brk \<le> USER_HEAP_MAX" and i: "S i = n" "n \<noteq> 0"
    and m: "user_merge_bulks (run_va i) n h = Inr h1"
  shows "\<exists>A b. A \<subseteq> set (ubulks h) \<and> ext b = \<Union> (ext ` A) \<union> live_run S i \<and> run_in brk (bulk_start b) (bulk_size b) \<and>
    set (ubulks h1) = insert b (set (ubulks h) - A) \<and> (b \<notin> set (ubulks h) \<longrightarrow> distinct (ubulks h1)) \<and>
    h1 = h\<lparr>ubulks := ubulks h1, free_nodes_index := free_nodes_index h1\<rparr>"
proof -
  let ?va = "run_va i"
  have ri: "run_in brk ?va n" using R i unfolding runs_ok_def by metis
  have rb: "run_in brk (bulk_start b) (bulk_size b)" if "b \<in> set (ubulks h)" for b using R that unfolding runs_ok_def by blast
  have w: "bulk_start b + bulk_size b < U32" if "b \<in> set (ubulks h)" for b using rb [OF that] B by (simp add: run_in_def)
  have wi: "?va + n < U32" using ri B by (simp add: run_in_def)
  have bef: "a \<in> set (ubulks h) \<and> bulk_start a + bulk_size a = ?va"
    if "find_last (\<lambda>c. add32 (bulk_start c) (bulk_size c) = ?va) (ubulks h) None = Some a" for a
    using find_last_Some [OF that] w by (auto simp: u32_simps)
  have aft: "c \<in> set (ubulks h) \<and> bulk_start c = ?va + n"
    if "find_last (\<lambda>c. bulk_start c = add32 ?va n) (ubulks h) None = Some c" for c
    using find_last_Some [OF that] wi by (auto simp: u32_simps)
  consider (both) a c where "find_last (\<lambda>c. add32 (bulk_start c) (bulk_size c) = ?va) (ubulks h) None = Some a"
      "find_last (\<lambda>c. bulk_start c = add32 ?va n) (ubulks h) None = Some c"
    | (before) a where "find_last (\<lambda>c. add32 (bulk_start c) (bulk_size c) = ?va) (ubulks h) None = Some a"
      "find_last (\<lambda>c. bulk_start c = add32 ?va n) (ubulks h) None = None"
    | (after) c where "find_last (\<lambda>c. add32 (bulk_start c) (bulk_size c) = ?va) (ubulks h) None = None"
      "find_last (\<lambda>c. bulk_start c = add32 ?va n) (ubulks h) None = Some c"
    | (none) "find_last (\<lambda>c. add32 (bulk_start c) (bulk_size c) = ?va) (ubulks h) None = None"
      "find_last (\<lambda>c. bulk_start c = add32 ?va n) (ubulks h) None = None"
    by (metis option.exhaust)
  then show ?thesis
  proof cases
    case both
    note a = bef [OF both(1)] and c = aft [OF both(2)]
    let ?b = "a\<lparr>bulk_size := bulk_size a + (n + bulk_size c)\<rparr>"
    have x: "add32 n (bulk_size c) = n + bulk_size c" "add32 (bulk_size a) (n + bulk_size c) = bulk_size a + (n + bulk_size c)"
      using w [of c] a c by (simp_all add: u32_simps)
    have h1: "h1 = h\<lparr>ubulks := user_insert_bulk_desc ?b (remove1 c (remove1 a (ubulks h)))\<rparr>"
      using m by (simp add: user_merge_bulks_def both user_remove_bulk_def x)
    have "ext ?b = \<Union> (ext ` {a, c}) \<union> live_run S i" using a c i by (auto simp: ext_run)
    moreover have "run_in brk (bulk_start ?b) (bulk_size ?b)"
      using rb [of a] rb [of c] ri a c unfolding run_in_def by (auto intro!: multiple_add)
    ultimately show ?thesis
      using a c D h1 by (intro exI [of _ "{a, c}"] exI [of _ ?b]) (auto simp: set_remove1_eq distinct_user_insert)
  next
    case before
    note a = bef [OF before(1)]
    let ?b = "a\<lparr>bulk_size := bulk_size a + n\<rparr>"
    have x: "add32 (bulk_size a) n = bulk_size a + n" using wi a by (simp add: u32_simps)
    have h1: "h1 = h\<lparr>ubulks := user_insert_bulk_desc ?b (remove1 a (ubulks h))\<rparr>"
      using m by (simp add: user_merge_bulks_def before user_remove_bulk_def x)
    have "ext ?b = \<Union> (ext ` {a}) \<union> live_run S i" using a i by (auto simp: ext_run)
    moreover have "run_in brk (bulk_start ?b) (bulk_size ?b)"
      using rb [of a] ri a unfolding run_in_def by (auto intro!: multiple_add)
    ultimately show ?thesis
      using a D h1 by (intro exI [of _ "{a}"] exI [of _ ?b]) (auto simp: set_remove1_eq distinct_user_insert)
  next
    case after
    note c = aft [OF after(2)]
    let ?b = "c\<lparr>bulk_start := ?va, bulk_size := bulk_size c + n\<rparr>"
    have x: "add32 (bulk_size c) n = bulk_size c + n" using w [of c] c by (simp add: u32_simps)
    have h1: "h1 = h\<lparr>ubulks := user_insert_bulk_desc ?b (remove1 c (ubulks h))\<rparr>"
      using m by (simp add: user_merge_bulks_def after user_remove_bulk_def x)
    have "ext ?b = \<Union> (ext ` {c}) \<union> live_run S i" using c i by (auto simp: ext_run)
    moreover have "run_in brk (bulk_start ?b) (bulk_size ?b)"
      using rb [of c] ri c unfolding run_in_def by (auto intro!: multiple_add)
    ultimately show ?thesis
      using c D h1 by (intro exI [of _ "{c}"] exI [of _ ?b]) (auto simp: set_remove1_eq distinct_user_insert)
  next
    case none
    let ?b = "\<lparr>bulk_addr = free_nodes_index h, bulk_start = ?va, bulk_size = n\<rparr>"
    have h1: "h1 = h\<lparr>ubulks := user_insert_bulk_desc ?b (ubulks h), free_nodes_index := Suc (free_nodes_index h)\<rparr>"
      using m by (auto simp: user_merge_bulks_def none split: if_splits)
    have "ext ?b = \<Union> (ext ` {}) \<union> live_run S i" using i by (auto simp: ext_run)
    then show ?thesis
      using ri D h1 by (intro exI [of _ "{}"] exI [of _ ?b]) (auto simp: distinct_user_insert)
  qed
qed

lemma run_index: "run_in brk (run_va i) n \<Longrightarrow> brk \<le> USER_HEAP_MAX \<Longrightarrow> page_index (run_va i) = i"
  using run_va_index(1) [of brk "run_va i" n] by (simp add: run_va_def)

text \<open>The parts of \<open>free\<close> on an allocated run: the merge, the new break, and the call of the kernel.\<close>

lemma free_run_steps:
  assumes "uheap_inv h" "allocation_sizes h i = n" "n \<noteq> 0"
  shows "free (run_va i) h =
    andThen (user_merge_bulks (run_va i) n (h\<lparr>allocation_sizes := (allocation_sizes h)(i := 0)\<rparr>)) (\<lambda>h.
    (let h = h\<lparr>uheapPageAllocBreak := top_run (page_index (uheapPageAllocBreak h)) (allocation_sizes h) (uheapPageAllocStart h)\<rparr>
     in andThen (sys_free_user_mem (kernel_faults h) (run_va i) n (kernel h)) (\<lambda>v. Inr (h\<lparr>kernel := v\<rparr>))))"
proof -
  have r: "run_in (uheapPageAllocBreak h) (run_va i) n" "uheapPageAllocBreak h \<le> USER_HEAP_MAX" "uheapPageAllocStart h = UPAGES_START"
    using assms unfolding uheap_inv_def runs_ok_def by auto
  then have "page_index (run_va i) = i" "UPAGES_START \<le> run_va i" "run_va i < USER_HEAP_MAX"
    using run_index [OF r(1,2)] by (auto simp: run_in_def)
  then show ?thesis using r(3) assms(2,3) by (simp add: free_def)
qed

lemma free_run:
  assumes "uheap_inv h" "tops j h" "i \<noteq> j" "allocation_sizes h i = n" "n \<noteq> 0"
  shows "case free (run_va i) h of
      Inl e \<Rightarrow> e = Panic ''Out of free Bulk nodes!'' \<and> 2048 \<le> free_nodes_index h \<or>
        sys_free_user_mem (kernel_faults h) (run_va i) n (kernel h) = Inl e
    | Inr h' \<Rightarrow> uheap_inv h' \<and> tops j h' \<and> allocation_sizes h' = (allocation_sizes h)(i := 0) \<and>
        uheapPageAllocBreak h' = uheapPageAllocBreak h \<and>
        \<Union> (ext ` set (ubulks h')) = \<Union> (ext ` set (ubulks h)) \<union> {run_va i ..< run_va i + n}"
proof (cases "user_merge_bulks (run_va i) n (h\<lparr>allocation_sizes := (allocation_sizes h)(i := 0)\<rparr>)")
  case (Inl e)
  then have "e = Panic ''Out of free Bulk nodes!'' \<and> 2048 \<le> free_nodes_index h"
    by (auto simp: user_merge_bulks_def Let_def split: option.splits if_splits)
  then show ?thesis using Inl by (simp add: free_run_steps [OF assms(1,4,5)])
next
  case (Inr h1)
  let ?S = "allocation_sizes h" and ?B = "uheapPageAllocBreak h" and ?h = "h\<lparr>allocation_sizes := (allocation_sizes h)(i := 0)\<rparr>"
  have I: "uheapPageAllocStart h = UPAGES_START" "UPAGES_START \<le> ?B" "?B \<le> USER_HEAP_MAX" "?B mod PAGE_SIZE = 0"
    "distinct (ubulks h)" "runs_ok ?B (set (ubulks h)) ?S"
    using assms(1) by (simp_all add: uheap_inv_def)
  obtain A b where M: "A \<subseteq> set (ubulks h)" "ext b = \<Union> (ext ` A) \<union> live_run ?S i" "run_in ?B (bulk_start b) (bulk_size b)"
    "set (ubulks h1) = insert b (set (ubulks h) - A)" "b \<notin> set (ubulks h) \<longrightarrow> distinct (ubulks h1)"
    "h1 = ?h\<lparr>ubulks := ubulks h1, free_nodes_index := free_nodes_index h1\<rparr>"
    using user_merge_bulks_merges [of ?B ?h ?S i n h1] I assms(4,5) Inr by auto
  note N = runs_ok_merge [OF I(6) _ M(1-3)]
  have s: "allocation_sizes h1 = ?S(i := 0)" "uheapPageAllocBreak h1 = ?B" "uheapPageAllocStart h1 = UPAGES_START"
    "kernel_faults h1 = kernel_faults h" "kernel h1 = kernel h"
    by (subst M(6), simp add: I(1))+
  have inv: "uheap_inv h1" unfolding uheap_inv_def s using I N M(4,5) assms(4,5) by simp
  have tp: "tops j h1" using assms(2,3) by (simp add: tops_def s)
  have br: "top_run (page_index (uheapPageAllocBreak h1)) (allocation_sizes h1) (uheapPageAllocStart h1) = uheapPageAllocBreak h1"
    by (rule top_run_tops [OF inv tp])
  have un: "\<Union> (ext ` set (ubulks h1)) = \<Union> (ext ` set (ubulks h)) \<union> {run_va i ..< run_va i + n}"
    using M(1,2) unfolding M(4) assms(4) by (auto simp del: ext_run)
  show ?thesis
    using inv tp un
    by (cases "sys_free_user_mem (kernel_faults h) (run_va i) n (kernel h)")
      (auto simp: free_run_steps [OF assms(1,4,5)] Inr br [unfolded s] s uheap_inv_def tops_def simp del: ext_run)
qed

text \<open>
  C17. Releasing an allocated run other than the topmost one: it fails only when the kernel cannot release the pages or when
  2048 list nodes have been used; otherwise exactly this run becomes free, joined with the free runs beside it, every other
  allocated run and the break stay, and the invariant of the heap holds again.
\<close>

theorem free_run_correct:
  assumes "uheap_inv h" "tops j h" "i \<noteq> j" "allocation_sizes h i = n" "n \<noteq> 0"
  shows "case free (run_va i) h of
      Inl e \<Rightarrow> e = Panic ''Out of free Bulk nodes!'' \<and> 2048 \<le> free_nodes_index h \<or>
        sys_free_user_mem (kernel_faults h) (run_va i) n (kernel h) = Inl e
    | Inr h' \<Rightarrow> uheap_inv h' \<and> tops j h' \<and> allocation_sizes h' = (allocation_sizes h)(i := 0) \<and>
        uheapPageAllocBreak h' = uheapPageAllocBreak h \<and>
        \<Union> (ext ` set (ubulks h')) = \<Union> (ext ` set (ubulks h)) \<union> {run_va i ..< run_va i + n}"
  by (rule free_run [OF assms])

text \<open>Two runs of one page each; the lower one is released.\<close>

theorem free_run_correct_witness:
  "\<exists>h h'. free UPAGES_START h = Inr h' \<and> uheap_inv h' \<and> allocation_sizes h' = (\<lambda>_. 0)(8194 := 4096)"
proof -
  let ?h = sample_uheap
  have s: "user_ok (kernel ?h)" "\<not> firstTimeFlag ?h" "ubulks ?h = []" "uheapPageAllocStart ?h = UPAGES_START"
      "uheapPageAllocBreak ?h = UPAGES_START" "allocation_sizes ?h = (\<lambda>_. 0)" "free_nodes_index ?h = 0" "isBufferingEnabled (kernel_faults ?h) = 0"
    using user_vm_ok by (simp_all add: sample_uheap_def isBufferingEnabled_def)
  obtain v1 where 1: "user_ok v1" "tables (km v1) 0xF6001000 1 = PERM_UHPAGE"
    using malloc_at_break [OF s(1-5)] s(6) by auto
  obtain v2 where v2: "sys_free_user_mem (kernel_faults ?h) UPAGES_START 4096 v1 = Inr v2"
    using release_user_page [OF 1 s(8)] by blast
  define h where "h = ?h\<lparr>kernel := v1, allocation_sizes := (\<lambda>_. 0)(8193 := 4096, 8194 := 4096), uheapPageAllocBreak := 0x82003000\<rparr>"
  have r: "run_va 8193 = UPAGES_START" "run_va 8194 = 0x82002000" by (simp_all add: run_va_def)
  have f: "uheapPageAllocStart h = UPAGES_START" "uheapPageAllocBreak h = 0x82003000" "ubulks h = []" "free_nodes_index h = 0"
      "kernel_faults h = kernel_faults ?h" "kernel h = v1" and z: "allocation_sizes h = (\<lambda>_. 0)(8193 := 4096, 8194 := 4096)"
    using s by (simp_all add: h_def)
  have l: "allocation_sizes h k = (if k = 8194 then 4096 else if k = 8193 then 4096 else 0)" for k by (simp add: z)
  have "uheap_inv h" unfolding uheap_inv_def runs_ok_def f l by (auto simp: r run_in_def split: if_splits)
  moreover have "tops 8194 h" by (simp add: tops_def l f r)
  ultimately have "case free (run_va 8193) h of
      Inl e \<Rightarrow> e = Panic ''Out of free Bulk nodes!'' \<and> 2048 \<le> free_nodes_index h \<or>
        sys_free_user_mem (kernel_faults h) (run_va 8193) 4096 (kernel h) = Inl e
    | Inr h' \<Rightarrow> uheap_inv h' \<and> tops 8194 h' \<and> allocation_sizes h' = (allocation_sizes h)(8193 := 0) \<and>
        uheapPageAllocBreak h' = uheapPageAllocBreak h \<and>
        \<Union> (ext ` set (ubulks h')) = \<Union> (ext ` set (ubulks h)) \<union> {run_va 8193 ..< run_va 8193 + 4096}"
    by (intro free_run_correct) (simp_all add: l)
  then obtain h' where "free UPAGES_START h = Inr h'" "uheap_inv h'" "allocation_sizes h' = (allocation_sizes h)(8193 := 0)"
    using v2 by (auto simp: r f split: sum.splits)
  moreover have "(allocation_sizes h)(8193 := 0) = (\<lambda>_. 0)(8194 := 4096)" by (auto simp: z)
  ultimately show ?thesis by auto
qed

section \<open>Sequences of requests\<close>

text \<open>
  A program that allocates runs and blocks and releases blocks and any run but the topmost one, in any order. The break is at the end
  of a run from the first run on, and no two allocated runs ever overlap.
\<close>

inductive uheap_step :: "uheap \<Rightarrow> uheap \<Rightarrow> bool" where
  allocate: "DYN_ALLOC_MAX_BLOCK_SIZE < sz \<Longrightarrow> sz + PAGE_SIZE < U32 \<Longrightarrow> malloc sz h = Inr (va, h') \<Longrightarrow> uheap_step h h'"
| release: "tops j h \<Longrightarrow> i \<noteq> j \<Longrightarrow> allocation_sizes h i \<noteq> 0 \<Longrightarrow> free (run_va i) h = Inr h' \<Longrightarrow> uheap_step h h'"
| allocate_block: "sz \<le> DYN_ALLOC_MAX_BLOCK_SIZE \<Longrightarrow> malloc sz h = Inr (b, h') \<Longrightarrow> uheap_step h h'"
| release_block: "va < uheapPageAllocStart h \<Longrightarrow> free va h = Inr h' \<Longrightarrow> uheap_step h h'"

lemma custom_fit_break:
  assumes "user_page_alloc_custom_fit n h = Inr (va, h')"
  shows "firstTimeFlag h' = firstTimeFlag h"
    "uheapPageAllocBreak h' = uheapPageAllocBreak h \<or> va = uheapPageAllocBreak h \<and> uheapPageAllocBreak h' = add32 (uheapPageAllocBreak h) n"
  using assms
  by (auto simp: user_page_alloc_custom_fit_def take_run_def res_simps Let_def split: option.splits if_splits)

lemma malloc_keeps_top:
  assumes "uheap_inv h" "\<not> firstTimeFlag h" "DYN_ALLOC_MAX_BLOCK_SIZE < sz" "sz + PAGE_SIZE < U32" "malloc sz h = Inr (va, h')"
    and "tops j h" "uheap_inv h' \<and> (va = 0 \<and> h' = h \<or> run_fresh va (ROUNDUP sz PAGE_SIZE) h h')"
  shows "\<exists>k. tops k h'"
  using assms(7)
proof (elim conjE disjE)
  let ?n = "ROUNDUP sz PAGE_SIZE" and ?B = "uheapPageAllocBreak h"
  assume i: "uheap_inv h'" and f: "run_fresh va ?n h h'"
  have m: "user_page_alloc_custom_fit ?n h = Inr (va, h')" using assms(2,3,5) by (simp add: malloc_def uheap_init_def)
  have S: "allocation_sizes h' = (allocation_sizes h)(page_index va := ?n)" "va + ?n \<le> uheapPageAllocBreak h'" "va mod PAGE_SIZE = 0"
    "UPAGES_START \<le> va"
    using f by (simp_all add: run_fresh_def)
  obtain q where "0 < q" "?n = q * 4096" using ROUNDUP_pages [OF _ assms(4)] assms(3) by auto
  then have n: "0 < ?n" "?n mod 4096 = 0" by simp_all
  have b: "uheapPageAllocBreak h' \<le> USER_HEAP_MAX" using i by (simp add: uheap_inv_def)
  have ri: "run_in (uheapPageAllocBreak h') va ?n" using S n by (simp add: run_in_def)
  have v: "run_va (page_index va) = va" by (rule run_va_index [OF ri b])
  show ?thesis
  proof (cases "uheapPageAllocBreak h' = ?B")
    case True
    have "live_run (allocation_sizes h) j \<inter> {va ..< va + ?n} = {}" using f assms(6) by (auto simp: run_fresh_def tops_def)
    then have "j \<noteq> page_index va" using v n assms(6) by (auto simp: tops_def)
    then show ?thesis using assms(6) True by (intro exI [of _ j]) (simp add: tops_def S(1))
  next
    case False
    then have e: "va = ?B" "uheapPageAllocBreak h' = add32 ?B ?n" using custom_fit_break(2) [OF m] by auto
    have "?B + ?n < U32" using S(2) b e(1) by simp
    then have "tops (page_index va) h'" using e n v by (simp add: tops_def S(1) u32_simps)
    then show ?thesis by blast
  qed
qed (use assms(6) in blast)

definition no_runs :: "uheap \<Rightarrow> bool" where
  "no_runs h \<longleftrightarrow> ubulks h = [] \<and> (\<forall>i. allocation_sizes h i = 0)"

lemma malloc_first_run:
  assumes "uheap_inv h" "\<not> firstTimeFlag h" "DYN_ALLOC_MAX_BLOCK_SIZE < sz" "sz + PAGE_SIZE < U32" "malloc sz h = Inr (va, h')" "no_runs h"
  shows "h' = h \<or> (\<exists>k. tops k h')"
proof -
  let ?n = "ROUNDUP sz PAGE_SIZE" and ?B = "uheapPageAllocBreak h"
  have m: "user_page_alloc_custom_fit ?n h = Inr (va, h')" using assms(2,3,5) by (simp add: malloc_def uheap_init_def)
  obtain q where "0 < q" "?n = q * 4096" using ROUNDUP_pages [OF _ assms(4)] assms(3) by auto
  then have n: "0 < ?n" "?n mod 4096 = 0" by simp_all
  have I: "UPAGES_START \<le> ?B" "?B \<le> USER_HEAP_MAX" "?B mod 4096 = 0" using assms(1) by (simp_all add: uheap_inv_def)
  have c: "h' = h \<or> va = ?B \<and> uheapPageAllocBreak h' = add32 ?B ?n \<and> allocation_sizes h' (page_index ?B) = ?n \<and> add32 ?B ?n \<le> USER_HEAP_MAX \<and>
      ?n \<le> sub32 USER_HEAP_MAX ?B"
    using m assms(6)
    by (auto simp: user_page_alloc_custom_fit_def take_run_def res_simps no_runs_def Let_def split: if_splits)
  show ?thesis
  proof (cases "h' = h")
    case False
    then have e: "uheapPageAllocBreak h' = add32 ?B ?n" "allocation_sizes h' (page_index ?B) = ?n" "?n \<le> USER_HEAP_MAX - ?B"
      using c I(2) by (auto simp: u32_simps)
    then have a: "add32 ?B ?n = ?B + ?n" using I(2) by (simp add: u32_simps)
    have "run_in (?B + ?n) ?B ?n" "?B + ?n \<le> USER_HEAP_MAX" using I n e(3) by (simp_all add: run_in_def)
    then have "run_va (page_index ?B) = ?B" by (rule run_va_index(1))
    then have "tops (page_index ?B) h'" using e n a by (simp add: tops_def)
    then show ?thesis by blast
  qed simp
qed

lemma uheap_step_inv:
  assumes "uheap_step h h'" "uheap_inv h" "\<not> firstTimeFlag h" "no_runs h \<or> (\<exists>j. tops j h)"
  shows "uheap_inv h' \<and> \<not> firstTimeFlag h' \<and> (no_runs h' \<or> (\<exists>j. tops j h'))"
  using assms(1)
proof cases
  case (allocate sz va)
  have i: "uheap_inv h' \<and> (va = 0 \<and> h' = h \<or> run_fresh va (ROUNDUP sz PAGE_SIZE) h h')"
    by (rule malloc_run [OF assms(2,3) allocate])
  have m: "user_page_alloc_custom_fit (ROUNDUP sz PAGE_SIZE) h = Inr (va, h')" using assms(3) allocate by (simp add: malloc_def uheap_init_def)
  show ?thesis
    using i assms(3,4) custom_fit_break(1) [OF m] malloc_first_run [OF assms(2,3) allocate] malloc_keeps_top [OF assms(2,3) allocate _ i]
    by auto
next
  case (release j i)
  have "uheap_inv h' \<and> tops j h'"
    using free_run [OF assms(2) release(1,2) refl release(3)] release(4) by (simp del: ext_run)
  moreover have "firstTimeFlag h' = firstTimeFlag h"
    using release(4) by (auto simp: free_def user_merge_bulks_def res_simps Let_def split: if_splits option.splits)
  ultimately show ?thesis using assms(3) by auto
next
  case (allocate_block sz b)
  then obtain d v where "h' = h \<or> h' = h\<lparr>uda := d, kernel := v\<rparr>" using assms(3) by (auto simp: malloc_def uheap_init_def res_simps split: if_splits)
  then show ?thesis using assms(2-4) by (auto simp: uheap_inv_def no_runs_def tops_def)
next
  case (release_block va)
  then obtain d v where "h' = h \<or> h' = h\<lparr>uda := d, kernel := v\<rparr>" by (auto simp: free_def res_simps split: if_splits)
  then show ?thesis using assms(2-4) by (auto simp: uheap_inv_def no_runs_def tops_def)
qed

lemma uheap_steps_inv:
  assumes "uheap_step\<^sup>*\<^sup>* h h'" "uheap_inv h" "\<not> firstTimeFlag h" "no_runs h"
  shows "uheap_inv h' \<and> \<not> firstTimeFlag h' \<and> (no_runs h' \<or> (\<exists>j. tops j h'))"
  using assms(1) by (induction rule: rtranclp_induct) (use assms(2-4) uheap_step_inv in blast)+

lemma runs_never_overlap:
  assumes "uheap_step\<^sup>*\<^sup>* h h'" "uheap_inv h" "\<not> firstTimeFlag h" "no_runs h"
    and "allocation_sizes h' i \<noteq> 0" "allocation_sizes h' j \<noteq> 0" "i \<noteq> j"
  shows "live_run (allocation_sizes h') i \<inter> live_run (allocation_sizes h') j = {}"
proof -
  have "uheap_inv h'" using uheap_steps_inv [OF assms(1-4)] by simp
  then have "runs_ok (uheapPageAllocBreak h') (set (ubulks h')) (allocation_sizes h')" by (simp add: uheap_inv_def)
  then show ?thesis using assms(5-7) unfolding runs_ok_def by metis
qed




end
