(* ===== verification/Shared_Memory.thy ===== *)
theory Shared_Memory
  imports User_Heap
begin

text \<open>
  Shared objects (\<^verbatim>\<open>src/kern/mem/shared_memory_manager.c\<close>), their system calls in \<^verbatim>\<open>src/kern/trap/syscall.c\<close>, and
  \<^verbatim>\<open>smalloc\<close> and \<^verbatim>\<open>sget\<close> of \<^verbatim>\<open>src/lib/uheap.c\<close>. The state is that of the running process, its
  kernel and the list of shares.
\<close>

unbundle bit_operations_syntax

section \<open>Shares\<close>

record share =
  sh_addr :: nat
  ID :: int
  ownerID :: int
  sh_name :: string             \<comment> \<open>\<^verbatim>\<open>char name[64]\<close>\<close>
  sh_size :: nat
  sh_references :: nat
  isWritable :: nat
  framesStorage :: "nat option list"

record shm =
  sh_heap :: uheap
  shares_list :: "share list"
  shareslock :: bool
  cur_env_id :: int

abbreviation sh_vm :: "shm \<Rightarrow> vm" where
  "sh_vm s \<equiv> kernel (sh_heap s)"

definition set_sh_vm :: "vm \<Rightarrow> shm \<Rightarrow> shm" where
  "set_sh_vm v s = s\<lparr>sh_heap := (sh_heap s)\<lparr>kernel := v\<rparr>\<rparr>"

abbreviation E_NO_SHARE :: int where "E_NO_SHARE \<equiv> - 14"
abbreviation E_SHARED_MEM_EXISTS :: int where "E_SHARED_MEM_EXISTS \<equiv> - 15"
abbreviation E_SHARED_MEM_NOT_EXISTS :: int where "E_SHARED_MEM_NOT_EXISTS \<equiv> - 16"

abbreviation NUL :: char where "NUL \<equiv> CHR 0x00"

text \<open>\<^verbatim>\<open>strncpy\<close> into the 64 bytes of a name: cut off, or padded with zeros.\<close>

definition strncpy64 :: "string \<Rightarrow> string" where
  "strncpy64 src = take 64 (src @ replicate 64 NUL)"

definition le_bytes :: "nat \<Rightarrow> nat \<Rightarrow> string" where
  "le_bytes k n = map (\<lambda>i. char_of (n div 256 ^ i mod 256)) [0..<k]"

text \<open>
  The string that starts at \<^verbatim>\<open>shr->name\<close>. A name of 64 characters has no terminating zero, and the string goes on with the
  bytes of the fields behind it.
\<close>

definition share_string :: "share \<Rightarrow> string" where
  "share_string shr = takeWhile (\<lambda>c. c \<noteq> NUL)
     (sh_name shr @ le_bytes 4 (sh_size shr) @ le_bytes 4 (sh_references shr) @ le_bytes 1 (isWritable shr))"

definition sharing_init :: "shm \<Rightarrow> shm" where
  "sharing_init s = s\<lparr>shares_list := [], shareslock := False\<rparr>"

definition is_share :: "int \<Rightarrow> string \<Rightarrow> share \<Rightarrow> bool" where
  "is_share owner name shr \<longleftrightarrow> ownerID shr = owner \<and> name = share_string shr"

definition find_share :: "int \<Rightarrow> string \<Rightarrow> shm \<Rightarrow> (share option \<times> shm) result" where
  "find_share owner name s =
     (let wasHeld = shareslock s in
      andThen (if \<not> wasHeld then lock_acquire (shareslock s) else Inr (shareslock s)) (\<lambda>h.
      (let ret = find (is_share owner name) (shares_list s) in
       andThen (if \<not> wasHeld then lock_release h else Inr h) (\<lambda>h. Inr (ret, s\<lparr>shareslock := h\<rparr>)))))"

definition size_of_shared_object :: "int \<Rightarrow> string \<Rightarrow> shm \<Rightarrow> (int \<times> shm) result" where
  "size_of_shared_object owner name s =
     andThen (find_share owner name s) (\<lambda>(r, s).
     Inr (case r of None \<Rightarrow> E_SHARED_MEM_NOT_EXISTS | Some shr \<Rightarrow> int32 (int (sh_size shr)), s))"

section \<open>Creating\<close>

definition sh_kmalloc :: "nat \<Rightarrow> shm \<Rightarrow> (nat \<times> shm) result" where
  "sh_kmalloc sz s = andThen (kmalloc sz (km (sh_vm s))) (\<lambda>(p, k). Inr (p, set_sh_vm ((sh_vm s)\<lparr>km := k\<rparr>) s))"

definition sh_kfree :: "nat \<Rightarrow> shm \<Rightarrow> shm result" where
  "sh_kfree p s = andThen (kfree p (km (sh_vm s))) (\<lambda>k. Inr (set_sh_vm ((sh_vm s)\<lparr>km := k\<rparr>) s))"

abbreviation SIZEOF_SHARE :: nat where "SIZEOF_SHARE \<equiv> 96"

definition with_shareslock :: "(shm \<Rightarrow> ('a \<times> shm) result) \<Rightarrow> shm \<Rightarrow> ('a \<times> shm) result" where
  "with_shareslock f s =
     andThen (lock_acquire (shareslock s)) (\<lambda>h.
     andThen (f (s\<lparr>shareslock := h\<rparr>)) (\<lambda>(r, s).
     andThen (lock_release (shareslock s)) (\<lambda>h. Inr (r, s\<lparr>shareslock := h\<rparr>))))"

definition share_pages :: "nat \<Rightarrow> nat" where
  "share_pages sz = ROUNDUP sz PAGE_SIZE div PAGE_SIZE"

text \<open>The result of \<^verbatim>\<open>kmalloc\<close> is used without a test for \<^verbatim>\<open>NULL\<close>.\<close>

definition alloc_share :: "int \<Rightarrow> string \<Rightarrow> nat \<Rightarrow> nat \<Rightarrow> shm \<Rightarrow> (share option \<times> shm) result" where
  "alloc_share owner name sz writable s =
     andThen (with_shareslock (sh_kmalloc SIZEOF_SHARE) s) (\<lambda>(p, s).
     if p = 0 then Inl (Cpu_trap ''ostazShared->ownerID'')
     else
       andThen (sh_kmalloc (mul32 4 (share_pages sz)) s) (\<lambda>(fs, s).
       if fs = 0 then
         andThen (with_shareslock (\<lambda>s. andThen (sh_kfree p s) (\<lambda>s. Inr ((), s))) s) (\<lambda>(_, s). Inr (None, s))
       else
         Inr (Some \<lparr>sh_addr = p, ID = 0, ownerID = owner, sh_name = strncpy64 name, sh_size = sz, sh_references = 1,
                    isWritable = writable, framesStorage = replicate (share_pages sz) None\<rparr>, s)))"

text \<open>One turn of the loop: a new frame, mapped at \<open>va\<close>.\<close>

definition share_page :: "nat \<Rightarrow> shm \<Rightarrow> (nat \<times> shm) result" where
  "share_page va s =
     andThen (allocate_frame (km (sh_vm s))) (\<lambda>(f, k).
     andThen (map_frame create_page_table (upgdir (sh_vm s)) f va (PERM_USER OR PERM_WRITEABLE) k) (\<lambda>k.
     Inr (f, set_sh_vm ((sh_vm s)\<lparr>km := k\<rparr>) s)))"

fun create_loop :: "nat \<Rightarrow> nat \<Rightarrow> nat list \<Rightarrow> shm \<Rightarrow> (nat list \<times> shm) result" where
  "create_loop 0 va fs s = Inr (fs, s)"
| "create_loop (Suc n) va fs s = andThen (share_page va s) (\<lambda>(f, s). create_loop n (add32 va PAGE_SIZE) (fs @ [f]) s)"

definition upd_share :: "nat \<Rightarrow> (share \<Rightarrow> share) \<Rightarrow> shm \<Rightarrow> shm" where
  "upd_share a f s = s\<lparr>shares_list := map (\<lambda>shr. if sh_addr shr = a then f shr else shr) (shares_list s)\<rparr>"

definition create_shared_object :: "int \<Rightarrow> string \<Rightarrow> nat \<Rightarrow> nat \<Rightarrow> nat \<Rightarrow> shm \<Rightarrow> (int \<times> shm) result" where
  "create_shared_object owner name sz writable va s =
     andThen (find_share owner name s) (\<lambda>(r, s).
     if r \<noteq> None then Inr (E_SHARED_MEM_EXISTS, s)
     else
       andThen (alloc_share owner name sz writable s) (\<lambda>(r, s).
       (case r of
          None \<Rightarrow> Inr (E_NO_SHARE, s)
        | Some shr \<Rightarrow>
            andThen (with_shareslock (\<lambda>s. andThen (list_insert_head shr (shares_list s)) (\<lambda>l. Inr ((), s\<lparr>shares_list := l\<rparr>))) s) (\<lambda>(_, s).
            (let s = upd_share (sh_addr shr) (\<lambda>shr. shr\<lparr>ID := int (va mod 2 ^ 31)\<rparr>) s in
             andThen (create_loop (share_pages sz) va [] s) (\<lambda>(fs, s).
             Inr (int (va mod 2 ^ 31), upd_share (sh_addr shr) (\<lambda>shr. shr\<lparr>framesStorage := map Some fs\<rparr>) s)))))))"

section \<open>Getting\<close>

fun get_loop :: "nat option list \<Rightarrow> nat \<Rightarrow> u32 \<Rightarrow> shm \<Rightarrow> shm result" where
  "get_loop [] va perm s = Inr s"
| "get_loop (f # fs) va perm s =
     (case f of
        None \<Rightarrow> Inl (Cpu_trap ''framesStorage[i]'')
      | Some f \<Rightarrow>
          andThen (map_frame create_page_table (upgdir (sh_vm s)) f va perm (km (sh_vm s))) (\<lambda>k.
          get_loop fs (add32 va PAGE_SIZE) perm (set_sh_vm ((sh_vm s)\<lparr>km := k\<rparr>) s)))"

definition get_shared_object :: "int \<Rightarrow> string \<Rightarrow> nat \<Rightarrow> shm \<Rightarrow> (int \<times> shm) result" where
  "get_shared_object owner name va s =
     andThen (with_shareslock (\<lambda>s.
        (case find (is_share owner name) (shares_list s) of
           None \<Rightarrow> Inr (None, s)
         | Some shr \<Rightarrow>
             Inr (Some shr, upd_share (sh_addr shr) (\<lambda>shr. shr\<lparr>sh_references := add32 (sh_references shr) 1\<rparr>) s))) s) (\<lambda>(r, s).
     (case r of
        None \<Rightarrow> Inr (E_SHARED_MEM_NOT_EXISTS, s)
      | Some shr \<Rightarrow>
          andThen (get_loop (take (share_pages (sh_size shr)) (framesStorage shr)) va
                     (if isWritable shr \<noteq> 0 then PERM_USER OR PERM_WRITEABLE else PERM_USER) s) (\<lambda>s.
          Inr (ID shr, s))))"

definition free_share :: "share \<Rightarrow> shm \<Rightarrow> shm result" where
  "free_share shr s = Inl (Panic ''free_share() is not implemented yet...!!'')"

definition delete_shared_object :: "int \<Rightarrow> nat \<Rightarrow> shm \<Rightarrow> (int \<times> shm) result" where
  "delete_shared_object sharedObjectID startVA s = Inl (Panic ''delete_shared_object() is not implemented yet...!!'')"

section \<open>The user's side\<close>

definition sys_create_shared_object :: "string \<Rightarrow> nat \<Rightarrow> nat \<Rightarrow> nat \<Rightarrow> shm \<Rightarrow> (int \<times> shm) result" where
  "sys_create_shared_object name sz writable va s = create_shared_object (cur_env_id s) name sz writable va s"

text \<open>Giving back the pages of a run whose object could not be made or found; the run itself stays recorded as allocated.\<close>

definition sh_free_user_mem :: "nat \<Rightarrow> nat \<Rightarrow> shm \<Rightarrow> shm result" where
  "sh_free_user_mem va sz s =
     andThen (sys_free_user_mem (kernel_faults (sh_heap s)) va sz (sh_vm s)) (\<lambda>v. Inr (set_sh_vm v s))"

definition sh_page_alloc :: "nat \<Rightarrow> shm \<Rightarrow> (nat \<times> shm) result" where
  "sh_page_alloc needed s = andThen (user_page_alloc_custom_fit needed (sh_heap s)) (\<lambda>(va, h). Inr (va, s\<lparr>sh_heap := h\<rparr>))"

definition smalloc :: "string \<Rightarrow> nat \<Rightarrow> nat \<Rightarrow> shm \<Rightarrow> (nat \<times> shm) result" where
  "smalloc name sz writable s =
     andThen (uheap_init (sh_heap s)) (\<lambda>h.
     (let s = s\<lparr>sh_heap := h\<rparr> in
      if sz = 0 then Inr (0, s)
      else
        andThen (size_of_shared_object (cur_env_id s) name s) (\<lambda>(r, s).
        if r \<noteq> E_SHARED_MEM_NOT_EXISTS then Inr (0, s)
        else
          andThen (sh_page_alloc (ROUNDUP sz PAGE_SIZE) s) (\<lambda>(va, s).
          if va = 0 then Inr (0, s)
          else
            andThen (sys_create_shared_object name sz writable va s) (\<lambda>(objID, s).
            if objID < 0 then andThen (sh_free_user_mem va (ROUNDUP sz PAGE_SIZE) s) (\<lambda>s. Inr (0, s))
            else Inr (va, s))))))"

definition sget :: "int \<Rightarrow> string \<Rightarrow> shm \<Rightarrow> (nat \<times> shm) result" where
  "sget owner name s =
     andThen (uheap_init (sh_heap s)) (\<lambda>h.
     andThen (size_of_shared_object owner name (s\<lparr>sh_heap := h\<rparr>)) (\<lambda>(sz, s).
     if sz \<le> 0 then Inr (0, s)
     else
       andThen (sh_page_alloc (ROUNDUP (nat sz) PAGE_SIZE) s) (\<lambda>(va, s).
       if va = 0 then Inr (0, s)
       else
         andThen (get_shared_object owner name va s) (\<lambda>(r, s).
         if r < 0 then andThen (sh_free_user_mem va (ROUNDUP (nat sz) PAGE_SIZE) s) (\<lambda>s. Inr (0, s))
         else Inr (va, s)))))"

section \<open>Finding a share again\<close>

lemma set_sh_vm_simps [simp]:
  "shares_list (set_sh_vm v s) = shares_list s" "shareslock (set_sh_vm v s) = shareslock s" "sh_vm (set_sh_vm v s) = v"
  "cur_env_id (set_sh_vm v s) = cur_env_id s"
  by (simp_all add: set_sh_vm_def)

lemma find_share_eq:
  assumes "\<not> shareslock s"
  shows "find_share owner name s = Inr (find (is_share owner name) (shares_list s), s)"
proof -
  have "s\<lparr>shareslock := False\<rparr> = s" using assms by (cases s) simp
  then show ?thesis using assms by (simp add: find_share_def Let_def)
qed

lemma create_loop_Inr:
  "create_loop n va fs s = Inr (gs, s') \<Longrightarrow> shares_list s' = shares_list s \<and> shareslock s' = shareslock s \<and> length gs = length fs + n"
proof (induction n arbitrary: va fs s)
  case (Suc n)
  then obtain f s1 where 1: "share_page va s = Inr (f, s1)" "create_loop n (add32 va PAGE_SIZE) (fs @ [f]) s1 = Inr (gs, s')"
    by (auto simp: res_simps)
  have "shares_list s1 = shares_list s \<and> shareslock s1 = shareslock s" using 1(1) by (auto simp: share_page_def res_simps)
  then show ?case using Suc.IH [OF 1(2)] by simp
qed simp

lemma strncpy64_length [simp]: "length (strncpy64 name) = 64"
  by (simp add: strncpy64_def)

lemma takeWhile_stop: "\<forall>x \<in> set xs. P x \<Longrightarrow> \<not> P y \<Longrightarrow> takeWhile P (xs @ y # ys) = xs"
  by (induction xs) auto

text \<open>A name of fewer than 64 characters is read back as it was given.\<close>

lemma share_string_short:
  assumes "NUL \<notin> set name" "length name < 64" "sh_name shr = strncpy64 name"
  shows "share_string shr = name"
proof -
  obtain k where k: "64 - length name = Suc k" using assms(2) by (metis Suc_diff_Suc)
  have "strncpy64 name = name @ replicate (64 - length name) NUL"
    using assms(2) by (simp add: strncpy64_def min_def take_replicate)
  then obtain ys where ys: "sh_name shr @ le_bytes 4 (sh_size shr) @ le_bytes 4 (sh_references shr) @ le_bytes 1 (isWritable shr) = name @ NUL # ys"
    by (simp add: assms(3) k)
  show ?thesis unfolding share_string_def ys using assms(1) by (intro takeWhile_stop) auto
qed

text \<open>A name of 64 characters runs on into the size.\<close>

lemma share_string_long:
  assumes "NUL \<notin> set name" "length name = 64" "sh_name shr = strncpy64 name" "sh_size shr mod 256 \<noteq> 0"
  shows "share_string shr \<noteq> name"
proof -
  have n: "sh_name shr = name" using assms(2,3) by (simp add: strncpy64_def)
  let ?c = "char_of (sh_size shr mod 256) :: char"
  have "?c \<noteq> NUL"
  proof
    assume "?c = NUL"
    then have "of_char ?c = (0 :: nat)" by simp
    then show False using assms(4) by simp
  qed
  moreover have "le_bytes 4 (sh_size shr) = ?c # tl (le_bytes 4 (sh_size shr))"
    by (simp add: le_bytes_def upt_conv_Cons)
  moreover obtain r where "sh_name shr @ le_bytes 4 (sh_size shr) @ le_bytes 4 (sh_references shr) @ le_bytes 1 (isWritable shr) = name @ ?c # r"
    using n calculation(2) by (metis append_Cons)
  moreover have "c \<noteq> NUL" if "c \<in> set name" for c using assms(1) that by auto
  ultimately have "share_string shr = name @ ?c # takeWhile (\<lambda>c. c \<noteq> NUL) r"
    by (simp only: share_string_def) (subst takeWhile_append2; simp)
  then show ?thesis by auto
qed

text \<open>The lock is free, and the next block of the kernel heap is not the one of a share.\<close>

definition shares_ok :: "shm \<Rightarrow> bool" where
  "shares_ok s \<longleftrightarrow> \<not> shareslock s \<and> (\<forall>p k. kmalloc SIZEOF_SHARE (km (sh_vm s)) = Inr (p, k) \<longrightarrow> p \<notin> sh_addr ` set (shares_list s))"

text \<open>So it is when the shares are allocated blocks of a well-formed heap.\<close>

lemma shares_okI:
  assumes "\<not> shareslock s" "heap_inv (km (sh_vm s))" "\<not> kheap_lock (km (sh_vm s))"
    "\<forall>shr \<in> set (shares_list s). sh_addr shr \<in> allocated (da (km (sh_vm s)))"
  shows "shares_ok s"
  using kmalloc_block [OF assms(2,3), of SIZEOF_SHARE] assms(1,4) by (auto simp: shares_ok_def block_added_def)

lemma create_shared_object_Inr:
  assumes "shares_ok s" "create_shared_object owner name sz writable va s = Inr (oid, s')" "0 \<le> oid"
  shows "\<not> shareslock s' \<and> (\<exists>shr. shares_list s' = shr # shares_list s \<and> ownerID shr = owner \<and> sh_name shr = strncpy64 name \<and> sh_size shr = sz \<and>
    isWritable shr = writable \<and> ID shr = oid \<and> sh_references shr = 1 \<and> length (framesStorage shr) = share_pages sz \<and> None \<notin> set (framesStorage shr))"
proof -
  have lk: "\<not> shareslock s" using assms(1) by (simp add: shares_ok_def)
  obtain shr s1 where a: "alloc_share owner name sz writable s = Inr (Some shr, s1)" and
    c: "andThen (with_shareslock (\<lambda>s. andThen (list_insert_head shr (shares_list s)) (\<lambda>l. Inr ((), s\<lparr>shares_list := l\<rparr>))) s1) (\<lambda>(_, s).
        let s = upd_share (sh_addr shr) (\<lambda>shr. shr\<lparr>ID := int (va mod 2 ^ 31)\<rparr>) s in
         andThen (create_loop (share_pages sz) va [] s) (\<lambda>(fs, s).
         Inr (int (va mod 2 ^ 31), upd_share (sh_addr shr) (\<lambda>shr. shr\<lparr>framesStorage := map Some fs\<rparr>) s))) = Inr (oid, s')"
    using assms(2,3) by (auto simp: create_shared_object_def find_share_eq [OF lk] res_simps split: if_splits option.splits)
  obtain p s0 where p: "with_shareslock (sh_kmalloc SIZEOF_SHARE) s = Inr (p, s0)" "sh_addr shr = p" "ownerID shr = owner"
      "sh_name shr = strncpy64 name" "sh_size shr = sz" "isWritable shr = writable" "sh_references shr = 1" "shares_list s1 = shares_list s0"
      "shareslock s1 = shareslock s0"
    using a by (auto simp: alloc_share_def res_simps sh_kmalloc_def split: if_splits)
  have s0: "shares_list s0 = shares_list s" "\<not> shareslock s0" "\<exists>k. kmalloc SIZEOF_SHARE (km (sh_vm s)) = Inr (p, k)"
    using p(1) by (auto simp: with_shareslock_def sh_kmalloc_def res_simps)
  then have fresh: "\<forall>x \<in> set (shares_list s). sh_addr x \<noteq> p" using assms(1) by (auto simp: shares_ok_def)
  define s2 where "s2 = s1\<lparr>shares_list := shr # shares_list s, shareslock := False\<rparr>"
  have 2: "shares_list s2 = shr # shares_list s" "\<not> shareslock s2" by (simp_all add: s2_def)
  obtain s3 fs where 3: "create_loop (share_pages sz) va [] (upd_share p (\<lambda>shr. shr\<lparr>ID := int (va mod 2 ^ 31)\<rparr>) s2) = Inr (fs, s3)" and
    4: "s' = upd_share p (\<lambda>shr. shr\<lparr>framesStorage := map Some fs\<rparr>) s3" "oid = int (va mod 2 ^ 31)"
    using c p(2,8,9) s0(1,2) by (auto simp: with_shareslock_def res_simps Let_def s2_def)
  note L = create_loop_Inr [OF 3]
  have m: "map (\<lambda>x. if sh_addr x = p then f x else x) (shares_list s) = shares_list s" for f :: "share \<Rightarrow> share"
    using fresh by (simp add: map_idI)
  have "shares_list s' = shr\<lparr>ID := oid, framesStorage := map Some fs\<rparr> # shares_list s"
    using L 2(1) p(2) by (simp add: 4 upd_share_def m)
  moreover have "\<not> shareslock s'" using L 2(2) by (simp add: 4 upd_share_def)
  ultimately show ?thesis using p L by auto
qed

text \<open>
  C37. A shared object that was created under a name of less than 64 characters is found again under its owner and name, with its
  size, its permission and one frame for each page, and creating it a second time, with whatever size and permission, is refused
  with \<^verbatim>\<open>E_SHARED_MEM_EXISTS\<close> and changes nothing.
\<close>

theorem share_found_again:
  assumes "shares_ok s" and "create_shared_object owner name sz writable va s = Inr (oid, s')" and "0 \<le> oid" and "NUL \<notin> set name"
    and "length name < 64"
  shows "(\<exists>shr. find_share owner name s' = Inr (Some shr, s') \<and> sh_size shr = sz \<and> isWritable shr = writable \<and> ID shr = oid \<and>
             length (framesStorage shr) = share_pages sz \<and> None \<notin> set (framesStorage shr)) \<and>
         create_shared_object owner name sz' writable' va' s' = Inr (E_SHARED_MEM_EXISTS, s')"
proof -
  obtain shr where s': "\<not> shareslock s'" "shares_list s' = shr # shares_list s" "ownerID shr = owner" "sh_name shr = strncpy64 name"
      "sh_size shr = sz" "isWritable shr = writable" "ID shr = oid" "length (framesStorage shr) = share_pages sz" "None \<notin> set (framesStorage shr)"
    using create_shared_object_Inr [OF assms(1-3)] by blast
  have "find_share owner name s' = Inr (Some shr, s')"
    using share_string_short [OF assms(4,5) s'(4)] s'(3) by (simp add: find_share_eq [OF s'(1)] s'(2) is_share_def)
  then show ?thesis using s'(5-9) by (auto simp: create_shared_object_def)
qed

text \<open>
  A name of 64 characters or more is stored without a terminating zero, so that comparing it runs into the size field: an object with
  a name of exactly 64 characters and a size that is no multiple of 256 is not found.
\<close>

lemma long_name_lost:
  assumes "shares_ok s" and "create_shared_object owner name sz writable va s = Inr (oid, s')" and "0 \<le> oid" and "NUL \<notin> set name"
    and "\<not> (\<exists>shr \<in> set (shares_list s). is_share owner name shr)" and "length name = 64" and "sz mod 256 \<noteq> 0"
  shows "find_share owner name s' = Inr (None, s')"
proof -
  obtain shr where s': "\<not> shareslock s'" "shares_list s' = shr # shares_list s" "sh_name shr = strncpy64 name" "sh_size shr = sz"
    using create_shared_object_Inr [OF assms(1-3)] by blast
  show ?thesis
    using share_string_long [OF assms(4,6) s'(3)] assms(5,7) s'(4) by (auto simp: find_share_eq [OF s'(1)] s'(2) is_share_def find_None_iff)
qed

text \<open>A process with a share of one page to create, and two blocks left in the kernel heap; for the witness.\<close>

definition share_da :: dyn_alloc where
  "share_da = \<lparr>freeBlockLists = (\<lambda>i. if i = 4 then [0xF6010000] else if i = 0 then [0xF6011000] else []), freePagesList = [],
     pageBlockInfoArr = (\<lambda>i. \<lparr>block_size = (if i = 16 then 128 else 8), num_of_free_blocks = 1\<rparr>),
     dynAllocStart = KERNEL_HEAP_START, dynAllocEnd = KERNEL_HEAP_START + DYN_ALLOC_MAX_SIZE, is_initialized = True\<rparr>"

definition sample_shm :: shm where
  "sample_shm = \<lparr>sh_heap = sample_uheap\<lparr>kernel := user_vm\<lparr>km := (km user_vm)\<lparr>da := share_da\<rparr>\<rparr>\<rparr>, shares_list = [], shareslock = False,
     cur_env_id = 7\<rparr>"

text \<open>Taking the only block of class \<open>i\<close>.\<close>

lemma kmalloc_last_block:
  assumes "freeBlockLists d i = [b]" "dynAllocStart d = KERNEL_HEAP_START" "dynAllocEnd d = KERNEL_HEAP_START + DYN_ALLOC_MAX_SIZE"
    "da k = d" "\<not> kheap_lock k" "find_log2 sz 3 = i + 3" "0 < sz" "sz \<le> 2048" "i \<le> 8" "KERNEL_HEAP_START \<le> b" "b < KERNEL_HEAP_START + DYN_ALLOC_MAX_SIZE"
  shows "\<exists>d'. kmalloc sz k = Inr (b, k\<lparr>da := d'\<rparr>) \<and> freeBlockLists d' = (freeBlockLists d)(i := []) \<and>
      dynAllocStart d' = KERNEL_HEAP_START \<and> dynAllocEnd d' = KERNEL_HEAP_START + DYN_ALLOC_MAX_SIZE"
proof -
  have r: "k\<lparr>kheap_lock := True, da := x, kheap_lock := False\<rparr> = k\<lparr>da := x\<rparr>" for x using assms(5) by (cases k) simp
  have "sub32 b KERNEL_HEAP_START = b - KERNEL_HEAP_START" using assms(10,11) by (intro sub32_exact) simp_all
  then have p: "sub32 b KERNEL_HEAP_START div 4096 < 8192" using assms(11) by simp
  let ?pg = "sub32 b KERNEL_HEAP_START div 4096"
  let ?d = "set_page_info ?pg ((pageBlockInfoArr d ?pg)\<lparr>num_of_free_blocks := dec16 (num_of_free_blocks (pageBlockInfoArr d ?pg))\<rparr>) (set_free_list i [] d)"
  have "take_block i b d = Inr ?d" using assms(1,2) p by (simp add: take_block_def list_remove_def Let_def)
  then have "kmalloc sz k = Inr (b, k\<lparr>da := ?d\<rparr>)"
    using assms by (simp add: kmalloc_def kalloc_block_def alloc_block_def Let_def r [simplified])
  then show ?thesis using assms(2,3) by (intro exI [of _ ?d]) (simp add: set_page_info_def set_free_list_def)
qed

lemma sample_share_page:
  assumes "km (sh_vm s) = (km user_vm)\<lparr>da := d\<rparr>" "upgdir (sh_vm s) = upgdir user_vm"
    "dynAllocStart d = KERNEL_HEAP_START" "dynAllocEnd d = KERNEL_HEAP_START + DYN_ALLOC_MAX_SIZE"
  shows "\<exists>s'. share_page 0x82003000 s = Inr (200, s') \<and> shares_list s' = shares_list s"
proof -
  let ?k = "(km user_vm)\<lparr>da := d\<rparr>"
  let ?k1 = "set_frame 200 zero_frame_info (?k\<lparr>free_frame_list := [201]\<rparr>)"
  have a: "allocate_frame ?k = Inr (200, ?k1)"
    by (simp add: allocate_frame_def user_vm_def sample_kmem_def bare_kmem_def list_remove_def set_frame_def Let_def)
  have "get_page_table (upgdir user_vm) 0x82003000 ?k1 = Inr (TABLE_IN_MEMORY, 0xF6001000)"
    using assms(3,4) by (simp add: set_frame_def user_vm_def sample_vm_def sample_kmem_def bare_kmem_def get_page_table_def PDX_def
        CHECK_IF_KERNEL_ADDRESS_def kheap_virtual_address_def to_frame_info_def PPN_def EXTRACT_ADDRESS_def in_heap_region_def
        zero_frame_info_def u32_simps)
  moreover have "PTX 0x82003000 = 3" by (simp add: PTX_def)
  moreover have "tables ?k1 0xF6001000 3 = 0" by (simp add: set_frame_def user_vm_def sample_kmem_def)
  ultimately have "\<exists>k. map_frame create_page_table (upgdir user_vm) 200 0x82003000 (PERM_USER OR PERM_WRITEABLE) ?k1 = Inr k"
    by (simp add: map_frame_def Let_def)
  then show ?thesis using a assms(1,2) by (auto simp: share_page_def)
qed

lemma sample_create: "\<exists>s'. create_shared_object 7 ''x'' 4096 1 0x82003000 sample_shm = Inr (0x02003000, s')"
proof -
  let ?k = "(km user_vm)\<lparr>da := share_da\<rparr>"
  have k0: "km (sh_vm sample_shm) = ?k" "shares_list sample_shm = []" "\<not> shareslock sample_shm" "upgdir (sh_vm sample_shm) = upgdir user_vm"
    by (simp_all add: sample_shm_def)
  have l: "find_log2 96 3 = 4 + 3" "find_log2 4 3 = 0 + 3" by (simp_all add: find_log2.simps)
  have nl: "\<not> kheap_lock ?k" by (simp add: user_vm_def sample_kmem_def bare_kmem_def)
  obtain d1 where d1: "kmalloc 96 ?k = Inr (0xF6010000, ?k\<lparr>da := d1\<rparr>)" "freeBlockLists d1 0 = [0xF6011000]"
      "dynAllocStart d1 = KERNEL_HEAP_START" "dynAllocEnd d1 = KERNEL_HEAP_START + DYN_ALLOC_MAX_SIZE"
    using kmalloc_last_block [of share_da 4 "0xF6010000" ?k 96] nl l(1) by (auto simp: share_da_def)
  obtain d2 where d2: "kmalloc 4 (?k\<lparr>da := d1\<rparr>) = Inr (0xF6011000, ?k\<lparr>da := d2\<rparr>)"
      "dynAllocStart d2 = KERNEL_HEAP_START" "dynAllocEnd d2 = KERNEL_HEAP_START + DYN_ALLOC_MAX_SIZE"
    using kmalloc_last_block [of d1 0 "0xF6011000" "?k\<lparr>da := d1\<rparr>" 4] nl l(2) d1(2-4) by auto
  have pg: "share_pages 4096 = 1" by (simp add: share_pages_def ROUNDUP_def ROUNDDOWN_def add32_def sub32_def)
  have m: "mul32 4 (Suc 0) = 4" by (simp add: mul32_def)
  obtain shr s1 where a: "alloc_share 7 ''x'' 4096 1 sample_shm = Inr (Some shr, s1)" "shares_list s1 = []" "\<not> shareslock s1"
      "km (sh_vm s1) = ?k\<lparr>da := d2\<rparr>" "upgdir (sh_vm s1) = upgdir user_vm"
    using d1(1) d2(1) k0 m by (simp add: alloc_share_def with_shareslock_def sh_kmalloc_def pg)
  let ?s2 = "upd_share (sh_addr shr) (\<lambda>shr. shr\<lparr>ID := 0x02003000\<rparr>) (s1\<lparr>shares_list := [shr], shareslock := False\<rparr>)"
  have k2: "km (sh_vm ?s2) = (km user_vm)\<lparr>da := d2\<rparr>" "upgdir (sh_vm ?s2) = upgdir user_vm" using a by (simp_all add: upd_share_def)
  obtain s3 where "share_page 0x82003000 ?s2 = Inr (200, s3)" using sample_share_page [OF k2 d2(2,3)] by blast
  then show ?thesis
    using a k0 by (simp add: create_shared_object_def find_share_eq with_shareslock_def list_insert_head_def pg)
qed

theorem share_found_again_witness:
  "\<exists>oid s'. create_shared_object 7 ''x'' 4096 1 0x82003000 sample_shm = Inr (oid, s') \<and> (\<exists>shr. find_share 7 ''x'' s' = Inr (Some shr, s')) \<and>
     create_shared_object 7 ''x'' 8192 0 0x82005000 s' = Inr (E_SHARED_MEM_EXISTS, s')"
proof -
  obtain s' where c: "create_shared_object 7 ''x'' 4096 1 0x82003000 sample_shm = Inr (0x02003000, s')" using sample_create by blast
  have "shares_ok sample_shm" by (simp add: shares_ok_def sample_shm_def)
  from share_found_again [OF this c, of 8192 0 "0x82005000"]
  have "(\<exists>shr. find_share 7 ''x'' s' = Inr (Some shr, s')) \<and> create_shared_object 7 ''x'' 8192 0 0x82005000 s' = Inr (E_SHARED_MEM_EXISTS, s')"
    by auto
  then show ?thesis using c by blast
qed

end
