(* ===== verification/C_Strings.thy ===== *)
theory C_Strings
  imports FOS_Prelude "HOL-Library.Monad_Syntax" "HOL-Library.Signed_Division"
begin

text \<open>
  The routines on strings and bytes of \<^verbatim>\<open>src/lib/string.c\<close>, which kernel and user programs share, on an explicit
  memory. A loop that looks for the end of a string has no bound of its own: it is a partial function, and \<open>None\<close> says that
  it never ends. Objects do not reach round the end of the address space, so that pointers do not wrap.
\<close>

unbundle bit_operations_syntax

type_synonym byte = "8 word"
type_synonym memory = "nat \<Rightarrow> byte"

section \<open>Length, copies and comparison\<close>

partial_function (option) strlen_loop :: "memory \<Rightarrow> nat \<Rightarrow> nat \<Rightarrow> nat option" where
  "strlen_loop m s n = (if m s = 0 then Some n else strlen_loop m (Suc s) (Suc n))"

definition strlen :: "memory \<Rightarrow> nat \<Rightarrow> nat option" where
  "strlen m s = strlen_loop m s 0"

fun strnlen_loop :: "memory \<Rightarrow> nat \<Rightarrow> nat \<Rightarrow> nat \<Rightarrow> nat" where
  "strnlen_loop m s 0 n = n"
| "strnlen_loop m s (Suc sz) n = (if m s = 0 then n else strnlen_loop m (Suc s) sz (Suc n))"

definition strnlen :: "memory \<Rightarrow> nat \<Rightarrow> nat \<Rightarrow> nat" where
  "strnlen m s sz = strnlen_loop m s sz 0"

partial_function (option) strcpy :: "nat \<Rightarrow> nat \<Rightarrow> memory \<Rightarrow> memory option" where
  "strcpy dst src m =
     (if m src = 0 then Some (m(dst := m src)) else strcpy (Suc dst) (Suc src) (m(dst := m src)))"

fun strncpy :: "nat \<Rightarrow> nat \<Rightarrow> nat \<Rightarrow> memory \<Rightarrow> memory" where
  "strncpy dst src 0 m = m"
| "strncpy dst src (Suc n) m =
     (let m = m(dst := m src) in strncpy (Suc dst) (if m src \<noteq> 0 then Suc src else src) n m)"

fun strlcpy_loop :: "nat \<Rightarrow> nat \<Rightarrow> nat \<Rightarrow> memory \<Rightarrow> nat \<times> memory" where
  "strlcpy_loop dst src 0 m = (dst, m(dst := 0))"
| "strlcpy_loop dst src (Suc n) m =
     (if m src \<noteq> 0 then strlcpy_loop (Suc dst) (Suc src) n (m(dst := m src)) else (dst, m(dst := 0)))"

definition strlcpy :: "nat \<Rightarrow> nat \<Rightarrow> nat \<Rightarrow> memory \<Rightarrow> nat \<times> memory" where
  "strlcpy dst src sz m =
     (if sz > 0 then (let (d, m) = strlcpy_loop dst src (sz - 1) m in (d - dst, m)) else (0, m))"

partial_function (option) strcmp :: "memory \<Rightarrow> nat \<Rightarrow> nat \<Rightarrow> int option" where
  "strcmp m p q = (if m p \<noteq> 0 \<and> m p = m q then strcmp m (Suc p) (Suc q) else Some (uint (m p) - uint (m q)))"

fun strncmp :: "memory \<Rightarrow> nat \<Rightarrow> nat \<Rightarrow> nat \<Rightarrow> int" where
  "strncmp m p q 0 = 0"
| "strncmp m p q (Suc n) =
     (if m p \<noteq> 0 \<and> m p = m q then strncmp m (Suc p) (Suc q) n else uint (m p) - uint (m q))"

text \<open>The address 0 is the null pointer.\<close>

partial_function (option) strchr :: "memory \<Rightarrow> nat \<Rightarrow> byte \<Rightarrow> nat option" where
  "strchr m s c = (if m s = 0 then Some 0 else if m s = c then Some s else strchr m (Suc s) c)"

partial_function (option) strfind :: "memory \<Rightarrow> nat \<Rightarrow> byte \<Rightarrow> nat option" where
  "strfind m s c = (if m s = 0 \<or> m s = c then Some s else strfind m (Suc s) c)"

section \<open>Blocks of bytes\<close>

text \<open>A store of a \<^verbatim>\<open>uint64\<close>, the lowest byte first.\<close>

definition store64 :: "nat \<Rightarrow> 64 word \<Rightarrow> memory \<Rightarrow> memory" where
  "store64 a w m = (\<lambda>x. if a \<le> x \<and> x < a + 8 then ucast (drop_bit (8 * (x - a)) w) else m x)"

definition data_block :: "int \<Rightarrow> 64 word" where
  "data_block c =
     (let d = word_of_int c; d = d OR push_bit 8 d; d = d OR push_bit 16 d in d OR push_bit 32 d)"

fun memset64 :: "nat \<Rightarrow> 64 word \<Rightarrow> nat \<Rightarrow> memory \<Rightarrow> nat \<times> nat \<times> memory" where
  "memset64 p d n m = (if n \<ge> 8 then memset64 (p + 8) d (n - 8) (store64 p d m) else (p, n, m))"

declare memset64.simps [simp del]

fun memset8 :: "nat \<Rightarrow> int \<Rightarrow> nat \<Rightarrow> memory \<Rightarrow> memory" where
  "memset8 p c 0 m = m"
| "memset8 p c (Suc n) m = memset8 (Suc p) c n (m(p := word_of_int c))"

definition memset :: "nat \<Rightarrow> int \<Rightarrow> nat \<Rightarrow> memory \<Rightarrow> memory" where
  "memset v c n m = (let (p, n, m) = memset64 v (data_block c) n m in memset8 p c n m)"

definition copy64 :: "nat \<Rightarrow> nat \<Rightarrow> memory \<Rightarrow> memory" where
  "copy64 d s m = (\<lambda>x. if d \<le> x \<and> x < d + 8 then m (s + (x - d)) else m x)"

fun memcpy64 :: "nat \<Rightarrow> nat \<Rightarrow> nat \<Rightarrow> memory \<Rightarrow> nat \<times> nat \<times> nat \<times> memory" where
  "memcpy64 d s n m = (if n \<ge> 8 then memcpy64 (d + 8) (s + 8) (n - 8) (copy64 d s m) else (d, s, n, m))"

declare memcpy64.simps [simp del]

fun copy_forward :: "nat \<Rightarrow> nat \<Rightarrow> nat \<Rightarrow> memory \<Rightarrow> memory" where
  "copy_forward d s 0 m = m"
| "copy_forward d s (Suc n) m = copy_forward (Suc d) (Suc s) n (m(d := m s))"

definition memcpy :: "nat \<Rightarrow> nat \<Rightarrow> nat \<Rightarrow> memory \<Rightarrow> memory" where
  "memcpy d s n m = (let (d, s, n, m) = memcpy64 d s n m in copy_forward d s n m)"

text \<open>The loop from the end: \<open>d\<close> and \<open>s\<close> are the starts, \<open>n\<close> bytes are left.\<close>

fun copy_backward :: "nat \<Rightarrow> nat \<Rightarrow> nat \<Rightarrow> memory \<Rightarrow> memory" where
  "copy_backward d s 0 m = m"
| "copy_backward d s (Suc n) m = copy_backward d s n (m(d + n := m (s + n)))"

definition memmove :: "nat \<Rightarrow> nat \<Rightarrow> nat \<Rightarrow> memory \<Rightarrow> memory" where
  "memmove d s n m = (if s < d \<and> s + n > d then copy_backward d s n m else copy_forward d s n m)"

fun memcmp :: "memory \<Rightarrow> nat \<Rightarrow> nat \<Rightarrow> nat \<Rightarrow> int" where
  "memcmp m p q 0 = 0"
| "memcmp m p q (Suc n) = (if m p \<noteq> m q then uint (m p) - uint (m q) else memcmp m (Suc p) (Suc q) n)"

fun memfind :: "memory \<Rightarrow> nat \<Rightarrow> int \<Rightarrow> nat \<Rightarrow> nat" where
  "memfind m s c 0 = s"
| "memfind m s c (Suc n) = (if m s = word_of_int c then s else memfind m (Suc s) c n)"

section \<open>Numbers\<close>

partial_function (option) skip_blanks :: "memory \<Rightarrow> nat \<Rightarrow> nat option" where
  "skip_blanks m s = (if m s = 32 \<or> m s = 9 then skip_blanks m (Suc s) else Some s)"

definition digit_of :: "byte \<Rightarrow> int option" where
  "digit_of c =
     (if 48 \<le> c \<and> c \<le> 57 then Some (uint c - 48)
      else if 97 \<le> c \<and> c \<le> 122 then Some (uint c - 97 + 10)
      else if 65 \<le> c \<and> c \<le> 90 then Some (uint c - 65 + 10)
      else None)"

partial_function (option) digits_loop :: "memory \<Rightarrow> int \<Rightarrow> nat \<Rightarrow> int \<Rightarrow> (nat \<times> int) option" where
  "digits_loop m base s val =
     (case digit_of (m s) of
        None \<Rightarrow> Some (s, val)
      | Some dig \<Rightarrow> if dig \<ge> base then Some (s, val) else digits_loop m base (Suc s) (int32 (val * base + dig)))"

definition base_prefix :: "memory \<Rightarrow> nat \<Rightarrow> int \<Rightarrow> nat \<times> int" where
  "base_prefix m s base =
     (if (base = 0 \<or> base = 16) \<and> m s = 48 \<and> m (Suc s) = 120 then (s + 2, 16)
      else if base = 0 \<and> m s = 48 then (Suc s, 8)
      else if base = 0 then (s, 10)
      else (s, base))"

text \<open>The number and the place where it ends.\<close>

definition strtol :: "memory \<Rightarrow> nat \<Rightarrow> int \<Rightarrow> (int \<times> nat) option" where
  "strtol m s base =
     do {
       s \<leftarrow> skip_blanks m s;
       let neg = (m s = 45);
       let s = (if m s = 43 \<or> m s = 45 then Suc s else s);
       let (s, base) = base_prefix m s base;
       (s, val) \<leftarrow> digits_loop m base s 0;
       Some (if neg then int32 (- val) else val, s)
     }"

text \<open>The loop that writes the digits, the lowest first; \<open>s\<close> is the index of the next one.\<close>

function put_digits :: "nat \<Rightarrow> nat \<Rightarrow> int \<Rightarrow> memory \<Rightarrow> nat \<times> memory" where
  "put_digits str s value m =
     (let m = m(str + s := word_of_int (value smod 10 + 48)); value = value sdiv 10
      in if value \<noteq> 0 then put_digits str (Suc s) value m else (Suc s, m))"
  by auto
termination
proof (relation "measure (\<lambda>(_, _, v, _). nat \<bar>v\<bar>)", goal_cases)
  case (2 str s v m x xa)
  then have "v \<noteq> 0" by auto
  then have "\<bar>v sdiv 10\<bar> < \<bar>v\<bar>" using int_div_less_self [of "\<bar>v\<bar>" 10] by (simp add: signed_divide_int_def abs_mult)
  then show ?case using 2 by simp
qed simp

declare put_digits.simps [simp del]

fun reverse_loop :: "nat \<Rightarrow> nat \<Rightarrow> nat \<Rightarrow> memory \<Rightarrow> memory" where
  "reverse_loop str a b m =
     (if a < b then reverse_loop str (Suc a) (b - 1) (m(str + a := m (str + b), str + b := m (str + a))) else m)"

declare reverse_loop.simps [simp del]

definition ltostr :: "int \<Rightarrow> nat \<Rightarrow> memory \<Rightarrow> memory" where
  "ltostr value str m =
     (let neg = (value < 0);
          m = (if neg then m(str := 45) else m);
          value = (if neg then int32 (- value) else value);
          (s, m) = put_digits str (if neg then 1 else 0) value m;
          m = reverse_loop str (if neg then 1 else 0) (s - 1) m
      in m(str + s := 0))"

section \<open>Joining, splitting, lower case\<close>

definition strcconcat :: "nat \<Rightarrow> nat \<Rightarrow> nat \<Rightarrow> memory \<Rightarrow> memory option" where
  "strcconcat str1 str2 final m =
     do {
       len1 \<leftarrow> strlen m str1;
       len2 \<leftarrow> strlen m str2;
       let m = copy_forward final str1 len1 m;
       let m = copy_forward (final + len1) str2 len2 m;
       Some (m(final + len1 + len2 := 0))
     }"

text \<open>\<open>splits\<close> are the bytes of \<^verbatim>\<open>SPLIT_CHARS\<close>, a string literal at every call.\<close>

partial_function (option) trim_loop :: "byte list \<Rightarrow> nat \<Rightarrow> memory \<Rightarrow> (nat \<times> memory) option" where
  "trim_loop splits s m =
     (if m s \<noteq> 0 \<and> m s \<in> set splits then trim_loop splits (Suc s) (m(s := 0)) else Some (s, m))"

partial_function (option) scan_loop :: "byte list \<Rightarrow> nat \<Rightarrow> memory \<Rightarrow> nat option" where
  "scan_loop splits s m = (if m s \<noteq> 0 \<and> m s \<notin> set splits then scan_loop splits (Suc s) m else Some s)"

definition MAX_ARGUMENTS :: nat where "MAX_ARGUMENTS = 16"

text \<open>The result, the arguments found and the memory with the separators overwritten.\<close>

partial_function (option) split_loop :: "byte list \<Rightarrow> nat \<Rightarrow> nat list \<Rightarrow> memory \<Rightarrow> (bool \<times> nat list \<times> memory) option" where
  "split_loop splits s argv m =
     Option.bind (trim_loop splits s m) (\<lambda>(s, m).
     if m s = 0 then Some (True, argv, m)
     else if length argv = MAX_ARGUMENTS - 1 then Some (False, argv, m)
     else Option.bind (scan_loop splits s m) (\<lambda>s'. split_loop splits s' (argv @ [s]) m))"

definition strsplit :: "byte list \<Rightarrow> nat \<Rightarrow> memory \<Rightarrow> (bool \<times> nat list \<times> memory) option" where
  "strsplit splits s m = split_loop splits s [] m"

partial_function (option) lower_loop :: "nat \<Rightarrow> nat \<Rightarrow> nat \<Rightarrow> memory \<Rightarrow> memory option" where
  "lower_loop dst src i m =
     Option.bind (strlen m src) (\<lambda>n.
     if i < n
     then (let c = m (src + i) in lower_loop dst src (Suc i) (m(dst + i := if 65 \<le> c \<and> c \<le> 90 then c + 32 else c)))
     else Some m)"

definition str2lower :: "nat \<Rightarrow> nat \<Rightarrow> memory \<Rightarrow> memory option" where
  "str2lower dst src m = lower_loop dst src 0 m"

section \<open>Blocks of bytes: the fast routines compute the plain ones\<close>

text \<open>The contents of memory after \<open>n\<close> bytes from \<open>d\<close> on were set to \<open>f 0, f 1, \<dots>\<close>.\<close>

definition fill :: "nat \<Rightarrow> nat \<Rightarrow> (nat \<Rightarrow> byte) \<Rightarrow> memory \<Rightarrow> memory" where
  "fill d n f m = (\<lambda>x. if d \<le> x \<and> x < d + n then f (x - d) else m x)"

lemma fill_0 [simp]: "fill d 0 f m = m"
  by (auto simp: fill_def fun_eq_iff)

lemma fill_fill: "fill (d + a) b g (fill d a f m) = fill d (a + b) (\<lambda>i. if i < a then f i else g (i - a)) m"
  by (auto simp: fill_def fun_eq_iff)

lemma fill_Suc: "fill d (Suc n) f m = fill (Suc d) n (\<lambda>i. f (Suc i)) (m(d := f 0))"
proof
  fix x
  have "Suc d \<le> x \<Longrightarrow> Suc (x - Suc d) = x - d" by simp
  then show "fill d (Suc n) f m x = fill (Suc d) n (\<lambda>i. f (Suc i)) (m(d := f 0)) x"
    by (cases "x = d") (auto simp: fill_def)
qed

lemma fill_cong: "(\<And>i. i < n \<Longrightarrow> f i = g i) \<Longrightarrow> fill d n f m = fill d n g m"
  by (auto simp: fill_def fun_eq_iff)

lemma fill_again: "fill d n f (fill d n g m) = fill d n f m"
  by (auto simp: fill_def fun_eq_iff)

lemma fill_snoc: "(fill d n f m)(d + n := y) = fill d (Suc n) (\<lambda>i. if i < n then f i else y) m"
  by (auto simp: fill_def fun_eq_iff)

lemma fill_at: "i < n \<Longrightarrow> fill d n f m (d + i) = f i"
  by (simp add: fill_def)

lemma periodic_double:
  fixes w :: "64 word"
  assumes w: "\<And>k. bit w k \<longleftrightarrow> k < L \<and> bit c (k mod 8)" and L: "L mod 8 = 0" "2 * L \<le> 64"
  shows "bit (w OR push_bit L w) k \<longleftrightarrow> k < 2 * L \<and> bit c (k mod 8)"
proof -
  have "(k - L) mod 8 = k mod 8" if "L \<le> k" using L(1) that mod_add_right_eq [of "k - L" L 8] by simp
  then show ?thesis using L(2) w [of k] w [of "k - L"] by (auto simp: bit_or_iff bit_push_bit_iff)
qed

lemma bit_data_block:
  assumes "0 \<le> c" "c < 256"
  shows "bit (data_block c) k \<longleftrightarrow> k < 64 \<and> bit c (k mod 8)"
proof -
  let ?d = "word_of_int c :: 64 word"
  have t: "take_bit 8 c = c" using assms by (intro take_bit_int_eq_self) auto
  have hi: "bit c n \<Longrightarrow> n < 8" for n using t by (metis bit_take_bit_iff)
  have 1: "bit ?d n \<longleftrightarrow> n < 8 \<and> bit c (n mod 8)" for n using hi [of n] by (auto simp: bit_word_of_int_iff)
  define d2 where "d2 = ?d OR push_bit 8 ?d"
  define d3 where "d3 = d2 OR push_bit 16 d2"
  have 2: "bit d2 n \<longleftrightarrow> n < 16 \<and> bit c (n mod 8)" for n using periodic_double [OF 1, of n] by (simp add: d2_def)
  have 3: "bit d3 n \<longleftrightarrow> n < 32 \<and> bit c (n mod 8)" for n using periodic_double [OF 2, of n] by (simp add: d3_def)
  have "data_block c = d3 OR push_bit 32 d3" by (simp only: data_block_def Let_def d3_def d2_def)
  then show ?thesis using periodic_double [OF 3, of k] by simp
qed

lemma byte_data_block:
  assumes "0 \<le> c" "c < 256" "i < 8"
  shows "ucast (drop_bit (8 * i) (data_block c)) = (word_of_int c :: byte)"
proof (rule bit_word_eqI)
  fix n assume n: "n < LENGTH(8)"
  then have "8 * i + n < 64" "(8 * i + n) mod 8 = n" using assms(3) by auto
  then show "bit (ucast (drop_bit (8 * i) (data_block c)) :: byte) n = bit (word_of_int c :: byte) n"
    using n by (simp add: bit_ucast_iff bit_drop_bit_eq bit_data_block [OF assms(1,2)] bit_word_of_int_iff)
qed

lemma store64_data_block: "0 \<le> c \<Longrightarrow> c < 256 \<Longrightarrow> store64 p (data_block c) m = fill p 8 (\<lambda>_. word_of_int c) m"
  by (auto simp: store64_def fill_def fun_eq_iff byte_data_block)

lemma memset8_fill: "memset8 p c n m = fill p n (\<lambda>_. word_of_int c) m"
  by (induction p c n m rule: memset8.induct) (simp_all only: memset8.simps fill_0 fill_Suc)

lemma memset64_fill:
  assumes c: "0 \<le> c" "c < 256"
  shows "memset64 p (data_block c) n m = (p + n - n mod 8, n mod 8, fill p (n - n mod 8) (\<lambda>_. word_of_int c) m)"
proof (induction n arbitrary: p m rule: less_induct)
  case (less n)
  show ?case
  proof (cases "n \<ge> 8")
    case True
    then have e: "(n - 8) mod 8 = n mod 8" "n mod 8 \<le> n - 8" using le_mod_geq [of 8 n] by auto
    have "fill (p + 8) (n - 8 - n mod 8) (\<lambda>_. word_of_int c) (fill p 8 (\<lambda>_. word_of_int c) m)
        = fill p (n - n mod 8) (\<lambda>_. word_of_int c) m"
      using True e(2) by (simp add: fill_fill)
    then show ?thesis using True less [of "n - 8"] e c
      by (subst memset64.simps) (simp add: store64_data_block)
  next
    case False
    then show ?thesis by (subst memset64.simps) simp
  qed
qed

lemma memset_fill:
  assumes "0 \<le> c" "c < 256"
  shows "memset v c n m = fill v n (\<lambda>_. word_of_int c) m"
proof -
  have "v + n - n mod 8 = v + (n - n mod 8)" using mod_less_eq_dividend [of n 8] by linarith
  then show ?thesis
    using fill_fill [of v "n - n mod 8" "n mod 8"] by (simp add: memset_def memset64_fill [OF assms] memset8_fill)
qed

lemma copy64_fill: "copy64 d s m = fill d 8 (\<lambda>i. m (s + i)) m"
  by (simp add: copy64_def fill_def)

lemma copy_forward_fill:
  assumes "d \<le> s \<or> s + n \<le> d"
  shows "copy_forward d s n m = fill d n (\<lambda>i. m (s + i)) m"
  using assms
proof (induction n arbitrary: d s m)
  case (Suc n)
  have "copy_forward d s (Suc n) m = fill (Suc d) n (\<lambda>i. (m(d := m s)) (Suc s + i)) (m(d := m s))"
    unfolding copy_forward.simps by (rule Suc.IH) (use Suc.prems in auto)
  also have "\<dots> = fill (Suc d) n (\<lambda>i. m (s + Suc i)) (m(d := m s))"
    using Suc.prems by (intro fill_cong) auto
  finally show ?case by (simp add: fill_Suc)
qed simp

lemma memcpy64_fill:
  assumes "d \<le> s \<or> s + n \<le> d"
  shows "memcpy64 d s n m = (d + (n - n mod 8), s + (n - n mod 8), n mod 8, fill d (n - n mod 8) (\<lambda>i. m (s + i)) m)"
  using assms
proof (induction n arbitrary: d s m rule: less_induct)
  case (less n)
  show ?case
  proof (cases "n \<ge> 8")
    case True
    let ?m = "fill d 8 (\<lambda>i. m (s + i)) m"
    have e: "(n - 8) mod 8 = n mod 8" "n mod 8 \<le> n - 8" using True le_mod_geq [of 8 n] by auto
    have "fill (d + 8) (n - 8 - n mod 8) (\<lambda>i. ?m (s + 8 + i)) ?m = fill (d + 8) (n - 8 - n mod 8) (\<lambda>i. m (s + 8 + i)) ?m"
      using less.prems True by (intro fill_cong) (auto simp: fill_def)
    also have "\<dots> = fill d (8 + (n - 8 - n mod 8)) (\<lambda>i. m (s + i)) m"
      unfolding fill_fill by (intro fill_cong) (auto simp: add.assoc)
    finally show ?thesis using True less.IH [of "n - 8" "d + 8" "s + 8" ?m] less.prems e
      by (subst memcpy64.simps) (auto simp: copy64_fill)
  next
    case False
    then show ?thesis by (subst memcpy64.simps) simp
  qed
qed

lemma memcpy_fill:
  assumes "d \<le> s \<or> s + n \<le> d"
  shows "memcpy d s n m = fill d n (\<lambda>i. m (s + i)) m"
proof -
  let ?k = "n - n mod 8" and ?m = "fill d (n - n mod 8) (\<lambda>i. m (s + i)) m"
  have k: "?k + n mod 8 = n" using mod_less_eq_dividend [of n 8] by simp
  have "memcpy d s n m = copy_forward (d + ?k) (s + ?k) (n mod 8) ?m"
    by (simp add: memcpy_def memcpy64_fill [OF assms])
  also have "\<dots> = fill (d + ?k) (n mod 8) (\<lambda>i. ?m (s + ?k + i)) ?m"
    using assms k by (intro copy_forward_fill) linarith
  also have "\<dots> = fill (d + ?k) (n mod 8) (\<lambda>i. m (s + ?k + i)) ?m"
    using assms k by (intro fill_cong) (auto simp: fill_def)
  also have "\<dots> = fill d (?k + n mod 8) (\<lambda>i. m (s + i)) m"
    unfolding fill_fill by (intro fill_cong) (auto simp: add.assoc)
  finally show ?thesis using k by simp
qed

lemma copy_backward_fill:
  assumes "s \<le> d"
  shows "copy_backward d s n m = fill d n (\<lambda>i. m (s + i)) m"
  using assms
proof (induction n arbitrary: m)
  case (Suc n)
  have "copy_backward d s (Suc n) m = fill d n (\<lambda>i. (m(d + n := m (s + n))) (s + i)) (m(d + n := m (s + n)))"
    unfolding copy_backward.simps by (rule Suc.IH) (rule Suc.prems)
  then show ?case using Suc.prems by (auto simp: fill_def fun_eq_iff less_Suc_eq)
qed simp

lemma memmove_fill: "memmove d s n m = fill d n (\<lambda>i. m (s + i)) m"
  using copy_backward_fill [of s d n m] copy_forward_fill [of d s n m] by (auto simp: memmove_def not_less)

text \<open>
  C28. The routines on blocks of bytes compute what the plain loops do, however they go about it: \<^verbatim>\<open>memset\<close>, eight bytes
  at a time, sets exactly the \<open>n\<close> bytes, for a value that is a byte; \<^verbatim>\<open>memcpy\<close>, eight bytes at a time, copies, as long as the
  target does not begin inside the source; \<^verbatim>\<open>memmove\<close> copies the bytes as they were before, however the blocks overlap.
  Every other byte stays as it is.
\<close>

theorem block_routines_correct:
  "(0 \<le> c \<and> c < 256 \<longrightarrow> memset d c n m = (\<lambda>x. if d \<le> x \<and> x < d + n then word_of_int c else m x)) \<and>
   (d \<le> s \<or> s + n \<le> d \<longrightarrow> memcpy d s n m = (\<lambda>x. if d \<le> x \<and> x < d + n then m (s + (x - d)) else m x)) \<and>
   memmove d s n m = (\<lambda>x. if d \<le> x \<and> x < d + n then m (s + (x - d)) else m x)"
  using memset_fill [of c d n m] memcpy_fill [of d s n m] memmove_fill [of d s n m] by (simp add: fill_def)

theorem block_routines_correct_witness:
  "memset 100 7 11 (\<lambda>_. 0) 110 = 7 \<and> memset 100 7 11 (\<lambda>_. 0) 111 = 0 \<and>
   memcpy 100 104 11 of_nat 110 = 114 \<and> memmove 104 100 11 of_nat 114 = 110"
  using block_routines_correct [of 7 100 11 "\<lambda>_. 0"] block_routines_correct [of 7 100 11 of_nat 104]
    block_routines_correct [of 7 104 11 of_nat 100] by simp

lemma memset_other_value: "memset 100 (- 2) 8 m 100 = 254" "memset 100 (- 2) 8 m 101 = 255"
  by (simp_all add: memset_def memset64.simps store64_def data_block_def)

section \<open>Strings in memory\<close>

text \<open>The bytes \<open>xs\<close> from \<open>p\<close> on, and the terminating zero.\<close>

definition cstring :: "memory \<Rightarrow> nat \<Rightarrow> byte list \<Rightarrow> bool" where
  "cstring m p xs \<longleftrightarrow> 0 \<notin> set xs \<and> (\<forall>i < length xs. m (p + i) = xs ! i) \<and> m (p + length xs) = 0"

lemma cstring_Nil [simp]: "cstring m p [] \<longleftrightarrow> m p = 0"
  by (simp add: cstring_def)

lemma cstring_Cons: "cstring m p (x # xs) \<longleftrightarrow> m p = x \<and> x \<noteq> 0 \<and> cstring m (Suc p) xs"
  by (auto simp: cstring_def nth_Cons All_less_Suc2 split: nat.splits)

lemma strlen_cstring: "cstring m p xs \<Longrightarrow> strlen m p = Some (length xs)"
proof -
  have "strlen_loop m p n = Some (n + length xs)" if "cstring m p xs" for n
    using that
  proof (induction xs arbitrary: p n)
    case Nil
    then show ?case by (subst strlen_loop.simps) simp
  next
    case (Cons x xs)
    then show ?case by (subst strlen_loop.simps) (simp add: cstring_Cons)
  qed
  then show "cstring m p xs \<Longrightarrow> strlen m p = Some (length xs)" by (simp add: strlen_def)
qed

section \<open>Numbers: printing and reading back\<close>

text \<open>The decimal digits of a number, the lowest first.\<close>

fun digs :: "nat \<Rightarrow> nat list" where
  "digs n = n mod 10 # (if n div 10 \<noteq> 0 then digs (n div 10) else [])"

declare digs.simps [simp del]

definition digit_char :: "nat \<Rightarrow> byte" where
  "digit_char d = word_of_nat (48 + d)"

lemma digs_less: "d \<in> set (digs n) \<Longrightarrow> d < 10"
  by (induction n rule: digs.induct) (subst (asm) (2) digs.simps, auto split: if_splits)

lemma digs_nonempty [simp]: "digs n \<noteq> []"
  by (subst digs.simps) simp

lemma digs_value: "foldr (\<lambda>d v. v * 10 + d) (digs n) 0 = n"
proof (induction n rule: digs.induct)
  case (1 n)
  then show ?case by (subst digs.simps) auto
qed

lemma small_digit: "d < 10 \<Longrightarrow> d \<in> {0, 1, 2, 3, 4, 5, 6, 7, 8, 9 :: nat}"
  by auto

lemma digit_of_digit_char: "d < 10 \<Longrightarrow> digit_of (digit_char d) = Some (int d)"
  by (drule small_digit) (auto simp: digit_of_def digit_char_def)

lemma digit_char_cases: "d < 10 \<Longrightarrow> digit_char d \<noteq> 0 \<and> digit_char d \<noteq> 32 \<and> digit_char d \<noteq> 9 \<and> digit_char d \<noteq> 43 \<and> digit_char d \<noteq> 45"
  by (drule small_digit) (auto simp: digit_char_def)

lemma put_digits_eq:
  "put_digits str s (int n) m = (s + length (digs n), fill (str + s) (length (digs n)) (\<lambda>i. digit_char (digs n ! i)) m)"
proof (induction n arbitrary: s m rule: digs.induct)
  case (1 n)
  let ?m = "m(str + s := digit_char (n mod 10))"
  have q: "int n sdiv 10 = int (n div 10)" "int n smod 10 = int (n mod 10)"
    by (simp_all add: signed_divide_int_def signed_modulo_int_def sgn_if zdiv_int zmod_int minus_mult_div_eq_mod [symmetric])
  have w: "word_of_int (int (n mod 10) + 48) = digit_char (n mod 10)" by (simp add: digit_char_def)
  have st: "put_digits str s (int n) m = (if n div 10 \<noteq> 0 then put_digits str (Suc s) (int (n div 10)) ?m else (Suc s, ?m))"
    by (subst put_digits.simps) (simp only: q w Let_def of_nat_eq_0_iff)
  show ?case
  proof (cases "n div 10 = 0")
    case True
    then show ?thesis using st by (subst (1 2 3) digs.simps) (simp add: fill_Suc)
  next
    case False
    have d: "digs n = n mod 10 # digs (n div 10)" using False by (subst digs.simps) simp
    show ?thesis using st False 1 [of "Suc s" ?m] by (simp add: d fill_Suc fun_upd_def)
  qed
qed

lemma reverse_loop_eq:
  assumes "a \<le> Suc b"
  shows "reverse_loop str a b m = fill (str + a) (Suc b - a) (\<lambda>i. m (str + b - i)) m"
  using assms
proof (induction "b - a" arbitrary: a b m rule: less_induct)
  case less
  show ?case
  proof (cases "a < b")
    case True
    let ?m = "m(str + a := m (str + b), str + b := m (str + a))"
    have "reverse_loop str a b m = reverse_loop str (Suc a) (b - 1) ?m" using True by (subst reverse_loop.simps) simp
    also have "\<dots> = fill (str + Suc a) (Suc (b - 1) - Suc a) (\<lambda>i. ?m (str + (b - 1) - i)) ?m"
      by (rule less.hyps) (use True in auto)
    also have "\<dots> = fill (str + a) (Suc b - a) (\<lambda>i. m (str + b - i)) m"
    proof
      fix x
      show "fill (str + Suc a) (Suc (b - 1) - Suc a) (\<lambda>i. ?m (str + (b - 1) - i)) ?m x = fill (str + a) (Suc b - a) (\<lambda>i. m (str + b - i)) m x"
        using True by (cases "x = str + a"; cases "x = str + b") (auto simp: fill_def)
    qed
    finally show ?thesis .
  next
    case False
    then have "a = b \<or> a = Suc b" using less.prems by auto
    then show ?thesis using False by (subst reverse_loop.simps) (auto simp: fill_def fun_eq_iff le_less_Suc_eq)
  qed
qed

text \<open>The text that \<^verbatim>\<open>ltostr\<close> writes for a number that can be negated.\<close>

definition decimal :: "int \<Rightarrow> byte list" where
  "decimal v = (if v < 0 then [45] else []) @ map digit_char (rev (digs (nat \<bar>v\<bar>)))"

lemma ltostr_writes:
  assumes v: "- (2 ^ 31) < v" "v < 2 ^ 31"
  shows "ltostr v p m = fill p (Suc (length (decimal v))) (\<lambda>i. (decimal v @ [0]) ! i) m"
proof -
  let ?n = "nat \<bar>v\<bar>" and ?k = "if v < 0 then 1 else 0 :: nat" and ?m = "if v < 0 then m(p := 45) else m"
  let ?L = "length (digs ?n)"
  let ?m1 = "fill (p + ?k) ?L (\<lambda>i. digit_char (digs ?n ! i)) ?m"
  have "(if v < 0 then int32 (- v) else v) = int ?n" using v by (simp add: int32_id)
  then have pd: "put_digits p ?k (if v < 0 then int32 (- v) else v) ?m = (?k + ?L, ?m1)" by (simp only: put_digits_eq)
  have "reverse_loop p ?k (?k + ?L - 1) ?m1 = fill (p + ?k) (Suc (?k + ?L - 1) - ?k) (\<lambda>i. ?m1 (p + (?k + ?L - 1) - i)) ?m1"
    by (rule reverse_loop_eq) simp
  also have "\<dots> = fill (p + ?k) ?L (\<lambda>i. map digit_char (rev (digs ?n)) ! i) ?m1"
  proof -
    have L: "0 < ?L" by simp
    then have "Suc (?k + ?L - 1) - ?k = ?L" by simp
    moreover have "?m1 (p + (?k + ?L - 1) - i) = map digit_char (rev (digs ?n)) ! i" if "i < ?L" for i
    proof -
      have "p + (?k + ?L - 1) - i = p + ?k + (?L - Suc i)" using that by simp
      then show ?thesis using that by (simp only: fill_at diff_less [OF _ L]) (simp add: rev_nth)
    qed
    ultimately show ?thesis by (simp only:) (rule fill_cong, simp)
  qed
  finally have rl: "reverse_loop p ?k (?k + ?L - 1) ?m1 = fill (p + ?k) ?L (\<lambda>i. map digit_char (rev (digs ?n)) ! i) ?m"
    by (simp only: fill_again)
  have "ltostr v p m = (fill (p + ?k) ?L (\<lambda>i. map digit_char (rev (digs ?n)) ! i) ?m)(p + ?k + ?L := 0)"
    unfolding ltostr_def Let_def by (simp only: pd prod.case rl add.assoc)
  also have "\<dots> = fill (p + ?k) (Suc ?L) (\<lambda>i. (map digit_char (rev (digs ?n)) @ [0]) ! i) ?m"
    unfolding fill_snoc by (rule fill_cong) (auto simp: nth_append)
  also have "\<dots> = fill p (Suc (length (decimal v))) (\<lambda>i. (decimal v @ [0]) ! i) m"
    by (cases "v < 0") (simp_all add: decimal_def fill_Suc)
  finally show ?thesis .
qed

lemma decimal_nonzero: "0 \<notin> set (decimal v)"
  using digit_char_cases digs_less by (auto simp: decimal_def)

lemma ltostr_cstring:
  assumes "- (2 ^ 31) < v" "v < 2 ^ 31"
  shows "cstring (ltostr v p m) p (decimal v)"
  using decimal_nonzero by (auto simp: cstring_def ltostr_writes [OF assms] fill_def nth_append)

lemma foldl_digits_mono: "v \<le> foldl (\<lambda>v d. v * 10 + d) v (ds :: nat list)"
proof (induction ds arbitrary: v)
  case (Cons d ds)
  show ?case using Cons [of "v * 10 + d"] by simp
qed simp

lemma digits_loop_eq:
  assumes "cstring m s (map digit_char ds)" "\<forall>d \<in> set ds. d < 10" "foldl (\<lambda>v d. v * 10 + d) v ds < 2 ^ 31"
  shows "digits_loop m 10 s (int v) = Some (s + length ds, int (foldl (\<lambda>v d. v * 10 + d) v ds))"
  using assms
proof (induction ds arbitrary: s v)
  case Nil
  then show ?case by (subst digits_loop.simps) (simp add: digit_of_def)
next
  case (Cons d ds)
  have "v * 10 + d < 2 ^ 31" using Cons.prems(3) foldl_digits_mono [of "v * 10 + d" ds] by simp
  then have "int32 (int v * 10 + int d) = int (v * 10 + d)" by (simp add: int32_id)
  then show ?case using Cons.IH [of "Suc s" "v * 10 + d"] Cons.prems by (subst digits_loop.simps) (simp add: cstring_Cons digit_of_digit_char)
qed

text \<open>
  C29. Numbers survive printing and reading: for every \<^verbatim>\<open>long\<close> except the least one, \<^verbatim>\<open>ltostr\<close> writes a terminated string
  from which \<^verbatim>\<open>strtol\<close> in base 10 reads the same number, up to the end of the string, and writes no other byte.
\<close>

theorem ltostr_strtol_round_trip:
  assumes v: "- (2 ^ 31) < v" "v < 2 ^ 31"
  shows "\<exists>n. strlen (ltostr v p m) p = Some n \<and> strtol (ltostr v p m) p 10 = Some (v, p + n) \<and>
    (\<forall>x. x < p \<or> x > p + n \<longrightarrow> ltostr v p m x = m x)"
proof -
  let ?m = "ltostr v p m" and ?ds = "rev (digs (nat \<bar>v\<bar>))"
  have c: "cstring ?m p (decimal v)" by (rule ltostr_cstring [OF v])
  have val: "foldl (\<lambda>v d. v * 10 + d) 0 ?ds = nat \<bar>v\<bar>" by (simp add: foldl_conv_foldr digs_value)
  have ds: "\<forall>d \<in> set ?ds. d < 10" using digs_less by auto
  define q where "q = (if v < 0 then Suc p else p)"
  have cq: "cstring ?m q (map digit_char ?ds)" using c by (auto simp: decimal_def q_def cstring_Cons split: if_splits)
  obtain d ds' where d: "?ds = d # ds'" "d < 10" using ds by (cases ?ds) auto
  have mq: "?m q = digit_char d" using cq d by (simp add: cstring_Cons)
  have mp: "?m p = 45" if "v < 0" using c that by (simp add: decimal_def cstring_Cons)
  have sb: "skip_blanks ?m p = Some p"
    using mq mp digit_char_cases [OF d(2)] by (subst skip_blanks.simps) (auto simp: q_def split: if_splits)
  have sg: "(if ?m p = 43 \<or> ?m p = 45 then Suc p else p) = q" "(?m p = 45) = (v < 0)"
    using mq mp digit_char_cases [OF d(2)] by (auto simp: q_def split: if_splits)
  have dl: "digits_loop ?m 10 q 0 = Some (q + length ?ds, \<bar>v\<bar>)"
    using digits_loop_eq [OF cq ds, of 0] val v by simp
  have "strtol ?m p 10 = Some (if v < 0 then int32 (- \<bar>v\<bar>) else \<bar>v\<bar>, q + length ?ds)"
    unfolding strtol_def sb bind.bind_lunit Let_def sg(1) by (simp add: sg(2) base_prefix_def dl)
  moreover have "(if v < 0 then int32 (- \<bar>v\<bar>) else \<bar>v\<bar>) = v" using v by (simp add: int32_id)
  moreover have "q + length ?ds = p + length (decimal v)" by (simp add: q_def decimal_def)
  ultimately show ?thesis using strlen_cstring [OF c] by (auto simp: ltostr_writes [OF v] fill_def)
qed

theorem ltostr_strtol_round_trip_witness:
  "\<exists>n. strtol (ltostr (- 1234) 500 (\<lambda>_. 7)) 500 10 = Some (- 1234, 500 + n)"
  using ltostr_strtol_round_trip [of "- 1234" 500 "\<lambda>_. 7"] by auto

section \<open>Splitting\<close>

text \<open>The words of a text between separators.\<close>

function toks :: "byte list \<Rightarrow> byte list \<Rightarrow> byte list list" where
  "toks sp xs =
     (let ys = dropWhile (\<lambda>c. c \<in> set sp) xs in
      if ys = [] then [] else takeWhile (\<lambda>c. c \<notin> set sp) ys # toks sp (dropWhile (\<lambda>c. c \<notin> set sp) ys))"
  by auto
termination
proof (relation "measure (\<lambda>(_, xs). length xs)", goal_cases)
  case (2 sp xs ys)
  then have "hd ys \<notin> set sp" using hd_dropWhile [of "\<lambda>c. c \<in> set sp" xs] by auto
  then have "length (dropWhile (\<lambda>c. c \<notin> set sp) ys) < length ys" using 2(2) by (cases ys) (auto simp: less_Suc_eq_le length_dropWhile_le)
  moreover have "length ys \<le> length xs" using 2(1) by (simp add: length_dropWhile_le)
  ultimately show ?case by simp
qed simp

declare toks.simps [simp del]

lemma cstring_append: "cstring m p (xs @ ys) \<longleftrightarrow> 0 \<notin> set xs \<and> (\<forall>i < length xs. m (p + i) = xs ! i) \<and> cstring m (p + length xs) ys"
proof (induction xs arbitrary: p)
  case (Cons x xs)
  show ?case by (simp add: cstring_Cons Cons) (auto simp: nth_Cons All_less_Suc2)
qed simp

lemma cstring_cong: "cstring m p xs \<Longrightarrow> (\<And>i. i \<le> length xs \<Longrightarrow> m' (p + i) = m (p + i)) \<Longrightarrow> cstring m' p xs"
  by (simp add: cstring_def)

lemma trim_loop_eq:
  assumes "cstring m s xs"
  shows "trim_loop sp s m = Some (s + length (takeWhile (\<lambda>c. c \<in> set sp) xs), fill s (length (takeWhile (\<lambda>c. c \<in> set sp) xs)) (\<lambda>_. 0) m)"
  using assms
proof (induction xs arbitrary: s m)
  case Nil
  then show ?case by (subst trim_loop.simps) simp
next
  case (Cons x xs)
  show ?case
  proof (cases "x \<in> set sp")
    case True
    have "cstring (m(s := 0)) (Suc s) xs" using Cons.prems by (auto simp: cstring_Cons elim: cstring_cong)
    from Cons.IH [OF this] True Cons.prems show ?thesis by (subst trim_loop.simps) (simp add: cstring_Cons fill_Suc fun_upd_def)
  next
    case False
    then show ?thesis using Cons.prems by (subst trim_loop.simps) (simp add: cstring_Cons)
  qed
qed

lemma scan_loop_eq: "cstring m s xs \<Longrightarrow> scan_loop sp s m = Some (s + length (takeWhile (\<lambda>c. c \<notin> set sp) xs))"
proof (induction xs arbitrary: s)
  case Nil
  then show ?case by (subst scan_loop.simps) simp
next
  case (Cons x xs)
  then show ?case by (subst scan_loop.simps) (simp add: cstring_Cons)
qed

lemma split_loop_eq:
  assumes "cstring m s xs" "length argv < MAX_ARGUMENTS"
  shows "\<exists>as m'. split_loop sp s argv m = Some (length argv + length (toks sp xs) < MAX_ARGUMENTS, argv @ as, m') \<and>
    length as = min (MAX_ARGUMENTS - 1 - length argv) (length (toks sp xs)) \<and>
    (\<forall>i < length as. cstring m' (as ! i) (toks sp xs ! i)) \<and>
    (xs = [] \<or> hd xs \<in> set sp \<longrightarrow> m' s = 0) \<and> (\<forall>x. x < s \<or> s + length xs \<le> x \<longrightarrow> m' x = m x)"
  using assms
proof (induction "length xs" arbitrary: s xs argv m rule: less_induct)
  case less
  let ?a = "takeWhile (\<lambda>c. c \<in> set sp) xs" and ?ys = "dropWhile (\<lambda>c. c \<in> set sp) xs"
  let ?m = "fill s (length ?a) (\<lambda>_. 0) m" and ?s = "s + length ?a"
  have len: "length ?a + length ?ys = length xs" by (metis length_append takeWhile_dropWhile_id)
  have cy: "cstring m ?s ?ys" using less.prems(1) cstring_append [of m s ?a ?ys] by simp
  then have c: "cstring ?m ?s ?ys" by (rule cstring_cong) (simp add: fill_def)
  have st: "split_loop sp s argv m =
     (if ?ys = [] then Some (True, argv, ?m)
      else if length argv = MAX_ARGUMENTS - 1 then Some (False, argv, ?m)
      else Option.bind (scan_loop sp ?s ?m) (\<lambda>s'. split_loop sp s' (argv @ [?s]) ?m))"
    using c by (subst split_loop.simps, cases ?ys) (simp_all add: trim_loop_eq [OF less.prems(1)] cstring_Cons)
  have keep: "\<forall>x. x < s \<or> s + length xs \<le> x \<longrightarrow> ?m x = m x" using len by (auto simp: fill_def)
  have first: "?m s = 0" if "xs = [] \<or> hd xs \<in> set sp" using that less.prems(1) by (cases xs) (auto simp: fill_def)
  show ?case
  proof (cases "?ys = []")
    case True
    then have "toks sp xs = []" by (subst toks.simps) simp
    then show ?thesis using st True keep first less.prems(2) by (auto simp: MAX_ARGUMENTS_def)
  next
    case False
    let ?t = "takeWhile (\<lambda>c. c \<notin> set sp) ?ys" and ?zs = "dropWhile (\<lambda>c. c \<notin> set sp) ?ys"
    have tk: "toks sp xs = ?t # toks sp ?zs" using False by (subst toks.simps) (simp add: Let_def)
    show ?thesis
    proof (cases "length argv = MAX_ARGUMENTS - 1")
      case True
      then show ?thesis using st False keep first tk by (auto simp: MAX_ARGUMENTS_def)
    next
      case argv: False
      have "hd ?ys \<notin> set sp" using hd_dropWhile [of "\<lambda>c. c \<in> set sp" xs] False by simp
      then have t: "?t \<noteq> []" using False by (cases ?ys) auto
      have lz: "length ?t + length ?zs = length ?ys" by (metis length_append takeWhile_dropWhile_id)
      have cz: "cstring ?m (?s + length ?t) ?zs" "\<forall>i < length ?t. ?m (?s + i) = ?t ! i" "0 \<notin> set ?t"
        using c cstring_append [of ?m ?s ?t ?zs] by simp_all
      have "0 < length ?t" using t by blast
      then have "length ?zs < length xs" "length (argv @ [?s]) < MAX_ARGUMENTS" using less.prems(2) argv lz len by (linarith, simp)
      from less.hyps [OF this(1) cz(1) this(2)]
      obtain as m' where r: "split_loop sp (?s + length ?t) (argv @ [?s]) ?m
            = Some (length (argv @ [?s]) + length (toks sp ?zs) < MAX_ARGUMENTS, (argv @ [?s]) @ as, m')"
          "length as = min (MAX_ARGUMENTS - 1 - length (argv @ [?s])) (length (toks sp ?zs))"
          "\<forall>i < length as. cstring m' (as ! i) (toks sp ?zs ! i)"
          "?zs = [] \<or> hd ?zs \<in> set sp \<longrightarrow> m' (?s + length ?t) = 0"
          "\<forall>x. x < ?s + length ?t \<or> ?s + length ?t + length ?zs \<le> x \<longrightarrow> m' x = ?m x"
        by blast
      have "m' (?s + length ?t) = 0" using r(4) hd_dropWhile [of "\<lambda>c. c \<notin> set sp" ?ys] by blast
      then have ct: "cstring m' ?s ?t" using cz r(5) by (simp add: cstring_def)
      have "split_loop sp s argv m = Some (length argv + length (toks sp xs) < MAX_ARGUMENTS, argv @ (?s # as), m')"
        using st False argv r(1) scan_loop_eq [OF c] tk by simp
      moreover have "\<forall>i < length (?s # as). cstring m' ((?s # as) ! i) (toks sp xs ! i)"
        using ct r(3) tk by (auto simp: nth_Cons split: nat.splits)
      moreover have "\<forall>x. x < s \<or> s + length xs \<le> x \<longrightarrow> m' x = m x" using r(5) keep lz len by auto
      moreover have "xs = [] \<or> hd xs \<in> set sp \<longrightarrow> m' s = 0" using first r(5) t by simp
      ultimately show ?thesis using r(2) tk argv less.prems(2) by (intro exI [of _ "?s # as"] exI [of _ m']) auto
    qed
  qed
qed

lemma strsplit_splits:
  assumes "cstring m s xs"
  shows "\<exists>argv m'. strsplit sp s m = Some (length (toks sp xs) \<le> 15, argv, m') \<and>
    length argv = min 15 (length (toks sp xs)) \<and> (\<forall>i < length argv. cstring m' (argv ! i) (toks sp xs ! i)) \<and>
    (\<forall>x. x < s \<or> s + length xs \<le> x \<longrightarrow> m' x = m x)"
proof -
  have "length [] < MAX_ARGUMENTS" by (simp add: MAX_ARGUMENTS_def)
  from split_loop_eq [OF assms this, of sp] show ?thesis
    by (simp add: strsplit_def MAX_ARGUMENTS_def less_Suc_eq_le [of _ 15, simplified]) blast
qed

text \<open>
  \<^verbatim>\<open>strsplit\<close> always ends. It finds the words of a string in their order, at most fifteen of them, and says whether
  these were all; each of them is then a terminated string in place, and nothing outside the string is written.
\<close>

lemma strsplit_correct:
  assumes "cstring m s xs"
  shows "\<exists>argv m'. strsplit sp s m = Some (length (toks sp xs) \<le> 15, argv, m') \<and>
    length argv = min 15 (length (toks sp xs)) \<and> (\<forall>i < length argv. cstring m' (argv ! i) (toks sp xs ! i)) \<and>
    (\<forall>x. x < s \<or> s + length xs \<le> x \<longrightarrow> m' x = m x)"
  by (rule strsplit_splits [OF assms])

lemma strsplit_correct_witness:
  "let m = fill 100 7 (\<lambda>i. [32, 114, 117, 110, 32, 32, 120] ! i) (\<lambda>_. 0) in
   \<exists>argv m'. strsplit [9, 13, 10, 32] 100 m = Some (True, argv, m') \<and> length argv = 2 \<and>
     cstring m' (argv ! 0) [114, 117, 110] \<and> cstring m' (argv ! 1) [120]"
proof -
  let ?xs = "[32, 114, 117, 110, 32, 32, 120] :: byte list"
  let ?m = "fill 100 7 (\<lambda>i. ?xs ! i) (\<lambda>_. 0)"
  have c: "cstring ?m 100 ?xs" by (auto simp: cstring_def fill_def nth_Cons')
  have t: "toks [9, 13, 10, 32] ?xs = [[114, 117, 110], [120]]" by (simp add: toks.simps)
  show ?thesis using strsplit_correct [OF c, of "[9, 13, 10, 32]"] unfolding t Let_def
    by (auto simp: All_less_Suc2 numeral_2_eq_2)
qed

section \<open>Comparison and copies\<close>

lemma strcmp_zero: "cstring m p xs \<Longrightarrow> cstring m q ys \<Longrightarrow> \<exists>r. strcmp m p q = Some r \<and> (r = 0 \<longleftrightarrow> xs = ys)"
proof (induction xs arbitrary: p q ys)
  case Nil
  then show ?case by (subst strcmp.simps, cases ys) (auto simp: cstring_Cons unsigned_eq_0_iff)
next
  case (Cons x xs)
  show ?case
  proof (cases ys)
    case Nil
    then show ?thesis using Cons.prems by (subst strcmp.simps) (auto simp: cstring_Cons unsigned_eq_0_iff)
  next
    case (Cons y ys')
    show ?thesis
    proof (cases "x = y")
      case True
      then show ?thesis using Cons.IH [of "Suc p" "Suc q" ys'] Cons.prems Cons by (subst strcmp.simps) (simp add: cstring_Cons)
    next
      case False
      then show ?thesis using Cons.prems Cons by (subst strcmp.simps) (auto simp: cstring_Cons unsigned_word_eqI)
    qed
  qed
qed

lemma strcpy_cstring:
  assumes "cstring m src xs" "dst + length xs < src \<or> src + length xs < dst"
  shows "\<exists>m'. strcpy dst src m = Some m' \<and> cstring m' dst xs \<and> (\<forall>x. x < dst \<or> dst + length xs < x \<longrightarrow> m' x = m x)"
  using assms
proof (induction xs arbitrary: dst src m)
  case Nil
  then show ?case by (subst strcpy.simps) auto
next
  case (Cons c xs)
  have "cstring (m(dst := c)) (Suc src) xs" using Cons.prems by (auto simp: cstring_Cons elim!: cstring_cong)
  from Cons.IH [OF this, of "Suc dst"] Cons.prems(2) obtain m' where
    "strcpy (Suc dst) (Suc src) (m(dst := c)) = Some m'" "cstring m' (Suc dst) xs"
    "\<forall>x. x < Suc dst \<or> Suc dst + length xs < x \<longrightarrow> m' x = (m(dst := c)) x" by (auto simp: fun_upd_def)
  then show ?case using Cons.prems(1) by (subst strcpy.simps) (auto simp: cstring_Cons)
qed

text \<open>\<^verbatim>\<open>strncpy\<close> fills the whole field, but a string as long as the field loses its end.\<close>

lemma strncpy_field:
  assumes "cstring m src xs" "dst + n \<le> src \<or> src + length xs < dst" "i < n"
  shows "strncpy dst src n m (dst + i) = (if i < length xs then xs ! i else 0)"
  using assms
proof (induction n arbitrary: dst src m xs i)
  case (Suc n)
  let ?m = "m(dst := m src)"
  have c: "cstring ?m src xs" using Suc.prems by (auto elim!: cstring_cong)
  have old: "strncpy d s n m' x = m' x" if "x < d" for d s n m' x
    using that by (induction d s n m' rule: strncpy.induct) (auto simp: Let_def)
  show ?case
  proof (cases i)
    case 0
    then show ?thesis using Suc.prems by (cases xs) (auto simp: Let_def old cstring_Cons)
  next
    case (Suc j)
    show ?thesis
    proof (cases xs)
      case Nil
      then show ?thesis using Suc.IH [of ?m src "[]" "Suc dst" j] Suc Suc.prems c by (auto simp: Let_def fun_upd_def)
    next
      case (Cons y ys)
      then have "cstring ?m (Suc src) ys" "?m src \<noteq> 0" using c by (auto simp: cstring_Cons)
      then show ?thesis using Suc.IH [of ?m "Suc src" ys "Suc dst" j] Suc Suc.prems Cons by (auto simp: Let_def fun_upd_def)
    qed
  qed
qed simp

end
