(* ===== verification/Printfmt.thy ===== *)
theory Printfmt
  imports C_Strings
begin

text \<open>
  The formatted output of \<^verbatim>\<open>src/lib/printfmt.c\<close> and its clients: \<^verbatim>\<open>snprintf\<close>, and \<^verbatim>\<open>cprintf\<close> of
  \<^verbatim>\<open>src/lib/printf.c\<close> for user programs. The formatter is generic in the routine \<^verbatim>\<open>putch\<close> it hands its characters to;
  the locale \<open>sink\<close> shows once that it only ever runs \<^verbatim>\<open>putch\<close> over one text.
\<close>

section \<open>Numbers\<close>

definition hex_digit :: "nat \<Rightarrow> int" where
  "hex_digit d = (if d < 10 then 48 + int d else 87 + int d)"

text \<open>The base is 10 or 16 at every call.\<close>

function printnum :: "(int \<Rightarrow> 's \<Rightarrow> 's) \<Rightarrow> nat \<Rightarrow> nat \<Rightarrow> int \<Rightarrow> int \<Rightarrow> 's \<Rightarrow> 's" where
  "printnum putch num base width padc s =
     putch (hex_digit (num mod base))
       (if num \<ge> base \<and> 2 \<le> base then printnum putch (num div base) base (width - 1) padc s
        else (putch padc ^^ nat (width - 1)) s)"
  by auto
termination by (relation "measure (\<lambda>(_, num, _). num)") auto

declare printnum.simps [simp del]

text \<open>The arguments are the 32 bit slots of the stack, from number \<open>ap\<close> on; a \<^verbatim>\<open>long long\<close> takes two.\<close>

type_synonym va_list = "nat \<Rightarrow> 32 word"

definition getuint :: "va_list \<Rightarrow> nat \<Rightarrow> nat \<Rightarrow> nat \<times> nat" where
  "getuint va ap lflag =
     (if lflag \<ge> 2 then (unat (va ap) + 2 ^ 32 * unat (va (ap + 1)), ap + 2) else (unat (va ap), ap + 1))"

definition getint :: "va_list \<Rightarrow> nat \<Rightarrow> nat \<Rightarrow> int \<times> nat" where
  "getint va ap lflag =
     (if lflag \<ge> 2 then (uint (va ap) + 2 ^ 32 * sint (va (ap + 1)), ap + 2) else (sint (va ap), ap + 1))"

section \<open>Escape sequences\<close>

record spec =
  padc :: int
  width :: int
  precision :: int
  lflag :: nat
  altflag :: bool

definition plain_spec :: spec where
  "plain_spec = \<lparr>padc = 32, width = - 1, precision = - 1, lflag = 0, altflag = False\<rparr>"

definition process_precision :: "spec \<Rightarrow> spec" where
  "process_precision sp = (if width sp < 0 then sp\<lparr>width := precision sp, precision := - 1\<rparr> else sp)"

definition is_digit :: "byte \<Rightarrow> bool" where
  "is_digit c \<longleftrightarrow> 48 \<le> c \<and> c \<le> 57"

fun width_digits :: "int \<Rightarrow> byte list \<Rightarrow> int \<times> byte list" where
  "width_digits prec [] = (prec, [])"
| "width_digits prec (c # cs) =
     (if is_digit c then width_digits (int32 (prec * 10 + uint c - 48)) cs else (prec, c # cs))"

lemma width_digits_length: "length (snd (width_digits p cs)) \<le> length cs"
  by (induction p cs rule: width_digits.induct) auto

text \<open>
  The flags up to the conversion character (\<open>None\<close> for the end of the format), which is consumed. The format is the text
  before its terminating zero.
\<close>

function parse_spec :: "va_list \<Rightarrow> spec \<Rightarrow> nat \<Rightarrow> byte list \<Rightarrow> spec \<times> nat \<times> byte option \<times> byte list" where
  "parse_spec va sp ap [] = (sp, ap, None, [])"
| "parse_spec va sp ap (c # cs) =
     (if c = 45 then parse_spec va (sp\<lparr>padc := 45\<rparr>) ap cs
      else if c = 48 then parse_spec va (sp\<lparr>padc := 48\<rparr>) ap cs
      else if is_digit c then
        parse_spec va (process_precision (sp\<lparr>precision := fst (width_digits (uint c - 48) cs)\<rparr>)) ap (snd (width_digits (uint c - 48) cs))
      else if c = 42 then parse_spec va (process_precision (sp\<lparr>precision := sint (va ap)\<rparr>)) (Suc ap) cs
      else if c = 46 then parse_spec va (if width sp < 0 then sp\<lparr>width := 0\<rparr> else sp) ap cs
      else if c = 35 then parse_spec va (sp\<lparr>altflag := True\<rparr>) ap cs
      else if c = 108 then parse_spec va (sp\<lparr>lflag := Suc (lflag sp)\<rparr>) ap cs
      else (sp, ap, Some c, cs))"
  by pat_completeness auto
termination by (relation "measure (\<lambda>(_, _, _, cs). length cs)") (auto simp: less_Suc_eq_le width_digits_length)

section \<open>Conversions\<close>

definition error_string :: "nat \<Rightarrow> string option" where
  "error_string err =
     (if err = 1 then Some ''unspecified error'' else if err = 2 then Some ''bad environment''
      else if err = 3 then Some ''invalid parameter'' else if err = 4 then Some ''out of memory''
      else if err = 5 then Some ''out of environments'' else if err = 6 then Some ''segmentation fault'' else None)"

abbreviation MAXERROR :: int where "MAXERROR \<equiv> 100"

definition puts :: "(int \<Rightarrow> 's \<Rightarrow> 's) \<Rightarrow> string \<Rightarrow> 's \<Rightarrow> 's" where
  "puts putch str s = fold (\<lambda>c. putch (int (of_char c))) str s"

definition put_number :: "(int \<Rightarrow> 's \<Rightarrow> 's) \<Rightarrow> spec \<Rightarrow> nat \<Rightarrow> nat \<Rightarrow> 's \<Rightarrow> 's" where
  "put_number putch sp base num s = printnum putch num base (width sp) (padc sp) s"

definition put_decimal :: "(int \<Rightarrow> 's \<Rightarrow> 's) \<Rightarrow> spec \<Rightarrow> int \<Rightarrow> 's \<Rightarrow> 's" where
  "put_decimal putch sp v s = put_number putch sp 10 (nat \<bar>v\<bar>) (if v < 0 then putch 45 s else s)"

text \<open>The text of \<^verbatim>\<open>%e\<close>; an index below the table is a read outside it.\<close>

definition put_error :: "(int \<Rightarrow> 's \<Rightarrow> 's) \<Rightarrow> int \<Rightarrow> 's \<Rightarrow> 's result" where
  "put_error putch err s =
     (let err = (if err < 0 then int32 (- err) else err) in
      if err > MAXERROR then Inr (put_decimal putch plain_spec err (puts putch ''error '' s))
      else if err < 0 then Inl (Corrupted ''error_string[err]'')
      else (case error_string (nat err) of
              None \<Rightarrow> Inr (put_decimal putch plain_spec err (puts putch ''error '' s))
            | Some str \<Rightarrow> Inr (puts putch str s)))"

text \<open>Characters are signed.\<close>

definition schar :: "byte \<Rightarrow> int" where
  "schar c = sint c"

definition shown :: "bool \<Rightarrow> byte \<Rightarrow> int" where
  "shown alt c = (if alt \<and> (schar c < 32 \<or> schar c > 126) then 63 else schar c)"

definition put_string :: "(int \<Rightarrow> 's \<Rightarrow> 's) \<Rightarrow> spec \<Rightarrow> byte list \<Rightarrow> 's \<Rightarrow> 's" where
  "put_string putch sp str s =
     (let len = (if precision sp < 0 then length str else min (nat (precision sp)) (length str));
          left = (if width sp > 0 \<and> padc sp \<noteq> 45 then width sp - int len else 0);
          w = (if width sp > 0 \<and> padc sp \<noteq> 45 then min (width sp - int len) 0 else width sp);
          s = (putch (padc sp) ^^ nat left) s;
          s = fold (\<lambda>c. putch (shown (altflag sp) c)) (take len str) s
      in (putch 32 ^^ nat (w - int len)) s)"

text \<open>
  One conversion: the next argument and the state, \<open>None\<close> for a sequence that is not recognised. \<open>strs\<close> has the strings
  that the arguments point to, \<open>prog\<close> sets \<^verbatim>\<open>printProgName\<close>.
\<close>

definition conversion ::
    "(int \<Rightarrow> 's \<Rightarrow> 's) \<Rightarrow> (bool \<Rightarrow> 's \<Rightarrow> 's) \<Rightarrow> (32 word \<Rightarrow> byte list) \<Rightarrow> va_list \<Rightarrow> spec \<Rightarrow> nat \<Rightarrow> byte option \<Rightarrow> 's \<Rightarrow> (nat \<times> 's) result option" where
  "conversion putch prog strs va sp ap conv s =
     (if conv = Some 99 then Some (Inr (Suc ap, putch (sint (va ap)) s))
      else if conv = Some 101 then Some (andThen (put_error putch (sint (va ap)) s) (\<lambda>s. Inr (Suc ap, s)))
      else if conv = Some 115 then
        Some (Inr (Suc ap, put_string putch sp (if va ap = 0 then map (word_of_nat \<circ> of_char) ''(null)'' else strs (va ap)) s))
      else if conv = Some 100 then
        (let (v, ap) = getint va ap (lflag sp) in Some (Inr (ap, put_decimal putch sp v s)))
      else if conv = Some 117 then
        (let (n, ap) = getuint va ap (lflag sp) in Some (Inr (ap, put_number putch sp 10 n s)))
      else if conv = Some 111 then Some (Inr (ap, putch 88 (putch 88 (putch 88 s))))
      else if conv = Some 112 then
        Some (Inr (Suc ap, put_number putch sp 16 (unat (va ap)) (putch 120 (putch 48 s))))
      else if conv = Some 120 then
        (let (n, ap) = getuint va ap (lflag sp) in Some (Inr (ap, put_number putch sp 16 n s)))
      else if conv = Some 37 then Some (Inr (ap, putch 37 s))
      else if conv = Some 126 then Some (Inr (ap, prog False s))
      else if conv = Some 64 then Some (Inr (ap, prog True s))
      else None)"

lemma parse_spec_length: "parse_spec va sp ap cs = (sp', ap', conv, rest) \<Longrightarrow> length rest \<le> length cs"
proof (induction va sp ap cs arbitrary: sp' ap' conv rest rule: parse_spec.induct)
  case (2 va sp ap c cs)
  then show ?case using width_digits_length [of "uint c - 48" cs]
    by (auto split: if_splits intro: le_SucI le_trans)
qed simp

text \<open>An unrecognised sequence is printed as it stands: its percent sign here, the rest as ordinary text.\<close>

function vprintfmt ::
    "(int \<Rightarrow> 's \<Rightarrow> 's) \<Rightarrow> (bool \<Rightarrow> 's \<Rightarrow> 's) \<Rightarrow> (32 word \<Rightarrow> byte list) \<Rightarrow> va_list \<Rightarrow> byte list \<Rightarrow> nat \<Rightarrow> 's \<Rightarrow> 's result" where
  "vprintfmt putch prog strs va [] ap s = Inr s"
| "vprintfmt putch prog strs va (c # fmt) ap s =
     (if c \<noteq> 37 then vprintfmt putch prog strs va fmt ap (putch (uint c) s)
      else (case parse_spec va plain_spec ap fmt of (sp, ap, conv, rest) \<Rightarrow>
        (case conversion putch prog strs va sp ap conv s of
           None \<Rightarrow> vprintfmt putch prog strs va fmt ap (putch 37 s)
         | Some (Inl e) \<Rightarrow> Inl e
         | Some (Inr (ap, s)) \<Rightarrow> vprintfmt putch prog strs va rest ap s)))"
  by pat_completeness auto
termination
  by (relation "measure (\<lambda>(_, _, _, _, fmt, _). length fmt)") (auto simp: less_Suc_eq_le intro: parse_spec_length [OF sym])

section \<open>Printing to a buffer\<close>

record sprintbuf =
  buf :: nat
  ebuf :: nat
  cnt :: nat
  smem :: memory
  sprog :: bool   \<comment> \<open>the global \<^verbatim>\<open>printProgName\<close>\<close>

definition sprintputch :: "int \<Rightarrow> sprintbuf \<Rightarrow> sprintbuf" where
  "sprintputch ch b =
     (let b = b\<lparr>cnt := Suc (cnt b)\<rparr> in
      if buf b < ebuf b then b\<lparr>buf := Suc (buf b), smem := (smem b)(buf b := word_of_int ch)\<rparr> else b)"

text \<open>\<^verbatim>\<open>E_INVAL\<close> is defined as \<open>-3\<close>, and the code returns its negation.\<close>

definition vsnprintf :: "nat \<Rightarrow> int \<Rightarrow> (32 word \<Rightarrow> byte list) \<Rightarrow> va_list \<Rightarrow> byte list \<Rightarrow> nat \<Rightarrow> memory \<Rightarrow> bool \<Rightarrow> (int \<times> memory \<times> bool) result" where
  "vsnprintf p n strs va fmt ap m prog =
     (if p = 0 \<or> n < 1 then Inr (- (- 3), m, prog)
      else
        andThen (vprintfmt sprintputch (\<lambda>v b. b\<lparr>sprog := v\<rparr>) strs va fmt ap
                   \<lparr>buf = p, ebuf = p + nat n - 1, cnt = 0, smem = m, sprog = prog\<rparr>) (\<lambda>b.
        Inr (int (cnt b), (smem b)(buf b := 0), sprog b)))"

section \<open>Printing from user programs\<close>

text \<open>\<open>calls\<close> are the calls of \<^verbatim>\<open>sys_cputs\<close> so far: the text, \<^verbatim>\<open>printProgName\<close> and the colour.\<close>

record printbuf =
  pending :: "int list"
  pcnt :: nat
  calls :: "(int list \<times> bool \<times> int) list"
  printProgName :: bool
  curTextClr :: int

definition sys_cputs_call :: "printbuf \<Rightarrow> printbuf" where
  "sys_cputs_call b = b\<lparr>calls := calls b @ [(pending b, printProgName b, curTextClr b)]\<rparr>"

definition putch_user :: "int \<Rightarrow> printbuf \<Rightarrow> printbuf" where
  "putch_user ch b =
     (let b = b\<lparr>pending := pending b @ [ch]\<rparr>;
          b = (if length (pending b) = 256 - 1 then (sys_cputs_call b)\<lparr>pending := []\<rparr> else b)
      in b\<lparr>pcnt := Suc (pcnt b)\<rparr>)"

definition vcprintf :: "(32 word \<Rightarrow> byte list) \<Rightarrow> va_list \<Rightarrow> byte list \<Rightarrow> printbuf \<Rightarrow> (nat \<times> printbuf) result" where
  "vcprintf strs va fmt b =
     andThen (vprintfmt putch_user (\<lambda>v b. b\<lparr>printProgName := v\<rparr>) strs va fmt 0 (b\<lparr>pending := [], pcnt := 0\<rparr>)) (\<lambda>b.
     Inr (pcnt b, (sys_cputs_call b)\<lparr>printProgName := False\<rparr>))"

definition cprintf :: "(32 word \<Rightarrow> byte list) \<Rightarrow> va_list \<Rightarrow> byte list \<Rightarrow> printbuf \<Rightarrow> (nat \<times> printbuf) result" where
  "cprintf strs va fmt b = vcprintf strs va fmt (b\<lparr>printProgName := True\<rparr>)"

abbreviation TEXT_DEFAULT_CLR :: int where "TEXT_DEFAULT_CLR \<equiv> 0x700"

definition cprintf_colored :: "int \<Rightarrow> (32 word \<Rightarrow> byte list) \<Rightarrow> va_list \<Rightarrow> byte list \<Rightarrow> printbuf \<Rightarrow> (nat \<times> printbuf) result" where
  "cprintf_colored textClr strs va fmt b =
     andThen (vcprintf strs va fmt (b\<lparr>printProgName := True, curTextClr := int32 (textClr * 2 ^ 8)\<rparr>)) (\<lambda>(n, b).
     Inr (n, b\<lparr>curTextClr := TEXT_DEFAULT_CLR\<rparr>))"

section \<open>The formatter runs its routine over one text\<close>

text \<open>What a format prints, as a sequence of events.\<close>

datatype event = Ch int | Prog bool

definition record_ch :: "int \<Rightarrow> event list \<Rightarrow> event list" where
  "record_ch c evs = evs @ [Ch c]"

definition record_prog :: "bool \<Rightarrow> event list \<Rightarrow> event list" where
  "record_prog v evs = evs @ [Prog v]"

definition text_of :: "(32 word \<Rightarrow> byte list) \<Rightarrow> va_list \<Rightarrow> byte list \<Rightarrow> nat \<Rightarrow> event list result" where
  "text_of strs va fmt ap = vprintfmt record_ch record_prog strs va fmt ap []"

locale sink =
  fixes putch :: "int \<Rightarrow> 's \<Rightarrow> 's" and prog :: "bool \<Rightarrow> 's \<Rightarrow> 's" and run :: "event list \<Rightarrow> 's \<Rightarrow> 's"
  assumes run_nil: "run [] s = s"
    and run_ch: "run (evs @ [Ch c]) s = putch c (run evs s)"
    and run_prog: "run (evs @ [Prog v]) s = prog v (run evs s)"
begin

text \<open>A step of the formatter that only uses \<open>putch\<close> does the same to a recorded text and to the state it stands for.\<close>

lemma run_record: "putch c (run evs s) = run (record_ch c evs) s" "prog v (run evs s) = run (record_prog v evs) s"
  by (simp_all add: run_ch run_prog record_ch_def record_prog_def)

lemma run_power: "(putch c ^^ n) (run evs s) = run ((record_ch c ^^ n) evs) s"
  by (induction n) (simp_all add: run_record)

lemma run_fold: "fold (\<lambda>x. putch (f x)) xs (run evs s) = run (fold (\<lambda>x. record_ch (f x)) xs evs) s"
  by (induction xs arbitrary: evs) (simp_all add: run_record)

lemma run_printnum: "printnum putch num base w c (run evs s) = run (printnum record_ch num base w c evs) s"
proof (induction num arbitrary: w rule: less_induct)
  case (less num)
  have "printnum putch (num div base) base (w - 1) c (run evs s) = run (printnum record_ch (num div base) base (w - 1) c evs) s"
    if "num \<ge> base" "2 \<le> base" using less [of "num div base"] that by simp
  then show ?case by (subst (1 2) printnum.simps) (auto simp: run_record run_power)
qed

lemmas run_parts = run_record run_power run_fold run_printnum

lemma run_decimal: "put_decimal putch sp v (run evs s) = run (put_decimal record_ch sp v evs) s"
  by (simp add: put_decimal_def put_number_def run_parts)

lemma run_error: "put_error putch e (run evs s) = (case put_error record_ch e evs of Inl x \<Rightarrow> Inl x | Inr evs \<Rightarrow> Inr (run evs s))"
  by (simp add: put_error_def Let_def puts_def run_parts run_decimal split: option.splits)

lemma run_string: "put_string putch sp str (run evs s) = run (put_string record_ch sp str evs) s"
  by (simp add: put_string_def Let_def run_parts)

lemma run_conversion:
  "conversion putch prog strs va sp ap conv (run evs s) =
     map_option (map_sum (\<lambda>x. x) (map_prod (\<lambda>x. x) (\<lambda>evs. run evs s))) (conversion record_ch record_prog strs va sp ap conv evs)"
  by (simp add: conversion_def run_error run_string run_decimal put_number_def run_parts Let_def andThen_def split: prod.splits sum.splits)

lemma run_vprintfmt:
  "vprintfmt putch prog strs va fmt ap (run evs s) =
     map_sum (\<lambda>x. x) (\<lambda>evs. run evs s) (vprintfmt record_ch record_prog strs va fmt ap evs)"
proof (induction "length fmt" arbitrary: fmt ap evs rule: less_induct)
  case less
  show ?case
  proof (cases fmt)
    case (Cons c cs)
    obtain sp ap' conv rest where p: "parse_spec va plain_spec ap cs = (sp, ap', conv, rest)" by (cases "parse_spec va plain_spec ap cs")
    then have "length rest < length fmt" "length cs < length fmt" using parse_spec_length [OF p] Cons by auto
    note ih = less [OF this(1)] less [OF this(2)]
    show ?thesis by (simp add: Cons p run_conversion run_record ih split: option.splits sum.splits prod.splits)
  qed simp
qed

lemma vprintfmt_runs: "vprintfmt putch prog strs va fmt ap s = map_sum (\<lambda>x. x) (\<lambda>evs. run evs s) (text_of strs va fmt ap)"
  using run_vprintfmt [of strs va fmt ap "[]" s] by (simp add: text_of_def run_nil)

end

text \<open>The characters of a text.\<close>

fun chars :: "event list \<Rightarrow> int list" where
  "chars [] = []"
| "chars (Ch c # evs) = c # chars evs"
| "chars (Prog v # evs) = chars evs"

lemma chars_append [simp]: "chars (a @ b) = chars a @ chars b"
  by (induction a rule: chars.induct) auto

fun prog_after :: "event list \<Rightarrow> bool \<Rightarrow> bool" where
  "prog_after [] v = v"
| "prog_after (Ch c # evs) v = prog_after evs v"
| "prog_after (Prog w # evs) v = prog_after evs w"

lemma prog_after_append [simp]: "prog_after (a @ b) v = prog_after b (prog_after a v)"
  by (induction a v rule: prog_after.induct) auto

text \<open>A text into a buffer: as much as there is room for, and the length of all of it.\<close>

definition sprint_run :: "event list \<Rightarrow> sprintbuf \<Rightarrow> sprintbuf" where
  "sprint_run evs b =
     (let k = min (ebuf b - buf b) (length (chars evs)) in
      \<lparr>buf = buf b + k, ebuf = ebuf b, cnt = cnt b + length (chars evs),
       smem = fill (buf b) k (\<lambda>i. word_of_int (chars evs ! i)) (smem b), sprog = prog_after evs (sprog b)\<rparr>)"

interpretation sprint: sink sprintputch "\<lambda>v b. b\<lparr>sprog := v\<rparr>" sprint_run
proof
  show "sprint_run [] s = s" for s by (simp add: sprint_run_def)
  show "sprint_run (evs @ [Prog v]) s = (sprint_run evs s)\<lparr>sprog := v\<rparr>" for evs v s by (simp add: sprint_run_def Let_def)
  show "sprint_run (evs @ [Ch c]) s = sprintputch c (sprint_run evs s)" for evs c s
  proof (cases "length (chars evs) < ebuf s - buf s")
    case True
    let ?L = "length (chars evs)"
    have "(fill (buf s) ?L (\<lambda>i. word_of_int (chars evs ! i)) (smem s))(buf s + ?L := word_of_int c)
        = fill (buf s) (Suc ?L) (\<lambda>i. word_of_int ((chars evs @ [c]) ! i)) (smem s)"
      unfolding fill_snoc by (rule fill_cong) (auto simp: nth_append less_Suc_eq)
    moreover have "min (ebuf s - buf s) (Suc ?L) = Suc ?L" "min (ebuf s - buf s) ?L = ?L" "buf s + ?L < ebuf s" using True by auto
    ultimately show ?thesis by (simp add: sprint_run_def sprintputch_def Let_def)
  next
    case False
    then have "fill (buf s) (ebuf s - buf s) (\<lambda>i. word_of_int ((chars evs @ [c]) ! i)) (smem s)
        = fill (buf s) (ebuf s - buf s) (\<lambda>i. word_of_int (chars evs ! i)) (smem s)"
      by (intro fill_cong) (simp add: nth_append)
    then show ?thesis using False by (simp add: sprint_run_def sprintputch_def Let_def min_def)
  qed
qed

fun user_event :: "event \<Rightarrow> printbuf \<Rightarrow> printbuf" where
  "user_event (Ch c) b = putch_user c b"
| "user_event (Prog v) b = b\<lparr>printProgName := v\<rparr>"

interpretation user: sink putch_user "\<lambda>v b. b\<lparr>printProgName := v\<rparr>" "fold user_event"
  by unfold_locales auto

text \<open>The text handed to the kernel so far, and what is still pending.\<close>

definition printed :: "printbuf \<Rightarrow> int list" where
  "printed b = concat (map fst (calls b))"

definition short_calls :: "printbuf \<Rightarrow> bool" where
  "short_calls b \<longleftrightarrow> length (pending b) < 255 \<and> (\<forall>c \<in> set (calls b). length (fst c) \<le> 255)"

lemma putch_user_prints:
  assumes "short_calls b"
  shows "printed (putch_user c b) @ pending (putch_user c b) = printed b @ pending b @ [c]" "short_calls (putch_user c b)"
    "pcnt (putch_user c b) = Suc (pcnt b)"
  using assms by (auto simp: putch_user_def Let_def sys_cputs_call_def printed_def short_calls_def)

lemma fold_user_event:
  assumes "short_calls b"
  shows "printed (fold user_event evs b) @ pending (fold user_event evs b) = printed b @ pending b @ chars evs \<and>
    short_calls (fold user_event evs b) \<and> pcnt (fold user_event evs b) = pcnt b + length (chars evs)"
  using assms
proof (induction evs arbitrary: b)
  case (Cons e evs)
  show ?case
  proof (cases e)
    case (Ch c)
    then show ?thesis using Cons.IH [of "putch_user c b"] putch_user_prints [OF Cons.prems, of c] by simp
  next
    case (Prog v)
    then show ?thesis using Cons.IH [of "b\<lparr>printProgName := v\<rparr>"] Cons.prems by (simp add: printed_def short_calls_def)
  qed
qed simp

text \<open>
  C32. One format, one text: whatever a format prints, \<^verbatim>\<open>snprintf\<close> stores the longest part of it that fits the \<open>n\<close> bytes
  of the buffer, with a terminating zero, writes nowhere else and returns the length of the whole text; \<^verbatim>\<open>cprintf\<close> of a
  user program hands the kernel all of it, in order and in pieces of at most 255 characters, and returns its length. For a
  null buffer or a size below one \<^verbatim>\<open>snprintf\<close> returns 3 and writes nothing.
\<close>

theorem formatted_output:
  assumes t: "text_of strs va fmt 0 = Inr evs"
  shows "(p \<noteq> 0 \<and> 1 \<le> n \<longrightarrow>
      (let k = min (nat n - 1) (length (chars evs)) in
       vsnprintf p n strs va fmt 0 m v =
         Inr (int (length (chars evs)), fill p (Suc k) (\<lambda>i. if i < k then word_of_int (chars evs ! i) else 0) m, prog_after evs v))) \<and>
    (p = 0 \<or> n < 1 \<longrightarrow> vsnprintf p n strs va fmt 0 m v = Inr (3, m, v)) \<and>
    (calls b = [] \<longrightarrow> (\<exists>b'. cprintf strs va fmt b = Inr (length (chars evs), b') \<and> printed b' = chars evs \<and>
       (\<forall>c \<in> set (calls b'). length (fst c) \<le> 255)))"
proof (intro conjI impI)
  assume pn: "p \<noteq> 0 \<and> 1 \<le> n"
  show "let k = min (nat n - 1) (length (chars evs)) in
       vsnprintf p n strs va fmt 0 m v =
         Inr (int (length (chars evs)), fill p (Suc k) (\<lambda>i. if i < k then word_of_int (chars evs ! i) else 0) m, prog_after evs v)"
    using pn by (simp add: vsnprintf_def sprint.vprintfmt_runs t sprint_run_def Let_def fill_snoc)
next
  assume "p = 0 \<or> n < 1"
  then show "vsnprintf p n strs va fmt 0 m v = Inr (3, m, v)" by (simp add: vsnprintf_def)
next
  assume c: "calls b = []"
  let ?b = "b\<lparr>printProgName := True, pending := [], pcnt := 0\<rparr>" let ?b' = "fold user_event evs ?b"
  have eq: "cprintf strs va fmt b = Inr (pcnt ?b', (sys_cputs_call ?b')\<lparr>printProgName := False\<rparr>)"
    by (simp add: cprintf_def vcprintf_def user.vprintfmt_runs t)
  have "short_calls ?b" "printed ?b = []" using c by (simp_all add: short_calls_def printed_def)
  with fold_user_event [of ?b evs] have
    "printed ?b' @ pending ?b' = chars evs" "short_calls ?b'" "pcnt ?b' = length (chars evs)" by simp_all
  then show "\<exists>b'. cprintf strs va fmt b = Inr (length (chars evs), b') \<and> printed b' = chars evs \<and>
       (\<forall>c \<in> set (calls b'). length (fst c) \<le> 255)"
    using eq by (intro exI [of _ "(sys_cputs_call ?b')\<lparr>printProgName := False\<rparr>"])
      (auto simp: sys_cputs_call_def printed_def short_calls_def)
qed

text \<open>Decimal numbers: the text of \<^verbatim>\<open>ltostr\<close>, after the padding.\<close>

lemma printnum_decimal:
  "printnum record_ch n 10 w c evs = evs @ map Ch (replicate (nat (w - int (length (digs n)))) c @ map (\<lambda>d. uint (digit_char d)) (rev (digs n)))"
proof (induction n arbitrary: w rule: less_induct)
  case (less n)
  have pow: "(record_ch x ^^ k) evs = evs @ map Ch (replicate k x)" for x k
    by (induction k) (simp_all add: record_ch_def replicate_append_same)
  have h: "hex_digit d = uint (digit_char d)" if "d < 10" for d
    using small_digit [OF that] by (auto simp: hex_digit_def digit_char_def)
  show ?case
  proof (cases "n \<ge> 10")
    case True
    have d: "digs n = n mod 10 # digs (n div 10)" using True by (subst digs.simps) (simp add: div_greater_zero_iff)
    have "printnum record_ch (n div 10) 10 (w - 1) c evs
        = evs @ map Ch (replicate (nat (w - 1 - int (length (digs (n div 10))))) c @ map (\<lambda>d. uint (digit_char d)) (rev (digs (n div 10))))"
      by (rule less) (use True in simp)
    then have "printnum record_ch n 10 w c evs = record_ch (hex_digit (n mod 10)) \<dots>" using True by (subst printnum.simps) simp
    then show ?thesis by (subst (asm) record_ch_def) (simp add: d h algebra_simps)
  next
    case False
    have d: "digs n = [n]" using False by (subst digs.simps) simp
    show ?thesis using False by (subst printnum.simps) (simp add: d h pow record_ch_def)
  qed
qed

lemma text_of_decimal: "text_of strs va [37, 100] 0 = Inr (map (\<lambda>c. Ch (uint c)) (decimal (sint (va 0))))"
  by (simp add: text_of_def conversion_def plain_spec_def getint_def put_decimal_def put_number_def printnum_decimal
      decimal_def record_ch_def is_digit_def o_def)

lemma chars_map_Ch [simp]: "chars (map (\<lambda>x. Ch (f x)) xs) = map f xs"
  by (induction xs) auto

lemma decimal_minus_45: "decimal (- 45) = [45, 52, 53]"
  by (simp add: decimal_def digs.simps digit_char_def)

theorem formatted_output_witness:
  "(\<exists>m. vsnprintf 100 3 (\<lambda>_. []) (\<lambda>_. - 45) [37, 100] 0 (\<lambda>_. 7) False = Inr (3, m, False) \<and>
     m 100 = 45 \<and> m 101 = 52 \<and> m 102 = 0 \<and> m 103 = 7) \<and>
   (\<exists>b. cprintf (\<lambda>_. []) (\<lambda>_. - 45) [37, 100] \<lparr>pending = [], pcnt = 0, calls = [], printProgName = False, curTextClr = 0\<rparr> = Inr (3, b) \<and>
     printed b = [45, 52, 53])"
proof -
  let ?b = "\<lparr>pending = [], pcnt = 0, calls = [], printProgName = False, curTextClr = 0\<rparr>"
  have t: "text_of (\<lambda>_. []) (\<lambda>_. - 45) [37, 100] 0 = Inr (map (\<lambda>c. Ch (uint c)) [45, 52, 53 :: byte])"
    using text_of_decimal [of "\<lambda>_. []" "\<lambda>_. - 45"] by (simp add: decimal_minus_45)
  show ?thesis using formatted_output [OF t, of 100 3 "\<lambda>_. 7" False ?b] by (auto simp: fill_def)
qed

end
