(* ===== verification/Console.thy ===== *)
theory Console
  imports Printfmt
begin

text \<open>
  The console of \<^verbatim>\<open>src/kern/cons/console.c\<close>: the input ring buffer that the interrupt routines fill, the keyboard
  decoder with its tables, and the text screen. What the devices have ready is an argument: the scan codes and serial bytes
  that the ports deliver before they report that nothing is left.
\<close>

unbundle bit_operations_syntax

section \<open>State\<close>

record console =
  cbuf :: "nat \<Rightarrow> nat"
  rpos :: nat
  wpos :: nat
  crt_buf :: "nat \<Rightarrow> nat"
  crt_pos :: nat
  text_length :: int
  current_text_color :: int
  shift :: "32 word"
  serial_exists :: bool
  lpt_out :: "int list"

abbreviation CONSBUFSIZE :: nat where "CONSBUFSIZE \<equiv> 512"
abbreviation CRT_COLS :: nat where "CRT_COLS \<equiv> 80"
abbreviation CRT_SIZE :: nat where "CRT_SIZE \<equiv> 2000"

section \<open>The input buffer\<close>

definition cons_store :: "nat \<Rightarrow> console \<Rightarrow> console" where
  "cons_store c s =
     (let s = s\<lparr>cbuf := (cbuf s)(wpos s := c mod 256), wpos := Suc (wpos s)\<rparr>
      in if wpos s = CONSBUFSIZE then s\<lparr>wpos := 0\<rparr> else s)"

text \<open>\<open>proc\<close> handles one byte of the device; the loop ends when nothing is left.\<close>

fun cons_intr :: "(nat \<Rightarrow> console \<Rightarrow> nat \<times> console) \<Rightarrow> nat list \<Rightarrow> console \<Rightarrow> console" where
  "cons_intr proc [] s = s"
| "cons_intr proc (d # ds) s =
     (let (c, s) = proc d s in cons_intr proc ds (if c = 0 then s else cons_store c s))"

definition cons_getc2 :: "console \<Rightarrow> nat \<times> console" where
  "cons_getc2 s =
     (if rpos s \<noteq> wpos s
      then (cbuf s (rpos s), s\<lparr>rpos := if Suc (rpos s) = CONSBUFSIZE then 0 else Suc (rpos s)\<rparr>)
      else (0, s))"

section \<open>The screen\<close>

definition scroll :: "console \<Rightarrow> console" where
  "scroll s =
     (if crt_pos s \<ge> CRT_SIZE
      then s\<lparr>crt_buf := (\<lambda>i. if i < CRT_SIZE - CRT_COLS then crt_buf s (i + CRT_COLS)
                              else if i < CRT_SIZE then 0x0720 else crt_buf s i),
             crt_pos := (crt_pos s - CRT_COLS) mod 65536\<rparr>
      else s)"

definition with_colour :: "int \<Rightarrow> console \<Rightarrow> int" where
  "with_colour c s =
     (if c AND NOT 0xFF = 0 then c OR (if current_text_color s = 0 then 0x700 else current_text_color s) else c)"

text \<open>A character that is not a tabulator; the cell index is in the screen as long as the cursor is.\<close>

definition cga_put1 :: "int \<Rightarrow> console \<Rightarrow> console" where
  "cga_put1 c s =
     (let c = with_colour c s; key = c AND 0xFF in
      scroll
       (if key = 8 then
          (if crt_pos s > 0
           then s\<lparr>crt_pos := crt_pos s - 1, crt_buf := (crt_buf s)(crt_pos s - 1 := nat (((c AND NOT 0xFF) OR 32) mod 65536))\<rparr>
           else s)
        else if key = 10 then
          (let p = (crt_pos s + CRT_COLS) mod 65536 in s\<lparr>crt_pos := p - p mod CRT_COLS, text_length := 0\<rparr>)
        else if key = 13 then s\<lparr>crt_pos := crt_pos s - crt_pos s mod CRT_COLS\<rparr>
        else if key = 0xE4 then (if crt_pos s > 0 then s\<lparr>crt_pos := crt_pos s - 1\<rparr> else s)
        else if key = 0xE5 then (if crt_pos s < CRT_SIZE then s\<lparr>crt_pos := crt_pos s + 1\<rparr> else s)
        else
          (let s = s\<lparr>crt_buf := (crt_buf s)(crt_pos s := nat (c mod 65536)), crt_pos := (crt_pos s + 1) mod 65536\<rparr>
           in if int (crt_pos s) > 1920 + text_length s then s\<lparr>text_length := text_length s + 1\<rparr> else s)))"

definition lpt_putc :: "int \<Rightarrow> console \<Rightarrow> console" where
  "lpt_putc c s = s\<lparr>lpt_out := lpt_out s @ [c mod 256]\<rparr>"

text \<open>A tabulator is five blanks, each sent through \<^verbatim>\<open>cons_putc\<close>.\<close>

definition cga_putc :: "int \<Rightarrow> console \<Rightarrow> console" where
  "cga_putc c s =
     (if with_colour c s AND 0xFF = 9
      then scroll (((\<lambda>s. cga_put1 32 (lpt_putc 32 s)) ^^ 5) s)
      else cga_put1 c s)"

definition cons_putc :: "int \<Rightarrow> console \<Rightarrow> console" where
  "cons_putc c s = cga_putc c (lpt_putc c s)"

definition cputchar :: "int \<Rightarrow> console \<Rightarrow> console" where
  "cputchar c s = cons_putc c s"

text \<open>The screen memory is written through a pointer to \<^verbatim>\<open>uint32\<close>: every store covers two cells.\<close>

definition clear_screen_buffer :: "console \<Rightarrow> console" where
  "clear_screen_buffer s =
     s\<lparr>crt_buf := (\<lambda>i. if i < 2 * CRT_SIZE then (if even i then 0x0720 else 0) else crt_buf s i), crt_pos := 0\<rparr>"

section \<open>The keyboard\<close>

definition key_table :: "nat list \<Rightarrow> (nat \<times> nat) list \<Rightarrow> nat \<Rightarrow> nat" where
  "key_table l special d = (case map_of special d of Some v \<Rightarrow> v | None \<Rightarrow> if d < length l then l ! d else 0)"

definition shiftcode :: "nat \<Rightarrow> 32 word" where
  "shiftcode d =
     (if d = 0x1D \<or> d = 0x9D then 2 else if d = 0x2A \<or> d = 0x36 then 1 else if d = 0x38 \<or> d = 0xB8 then 4 else 0)"

definition togglecode :: "nat \<Rightarrow> 32 word" where
  "togglecode d = (if d = 0x3A then 8 else if d = 0x45 then 16 else if d = 0x46 then 32 else 0)"

definition normalmap :: "nat \<Rightarrow> nat" where
  "normalmap = key_table
    [0, 27, 49, 50, 51, 52, 53, 54, 55, 56, 57, 48, 45, 61, 8, 9, 113, 119, 101, 114, 116, 121, 117, 105, 111, 112, 91, 93,
     10, 0, 97, 115, 100, 102, 103, 104, 106, 107, 108, 59, 39, 96, 0, 92, 122, 120, 99, 118, 98, 110, 109, 44, 46, 47, 0,
     42, 0, 32, 0, 0, 0, 0, 0, 0, 0, 0, 0, 0, 0, 0, 0, 55, 56, 57, 45, 52, 53, 54, 43, 49, 50, 51, 48, 46, 0, 0, 0, 0]
    [(0x97, 0xE0), (0x9C, 10), (0xB5, 47), (0xC8, 0xE2), (0xC9, 0xE6), (0xCB, 0xE4), (0xCD, 0xE5), (0xCF, 0xE1), (0xD0, 0xE3),
      (0xD1, 0xE7), (0xD2, 0xE8), (0xD3, 0xE9)]"

definition shiftmap :: "nat \<Rightarrow> nat" where
  "shiftmap = key_table
    [0, 27, 33, 64, 35, 36, 37, 94, 38, 42, 40, 41, 95, 43, 8, 9, 81, 87, 69, 82, 84, 89, 85, 73, 79, 80, 123, 125, 10, 0,
     65, 83, 68, 70, 71, 72, 74, 75, 76, 58, 34, 126, 0, 124, 90, 88, 67, 86, 66, 78, 77, 60, 62, 63, 0, 42, 0, 32, 0, 0,
     0, 0, 0, 0, 0, 0, 0, 0, 0, 0, 0, 55, 56, 57, 45, 52, 53, 54, 43, 49, 50, 51, 48, 46, 0, 0, 0, 0]
    [(0x97, 0xE0), (0x9C, 10), (0xB5, 47), (0xC8, 0xE2), (0xC9, 0xE6), (0xCB, 0xE4), (0xCD, 0xE5), (0xCF, 0xE1), (0xD0, 0xE3),
      (0xD1, 0xE7), (0xD2, 0xE8), (0xD3, 0xE9)]"

definition ctlmap :: "nat \<Rightarrow> nat" where
  "ctlmap = key_table
    [0, 0, 0, 0, 0, 0, 0, 0, 0, 0, 0, 0, 0, 0, 0, 0, 17, 23, 5, 18, 20, 25, 21, 9, 15, 16, 0, 0, 13, 0, 1, 19, 4, 6, 7, 8,
     10, 11, 12, 0, 0, 0, 0, 28, 26, 24, 3, 22, 2, 14, 13, 0, 0, 239, 0, 0]
    [(0x39, 0xFF), (0x97, 0xE0), (0xB5, 239), (0xC8, 0xE2), (0xC9, 0xE6), (0xCB, 0xE4), (0xCD, 0xE5), (0xCF, 0xE1), (0xD0, 0xE3),
      (0xD1, 0xE7), (0xD2, 0xE8), (0xD3, 0xE9)]"

definition charcode :: "32 word \<Rightarrow> nat \<Rightarrow> nat" where
  "charcode sh d = (if sh AND 3 = 0 then normalmap d else if sh AND 3 = 1 then shiftmap d else ctlmap d)"

text \<open>The loop that closes the gap of a deleted character.\<close>

fun delete_loop :: "nat \<Rightarrow> nat \<Rightarrow> (nat \<Rightarrow> nat) \<Rightarrow> nat \<Rightarrow> nat" where
  "delete_loop 0 i b = b"
| "delete_loop (Suc n) i b = delete_loop n (Suc i) (b(i := b (Suc i)))"

definition swap_case :: "nat \<Rightarrow> nat" where
  "swap_case c = (if 97 \<le> c \<and> c \<le> 122 then c - 32 else if 65 \<le> c \<and> c \<le> 90 then c + 32 else c)"

text \<open>The delete key: the character under the cursor leaves the line on the screen.\<close>

definition delete_key :: "nat \<Rightarrow> console \<Rightarrow> nat \<times> console" where
  "delete_key c s =
     (if text_length s > 0 then
        (if int (crt_pos s) = 1920 + text_length s then (0, s)
         else
           (let s = s\<lparr>text_length := text_length s - 1\<rparr>;
                n = nat (text_length s - (int (crt_pos s) - 1925) + 1)
            in (c, s\<lparr>crt_buf := delete_loop n (crt_pos s) (crt_buf s)\<rparr>)))
      else (0, s))"

text \<open>Capital letters, and the keys that give no character.\<close>

definition plain_char :: "32 word \<Rightarrow> nat \<Rightarrow> nat" where
  "plain_char sh c =
     (let c = (if sh AND 8 \<noteq> 0 then swap_case c else c) in
      if sh = 16 \<and> 48 \<le> c \<and> c \<le> 57 then 0 else if c = 255 then 0 else c)"

text \<open>The key with code \<open>d\<close> is pressed, and \<open>sh\<close> are the keys and locks that modify it.\<close>

definition key_pressed :: "nat \<Rightarrow> 32 word \<Rightarrow> console \<Rightarrow> nat \<times> console" where
  "key_pressed d sh s =
     (let s = s\<lparr>shift := sh\<rparr>; c = charcode sh d in
      if c = 0xE9 then delete_key c s else (plain_char sh c, s))"

text \<open>One byte \<open>d\<close> from the keyboard; the result is 0 when no character is complete.\<close>

definition kbd_proc_data :: "nat \<Rightarrow> console \<Rightarrow> nat \<times> console" where
  "kbd_proc_data d s =
     (if d = 0xE0 then (0, s\<lparr>shift := shift s OR 64\<rparr>)
      else if d \<ge> 0x80 then
        (let d = (if shift s AND 64 \<noteq> 0 then d else d - 0x80)
         in (0, s\<lparr>shift := shift s AND NOT (shiftcode d OR 64)\<rparr>))
      else
        (let (d, sh) = (if shift s AND 64 \<noteq> 0 then (d + 0x80, shift s AND NOT 64) else (d, shift s))
         in key_pressed d ((sh OR shiftcode d) XOR togglecode d) s))"

definition kbd_intr :: "nat list \<Rightarrow> console \<Rightarrow> console" where
  "kbd_intr codes s = cons_intr kbd_proc_data codes s"

definition serial_proc_data :: "nat \<Rightarrow> console \<Rightarrow> nat \<times> console" where
  "serial_proc_data d s = (d, s)"

definition serial_intr :: "nat list \<Rightarrow> console \<Rightarrow> console" where
  "serial_intr bytes s = (if serial_exists s then cons_intr serial_proc_data bytes s else s)"

definition cons_getc :: "nat list \<Rightarrow> nat list \<Rightarrow> console \<Rightarrow> nat \<times> console" where
  "cons_getc bytes codes s = cons_getc2 (kbd_intr codes (serial_intr bytes s))"

text \<open>The method of blocking is \<^verbatim>\<open>LCK_INT\<close>: no process waits on a channel or a semaphore for the keyboard.\<close>

definition keyboard_interrupt_handler :: "nat list \<Rightarrow> console \<Rightarrow> console" where
  "keyboard_interrupt_handler codes s = kbd_intr codes s"

section \<open>Kernel output\<close>

definition putch_kernel :: "int \<Rightarrow> nat \<times> console \<Rightarrow> nat \<times> console" where
  "putch_kernel ch = (\<lambda>(n, s). (Suc n, cputchar ch s))"

text \<open>\<open>prog\<close> sets \<^verbatim>\<open>printProgName\<close>, which kernel output does not use.\<close>

definition vcprintf_kernel :: "(32 word \<Rightarrow> byte list) \<Rightarrow> va_list \<Rightarrow> byte list \<Rightarrow> console \<Rightarrow> (nat \<times> console) result" where
  "vcprintf_kernel strs va fmt s = vprintfmt putch_kernel (\<lambda>_ x. x) strs va fmt 0 (0, s)"

fun kernel_event :: "event \<Rightarrow> nat \<times> console \<Rightarrow> nat \<times> console" where
  "kernel_event (Ch c) x = putch_kernel c x"
| "kernel_event (Prog v) x = x"

interpretation kernel: sink putch_kernel "\<lambda>_ x. x" "fold kernel_event"
  by unfold_locales auto

section \<open>The buffer is a queue\<close>

text \<open>A console whose fields are in range.\<close>

definition cons_ok :: "console \<Rightarrow> bool" where
  "cons_ok s \<longleftrightarrow> rpos s < CONSBUFSIZE \<and> wpos s < CONSBUFSIZE \<and> (\<forall>i. cbuf s i < 256) \<and>
     crt_pos s < CRT_SIZE \<and> (\<forall>i. crt_buf s i < 65536)"

text \<open>The characters that wait to be read.\<close>

definition waiting :: "console \<Rightarrow> nat list" where
  "waiting s = map (\<lambda>i. cbuf s ((rpos s + i) mod 512)) [0..<(wpos s + 512 - rpos s) mod 512]"

lemma cons_store_fields:
  "rpos (cons_store c s) = rpos s" "wpos s < 512 \<Longrightarrow> wpos (cons_store c s) = (wpos s + 1) mod 512"
  "cbuf (cons_store c s) = (cbuf s)(wpos s := c mod 256)" "crt_pos (cons_store c s) = crt_pos s" "crt_buf (cons_store c s) = crt_buf s"
  by (auto simp: cons_store_def Let_def)

lemma cons_store_ok: "cons_ok s \<Longrightarrow> cons_ok (cons_store c s)"
  by (auto simp: cons_ok_def cons_store_fields)

lemma ring_len: "r < 512 \<Longrightarrow> w < 512 \<Longrightarrow> (w + 512 - r) mod 512 = (if r \<le> w then w - r else w + 512 - r :: nat)"
proof (cases "r \<le> w")
  case True
  assume a: "r < 512" "w < 512"
  have "w + 512 - r = (w - r) + 512" using True by simp
  then have "(w + 512 - r) mod 512 = (w - r) mod 512" by (simp only: mod_add_self2)
  then show ?thesis using True a by simp
qed simp

lemma ring_at: "r < 512 \<Longrightarrow> i < 512 \<Longrightarrow> (r + i) mod 512 = (if r + i < 512 then r + i else r + i - 512 :: nat)"
  by (simp add: le_mod_geq)

lemma ring_shift:
  assumes "r < 512" "w < (512 :: nat)"
  shows "((w + 1) mod 512 + 512 - r) mod 512 = ((w + 512 - r) mod 512 + 1) mod 512"
proof -
  have "(w + 1) mod 512 = (if w = 511 then 0 else w + 1)" using assms by auto
  then have "((w + 1) mod 512 + 512 - r) mod 512 = (if w = 511 then (if r = 0 then 0 else 512 - r) else if r \<le> w + 1 then w + 1 - r else w + 1 + 512 - r)"
    using ring_len [OF assms(1), of 0] ring_len [OF assms(1), of "w + 1"] assms by (auto split: if_splits)
  moreover have "((w + 512 - r) mod 512 + 1) mod 512 = (if r \<le> w then (if w - r = 511 then 0 else w - r + 1) else if w + 512 - r = 511 then 0 else w + 512 - r + 1)"
    unfolding ring_len [OF assms] using assms by auto
  ultimately show ?thesis using assms by (simp only:) (cases "w = 511"; cases "r \<le> w"; cases "r = w + 1"; simp; arith?)
qed

lemma ring_end: "r < 512 \<Longrightarrow> w < 512 \<Longrightarrow> (r + (w + 512 - r) mod 512) mod 512 = (w :: nat)"
  by (simp only: ring_len) (simp add: ring_at split: if_splits)

lemma ring_other: "r < 512 \<Longrightarrow> w < 512 \<Longrightarrow> i < (w + 512 - r) mod 512 \<Longrightarrow> (r + i) mod 512 \<noteq> (w :: nat)"
  by (simp only: ring_len) (auto simp: ring_at split: if_splits)

lemma waiting_store:
  assumes "cons_ok s"
  shows "length (waiting s) < 511 \<Longrightarrow> waiting (cons_store c s) = waiting s @ [c mod 256]"
    and "length (waiting s) = 511 \<Longrightarrow> waiting (cons_store c s) = []"
proof -
  let ?n = "(wpos s + 512 - rpos s) mod 512"
  have r: "rpos s < 512" "wpos s < 512" using assms by (simp_all add: cons_ok_def)
  have n': "((wpos s + 1) mod 512 + 512 - rpos s) mod 512 = (?n + 1) mod 512" using r by (rule ring_shift)
  show "waiting (cons_store c s) = waiting s @ [c mod 256]" if "length (waiting s) < 511"
  proof -
    have n: "?n < 511" using that by (simp add: waiting_def)
    then have "(?n + 1) mod 512 = Suc ?n" by simp
    then show ?thesis using ring_other [OF r] ring_end [OF r] r n' unfolding waiting_def by (simp add: cons_store_fields)
  qed
  show "waiting (cons_store c s) = []" if "length (waiting s) = 511"
    using that r n' by (simp add: waiting_def cons_store_fields)
qed

lemma waiting_getc2:
  assumes "cons_ok s"
  shows "case waiting s of [] \<Rightarrow> cons_getc2 s = (0, s) | c # cs \<Rightarrow> \<exists>s'. cons_getc2 s = (c, s') \<and> waiting s' = cs \<and> cons_ok s'"
proof -
  let ?n = "(wpos s + 512 - rpos s) mod 512"
  have r: "rpos s < 512" "wpos s < 512" using assms by (simp_all add: cons_ok_def)
  show ?thesis
  proof (cases "rpos s = wpos s")
    case True
    then show ?thesis using r by (simp add: waiting_def cons_getc2_def)
  next
    case False
    let ?r = "if Suc (rpos s) = 512 then 0 else Suc (rpos s)"
    have r': "?r = (rpos s + 1) mod 512" using r by auto
    have "0 < ?n" using False r by (auto simp: mod_if split: if_splits)
    then obtain k where k: "?n = Suc k" by (cases ?n) auto
    have k': "(wpos s + 512 - ?r) mod 512 = k" using k r by (auto simp: mod_if split: if_splits)
    have "[0..<Suc k] = 0 # map Suc [0..<k]" by (simp add: upt_conv_Cons map_Suc_upt)
    then have "waiting s = cbuf s (rpos s) # map (\<lambda>i. cbuf s ((rpos s + Suc i) mod 512)) [0..<k]"
      using r unfolding waiting_def k by (simp del: upt_Suc)
    moreover have "waiting (s\<lparr>rpos := ?r\<rparr>) = map (\<lambda>i. cbuf s ((rpos s + Suc i) mod 512)) [0..<k]"
      using k' by (simp add: waiting_def r' mod_add_left_eq del: One_nat_def)
    moreover have "cons_ok (s\<lparr>rpos := ?r\<rparr>)" using assms by (auto simp: cons_ok_def)
    ultimately show ?thesis using False by (simp add: cons_getc2_def)
  qed
qed

section \<open>Input devices\<close>

text \<open>The characters that a device makes of its bytes.\<close>

fun typed :: "(nat \<Rightarrow> console \<Rightarrow> nat \<times> console) \<Rightarrow> nat list \<Rightarrow> console \<Rightarrow> nat list" where
  "typed proc [] s = []"
| "typed proc (d # ds) s = (let (c, s) = proc d s in (if c = 0 then [] else [c]) @ typed proc ds s)"

locale device =
  fixes proc :: "nat \<Rightarrow> console \<Rightarrow> nat \<times> console"
  assumes keeps: "d < 256 \<Longrightarrow> cons_ok s \<Longrightarrow> cons_ok (snd (proc d s)) \<and> waiting (snd (proc d s)) = waiting s"
    and char: "d < 256 \<Longrightarrow> fst (proc d s) < 256"
    and apart: "proc d (cons_store x s) = (fst (proc d s), cons_store x (snd (proc d s)))"
begin

lemma typed_store: "typed proc ds (cons_store x s) = typed proc ds s"
  by (induction ds arbitrary: s) (simp_all add: apart case_prod_beta)

lemma intr_ok: "cons_ok s \<Longrightarrow> \<forall>d \<in> set ds. d < 256 \<Longrightarrow> cons_ok (cons_intr proc ds s)"
  by (induction ds arbitrary: s) (auto simp: case_prod_beta keeps cons_store_ok)

lemma intr_queues:
  assumes "cons_ok s" "\<forall>d \<in> set ds. d < 256" "length (waiting s) + length (typed proc ds s) < 512"
  shows "waiting (cons_intr proc ds s) = waiting s @ typed proc ds s"
  using assms
proof (induction ds arbitrary: s)
  case (Cons d ds)
  obtain c s' where p: "proc d s = (c, s')" by (cases "proc d s")
  have s': "cons_ok s'" "waiting s' = waiting s" "c < 256" using keeps [of d s] char [of d s] Cons.prems p by simp_all
  show ?case
  proof (cases "c = 0")
    case True
    then show ?thesis using Cons.IH [of s'] Cons.prems p s' by simp
  next
    case False
    then have "waiting (cons_store c s') = waiting s @ [c]" using waiting_store(1) [OF s'(1), of c] Cons.prems p s' by simp
    then show ?thesis using Cons.IH [OF cons_store_ok [OF s'(1)], of c] Cons.prems p False by (simp add: typed_store)
  qed
qed simp

end

interpretation serial: device serial_proc_data
  by unfold_locales (auto simp: serial_proc_data_def)

lemma key_table_less: "\<forall>x \<in> set l. x < 256 \<Longrightarrow> \<forall>(k, v) \<in> set special. v < 256 \<Longrightarrow> key_table l special d < 256"
  by (auto simp: key_table_def split: option.splits dest: map_of_SomeD)

lemma charcode_less: "charcode sh d < 256"
  by (simp add: charcode_def normalmap_def shiftmap_def ctlmap_def key_table_less)

lemma swap_case_less: "c < 256 \<Longrightarrow> swap_case c < 256"
  by (auto simp: swap_case_def)

lemma plain_char_less: "c < 256 \<Longrightarrow> plain_char sh c < 256"
  using swap_case_less [of c] by (simp add: plain_char_def Let_def)

lemma delete_loop_less: "\<forall>i. b i < 65536 \<Longrightarrow> \<forall>i. delete_loop n k b i < 65536"
  by (induction n k b rule: delete_loop.induct) auto

lemma delete_key_fields:
  "fst (delete_key c s) \<in> {0, c}"
  "cbuf (snd (delete_key c s)) = cbuf s" "rpos (snd (delete_key c s)) = rpos s" "wpos (snd (delete_key c s)) = wpos s"
  "crt_pos (snd (delete_key c s)) = crt_pos s" "\<forall>i. crt_buf s i < 65536 \<Longrightarrow> \<forall>i. crt_buf (snd (delete_key c s)) i < 65536"
  by (auto simp: delete_key_def Let_def delete_loop_less)

lemma key_pressed_fields:
  "fst (key_pressed d sh s) < 256"
  "cbuf (snd (key_pressed d sh s)) = cbuf s" "rpos (snd (key_pressed d sh s)) = rpos s" "wpos (snd (key_pressed d sh s)) = wpos s"
  "crt_pos (snd (key_pressed d sh s)) = crt_pos s" "\<forall>i. crt_buf s i < 65536 \<Longrightarrow> \<forall>i. crt_buf (snd (key_pressed d sh s)) i < 65536"
  using delete_key_fields [where c = 233 and s = "s\<lparr>shift := sh\<rparr>"] charcode_less [of sh d] plain_char_less [of "charcode sh d" sh]
  by (auto simp: key_pressed_def Let_def)

lemma kbd_fields:
  "fst (kbd_proc_data d s) < 256"
  "cbuf (snd (kbd_proc_data d s)) = cbuf s" "rpos (snd (kbd_proc_data d s)) = rpos s" "wpos (snd (kbd_proc_data d s)) = wpos s"
  "crt_pos (snd (kbd_proc_data d s)) = crt_pos s" "\<forall>i. crt_buf s i < 65536 \<Longrightarrow> \<forall>i. crt_buf (snd (kbd_proc_data d s)) i < 65536"
  by (simp_all add: kbd_proc_data_def Let_def key_pressed_fields split: prod.split)

lemma cons_store_commute:
  "cons_store x (s\<lparr>shift := a\<rparr>) = (cons_store x s)\<lparr>shift := a\<rparr>"
  "cons_store x (s\<lparr>text_length := t\<rparr>) = (cons_store x s)\<lparr>text_length := t\<rparr>"
  "cons_store x (s\<lparr>crt_buf := b\<rparr>) = (cons_store x s)\<lparr>crt_buf := b\<rparr>"
  by (simp_all add: cons_store_def Let_def)

lemma cons_store_same:
  "shift (cons_store x s) = shift s" "text_length (cons_store x s) = text_length s"
  by (simp_all add: cons_store_def Let_def)

lemma delete_key_store: "delete_key c (cons_store x s) = (fst (delete_key c s), cons_store x (snd (delete_key c s)))"
  by (simp add: delete_key_def Let_def cons_store_commute cons_store_same cons_store_fields)

lemma key_pressed_store: "key_pressed d sh (cons_store x s) = (fst (key_pressed d sh s), cons_store x (snd (key_pressed d sh s)))"
  by (simp add: key_pressed_def Let_def cons_store_commute(1) [symmetric] delete_key_store)

lemma kbd_proc_data_store: "kbd_proc_data d (cons_store x s) = (fst (kbd_proc_data d s), cons_store x (snd (kbd_proc_data d s)))"
  by (simp add: kbd_proc_data_def Let_def cons_store_same(1) cons_store_commute(1) [symmetric] key_pressed_store)

interpretation keyboard: device kbd_proc_data
  by unfold_locales (auto simp: kbd_fields cons_ok_def waiting_def kbd_proc_data_store)

text \<open>
  C33. The input buffer is a queue. As long as fewer than 512 characters wait, what is typed or received is appended in order,
  and reading takes the characters in the order in which they came; reading an empty buffer gives 0. The buffer does not
  notice when it is full: with one character more than 511 it counts as empty, and all that waited is lost.
\<close>

theorem console_input_queue:
  assumes ok: "cons_ok s" and codes: "\<forall>d \<in> set codes. d < 256"
  shows "(length (waiting s) + length (typed kbd_proc_data codes s) < 512 \<longrightarrow>
      waiting (kbd_intr codes s) = waiting s @ typed kbd_proc_data codes s) \<and>
    (serial_exists s \<and> length (waiting s) + length (filter (\<lambda>d. d \<noteq> 0) codes) < 512 \<longrightarrow>
      waiting (serial_intr codes s) = waiting s @ filter (\<lambda>d. d \<noteq> 0) codes) \<and>
    (case waiting s of [] \<Rightarrow> cons_getc2 s = (0, s) | c # cs \<Rightarrow> \<exists>s'. cons_getc2 s = (c, s') \<and> waiting s' = cs) \<and>
    (length (waiting s) = 511 \<longrightarrow> waiting (cons_store c s) = [])"
proof -
  have f: "typed serial_proc_data ds s = filter (\<lambda>d. d \<noteq> 0) ds" for ds
    by (induction ds) (simp_all add: serial_proc_data_def)
  have "case waiting s of [] \<Rightarrow> cons_getc2 s = (0, s) | c # cs \<Rightarrow> \<exists>s'. cons_getc2 s = (c, s') \<and> waiting s' = cs"
    using waiting_getc2 [OF ok] by (auto split: list.splits)
  moreover have "length (waiting s) + length (typed kbd_proc_data codes s) < 512 \<Longrightarrow> waiting (kbd_intr codes s) = waiting s @ typed kbd_proc_data codes s"
    using keyboard.intr_queues [OF ok codes] by (simp add: kbd_intr_def)
  moreover have "serial_exists s \<Longrightarrow> length (waiting s) + length (filter (\<lambda>d. d \<noteq> 0) codes) < 512 \<Longrightarrow>
      waiting (serial_intr codes s) = waiting s @ filter (\<lambda>d. d \<noteq> 0) codes"
    using serial.intr_queues [OF ok codes] by (simp add: serial_intr_def f)
  ultimately show ?thesis using waiting_store(2) [OF ok] by blast
qed

definition sample_console :: console where
  "sample_console = \<lparr>cbuf = (\<lambda>_. 0), rpos = 511, wpos = 511, crt_buf = (\<lambda>_. 0x720), crt_pos = 1925, text_length = 0,
     current_text_color = 0, shift = 0, serial_exists = True, lpt_out = []\<rparr>"

text \<open>Shift down, the key H, shift up, the key I.\<close>

theorem console_input_queue_witness:
  "waiting (kbd_intr [0x2A, 0x23, 0xAA, 0x17] sample_console) = [72, 105]"
proof -
  have "cons_ok sample_console" "waiting sample_console = []" by (simp_all add: sample_console_def cons_ok_def waiting_def)
  moreover have "typed kbd_proc_data [0x2A, 0x23, 0xAA, 0x17] sample_console = [72, 105]"
    by (simp add: sample_console_def kbd_proc_data_def key_pressed_def Let_def charcode_def shiftcode_def togglecode_def
        normalmap_def shiftmap_def key_table_def plain_char_def)
  ultimately show ?thesis using console_input_queue [of sample_console "[0x2A, 0x23, 0xAA, 0x17]" 0] by simp
qed

section \<open>The screen stays in range\<close>

lemma scroll_ok:
  assumes "cons_ok (s\<lparr>crt_pos := 0\<rparr>)" "crt_pos s \<le> CRT_SIZE + CRT_COLS - 1"
  shows "cons_ok (scroll s)"
  using assms by (auto simp: cons_ok_def scroll_def)

lemma line_start_less: "p < 2000 \<Longrightarrow> p + 80 - (p + 80) mod 80 \<le> (2079 :: nat)"
  by simp

lemma cga_put1_ok: "cons_ok s \<Longrightarrow> cons_ok (cga_put1 c s)"
  unfolding cga_put1_def Let_def by (rule scroll_ok) (auto simp: cons_ok_def nat_less_iff)

lemma lpt_putc_ok: "cons_ok s \<Longrightarrow> cons_ok (lpt_putc c s)"
  by (simp add: lpt_putc_def cons_ok_def)

lemma cons_putc_ok: "cons_ok s \<Longrightarrow> cons_ok (cons_putc c s)"
proof -
  have pow: "cons_ok s \<Longrightarrow> cons_ok (((\<lambda>s. cga_put1 32 (lpt_putc 32 s)) ^^ n) s)" for s n
    by (induction n) (simp_all add: cga_put1_ok lpt_putc_ok)
  have "cons_ok s \<Longrightarrow> cons_ok (scroll s)" for s by (rule scroll_ok) (auto simp: cons_ok_def)
  then have "cons_ok s \<Longrightarrow> cons_ok (cga_putc c s)" for s using pow cga_put1_ok by (simp add: cga_putc_def)
  then show "cons_ok s \<Longrightarrow> cons_ok (cons_putc c s)" by (simp add: cons_putc_def lpt_putc_ok)
qed

lemma kernel_events_ok: "cons_ok (snd x) \<Longrightarrow> cons_ok (snd (fold kernel_event evs x))"
proof (induction evs arbitrary: x)
  case (Cons e evs)
  have "cons_ok (snd (kernel_event e x))"
    using Cons.prems by (cases e) (auto simp: putch_kernel_def cputchar_def cons_putc_ok split: prod.splits)
  then show ?case using Cons.IH by simp
qed simp

text \<open>Printing writes cells of the screen only.\<close>

definition beyond_screen :: "console \<Rightarrow> nat \<Rightarrow> nat" where
  "beyond_screen s i = crt_buf s (CRT_SIZE + i)"

lemma scroll_screen [simp]: "beyond_screen (scroll s) = beyond_screen s"
  by (auto simp: beyond_screen_def scroll_def fun_eq_iff)

lemma lpt_putc_screen [simp]: "beyond_screen (lpt_putc c s) = beyond_screen s"
  by (simp add: beyond_screen_def lpt_putc_def fun_eq_iff)

lemma cga_put1_screen: "cons_ok s \<Longrightarrow> beyond_screen (cga_put1 c s) = beyond_screen s"
  unfolding cga_put1_def Let_def scroll_screen by (auto simp: beyond_screen_def cons_ok_def fun_eq_iff)

lemma cons_putc_screen: "cons_ok s \<Longrightarrow> beyond_screen (cons_putc c s) = beyond_screen s"
proof -
  have "cons_ok s \<Longrightarrow> cons_ok (((\<lambda>s. cga_put1 32 (lpt_putc 32 s)) ^^ n) s) \<and>
      beyond_screen (((\<lambda>s. cga_put1 32 (lpt_putc 32 s)) ^^ n) s) = beyond_screen s" for s n
    by (induction n) (simp_all add: cga_put1_ok lpt_putc_ok cga_put1_screen)
  then show "cons_ok s \<Longrightarrow> beyond_screen (cons_putc c s) = beyond_screen s"
    by (simp add: cons_putc_def cga_putc_def lpt_putc_ok cga_put1_screen del: funpow.simps)
qed

lemma kernel_events_screen: "cons_ok (snd x) \<Longrightarrow> beyond_screen (snd (fold kernel_event evs x)) = beyond_screen (snd x)"
proof (induction evs arbitrary: x)
  case (Cons e evs)
  have "cons_ok (snd (kernel_event e x)) \<and> beyond_screen (snd (kernel_event e x)) = beyond_screen (snd x)"
    using Cons.prems by (cases e) (auto simp: putch_kernel_def cputchar_def cons_putc_ok cons_putc_screen split: prod.splits)
  then show ?case using Cons.IH by simp
qed simp

text \<open>
  C34. The console keeps its types: whatever is printed, typed or received, the two indices stay inside the ring buffer, the
  cursor stays on the screen of 25 lines of 80 cells, and buffer and cells hold bytes and 16 bit values. Printing a character
  or a formatted text, with all the scrolling, writes no cell behind the 2000 of the screen. Clearing the screen does: it writes
  as many cells again behind the screen, and no more.
\<close>

theorem console_well_typed:
  assumes ok: "cons_ok s" and ds: "\<forall>d \<in> set ds. d < 256" "\<forall>d \<in> set es. d < 256"
  shows "cons_ok (cons_putc c s) \<and> (\<forall>i \<ge> CRT_SIZE. crt_buf (cons_putc c s) i = crt_buf s i) \<and>
    (case vcprintf_kernel strs va fmt s of Inl _ \<Rightarrow> True
       | Inr (n, s') \<Rightarrow> cons_ok s' \<and> (\<forall>i \<ge> CRT_SIZE. crt_buf s' i = crt_buf s i)) \<and>
    cons_ok (snd (cons_getc ds es s)) \<and> cons_ok (keyboard_interrupt_handler es s) \<and>
    cons_ok (clear_screen_buffer s) \<and> (\<forall>i \<ge> 2 * CRT_SIZE. crt_buf (clear_screen_buffer s) i = crt_buf s i)"
proof -
  have s: "cons_ok (serial_intr ds s)" using serial.intr_ok [OF ok ds(1)] ok by (simp add: serial_intr_def)
  have k: "cons_ok (kbd_intr es t)" if "cons_ok t" for t using keyboard.intr_ok [OF that ds(2)] by (simp add: kbd_intr_def)
  have g: "cons_ok (snd (cons_getc2 t))" if "cons_ok t" for t using waiting_getc2 [OF that] that by (auto split: list.splits)
  have f: "\<forall>i \<ge> CRT_SIZE. crt_buf t i = crt_buf s i" if "beyond_screen t = beyond_screen s" for t
  proof (intro allI impI)
    fix i :: nat
    assume "CRT_SIZE \<le> i"
    then obtain k where "i = CRT_SIZE + k" using le_Suc_ex by blast
    then show "crt_buf t i = crt_buf s i" using fun_cong [OF that, of k] by (simp add: beyond_screen_def)
  qed
  have "case vcprintf_kernel strs va fmt s of Inl _ \<Rightarrow> True
      | Inr (n, s') \<Rightarrow> cons_ok s' \<and> (\<forall>i \<ge> CRT_SIZE. crt_buf s' i = crt_buf s i)"
  proof (cases "text_of strs va fmt 0")
    case (Inr evs)
    then have "vcprintf_kernel strs va fmt s = Inr (fold kernel_event evs (0, s))"
      by (simp add: vcprintf_kernel_def kernel.vprintfmt_runs)
    moreover have o: "cons_ok (snd (0 :: nat, s))" using ok by simp
    have "\<forall>i \<ge> CRT_SIZE. crt_buf (snd (fold kernel_event evs (0, s))) i = crt_buf s i"
      by (rule f) (use kernel_events_screen [OF o] in simp)
    ultimately show ?thesis using kernel_events_ok [OF o] by (simp add: case_prod_beta)
  qed (simp add: vcprintf_kernel_def kernel.vprintfmt_runs)
  moreover have "cons_ok (clear_screen_buffer s)" using ok by (auto simp: cons_ok_def clear_screen_buffer_def)
  moreover have "\<forall>i \<ge> 2 * CRT_SIZE. crt_buf (clear_screen_buffer s) i = crt_buf s i" by (simp add: clear_screen_buffer_def)
  ultimately show ?thesis
    using cons_putc_ok [OF ok] f [OF cons_putc_screen [OF ok]] k [OF ok] g [OF k [OF s]]
    by (simp add: cons_getc_def keyboard_interrupt_handler_def)
qed

theorem console_well_typed_witness:
  "cons_ok (cons_putc 65 sample_console) \<and> crt_buf (cons_putc 65 sample_console) 2000 = 0x720 \<and> crt_pos (cons_putc 10 sample_console) = 1920"
proof -
  have "cons_ok sample_console" by (simp add: sample_console_def cons_ok_def)
  from console_well_typed [OF this, of "[]" "[]" 65] show ?thesis
    by (simp add: sample_console_def cons_putc_def cga_putc_def cga_put1_def with_colour_def lpt_putc_def scroll_def)
qed

text \<open>\<^verbatim>\<open>clear_screen_buffer\<close> leaves every second cell of the screen black instead of blank.\<close>

lemma clear_screen_buffer_cells: "crt_buf (clear_screen_buffer s) 0 = 0x720 \<and> crt_buf (clear_screen_buffer s) 1 = 0"
  by (simp add: clear_screen_buffer_def)

end
