(* ===== verification/Command_Prompt.thy ===== *)
theory Command_Prompt
  imports C_Strings
begin

text \<open>
  The lines a user types: \<^verbatim>\<open>readline\<close> of \<^verbatim>\<open>src/lib/readline.c\<close>, and the interpretation of a command line by
  \<^verbatim>\<open>execute_command\<close> of \<^verbatim>\<open>src/kern/cmd/command_prompt.c\<close>. The commands themselves are a table of names.
\<close>

section \<open>Reading a line\<close>

abbreviation BUFLEN :: nat where "BUFLEN \<equiv> 1024"

text \<open>
  \<open>inp\<close> are the results of \<^verbatim>\<open>getchar\<close>. The result has the buffer, the index reached and the characters echoed; \<open>None\<close> when
  the input is used up and the loop still waits. A negative result ends the loop and leaves the buffer without a terminator.
\<close>

fun readline_loop :: "bool \<Rightarrow> int list \<Rightarrow> nat \<Rightarrow> memory \<Rightarrow> int list \<Rightarrow> (nat \<times> memory \<times> int list) option" where
  "readline_loop echoing [] i b out = None"
| "readline_loop echoing (c # inp) i b out =
     (if c < 0 then Some (i, b, out)
      else if c \<ge> 32 \<and> i < BUFLEN - 1 then
        readline_loop echoing inp (Suc i) (b(i := word_of_int c)) (if echoing then out @ [c] else out)
      else if c = 8 \<and> i > 0 then readline_loop echoing inp (i - 1) b (if echoing then out @ [c] else out)
      else if c = 10 \<or> c = 13 then Some (i, b(i := 0), if echoing then out @ [c] else out)
      else readline_loop echoing inp i b out)"

definition readline :: "bool \<Rightarrow> int list \<Rightarrow> memory \<Rightarrow> (nat \<times> memory \<times> int list) option" where
  "readline echoing inp b = readline_loop echoing inp 0 b []"

section \<open>Executing a command\<close>

datatype cmd_ret = Command_index nat | CMD_INVALID | CMD_INV_NUM_ARGS | CMD_MATCHED

fun find_command :: "nat \<Rightarrow> nat list \<Rightarrow> nat \<Rightarrow> memory \<Rightarrow> cmd_ret option" where
  "find_command arg [] i m = Some CMD_INVALID"
| "find_command arg (name # names) i m =
     Option.bind (strcmp m arg name) (\<lambda>r. if r = 0 then Some (Command_index i) else find_command arg names (Suc i) m)"

text \<open>\<open>names\<close> are the addresses of the names in the table \<^verbatim>\<open>commands\<close>.\<close>

definition process_command :: "nat list \<Rightarrow> nat list \<Rightarrow> memory \<Rightarrow> cmd_ret option" where
  "process_command names args m = find_command (hd args) names 0 m"

definition WHITESPACE :: "byte list" where "WHITESPACE = [9, 13, 10, 32]"

text \<open>What becomes of a line: a command of the table is run with its arguments, in a memory in which the line is split.\<close>

datatype outcome =
  Nothing_to_do | Unknown_command nat | Run nat "nat list" memory

text \<open>
  The list \<^verbatim>\<open>foundCommands\<close> is initialised and never filled, so that the two answers that need it panic; \<open>process_command\<close>
  never gives them.
\<close>

definition execute_command :: "nat list \<Rightarrow> nat \<Rightarrow> memory \<Rightarrow> outcome result option" where
  "execute_command names command_string m =
     Option.bind (strsplit WHITESPACE command_string m) (\<lambda>(_, args, m).
     if args = [] then Some (Inr Nothing_to_do)
     else
       Option.bind (process_command names args m) (\<lambda>ret.
       Some (case ret of
               CMD_INVALID \<Rightarrow> Inr (Unknown_command (hd args))
             | CMD_INV_NUM_ARGS \<Rightarrow> Inl (Panic ''command is found but the list is either empty or contains more than one command!'')
             | CMD_MATCHED \<Rightarrow> Inl (Panic ''command is matched but the list is empty!'')
             | Command_index i \<Rightarrow> Inr (Run i args m))))"

section \<open>A line as it was edited\<close>

text \<open>The text after the characters up to the end of a line: a printable character is added, a backspace takes the last one away.\<close>

fun edit :: "int list \<Rightarrow> byte list \<Rightarrow> byte list" where
  "edit [] line = line"
| "edit (c # cs) line =
     edit cs (if c \<ge> 32 \<and> length line < BUFLEN - 1 then line @ [word_of_int c] else if c = 8 then butlast line else line)"

lemma edit_length: "length line \<le> 1023 \<Longrightarrow> length (edit cs line) \<le> 1023"
  by (induction cs arbitrary: line) auto

lemma readline_loop_edit:
  assumes "\<forall>c \<in> set cs. 0 \<le> c \<and> c \<noteq> 10 \<and> c \<noteq> 13" "e = 10 \<or> e = 13"
    "length line \<le> 1023" "\<forall>i < length line. b i = line ! i"
  shows "\<exists>b' out'. readline_loop echoing (cs @ e # rest) (length line) b out = Some (length (edit cs line), b', out') \<and>
    (\<forall>i < length (edit cs line). b' i = edit cs line ! i) \<and> b' (length (edit cs line)) = 0 \<and> (\<forall>i > 1023. b' i = b i)"
  using assms
proof (induction cs arbitrary: line b out)
  case Nil
  then show ?case by auto
next
  case (Cons c cs)
  consider "c \<ge> 32 \<and> length line < 1023" | "\<not> (c \<ge> 32 \<and> length line < 1023)" "c = 8" "line \<noteq> []" |
    "\<not> (c \<ge> 32 \<and> length line < 1023)" "c \<noteq> 8 \<or> line = []" by blast
  then show ?case
  proof cases
    case 1
    let ?b = "b(length line := word_of_int c)" and ?line = "line @ [word_of_int c]"
    have "\<forall>i < length ?line. ?b i = ?line ! i" using Cons.prems(4) by (auto simp: nth_append less_Suc_eq)
    moreover have "\<forall>c \<in> set cs. 0 \<le> c \<and> c \<noteq> 10 \<and> c \<noteq> 13" "length ?line \<le> 1023" using Cons.prems 1 by simp_all
    ultimately obtain b' out' where r: "readline_loop echoing (cs @ e # rest) (length ?line) ?b (if echoing then out @ [c] else out)
        = Some (length (edit cs ?line), b', out')" "\<forall>i < length (edit cs ?line). b' i = edit cs ?line ! i"
        "b' (length (edit cs ?line)) = 0" "\<forall>i > 1023. b' i = ?b i"
      using Cons.IH [OF _ Cons.prems(2), of ?line ?b "if echoing then out @ [c] else out"] by blast
    have ed: "edit (c # cs) line = edit cs ?line" using 1 by simp
    have "readline_loop echoing ((c # cs) @ e # rest) (length line) b out = Some (length (edit cs ?line), b', out')" using r(1) 1 by simp
    moreover have "\<forall>i > 1023. b' i = b i" using r(4) 1 by simp
    ultimately show ?thesis unfolding ed using r(2,3) by blast
  next
    case 2
    have "\<forall>i < length (butlast line). b i = butlast line ! i" using Cons.prems(4) by (simp add: nth_butlast)
    moreover have "\<forall>c \<in> set cs. 0 \<le> c \<and> c \<noteq> 10 \<and> c \<noteq> 13" "length (butlast line) \<le> 1023" using Cons.prems by simp_all
    moreover have "edit (c # cs) line = edit cs (butlast line)"
      "readline_loop echoing ((c # cs) @ e # rest) (length line) b out
        = readline_loop echoing (cs @ e # rest) (length (butlast line)) b (if echoing then out @ [c] else out)"
      using 2 by simp_all
    ultimately show ?thesis using Cons.IH [OF _ Cons.prems(2), of "butlast line" b "if echoing then out @ [c] else out"] by (simp only:)
  next
    case 3
    moreover have "\<forall>c \<in> set cs. 0 \<le> c \<and> c \<noteq> 10 \<and> c \<noteq> 13" using Cons.prems by simp
    moreover have "edit (c # cs) line = edit cs line"
      "readline_loop echoing ((c # cs) @ e # rest) (length line) b out = readline_loop echoing (cs @ e # rest) (length line) b out"
      using 3 Cons.prems(1) by auto
    ultimately show ?thesis using Cons.IH [OF _ Cons.prems(2-4), of out] by (simp only:)
  qed
qed

text \<open>
  \<^verbatim>\<open>readline\<close> returns the line as it was edited: printable characters in their order, without those taken back by a
  backspace, terminated by a zero, at most 1023 of them, and no byte outside the buffer of 1024 is written.
\<close>

theorem readline_correct:
  assumes "\<forall>c \<in> set cs. 0 \<le> c \<and> c \<noteq> 10 \<and> c \<noteq> 13" "e = 10 \<or> e = 13"
  shows "\<exists>b' out. readline echoing (cs @ e # rest) b = Some (length (edit cs []), b', out) \<and> length (edit cs []) \<le> 1023 \<and>
    (\<forall>i < length (edit cs []). b' i = edit cs [] ! i) \<and> b' (length (edit cs [])) = 0 \<and> (\<forall>i > 1023. b' i = b i)"
  using readline_loop_edit [OF assms, of "[]" b echoing rest "[]"] edit_length [of "[]" cs] by (auto simp: readline_def)

theorem readline_correct_witness:
  "\<exists>b out. readline True [97, 98, 8, 99, 13] (\<lambda>_. 7) = Some (2, b, out) \<and> b 0 = 97 \<and> b 1 = 99 \<and> b 2 = 0"
  using readline_correct [of "[97, 98, 8, 99]" 13 True "[]" "\<lambda>_. 7"] by (auto simp: All_less_Suc2 numeral_2_eq_2)

section \<open>The command that is run\<close>

lemma find_command_eq:
  assumes "cstring m arg w" "list_all2 (cstring m) names ws"
  shows "find_command arg names i m =
    Some (case filter (\<lambda>j. ws ! j = w) [0..<length ws] of [] \<Rightarrow> CMD_INVALID | j # _ \<Rightarrow> Command_index (i + j))"
  using assms(2)
proof (induction names ws arbitrary: i rule: list_all2_induct)
  case (Cons name names v ws)
  obtain r where r: "strcmp m arg name = Some r" "r = 0 \<longleftrightarrow> w = v" using strcmp_zero [OF assms(1) Cons(1)] by blast
  have f: "filter (\<lambda>j. (v # ws) ! j = w) [0..<length (v # ws)] =
      (if v = w then [0] else []) @ map Suc (filter (\<lambda>j. ws ! j = w) [0..<length ws])"
    by (simp add: upt_conv_Cons map_Suc_upt [symmetric] filter_map o_def del: upt_Suc)
  show ?case using r Cons(3) [of "Suc i"] unfolding f by (auto split: list.splits)
qed simp

text \<open>
  \<^verbatim>\<open>execute_command\<close> runs the command whose name is the first word of the line, the first such one in the table, with
  the words of the line as its arguments, however many there are; a line without words does nothing, and a first word that
  is no name is reported as unknown. The names must lie outside the line, which is overwritten while it is split.
\<close>

theorem execute_command_correct:
  assumes line: "cstring m p xs"
    and names: "list_all2 (cstring m) names ws" "\<forall>(a, w) \<in> set (zip names ws). a + length w < p \<or> p + length xs \<le> a"
  shows "case toks WHITESPACE xs of
      [] \<Rightarrow> execute_command names p m = Some (Inr Nothing_to_do)
    | t # ts \<Rightarrow> \<exists>args m'. length args = min 15 (length (t # ts)) \<and> (\<forall>i < length args. cstring m' (args ! i) ((t # ts) ! i)) \<and>
        execute_command names p m = Some (Inr (case filter (\<lambda>j. ws ! j = t) [0..<length ws] of
            [] \<Rightarrow> Unknown_command (hd args) | j # _ \<Rightarrow> Run j args m'))"
proof -
  obtain argv m' where s: "strsplit WHITESPACE p m = Some (length (toks WHITESPACE xs) \<le> 15, argv, m')"
      "length argv = min 15 (length (toks WHITESPACE xs))" "\<forall>i < length argv. cstring m' (argv ! i) (toks WHITESPACE xs ! i)"
      "\<forall>x. x < p \<or> p + length xs \<le> x \<longrightarrow> m' x = m x"
    using strsplit_splits [OF line, of WHITESPACE] by blast
  show ?thesis
  proof (cases "toks WHITESPACE xs")
    case Nil
    then show ?thesis using s by (simp add: execute_command_def)
  next
    case (Cons t ts)
    then obtain a as where a: "argv = a # as" using s(2) by (cases argv) auto
    then have t: "cstring m' a t" using s(3) Cons by auto
    have "list_all2 (cstring m') names ws"
      unfolding list_all2_conv_all_nth
    proof (intro conjI allI impI)
      show l: "length names = length ws" using names(1) by (rule list_all2_lengthD)
      fix i assume i: "i < length names"
      have "names ! i + length (ws ! i) < p \<or> p + length xs \<le> names ! i"
        using names(2) i l by (auto simp: set_zip)
      then show "cstring m' (names ! i) (ws ! i)" using list_all2_nthD [OF names(1) i] s(4) by (auto elim!: cstring_cong)
    qed
    note f = find_command_eq [OF t this, of 0]
    have e: "execute_command names p m = Some (Inr (case filter (\<lambda>j. ws ! j = t) [0..<length ws] of
        [] \<Rightarrow> Unknown_command (hd argv) | j # _ \<Rightarrow> Run j argv m'))"
      unfolding execute_command_def s(1) by (simp add: a process_command_def f split: list.split)
    show ?thesis unfolding Cons list.case by (rule exI [of _ argv], rule exI [of _ m']) (use s e Cons in simp)
  qed
qed

definition sample_memory :: memory where
  "sample_memory = fill 10 2 (\<lambda>i. [108, 115] ! i) (fill 20 3 (\<lambda>i. [114, 117, 110] ! i) (fill 100 5 (\<lambda>i. [114, 117, 110, 32, 120] ! i) (\<lambda>_. 0)))"

theorem execute_command_correct_witness:
  "\<exists>args m'. execute_command [10, 20] 100 sample_memory = Some (Inr (Run 1 args m')) \<and> length args = 2 \<and>
     cstring m' (args ! 0) [114, 117, 110] \<and> cstring m' (args ! 1) [120]"
proof -
  let ?xs = "[114, 117, 110, 32, 120] :: byte list" and ?ws = "[[108, 115], [114, 117, 110]] :: byte list list"
  have l: "cstring sample_memory 100 ?xs" and n: "list_all2 (cstring sample_memory) [10, 20] ?ws"
    by (auto simp: cstring_def sample_memory_def fill_def nth_Cons')
  have t: "toks WHITESPACE ?xs = [[114, 117, 110], [120]]" by (simp add: toks.simps WHITESPACE_def)
  have f: "filter (\<lambda>j. ?ws ! j = [114, 117, 110]) [0..<length ?ws] = [1]" by (simp add: upt_rec)
  show ?thesis using execute_command_correct [OF l n] unfolding t by (auto simp: f All_less_Suc2 numeral_2_eq_2)
qed

end
