(* ===== verification/Program_Loading.thy ===== *)
theory Program_Loading
  imports Working_Set C_Strings
begin

text \<open>
  Loading a program (\<^verbatim>\<open>env_create\<close> and its helpers in \<^verbatim>\<open>src/kern/proc/user_environment.c\<close>): the walk over the program
  headers, the new page directory and kernel stack, the pages that are loaded into memory and the pages that are written to
  the page file. The entry of the table of environments (its number, status and place in the free list) is the subject of
  theory \<open>Environments\<close>. The contents of a page are the number that its 4096 bytes make, the lowest byte first.
\<close>

unbundle bit_operations_syntax

section \<open>Program headers\<close>

record Proghdr =
  p_type :: nat
  p_offset :: nat
  p_va :: nat
  p_filesz :: nat
  p_memsz :: nat

text \<open>A program in memory: its header, the table of program headers and its address.\<close>

record Elf =
  e_magic :: nat
  e_entry :: nat
  e_phnum :: nat
  ph :: "nat \<Rightarrow> Proghdr"
  ptr_program_start :: nat

record ProgramSegment =
  ptr_start :: nat
  size_in_file :: nat
  size_in_memory :: nat
  seg_va :: nat
  segment_id :: nat

abbreviation ELF_MAGIC :: nat where "ELF_MAGIC \<equiv> 0x464C457F"
abbreviation ELF_PROG_LOAD :: nat where "ELF_PROG_LOAD \<equiv> 1"

text \<open>The loop that passes over headers of other types.\<close>

function skip_headers :: "Elf \<Rightarrow> nat \<Rightarrow> nat" where
  "skip_headers elf i = (if p_type (ph elf i) \<noteq> ELF_PROG_LOAD \<and> i < e_phnum elf then skip_headers elf (Suc i) else i)"
  by auto
termination by (relation "measure (\<lambda>(elf, i). e_phnum elf - i)") auto

declare skip_headers.simps [simp del]

definition segment_of :: "Elf \<Rightarrow> nat \<Rightarrow> ProgramSegment" where
  "segment_of elf i =
     \<lparr>ptr_start = add32 (ptr_program_start elf) (p_offset (ph elf i)), size_in_file = p_filesz (ph elf i),
      size_in_memory = p_memsz (ph elf i), seg_va = p_va (ph elf i), segment_id = i\<rparr>"

text \<open>\<open>None\<close> stands for the number -1 of the first segment and for the null pointer of the next one.\<close>

definition PROGRAM_SEGMENT_FIRST :: "Elf \<Rightarrow> ProgramSegment option result" where
  "PROGRAM_SEGMENT_FIRST elf =
     (if e_magic elf \<noteq> ELF_MAGIC then Inl (Panic ''Matafa2nash 3ala Keda'')
      else (let i = skip_headers elf 0 in Inr (if i < e_phnum elf then Some (segment_of elf i) else None)))"

definition PROGRAM_SEGMENT_NEXT :: "ProgramSegment \<Rightarrow> Elf \<Rightarrow> ProgramSegment option result" where
  "PROGRAM_SEGMENT_NEXT seg elf =
     (if e_magic elf \<noteq> ELF_MAGIC then Inl (Panic ''Matafa2nash 3ala Keda'')
      else
        (let i = skip_headers elf (Suc (segment_id seg))
         in Inr (if i < e_phnum elf then Some (segment_of elf i) else None)))"

section \<open>State\<close>

text \<open>The contents of a page from its bytes, and a byte of a page.\<close>

definition page_value :: "(nat \<Rightarrow> nat) \<Rightarrow> nat" where
  "page_value f = (\<Sum>i < PAGE_SIZE. f i * 256 ^ i)"

definition byte_of :: "nat \<Rightarrow> nat \<Rightarrow> nat" where
  "byte_of d i = d div 256 ^ i mod 256"

text \<open>The machine with the fields of \<^verbatim>\<open>struct Env\<close> that loading sets; \<open>image\<close> are the bytes of the kernel's memory.\<close>

record loader =
  lv :: vm
  image :: "nat \<Rightarrow> nat"
  env_lock :: bool
  prog_name :: string
  env_cr3 :: nat
  kstack :: nat
  ActiveListSize :: int
  SecondListSize :: int
  percentage_of_WS_pages_to_be_removed :: nat
  table_ws :: "nat list"       \<comment> \<open>the entries of \<^verbatim>\<open>__ptr_tws\<close> up to \<^verbatim>\<open>table_last_WS_index\<close>\<close>
  tf_eip :: nat
  tf_esp :: nat
  prepagedVAs :: "nat list"

definition in_vm :: "(vm \<Rightarrow> vm result) \<Rightarrow> loader \<Rightarrow> loader result" where
  "in_vm f s = andThen (f (lv s)) (\<lambda>v. Inr (s\<lparr>lv := v\<rparr>))"

section \<open>Directory and kernel stack\<close>

abbreviation KERNEL_STACK_SIZE :: nat where "KERNEL_STACK_SIZE \<equiv> 32768"
abbreviation VPT :: nat where "VPT \<equiv> 0xEFC00000"
abbreviation UVPT :: nat where "UVPT \<equiv> 0xEF400000"

definition create_user_directory :: "loader \<Rightarrow> (nat \<times> loader) result" where
  "create_user_directory s =
     andThen (kmalloc PAGE_SIZE (km (lv s))) (\<lambda>(p, k).
     if p = 0 then Inl (Panic ''NOT ENOUGH KERNEL HEAP SPACE'') else Inr (p, s\<lparr>lv := (lv s)\<lparr>km := k\<rparr>\<rparr>))"

text \<open>The lowest page of the stack is made inaccessible in the table that maps it.\<close>

definition create_user_kern_stack :: "nat \<Rightarrow> loader \<Rightarrow> (nat \<times> loader) result" where
  "create_user_kern_stack dir s =
     andThen (lock_acquire (env_lock s)) (\<lambda>h.
     andThen (kmalloc KERNEL_STACK_SIZE (km (lv s))) (\<lambda>(p, k).
     if p = 0 then Inl (Panic ''No memory in heap for styack'')
     else
       andThen (get_page_table dir p k) (\<lambda>(_, t).
       (let k = (if t \<noteq> 0 then set_entry t (PTX p) (tables k t (PTX p) AND NOT PERM_PRESENT) k else k) in
        andThen (lock_release h) (\<lambda>h.
        Inr (p, s\<lparr>lv := (lv s)\<lparr>km := k\<rparr>, env_lock := h\<rparr>))))))"

definition delete_user_kern_stack :: "loader \<Rightarrow> loader result" where
  "delete_user_kern_stack s = Inl (Panic ''delete_user_kern_stack() is not implemented yet...!!'')"

text \<open>The kernel part of the directory is the kernel's; the user part is empty.\<close>

definition kernel_part :: "nat \<Rightarrow> kmem \<Rightarrow> nat \<Rightarrow> u32" where
  "kernel_part dir k i =
     (if i < PDX USER_TOP then 0 else if i < 1024 then directories k (ptr_page_directory k) i else directories k dir i)"

definition initialize_environment :: "nat \<Rightarrow> nat \<Rightarrow> loader \<Rightarrow> loader result" where
  "initialize_environment dir pa s =
     (let k = km (lv s);
          k = k\<lparr>directories := (directories k)(dir := kernel_part dir k)\<rparr>;
          s = s\<lparr>lv := upd_up (\<lambda>u. u\<lparr>env_page_directory := dir\<rparr>) ((lv s)\<lparr>km := k\<rparr>), env_cr3 := pa\<rparr>
      in andThen (create_user_kern_stack dir s) (\<lambda>(p, s).
         (let v = upd_up (\<lambda>u. u\<lparr>page_WS_list := [], referenceStreamList := [], pageFaultsCounter := 0, tableFaultsCounter := 0,
                    nPageIn := 0, nPageOut := 0, nNewPageAdded := 0, disk_env_pgdir := 0, disk_env_tabledir := 0\<rparr>) (lv s);
              k = set_dir_entry dir (PDX VPT) (CONSTRUCT_ENTRY pa (PERM_PRESENT OR PERM_WRITEABLE)) (km v);
              k = set_dir_entry dir (PDX UVPT) (CONSTRUCT_ENTRY pa (PERM_PRESENT OR PERM_USER)) k
          in Inr (s\<lparr>lv := v\<lparr>km := k\<rparr>, kstack := p, table_ws := [], tf_esp := USTACKTOP\<rparr>))))"

definition set_environment_entry_point :: "Elf \<Rightarrow> loader \<Rightarrow> loader result" where
  "set_environment_entry_point elf s =
     (if e_magic elf \<noteq> ELF_MAGIC then Inl (Panic ''Matafa2nash 3ala Keda'') else Inr (s\<lparr>tf_eip := e_entry elf\<rparr>))"

section \<open>Pages loaded into memory\<close>

abbreviation TWS_MAX_SIZE :: nat where "TWS_MAX_SIZE \<equiv> 50"

definition append_element :: "wse \<Rightarrow> loader \<Rightarrow> loader result" where
  "append_element w s =
     andThen (list_insert_tail w (WS (lv s))) (\<lambda>l. Inr (s\<lparr>lv := upd_up (\<lambda>u. u\<lparr>page_WS_list := l\<rparr>) (lv s)\<rparr>))"

text \<open>With the LRU lists the element moves to one of the two lists; \<open>room\<close> is what may be in the first.\<close>

definition to_lru_lists :: "wse \<Rightarrow> int \<Rightarrow> loader \<Rightarrow> loader result" where
  "to_lru_lists w room s =
     (if PageRepAlgoType (lv s) = PG_REP_LRU_LISTS_APPROX then
        andThen (list_remove w (WS (lv s))) (\<lambda>l.
        (let v = upd_up (\<lambda>u. u\<lparr>page_WS_list := l\<rparr>) (lv s) in
         if int (length (ActiveList (up v))) < room
         then andThen (list_insert_head w (ActiveList (up v))) (\<lambda>a. Inr (s\<lparr>lv := upd_up (\<lambda>u. u\<lparr>ActiveList := a\<rparr>) v\<rparr>))
         else andThen (list_insert_head w (SecondList (up v))) (\<lambda>a. Inr (s\<lparr>lv := upd_up (\<lambda>u. u\<lparr>SecondList := a\<rparr>) v\<rparr>))))
      else Inr s)"

definition reset_hand :: "loader \<Rightarrow> loader" where
  "reset_hand s =
     s\<lparr>lv := upd_up (\<lambda>u. u\<lparr>page_last_WS_element :=
        if length (page_WS_list u) = page_WS_max_size u then ws_first (page_WS_list u) else 0\<rparr>) (lv s)\<rparr>"

definition add_table :: "nat \<Rightarrow> loader \<Rightarrow> loader result" where
  "add_table va s =
     (let s = s\<lparr>table_ws := table_ws s @ [ROUNDDOWN va (PAGE_SIZE * 1024)]\<rparr> in
      if length (table_ws s) mod TWS_MAX_SIZE = 0
      then Inl (Panic ''env_create: Table working set become FULL during the application loading.'')
      else Inr s)"

definition map_new_page :: "nat \<Rightarrow> loader \<Rightarrow> loader result" where
  "map_new_page va s =
     andThen (allocate_frame (km (lv s))) (\<lambda>(f, k).
     andThen (loadtime_map_frame create_page_table (upgdir (lv s)) f va (PERM_USER OR PERM_WRITEABLE) k) (\<lambda>k.
     Inr (s\<lparr>lv := (lv s)\<lparr>km := k\<rparr>\<rparr>)))"

text \<open>The loop over the pages of a segment, while there is room; the count of pages and the last directory index are threaded through.\<close>

fun load_ws_loop :: "nat \<Rightarrow> nat \<Rightarrow> nat \<Rightarrow> nat \<Rightarrow> nat \<Rightarrow> loader \<Rightarrow> (nat \<times> nat \<times> loader) result" where
  "load_ws_loop 0 iVA end_vaddr got lastTable s = Inr (got, lastTable, s)"
| "load_ws_loop (Suc n) iVA end_vaddr got lastTable s =
     (if iVA < end_vaddr then
        andThen (map_new_page iVA s) (\<lambda>s.
        andThen (env_page_ws_list_create_element iVA (lv s)) (\<lambda>(w, v).
        andThen (append_element w (s\<lparr>lv := v\<rparr>)) (\<lambda>s.
        andThen (to_lru_lists w (ActiveListSize s - 1) s) (\<lambda>s.
        (let s = reset_hand s in
         andThen (if PDX iVA \<noteq> lastTable then andThen (add_table iVA s) (\<lambda>s. Inr (PDX iVA, s)) else Inr (lastTable, s)) (\<lambda>(lastTable, s).
         load_ws_loop n (add32 iVA PAGE_SIZE) end_vaddr (Suc got) lastTable s))))))
      else Inr (got, lastTable, s))"

text \<open>The bytes of the page at \<open>page\<close>: those below the segment keep what the frame had, those past the file are zero.\<close>

definition loaded_page :: "ProgramSegment \<Rightarrow> (nat \<Rightarrow> nat) \<Rightarrow> nat \<Rightarrow> nat \<Rightarrow> nat" where
  "loaded_page seg img page old =
     page_value (\<lambda>i. if page + i < seg_va seg then byte_of old i
                   else if page + i < add32 (seg_va seg) (size_in_file seg) then img (ptr_start seg + (page + i - seg_va seg))
                   else 0)"

fun copy_loop :: "nat \<Rightarrow> nat \<Rightarrow> ProgramSegment \<Rightarrow> loader \<Rightarrow> loader result" where
  "copy_loop 0 page seg s = Inr s"
| "copy_loop (Suc n) page seg s =
     andThen (frame_at page (lv s)) (\<lambda>f.
     (let v = lv s; v = v\<lparr>frame_data := (frame_data v)(f := loaded_page seg (image s) page (frame_data v f))\<rparr>
      in copy_loop n (add32 page PAGE_SIZE) seg (s\<lparr>lv := v\<rparr>)))"

definition limited_programs :: "string list" where
  "limited_programs = [''tpp'', ''tia'', ''tia_slave1'', ''tia_slave2'', ''tia_slave3'', ''tia_slave4'']"

definition program_segment_alloc_map_copy_workingset ::
    "ProgramSegment \<Rightarrow> nat \<Rightarrow> nat \<Rightarrow> loader \<Rightarrow> (nat \<times> nat \<times> loader) result" where
  "program_segment_alloc_map_copy_workingset seg remaining lastTable s =
     (let end_vaddr = ROUNDUP (add32 (seg_va seg) (size_in_memory seg)) PAGE_SIZE;
          iVA = ROUNDDOWN (seg_va seg) PAGE_SIZE;
          remaining = (if iVA = 0x200000 then 0 else remaining);
          remaining = (if iVA = 0x803000 \<and> prog_name s \<in> set limited_programs then min remaining 9 else remaining)
      in andThen (load_ws_loop remaining iVA end_vaddr 0 lastTable s) (\<lambda>(got, lastTable, s).
         andThen (copy_loop got iVA seg s) (\<lambda>s. Inr (got, lastTable, s))))"

section \<open>Pages written to the page file\<close>

text \<open>The pages of a segment that are written, in the order in which they are, with their contents.\<close>

definition first_page :: "ProgramSegment \<Rightarrow> (nat \<Rightarrow> nat) \<Rightarrow> (nat \<times> nat) list" where
  "first_page seg img =
     (let start = ROUNDDOWN (seg_va seg) PAGE_SIZE; off = sub32 (seg_va seg) start in
      if off \<noteq> 0 then [(start, page_value (\<lambda>i. if i < off then 0 else img (ptr_start seg + (i - off))))] else [])"

text \<open>The address in the program of what follows the first page.\<close>

definition second_source :: "ProgramSegment \<Rightarrow> nat" where
  "second_source seg = ptr_start seg + sub32 (ROUNDUP (seg_va seg) PAGE_SIZE) (seg_va seg)"

definition start_last_page :: "ProgramSegment \<Rightarrow> nat" where
  "start_last_page seg = ROUNDDOWN (add32 (seg_va seg) (size_in_file seg)) PAGE_SIZE"

definition middle_count :: "ProgramSegment \<Rightarrow> nat" where
  "middle_count seg = (start_last_page seg - ROUNDUP (seg_va seg) PAGE_SIZE) div PAGE_SIZE"

definition middle_pages :: "ProgramSegment \<Rightarrow> (nat \<Rightarrow> nat) \<Rightarrow> (nat \<times> nat) list" where
  "middle_pages seg img =
     map (\<lambda>j. (ROUNDUP (seg_va seg) PAGE_SIZE + j * PAGE_SIZE, page_value (\<lambda>i. img (second_source seg + j * PAGE_SIZE + i)))) [0..<middle_count seg]"

definition last_page :: "ProgramSegment \<Rightarrow> (nat \<Rightarrow> nat) \<Rightarrow> (nat \<times> nat) list" where
  "last_page seg img =
     (let src = second_source seg + middle_count seg * PAGE_SIZE in
      [(start_last_page seg,
        page_value (\<lambda>i. if start_last_page seg + i < add32 (seg_va seg) (size_in_file seg) then img (src + i) else 0))])"

definition empty_pages :: "ProgramSegment \<Rightarrow> nat list" where
  "empty_pages seg =
     (let start = ROUNDUP (add32 (seg_va seg) (size_in_file seg)) PAGE_SIZE;
          remainingLength = sub32 (add32 (seg_va seg) (size_in_memory seg)) start
      in map (\<lambda>j. add32 start (j * PAGE_SIZE)) [0..<ROUNDUP remainingLength PAGE_SIZE div PAGE_SIZE])"

definition written_pages :: "ProgramSegment \<Rightarrow> (nat \<Rightarrow> nat) \<Rightarrow> (nat \<times> nat) list" where
  "written_pages seg img = first_page seg img @ middle_pages seg img @ last_page seg img"

definition out_of_space :: failure where
  "out_of_space = Panic ''ERROR: Page File OUT OF SPACE. can't load the program in Page file!!''"

fun write_pages :: "(nat \<times> nat) list \<Rightarrow> loader \<Rightarrow> loader result" where
  "write_pages [] s = Inr s"
| "write_pages ((va, d) # ws) s =
     andThen (pf_add_env_page va d (lv s)) (\<lambda>(ret, v).
     if ret = E_NO_PAGE_FILE_SPACE then Inl out_of_space else write_pages ws (s\<lparr>lv := v\<rparr>))"

fun write_empty_pages :: "nat list \<Rightarrow> loader \<Rightarrow> loader result" where
  "write_empty_pages [] s = Inr s"
| "write_empty_pages (va # vas) s =
     andThen (pf_add_empty_env_page va True (lv s)) (\<lambda>(ret, v).
     if ret = E_NO_PAGE_FILE_SPACE then Inl out_of_space else write_empty_pages vas (s\<lparr>lv := v\<rparr>))"

section \<open>The whole program\<close>

definition load_segment :: "ProgramSegment \<Rightarrow> nat \<Rightarrow> nat \<Rightarrow> loader \<Rightarrow> (nat \<times> nat \<times> loader) result" where
  "load_segment seg remaining lastTable s =
     andThen (program_segment_alloc_map_copy_workingset seg remaining lastTable s) (\<lambda>(got, lastTable, s).
     andThen (write_pages (written_pages seg (image s)) s) (\<lambda>s.
     andThen (write_empty_pages (empty_pages seg) s) (\<lambda>s.
     Inr (sub32 remaining got, lastTable, s))))"

text \<open>The loop \<^verbatim>\<open>PROGRAM_SEGMENT_FOREACH\<close>; a program has at most \<^verbatim>\<open>e_phnum\<close> segments, which is the bound \<open>n\<close> of the caller.\<close>

fun load_segments :: "nat \<Rightarrow> Elf \<Rightarrow> ProgramSegment option \<Rightarrow> nat \<Rightarrow> nat \<Rightarrow> loader \<Rightarrow> loader result" where
  "load_segments n elf None remaining lastTable s = Inr s"
| "load_segments 0 elf (Some seg) remaining lastTable s = Inl Spins"
| "load_segments (Suc n) elf (Some seg) remaining lastTable s =
     andThen (load_segment seg remaining lastTable s) (\<lambda>(remaining, lastTable, s).
     andThen (PROGRAM_SEGMENT_NEXT seg elf) (\<lambda>seg. load_segments n elf seg remaining lastTable s))"

fun clear_modified_loop :: "wse list \<Rightarrow> loader \<Rightarrow> loader result" where
  "clear_modified_loop [] s = Inr s"
| "clear_modified_loop (w # ws) s =
     andThen (get_page_table (upgdir (lv s)) (virtual_address w) (km (lv s))) (\<lambda>(_, t).
     if t = 0 then Inl (Cpu_trap ''ptr_page_table[PTX(virtual_address)]'')
     else
       (let i = PTX (virtual_address w); v = lv s
        in clear_modified_loop ws (s\<lparr>lv := v\<lparr>km := set_entry t i (tables (km v) t i AND NOT PERM_MODIFIED) (km v)\<rparr>\<rparr>)))"

text \<open>One page of stack, full of zeros, at the top of the user's memory.\<close>

definition load_stack :: "loader \<Rightarrow> loader result" where
  "load_stack s =
     (let va = USTACKTOP - PAGE_SIZE; s = s\<lparr>lv := upd_up (\<lambda>u. u\<lparr>initNumStackPages := 1\<rparr>) (lv s)\<rparr> in
      andThen (map_new_page va s) (\<lambda>s.
      andThen (frame_at va (lv s)) (\<lambda>f.
      (let s = s\<lparr>lv := (lv s)\<lparr>frame_data := (frame_data (lv s))(f := ZERO_PAGE)\<rparr>\<rparr> in
       andThen (env_page_ws_list_create_element va (lv s)) (\<lambda>(w, v).
       andThen (append_element w (s\<lparr>lv := v\<rparr>)) (\<lambda>s.
       andThen (to_lru_lists w (ActiveListSize s) (reset_hand s)) (\<lambda>s.
       andThen (pf_add_empty_env_page va True (lv s)) (\<lambda>(_, v). Inr (s\<lparr>lv := v\<rparr>)))))))))"

fun hide_second_loop :: "wse list \<Rightarrow> loader \<Rightarrow> loader result" where
  "hide_second_loop [] s = Inr s"
| "hide_second_loop (w # ws) s =
     andThen (in_vm (in_mem (pt_set_page_permissions (upgdir (lv s)) (virtual_address w) 0 PERM_PRESENT)) s) (hide_second_loop ws)"

text \<open>
  \<^verbatim>\<open>env_create\<close> from the page directory on, with interrupts disabled; \<open>program\<close> is the name in the table of programs.
\<close>

definition load_program :: "string \<Rightarrow> Elf \<Rightarrow> nat \<Rightarrow> nat \<Rightarrow> nat \<Rightarrow> loader \<Rightarrow> loader result" where
  "load_program program elf page_WS_size LRU_second_list_size percent s =
     (let s = s\<lparr>prog_name := take 63 program\<rparr> in
      andThen (create_user_directory s) (\<lambda>(dir, s).
      andThen (kheap_physical_address dir (km (lv s))) (\<lambda>pa.
      (let s = s\<lparr>lv := upd_up (\<lambda>u. u\<lparr>page_WS_max_size := page_WS_size\<rparr>) (lv s)\<rparr>;
           s = (if PageRepAlgoType (lv s) = PG_REP_LRU_LISTS_APPROX
                then s\<lparr>SecondListSize := int32 (int LRU_second_list_size),
                       ActiveListSize := int32 (int (sub32 page_WS_size LRU_second_list_size))\<rparr> else s);
           s = s\<lparr>percentage_of_WS_pages_to_be_removed := if percent = 0 then 10 else percent\<rparr>
       in andThen (initialize_environment dir pa s) (\<lambda>s.
          andThen (PROGRAM_SEGMENT_FIRST elf) (\<lambda>seg.
          andThen (load_segments (e_phnum elf) elf seg (sub32 (page_WS_max_size (up (lv s))) 1) 0xFFFFFFFF s) (\<lambda>s.
          andThen (clear_modified_loop (WS (lv s)) s) (\<lambda>s.
          andThen (set_environment_entry_point elf s) (\<lambda>s.
          andThen (load_stack s) (\<lambda>s.
          andThen (if PageRepAlgoType (lv s) = PG_REP_LRU_LISTS_APPROX then hide_second_loop (SecondList (up (lv s))) s else Inr s) (\<lambda>s.
          andThen (kmalloc (mul32 4 (length (WS (lv s)))) (km (lv s))) (\<lambda>(p, k).
          if p = 0 \<and> WS (lv s) \<noteq> [] then Inl (Cpu_trap ''e->prepagedVAs[w++]'')
          else Inr (s\<lparr>lv := (lv s)\<lparr>km := k\<rparr>, prepagedVAs := map virtual_address (WS (lv s))\<rparr>)))))))))))))"

section \<open>The walk over the headers\<close>

definition loadable :: "Elf \<Rightarrow> nat \<Rightarrow> nat list" where
  "loadable elf i = filter (\<lambda>k. p_type (ph elf k) = ELF_PROG_LOAD) [i..<e_phnum elf]"

lemma loadable_skip:
  "loadable elf i = (let j = skip_headers elf i in if j < e_phnum elf then j # loadable elf (Suc j) else [])"
proof (induction elf i rule: skip_headers.induct)
  case (1 elf i)
  show ?case
  proof (cases "i < e_phnum elf")
    case True
    then have u: "[i..<e_phnum elf] = i # [Suc i..<e_phnum elf]" by (rule upt_conv_Cons)
    show ?thesis
    proof (cases "p_type (ph elf i) = ELF_PROG_LOAD")
      case l: True
      then have "skip_headers elf i = i" by (subst skip_headers.simps) simp
      then show ?thesis using True l u by (simp add: loadable_def)
    next
      case False
      then have "skip_headers elf i = skip_headers elf (Suc i)" using True by (subst skip_headers.simps) simp
      moreover have "loadable elf i = loadable elf (Suc i)" using False u by (simp add: loadable_def)
      ultimately show ?thesis using 1 False True by simp
    qed
  next
    case False
    then show ?thesis by (subst skip_headers.simps) (simp add: loadable_def)
  qed
qed

text \<open>The segments in a list, loaded one after the other.\<close>

fun load_all :: "ProgramSegment list \<Rightarrow> nat \<Rightarrow> nat \<Rightarrow> loader \<Rightarrow> loader result" where
  "load_all [] remaining lastTable s = Inr s"
| "load_all (seg # segs) remaining lastTable s =
     andThen (load_segment seg remaining lastTable s) (\<lambda>(remaining, lastTable, s). load_all segs remaining lastTable s)"

lemma load_segments_all:
  assumes m: "e_magic elf = ELF_MAGIC" and "seg = (case loadable elf i of [] \<Rightarrow> None | j # _ \<Rightarrow> Some (segment_of elf j))"
    "length (loadable elf i) \<le> n"
  shows "load_segments n elf seg remaining lastTable s = load_all (map (segment_of elf) (loadable elf i)) remaining lastTable s"
  using assms(2,3)
proof (induction n arbitrary: seg i remaining lastTable s)
  case 0
  then show ?case by simp
next
  case (Suc n)
  show ?case
  proof (cases "loadable elf i")
    case Nil
    then show ?thesis using Suc.prems by simp
  next
    case (Cons j js)
    have js: "js = loadable elf (Suc j)" using Cons loadable_skip [of elf i] by (auto simp: Let_def split: if_splits)
    have nx: "PROGRAM_SEGMENT_NEXT (segment_of elf j) elf = Inr (case js of [] \<Rightarrow> None | k # _ \<Rightarrow> Some (segment_of elf k))"
      using m js loadable_skip [of elf "Suc j"] by (simp add: PROGRAM_SEGMENT_NEXT_def segment_of_def Let_def)
    have ih: "load_segments n elf (case js of [] \<Rightarrow> None | k # _ \<Rightarrow> Some (segment_of elf k)) r l t = load_all (map (segment_of elf) js) r l t" for r l t
      using Suc.IH [of _ "Suc j"] Suc.prems(2) Cons js by simp
    show ?thesis using Suc.prems Cons nx ih by simp
  qed
qed

text \<open>
  The walk over the program headers ends and loads exactly the segments of the loadable headers, each once and in the
  order of the table; a program without the magic number is refused with a panic.
\<close>

theorem program_segments_loaded:
  "andThen (PROGRAM_SEGMENT_FIRST elf) (\<lambda>seg. load_segments (e_phnum elf) elf seg remaining lastTable s) =
     (if e_magic elf = ELF_MAGIC
      then load_all (map (segment_of elf) (filter (\<lambda>k. p_type (ph elf k) = ELF_PROG_LOAD) [0..<e_phnum elf])) remaining lastTable s
      else Inl (Panic ''Matafa2nash 3ala Keda''))"
proof (cases "e_magic elf = ELF_MAGIC")
  case True
  let ?seg = "case loadable elf 0 of [] \<Rightarrow> None | j # _ \<Rightarrow> Some (segment_of elf j)"
  have "PROGRAM_SEGMENT_FIRST elf = Inr ?seg"
    using True loadable_skip [of elf 0] by (simp add: PROGRAM_SEGMENT_FIRST_def Let_def)
  moreover have "length (loadable elf 0) \<le> e_phnum elf" using length_filter_le [of _ "[0..<e_phnum elf]"] by (simp add: loadable_def)
  ultimately show ?thesis using True load_segments_all [OF True refl, of 0 "e_phnum elf" remaining lastTable s]
    by (simp only: andThen_simps if_True simp_thms loadable_def)
qed (simp add: PROGRAM_SEGMENT_FIRST_def)

section \<open>The pages in the page file\<close>


lemma page_value_zero: "page_value (\<lambda>_. 0) = ZERO_PAGE"
  by (simp add: page_value_def ZERO_PAGE_def)

text \<open>What is in the page file after a sequence of writes: the last one counts.\<close>

definition final :: "(nat \<times> nat) list \<Rightarrow> nat \<Rightarrow> nat option" where
  "final ws = map_of (rev ws)"

lemma final_append: "final (xs @ ys) P = (case final ys P of None \<Rightarrow> final xs P | Some d \<Rightarrow> Some d)"
  by (simp add: final_def map_add_def split: option.split)

lemma final_Nil [simp]: "final [] P = None"
  by (simp add: final_def)

lemma final_one: "final [(a, d)] P = (if P = a then Some d else None)"
  by (simp add: final_def)

















text \<open>
  A segment that begins in the middle of a page and ends in the same page is written wrongly: the write of its last page
  overwrites the first one, with the bytes that follow in the program.
\<close>

lemma short_segment_overwritten:
  assumes "P = ROUNDDOWN (seg_va seg) 4096" "start_last_page seg = P" "ROUNDUP (seg_va seg) 4096 > P"
  shows "final (written_pages seg img) P =
    Some (page_value (\<lambda>i. if P + i < add32 (seg_va seg) (size_in_file seg) then img (second_source seg + i) else 0))"
  using assms by (simp add: written_pages_def last_page_def Let_def final_append final_one middle_count_def)

end
