(* ===== verification/System_Calls.thy ===== *)
theory System_Calls
  imports Shared_Memory Environments Program_Loading Console
begin

text \<open>
  The way from a user program into the kernel and back: the stubs of \<^verbatim>\<open>src/lib/syscall.c\<close>, \<^verbatim>\<open>trap\<close>,
  \<^verbatim>\<open>trap_dispatch\<close> and \<^verbatim>\<open>irq_dispatch\<close> of \<^verbatim>\<open>src/kern/trap/trap.c\<close>, the dispatcher and the
  remaining handlers of \<^verbatim>\<open>src/kern/trap/syscall.c\<close>, and \<^verbatim>\<open>env_create\<close> as it puts the table of
  environments, the memory and the loader together. The state of all components is one machine; a handler runs here from its
  start to its return or to the context switch, without an interrupt in between.
\<close>

section \<open>The machine\<close>

text \<open>The part of a \<^verbatim>\<open>struct Trapframe\<close> that is read or written; \<open>tf_IF\<close> is the interrupt flag in \<^verbatim>\<open>tf_eflags\<close>.\<close>

record trapframe =
  reg_eax :: nat
  reg_edx :: nat
  reg_ecx :: nat
  reg_ebx :: nat
  reg_edi :: nat
  reg_esi :: nat
  tf_trapno :: nat
  tf_eip :: nat
  tf_cs :: nat
  tf_IF :: bool

datatype irq_handler = Clock_interrupt_handler | Keyboard_interrupt_handler | Serial_interrupt_handler

text \<open>
  The kernel's memory is shared between the components: \<open>km\<close> inside \<open>mshm\<close> is the one copy of it, and \<open>kheap\<close> of the
  scheduler's state is a view of it. \<open>mshm\<close> has the memory of the running process, \<open>others\<close> that of the rest. Scan codes and
  serial bytes come in batches, one for each time the kernel looks or is interrupted.
\<close>

record machine =
  msched :: sched_st
  mshm :: shm
  others :: "nat \<Rightarrow> uproc"
  loaded :: "nat \<Rightarrow> loader"       \<comment> \<open>the fields of an environment that loading sets\<close>
  programs :: "string \<Rightarrow> Elf option"
  mcons :: console
  batches :: "(nat list \<times> nat list) list"
  umem :: memory                   \<comment> \<open>the bytes the running process sees\<close>
  tframes :: "nat \<Rightarrow> trapframe"
  env_tf :: "nat \<Rightarrow> nat"
  interrupts :: bool               \<comment> \<open>the interrupt flag of the processor\<close>
  clock_runs :: bool
  irq_handlers :: "nat \<Rightarrow> irq_handler option"
  eois :: "nat list"               \<comment> \<open>interrupts acknowledged to the controller\<close>
  bypassInstrLength :: nat
  rcr2 :: nat
  cpu_stack_at :: nat
  tsc :: "nat \<times> nat"              \<comment> \<open>the time stamp counter, high and low\<close>
  tstcnt :: nat
  tstcntlock :: bool

definition vm_of :: "machine \<Rightarrow> vm" where
  "vm_of m = sh_vm (mshm m)"

definition set_vm :: "vm \<Rightarrow> machine \<Rightarrow> machine" where
  "set_vm v m = m\<lparr>mshm := set_sh_vm v (mshm m)\<rparr>"

definition get_cpu_proc :: "machine \<Rightarrow> nat result" where
  "get_cpu_proc m = (case cpu_proc (msched m) of None \<Rightarrow> Inl (Panic ''cur_env != NULL'') | Some e \<Rightarrow> Inr e)"

definition cur_id :: "machine \<Rightarrow> int" where
  "cur_id m = (case cpu_proc (msched m) of None \<Rightarrow> 0 | Some e \<Rightarrow> env_id (envs (msched m) e))"

text \<open>Routines of a component, run on the machine.\<close>

definition with_sched :: "(sched_st \<Rightarrow> ('a \<times> sched_st) result) \<Rightarrow> machine \<Rightarrow> ('a \<times> machine) result" where
  "with_sched f m =
     andThen (f ((msched m)\<lparr>kheap := km (vm_of m)\<rparr>)) (\<lambda>(x, s).
     Inr (x, set_vm ((vm_of m)\<lparr>km := kheap s\<rparr>) (m\<lparr>msched := s\<rparr>)))"

definition with_shm :: "(shm \<Rightarrow> ('a \<times> shm) result) \<Rightarrow> machine \<Rightarrow> ('a \<times> machine) result" where
  "with_shm f m = andThen (f ((mshm m)\<lparr>cur_env_id := cur_id m\<rparr>)) (\<lambda>(x, s). Inr (x, m\<lparr>mshm := s\<rparr>))"

definition with_vm :: "(vm \<Rightarrow> ('a \<times> vm) result) \<Rightarrow> machine \<Rightarrow> ('a \<times> machine) result" where
  "with_vm f m = andThen (f (vm_of m)) (\<lambda>(x, v). Inr (x, set_vm v m))"

text \<open>A routine without a result answers 0.\<close>

definition unit_of :: "('s \<Rightarrow> 's result) \<Rightarrow> 's \<Rightarrow> (int \<times> 's) result" where
  "unit_of f s = andThen (f s) (\<lambda>s. Inr (0, s))"

text \<open>A handler answers the word to be returned, or \<open>None\<close> if it gave the processor away and does not come back.\<close>

type_synonym answer = "(nat option \<times> machine) result"

definition uint32 :: "int \<Rightarrow> nat" where
  "uint32 i = nat (i mod 2 ^ 32)"

definition returning :: "(int \<times> machine) result \<Rightarrow> answer" where
  "returning r = andThen r (\<lambda>(i, m). Inr (Some (uint32 i), m))"

text \<open>\<^verbatim>\<open>env_exit()\<close> in the middle of a handler, and the handler that consists of it.\<close>

definition sys_exit_env :: "machine \<Rightarrow> answer" where
  "sys_exit_env m = andThen (with_sched env_exit m) (\<lambda>(gone, m). Inr (if gone then None else Some 0, m))"

definition or_exit :: "machine \<Rightarrow> (int \<times> machine) result \<Rightarrow> answer" where
  "or_exit m r = (if r = Inl Env_exit then sys_exit_env m else returning r)"

section \<open>Console calls\<close>

definition bytes_of :: "string \<Rightarrow> byte list" where
  "bytes_of s = map (\<lambda>c. word_of_nat (of_char c)) s"

text \<open>The characters of a text of at most \<open>len\<close> bytes at \<open>p\<close>.\<close>

definition text_at :: "memory \<Rightarrow> nat \<Rightarrow> nat \<Rightarrow> byte list" where
  "text_at mem p len = takeWhile (\<lambda>b. b \<noteq> 0) (map (\<lambda>i. mem (p + i)) [0..<len])"

definition kprint :: "(32 word \<Rightarrow> byte list) \<Rightarrow> 32 word list \<Rightarrow> string \<Rightarrow> machine \<Rightarrow> machine result" where
  "kprint strs args fmt m =
     andThen (vcprintf_kernel strs (\<lambda>i. if i < length args then args ! i else 0) (bytes_of fmt) (mcons m)) (\<lambda>(_, c).
     Inr (m\<lparr>mcons := c\<rparr>))"

text \<open>The text is not checked to lie in memory that the caller may read.\<close>

definition sys_cputs :: "nat \<Rightarrow> nat \<Rightarrow> nat \<Rightarrow> int \<Rightarrow> machine \<Rightarrow> (int \<times> machine) result" where
  "sys_cputs s len printProg color m =
     andThen (get_cpu_proc m) (\<lambda>e.
     (let m = m\<lparr>mcons := (mcons m)\<lparr>current_text_color := color\<rparr>\<rparr> in
      andThen
        (if printProg \<noteq> 0
         then kprint (\<lambda>_. bytes_of (prog_name (loaded m e))) [1, word_of_int (env_id (envs (msched m) e))] ''[%s %d] '' m
         else Inr m) (\<lambda>m.
      andThen (kprint (\<lambda>_. text_at (umem m) s len) [word_of_nat len, word_of_nat s] ''%.*s'' m) (\<lambda>m.
      Inr (0, m\<lparr>mcons := (mcons m)\<lparr>current_text_color := TEXT_DEFAULT_CLR\<rparr>\<rparr>)))))"

definition sys_cputc :: "int \<Rightarrow> machine \<Rightarrow> (int \<times> machine) result" where
  "sys_cputc c m = unit_of (kprint (\<lambda>_. []) [word_of_int c] ''%c'') m"

text \<open>
  Waiting for a character: with interrupts enabled the interrupt handlers fill the buffer between two looks, otherwise each look
  polls the devices. The method of blocking is \<^verbatim>\<open>LCK_INT\<close>, so that the caller never sleeps.
\<close>

fun cgetc_loop :: "bool \<Rightarrow> (nat list \<times> nat list) list \<Rightarrow> console \<Rightarrow> (nat \<times> (nat list \<times> nat list) list \<times> console) result" where
  "cgetc_loop True bs s =
     (case cons_getc2 s of (c, s) \<Rightarrow>
        if c \<noteq> 0 then Inr (c, bs, s)
        else (case bs of
                [] \<Rightarrow> Inl Spins
              | b # bs \<Rightarrow> cgetc_loop True bs (keyboard_interrupt_handler (snd b) (serial_intr (fst b) s))))"
| "cgetc_loop False [] s = (case cons_getc [] [] s of (c, s) \<Rightarrow> if c \<noteq> 0 then Inr (c, [], s) else Inl Spins)"
| "cgetc_loop False (b # bs) s =
     (case cons_getc (fst b) (snd b) s of (c, s) \<Rightarrow> if c \<noteq> 0 then Inr (c, bs, s) else cgetc_loop False bs s)"

definition sys_cgetc :: "machine \<Rightarrow> (int \<times> machine) result" where
  "sys_cgetc m =
     andThen (cgetc_loop (interrupts m) (batches m) (mcons m)) (\<lambda>(c, bs, s).
     Inr (int c, m\<lparr>batches := bs, mcons := s\<rparr>))"

text \<open>The console is locked by interrupts (\<^verbatim>\<open>CONS_LCK_METHOD\<close> is \<^verbatim>\<open>LCK_INT\<close>): off until the caller unlocks it.\<close>

definition kclock_stop :: "machine \<Rightarrow> machine" where
  "kclock_stop m = m\<lparr>clock_runs := False\<rparr>"

definition kclock_resume :: "machine \<Rightarrow> machine" where
  "kclock_resume m = m\<lparr>clock_runs := True\<rparr>"

definition cons_set_IF :: "bool \<Rightarrow> string \<Rightarrow> machine \<Rightarrow> (int \<times> machine) result" where
  "cons_set_IF b msg m =
     (let m = (kclock_stop m)\<lparr>interrupts := False\<rparr> in
      case cpu_proc (msched m) of
        None \<Rightarrow> Inl (Panic msg)
      | Some p \<Rightarrow> Inr (0, m\<lparr>tframes := (tframes m)(env_tf m p := (tframes m (env_tf m p))\<lparr>tf_IF := b\<rparr>)\<rparr>))"

definition cons_lock :: "machine \<Rightarrow> (int \<times> machine) result" where
  "cons_lock m = cons_set_IF False ''cons_lock: no running process to block'' m"

definition cons_unlock :: "machine \<Rightarrow> (int \<times> machine) result" where
  "cons_unlock m = cons_set_IF True ''cons_unlock: no running process to block'' m"

section \<open>Environment calls\<close>

text \<open>The string at \<open>p\<close>, up to its terminating zero.\<close>

definition string_at :: "nat \<Rightarrow> machine \<Rightarrow> string result" where
  "string_at p m =
     (case strlen (umem m) p of
        None \<Rightarrow> Inl Spins
      | Some n \<Rightarrow> Inr (map (\<lambda>i. char_of (unat (umem m (p + i)))) [0..<n]))"

definition sys_getenvid :: "machine \<Rightarrow> (int \<times> machine) result" where
  "sys_getenvid m = andThen (get_cpu_proc m) (\<lambda>e. Inr (env_id (envs (msched m) e), m))"

definition sys_getenvindex :: "machine \<Rightarrow> (int \<times> machine) result" where
  "sys_getenvindex m = andThen (get_cpu_proc m) (\<lambda>e. Inr (int e, m))"

definition sys_getparentenvid :: "machine \<Rightarrow> (int \<times> machine) result" where
  "sys_getparentenvid m = andThen (get_cpu_proc m) (\<lambda>e. Inr (env_parent_id (envs (msched m) e), m))"

definition sys_destroy_env :: "int \<Rightarrow> machine \<Rightarrow> (int \<times> machine) result" where
  "sys_destroy_env envid m =
     andThen (get_cpu_proc m) (\<lambda>c.
     andThen (if envid = 0 then Inr (Some (Some c)) else envid2env envid False (msched m)) (\<lambda>r.
     (case r of
        None \<Rightarrow> Inr (E_BAD_ENV, m)
      | Some None \<Rightarrow> Inl (Cpu_trap ''e->env_id'')
      | Some (Some e) \<Rightarrow>
          (let cid = word_of_int (env_id (envs (msched m) c)); eid = env_id (envs (msched m) e) in
           andThen (if e = c then kprint (\<lambda>_. []) [cid] (''[%08x] exiting gracefully'' @ [CHR 0x0A]) m
                    else kprint (\<lambda>_. []) [cid, word_of_int eid] (''[%08x] destroying %08x'' @ [CHR 0x0A]) m) (\<lambda>m.
           with_sched (unit_of (sched_kill_env eid)) m)))))"

text \<open>
  \<^verbatim>\<open>env_create\<close>: the program is looked up, an entry of the table reserved, the program loaded into the memory of the new
  environment, and the entry taken off the free list.
\<close>

definition env_create :: "string \<Rightarrow> nat \<Rightarrow> nat \<Rightarrow> nat \<Rightarrow> machine \<Rightarrow> (nat option \<times> machine) result" where
  "env_create program page_WS_size LRU_second_list_size percent m =
     (case programs m program of
        None \<Rightarrow>
          andThen (kprint (\<lambda>_. bytes_of program) [1] (''Unknown user program '' @ [CHR 0x27] @ ''%s'' @ [CHR 0x27, CHR 0x0A]) m) (\<lambda>m.
          Inr (None, m))
      | Some elf \<Rightarrow>
          (case allocate_environment (msched m) of
             (None, s) \<Rightarrow> Inr (None, m\<lparr>msched := s\<rparr>)
           | (Some e, s) \<Rightarrow>
               andThen (load_program program elf page_WS_size LRU_second_list_size percent
                          ((loaded m e)\<lparr>lv := (vm_of m)\<lparr>up := others m e\<rparr>\<rparr>)) (\<lambda>l.
               andThen (complete_environment_initialization e s) (\<lambda>s.
               Inr (Some e, set_vm ((lv l)\<lparr>up := up (vm_of m)\<rparr>)
                      (m\<lparr>msched := s, others := (others m)(e := up (lv l)), loaded := (loaded m)(e := l)\<rparr>))))))"

abbreviation E_ENV_CREATION_ERROR :: int where "E_ENV_CREATION_ERROR \<equiv> - 17"

definition sys_create_env :: "nat \<Rightarrow> nat \<Rightarrow> nat \<Rightarrow> nat \<Rightarrow> machine \<Rightarrow> (int \<times> machine) result" where
  "sys_create_env programName page_WS_size LRU_second_list_size percent m =
     andThen (string_at programName m) (\<lambda>name.
     andThen (env_create name page_WS_size LRU_second_list_size percent m) (\<lambda>(r, m).
     (case r of
        None \<Rightarrow> Inr (E_ENV_CREATION_ERROR, m)
      | Some e \<Rightarrow>
          andThen (with_sched (unit_of (sched_new_env e)) m) (\<lambda>(_, m).
          Inr (env_id (envs (msched m) e), m)))))"

definition sys_run_env :: "int \<Rightarrow> machine \<Rightarrow> (int \<times> machine) result" where
  "sys_run_env envId m = andThen (with_sched (sched_run_env envId) m) (\<lambda>(_, m). Inr (0, m))"

definition sys_env_set_priority :: "int \<Rightarrow> int \<Rightarrow> machine \<Rightarrow> (int \<times> machine) result" where
  "sys_env_set_priority envID pr m = with_sched (unit_of (env_set_priority envID pr)) m"

section \<open>Shared objects and the rest\<close>

definition sys_create_shared :: "nat \<Rightarrow> nat \<Rightarrow> nat \<Rightarrow> nat \<Rightarrow> machine \<Rightarrow> (int \<times> machine) result" where
  "sys_create_shared name sz writable va m =
     andThen (get_cpu_proc m) (\<lambda>_. andThen (string_at name m) (\<lambda>n. with_shm (sys_create_shared_object n sz writable va) m))"

definition sys_size_of_shared_object :: "int \<Rightarrow> nat \<Rightarrow> machine \<Rightarrow> (int \<times> machine) result" where
  "sys_size_of_shared_object owner name m =
     andThen (string_at name m) (\<lambda>n. with_shm (size_of_shared_object owner n) m)"

definition sys_get_shared_object :: "int \<Rightarrow> nat \<Rightarrow> nat \<Rightarrow> machine \<Rightarrow> (int \<times> machine) result" where
  "sys_get_shared_object owner name va m = andThen (string_at name m) (\<lambda>n. with_shm (get_shared_object owner n va) m)"

definition sys_delete_shared_object :: "int \<Rightarrow> nat \<Rightarrow> machine \<Rightarrow> (int \<times> machine) result" where
  "sys_delete_shared_object sharedObjectID startVA m = with_shm (delete_shared_object sharedObjectID startVA) m"

definition store32 :: "nat \<Rightarrow> nat \<Rightarrow> memory \<Rightarrow> memory" where
  "store32 p w mem = (\<lambda>a. if p \<le> a \<and> a < p + 4 then word_of_nat (w div 256 ^ (a - p)) else mem a)"

text \<open>The pointers come from the caller and are not checked.\<close>

definition sys_get_virtual_time :: "nat \<Rightarrow> nat \<Rightarrow> machine \<Rightarrow> (int \<times> machine) result" where
  "sys_get_virtual_time ptrlow ptrhi m = Inr (0, m\<lparr>umem := store32 ptrhi (fst (tsc m)) (store32 ptrlow (snd (tsc m)) (umem m))\<rparr>)"

definition set_heap :: "(uheap \<Rightarrow> uheap) \<Rightarrow> machine \<Rightarrow> machine" where
  "set_heap f m = m\<lparr>mshm := (mshm m)\<lparr>sh_heap := f (sh_heap (mshm m))\<rparr>\<rparr>"

definition sys_get_heap_strategy :: "machine \<Rightarrow> (int \<times> machine) result" where
  "sys_get_heap_strategy m = Inr (int (UHeapPlacementStrategy (sh_heap (mshm m))), m)"

definition sys_set_uheap_strategy :: "nat \<Rightarrow> machine \<Rightarrow> (int \<times> machine) result" where
  "sys_set_uheap_strategy heapStrategy m = Inr (0, set_heap (\<lambda>h. h\<lparr>UHeapPlacementStrategy := heapStrategy\<rparr>) m)"

definition sys_bypassPageFault :: "nat \<Rightarrow> machine \<Rightarrow> (int \<times> machine) result" where
  "sys_bypassPageFault instrLength m = Inr (0, m\<lparr>bypassInstrLength := instrLength\<rparr>)"

section \<open>The counter of passed tests\<close>

definition with_tstlock :: "(machine \<Rightarrow> machine) \<Rightarrow> machine \<Rightarrow> machine result" where
  "with_tstlock f m =
     andThen (lock_acquire (tstcntlock m)) (\<lambda>h.
     (let m = f (m\<lparr>tstcntlock := h\<rparr>) in
      andThen (lock_release (tstcntlock m)) (\<lambda>h. Inr (m\<lparr>tstcntlock := h\<rparr>))))"

definition rsttst :: "machine \<Rightarrow> machine result" where
  "rsttst m = with_tstlock (\<lambda>m. m\<lparr>tstcnt := 0\<rparr>) (m\<lparr>tstcntlock := False\<rparr>)"

definition inctst :: "machine \<Rightarrow> machine result" where
  "inctst m = with_tstlock (\<lambda>m. m\<lparr>tstcnt := add32 (tstcnt m) 1\<rparr>) m"

definition tst :: "nat \<Rightarrow> nat \<Rightarrow> nat \<Rightarrow> int \<Rightarrow> int \<Rightarrow> machine \<Rightarrow> machine result" where
  "tst n v1 v2 c other m =
     (if c = 108 \<and> (n < v1 \<or> other \<noteq> 0) \<or> c = 103 \<and> (n > v1 \<or> other \<noteq> 0) \<or> c = 101 \<and> (n = v1 \<or> other \<noteq> 0) \<or> c = 98 \<and> n \<ge> v1 \<and> n \<le> v2
      then inctst m else Inl (Panic ''Error!! test fails''))"

definition chktst :: "nat \<Rightarrow> machine \<Rightarrow> machine result" where
  "chktst n m =
     andThen (with_tstlock (\<lambda>m. m) m) (\<lambda>m.
     if tstcnt m = n then kprint (\<lambda>_. []) [] ([CHR 0x0A] @ ''Congratulations... test runs successfully'' @ [CHR 0x0A]) m
     else Inl (Panic ''Error!! test fails at final''))"

section \<open>The dispatcher\<close>

datatype (plugins only: code) syscallno =
    SYS_cputs | SYS_cputc | SYS_cgetc | SYS_lock_cons | SYS_unlock_cons | SYS_getenvid | SYS_getenvindex | SYS_getparentenvid
  | SYS_allocate_page | SYS_map_frame | SYS_unmap_frame | SYS_calc_req_frames | SYS_calc_free_frames | SYS_calc_modified_frames
  | SYS_calc_notmod_frames | SYS_pf_calc_allocated_pages | SYS_calculate_pages_tobe_removed_ready_exit | SYS_scarce_memory
  | SYS_allocate_chunk_in_mem | SYS_move_user_mem | SYS_clearFFL | SYS_create_shared_object | SYS_get_size_of_shared_object
  | SYS_get_shared_object | SYS_free_shared_object | SYS_create_env | SYS_run_env | SYS_destroy_env | SYS_exit_env
  | SYS_get_virtual_time | SYS_rcr2 | SYS_bypassPageFault | SYS_testNum | SYS_rsttst | SYS_chktst | SYS_inctst | SYS_gettst
  | SYS_get_heap_strategy | SYS_set_heap_strategy | SYS_check_LRU_lists | SYS_check_LRU_lists_free | SYS_check_WS_list
  | SYS_utilities | SYS_get_optimal_num_faults | SYS_allocate_user_mem | SYS_free_user_mem | SYS_env_set_priority

text \<open>The numbers are the positions in the enumeration.\<close>

definition syscall_table :: "syscallno list" where
  "syscall_table =
    [SYS_cputs, SYS_cputc, SYS_cgetc, SYS_lock_cons, SYS_unlock_cons, SYS_getenvid, SYS_getenvindex, SYS_getparentenvid,
     SYS_allocate_page, SYS_map_frame, SYS_unmap_frame, SYS_calc_req_frames, SYS_calc_free_frames, SYS_calc_modified_frames,
     SYS_calc_notmod_frames, SYS_pf_calc_allocated_pages, SYS_calculate_pages_tobe_removed_ready_exit, SYS_scarce_memory,
     SYS_allocate_chunk_in_mem, SYS_move_user_mem, SYS_clearFFL, SYS_create_shared_object, SYS_get_size_of_shared_object,
     SYS_get_shared_object, SYS_free_shared_object, SYS_create_env, SYS_run_env, SYS_destroy_env, SYS_exit_env,
     SYS_get_virtual_time, SYS_rcr2, SYS_bypassPageFault, SYS_testNum, SYS_rsttst, SYS_chktst, SYS_inctst, SYS_gettst,
     SYS_get_heap_strategy, SYS_set_heap_strategy, SYS_check_LRU_lists, SYS_check_LRU_lists_free, SYS_check_WS_list,
     SYS_utilities, SYS_get_optimal_num_faults, SYS_allocate_user_mem, SYS_free_user_mem, SYS_env_set_priority]"

abbreviation NSYSCALLS :: nat where "NSYSCALLS \<equiv> 47"

text \<open>
  The routines of \<^verbatim>\<open>src/kern/tests\<close> that system calls of the test programs reach are the parameter \<open>hook\<close>.
\<close>

type_synonym hooks = "syscallno \<Rightarrow> nat list \<Rightarrow> machine \<Rightarrow> (int \<times> machine) result"

definition reading :: "(vm \<Rightarrow> nat result) \<Rightarrow> machine \<Rightarrow> (int \<times> machine) result" where
  "reading f m = andThen (f (vm_of m)) (\<lambda>n. Inr (int n, m))"

definition int_of :: "nat \<Rightarrow> int" where
  "int_of a = int32 (int a)"

definition char_arg :: "nat \<Rightarrow> int" where
  "char_arg a = sint (word_of_nat a :: byte)"

text \<open>One case of the \<^verbatim>\<open>switch\<close>, with the casts of its arguments.\<close>

definition syscall_case :: "hooks \<Rightarrow> syscallno \<Rightarrow> nat \<Rightarrow> nat \<Rightarrow> nat \<Rightarrow> nat \<Rightarrow> nat \<Rightarrow> machine \<Rightarrow> answer" where
  "syscall_case hook call a1 a2 a3 a4 a5 m =
     (case call of
        SYS_env_set_priority \<Rightarrow> returning (sys_env_set_priority (int_of a1) (int_of a2) m)
      | SYS_allocate_user_mem \<Rightarrow> or_exit m (with_vm (unit_of (sys_allocate_user_mem a1 a2)) m)
      | SYS_free_user_mem \<Rightarrow> or_exit m (with_vm (unit_of (sys_free_user_mem (kernel_faults (sh_heap (mshm m))) a1 a2)) m)
      | SYS_cputs \<Rightarrow> returning (sys_cputs a1 a2 (a3 mod 256) (int_of a4) m)
      | SYS_cgetc \<Rightarrow> returning (sys_cgetc m)
      | SYS_cputc \<Rightarrow> returning (sys_cputc (char_arg a1) m)
      | SYS_lock_cons \<Rightarrow> returning (cons_lock m)
      | SYS_unlock_cons \<Rightarrow> returning (cons_unlock m)
      | SYS_calc_req_frames \<Rightarrow> returning (reading (sys_calculate_required_frames a1 a2) m)
      | SYS_calc_free_frames \<Rightarrow> returning (reading (\<lambda>v. Inr (sys_calculate_free_frames v)) m)
      | SYS_calc_modified_frames \<Rightarrow> returning (reading (\<lambda>v. Inr (sys_calculate_modified_frames v)) m)
      | SYS_calc_notmod_frames \<Rightarrow> returning (reading (\<lambda>v. Inr (sys_calculate_notmod_frames v)) m)
      | SYS_pf_calc_allocated_pages \<Rightarrow> returning (reading sys_pf_calculate_allocated_pages m)
      | SYS_calculate_pages_tobe_removed_ready_exit \<Rightarrow> returning (hook call [a1] m)
      | SYS_scarce_memory \<Rightarrow> returning (andThen (hook call [] m) (\<lambda>(_, m). Inr (0, m)))
      | SYS_allocate_chunk_in_mem \<Rightarrow> returning (andThen (with_vm (sys_allocate_chunk a1 a2 (word_of_nat a3)) m) (\<lambda>(_, m). Inr (0, m)))
      | SYS_allocate_page \<Rightarrow> returning (with_vm (sys_allocate_page a1 (word_of_nat a2)) m)
      | SYS_map_frame \<Rightarrow> returning (andThen (with_vm sys_map_frame m) (\<lambda>(_, m). Inr (0, m)))
      | SYS_unmap_frame \<Rightarrow> returning (with_vm (sys_unmap_frame a1) m)
      | SYS_clearFFL \<Rightarrow> returning (with_vm (unit_of sys_clearFFL) m)
      | SYS_create_shared_object \<Rightarrow> returning (sys_create_shared a1 a2 (a3 mod 256) a4 m)
      | SYS_get_shared_object \<Rightarrow> returning (sys_get_shared_object (int_of a1) a2 a3 m)
      | SYS_free_shared_object \<Rightarrow> returning (sys_delete_shared_object (int_of a1) a2 m)
      | SYS_get_size_of_shared_object \<Rightarrow> returning (sys_size_of_shared_object (int_of a1) a2 m)
      | SYS_create_env \<Rightarrow> returning (sys_create_env a1 a2 a3 a4 m)
      | SYS_run_env \<Rightarrow> returning (sys_run_env (int_of a1) m)
      | SYS_getenvindex \<Rightarrow> returning (sys_getenvindex m)
      | SYS_getenvid \<Rightarrow> returning (sys_getenvid m)
      | SYS_getparentenvid \<Rightarrow> returning (sys_getparentenvid m)
      | SYS_destroy_env \<Rightarrow> returning (sys_destroy_env (int_of a1) m)
      | SYS_exit_env \<Rightarrow> sys_exit_env m
      | SYS_get_virtual_time \<Rightarrow> returning (sys_get_virtual_time a1 a2 m)
      | SYS_move_user_mem \<Rightarrow> returning (with_vm (unit_of (sys_move_user_mem a1 a2 a3)) m)
      | SYS_rcr2 \<Rightarrow> returning (Inr (int (rcr2 m), m))
      | SYS_bypassPageFault \<Rightarrow> returning (sys_bypassPageFault (a1 mod 256) m)
      | SYS_rsttst \<Rightarrow> returning (unit_of rsttst m)
      | SYS_inctst \<Rightarrow> returning (unit_of inctst m)
      | SYS_chktst \<Rightarrow> returning (unit_of (chktst a1) m)
      | SYS_gettst \<Rightarrow> returning (Inr (int (tstcnt m), m))
      | SYS_testNum \<Rightarrow> returning (unit_of (tst a1 a2 a3 (char_arg a4) (int_of a5)) m)
      | SYS_get_heap_strategy \<Rightarrow> returning (sys_get_heap_strategy m)
      | SYS_set_heap_strategy \<Rightarrow> returning (sys_set_uheap_strategy a1 m)
      | SYS_check_LRU_lists \<Rightarrow> returning (hook call [a1, a2, a3, a4] m)
      | SYS_check_LRU_lists_free \<Rightarrow> returning (hook call [a1, a2] m)
      | SYS_check_WS_list \<Rightarrow> returning (hook call [a1, a2, a3, a4] m)
      | SYS_utilities \<Rightarrow> returning (andThen (hook call [a1, a2] m) (\<lambda>(_, m). Inr (0, m)))
      | SYS_get_optimal_num_faults \<Rightarrow>
          returning (andThen (get_cpu_proc m) (\<lambda>e.
            andThen (with_vm (sys_get_optimal_num_faults (prepagedVAs (loaded m e))) m) (\<lambda>(n, m). Inr (int n, m)))))"

text \<open>An unknown number is answered by the negation of \<^verbatim>\<open>E_INVAL\<close>, which is itself negative.\<close>

definition syscall :: "hooks \<Rightarrow> nat \<Rightarrow> nat \<Rightarrow> nat \<Rightarrow> nat \<Rightarrow> nat \<Rightarrow> nat \<Rightarrow> machine \<Rightarrow> answer" where
  "syscall hook n a1 a2 a3 a4 a5 m =
     andThen (get_cpu_proc m) (\<lambda>_.
     if n < length syscall_table then syscall_case hook (syscall_table ! n) a1 a2 a3 a4 a5 m
     else Inr (Some (uint32 (- E_INVAL)), m))"

section \<open>Traps and interrupts\<close>

abbreviation T_DBLFLT :: nat where "T_DBLFLT \<equiv> 8"
abbreviation T_PGFLT :: nat where "T_PGFLT \<equiv> 14"
abbreviation T_SYSCALL :: nat where "T_SYSCALL \<equiv> 48"
abbreviation IRQ_OFFSET :: nat where "IRQ_OFFSET \<equiv> 32"
abbreviation MAX_IRQS :: nat where "MAX_IRQS \<equiv> 16"
abbreviation GD_KT :: nat where "GD_KT \<equiv> 8"

definition irq_install_handler :: "nat \<Rightarrow> irq_handler \<Rightarrow> machine \<Rightarrow> machine" where
  "irq_install_handler irq h m = m\<lparr>irq_handlers := (irq_handlers m)(irq := Some h)\<rparr>"

definition irq_uninstall_handler :: "nat \<Rightarrow> machine \<Rightarrow> machine" where
  "irq_uninstall_handler irq m = m\<lparr>irq_handlers := (irq_handlers m)(irq := None)\<rparr>"

text \<open>
  The clock interrupt with the time stamps of the running process, which are in its memory. \<open>False\<close>: the process has yielded
  the processor and goes on when it gets it again.
\<close>

definition clock_stamps :: "vm \<Rightarrow> sched_st \<Rightarrow> sched_st result" where
  "clock_stamps v s =
     (if PageRepAlgoType v = PG_REP_LRU_TIME_APPROX
      then andThen (update_WS_time_stamps True (v\<lparr>km := kheap s\<rparr>)) (\<lambda>v. Inr (s\<lparr>kheap := km v\<rparr>)) else Inr s)"

definition clock_interrupt :: "machine \<Rightarrow> (bool \<times> machine) result" where
  "clock_interrupt m =
     (let v = vm_of m in
      andThen (with_sched (\<lambda>s. andThen (clock_interrupt_handler (clock_stamps v) s) (\<lambda>s. Inr ((), s))) m) (\<lambda>(_, m').
      (case cpu_proc (msched m) of
         None \<Rightarrow> Inr (True, m')
       | Some _ \<Rightarrow>
           andThen (if PageRepAlgoType v = PG_REP_LRU_TIME_APPROX then update_WS_time_stamps True v else Inr v) (\<lambda>v'.
           Inr (False, set_vm ((vm_of m')\<lparr>up := up v'\<rparr>) m')))))"

definition next_batch :: "machine \<Rightarrow> (nat list \<times> nat list) \<times> machine" where
  "next_batch m = (case batches m of [] \<Rightarrow> (([], []), m) | b # bs \<Rightarrow> (b, m\<lparr>batches := bs\<rparr>))"

definition run_irq_handler :: "irq_handler \<Rightarrow> machine \<Rightarrow> (bool \<times> machine) result" where
  "run_irq_handler h m =
     (case h of
        Clock_interrupt_handler \<Rightarrow> clock_interrupt m
      | Keyboard_interrupt_handler \<Rightarrow>
          (case next_batch m of (b, m) \<Rightarrow> Inr (True, m\<lparr>mcons := keyboard_interrupt_handler (snd b) (mcons m)\<rparr>))
      | Serial_interrupt_handler \<Rightarrow>
          (case next_batch m of (b, m) \<Rightarrow> Inr (True, m\<lparr>mcons := serial_intr (fst b) (mcons m)\<rparr>)))"

text \<open>\<open>tf\<close> is the address of the trap frame.\<close>

definition irq_dispatch :: "nat \<Rightarrow> machine \<Rightarrow> (bool \<times> machine) result" where
  "irq_dispatch tf m =
     (let irq = tf_trapno (tframes m tf) - IRQ_OFFSET in
      andThen (case irq_handlers m irq of None \<Rightarrow> Inr (True, m) | Some h \<Rightarrow> run_irq_handler h m) (\<lambda>(back, m).
      Inr (back, if back then m\<lparr>eois := irq # eois m\<rparr> else m)))"

definition set_tf :: "nat \<Rightarrow> (trapframe \<Rightarrow> trapframe) \<Rightarrow> machine \<Rightarrow> machine" where
  "set_tf tf f m = m\<lparr>tframes := (tframes m)(tf := f (tframes m tf))\<rparr>"

definition fault_info :: "nat \<Rightarrow> machine \<Rightarrow> trap_info" where
  "fault_info tf m =
     (let t = tframes m tf in
      case cpu_proc (msched m) of
        None \<Rightarrow> trap_info.make (rcr2 m) (tf_eip t) (tf_cs t) 0 0 (cpu_stack_at m)
      | Some e \<Rightarrow> trap_info.make (rcr2 m) (tf_eip t) (tf_cs t) (Suc e) (kstack (loaded m e)) (cpu_stack_at m))"

definition page_fault :: "nat \<Rightarrow> machine \<Rightarrow> machine result" where
  "page_fault tf m =
     (if bypassInstrLength m \<noteq> 0 then Inr (set_tf tf (\<lambda>t. t\<lparr>tf_eip := add32 (tf_eip t) (bypassInstrLength m)\<rparr>) m)
      else
        andThen (if PageRepAlgoType (vm_of m) = PG_REP_LRU_TIME_APPROX
                 then update_WS_time_stamps (cpu_proc (msched m) \<noteq> None) (vm_of m) else Inr (vm_of m)) (\<lambda>v.
        andThen (fault_handler (fault_info tf m) (kernel_faults (sh_heap (mshm m))) v) (\<lambda>(fs, v).
        Inr (set_heap (\<lambda>h. h\<lparr>kernel_faults := fs\<rparr>) (set_vm v m)))))"

definition system_call :: "hooks \<Rightarrow> nat \<Rightarrow> machine \<Rightarrow> (bool \<times> machine) result" where
  "system_call hook tf m =
     (let t = tframes m tf;
          m = (if tf_IF t then kclock_resume (m\<lparr>interrupts := True\<rparr>) else m)
      in andThen (syscall hook (reg_eax t) (reg_edx t) (reg_ecx t) (reg_ebx t) (reg_edi t) (reg_esi t) m) (\<lambda>(r, m).
         (case r of
            None \<Rightarrow> Inr (False, m)
          | Some ret \<Rightarrow>
              (let m = set_tf tf (\<lambda>t. t\<lparr>reg_eax := ret\<rparr>) m
               in Inr (True, if interrupts m then kclock_stop (m\<lparr>interrupts := False\<rparr>) else m)))))"

definition trap_dispatch :: "hooks \<Rightarrow> nat \<Rightarrow> machine \<Rightarrow> (bool \<times> machine) result" where
  "trap_dispatch hook tf m =
     (let t = tframes m tf in
      if tf_trapno t = T_PGFLT then andThen (page_fault tf m) (\<lambda>m. Inr (True, m))
      else if tf_trapno t = T_SYSCALL then system_call hook tf m
      else if tf_trapno t = T_DBLFLT then Inl (Panic ''double fault!!'')
      else if tf_cs t = GD_KT then Inl (Panic ''unhandled trap in kernel'')
      else Inl (Panic ''unhandled trap in user program''))"

definition user_trap_ok :: "nat \<Rightarrow> machine \<Rightarrow> unit result" where
  "user_trap_ok tf m =
     (case cpu_proc (msched m) of
        None \<Rightarrow> Inl (Panic ''cur_env && cur_env->env_status == ENV_RUNNING'')
      | Some e \<Rightarrow>
          andThen (c_assert (env_status (envs (msched m) e) = ENV_RUNNING) ''cur_env && cur_env->env_status == ENV_RUNNING'') (\<lambda>_.
          if env_tf m e \<noteq> tf then Inl (Panic ''USER TRAP: unexpected trapframe!'') else Inr ()))"

definition trap :: "hooks \<Rightarrow> nat \<Rightarrow> machine \<Rightarrow> (bool \<times> machine) result" where
  "trap hook tf m =
     (let m = kclock_stop m; t = tframes m tf in
      if interrupts m then Inl (Panic ''trap(): interrupt is enabled while it's expected to be disabled'')
      else
        andThen (if tf_cs t mod 4 = 3 then user_trap_ok tf m else Inr ()) (\<lambda>_.
        andThen (if tf_trapno t \<ge> IRQ_OFFSET \<and> tf_trapno t < IRQ_OFFSET + MAX_IRQS then irq_dispatch tf m
                 else trap_dispatch hook tf m) (\<lambda>(back, m).
        if back then andThen (c_assert (\<not> interrupts m) ''IEN == 0'') (\<lambda>_. Inr (True, kclock_resume m))
        else Inr (False, m))))"

section \<open>The stubs in user programs\<close>

text \<open>The routines of \<^verbatim>\<open>src/lib/syscall.c\<close> with their arguments.\<close>

datatype (plugins only: code) user_call =
    U_cputs nat nat nat int | U_cgetc | U_lock_cons | U_unlock_cons | U_allocate_page nat int | U_map_frame int nat int nat int
  | U_unmap_frame nat | U_calculate_required_frames nat nat | U_calculate_free_frames | U_calculate_modified_frames
  | U_calculate_notmod_frames | U_pf_calculate_allocated_pages | U_calculate_pages_tobe_removed_ready_exit nat | U_scarce_memory
  | U_cputc int | U_clear_ffl | U_create_shared_object nat nat nat nat | U_size_of_shared_object int nat
  | U_get_shared_object int nat nat | U_delete_shared_object int nat | U_create_env nat nat nat nat | U_run_env int
  | U_destroy_env int | U_getenvid | U_getenvindex | U_getparentenvid | U_exit_env | U_get_virtual_time nat nat
  | U_move_user_mem nat nat nat | U_rcr2 | U_bypassPageFault nat | U_rsttst | U_tst nat nat nat int int | U_chktst nat | U_inctst
  | U_gettst | U_get_uheap_strategy | U_set_uheap_strategy nat | U_check_LRU_lists nat nat int int | U_check_LRU_lists_free nat int
  | U_check_WS_list nat int nat nat | U_allocate_chunk nat nat nat | U_utilities nat int | U_get_optimal_num_faults
  | U_free_user_mem nat nat | U_allocate_user_mem nat nat | U_env_set_priority int int

definition stub :: "user_call \<Rightarrow> syscallno \<times> nat \<times> nat \<times> nat \<times> nat \<times> nat" where
  "stub u =
     (case u of
        U_cputs s len prog color \<Rightarrow> (SYS_cputs, s, len, prog, uint32 color, 0)
      | U_cgetc \<Rightarrow> (SYS_cgetc, 0, 0, 0, 0, 0)
      | U_lock_cons \<Rightarrow> (SYS_lock_cons, 0, 0, 0, 0, 0)
      | U_unlock_cons \<Rightarrow> (SYS_unlock_cons, 0, 0, 0, 0, 0)
      | U_allocate_page va perm \<Rightarrow> (SYS_allocate_page, va, uint32 perm, 0, 0, 0)
      | U_map_frame srcenv srcva dstenv dstva perm \<Rightarrow> (SYS_map_frame, uint32 srcenv, srcva, uint32 dstenv, dstva, uint32 perm)
      | U_unmap_frame va \<Rightarrow> (SYS_unmap_frame, va, 0, 0, 0, 0)
      | U_calculate_required_frames va sz \<Rightarrow> (SYS_calc_req_frames, va, sz, 0, 0, 0)
      | U_calculate_free_frames \<Rightarrow> (SYS_calc_free_frames, 0, 0, 0, 0, 0)
      | U_calculate_modified_frames \<Rightarrow> (SYS_calc_modified_frames, 0, 0, 0, 0, 0)
      | U_calculate_notmod_frames \<Rightarrow> (SYS_calc_notmod_frames, 0, 0, 0, 0, 0)
      | U_pf_calculate_allocated_pages \<Rightarrow> (SYS_pf_calc_allocated_pages, 0, 0, 0, 0, 0)
      | U_calculate_pages_tobe_removed_ready_exit flag \<Rightarrow> (SYS_calculate_pages_tobe_removed_ready_exit, flag, 0, 0, 0, 0)
      | U_scarce_memory \<Rightarrow> (SYS_scarce_memory, 0, 0, 0, 0, 0)
      | U_cputc c \<Rightarrow> (SYS_cputc, uint32 c, 0, 0, 0, 0)
      | U_clear_ffl \<Rightarrow> (SYS_clearFFL, 0, 0, 0, 0, 0)
      | U_create_shared_object name sz writable va \<Rightarrow> (SYS_create_shared_object, name, sz, writable, va, 0)
      | U_size_of_shared_object owner name \<Rightarrow> (SYS_get_size_of_shared_object, uint32 owner, name, 0, 0, 0)
      | U_get_shared_object owner name va \<Rightarrow> (SYS_get_shared_object, uint32 owner, name, va, 0, 0)
      | U_delete_shared_object objID va \<Rightarrow> (SYS_free_shared_object, uint32 objID, va, 0, 0, 0)
      | U_create_env name ws lru percent \<Rightarrow> (SYS_create_env, name, ws, lru, percent, 0)
      | U_run_env envId \<Rightarrow> (SYS_run_env, uint32 envId, 0, 0, 0, 0)
      | U_destroy_env envid \<Rightarrow> (SYS_destroy_env, uint32 envid, 0, 0, 0, 0)
      | U_getenvid \<Rightarrow> (SYS_getenvid, 0, 0, 0, 0, 0)
      | U_getenvindex \<Rightarrow> (SYS_getenvindex, 0, 0, 0, 0, 0)
      | U_getparentenvid \<Rightarrow> (SYS_getparentenvid, 0, 0, 0, 0, 0)
      | U_exit_env \<Rightarrow> (SYS_exit_env, 0, 0, 0, 0, 0)
      | U_get_virtual_time low hi \<Rightarrow> (SYS_get_virtual_time, low, hi, 0, 0, 0)
      | U_move_user_mem src dst sz \<Rightarrow> (SYS_move_user_mem, src, dst, sz, 0, 0)
      | U_rcr2 \<Rightarrow> (SYS_rcr2, 0, 0, 0, 0, 0)
      | U_bypassPageFault len \<Rightarrow> (SYS_bypassPageFault, len, 0, 0, 0, 0)
      | U_rsttst \<Rightarrow> (SYS_rsttst, 0, 0, 0, 0, 0)
      | U_tst n v1 v2 c i \<Rightarrow> (SYS_testNum, n, v1, v2, uint32 c, uint32 i)
      | U_chktst n \<Rightarrow> (SYS_chktst, n, 0, 0, 0, 0)
      | U_inctst \<Rightarrow> (SYS_inctst, 0, 0, 0, 0, 0)
      | U_gettst \<Rightarrow> (SYS_gettst, 0, 0, 0, 0, 0)
      | U_get_uheap_strategy \<Rightarrow> (SYS_get_heap_strategy, 0, 0, 0, 0, 0)
      | U_set_uheap_strategy strategy \<Rightarrow> (SYS_set_heap_strategy, strategy, 0, 0, 0, 0)
      | U_check_LRU_lists act sec na ns \<Rightarrow> (SYS_check_LRU_lists, act, sec, uint32 na, uint32 ns, 0)
      | U_check_LRU_lists_free l n \<Rightarrow> (SYS_check_LRU_lists_free, l, uint32 n, 0, 0, 0)
      | U_check_WS_list l n la order \<Rightarrow> (SYS_check_WS_list, l, uint32 n, la, order, 0)
      | U_allocate_chunk va sz perms \<Rightarrow> (SYS_allocate_chunk_in_mem, va, sz, perms, 0, 0)
      | U_utilities name v \<Rightarrow> (SYS_utilities, name, uint32 v, 0, 0, 0)
      | U_get_optimal_num_faults \<Rightarrow> (SYS_get_optimal_num_faults, 0, 0, 0, 0, 0)
      | U_free_user_mem va sz \<Rightarrow> (SYS_free_user_mem, va, sz, 0, 0, 0)
      | U_allocate_user_mem va sz \<Rightarrow> (SYS_allocate_user_mem, va, sz, 0, 0, 0)
      | U_env_set_priority envID pr \<Rightarrow> (SYS_env_set_priority, uint32 envID, uint32 pr, 0, 0, 0))"

text \<open>The number of a call: its position in the enumeration.\<close>

definition number_of :: "syscallno \<Rightarrow> nat" where
  "number_of c = length (takeWhile (\<lambda>d. d \<noteq> c) syscall_table)"

text \<open>
  The instruction \<^verbatim>\<open>int T_SYSCALL\<close> with the registers loaded: the processor saves the frame and disables interrupts,
  and restores the flag from the frame when the trap returns.
\<close>

abbreviation GD_UT_3 :: nat where "GD_UT_3 \<equiv> 27"

definition int_frame :: "syscallno \<times> nat \<times> nat \<times> nat \<times> nat \<times> nat \<Rightarrow> bool \<Rightarrow> trapframe \<Rightarrow> trapframe" where
  "int_frame c b t =
     (case c of (call, a1, a2, a3, a4, a5) \<Rightarrow>
        t\<lparr>reg_eax := number_of call, reg_edx := a1, reg_ecx := a2, reg_ebx := a3, reg_edi := a4, reg_esi := a5,
          tf_trapno := T_SYSCALL, tf_cs := GD_UT_3, tf_IF := b\<rparr>)"

definition iret :: "nat \<Rightarrow> machine \<Rightarrow> machine" where
  "iret tf m = m\<lparr>interrupts := tf_IF (tframes m tf)\<rparr>"

definition user_syscall :: "hooks \<Rightarrow> user_call \<Rightarrow> machine \<Rightarrow> (nat option \<times> machine) result" where
  "user_syscall hook u m =
     (case cpu_proc (msched m) of
        None \<Rightarrow> Inl (Panic ''cur_env && cur_env->env_status == ENV_RUNNING'')
      | Some e \<Rightarrow>
          (let tf = env_tf m e in
           andThen (trap hook tf (set_tf tf (int_frame (stub u) (interrupts m)) (m\<lparr>interrupts := False\<rparr>))) (\<lambda>(back, m).
           Inr (if back then (Some (reg_eax (tframes m tf)), iret tf m) else (None, m)))))"

section \<open>Every stub reaches its handler\<close>

text \<open>What a call means: the kernel's routine, on the arguments as the caller has them.\<close>

definition serve :: "hooks \<Rightarrow> user_call \<Rightarrow> machine \<Rightarrow> answer" where
  "serve hook u m =
     (case u of
        U_cputs s len prog color \<Rightarrow> returning (sys_cputs s len prog color m)
      | U_cgetc \<Rightarrow> returning (sys_cgetc m)
      | U_lock_cons \<Rightarrow> returning (cons_lock m)
      | U_unlock_cons \<Rightarrow> returning (cons_unlock m)
      | U_allocate_page va perm \<Rightarrow> returning (with_vm (sys_allocate_page va (word_of_int perm)) m)
      | U_map_frame srcenv srcva dstenv dstva perm \<Rightarrow> returning (andThen (with_vm sys_map_frame m) (\<lambda>(_, m). Inr (0, m)))
      | U_unmap_frame va \<Rightarrow> returning (with_vm (sys_unmap_frame va) m)
      | U_calculate_required_frames va sz \<Rightarrow> returning (reading (sys_calculate_required_frames va sz) m)
      | U_calculate_free_frames \<Rightarrow> returning (reading (\<lambda>v. Inr (sys_calculate_free_frames v)) m)
      | U_calculate_modified_frames \<Rightarrow> returning (reading (\<lambda>v. Inr (sys_calculate_modified_frames v)) m)
      | U_calculate_notmod_frames \<Rightarrow> returning (reading (\<lambda>v. Inr (sys_calculate_notmod_frames v)) m)
      | U_pf_calculate_allocated_pages \<Rightarrow> returning (reading sys_pf_calculate_allocated_pages m)
      | U_calculate_pages_tobe_removed_ready_exit flag \<Rightarrow> returning (hook SYS_calculate_pages_tobe_removed_ready_exit [flag] m)
      | U_scarce_memory \<Rightarrow> returning (andThen (hook SYS_scarce_memory [] m) (\<lambda>(_, m). Inr (0, m)))
      | U_cputc c \<Rightarrow> returning (sys_cputc c m)
      | U_clear_ffl \<Rightarrow> returning (with_vm (unit_of sys_clearFFL) m)
      | U_create_shared_object name sz writable va \<Rightarrow> returning (sys_create_shared name sz writable va m)
      | U_size_of_shared_object owner name \<Rightarrow> returning (sys_size_of_shared_object owner name m)
      | U_get_shared_object owner name va \<Rightarrow> returning (sys_get_shared_object owner name va m)
      | U_delete_shared_object objID va \<Rightarrow> returning (sys_delete_shared_object objID va m)
      | U_create_env name ws lru percent \<Rightarrow> returning (sys_create_env name ws lru percent m)
      | U_run_env envId \<Rightarrow> returning (sys_run_env envId m)
      | U_destroy_env envid \<Rightarrow> returning (sys_destroy_env envid m)
      | U_getenvid \<Rightarrow> returning (sys_getenvid m)
      | U_getenvindex \<Rightarrow> returning (sys_getenvindex m)
      | U_getparentenvid \<Rightarrow> returning (sys_getparentenvid m)
      | U_exit_env \<Rightarrow> sys_exit_env m
      | U_get_virtual_time low hi \<Rightarrow> returning (sys_get_virtual_time low hi m)
      | U_move_user_mem src dst sz \<Rightarrow> returning (with_vm (unit_of (sys_move_user_mem src dst sz)) m)
      | U_rcr2 \<Rightarrow> returning (Inr (int (rcr2 m), m))
      | U_bypassPageFault len \<Rightarrow> returning (sys_bypassPageFault len m)
      | U_rsttst \<Rightarrow> returning (unit_of rsttst m)
      | U_tst n v1 v2 c i \<Rightarrow> returning (unit_of (tst n v1 v2 c i) m)
      | U_chktst n \<Rightarrow> returning (unit_of (chktst n) m)
      | U_inctst \<Rightarrow> returning (unit_of inctst m)
      | U_gettst \<Rightarrow> returning (Inr (int (tstcnt m), m))
      | U_get_uheap_strategy \<Rightarrow> returning (sys_get_heap_strategy m)
      | U_set_uheap_strategy strategy \<Rightarrow> returning (sys_set_uheap_strategy strategy m)
      | U_check_LRU_lists act sec na ns \<Rightarrow> returning (hook SYS_check_LRU_lists [act, sec, uint32 na, uint32 ns] m)
      | U_check_LRU_lists_free l n \<Rightarrow> returning (hook SYS_check_LRU_lists_free [l, uint32 n] m)
      | U_check_WS_list l n la order \<Rightarrow> returning (hook SYS_check_WS_list [l, uint32 n, la, order] m)
      | U_allocate_chunk va sz perms \<Rightarrow>
          returning (andThen (with_vm (sys_allocate_chunk va sz (word_of_nat perms)) m) (\<lambda>(_, m). Inr (0, m)))
      | U_utilities name v \<Rightarrow> returning (andThen (hook SYS_utilities [name, uint32 v] m) (\<lambda>(_, m). Inr (0, m)))
      | U_get_optimal_num_faults \<Rightarrow>
          returning (andThen (get_cpu_proc m) (\<lambda>e.
            andThen (with_vm (sys_get_optimal_num_faults (prepagedVAs (loaded m e))) m) (\<lambda>(n, m). Inr (int n, m))))
      | U_free_user_mem va sz \<Rightarrow> or_exit m (with_vm (unit_of (sys_free_user_mem (kernel_faults (sh_heap (mshm m))) va sz)) m)
      | U_allocate_user_mem va sz \<Rightarrow> or_exit m (with_vm (unit_of (sys_allocate_user_mem va sz)) m)
      | U_env_set_priority envID pr \<Rightarrow> returning (sys_env_set_priority envID pr m))"

definition is_int32 :: "int \<Rightarrow> bool" where
  "is_int32 i \<longleftrightarrow> - (2 ^ 31) \<le> i \<and> i < 2 ^ 31"

definition is_char :: "int \<Rightarrow> bool" where
  "is_char i \<longleftrightarrow> - 128 \<le> i \<and> i < 128"

text \<open>The arguments are values of their C types; words that are passed on as they are need no condition.\<close>

definition fits :: "user_call \<Rightarrow> bool" where
  "fits u \<longleftrightarrow>
     (case u of
        U_cputs s len prog color \<Rightarrow> prog < 256 \<and> is_int32 color
      | U_cputc c \<Rightarrow> is_char c
      | U_create_shared_object name sz writable va \<Rightarrow> writable < 256
      | U_size_of_shared_object owner name \<Rightarrow> is_int32 owner
      | U_get_shared_object owner name va \<Rightarrow> is_int32 owner
      | U_delete_shared_object objID va \<Rightarrow> is_int32 objID
      | U_run_env envId \<Rightarrow> is_int32 envId
      | U_destroy_env envid \<Rightarrow> is_int32 envid
      | U_bypassPageFault len \<Rightarrow> len < 256
      | U_tst n v1 v2 c i \<Rightarrow> is_char c \<and> is_int32 i
      | U_env_set_priority envID pr \<Rightarrow> is_int32 envID \<and> is_int32 pr
      | _ \<Rightarrow> True)"

lemma int_of_uint32: "is_int32 i \<Longrightarrow> int_of (uint32 i) = i"
  by (simp add: is_int32_def int_of_def uint32_def int32_def mod_simps)

lemma word_of_uint32:
  assumes "LENGTH('a::len) \<le> 32"
  shows "(word_of_nat (uint32 i) :: 'a word) = word_of_int i"
proof -
  have d: "(2::int) ^ LENGTH('a) dvd 2 ^ 32" using assms by (rule le_imp_power_dvd)
  have "(word_of_nat (uint32 i) :: 'a word) = word_of_int (i mod 2 ^ 32)"
    unfolding uint32_def by (rule of_nat_nat) (rule pos_mod_sign, simp)
  also have "\<dots> = word_of_int i"
    using d by (simp only: word_of_int_eq_iff take_bit_eq_mod mod_mod_cancel)
  finally show ?thesis .
qed

lemma char_arg_uint32: "is_char c \<Longrightarrow> char_arg (uint32 c) = c"
  by (simp add: char_arg_def is_char_def word_of_uint32 signed_of_int signed_take_bit_int_eq_self)

lemma takeWhile_shorter: "c \<in> set xs \<Longrightarrow> length (takeWhile (\<lambda>d. d \<noteq> c) xs) < length xs"
  by (induction xs) auto

lemma in_syscall_table: "c \<in> set syscall_table"
  by (cases c) (simp_all add: syscall_table_def)

lemma syscall_number: "number_of c < length syscall_table" "syscall_table ! number_of c = c"
proof -
  show l: "number_of c < length syscall_table"
    unfolding number_of_def by (rule takeWhile_shorter [OF in_syscall_table])
  show "syscall_table ! number_of c = c"
    using nth_length_takeWhile [of "\<lambda>d. d \<noteq> c" syscall_table] l by (simp add: number_of_def)
qed

lemma stub_served:
  assumes "fits u" and "stub u = (c, a1, a2, a3, a4, a5)"
  shows "syscall_case hook c a1 a2 a3 a4 a5 m = serve hook u m"
  using assms
  by (cases u) (auto simp: stub_def fits_def serve_def syscall_case_def int_of_uint32 char_arg_uint32 word_of_uint32)


lemma syscall_stub:
  assumes "fits u" and "stub u = (c, a1, a2, a3, a4, a5)"
  shows "syscall hook (number_of c) a1 a2 a3 a4 a5 m = andThen (get_cpu_proc m) (\<lambda>_. serve hook u m)"
  using stub_served [OF assms] by (simp add: syscall_def syscall_number)

text \<open>The machine the handler sees, and the machine when the call is back in the program.\<close>

definition call_entered :: "user_call \<Rightarrow> nat \<Rightarrow> machine \<Rightarrow> machine" where
  "call_entered u tf m =
     (set_tf tf (int_frame (stub u) (interrupts m)) m)\<lparr>interrupts := interrupts m, clock_runs := interrupts m\<rparr>"

definition call_left :: "nat \<Rightarrow> nat \<Rightarrow> machine \<Rightarrow> machine" where
  "call_left tf ret m = (set_tf tf (\<lambda>t. t\<lparr>reg_eax := ret\<rparr>) m)\<lparr>interrupts := tf_IF (tframes m tf), clock_runs := True\<rparr>"

lemma user_syscall_eq:
  assumes "fits u" and "cpu_proc (msched m) = Some e" and "env_status (envs (msched m) e) = ENV_RUNNING"
  shows "user_syscall hook u m =
           andThen (serve hook u (call_entered u (env_tf m e) m)) (\<lambda>(r, m').
           Inr (r, case r of None \<Rightarrow> m' | Some ret \<Rightarrow> call_left (env_tf m e) ret m'))"
proof -
  obtain c a1 a2 a3 a4 a5 where s: "stub u = (c, a1, a2, a3, a4, a5)" by (cases "stub u") auto
  let ?tf = "env_tf m e"
  let ?m = "call_entered u ?tf m"
  let ?x = "set_tf ?tf (int_frame (stub u) (interrupts m)) (m\<lparr>interrupts := False\<rparr>)"
  let ?t = "tframes (kclock_stop ?x) ?tf"
  have t: "?t = int_frame (stub u) (interrupts m) (tframes m ?tf)" by (simp add: kclock_stop_def set_tf_def)
  have g: "get_cpu_proc ?m = Inr e" using assms(2) by (simp add: get_cpu_proc_def call_entered_def set_tf_def)
  have m: "(if tf_IF ?t then kclock_resume ((kclock_stop ?x)\<lparr>interrupts := True\<rparr>) else kclock_stop ?x) = ?m"
    by (simp add: t) (simp add: s call_entered_def kclock_resume_def kclock_stop_def set_tf_def int_frame_def)
  have ok: "user_trap_ok ?tf (kclock_stop ?x) = Inr ()"
    using assms by (simp add: user_trap_ok_def kclock_stop_def set_tf_def)
  have "trap hook ?tf ?x = andThen (system_call hook ?tf (kclock_stop ?x)) (\<lambda>(back, m).
          if back then andThen (c_assert (\<not> interrupts m) ''IEN == 0'') (\<lambda>_. Inr (True, kclock_resume m)) else Inr (False, m))"
    using ok t by (simp add: trap_def trap_dispatch_def Let_def s int_frame_def) (simp add: kclock_stop_def set_tf_def)
  moreover have "system_call hook ?tf (kclock_stop ?x) = andThen (serve hook u ?m) (\<lambda>(r, m).
          (case r of None \<Rightarrow> Inr (False, m)
           | Some ret \<Rightarrow> Inr (True, let m = set_tf ?tf (\<lambda>t. t\<lparr>reg_eax := ret\<rparr>) m in if interrupts m then kclock_stop (m\<lparr>interrupts := False\<rparr>) else m)))"
    using syscall_stub [OF assms(1) s, of hook ?m] unfolding system_call_def Let_def unfolding m unfolding t
    by (simp add: s int_frame_def g)
  ultimately show ?thesis
    using assms(2)
    by (cases "serve hook u ?m")
       (auto simp: user_syscall_def Let_def call_left_def iret_def set_tf_def kclock_stop_def kclock_resume_def split: option.splits)
qed

text \<open>
  C4. A system call of a user program, from the stub in the library through the registers, the trap and the dispatcher, is the
  kernel routine meant, run on the caller's arguments, with interrupts enabled and the clock running exactly if they were in
  the caller. Its result arrives in the caller unless the routine gave the processor away, and the caller goes on with the
  interrupt flag of its frame and the clock running.
\<close>

theorem system_call_served:
  assumes "fits u" and "cpu_proc (msched m) = Some e" and "env_status (envs (msched m) e) = ENV_RUNNING"
  shows "user_syscall hook u m =
           andThen (serve hook u (call_entered u (env_tf m e) m)) (\<lambda>(r, m').
           Inr (r, case r of None \<Rightarrow> m' | Some ret \<Rightarrow> call_left (env_tf m e) ret m'))"
  using assms by (rule user_syscall_eq)

text \<open>A machine on which process 3 runs, for the witnesses: it destroys an environment that does not exist.\<close>

definition sample_frame :: trapframe where
  "sample_frame = \<lparr>reg_eax = 1, reg_edx = 2, reg_ecx = 3, reg_ebx = 4, reg_edi = 5, reg_esi = 6, tf_trapno = 32, tf_eip = 0x800020,
     tf_cs = GD_UT_3, tf_IF = True\<rparr>"

definition sample_loader :: loader where
  "sample_loader = \<lparr>lv = user_vm, image = (\<lambda>_. 0), env_lock = False, prog_name = ''tst'', env_cr3 = 0, kstack = 0, ActiveListSize = 0,
     SecondListSize = 0, percentage_of_WS_pages_to_be_removed = 10, table_ws = [], tf_eip = 0, tf_esp = 0, prepagedVAs = []\<rparr>"

definition sample_machine :: machine where
  "sample_machine = \<lparr>msched = sample_running sample_sched, mshm = sample_shm, others = (\<lambda>_. up user_vm), loaded = (\<lambda>_. sample_loader),
     programs = (\<lambda>_. None), mcons = sample_console, batches = [], umem = (\<lambda>_. 0), tframes = (\<lambda>_. sample_frame),
     env_tf = (\<lambda>e. 0xF6100000 + 32768 * e), interrupts = True, clock_runs = True, irq_handlers = (\<lambda>_. None), eois = [],
     bypassInstrLength = 0, rcr2 = 0, cpu_stack_at = 0, tsc = (0, 0), tstcnt = 0, tstcntlock = False\<rparr>"

definition no_hooks :: hooks where
  "no_hooks call args m = Inr (0, m)"

lemma sample_machine_runs:
  "cpu_proc (msched sample_machine) = Some 3" "env_status (envs (msched sample_machine) 3) = ENV_RUNNING"
  by (simp_all add: sample_machine_def sample_running_def sample_sched_def upd_env_def)

theorem system_call_served_witness:
  "\<exists>m'. user_syscall no_hooks (U_destroy_env (- 1)) sample_machine = Inr (Some 0xFFFFFFFE, m')"
proof -
  let ?u = "U_destroy_env (- 1)"
  have "serve no_hooks ?u (call_entered ?u (env_tf sample_machine 3) sample_machine) =
      Inr (Some 0xFFFFFFFE, call_entered ?u (env_tf sample_machine 3) sample_machine)"
    by (simp add: serve_def returning_def sys_destroy_env_def get_cpu_proc_def call_entered_def set_tf_def envid2env_def ENVX_def
        sample_machine_def sample_running_def sample_sched_def upd_env_def sample_env_def zero_env_def uint32_def Let_def)
  then show ?thesis
    using system_call_served [of ?u sample_machine 3 no_hooks] sample_machine_runs by (simp add: fits_def is_int32_def)
qed

section \<open>The caller's frame\<close>

text \<open>Handlers do not touch the saved registers; only locking the console changes the interrupt flag in the frame.\<close>

definition keeps_frames :: "machine \<Rightarrow> ('a \<times> machine) result \<Rightarrow> bool" where
  "keeps_frames m r \<longleftrightarrow> yields (\<lambda>(_, m'). tframes m' = tframes m) r"

named_theorems frame_rules \<open>routines that keep the trap frames\<close>

lemma keeps_frames_simps [simp]:
  "keeps_frames m (Inl e)" "keeps_frames m (Inr (x, m')) \<longleftrightarrow> tframes m' = tframes m"
  by (simp_all add: keeps_frames_def)

lemma tframes_set_vm [simp]: "tframes (set_vm v m) = tframes m"
  by (simp add: set_vm_def)

lemma keeps_frames_andThen [frame_rules]:
  assumes "keeps_frames m r" and "\<And>x m'. r = Inr (x, m') \<Longrightarrow> tframes m' = tframes m \<Longrightarrow> keeps_frames m (f (x, m'))"
  shows "keeps_frames m (andThen r f)"
  using assms by (cases r) (auto simp: keeps_frames_def)

lemma keeps_frames_pure: "(\<And>x. keeps_frames m (f x)) \<Longrightarrow> keeps_frames m (andThen r f)"
  by (cases r) auto

lemma keeps_frames_args [frame_rules]:
  "(\<And>x. keeps_frames m (f x)) \<Longrightarrow> keeps_frames m (andThen (get_cpu_proc m') f)"
  "(\<And>x. keeps_frames m (g x)) \<Longrightarrow> keeps_frames m (andThen (string_at p m') g)"
  by (simp_all add: keeps_frames_pure)

lemma keeps_frames_with [frame_rules]:
  "keeps_frames m (with_sched f m)" "keeps_frames m (with_shm g m)" "keeps_frames m (with_vm h m)" "keeps_frames m (reading k m)"
  by (auto simp: keeps_frames_def yields_def with_sched_def with_shm_def with_vm_def reading_def res_simps)

lemma kprint_frames: "kprint strs args fmt m = Inr m' \<Longrightarrow> tframes m' = tframes m"
  by (auto simp: kprint_def res_simps)

lemma keeps_frames_kprint [frame_rules]:
  "(\<And>m'. tframes m' = tframes m \<Longrightarrow> keeps_frames m (f m')) \<Longrightarrow> keeps_frames m (andThen (kprint strs args fmt m) f)"
  by (cases "kprint strs args fmt m") (auto dest: kprint_frames)

lemma keeps_frames_other: "tframes m' = tframes m \<Longrightarrow> keeps_frames m' r \<Longrightarrow> keeps_frames m r"
  by (simp add: keeps_frames_def)

lemma keeps_frames_exit [frame_rules]: "keeps_frames m (sys_exit_env m)"
  unfolding sys_exit_env_def by (rule keeps_frames_andThen [OF keeps_frames_with(1)]) simp

lemma keeps_frames_returning [frame_rules]: "keeps_frames m r \<Longrightarrow> keeps_frames m (returning r)"
  by (cases r) (auto simp: returning_def)

lemma keeps_frames_or_exit [frame_rules]: "keeps_frames m r \<Longrightarrow> keeps_frames m (or_exit m r)"
  by (auto simp: or_exit_def intro: frame_rules)

lemma keeps_frames_console [frame_rules]:
  "keeps_frames m (sys_cputs s len prog color m)" "keeps_frames m (sys_cputc c m)" "keeps_frames m (sys_cgetc m)"
proof -
  show "keeps_frames m (sys_cputs s len prog color m)"
    by (auto simp: keeps_frames_def yields_def sys_cputs_def Let_def res_simps dest!: kprint_frames split: if_splits)
qed (auto simp: keeps_frames_def yields_def sys_cputc_def unit_of_def sys_cgetc_def res_simps dest!: kprint_frames)

lemma keeps_frames_env_create:
  assumes "env_create name ws lru percent m = Inr (r, m')"
  shows "tframes m' = tframes m"
proof -
  obtain a s where "allocate_environment (msched m) = (a, s)" by (cases "allocate_environment (msched m)") auto
  then show ?thesis
    using assms by (auto simp: env_create_def res_simps dest!: kprint_frames split: option.splits)
qed

lemma with_sched_frames: "with_sched f m = Inr (x, m') \<Longrightarrow> tframes m' = tframes m"
  using keeps_frames_with(1) [of m f] by (simp add: keeps_frames_def yields_def)

lemma keeps_frames_destroy [frame_rules]: "keeps_frames m (sys_destroy_env i m)"
proof -
  have "keeps_frames m (case r of None \<Rightarrow> Inr (E_BAD_ENV, m) | Some None \<Rightarrow> Inl (Cpu_trap ''e->env_id'')
          | Some (Some e) \<Rightarrow> andThen (if e = c then kprint strs xs fmt m else kprint strs' (ys e) fmt' m) (with_sched (f e)))" for r c strs xs fmt strs' ys fmt' f
    by (auto simp: keeps_frames_def yields_def res_simps dest!: kprint_frames with_sched_frames split: option.splits)
  then show ?thesis unfolding sys_destroy_env_def Let_def by (intro keeps_frames_pure)
qed

lemma keeps_frames_envs [frame_rules]:
  "keeps_frames m (sys_getenvid m)" "keeps_frames m (sys_getenvindex m)" "keeps_frames m (sys_getparentenvid m)"
  "keeps_frames m (sys_create_env p ws lru percent m)" "keeps_frames m (sys_run_env i m)"
  "keeps_frames m (sys_env_set_priority i pr m)"
  by (auto simp: keeps_frames_def yields_def sys_getenvid_def sys_getenvindex_def sys_getparentenvid_def
      sys_create_env_def sys_run_env_def sys_env_set_priority_def res_simps
      dest!: with_sched_frames keeps_frames_env_create split: option.splits)

lemma keeps_frames_rest [frame_rules]:
  "keeps_frames m (sys_create_shared n sz w va m)" "keeps_frames m (sys_size_of_shared_object i n m)"
  "keeps_frames m (sys_get_shared_object i n va m)" "keeps_frames m (sys_delete_shared_object i va m)"
  "keeps_frames m (sys_get_virtual_time low hi m)" "keeps_frames m (sys_get_heap_strategy m)"
  "keeps_frames m (sys_set_uheap_strategy sz m)" "keeps_frames m (sys_bypassPageFault len m)"
  by (auto simp: sys_create_shared_def sys_size_of_shared_object_def sys_get_shared_object_def sys_delete_shared_object_def
      sys_get_virtual_time_def sys_get_heap_strategy_def sys_set_uheap_strategy_def set_heap_def sys_bypassPageFault_def
      intro!: frame_rules)

lemma keeps_frames_tests [frame_rules]:
  "keeps_frames m (unit_of rsttst m)" "keeps_frames m (unit_of inctst m)" "keeps_frames m (unit_of (chktst n) m)"
  "keeps_frames m (unit_of (tst n v1 v2 c i) m)"
  by (auto simp: keeps_frames_def yields_def unit_of_def rsttst_def inctst_def chktst_def tst_def with_tstlock_def Let_def res_simps
      dest!: kprint_frames split: if_splits)

definition is_hook :: "user_call \<Rightarrow> bool" where
  "is_hook u \<longleftrightarrow>
     (case u of
        U_calculate_pages_tobe_removed_ready_exit _ \<Rightarrow> True | U_scarce_memory \<Rightarrow> True | U_check_LRU_lists _ _ _ _ \<Rightarrow> True
      | U_check_LRU_lists_free _ _ \<Rightarrow> True | U_check_WS_list _ _ _ _ \<Rightarrow> True | U_utilities _ _ \<Rightarrow> True | _ \<Rightarrow> False)"

lemma serve_keeps_frames:
  "\<not> is_hook u \<Longrightarrow> u \<noteq> U_lock_cons \<Longrightarrow> u \<noteq> U_unlock_cons \<Longrightarrow> keeps_frames m (serve hook u m)"
  by (cases u) (auto simp: serve_def is_hook_def intro!: frame_rules)

lemma serve_lock_frames:
  assumes "cpu_proc (msched m) = Some e"
  shows "serve hook U_lock_cons m = Inr (r, m') \<Longrightarrow> tframes m' = tframes (set_tf (env_tf m e) (\<lambda>t. t\<lparr>tf_IF := False\<rparr>) m)"
    and "serve hook U_unlock_cons m = Inr (r, m') \<Longrightarrow> tframes m' = tframes (set_tf (env_tf m e) (\<lambda>t. t\<lparr>tf_IF := True\<rparr>) m)"
  using assms by (auto simp: serve_def returning_def cons_lock_def cons_unlock_def cons_set_IF_def kclock_stop_def Let_def set_tf_def res_simps)

text \<open>The interrupt flag a call leaves in the caller's frame.\<close>

definition flag_after :: "user_call \<Rightarrow> bool \<Rightarrow> bool" where
  "flag_after u b = (u = U_unlock_cons \<or> u \<noteq> U_lock_cons \<and> b)"

text \<open>
  C5. A system call that returns changes no register of its caller but the one for the result, no saved frame of another process,
  and leaves the clock running; interrupts stay as they were in the caller, but for locking the console, which disables them
  until the console is unlocked. The six calls that run a hook of the tests are left out, since the hook may do anything.
\<close>

theorem system_call_keeps_registers:
  assumes "fits u" and "\<not> is_hook u" and "cpu_proc (msched m) = Some e" and "env_status (envs (msched m) e) = ENV_RUNNING"
    and "user_syscall hook u m = Inr (Some ret, m')"
  shows "tframes m' = (tframes m)(env_tf m e :=
             (int_frame (stub u) (interrupts m) (tframes m (env_tf m e)))\<lparr>tf_IF := flag_after u (interrupts m), reg_eax := ret\<rparr>) \<and>
         interrupts m' = flag_after u (interrupts m) \<and> clock_runs m'"
proof -
  let ?tf = "env_tf m e" and ?m = "call_entered u (env_tf m e) m"
  obtain m1 where s: "serve hook u ?m = Inr (Some ret, m1)" and m': "m' = call_left ?tf ret m1"
    using assms(5) unfolding user_syscall_eq [OF assms(1,3,4)] by (auto simp: res_simps split: option.splits)
  have c: "cpu_proc (msched ?m) = Some e" "env_tf ?m e = ?tf"
    "tframes ?m = (tframes m)(?tf := int_frame (stub u) (interrupts m) (tframes m ?tf))"
    using assms(3) by (simp_all add: call_entered_def set_tf_def)
  have "tframes m1 = tframes (set_tf ?tf (\<lambda>t. t\<lparr>tf_IF := flag_after u (tf_IF t)\<rparr>) ?m)"
  proof (cases "u = U_lock_cons \<or> u = U_unlock_cons")
    case True
    then show ?thesis using serve_lock_frames [OF c(1), of hook "Some ret" m1] s c(2) by (auto simp: flag_after_def)
  next
    case False
    then have "tframes m1 = tframes ?m" using serve_keeps_frames [OF assms(2), of ?m hook] s by simp
    then show ?thesis using False by (simp add: flag_after_def set_tf_def)
  qed
  moreover have "tf_IF (int_frame (stub u) b t) = b" for b t by (cases "stub u") (auto simp: int_frame_def)
  ultimately show ?thesis by (simp add: m' call_left_def set_tf_def c(3))
qed


theorem system_call_keeps_registers_witness:
  "\<exists>m'. user_syscall no_hooks U_lock_cons sample_machine = Inr (Some 0, m') \<and> \<not> interrupts m' \<and> clock_runs m' \<and>
     reg_edx (tframes m' (env_tf sample_machine 3)) = 0 \<and> trapframe.tf_eip (tframes m' (env_tf sample_machine 3)) = 0x800020"
proof -
  have f: "fits U_lock_cons" "\<not> is_hook U_lock_cons" by (simp_all add: fits_def is_hook_def)
  let ?m = "call_entered U_lock_cons (env_tf sample_machine 3) sample_machine"
  have "\<exists>m1. serve no_hooks U_lock_cons ?m = Inr (Some 0, m1)"
    by (simp add: serve_def returning_def cons_lock_def cons_set_IF_def kclock_stop_def Let_def call_entered_def set_tf_def
        sample_machine_def sample_running_def sample_sched_def upd_env_def uint32_def)
  then obtain m' where m': "user_syscall no_hooks U_lock_cons sample_machine = Inr (Some 0, m')"
    using user_syscall_eq [OF f(1) sample_machine_runs, of no_hooks] by auto
  have t: "tframes sample_machine = (\<lambda>_. sample_frame)" by (simp add: sample_machine_def)
  from system_call_keeps_registers [OF f sample_machine_runs m'] m' show ?thesis
    by (auto simp: flag_after_def t stub_def int_frame_def sample_frame_def)
qed

end
