(* ===== verification/User_Access.thy ===== *)
theory User_Access
  imports Replacement User_Memory
begin

text \<open>
  What a user program may touch of its heap: the pages marked by \<^verbatim>\<open>sys_allocate_user_mem\<close>
  (\<^verbatim>\<open>src/kern/mem/chunk_operations.c\<close>), and the check of the fault handler (\<^verbatim>\<open>src/kern/trap/fault_handler.c\<close>) that
  ends a program which touches another one.
\<close>

unbundle bit_operations_syntax

abbreviation heap_address :: "nat \<Rightarrow> bool" where
  "heap_address a \<equiv> USER_HEAP_START \<le> a \<and> a < USER_HEAP_MAX"

text \<open>
  The state a process runs in: the invariant of the kernel heap, a directory of its own, and for each entry of the directory that the
  heap uses either nothing or a page table, which is a page of the kernel heap and belongs to this entry alone. Tables are made
  when they are first needed, by \<^verbatim>\<open>allocate_user_mem\<close> or by a fault.
\<close>

definition upde :: "vm \<Rightarrow> nat \<Rightarrow> u32" where
  "upde v a = directories (km v) (upgdir v) (PDX a)"

definition is_table_of :: "vm \<Rightarrow> nat \<Rightarrow> nat \<Rightarrow> bool" where
  "is_table_of v T a \<longleftrightarrow> run_page (km v) T \<and> upde v a AND PERM_PRESENT = PERM_PRESENT \<and> EXTRACT_ADDRESS (upde v a) = kframe (km v) T * 4096"

definition tables_apart :: "vm \<Rightarrow> bool" where
  "tables_apart v \<longleftrightarrow> (\<forall>a b T. heap_address a \<longrightarrow> heap_address b \<longrightarrow> is_table_of v T a \<longrightarrow> is_table_of v T b \<longrightarrow> PDX a = PDX b)"

definition user_tables :: "vm \<Rightarrow> bool" where
  "user_tables v \<longleftrightarrow> heap_inv (km v) \<and> \<not> kheap_lock (km v) \<and> tables_low (km v) \<and> upgdir v \<noteq> ptr_page_directory (km v) \<and>
     (\<forall>a. heap_address a \<longrightarrow> upde v a = 0 \<or> (\<exists>T. is_table_of v T a)) \<and> tables_apart v"

text \<open>The program may touch the page: there is a table, and the checks of the fault handler pass.\<close>

definition heap_access :: "vm \<Rightarrow> nat \<Rightarrow> bool" where
  "heap_access v a \<longleftrightarrow> has_table v a \<and> check_user_pointer a v = Inr ()"

section \<open>Tables of the heap\<close>

lemma heap_not_kernel: "heap_address a \<Longrightarrow> \<not> CHECK_IF_KERNEL_ADDRESS a"
  by (simp add: CHECK_IF_KERNEL_ADDRESS_def)

lemma run_page_inj:
  assumes "heap_inv k" "\<not> kheap_lock k" "run_page k T" "run_page k U" "kframe k T * 4096 = kframe k U * 4096"
  shows "T = U"
  using run_page_translate(1) [OF assms(1-3)] run_page_translate(1) [OF assms(1,2,4)] assms(5) by (metis Inr_inject)

lemma table_unique:
  assumes "heap_inv (km v)" "\<not> kheap_lock (km v)" "is_table_of v T a" "is_table_of v U a"
  shows "T = U"
proof (rule run_page_inj [OF assms(1,2)])
  show "run_page (km v) T" "run_page (km v) U" using assms(3,4) by (simp_all add: is_table_of_def)
  show "kframe (km v) T * 4096 = kframe (km v) U * 4096" using assms(3,4) unfolding is_table_of_def by metis
qed

lemma table_walk:
  assumes "user_tables v" "heap_address a" "is_table_of v T a"
  shows "has_table v a" "utable v a = T"
proof -
  have k: "heap_inv (km v)" "\<not> kheap_lock (km v)" "run_page (km v) T" using assms(1,3) by (simp_all add: user_tables_def is_table_of_def)
  have "get_page_table (upgdir v) a (km v) = Inr (TABLE_IN_MEMORY, T)"
    using assms(3) run_page_translate(1) [OF k] heap_not_kernel [OF assms(2)] by (simp add: is_table_of_def upde_def get_page_table_def Let_def)
  moreover have "T \<noteq> 0" using run_page_translate(3) [OF k] by auto
  ultimately show "has_table v a" "utable v a = T" by (simp_all add: has_table_def utable_def)
qed

lemma no_table:
  assumes "upde v a = 0"
  shows "get_page_table (upgdir v) a (km v) = Inr (TABLE_NOT_EXIST, 0)" "\<not> has_table v a"
  using assms by (simp_all add: upde_def get_page_table_def has_table_def utable_def)

lemma has_table_iff: "user_tables v \<Longrightarrow> heap_address a \<Longrightarrow> has_table v a \<longleftrightarrow> (\<exists>T. is_table_of v T a)"
  using table_walk(1) no_table(2) by (meson user_tables_def)

lemma has_table_is: "user_tables v \<Longrightarrow> heap_address a \<Longrightarrow> has_table v a \<Longrightarrow> is_table_of v (utable v a) a"
  using has_table_iff table_walk(2) by blast

lemma absent_iff: "user_tables v \<Longrightarrow> heap_address a \<Longrightarrow> \<not> has_table v a \<longleftrightarrow> upde v a = 0"
  using has_table_iff [of v a] no_table(2) [of v a] by (auto simp: user_tables_def)

text \<open>Writing an entry of such a table.\<close>

lemma set_pte_user:
  assumes "user_tables v" "heap_address a" "has_table v a"
  shows "user_tables (set_pte a e v)"
proof -
  let ?T = "utable v a" and ?k = "km v"
  let ?t = "(tables ?k)(?T := (tables ?k ?T)(PTX a := e))"
  have i: "heap_inv ?k" "\<not> kheap_lock ?k" "tables_low ?k" and T: "run_page ?k ?T"
    using assms(1) has_table_is [OF assms] by (simp_all add: user_tables_def is_table_of_def)
  have "?t (ktable ?k va) = tables ?k (ktable ?k va)" if "KERNEL_HEAP_START \<le> va" "va < KERNEL_HEAP_MAX" for va
    using i(3) run_page_translate(3) [OF i(1,2) T] that by (auto simp: tables_low_def)
  note H = heap_inv_tables [of "directories ?k" ?k ?t, OF _ this, simplified kpde_def, simplified]
  have k: "km (set_pte a e v) = ?k\<lparr>tables := ?t\<rparr>" by (simp add: set_pte_def set_entry_def)
  have "run_page (?k\<lparr>tables := ?t\<rparr>) U = run_page ?k U" for U using H(2) by (auto simp: run_page_def)
  moreover have "run_page ?k U \<Longrightarrow> kframe (?k\<lparr>tables := ?t\<rparr>) U = kframe ?k U" for U using H(3) by (simp add: run_page_def)
  moreover have "upde (set_pte a e v) = upde v" by (simp add: upde_def k fun_eq_iff)
  ultimately have t: "is_table_of (set_pte a e v) U b = is_table_of v U b" for U b by (auto simp: is_table_of_def k)
  have "tables_low (km (set_pte a e v))" using i(3) by (simp add: k tables_low_def ktable_def kpde_def)
  moreover have "heap_inv (km (set_pte a e v))" using H(1) i(1) by (simp add: k)
  moreover have "tables_apart (set_pte a e v) = tables_apart v" unfolding tables_apart_def t ..
  ultimately show ?thesis using assms(1) t \<open>upde (set_pte a e v) = upde v\<close> by (simp add: user_tables_def k)
qed

text \<open>A new table is empty, belongs to its entry only and leaves the others as they are.\<close>

definition table_added :: "nat \<Rightarrow> vm \<Rightarrow> vm \<Rightarrow> bool" where
  "table_added a v v' \<longleftrightarrow> user_tables v' \<and> has_table v' a \<and> up v' = up v \<and>
     (\<forall>b. heap_address b \<longrightarrow> has_table v b \<longrightarrow> has_table v' b \<and> upte v' b = upte v b) \<and>
     (\<forall>b. heap_address b \<longrightarrow> \<not> has_table v b \<longrightarrow> has_table v' b \<longrightarrow> upte v' b = 0)"

lemma create_user_table:
  assumes "user_tables v" "heap_address a" "\<not> has_table v a"
  shows "case create_page_table (upgdir v) a (km v) of
      Inl e \<Rightarrow> table_failure e \<and> (length (free_frame_list (km v)) \<le> 1 \<or> freePagesList (da (km v)) = [] \<or> no_room 4096 (km v))
    | Inr (t, k) \<Rightarrow> table_added a v (v\<lparr>km := k\<rparr>) \<and> utable (v\<lparr>km := k\<rparr>) a = t \<and> t \<noteq> 0"
proof -
  let ?k = "km v"
  have i: "heap_inv ?k" "\<not> kheap_lock ?k" "tables_low ?k" "upgdir v \<noteq> ptr_page_directory ?k" using assms(1) by (simp_all add: user_tables_def)
  note C = create_page_table_ok [OF i, of a]
  show ?thesis
  proof (cases "create_page_table (upgdir v) a ?k")
    case (Inl e)
    then show ?thesis using C by simp
  next
    case (Inr x)
    obtain t k where x: "x = (t, k)" by (cases x)
    let ?v = "v\<lparr>km := k\<rparr>"
    obtain e where k: "heap_inv k" "\<not> kheap_lock k" "tables_low k" "ptr_page_directory k = ptr_page_directory ?k" "run_page k t"
        "\<forall>i. tables k t i = 0" "directories k = (directories ?k)(upgdir v := (directories ?k (upgdir v))(PDX a := e))"
        "e AND PERM_PRESENT = PERM_PRESENT" "EXTRACT_ADDRESS e = kframe k t * 4096"
        "\<And>T. run_page ?k T \<Longrightarrow> T \<noteq> t \<and> run_page k T \<and> kframe k T = kframe ?k T \<and> tables k T = tables ?k T"
      using C Inr x by auto
    have d: "upde ?v b = (if PDX b = PDX a then e else upde v b)" for b using k(7) by (simp add: upde_def)
    have none: "upde v b = 0" if "PDX b = PDX a" for b
      using absent_iff [OF assms(1,2)] assms(3) that by (simp add: upde_def)
    have new: "is_table_of ?v t b" if "PDX b = PDX a" for b using that k(5,8,9) by (simp add: is_table_of_def d)
    have old: "is_table_of ?v T b" if "is_table_of v T b" for T b
      using that k(10) none by (auto simp: is_table_of_def d)
    have inv: "PDX b = PDX a \<and> T = t \<or> is_table_of v T b" if b: "heap_address b" "is_table_of ?v T b" for T b
    proof (cases "PDX b = PDX a")
      case True
      then show ?thesis using table_unique [OF _ _ b(2) new [OF True]] k(1,2) by simp
    next
      case False
      then have "upde v b \<noteq> 0" using b(2) by (auto simp: is_table_of_def d)
      then obtain T' where "is_table_of v T' b" using assms(1) b(1) by (auto simp: user_tables_def)
      moreover from old [OF this] have "T' = T" using table_unique [OF _ _ _ b(2)] k(1,2) by simp
      ultimately show ?thesis by simp
    qed
    have t: "T \<noteq> t" if "is_table_of v T b" for T b using that k(10) by (auto simp: is_table_of_def)
    have U: "user_tables ?v"
    proof -
      have "upde ?v b = 0 \<or> (\<exists>T. is_table_of ?v T b)" if "heap_address b" for b
      proof (cases "PDX b = PDX a")
        case True
        then show ?thesis using new by blast
      next
        case False
        then have "upde ?v b = upde v b" by (simp add: d)
        moreover have "upde v b = 0 \<or> (\<exists>T. is_table_of v T b)" using assms(1) that by (simp add: user_tables_def)
        ultimately show ?thesis using old by metis
      qed
      moreover have "PDX b = PDX c" if "heap_address b" "heap_address c" "is_table_of ?v T b" "is_table_of ?v T c" for b c T
        using inv [OF that(1,3)] inv [OF that(2,4)] t assms(1) that(1,2) unfolding user_tables_def tables_apart_def by metis
      then have "tables_apart ?v" unfolding tables_apart_def by blast
      ultimately show ?thesis using k(1-4) i(4) by (simp add: user_tables_def)
    qed
    have "has_table ?v b \<and> upte ?v b = upte v b" if "heap_address b" "has_table v b" for b
    proof -
      note T = has_table_is [OF assms(1) that]
      from table_walk [OF U that(1) old [OF T]] show ?thesis using k(10) T by (simp add: upte_def is_table_of_def)
    qed
    moreover have "upte ?v b = 0" if "heap_address b" "\<not> has_table v b" "has_table ?v b" for b
      using inv [OF that(1) has_table_is [OF U that(1,3)]] has_table_iff [OF assms(1) that(1)] that(2) k(6) by (auto simp: upte_def)
    moreover have "has_table ?v a" "utable ?v a = t" using table_walk [OF U assms(2) new] by simp_all
    moreover have "t \<noteq> 0" using run_page_translate(3) [OF k(1,2,5)] by auto
    ultimately show ?thesis using U Inr x by (simp add: table_added_def)
  qed
qed

section \<open>Marking\<close>

lemma same_page_index: "PDX a = PDX b \<Longrightarrow> PTX a = PTX b \<Longrightarrow> a < U32 \<Longrightarrow> b < U32 \<Longrightarrow> ROUNDDOWN a 4096 = ROUNDDOWN b 4096"
proof -
  assume "PDX a = PDX b" "PTX a = PTX b" "a < U32" "b < U32"
  then have "a div 4096 div 1024 = b div 4096 div 1024" "a div 4096 mod 1024 = b div 4096 mod 1024"
    by (simp_all add: PDX_def PTX_def flip: div_mult2_eq)
  then have "a div 4096 = b div 4096" by (metis div_mult_mod_eq)
  then show ?thesis by (simp add: ROUNDDOWN_def minus_mod_eq_mult_div)
qed

lemma upte_marked:
  assumes "user_tables v" "heap_address cur" "heap_address a" "cur mod 4096 = 0" "has_table v cur" "has_table v a"
  shows "upte (set_pte cur PERM_UHPAGE v) a = (if ROUNDDOWN a 4096 = cur then PERM_UHPAGE else upte v a)"
proof -
  have r: "ROUNDDOWN cur 4096 = cur" using assms(4) by (rule ROUNDDOWN_id)
  have "utable v a = utable v cur \<and> PTX a = PTX cur \<longleftrightarrow> ROUNDDOWN a 4096 = cur"
  proof
    assume "utable v a = utable v cur \<and> PTX a = PTX cur"
    moreover have "PDX a = PDX cur"
      using calculation has_table_is [OF assms(1,3,6)] has_table_is [OF assms(1,2,5)] assms(1-3) unfolding user_tables_def tables_apart_def by metis
    ultimately show "ROUNDDOWN a 4096 = cur" using same_page_index [of a cur] assms(2,3) r by simp
  next
    assume "ROUNDDOWN a 4096 = cur"
    then have "a div 4096 = cur div 4096" using r by (simp add: ROUNDDOWN_def minus_mod_eq_mult_div)
    then have "PDX a = PDX cur" "PTX a = PTX cur" by (simp_all add: PDX_def PTX_def div_mult2_eq [of _ 4096 1024, simplified])
    then show "utable v a = utable v cur \<and> PTX a = PTX cur"
      using assms(2,3) by (simp add: utable_def get_page_table_def CHECK_IF_KERNEL_ADDRESS_def Let_def)
  qed
  then show ?thesis by simp
qed

lemma same_entry_table:
  "heap_address a \<Longrightarrow> heap_address b \<Longrightarrow> PDX a = PDX b \<Longrightarrow> has_table v a = has_table v b"
  by (simp add: has_table_def utable_def get_page_table_def CHECK_IF_KERNEL_ADDRESS_def Let_def)

lemma same_page_table:
  assumes "heap_address a" "heap_address cur" "ROUNDDOWN a 4096 = cur"
  shows "has_table v a = has_table v cur"
proof -
  have "a div 4096 = cur div 4096" using assms(3) by (auto simp: ROUNDDOWN_def minus_mod_eq_mult_div)
  then show ?thesis using same_entry_table [OF assms(1,2)] by (simp add: PDX_def div_mult2_eq [of _ 4096 1024, simplified])
qed

text \<open>The pages that a loop from \<open>cur\<close> to \<open>end_va\<close> goes through.\<close>

definition covered :: "nat \<Rightarrow> nat \<Rightarrow> nat \<Rightarrow> bool" where
  "covered cur end_va a \<longleftrightarrow> cur \<le> ROUNDDOWN a 4096 \<and> ROUNDDOWN a 4096 < end_va"

lemma check_heap_pointer:
  assumes "heap_address a" "has_table v a"
  shows "check_user_pointer a v =
    (if upte v a AND PERM_UHPAGE = 0 \<or> upte v a AND PERM_PRESENT \<noteq> 0 \<and> upte v a AND PERM_WRITEABLE = 0 then Inl Env_exit else Inr ())"
proof -
  have "a < USTACKTOP" using assms(1) by simp
  then show ?thesis
    using assms by (simp add: check_user_pointer_def get_permissions and.assoc)
qed

lemma heap_access_iff:
  "heap_address a \<Longrightarrow> heap_access v a \<longleftrightarrow>
     has_table v a \<and> upte v a AND PERM_UHPAGE \<noteq> 0 \<and> (upte v a AND PERM_PRESENT = 0 \<or> upte v a AND PERM_WRITEABLE \<noteq> 0)"
  by (auto simp: heap_access_def check_heap_pointer)

lemma table_added_access: "table_added a v v' \<Longrightarrow> heap_address b \<Longrightarrow> heap_access v' b = heap_access v b"
  by (cases "has_table v b"; cases "has_table v' b") (auto simp: table_added_def heap_access_iff)

definition marked_more :: "(nat \<Rightarrow> bool) \<Rightarrow> vm \<Rightarrow> vm \<Rightarrow> bool" where
  "marked_more Q v v' \<longleftrightarrow> user_tables v' \<and> up v' = up v \<and> (\<forall>a. heap_address a \<longrightarrow> has_table v a \<longrightarrow> has_table v' a) \<and>
     (\<forall>a. heap_address a \<longrightarrow> heap_access v' a = (Q a \<or> heap_access v a))"

lemma mark_table:
  assumes "user_tables v" "heap_address cur" "cur mod 4096 = 0" "has_table v cur"
  shows "marked_more (\<lambda>a. ROUNDDOWN a 4096 = cur) v (set_pte cur PERM_UHPAGE v)"
proof -
  have "heap_access (set_pte cur PERM_UHPAGE v) a = (ROUNDDOWN a 4096 = cur \<or> heap_access v a)" if "heap_address a" for a
  proof (cases "has_table v a")
    case True
    then show ?thesis using upte_marked [OF assms(1,2) that assms(3,4)] by (simp add: heap_access_iff [OF that])
  next
    case False
    then have "ROUNDDOWN a 4096 \<noteq> cur" using same_page_table [OF that assms(2), of v] assms(4) by blast
    then show ?thesis using False by (simp add: heap_access_iff [OF that])
  qed
  then show ?thesis using set_pte_user [OF assms(1,2,4)] by (simp add: marked_more_def)
qed

lemma mark_page_user:
  assumes "user_tables v" "heap_address cur" "cur mod 4096 = 0"
  shows "case mark_page cur v of
      Inl e \<Rightarrow> table_failure e \<and> \<not> has_table v cur \<and>
        (length (free_frame_list (km v)) \<le> 1 \<or> freePagesList (da (km v)) = [] \<or> no_room 4096 (km v))
    | Inr v' \<Rightarrow> marked_more (\<lambda>a. ROUNDDOWN a 4096 = cur) v v' \<and> has_table v' cur"
proof (cases "has_table v cur")
  case True
  then have "mark_page cur v = Inr (set_pte cur PERM_UHPAGE v)" by (simp add: has_table_def mark_page_def set_pte_def)
  then show ?thesis using mark_table [OF assms True] True by simp
next
  case False
  have "get_page_table (upgdir v) cur (km v) = Inr (TABLE_NOT_EXIST, 0)"
    using False absent_iff [OF assms(1,2)] no_table(1) by blast
  then have m: "mark_page cur v = andThen (create_page_table (upgdir v) cur (km v)) (\<lambda>(t, k). Inr (v\<lparr>km := set_entry t (PTX cur) PERM_UHPAGE k\<rparr>))"
    by (simp add: mark_page_def)
  note C = create_user_table [OF assms(1,2) False]
  show ?thesis
  proof (cases "create_page_table (upgdir v) cur (km v)")
    case (Inl e)
    then show ?thesis using m C False by simp
  next
    case (Inr x)
    obtain t k where x: "x = (t, k)" by (cases x)
    let ?v = "v\<lparr>km := k\<rparr>"
    have a: "table_added cur v ?v" "utable ?v cur = t" using C Inr x by simp_all
    then have u: "user_tables ?v" "has_table ?v cur" by (simp_all add: table_added_def)
    have "mark_page cur v = Inr (set_pte cur PERM_UHPAGE ?v)" using m Inr x a(2) by (simp add: set_pte_def)
    then show ?thesis
      using mark_table [OF u(1) assms(2,3) u(2)] a(1) u(2) table_added_access [OF a(1)] by (simp add: marked_more_def table_added_def)
  qed
qed

lemma mark_loop_user:
  assumes "user_tables v" "cur mod 4096 = 0" "end_va mod 4096 = 0" "USER_HEAP_START \<le> cur" "end_va \<le> USER_HEAP_MAX"
    "end_va \<le> cur + n * 4096"
  shows "case mark_loop n cur end_va v of
      Inl e \<Rightarrow> table_failure e \<and> (\<exists>a. heap_address a \<and> covered cur end_va a \<and> \<not> has_table v a)
    | Inr v' \<Rightarrow> marked_more (covered cur end_va) v v'"
  using assms
proof (induction n arbitrary: cur v)
  case 0
  then have "\<not> cur < end_va" by simp
  then show ?case using 0 by (auto simp: mark_loop.simps covered_def marked_more_def)
next
  case (Suc n)
  show ?case
  proof (cases "cur < end_va")
    case True
    have h: "heap_address cur" using True Suc.prems by simp
    have s: "add32 cur 4096 = cur + 4096" using h by (simp add: u32_simps)
    have c: "covered cur end_va a \<longleftrightarrow> covered (cur + 4096) end_va a \<or> ROUNDDOWN a 4096 = cur" for a
    proof -
      have "cur \<le> ROUNDDOWN a 4096 \<longleftrightarrow> cur + 4096 \<le> ROUNDDOWN a 4096 \<or> ROUNDDOWN a 4096 = cur"
        using Suc.prems(2) ROUNDDOWN_dvd [of 4096 a] by (auto simp: mod_eq_0_iff_dvd elim!: dvdE)
      then show ?thesis using True by (auto simp: covered_def)
    qed
    have cc: "covered cur end_va cur" using True ROUNDDOWN_id [OF Suc.prems(2)] by (simp add: covered_def)
    note M = mark_page_user [OF Suc.prems(1) h Suc.prems(2)]
    have l: "mark_loop (Suc n) cur end_va v = andThen (mark_page cur v) (mark_loop n (cur + 4096) end_va)"
      using True by (subst mark_loop.simps) (simp add: s)
    show ?thesis
    proof (cases "mark_page cur v")
      case (Inl e)
      then show ?thesis using M l h cc by auto
    next
      case (Inr v1)
      then have m1: "marked_more (\<lambda>a. ROUNDDOWN a 4096 = cur) v v1" using M by simp
      then have u1: "user_tables v1" by (simp add: marked_more_def)
      have I: "case mark_loop n (cur + 4096) end_va v1 of
          Inl e \<Rightarrow> table_failure e \<and> (\<exists>a. heap_address a \<and> covered (cur + 4096) end_va a \<and> \<not> has_table v1 a)
        | Inr v' \<Rightarrow> marked_more (covered (cur + 4096) end_va) v1 v'"
        using Suc.IH [OF u1, of "cur + 4096"] Suc.prems by simp
      show ?thesis
      proof (cases "mark_loop n (cur + 4096) end_va v1")
        case i: (Inl e)
        then show ?thesis using I l Inr m1 c by (auto simp: marked_more_def)
      next
        case i: (Inr v')
        then show ?thesis using I l Inr m1 c by (auto simp: marked_more_def)
      qed
    qed
  next
    case False
    then show ?thesis using Suc.prems by (subst mark_loop.simps) (auto simp: covered_def marked_more_def)
  qed
qed

lemma allocate_user_mem_user:
  assumes "user_tables v" "\<not> illegal_range va sz"
  shows "case sys_allocate_user_mem va sz v of
      Inl e \<Rightarrow> table_failure e \<and> (\<exists>a. heap_address a \<and> covered (ROUNDDOWN va 4096) (ROUNDUP (add32 va sz) 4096) a \<and> \<not> has_table v a)
    | Inr v' \<Rightarrow> marked_more (covered (ROUNDDOWN va 4096) (ROUNDUP (add32 va sz) 4096)) v v'"
proof -
  let ?s = "add32 va sz" and ?cur = "ROUNDDOWN va 4096" and ?stop = "ROUNDUP (add32 va sz) 4096"
  have r: "USER_HEAP_START \<le> va" "?s < USER_HEAP_MAX" using assms(2) by (auto simp: illegal_range_def)
  note e = ROUNDUP_page [of ?s]
  have e: "?stop < ?s + 4096" "?stop mod 4096 = 0" using e r by simp_all
  have c: "va < ?cur + 4096" "?cur mod 4096 = 0" using ROUNDDOWN_gt [of 4096 va] by simp_all
  have "?s \<le> va + sz" by (simp add: add32_def)
  then have "?stop < ?cur + sz + 8192" using e(1) c(1) by linarith
  moreover obtain x y where xy: "?stop = 4096 * x" "?cur = 4096 * y" using e(2) c(2) by (metis mod_0_imp_dvd dvdE)
  moreover have "sz < 4096 * (sz div 4096) + 4096" using div_mult_mod_eq [of sz 4096] mod_less_divisor [of 4096 sz] by linarith
  ultimately have "x < y + sz div 4096 + 3" by linarith
  then have "?stop \<le> ?cur + page_count va sz * 4096" by (simp add: page_count_def xy)
  moreover have "USER_HEAP_START \<le> ?cur" using xy c(1) r(1) by simp
  moreover have "?stop \<le> USER_HEAP_MAX" using xy e(1) r(2) by simp
  ultimately show ?thesis
    using mark_loop_user [OF assms(1) c(2) e(2)] assms(2) by (simp add: sys_allocate_user_mem_def allocate_user_mem_def)
qed

section \<open>Faults in the heap\<close>

lemma upde_present: "user_tables v \<Longrightarrow> heap_address a \<Longrightarrow> has_table v a \<longleftrightarrow> upde v a AND PERM_PRESENT = PERM_PRESENT"
  using has_table_is [of v a] absent_iff [of v a] by (cases "has_table v a") (auto simp: is_table_of_def)

lemma user_tables_counter:
  "user_tables (upd_up (\<lambda>u. u\<lparr>tableFaultsCounter := n u\<rparr>) v) = user_tables v"
  "has_table (upd_up (\<lambda>u. u\<lparr>tableFaultsCounter := n u\<rparr>) v) = has_table v"
  "heap_access (upd_up (\<lambda>u. u\<lparr>tableFaultsCounter := n u\<rparr>) v) = heap_access v"
  by (simp_all add: user_tables_def tables_apart_def upd_up_def upde_def is_table_of_def has_table_def utable_def heap_access_def check_user_pointer_def fun_eq_iff)

lemma user_heap_fault:
  assumes "user_tables v" "tf_cs tf mod 4 = 3" "cur_env tf \<noteq> 0" "repeated_fault tf fs = Inr fs'" "heap_address (fault_address tf)"
    "\<not> heap_access v (fault_address tf)"
  shows "if has_table v (fault_address tf) then fault_handler tf fs v = Inl Env_exit
    else case fault_handler tf fs v of
        Inl e \<Rightarrow> table_failure e
      | Inr (fs2, v') \<Rightarrow> fs2 = fs' \<and> user_tables v' \<and> has_table v' (fault_address tf) \<and>
          (\<forall>a. heap_address a \<longrightarrow> heap_access v' a = heap_access v a)"
proof -
  let ?a = "fault_address tf"
  have st: "stack_checks True tf = Inr ()" using assms(5) by (simp add: stack_checks_def)
  note p = upde_present [OF assms(1,5), unfolded upde_def]
  show ?thesis
  proof (cases "has_table v ?a")
    case True
    then have "check_user_pointer ?a v = Inl Env_exit" using assms(6) check_heap_pointer [OF assms(5) True] by (simp add: heap_access_def split: if_splits)
    then show ?thesis using True p st assms(2-4) by (simp add: fault_handler_def)
  next
    case False
    let ?u = "upd_up (\<lambda>u. u\<lparr>tableFaultsCounter := add32 (tableFaultsCounter u) 1\<rparr>) v"
    have u: "user_tables ?u" "\<not> has_table ?u ?a" using assms(1) False by (simp_all add: user_tables_counter)
    note C = create_user_table [OF u(1) assms(5) u(2)]
    have f: "fault_handler tf fs v = andThen (create_page_table (upgdir ?u) ?a (km ?u)) (\<lambda>(t, k). Inr (fs', ?u\<lparr>km := k\<rparr>))"
      using False p st assms(2-4)
      by (cases "create_page_table (upgdir ?u) ?a (km ?u)") (auto simp: fault_handler_def table_fault_handler_def in_mem_def)
    show ?thesis
    proof (cases "create_page_table (upgdir ?u) ?a (km ?u)")
      case (Inl e)
      then show ?thesis using False C f by simp
    next
      case (Inr x)
      obtain t k where x: "x = (t, k)" by (cases x)
      have a: "table_added ?a ?u (?u\<lparr>km := k\<rparr>)" using C Inr x by simp
      then show ?thesis
        using False f Inr x table_added_access [OF a] user_tables_counter(3) [of _ v] by (simp add: table_added_def)
    qed
  qed
qed

text \<open>
  C15. A program reaches exactly the pages of its heap that the kernel has marked for it, whether or not the page tables of
  the heap exist already. A fault of the program in a page of the heap that it may not touch ends the program if the page has
  a page table; if it has none, an empty table is made for it and nothing becomes accessible, so that the repeated access ends the
  program. \<^verbatim>\<open>sys_allocate_user_mem\<close> of a range outside the heap ends the program; of any other range it makes the tables that are
  missing, and then exactly the pages that meet the range and those that were accessible before are accessible. It fails only when
  the kernel has no memory for a table that is missing. The state keeps its invariant.
\<close>

theorem user_heap_protection:
  assumes "user_tables v"
  shows "(\<forall>tf fs fs'. tf_cs tf mod 4 = 3 \<longrightarrow> cur_env tf \<noteq> 0 \<longrightarrow> repeated_fault tf fs = Inr fs' \<longrightarrow> heap_address (fault_address tf) \<longrightarrow>
            \<not> heap_access v (fault_address tf) \<longrightarrow>
            (if has_table v (fault_address tf) then fault_handler tf fs v = Inl Env_exit
             else case fault_handler tf fs v of
                 Inl e \<Rightarrow> table_failure e
               | Inr (fs2, v') \<Rightarrow> fs2 = fs' \<and> user_tables v' \<and> has_table v' (fault_address tf) \<and>
                   (\<forall>a. heap_address a \<longrightarrow> heap_access v' a = heap_access v a))) \<and>
         (if illegal_range va sz then sys_allocate_user_mem va sz v = Inl Env_exit
          else case sys_allocate_user_mem va sz v of
              Inl e \<Rightarrow> table_failure e \<and>
                (\<exists>a. heap_address a \<and> covered (ROUNDDOWN va 4096) (ROUNDUP (add32 va sz) 4096) a \<and> \<not> has_table v a)
            | Inr v' \<Rightarrow> user_tables v' \<and>
                (\<forall>a. heap_address a \<longrightarrow>
                   heap_access v' a = (covered (ROUNDDOWN va 4096) (ROUNDUP (add32 va sz) 4096) a \<or> heap_access v a)))"
proof -
  have "if illegal_range va sz then sys_allocate_user_mem va sz v = Inl Env_exit
      else case sys_allocate_user_mem va sz v of
          Inl e \<Rightarrow> table_failure e \<and> (\<exists>a. heap_address a \<and> covered (ROUNDDOWN va 4096) (ROUNDUP (add32 va sz) 4096) a \<and> \<not> has_table v a)
        | Inr v' \<Rightarrow> user_tables v' \<and>
            (\<forall>a. heap_address a \<longrightarrow> heap_access v' a = (covered (ROUNDDOWN va 4096) (ROUNDUP (add32 va sz) 4096) a \<or> heap_access v a))"
  proof (cases "illegal_range va sz")
    case False
    then show ?thesis using allocate_user_mem_user [OF assms False] by (auto simp: marked_more_def split: sum.splits)
  qed (simp add: sys_allocate_user_mem_def)
  then show ?thesis using user_heap_fault [OF assms] by blast
qed

text \<open>A process that has a directory and no page table yet, on the kernel heap after the start.\<close>

definition new_process :: vm where
  "new_process = sample_vm\<lparr>km := boot_kmem\<lparr>directories := (\<lambda>d. if d = 0xF0100000 then directories boot_kmem d else (\<lambda>_. 0))\<rparr>\<rparr>"

lemma new_process_tables: "user_tables new_process" "\<not> has_table new_process a"
proof -
  let ?D = "\<lambda>d. if d = 0xF0100000 then directories boot_kmem d else (\<lambda>_. 0)"
  have D: "?D (ptr_page_directory boot_kmem) (PDX va) = kpde boot_kmem va" for va by (simp add: kpde_def boot_kmem_def)
  have d: "upde new_process b = 0" for b by (simp add: new_process_def sample_vm_def upde_def)
  have "heap_inv (km new_process)" "\<not> kheap_lock (km new_process)"
    using heap_inv_tables(1) [of ?D boot_kmem "tables boot_kmem", OF D] boot_heap_inv by (simp_all add: new_process_def)
  moreover have "ktable (km new_process) va < KERNEL_HEAP_START" for va
    using static_entry(1) [OF PDX_lt, of va] PDX_lt [of va] by (simp add: ktable_def kpde_def new_process_def boot_kmem_def)
  moreover have "upgdir new_process \<noteq> ptr_page_directory (km new_process)" by (simp add: new_process_def sample_vm_def boot_kmem_def)
  ultimately show "user_tables new_process" using d by (simp add: user_tables_def tables_low_def tables_apart_def is_table_of_def)
  show "\<not> has_table new_process a" by (rule no_table(2) [OF d])
qed

lemma new_process_marks: "\<exists>v'. sys_allocate_user_mem 0x82000800 0x1000 new_process = Inr v'"
proof -
  have r: "\<not> illegal_range 0x82000800 0x1000" "ROUNDDOWN 0x82000800 4096 = 0x82000000" "ROUNDUP (add32 0x82000800 0x1000) 4096 = 0x82002000"
    by (simp_all add: illegal_range_def add32_def ROUNDDOWN_def ROUNDUP_def sub32_def)
  have m: "\<not> length (free_frame_list (km new_process)) \<le> 1" "freePagesList (da (km new_process)) \<noteq> []" "\<not> no_room 4096 (km new_process)"
    by (simp_all add: new_process_def boot_kmem_def no_room_def)
  obtain v1 where v1: "mark_page 0x82000000 new_process = Inr v1" "user_tables v1" "has_table v1 0x82000000"
    using mark_page_user [OF new_process_tables(1), of "0x82000000"] m by (auto simp: marked_more_def split: sum.splits)
  have "has_table v1 0x82001000" using same_entry_table [of "0x82001000" "0x82000000" v1] v1(3) by (simp add: PDX_def)
  then obtain v2 where v2: "mark_page 0x82001000 v1 = Inr v2"
    using mark_page_user [OF v1(2), of "0x82001000"] by (auto split: sum.splits)
  have "mark_loop 3 0x82000000 0x82002000 new_process = Inr v2"
    using v1(1) v2 by (simp add: mark_loop.simps add32_def)
  then show ?thesis using r by (simp add: sys_allocate_user_mem_def allocate_user_mem_def page_count_def numeral_3_eq_3)
qed

theorem user_heap_protection_witness:
  "(\<exists>v'. sys_allocate_user_mem 0x82000800 0x1000 new_process = Inr v' \<and> heap_access v' 0x82000000 \<and> heap_access v' 0x82001FFF \<and>
      \<not> heap_access v' 0x82002000) \<and>
   sys_allocate_user_mem 0x9FFFF000 0x1000 new_process = Inl Env_exit"
proof -
  have n: "\<not> heap_access new_process a" for a using new_process_tables(2) by (simp add: heap_access_def)
  have r: "\<not> illegal_range 0x82000800 0x1000" "illegal_range 0x9FFFF000 0x1000" by (simp_all add: illegal_range_def add32_def)
  obtain v' where v': "sys_allocate_user_mem 0x82000800 0x1000 new_process = Inr v'" using new_process_marks by blast
  have "\<forall>a. heap_address a \<longrightarrow>
      heap_access v' a = (covered (ROUNDDOWN 0x82000800 4096) (ROUNDUP (add32 0x82000800 0x1000) 4096) a \<or> heap_access new_process a)"
    using user_heap_protection [OF new_process_tables(1), of "0x82000800" "0x1000"] r(1) v' by simp
  then have "heap_access v' 0x82000000" "heap_access v' 0x82001FFF" "\<not> heap_access v' 0x82002000"
    using n by (simp_all add: covered_def ROUNDDOWN_def ROUNDUP_def add32_def sub32_def)
  moreover have "sys_allocate_user_mem 0x9FFFF000 0x1000 new_process = Inl Env_exit"
    using user_heap_protection [OF new_process_tables(1), of "0x9FFFF000" "0x1000"] r(2) by simp
  ultimately show ?thesis using v' by blast
qed

end
