(* ===== verification/Kdebug.thy ===== *)
theory Kdebug
  imports C_Strings
begin

text \<open>
  The search of the debugging tables (\<^verbatim>\<open>src/kern/trap/kdebug.c\<close>). Addresses are of type \<^verbatim>\<open>uint32 *\<close>, so that
  adding one to an address adds four, and the difference of two addresses is divided by four.
\<close>

section \<open>The tables\<close>

record Stab =
  n_strx :: nat
  n_type :: nat
  n_value :: nat

abbreviation N_FUN :: nat where "N_FUN \<equiv> 0x24"
abbreviation N_SO :: nat where "N_SO \<equiv> 0x64"
abbreviation N_SOL :: nat where "N_SOL \<equiv> 0x84"
abbreviation USER_LIMIT :: nat where "USER_LIMIT \<equiv> 0xEF800000"

text \<open>The inner loop: down from \<open>m\<close> to a stab of the type, or below \<open>l\<close>.\<close>

function scan_down :: "(int \<Rightarrow> Stab) \<Rightarrow> nat \<Rightarrow> int \<Rightarrow> int \<Rightarrow> int" where
  "scan_down stabs ty l m = (if m \<ge> l \<and> n_type (stabs m) \<noteq> ty then scan_down stabs ty l (m - 1) else m)"
  by pat_completeness auto
termination by (relation "measure (\<lambda>(_, _, l, m). nat (m - l + 1))") auto

declare scan_down.simps [simp del]

lemma scan_down_bounds: "scan_down stabs ty l m \<le> m" "l \<le> m + 1 \<Longrightarrow> l - 1 \<le> scan_down stabs ty l m"
proof (induction stabs ty l m rule: scan_down.induct)
  case (1 stabs ty l m)
  case 1
  then show ?case using "1.IH" by (subst scan_down.simps) auto
next
  case (1 stabs ty l m)
  case 2
  then show ?case using "1.IH" by (subst scan_down.simps) auto
qed

lemma scan_down_found: "l \<le> scan_down stabs ty l m \<Longrightarrow> n_type (stabs (scan_down stabs ty l m)) = ty"
proof (induction stabs ty l m rule: scan_down.induct)
  case (1 stabs ty l m)
  show ?case
  proof (cases "m \<ge> l \<and> n_type (stabs m) \<noteq> ty")
    case True
    then have "scan_down stabs ty l m = scan_down stabs ty l (m - 1)" by (subst scan_down.simps) simp
    then show ?thesis using 1 True by simp
  next
    case False
    then have "scan_down stabs ty l m = m" by (subst scan_down.simps) auto
    then show ?thesis using 1 False by auto
  qed
qed

lemma scan_down_skipped: "l \<le> i \<Longrightarrow> i \<le> m \<Longrightarrow> scan_down stabs ty l m < i \<Longrightarrow> n_type (stabs i) \<noteq> ty"
proof (induction stabs ty l m rule: scan_down.induct)
  case (1 stabs ty l m)
  show ?case
  proof (cases "m \<ge> l \<and> n_type (stabs m) \<noteq> ty")
    case True
    then have "scan_down stabs ty l m = scan_down stabs ty l (m - 1)" by (subst scan_down.simps) simp
    then show ?thesis using 1 True by (cases "i = m") auto
  next
    case False
    then have "scan_down stabs ty l m = m" by (subst scan_down.simps) auto
    then show ?thesis using 1 by simp
  qed
qed

text \<open>
  The binary search. The state is \<open>l\<close>, \<open>r\<close>, \<open>any_matches\<close>, \<open>*region_left\<close>, \<open>*region_right\<close> and \<open>addr\<close>.
\<close>

definition exact_next :: "(int \<Rightarrow> Stab) \<Rightarrow> nat \<Rightarrow> int \<Rightarrow> int \<Rightarrow> nat \<Rightarrow> bool" where
  "exact_next stabs ty l r addr \<longleftrightarrow>
     (let m = scan_down stabs ty l ((l + r) div 2) in l \<le> r \<and> l \<le> m \<and> n_value (stabs m) = addr)"

lemma add4_neq: "add32 a 4 \<noteq> a"
proof
  assume a: "add32 a 4 = a"
  then have "a < U32" by (metis u32_bounds(1))
  then show False using a by (cases "a + 4 < U32") (auto simp: add32_def mod_if split: if_splits)
qed

lemma search_measure: "p < q \<Longrightarrow> 2 * p + of_bool x < 2 * q + (of_bool y :: nat)"
  by (cases x; cases y) auto

lemma scan_middle:
  assumes "l \<le> r" "tm = (l + r) div 2" "m = scan_down stabs ty l tm"
  shows "l \<le> (tm :: int)" "tm \<le> r" "m \<le> tm"
  using assms scan_down_bounds(1) [of stabs ty l tm] by auto

function search_loop :: "(int \<Rightarrow> Stab) \<Rightarrow> nat \<Rightarrow> int \<Rightarrow> int \<Rightarrow> bool \<Rightarrow> int \<Rightarrow> int \<Rightarrow> nat \<Rightarrow> bool \<times> int \<times> int" where
  "search_loop stabs ty l r found left right addr =
     (if l \<le> r then
        (let true_m = (l + r) div 2; m = scan_down stabs ty l true_m in
         if m < l then search_loop stabs ty (true_m + 1) r found left right addr
         else if n_value (stabs m) < addr then search_loop stabs ty (true_m + 1) r True m right addr
         else if n_value (stabs m) > addr then search_loop stabs ty l (m - 1) True left (m - 1) addr
         else search_loop stabs ty m r True m right (add32 addr 4))
      else (found, left, right))"
  by pat_completeness auto
termination
proof (relation "measure (\<lambda>(stabs, ty, l, r, _, _, _, addr). 2 * nat (r - l + 1) + of_bool (exact_next stabs ty l r addr))", goal_cases)
  case (2 stabs ty l r found left right addr tm m)
  show ?case unfolding in_measure prod.case using scan_middle [OF 2(1-3)] by (intro search_measure) simp
next
  case (3 stabs ty l r found left right addr tm m)
  show ?case unfolding in_measure prod.case using scan_middle [OF 3(1-3)] by (intro search_measure) simp
next
  case (4 stabs ty l r found left right addr tm m)
  show ?case unfolding in_measure prod.case using scan_middle [OF 4(1-3)] 4(4) by (intro search_measure) simp
next
  case (5 stabs ty l r found left right addr tm m)
  note b = scan_middle [OF 5(1-3)]
  show ?case
  proof (cases "m = l")
    case True
    then have "exact_next stabs ty l r addr" "\<not> exact_next stabs ty m r (add32 addr 4)"
      using 5 add4_neq [of addr] by (auto simp: exact_next_def Let_def)
    then show ?thesis using True by simp
  next
    case False
    then show ?thesis unfolding in_measure prod.case using 5(4) b by (intro search_measure) simp
  qed
qed simp

declare search_loop.simps [simp del]

definition stab_binsearch :: "(int \<Rightarrow> Stab) \<Rightarrow> int \<Rightarrow> int \<Rightarrow> nat \<Rightarrow> nat \<Rightarrow> int \<times> int" where
  "stab_binsearch stabs left right ty addr =
     (case search_loop stabs ty left right False left right addr of (found, left', right') \<Rightarrow>
        if \<not> found then (left', left' - 1)
        else (scan_down stabs ty (left' + 1) right', right'))"

section \<open>What the search finds\<close>

text \<open>
  \<open>T\<close> are the stabs of the type in the region. The values grow with the index, and none of them lies just above the address,
  where the search, having met the address exactly, takes them for smaller.
\<close>

definition stabs_ok :: "(int \<Rightarrow> Stab) \<Rightarrow> int set \<Rightarrow> nat \<Rightarrow> bool" where
  "stabs_ok stabs T addr \<longleftrightarrow> (\<forall>i \<in> T. \<forall>j \<in> T. i < j \<longrightarrow> n_value (stabs i) < n_value (stabs j)) \<and>
     (\<forall>i \<in> T. \<not> (addr < n_value (stabs i) \<and> n_value (stabs i) \<le> addr + 4)) \<and> addr + 4 < U32"

definition search_inv :: "(int \<Rightarrow> Stab) \<Rightarrow> int set \<Rightarrow> int \<Rightarrow> int \<Rightarrow> nat \<Rightarrow> int \<Rightarrow> int \<Rightarrow> bool \<Rightarrow> int \<Rightarrow> int \<Rightarrow> nat \<Rightarrow> bool" where
  "search_inv stabs T l0 r0 A l r found left right a \<longleftrightarrow>
     l0 \<le> l \<and> r \<le> r0 \<and> right = r \<and> (r = r0 \<or> r + 1 \<in> T) \<and> (a = A \<or> a = A + 4) \<and>
     (\<forall>i \<in> T. i < l \<longrightarrow> n_value (stabs i) \<le> A \<and> i \<le> left) \<and> (\<forall>i \<in> T. r < i \<longrightarrow> A < n_value (stabs i)) \<and>
     (if found then T \<noteq> {} else left = l0 \<and> (\<forall>i \<in> T. l \<le> i \<and> i \<le> r)) \<and>
     (left = l0 \<or> left \<in> T \<and> n_value (stabs left) \<le> A)"

lemma search_step:
  assumes ok: "stabs_ok stabs T A" and T: "T = {i. l0 \<le> i \<and> i \<le> r0 \<and> n_type (stabs i) = ty}"
    and inv: "search_inv stabs T l0 r0 A l r found left right a" and lr: "l \<le> r"
    and tm: "tm = (l + r) div 2" and m: "m = scan_down stabs ty l tm"
  shows "m < l \<Longrightarrow> search_inv stabs T l0 r0 A (tm + 1) r found left right a"
    and "l \<le> m \<Longrightarrow> n_value (stabs m) < a \<Longrightarrow> search_inv stabs T l0 r0 A (tm + 1) r True m right a"
    and "l \<le> m \<Longrightarrow> a < n_value (stabs m) \<Longrightarrow> search_inv stabs T l0 r0 A l (m - 1) True left (m - 1) a"
    and "l \<le> m \<Longrightarrow> n_value (stabs m) = a \<Longrightarrow> search_inv stabs T l0 r0 A m r True m right (add32 a 4)"
proof -
  have b: "l \<le> tm" "tm \<le> r" "m \<le> tm" using lr scan_down_bounds(1) [of stabs ty l tm] by (auto simp: tm m)
  have lim: "l0 \<le> l" "r \<le> r0" "right = r" "r = r0 \<or> r + 1 \<in> T" "a = A \<or> a = A + 4" using inv by (auto simp: search_inv_def)
  have low: "n_value (stabs i) \<le> A" "i \<le> left" if "i \<in> T" "i < l" for i using inv that by (auto simp: search_inv_def)
  have high: "A < n_value (stabs i)" if "i \<in> T" "r < i" for i using inv that by (auto simp: search_inv_def)
  have skipped: "i \<notin> T" if "max l (m + 1) \<le> i" "i \<le> tm" for i
    using scan_down_skipped [of l i tm stabs ty] that by (auto simp: T m)
  have mono: "n_value (stabs i) \<le> n_value (stabs j)" if "i \<in> T" "j \<in> T" "i \<le> j" for i j
    using ok that by (cases "i = j") (auto simp: stabs_ok_def intro: less_imp_le)
  have gap: "\<not> (A < n_value (stabs i) \<and> n_value (stabs i) \<le> A + 4)" if "i \<in> T" for i using ok that by (auto simp: stabs_ok_def)
  have mT: "m \<in> T" if "l \<le> m" using that scan_down_found [of l stabs ty tm] b lim by (auto simp: T m)
  show "search_inv stabs T l0 r0 A (tm + 1) r found left right a" if "m < l"
  proof -
    have k: "i < tm + 1 \<longleftrightarrow> i < l" "tm + 1 \<le> i \<longleftrightarrow> l \<le> i" if "i \<in> T" for i using skipped [of i] that \<open>m < l\<close> b by fastforce+
    show ?thesis using inv k b unfolding search_inv_def by auto
  qed
  show "search_inv stabs T l0 r0 A (tm + 1) r True m right a" if "l \<le> m" "n_value (stabs m) < a"
  proof -
    have v: "n_value (stabs m) \<le> A" using that lim(5) gap [OF mT] by auto
    have "i \<le> m" if "i \<in> T" "i < tm + 1" for i using skipped [of i] that \<open>l \<le> m\<close> by (cases "i \<le> m") auto
    moreover have "n_value (stabs i) \<le> A" if "i \<in> T" "i \<le> m" for i using mono [OF that(1) mT that(2)] \<open>l \<le> m\<close> v by simp
    ultimately show ?thesis using v that lim b mT high unfolding search_inv_def by auto
  qed
  show "search_inv stabs T l0 r0 A l (m - 1) True left (m - 1) a" if "l \<le> m" "a < n_value (stabs m)"
  proof -
    have v: "A < n_value (stabs m)" using that lim(5) by auto
    then have "A < n_value (stabs i)" if "i \<in> T" "m - 1 < i" for i
      using mono [of m i] mT that \<open>l \<le> m\<close> by fastforce
    then show ?thesis using that lim b mT low inv unfolding search_inv_def by auto
  qed
  show "search_inv stabs T l0 r0 A m r True m right (add32 a 4)" if "l \<le> m" "n_value (stabs m) = a"
  proof -
    have a: "a = A" using that lim(5) gap [OF mT] by auto
    have "n_value (stabs i) \<le> A" if "i \<in> T" "i < m" for i using mono [of i m] mT that \<open>l \<le> m\<close> a \<open>n_value (stabs m) = a\<close> by auto
    moreover have "add32 a 4 = A + 4" using ok by (simp add: a stabs_ok_def u32_simps)
    ultimately show ?thesis using that lim b mT high a unfolding search_inv_def by auto
  qed
qed

lemma search_loop_inv:
  assumes "stabs_ok stabs T A" and "T = {i. l0 \<le> i \<and> i \<le> r0 \<and> n_type (stabs i) = ty}"
    and "search_inv stabs T l0 r0 A l r found left right a"
    and "search_loop stabs ty l r found left right a = (found', left', right')"
  shows "\<exists>l' r' a'. r' < l' \<and> search_inv stabs T l0 r0 A l' r' found' left' right' a'"
  using assms
proof (induction stabs ty l r found left right a rule: search_loop.induct)
  case (1 stabs ty l r found left right a)
  let ?tm = "(l + r) div 2"
  let ?m = "scan_down stabs ty l ?tm"
  note st = search_step [OF "1.prems"(1,2,3) _ refl refl]
  show ?case
  proof (cases "l \<le> r")
    case True
    note IH = "1.IH" [OF True refl refl]
    have eq: "(if ?m < l then search_loop stabs ty (?tm + 1) r found left right a
         else if n_value (stabs ?m) < a then search_loop stabs ty (?tm + 1) r True ?m right a
         else if n_value (stabs ?m) > a then search_loop stabs ty l (?m - 1) True left (?m - 1) a
         else search_loop stabs ty ?m r True ?m right (add32 a 4)) = (found', left', right')"
      using "1.prems"(4) True by (subst (asm) search_loop.simps) (simp add: Let_def)
    consider "?m < l" | "l \<le> ?m" "n_value (stabs ?m) < a" | "l \<le> ?m" "a < n_value (stabs ?m)" | "l \<le> ?m" "n_value (stabs ?m) = a"
      by linarith
    then show ?thesis
    proof cases
      case 1
      then show ?thesis using IH(1) st(1) [OF True] eq "1.prems"(1,2) by auto
    next
      case 2
      then show ?thesis using IH(2) st(2) [OF True] eq "1.prems"(1,2) by auto
    next
      case 3
      then show ?thesis using IH(3) st(3) [OF True] eq "1.prems"(1,2) by auto
    next
      case 4
      then show ?thesis using IH(4) st(4) [OF True] eq "1.prems"(1,2) by auto
    qed
  next
    case False
    then show ?thesis using "1.prems"(3,4) by (subst (asm) search_loop.simps) (auto simp: not_le)
  qed
qed

lemma scan_down_none: "(\<And>i. l \<le> i \<Longrightarrow> i \<le> m \<Longrightarrow> n_type (stabs i) \<noteq> ty) \<Longrightarrow> l \<le> m + 1 \<Longrightarrow> scan_down stabs ty l m = l - 1"
  using scan_down_found [of l stabs ty m] scan_down_bounds(1) [of stabs ty l m] scan_down_bounds(2) [of l m stabs ty] by (smt (verit))

text \<open>
  C35. The binary search ends and finds the entry of a type that contains an address: the last one at or before the address, together
  with the index before the next entry of the type, or the end of the region. Without an entry of the type the region it returns
  is empty. Entries of the type have growing addresses, and none begins within the four bytes after the address.
\<close>

theorem stab_binsearch_correct:
  assumes T: "T = {i. left \<le> i \<and> i \<le> right \<and> n_type (stabs i) = ty}" and ok: "stabs_ok stabs T addr"
  shows "(T = {} \<longrightarrow> stab_binsearch stabs left right ty addr = (left, left - 1)) \<and>
    (\<forall>i \<in> T. n_value (stabs i) \<le> addr \<and> (\<forall>j \<in> T. i < j \<longrightarrow> addr < n_value (stabs j)) \<longrightarrow>
       stab_binsearch stabs left right ty addr = (i, if \<exists>j \<in> T. i < j then Min {j \<in> T. i < j} - 1 else right))"
proof -
  obtain found L R where s: "search_loop stabs ty left right False left right addr = (found, L, R)"
    by (cases "search_loop stabs ty left right False left right addr") auto
  have "search_inv stabs T left right addr left right False left right addr" by (auto simp: search_inv_def T)
  then obtain l r a where lr: "r < l" and inv: "search_inv stabs T left right addr l r found L R a"
    using search_loop_inv [OF ok T _ s] by blast
  have f: "R = r" "r = right \<or> r + 1 \<in> T" "found \<longrightarrow> T \<noteq> {}" "\<not> found \<longrightarrow> L = left \<and> T = {}" "L = left \<or> L \<in> T \<and> n_value (stabs L) \<le> addr"
    "r \<le> right"
    using inv lr by (auto simp: search_inv_def split: if_splits)
  have low: "n_value (stabs i) \<le> addr" "i \<le> L" if "i \<in> T" "i \<le> r" for i using inv lr that by (auto simp: search_inv_def)
  have high: "addr < n_value (stabs i)" if "i \<in> T" "r < i" for i using inv that by (auto simp: search_inv_def)
  have "stab_binsearch stabs left right ty addr = (left, left - 1)" if "T = {}"
    using f s that by (auto simp: stab_binsearch_def)
  moreover have "stab_binsearch stabs left right ty addr = (i, if \<exists>j \<in> T. i < j then Min {j \<in> T. i < j} - 1 else right)"
    if i: "i \<in> T" "n_value (stabs i) \<le> addr" "\<And>j. j \<in> T \<Longrightarrow> i < j \<Longrightarrow> addr < n_value (stabs j)" for i
  proof -
    have ir: "i \<le> r" "i \<le> L" using high [OF i(1)] low [OF i(1)] i(2) by force+
    have "left \<le> i" using i(1) unfolding T by simp
    then have L: "L = i" using f(5) i(3) [of L] ir(2) by force
    have above: "j \<in> T \<and> i < j \<longleftrightarrow> j \<in> T \<and> r < j" for j using low [of j] ir i(3) L by force
    have "n_type (stabs j) \<noteq> ty" if j: "L + 1 \<le> j" "j \<le> r" for j
    proof
      assume "n_type (stabs j) = ty"
      then have "j \<in> T" using j i(1) f(6) unfolding T L by simp
      then show False using low(2) [of j] j by simp
    qed
    then have "scan_down stabs ty (L + 1) r = L" using scan_down_none [of "L + 1" r stabs ty] ir L by simp
    moreover have found using f(4) i(1) by auto
    moreover have "r = (if \<exists>j \<in> T. i < j then Min {j \<in> T. i < j} - 1 else right)"
    proof (cases "\<exists>j \<in> T. i < j")
      case True
      then obtain j where "j \<in> T" "r < j" using above by blast
      then have "r + 1 \<in> T" using f(2) T by auto
      moreover have "finite {j \<in> T. r < j}" by (rule finite_subset [of _ "{left..right}"]) (auto simp: T)
      ultimately have "Min {j \<in> T. r < j} = r + 1" by (intro Min_eqI) auto
      then show ?thesis using True above by simp
    next
      case False
      then have "r + 1 \<notin> T" using above [of "r + 1"] by auto
      then show ?thesis using False f(2) by auto
    qed
    ultimately show ?thesis using s f(1) L by (simp add: stab_binsearch_def)
  qed
  ultimately show ?thesis by blast
qed

text \<open>The source files of the comment in the code: the entry of the address is found.\<close>

definition sample_stabs :: "int \<Rightarrow> Stab" where
  "sample_stabs i = (if i = 0 then \<lparr>n_strx = 0, n_type = N_SO, n_value = 0xF0100000\<rparr>
     else if i = 2 then \<lparr>n_strx = 0, n_type = N_SO, n_value = 0xF0100040\<rparr>
     else if i = 5 then \<lparr>n_strx = 0, n_type = N_SO, n_value = 0xF0100176\<rparr> else \<lparr>n_strx = 0, n_type = N_FUN, n_value = 0\<rparr>)"

theorem stab_binsearch_correct_witness: "stab_binsearch sample_stabs 0 7 N_SO 0xF0100050 = (2, 4)"
proof -
  let ?T = "{i. 0 \<le> i \<and> i \<le> 7 \<and> n_type (sample_stabs i) = N_SO}"
  have T: "?T = {0, 2, 5}" by (auto simp: sample_stabs_def split: if_splits)
  have "stabs_ok sample_stabs ?T 0xF0100050" unfolding T by (simp add: stabs_ok_def sample_stabs_def)
  from stab_binsearch_correct [OF refl this] have "stab_binsearch sample_stabs 0 7 N_SO 0xF0100050 =
      (2, if \<exists>j \<in> ?T. 2 < j then Min {j \<in> ?T. 2 < j} - 1 else 7)"
    unfolding T by (simp add: sample_stabs_def)
  moreover have "{j \<in> ?T. 2 < j} = {5}" unfolding T by auto
  ultimately show ?thesis unfolding T by auto
qed

text \<open>
  Adding one to the address moves it by four: an entry two bytes after one that begins at the address is taken for the one that
  contains it.
\<close>

lemma exact_match_skips:
  fixes stabs defines "stabs \<equiv> (\<lambda>i. \<lparr>n_strx = 0, n_type = N_FUN, n_value = (if i = 0 then 0xF0100000 else 0xF0100002)\<rparr>)"
  shows "stab_binsearch stabs 0 1 N_FUN 0xF0100000 = (1, 1)"
  by (simp add: stab_binsearch_def search_loop.simps scan_down.simps stabs_def add32_def)

section \<open>What is known of an address\<close>

text \<open>
  The tables of the kernel or of a program: \<open>stab_num\<close> entries, and the strings from \<open>stabstr\<close> to \<open>stabstr_end\<close>. A name that is
  not known is \<open>None\<close>, for the text \<^verbatim>\<open><unknown>\<close>.
\<close>

record UserStabData =
  stab_at :: "int \<Rightarrow> Stab"
  stab_num :: int
  stabstr :: nat
  stabstr_end :: nat

record Eipdebuginfo =
  eip_file :: "nat option"
  eip_line :: int
  eip_fn_name :: "nat option"
  eip_fn_namelen :: int
  eip_fn_addr :: nat
  eip_fn_narg :: int

definition no_info :: "nat \<Rightarrow> Eipdebuginfo" where
  "no_info addr = \<lparr>eip_file = None, eip_line = 0, eip_fn_name = None, eip_fn_namelen = 9, eip_fn_addr = addr, eip_fn_narg = 0\<rparr>"

function file_scan :: "(int \<Rightarrow> Stab) \<Rightarrow> int \<Rightarrow> int \<Rightarrow> int" where
  "file_scan stabs lfile lline =
     (if lline \<ge> lfile \<and> n_type (stabs lline) \<noteq> N_SOL \<and> (n_type (stabs lline) \<noteq> N_SO \<or> n_value (stabs lline) = 0)
      then file_scan stabs lfile (lline - 1) else lline)"
  by pat_completeness auto
termination by (relation "measure (\<lambda>(_, l, m). nat (m - l + 1))") auto

declare file_scan.simps [simp del]

text \<open>The length of the part of a name before its colon; \<open>None\<close> for a name that does not end.\<close>

definition name_length :: "memory \<Rightarrow> nat option \<Rightarrow> int option" where
  "name_length mem name =
     (case name of None \<Rightarrow> Some 9 | Some p \<Rightarrow> map_option (\<lambda>q. int q - int p) (strfind mem p 58))"

definition debuginfo_eip :: "memory \<Rightarrow> UserStabData \<Rightarrow> UserStabData \<Rightarrow> nat \<Rightarrow> (int \<times> Eipdebuginfo) option" where
  "debuginfo_eip mem kern usd addr =
     (let d = (if addr \<ge> USER_LIMIT then kern else usd); info = no_info addr; stabs = stab_at d;
          named = (\<lambda>i. if n_strx (stabs i) < stabstr_end d - stabstr d then Some (stabstr d + n_strx (stabs i)) else None)
      in if stabstr_end d \<le> stabstr d \<or> mem (stabstr_end d - 1) \<noteq> 0 then Some (- 1, info)
         else
           (let (lfile, rfile) = stab_binsearch stabs 0 (stab_num d - 1) N_SO addr in
            if lfile = 0 then Some (- 1, info)
            else
              (let (lfun, rfun) = stab_binsearch stabs lfile rfile N_FUN addr;
                   info = (if lfun \<le> rfun
                           then info\<lparr>eip_fn_name := named lfun, eip_fn_addr := n_value (stabs lfun)\<rparr> else info);
                   lline = file_scan stabs lfile (if lfun \<le> rfun then lfun else lfile)
               in case name_length mem (eip_fn_name info) of
                    None \<Rightarrow> None
                  | Some n \<Rightarrow>
                      Some (0, info\<lparr>eip_fn_namelen := n, eip_file := if lline \<ge> lfile then named lline else None\<rparr>))))"

lemma strfind_returns: "mem (p + k) = 0 \<Longrightarrow> \<exists>q. strfind mem p c = Some q \<and> p \<le> q \<and> q \<le> p + k"
proof (induction k arbitrary: p)
  case (Suc k)
  show ?case
  proof (cases "mem p = 0 \<or> mem p = c")
    case False
    then obtain q where "strfind mem (Suc p) c = Some q" "Suc p \<le> q" "q \<le> Suc p + k" using Suc.IH [of "Suc p"] Suc.prems by auto
    then show ?thesis using False by (subst strfind.simps) auto
  qed (subst strfind.simps, auto)
qed (subst strfind.simps, auto)

text \<open>The names lie in the string table, and the length of the function's name is found within it.\<close>

lemma debuginfo_eip_returns:
  assumes "d = (if addr \<ge> USER_LIMIT then kern else usd)"
  shows "\<exists>r info. debuginfo_eip mem kern usd addr = Some (r, info) \<and>
    (\<forall>p. eip_fn_name info = Some p \<or> eip_file info = Some p \<longrightarrow> stabstr d \<le> p \<and> p < stabstr_end d)"
proof (cases "stabstr_end d \<le> stabstr d \<or> mem (stabstr_end d - 1) \<noteq> 0 \<or> fst (stab_binsearch (stab_at d) 0 (stab_num d - 1) N_SO addr) = 0")
  case True
  then show ?thesis unfolding debuginfo_eip_def Let_def assms [symmetric] by (auto simp: no_info_def split: prod.splits)
next
  case False
  then have z: "mem (p + (stabstr_end d - 1 - p)) = 0" if "p < stabstr_end d" for p using that by simp
  have r: "\<exists>n. name_length mem (if n_strx x < stabstr_end d - stabstr d then Some (stabstr d + n_strx x) else None) = Some n" for x
    using strfind_returns [of mem "stabstr d + n_strx x" "stabstr_end d - 1 - (stabstr d + n_strx x)" 58] z [of "stabstr d + n_strx x"] by (auto simp: name_length_def)
  obtain lfile rfile lfun rfun where s: "stab_binsearch (stab_at d) 0 (stab_num d - 1) N_SO addr = (lfile, rfile)"
      "stab_binsearch (stab_at d) lfile rfile N_FUN addr = (lfun, rfun)" by (meson surj_pair)
  then show ?thesis
    using False r [of "stab_at d lfun"] unfolding debuginfo_eip_def Let_def assms [symmetric]
    by (auto simp: no_info_def name_length_def split: option.splits)
qed

end
