(* ===== verification/Boot_Memory.thy ===== *)
theory Boot_Memory
  imports Kernel_Heap
begin

text \<open>
  Memory at boot (\<^verbatim>\<open>src/kern/mem/boot_memory_manager.c\<close>, \<^verbatim>\<open>initialize_paging\<close> of
  \<^verbatim>\<open>src/kern/mem/memory_manager.c\<close>): the size of the memory, the kernel's page directory and tables, and the list of
  free frames, and the proof that they are what the kernel heap relies on.
\<close>

unbundle bit_operations_syntax

section \<open>How much memory there is\<close>

abbreviation PHYS_IO_MEM :: nat where "PHYS_IO_MEM \<equiv> 0xA0000"
abbreviation PHYS_EXTENDED_MEM :: nat where "PHYS_EXTENDED_MEM \<equiv> 0x100000"
abbreviation PTSIZE :: nat where "PTSIZE \<equiv> 0x400000"
abbreviation KERN_STACK_TOP :: nat where "KERN_STACK_TOP \<equiv> 0xEFC00000"
abbreviation KSTACK_SIZE :: nat where "KSTACK_SIZE \<equiv> 32768"
abbreviation VPT_VA :: nat where "VPT_VA \<equiv> 0xEFC00000"
abbreviation UVPT_VA :: nat where "UVPT_VA \<equiv> 0xEF400000"
abbreviation UENVS :: nat where "UENVS \<equiv> 0xEEC00000"

text \<open>\<open>cmos\<close> are the registers of the clock chip.\<close>

definition nvram_read :: "(nat \<Rightarrow> nat) \<Rightarrow> nat \<Rightarrow> nat" where
  "nvram_read cmos r = cmos r + cmos (r + 1) * 256"

text \<open>Without extended memory the size is taken from the extended memory too, not from the base memory: it is zero.\<close>

definition detect_memory :: "(nat \<Rightarrow> nat) \<Rightarrow> kmem \<Rightarrow> kmem" where
  "detect_memory cmos k =
     (let size_of_extended_mem = ROUNDDOWN (mul32 (nvram_read cmos 0x17) 1024) PAGE_SIZE;
          size_of_other_mem = ROUNDDOWN (mul32 (nvram_read cmos 0x34) 65536) PAGE_SIZE;
          maxpa = (if size_of_other_mem > 0 then add32 size_of_other_mem 0x1000000
                   else if size_of_extended_mem \<noteq> 0 then add32 PHYS_EXTENDED_MEM size_of_extended_mem else size_of_extended_mem)
      in k\<lparr>number_of_frames := maxpa div PAGE_SIZE\<rparr>)"

section \<open>Allocation and mapping\<close>

text \<open>The memory with the pointer to what is free of it; the end of the kernel's image comes from the linker.\<close>

record boot =
  bk :: kmem
  ptr_free_mem :: nat
  end_of_kernel :: nat

definition zero_range :: "nat \<Rightarrow> nat \<Rightarrow> kmem \<Rightarrow> kmem" where
  "zero_range p sz k =
     k\<lparr>directories := (\<lambda>d i. if p \<le> d \<and> d < p + sz then 0 else directories k d i),
       tables := (\<lambda>t i. if p \<le> t \<and> t < p + sz then 0 else tables k t i)\<rparr>"

definition boot_allocate_space :: "nat \<Rightarrow> nat \<Rightarrow> boot \<Rightarrow> nat \<times> boot" where
  "boot_allocate_space sz align b =
     (let p = ROUNDUP (if ptr_free_mem b = 0 then end_of_kernel b else ptr_free_mem b) align
      in (p, b\<lparr>ptr_free_mem := add32 p sz, bk := zero_range p sz (bk b)\<rparr>))"

definition STATIC_KERNEL_PHYSICAL_ADDRESS :: "nat \<Rightarrow> nat result" where
  "STATIC_KERNEL_PHYSICAL_ADDRESS kva =
     (if kva < KERNEL_BASE then Inl (Panic ''K_PHYSICAL_ADDRESS called with invalid kva'') else Inr (kva - KERNEL_BASE))"

definition boot_get_page_table :: "nat \<Rightarrow> nat \<Rightarrow> bool \<Rightarrow> boot \<Rightarrow> (nat \<times> boot) result" where
  "boot_get_page_table dir va create b =
     (let phys = EXTRACT_ADDRESS (directories (bk b) dir (PDX va)) in
      andThen (STATIC_KERNEL_VIRTUAL_ADDRESS phys (bk b)) (\<lambda>t.
      if phys = 0 then
        (if create then
           (let (t, b) = boot_allocate_space PAGE_SIZE PAGE_SIZE b in
            andThen (STATIC_KERNEL_PHYSICAL_ADDRESS t) (\<lambda>phys.
            Inr (t, b\<lparr>bk := set_dir_entry dir (PDX va) (CONSTRUCT_ENTRY phys (PERM_PRESENT OR PERM_WRITEABLE)) (bk b)\<rparr>)))
         else Inr (0, b))
      else Inr (t, b)))"

fun map_range_loop :: "nat \<Rightarrow> nat \<Rightarrow> nat \<Rightarrow> nat \<Rightarrow> u32 \<Rightarrow> boot \<Rightarrow> boot result" where
  "map_range_loop 0 dir va pa perm b = Inr b"
| "map_range_loop (Suc n) dir va pa perm b =
     andThen (boot_get_page_table dir va True b) (\<lambda>(t, b).
     map_range_loop n dir (add32 va PAGE_SIZE) (add32 pa PAGE_SIZE) perm
       (b\<lparr>bk := set_entry t (PTX va) (CONSTRUCT_ENTRY pa (perm OR PERM_PRESENT)) (bk b)\<rparr>))"

definition boot_map_range :: "nat \<Rightarrow> nat \<Rightarrow> nat \<Rightarrow> nat \<Rightarrow> u32 \<Rightarrow> boot \<Rightarrow> boot result" where
  "boot_map_range dir va sz pa perm b = map_range_loop ((sz + 4095) div PAGE_SIZE) dir va pa perm b"

text \<open>One table for each part of the kernel's address space.\<close>

fun kernel_tables_loop :: "nat \<Rightarrow> nat \<Rightarrow> nat \<Rightarrow> boot \<Rightarrow> boot result" where
  "kernel_tables_loop 0 dir sva b = Inr b"
| "kernel_tables_loop (Suc n) dir sva b =
     andThen (boot_get_page_table dir sva True b) (\<lambda>(_, b). kernel_tables_loop n dir (sva + PTSIZE) b)"

definition setup_listing_to_all_page_tables_entries :: "nat \<Rightarrow> boot \<Rightarrow> boot result" where
  "setup_listing_to_all_page_tables_entries dir b =
     andThen (STATIC_KERNEL_PHYSICAL_ADDRESS dir) (\<lambda>phys.
     Inr (b\<lparr>bk := set_dir_entry dir (PDX UVPT_VA) (CONSTRUCT_ENTRY phys (PERM_USER OR PERM_PRESENT))
                  (set_dir_entry dir (PDX VPT_VA) (CONSTRUCT_ENTRY phys (PERM_PRESENT OR PERM_WRITEABLE)) (bk b))\<rparr>))"

text \<open>
  Paging is turned on under a mapping of the kernel at address zero, which is taken away again: the entries from zero on are
  those of the kernel, and then zero.
\<close>

definition turn_on_paging :: "nat \<Rightarrow> boot \<Rightarrow> boot" where
  "turn_on_paging dir b =
     b\<lparr>bk := (bk b)\<lparr>directories := (directories (bk b))(dir := (\<lambda>j.
        if j < PDX (ptr_free_mem b) - PDX KERNEL_BASE then 0 else directories (bk b) dir j))\<rparr>\<rparr>"

text \<open>
  The sizes of the arrays are arguments; the environments are mapped for users to read. The page below each kernel stack is a
  guard. The directory is recorded in \<open>ptr_page_directory\<close>.
\<close>

definition initialize_kernel_VM :: "nat \<Rightarrow> nat \<Rightarrow> nat \<Rightarrow> nat \<Rightarrow> boot \<Rightarrow> boot result" where
  "initialize_kernel_VM stack_bottom array_size disk_array_size envs_size b =
     (let (dir, b) = boot_allocate_space PAGE_SIZE PAGE_SIZE b;
          b = b\<lparr>bk := (bk b)\<lparr>ptr_page_directory := dir\<rparr>\<rparr>
      in andThen (STATIC_KERNEL_PHYSICAL_ADDRESS dir) (\<lambda>_.
         andThen (STATIC_KERNEL_PHYSICAL_ADDRESS stack_bottom) (\<lambda>phys_stack.
         andThen (boot_map_range dir (KERN_STACK_TOP - KSTACK_SIZE) KSTACK_SIZE phys_stack PERM_WRITEABLE b) (\<lambda>b.
         andThen (pt_set_page_permissions dir (KERN_STACK_TOP - KSTACK_SIZE) 0 PERM_PRESENT (bk b)) (\<lambda>k.
         andThen (kernel_tables_loop 64 dir KERNEL_BASE (b\<lparr>bk := k\<rparr>)) (\<lambda>b.
         (let (_, b) = boot_allocate_space array_size PAGE_SIZE b;
              (_, b) = boot_allocate_space disk_array_size PAGE_SIZE b
          in andThen (setup_listing_to_all_page_tables_entries dir b) (\<lambda>b.
             (let (envs, b) = boot_allocate_space envs_size PAGE_SIZE b in
              andThen (STATIC_KERNEL_PHYSICAL_ADDRESS envs) (\<lambda>phys_envs.
              andThen (boot_map_range dir UENVS envs_size phys_envs PERM_USER b) (\<lambda>b.
              (let b = b\<lparr>bk := set_dir_entry dir (PDX UENVS) (directories (bk b) dir (PDX UENVS) OR (PERM_USER OR PERM_PRESENT)) (bk b)\<rparr> in
               andThen (boot_map_range dir KERNEL_BASE (ptr_free_mem b - KERNEL_BASE) 0 PERM_WRITEABLE b) (\<lambda>b.
               Inr (turn_on_paging dir b))))))))))))))"

section \<open>The free frames\<close>

fun free_loop :: "nat \<Rightarrow> nat \<Rightarrow> kmem \<Rightarrow> kmem result" where
  "free_loop 0 i k = Inr k"
| "free_loop (Suc n) i k =
     andThen (list_insert_head i (free_frame_list k)) (\<lambda>l.
     free_loop n (Suc i) ((set_frame i zero_frame_info k)\<lparr>free_frame_list := l\<rparr>))"

definition mark_used :: "nat \<Rightarrow> nat \<Rightarrow> kmem \<Rightarrow> kmem" where
  "mark_used lo hi k =
     k\<lparr>frames_info := (\<lambda>f. if lo \<le> f \<and> f < hi then (frames_info k f)\<lparr>references := 1\<rparr> else frames_info k f)\<rparr>"

text \<open>\<^verbatim>\<open>initialize_disk_page_file\<close>, which it calls at the end, is in theory \<open>Page_File\<close>.\<close>

definition initialize_paging :: "boot \<Rightarrow> boot result" where
  "initialize_paging b =
     (let k = mark_used 0 3 ((bk b)\<lparr>free_frame_list := [], modified_frame_list := [], mfllock := False\<rparr>) in
      andThen (free_loop (ROUNDUP PHYS_IO_MEM PAGE_SIZE div PAGE_SIZE - 3) 3 k) (\<lambda>k.
      (let k = mark_used (PHYS_IO_MEM div PAGE_SIZE) (PHYS_EXTENDED_MEM div PAGE_SIZE) k in
       andThen (STATIC_KERNEL_PHYSICAL_ADDRESS (ptr_free_mem b)) (\<lambda>phys.
       (let range_end = ROUNDUP phys PAGE_SIZE div PAGE_SIZE;
            k = mark_used (PHYS_EXTENDED_MEM div PAGE_SIZE) range_end k
        in andThen (free_loop (number_of_frames k - range_end) range_end k) (\<lambda>k.
           Inr (b\<lparr>bk := k\<rparr>)))))))"

section \<open>The directory at boot\<close>

text \<open>
  \<open>btab\<close> is the table of a directory entry, \<open>bentry\<close> an entry of that table. The two entries of the recursive mapping
  name the directory itself; every other one is zero or names a page table of its own below the free memory, and the tables of
  the heap region are empty.
\<close>

definition baddr :: "nat \<Rightarrow> kmem \<Rightarrow> nat \<Rightarrow> nat" where
  "baddr dir k i = EXTRACT_ADDRESS (directories k dir i)"

abbreviation btab :: "nat \<Rightarrow> kmem \<Rightarrow> nat \<Rightarrow> nat" where
  "btab dir k i \<equiv> baddr dir k i + KERNEL_BASE"

definition bentry :: "nat \<Rightarrow> kmem \<Rightarrow> nat \<Rightarrow> nat \<Rightarrow> u32" where
  "bentry dir k i j = tables k (btab dir k i) j"

definition ordinary :: "nat \<Rightarrow> bool" where
  "ordinary i \<longleftrightarrow> i \<noteq> PDX UVPT_VA \<and> i \<noteq> PDX VPT_VA"

definition boot_ok :: "nat \<Rightarrow> boot \<Rightarrow> bool" where
  "boot_ok dir b \<longleftrightarrow> KERNEL_BASE + PHYS_EXTENDED_MEM \<le> dir \<and> dir mod 4096 = 0 \<and> dir + 4096 \<le> ptr_free_mem b \<and>
     ptr_page_directory (bk b) = dir \<and>
     (\<forall>i. ordinary i \<longrightarrow>
        (if baddr dir (bk b) i = 0 then directories (bk b) dir i = 0
         else directories (bk b) dir i AND PERM_PRESENT = PERM_PRESENT \<and> dir < btab dir (bk b) i \<and>
              btab dir (bk b) i + 4096 \<le> ptr_free_mem b \<and> (984 \<le> i \<longrightarrow> (\<forall>j. bentry dir (bk b) i j = 0)))) \<and>
     (\<forall>i i'. ordinary i \<and> ordinary i' \<and> baddr dir (bk b) i \<noteq> 0 \<and> baddr dir (bk b) i = baddr dir (bk b) i' \<longrightarrow> i = i')"

lemma boot_okD:
  assumes "boot_ok dir b"
  shows "KERNEL_BASE + PHYS_EXTENDED_MEM \<le> dir" "dir mod 4096 = 0" "dir + 4096 \<le> ptr_free_mem b" "ptr_page_directory (bk b) = dir"
    and "ordinary i \<Longrightarrow> baddr dir (bk b) i = 0 \<Longrightarrow> directories (bk b) dir i = 0"
    and "ordinary i \<Longrightarrow> baddr dir (bk b) i \<noteq> 0 \<Longrightarrow> directories (bk b) dir i AND PERM_PRESENT = PERM_PRESENT \<and> dir < btab dir (bk b) i \<and>
       btab dir (bk b) i + 4096 \<le> ptr_free_mem b"
    and "ordinary i \<Longrightarrow> baddr dir (bk b) i \<noteq> 0 \<Longrightarrow> 984 \<le> i \<Longrightarrow> bentry dir (bk b) i j = 0"
    and "ordinary i \<Longrightarrow> ordinary i' \<Longrightarrow> baddr dir (bk b) i \<noteq> 0 \<Longrightarrow> baddr dir (bk b) i = baddr dir (bk b) i' \<Longrightarrow> i = i'"
  using assms unfolding boot_ok_def by (metis (no_types, lifting))+

text \<open>Allocation leaves what is below the free memory.\<close>

lemma boot_allocate_space_kept:
  assumes "boot_allocate_space sz 4096 b = (p, b')" "ptr_free_mem b \<noteq> 0" "ptr_free_mem b + sz + 4096 < U32"
  shows "p mod 4096 = 0" "ptr_free_mem b \<le> p" "p < ptr_free_mem b + 4096" "ptr_free_mem b' = p + sz"
    and "number_of_frames (bk b') = number_of_frames (bk b)" "ptr_page_directory (bk b') = ptr_page_directory (bk b)"
    and "d < ptr_free_mem b \<Longrightarrow> directories (bk b') d = directories (bk b) d"
    and "t < ptr_free_mem b \<Longrightarrow> tables (bk b') t = tables (bk b) t"
    and "p \<le> t \<Longrightarrow> t < p + sz \<Longrightarrow> tables (bk b') t = (\<lambda>_. 0)"
proof -
  let ?p = "ROUNDUP (ptr_free_mem b) 4096"
  note R = ROUNDUP_page [of "ptr_free_mem b"]
  have e: "p = ?p" "b' = b\<lparr>ptr_free_mem := add32 ?p sz, bk := zero_range ?p sz (bk b)\<rparr>"
    using assms(1,2) by (auto simp: boot_allocate_space_def Let_def)
  have r: "?p mod 4096 = 0" "ptr_free_mem b \<le> ?p" "?p < ptr_free_mem b + 4096" using R assms(3) by simp_all
  show "p mod 4096 = 0" "ptr_free_mem b \<le> p" "p < ptr_free_mem b + 4096" using r e by simp_all
  show "ptr_free_mem b' = p + sz" using r e assms(3) by (simp add: add32_exact)
  show "number_of_frames (bk b') = number_of_frames (bk b)" "ptr_page_directory (bk b') = ptr_page_directory (bk b)"
    using e by (simp_all add: zero_range_def)
  show "d < ptr_free_mem b \<Longrightarrow> directories (bk b') d = directories (bk b) d"
    "t < ptr_free_mem b \<Longrightarrow> tables (bk b') t = tables (bk b) t"
    "p \<le> t \<Longrightarrow> t < p + sz \<Longrightarrow> tables (bk b') t = (\<lambda>_. 0)"
    using r e by (auto simp: zero_range_def)
qed

text \<open>A state with the same directory and tables and at least as much memory used is as good.\<close>

lemma boot_ok_grow:
  assumes "boot_ok dir b" "ptr_free_mem b \<le> ptr_free_mem b'" "ptr_page_directory (bk b') = ptr_page_directory (bk b)"
    "\<And>i. ordinary i \<Longrightarrow> directories (bk b') dir i = directories (bk b) dir i"
    "\<And>i. ordinary i \<Longrightarrow> baddr dir (bk b) i \<noteq> 0 \<Longrightarrow> 984 \<le> i \<Longrightarrow>
       tables (bk b') (btab dir (bk b) i) = tables (bk b) (btab dir (bk b) i)"
  shows "boot_ok dir b'"
proof -
  note D = boot_okD [OF assms(1)]
  have a: "baddr dir (bk b') i = baddr dir (bk b) i" if "ordinary i" for i using assms(4) [OF that] by (simp add: baddr_def)
  have e: "bentry dir (bk b') i j = bentry dir (bk b) i j" if "ordinary i" "baddr dir (bk b) i \<noteq> 0" "984 \<le> i" for i j
    using assms(5) [OF that] a [OF that(1)] by (simp add: bentry_def)
  show ?thesis unfolding boot_ok_def
  proof (intro conjI allI impI)
    fix i assume o: "ordinary i"
    show "if baddr dir (bk b') i = 0 then directories (bk b') dir i = 0
         else directories (bk b') dir i AND PERM_PRESENT = PERM_PRESENT \<and> dir < btab dir (bk b') i \<and>
              btab dir (bk b') i + 4096 \<le> ptr_free_mem b' \<and> (984 \<le> i \<longrightarrow> (\<forall>j. bentry dir (bk b') i j = 0))"
      using D(5-7) [OF o] a [OF o] assms(2) assms(4) [OF o] e [OF o] by (cases "baddr dir (bk b) i = 0") auto
  next
    fix i i' assume "ordinary i \<and> ordinary i' \<and> baddr dir (bk b') i \<noteq> 0 \<and> baddr dir (bk b') i = baddr dir (bk b') i'"
    then show "i = i'" using D(8) a by metis
  qed (use D assms(2,3) in auto)
qed

text \<open>What \<open>grown\<close> states of a step: tables that were there stay, entries other than those of \<open>W\<close> too.\<close>

definition grown :: "nat \<Rightarrow> (nat \<times> nat) set \<Rightarrow> boot \<Rightarrow> boot \<Rightarrow> bool" where
  "grown dir W b b' \<longleftrightarrow> boot_ok dir b' \<and> number_of_frames (bk b') = number_of_frames (bk b) \<and> ptr_free_mem b \<le> ptr_free_mem b' \<and>
     (\<forall>i. ordinary i \<and> baddr dir (bk b) i \<noteq> 0 \<longrightarrow> baddr dir (bk b') i = baddr dir (bk b) i) \<and>
     (\<forall>i j. ordinary i \<and> baddr dir (bk b) i \<noteq> 0 \<and> (i, j) \<notin> W \<longrightarrow> bentry dir (bk b') i j = bentry dir (bk b) i j)"

lemma grown_trans:
  assumes "grown dir W b b'" "grown dir W' b' b''"
  shows "grown dir (W \<union> W') b b''"
  using assms unfolding grown_def by (metis (no_types, lifting) UnCI order_trans)

lemma grown_mono:
  assumes "grown dir W b b'" "W \<subseteq> W'"
  shows "grown dir W' b b'"
  using assms unfolding grown_def by blast

lemma grown_refl: "boot_ok dir b \<Longrightarrow> grown dir W b b"
  by (simp add: grown_def)

lemma fresh_entry:
  assumes "p mod 4096 = 0" "KERNEL_BASE \<le> p" "p < U32"
  shows "EXTRACT_ADDRESS (CONSTRUCT_ENTRY (p - KERNEL_BASE) (PERM_PRESENT OR PERM_WRITEABLE)) = p - KERNEL_BASE"
    and "CONSTRUCT_ENTRY (p - KERNEL_BASE) (PERM_PRESENT OR PERM_WRITEABLE) AND PERM_PRESENT = PERM_PRESENT"
proof -
  have m: "(p - KERNEL_BASE) mod 4096 = 0" using assms(1,2) by (simp add: mod_eq_0_iff_dvd dvd_diff_nat)
  define f where "f = (p - KERNEL_BASE) div 4096"
  have f: "p - KERNEL_BASE = f * 4096" "f < 1048576" using m assms(3) by (auto simp: f_def mod_eq_0_iff_dvd)
  show "EXTRACT_ADDRESS (CONSTRUCT_ENTRY (p - KERNEL_BASE) (PERM_PRESENT OR PERM_WRITEABLE)) = p - KERNEL_BASE"
    unfolding f(1) by (rule EXTRACT_CONSTRUCT [OF f(2)]) simp
  show "CONSTRUCT_ENTRY (p - KERNEL_BASE) (PERM_PRESENT OR PERM_WRITEABLE) AND PERM_PRESENT = PERM_PRESENT"
    using CONSTRUCT_PRESENT [of "p - KERNEL_BASE" 0 PERM_WRITEABLE] by (simp add: or.commute)
qed

lemma boot_allocate_space_grown:
  assumes "boot_ok dir b" "boot_allocate_space sz 4096 b = (p, b')" "ptr_free_mem b + sz + 4096 < U32"
  shows "grown dir {} b b'" "p mod 4096 = 0" "ptr_free_mem b \<le> p" "p < ptr_free_mem b + 4096" "ptr_free_mem b' = p + sz"
    and "p \<le> t \<Longrightarrow> t < p + sz \<Longrightarrow> tables (bk b') t = (\<lambda>_. 0)" "directories (bk b') dir = directories (bk b) dir"
proof -
  note D = boot_okD [OF assms(1)]
  have n: "ptr_free_mem b \<noteq> 0" "dir < ptr_free_mem b" using D(1,3) by simp_all
  note A = boot_allocate_space_kept [OF assms(2) n(1) assms(3)]
  show "p mod 4096 = 0" "ptr_free_mem b \<le> p" "p < ptr_free_mem b + 4096" "ptr_free_mem b' = p + sz"
    "p \<le> t \<Longrightarrow> t < p + sz \<Longrightarrow> tables (bk b') t = (\<lambda>_. 0)"
    using A by simp_all
  show d: "directories (bk b') dir = directories (bk b) dir" using A(7) n(2) by simp
  then have e: "baddr dir (bk b') = baddr dir (bk b)" by (simp add: baddr_def fun_eq_iff)
  have t: "tables (bk b') (btab dir (bk b) i) = tables (bk b) (btab dir (bk b) i)" if "ordinary i" "baddr dir (bk b) i \<noteq> 0" for i
    using A(8) D(6) [OF that] by simp
  have "boot_ok dir b'" by (rule boot_ok_grow [OF assms(1)]) (use A(2,4,6) d t in simp_all)
  then show "grown dir {} b b'" using A(2,4,5) e t by (simp add: grown_def bentry_def)
qed

lemma boot_get_page_table_grown:
  assumes "boot_ok dir b" "ordinary (PDX va)" "ptr_free_mem b + 8192 \<le> KERNEL_BASE + number_of_frames (bk b) * 4096"
    "ptr_free_mem b + 8192 \<le> KERNEL_HEAP_START"
  shows "\<exists>t b'. boot_get_page_table dir va True b = Inr (t, b') \<and> grown dir {} b b' \<and> t = btab dir (bk b') (PDX va) \<and>
           baddr dir (bk b') (PDX va) \<noteq> 0 \<and>
           (if baddr dir (bk b) (PDX va) \<noteq> 0 then b' = b else ptr_free_mem b' < ptr_free_mem b + 8192)"
proof -
  note D = boot_okD [OF assms(1)]
  let ?i = "PDX va"
  show ?thesis
  proof (cases "baddr dir (bk b) ?i = 0")
    case False
    then have "baddr dir (bk b) ?i div 4096 < number_of_frames (bk b)" "btab dir (bk b) ?i < U32"
      using D(6) [OF assms(2) False] assms(3,4) by auto
    then show ?thesis
      using False grown_refl [OF assms(1)]
      by (simp add: boot_get_page_table_def baddr_def Let_def STATIC_KERNEL_VIRTUAL_ADDRESS_def PPN_def add32_exact res_simps)
  next
    case True
    obtain p b1 where a: "boot_allocate_space 4096 4096 b = (p, b1)" by (cases "boot_allocate_space 4096 4096 b")
    have u: "ptr_free_mem b + 4096 + 4096 < U32" using assms(3,4) by simp
    note A = boot_allocate_space_grown [OF assms(1) a u]
    have ok: "boot_ok dir b1" using A(1) by (simp add: grown_def)
    note D1 = boot_okD [OF ok]
    let ?k = "set_dir_entry dir ?i (CONSTRUCT_ENTRY (p - KERNEL_BASE) (PERM_PRESENT OR PERM_WRITEABLE)) (bk b1)"
    let ?b = "b1\<lparr>bk := ?k\<rparr>"
    have p: "KERNEL_BASE \<le> p" "p < U32" "dir < p" using A(3,4) D(1,3) u by simp_all
    note F = fresh_entry [OF A(2) p(1,2)]
    have ba: "baddr dir ?k i = (if i = ?i then p - KERNEL_BASE else baddr dir (bk b) i)" for i
      using F(1) A(7) by (simp add: baddr_def set_dir_entry_def)
    have di: "directories ?k dir i = (if i = ?i then CONSTRUCT_ENTRY (p - KERNEL_BASE) (PERM_PRESENT OR PERM_WRITEABLE) else directories (bk b1) dir i)" for i
      by (simp add: set_dir_entry_def)
    have b1: "baddr dir (bk b1) = baddr dir (bk b)" using A(7) by (simp add: baddr_def fun_eq_iff)
    have ta: "tables ?k = tables (bk b1)" by (simp add: set_dir_entry_def)
    have lt: "btab dir (bk b) i < p" if "ordinary i" "baddr dir (bk b) i \<noteq> 0" for i using D(6) [OF that] A(3) by simp
    have new: "boot_ok dir ?b" unfolding boot_ok_def
    proof (intro conjI allI impI)
      fix i assume o: "ordinary i"
      show "if baddr dir (bk ?b) i = 0 then directories (bk ?b) dir i = 0
         else directories (bk ?b) dir i AND PERM_PRESENT = PERM_PRESENT \<and> dir < btab dir (bk ?b) i \<and>
              btab dir (bk ?b) i + 4096 \<le> ptr_free_mem ?b \<and> (984 \<le> i \<longrightarrow> (\<forall>j. bentry dir (bk ?b) i j = 0))"
      proof (cases "i = ?i")
        case True
        then show ?thesis using F p A(5,6) ba [of i] di [of i] ta D(1) by (simp add: bentry_def)
      next
        case False
        then have e: "baddr dir (bk ?b) i = baddr dir (bk b1) i" "directories (bk ?b) dir i = directories (bk b1) dir i"
            "bentry dir (bk ?b) i = bentry dir (bk b1) i"
          using ba [of i] di [of i] b1 ta by (simp_all add: bentry_def fun_eq_iff)
        show ?thesis unfolding e using D1(5-7) [OF o] by (cases "baddr dir (bk b1) i = 0") auto
      qed
    next
      fix i i' assume h: "ordinary i \<and> ordinary i' \<and> baddr dir (bk ?b) i \<noteq> 0 \<and> baddr dir (bk ?b) i = baddr dir (bk ?b) i'"
      then show "i = i'" using D(8) [of i i'] lt [of i] lt [of i'] ba [of i] ba [of i'] p by (auto split: if_splits)
    next
      show "ptr_page_directory (bk ?b) = dir" using D1(4) by (simp add: set_dir_entry_def)
    qed (use D1 in auto)
    have be: "bentry dir ?k i j = bentry dir (bk b) i j" if "ordinary i" "baddr dir (bk b) i \<noteq> 0" for i j
      using that True ba [of i] A(1) b1 ta by (auto simp: grown_def bentry_def)
    have "grown dir {} b ?b"
      unfolding grown_def using new A(1,3,5) be ba True by (auto simp: grown_def set_dir_entry_def)
    moreover have "boot_get_page_table dir va True b = Inr (p, ?b)"
      using True a p assms(3,4) D(1,3) by (simp add: boot_get_page_table_def baddr_def Let_def STATIC_KERNEL_VIRTUAL_ADDRESS_def PPN_def res_simps
          STATIC_KERNEL_PHYSICAL_ADDRESS_def)
    ultimately show ?thesis using True ba [of ?i] p A(4,5) D(1,3) A(3) by (intro exI [of _ p] exI [of _ ?b]) auto
  qed
qed

section \<open>Mapping a range\<close>

definition page_of :: "nat \<Rightarrow> nat \<times> nat" where
  "page_of va = (PDX va, PTX va)"

abbreviation pages_of :: "nat \<Rightarrow> nat \<Rightarrow> (nat \<times> nat) set" where
  "pages_of va n \<equiv> page_of ` (\<lambda>k. va + k * 4096) ` {..<n}"

lemma page_of_outside:
  assumes "va mod 4096 = 0" "va + n * 4096 \<le> U32" "0 < k" "k < n"
  shows "page_of (va + k * 4096) \<noteq> page_of va"
proof
  assume h: "page_of (va + k * 4096) = page_of va"
  have "k * 4096 + 4096 \<le> n * 4096" using assms(4) by (metis Suc_leI add.commute mult_Suc mult_le_mono1)
  then have b: "va + k * 4096 < U32" "va < U32" using assms(2) by linarith+
  have "va + k * 4096 = va" by (rule page_index_unique [OF b]) (use h assms(1) in \<open>simp_all add: page_of_def\<close>)
  then show False using assms(3) by simp
qed

text \<open>Writing entries of one table, outside the heap region.\<close>

lemma set_entry_grown:
  assumes "boot_ok dir b" "ordinary i" "i < 984" "baddr dir (bk b) i \<noteq> 0"
  shows "grown dir {(i, j)} b (b\<lparr>bk := set_entry (btab dir (bk b) i) j v (bk b)\<rparr>)"
    and "bentry dir (set_entry (btab dir (bk b) i) j v (bk b)) i j = v"
proof -
  let ?k = "set_entry (btab dir (bk b) i) j v (bk b)"
  let ?b = "b\<lparr>bk := ?k\<rparr>"
  note D = boot_okD [OF assms(1)]
  have s: "directories ?k = directories (bk b)" "number_of_frames ?k = number_of_frames (bk b)"
      "ptr_page_directory ?k = ptr_page_directory (bk b)"
    by (simp_all add: set_entry_def)
  have a: "baddr dir ?k = baddr dir (bk b)" by (simp add: baddr_def s fun_eq_iff)
  have tk: "tables ?k t j' = (if t = btab dir (bk b) i \<and> j' = j then v else tables (bk b) t j')" for t j'
    by (simp add: set_entry_def)
  have o: "btab dir (bk b) i' \<noteq> btab dir (bk b) i" if "ordinary i'" "baddr dir (bk b) i' \<noteq> 0" "i' \<noteq> i" for i'
    using D(8) [OF that(1) assms(2) that(2)] that(3) by auto
  have "boot_ok dir ?b" by (rule boot_ok_grow [OF assms(1)]) (use s o assms(3) in \<open>auto simp: set_entry_def\<close>)
  moreover have "bentry dir ?k i' j' = bentry dir (bk b) i' j'" if "ordinary i'" "baddr dir (bk b) i' \<noteq> 0" "(i', j') \<noteq> (i, j)" for i' j'
    using o [OF that(1,2)] that(3) by (cases "i' = i") (auto simp: bentry_def a tk)
  ultimately show "grown dir {(i, j)} b ?b" by (simp add: grown_def s a)
  show "bentry dir ?k i j = v" by (simp add: bentry_def a tk)
qed

text \<open>
  A range whose tables are there: every page of it gets its entry. The physical memory is mapped at most up to where the heap
  begins.
\<close>

lemma map_range_loop_present:
  assumes "boot_ok dir b" "ptr_free_mem b + 8192 \<le> KERNEL_BASE + number_of_frames (bk b) * 4096" "ptr_free_mem b + 8192 \<le> KERNEL_HEAP_START"
    "va mod 4096 = 0" "va + n * 4096 \<le> U32" "pa + n * 4096 \<le> U32"
    "\<forall>k < n. ordinary (PDX (va + k * 4096)) \<and> PDX (va + k * 4096) < 984 \<and> baddr dir (bk b) (PDX (va + k * 4096)) \<noteq> 0"
  shows "\<exists>b'. map_range_loop n dir va pa perm b = Inr b' \<and> grown dir (pages_of va n) b b' \<and> ptr_free_mem b' = ptr_free_mem b \<and>
           (\<forall>k < n. bentry dir (bk b') (PDX (va + k * 4096)) (PTX (va + k * 4096)) = CONSTRUCT_ENTRY (pa + k * 4096) (perm OR PERM_PRESENT))"
  using assms
proof (induction n arbitrary: va pa b)
  case 0
  then show ?case using grown_refl by simp
next
  case (Suc n)
  have h: "ordinary (PDX va)" "PDX va < 984" "baddr dir (bk b) (PDX va) \<noteq> 0" using Suc.prems(7) by force+
  let ?b = "b\<lparr>bk := set_entry (btab dir (bk b) (PDX va)) (PTX va) (CONSTRUCT_ENTRY pa (perm OR PERM_PRESENT)) (bk b)\<rparr>"
  have g: "boot_get_page_table dir va True b = Inr (btab dir (bk b) (PDX va), b)"
    using boot_get_page_table_grown [OF Suc.prems(1) h(1) Suc.prems(2,3)] h(3) by auto
  note E = set_entry_grown [OF Suc.prems(1) h, of "PTX va" "CONSTRUCT_ENTRY pa (perm OR PERM_PRESENT)"]
  have ok: "boot_ok dir ?b" and nf: "number_of_frames (bk ?b) = number_of_frames (bk b)"
    and ba: "baddr dir (bk ?b) = baddr dir (bk b)"
    using E(1) by (auto simp: grown_def baddr_def set_entry_def fun_eq_iff)
  have bnd: "va + 4096 + n * 4096 \<le> U32" "pa + 4096 + n * 4096 \<le> U32" "(va + 4096) mod 4096 = 0"
    using Suc.prems(4-6) by simp_all
  have al: "\<forall>k < n. ordinary (PDX (va + 4096 + k * 4096)) \<and> PDX (va + 4096 + k * 4096) < 984 \<and>
      baddr dir (bk ?b) (PDX (va + 4096 + k * 4096)) \<noteq> 0"
  proof (intro allI impI)
    fix k assume "k < n"
    then show "ordinary (PDX (va + 4096 + k * 4096)) \<and> PDX (va + 4096 + k * 4096) < 984 \<and>
      baddr dir (bk ?b) (PDX (va + 4096 + k * 4096)) \<noteq> 0"
      using Suc.prems(7) [rule_format, of "Suc k"] by (simp only: ba mult_Suc add.assoc) simp
  qed
  obtain b' where I: "map_range_loop n dir (va + 4096) (pa + 4096) perm ?b = Inr b'" "grown dir (pages_of (va + 4096) n) ?b b'"
      "ptr_free_mem b' = ptr_free_mem b"
      "\<forall>k < n. bentry dir (bk b') (PDX (va + 4096 + k * 4096)) (PTX (va + 4096 + k * 4096)) = CONSTRUCT_ENTRY (pa + 4096 + k * 4096) (perm OR PERM_PRESENT)"
    using Suc.IH [OF ok _ _ bnd(3,1,2) al] Suc.prems(2,3) nf by auto
  have loop: "map_range_loop (Suc n) dir va pa perm b = Inr b'"
  proof (cases n)
    case 0
    then show ?thesis using g I(1) by (simp add: res_simps)
  next
    case (Suc m)
    then have "add32 va 4096 = va + 4096" "add32 pa 4096 = pa + 4096" using bnd by (auto intro!: add32_exact)
    then show ?thesis using g I(1) by (simp add: res_simps)
  qed
  have pg: "pages_of va (Suc n) = {page_of va} \<union> pages_of (va + 4096) n"
    unfolding lessThan_Suc_eq_insert_0 by (simp add: image_image add.assoc)
  have first: "bentry dir (bk b') (PDX va) (PTX va) = CONSTRUCT_ENTRY pa (perm OR PERM_PRESENT)"
  proof -
    have "page_of va \<noteq> page_of (va + Suc k * 4096)" if "k < n" for k
      using page_of_outside [OF Suc.prems(4,5), of "Suc k"] that by auto
    then have "page_of va \<notin> pages_of (va + 4096) n" by (auto simp: add.assoc)
    then have "bentry dir (bk b') (PDX va) (PTX va) = bentry dir (bk ?b) (PDX va) (PTX va)"
      using I(2) h(1,3) ba by (simp add: grown_def page_of_def)
    then show ?thesis using E(2) by simp
  qed
  have ent: "bentry dir (bk b') (PDX (va + k * 4096)) (PTX (va + k * 4096)) = CONSTRUCT_ENTRY (pa + k * 4096) (perm OR PERM_PRESENT)"
    if "k < Suc n" for k
    using that first I(4) by (cases k) (simp_all add: add.assoc)
  have "grown dir (pages_of va (Suc n)) b b'"
    using grown_trans [OF E(1) I(2)] by (simp only: pg page_of_def)
  then show ?case using loop I(3) ent by auto
qed

definition room :: "nat \<Rightarrow> boot \<Rightarrow> bool" where
  "room n b \<longleftrightarrow> ptr_free_mem b + n \<le> KERNEL_BASE + number_of_frames (bk b) * 4096 \<and> ptr_free_mem b + n \<le> KERNEL_HEAP_START"

lemma map_range_loop_one_table:
  assumes "boot_ok dir b" "room 16384 b" "va mod 4096 = 0" "va + n * 4096 \<le> U32" "pa + n * 4096 \<le> U32"
    "\<forall>k < n. PDX (va + k * 4096) = i" "ordinary i" "i < 984" "0 < n"
  shows "\<exists>b'. map_range_loop n dir va pa perm b = Inr b' \<and> grown dir (pages_of va n) b b' \<and> ptr_free_mem b' < ptr_free_mem b + 8192 \<and>
           baddr dir (bk b') i \<noteq> 0 \<and>
           (\<forall>k < n. bentry dir (bk b') i (PTX (va + k * 4096)) = CONSTRUCT_ENTRY (pa + k * 4096) (perm OR PERM_PRESENT))"
proof -
  have i: "PDX va = i" using assms(6,9) by force
  have r: "ptr_free_mem b + 8192 \<le> KERNEL_BASE + number_of_frames (bk b) * 4096" "ptr_free_mem b + 8192 \<le> KERNEL_HEAP_START"
    using assms(2) by (simp_all add: room_def)
  obtain t b1 where b1: "boot_get_page_table dir va True b = Inr (t, b1)" "grown dir {} b b1" "t = btab dir (bk b1) i"
      "baddr dir (bk b1) i \<noteq> 0" "ptr_free_mem b1 < ptr_free_mem b + 8192"
    using boot_get_page_table_grown [OF assms(1) _ r, of va] assms(7) i by (auto split: if_splits)
  have ok: "boot_ok dir b1" "number_of_frames (bk b1) = number_of_frames (bk b)" using b1(2) by (simp_all add: grown_def)
  have r1: "ptr_free_mem b1 + 8192 \<le> KERNEL_BASE + number_of_frames (bk b1) * 4096" "ptr_free_mem b1 + 8192 \<le> KERNEL_HEAP_START"
    using assms(2) b1(5) ok(2) by (simp_all add: room_def)
  have g: "boot_get_page_table dir va True b1 = Inr (t, b1)"
    using boot_get_page_table_grown [OF ok(1) _ r1, of va] assms(7) i b1(3,4) by auto
  have e: "map_range_loop n dir va pa perm b = map_range_loop n dir va pa perm b1"
    using b1(1) g assms(9) by (cases n) (simp_all add: res_simps)
  have al: "\<forall>k < n. ordinary (PDX (va + k * 4096)) \<and> PDX (va + k * 4096) < 984 \<and> baddr dir (bk b1) (PDX (va + k * 4096)) \<noteq> 0"
    using assms(6-8) b1(4) by simp
  obtain b' where P: "map_range_loop n dir va pa perm b1 = Inr b'" "grown dir (pages_of va n) b1 b'" "ptr_free_mem b' = ptr_free_mem b1"
      "\<forall>k < n. bentry dir (bk b') (PDX (va + k * 4096)) (PTX (va + k * 4096)) = CONSTRUCT_ENTRY (pa + k * 4096) (perm OR PERM_PRESENT)"
    using map_range_loop_present [OF ok(1) r1 assms(3-5) al] by blast
  have "baddr dir (bk b') i \<noteq> 0" using P(2) b1(4) assms(7) by (simp add: grown_def)
  moreover have "grown dir (pages_of va n) b b'" using grown_trans [OF b1(2) P(2)] by simp
  ultimately show ?thesis using e P b1(5) assms(6) by auto
qed

lemma kernel_tables_loop_grown:
  assumes "boot_ok dir b" "room (n * 8192 + 8192) b" "\<forall>k < n. ordinary (PDX (sva + k * PTSIZE))"
  shows "\<exists>b'. kernel_tables_loop n dir sva b = Inr b' \<and> grown dir {} b b' \<and> ptr_free_mem b' \<le> ptr_free_mem b + n * 8192 \<and>
           (\<forall>k < n. baddr dir (bk b') (PDX (sva + k * PTSIZE)) \<noteq> 0)"
  using assms
proof (induction n arbitrary: sva b)
  case 0
  then show ?case using grown_refl by simp
next
  case (Suc n)
  have o: "ordinary (PDX sva)" using Suc.prems(3) by force
  obtain t b1 where b1: "boot_get_page_table dir sva True b = Inr (t, b1)" "grown dir {} b b1" "baddr dir (bk b1) (PDX sva) \<noteq> 0"
      "ptr_free_mem b1 \<le> ptr_free_mem b + 8192"
    using boot_get_page_table_grown [OF Suc.prems(1) o] Suc.prems(2) by (auto simp: room_def split: if_splits)
  have ok: "boot_ok dir b1" "room (n * 8192 + 8192) b1" using b1(2,4) Suc.prems(2) by (auto simp: grown_def room_def)
  have al: "\<forall>k < n. ordinary (PDX (sva + PTSIZE + k * PTSIZE))"
    using Suc.prems(3) by (metis (no_types, lifting) add.assoc mult_Suc Suc_less_eq)
  obtain b' where I: "kernel_tables_loop n dir (sva + PTSIZE) b1 = Inr b'" "grown dir {} b1 b'" "ptr_free_mem b' \<le> ptr_free_mem b1 + n * 8192"
      "\<forall>k < n. baddr dir (bk b') (PDX (sva + PTSIZE + k * PTSIZE)) \<noteq> 0"
    using Suc.IH [OF ok al] by blast
  have z: "baddr dir (bk b') (PDX sva) \<noteq> 0" using I(2) b1(3) o by (simp add: grown_def)
  have "baddr dir (bk b') (PDX (sva + k * PTSIZE)) \<noteq> 0" if "k < Suc n" for k
    using that z I(4) by (cases k) (simp_all add: add.assoc)
  then show ?case using b1 I grown_trans [OF b1(2) I(2)] by (auto simp: res_simps)
qed

text \<open>The recursive mapping, and the flags of an entry.\<close>

lemma listing_grown:
  assumes "boot_ok dir b"
  shows "\<exists>b'. setup_listing_to_all_page_tables_entries dir b = Inr b' \<and> grown dir {} b b' \<and> ptr_free_mem b' = ptr_free_mem b"
proof -
  note D = boot_okD [OF assms]
  have e: "setup_listing_to_all_page_tables_entries dir b =
      Inr (b\<lparr>bk := set_dir_entry dir (PDX UVPT_VA) (CONSTRUCT_ENTRY (dir - KERNEL_BASE) (PERM_USER OR PERM_PRESENT))
                  (set_dir_entry dir (PDX VPT_VA) (CONSTRUCT_ENTRY (dir - KERNEL_BASE) (PERM_PRESENT OR PERM_WRITEABLE)) (bk b))\<rparr>)"
      (is "_ = Inr ?b")
    using D(1) by (simp add: setup_listing_to_all_page_tables_entries_def STATIC_KERNEL_PHYSICAL_ADDRESS_def res_simps)
  have d: "directories (bk ?b) dir i = directories (bk b) dir i" if "ordinary i" for i
    using that by (simp add: ordinary_def set_dir_entry_def)
  have t: "tables (bk ?b) = tables (bk b)" "number_of_frames (bk ?b) = number_of_frames (bk b)" by (simp_all add: set_dir_entry_def)
  have "boot_ok dir ?b" by (rule boot_ok_grow [OF assms]) (use d in \<open>auto simp: set_dir_entry_def\<close>)
  moreover have "baddr dir (bk ?b) i = baddr dir (bk b) i" if "ordinary i" for i using d [OF that] by (simp add: baddr_def)
  ultimately have "grown dir {} b ?b" using t by (simp add: grown_def bentry_def)
  then show ?thesis using e by simp
qed

lemma flags_grown:
  assumes "boot_ok dir b" "ordinary i" "baddr dir (bk b) i \<noteq> 0"
  shows "grown dir {} b (b\<lparr>bk := set_dir_entry dir i (directories (bk b) dir i OR (PERM_USER OR PERM_PRESENT)) (bk b)\<rparr>)"
proof -
  let ?b = "b\<lparr>bk := set_dir_entry dir i (directories (bk b) dir i OR (PERM_USER OR PERM_PRESENT)) (bk b)\<rparr>"
  note D = boot_okD [OF assms(1)]
  have d: "directories (bk ?b) dir i' = (if i' = i then directories (bk b) dir i OR (PERM_USER OR PERM_PRESENT) else directories (bk b) dir i')" for i'
    by (simp add: set_dir_entry_def)
  have f: "(directories (bk b) dir i OR (PERM_USER OR PERM_PRESENT)) AND NOT OFFSET_MASK = directories (bk b) dir i AND NOT OFFSET_MASK"
    by (simp add: bit.conj_disj_distrib2)
  have "EXTRACT_ADDRESS (directories (bk b) dir i OR (PERM_USER OR PERM_PRESENT)) = EXTRACT_ADDRESS (directories (bk b) dir i)"
    unfolding EXTRACT_ADDRESS_def f ..
  then have a: "baddr dir (bk ?b) = baddr dir (bk b)" unfolding fun_eq_iff baddr_def d by simp
  have t: "tables (bk ?b) = tables (bk b)" "number_of_frames (bk ?b) = number_of_frames (bk b)" by (simp_all add: set_dir_entry_def)
  have be: "bentry dir (bk ?b) = bentry dir (bk b)" unfolding bentry_def a t ..
  have p: "(directories (bk b) dir i OR (PERM_USER OR PERM_PRESENT)) AND PERM_PRESENT = PERM_PRESENT"
    by (simp add: bit.conj_disj_distrib2)
  have "boot_ok dir ?b" unfolding boot_ok_def a be
  proof (intro conjI allI impI)
    fix i' assume o: "ordinary i'"
    show "if baddr dir (bk b) i' = 0 then directories (bk ?b) dir i' = 0
         else directories (bk ?b) dir i' AND PERM_PRESENT = PERM_PRESENT \<and> dir < btab dir (bk b) i' \<and>
              btab dir (bk b) i' + 4096 \<le> ptr_free_mem ?b \<and> (984 \<le> i' \<longrightarrow> (\<forall>j. bentry dir (bk b) i' j = 0))"
      unfolding d using D(5-7) [OF o] p assms(3) by (cases "baddr dir (bk b) i' = 0") auto
  qed (use D in \<open>auto simp: set_dir_entry_def\<close>)
  then show ?thesis using a be t by (simp add: grown_def)
qed

text \<open>The guard page below the stack.\<close>

lemma guard_grown:
  assumes "boot_ok dir b" "room 0 b" "baddr dir (bk b) 958 \<noteq> 0"
  shows "\<exists>k. pt_set_page_permissions dir (KERN_STACK_TOP - KSTACK_SIZE) 0 PERM_PRESENT (bk b) = Inr k \<and>
           grown dir {(958, 1016)} b (b\<lparr>bk := k\<rparr>) \<and> bentry dir k 958 1016 AND PERM_PRESENT = 0 \<and>
           baddr dir k = baddr dir (bk b)"
proof -
  note D = boot_okD [OF assms(1)]
  have x: "PDX (KERN_STACK_TOP - KSTACK_SIZE) = 958" "PTX (KERN_STACK_TOP - KSTACK_SIZE) = 1016" "ordinary 958"
    by (simp_all add: PDX_def PTX_def ordinary_def)
  let ?t = "btab dir (bk b) 958"
  have t: "directories (bk b) dir 958 AND PERM_PRESENT = PERM_PRESENT" "?t + 4096 \<le> ptr_free_mem b"
    using D(6) [OF x(3) assms(3)] by simp_all
  have "baddr dir (bk b) 958 div 4096 < number_of_frames (bk b)" "?t < U32"
    using t(2) assms(2) by (auto simp: room_def)
  then have g: "get_page_table dir (KERN_STACK_TOP - KSTACK_SIZE) (bk b) = Inr (TABLE_IN_MEMORY, ?t)"
    using t(1) x(1) by (simp add: get_page_table_def Let_def CHECK_IF_KERNEL_ADDRESS_def STATIC_KERNEL_VIRTUAL_ADDRESS_def PPN_def res_simps
        baddr_def add32_exact)
  let ?v = "tables (bk b) ?t 1016 AND NOT PERM_PRESENT"
  have ss: "set_entry ?t 1016 v (set_entry ?t 1016 w k) = set_entry ?t 1016 v k" for v w k by (simp add: set_entry_def)
  have e: "pt_set_page_permissions dir (KERN_STACK_TOP - KSTACK_SIZE) 0 PERM_PRESENT (bk b) = Inr (set_entry ?t 1016 ?v (bk b))"
    using g x(2) by (simp add: pt_set_page_permissions_def res_simps Let_def ss)
  note S = set_entry_grown [OF assms(1) x(3) _ assms(3), of 1016 ?v]
  have z: "?v AND PERM_PRESENT = 0" by (rule bit_eqI) (auto simp: bit_simps)
  have ba: "baddr dir (set_entry ?t 1016 ?v (bk b)) = baddr dir (bk b)" by (simp add: baddr_def fun_eq_iff set_entry_def)
  show ?thesis
  proof (intro exI conjI)
    show "bentry dir (set_entry ?t 1016 ?v (bk b)) 958 1016 AND PERM_PRESENT = 0" using S(2) z by simp
  qed (use e S(1) ba in simp_all)
qed

section \<open>The kernel's address space\<close>

lemma boot_directory:
  assumes "boot_allocate_space 4096 4096 b = (dir, b')" "ptr_free_mem b = 0" "KERNEL_BASE + PHYS_EXTENDED_MEM \<le> end_of_kernel b"
    "end_of_kernel b + 8192 \<le> KERNEL_HEAP_START"
  shows "boot_ok dir (b'\<lparr>bk := (bk b')\<lparr>ptr_page_directory := dir\<rparr>\<rparr>)" "end_of_kernel b \<le> dir" "ptr_free_mem b' < end_of_kernel b + 8192"
    "number_of_frames (bk b') = number_of_frames (bk b)" "ptr_free_mem b' = dir + 4096"
proof -
  let ?p = "ROUNDUP (end_of_kernel b) 4096"
  note R = ROUNDUP_page [of "end_of_kernel b"]
  have e: "dir = ?p" "b' = b\<lparr>ptr_free_mem := add32 ?p 4096, bk := zero_range ?p 4096 (bk b)\<rparr>"
    using assms(1,2) by (auto simp: boot_allocate_space_def Let_def)
  have r: "?p mod 4096 = 0" "end_of_kernel b \<le> ?p" "?p < end_of_kernel b + 4096" using R assms(4) by simp_all
  have pf: "ptr_free_mem b' = ?p + 4096" using e r assms(4) by (simp add: add32_exact)
  have d: "directories (bk b') dir i = 0" for i using e by (simp add: zero_range_def)
  have a: "baddr dir ((bk b')\<lparr>ptr_page_directory := dir\<rparr>) i = 0" for i using d by (simp add: baddr_def EXTRACT_ADDRESS_def)
  show "boot_ok dir (b'\<lparr>bk := (bk b')\<lparr>ptr_page_directory := dir\<rparr>\<rparr>)" using a d r pf e assms(3) by (simp add: boot_ok_def)
  show "end_of_kernel b \<le> dir" "ptr_free_mem b' < end_of_kernel b + 8192" "number_of_frames (bk b') = number_of_frames (bk b)"
    "ptr_free_mem b' = dir + 4096"
    using e r pf by (simp_all add: zero_range_def)
qed

lemma PDX_offset: "k < 1024 \<Longrightarrow> PDX (i * 4194304 + k * 4096) = i mod 1024"
proof -
  assume "k < 1024"
  then have "(i * 4194304 + k * 4096) div 4194304 = i" by (intro div_nat_eqI) simp_all
  then show ?thesis by (simp add: PDX_def)
qed

lemma kernel_range_PDX:
  assumes "KERNEL_BASE + k * 4096 < KERNEL_HEAP_START"
  shows "960 \<le> PDX (KERNEL_BASE + k * 4096)" "PDX (KERNEL_BASE + k * 4096) < 984" "ordinary (PDX (KERNEL_BASE + k * 4096))"
proof -
  have "(KERNEL_BASE + k * 4096) div 4194304 = 960 + k div 1024"
    by (simp add: div_mult2_eq [of _ 4096 1024, simplified])
  moreover have "k div 1024 < 24" using assms by simp
  ultimately show "960 \<le> PDX (KERNEL_BASE + k * 4096)" "PDX (KERNEL_BASE + k * 4096) < 984"
    by (simp_all add: PDX_def)
  then show "ordinary (PDX (KERNEL_BASE + k * 4096))" by (simp add: ordinary_def PDX_def)
qed

text \<open>The stack, the guard page and the kernel's tables.\<close>

abbreviation STACK_VA :: nat where "STACK_VA \<equiv> 0xEFBF8000"

definition stack_mapped :: "nat \<Rightarrow> nat \<Rightarrow> kmem \<Rightarrow> bool" where
  "stack_mapped dir phys k \<longleftrightarrow> baddr dir k 958 \<noteq> 0 \<and> bentry dir k 958 1016 AND PERM_PRESENT = 0 \<and>
     (\<forall>n. 1 \<le> n \<and> n < 8 \<longrightarrow> bentry dir k 958 (1016 + n) = CONSTRUCT_ENTRY (phys + n * 4096) (PERM_WRITEABLE OR PERM_PRESENT))"

lemma stack_mapped_grown:
  assumes "stack_mapped dir phys (bk b)" "grown dir W b b'" "\<forall>j. (958, j) \<notin> W"
  shows "stack_mapped dir phys (bk b')"
proof -
  have "ordinary 958" by (simp add: ordinary_def PDX_def)
  then have "baddr dir (bk b') 958 = baddr dir (bk b) 958" "bentry dir (bk b') 958 j = bentry dir (bk b) 958 j" for j
    using assms by (auto simp: grown_def stack_mapped_def)
  then show ?thesis using assms(1) by (simp add: stack_mapped_def)
qed

lemma stack_and_guard:
  assumes "boot_ok dir b" "room 32768 b" "phys + 32768 \<le> U32"
  shows "\<exists>b1 k. boot_map_range dir STACK_VA 32768 phys PERM_WRITEABLE b = Inr b1 \<and>
           pt_set_page_permissions dir STACK_VA 0 PERM_PRESENT (bk b1) = Inr k \<and>
           boot_ok dir (b1\<lparr>bk := k\<rparr>) \<and> stack_mapped dir phys k \<and>
           number_of_frames k = number_of_frames (bk b) \<and> ptr_free_mem b1 < ptr_free_mem b + 8192"
proof -
  have s: "STACK_VA + k * 4096 = 958 * 4194304 + (1016 + k) * 4096" for k by simp
  have x: "PDX (STACK_VA + k * 4096) = 958" "PTX (STACK_VA + k * 4096) = 1016 + k" if "k < 8" for k
  proof -
    show "PDX (STACK_VA + k * 4096) = 958" using that PDX_offset [of "1016 + k" 958] by (simp only: s) simp
    have "STACK_VA + k * 4096 = (958 * 1024 + (1016 + k)) * 4096" by simp
    then have "(STACK_VA + k * 4096) div 4096 = 958 * 1024 + (1016 + k)" by (metis nonzero_mult_div_cancel_right zero_neq_numeral)
    then show "PTX (STACK_VA + k * 4096) = 1016 + k" using that by (simp only: PTX_def mod_mult_self3) simp
  qed
  have o: "ordinary 958" by (simp add: ordinary_def PDX_def)
  obtain b1 where b1: "map_range_loop 8 dir STACK_VA phys PERM_WRITEABLE b = Inr b1" "grown dir (pages_of STACK_VA 8) b b1"
      "ptr_free_mem b1 < ptr_free_mem b + 8192" "baddr dir (bk b1) 958 \<noteq> 0"
      "\<forall>k < 8. bentry dir (bk b1) 958 (PTX (STACK_VA + k * 4096)) = CONSTRUCT_ENTRY (phys + k * 4096) (PERM_WRITEABLE OR PERM_PRESENT)"
    using map_range_loop_one_table [of dir b STACK_VA 8 phys 958 PERM_WRITEABLE] assms x(1) o by (auto simp: room_def)
  have ok: "boot_ok dir b1" "room 0 b1" using b1(2,3) assms(2) by (auto simp: grown_def room_def)
  obtain k where k: "pt_set_page_permissions dir STACK_VA 0 PERM_PRESENT (bk b1) = Inr k" "grown dir {(958, 1016)} b1 (b1\<lparr>bk := k\<rparr>)"
      "bentry dir k 958 1016 AND PERM_PRESENT = 0" "baddr dir k = baddr dir (bk b1)"
    using guard_grown [OF ok b1(4)] by auto
  have "bentry dir k 958 (1016 + n) = CONSTRUCT_ENTRY (phys + n * 4096) (PERM_WRITEABLE OR PERM_PRESENT)" if "1 \<le> n" "n < 8" for n
    using k(2) b1(4,5) x(2) [OF that(2)] that o by (auto simp: grown_def)
  then have "stack_mapped dir phys k" using k(3,4) b1(4) by (simp add: stack_mapped_def)
  moreover have "number_of_frames k = number_of_frames (bk b)" using k(2) b1(2) by (simp add: grown_def)
  moreover have "boot_ok dir (b1\<lparr>bk := k\<rparr>)" using k(2) by (simp add: grown_def)
  ultimately show ?thesis using b1(1,3) k(1) by (simp add: boot_map_range_def)
qed

text \<open>The mapping of the environments for the users, and of the kernel.\<close>

lemma environments_mapped:
  assumes "boot_ok dir b" "room 16384 b" "0 < sz" "sz \<le> PTSIZE" "phys + sz + 4096 \<le> U32"
  shows "\<exists>b'. boot_map_range dir UENVS sz phys PERM_USER b = Inr b' \<and> grown dir ({955} \<times> UNIV) b b' \<and>
           ptr_free_mem b' < ptr_free_mem b + 8192 \<and> baddr dir (bk b') 955 \<noteq> 0"
proof -
  let ?n = "(sz + 4095) div 4096"
  have n: "?n \<le> 1024" "0 < ?n" "?n * 4096 \<le> sz + 4095" using assms(3,4) by auto
  have p: "\<forall>k < ?n. PDX (UENVS + k * 4096) = 955" using PDX_offset [of _ 955] n(1) by auto
  have o: "ordinary 955" by (simp add: ordinary_def PDX_def)
  have u: "UENVS + ?n * 4096 \<le> U32" "phys + ?n * 4096 \<le> U32" using n(1,3) assms(5) by linarith+
  obtain b' where b': "map_range_loop ?n dir UENVS phys PERM_USER b = Inr b'" "grown dir (pages_of UENVS ?n) b b'"
      "ptr_free_mem b' < ptr_free_mem b + 8192" "baddr dir (bk b') 955 \<noteq> 0"
    using map_range_loop_one_table [OF assms(1,2) _ u p o _ n(2), of PERM_USER] by auto
  have "pages_of UENVS ?n \<subseteq> {955} \<times> UNIV" using p by (auto simp: page_of_def)
  then have "grown dir ({955} \<times> UNIV) b b'" using b'(2) by (rule grown_mono [rotated])
  then show ?thesis using b' by (simp add: boot_map_range_def)
qed

definition kernel_mapped :: "nat \<Rightarrow> nat \<Rightarrow> kmem \<Rightarrow> bool" where
  "kernel_mapped dir lim k \<longleftrightarrow> (\<forall>i. 960 \<le> i \<and> i < 1024 \<longrightarrow> baddr dir k i \<noteq> 0) \<and>
     (\<forall>n. KERNEL_BASE + n * 4096 < lim \<longrightarrow>
        bentry dir k (PDX (KERNEL_BASE + n * 4096)) (PTX (KERNEL_BASE + n * 4096)) = CONSTRUCT_ENTRY (n * 4096) (PERM_WRITEABLE OR PERM_PRESENT))"

lemma kernel_range_mapped:
  assumes "boot_ok dir b" "room 8192 b" "\<forall>i. 960 \<le> i \<and> i < 1024 \<longrightarrow> baddr dir (bk b) i \<noteq> 0"
  shows "\<exists>b'. boot_map_range dir KERNEL_BASE (ptr_free_mem b - KERNEL_BASE) 0 PERM_WRITEABLE b = Inr b' \<and> grown dir ({960..<984} \<times> UNIV) b b' \<and>
           ptr_free_mem b' = ptr_free_mem b \<and> kernel_mapped dir (ptr_free_mem b) (bk b')"
proof -
  let ?n = "(ptr_free_mem b - KERNEL_BASE + 4095) div 4096"
  have "KERNEL_BASE \<le> ptr_free_mem b" using boot_okD(1,3) [OF assms(1)] by simp
  then have n: "KERNEL_BASE + ?n * 4096 \<le> ptr_free_mem b + 4095" and lt: "k < ?n \<longleftrightarrow> KERNEL_BASE + k * 4096 < ptr_free_mem b" for k
    using less_eq_div_iff_mult_less_eq [of 4096 "Suc k" "ptr_free_mem b - KERNEL_BASE + 4095"] by auto
  have r: "ptr_free_mem b + 8192 \<le> KERNEL_BASE + number_of_frames (bk b) * 4096" "ptr_free_mem b + 8192 \<le> KERNEL_HEAP_START"
    using assms(2) by (simp_all add: room_def)
  have k: "960 \<le> PDX (KERNEL_BASE + k * 4096) \<and> PDX (KERNEL_BASE + k * 4096) < 984 \<and> ordinary (PDX (KERNEL_BASE + k * 4096))"
    if "k < ?n" for k
    using kernel_range_PDX [of k] that lt [of k] r(2) by simp
  have "baddr dir (bk b) (PDX (KERNEL_BASE + k * 4096)) \<noteq> 0" if "k < ?n" for k
    using assms(3) k [OF that] by (simp add: less_trans [of _ 984 1024])
  with k have al: "\<forall>k < ?n. ordinary (PDX (KERNEL_BASE + k * 4096)) \<and> PDX (KERNEL_BASE + k * 4096) < 984 \<and>
      baddr dir (bk b) (PDX (KERNEL_BASE + k * 4096)) \<noteq> 0" by simp
  have u: "KERNEL_BASE + ?n * 4096 \<le> U32" "0 + ?n * 4096 \<le> U32" using n r(2) by linarith+
  obtain b' where b': "map_range_loop ?n dir KERNEL_BASE 0 PERM_WRITEABLE b = Inr b'" "grown dir (pages_of KERNEL_BASE ?n) b b'"
      "ptr_free_mem b' = ptr_free_mem b"
      "\<forall>k < ?n. bentry dir (bk b') (PDX (KERNEL_BASE + k * 4096)) (PTX (KERNEL_BASE + k * 4096)) = CONSTRUCT_ENTRY (0 + k * 4096) (PERM_WRITEABLE OR PERM_PRESENT)"
    using map_range_loop_present [OF assms(1) r _ u al, of PERM_WRITEABLE] by auto
  have "pages_of KERNEL_BASE ?n \<subseteq> {960..<984} \<times> UNIV" using k by (auto simp: page_of_def)
  then have g: "grown dir ({960..<984} \<times> UNIV) b b'" using b'(2) by (rule grown_mono [rotated])
  have "baddr dir (bk b') i \<noteq> 0" if "960 \<le> i" "i < 1024" for i
    using g assms(3) that by (auto simp: grown_def ordinary_def PDX_def)
  then have "kernel_mapped dir (ptr_free_mem b) (bk b')" using b'(4) lt by (simp add: kernel_mapped_def)
  then show ?thesis using b' g by (simp add: boot_map_range_def)
qed

lemma turn_on_paging_ok:
  assumes "boot_ok dir b" "ptr_free_mem b \<le> KERNEL_HEAP_START" "kernel_mapped dir (ptr_free_mem b) (bk b)" "stack_mapped dir phys (bk b)"
  shows "boot_ok dir (turn_on_paging dir b)" "kernel_mapped dir (ptr_free_mem b) (bk (turn_on_paging dir b))" "stack_mapped dir phys (bk (turn_on_paging dir b))"
    "ptr_free_mem (turn_on_paging dir b) = ptr_free_mem b" "number_of_frames (bk (turn_on_paging dir b)) = number_of_frames (bk b)"
proof -
  let ?b = "turn_on_paging dir b"
  let ?m = "PDX (ptr_free_mem b) - PDX KERNEL_BASE"
  note D = boot_okD [OF assms(1)]
  have "ptr_free_mem b div 4194304 \<le> 984" using assms(2) by (simp add: div_le_mono [of _ KERNEL_HEAP_START 4194304, simplified])
  then have m: "?m \<le> 24" by (simp add: PDX_def)
  have d: "directories (bk ?b) dir i = (if i < ?m then 0 else directories (bk b) dir i)" for i by (simp add: turn_on_paging_def)
  have a: "baddr dir (bk ?b) i = (if i < ?m then 0 else baddr dir (bk b) i)" for i
    by (simp add: baddr_def d EXTRACT_ADDRESS_def)
  have t: "tables (bk ?b) = tables (bk b)" by (simp add: turn_on_paging_def)
  have be: "bentry dir (bk ?b) i j = bentry dir (bk b) i j" if "\<not> i < ?m" for i j using that by (simp add: bentry_def a t)
  show "boot_ok dir ?b" unfolding boot_ok_def
  proof (intro conjI allI impI)
    fix i assume o: "ordinary i"
    show "if baddr dir (bk ?b) i = 0 then directories (bk ?b) dir i = 0
         else directories (bk ?b) dir i AND PERM_PRESENT = PERM_PRESENT \<and> dir < btab dir (bk ?b) i \<and>
              btab dir (bk ?b) i + 4096 \<le> ptr_free_mem ?b \<and> (984 \<le> i \<longrightarrow> (\<forall>j. bentry dir (bk ?b) i j = 0))"
      using D(5-7) [OF o] a [of i] d [of i] be [of i] by (cases "i < ?m"; cases "baddr dir (bk b) i = 0") (auto simp: turn_on_paging_def)
  next
    fix i i' assume "ordinary i \<and> ordinary i' \<and> baddr dir (bk ?b) i \<noteq> 0 \<and> baddr dir (bk ?b) i = baddr dir (bk ?b) i'"
    then show "i = i'" using D(8) [of i i'] a [of i] a [of i'] by (auto split: if_splits)
  qed (use D(1-4) in \<open>auto simp: turn_on_paging_def\<close>)
  show "stack_mapped dir phys (bk ?b)" using assms(4) m be [of 958] a [of 958] by (simp add: stack_mapped_def)
  show "ptr_free_mem ?b = ptr_free_mem b" "number_of_frames (bk ?b) = number_of_frames (bk b)" by (simp_all add: turn_on_paging_def)
  have "\<not> PDX (KERNEL_BASE + n * 4096) < ?m" if "KERNEL_BASE + n * 4096 < ptr_free_mem b" for n
    using kernel_range_PDX(1) [of n] m that assms(2) by simp
  then show "kernel_mapped dir (ptr_free_mem b) (bk ?b)" using assms(3) m be a by (simp add: kernel_mapped_def)
qed

text \<open>The whole of \<open>initialize_kernel_VM\<close>: what it leaves fits below the frames and below the heap.\<close>

definition boot_fits :: "nat \<Rightarrow> nat \<Rightarrow> nat \<Rightarrow> nat \<Rightarrow> boot \<Rightarrow> bool" where
  "boot_fits stack_bottom array_size disk_array_size envs_size b \<longleftrightarrow> ptr_free_mem b = 0 \<and>
     KERNEL_BASE + PHYS_EXTENDED_MEM \<le> end_of_kernel b \<and> KERNEL_BASE \<le> stack_bottom \<and> stack_bottom \<le> end_of_kernel b \<and>
     0 < envs_size \<and> envs_size \<le> PTSIZE \<and> number_of_frames (bk b) \<le> 65536 \<and>
     end_of_kernel b + array_size + disk_array_size + envs_size + 0x100000 \<le> KERNEL_HEAP_START \<and>
     end_of_kernel b + array_size + disk_array_size + envs_size + 0x100000 \<le> KERNEL_BASE + number_of_frames (bk b) * 4096"

lemma boot_arrays:
  assumes "boot_ok dir b" "ptr_free_mem b + array_size + disk_array_size + envs_size + 16384 < U32"
  shows "\<exists>p5 b5 p6 b6 b7 p8 b8. boot_allocate_space array_size 4096 b = (p5, b5) \<and> boot_allocate_space disk_array_size 4096 b5 = (p6, b6) \<and>
           setup_listing_to_all_page_tables_entries dir b6 = Inr b7 \<and> boot_allocate_space envs_size 4096 b7 = (p8, b8) \<and>
           grown dir {} b b8 \<and> KERNEL_BASE \<le> p8 \<and> ptr_free_mem b8 = p8 + envs_size \<and>
           ptr_free_mem b8 < ptr_free_mem b + array_size + disk_array_size + envs_size + 3 * 4096"
proof -
  obtain p5 b5 where a5: "boot_allocate_space array_size 4096 b = (p5, b5)" by (cases "boot_allocate_space array_size 4096 b")
  have u5: "ptr_free_mem b + array_size + 4096 < U32" using assms(2) by simp
  note A5 = boot_allocate_space_grown [OF assms(1) a5 u5]
  have ok5: "boot_ok dir b5" using A5(1) by (simp add: grown_def)
  obtain p6 b6 where a6: "boot_allocate_space disk_array_size 4096 b5 = (p6, b6)" by (cases "boot_allocate_space disk_array_size 4096 b5")
  have u6: "ptr_free_mem b5 + disk_array_size + 4096 < U32" using A5(4,5) assms(2) by simp
  note A6 = boot_allocate_space_grown [OF ok5 a6 u6]
  have ok6: "boot_ok dir b6" using A6(1) by (simp add: grown_def)
  obtain b7 where L: "setup_listing_to_all_page_tables_entries dir b6 = Inr b7" "grown dir {} b6 b7" "ptr_free_mem b7 = ptr_free_mem b6"
    using listing_grown [OF ok6] by blast
  have ok7: "boot_ok dir b7" using L(2) by (simp add: grown_def)
  obtain p8 b8 where a8: "boot_allocate_space envs_size 4096 b7 = (p8, b8)" by (cases "boot_allocate_space envs_size 4096 b7")
  have u8: "ptr_free_mem b7 + envs_size + 4096 < U32" using L(3) A6(4,5) A5(4,5) assms(2) by simp
  note A8 = boot_allocate_space_grown [OF ok7 a8 u8]
  have "grown dir {} b b8" using A5(1) A6(1) L(2) A8(1) by (metis grown_trans Un_empty)
  moreover have "KERNEL_BASE \<le> p8" using A8(3) boot_okD(1,3) [OF ok7] by simp
  moreover have "ptr_free_mem b8 < ptr_free_mem b + array_size + disk_array_size + envs_size + 3 * 4096"
    using A8(4,5) L(3) A6(4,5) A5(4,5) by linarith
  ultimately show ?thesis using a5 a6 L(1) a8 A8(5) by blast
qed

lemma kernel_tables_made:
  assumes "boot_ok dir b" "room (65 * 8192) b"
  shows "\<exists>b'. kernel_tables_loop 64 dir KERNEL_BASE b = Inr b' \<and> grown dir {} b b' \<and> ptr_free_mem b' \<le> ptr_free_mem b + 64 * 8192 \<and>
           (\<forall>i. 960 \<le> i \<and> i < 1024 \<longrightarrow> baddr dir (bk b') i \<noteq> 0)"
proof -
  have o: "PDX (KERNEL_BASE + k * PTSIZE) = 960 + k" "ordinary (960 + k)" if "k < 64" for k
    using PDX_offset [of 0 "960 + k"] that by (simp_all add: ordinary_def PDX_def)
  obtain b' where T: "kernel_tables_loop 64 dir KERNEL_BASE b = Inr b'" "grown dir {} b b'" "ptr_free_mem b' \<le> ptr_free_mem b + 64 * 8192"
      "\<forall>k < 64. baddr dir (bk b') (960 + k) \<noteq> 0"
    using kernel_tables_loop_grown [of dir b 64 KERNEL_BASE] assms o by auto
  have "baddr dir (bk b') i \<noteq> 0" if "960 \<le> i" "i < 1024" for i
    using T(4) [rule_format, of "i - 960"] that by simp
  then show ?thesis using T by blast
qed

text \<open>The lists of the heap are those the program starts with.\<close>

abbreviation runs :: "boot \<Rightarrow> bulk list \<times> bulk list" where
  "runs b \<equiv> (bulks (bk b), bulks_allocated (bk b))"

lemma boot_allocate_space_runs: "boot_allocate_space sz al b = (p, b') \<Longrightarrow> runs b' = runs b"
  by (auto simp: boot_allocate_space_def Let_def zero_range_def)

lemma boot_get_page_table_runs: "boot_get_page_table dir va c b = Inr (t, b') \<Longrightarrow> runs b' = runs b"
  by (auto simp: boot_get_page_table_def res_simps Let_def set_dir_entry_def split: if_splits prod.splits dest!: boot_allocate_space_runs)

lemma map_range_loop_runs: "map_range_loop n dir va pa perm b = Inr b' \<Longrightarrow> runs b' = runs b"
proof (induction n arbitrary: va pa b)
  case (Suc n)
  then show ?case by (auto simp: res_simps set_entry_def dest!: boot_get_page_table_runs Suc.IH)
qed simp

lemma kernel_tables_loop_runs: "kernel_tables_loop n dir sva b = Inr b' \<Longrightarrow> runs b' = runs b"
proof (induction n arbitrary: sva b)
  case (Suc n)
  then show ?case by (auto simp: res_simps dest!: boot_get_page_table_runs Suc.IH)
qed simp

lemma boot_steps_runs:
  "setup_listing_to_all_page_tables_entries dir b = Inr b' \<Longrightarrow> runs b' = runs b"
  "boot_map_range dir va sz pa perm b = Inr b' \<Longrightarrow> runs b' = runs b"
  "pt_set_page_permissions dir va p q (bk b) = Inr k \<Longrightarrow> runs (b\<lparr>bk := k\<rparr>) = runs b"
  "runs (turn_on_paging dir b) = runs b"
  by (auto simp: setup_listing_to_all_page_tables_entries_def boot_map_range_def pt_set_page_permissions_def turn_on_paging_def set_dir_entry_def
      set_entry_def res_simps Let_def split: if_splits dest!: map_range_loop_runs)

lemma initialize_kernel_VM_ok:
  assumes "boot_fits stack_bottom array_size disk_array_size envs_size b"
  shows "\<exists>dir b'. initialize_kernel_VM stack_bottom array_size disk_array_size envs_size b = Inr b' \<and> boot_ok dir b' \<and> room 0 b' \<and>
           number_of_frames (bk b') = number_of_frames (bk b) \<and> end_of_kernel b \<le> dir \<and>
           kernel_mapped dir (ptr_free_mem b') (bk b') \<and> stack_mapped dir (stack_bottom - KERNEL_BASE) (bk b') \<and>
           runs b' = runs b"
proof -
  let ?e = "end_of_kernel b" and ?N = "number_of_frames (bk b)" and ?S = "array_size + disk_array_size + envs_size"
  have F: "ptr_free_mem b = 0" "KERNEL_BASE + PHYS_EXTENDED_MEM \<le> ?e" "KERNEL_BASE \<le> stack_bottom" "stack_bottom \<le> ?e"
      "0 < envs_size" "envs_size \<le> PTSIZE" "?e + ?S + 0x100000 \<le> KERNEL_HEAP_START" "?e + ?S + 0x100000 \<le> KERNEL_BASE + ?N * 4096"
    using assms by (simp_all add: boot_fits_def)
  obtain dir b0 where a0: "boot_allocate_space 4096 4096 b = (dir, b0)" by (cases "boot_allocate_space 4096 4096 b")
  let ?b1 = "b0\<lparr>bk := (bk b0)\<lparr>ptr_page_directory := dir\<rparr>\<rparr>"
  have "?e + 8192 \<le> KERNEL_HEAP_START" using F(7) by simp
  note A0 = boot_directory [OF a0 F(1,2) this]
  have ph: "stack_bottom - KERNEL_BASE + 32768 \<le> U32" using F(3,4,7) by simp
  have r1: "room 32768 ?b1" using A0(3,4) F(7,8) by (simp add: room_def)
  obtain b2 k2 where S: "boot_map_range dir STACK_VA 32768 (stack_bottom - KERNEL_BASE) PERM_WRITEABLE ?b1 = Inr b2"
      "pt_set_page_permissions dir STACK_VA 0 PERM_PRESENT (bk b2) = Inr k2" "boot_ok dir (b2\<lparr>bk := k2\<rparr>)"
      "stack_mapped dir (stack_bottom - KERNEL_BASE) k2" "number_of_frames k2 = ?N" "ptr_free_mem b2 < ?e + 16384"
    using stack_and_guard [OF A0(1) r1 ph] A0(3,4) by auto
  let ?b3 = "b2\<lparr>bk := k2\<rparr>"
  have r3: "room (65 * 8192) ?b3" using S(5,6) F(7,8) by (simp add: room_def)
  obtain b4 where T: "kernel_tables_loop 64 dir KERNEL_BASE ?b3 = Inr b4" "grown dir {} ?b3 b4" "ptr_free_mem b4 \<le> ptr_free_mem b2 + 64 * 8192"
      "\<forall>i. 960 \<le> i \<and> i < 1024 \<longrightarrow> baddr dir (bk b4) i \<noteq> 0"
    using kernel_tables_made [OF S(3) r3] by auto
  have ok4: "boot_ok dir b4" using T(2) by (simp add: grown_def)
  obtain p5 b5 p6 b6 b7 p8 b8 where A: "boot_allocate_space array_size 4096 b4 = (p5, b5)" "boot_allocate_space disk_array_size 4096 b5 = (p6, b6)"
      "setup_listing_to_all_page_tables_entries dir b6 = Inr b7" "boot_allocate_space envs_size 4096 b7 = (p8, b8)"
      "grown dir {} b4 b8" "KERNEL_BASE \<le> p8" "ptr_free_mem b8 = p8 + envs_size" "ptr_free_mem b8 < ptr_free_mem b4 + ?S + 3 * 4096"
    using boot_arrays [OF ok4, of array_size disk_array_size envs_size] T(3) S(6) F(7) by (auto simp: add.assoc)
  have ok8: "boot_ok dir b8" and n8: "number_of_frames (bk b8) = ?N" using A(5) T(2) S(5) by (simp_all add: grown_def)
  have pf8: "ptr_free_mem b8 < ?e + ?S + 16384 + 64 * 8192 + 3 * 4096" using A(8) T(3) S(6) by linarith
  have r8: "room 16384 b8" using pf8 n8 F(7,8) by (simp add: room_def)
  have p8: "p8 - KERNEL_BASE + envs_size + 4096 \<le> U32" using A(7) pf8 F(7) by simp
  obtain b9 where E: "boot_map_range dir UENVS envs_size (p8 - KERNEL_BASE) PERM_USER b8 = Inr b9" "grown dir ({955} \<times> UNIV) b8 b9"
      "ptr_free_mem b9 < ptr_free_mem b8 + 8192" "baddr dir (bk b9) 955 \<noteq> 0"
    using environments_mapped [OF ok8 r8 F(5,6) p8] by blast
  have ok9: "boot_ok dir b9" using E(2) by (simp add: grown_def)
  let ?b10 = "b9\<lparr>bk := set_dir_entry dir 955 (directories (bk b9) dir 955 OR (PERM_USER OR PERM_PRESENT)) (bk b9)\<rparr>"
  have o: "ordinary 955" "PDX UENVS = 955" by (simp_all add: ordinary_def PDX_def)
  note g10 = grown_trans [OF E(2) flags_grown [OF ok9 o(1) E(4)]]
  have g4: "grown dir ({955} \<times> UNIV) b4 ?b10" using grown_trans [OF A(5) g10] by simp
  have g3: "grown dir ({955} \<times> UNIV) ?b3 ?b10" using grown_trans [OF T(2) g4] by simp
  have ok10: "boot_ok dir ?b10" and n10: "number_of_frames (bk ?b10) = ?N" using g3 S(5) by (simp_all add: grown_def)
  have r10: "room 8192 ?b10" using n10 E(3) pf8 F(7,8) by (simp add: room_def)
  have tab10: "\<forall>i. 960 \<le> i \<and> i < 1024 \<longrightarrow> baddr dir (bk ?b10) i \<noteq> 0"
    using T(4) g4 by (auto simp: grown_def ordinary_def PDX_def)
  obtain b11 where K: "boot_map_range dir KERNEL_BASE (ptr_free_mem ?b10 - KERNEL_BASE) 0 PERM_WRITEABLE ?b10 = Inr b11"
      "grown dir ({960..<984} \<times> UNIV) ?b10 b11" "ptr_free_mem b11 = ptr_free_mem ?b10" "kernel_mapped dir (ptr_free_mem b11) (bk b11)"
    using kernel_range_mapped [OF ok10 r10 tab10] by auto
  have "stack_mapped dir (stack_bottom - KERNEL_BASE) (bk ?b10)" by (rule stack_mapped_grown [OF _ g3]) (use S(4) in simp_all)
  then have st: "stack_mapped dir (stack_bottom - KERNEL_BASE) (bk b11)" by (rule stack_mapped_grown [OF _ K(2)]) simp
  have ok11: "boot_ok dir b11" and n11: "number_of_frames (bk b11) = ?N" using K(2) n10 by (simp_all add: grown_def)
  have le: "ptr_free_mem b11 \<le> KERNEL_HEAP_START" using K(3) r10 by (simp add: room_def)
  note P = turn_on_paging_ok [OF ok11 le K(4) st]
  have "initialize_kernel_VM stack_bottom array_size disk_array_size envs_size b = Inr (turn_on_paging dir b11)"
    using F(2-4) A0(2) a0 S(1,2) T(1) A(1-4,6) E(1) K(1) o(2)
    by (simp add: initialize_kernel_VM_def STATIC_KERNEL_PHYSICAL_ADDRESS_def Let_def res_simps)
  moreover have "room 0 (turn_on_paging dir b11)" using P(4,5) K(3) r10 n10 n11 by (simp add: room_def)
  moreover have "runs (turn_on_paging dir b11) = runs b"
    using boot_allocate_space_runs [OF a0] boot_steps_runs(2) [OF S(1)] boot_steps_runs(3) [OF S(2)] kernel_tables_loop_runs [OF T(1)]
      boot_allocate_space_runs [OF A(1)] boot_allocate_space_runs [OF A(2)] boot_steps_runs(1) [OF A(3)] boot_allocate_space_runs [OF A(4)]
      boot_steps_runs(2) [OF E(1)] boot_steps_runs(2) [OF K(1)] boot_steps_runs(4) [of dir b11] by (simp add: set_dir_entry_def)
  ultimately show ?thesis using P n11 A0(2) by auto
qed

section \<open>The free frames after boot\<close>

lemma free_loop_run:
  assumes "\<forall>f. i \<le> f \<and> f < i + n \<longrightarrow> f \<notin> set (free_frame_list k)"
  shows "free_loop n i k = Inr (k\<lparr>free_frame_list := rev [i..<i + n] @ free_frame_list k,
           frames_info := (\<lambda>f. if i \<le> f \<and> f < i + n then zero_frame_info else frames_info k f)\<rparr>)"
  using assms
proof (induction n arbitrary: i k)
  case 0
  then show ?case by (auto simp: fun_eq_iff intro!: kmem.equality)
next
  case (Suc n)
  let ?k = "(set_frame i zero_frame_info k)\<lparr>free_frame_list := i # free_frame_list k\<rparr>"
  have "free_loop (Suc n) i k = free_loop n (Suc i) ?k"
    using Suc.prems by (simp add: list_insert_head_def res_simps)
  also have "\<dots> = Inr (?k\<lparr>free_frame_list := rev [Suc i..<Suc i + n] @ free_frame_list ?k,
      frames_info := (\<lambda>f. if Suc i \<le> f \<and> f < Suc i + n then zero_frame_info else frames_info ?k f)\<rparr>)"
    by (rule Suc.IH) (use Suc.prems in auto)
  also have "\<dots> = Inr (k\<lparr>free_frame_list := rev [i..<i + Suc n] @ free_frame_list k,
      frames_info := (\<lambda>f. if i \<le> f \<and> f < i + Suc n then zero_frame_info else frames_info k f)\<rparr>)"
  proof -
    have "rev [Suc i..<Suc i + n] @ [i] = rev [i..<i + Suc n]" by (simp add: upt_conv_Cons del: upt_Suc)
    then show ?thesis
      by (auto simp: set_frame_def fun_eq_iff simp del: upt_Suc intro!: kmem.equality)
  qed
  finally show ?case .
qed

lemma mark_used_frames [simp]: "number_of_frames (mark_used lo hi k) = number_of_frames k"
  by (simp add: mark_used_def)

definition used_frames :: "boot \<Rightarrow> nat" where
  "used_frames b = ROUNDUP (ptr_free_mem b - KERNEL_BASE) PAGE_SIZE div PAGE_SIZE"

lemma initialize_paging_run:
  assumes "KERNEL_BASE + PHYS_EXTENDED_MEM \<le> ptr_free_mem b" "room 0 b"
  shows "\<exists>k. initialize_paging b = Inr (b\<lparr>bk := k\<rparr>) \<and> frame_lists_ok k \<and>
           set (free_frame_list k) = {3..<160} \<union> {used_frames b..<number_of_frames (bk b)} \<and>
           (\<forall>f < used_frames b. f \<notin> {3..<160} \<longrightarrow> references (frames_info k f) = 1) \<and>
           ptr_free_mem b \<le> KERNEL_BASE + used_frames b * 4096 \<and>
           directories k = directories (bk b) \<and> tables k = tables (bk b) \<and> ptr_page_directory k = ptr_page_directory (bk b) \<and>
           number_of_frames k = number_of_frames (bk b) \<and> bulks k = bulks (bk b) \<and> bulks_allocated k = bulks_allocated (bk b)"
proof -
  let ?N = "number_of_frames (bk b)" and ?R = "used_frames b" and ?p = "ptr_free_mem b - KERNEL_BASE"
  have p: "?p + 4096 < U32" using assms(2) unfolding room_def by linarith
  note U = ROUNDUP_page [OF p]
  then have R: "?R * 4096 = ROUNDUP ?p 4096" by (auto simp: used_frames_def mod_eq_0_iff_dvd)
  then have r: "256 \<le> ?R" "ptr_free_mem b \<le> KERNEL_BASE + ?R * 4096" using U(1) assms(1) by linarith+
  have "?p \<le> ?N * 4096" using assms(2) unfolding room_def by linarith
  then have "?R * 4096 < ?N * 4096 + 4096" using R U(2) by linarith
  then have RN: "?R \<le> ?N" by simp
  let ?k0 = "mark_used 0 3 ((bk b)\<lparr>free_frame_list := [], modified_frame_list := [], mfllock := False\<rparr>)"
  have l1: "free_loop 157 3 ?k0 = Inr (?k0\<lparr>free_frame_list := rev [3..<160],
      frames_info := (\<lambda>f. if 3 \<le> f \<and> f < 160 then zero_frame_info else frames_info ?k0 f)\<rparr>)" (is "_ = Inr ?k1")
    using free_loop_run [of 3 157 ?k0] by (simp add: mark_used_def)
  let ?k2 = "mark_used 256 ?R (mark_used 160 256 ?k1)"
  have l2: "free_loop (?N - ?R) ?R ?k2 = Inr (?k2\<lparr>free_frame_list := rev [?R..<?N] @ rev [3..<160],
      frames_info := (\<lambda>f. if ?R \<le> f \<and> f < ?N then zero_frame_info else frames_info ?k2 f)\<rparr>)" (is "_ = Inr ?k3")
    using free_loop_run [of ?R "?N - ?R" ?k2] r(1) RN by (simp add: mark_used_def)
  have up: "ROUNDUP PHYS_IO_MEM 4096 div 4096 = 160" by (simp add: ROUNDUP_def ROUNDDOWN_def add32_def sub32_def)
  have "initialize_paging b = Inr (b\<lparr>bk := ?k3\<rparr>)"
    using l1 l2 up assms(1) by (simp add: initialize_paging_def Let_def STATIC_KERNEL_PHYSICAL_ADDRESS_def res_simps used_frames_def [symmetric])
  moreover have "frame_lists_ok ?k3" "\<forall>f < ?R. f \<notin> {3..<160} \<longrightarrow> references (frames_info ?k3 f) = 1"
    using r(1) RN by (auto simp: frame_lists_ok_def mark_used_def zero_frame_info_def simp del: upt_rec_numeral)
  moreover have "set (free_frame_list ?k3) = {3..<160} \<union> {?R..<?N}" by (auto simp: mark_used_def simp del: upt_rec_numeral)
  ultimately show ?thesis using r(2) by (intro exI [of _ ?k3]) (simp add: mark_used_def del: upt_rec_numeral)
qed

section \<open>What the kernel heap finds\<close>

lemma heap_PDX:
  assumes "KERNEL_HEAP_START \<le> va" "va < KERNEL_HEAP_MAX"
  shows "984 \<le> PDX va" "PDX va < 1024" "ordinary (PDX va)"
proof -
  have "984 \<le> va div 4194304" using div_le_mono [OF assms(1), of 4194304] by simp
  moreover have "va div 4194304 < 1024" using assms(2) by simp
  ultimately show "984 \<le> PDX va" "PDX va < 1024" by (simp_all add: PDX_def)
  then show "ordinary (PDX va)" by (simp add: ordinary_def PDX_def)
qed

lemma boot_kmap_inv:
  assumes "boot_ok dir b" "room 0 b" "kernel_mapped dir (ptr_free_mem b) (bk b)" "number_of_frames (bk b) \<le> 65536"
    and k: "frame_lists_ok k" "directories k = directories (bk b)" "tables k = tables (bk b)"
      "ptr_page_directory k = ptr_page_directory (bk b)" "number_of_frames k = number_of_frames (bk b)"
  shows "kmap_inv k" "heap_page va \<Longrightarrow> \<not> kmapped k va"
proof -
  note D = boot_okD [OF assms(1)]
  have pd: "kpde k va = directories (bk b) dir (PDX va)" for va using k D(4) by (simp add: kpde_def)
  have kt: "ktable k va = btab dir (bk b) (PDX va)" for va by (simp add: ktable_def pd baddr_def)
  have nz: "baddr dir (bk b) (PDX va) \<noteq> 0" if "KERNEL_HEAP_START \<le> va" "va < KERNEL_HEAP_MAX" for va
    using assms(3) heap_PDX [OF that] by (simp add: kernel_mapped_def)
  have pte: "kpte k va = 0" if "KERNEL_HEAP_START \<le> va" "va < KERNEL_HEAP_MAX" for va
    using D(7) [OF heap_PDX(3) [OF that] nz [OF that] heap_PDX(1) [OF that]] by (simp add: kpte_def kt k(3) bentry_def)
  have frame: "PPN (EXTRACT_ADDRESS (kpde k va)) < number_of_frames k" if "KERNEL_HEAP_START \<le> va" "va < KERNEL_HEAP_MAX" for va
  proof -
    have "baddr dir (bk b) (PDX va) + 4096 \<le> number_of_frames (bk b) * 4096"
      using D(6) [OF heap_PDX(3) [OF that] nz [OF that]] assms(2) unfolding room_def by linarith
    then show ?thesis unfolding pd baddr_def [symmetric] PPN_def k(5) by simp
  qed
  have "kernel_tables k" unfolding kernel_tables_def
  proof (intro conjI allI impI)
    fix va assume va: "KERNEL_HEAP_START \<le> va \<and> va < KERNEL_HEAP_MAX"
    show "kpde k va AND PERM_PRESENT = PERM_PRESENT" using D(6) [OF heap_PDX(3) nz] va unfolding pd by blast
    show "PPN (EXTRACT_ADDRESS (kpde k va)) < number_of_frames k" using frame va by blast
  next
    fix va va' assume h: "KERNEL_HEAP_START \<le> va \<and> va < KERNEL_HEAP_MAX \<and> KERNEL_HEAP_START \<le> va' \<and> va' < KERNEL_HEAP_MAX \<and>
        ktable k va = ktable k va'"
    show "PDX va = PDX va'" by (rule D(8)) (use h heap_PDX(3) nz in \<open>auto simp: kt\<close>)
  qed (use assms(4) k(5) in simp)
  moreover have "heap_mapping_ok k" using pte by (simp add: heap_mapping_ok_def heap_page_ok_def heap_page_def kmapped_def)
  ultimately show "kmap_inv k" using k(1) by (simp add: kmap_inv_def)
  show "\<not> kmapped k va" if "heap_page va" using pte [of va] that by (simp add: heap_page_def kmapped_def)
qed

text \<open>
  C2. Booting on a machine whose memory holds the kernel, its tables and its arrays below the heap region, \<open>initialize_kernel_VM\<close>,
  \<open>initialize_paging\<close> and \<open>kheap_init\<close> return, and what they leave is what the kernel heap relies on: every page of the kernel
  up to the end of the boot allocations is mapped to the frame at its own offset, writable and not for users; the page below the stack is not
  present; the free frames are those of the base memory from the third on and those above the boot allocations, so that no
  frame of the kernel, of a page table or of the directory is free; the heap is empty and its invariant holds.
\<close>

theorem boot_establishes_heap:
  assumes "boot_fits stack_bottom array_size disk_array_size envs_size b" and "bulks (bk b) = []" and "bulks_allocated (bk b) = []"
  shows "\<exists>b1 b2 s. initialize_kernel_VM stack_bottom array_size disk_array_size envs_size b = Inr b1 \<and> initialize_paging b1 = Inr b2 \<and>
           kheap_init (bk b2) = Inr s \<and> heap_inv s \<and> allocated (da s) = {} \<and>
           set (free_frame_list s) = {3..<160} \<union> {used_frames b1..<number_of_frames (bk b)} \<and>
           ptr_free_mem b1 \<le> KERNEL_BASE + used_frames b1 * 4096 \<and> \<not> kmapped s STACK_VA \<and>
           (\<forall>n. KERNEL_BASE + n * 4096 < ptr_free_mem b1 \<longrightarrow>
              kpte s (KERNEL_BASE + n * 4096) = CONSTRUCT_ENTRY (n * 4096) (PERM_WRITEABLE OR PERM_PRESENT))"
proof -
  obtain dir b1 where V: "initialize_kernel_VM stack_bottom array_size disk_array_size envs_size b = Inr b1" "boot_ok dir b1" "room 0 b1"
      "number_of_frames (bk b1) = number_of_frames (bk b)" "kernel_mapped dir (ptr_free_mem b1) (bk b1)"
      "stack_mapped dir (stack_bottom - KERNEL_BASE) (bk b1)" "bulks (bk b1) = bulks (bk b)" "bulks_allocated (bk b1) = bulks_allocated (bk b)"
    using initialize_kernel_VM_ok [OF assms(1)] by blast
  note D = boot_okD [OF V(2)]
  have pf: "KERNEL_BASE + PHYS_EXTENDED_MEM \<le> ptr_free_mem b1" using D(1,3) by simp
  obtain k where P: "initialize_paging b1 = Inr (b1\<lparr>bk := k\<rparr>)" "frame_lists_ok k"
      "set (free_frame_list k) = {3..<160} \<union> {used_frames b1..<number_of_frames (bk b)}" "ptr_free_mem b1 \<le> KERNEL_BASE + used_frames b1 * 4096"
      "directories k = directories (bk b1)" "tables k = tables (bk b1)" "ptr_page_directory k = ptr_page_directory (bk b1)"
      "number_of_frames k = number_of_frames (bk b1)" "bulks k = []" "bulks_allocated k = []"
    using initialize_paging_run [OF pf V(3)] V(4,7,8) assms(2,3) by auto
  have "number_of_frames (bk b1) \<le> 65536" using assms(1) V(4) by (simp add: boot_fits_def)
  note K = boot_kmap_inv [OF V(2,3,5) this P(2,5-8)]
  obtain s where s: "kheap_init k = Inr s" "heap_inv s" "allocated (da s) = {}" "free_frame_list s = free_frame_list k" "kpte s = kpte k"
    using kheap_init_correct [OF K(1) _ P(9,10)] K(2) by blast
  have e: "kpte k va = bentry dir (bk b1) (PDX va) (PTX va)" for va
    using P(5-7) D(4) by (simp add: kpte_def ktable_def kpde_def bentry_def baddr_def)
  have "\<not> kmapped s STACK_VA" using V(6) by (simp add: kmapped_def s(5) e PDX_def PTX_def stack_mapped_def)
  then show ?thesis using V(1,5) P(1,3,4) s e by (simp add: kernel_mapped_def)
qed

theorem boot_establishes_heap_witness:
  "\<exists>b1 b2 s. initialize_kernel_VM 0xF0110000 1048576 1048576 65536 \<lparr>bk = bare_kmem, ptr_free_mem = 0, end_of_kernel = 0xF0200000\<rparr> = Inr b1 \<and>
     initialize_paging b1 = Inr b2 \<and> kheap_init (bk b2) = Inr s \<and> heap_inv s \<and> \<not> kmapped s STACK_VA"
  using boot_establishes_heap [where b = "\<lparr>bk = bare_kmem, ptr_free_mem = 0, end_of_kernel = 0xF0200000\<rparr>" and stack_bottom = "0xF0110000"
      and array_size = 1048576 and disk_array_size = 1048576 and envs_size = 65536]
  by (auto simp: boot_fits_def bare_kmem_def)

text \<open>A machine whose clock chip reports no extended memory has no frame at all, whatever its base memory.\<close>

lemma detect_memory_base_only:
  assumes "nvram_read cmos 0x17 = 0" and "nvram_read cmos 0x34 = 0"
  shows "number_of_frames (detect_memory cmos k) = 0"
  using assms by (simp add: detect_memory_def Let_def mul32_def ROUNDDOWN_def)

end
