(* ===== verification/Sort_Programs.thy ===== *)
theory Sort_Programs
  imports FOS_Prelude "HOL-Library.Multiset"
begin

text \<open>
  The sorting and selection routines of the user programs: \<^verbatim>\<open>QSort\<close> (the same text in the programs
  \<^verbatim>\<open>src/user/quicksort_*.c\<close>), \<^verbatim>\<open>MSort\<close> and \<^verbatim>\<open>Merge\<close> of \<^verbatim>\<open>src/user/mergesort_static.c\<close>, \<^verbatim>\<open>KthElement\<close> of
  \<^verbatim>\<open>src/user/arrayOperations_stats.c\<close>, and the routines that fill and check an array. An array is a function of the index,
  as \<^verbatim>\<open>int *\<close> is; the theorems say which indices are touched.
\<close>

section \<open>Arrays\<close>

type_synonym elements = "int \<Rightarrow> int"

definition Swap :: "elements \<Rightarrow> int \<Rightarrow> int \<Rightarrow> elements" where
  "Swap Elements First Second = Elements(First := Elements Second, Second := Elements First)"

fun fill_loop :: "(int \<Rightarrow> int) \<Rightarrow> nat \<Rightarrow> int \<Rightarrow> elements \<Rightarrow> elements" where
  "fill_loop f 0 i E = E"
| "fill_loop f (Suc n) i E = fill_loop f n (i + 1) (E(i := f i))"

definition InitializeAscending :: "elements \<Rightarrow> int \<Rightarrow> elements" where
  "InitializeAscending E NumOfElements = fill_loop (\<lambda>i. i) (nat NumOfElements) 0 E"

definition InitializeDescending :: "elements \<Rightarrow> int \<Rightarrow> elements" where
  "InitializeDescending E NumOfElements = fill_loop (\<lambda>i. NumOfElements - i - 1) (nat NumOfElements) 0 E"

definition InitializeSemiRandom :: "elements \<Rightarrow> int \<Rightarrow> elements" where
  "InitializeSemiRandom E NumOfElements =
     (let Repetition = NumOfElements div 3; Repetition = (if Repetition = 0 then 3 else Repetition)
      in fill_loop (\<lambda>i. i mod Repetition) (nat NumOfElements) 0 E)"

fun check_loop :: "nat \<Rightarrow> int \<Rightarrow> elements \<Rightarrow> bool" where
  "check_loop 0 i E = True"
| "check_loop (Suc n) i E = (if E i > E (i + 1) then False else check_loop n (i + 1) E)"

definition CheckSorted :: "elements \<Rightarrow> int \<Rightarrow> bool" where
  "CheckSorted E NumOfElements = check_loop (nat (NumOfElements - 1)) 0 E"

section \<open>Quick sort\<close>

text \<open>
  The two scans of the partition, from the left over the elements up to the pivot \<open>E s\<close>, from the right over those that stay
  there. \<open>QSort\<close> leaves an element equal to the pivot where it is (\<open>le\<close>), the selection does not (\<open>less\<close>).
\<close>

function up_loop :: "int \<Rightarrow> int \<Rightarrow> int \<Rightarrow> elements \<Rightarrow> int" where
  "up_loop s f i E = (if i \<le> f \<and> E s \<ge> E i then up_loop s f (i + 1) E else i)"
  by auto
termination by (relation "measure (\<lambda>(s, f, i, E). nat (f + 1 - i))") auto

function down_loop :: "(int \<Rightarrow> int \<Rightarrow> bool) \<Rightarrow> int \<Rightarrow> int \<Rightarrow> elements \<Rightarrow> int" where
  "down_loop cmp s j E = (if j > s \<and> cmp (E s) (E j) then down_loop cmp s (j - 1) E else j)"
  by auto
termination by (relation "measure (\<lambda>(cmp, s, j, E). nat (j - s))") auto

declare up_loop.simps [simp del] down_loop.simps [simp del]

partial_function (option) part_loop ::
  "(int \<Rightarrow> int \<Rightarrow> bool) \<Rightarrow> int \<Rightarrow> int \<Rightarrow> int \<Rightarrow> int \<Rightarrow> elements \<Rightarrow> (int \<times> int \<times> elements) option" where
  "part_loop cmp s f i j E =
     (if i \<le> j then
        (let i = up_loop s f i E; j = down_loop cmp s j E in
         part_loop cmp s f i j (if i \<le> j then Swap E i j else E))
      else Some (i, j, E))"

partial_function (option) QSort :: "int \<Rightarrow> int \<Rightarrow> elements \<Rightarrow> elements option" where
  "QSort startIndex finalIndex E =
     (if startIndex \<ge> finalIndex then Some E
      else
        Option.bind (part_loop (\<le>) startIndex finalIndex (startIndex + 1) finalIndex E) (\<lambda>(i, j, E).
        Option.bind (QSort startIndex (j - 1) (Swap E startIndex j)) (\<lambda>E.
        QSort i finalIndex E)))"

definition QuickSort :: "elements \<Rightarrow> int \<Rightarrow> elements option" where
  "QuickSort E NumOfElements = QSort 0 (NumOfElements - 1) E"

section \<open>The element of a given rank\<close>

text \<open>\<open>clk\<close> are the low words of the clock, one for each pivot; \<^verbatim>\<open>RANDU\<close> never gives the upper bound.\<close>

definition RANDU :: "nat \<Rightarrow> int \<Rightarrow> int \<Rightarrow> int" where
  "RANDU low s e = int (low mod nat (e - s)) + s"

partial_function (option) QSelect :: "int \<Rightarrow> int \<Rightarrow> int \<Rightarrow> (nat \<Rightarrow> nat) \<Rightarrow> elements \<Rightarrow> (int \<times> elements) option" where
  "QSelect startIndex finalIndex kIndex clk E =
     (if startIndex \<ge> finalIndex then Some (E finalIndex, E)
      else
        (let E = Swap E startIndex (RANDU (clk 0) startIndex finalIndex); clk = (\<lambda>n. clk (Suc n)) in
         Option.bind (part_loop (<) startIndex finalIndex (startIndex + 1) finalIndex E) (\<lambda>(i, j, E).
         (let E = Swap E startIndex j in
          if kIndex = j then Some (E kIndex, E)
          else if kIndex < j then QSelect startIndex (j - 1) kIndex clk E
          else QSelect i finalIndex kIndex clk E))))"

definition KthElement :: "elements \<Rightarrow> int \<Rightarrow> int \<Rightarrow> (nat \<Rightarrow> nat) \<Rightarrow> (int \<times> elements) option" where
  "KthElement E NumOfElements k clk = QSelect 0 (NumOfElements - 1) (k - 1) clk E"

section \<open>Merge sort\<close>

text \<open>The arrays of the program; \<open>A\<close> is numbered from one.\<close>

record arrays =
  A :: elements
  Left :: elements
  Right :: elements

fun merge_loop :: "nat \<Rightarrow> int \<Rightarrow> int \<Rightarrow> int \<Rightarrow> int \<Rightarrow> int \<Rightarrow> arrays \<Rightarrow> arrays" where
  "merge_loop 0 k leftIndex rightIndex leftCapacity rightCapacity m = m"
| "merge_loop (Suc n) k leftIndex rightIndex leftCapacity rightCapacity m =
     (if leftIndex < leftCapacity \<and> rightIndex < rightCapacity then
        (if Left m leftIndex < Right m rightIndex
         then merge_loop n (k + 1) (leftIndex + 1) rightIndex leftCapacity rightCapacity (m\<lparr>A := (A m)(k - 1 := Left m leftIndex)\<rparr>)
         else merge_loop n (k + 1) leftIndex (rightIndex + 1) leftCapacity rightCapacity (m\<lparr>A := (A m)(k - 1 := Right m rightIndex)\<rparr>))
      else if leftIndex < leftCapacity
      then merge_loop n (k + 1) (leftIndex + 1) rightIndex leftCapacity rightCapacity (m\<lparr>A := (A m)(k - 1 := Left m leftIndex)\<rparr>)
      else merge_loop n (k + 1) leftIndex (rightIndex + 1) leftCapacity rightCapacity (m\<lparr>A := (A m)(k - 1 := Right m rightIndex)\<rparr>))"

definition Merge :: "int \<Rightarrow> int \<Rightarrow> int \<Rightarrow> arrays \<Rightarrow> arrays" where
  "Merge p q r m =
     (let leftCapacity = q - p + 1; rightCapacity = r - q;
          m = m\<lparr>Left := fill_loop (\<lambda>i. A m (p + i - 1)) (nat leftCapacity) 0 (Left m)\<rparr>;
          m = m\<lparr>Right := fill_loop (\<lambda>j. A m (q + j)) (nat rightCapacity) 0 (Right m)\<rparr>
      in merge_loop (nat (r - p + 1)) p 0 0 leftCapacity rightCapacity m)"

function MSort :: "int \<Rightarrow> int \<Rightarrow> arrays \<Rightarrow> arrays" where
  "MSort p r m =
     (if p \<ge> r then m else (let q = (p + r) div 2 in Merge p q r (MSort (q + 1) r (MSort p q m))))"
  by auto
termination by (relation "measure (\<lambda>(p, r, m). nat (r - p))") auto

declare MSort.simps [simp del]

section \<open>Permuted ranges\<close>

text \<open>The elements of a range as a multiset; a routine permutes the range and leaves the rest.\<close>

definition elems :: "elements \<Rightarrow> int \<Rightarrow> int \<Rightarrow> int multiset" where
  "elems E s f = image_mset E (mset_set {s..f})"

definition permutes :: "int \<Rightarrow> int \<Rightarrow> elements \<Rightarrow> elements \<Rightarrow> bool" where
  "permutes s f E E' \<longleftrightarrow> elems E' s f = elems E s f \<and> (\<forall>k. k < s \<or> f < k \<longrightarrow> E' k = E k)"

definition ascending :: "int \<Rightarrow> int \<Rightarrow> elements \<Rightarrow> bool" where
  "ascending s f E \<longleftrightarrow> (\<forall>a b. s \<le> a \<and> a \<le> b \<and> b \<le> f \<longrightarrow> E a \<le> E b)"

lemma ascending_one: "f \<le> s \<Longrightarrow> ascending s f E"
  unfolding ascending_def by (metis order.trans order_antisym order_refl)

lemma permutes_refl [simp]: "permutes s f E E"
  by (simp add: permutes_def)

lemma permutes_trans: "permutes s f E E' \<Longrightarrow> permutes s f E' E'' \<Longrightarrow> permutes s f E E''"
  by (simp add: permutes_def)

lemma elems_cong: "(\<And>k. s \<le> k \<Longrightarrow> k \<le> f \<Longrightarrow> E k = E' k) \<Longrightarrow> elems E s f = elems E' s f"
  unfolding elems_def by (rule image_mset_cong) simp

lemma elems_split: "s \<le> m + 1 \<Longrightarrow> m \<le> f \<Longrightarrow> elems E s f = elems E s m + elems E (m + 1) f"
proof -
  assume h: "s \<le> m + 1" "m \<le> f"
  then have "{s..f} = {s..m} \<union> {m + 1..f}" "{s..m} \<inter> {m + 1..f} = {}" by auto
  then show ?thesis unfolding elems_def by (simp add: mset_set_Union)
qed

lemma elems_insert: "s \<le> a \<Longrightarrow> a \<le> f \<Longrightarrow> elems E s f = add_mset (E a) (image_mset E (mset_set ({s..f} - {a})))"
  unfolding elems_def by (subst mset_set.remove [of _ a]) auto

lemma permutes_wider:
  assumes "permutes a b E E'" "s \<le> a" "b \<le> f"
  shows "permutes s f E E'"
proof (cases "a \<le> b + 1")
  case True
  have out: "E' k = E k" if "k < a \<or> b < k" for k using assms(1) that by (auto simp: permutes_def)
  have e: "elems F s f = elems F s (a - 1) + (elems F a b + elems F (b + 1) f)" for F
    using elems_split [of s "a - 1" f F] elems_split [of a b f F] assms(2,3) True by simp
  have "elems E' s (a - 1) = elems E s (a - 1)" "elems E' (b + 1) f = elems E (b + 1) f"
    by (auto intro!: elems_cong simp: out)
  then have "elems E' s f = elems E s f" using assms(1) e [of E] e [of E'] by (simp add: permutes_def)
  then show ?thesis using out assms(2,3) by (simp add: permutes_def)
next
  case False
  then have "E' = E" using assms(1) by (intro ext) (auto simp: permutes_def)
  then show ?thesis by simp
qed

lemma permutes_Swap:
  assumes "s \<le> a" "a \<le> f" "s \<le> b" "b \<le> f"
  shows "permutes s f E (Swap E a b)"
proof (cases "a = b")
  case True
  then show ?thesis by (simp add: Swap_def)
next
  case False
  let ?F = "Swap E a b" and ?R = "{s..f} - {a} - {b}"
  have m: "mset_set ({s..f} - {a}) = add_mset b (mset_set ?R)" using False assms by (subst mset_set.remove [of _ b]) auto
  have e: "elems F s f = add_mset (F a) (add_mset (F b) (image_mset F (mset_set ?R)))" for F
    using elems_insert [OF assms(1,2), of F] m by simp
  have "image_mset ?F (mset_set ?R) = image_mset E (mset_set ?R)" by (rule image_mset_cong) (auto simp: Swap_def)
  then have "elems ?F s f = elems E s f" unfolding e using False by (simp add: Swap_def add_mset_commute)
  then show ?thesis using assms by (auto simp: permutes_def Swap_def)
qed

text \<open>What holds of all elements of a range holds of them after a permutation.\<close>

lemma permutes_range:
  assumes "permutes s f E E'" "\<And>k. s \<le> k \<Longrightarrow> k \<le> f \<Longrightarrow> P (E k)" "s \<le> k" "k \<le> f"
  shows "P (E' k)"
proof -
  have "E' k \<in># elems E' s f" using assms(3,4) by (auto simp: elems_def)
  then have "E' k \<in># elems E s f" using assms(1) by (simp add: permutes_def)
  then show ?thesis using assms(2) by (auto simp: elems_def)
qed

section \<open>The partition\<close>

lemma up_loop_bounds:
  "i \<le> up_loop s f i E \<and> (i \<le> f + 1 \<longrightarrow> up_loop s f i E \<le> f + 1) \<and> (\<forall>k. i \<le> k \<and> k < up_loop s f i E \<longrightarrow> E k \<le> E s) \<and>
   (up_loop s f i E \<le> f \<longrightarrow> E s < E (up_loop s f i E))"
proof (induction s f i E rule: up_loop.induct)
  case (1 s f i E)
  show ?case
  proof (cases "i \<le> f \<and> E s \<ge> E i")
    case True
    then have u: "up_loop s f i E = up_loop s f (i + 1) E" by (simp add: up_loop.simps [of s f i E])
    have "E k \<le> E s" if "i \<le> k" "k < up_loop s f (i + 1) E" for k
      using 1 [OF True] True that by (cases "k = i") auto
    then show ?thesis unfolding u using 1 [OF True] True by auto
  next
    case False
    then have "up_loop s f i E = i" by (auto simp: up_loop.simps [of s f i E])
    then show ?thesis using False by auto
  qed
qed

text \<open>Where the partition ends: up to \<open>i\<close> no element exceeds the pivot, from \<open>j\<close> on the pivot exceeds none.\<close>

definition parted :: "(int \<Rightarrow> int \<Rightarrow> bool) \<Rightarrow> int \<Rightarrow> int \<Rightarrow> int \<Rightarrow> int \<Rightarrow> elements \<Rightarrow> bool" where
  "parted cmp s f i j E \<longleftrightarrow> s < i \<and> i \<le> f + 1 \<and> s \<le> j \<and> j \<le> f \<and> (\<forall>k. s < k \<and> k < i \<longrightarrow> E k \<le> E s) \<and>
     (\<forall>k. j < k \<and> k \<le> f \<longrightarrow> cmp (E s) (E k))"

text \<open>What the partition needs of the test that keeps an element on the right.\<close>

locale pivot_test =
  fixes cmp :: "int \<Rightarrow> int \<Rightarrow> bool"
  assumes keeps: "cmp x y \<Longrightarrow> x \<le> y"
    and moves: "\<not> cmp x y \<Longrightarrow> y \<le> x"
begin

lemma down_loop_bounds:
  "s \<le> j \<Longrightarrow> down_loop cmp s j E \<le> j \<and> s \<le> down_loop cmp s j E \<and>
   (\<forall>k. down_loop cmp s j E < k \<and> k \<le> j \<longrightarrow> cmp (E s) (E k)) \<and> E (down_loop cmp s j E) \<le> E s"
proof (induction "nat (j - s)" arbitrary: j)
  case 0
  then have "j = s" by simp
  moreover have "down_loop cmp s s E = s" by (subst down_loop.simps) simp
  ultimately show ?case by auto
next
  case (Suc n)
  show ?case
  proof (cases "cmp (E s) (E j)")
    case True
    moreover have "s < j" using Suc.hyps(2) by linarith
    ultimately have u: "down_loop cmp s j E = down_loop cmp s (j - 1) E" by (simp add: down_loop.simps [of cmp s j E])
    have I: "down_loop cmp s (j - 1) E \<le> j - 1 \<and> s \<le> down_loop cmp s (j - 1) E \<and>
        (\<forall>k. down_loop cmp s (j - 1) E < k \<and> k \<le> j - 1 \<longrightarrow> cmp (E s) (E k)) \<and> E (down_loop cmp s (j - 1) E) \<le> E s"
      using Suc.hyps(1) [of "j - 1"] Suc.hyps(2) by auto
    have "cmp (E s) (E k)" if "down_loop cmp s (j - 1) E < k" "k \<le> j" for k
      using I True that by (cases "k = j") auto
    then show ?thesis unfolding u using I by auto
  next
    case False
    then have "down_loop cmp s j E = j" by (simp add: down_loop.simps [of cmp s j E])
    then show ?thesis using moves [OF False] Suc.prems by auto
  qed
qed

lemma parted_step:
  assumes p: "parted cmp s f i j E"
    and d: "i' = up_loop s f i E" "j' = down_loop cmp s j E"
  shows "i \<le> i'" "j' \<le> j" "parted cmp s f i' j' E"
    and "i' \<le> j' \<Longrightarrow> E s < E i' \<and> E j' \<le> E s \<and> i' < j' \<and> parted cmp s f i' j' (Swap E i' j') \<and> permutes (s + 1) f E (Swap E i' j')"
proof -
  note P = p [unfolded parted_def]
  note U = up_loop_bounds [of i s f E, folded d(1)]
  have D: "j' \<le> j \<and> s \<le> j' \<and> (\<forall>k. j' < k \<and> k \<le> j \<longrightarrow> cmp (E s) (E k)) \<and> E j' \<le> E s"
    using down_loop_bounds [of s j E, folded d(2)] P by blast
  show "i \<le> i'" "j' \<le> j" using U D by auto
  have lo: "E k \<le> E s" if "s < k" "k < i'" for k using P U that by (cases "k < i") auto
  have hi: "cmp (E s) (E k)" if "j' < k" "k \<le> f" for k using P D that by (cases "k \<le> j") auto
  show "parted cmp s f i' j' E" using P U D lo hi by (auto simp: parted_def)
  show "E s < E i' \<and> E j' \<le> E s \<and> i' < j' \<and> parted cmp s f i' j' (Swap E i' j') \<and> permutes (s + 1) f E (Swap E i' j')" if le: "i' \<le> j'"
  proof -
    have x: "E s < E i'" "E j' \<le> E s" "i' \<noteq> j'" using U D P le by auto
    have b: "s < i'" "i' < j'" "j' \<le> f" using P U D le x(3) by auto
    have "parted cmp s f i' j' (Swap E i' j')" using P U D b lo hi by (auto simp: parted_def Swap_def)
    moreover have "permutes (s + 1) f E (Swap E i' j')" by (rule permutes_Swap) (use b in auto)
    ultimately show ?thesis using x b by blast
  qed
qed

lemma part_loop_ok:
  assumes "parted cmp s f i j E"
  shows "\<exists>i' j' E'. part_loop cmp s f i j E = Some (i', j', E') \<and> parted cmp s f i' j' E' \<and> j' < i' \<and> permutes (s + 1) f E E'"
  using assms
proof (induction "2 * nat (j + 1 - i) + (if E s < E i then 1 else 0 :: nat)" arbitrary: i j E rule: less_induct)
  case less
  show ?case
  proof (cases "i \<le> j")
    case False
    then show ?thesis using less.prems by (simp add: part_loop.simps)
  next
    case True
    define i' where "i' = up_loop s f i E"
    define j' where "j' = down_loop cmp s j E"
    note S = parted_step [OF less.prems i'_def j'_def]
    have step: "part_loop cmp s f i j E = part_loop cmp s f i' j' (if i' \<le> j' then Swap E i' j' else E)"
      using True by (simp add: part_loop.simps [of cmp s f i j E] i'_def j'_def Let_def)
    show ?thesis
    proof (cases "i' \<le> j'")
      case False
      then show ?thesis using step S(3) by (simp add: part_loop.simps)
    next
      case le: True
      note L = S(4) [OF le]
      have s: "s < i'" using S(3) by (simp add: parted_def)
      have v: "Swap E i' j' i' = E j'" "Swap E i' j' s = E s" using s L by (auto simp: Swap_def)
      have "2 * nat (j' + 1 - i') + (if Swap E i' j' s < Swap E i' j' i' then 1 else 0) < 2 * nat (j + 1 - i) + (if E s < E i then 1 else 0)"
        using S(1,2) L v le by (cases "i' = i") auto
      from less.hyps [OF this] L obtain i2 j2 E2 where
        "part_loop cmp s f i' j' (Swap E i' j') = Some (i2, j2, E2)" "parted cmp s f i2 j2 E2" "j2 < i2" "permutes (s + 1) f (Swap E i' j') E2"
        by blast
      moreover have "permutes (s + 1) f E E2" using L calculation(4) by (blast intro: permutes_trans)
      ultimately show ?thesis using step le by simp
    qed
  qed
qed

text \<open>The whole partition, with the pivot put between the two parts.\<close>

lemma partition_ok:
  assumes "s < f"
  shows "\<exists>i j E'. part_loop cmp s f (s + 1) f E = Some (i, j, E') \<and> permutes s f E (Swap E' s j) \<and> s \<le> j \<and> j < i \<and> i \<le> f + 1 \<and>
           (\<forall>k. s \<le> k \<and> k < i \<longrightarrow> Swap E' s j k \<le> E s) \<and> (\<forall>k. j < k \<and> k \<le> f \<longrightarrow> cmp (E s) (Swap E' s j k)) \<and> Swap E' s j j = E s"
proof -
  have "parted cmp s f (s + 1) f E" using assms by (auto simp: parted_def)
  from part_loop_ok [OF this] obtain i j E' where r: "part_loop cmp s f (s + 1) f E = Some (i, j, E')" "parted cmp s f i j E'" "j < i"
      "permutes (s + 1) f E E'" by blast
  have es: "E' s = E s" using r(4) by (simp add: permutes_def)
  note P = r(2) [unfolded parted_def es]
  have "permutes s f E E'" by (rule permutes_wider [OF r(4)]) simp_all
  moreover have "permutes s f E' (Swap E' s j)" by (rule permutes_Swap) (use P assms in auto)
  ultimately have "permutes s f E (Swap E' s j)" by (rule permutes_trans)
  moreover have "Swap E' s j k \<le> E s" if "s \<le> k" "k < i" for k
    using P that es r(3) by (cases "k = s") (auto simp: Swap_def)
  moreover have "cmp (E s) (Swap E' s j k)" if "j < k" "k \<le> f" for k using P that by (simp add: Swap_def)
  ultimately show ?thesis using r(1,3) P es by (simp add: Swap_def)
qed

end

interpretation leq: pivot_test "(\<le>)"
  by unfold_locales auto

interpretation lt: pivot_test "(<)"
  by unfold_locales auto

text \<open>Sorting both sides of the middle part sorts the range.\<close>

lemma QSort_ok: "\<exists>E'. QSort s f E = Some E' \<and> permutes s f E E' \<and> ascending s f E'"
proof (induction "nat (f + 1 - s)" arbitrary: s f E rule: less_induct)
  case less
  show ?case
  proof (cases "s \<ge> f")
    case True
    then show ?thesis using ascending_one by (simp add: QSort.simps)
  next
    case False
    then have sf: "s < f" by simp
    obtain i j E1 where p: "part_loop (\<le>) s f (s + 1) f E = Some (i, j, E1)" "permutes s f E (Swap E1 s j)" "s \<le> j" "j < i" "i \<le> f + 1"
        "\<forall>k. s \<le> k \<and> k < i \<longrightarrow> Swap E1 s j k \<le> E s" "\<forall>k. j < k \<and> k \<le> f \<longrightarrow> E s \<le> Swap E1 s j k" "Swap E1 s j j = E s"
      using leq.partition_ok [OF sf, of E] by auto
    let ?E = "Swap E1 s j"
    obtain E2 where l: "QSort s (j - 1) ?E = Some E2" "permutes s (j - 1) ?E E2" "ascending s (j - 1) E2"
      using less [of "j - 1" s] p(3-5) by auto
    obtain E3 where r: "QSort i f E2 = Some E3" "permutes i f E2 E3" "ascending i f E3"
      using less [of f i] p(3-5) by auto
    have out: "E2 k = ?E k" if "j \<le> k" for k using l(2) that by (simp add: permutes_def)
    have out': "E3 k = E2 k" if "k < i" for k using r(2) that by (simp add: permutes_def)
    have lo: "E3 k \<le> E s" if "s \<le> k" "k < j" for k
      using permutes_range [OF l(2), of "\<lambda>x. x \<le> E s" k] p(4,6) out' [of k] that by simp
    have mid: "E3 k = E s" if "j \<le> k" "k < i" for k
    proof -
      have e: "E3 k = ?E k" using out' out that by simp
      have "?E k \<le> E s" using p(3,6) that by simp
      moreover have "E s \<le> ?E k" using p(5,7,8) that by (cases "k = j") simp_all
      ultimately show ?thesis using e by simp
    qed
    have hi: "E s \<le> E3 k" if "i \<le> k" "k \<le> f" for k
      using permutes_range [OF r(2), of "\<lambda>x. E s \<le> x" k] p(4,7) out that by simp
    have "ascending s f E3" unfolding ascending_def
    proof (intro allI impI, elim conjE)
      fix a b assume ab: "s \<le> a" "a \<le> b" "b \<le> f"
      consider "b < j" | "a < j" "j \<le> b" "b < i" | "a < i" "i \<le> b" | "j \<le> a" "b < i" | "i \<le> a" using ab by linarith
      then show "E3 a \<le> E3 b"
      proof cases
        case 1
        then show ?thesis using l(3) ab out' [of a] out' [of b] p(4) by (simp add: ascending_def)
      next
        case 2
        then show ?thesis using lo [of a] mid [of b] ab by simp
      next
        case 3
        then show ?thesis using lo [of a] mid [of a] hi [of b] ab by (cases "a < j") auto
      next
        case 4
        then show ?thesis using mid ab by simp
      next
        case 5
        then show ?thesis using r(3) ab by (simp add: ascending_def)
      qed
    qed
    moreover have "permutes s f ?E E2" by (rule permutes_wider [OF l(2)]) (use p(3-5) in auto)
    moreover have "permutes s f E2 E3" by (rule permutes_wider [OF r(2)]) (use p(3-5) in auto)
    moreover have "QSort s f E = Some E3" using p(1) l(1) r(1) sf by (simp add: QSort.simps [of s f E])
    ultimately show ?thesis using permutes_trans [OF p(2)] permutes_trans by blast
  qed
qed

text \<open>
  C38. \<open>QuickSort\<close> returns, and what it leaves in the first \<open>NumOfElements\<close> elements is the same elements in ascending order;
  nothing else is written.
\<close>

theorem quick_sort_correct:
  "\<exists>E'. QuickSort E NumOfElements = Some E' \<and> elems E' 0 (NumOfElements - 1) = elems E 0 (NumOfElements - 1) \<and>
     ascending 0 (NumOfElements - 1) E' \<and> (\<forall>k. \<not> (0 \<le> k \<and> k < NumOfElements) \<longrightarrow> E' k = E k)"
  using QSort_ok [of 0 "NumOfElements - 1" E] by (auto simp: QuickSort_def permutes_def)

theorem quick_sort_correct_witness:
  "\<exists>E'. QuickSort (\<lambda>i. - i) 3 = Some E' \<and> ascending 0 2 E' \<and> E' 7 = - 7"
  using quick_sort_correct [of "\<lambda>i. - i" 3] by auto

text \<open>\<open>CheckSorted\<close> decides whether an array is in ascending order.\<close>

lemma check_loop_iff: "check_loop n i E \<longleftrightarrow> ascending i (i + int n) E"
proof (induction n arbitrary: i)
  case 0
  then show ?case by (simp add: ascending_one)
next
  case (Suc n)
  show ?case
  proof
    assume h: "check_loop (Suc n) i E"
    then have I: "E i \<le> E (i + 1)" "ascending (i + 1) (i + 1 + int n) E" using Suc by (auto split: if_splits)
    show "ascending i (i + int (Suc n)) E" unfolding ascending_def
    proof (intro allI impI, elim conjE)
      fix a b assume ab: "i \<le> a" "a \<le> b" "b \<le> i + int (Suc n)"
      show "E a \<le> E b"
      proof (cases "a = i")
        case True
        then show ?thesis using I ab by (cases "b = i") (auto simp: ascending_def intro: order_trans [of _ "E (i + 1)"])
      next
        case False
        then show ?thesis using I(2) ab by (simp add: ascending_def)
      qed
    qed
  next
    assume h: "ascending i (i + int (Suc n)) E"
    then have "E i \<le> E (i + 1)" "ascending (i + 1) (i + 1 + int n) E" by (auto simp: ascending_def)
    then show "check_loop (Suc n) i E" using Suc by simp
  qed
qed

lemma CheckSorted_iff: "CheckSorted E NumOfElements \<longleftrightarrow> ascending 0 (NumOfElements - 1) E"
proof (cases "NumOfElements \<le> 0")
  case True
  then show ?thesis by (simp add: CheckSorted_def ascending_def)
next
  case False
  then show ?thesis using check_loop_iff [of "nat (NumOfElements - 1)" 0 E] by (simp add: CheckSorted_def)
qed

section \<open>Selection\<close>

lemma RANDU_range: "s < e \<Longrightarrow> s \<le> RANDU t s e \<and> RANDU t s e < e"
  using mod_less_divisor [of "nat (e - s)" t] unfolding RANDU_def by linarith

text \<open>What the selection leaves: the element of the given rank is in its place.\<close>

lemma QSelect_ok:
  assumes "s \<le> k" "k \<le> f"
  shows "\<exists>v E'. QSelect s f k clk E = Some (v, E') \<and> permutes s f E E' \<and> E' k = v \<and>
           (\<forall>a. s \<le> a \<and> a \<le> k \<longrightarrow> E' a \<le> v) \<and> (\<forall>a. k \<le> a \<and> a \<le> f \<longrightarrow> v \<le> E' a)"
  using assms
proof (induction "nat (f + 1 - s)" arbitrary: s f clk E rule: less_induct)
  case less
  show ?case
  proof (cases "s \<ge> f")
    case True
    moreover have "a = k" if "s \<le> a \<and> a \<le> k \<or> k \<le> a \<and> a \<le> f" for a using that True less.prems by linarith
    ultimately show ?thesis using less.prems by (auto simp: QSelect.simps)
  next
    case False
    then have sf: "s < f" by simp
    let ?F = "Swap E s (RANDU (clk 0) s f)"
    have pF: "permutes s f E ?F" using RANDU_range [OF sf, of "clk 0"] sf by (intro permutes_Swap) auto
    obtain i j E1 where p: "part_loop (<) s f (s + 1) f ?F = Some (i, j, E1)" "permutes s f ?F (Swap E1 s j)" "s \<le> j" "j < i" "i \<le> f + 1"
        "\<forall>k. s \<le> k \<and> k < i \<longrightarrow> Swap E1 s j k \<le> ?F s" "\<forall>k. j < k \<and> k \<le> f \<longrightarrow> ?F s < Swap E1 s j k" "Swap E1 s j j = ?F s"
      using lt.partition_ok [OF sf, of ?F] by auto
    let ?E = "Swap E1 s j" and ?c = "\<lambda>n. clk (Suc n)"
    have i: "i = j + 1"
    proof (rule ccontr)
      assume "i \<noteq> j + 1"
      then have "s \<le> j + 1 \<and> j + 1 < i" "j < j + 1 \<and> j + 1 \<le> f" using p(3-5) by auto
      then show False using p(6,7) by fastforce
    qed
    have pE: "permutes s f E ?E" using pF p(2) permutes_trans by blast
    have run: "QSelect s f k clk E = (if k = j then Some (?E k, ?E) else if k < j then QSelect s (j - 1) k ?c ?E else QSelect i f k ?c ?E)"
      using sf p(1) by (simp add: QSelect.simps [of s f k clk E] Let_def)
    have hi: "?F s \<le> ?E a" if "j \<le> a" "a \<le> f" for a using p(7,8) that by (cases "a = j") (auto intro: less_imp_le)
    consider "k = j" | "k < j" | "j < k" by linarith
    then show ?thesis
    proof cases
      case 1
      then show ?thesis using run pE p(4,6,8) hi by auto
    next
      case 2
      obtain v E2 where r: "QSelect s (j - 1) k ?c ?E = Some (v, E2)" "permutes s (j - 1) ?E E2" "E2 k = v"
          "\<forall>a. s \<le> a \<and> a \<le> k \<longrightarrow> E2 a \<le> v" "\<forall>a. k \<le> a \<and> a \<le> j - 1 \<longrightarrow> v \<le> E2 a"
        using less.hyps [of "j - 1" s ?c ?E] less.prems p(3-5) 2 by auto
      have "v \<le> ?F s" using permutes_range [OF r(2), of "\<lambda>x. x \<le> ?F s" k] p(4,6) r(3) less.prems 2 by auto
      then have "v \<le> E2 a" if "k \<le> a" "a \<le> f" for a
        using r(2,5) hi [of a] that by (cases "a < j") (auto simp: permutes_def)
      moreover have "permutes s f ?E E2" by (rule permutes_wider [OF r(2)]) (use p(3-5) in auto)
      ultimately show ?thesis using run 2 r(1,3,4) pE permutes_trans by auto
    next
      case 3
      obtain v E2 where r: "QSelect i f k ?c ?E = Some (v, E2)" "permutes i f ?E E2" "E2 k = v"
          "\<forall>a. i \<le> a \<and> a \<le> k \<longrightarrow> E2 a \<le> v" "\<forall>a. k \<le> a \<and> a \<le> f \<longrightarrow> v \<le> E2 a"
        using less.hyps [of f i ?c ?E] less.prems p(3-5) 3 i by auto
      have "?F s \<le> v" using permutes_range [OF r(2), of "\<lambda>x. ?F s \<le> x" k] hi r(3) less.prems 3 i by auto
      then have "E2 a \<le> v" if "s \<le> a" "a \<le> k" for a
        using r(2,4) p(6) that by (cases "a < i") (auto simp: permutes_def intro: order_trans [of _ "?F s"])
      moreover have "permutes s f ?E E2" by (rule permutes_wider [OF r(2)]) (use p(3-5) in auto)
      ultimately show ?thesis using run 3 r(1,3,5) pE permutes_trans by auto
    qed
  qed
qed

text \<open>A list whose elements up to a place do not exceed the one there, and whose elements after it are not exceeded by it.\<close>

lemma sort_place:
  assumes "n < length xs" "\<forall>i < n. xs ! i \<le> (xs ! n :: int)" "\<forall>i < length xs. n < i \<longrightarrow> xs ! n \<le> xs ! i"
  shows "sort xs ! n = xs ! n"
proof -
  let ?l = "take n xs" and ?r = "drop (Suc n) xs"
  have xs: "xs = ?l @ xs ! n # ?r" using assms(1) by (rule id_take_nth_drop)
  have l: "\<forall>x \<in> set ?l. x \<le> xs ! n" using assms(1,2) by (auto simp: in_set_conv_nth)
  have r: "\<forall>x \<in> set ?r. xs ! n \<le> x" using assms(3) by (auto simp: in_set_conv_nth)
  let ?s = "sort ?l @ xs ! n # sort ?r"
  have "sorted ?s" using l r by (auto simp: sorted_append intro: order_trans)
  moreover have "mset ?s = mset xs" by (subst xs) simp
  ultimately have "sort xs = ?s" by (metis properties_for_sort)
  then show ?thesis using assms(1) by (simp add: nth_append)
qed

lemma elems_list: "elems E 0 (int n - 1) = mset (map (\<lambda>i. E (int i)) [0..<n])"
proof (induction n)
  case 0
  then show ?case by (simp add: elems_def)
next
  case (Suc n)
  have "elems E 0 (int (Suc n) - 1) = elems E 0 (int n - 1) + elems E (int n) (int n)"
    using elems_split [of 0 "int n - 1" "int n" E] by simp
  then show ?case using Suc by (simp add: elems_def)
qed

text \<open>
  \<open>KthElement\<close> returns the element that stands at place \<open>k\<close> when the array is sorted, whatever pivots the clock makes it choose.
\<close>

lemma kth_element_correct:
  assumes "1 \<le> k" and "k \<le> int n"
  shows "\<exists>E'. KthElement E (int n) k clk = Some (sort (map (\<lambda>i. E (int i)) [0..<n]) ! nat (k - 1), E') \<and>
           elems E' 0 (int n - 1) = elems E 0 (int n - 1)"
proof -
  obtain v E' where r: "QSelect 0 (int n - 1) (k - 1) clk E = Some (v, E')" "permutes 0 (int n - 1) E E'" "E' (k - 1) = v"
      "\<forall>a. 0 \<le> a \<and> a \<le> k - 1 \<longrightarrow> E' a \<le> v" "\<forall>a. k - 1 \<le> a \<and> a \<le> int n - 1 \<longrightarrow> v \<le> E' a"
    using QSelect_ok [of 0 "k - 1" "int n - 1" clk E] assms by auto
  let ?xs = "\<lambda>E. map (\<lambda>i. E (int i)) [0..<n]"
  let ?k = "nat (k - 1)"
  have k: "?k < n" "int ?k = k - 1" using assms by linarith+
  have e: "elems E' 0 (int n - 1) = elems E 0 (int n - 1)" using r(2) by (simp add: permutes_def)
  then have "mset (?xs E') = mset (?xs E)" by (simp only: elems_list)
  then have "sort (?xs E) = sort (?xs E')" by (metis properties_for_sort sorted_sort mset_sort)
  moreover have "sort (?xs E') ! ?k = ?xs E' ! ?k"
  proof (rule sort_place)
    show "\<forall>i < ?k. ?xs E' ! i \<le> ?xs E' ! ?k" using r(3,4) k by auto
    show "\<forall>i < length (?xs E'). ?k < i \<longrightarrow> ?xs E' ! ?k \<le> ?xs E' ! i" using r(3,5) k by auto
  qed (use k in simp)
  ultimately have "v = sort (?xs E) ! ?k" using r(3) k by simp
  then show ?thesis using r(1) e by (simp add: KthElement_def)
qed

lemma kth_element_correct_witness:
  "\<exists>E'. KthElement (\<lambda>i. 10 - i) 3 2 (\<lambda>n. n * 7) = Some (9, E')"
  using kth_element_correct [of 2 3 "\<lambda>i. 10 - i" "\<lambda>n. n * 7"] by (auto simp: upt_rec)

section \<open>Merging\<close>

text \<open>A range of an array as a list, and a list written into an array.\<close>

definition arr :: "elements \<Rightarrow> int \<Rightarrow> nat \<Rightarrow> int list" where
  "arr E s n = map (\<lambda>i. E (s + int i)) [0..<n]"

definition put_list :: "elements \<Rightarrow> int \<Rightarrow> int list \<Rightarrow> elements" where
  "put_list E s xs = (\<lambda>k. if s \<le> k \<and> k < s + int (length xs) then xs ! nat (k - s) else E k)"

fun merge_lists :: "int list \<Rightarrow> int list \<Rightarrow> int list" where
  "merge_lists (x # xs) (y # ys) = (if x < y then x # merge_lists xs (y # ys) else y # merge_lists (x # xs) ys)"
| "merge_lists xs [] = xs"
| "merge_lists [] ys = ys"

lemma merge_lists_Nil [simp]: "merge_lists [] ys = ys"
  by (cases ys) simp_all

lemma length_arr [simp]: "length (arr E s n) = n"
  by (simp add: arr_def)

lemma arr_Suc: "arr E s (Suc n) = E s # arr E (s + 1) n"
  by (rule nth_equalityI) (auto simp: arr_def nth_Cons' of_nat_diff simp del: upt_Suc)

lemma arr_append: "arr E s (n + m) = arr E s n @ arr E (s + int n) m"
  by (rule nth_equalityI) (auto simp: arr_def nth_append of_nat_diff)

lemma arr_cong: "(\<And>k. s \<le> k \<Longrightarrow> k < s + int n \<Longrightarrow> E k = E' k) \<Longrightarrow> arr E s n = arr E' s n"
  by (auto simp: arr_def)

lemma arr_put_list: "n = length xs \<Longrightarrow> arr (put_list E s xs) s n = xs"
  by (rule nth_equalityI) (auto simp: arr_def put_list_def)

lemma arr_put_list_outside: "s + int n \<le> p \<or> p + int (length xs) \<le> s \<Longrightarrow> arr (put_list E p xs) s n = arr E s n"
  by (rule arr_cong) (auto simp: put_list_def)

lemma put_list_Nil [simp]: "put_list E s [] = E"
  by (simp add: put_list_def fun_eq_iff)

lemma put_list_Cons: "put_list E s (x # xs) = put_list (E(s := x)) (s + 1) xs"
  by (auto simp: put_list_def fun_eq_iff nth_Cons' nat_diff_distrib intro!: arg_cong [of _ _ "\<lambda>i. xs ! i"])

lemma put_list_over:
  "length zs = length xs + length ys \<Longrightarrow> put_list (put_list (put_list E s xs) (s + int (length xs)) ys) s zs = put_list E s zs"
  by (auto simp: put_list_def fun_eq_iff)

lemma fill_loop_eq: "fill_loop f n i E = (\<lambda>k. if i \<le> k \<and> k < i + int n then f k else E k)"
  by (induction n arbitrary: i E) (auto simp: fun_eq_iff)

lemma merge_loop_eq:
  assumes "n = length ls + length rs" "ls = arr (Left m) li (length ls)" "rs = arr (Right m) ri (length rs)"
    "lc = li + int (length ls)" "rc = ri + int (length rs)"
  shows "merge_loop n k li ri lc rc m = m\<lparr>A := put_list (A m) (k - 1) (merge_lists ls rs)\<rparr>"
  using assms
proof (induction n arbitrary: ls rs k li ri m)
  case 0
  then show ?case by simp
next
  case (Suc n)
  show ?case
  proof (cases ls)
    case Nil
    then obtain y ys where rs: "rs = y # ys" using Suc.prems(1) by (cases rs) auto
    then have y: "y = Right m ri" "ys = arr (Right m) (ri + 1) (length ys)" using Suc.prems(3) by (simp_all add: arr_Suc)
    show ?thesis using Suc.IH [of "[]" ys "m\<lparr>A := (A m)(k - 1 := y)\<rparr>" li "ri + 1" "k + 1"] Suc.prems(1,2,4,5) Nil rs y
      by (simp add: put_list_Cons fun_upd_def)
  next
    case ls: (Cons x xs)
    then have x: "x = Left m li" "xs = arr (Left m) (li + 1) (length xs)" using Suc.prems(2) by (simp_all add: arr_Suc)
    show ?thesis
    proof (cases rs)
      case Nil
      then show ?thesis using Suc.IH [of xs "[]" "m\<lparr>A := (A m)(k - 1 := x)\<rparr>" "li + 1" ri "k + 1"] Suc.prems(1,3-5) ls x
        by (simp add: put_list_Cons fun_upd_def)
    next
      case rs: (Cons y ys)
      then have y: "y = Right m ri" "ys = arr (Right m) (ri + 1) (length ys)" using Suc.prems(3) by (simp_all add: arr_Suc)
      show ?thesis
      proof (cases "x < y")
        case True
        then have "merge_loop (Suc n) k li ri lc rc m = merge_loop n (k + 1) (li + 1) ri lc rc (m\<lparr>A := (A m)(k - 1 := x)\<rparr>)"
          using Suc.prems(4,5) ls rs x(1) y(1) by simp
        also have "\<dots> = m\<lparr>A := put_list ((A m)(k - 1 := x)) k (merge_lists xs rs)\<rparr>"
          by (subst Suc.IH [of xs rs]) (use Suc.prems ls x(2) in simp_all)
        finally show ?thesis using True ls rs by (simp add: put_list_Cons)
      next
        case False
        then have "merge_loop (Suc n) k li ri lc rc m = merge_loop n (k + 1) li (ri + 1) lc rc (m\<lparr>A := (A m)(k - 1 := y)\<rparr>)"
          using Suc.prems(4,5) ls rs x(1) y(1) by simp
        also have "\<dots> = m\<lparr>A := put_list ((A m)(k - 1 := y)) k (merge_lists ls ys)\<rparr>"
          by (subst Suc.IH [of ls ys]) (use Suc.prems rs y(2) in simp_all)
        finally show ?thesis using False ls rs by (simp add: put_list_Cons)
      qed
    qed
  qed
qed

lemma merge_lists_sort: "sorted xs \<Longrightarrow> sorted ys \<Longrightarrow> merge_lists xs ys = sort (xs @ ys)"
proof -
  assume "sorted xs" "sorted ys"
  moreover have m: "mset (merge_lists xs ys) = mset (xs @ ys)" for xs ys
    by (induction xs ys rule: merge_lists.induct) auto
  moreover have "sorted (merge_lists xs ys)" if "sorted xs" "sorted ys" for xs ys
    using that
  proof (induction xs ys rule: merge_lists.induct)
    case (1 x xs y ys)
    have "set (merge_lists a b) = set a \<union> set b" for a b using m [of a b] by (metis set_append set_mset_mset)
    then show ?case using 1 by auto
  qed auto
  ultimately show ?thesis by (metis properties_for_sort)
qed

lemma Merge_eq:
  assumes "p \<le> q" "q < r" "n = nat (q - p + 1)" "l = nat (r - q)"
  shows "A (Merge p q r m) = put_list (A m) (p - 1) (merge_lists (arr (A m) (p - 1) n) (arr (A m) q l))"
proof -
  let ?m = "m\<lparr>Left := fill_loop (\<lambda>i. A m (p + i - 1)) n 0 (Left m), Right := fill_loop (\<lambda>j. A m (q + j)) l 0 (Right m)\<rparr>"
  have e: "Merge p q r m = merge_loop (nat (r - p + 1)) p 0 0 (q - p + 1) (r - q) ?m" using assms by (simp add: Merge_def Let_def)
  have lr: "arr (fill_loop (\<lambda>i. A m (p + i - 1)) n 0 (Left m)) 0 n = arr (A m) (p - 1) n"
      "arr (fill_loop (\<lambda>j. A m (q + j)) l 0 (Right m)) 0 l = arr (A m) q l"
    by (auto simp: arr_def fill_loop_eq algebra_simps)
  have "nat (r - p + 1) = n + l" "q - p + 1 = int n" "r - q = int l" using assms by linarith+
  then have "Merge p q r m = ?m\<lparr>A := put_list (A ?m) (p - 1) (merge_lists (arr (A m) (p - 1) n) (arr (A m) q l))\<rparr>"
    unfolding e by (intro merge_loop_eq) (simp_all add: lr)
  then show ?thesis by simp
qed

text \<open>
  C39. \<open>MSort\<close> writes the sorted list of the elements numbered \<open>p\<close> to \<open>r\<close> over them and leaves the rest of the array; recursion
  over the halves and the merging of the copies compute what the library's \<open>sort\<close> does.
\<close>

theorem merge_sort_correct:
  "A (MSort p r m) = put_list (A m) (p - 1) (sort (arr (A m) (p - 1) (nat (r - p + 1))))"
proof (induction "nat (r - p)" arbitrary: p r m rule: less_induct)
  case less
  show ?case
  proof (cases "p < r")
    case False
    then consider "nat (r - p + 1) = 0" | "nat (r - p + 1) = 1" by linarith
    then show ?thesis
    proof cases
      case 2
      then show ?thesis using False by (simp add: MSort.simps [of p r m] arr_def put_list_Cons)
    qed (use False in \<open>simp add: MSort.simps [of p r m] arr_def\<close>)
  next
    case True
    define q where "q = (p + r) div 2"
    define n where "n = nat (q - p + 1)"
    define l where "l = nat (r - q)"
    have q: "p \<le> q" "q < r" using True by (auto simp: q_def)
    have nl: "nat (r - p + 1) = n + l" "nat (r - (q + 1) + 1) = l" "p - 1 + int n = q" using q by (simp_all add: n_def l_def)
    let ?m1 = "MSort p q m" and ?m2 = "MSort (q + 1) r (MSort p q m)"
    let ?xs = "arr (A m) (p - 1) n" and ?ys = "arr (A m) q l"
    have m1: "A ?m1 = put_list (A m) (p - 1) (sort ?xs)" using less [of q p m] q by (simp add: n_def)
    have o1: "arr (A ?m1) q l = ?ys" unfolding m1 by (rule arr_put_list_outside) (use nl(3) in simp)
    have m2: "A ?m2 = put_list (A ?m1) q (sort ?ys)" using less [of r "q + 1" ?m1] q o1 nl(2) by simp
    have o2: "arr (A ?m2) (p - 1) n = sort ?xs"
      unfolding m2 by (subst arr_put_list_outside) (simp_all add: nl(3) m1 arr_put_list)
    have o3: "arr (A ?m2) q l = sort ?ys" unfolding m2 by (rule arr_put_list) simp
    have "A (MSort p r m) = A (Merge p q r ?m2)" using True by (simp add: MSort.simps [of p r m] q_def Let_def)
    also have "\<dots> = put_list (A ?m2) (p - 1) (merge_lists (sort ?xs) (sort ?ys))"
      by (simp only: Merge_eq [OF q n_def l_def] o2 o3)
    also have "merge_lists (sort ?xs) (sort ?ys) = sort (arr (A m) (p - 1) (n + l))"
    proof -
      have "sort (sort ?xs @ sort ?ys) = sort (?xs @ ?ys)" by (rule properties_for_sort) simp_all
      then show ?thesis using merge_lists_sort [of "sort ?xs" "sort ?ys"] by (simp add: arr_append nl(3))
    qed
    also have "put_list (A ?m2) (p - 1) (sort (arr (A m) (p - 1) (n + l))) = put_list (A m) (p - 1) (sort (arr (A m) (p - 1) (n + l)))"
      unfolding m2 m1 using put_list_over [of "sort (arr (A m) (p - 1) (n + l))" "sort ?xs" "sort ?ys" "A m" "p - 1"] nl(3) by simp
    finally show ?thesis using nl(1) by simp
  qed
qed

end
