(* ===== verification/Command_Readline.thy ===== *)
theory Command_Readline
  imports Command_Prompt Printfmt
begin

text \<open>
  The line editor of the command prompt (\<^verbatim>\<open>src/kern/cmd/command_readline.c\<close>): history, completion and editing inside the
  line. Every buffer is a memory of its own, from address 0 on; \<open>None\<close> stands for a loop that does not end, because a string has
  no terminator or the input is used up.
\<close>

section \<open>State\<close>

abbreviation HISTORY_MAX :: int where "HISTORY_MAX \<equiv> 19"

text \<open>The names among which a word is completed.\<close>

record tables =
  command_names :: "byte list list"
  program_names :: "byte list list"
  test_names :: "byte list list"

text \<open>
  The history outlives a call, with the index of its last line; what lies below the array \<^verbatim>\<open>command_history\<close> in memory is
  \<open>command_history s (- 1)\<close>. \<open>last_c\<close> and \<open>prefix_list_size\<close> have no value when a call begins.
\<close>

record reader =
  last_command_idx :: int
  command_history :: "int \<Rightarrow> memory"
  PrefixList :: "nat \<Rightarrow> memory"
  buf :: memory
  cursor :: nat           \<comment> \<open>\<^verbatim>\<open>i\<close>\<close>
  lastIndex :: nat
  commandidx :: int
  prefix_list_idx :: nat
  prefix_list_size :: nat
  last_c :: int
  is_run_cmd :: bool
  is_tst_cmd :: bool
  shown_chars :: "int list"     \<comment> \<open>the arguments of \<^verbatim>\<open>cputchar\<close>\<close>

definition echo :: "int list \<Rightarrow> reader \<Rightarrow> reader" where
  "echo cs s = s\<lparr>shown_chars := shown_chars s @ cs\<rparr>"

definition string_of :: "memory \<Rightarrow> nat \<Rightarrow> byte list option" where
  "string_of m p = map_option (\<lambda>n. map (\<lambda>k. m (p + k)) [0..<n]) (strlen m p)"

section \<open>History and completion\<close>

text \<open>
  \<^verbatim>\<open>clearandwritecommand\<close> and \<^verbatim>\<open>RoundAutoCompleteCommandWithTheSamePrefix\<close> are the same but for the number of characters
  taken back and the string shown.
\<close>

definition write_line :: "nat \<Rightarrow> memory \<Rightarrow> reader \<Rightarrow> reader option" where
  "write_line old src s =
     Option.bind (strlen src 0) (\<lambda>len.
     Some ((echo (replicate old 8 @ map (\<lambda>k. schar (src k)) [0..<len]) s)\<lparr>
       buf := (\<lambda>k. if k < len then src k else if k < BUFLEN then 0 else buf s k), cursor := len, lastIndex := len\<rparr>))"

definition clearandwritecommand :: "reader \<Rightarrow> reader option" where
  "clearandwritecommand s = write_line (cursor s) (command_history s (commandidx s)) s"

definition RoundAutoCompleteCommandWithTheSamePrefix :: "nat \<Rightarrow> memory \<Rightarrow> reader \<Rightarrow> reader option" where
  "RoundAutoCompleteCommandWithTheSamePrefix old_buf_len prefix_element s = write_line old_buf_len prefix_element s"

definition clear_prefix_list :: "reader \<Rightarrow> reader" where
  "clear_prefix_list s = s\<lparr>PrefixList := (\<lambda>n k. if n < 100 \<and> k < 1024 then 0 else PrefixList s n k)\<rparr>"

definition bytes_at :: "byte list \<Rightarrow> memory \<Rightarrow> memory" where
  "bytes_at w m = (\<lambda>k. if k < length w then w ! k else m k)"

text \<open>The names that begin with a word, each after what stands before the word.\<close>

definition matches :: "byte list \<Rightarrow> byte list \<Rightarrow> byte list list \<Rightarrow> byte list list" where
  "matches before w names = map (\<lambda>name. before @ name) (filter (\<lambda>name. take (length w) name = w) names)"

definition fill_prefix_list :: "byte list list \<Rightarrow> reader \<Rightarrow> reader" where
  "fill_prefix_list ms s =
     s\<lparr>PrefixList := (\<lambda>n. if n < length ms then bytes_at (ms ! n) (\<lambda>k. if k < 1024 then 0 else PrefixList s n k) else PrefixList s n),
       prefix_list_size := length ms\<rparr>"

text \<open>The first match is written over the buffer and shown; without one the buffer stays as it is.\<close>

definition show_match :: "nat \<Rightarrow> reader \<Rightarrow> reader option" where
  "show_match bufLength s =
     (if prefix_list_size s > 0 then
        Option.bind (string_of (PrefixList s 0) 0) (\<lambda>w.
        (let b = bytes_at w (buf s) in
         Option.bind (strlen b 0) (\<lambda>n.
         Some ((echo (replicate bufLength 8 @ map (\<lambda>k. schar (b k)) [0..<n]) s)\<lparr>
           buf := b, prefix_list_idx := 0, cursor := n, lastIndex := n\<rparr>))))
      else Some s)"

definition RUN :: "byte list" where "RUN = [114, 117, 110]"
definition LOAD :: "byte list" where "LOAD = [108, 111, 97, 100]"
definition TST :: "byte list" where "TST = [116, 115, 116]"

text \<open>
  Several words: the first must be \<^verbatim>\<open>run\<close>, \<^verbatim>\<open>load\<close> or \<^verbatim>\<open>tst\<close>, the last one is completed and the rest stays in the
  buffer. The result has \<open>True\<close> if the word was taken up, \<open>False\<close> for \<^verbatim>\<open>continue\<close>. The two flags are never taken back.
\<close>

definition complete_argument :: "tables \<Rightarrow> nat \<Rightarrow> nat list \<Rightarrow> memory \<Rightarrow> reader \<Rightarrow> (bool \<times> reader) option" where
  "complete_argument t bufLength args m s =
     Option.bind (string_of m (hd args)) (\<lambda>command.
     if command \<notin> {RUN, LOAD, TST} then Some (False, s)
     else
       Option.bind (string_of m (last args)) (\<lambda>w.
       (let s = (if command = TST then s\<lparr>is_tst_cmd := True\<rparr> else s\<lparr>is_run_cmd := True\<rparr>);
            before = map (buf s) [0..<bufLength - length w];
            s = s\<lparr>buf := bytes_at (before @ [0]) (buf s)\<rparr>;
            names = (if is_run_cmd s then program_names t else if is_tst_cmd s then test_names t else [])
        in map_option (Pair True) (show_match bufLength (fill_prefix_list (matches before w names) s)))))"

definition complete_command :: "tables \<Rightarrow> nat \<Rightarrow> memory \<Rightarrow> reader \<Rightarrow> (bool \<times> reader) option" where
  "complete_command t bufLength m s =
     Option.bind (string_of m 0) (\<lambda>w.
     map_option (Pair True) (show_match bufLength (fill_prefix_list (matches [] w (command_names t)) s)))"

text \<open>No word at all: what the flags ask for.\<close>

definition complete_flagged :: "tables \<Rightarrow> nat \<Rightarrow> memory \<Rightarrow> reader \<Rightarrow> (bool \<times> reader) option" where
  "complete_flagged t bufLength m s =
     Option.bind (string_of m 0) (\<lambda>w.
     map_option (Pair True) (show_match bufLength (fill_prefix_list
       (matches [] w (if is_run_cmd s then program_names t else if is_tst_cmd s then test_names t else [])) s)))"

definition first_tab :: "tables \<Rightarrow> reader \<Rightarrow> (bool \<times> reader) option" where
  "first_tab t s =
     (let s = clear_prefix_list s in
      Option.bind (strlen (buf s) 0) (\<lambda>bufLength.
      if bufLength = 0 \<or> last_c s = 255 then Some (False, s)
      else
        (let s = s\<lparr>prefix_list_size := 0\<rparr> in
         if buf s (bufLength - 1) = 32 then Some (False, s)
         else
           Option.bind (strsplit WHITESPACE 0 (buf s)) (\<lambda>(_, args, m).
           if length args > 1 then complete_argument t bufLength args m s
           else if length args = 1 then complete_command t bufLength m s
           else complete_flagged t bufLength m s))))"

definition next_tab :: "reader \<Rightarrow> reader option" where
  "next_tab s =
     (if prefix_list_size s > 0 then
        (let prev = prefix_list_idx s; s = s\<lparr>prefix_list_idx := Suc prev mod prefix_list_size s\<rparr> in
         Option.bind (strlen (PrefixList s prev) 0) (\<lambda>n.
         RoundAutoCompleteCommandWithTheSamePrefix n (PrefixList s (prefix_list_idx s)) s))
      else Some s)"

section \<open>One character\<close>

text \<open>The end of the line: the history moves up when it is full, and a line equal to the last one is not kept twice.\<close>

definition copy_row :: "memory \<Rightarrow> memory \<Rightarrow> memory" where
  "copy_row dst src = (\<lambda>k. if k < BUFLEN then src k else dst k)"

definition remember :: "reader \<Rightarrow> reader option" where
  "remember s =
     (let b = buf s; h = command_history s; n = last_command_idx s in
      if n = HISTORY_MAX
      then Some (s\<lparr>command_history := (\<lambda>k. if k = HISTORY_MAX then copy_row (h k) b
             else if 0 \<le> k \<and> k < HISTORY_MAX then copy_row (h k) (h (k + 1)) else h k)\<rparr>)
      else
        Option.bind (string_of (h n) 0) (\<lambda>old.
        Option.bind (string_of b 0) (\<lambda>new.
        Some (if old = new then s else s\<lparr>last_command_idx := n + 1, command_history := h(n + 1 := copy_row (h (n + 1)) b)\<rparr>))))"

text \<open>\<open>Inl\<close>: the call returns; \<open>Inr\<close>: it waits for the next character.\<close>

definition rl_step :: "tables \<Rightarrow> bool \<Rightarrow> int \<Rightarrow> reader \<Rightarrow> (reader + reader) option" where
  "rl_step t echoing c s =
     (let s = s\<lparr>lastIndex := max (lastIndex s) (cursor s)\<rparr>; go = map_option (\<lambda>s. Inr (s\<lparr>last_c := c\<rparr>));
          seen = (if echoing then echo [c] else (\<lambda>s. s))
      in if c < 0 then Some (Inl s)
         else if c = 226 then
           go (clearandwritecommand (if commandidx s \<noteq> 0 then s\<lparr>commandidx := commandidx s - 1\<rparr> else s))
         else if c = 227 then
           (let s = (if commandidx s < last_command_idx s then s\<lparr>commandidx := commandidx s + 1\<rparr> else s) in
            go (if last_command_idx s \<ge> 0 then clearandwritecommand s else Some s))
         else if c = 9 then
           (if last_c s \<noteq> 9
            then map_option (\<lambda>(taken, s). Inr (if taken then s\<lparr>last_c := c\<rparr> else s)) (first_tab t s)
            else go (next_tab s))
         else if c = 228 then go (Some (if cursor s > 0 then echo [c] (s\<lparr>cursor := cursor s - 1\<rparr>) else s))
         else if c = 229 then go (Some (if cursor s < lastIndex s then echo [c] (s\<lparr>cursor := Suc (cursor s)\<rparr>) else s))
         else if c = 233 \<and> cursor s > 0 then
           go (Some (s\<lparr>buf := (\<lambda>k. if cursor s \<le> k \<and> k \<le> lastIndex s then buf s (Suc k) else buf s k), lastIndex := lastIndex s - 1\<rparr>))
         else if c \<ge> 32 \<and> cursor s < BUFLEN - 1 then
           go (Some ((seen s)\<lparr>buf := (buf s)(cursor s := word_of_int c), cursor := Suc (cursor s), lastIndex := Suc (lastIndex s)\<rparr>))
         else if c = 8 \<and> cursor s > 0 then
           go (Some ((seen s)\<lparr>buf := (buf s)(cursor s - 1 := buf s (cursor s)), cursor := cursor s - 1\<rparr>))
         else if c = 10 \<or> c = 13 then map_option Inl (remember ((seen s)\<lparr>buf := (buf s)(lastIndex s := 0)\<rparr>))
         else go (Some s))"

fun rl_loop :: "tables \<Rightarrow> bool \<Rightarrow> int list \<Rightarrow> reader \<Rightarrow> reader option" where
  "rl_loop t echoing [] s = None"
| "rl_loop t echoing (c # inp) s =
     Option.bind (rl_step t echoing c s) (\<lambda>r. case r of Inl s \<Rightarrow> Some s | Inr s \<Rightarrow> rl_loop t echoing inp s)"

definition command_prompt_readline :: "tables \<Rightarrow> bool \<Rightarrow> int list \<Rightarrow> reader \<Rightarrow> reader option" where
  "command_prompt_readline t echoing inp s =
     rl_loop t echoing inp (s\<lparr>commandidx := last_command_idx s + 1, prefix_list_idx := 0, cursor := 0, lastIndex := 0,
       is_run_cmd := False, is_tst_cmd := False\<rparr>)"

text \<open>One turn of the command prompt: the line is read into a buffer of zeros.\<close>

definition prompt_line :: "tables \<Rightarrow> bool \<Rightarrow> int list \<Rightarrow> reader \<Rightarrow> reader option" where
  "prompt_line t echoing inp s = command_prompt_readline t echoing inp (s\<lparr>buf := (\<lambda>k. if k < BUFLEN then 0 else buf s k)\<rparr>)"

section \<open>Typing\<close>

lemma string_of_cstring: "cstring m p w \<Longrightarrow> string_of m p = Some w"
  by (auto simp: string_of_def strlen_cstring cstring_def intro!: nth_equalityI)

lemma cstring_bytes_at: "0 \<notin> set w \<Longrightarrow> cstring (bytes_at w m) 0 w \<longleftrightarrow> m (length w) = 0"
  by (simp add: cstring_def bytes_at_def)

abbreviation plain :: "int \<Rightarrow> bool" where
  "plain c \<equiv> 32 \<le> c \<and> c < 127"

definition typed_line :: "int list \<Rightarrow> byte list" where
  "typed_line cs = map word_of_int cs"

lemma plain_nonzero: "plain c \<Longrightarrow> (word_of_int c :: byte) \<noteq> 0"
proof -
  assume h: "plain c"
  have "uint (word_of_int c :: byte) = c mod 2 ^ 8" by (simp add: uint_word_of_int)
  then have "uint (word_of_int c :: byte) = c" using h by simp
  then show ?thesis using h by auto
qed

lemma typed_line_nonzero: "\<forall>c \<in> set cs. plain c \<Longrightarrow> 0 \<notin> set (typed_line cs)"
  using plain_nonzero by (auto simp: typed_line_def)

lemma rl_step_plain:
  assumes "plain c" "cursor s < BUFLEN - 1" "lastIndex s = cursor s"
  shows "rl_step t e c s =
    Some (Inr ((if e then echo [c] s else s)\<lparr>buf := (buf s)(cursor s := word_of_int c), cursor := Suc (cursor s),
      lastIndex := Suc (cursor s), last_c := c\<rparr>))"
  using assms by (simp add: rl_step_def Let_def echo_def)

text \<open>Printable characters go into the buffer one after the other.\<close>

definition typed :: "int list \<Rightarrow> bool \<Rightarrow> reader \<Rightarrow> reader" where
  "typed cs e s = (if cs = [] then s else (if e then echo cs s else s)\<lparr>
     buf := (\<lambda>k. if cursor s \<le> k \<and> k < cursor s + length cs then word_of_int (cs ! (k - cursor s)) else buf s k),
     cursor := cursor s + length cs, lastIndex := cursor s + length cs, last_c := last cs\<rparr>)"

lemma rl_loop_plain:
  assumes "\<forall>c \<in> set cs. plain c" "cursor s + length cs \<le> BUFLEN - 1" "lastIndex s = cursor s"
  shows "rl_loop t e (cs @ rest) s = rl_loop t e rest (typed cs e s)"
  using assms
proof (induction cs arbitrary: s)
  case Nil
  then show ?case by (simp add: typed_def)
next
  case (Cons c cs)
  let ?s = "(if e then echo [c] s else s)\<lparr>buf := (buf s)(cursor s := word_of_int c), cursor := Suc (cursor s),
      lastIndex := Suc (cursor s), last_c := c\<rparr>"
  have p: "plain c" "cursor s < BUFLEN - 1" using Cons.prems(1,2) by auto
  have "rl_loop t e ((c # cs) @ rest) s = rl_loop t e (cs @ rest) ?s"
    by (simp only: append_Cons rl_loop.simps rl_step_plain [OF p Cons.prems(3)]) simp
  also have "\<dots> = rl_loop t e rest (typed cs e ?s)" by (rule Cons.IH) (use Cons.prems in auto)
  also have "typed cs e ?s = typed (c # cs) e s"
    by (auto simp: typed_def echo_def fun_eq_iff nth_Cons' Suc_diff_le intro!: reader.equality)
  finally show ?case .
qed

text \<open>The end of the line.\<close>

lemma rl_step_return:
  assumes "c = 10 \<or> c = 13" "cursor s \<le> lastIndex s"
  shows "rl_step t e c s = map_option Inl (remember ((if e then echo [c] s else s)\<lparr>buf := (buf s)(lastIndex s := 0)\<rparr>))"
proof -
  have m: "s\<lparr>lastIndex := max (lastIndex s) (cursor s)\<rparr> = s" using assms(2) by (auto intro!: reader.equality)
  show ?thesis unfolding rl_step_def Let_def m using assms(1) by (elim disjE) simp_all
qed

lemma remember_buf: "remember s = Some s' \<Longrightarrow> buf s' = buf s"
  by (auto simp: remember_def Let_def bind_eq_Some_conv split: if_splits)

text \<open>What the history holds: a line at each place up to the last.\<close>

definition history_ok :: "reader \<Rightarrow> bool" where
  "history_ok s \<longleftrightarrow> - 1 \<le> last_command_idx s \<and> last_command_idx s \<le> HISTORY_MAX \<and>
     (\<exists>w. cstring (command_history s (- 1)) 0 w) \<and>
     (\<forall>k. 0 \<le> k \<and> k \<le> HISTORY_MAX \<longrightarrow> (\<exists>w. cstring (command_history s k) 0 w \<and> length w < BUFLEN))"

lemma cstring_copy_row: "cstring src 0 w \<Longrightarrow> length w < BUFLEN \<Longrightarrow> cstring (copy_row dst src) 0 w"
  by (simp add: cstring_def copy_row_def)

lemma remember_line:
  assumes "history_ok s" "cstring (buf s) 0 w" "length w < BUFLEN"
  shows "\<exists>s'. remember s = Some s' \<and> history_ok s' \<and> buf s' = buf s \<and> last_command_idx s \<le> last_command_idx s' \<and>
           (last_command_idx s' = - 1 \<longrightarrow> cstring (command_history s (- 1)) 0 w) \<and>
           (0 \<le> last_command_idx s' \<longrightarrow> cstring (command_history s' (last_command_idx s')) 0 w)"
proof (cases "last_command_idx s = HISTORY_MAX")
  case True
  let ?h = "command_history s"
  let ?s = "s\<lparr>command_history := (\<lambda>k. if k = HISTORY_MAX then copy_row (?h k) (buf s)
             else if 0 \<le> k \<and> k < HISTORY_MAX then copy_row (?h k) (?h (k + 1)) else ?h k)\<rparr>"
  have r: "remember s = Some ?s" using True by (simp add: remember_def Let_def)
  have "\<exists>u. cstring (command_history ?s k) 0 u \<and> length u < BUFLEN" if "0 \<le> k" "k \<le> HISTORY_MAX" for k
  proof (cases "k = HISTORY_MAX")
    case True
    then show ?thesis using cstring_copy_row [OF assms(2,3)] assms(3) by auto
  next
    case False
    then have "0 \<le> k + 1" "k + 1 \<le> HISTORY_MAX" using that by simp_all
    then obtain u where "cstring (?h (k + 1)) 0 u" "length u < BUFLEN" using assms(1) unfolding history_ok_def by blast
    then show ?thesis using cstring_copy_row that False by auto
  qed
  then show ?thesis using r assms(1) True cstring_copy_row [OF assms(2,3)] by (auto simp: history_ok_def)
next
  case False
  let ?n = "last_command_idx s"
  have n: "- 1 \<le> ?n" "?n < HISTORY_MAX" using assms(1) False by (auto simp: history_ok_def)
  have "?n = - 1 \<or> 0 \<le> ?n \<and> ?n \<le> HISTORY_MAX" using n by auto
  then obtain old where old: "cstring (command_history s ?n) 0 old" using assms(1) unfolding history_ok_def by metis
  have r: "remember s = Some (if old = w then s else s\<lparr>last_command_idx := ?n + 1,
      command_history := (command_history s)(?n + 1 := copy_row (command_history s (?n + 1)) (buf s))\<rparr>)"
    using False string_of_cstring [OF old] string_of_cstring [OF assms(2)] by (simp add: remember_def Let_def)
  show ?thesis using r assms n old cstring_copy_row [OF assms(2,3)] by (auto simp: history_ok_def)
qed

section \<open>Reading a line and recalling it\<close>

lemma finish_line:
  assumes "history_ok s" "cursor s \<le> lastIndex s" "cstring ((buf s)(lastIndex s := 0)) 0 w" "length w < BUFLEN"
  shows "\<exists>s'. rl_loop t e [13] s = Some s' \<and> history_ok s' \<and> buf s' = (buf s)(lastIndex s := 0) \<and> last_command_idx s \<le> last_command_idx s' \<and>
           (last_command_idx s' = - 1 \<longrightarrow> cstring (command_history s (- 1)) 0 w) \<and>
           (0 \<le> last_command_idx s' \<longrightarrow> cstring (command_history s' (last_command_idx s')) 0 w)"
proof -
  let ?s = "(if e then echo [13] s else s)\<lparr>buf := (buf s)(lastIndex s := 0)\<rparr>"
  have f: "command_history ?s = command_history s" "last_command_idx ?s = last_command_idx s" "buf ?s = (buf s)(lastIndex s := 0)"
    by (cases e; simp add: echo_def)+
  have "history_ok ?s" using assms(1) f by (simp add: history_ok_def)
  moreover have "cstring (buf ?s) 0 w" using assms(3) f(3) by simp
  moreover have "rl_loop t e [13] s = remember ?s" using rl_step_return [of 13 s t e] assms(2) by (cases "remember ?s") simp_all
  ultimately show ?thesis using remember_line [of ?s w] f assms(4) by auto
qed

definition fresh_line :: "reader \<Rightarrow> reader" where
  "fresh_line s = s\<lparr>buf := (\<lambda>k. if k < BUFLEN then 0 else buf s k), commandidx := last_command_idx s + 1, prefix_list_idx := 0, cursor := 0,
    lastIndex := 0, is_run_cmd := False, is_tst_cmd := False\<rparr>"

lemma fresh_line_simps [simp]:
  "buf (fresh_line s) = (\<lambda>k. if k < BUFLEN then 0 else buf s k)" "commandidx (fresh_line s) = last_command_idx s + 1"
  "cursor (fresh_line s) = 0" "lastIndex (fresh_line s) = 0" "command_history (fresh_line s) = command_history s"
  "last_command_idx (fresh_line s) = last_command_idx s" "last_c (fresh_line s) = last_c s" "history_ok (fresh_line s) = history_ok s"
  by (simp_all add: fresh_line_def history_ok_def)

lemma prompt_line_fresh: "prompt_line t e inp s = rl_loop t e inp (fresh_line s)"
  by (simp add: prompt_line_def command_prompt_readline_def fresh_line_def)

lemma typed_simps:
  "command_history (typed cs e s) = command_history s" "last_command_idx (typed cs e s) = last_command_idx s"
  "cursor (typed cs e s) = cursor s + length cs" "lastIndex s = cursor s \<Longrightarrow> lastIndex (typed cs e s) = cursor s + length cs"
  "buf (typed cs e s) = (\<lambda>k. if cursor s \<le> k \<and> k < cursor s + length cs then word_of_int (cs ! (k - cursor s)) else buf s k)"
  "last_c (typed cs e s) = (if cs = [] then last_c s else last cs)" "history_ok (typed cs e s) = history_ok s"
  by (auto simp: typed_def echo_def history_ok_def fun_eq_iff)

lemma prompt_line_plain:
  assumes "\<forall>c \<in> set cs. plain c" "length cs \<le> BUFLEN - 1" "history_ok s"
  shows "\<exists>s'. prompt_line t e (cs @ [13]) s = Some s' \<and> history_ok s' \<and> last_command_idx s \<le> last_command_idx s' \<and>
           cstring (buf s') 0 (typed_line cs) \<and> (\<forall>k \<ge> BUFLEN. buf s' k = buf s k) \<and>
           (last_command_idx s' = - 1 \<longrightarrow> cstring (command_history s (- 1)) 0 (typed_line cs)) \<and>
           (0 \<le> last_command_idx s' \<longrightarrow> cstring (command_history s' (last_command_idx s')) 0 (typed_line cs))"
proof -
  let ?s = "typed cs e (fresh_line s)"
  let ?b = "(buf ?s)(lastIndex ?s := 0)"
  have c: "cstring ?b 0 (typed_line cs)" "\<forall>k \<ge> BUFLEN. ?b k = buf s k"
    using typed_line_nonzero [OF assms(1)] assms(2) by (auto simp: cstring_def typed_line_def typed_simps)
  have "prompt_line t e (cs @ [13]) s = rl_loop t e [13] ?s"
    unfolding prompt_line_fresh by (rule rl_loop_plain) (use assms in simp_all)
  moreover have "history_ok ?s" "cursor ?s \<le> lastIndex ?s" using assms(3) by (simp_all add: typed_simps)
  ultimately show ?thesis using finish_line [of ?s "typed_line cs" t e] c assms(2)
    by (auto simp: typed_simps(1,2) typed_line_def)
qed

lemma recall_last:
  assumes "history_ok s" "0 \<le> last_command_idx s" "cstring (command_history s (last_command_idx s)) 0 w" "length w < BUFLEN"
  shows "\<exists>s'. prompt_line t e [226, 13] s = Some s' \<and> cstring (buf s') 0 w \<and> history_ok s'"
proof -
  let ?n = "last_command_idx s" and ?h = "command_history s"
  obtain s1 where s1: "rl_step t e 226 (fresh_line s) = Some (Inr s1)" "cursor s1 = length w" "lastIndex s1 = length w" "command_history s1 = ?h"
      "last_command_idx s1 = ?n" "buf s1 = (\<lambda>k. if k < length w then ?h ?n k else if k < BUFLEN then 0 else buf s k)"
    using assms(2) strlen_cstring [OF assms(3)]
    by (simp add: rl_step_def Let_def clearandwritecommand_def write_line_def echo_def fun_eq_iff)
  have "cstring ((buf s1)(lastIndex s1 := 0)) 0 w" unfolding s1(3,6) using assms(3) by (auto simp: cstring_def)
  moreover have "history_ok s1" using assms(1) s1(4,5) by (simp add: history_ok_def)
  ultimately show ?thesis using finish_line [of s1 w t e] s1(1-3) assms(4) by (auto simp: prompt_line_fresh)
qed

text \<open>
  A line of printable characters that is typed and ended is the line the prompt gets, and no byte outside its buffer is
  written; at the next prompt the up arrow brings the line back. (The line must differ from what lies below the history in memory when the
  history is empty: the code compares with that.)
\<close>

lemma history_recalls_line:
  assumes "\<forall>c \<in> set cs. plain c" and "length cs \<le> BUFLEN - 1" and "history_ok s"
    and "last_command_idx s = - 1 \<longrightarrow> \<not> cstring (command_history s (- 1)) 0 (typed_line cs)"
  shows "\<exists>s1 s2. prompt_line t e (cs @ [13]) s = Some s1 \<and> cstring (buf s1) 0 (typed_line cs) \<and> (\<forall>k \<ge> BUFLEN. buf s1 k = buf s k) \<and>
           prompt_line t e [226, 13] s1 = Some s2 \<and> cstring (buf s2) 0 (typed_line cs) \<and> history_ok s2"
proof -
  obtain s1 where s1: "prompt_line t e (cs @ [13]) s = Some s1" "history_ok s1" "cstring (buf s1) 0 (typed_line cs)"
      "\<forall>k \<ge> BUFLEN. buf s1 k = buf s k" "last_command_idx s1 = - 1 \<longrightarrow> cstring (command_history s (- 1)) 0 (typed_line cs)"
      "0 \<le> last_command_idx s1 \<longrightarrow> cstring (command_history s1 (last_command_idx s1)) 0 (typed_line cs)" "last_command_idx s \<le> last_command_idx s1"
    using prompt_line_plain [OF assms(1-3)] by blast
  let ?n = "last_command_idx s1" and ?w = "typed_line cs"
  have n: "0 \<le> ?n" using s1(2,5,7) assms(3,4) by (cases "?n = - 1") (auto simp: history_ok_def)
  obtain s2 where "prompt_line t e [226, 13] s1 = Some s2" "cstring (buf s2) 0 ?w" "history_ok s2"
    using recall_last [OF s1(2) n, of ?w t e] s1(6) n assms(2) by (auto simp: typed_line_def)
  then show ?thesis using s1 by blast
qed

definition sample_reader :: reader where
  "sample_reader = \<lparr>last_command_idx = - 1, command_history = (\<lambda>_ _. 0), PrefixList = (\<lambda>_ _. 0), buf = (\<lambda>_. 7), cursor = 0, lastIndex = 0,
     commandidx = 0, prefix_list_idx = 0, prefix_list_size = 0, last_c = 0, is_run_cmd = False, is_tst_cmd = False, shown_chars = []\<rparr>"

lemma sample_reader_ok: "history_ok sample_reader"
  by (auto simp: sample_reader_def history_ok_def intro: exI [of _ "[]"])

lemma history_recalls_line_witness:
  "\<exists>s1 s2. prompt_line \<lparr>command_names = [], program_names = [], test_names = []\<rparr> True ([104, 105] @ [13]) sample_reader = Some s1 \<and>
     cstring (buf s1) 0 [104, 105] \<and>
     prompt_line \<lparr>command_names = [], program_names = [], test_names = []\<rparr> True [226, 13] s1 = Some s2 \<and> cstring (buf s2) 0 [104, 105]"
proof -
  have t: "typed_line [104, 105] = [104, 105]" by (simp add: typed_line_def)
  have "\<not> cstring (command_history sample_reader (- 1)) 0 [104, 105]" by (auto simp: sample_reader_def cstring_Cons)
  then show ?thesis
    using history_recalls_line [of "[104, 105]" sample_reader "\<lparr>command_names = [], program_names = [], test_names = []\<rparr>" True, unfolded t]
      sample_reader_ok by simp blast
qed

section \<open>Past the end of the buffer\<close>

text \<open>A character typed after a left arrow overwrites one, and yet the length of the line grows.\<close>

lemma overtype_grows:
  assumes "cursor s = 0"
  shows "\<exists>s'. rl_loop t e (concat (replicate n [97, 228]) @ rest) s = rl_loop t e rest s' \<and> cursor s' = 0 \<and> lastIndex s' = lastIndex s + n \<and>
           command_history s' = command_history s \<and> last_command_idx s' = last_command_idx s \<and> (\<forall>k > 0. buf s' k = buf s k)"
  using assms
proof (induction n arbitrary: s)
  case 0
  then show ?case by auto
next
  case (Suc n)
  obtain s1 where s1: "rl_step t e 97 s = Some (Inr s1)" "cursor s1 = 1" "lastIndex s1 = Suc (lastIndex s)"
      "command_history s1 = command_history s" "last_command_idx s1 = last_command_idx s" "\<forall>k > 0. buf s1 k = buf s k"
    using Suc.prems by (simp add: rl_step_def Let_def echo_def)
  obtain s2 where s2: "rl_step t e 228 s1 = Some (Inr s2)" "cursor s2 = 0" "lastIndex s2 = Suc (lastIndex s)"
      "command_history s2 = command_history s" "last_command_idx s2 = last_command_idx s" "\<forall>k > 0. buf s2 k = buf s k"
    using s1(2-6) by (simp add: rl_step_def Let_def echo_def)
  obtain s3 where "rl_loop t e (concat (replicate n [97, 228]) @ rest) s2 = rl_loop t e rest s3" "cursor s3 = 0" "lastIndex s3 = lastIndex s2 + n"
      "command_history s3 = command_history s2" "last_command_idx s3 = last_command_idx s2" "\<forall>k > 0. buf s3 k = buf s2 k"
    using Suc.IH [OF s2(2)] by blast
  then show ?case using s1(1) s2 by (intro exI [of _ s3]) simp
qed

text \<open>
  The length of the line is not bounded by the buffer: a character and a left arrow, typed \<open>n\<close> times, and the end of the line store
  a zero at offset \<open>n\<close> of the buffer of 1024 bytes, whatever \<open>n\<close> is.
\<close>

lemma line_editor_overruns:
  assumes "history_ok s" and "0 < n"
  shows "\<exists>s'. prompt_line t e (concat (replicate n [97, 228]) @ [13]) s = Some s' \<and> buf s' n = 0 \<and> (\<forall>k \<ge> BUFLEN. k \<noteq> n \<longrightarrow> buf s' k = buf s k)"
proof -
  obtain s1 where s1: "rl_loop t e (concat (replicate n [97, 228]) @ [13]) (fresh_line s) = rl_loop t e [13] s1" "cursor s1 = 0" "lastIndex s1 = n"
      "command_history s1 = command_history s" "last_command_idx s1 = last_command_idx s" "\<forall>k > 0. buf s1 k = buf (fresh_line s) k"
    using overtype_grows [of "fresh_line s" t e n "[13]"] by auto
  have h: "history_ok s1" using assms(1) s1(4,5) by (simp add: history_ok_def)
  let ?b = "(buf s1)(n := 0)"
  define w where "w = takeWhile (\<lambda>x. x \<noteq> 0) (map ?b [0..<n])"
  have l: "length w \<le> n" using length_takeWhile_le [of _ "map ?b [0..<n]"] by (simp add: w_def)
  have "length w \<le> 1"
  proof (rule ccontr)
    assume "\<not> length w \<le> 1"
    then have "1 < length w" by simp
    then have "w ! 1 \<noteq> 0" "w ! 1 = ?b 1" using l takeWhile_nth [of 1 "\<lambda>x. x \<noteq> 0" "map ?b [0..<n]"] set_takeWhileD [of "w ! 1"]
      unfolding w_def by (metis nth_mem, simp)
    then show False using s1(6) \<open>1 < length w\<close> l by simp
  qed
  then have short: "length w < BUFLEN" by simp
  have "cstring ?b 0 w" unfolding cstring_def
  proof (intro conjI allI impI)
    show "0 \<notin> set w" using set_takeWhileD unfolding w_def by fastforce
    show "?b (0 + i) = w ! i" if "i < length w" for i
      using that l takeWhile_nth [of i "\<lambda>x. x \<noteq> 0" "map ?b [0..<n]"] unfolding w_def by simp
    show "?b (0 + length w) = 0"
      using l nth_length_takeWhile [of "\<lambda>x. x \<noteq> 0" "map ?b [0..<n]"] unfolding w_def by (cases "length w = n") (auto simp: w_def)
  qed
  then obtain s' where "rl_loop t e [13] s1 = Some s'" "buf s' = ?b" using finish_line [OF h, of w t e] s1(2,3) short by auto
  then show ?thesis using s1(1,6) by (auto simp: prompt_line_fresh)
qed

lemma line_editor_overruns_witness:
  "\<exists>s'. prompt_line \<lparr>command_names = [], program_names = [], test_names = []\<rparr> True (concat (replicate 1500 [97, 228]) @ [13]) sample_reader =
     Some s' \<and> buf s' 1500 \<noteq> buf sample_reader 1500"
  using line_editor_overruns [OF sample_reader_ok, of 1500 "\<lparr>command_names = [], program_names = [], test_names = []\<rparr>" True]
  by (auto simp: sample_reader_def)

section \<open>Completion\<close>

lemma strsplit_word:
  assumes "cstring m p w" "w \<noteq> []" "set w \<inter> set sp = {}"
  shows "strsplit sp p m = Some (True, [p], m)"
proof -
  have t: "takeWhile (\<lambda>c. c \<in> set sp) w = []" "takeWhile (\<lambda>c. c \<notin> set sp) w = w" "m p \<noteq> 0"
    using assms by (cases w; auto simp: takeWhile_eq_all_conv cstring_Cons)+
  have e: "cstring m (p + length w) []" using assms(1) by (simp add: cstring_def)
  show ?thesis unfolding strsplit_def
    by (subst split_loop.simps, simp add: trim_loop_eq [OF assms(1)] t scan_loop_eq [OF assms(1)] MAX_ARGUMENTS_def,
        subst split_loop.simps, simp add: trim_loop_eq [OF e] e [unfolded cstring_def, simplified])
qed

text \<open>A match that is a string of at most 1023 bytes, the first in the list.\<close>

lemma show_first_match:
  assumes "ms \<noteq> []" "0 \<notin> set (hd ms)" "length (hd ms) < BUFLEN" "\<forall>k \<ge> length (hd ms). k < BUFLEN \<longrightarrow> buf s k = 0"
  shows "\<exists>s'. show_match n (fill_prefix_list ms s) = Some s' \<and> cstring (buf s') 0 (hd ms) \<and> cursor s' = length (hd ms) \<and>
           lastIndex s' = length (hd ms) \<and> command_history s' = command_history s \<and> last_command_idx s' = last_command_idx s \<and>
           (\<forall>k \<ge> length (hd ms). buf s' k = buf s k)"
proof -
  let ?w = "hd ms" and ?f = "fill_prefix_list ms s"
  have f: "PrefixList ?f 0 = bytes_at ?w (\<lambda>k. if k < 1024 then 0 else PrefixList s 0 k)" "prefix_list_size ?f > 0" "buf ?f = buf s"
    using assms(1) by (simp_all add: fill_prefix_list_def hd_conv_nth)
  have "string_of (PrefixList ?f 0) 0 = Some ?w"
    by (rule string_of_cstring) (use assms(2,3) f(1) in \<open>simp add: cstring_bytes_at\<close>)
  moreover have c: "cstring (bytes_at ?w (buf s)) 0 ?w" using assms(2,3,4) by (simp add: cstring_bytes_at)
  ultimately show ?thesis using f strlen_cstring [OF c]
    by (simp add: show_match_def Let_def echo_def) (simp add: fill_prefix_list_def bytes_at_def cstring_def)
qed

lemma find_filter: "find P xs = Some y \<Longrightarrow> filter P xs \<noteq> [] \<and> hd (filter P xs) = y \<and> P y"
  by (induction xs) (auto split: if_splits)

lemma byte_of_plain: "plain c \<Longrightarrow> uint (word_of_int c :: byte) = c"
  by (simp add: uint_word_of_int)

lemma typed_line_no_space:
  assumes "\<forall>c \<in> set cs. 32 < c \<and> c < 127"
  shows "set (typed_line cs) \<inter> set WHITESPACE = {}"
proof -
  have "(word_of_int c :: byte) \<notin> set WHITESPACE" if "32 < c" "c < 127" for c
    using byte_of_plain [of c] that by (auto simp: WHITESPACE_def)
  then show ?thesis using assms by (auto simp: typed_line_def)
qed

text \<open>A first Tab after a single word.\<close>

lemma first_tab_word:
  assumes "cstring (buf s) 0 w" "w \<noteq> []" "set w \<inter> set WHITESPACE = {}" "last_c s \<noteq> 255"
  shows "first_tab t s =
    map_option (Pair True) (show_match (length w) (fill_prefix_list (matches [] w (command_names t)) ((clear_prefix_list s)\<lparr>prefix_list_size := 0\<rparr>)))"
proof -
  have b: "buf (clear_prefix_list s) = buf s" "last_c (clear_prefix_list s) = last_c s" by (simp_all add: clear_prefix_list_def)
  have "buf s (length w - 1) = last w" using assms(1,2) by (simp add: cstring_def last_conv_nth)
  then have "buf s (length w - 1) \<noteq> 32" using assms(3) last_in_set [OF assms(2)] by (metis IntI WHITESPACE_def empty_iff list.set_intros)
  then show ?thesis using assms(2,4) strlen_cstring [OF assms(1)] strsplit_word [OF assms(1-3)] string_of_cstring [OF assms(1)]
    by (simp add: first_tab_def complete_command_def Let_def b)
qed

text \<open>
  The beginning of a command, typed and followed by Tab, becomes the first command of the table that begins with it, and this is the
  line the prompt gets and the history keeps.
\<close>

lemma tab_completes_command:
  assumes "cs \<noteq> []" and "\<forall>c \<in> set cs. 32 < c \<and> c < 127" and "length cs \<le> BUFLEN - 1" and "history_ok s"
    and "find (\<lambda>name. take (length cs) name = typed_line cs) (command_names t) = Some name" and "0 \<notin> set name" and "length name < BUFLEN"
  shows "\<exists>s'. prompt_line t e (cs @ [9, 13]) s = Some s' \<and> cstring (buf s') 0 name \<and> (\<forall>k \<ge> BUFLEN. buf s' k = buf s k) \<and> history_ok s' \<and>
           (last_command_idx s' = - 1 \<longrightarrow> cstring (command_history s (- 1)) 0 name) \<and>
           (0 \<le> last_command_idx s' \<longrightarrow> cstring (command_history s' (last_command_idx s')) 0 name)"
proof -
  let ?s = "typed cs e (fresh_line s)" and ?w = "typed_line cs"
  let ?u = "?s\<lparr>lastIndex := max (lastIndex ?s) (cursor ?s)\<rparr>"
  let ?c = "(clear_prefix_list ?u)\<lparr>prefix_list_size := 0\<rparr>"
  let ?ms = "matches [] ?w (command_names t)"
  have pl: "\<forall>c \<in> set cs. plain c" using assms(2) by auto
  have start: "prompt_line t e (cs @ [9, 13]) s = rl_loop t e [9, 13] ?s"
    unfolding prompt_line_fresh by (rule rl_loop_plain) (use assms(3) pl in simp_all)
  have w: "cstring (buf ?u) 0 ?w" "?w \<noteq> []" "length ?w = length cs"
    using typed_line_nonzero [OF pl] assms(1,3) by (auto simp: cstring_def typed_line_def typed_simps)
  have lc: "last_c ?s \<noteq> 9" "last_c ?u \<noteq> 255" using assms(1) bspec [OF assms(2) last_in_set [OF assms(1)]] by (simp_all add: typed_simps)
  have ms: "?ms \<noteq> []" "hd ?ms = name" "length cs \<le> length name"
    using find_filter [OF assms(5)] w(3) by (auto simp: matches_def dest: arg_cong [where f = length])
  have "\<forall>k \<ge> length (hd ?ms). k < BUFLEN \<longrightarrow> buf ?c k = 0"
    using ms by (auto simp: typed_simps clear_prefix_list_def)
  then obtain s1 where s1: "show_match (length ?w) (fill_prefix_list ?ms ?c) = Some s1" "cstring (buf s1) 0 name" "cursor s1 = length name"
      "lastIndex s1 = length name" "command_history s1 = command_history s" "last_command_idx s1 = last_command_idx s" "\<forall>k \<ge> length name. buf s1 k = buf ?c k"
    using show_first_match [of ?ms ?c "length ?w"] ms assms(6,7) by (auto simp: typed_simps clear_prefix_list_def)
  let ?s1 = "s1\<lparr>last_c := 9\<rparr>"
  have "rl_step t e 9 ?s = Some (Inr ?s1)"
    using lc(1) s1(1) first_tab_word [OF w(1,2) typed_line_no_space [OF assms(2)] lc(2), of t] by (simp add: rl_step_def Let_def)
  then have "prompt_line t e (cs @ [9, 13]) s = rl_loop t e [13] ?s1" using start by simp
  moreover have "history_ok ?s1" using assms(4) s1(5,6) by (simp add: history_ok_def)
  moreover have "(buf ?s1)(lastIndex ?s1 := 0) = buf s1" using s1(2,4) by (auto simp: cstring_def)
  moreover have "\<forall>k \<ge> BUFLEN. buf s1 k = buf s k" using s1(7) assms(3,7) by (simp add: typed_simps clear_prefix_list_def)
  ultimately show ?thesis using finish_line [of ?s1 name t e] s1(2-6) assms(7) by auto
qed

lemma tab_completes_command_witness:
  "\<exists>s'. prompt_line \<lparr>command_names = [[104, 101, 108, 112], [107, 105]], program_names = [], test_names = []\<rparr> True ([107] @ [9, 13]) sample_reader =
     Some s' \<and> cstring (buf s') 0 [107, 105]"
  using tab_completes_command [of "[107]" sample_reader "\<lparr>command_names = [[104, 101, 108, 112], [107, 105]], program_names = [], test_names = []\<rparr>"
      "[107, 105]" True] sample_reader_ok by (auto simp: typed_line_def)

end
