(* ===== verification/Commands.thy ===== *)
theory Commands
  imports System_Calls Command_Prompt Boot_Memory "HOL-Library.Sublist"
begin

text \<open>
  The commands of the kernel prompt (\<^verbatim>\<open>src/kern/cmd/commands.c\<close>) on the state of the whole machine, their table, and a
  command line from its characters to the command it runs. A command that is given too few words reads a pointer that
  \<^verbatim>\<open>strsplit\<close> has set to \<^verbatim>\<open>NULL\<close>, or none at all: the table has the numbers of arguments, and nothing checks them.
\<close>

unbundle bit_operations_syntax

section \<open>State and output\<close>

text \<open>
  The machine with the bytes of the physical memory, the memory the words of the command line lie in,
  what is known of the programs and of the kernel's image, and the characters typed at each call of \<^verbatim>\<open>readline\<close>.
\<close>

record shell =
  mach :: machine
  ram :: memory
  line :: memory
  ptr_UserPrograms :: "(string \<times> string) list"   \<comment> \<open>name and description\<close>
  start_of_kernel :: nat
  end_of_kernel_code_section :: nat
  start_of_uninitialized_data_section :: nat
  end_of_kernel :: nat
  numOfKheapVACalls :: int
  chkstatus :: nat
  str_buf :: memory
  answers :: "int list list"

text \<open>What a command returns, or \<open>None\<close> if it does not come back to the prompt's loop.\<close>

type_synonym cmd_answer = "(int option \<times> shell) result"
type_synonym command = "nat list \<Rightarrow> shell \<Rightarrow> cmd_answer"

abbreviation NL :: string where "NL \<equiv> [CHR 0x0A]"
abbreviation TAB :: string where "TAB \<equiv> [CHR 0x09]"

abbreviation finished :: "shell \<Rightarrow> cmd_answer" where
  "finished s \<equiv> Inr (Some 0, s)"

abbreviation not_implemented :: "'a result" where
  "not_implemented \<equiv> Inl (Panic ''Function is not implemented yet!'')"

definition say :: "(32 word \<Rightarrow> byte list) \<Rightarrow> 32 word list \<Rightarrow> string \<Rightarrow> shell \<Rightarrow> shell result" where
  "say strs args fmt s = andThen (kprint strs args fmt (mach s)) (\<lambda>m. Inr (s\<lparr>mach := m\<rparr>))"

abbreviation print :: "string \<Rightarrow> shell \<Rightarrow> shell result" where
  "print txt s \<equiv> say (\<lambda>_. []) [] txt s"

definition tell :: "string \<Rightarrow> shell \<Rightarrow> cmd_answer" where
  "tell txt s = andThen (print (txt @ NL) s) (\<lambda>s. finished s)"

definition run_sched :: "(sched_st \<Rightarrow> ('a \<times> sched_st) result) \<Rightarrow> shell \<Rightarrow> ('a \<times> shell) result" where
  "run_sched f s = andThen (with_sched f (mach s)) (\<lambda>(x, m). Inr (x, s\<lparr>mach := m\<rparr>))"

definition upd_vm :: "(vm \<Rightarrow> vm) \<Rightarrow> shell \<Rightarrow> shell" where
  "upd_vm f s = s\<lparr>mach := set_vm (f (vm_of (mach s))) (mach s)\<rparr>"

abbreviation kmem_of :: "shell \<Rightarrow> kmem" where
  "kmem_of s \<equiv> km (vm_of (mach s))"

definition run_kmem :: "(kmem \<Rightarrow> ('a \<times> kmem) result) \<Rightarrow> shell \<Rightarrow> ('a \<times> shell) result" where
  "run_kmem f s = andThen (f (kmem_of s)) (\<lambda>(x, k). Inr (x, upd_vm (\<lambda>v. v\<lparr>km := k\<rparr>) s))"

section \<open>Arguments\<close>

definition arg :: "nat list \<Rightarrow> nat \<Rightarrow> nat result" where
  "arg arguments i =
     (if i < length arguments then Inr (arguments ! i)
      else if i = length arguments then Inl (Cpu_trap ''arguments[i] is NULL'')
      else Inl (Corrupted ''arguments[i]''))"

definition arg_num :: "int \<Rightarrow> nat list \<Rightarrow> nat \<Rightarrow> shell \<Rightarrow> int result" where
  "arg_num base arguments i s =
     andThen (arg arguments i) (\<lambda>p. (case strtol (line s) p base of None \<Rightarrow> Inl Spins | Some (v, _) \<Rightarrow> Inr v))"

definition arg_bytes :: "nat list \<Rightarrow> nat \<Rightarrow> shell \<Rightarrow> byte list result" where
  "arg_bytes arguments i s =
     andThen (arg arguments i) (\<lambda>p.
     (case strlen (line s) p of None \<Rightarrow> Inl Spins | Some n \<Rightarrow> Inr (map (\<lambda>k. line s (p + k)) [0..<n])))"

definition arg_char :: "nat list \<Rightarrow> nat \<Rightarrow> shell \<Rightarrow> byte result" where
  "arg_char arguments i s = andThen (arg arguments i) (\<lambda>p. Inr (line s p))"

definition uint8 :: "int \<Rightarrow> nat" where
  "uint8 i = nat (i mod 2 ^ 8)"

section \<open>Bytes of memory\<close>

text \<open>
  What the processor does with an address under a page directory, in the kernel and with \<^verbatim>\<open>CR0_WP\<close> set: the physical address, or a
  fault, which in the prompt has no process to be handled for. A page table is where \<open>get_page_table\<close> finds it.
\<close>

definition translate :: "bool \<Rightarrow> nat \<Rightarrow> nat \<Rightarrow> kmem \<Rightarrow> nat result" where
  "translate wr dir va k =
     (let pde = directories k dir (PDX va) in
      if pde AND PERM_PRESENT = 0 then Inl (Cpu_trap ''page fault'')
      else
        andThen (get_page_table dir va k) (\<lambda>(_, t).
        (let pte = tables k t (PTX va) in
         if pte AND PERM_PRESENT = 0 \<or> wr \<and> pde AND pte AND PERM_WRITEABLE = 0 then Inl (Cpu_trap ''page fault'')
         else Inr (EXTRACT_ADDRESS pte + va mod PAGE_SIZE))))"

definition read_byte :: "nat \<Rightarrow> nat \<Rightarrow> shell \<Rightarrow> byte result" where
  "read_byte dir va s = andThen (translate False dir va (kmem_of s)) (\<lambda>pa. Inr (ram s pa))"

definition write_byte :: "nat \<Rightarrow> nat \<Rightarrow> byte \<Rightarrow> shell \<Rightarrow> shell result" where
  "write_byte dir va b s = andThen (translate True dir va (kmem_of s)) (\<lambda>pa. Inr (s\<lparr>ram := (ram s)(pa := b)\<rparr>))"

fun write_bytes :: "nat \<Rightarrow> nat \<Rightarrow> byte list \<Rightarrow> shell \<Rightarrow> shell result" where
  "write_bytes dir va [] s = Inr s"
| "write_bytes dir va (b # bs) s = andThen (write_byte dir va b s) (write_bytes dir (add32 va 1) bs)"

definition find_env :: "int \<Rightarrow> shell \<Rightarrow> nat option result" where
  "find_env envId s =
     andThen (envid2env envId False (msched (mach s))) (\<lambda>r. Inr (case r of Some (Some e) \<Rightarrow> Some e | _ \<Rightarrow> None))"

definition directory_of :: "nat \<Rightarrow> shell \<Rightarrow> nat" where
  "directory_of e s =
     env_page_directory (if cpu_proc (msched (mach s)) = Some e then up (vm_of (mach s)) else others (mach s) e)"

abbreviation kernel_dir :: "shell \<Rightarrow> nat" where
  "kernel_dir s \<equiv> ptr_page_directory (kmem_of s)"

section \<open>The table\<close>

text \<open>Name, description and number of arguments; a command is called by its place in the table.\<close>

definition commands :: "(string \<times> string \<times> int) list" where
  "commands =
    [(''help'', ''Display this list of commands'', 0),
     (''kernel_info'', ''Display information about the kernel'', 0),
     (''ikb'', ''Lab3.Example: shows mapping info of KERNEL_BASE'', 0),
     (''dkb'', ''Lab3.Example: delete the mapping of KERNEL_BASE'', 0),
     (''meminfo'', ''display info about RAM'', 0),
     (''sched?'', ''print current scheduler algorithm'', 0),
     (''runall'', ''run all loaded programs'', 0),
     (''printall'', ''print all loaded programs'', 0),
     (''killall'', ''kill all environments in the system'', 0),
     (''fifo'', ''set replacement algorithm to FIFO'', 0),
     (''clock'', ''set replacement algorithm to CLOCK'', 0),
     (''modclock'', ''set replacement algorithm to modified CLOCK'', 0),
     (''optimal'', ''set replacement algorithm to OPTIMAL'', 0),
     (''rep?'', ''print current replacement algorithm'', 0),
     (''uhfirstfit'', ''set USER heap placement strategy to FIRST FIT'', 0),
     (''uhbestfit'', ''set USER heap placement strategy to BEST FIT'', 0),
     (''uhnextfit'', ''set USER heap placement strategy to NEXT FIT'', 0),
     (''uhworstfit'', ''set USER heap placement strategy to WORST FIT'', 0),
     (''uhcustomfit'', ''set USER heap placement strategy to CUSTOM FIT'', 0),
     (''uheap?'', ''print current USER heap placement strategy'', 0),
     (''khcontalloc'', ''set KERNEL heap placement strategy to CONTINUOUS ALLOCATION'', 0),
     (''khfirstfit'', ''set KERNEL heap placement strategy to FIRST FIT'', 0),
     (''khbestfit'', ''set KERNEL heap placement strategy to BEST FIT'', 0),
     (''khnextfit'', ''set KERNEL heap placement strategy to NEXT FIT'', 0),
     (''khworstfit'', ''set KERNEL heap placement strategy to WORST FIT'', 0),
     (''khcustomfit'', ''set KERNEL heap placement strategy to CUSTOM FIT'', 0),
     (''kheap?'', ''print current KERNEL heap placement strategy'', 0),
     (''nobuff'', ''disable buffering'', 0),
     (''buff'', ''enable buffering'', 0),
     (''nomodbuff'', ''disable modified buffer'', 0),
     (''modbuff'', ''enable modified buffer'', 0),
     (''modbufflength?'', ''get modified buffer length'', 0),
     (''cls'', ''clear screen'', 0),
     (''rm'', ''Lab2.Example: reads one byte from specific physical location'', 1),
     (''gpt'', ''Lab3.Example: get/create page table at the given VA'', 1),
     (''nr'', ''Lab4.Example: show the number of references of the physical frame'', 1),
     (''fp'', ''Lab4.Example: free one page in the user space at the given virtual address'', 1),
     (''p2v'', ''Lab5.HandsOn: find virtual address that's corresponding to the given physical address'', 1),
     (''v2p'', ''Lab5.HandsOn: find physical address that's corresponding to the given virtual address'', 1),
     (''sm'', ''Lab5.HandsOn: display the mapping info for the given virtual address'', 1),
     (''ft'', ''Lab6.Example: free (remove) the page table at the given VA'', 1),
     (''kill'', ''kill the given environment (by its ID) from the system'', 1),
     (''schedRR'', ''switch the scheduler to RR with given quantum'', 1),
     (''schedTest'', ''Used for turning on/off the scheduler test'', 1),
     (''lru'', ''set replacement algorithm to LRU'', 1),
     (''modbufflength'', ''set the length of the modified buffer'', 1),
     (''setStarvThr'', ''set the the starvation threshold of priority scheduler'', 1),
     (''wm'', ''Lab2.Example: writes one byte to specific physical location'', 2),
     (''shr'', ''Lab3.Example: share one page on another'', 2),
     (''asp'', ''Lab5.HandsOn: allocate shared page with the given two virtual addresses'', 2),
     (''cfp'', ''Lab5.HandsOn: count the number of free pages in the given range'', 2),
     (''rut'', ''remove a page table at the given VA from the given user environment ID'', 2),
     (''schedBSD'', ''switch the scheduler to BSD with given # queues & quantum'', 2),
     (''setPri'', ''set the priority of the given environment (by its ID)'', 2),
     (''nclock'', ''set replacement algorithm to Nth chance CLOCK (type=1: NORMAL Ver. type=2: MODIFIED Ver.'', 2),
     (''rub'', ''reads block of bytes from specific location in given environment'', 3),
     (''schedPRIRR'', ''switch the scheduler to PRIORITY RR with given #priorities, quantum and starvation threshold'', 3),
     (''ap'', ''Lab4.Example: allocate one page [if not exists] in the user space and optionally initialize it by 0s'', - 1),
     (''sp'', ''Lab5.HandsOn: set the desired permission to a given virtual address page'', - 1),
     (''sr'', ''Lab5.HandsOn: shares the physical frames of the first virtual range with the 2nd virtual range'', - 1),
     (''run'', ''runs a single user program'', - 1),
     (''wum'', ''writes one byte to specific location in kernel or a given environment'', - 1),
     (''rum'', ''reads one byte from specific location in kernel or a given environment'', - 1),
     (''aup'', ''allocate a user page with the given r/w permission'', - 1),
     (''schedMLFQ'', ''switch the scheduler to MLFQ with given # queues & quantums'', - 1),
     (''load'', ''load a single user program to mem with status = NEW'', - 1),
     (''tst'', ''run the given test'', - 1)]"

section \<open>Information and memory\<close>

fun help_commands :: "(string \<times> string \<times> int) list \<Rightarrow> shell \<Rightarrow> shell result" where
  "help_commands [] s = Inr s"
| "help_commands ((name, description, _) # cs) s =
     andThen (say (\<lambda>p. bytes_of (if p = 1 then name else description)) [1, 2] (''%s - %s'' @ NL) s) (help_commands cs)"

fun help_programs :: "(string \<times> string) list \<Rightarrow> shell \<Rightarrow> shell result" where
  "help_programs [] s = Inr s"
| "help_programs ((name, desc) # ps) s =
     andThen (say (\<lambda>p. bytes_of (if p = 1 then name else desc)) [1, 2] (''run %s - %s [User Program]'' @ NL) s) (help_programs ps)"

definition command_help :: command where
  "command_help arguments s =
     andThen (help_commands commands s) (\<lambda>s.
     andThen (print (''-------------------'' @ NL) s) (\<lambda>s.
     andThen (help_programs (ptr_UserPrograms s) s) (\<lambda>s. finished s)))"

text \<open>An address of the kernel's image and the physical address below it.\<close>

definition virt_phys :: "nat \<Rightarrow> 32 word list" where
  "virt_phys a = [word_of_nat a, word_of_nat a - word_of_nat KERNEL_BASE]"

definition command_kernel_info :: command where
  "command_kernel_info arguments s =
     andThen (print (''Special kernel symbols:'' @ NL) s) (\<lambda>s.
     andThen (say (\<lambda>_. []) (virt_phys (start_of_kernel s)) (''  Start Address of the kernel '' @ TAB @ TAB @ TAB @ ''%08x (virt)  %08x (phys)'' @ NL) s) (\<lambda>s.
     andThen (say (\<lambda>_. []) (virt_phys (end_of_kernel_code_section s))
                (''  End address of kernel code  '' @ TAB @ TAB @ TAB @ ''%08x (virt)  %08x (phys)'' @ NL) s) (\<lambda>s.
     andThen (say (\<lambda>_. []) (virt_phys (start_of_uninitialized_data_section s))
                (''  Start addr. of uninitialized data section '' @ TAB @ ''%08x (virt)  %08x (phys)'' @ NL) s) (\<lambda>s.
     andThen (say (\<lambda>_. []) (virt_phys (end_of_kernel s)) (''  End address of the kernel   '' @ TAB @ TAB @ TAB @ ''%08x (virt)  %08x (phys)'' @ NL) s) (\<lambda>s.
     andThen (say (\<lambda>_. []) [word_of_int (int32 (int (end_of_kernel s) - int (start_of_kernel s) + 1023) sdiv 1024)]
                (''Kernel executable memory footprint: %d KB'' @ NL) s) (\<lambda>s. finished s))))))"

definition command_writemem_k :: command where
  "command_writemem_k arguments s =
     andThen (arg_num 16 arguments 1 s) (\<lambda>a.
     andThen (arg_bytes arguments 2 s) (\<lambda>bs.
     andThen (write_bytes (kernel_dir s) (add32 (uint32 a) KERNEL_BASE) bs s) (\<lambda>s. finished s)))"

definition command_readmem_k :: command where
  "command_readmem_k arguments s =
     andThen (arg_num 16 arguments 1 s) (\<lambda>a.
     (let p = add32 (uint32 a) KERNEL_BASE in
      andThen (read_byte (kernel_dir s) p s) (\<lambda>b.
      andThen (say (\<lambda>_. []) [word_of_nat p, ucast b] (''value at virtual address %x = %c'' @ NL) s) (\<lambda>s. finished s))))"

definition command_get_page_table :: command where
  "command_get_page_table arguments s = not_implemented"

definition command_kernel_base_info :: command where
  "command_kernel_base_info arguments s = not_implemented"

definition command_del_kernel_base :: command where
  "command_del_kernel_base arguments s = not_implemented"

definition command_share_page :: command where
  "command_share_page arguments s = not_implemented"

definition command_nr :: command where
  "command_nr arguments s =
     andThen (arg_num 16 arguments 1 s) (\<lambda>pa.
     andThen (num_of_references (uint32 pa) (kmem_of s)) (\<lambda>n.
     andThen (say (\<lambda>_. []) [word_of_int pa, word_of_nat n] (''Num of ref's @ pa %x = %d'' @ NL) s) (\<lambda>s. finished s)))"

text \<open>With a third word that begins with \<^verbatim>\<open>0\<close> the bytes from the address on, not from the start of its page, are cleared.\<close>

definition command_ap :: command where
  "command_ap arguments s =
     andThen (arg_num 16 arguments 1 s) (\<lambda>va.
     andThen (if length arguments = 3 then andThen (arg_char arguments 2 s) (\<lambda>c. Inr (c = 48)) else Inr False) (\<lambda>set_to_zero.
     andThen (run_kmem (alloc_page create_page_table (kernel_dir s) (uint32 va) (PERM_USER OR PERM_WRITEABLE)) s) (\<lambda>(ret, s).
     if ret = 1 then andThen (say (\<lambda>_. []) [word_of_int va] (''Page @ va %x already exists!'' @ NL) s) (\<lambda>s. finished s)
     else
       andThen (if set_to_zero then write_bytes (kernel_dir s) (uint32 va) (replicate PAGE_SIZE 0) s else Inr s) (\<lambda>s.
       andThen (say (\<lambda>_. []) [word_of_int va] (''New page is allocated @ va %x'' @ NL) s) (\<lambda>s.
       if set_to_zero then tell ''and initialized by ZERO'' s else finished s)))))"

definition command_fp :: command where
  "command_fp arguments s =
     andThen (arg_num 16 arguments 1 s) (\<lambda>va.
     andThen (run_kmem (unit_of (unmap_frame (kernel_dir s) (uint32 va))) s) (\<lambda>(_, s). finished s))"

text \<open>The copy of the kernel's directory that is made before the routine is called that is not there.\<close>

definition clone_kern_dir :: "kmem \<Rightarrow> (nat \<times> kmem) result" where
  "clone_kern_dir k =
     andThen (allocate_frame k) (\<lambda>(f, k).
     andThen (STATIC_KERNEL_VIRTUAL_ADDRESS (to_physical_address f) k) (\<lambda>dir.
     Inr (dir, k\<lparr>directories := (directories k)(dir := (\<lambda>i. if i < 1024 then directories k (ptr_page_directory k) i else directories k dir i))\<rparr>)))"

definition command_cfp :: command where
  "command_cfp arguments s =
     andThen (run_kmem clone_kern_dir s) (\<lambda>(dir, s).
     andThen (arg_num 16 arguments 1 s) (\<lambda>va1.
     andThen (arg_num 16 arguments 2 s) (\<lambda>va2.
     andThen (calculate_free_space dir (uint32 va1) (uint32 va2) (vm_of (mach s))) (\<lambda>n.
     andThen (say (\<lambda>_. []) [word_of_int va1, word_of_int va2, word_of_nat n] (''Num of free pages in va range [%x, %x) = %d'' @ NL) s) (\<lambda>s.
     finished s)))))"

abbreviation E_NO_MEM :: int where "E_NO_MEM \<equiv> - 4"

definition alloc_shared_page :: "nat \<Rightarrow> nat \<Rightarrow> nat \<Rightarrow> nat \<Rightarrow> u32 \<Rightarrow> kmem \<Rightarrow> (int \<times> kmem) result" where
  "alloc_shared_page page_dir1 va1 page_dir2 va2 perms k = not_implemented"

definition virtual_to_physical :: "nat \<Rightarrow> nat \<Rightarrow> kmem \<Rightarrow> nat result" where
  "virtual_to_physical directory va k = not_implemented"

definition physical_to_virtual :: "nat \<Rightarrow> nat \<Rightarrow> kmem \<Rightarrow> nat result" where
  "physical_to_virtual directory pa k = not_implemented"

definition command_asp :: command where
  "command_asp arguments s =
     andThen (run_kmem clone_kern_dir s) (\<lambda>(dir, s).
     andThen (arg_num 16 arguments 1 s) (\<lambda>va1.
     andThen (arg_num 16 arguments 2 s) (\<lambda>va2.
     andThen (run_kmem (alloc_shared_page dir (uint32 va1) dir (uint32 va2) (PERM_USER OR PERM_WRITEABLE)) s) (\<lambda>(ret, s).
     if ret = E_NO_MEM then tell ''No enough memory!'' s else finished s))))"

definition command_shmp :: command where
  "command_shmp arguments s = not_implemented"

definition command_scp :: command where
  "command_scp arguments s = not_implemented"

definition command_shrr :: command where
  "command_shrr arguments s = not_implemented"

definition command_v2p :: command where
  "command_v2p arguments s =
     andThen (arg_num 16 arguments 1 s) (\<lambda>va.
     andThen (virtual_to_physical (kernel_dir s) (uint32 va) (kmem_of s)) (\<lambda>pa.
     if pa = 0xFFFFFFFF then tell ''NOT FOUND'' s
     else andThen (say (\<lambda>_. []) [word_of_int va, word_of_nat pa] (''PA of VA %x = %x'' @ NL) s) (\<lambda>s. finished s)))"

definition command_p2v :: command where
  "command_p2v arguments s =
     andThen (arg_num 16 arguments 1 s) (\<lambda>pa.
     andThen (physical_to_virtual (kernel_dir s) (uint32 pa) (kmem_of s)) (\<lambda>va.
     if va = 0xFFFFFFFF then tell ''NOT FOUND'' s
     else andThen (say (\<lambda>_. []) [word_of_int pa, word_of_nat va] (''VA of PA %x = %x'' @ NL) s) (\<lambda>s. finished s)))"

definition command_ft :: command where
  "command_ft arguments s =
     andThen (arg_num 16 arguments 1 s) (\<lambda>va.
     andThen (run_kmem (unit_of (del_page_table (kernel_dir s) (uint32 va))) s) (\<lambda>(_, s). finished s))"

definition command_writeusermem :: command where
  "command_writeusermem arguments s =
     (if length arguments = 3 then
        andThen (arg_num 16 arguments 1 s) (\<lambda>a.
        andThen (arg_char arguments 2 s) (\<lambda>c.
        andThen (write_byte (kernel_dir s) (uint32 a) c s) (\<lambda>s. finished s)))
      else if length arguments = 4 then
        andThen (arg_num 10 arguments 1 s) (\<lambda>envId.
        andThen (find_env envId s) (\<lambda>env.
        andThen (arg_num 16 arguments 2 s) (\<lambda>a.
        (case env of
           None \<Rightarrow> finished s
         | Some e \<Rightarrow>
             andThen (arg_char arguments 3 s) (\<lambda>c.
             andThen (write_byte (directory_of e s) (uint32 a) c s) (\<lambda>s. finished s))))))
      else tell ''wum command: invalid number of arguments'' s)"

definition command_readusermem :: command where
  "command_readusermem arguments s =
     (if length arguments = 2 then
        andThen (arg_num 16 arguments 1 s) (\<lambda>a.
        andThen (read_byte (kernel_dir s) (uint32 a) s) (\<lambda>b.
        andThen (say (\<lambda>_. []) [word_of_int a, ucast b] (''value at address %x = %c'' @ NL) s) (\<lambda>s. finished s)))
      else if length arguments = 3 then
        andThen (arg_num 10 arguments 1 s) (\<lambda>envId.
        andThen (find_env envId s) (\<lambda>env.
        andThen (arg_num 16 arguments 2 s) (\<lambda>a.
        (case env of
           None \<Rightarrow> finished s
         | Some e \<Rightarrow>
             andThen (read_byte (directory_of e s) (uint32 a) s) (\<lambda>b.
             andThen (say (\<lambda>_. []) [word_of_int a, ucast b] (''value at address %x = %c'' @ NL) s) (\<lambda>s. finished s))))))
      else tell ''rum command: invalid number of arguments'' s)"

fun show_block :: "nat \<Rightarrow> nat \<Rightarrow> nat \<Rightarrow> shell \<Rightarrow> shell result" where
  "show_block 0 dir p s = Inr s"
| "show_block (Suc n) dir p s =
     andThen (read_byte dir p s) (\<lambda>b.
     andThen (say (\<lambda>_. []) [word_of_nat p, ucast b, ucast b] (''%08x : %02x  %c'' @ NL) s) (show_block n dir (add32 p 1)))"

definition command_readuserblock :: command where
  "command_readuserblock arguments s =
     andThen (arg_num 10 arguments 1 s) (\<lambda>envId.
     andThen (find_env envId s) (\<lambda>env.
     andThen (arg_num 16 arguments 2 s) (\<lambda>a.
     andThen (arg_num 10 arguments 3 s) (\<lambda>nBytes.
     (case env of
        None \<Rightarrow> finished s
      | Some e \<Rightarrow> andThen (show_block (nat nBytes) (directory_of e s) (uint32 a) s) (\<lambda>s. finished s))))))"

definition remove_table :: "nat \<Rightarrow> nat \<Rightarrow> kmem \<Rightarrow> kmem result" where
  "remove_table dir va k =
     (let table_pa = EXTRACT_ADDRESS (directories k dir (PDX va)) in
      andThen
        (if \<not> CHECK_IF_KERNEL_ADDRESS va
         then andThen (kheap_virtual_address table_pa k) (\<lambda>t. kfree t k)
         else
           andThen (to_frame_info table_pa k) (\<lambda>f.
           free_frame f (set_frame f ((frames_info k f)\<lparr>references := 0\<rparr>) k))) (\<lambda>k.
      Inr (set_dir_entry dir (PDX va) (directories k dir (PDX va) AND NOT PERM_PRESENT) k)))"

definition command_remove_table :: command where
  "command_remove_table arguments s =
     andThen (arg_num 10 arguments 1 s) (\<lambda>envId.
     andThen (find_env envId s) (\<lambda>env.
     (case env of
        None \<Rightarrow> finished s
      | Some e \<Rightarrow>
          andThen (arg_num 16 arguments 2 s) (\<lambda>a.
          andThen (run_kmem (unit_of (remove_table (directory_of e s) (uint32 a))) s) (\<lambda>(_, s). finished s)))))"

definition command_allocuserpage :: command where
  "command_allocuserpage arguments s =
     (if length arguments < 3 \<or> length arguments > 4 then tell ''aup command: invalid number of arguments'' s
      else
        andThen (arg_num 10 arguments 1 s) (\<lambda>envId.
        andThen (find_env envId s) (\<lambda>env.
        (case env of
           None \<Rightarrow> finished s
         | Some e \<Rightarrow>
             andThen (arg_num 16 arguments 2 s) (\<lambda>va.
             andThen (run_kmem allocate_frame s) (\<lambda>(f, s).
             andThen
               (if length arguments = 3 then Inr (PERM_WRITEABLE, s)
                else
                  andThen (arg_char arguments 3 s) (\<lambda>c.
                  if c = 114 \<or> c = 82 then Inr (0, s)
                  else if c = 119 \<or> c = 87 then Inr (PERM_WRITEABLE, s)
                  else
                    andThen (print (''aup command: wrong permission (r/w)... will continue as writable'' @ NL) s) (\<lambda>s.
                    Inr (PERM_WRITEABLE, s)))) (\<lambda>(rw, s).
             andThen (run_kmem (unit_of (map_frame create_page_table (directory_of e s) f (uint32 va) (rw OR PERM_USER))) s) (\<lambda>(_, s).
             finished s))))))))"

definition command_meminfo :: command where
  "command_meminfo arguments s =
     (let c = calculate_available_frames (kmem_of s); b = word_of_nat (freeBuffered c); n = word_of_nat (freeNotBuffered c); md = word_of_nat (modified c) in
      andThen (say (\<lambda>_. []) [b + n + md, b, n, md]
        (''Total available frames = %d'' @ NL @ ''Free Buffered = %d'' @ NL @ ''Free Not Buffered = %d'' @ NL @ ''Modified = %d'' @ NL) s) (\<lambda>s.
      andThen (say (\<lambda>_. []) [word_of_int (numOfKheapVACalls s)] (''Num of calls for kheap_virtual_address [in last run] = %d'' @ NL) s) (\<lambda>s.
      finished s)))"

section \<open>Programs\<close>

text \<open>
  The parameters of a new environment, from the number of words and the strategies in use. The working set size, the size of the second
  list, the nice value (\<open>- 100\<close>: none) and the priority; \<open>None\<close> after a message.
\<close>

definition is_LRU_lists :: "shell \<Rightarrow> bool" where
  "is_LRU_lists s \<longleftrightarrow> PageRepAlgoType (vm_of (mach s)) = PG_REP_LRU_LISTS_APPROX"

abbreviation method_of :: "shell \<Rightarrow> sched_kind" where
  "method_of s \<equiv> scheduler_method (msched (mach s))"

text \<open>The last word is the nice value or the priority, as the scheduler has one.\<close>

definition sched_param :: "nat list \<Rightarrow> nat \<Rightarrow> shell \<Rightarrow> (int \<times> int) result" where
  "sched_param arguments i s =
     (if method_of s = SCH_BSD then andThen (arg_num 10 arguments i s) (\<lambda>v. Inr (v, 0))
      else if method_of s = SCH_PRIRR then andThen (arg_num 10 arguments i s) (\<lambda>v. Inr (- 100, v))
      else Inr (- 100, 0))"

definition refuse :: "string \<Rightarrow> shell \<Rightarrow> ('a option \<times> shell) result" where
  "refuse txt s = andThen (print txt s) (\<lambda>s. Inr (None, s))"

definition env_params :: "nat list \<Rightarrow> shell \<Rightarrow> ((nat \<times> nat \<times> int \<times> int) option \<times> shell) result" where
  "env_params arguments s =
     (if length arguments = 5 then
        if \<not> is_LRU_lists s then
          refuse (''ERROR: Current Replacement is NOT LRU LISTS, invalid number of args'' @ NL @
            ''Usage: <command> <prog_name> <page_WS_size> [<LRU_second_list_size>] [<BSD_Sched_Nice>]'' @ NL @ ''aborting...'' @ NL) s
        else
          andThen (sched_param arguments 4 s) (\<lambda>(nice, prio).
          andThen (arg_num 10 arguments 3 s) (\<lambda>second.
          andThen (arg_num 10 arguments 2 s) (\<lambda>ws. Inr (Some (uint32 ws, uint32 second, nice, prio), s))))
      else if length arguments = 4 then
        andThen (if \<not> is_LRU_lists s then andThen (sched_param arguments 3 s) (\<lambda>(nice, prio). Inr (0, nice, prio))
                 else andThen (arg_num 10 arguments 3 s) (\<lambda>second. Inr (second, - 100, 0))) (\<lambda>(second, nice, prio).
        andThen (arg_num 10 arguments 2 s) (\<lambda>ws. Inr (Some (uint32 ws, uint32 second, nice, prio), s)))
      else if length arguments = 3 then
        if is_LRU_lists s then
          refuse (''ERROR: Current Replacement is LRU LISTS, Please specify a working set size in the 3rd arg and LRU second list size in the 4th arg, aborting.'' @ NL) s
        else andThen (arg_num 10 arguments 2 s) (\<lambda>ws. Inr (Some (uint32 ws, 0, - 100, 0), s))
      else
        refuse (''ERROR: invalid number of args'' @ NL @
          ''Usage: <command> <prog_name> <page_WS_size> [<LRU_second_list_size>] [<DYN_LOC_SCOPE_percent_WS_to_remove>]'' @ NL @ ''aborting...'' @ NL) s)"

definition env_set_nice :: "nat option \<Rightarrow> int \<Rightarrow> shell \<Rightarrow> shell result" where
  "env_set_nice e nice_value s = Inl (Panic ''Not implemented function'')"

text \<open>
  \<^verbatim>\<open>CreateEnv\<close>. The result of \<^verbatim>\<open>env_create\<close> is not tested before it is used to set the priority.
\<close>

definition CreateEnv :: "nat list \<Rightarrow> shell \<Rightarrow> (nat option \<times> shell) result" where
  "CreateEnv arguments s =
     andThen (env_params arguments s) (\<lambda>(ps, s).
     (case ps of
        None \<Rightarrow> Inr (None, s)
      | Some (pageWSSize, LRUSecondListSize, nice, prio) \<Rightarrow>
          if is_LRU_lists s \<and> LRUSecondListSize > sub32 pageWSSize 1 then
            refuse (''ERROR: size of LRU second list can't equal/exceed the size of the page WS... aborting'' @ NL) s
          else
            andThen (arg_bytes arguments 1 s) (\<lambda>name.
            andThen (env_create (map (\<lambda>b. char_of (unat b)) name) pageWSSize LRUSecondListSize 0 (mach s)) (\<lambda>(e, m).
            (let s = s\<lparr>mach := m\<rparr> in
             andThen
               (if nice \<noteq> - 100 then
                  andThen (say (\<lambda>_. []) [word_of_int nice] (''nice value = %d'' @ NL) s) (\<lambda>s.
                  andThen (c_assert (- 20 \<le> nice \<and> nice \<le> 20) ''BSDSchedNiceVal >= -20 && BSDSchedNiceVal <= 20'') (\<lambda>_.
                  env_set_nice e nice s))
                else Inr s) (\<lambda>s.
             if method_of s = SCH_PRIRR then
               (case e of
                  None \<Rightarrow> Inl (Cpu_trap ''env->env_id'')
                | Some e \<Rightarrow>
                    andThen (run_sched (unit_of (env_set_priority (env_id (envs (msched (mach s)) e)) prio)) s) (\<lambda>(_, s).
                    Inr (Some e, s)))
             else Inr (e, s)))))))"

definition id_of :: "nat \<Rightarrow> shell \<Rightarrow> int" where
  "id_of e s = env_id (envs (msched (mach s)) e)"

definition show_id :: "nat \<Rightarrow> shell \<Rightarrow> shell result" where
  "show_id e s = say (\<lambda>_. []) [word_of_int (id_of e s)] (NL @ ''Environment Id= %d'' @ NL) s"

definition command_run_program :: command where
  "command_run_program arguments s =
     andThen (CreateEnv arguments s) (\<lambda>(env, s).
     (case env of
        None \<Rightarrow> finished s
      | Some e \<Rightarrow>
          andThen (show_id e s) (\<lambda>s.
          andThen (run_sched (unit_of (sched_new_env e)) s) (\<lambda>(_, s).
          andThen (run_sched (sched_run_env (id_of e s)) (s\<lparr>numOfKheapVACalls := 0\<rparr>)) (\<lambda>(entered, s).
          Inr (if entered then None else Some 0, s))))))"

definition command_kill_program :: command where
  "command_kill_program arguments s =
     andThen (arg_num 10 arguments 1 s) (\<lambda>envId.
     andThen (run_sched (unit_of (sched_kill_env envId)) s) (\<lambda>(_, s). finished s))"

definition commnad_load_env :: command where
  "commnad_load_env arguments s =
     andThen (CreateEnv arguments s) (\<lambda>(env, s).
     (case env of
        None \<Rightarrow> finished s
      | Some e \<Rightarrow>
          andThen (run_sched (unit_of (sched_new_env e)) s) (\<lambda>(_, s).
          andThen (show_id e s) (\<lambda>s. finished s))))"

text \<open>\<^verbatim>\<open>sched_run_all\<close> enters the scheduler and \<^verbatim>\<open>sched_kill_all\<close> starts the prompt anew; neither comes back.\<close>

definition command_run_all :: command where
  "command_run_all arguments s =
     andThen (print (''runall command invoked'' @ NL) (s\<lparr>numOfKheapVACalls := 0\<rparr>)) (\<lambda>s.
     andThen (run_sched (unit_of sched_run_all) s) (\<lambda>(_, s). Inr (None, s)))"

definition command_kill_all :: command where
  "command_kill_all arguments s = andThen (run_sched (unit_of sched_kill_all) s) (\<lambda>(_, s). Inr (None, s))"

fun print_queue :: "nat list \<Rightarrow> shell \<Rightarrow> shell result" where
  "print_queue [] s = Inr s"
| "print_queue (e # es) s =
     andThen (say (\<lambda>_. bytes_of (prog_name (loaded (mach s) e))) [word_of_int (id_of e s), 1] (TAB @ ''[%d] %s'' @ NL) s) (print_queue es)"

fun print_ready :: "nat \<Rightarrow> nat \<Rightarrow> shell \<Rightarrow> shell result" where
  "print_ready 0 i s = Inr s"
| "print_ready (Suc n) i s =
     andThen (ready_queue (int i) (msched (mach s))) (\<lambda>q.
     andThen
       (if q \<noteq> [] then
          andThen (say (\<lambda>_. []) [word_of_nat i] (''The processes in READY queue #%d are:'' @ NL) s) (print_queue q)
        else say (\<lambda>_. []) [word_of_nat i] (''No processes in READY queue #%d'' @ NL) s)
     (print_ready n (Suc i)))"

definition print_queues :: "shell \<Rightarrow> shell result" where
  "print_queues s =
     (let new = env_new_queue (msched (mach s)) in
      andThen
        (if new \<noteq> [] then andThen (print (NL @ ''The processes in NEW queue are:'' @ NL) s) (print_queue new)
         else print (NL @ ''No processes in NEW queue'' @ NL) s) (\<lambda>s.
      andThen (print (''================================================'' @ NL) s) (\<lambda>s.
      andThen (print_ready (num_of_ready_queues (msched (mach s))) 0 s) (\<lambda>s.
      (let gone = env_exit_queue (msched (mach s)) in
       if gone \<noteq> [] then andThen (print (''The processes in EXIT queue are:'' @ NL) s) (print_queue gone)
       else print (''No processes in EXIT queue'' @ NL) s)))))"

definition sched_print_all :: "shell \<Rightarrow> shell result" where
  "sched_print_all s =
     andThen (run_sched (unit_of acquire_qlock) s) (\<lambda>(_, s).
     andThen (print_queues s) (\<lambda>s.
     andThen (run_sched (unit_of release_qlock) s) (\<lambda>(_, s). Inr s)))"

definition command_print_all :: command where
  "command_print_all arguments s = andThen (sched_print_all s) (\<lambda>s. finished s)"

section \<open>Page replacement\<close>

text \<open>The state of the fault handlers; the scheduler's flag is a view of the one there.\<close>

abbreviation faults :: "shell \<Rightarrow> fault_state" where
  "faults s \<equiv> kernel_faults (sh_heap (mshm (mach s)))"

definition set_faults :: "fault_state \<Rightarrow> shell \<Rightarrow> shell" where
  "set_faults fs s =
     (let m = set_heap (\<lambda>h. h\<lparr>kernel_faults := fs\<rparr>) (mach s) in
      s\<lparr>mach := m\<lparr>msched := (msched m)\<lparr>EnableBuffering := isBufferingEnabled fs \<noteq> 0\<rparr>\<rparr>\<rparr>)"

definition set_rep :: "(vm \<Rightarrow> vm) \<Rightarrow> string \<Rightarrow> shell \<Rightarrow> cmd_answer" where
  "set_rep f txt s = tell txt (upd_vm f s)"

definition command_set_page_rep_LRU :: command where
  "command_set_page_rep_LRU arguments s =
     (if length arguments < 2 then tell ''ERROR: please specify the LRU Approx Type (1: TimeStamp Approx, 2: Lists Approx), aborting...'' s
      else
        andThen (arg_num 10 arguments 1 s) (\<lambda>LRU_TYPE.
        if LRU_TYPE = 1 then
          andThen (setPageReplacmentAlgorithmLRU PG_REP_LRU_TIME_APPROX (vm_of (mach s))) (\<lambda>v.
          set_rep (\<lambda>_. v) ''Page replacement algorithm is now LRU with TimeStamp approximation'' s)
        else if LRU_TYPE = 2 then
          andThen (setPageReplacmentAlgorithmLRU PG_REP_LRU_LISTS_APPROX (vm_of (mach s))) (\<lambda>v.
          set_rep (\<lambda>_. v) ''Page replacement algorithm is now LRU with LISTS approximation'' s)
        else tell ''ERROR: Invalid LRU Approx Type (1: TimeStamp Approx, 2: Lists Approx), aborting...'' s))"

definition command_set_page_rep_nthCLOCK :: command where
  "command_set_page_rep_nthCLOCK arguments s =
     andThen (arg_num 10 arguments 1 s) (\<lambda>sweeps.
     andThen (arg_num 10 arguments 2 s) (\<lambda>ty.
     if uint32 sweeps = 0 then tell ''Invalid number of sweeps! it should be +ve.'' s
     else if uint8 ty \<noteq> 1 \<and> uint8 ty \<noteq> 2 then tell (''Invalid type!'' @ NL @ TAB @ ''type=1: NORMAL Ver. type=2: MODIFIED Ver.'') s
     else
       (case setPageReplacmentAlgorithmNchanceCLOCK (int32 (if uint8 ty = 1 then sweeps else - sweeps)) (faults s) (vm_of (mach s)) of (fs, v) \<Rightarrow>
          set_rep (\<lambda>_. v) ''Page replacement algorithm is now N chance CLOCK'' (set_faults fs s))))"

definition command_set_page_rep_CLOCK :: command where
  "command_set_page_rep_CLOCK arguments s = set_rep setPageReplacmentAlgorithmCLOCK ''Page replacement algorithm is now CLOCK'' s"

definition command_set_page_rep_FIFO :: command where
  "command_set_page_rep_FIFO arguments s = set_rep setPageReplacmentAlgorithmFIFO ''Page replacement algorithm is now FIFO'' s"

definition command_set_page_rep_ModifiedCLOCK :: command where
  "command_set_page_rep_ModifiedCLOCK arguments s =
     set_rep setPageReplacmentAlgorithmModifiedCLOCK ''Page replacement algorithm is now Modified CLOCK'' s"

definition command_set_page_rep_OPTIMAL :: command where
  "command_set_page_rep_OPTIMAL arguments s = set_rep setPageReplacmentAlgorithmOPTIMAL ''Page replacement algorithm is now OPTIMAL'' s"

text \<open>What is said of the strategy; nothing more after the number of sweeps is 0.\<close>

definition rep_text :: "rep_algo \<Rightarrow> int \<Rightarrow> string" where
  "rep_text a sweeps =
     (case a of
        PG_REP_CLOCK \<Rightarrow> ''Page replacement algorithm is CLOCK'' @ NL
      | PG_REP_LRU_TIME_APPROX \<Rightarrow> ''Page replacement algorithm is LRU with TimeStamp approximation'' @ NL
      | PG_REP_LRU_LISTS_APPROX \<Rightarrow> ''Page replacement algorithm is LRU with LISTS approximation'' @ NL
      | PG_REP_FIFO \<Rightarrow> ''Page replacement algorithm is FIFO'' @ NL
      | PG_REP_MODIFIEDCLOCK \<Rightarrow> ''Page replacement algorithm is Modified CLOCK'' @ NL
      | PG_REP_OPTIMAL \<Rightarrow> ''Page replacement algorithm is OPTIMAL'' @ NL
      | PG_REP_NchanceCLOCK \<Rightarrow> ''Page replacement algorithm is Nth Chance CLOCK '' @
          (if sweeps > 0 then ''[NORMAL ver]'' @ NL else if sweeps < 0 then ''[MODIFIED ver]'' @ NL else '''')
      | PG_REP_DYNAMIC_LOCAL \<Rightarrow> ''Page replacement algorithm is UNDEFINED'' @ NL)"

definition command_print_page_rep :: command where
  "command_print_page_rep arguments s =
     andThen (print (rep_text (PageRepAlgoType (vm_of (mach s))) (page_WS_max_sweeps (faults s))) s) (\<lambda>s. finished s)"

section \<open>Schedulers\<close>

fun show_quantums :: "nat \<Rightarrow> nat \<Rightarrow> shell \<Rightarrow> shell result" where
  "show_quantums 0 i s = Inr s"
| "show_quantums (Suc n) i s =
     (let q = quantums (msched (mach s)) in
      if i < length q then andThen (say (\<lambda>_. []) [word_of_nat (q ! i)] ''%d   '' s) (show_quantums n (Suc i))
      else Inl (Corrupted ''quantums[i]''))"

definition command_sch_RR :: command where
  "command_sch_RR arguments s =
     andThen (arg_num 10 arguments 1 s) (\<lambda>quantum.
     andThen (run_sched (unit_of (sched_init_RR (uint8 quantum))) s) (\<lambda>(_, s).
     andThen (quantum0 (msched (mach s))) (\<lambda>q.
     andThen (say (\<lambda>_. []) [word_of_nat q] (''Scheduler is now set to Round Robin with quantum %d ms'' @ NL) s) (\<lambda>s. finished s))))"

fun arg_nums :: "nat \<Rightarrow> nat \<Rightarrow> nat list \<Rightarrow> shell \<Rightarrow> nat list result" where
  "arg_nums 0 i arguments s = Inr []"
| "arg_nums (Suc n) i arguments s =
     andThen (arg_num 10 arguments i s) (\<lambda>v. andThen (arg_nums n (Suc i) arguments s) (\<lambda>vs. Inr (uint8 v # vs)))"

definition command_sch_MLFQ :: command where
  "command_sch_MLFQ arguments s =
     andThen (arg_num 10 arguments 1 s) (\<lambda>numOfLevels.
     andThen (arg_nums (length arguments - 2) 2 arguments s) (\<lambda>quantumOfEachLevel.
     andThen (run_sched (unit_of (sched_init_MLFQ (uint8 numOfLevels) quantumOfEachLevel)) s) (\<lambda>(_, s).
     andThen (print ''Scheduler is now set to MLFQ with quantums: '' s) (\<lambda>s.
     andThen (show_quantums (num_of_ready_queues (msched (mach s))) 0 s) (\<lambda>s.
     tell '''' s)))))"

definition command_sch_BSD :: command where
  "command_sch_BSD arguments s =
     andThen (arg_num 10 arguments 1 s) (\<lambda>numOfLevels.
     andThen (arg_num 10 arguments 2 s) (\<lambda>quantum.
     andThen (run_sched (unit_of (sched_init_BSD (uint8 numOfLevels) (uint8 quantum))) s) (\<lambda>(_, s).
     andThen (say (\<lambda>_. []) [word_of_nat (uint8 numOfLevels), word_of_nat (uint8 quantum)]
                (''Scheduler is now set to BSD with %d levels & quantum = %d'' @ NL) s) (\<lambda>s. tell '''' s))))"

definition command_sch_PRIRR :: command where
  "command_sch_PRIRR arguments s =
     andThen (arg_num 10 arguments 1 s) (\<lambda>numOfLevels.
     andThen (arg_num 10 arguments 2 s) (\<lambda>quantum.
     andThen (arg_num 10 arguments 3 s) (\<lambda>starvThresh.
     andThen (run_sched (unit_of (sched_init_PRIRR (uint8 numOfLevels) (uint8 quantum) (uint32 starvThresh))) s) (\<lambda>(_, s).
     andThen (say (\<lambda>_. []) [word_of_nat (uint8 numOfLevels), word_of_nat (uint8 quantum), word_of_int starvThresh]
                (''Scheduler is now set to PRIORITY RR with %d priorities, quantum = %d and starvation thresh %d'' @ NL) s) (\<lambda>s.
     tell '''' s)))))"

definition command_set_starve_thresh :: command where
  "command_set_starve_thresh arguments s =
     andThen (arg_num 10 arguments 1 s) (\<lambda>t.
     andThen (run_sched (unit_of (sched_set_starv_thresh (uint32 t))) s) (\<lambda>(_, s). finished s))"

definition command_set_priority :: command where
  "command_set_priority arguments s =
     andThen (arg_num 10 arguments 1 s) (\<lambda>envId.
     andThen (arg_num 10 arguments 2 s) (\<lambda>prio.
     andThen (run_sched (unit_of (env_set_priority envId prio)) s) (\<lambda>(_, s). finished s)))"

definition command_print_sch_method :: command where
  "command_print_sch_method arguments s =
     (let n = num_of_ready_queues (msched (mach s)) in
      case method_of s of
        SCH_MLFQ \<Rightarrow>
          andThen (print ''Current scheduler method is MLFQ with quantums: '' s) (\<lambda>s.
          andThen (show_quantums n 0 s) (\<lambda>s. tell '''' s))
      | SCH_RR \<Rightarrow>
          andThen (quantum0 (msched (mach s))) (\<lambda>q.
          andThen (say (\<lambda>_. []) [word_of_nat q] (''Current scheduler method is Round Robin with quantum %d ms'' @ NL) s) (\<lambda>s. finished s))
      | SCH_BSD \<Rightarrow>
          andThen (quantum0 (msched (mach s))) (\<lambda>q.
          andThen (say (\<lambda>_. []) [word_of_nat n, word_of_nat q] (''Scheduler is now set to BSD with %d levels & quantum = %d'' @ NL) s) (\<lambda>s. finished s))
      | SCH_PRIRR \<Rightarrow>
          andThen (quantum0 (msched (mach s))) (\<lambda>q.
          andThen (say (\<lambda>_. []) [word_of_nat n, word_of_nat q]
                     (''Scheduler is now set to PRIORITY RR with %d priorities & quantum = %d'' @ NL) s) (\<lambda>s. finished s)))"

definition chksch :: "nat \<Rightarrow> shell \<Rightarrow> shell result" where
  "chksch onoff s =
     (if method_of s = SCH_BSD then Inl (Panic ''Not implemented function'') else Inr (s\<lparr>chkstatus := onoff\<rparr>))"

definition command_sch_test :: command where
  "command_sch_test arguments s =
     andThen (arg_num 10 arguments 1 s) (\<lambda>status.
     andThen (chksch (uint8 status) s) (\<lambda>s.
     if status = 0 then tell ''Testing the scheduler is TURNED OFF'' s
     else if status = 1 then tell ''Testing the scheduler is TURNED ON'' s
     else finished s))"

section \<open>Heap placement\<close>

definition set_uheap :: "nat \<Rightarrow> string \<Rightarrow> shell \<Rightarrow> cmd_answer" where
  "set_uheap strategy txt s =
     tell txt (s\<lparr>mach := set_heap (\<lambda>h. h\<lparr>UHeapPlacementStrategy := strategy\<rparr>) (mach s)\<rparr>)"

definition command_set_uheap_plac_FIRSTFIT :: command where
  "command_set_uheap_plac_FIRSTFIT arguments s = set_uheap 1 ''User Heap placement strategy is now FIRST FIT'' s"

definition command_set_uheap_plac_BESTFIT :: command where
  "command_set_uheap_plac_BESTFIT arguments s = set_uheap 2 ''User Heap placement strategy is now BEST FIT'' s"

definition command_set_uheap_plac_NEXTFIT :: command where
  "command_set_uheap_plac_NEXTFIT arguments s = set_uheap 3 ''User Heap placement strategy is now NEXT FIT'' s"

definition command_set_uheap_plac_WORSTFIT :: command where
  "command_set_uheap_plac_WORSTFIT arguments s = set_uheap 4 ''User Heap placement strategy is now WORST FIT'' s"

definition command_set_uheap_plac_CUSTOMFIT :: command where
  "command_set_uheap_plac_CUSTOMFIT arguments s = set_uheap 5 ''User Heap placement strategy is now CUSTOM FIT'' s"

definition command_print_uheap_plac :: command where
  "command_print_uheap_plac arguments s =
     (let strategy = UHeapPlacementStrategy (sh_heap (mshm (mach s))) in
      tell (if strategy = 1 then ''User Heap placement strategy is FIRST FIT''
            else if strategy = 3 then ''User Heap placement strategy is NEXT FIT''
            else if strategy = 2 then ''User Heap placement strategy is BEST FIT''
            else if strategy = 4 then ''User Heap placement strategy is WORST FIT''
            else if strategy = 5 then ''User Heap placement strategy is CUSTOM FIT''
            else ''User Heap placement strategy is UNDEFINED'') s)"

definition set_kheap :: "nat \<Rightarrow> string \<Rightarrow> shell \<Rightarrow> cmd_answer" where
  "set_kheap strategy txt s = tell txt (upd_vm (\<lambda>v. v\<lparr>km := (km v)\<lparr>kheapPlacementStrategy := strategy\<rparr>\<rparr>) s)"

definition command_set_kheap_plac_CONTALLOC :: command where
  "command_set_kheap_plac_CONTALLOC arguments s = set_kheap 0 ''Kernel Heap placement strategy is now FIRST FIT'' s"

definition command_set_kheap_plac_FIRSTFIT :: command where
  "command_set_kheap_plac_FIRSTFIT arguments s = set_kheap 1 ''Kernel Heap placement strategy is now FIRST FIT'' s"

definition command_set_kheap_plac_BESTFIT :: command where
  "command_set_kheap_plac_BESTFIT arguments s = set_kheap 2 ''Kernel Heap placement strategy is now BEST FIT'' s"

definition command_set_kheap_plac_NEXTFIT :: command where
  "command_set_kheap_plac_NEXTFIT arguments s = set_kheap 3 ''Kernel Heap placement strategy is now NEXT FIT'' s"

definition command_set_kheap_plac_WORSTFIT :: command where
  "command_set_kheap_plac_WORSTFIT arguments s = set_kheap 4 ''Kernel Heap placement strategy is now WORST FIT'' s"

definition command_set_kheap_plac_CUSTOMFIT :: command where
  "command_set_kheap_plac_CUSTOMFIT arguments s = set_kheap 5 ''Kernel Heap placement strategy is now CUSTOM FIT'' s"

definition command_print_kheap_plac :: command where
  "command_print_kheap_plac arguments s =
     (let strategy = kheapPlacementStrategy (kmem_of s) in
      tell (if strategy = 0 then ''Kernel Heap placement strategy is CONTINUOUS ALLOCATION''
            else if strategy = 1 then ''Kernel Heap placement strategy is FIRST FIT''
            else if strategy = 3 then ''Kernel Heap placement strategy is NEXT FIT''
            else if strategy = 2 then ''Kernel Heap placement strategy is BEST FIT''
            else if strategy = 4 then ''Kernel Heap placement strategy is WORST FIT''
            else if strategy = 5 then ''Kernel Heap placement strategy is CUSTOM FIT''
            else ''Kernel Heap placement strategy is UNDEFINED'') s)"

section \<open>Buffering\<close>

definition command_disable_modified_buffer :: command where
  "command_disable_modified_buffer arguments s =
     (if isBufferingEnabled (faults s) = 0 then tell ''Buffering is not enabled. Please enable buffering first.'' s
      else tell ''Modified Buffer is now DISABLED'' (set_faults (enableModifiedBuffer 0 (faults s)) s))"

definition command_enable_modified_buffer :: command where
  "command_enable_modified_buffer arguments s =
     (if isBufferingEnabled (faults s) = 0 then tell ''Buffering is not enabled. Please enable buffering first.'' s
      else tell ''Modified Buffer is now ENABLED'' (set_faults (enableModifiedBuffer 1 (faults s)) s))"

definition command_disable_buffering :: command where
  "command_disable_buffering arguments s =
     tell ''Buffering is now DISABLED'' (set_faults (enableModifiedBuffer 0 (enableBuffering 0 (faults s))) s)"

definition show_length :: "string \<Rightarrow> shell \<Rightarrow> shell result" where
  "show_length txt s = say (\<lambda>_. []) [word_of_nat (getModifiedBufferLength (faults s))] (txt @ '' = %d'' @ NL) s"

text \<open>
  The line that is asked for is read into an array of 100 bytes on the stack, by a routine that takes up to 1023 characters. The console
  echoes (\<^verbatim>\<open>iscons\<close> is always 1). A place of the array is written exactly if it is the same afterwards whatever it was before.
\<close>

definition stores_at :: "int list \<Rightarrow> nat \<Rightarrow> bool" where
  "stores_at inp k =
     (case (readline True inp (\<lambda>_. 0), readline True inp (\<lambda>_. 1)) of
        (Some (_, b, _), Some (_, b', _)) \<Rightarrow> b k = b' k
      | _ \<Rightarrow> False)"

definition ask :: "string \<Rightarrow> shell \<Rightarrow> shell result" where
  "ask prompt s =
     andThen (print prompt s) (\<lambda>s.
     (case answers s of
        [] \<Rightarrow> Inl Spins
      | inp # rest \<Rightarrow>
          (case readline True inp (str_buf s) of
             None \<Rightarrow> Inl Spins
           | Some (n, b, out) \<Rightarrow>
               if list_ex (stores_at inp) [100..<BUFLEN] then Inl (Corrupted ''str[100]'')
               else Inr (s\<lparr>answers := rest, str_buf := b, mach := (mach s)\<lparr>mcons := fold cputchar out (mcons (mach s))\<rparr>\<rparr>))))"

definition ask_length :: "shell \<Rightarrow> shell result" where
  "ask_length s =
     andThen (print (''Modified buffer enabled but with length = 0'' @ NL) s) (\<lambda>s.
     andThen (ask ''Please enter the modified buff length = '' s) (\<lambda>s.
     (case strtol (str_buf s) 0 10 of
        None \<Rightarrow> Inl Spins
      | Some (v, _) \<Rightarrow> show_length ''Modified buffer length updated'' (set_faults (setModifiedBufferLength (uint32 v) (faults s)) s))))"

definition command_enable_buffering :: command where
  "command_enable_buffering arguments s =
     (let s = set_faults (enableModifiedBuffer 1 (enableBuffering 1 (faults s))) s in
      andThen (if getModifiedBufferLength (faults s) = 0 then ask_length s else Inr s) (\<lambda>s.
      tell ''Buffering is now ENABLED'' s))"

definition warn_buffering :: "shell \<Rightarrow> shell result" where
  "warn_buffering s =
     (if isBufferingEnabled (faults s) = 0 then print (''Buffering is not enabled. Please enable buffering to use the modified buffer.'' @ NL) s
      else if isModifiedBufferEnabled (faults s) = 0
      then print (''Modified Buffering is not enabled. Please enable modified buffering.'' @ NL) s
      else Inr s)"

definition command_set_modified_buffer_length :: command where
  "command_set_modified_buffer_length arguments s =
     andThen (warn_buffering s) (\<lambda>s.
     andThen (arg_num 10 arguments 1 s) (\<lambda>v.
     andThen (show_length ''Modified buffer length updated'' (set_faults (setModifiedBufferLength (uint32 v) (faults s)) s)) (\<lambda>s.
     finished s)))"

definition command_get_modified_buffer_length :: command where
  "command_get_modified_buffer_length arguments s =
     andThen (warn_buffering s) (\<lambda>s. andThen (show_length ''Modified buffer length'' s) (\<lambda>s. finished s))"

definition command_cls :: command where
  "command_cls arguments s = finished (s\<lparr>mach := (mach s)\<lparr>mcons := clear_screen_buffer (mcons (mach s))\<rparr>\<rparr>)"

section \<open>From a line to a command\<close>

text \<open>
  The functions in the order of the table. \<open>tst_handler\<close> stands for the kernel's tests (\<^verbatim>\<open>src/kern/tests\<close>), which the command
  \<^verbatim>\<open>tst\<close> does nothing but call.
\<close>

definition command_functions :: "command \<Rightarrow> command list" where
  "command_functions tst_handler =
    [command_help, command_kernel_info, command_kernel_base_info, command_del_kernel_base, command_meminfo, command_print_sch_method,
     command_run_all, command_print_all, command_kill_all, command_set_page_rep_FIFO, command_set_page_rep_CLOCK,
     command_set_page_rep_ModifiedCLOCK, command_set_page_rep_OPTIMAL, command_print_page_rep, command_set_uheap_plac_FIRSTFIT,
     command_set_uheap_plac_BESTFIT, command_set_uheap_plac_NEXTFIT, command_set_uheap_plac_WORSTFIT, command_set_uheap_plac_CUSTOMFIT,
     command_print_uheap_plac, command_set_kheap_plac_CONTALLOC, command_set_kheap_plac_FIRSTFIT, command_set_kheap_plac_BESTFIT,
     command_set_kheap_plac_NEXTFIT, command_set_kheap_plac_WORSTFIT, command_set_kheap_plac_CUSTOMFIT, command_print_kheap_plac,
     command_disable_buffering, command_enable_buffering, command_disable_modified_buffer, command_enable_modified_buffer,
     command_get_modified_buffer_length, command_cls, command_readmem_k, command_get_page_table, command_nr, command_fp, command_p2v,
     command_v2p, command_shmp, command_ft, command_kill_program, command_sch_RR, command_sch_test, command_set_page_rep_LRU,
     command_set_modified_buffer_length, command_set_starve_thresh, command_writemem_k, command_share_page, command_asp, command_cfp,
     command_remove_table, command_sch_BSD, command_set_priority, command_set_page_rep_nthCLOCK, command_readuserblock, command_sch_PRIRR,
     command_ap, command_scp, command_shrr, command_run_program, command_writeusermem, command_readusermem, command_allocuserpage,
     command_sch_MLFQ, commnad_load_env, tst_handler]"

text \<open>\<open>names\<close> are the addresses of the names of the table in the memory the line is in.\<close>

definition run_line :: "command \<Rightarrow> nat list \<Rightarrow> nat \<Rightarrow> shell \<Rightarrow> cmd_answer" where
  "run_line tst_handler names command_string s =
     (case execute_command names command_string (line s) of
        None \<Rightarrow> Inl Spins
      | Some (Inl e) \<Rightarrow> Inl e
      | Some (Inr Nothing_to_do) \<Rightarrow> finished s
      | Some (Inr (Unknown_command p)) \<Rightarrow>
          (case strsplit WHITESPACE command_string (line s) of
             None \<Rightarrow> Inl Spins
           | Some (_, args, m) \<Rightarrow>
               andThen (arg_bytes args 0 (s\<lparr>line := m\<rparr>)) (\<lambda>w.
               andThen (say (\<lambda>_. w) [1] (''Unknown command '' @ [CHR 0x27] @ ''%s'' @ [CHR 0x27] @ NL) (s\<lparr>line := m\<rparr>)) (\<lambda>s. finished s)))
      | Some (Inr (Run i args m)) \<Rightarrow> (command_functions tst_handler ! i) args (s\<lparr>line := m\<rparr>))"

lemma table_complete: "length (command_functions t) = length commands"
  by (simp add: command_functions_def commands_def)

section \<open>Every line reaches its command\<close>

abbreviation table_names :: "byte list list" where
  "table_names \<equiv> map (\<lambda>c. bytes_of (fst c)) commands"

lemma inj_bytes_of: "inj bytes_of"
proof -
  have "unat (word_of_nat (of_char c) :: byte) = of_char c" for c :: char
    by (simp add: unat_of_nat of_char_of)
  then have "inj (\<lambda>c :: char. word_of_nat (of_char c) :: byte)" by (metis injI of_char_eq_iff)
  then show ?thesis unfolding bytes_of_def by (rule list.inj_map)
qed

lemma table_names_distinct: "distinct table_names"
proof -
  have "distinct (map fst commands)" by (simp add: commands_def)
  then have "distinct (map bytes_of (map fst commands))" unfolding distinct_map using inj_on_subset [OF inj_bytes_of] by blast
  then show ?thesis by (simp add: o_def)
qed

lemma filter_upt_eq: "filter (\<lambda>i. i = j) [0..<n] = (if j < n then [j] else [])"
  by (induction n) auto

lemma filter_table_names:
  assumes "j < length commands" "w = bytes_of (fst (commands ! j))"
  shows "filter (\<lambda>i. table_names ! i = w) [0..<length table_names] = [j]"
proof -
  have "table_names ! i = w \<longleftrightarrow> i = j" if "i < length table_names" for i
    using nth_eq_iff_index_eq [OF table_names_distinct, of i j] that assms by simp
  then have "filter (\<lambda>i. table_names ! i = w) [0..<length table_names] = filter (\<lambda>i. i = j) [0..<length table_names]"
    by (intro filter_cong) auto
  also have "\<dots> = [j]" using assms(1) by (simp add: filter_upt_eq)
  finally show ?thesis .
qed

text \<open>A format in which a string is the only conversion.\<close>

lemma vprintfmt_plain:
  "37 \<notin> set pre \<Longrightarrow> vprintfmt putch prog strs va (pre @ fmt) ap s = vprintfmt putch prog strs va fmt ap (fold (\<lambda>c. putch (uint c)) pre s)"
  by (induction pre arbitrary: s) auto

lemma vprintfmt_text: "37 \<notin> set fmt \<Longrightarrow> vprintfmt putch prog strs va fmt ap s = Inr (fold (\<lambda>c. putch (uint c)) fmt s)"
  using vprintfmt_plain [of fmt putch prog strs va "[]"] by simp

lemma say_plain:
  assumes "37 \<notin> set (bytes_of fmt)"
  shows "\<exists>c. say strs args fmt s = Inr (s\<lparr>mach := (mach s)\<lparr>mcons := c\<rparr>\<rparr>)"
  using assms by (auto simp: say_def kprint_def vcprintf_kernel_def vprintfmt_text split: prod.split)

lemma bytes_of_append: "bytes_of (a @ b) = bytes_of a @ bytes_of b"
  by (simp add: bytes_of_def)

lemma kprint_string:
  assumes "37 \<notin> set (bytes_of pre)" "37 \<notin> set (bytes_of post)"
  shows "\<exists>c. kprint (\<lambda>_. w) [1] (pre @ ''%s'' @ post) m = Inr (m\<lparr>mcons := c\<rparr>)"
proof -
  have s: "bytes_of ''%s'' = [37, 115]" by (simp add: bytes_of_def)
  show ?thesis
    unfolding kprint_def vcprintf_kernel_def bytes_of_append s vprintfmt_plain [OF assms(1)]
    using assms(2) by (auto simp: is_digit_def conversion_def vprintfmt_text split: prod.split)
qed

lemma arg_bytes_cstring: "cstring (line s) (args ! i) w \<Longrightarrow> i < length args \<Longrightarrow> arg_bytes args i s = Inr w"
  by (auto simp: arg_bytes_def arg_def strlen_cstring cstring_def intro!: nth_equalityI)

text \<open>
  What \<^verbatim>\<open>execute_command\<close> does with a line of at least one word: a first word of the table runs the function of its entry, whatever the number
  of the other words, and any other first word is reported.
\<close>

lemma line_dispatches:
  assumes "cstring (line s) p xs" and "list_all2 (cstring (line s)) names table_names"
    and "\<forall>(a, w) \<in> set (zip names table_names). a + length w < p \<or> p + length xs \<le> a"
    and "toks WHITESPACE xs = w # ws"
  shows "\<exists>args m'. length args = min 15 (length (w # ws)) \<and> (\<forall>i < length args. cstring m' (args ! i) ((w # ws) ! i)) \<and>
    (\<forall>j < length commands. bytes_of (fst (commands ! j)) = w \<longrightarrow>
       run_line tst_handler names p s = (command_functions tst_handler ! j) args (s\<lparr>line := m'\<rparr>)) \<and>
    (w \<notin> set table_names \<longrightarrow> (\<exists>c. run_line tst_handler names p s = finished (s\<lparr>line := m', mach := (mach s)\<lparr>mcons := c\<rparr>\<rparr>)))"
proof -
  obtain args m' where a: "strsplit WHITESPACE p (line s) = Some (length (w # ws) \<le> 15, args, m')"
      "length args = min 15 (length (w # ws))" "\<forall>i < length args. cstring m' (args ! i) ((w # ws) ! i)"
    using strsplit_splits [OF assms(1), of WHITESPACE] assms(4) by auto
  obtain args' m'' where e: "length args' = min 15 (length (w # ws))" "\<forall>i < length args'. cstring m'' (args' ! i) ((w # ws) ! i)"
      "execute_command names p (line s) = Some (Inr (case filter (\<lambda>j. table_names ! j = w) [0..<length table_names] of
            [] \<Rightarrow> Unknown_command (hd args') | j # _ \<Rightarrow> Run j args' m''))"
    using execute_command_correct [OF assms(1-3)] assms(4) by auto
  have same: "args' = args \<and> m'' = m'" if r: "execute_command names p (line s) = Some (Inr (Run j args' m''))" for j
  proof (cases "process_command names args m'")
    case (Some y)
    then show ?thesis using r a(1) by (cases y) (auto simp: execute_command_def split: if_splits)
  qed (use r a(1) in \<open>auto simp: execute_command_def split: if_splits\<close>)
  have known: "run_line tst_handler names p s = (command_functions tst_handler ! j) args (s\<lparr>line := m'\<rparr>)"
    if "j < length commands" "bytes_of (fst (commands ! j)) = w" for j
    using e(3) filter_table_names [OF that(1) that(2) [symmetric]] same [of j] by (simp add: run_line_def)
  have unknown: "\<exists>c. run_line tst_handler names p s = finished (s\<lparr>line := m', mach := (mach s)\<lparr>mcons := c\<rparr>\<rparr>)" if "w \<notin> set table_names"
  proof -
    have "filter (\<lambda>j. table_names ! j = w) [0..<length table_names] = []" using that nth_mem by (fastforce simp: filter_empty_conv)
    then have x: "execute_command names p (line s) = Some (Inr (Unknown_command (hd args')))" using e(3) by (simp only: list.case)
    have "arg_bytes args 0 (s\<lparr>line := m'\<rparr>) = Inr w" using a(2,3) by (intro arg_bytes_cstring) auto
    moreover obtain c where "kprint (\<lambda>_. w) [1] ((''Unknown command '' @ [CHR 0x27]) @ ''%s'' @ ([CHR 0x27] @ NL)) (mach s) = Inr ((mach s)\<lparr>mcons := c\<rparr>)"
      using kprint_string [of "''Unknown command '' @ [CHR 0x27]" "[CHR 0x27] @ NL" w "mach s"] by (auto simp: bytes_of_def)
    ultimately show ?thesis using x a(1) by (intro exI [of _ c]) (simp add: run_line_def say_def)
  qed
  show ?thesis using a(2,3) known unknown by blast
qed

text \<open>The numbers of arguments of the table: \<open>- 1\<close> is at least one.\<close>

definition takes_arguments :: "int \<Rightarrow> nat \<Rightarrow> bool" where
  "takes_arguments n k = (if n = - 1 then 1 \<le> k else int k = n)"

text \<open>
  C40. A command line of one to fifteen words whose first word is a name of the table, with as many words after it as the entry of the
  table says, runs exactly the function of that entry, on the words of the line and with nothing else changed. A line of one to fifteen words
  whose first word is not a subsequence of any name of the table changes nothing but the screen.
\<close>

theorem run_line_dispatches:
  assumes "cstring (line s) p xs" and "list_all2 (cstring (line s)) names table_names"
    and "\<forall>(a, w) \<in> set (zip names table_names). a + length w < p \<or> p + length xs \<le> a"
    and "toks WHITESPACE xs = w # ws" and "length (w # ws) \<le> 15"
  shows "\<exists>args m'. list_all2 (cstring m') args (w # ws) \<and>
    (\<forall>j < length commands. bytes_of (fst (commands ! j)) = w \<and> takes_arguments (snd (snd (commands ! j))) (length ws) \<longrightarrow>
       run_line tst_handler names p s = (command_functions tst_handler ! j) args (s\<lparr>line := m'\<rparr>)) \<and>
    (list_all (\<lambda>n. \<not> subseq w n) table_names \<longrightarrow>
       (\<exists>c. run_line tst_handler names p s = finished (s\<lparr>line := m', mach := (mach s)\<lparr>mcons := c\<rparr>\<rparr>)))"
proof -
  obtain args m' where d: "length args = min 15 (length (w # ws))" "\<forall>i < length args. cstring m' (args ! i) ((w # ws) ! i)"
      "\<forall>j < length commands. bytes_of (fst (commands ! j)) = w \<longrightarrow>
         run_line tst_handler names p s = (command_functions tst_handler ! j) args (s\<lparr>line := m'\<rparr>)"
      "w \<notin> set table_names \<longrightarrow> (\<exists>c. run_line tst_handler names p s = finished (s\<lparr>line := m', mach := (mach s)\<lparr>mcons := c\<rparr>\<rparr>))"
    using line_dispatches [OF assms(1-4), of tst_handler] by blast
  have "list_all2 (cstring m') args (w # ws)" using d(1,2) assms(5) by (simp add: list_all2_conv_all_nth)
  moreover have "w \<notin> set table_names" if "list_all (\<lambda>n. \<not> subseq w n) table_names"
    using that unfolding list_all_iff by blast
  ultimately show ?thesis using d(3,4) by blast
qed

text \<open>A memory with the names of the table 128 bytes apart and a line after them.\<close>

definition table_memory :: "byte list \<Rightarrow> memory" where
  "table_memory xs a =
     (if a < 16384 then (let j = a div 128; k = a mod 128 in
        if j < length table_names \<and> k < length (table_names ! j) then table_names ! j ! k else 0)
      else if a - 16384 < length xs then xs ! (a - 16384) else 0)"

definition table_addresses :: "nat list" where
  "table_addresses = map (\<lambda>j. 128 * j) [0..<length table_names]"

definition sample_shell :: "byte list \<Rightarrow> shell" where
  "sample_shell xs = \<lparr>mach = sample_machine,
     ram = (\<lambda>_. 0), line = table_memory xs, ptr_UserPrograms = [], start_of_kernel = 0xF0100000, end_of_kernel_code_section = 0xF0110000,
     start_of_uninitialized_data_section = 0xF0120000, end_of_kernel = 0xF0130000, numOfKheapVACalls = 0, chkstatus = 0, str_buf = (\<lambda>_. 0),
     answers = []\<rparr>"

lemma table_names_short: "list_all (\<lambda>w. length w < 128 \<and> 0 \<notin> set w) table_names"
  by (simp add: commands_def bytes_of_def)

lemma table_memory_names: "list_all2 (cstring (table_memory xs)) table_addresses table_names"
proof -
  have n: "length table_names = 67" by (simp add: commands_def)
  have "cstring (table_memory xs) (128 * j) (table_names ! j)" if "j < length table_names" for j
  proof -
    let ?w = "table_names ! j"
    have w: "length ?w < 128" "0 \<notin> set ?w" using table_names_short nth_mem [OF that] by (auto simp: list_all_iff)
    have "table_memory xs (128 * j + k) = (if k < length ?w then ?w ! k else 0)" if "k < 128" for k
      using that \<open>j < length table_names\<close> n by (auto simp: table_memory_def Let_def)
    then show ?thesis using w by (auto simp: cstring_def)
  qed
  then show ?thesis by (simp add: table_addresses_def list_all2_conv_all_nth)
qed

lemma table_memory_line:
  assumes "0 \<notin> set xs"
  shows "cstring (table_memory xs) 16384 xs"
    and "\<forall>(a, w) \<in> set (zip table_addresses table_names). a + length w < 16384 \<or> 16384 + length xs \<le> a"
proof -
  show "cstring (table_memory xs) 16384 xs" using assms by (auto simp: cstring_def table_memory_def)
  have n: "length table_names = 67" by (simp add: commands_def)
  have "128 * j + length (table_names ! j) < 16384" if "j < length table_names" for j
  proof -
    have "length (table_names ! j) < 128" using table_names_short nth_mem [OF that] by (auto simp: list_all_iff)
    then show ?thesis using that n by linarith
  qed
  then show "\<forall>(a, w) \<in> set (zip table_addresses table_names). a + length w < 16384 \<or> 16384 + length xs \<le> a"
    by (auto simp: table_addresses_def set_zip)
qed

theorem run_line_dispatches_witness:
  "\<exists>s'. run_line command_help table_addresses 16384 (sample_shell [99, 108, 111, 99, 107]) = finished s' \<and>
     PageRepAlgoType (vm_of (mach s')) = PG_REP_CLOCK"
proof -
  let ?xs = "[99, 108, 111, 99, 107] :: byte list" let ?s = "sample_shell ?xs"
  have l: "line ?s = table_memory ?xs" by (simp add: sample_shell_def)
  have t: "toks WHITESPACE ?xs = [?xs]" by (simp add: toks.simps WHITESPACE_def)
  have j: "10 < length commands" "bytes_of (fst (commands ! 10)) = ?xs" "takes_arguments (snd (snd (commands ! 10))) (length ([] :: byte list list))"
    by (simp_all add: commands_def bytes_of_def takes_arguments_def)
  have x: "0 \<notin> set ?xs" by simp
  obtain args m' where "\<forall>j < length commands. bytes_of (fst (commands ! j)) = ?xs \<and> takes_arguments (snd (snd (commands ! j))) (length ([] :: byte list list)) \<longrightarrow>
      run_line command_help table_addresses 16384 ?s = (command_functions command_help ! j) args (?s\<lparr>line := m'\<rparr>)"
    using run_line_dispatches [of ?s 16384 ?xs table_addresses ?xs "[]" command_help, unfolded l]
      table_memory_names [of ?xs] table_memory_line [OF x] t by auto
  then have r: "run_line command_help table_addresses 16384 ?s = (command_functions command_help ! 10) args (?s\<lparr>line := m'\<rparr>)" using j by blast
  have f: "command_functions command_help ! 10 = command_set_page_rep_CLOCK" by (simp add: command_functions_def)
  obtain c where "print (''Page replacement algorithm is now CLOCK'' @ NL) (upd_vm setPageReplacmentAlgorithmCLOCK (?s\<lparr>line := m'\<rparr>)) =
      Inr ((upd_vm setPageReplacmentAlgorithmCLOCK (?s\<lparr>line := m'\<rparr>))\<lparr>mach := (mach (upd_vm setPageReplacmentAlgorithmCLOCK (?s\<lparr>line := m'\<rparr>)))\<lparr>mcons := c\<rparr>\<rparr>)"
    using say_plain by (fastforce simp: bytes_of_def)
  then show ?thesis unfolding r f
    by (simp add: command_set_page_rep_CLOCK_def set_rep_def tell_def upd_vm_def setPageReplacmentAlgorithmCLOCK_def vm_of_def set_vm_def set_sh_vm_def)
qed

section \<open>Commands that stop the kernel\<close>

text \<open>
  The numbers of arguments in the table are not checked: each of these commands, given no word but its name, reads through the
  \<^verbatim>\<open>NULL\<close> pointer that ends the list of words.
\<close>

lemma missing_argument_traps:
  "list_all (\<lambda>f. f [a] s = Inl (Cpu_trap ''arguments[i] is NULL''))
     [command_readmem_k, command_nr, command_fp, command_p2v, command_v2p, command_ft, command_kill_program, command_sch_RR, command_sch_test,
      command_set_starve_thresh, command_writemem_k, command_remove_table, command_sch_BSD, command_set_priority,
      command_set_page_rep_nthCLOCK, command_readuserblock, command_sch_PRIRR, command_ap, command_sch_MLFQ]"
  by (simp add: arg_num_def arg_def command_readmem_k_def command_nr_def command_fp_def command_p2v_def command_v2p_def command_ft_def
      command_kill_program_def command_sch_RR_def command_sch_test_def command_set_starve_thresh_def command_writemem_k_def
      command_remove_table_def command_sch_BSD_def command_set_priority_def command_set_page_rep_nthCLOCK_def command_readuserblock_def
      command_sch_PRIRR_def command_ap_def command_sch_MLFQ_def)

text \<open>
  The three lines of the tests of \<^verbatim>\<open>process_command\<close> that the code does not treat as they ask: \<^verbatim>\<open>wm\<close> alone and \<^verbatim>\<open>lru 2 1\<close> run
  their commands, although the numbers of arguments differ from those of the table, and \<^verbatim>\<open>clk\<close>, a subsequence of \<^verbatim>\<open>clock\<close>,
  offers no command.
\<close>

lemma sample_line_dispatches:
  assumes "0 \<notin> set xs" "toks WHITESPACE xs = w # ws"
  shows "\<exists>args m'. length args = min 15 (length (w # ws)) \<and>
    (\<forall>j < length commands. bytes_of (fst (commands ! j)) = w \<longrightarrow>
       run_line t table_addresses 16384 (sample_shell xs) = (command_functions t ! j) args ((sample_shell xs)\<lparr>line := m'\<rparr>)) \<and>
    (w \<notin> set table_names \<longrightarrow>
       (\<exists>c. run_line t table_addresses 16384 (sample_shell xs) =
         finished ((sample_shell xs)\<lparr>line := m', mach := (mach (sample_shell xs))\<lparr>mcons := c\<rparr>\<rparr>)))"
proof -
  let ?s = "sample_shell xs"
  have l: "line ?s = table_memory xs" by (simp add: sample_shell_def)
  show ?thesis
    using line_dispatches [of ?s 16384 xs table_addresses w ws t, unfolded l] table_memory_names [of xs] table_memory_line [OF assms(1)] assms(2)
    by blast
qed

corollary sample_line_runs:
  assumes "0 \<notin> set xs" "toks WHITESPACE xs = w # ws" "j < length commands" "bytes_of (fst (commands ! j)) = w" "length ws < 15"
  shows "\<exists>args m'. length args = Suc (length ws) \<and>
    run_line t table_addresses 16384 (sample_shell xs) = (command_functions t ! j) args ((sample_shell xs)\<lparr>line := m'\<rparr>)"
proof -
  have "min 15 (length (w # ws)) = Suc (length ws)" using assms(5) by simp
  then show ?thesis using sample_line_dispatches [OF assms(1,2), of t] assms(3,4) by metis
qed

lemma tests_of_process_command_fail:
  shows "run_line t table_addresses 16384 (sample_shell [119, 109]) = Inl (Cpu_trap ''arguments[i] is NULL'')"
    and "\<exists>args m'. length args = 3 \<and> run_line t table_addresses 16384 (sample_shell [108, 114, 117, 32, 50, 32, 49]) =
           command_set_page_rep_LRU args ((sample_shell [108, 114, 117, 32, 50, 32, 49])\<lparr>line := m'\<rparr>)"
    and "\<exists>m' c. run_line t table_addresses 16384 (sample_shell [99, 108, 107]) =
           finished ((sample_shell [99, 108, 107])\<lparr>line := m', mach := (mach (sample_shell [99, 108, 107]))\<lparr>mcons := c\<rparr>\<rparr>)"
proof -
  have n: "47 < length commands" "44 < length commands" by (simp_all add: commands_def)
  have "toks WHITESPACE [119, 109] = [[119, 109]]" by (simp add: toks.simps WHITESPACE_def)
  moreover have "bytes_of (fst (commands ! 47)) = [119, 109]" by (simp add: commands_def bytes_of_def)
  moreover have "(0 :: byte) \<notin> set [119, 109]" by simp
  ultimately obtain args m' where "length args = 1"
      "run_line t table_addresses 16384 (sample_shell [119, 109]) = (command_functions t ! 47) args ((sample_shell [119, 109])\<lparr>line := m'\<rparr>)"
    using sample_line_runs [of "[119, 109]" "[119, 109]" "[]" 47 t] n(1) by auto
  moreover have "command_functions t ! 47 = command_writemem_k" by (simp add: command_functions_def)
  ultimately show "run_line t table_addresses 16384 (sample_shell [119, 109]) = Inl (Cpu_trap ''arguments[i] is NULL'')"
    by (simp add: command_writemem_k_def arg_num_def arg_def)
  let ?lru = "[108, 114, 117, 32, 50, 32, 49] :: byte list"
  have "toks WHITESPACE ?lru = [[108, 114, 117], [50], [49]]" by (simp add: toks.simps WHITESPACE_def)
  moreover have "bytes_of (fst (commands ! 44)) = [108, 114, 117]" by (simp add: commands_def bytes_of_def)
  moreover have "0 \<notin> set ?lru" by simp
  ultimately obtain args m' where "length args = Suc (Suc (Suc 0))"
      "run_line t table_addresses 16384 (sample_shell ?lru) = (command_functions t ! 44) args ((sample_shell ?lru)\<lparr>line := m'\<rparr>)"
    using sample_line_runs [of ?lru "[108, 114, 117]" "[[50], [49]]" 44 t] n(2) by auto
  moreover have "command_functions t ! 44 = command_set_page_rep_LRU" by (simp add: command_functions_def)
  ultimately show "\<exists>args m'. length args = 3 \<and> run_line t table_addresses 16384 (sample_shell ?lru) =
      command_set_page_rep_LRU args ((sample_shell ?lru)\<lparr>line := m'\<rparr>)" by (metis numeral_3_eq_3)
  have "toks WHITESPACE [99, 108, 107] = [[99, 108, 107]]" by (simp add: toks.simps WHITESPACE_def)
  moreover have "[99, 108, 107] \<notin> set table_names" by (simp add: commands_def bytes_of_def)
  moreover have "(0 :: byte) \<notin> set [99, 108, 107]" by simp
  ultimately show "\<exists>m' c. run_line t table_addresses 16384 (sample_shell [99, 108, 107]) =
      finished ((sample_shell [99, 108, 107])\<lparr>line := m', mach := (mach (sample_shell [99, 108, 107]))\<lparr>mcons := c\<rparr>\<rparr>)"
    using sample_line_dispatches [of "[99, 108, 107]" "[99, 108, 107]" "[]" t] by blast
qed

text \<open>
  An unknown program is reported, and nothing else happens, under the round robin scheduler; under the priority scheduler the report is
  followed by a read through the \<^verbatim>\<open>NULL\<close> pointer that \<^verbatim>\<open>env_create\<close> returned.
\<close>

lemma unknown_program:
  assumes "arguments = [a, b, c]" "cstring (line s) b name" "strtol (line s) c 10 = Some (ws, e)"
    and "PageRepAlgoType (vm_of (mach s)) \<noteq> PG_REP_LRU_LISTS_APPROX" "programs (mach s) (map (\<lambda>b. char_of (unat b)) name) = None"
  shows "method_of s = SCH_RR \<Longrightarrow> \<exists>k. command_run_program arguments s = finished (s\<lparr>mach := (mach s)\<lparr>mcons := k\<rparr>\<rparr>)"
    and "method_of s = SCH_PRIRR \<Longrightarrow> command_run_program arguments s = Inl (Cpu_trap ''env->env_id'')"
proof -
  have b: "arg_bytes arguments 1 s = Inr name" using arg_bytes_cstring [of s arguments 1 name] assms(1,2) by simp
  have p: "env_params arguments s = Inr (Some (uint32 ws, 0, - 100, 0), s)"
    using assms(1,3,4) by (simp add: env_params_def is_LRU_lists_def arg_num_def arg_def)
  obtain k where "kprint (\<lambda>_. bytes_of (map (\<lambda>b. char_of (unat b)) name)) [1] ((''Unknown user program '' @ [CHR 0x27]) @ ''%s'' @ ([CHR 0x27] @ NL)) (mach s) =
      Inr ((mach s)\<lparr>mcons := k\<rparr>)"
    using kprint_string [of "''Unknown user program '' @ [CHR 0x27]" "[CHR 0x27] @ NL"] by (fastforce simp: bytes_of_def)
  then have "env_create (map (\<lambda>b. char_of (unat b)) name) (uint32 ws) 0 0 (mach s) = Inr (None, (mach s)\<lparr>mcons := k\<rparr>)"
    using assms(5) by (simp add: env_create_def)
  then have c: "CreateEnv arguments s = (if method_of s = SCH_PRIRR then Inl (Cpu_trap ''env->env_id'') else Inr (None, s\<lparr>mach := (mach s)\<lparr>mcons := k\<rparr>\<rparr>))"
    using p b assms(4) by (simp add: CreateEnv_def is_LRU_lists_def)
  show "\<exists>k. command_run_program arguments s = finished (s\<lparr>mach := (mach s)\<lparr>mcons := k\<rparr>\<rparr>)" if "method_of s = SCH_RR"
    using that c by (intro exI [of _ k]) (simp add: command_run_program_def)
  show "command_run_program arguments s = Inl (Cpu_trap ''env->env_id'')" if "method_of s = SCH_PRIRR"
    using that c by (simp add: command_run_program_def)
qed

section \<open>Bytes written and read back\<close>

text \<open>The first bytes of physical memory are mapped at their own offset above the kernel's base, for writing.\<close>

definition direct_mapped :: "nat \<Rightarrow> kmem \<Rightarrow> bool" where
  "direct_mapped lim k \<longleftrightarrow> lim \<le> number_of_frames k * 4096 \<and> number_of_frames k \<le> 65536 \<and>
     (\<forall>pa < lim. kpde k (KERNEL_BASE + pa) AND PERM_PRESENT = PERM_PRESENT \<and> kpde k (KERNEL_BASE + pa) AND PERM_WRITEABLE = PERM_WRITEABLE \<and>
        PPN (EXTRACT_ADDRESS (kpde k (KERNEL_BASE + pa))) < number_of_frames k \<and>
        kpte k (KERNEL_BASE + pa) = CONSTRUCT_ENTRY (pa div 4096 * 4096) (PERM_WRITEABLE OR PERM_PRESENT))"

lemma translate_direct:
  assumes "direct_mapped lim k" "pa < lim"
  shows "translate wr (ptr_page_directory k) (KERNEL_BASE + pa) k = Inr pa"
proof -
  let ?va = "KERNEL_BASE + pa"
  have d: "number_of_frames k \<le> 65536" "lim \<le> number_of_frames k * 4096" "kpde k ?va AND PERM_PRESENT = PERM_PRESENT"
      "kpde k ?va AND PERM_WRITEABLE = PERM_WRITEABLE" "PPN (EXTRACT_ADDRESS (kpde k ?va)) < number_of_frames k"
      "kpte k ?va = CONSTRUCT_ENTRY (pa div 4096 * 4096) (PERM_WRITEABLE OR PERM_PRESENT)"
    using assms unfolding direct_mapped_def by auto
  have lt: "EXTRACT_ADDRESS (kpde k ?va) + KERNEL_BASE < U32"
    using d(1,5) by (simp add: PPN_def)
  have g: "get_page_table (ptr_page_directory k) ?va k = Inr (TABLE_IN_MEMORY, ktable k ?va)"
    using d(1-3,5) assms(2) lt
    by (simp add: get_page_table_def kpde_def [symmetric] CHECK_IF_KERNEL_ADDRESS_def STATIC_KERNEL_VIRTUAL_ADDRESS_def ktable_def u32_simps)
  have w: "kpte k ?va AND PERM_WRITEABLE = PERM_WRITEABLE" "kpte k ?va AND PERM_PRESENT = PERM_PRESENT"
    unfolding d(6) by (simp_all add: CONSTRUCT_ENTRY_def bit.conj_disj_distrib2)
  have "pa div 4096 < 1048576" using assms(2) d(1,2) by simp
  then have e: "EXTRACT_ADDRESS (kpte k ?va) = pa div 4096 * 4096" unfolding d(6) by (rule EXTRACT_CONSTRUCT) simp
  have o: "?va mod PAGE_SIZE = pa mod 4096" by (simp add: mod_add_eq [symmetric])
  have "pa div 4096 * 4096 + pa mod 4096 = pa" by simp
  then show ?thesis using g d(3,4) w e o
    by (simp add: translate_def Let_def kpde_def [symmetric] kpte_def [symmetric])
qed

text \<open>The address after the last byte may be the end of the address space.\<close>

lemma write_bytes_direct:
  assumes "direct_mapped lim (kmem_of s)" "pa + length bs \<le> lim"
  shows "write_bytes (kernel_dir s) (KERNEL_BASE + pa) bs s =
    Inr (s\<lparr>ram := (\<lambda>x. if pa \<le> x \<and> x < pa + length bs then bs ! (x - pa) else ram s x)\<rparr>)"
  using assms
proof (induction bs arbitrary: pa s)
  case (Cons b bs)
  let ?s = "s\<lparr>ram := (ram s)(pa := b)\<rparr>"
  have "number_of_frames (kmem_of s) \<le> 65536" "lim \<le> number_of_frames (kmem_of s) * 4096" using Cons.prems(1) by (auto simp: direct_mapped_def)
  then have wrap: "bs \<noteq> [] \<Longrightarrow> add32 (KERNEL_BASE + pa) 1 = KERNEL_BASE + Suc pa" using Cons.prems(2) by (cases bs) (simp_all add: u32_simps)
  have "write_bytes dir (add32 (KERNEL_BASE + pa) 1) bs x = write_bytes dir (KERNEL_BASE + Suc pa) bs x" for dir x
    using wrap by (cases "bs = []") simp_all
  moreover have "write_byte (kernel_dir s) (KERNEL_BASE + pa) b s = Inr ?s"
    using translate_direct [OF Cons.prems(1), of pa True] Cons.prems(2) by (simp add: write_byte_def)
  moreover have "write_bytes (kernel_dir ?s) (KERNEL_BASE + Suc pa) bs ?s =
      Inr (?s\<lparr>ram := (\<lambda>x. if Suc pa \<le> x \<and> x < Suc pa + length bs then bs ! (x - Suc pa) else ram ?s x)\<rparr>)"
    by (rule Cons.IH) (use Cons.prems in simp_all)
  ultimately show ?case by (auto simp: fun_eq_iff nth_Cons' intro!: shell.equality)
qed (simp add: not_less [symmetric])

text \<open>
  The command \<^verbatim>\<open>wm\<close> stores the characters of its second word at the physical address its first word says and at no other
  place, and reading at the addresses above the kernel's base, as \<^verbatim>\<open>rm\<close> does, gives them back.
\<close>

lemma wm_rm_round_trip:
  assumes "direct_mapped lim (kmem_of s)" and "strtol (line s) a 16 = Some (int pa, e)" and "cstring (line s) t w"
    and "pa + length w \<le> lim" and "w \<noteq> []"
  shows "\<exists>s'. command_writemem_k [c, a, t] s = finished s' \<and>
    s' = s\<lparr>ram := (\<lambda>x. if pa \<le> x \<and> x < pa + length w then w ! (x - pa) else ram s x)\<rparr> \<and>
    (\<forall>i < length w. read_byte (kernel_dir s') (KERNEL_BASE + pa + i) s' = Inr (w ! i)) \<and>
    command_readmem_k [c', a] s' = andThen (say (\<lambda>_. []) [word_of_nat (KERNEL_BASE + pa), ucast (hd w)] (''value at virtual address %x = %c'' @ NL) s') (\<lambda>s. finished s)"
proof -
  have n: "number_of_frames (kmem_of s) \<le> 65536" "lim \<le> number_of_frames (kmem_of s) * 4096" using assms(1) by (auto simp: direct_mapped_def)
  then have "pa < 2 ^ 32" using assms(4,5) by (cases w) simp_all
  then have u: "uint32 (int pa) = pa" by (simp add: uint32_def)
  have "pa + KERNEL_BASE < U32" using n assms(4,5) by (cases w) simp_all
  then have v: "add32 pa KERNEL_BASE = KERNEL_BASE + pa" by (simp add: u32_simps)
  have b: "arg_bytes [c, a, t] 2 s = Inr w" using arg_bytes_cstring [of s "[c, a, t]" 2 w] assms(3) by simp
  let ?s = "s\<lparr>ram := (\<lambda>x. if pa \<le> x \<and> x < pa + length w then w ! (x - pa) else ram s x)\<rparr>"
  have "command_writemem_k [c, a, t] s = finished ?s"
    using write_bytes_direct [OF assms(1,4)] assms(2) b u v by (simp add: command_writemem_k_def arg_num_def arg_def)
  moreover have r: "read_byte (kernel_dir ?s) (KERNEL_BASE + pa + i) ?s = Inr (w ! i)" if "i < length w" for i
    using translate_direct [OF assms(1), of "pa + i" False] assms(4) that by (simp add: read_byte_def add.assoc)
  moreover have "command_readmem_k [c', a] ?s =
      andThen (say (\<lambda>_. []) [word_of_nat (KERNEL_BASE + pa), ucast (hd w)] (''value at virtual address %x = %c'' @ NL) ?s) (\<lambda>s. finished s)"
    using r [of 0] assms(2,5) u v by (simp add: command_readmem_k_def arg_num_def arg_def hd_conv_nth)
  ultimately show ?thesis by blast
qed

definition sample_direct :: shell where
  "sample_direct = upd_vm (\<lambda>v. v\<lparr>km := (km v)\<lparr>number_of_frames := 2, directories := (\<lambda>_ _. CONSTRUCT_ENTRY 4096 (PERM_WRITEABLE OR PERM_PRESENT)),
     tables := (\<lambda>_ _. CONSTRUCT_ENTRY 0 (PERM_WRITEABLE OR PERM_PRESENT))\<rparr>\<rparr>)
     ((sample_shell [])\<lparr>line := fill 10 2 (\<lambda>i. [49, 48] ! i) (fill 20 2 (\<lambda>i. [104, 105] ! i) (\<lambda>_. 0))\<rparr>)"

lemma wm_rm_round_trip_witness:
  "\<exists>s'. command_writemem_k [0, 10, 20] sample_direct = finished s' \<and> ram s' 16 = 104 \<and> ram s' 17 = 105 \<and>
     read_byte (kernel_dir s') (KERNEL_BASE + 16 + 1) s' = Inr 105"
proof -
  let ?k = "kmem_of sample_direct"
  have k: "number_of_frames ?k = 2" "directories ?k = (\<lambda>_ _. CONSTRUCT_ENTRY 4096 (PERM_WRITEABLE OR PERM_PRESENT))"
      "tables ?k = (\<lambda>_ _. CONSTRUCT_ENTRY 0 (PERM_WRITEABLE OR PERM_PRESENT))"
      "line sample_direct = fill 10 2 (\<lambda>i. [49, 48] ! i) (fill 20 2 (\<lambda>i. [104, 105] ! i) (\<lambda>_. 0))"
    by (simp_all add: sample_direct_def upd_vm_def vm_of_def set_vm_def set_sh_vm_def)
  have "direct_mapped 4096 ?k"
    using EXTRACT_CONSTRUCT [of 1 "PERM_WRITEABLE OR PERM_PRESENT"] by (auto simp: direct_mapped_def kpde_def kpte_def k CONSTRUCT_ENTRY_def PPN_def)
  moreover have "strtol (line sample_direct) 10 16 = Some (int 16, 12)"
    by (simp add: k strtol_def fill_def skip_blanks.simps digits_loop.simps base_prefix_def digit_of_def int32_def)
  moreover have "cstring (line sample_direct) 20 [104, 105]" by (auto simp: k cstring_def fill_def nth_Cons')
  ultimately show ?thesis
    using wm_rm_round_trip [of 4096 sample_direct 10 16 12 20 "[104, 105]" 0 0] by (auto simp: less_Suc_eq)
qed

end
