(* ===== verification/Devices.thy ===== *)
theory Devices
  imports Scheduler
begin

text \<open>
  The interrupt controllers (\<^verbatim>\<open>src/kern/cpu/picirq.c\<close>) and the timer
  (\<^verbatim>\<open>src/kern/cpu/kclock.c\<close>, the macros of \<^verbatim>\<open>src/inc/timerreg.h\<close>). The drivers run over a bus: the
  instructions \<^verbatim>\<open>inb\<close>, \<^verbatim>\<open>outb\<close>, \<^verbatim>\<open>insl\<close> and \<^verbatim>\<open>outsl\<close> are an argument \<open>ports\<close>, and what the drivers need of the
  chips behind them are the locales \<open>mask_registers\<close> and \<open>counter_channel\<close>. They are interpreted on a board with two 8259A
  and one 8253 that follow the data sheets as far as the drivers use them, where the counter moves on with every access.
\<close>

unbundle bit_operations_syntax

section \<open>The bus\<close>

type_synonym byte = "8 word"

record 'io ports =
  inb :: "nat \<Rightarrow> 'io \<Rightarrow> byte \<times> 'io"
  outb :: "nat \<Rightarrow> byte \<Rightarrow> 'io \<Rightarrow> 'io"
  insl :: "nat \<Rightarrow> nat \<Rightarrow> 'io \<Rightarrow> byte list \<times> 'io"
  outsl :: "nat \<Rightarrow> byte list \<Rightarrow> 'io \<Rightarrow> 'io"

text \<open>The variables of the drivers: \<^verbatim>\<open>didinit\<close> and \<^verbatim>\<open>irq_init_mask_8259A\<close> of \<^verbatim>\<open>picirq.c\<close>, the processor for the nesting of
  disabled interrupts, and the devices.\<close>

record 'io kdev =
  didinit :: bool
  irq_init_mask_8259A :: "16 word"
  dcpu :: cpu
  bus :: 'io

definition put_port :: "'io ports \<Rightarrow> nat \<Rightarrow> byte \<Rightarrow> 'io kdev \<Rightarrow> 'io kdev" where
  "put_port P p v d = d\<lparr>bus := outb P p v (bus d)\<rparr>"

definition get_port :: "'io ports \<Rightarrow> nat \<Rightarrow> 'io kdev \<Rightarrow> byte \<times> 'io kdev" where
  "get_port P p d = (let (v, b) = inb P p (bus d) in (v, d\<lparr>bus := b\<rparr>))"

fun put_ports :: "'io ports \<Rightarrow> (nat \<times> byte) list \<Rightarrow> 'io kdev \<Rightarrow> 'io kdev" where
  "put_ports P [] d = d"
| "put_ports P ((p, v) # ws) d = put_ports P ws (put_port P p v d)"

section \<open>The interrupt controllers\<close>

abbreviation PIC1_CMD :: nat where "PIC1_CMD \<equiv> 0x20"
abbreviation PIC1_DATA :: nat where "PIC1_DATA \<equiv> 0x21"
abbreviation PIC2_CMD :: nat where "PIC2_CMD \<equiv> 0xA0"
abbreviation PIC2_DATA :: nat where "PIC2_DATA \<equiv> 0xA1"
abbreviation PIC_EOI :: byte where "PIC_EOI \<equiv> 0x20"
abbreviation IRQ_SLAVE :: nat where "IRQ_SLAVE \<equiv> 2"
abbreviation IRQ_OFFSET :: nat where "IRQ_OFFSET \<equiv> 32"

definition irq_setmask_8259A :: "'io ports \<Rightarrow> 16 word \<Rightarrow> 'io kdev \<Rightarrow> 'io kdev" where
  "irq_setmask_8259A P msk d =
     (if \<not> didinit d then d
      else put_port P PIC2_DATA (ucast (drop_bit 8 msk)) (put_port P PIC1_DATA (ucast msk) d))"

text \<open>The mask is not changed by the writes, so it is the one the variable is initialised with.\<close>

definition irq_init_mask :: "16 word" where
  "irq_init_mask = 0xFFFF AND NOT (push_bit IRQ_SLAVE 1)"

definition pic_init :: "'io ports \<Rightarrow> 'io kdev \<Rightarrow> 'io kdev" where
  "pic_init P d =
     (let d = d\<lparr>didinit := True\<rparr>;
          d = put_ports P
                [(PIC1_DATA, 0xFF), (PIC2_DATA, 0xFF),
                 (PIC1_CMD, 0x11), (PIC1_DATA, word_of_nat IRQ_OFFSET), (PIC1_DATA, push_bit IRQ_SLAVE 1), (PIC1_DATA, 0x3),
                 (PIC2_CMD, 0x11), (PIC2_DATA, word_of_nat (IRQ_OFFSET + 8)), (PIC2_DATA, word_of_nat IRQ_SLAVE), (PIC2_DATA, 0x01),
                 (PIC1_CMD, 0x68), (PIC1_CMD, 0x0A),
                 (PIC2_CMD, 0x68), (PIC2_CMD, 0x0A)] d
      in if irq_init_mask_8259A d \<noteq> 0xFFFF then irq_setmask_8259A P (irq_init_mask_8259A d) d else d)"

text \<open>\<^verbatim>\<open>IRQline\<close> is a \<^verbatim>\<open>uint8\<close>; a shift by the width of \<^verbatim>\<open>int\<close> or more is undefined, one by 8 or more leaves the byte.\<close>

definition irq_port :: "nat \<Rightarrow> nat \<times> nat" where
  "irq_port IRQline = (if IRQline < 8 then (PIC1_DATA, IRQline) else (PIC2_DATA, IRQline - 8))"

definition irq_bit :: "nat \<Rightarrow> byte result" where
  "irq_bit n = (if n < 32 then Inr (push_bit n 1) else Inl (Corrupted ''1 << IRQline''))"

definition irq_set_mask :: "'io ports \<Rightarrow> nat \<Rightarrow> 'io kdev \<Rightarrow> 'io kdev result" where
  "irq_set_mask P IRQline d =
     (if \<not> didinit d then Inr d
      else
        (let (port, line) = irq_port IRQline; (v, d) = get_port P port d
         in andThen (irq_bit line) (\<lambda>b. Inr (put_port P port (v OR b) d))))"

definition irq_clear_mask :: "'io ports \<Rightarrow> nat \<Rightarrow> 'io kdev \<Rightarrow> 'io kdev result" where
  "irq_clear_mask P IRQline d =
     (if \<not> didinit d then Inr d
      else
        (let (port, line) = irq_port IRQline; (v, d) = get_port P port d
         in andThen (irq_bit line) (\<lambda>b. Inr (put_port P port (v AND NOT b) d))))"

definition irq_get_mask :: "'io ports \<Rightarrow> nat \<Rightarrow> 'io kdev \<Rightarrow> (int \<times> 'io kdev) result" where
  "irq_get_mask P IRQline d =
     (if \<not> didinit d then Inr (- 1, d)
      else
        (let (port, line) = irq_port IRQline; (v, d) = get_port P port d
         in andThen (irq_bit line) (\<lambda>b. Inr (uint (v AND b), d))))"

definition pic_sendEOI :: "'io ports \<Rightarrow> nat \<Rightarrow> 'io kdev \<Rightarrow> 'io kdev" where
  "pic_sendEOI P irq d =
     (let d = (if irq \<ge> 8 then put_port P PIC2_CMD PIC_EOI d else d) in put_port P PIC1_CMD PIC_EOI d)"

section \<open>The timer\<close>

abbreviation TIMER_CNTR0 :: nat where "TIMER_CNTR0 \<equiv> 0x40"
abbreviation TIMER_MODE :: nat where "TIMER_MODE \<equiv> 0x43"
abbreviation RATEGEN_16BIT :: byte where "RATEGEN_16BIT \<equiv> 0x34"  \<comment> \<open>\<^verbatim>\<open>TIMER_SEL0 | TIMER_RATEGEN | TIMER_16BIT\<close>\<close>
abbreviation LATCH0 :: byte where "LATCH0 \<equiv> 0"  \<comment> \<open>\<^verbatim>\<open>TIMER_SEL0 | TIMER_LATCH\<close>\<close>

definition TIMER_FREQ :: nat where
  "TIMER_FREQ = 1193182"

definition TIMER_DIV :: "nat \<Rightarrow> nat" where
  "TIMER_DIV x = (TIMER_FREQ + x div 2) div x"

definition QUANTUM_LIMIT :: nat where
  "QUANTUM_LIMIT = 1000 * 2 ^ 16 div TIMER_FREQ"

definition IS_VALID_QUANTUM :: "nat \<Rightarrow> bool" where
  "IS_VALID_QUANTUM quantum_in_ms \<longleftrightarrow> quantum_in_ms < QUANTUM_LIMIT"

definition NUM_CLKS_PER_QUANTUM :: "nat \<Rightarrow> nat" where
  "NUM_CLKS_PER_QUANTUM q = TIMER_DIV (1000 div q) + TIMER_DIV (1000 div q) mod 2"

definition kclock_write_cnt0_LSB_first :: "'io ports \<Rightarrow> 16 word \<Rightarrow> 'io kdev \<Rightarrow> 'io kdev result" where
  "kclock_write_cnt0_LSB_first P val d =
     (let d = d\<lparr>dcpu := pushcli (dcpu d)\<rparr>;
          d = put_port P TIMER_CNTR0 (ucast (val AND 0x00FF)) d;
          d = put_port P TIMER_CNTR0 (ucast (drop_bit 8 val AND 0x00FF)) d
      in andThen (popcli (dcpu d)) (\<lambda>c. Inr (d\<lparr>dcpu := c\<rparr>)))"

definition two_bytes :: "byte \<Rightarrow> byte \<Rightarrow> 16 word" where
  "two_bytes hi lo = push_bit 8 (ucast hi) OR ucast lo"

definition kclock_read_cnt0 :: "'io ports \<Rightarrow> 'io kdev \<Rightarrow> (16 word \<times> 'io kdev) result" where
  "kclock_read_cnt0 P d =
     (let d = d\<lparr>dcpu := pushcli (dcpu d)\<rparr>;
          (cnt0_lo, d) = get_port P TIMER_CNTR0 d;
          (cnt0_hi, d) = get_port P TIMER_CNTR0 d
      in andThen (popcli (dcpu d)) (\<lambda>c. Inr (two_bytes cnt0_hi cnt0_lo, d\<lparr>dcpu := c\<rparr>)))"

definition kclock_read_cnt0_latch :: "'io ports \<Rightarrow> 'io kdev \<Rightarrow> 16 word \<times> 'io kdev" where
  "kclock_read_cnt0_latch P d =
     (let (old_mode, d) = get_port P TIMER_MODE d;
          d = put_port P TIMER_MODE LATCH0 d;
          (cnt0_lo, d) = get_port P TIMER_CNTR0 d;
          (cnt0_hi, d) = get_port P TIMER_CNTR0 d
      in (two_bytes cnt0_hi cnt0_lo, put_port P TIMER_MODE old_mode d))"

definition kclock_start :: "'io ports \<Rightarrow> nat \<Rightarrow> 'io kdev \<Rightarrow> 'io kdev result" where
  "kclock_start P quantum_in_ms d =
     (let d = put_port P TIMER_MODE RATEGEN_16BIT d
      in if IS_VALID_QUANTUM quantum_in_ms then
           (let d = put_port P TIMER_MODE RATEGEN_16BIT d
            in if quantum_in_ms = 0 then Inl (Cpu_trap ''1000/quantum_in_ms'')
               else
                 andThen (kclock_write_cnt0_LSB_first P (word_of_nat (TIMER_DIV (1000 div quantum_in_ms))) d) (\<lambda>d.
                 irq_clear_mask P 0 d))
         else Inl (Panic ''attempt to set the CPU quantum by too large value.''))"

definition kclock_stop_hw :: "'io ports \<Rightarrow> 'io kdev \<Rightarrow> 'io kdev result" where
  "kclock_stop_hw P d = irq_set_mask P 0 (put_port P TIMER_MODE RATEGEN_16BIT d)"

definition resumed_count :: "16 word \<Rightarrow> 16 word" where
  "resumed_count cnt0 =
     (let cnt0 = (if cnt0 < 20 then 20 else cnt0) in if odd (unat cnt0) then cnt0 + 1 else cnt0)"

definition kclock_resume_hw :: "'io ports \<Rightarrow> 'io kdev \<Rightarrow> 'io kdev result" where
  "kclock_resume_hw P d =
     (let (cnt0, d) = kclock_read_cnt0_latch P d;
          cnt0 = resumed_count cnt0;
          d = put_port P TIMER_MODE RATEGEN_16BIT d
      in andThen (kclock_write_cnt0_LSB_first P cnt0 d) (irq_clear_mask P 0))"

definition kclock_start_counter :: "'io ports \<Rightarrow> byte \<Rightarrow> 'io kdev \<Rightarrow> 'io kdev result" where
  "kclock_start_counter P cnt0 d =
     (let d = put_port P TIMER_MODE RATEGEN_16BIT d
      in andThen (kclock_write_cnt0_LSB_first P (ucast cnt0) d) (irq_clear_mask P 0))"

definition kclock_set_quantum_hw :: "'io ports \<Rightarrow> nat \<Rightarrow> 'io kdev \<Rightarrow> 'io kdev result" where
  "kclock_set_quantum_hw P quantum_in_ms d =
     (if IS_VALID_QUANTUM quantum_in_ms then
        (if quantum_in_ms = 0 then Inl (Cpu_trap ''1000/quantum_in_ms'')
         else
           (let cnt = NUM_CLKS_PER_QUANTUM quantum_in_ms;
                d = put_port P TIMER_MODE RATEGEN_16BIT d
            in andThen (kclock_write_cnt0_LSB_first P (word_of_nat cnt) d) (kclock_stop_hw P)))
      else Inl (Panic ''attempt to set the CPU quantum by too large value.''))"

text \<open>The non-volatile memory of the clock chip.\<close>

definition mc146818_read :: "'io ports \<Rightarrow> nat \<Rightarrow> 'io kdev \<Rightarrow> nat \<times> 'io kdev" where
  "mc146818_read P reg d =
     (let (v, d) = get_port P 0x71 (put_port P 0x70 (word_of_nat reg) d) in (unat v, d))"

definition mc146818_write :: "'io ports \<Rightarrow> nat \<Rightarrow> nat \<Rightarrow> 'io kdev \<Rightarrow> 'io kdev" where
  "mc146818_write P reg datum d = put_port P 0x71 (word_of_nat datum) (put_port P 0x70 (word_of_nat reg) d)"

section \<open>What the drivers need of the chips\<close>

text \<open>The data ports of the controllers hold the masks (\<open>imr\<close>) once the initialisation words are through (\<open>ready\<close>).\<close>

locale mask_registers =
  fixes P :: "'io ports" and ready :: "'io \<Rightarrow> bool" and imr :: "nat \<Rightarrow> 'io \<Rightarrow> byte"
  assumes read_mask: "ready b \<Longrightarrow> p \<in> {PIC1_DATA, PIC2_DATA} \<Longrightarrow> fst (inb P p b) = imr p b"
    and read_keeps: "ready b \<Longrightarrow> p \<in> {PIC1_DATA, PIC2_DATA} \<Longrightarrow> ready (snd (inb P p b)) \<and> imr q (snd (inb P p b)) = imr q b"
    and write_mask: "ready b \<Longrightarrow> p \<in> {PIC1_DATA, PIC2_DATA} \<Longrightarrow> q \<in> {PIC1_DATA, PIC2_DATA} \<Longrightarrow>
      ready (outb P p v b) \<and> imr q (outb P p v b) = (if q = p then v else imr q b)"

definition masked_lines :: "(nat \<Rightarrow> 'io \<Rightarrow> byte) \<Rightarrow> 'io \<Rightarrow> nat set" where
  "masked_lines imr b = {l. l < 16 \<and> bit (imr (fst (irq_port l)) b) (snd (irq_port l))}"

lemma irq_port_cases: "fst (irq_port l) \<in> {PIC1_DATA, PIC2_DATA}" "l < 16 \<Longrightarrow> snd (irq_port l) < 8"
  by (auto simp: irq_port_def)

lemma irq_port_inj: "irq_port k = irq_port l \<longleftrightarrow> k = l"
  by (auto simp: irq_port_def)

lemma irq_bit_line: "l < 16 \<Longrightarrow> irq_bit (snd (irq_port l)) = Inr (push_bit (snd (irq_port l)) 1)"
  by (auto simp: irq_bit_def irq_port_def)

lemma bit_irq_bit: "n < 8 \<Longrightarrow> bit (2 ^ n :: byte) m \<longleftrightarrow> m = n"
  by (auto simp: bit_exp_iff)

lemma line_split: "k \<noteq> l \<Longrightarrow> fst (irq_port k) = fst (irq_port l) \<Longrightarrow> snd (irq_port k) \<noteq> snd (irq_port l)"
  by (metis irq_port_inj prod_eqI)

context mask_registers
begin

lemma port_pair:
  assumes "ready (bus d)"
  obtains d1 where "get_port P (fst (irq_port l)) d = (imr (fst (irq_port l)) (bus d), d1)"
    "ready (bus d1)" "\<And>q. imr q (bus d1) = imr q (bus d)"
    "d1 = d\<lparr>bus := snd (inb P (fst (irq_port l)) (bus d))\<rparr>"
  using read_mask [OF assms irq_port_cases(1)] read_keeps [OF assms irq_port_cases(1)]
  by (auto simp: get_port_def split_beta)

lemma put_masks:
  assumes "ready (bus d)" "\<And>m. m < 8 \<Longrightarrow> bit v m \<longleftrightarrow> f (bit (imr (fst (irq_port l)) (bus d)) m) (m = snd (irq_port l))"
    and "\<And>x. f x False = x"
  shows "masked_lines imr (bus (put_port P (fst (irq_port l)) v d)) =
    {k. k < 16 \<and> (if k = l then f (l \<in> masked_lines imr (bus d)) True else k \<in> masked_lines imr (bus d))}"
proof (rule set_eqI)
  fix k
  show "k \<in> masked_lines imr (bus (put_port P (fst (irq_port l)) v d)) \<longleftrightarrow>
    k \<in> {k. k < 16 \<and> (if k = l then f (l \<in> masked_lines imr (bus d)) True else k \<in> masked_lines imr (bus d))}"
    using assms(2) [OF irq_port_cases(2), of k] line_split [of k l]
    by (cases "k = l"; cases "fst (irq_port k) = fst (irq_port l)"; cases "k < 16")
      (simp_all add: masked_lines_def put_port_def assms(3) write_mask [OF assms(1) irq_port_cases(1) irq_port_cases(1)])
qed

lemma set_mask:
  assumes "didinit d" "ready (bus d)" "l < 16"
  shows "\<exists>d'. irq_set_mask P l d = Inr d' \<and> didinit d' \<and> dcpu d' = dcpu d \<and> ready (bus d') \<and>
    masked_lines imr (bus d') = insert l (masked_lines imr (bus d))"
proof -
  obtain d1 where d1: "get_port P (fst (irq_port l)) d = (imr (fst (irq_port l)) (bus d), d1)"
    "ready (bus d1)" "\<And>q. imr q (bus d1) = imr q (bus d)" "d1 = d\<lparr>bus := snd (inb P (fst (irq_port l)) (bus d))\<rparr>"
    using port_pair [OF assms(2), of l] by blast
  have m: "masked_lines imr (bus d1) = masked_lines imr (bus d)" by (simp add: masked_lines_def d1(3))
  have p: "masked_lines imr (bus (put_port P (fst (irq_port l)) (imr (fst (irq_port l)) (bus d) OR push_bit (snd (irq_port l)) 1) d1)) =
      {k. k < 16 \<and> (if k = l then l \<in> masked_lines imr (bus d1) \<or> True else k \<in> masked_lines imr (bus d1))}"
    using irq_port_cases(2) [OF assms(3)]
    by (intro put_masks [OF d1(2), where f = "(\<or>)"]) (auto simp: d1(3) bit_irq_bit bit_or_iff)
  show ?thesis
    using write_mask [OF d1(2) irq_port_cases(1) irq_port_cases(1)] p m assms d1(4)
    by (auto simp: irq_set_mask_def split_beta d1(1) irq_bit_line masked_lines_def put_port_def)
qed

lemma clear_mask:
  assumes "didinit d" "ready (bus d)" "l < 16"
  shows "\<exists>d'. irq_clear_mask P l d = Inr d' \<and> didinit d' \<and> dcpu d' = dcpu d \<and> ready (bus d') \<and>
    masked_lines imr (bus d') = masked_lines imr (bus d) - {l}"
proof -
  obtain d1 where d1: "get_port P (fst (irq_port l)) d = (imr (fst (irq_port l)) (bus d), d1)"
    "ready (bus d1)" "\<And>q. imr q (bus d1) = imr q (bus d)" "d1 = d\<lparr>bus := snd (inb P (fst (irq_port l)) (bus d))\<rparr>"
    using port_pair [OF assms(2), of l] by blast
  have m: "masked_lines imr (bus d1) = masked_lines imr (bus d)" by (simp add: masked_lines_def d1(3))
  have p: "masked_lines imr (bus (put_port P (fst (irq_port l)) (imr (fst (irq_port l)) (bus d) AND NOT (push_bit (snd (irq_port l)) 1)) d1)) =
      {k. k < 16 \<and> (if k = l then l \<in> masked_lines imr (bus d1) \<and> \<not> True else k \<in> masked_lines imr (bus d1))}"
    using irq_port_cases(2) [OF assms(3)]
    by (intro put_masks [OF d1(2), where f = "\<lambda>x y. x \<and> \<not> y"]) (auto simp: d1(3) bit_irq_bit bit_and_iff bit_not_iff)
  show ?thesis
    using write_mask [OF d1(2) irq_port_cases(1) irq_port_cases(1)] p m assms d1(4)
    by (auto simp: irq_clear_mask_def split_beta d1(1) irq_bit_line masked_lines_def put_port_def)
qed

lemma get_mask:
  assumes "didinit d" "ready (bus d)" "l < 16"
  shows "\<exists>r d'. irq_get_mask P l d = Inr (r, d') \<and> (r \<noteq> 0 \<longleftrightarrow> l \<in> masked_lines imr (bus d)) \<and>
    ready (bus d') \<and> masked_lines imr (bus d') = masked_lines imr (bus d)"
proof -
  obtain d1 where d1: "get_port P (fst (irq_port l)) d = (imr (fst (irq_port l)) (bus d), d1)"
    "ready (bus d1)" "\<And>q. imr q (bus d1) = imr q (bus d)" "d1 = d\<lparr>bus := snd (inb P (fst (irq_port l)) (bus d))\<rparr>"
    using port_pair [OF assms(2), of l] by blast
  have "(imr (fst (irq_port l)) (bus d) AND push_bit (snd (irq_port l)) 1) \<noteq> 0 \<longleftrightarrow> l \<in> masked_lines imr (bus d)"
    using irq_port_cases(2) [OF assms(3)] assms(3)
    by (simp add: masked_lines_def and_exp_eq_0_iff_not_bit)
  then show ?thesis
    using assms d1(2,3) by (auto simp: irq_get_mask_def split_beta d1(1) irq_bit_line masked_lines_def uint_0_iff)
qed

end

text \<open>
  Channel 0 of the timer: \<open>loaded\<close> is the count last written in full, \<open>idle\<close> is the count at which the channel stands after
  a control word, until it gets a new count. Accesses to one chip do not disturb the other.
\<close>

locale counter_channel = mask_registers P ready imr
  for P :: "'io ports" and ready :: "'io \<Rightarrow> bool" and imr :: "nat \<Rightarrow> 'io \<Rightarrow> byte" +
  fixes loaded :: "'io \<Rightarrow> 16 word" and idle :: "'io \<Rightarrow> 16 word option"
  assumes control: "idle (outb P TIMER_MODE RATEGEN_16BIT b) \<noteq> None" "loaded (outb P TIMER_MODE v b) = loaded b"
    and load: "idle b \<noteq> None \<Longrightarrow> loaded (outb P TIMER_CNTR0 hi (outb P TIMER_CNTR0 lo b)) = two_bytes hi lo"
    and latch: "idle b = Some c \<Longrightarrow> l = outb P TIMER_MODE LATCH0 (snd (inb P TIMER_MODE b)) \<Longrightarrow>
      fst (inb P TIMER_CNTR0 l) = ucast c \<and> fst (inb P TIMER_CNTR0 (snd (inb P TIMER_CNTR0 l))) = ucast (drop_bit 8 c)"
    and timer_keeps: "p \<in> {TIMER_CNTR0, TIMER_MODE} \<Longrightarrow> ready (outb P p v b) = ready b \<and> imr q (outb P p v b) = imr q b"
      "p \<in> {TIMER_CNTR0, TIMER_MODE} \<Longrightarrow> ready (snd (inb P p b)) = ready b \<and> imr q (snd (inb P p b)) = imr q b"
    and masks_keep: "p \<in> {PIC1_DATA, PIC2_DATA} \<Longrightarrow> loaded (outb P p v b) = loaded b \<and> (idle b \<noteq> None \<longrightarrow> idle (outb P p v b) = idle b)"
      "p \<in> {PIC1_DATA, PIC2_DATA} \<Longrightarrow> loaded (snd (inb P p b)) = loaded b \<and> (idle b \<noteq> None \<longrightarrow> idle (snd (inb P p b)) = idle b)"

lemma two_bytes_join: "two_bytes (ucast (drop_bit 8 v)) (ucast v) = v" for v :: "16 word"
  by (rule bit_word_eqI) (auto simp: two_bytes_def bit_simps)

lemma low_byte_mask: "ucast (v AND 0x00FF) = (ucast v :: byte)" for v :: "16 word"
proof -
  have e: "(0x00FF :: 16 word) = mask 8" by (simp add: mask_eq_exp_minus_1)
  show ?thesis unfolding e by (auto intro!: bit_word_eqI simp: bit_simps)
qed

context counter_channel
begin

lemma line0_keeps:
  assumes "irq_set_mask P 0 d = Inr d' \<or> irq_clear_mask P 0 d = Inr d'"
  shows "loaded (bus d') = loaded (bus d)" "idle (bus d) \<noteq> None \<Longrightarrow> idle (bus d') = idle (bus d)"
  using assms masks_keep
  by (auto simp: irq_set_mask_def irq_clear_mask_def irq_port_def irq_bit_def put_port_def get_port_def split_beta
      split: if_splits)

lemma write_count:
  assumes "cpu_wf (dcpu d)" "idle (bus d) \<noteq> None"
  shows "\<exists>d'. kclock_write_cnt0_LSB_first P v d = Inr d' \<and> loaded (bus d') = v \<and> didinit d' = didinit d \<and>
    same_mask (dcpu d) (dcpu d') \<and> cpu_wf (dcpu d') \<and> ready (bus d') = ready (bus d) \<and> (\<forall>q. imr q (bus d') = imr q (bus d))"
  using popcli_pushcli [OF assms(1)] load [OF assms(2), of "ucast (drop_bit 8 v)" "ucast v"] timer_keeps
  by (auto simp: kclock_write_cnt0_LSB_first_def put_port_def low_byte_mask two_bytes_join)

lemma latch_read:
  assumes "idle (bus d) = Some c"
  shows "\<exists>d'. kclock_read_cnt0_latch P d = (c, d') \<and> didinit d' = didinit d \<and> dcpu d' = dcpu d \<and>
    ready (bus d') = ready (bus d) \<and> (\<forall>q. imr q (bus d') = imr q (bus d))"
  using latch [OF assms refl] timer_keeps
  by (auto simp: kclock_read_cnt0_latch_def get_port_def put_port_def split_beta two_bytes_join)

lemma stop_clock:
  assumes "didinit d" "ready (bus d)"
  shows "\<exists>d'. kclock_stop_hw P d = Inr d' \<and> didinit d' \<and> dcpu d' = dcpu d \<and> ready (bus d') \<and> idle (bus d') \<noteq> None \<and>
    loaded (bus d') = loaded (bus d) \<and> masked_lines imr (bus d') = insert 0 (masked_lines imr (bus d))"
proof -
  let ?d = "put_port P TIMER_MODE RATEGEN_16BIT d"
  have k: "ready (bus ?d)" "masked_lines imr (bus ?d) = masked_lines imr (bus d)" "didinit ?d" "dcpu ?d = dcpu d"
    using timer_keeps(1) assms by (auto simp: put_port_def masked_lines_def)
  obtain d' where d': "irq_set_mask P 0 ?d = Inr d'" "didinit d'" "dcpu d' = dcpu d" "ready (bus d')"
    "masked_lines imr (bus d') = insert 0 (masked_lines imr (bus d))"
    using set_mask [OF k(3,1), of 0] k(2,4) by auto
  have "idle (bus ?d) \<noteq> None" "loaded (bus ?d) = loaded (bus d)" using control by (auto simp: put_port_def)
  then show ?thesis using d' line0_keeps [of ?d d'] by (auto simp: kclock_stop_hw_def)
qed

lemma start_count:
  assumes "didinit d" "ready (bus d)" "cpu_wf (dcpu d)" "idle (bus d) \<noteq> None"
  shows "\<exists>d'. andThen (kclock_write_cnt0_LSB_first P v d) (irq_clear_mask P 0) = Inr d' \<and> didinit d' \<and>
    ready (bus d') \<and> same_mask (dcpu d) (dcpu d') \<and> cpu_wf (dcpu d') \<and> loaded (bus d') = v \<and>
    masked_lines imr (bus d') = masked_lines imr (bus d) - {0}"
proof -
  obtain d1 where d1: "kclock_write_cnt0_LSB_first P v d = Inr d1" "loaded (bus d1) = v" "didinit d1" "ready (bus d1)"
    "same_mask (dcpu d) (dcpu d1)" "cpu_wf (dcpu d1)" "\<And>q. imr q (bus d1) = imr q (bus d)"
    using write_count [OF assms(3,4), of v] assms(1,2) by auto
  obtain d' where d': "irq_clear_mask P 0 d1 = Inr d'" "didinit d'" "dcpu d' = dcpu d1" "ready (bus d')"
    "masked_lines imr (bus d') = masked_lines imr (bus d1) - {0}"
    using clear_mask [OF d1(3,4), of 0] by auto
  have m: "masked_lines imr (bus d1) = masked_lines imr (bus d)" by (simp add: masked_lines_def d1(7))
  show ?thesis using d1 d' m line0_keeps(1) [of d1 d'] by auto
qed

lemma resume_clock:
  assumes "didinit d" "ready (bus d)" "cpu_wf (dcpu d)" "idle (bus d) = Some c"
  shows "\<exists>d'. kclock_resume_hw P d = Inr d' \<and> didinit d' \<and> ready (bus d') \<and> same_mask (dcpu d) (dcpu d') \<and> cpu_wf (dcpu d') \<and>
    loaded (bus d') = resumed_count c \<and> masked_lines imr (bus d') = masked_lines imr (bus d) - {0}"
proof -
  obtain d1 where d1: "kclock_read_cnt0_latch P d = (c, d1)" "didinit d1" "dcpu d1 = dcpu d" "ready (bus d1)"
    "\<And>q. imr q (bus d1) = imr q (bus d)"
    using latch_read [OF assms(4)] assms(1,2) by auto
  let ?d = "put_port P TIMER_MODE RATEGEN_16BIT d1"
  have k: "didinit ?d" "ready (bus ?d)" "cpu_wf (dcpu ?d)" "idle (bus ?d) \<noteq> None"
      "masked_lines imr (bus ?d) = masked_lines imr (bus d)" "dcpu ?d = dcpu d"
    using timer_keeps(1) control(1) assms(3) d1 by (auto simp: put_port_def masked_lines_def)
  show ?thesis using start_count [OF k(1-4), of "resumed_count c"] k(5,6) by (simp add: kclock_resume_hw_def d1(1))
qed

lemma program_quantum:
  assumes "didinit d" "ready (bus d)" "cpu_wf (dcpu d)" "0 < q" "IS_VALID_QUANTUM q"
  shows "\<exists>d'. kclock_set_quantum_hw P q d = Inr d' \<and> didinit d' \<and> ready (bus d') \<and> same_mask (dcpu d) (dcpu d') \<and> cpu_wf (dcpu d') \<and>
    loaded (bus d') = word_of_nat (NUM_CLKS_PER_QUANTUM q) \<and> idle (bus d') \<noteq> None \<and>
    masked_lines imr (bus d') = insert 0 (masked_lines imr (bus d))"
proof -
  let ?d = "put_port P TIMER_MODE RATEGEN_16BIT d"
  have k: "didinit ?d" "ready (bus ?d)" "cpu_wf (dcpu ?d)" "idle (bus ?d) \<noteq> None" "\<And>q. imr q (bus ?d) = imr q (bus d)" "dcpu ?d = dcpu d"
    using timer_keeps(1) control(1) assms(1-3) by (auto simp: put_port_def)
  obtain d1 where d1: "kclock_write_cnt0_LSB_first P (word_of_nat (NUM_CLKS_PER_QUANTUM q)) ?d = Inr d1"
    "loaded (bus d1) = word_of_nat (NUM_CLKS_PER_QUANTUM q)" "didinit d1" "ready (bus d1)"
    "same_mask (dcpu d) (dcpu d1)" "cpu_wf (dcpu d1)" "\<And>q. imr q (bus d1) = imr q (bus d)"
    using write_count [OF k(3,4), of "word_of_nat (NUM_CLKS_PER_QUANTUM q)"] k by auto
  have m: "masked_lines imr (bus d1) = masked_lines imr (bus d)" by (simp add: masked_lines_def d1(7))
  show ?thesis using stop_clock [OF d1(3,4)] d1 m assms(4,5) by (auto simp: kclock_set_quantum_hw_def)
qed

end

section \<open>A board\<close>

text \<open>
  An 8259A: after a command with bit 4 the words at the data port are the rest of the initialisation, otherwise they are the
  mask. \<open>special_mask\<close> is set or cleared by a command with bits 3 and 6.
\<close>

record pic8259 =
  imr_reg :: byte
  icws :: "nat list"
  vec_base :: byte
  cascade :: byte
  mode4 :: byte
  special_mask :: bool
  eois :: nat

definition pic_command :: "byte \<Rightarrow> pic8259 \<Rightarrow> pic8259" where
  "pic_command v c =
     (if bit v 4 then
        c\<lparr>icws := 2 # (if bit v 1 then [] else [3]) @ (if bit v 0 then [4] else []), imr_reg := 0, special_mask := False\<rparr>
      else if bit v 3 then (if bit v 6 then c\<lparr>special_mask := bit v 5\<rparr> else c)
      else if bit v 5 then c\<lparr>eois := Suc (eois c)\<rparr>
      else c)"

definition pic_data :: "byte \<Rightarrow> pic8259 \<Rightarrow> pic8259" where
  "pic_data v c =
     (case icws c of
        [] \<Rightarrow> c\<lparr>imr_reg := v\<rparr>
      | n # ns \<Rightarrow>
          (let c = c\<lparr>icws := ns\<rparr>
           in if n = 2 then c\<lparr>vec_base := v\<rparr> else if n = 3 then c\<lparr>cascade := v\<rparr> else c\<lparr>mode4 := v\<rparr>))"

text \<open>
  Channel 0 of an 8253 that is read and written in two bytes. It loses \<open>pace\<close> counts from one access of the bus to the next
  unless it stands; \<open>floating\<close> is what a read of the control port gives, which the chip does not drive.
\<close>

record pit8253 =
  cnt :: "16 word"
  reload :: "16 word"
  standing :: bool
  low_byte :: "byte option"
  latched :: "byte list"
  high_next :: bool
  pace :: nat
  floating :: byte

definition pit_tick :: "pit8253 \<Rightarrow> pit8253" where
  "pit_tick t =
     (if standing t then t
      else t\<lparr>cnt := (if unat (cnt t) \<le> pace t then reload t else cnt t - word_of_nat (pace t))\<rparr>)"

definition pit_control :: "byte \<Rightarrow> pit8253 \<Rightarrow> pit8253" where
  "pit_control v t =
     (if drop_bit 6 v \<noteq> 0 then t
      else if v AND 0x30 = 0 then
        (if latched t = [] then t\<lparr>latched := [ucast (cnt t), ucast (drop_bit 8 (cnt t))]\<rparr> else t)
      else t\<lparr>standing := True, low_byte := None, latched := [], high_next := False\<rparr>)"

definition pit_write :: "byte \<Rightarrow> pit8253 \<Rightarrow> pit8253" where
  "pit_write v t =
     (case low_byte t of
        None \<Rightarrow> t\<lparr>low_byte := Some v\<rparr>
      | Some lo \<Rightarrow> t\<lparr>low_byte := None, reload := two_bytes v lo, cnt := two_bytes v lo, standing := False\<rparr>)"

definition pit_read :: "pit8253 \<Rightarrow> byte \<times> pit8253" where
  "pit_read t =
     (case latched t of
        x # xs \<Rightarrow> (x, t\<lparr>latched := xs\<rparr>)
      | [] \<Rightarrow> (if high_next t then ucast (drop_bit 8 (cnt t)) else ucast (cnt t), t\<lparr>high_next := \<not> high_next t\<rparr>))"

record board =
  pic1 :: pic8259
  pic2 :: pic8259
  pit :: pit8253

definition board_out :: "nat \<Rightarrow> byte \<Rightarrow> board \<Rightarrow> board" where
  "board_out p v b =
     (let b = b\<lparr>pit := pit_tick (pit b)\<rparr>
      in if p = PIC1_CMD then b\<lparr>pic1 := pic_command v (pic1 b)\<rparr>
         else if p = PIC1_DATA then b\<lparr>pic1 := pic_data v (pic1 b)\<rparr>
         else if p = PIC2_CMD then b\<lparr>pic2 := pic_command v (pic2 b)\<rparr>
         else if p = PIC2_DATA then b\<lparr>pic2 := pic_data v (pic2 b)\<rparr>
         else if p = TIMER_MODE then b\<lparr>pit := pit_control v (pit b)\<rparr>
         else if p = TIMER_CNTR0 then b\<lparr>pit := pit_write v (pit b)\<rparr>
         else b)"

definition board_in :: "nat \<Rightarrow> board \<Rightarrow> byte \<times> board" where
  "board_in p b =
     (let b = b\<lparr>pit := pit_tick (pit b)\<rparr>
      in if p = PIC1_DATA then (imr_reg (pic1 b), b)
         else if p = PIC2_DATA then (imr_reg (pic2 b), b)
         else if p = TIMER_CNTR0 then (let (v, t) = pit_read (pit b) in (v, b\<lparr>pit := t\<rparr>))
         else (floating (pit b), b))"

definition board_ports :: "board ports" where
  "board_ports = \<lparr>inb = board_in, outb = board_out, insl = (\<lambda>_ _ b. ([], b)), outsl = (\<lambda>_ _ b. b)\<rparr>"

definition board_ready :: "board \<Rightarrow> bool" where
  "board_ready b \<longleftrightarrow> icws (pic1 b) = [] \<and> icws (pic2 b) = []"

definition board_imr :: "nat \<Rightarrow> board \<Rightarrow> byte" where
  "board_imr p b = imr_reg (if p = PIC1_DATA then pic1 b else pic2 b)"

definition board_idle :: "board \<Rightarrow> 16 word option" where
  "board_idle b =
     (if standing (pit b) \<and> low_byte (pit b) = None \<and> latched (pit b) = [] then Some (cnt (pit b)) else None)"

lemmas board_defs = board_ports_def board_out_def board_in_def board_ready_def board_imr_def board_idle_def
  pic_data_def pit_control_def pit_write_def pit_read_def pit_tick_def Let_def

interpretation board: counter_channel board_ports board_ready board_imr "\<lambda>b. reload (pit b)" board_idle
proof unfold_locales
  fix b p q v
  show "board_ready b \<Longrightarrow> p \<in> {PIC1_DATA, PIC2_DATA} \<Longrightarrow> fst (inb board_ports p b) = board_imr p b"
    by (auto simp: board_defs)
  show "board_ready b \<Longrightarrow> p \<in> {PIC1_DATA, PIC2_DATA} \<Longrightarrow>
    board_ready (snd (inb board_ports p b)) \<and> board_imr q (snd (inb board_ports p b)) = board_imr q b"
    by (auto simp: board_defs)
  show "board_ready b \<Longrightarrow> p \<in> {PIC1_DATA, PIC2_DATA} \<Longrightarrow> q \<in> {PIC1_DATA, PIC2_DATA} \<Longrightarrow>
    board_ready (outb board_ports p v b) \<and> board_imr q (outb board_ports p v b) = (if q = p then v else board_imr q b)"
    by (auto simp: board_defs)
next
  fix b v hi lo
  show "board_idle (outb board_ports TIMER_MODE RATEGEN_16BIT b) \<noteq> None" by (simp add: board_defs)
  show "reload (pit (outb board_ports TIMER_MODE v b)) = reload (pit b)" by (simp add: board_defs)
  show "board_idle b \<noteq> None \<Longrightarrow> reload (pit (outb board_ports TIMER_CNTR0 hi (outb board_ports TIMER_CNTR0 lo b))) = two_bytes hi lo"
    by (auto simp: board_defs split: if_splits)
next
  fix b c l
  assume i: "board_idle b = Some c" and l: "l = outb board_ports TIMER_MODE LATCH0 (snd (inb board_ports TIMER_MODE b))"
  have s: "standing (pit b)" "latched (pit b) = []" "cnt (pit b) = c" using i by (simp_all add: board_idle_def split: if_splits)
  show "fst (inb board_ports TIMER_CNTR0 l) = ucast c \<and>
      fst (inb board_ports TIMER_CNTR0 (snd (inb board_ports TIMER_CNTR0 l))) = ucast (drop_bit 8 c)"
    unfolding l by (simp add: board_defs s)
next
  fix b p v q
  show "p \<in> {TIMER_CNTR0, TIMER_MODE} \<Longrightarrow>
      board_ready (outb board_ports p v b) = board_ready b \<and> board_imr q (outb board_ports p v b) = board_imr q b"
    by (auto simp: board_defs split: option.splits)
  show "p \<in> {TIMER_CNTR0, TIMER_MODE} \<Longrightarrow>
      board_ready (snd (inb board_ports p b)) = board_ready b \<and> board_imr q (snd (inb board_ports p b)) = board_imr q b"
    by (auto simp: board_defs split: list.splits)
  show "p \<in> {PIC1_DATA, PIC2_DATA} \<Longrightarrow> reload (pit (outb board_ports p v b)) = reload (pit b) \<and>
      (board_idle b \<noteq> None \<longrightarrow> board_idle (outb board_ports p v b) = board_idle b)"
    by (auto simp: board_defs)
  show "p \<in> {PIC1_DATA, PIC2_DATA} \<Longrightarrow> reload (pit (snd (inb board_ports p b))) = reload (pit b) \<and>
      (board_idle b \<noteq> None \<longrightarrow> board_idle (snd (inb board_ports p b)) = board_idle b)"
    by (auto simp: board_defs)
qed

section \<open>Theorems\<close>

text \<open>
  The interrupt controllers as a set of masked lines. Setting and clearing the mask of a line changes the set by that line
  only, and the state of the line is what is read back.
\<close>

lemma irq_masks_are_a_set:
  assumes "didinit d" "board_ready (bus d)" "l < 16"
  shows "\<exists>d1 d2 r d3.
    irq_set_mask board_ports l d = Inr d1 \<and> masked_lines board_imr (bus d1) = insert l (masked_lines board_imr (bus d)) \<and>
    irq_clear_mask board_ports l d = Inr d2 \<and> masked_lines board_imr (bus d2) = masked_lines board_imr (bus d) - {l} \<and>
    irq_get_mask board_ports l d = Inr (r, d3) \<and> (r \<noteq> 0 \<longleftrightarrow> l \<in> masked_lines board_imr (bus d)) \<and>
    masked_lines board_imr (bus d3) = masked_lines board_imr (bus d)"
  using board.set_mask [OF assms] board.clear_mask [OF assms] board.get_mask [OF assms] by blast

text \<open>
  After \<^verbatim>\<open>pic_init\<close>, from any state of the chips, the initialisation words are through, interrupts are mapped to the vectors
  32 to 47, every line but the one of the second controller is masked, and the special mask mode is on, although the comment
  on the word \<^verbatim>\<open>0x68\<close> says that it clears the specific mask.
\<close>

lemma pic_init_state:
  assumes "irq_init_mask_8259A d = irq_init_mask"
  shows "didinit (pic_init board_ports d)" "dcpu (pic_init board_ports d) = dcpu d"
    "board_ready (bus (pic_init board_ports d))"
    "vec_base (pic1 (bus (pic_init board_ports d))) = 32" "vec_base (pic2 (bus (pic_init board_ports d))) = 40"
    "special_mask (pic1 (bus (pic_init board_ports d)))"
    "board_imr PIC1_DATA (bus (pic_init board_ports d)) = 0xFB"
    "board_imr PIC2_DATA (bus (pic_init board_ports d)) = 0xFF"
  using assms
  by (simp_all add: pic_init_def irq_setmask_8259A_def put_port_def board_ports_def board_out_def pic_command_def pic_data_def
      board_ready_def board_imr_def Let_def irq_init_mask_def)

text \<open>Step 5 of \<^verbatim>\<open>FOS_initialize\<close>: the clock, the keyboard, the serial port and the disk get their interrupts.\<close>

definition init_interrupts :: "'io ports \<Rightarrow> 'io kdev \<Rightarrow> 'io kdev result" where
  "init_interrupts P d =
     andThen (irq_clear_mask P 0 (pic_init P d)) (\<lambda>d.
     andThen (irq_clear_mask P 1 d) (\<lambda>d.
     andThen (irq_clear_mask P 4 d) (\<lambda>d.
     irq_clear_mask P 14 d)))"

lemma masked_after_init:
  assumes "irq_init_mask_8259A d = irq_init_mask"
  shows "masked_lines board_imr (bus (pic_init board_ports d)) = {..<16} - {2}"
proof -
  have e: "(0xFB :: byte) = NOT (2 ^ 2)" "(0xFF :: byte) = - 1" by simp_all
  have k: "bit (NOT (2 ^ k) :: byte) n \<longleftrightarrow> n < 8 \<and> n \<noteq> k" if "k < 8" for k n
    using that by (auto simp: bit_not_iff bit_exp_iff)
  let ?b = "bus (pic_init board_ports d)"
  have m1: "bit (board_imr PIC1_DATA ?b) n \<longleftrightarrow> n < 8 \<and> n \<noteq> 2" for n
    unfolding pic_init_state(7) [OF assms] e(1) by (rule k) simp
  have m2: "bit (board_imr PIC2_DATA ?b) n \<longleftrightarrow> n < 8" for n
    unfolding pic_init_state(8) [OF assms] e(2) by (simp only: bit_minus_1_iff possible_bit_word) simp
  have "l \<in> masked_lines board_imr ?b \<longleftrightarrow> l \<in> {..<16} - {2}" for l
  proof (cases "l < 8")
    case True
    then show ?thesis by (simp only: masked_lines_def irq_port_def mem_Collect_eq if_True fst_conv snd_conv m1) auto
  next
    case False
    then show ?thesis by (simp only: masked_lines_def irq_port_def mem_Collect_eq if_False fst_conv snd_conv m2) auto
  qed
  then show ?thesis by (rule set_eqI)
qed

text \<open>
  Starting the interrupt controllers ends well from any state the chips are in, and leaves exactly the lines of the
  clock (0), the keyboard (1), the second controller (2), the serial port (4) and the disk (14) unmasked; interrupts arrive
  at the vectors 32 to 47.
\<close>

lemma interrupts_set_up:
  assumes "irq_init_mask_8259A d = irq_init_mask"
  shows "\<exists>d'. init_interrupts board_ports d = Inr d' \<and> didinit d' \<and> board_ready (bus d') \<and>
    masked_lines board_imr (bus d') = {..<16} - {0, 1, 2, 4, 14}"
proof -
  note i = pic_init_state(1,3) [OF assms]
  obtain d1 where d1: "irq_clear_mask board_ports 0 (pic_init board_ports d) = Inr d1" "didinit d1" "board_ready (bus d1)"
    "masked_lines board_imr (bus d1) = {..<16} - {2} - {0}"
    using board.clear_mask [OF i, of 0] masked_after_init [OF assms] by auto
  obtain d2 where d2: "irq_clear_mask board_ports 1 d1 = Inr d2" "didinit d2" "board_ready (bus d2)"
    "masked_lines board_imr (bus d2) = {..<16} - {2} - {0} - {1}"
    using board.clear_mask [OF d1(2,3), of 1] d1(4) by auto
  obtain d3 where d3: "irq_clear_mask board_ports 4 d2 = Inr d3" "didinit d3" "board_ready (bus d3)"
    "masked_lines board_imr (bus d3) = {..<16} - {2} - {0} - {1} - {4}"
    using board.clear_mask [OF d2(2,3), of 4] d2(4) by auto
  obtain d4 where d4: "irq_clear_mask board_ports 14 d3 = Inr d4" "didinit d4" "board_ready (bus d4)"
    "masked_lines board_imr (bus d4) = {..<16} - {2} - {0} - {1} - {4} - {14}"
    using board.clear_mask [OF d3(2,3), of 14] d3(4) by auto
  have "masked_lines board_imr (bus d4) = {..<16} - {0, 1, 2, 4, 14}" using d4(4) by auto
  then show ?thesis using d1 d2 d3 d4 by (simp add: init_interrupts_def)
qed

text \<open>The counts for a time slice. From 1 to 52 milliseconds the count fits the counter, the slice is at most one clock too
  short and less than a twentieth too long.\<close>

lemma quantum_limit: "QUANTUM_LIMIT = 54"
  by (simp add: QUANTUM_LIMIT_def TIMER_FREQ_def)

lemma all_upto_52: "(\<forall>q. 0 < q \<and> q \<le> 52 \<longrightarrow> Q q) \<longleftrightarrow> list_all Q (1 # 2 # [3..<53])"
proof -
  have "0 < q \<and> q \<le> 52 \<longleftrightarrow> q \<in> set (1 # 2 # [3..<53])" for q :: nat
    by (simp only: list.set(2) set_upt insert_iff atLeastLessThan_iff) arith
  then show ?thesis by (simp only: list_all_iff Ball_def)
qed

lemma quantum_counts:
  "\<forall>q. 0 < q \<and> q \<le> 52 \<longrightarrow>
     NUM_CLKS_PER_QUANTUM q < 2 ^ 16 \<and> q * TIMER_FREQ \<le> 1000 * (NUM_CLKS_PER_QUANTUM q + 1) \<and>
     20 * 1000 * NUM_CLKS_PER_QUANTUM q < 21 * q * TIMER_FREQ"
  unfolding all_upto_52 NUM_CLKS_PER_QUANTUM_def TIMER_DIV_def TIMER_FREQ_def by simp

lemma quantum_53_wraps: "IS_VALID_QUANTUM 53" "NUM_CLKS_PER_QUANTUM 53 = 2 ^ 16 + 752"
  by (simp_all add: IS_VALID_QUANTUM_def quantum_limit NUM_CLKS_PER_QUANTUM_def TIMER_DIV_def TIMER_FREQ_def)

text \<open>
  C22. Setting a time slice of 1 to 52 milliseconds programs the counter as the scheduler supposes: the channel gets a count
  whose duration is the slice, at most one clock less and less than a twentieth more, it stands until it is resumed, the
  clock interrupt is masked, and the nesting of disabled interrupts is as before.
\<close>

theorem quantum_programmed:
  assumes "didinit d" "board_ready (bus d)" "cpu_wf (dcpu d)" "0 < q" "q \<le> 52"
  shows "\<exists>d'. kclock_set_quantum_hw board_ports q d = Inr d' \<and> kclock_set_quantum q s = Inr (s\<lparr>clock_quantum := q\<rparr>) \<and>
    q * TIMER_FREQ \<le> 1000 * (unat (reload (pit (bus d'))) + 1) \<and> 20 * 1000 * unat (reload (pit (bus d'))) < 21 * q * TIMER_FREQ \<and>
    board_idle (bus d') \<noteq> None \<and> masked_lines board_imr (bus d') = insert 0 (masked_lines board_imr (bus d)) \<and>
    same_mask (dcpu d) (dcpu d')"
proof -
  have v: "IS_VALID_QUANTUM q" using assms(5) by (simp add: IS_VALID_QUANTUM_def quantum_limit)
  have c: "NUM_CLKS_PER_QUANTUM q < 2 ^ 16" "q * TIMER_FREQ \<le> 1000 * (NUM_CLKS_PER_QUANTUM q + 1)"
    "20 * 1000 * NUM_CLKS_PER_QUANTUM q < 21 * q * TIMER_FREQ"
    using quantum_counts assms(4,5) by blast+
  have u: "unat (word_of_nat (NUM_CLKS_PER_QUANTUM q) :: 16 word) = NUM_CLKS_PER_QUANTUM q"
    using c(1) by (simp add: unat_of_nat take_bit_nat_eq_self)
  obtain d' where d': "kclock_set_quantum_hw board_ports q d = Inr d'" "same_mask (dcpu d) (dcpu d')"
    "reload (pit (bus d')) = word_of_nat (NUM_CLKS_PER_QUANTUM q)" "board_idle (bus d') \<noteq> None"
    "masked_lines board_imr (bus d') = insert 0 (masked_lines board_imr (bus d))"
    using board.program_quantum [OF assms(1-4) v] by blast
  show ?thesis
    using c(2,3) d' assms(4,5) by (simp add: u kclock_set_quantum_def)
qed

text \<open>The board as it is after power on, with the timer running at any pace.\<close>

definition fresh_pic :: pic8259 where
  "fresh_pic = \<lparr>imr_reg = 0, icws = [], vec_base = 0, cascade = 0, mode4 = 0, special_mask = False, eois = 0\<rparr>"

definition fresh_dev :: "nat \<Rightarrow> 16 word \<Rightarrow> board kdev" where
  "fresh_dev n c = \<lparr>didinit = True, irq_init_mask_8259A = irq_init_mask, dcpu = \<lparr>cpu.ncli = 0, intena = True, eflags_IF = True\<rparr>,
     bus = \<lparr>pic1 = fresh_pic, pic2 = fresh_pic,
       pit = \<lparr>cnt = c, reload = c, standing = False, low_byte = None, latched = [], high_next = False, pace = n, floating = 0xFF\<rparr>\<rparr>\<rparr>"

lemma fresh_dev_ok:
  "didinit (fresh_dev n c)" "board_ready (bus (fresh_dev n c))" "cpu_wf (dcpu (fresh_dev n c))"
  "irq_init_mask_8259A (fresh_dev n c) = irq_init_mask"
  by (simp_all add: fresh_dev_def fresh_pic_def board_ready_def cpu_wf_def)

lemma interrupts_set_up_witness:
  "\<exists>d'. init_interrupts board_ports (fresh_dev 3 1000) = Inr d' \<and> didinit d' \<and> board_ready (bus d') \<and>
    masked_lines board_imr (bus d') = {..<16} - {0, 1, 2, 4, 14}"
  by (rule interrupts_set_up) (rule fresh_dev_ok)

theorem quantum_programmed_witness:
  "\<exists>d'. kclock_set_quantum_hw board_ports 10 (fresh_dev 3 1000) = Inr d' \<and> unat (reload (pit (bus d'))) < 12530 \<and>
    0 \<in> masked_lines board_imr (bus d')"
proof -
  obtain d' where d': "kclock_set_quantum_hw board_ports 10 (fresh_dev 3 1000) = Inr d'"
    "20 * 1000 * unat (reload (pit (bus d'))) < 21 * 10 * TIMER_FREQ"
    "masked_lines board_imr (bus d') = insert 0 (masked_lines board_imr (bus (fresh_dev 3 1000)))"
    using quantum_programmed [OF fresh_dev_ok(1-3), of 10 3 1000] by auto
  have "unat (reload (pit (bus d'))) < 12530" using d'(2) by (simp add: TIMER_FREQ_def)
  then show ?thesis using d'(1,3) by simp
qed

text \<open>
  A slice of 53 milliseconds is accepted, and its count does not fit the counter: the channel gets 752 clocks, less than a
  millisecond. A slice of 0 milliseconds passes the test of the range too and divides by zero.
\<close>

lemma slice_53_is_short:
  assumes "didinit d" "board_ready (bus d)" "cpu_wf (dcpu d)"
  shows "\<exists>d'. kclock_set_quantum_hw board_ports 53 d = Inr d' \<and> reload (pit (bus d')) = 752"
proof -
  have "(word_of_nat (NUM_CLKS_PER_QUANTUM 53) :: 16 word) = 752" by (simp add: quantum_53_wraps(2))
  then show ?thesis using board.program_quantum [OF assms _ quantum_53_wraps(1)] by auto
qed

lemma set_quantum_errors:
  "kclock_set_quantum_hw P 0 d = Inl (Cpu_trap ''1000/quantum_in_ms'')" "kclock_set_quantum 0 s = Inl (Cpu_trap ''1000/quantum_in_ms'')"
  "54 \<le> q \<Longrightarrow> \<exists>m. kclock_set_quantum_hw P q d = Inl (Panic m) \<and> kclock_set_quantum q s = Inl (Panic m)"
  by (simp_all add: kclock_set_quantum_hw_def kclock_set_quantum_def IS_VALID_QUANTUM_def quantum_limit)

text \<open>
  The clock is stopped while the kernel runs and goes on where it stood: stopping masks the clock interrupt and halts the
  channel at a count \<open>c\<close>; resuming loads that count again, raised to 20 and to the next even number, unmasks the interrupt and
  leaves every other line and the nesting of disabled interrupts as they were, whatever a read of the control port returns.
\<close>

lemma clock_stops_and_resumes:
  assumes "didinit d" "board_ready (bus d)" "cpu_wf (dcpu d)"
  shows "\<exists>d1 c d2. kclock_stop_hw board_ports d = Inr d1 \<and> board_idle (bus d1) = Some c \<and>
    masked_lines board_imr (bus d1) = insert 0 (masked_lines board_imr (bus d)) \<and>
    kclock_resume_hw board_ports d1 = Inr d2 \<and> reload (pit (bus d2)) = resumed_count c \<and>
    masked_lines board_imr (bus d2) = masked_lines board_imr (bus d) - {0} \<and> same_mask (dcpu d) (dcpu d2)"
proof -
  obtain d1 c where d1: "kclock_stop_hw board_ports d = Inr d1" "didinit d1" "dcpu d1 = dcpu d" "board_ready (bus d1)"
    "board_idle (bus d1) = Some c" "masked_lines board_imr (bus d1) = insert 0 (masked_lines board_imr (bus d))"
    using board.stop_clock [OF assms(1,2)] by auto
  have w: "cpu_wf (dcpu d1)" using assms(3) d1(3) by simp
  obtain d2 where d2: "kclock_resume_hw board_ports d1 = Inr d2" "same_mask (dcpu d1) (dcpu d2)"
    "reload (pit (bus d2)) = resumed_count c" "masked_lines board_imr (bus d2) = masked_lines board_imr (bus d1) - {0}"
    using board.resume_clock [OF d1(2,4) w d1(5)] by blast
  show ?thesis using d1 d2 by auto
qed

lemma clock_stops_and_resumes_witness:
  "\<exists>d1 d2. kclock_stop_hw board_ports (fresh_dev 3 1000) = Inr d1 \<and> kclock_resume_hw board_ports d1 = Inr d2 \<and>
    0 \<notin> masked_lines board_imr (bus d2)"
  using clock_stops_and_resumes [OF fresh_dev_ok(1-3), of 3 1000] by auto

lemma resumed_count_bounds:
  assumes "c \<noteq> 0xFFFF"
  shows "even (unat (resumed_count c))" "20 \<le> unat (resumed_count c)" "unat c \<le> unat (resumed_count c)"
    "unat (resumed_count c) \<le> max 20 (unat c + 1)"
proof -
  have "unat c \<noteq> unat (0xFFFF :: 16 word)" using assms word_unat_eq_iff by blast
  then have s: "unat (c + 1) = unat c + 1" using unsigned_less [of c, where ?'a = nat] by (simp add: unat_word_ariths)
  show "even (unat (resumed_count c))" "20 \<le> unat (resumed_count c)" "unat c \<le> unat (resumed_count c)"
    "unat (resumed_count c) \<le> max 20 (unat c + 1)"
    using s by (auto simp: resumed_count_def Let_def word_less_nat_alt)
qed

text \<open>A read of a running counter without the latch can be wrong, as the comment in \<^verbatim>\<open>kclock.c\<close> has it: between \<^verbatim>\<open>0x0200\<close> and
  \<^verbatim>\<open>0x01FF\<close> it gives \<^verbatim>\<open>0x0100\<close>.\<close>

lemma torn_read: "\<exists>d'. kclock_read_cnt0 board_ports (fresh_dev 1 0x201) = Inr (0x100, d')"
  by (simp add: kclock_read_cnt0_def get_port_def board_defs fresh_dev_def two_bytes_def pushcli_def popcli_def)

end
