(* ===== verification/Disk_Driver.thy ===== *)
theory Disk_Driver
  imports Devices
begin

text \<open>
  The driver of the IDE disk (\<^verbatim>\<open>src/lib/disk.c\<close>, built with \<^verbatim>\<open>DISK_IO_METHOD\<close> = \<^verbatim>\<open>PROGRAMMED_IO\<close>) and the boot loader
  (\<^verbatim>\<open>src/boot/main.c\<close>), which reads the kernel from the same disk. Both run over the bus of theory \<open>Devices\<close>; what they need
  of the disk is the locale \<open>ata_disk\<close>: nothing is promised of a command or a transfer while the controller is busy or reports an
  error. It is interpreted on a controller that is busy for some polls after every command and every sector, takes no command and
  transfers no data while it is, and sets the error bit for a bad sector. The waits are bounded by an argument; the theorems ask for
  more polls than the controller is ever busy.
\<close>

section \<open>The driver\<close>

abbreviation SECTSIZE :: nat where "SECTSIZE \<equiv> 512"
abbreviation IDE_STATUS :: nat where "IDE_STATUS \<equiv> 0x1F7"
abbreviation IDE_DATA :: nat where "IDE_DATA \<equiv> 0x1F0"

fun ide_poll :: "nat \<Rightarrow> 'io ports \<Rightarrow> 'io \<Rightarrow> (byte \<times> 'io) result" where
  "ide_poll 0 P b = Inl Spins"
| "ide_poll (Suc n) P b = (let (r, b) = inb P IDE_STATUS b in if r AND 0xC0 \<noteq> 0x40 then ide_poll n P b else Inr (r, b))"

definition ide_wait_ready :: "nat \<Rightarrow> 'io ports \<Rightarrow> bool \<Rightarrow> 'io \<Rightarrow> 'io result" where
  "ide_wait_ready N P check_error b =
     andThen (ide_poll N P b) (\<lambda>(r, b).
     if check_error \<and> r AND 0x21 \<noteq> 0 then Inl (Panic ''ERROR @ ide_wait_ready()'') else Inr b)"

text \<open>The registers of a command; \<^verbatim>\<open>outb\<close> takes the low byte of its argument, and \<^verbatim>\<open>diskno\<close> is 0.\<close>

definition ide_command :: "'io ports \<Rightarrow> nat \<Rightarrow> nat \<Rightarrow> byte \<Rightarrow> 'io \<Rightarrow> 'io" where
  "ide_command P nsecs secno cmd b =
     (let b = outb P 0x1F2 (word_of_nat nsecs) b;
          b = outb P 0x1F3 (word_of_nat secno) b;
          b = outb P 0x1F4 (word_of_nat (secno div 2 ^ 8)) b;
          b = outb P 0x1F5 (word_of_nat (secno div 2 ^ 16)) b;
          b = outb P 0x1F6 (0xE0 OR word_of_nat (secno div 2 ^ 24 mod 16)) b
      in outb P 0x1F7 cmd b)"

fun ide_read_loop :: "nat \<Rightarrow> 'io ports \<Rightarrow> nat \<Rightarrow> 'io \<Rightarrow> (byte list \<times> 'io) result" where
  "ide_read_loop N P 0 b = Inr ([], b)"
| "ide_read_loop N P (Suc nsecs) b =
     andThen (ide_wait_ready N P True b) (\<lambda>b.
     let (xs, b) = insl P IDE_DATA (SECTSIZE div 4) b in
     andThen (ide_read_loop N P nsecs b) (\<lambda>(ys, b). Inr (xs @ ys, b)))"

text \<open>The bytes read are those the code stores at \<^verbatim>\<open>dst\<close>, the bytes written those it finds at \<^verbatim>\<open>src\<close>.\<close>

definition ide_read :: "nat \<Rightarrow> 'io ports \<Rightarrow> nat \<Rightarrow> nat \<Rightarrow> 'io \<Rightarrow> (int \<times> byte list \<times> 'io) result" where
  "ide_read N P secno nsecs b =
     andThen (c_assert (nsecs \<le> 256) ''nsecs <= 256'') (\<lambda>_.
     andThen (ide_wait_ready N P False b) (\<lambda>b.
     andThen (ide_read_loop N P nsecs (ide_command P nsecs secno 0x20 b)) (\<lambda>(xs, b).
     Inr (0, xs, b))))"

fun ide_write_loop :: "nat \<Rightarrow> 'io ports \<Rightarrow> byte list \<Rightarrow> nat \<Rightarrow> 'io \<Rightarrow> 'io result" where
  "ide_write_loop N P src 0 b = Inr b"
| "ide_write_loop N P src (Suc nsecs) b =
     andThen (ide_wait_ready N P True b) (\<lambda>b.
     ide_write_loop N P (drop SECTSIZE src) nsecs (outsl P IDE_DATA (take SECTSIZE src) b))"

definition ide_write :: "nat \<Rightarrow> 'io ports \<Rightarrow> nat \<Rightarrow> byte list \<Rightarrow> nat \<Rightarrow> 'io \<Rightarrow> (int \<times> 'io) result" where
  "ide_write N P secno src nsecs b =
     andThen (c_assert (nsecs \<le> 256) ''nsecs <= 256'') (\<lambda>_.
     andThen (ide_wait_ready N P False b) (\<lambda>b.
     andThen (ide_write_loop N P src nsecs (ide_command P nsecs secno 0x30 b)) (\<lambda>b.
     Inr (0, b))))"

text \<open>The interrupt of the disk reads the status, which acknowledges it; nobody sleeps for it in this build.\<close>

definition disk_interrupt_handler :: "'io ports \<Rightarrow> 'io \<Rightarrow> 'io" where
  "disk_interrupt_handler P b = snd (inb P IDE_STATUS b)"

section \<open>What the driver needs of the disk\<close>

text \<open>
  \<open>Reads s n\<close>: sectors \<open>s\<close> to \<open>s + n - 1\<close> are about to be read at the data port. \<open>delay\<close> is the number of polls until the
  controller is ready, always less than \<open>N\<close>; \<open>bad\<close> are the sectors it cannot transfer.
\<close>

datatype ata_phase = Ready | Reads nat nat | Writes nat nat

definition next_phase :: "(nat \<Rightarrow> nat \<Rightarrow> ata_phase) \<Rightarrow> nat \<Rightarrow> nat \<Rightarrow> ata_phase" where
  "next_phase f s n = (if n = 0 then Ready else f (Suc s) n)"

definition fails_on :: "(nat \<Rightarrow> bool) \<Rightarrow> ata_phase \<Rightarrow> bool" where
  "fails_on bad ph = (case ph of Ready \<Rightarrow> False | Reads s n \<Rightarrow> bad s | Writes s n \<Rightarrow> bad s)"

locale ata_disk =
  fixes P :: "'io ports" and N :: nat and bad :: "nat \<Rightarrow> bool" and disk_of :: "'io \<Rightarrow> nat \<Rightarrow> byte list" and phase :: "'io \<Rightarrow> ata_phase"
    and delay :: "'io \<Rightarrow> nat" and sane :: "'io \<Rightarrow> bool"
  assumes delay_bound: "sane b \<Longrightarrow> delay b < N"
    and poll_busy: "sane b \<Longrightarrow> 0 < delay b \<Longrightarrow> fst (inb P IDE_STATUS b) AND 0xC0 \<noteq> 0x40"
    and poll_ready: "sane b \<Longrightarrow> delay b = 0 \<Longrightarrow> fst (inb P IDE_STATUS b) AND 0xC0 = 0x40 \<and>
      (fst (inb P IDE_STATUS b) AND 0x21 = 0 \<longleftrightarrow> \<not> fails_on bad (phase b))"
    and poll_keeps: "sane b \<Longrightarrow> sane (snd (inb P IDE_STATUS b)) \<and> disk_of (snd (inb P IDE_STATUS b)) = disk_of b \<and>
      phase (snd (inb P IDE_STATUS b)) = phase b \<and> delay (snd (inb P IDE_STATUS b)) = delay b - 1"
    and command: "sane b \<Longrightarrow> delay b = 0 \<Longrightarrow> phase b = Ready \<Longrightarrow> 0 < n \<Longrightarrow> n \<le> 256 \<Longrightarrow> s < 2 ^ 28 \<Longrightarrow> cmd \<in> {0x20, 0x30} \<Longrightarrow>
      sane (ide_command P n s cmd b) \<and> disk_of (ide_command P n s cmd b) = disk_of b \<and>
      phase (ide_command P n s cmd b) = (if cmd = 0x20 then Reads s n else Writes s n)"
    and data_in: "sane b \<Longrightarrow> delay b = 0 \<Longrightarrow> phase b = Reads s (Suc n) \<Longrightarrow> \<not> bad s \<Longrightarrow> fst (insl P IDE_DATA 128 b) = disk_of b s \<and>
      sane (snd (insl P IDE_DATA 128 b)) \<and> disk_of (snd (insl P IDE_DATA 128 b)) = disk_of b \<and>
      phase (snd (insl P IDE_DATA 128 b)) = next_phase Reads s n"
    and data_out: "sane b \<Longrightarrow> delay b = 0 \<Longrightarrow> phase b = Writes s (Suc n) \<Longrightarrow> \<not> bad s \<Longrightarrow> length xs = SECTSIZE \<Longrightarrow>
      sane (outsl P IDE_DATA xs b) \<and> disk_of (outsl P IDE_DATA xs b) = (disk_of b)(s := xs) \<and>
      phase (outsl P IDE_DATA xs b) = next_phase Writes s n"

abbreviation ide_error :: failure where "ide_error \<equiv> Panic ''ERROR @ ide_wait_ready()''"

text \<open>The disk after \<open>n\<close> sectors from \<open>s\<close> on have been overwritten.\<close>

fun put_sectors :: "nat \<Rightarrow> nat \<Rightarrow> byte list \<Rightarrow> (nat \<Rightarrow> byte list) \<Rightarrow> nat \<Rightarrow> byte list" where
  "put_sectors s 0 src D = D"
| "put_sectors s (Suc n) src D = put_sectors (Suc s) n (drop SECTSIZE src) (D(s := take SECTSIZE src))"

definition get_sectors :: "nat \<Rightarrow> nat \<Rightarrow> (nat \<Rightarrow> byte list) \<Rightarrow> byte list" where
  "get_sectors s n D = concat (map D [s..<s + n])"

lemma get_sectors_Suc: "get_sectors s (Suc n) D = D s @ get_sectors (Suc s) n D"
  by (simp add: get_sectors_def upt_conv_Cons del: upt_Suc)



context ata_disk
begin

lemma poll:
  assumes "sane b" "delay b < n"
  shows "\<exists>r b'. ide_poll n P b = Inr (r, b') \<and> (r AND 0x21 = 0 \<longleftrightarrow> \<not> fails_on bad (phase b)) \<and> sane b' \<and> delay b' = 0 \<and>
    disk_of b' = disk_of b \<and> phase b' = phase b"
  using assms
proof (induction n arbitrary: b)
  case (Suc n)
  show ?case
  proof (cases "delay b = 0")
    case True
    then show ?thesis using poll_ready [OF Suc.prems(1) True] poll_keeps [OF Suc.prems(1)] by (cases "inb P IDE_STATUS b") simp
  next
    case False
    then show ?thesis
      using poll_busy [OF Suc.prems(1)] poll_keeps [OF Suc.prems(1)] Suc.IH [of "snd (inb P IDE_STATUS b)"] Suc.prems(2)
      by (auto simp: split_beta)
  qed
qed simp

lemma wait_ready:
  assumes "sane b"
  shows "if check \<and> fails_on bad (phase b) then ide_wait_ready N P check b = Inl ide_error
    else \<exists>b'. ide_wait_ready N P check b = Inr b' \<and> sane b' \<and> delay b' = 0 \<and> disk_of b' = disk_of b \<and> phase b' = phase b"
  using poll [OF assms delay_bound [OF assms]] by (auto simp: ide_wait_ready_def)

lemma read_loop:
  assumes "sane b" "0 < n" "phase b = Reads s n"
  shows "if \<exists>t. s \<le> t \<and> t < s + n \<and> bad t then ide_read_loop N P n b = Inl ide_error
    else \<exists>b'. ide_read_loop N P n b = Inr (get_sectors s n (disk_of b), b') \<and> sane b' \<and> disk_of b' = disk_of b \<and> phase b' = Ready"
  using assms
proof (induction n arbitrary: s b)
  case (Suc n)
  have split: "(\<exists>t. s \<le> t \<and> t < s + Suc n \<and> bad t) \<longleftrightarrow> bad s \<or> (\<exists>t. Suc s \<le> t \<and> t < Suc s + n \<and> bad t)"
    by (metis Suc_leI add_Suc add_Suc_right le_add1 le_eq_less_or_eq le_imp_less_Suc order_le_less_trans Suc_leD)
  show ?case
  proof (cases "bad s")
    case True
    then show ?thesis unfolding split using wait_ready [OF Suc.prems(1), of True] Suc.prems(3) by (simp add: fails_on_def)
  next
    case good: False
    obtain b1 where b1: "ide_wait_ready N P True b = Inr b1" "sane b1" "delay b1 = 0" "disk_of b1 = disk_of b" "phase b1 = Reads s (Suc n)"
      using wait_ready [OF Suc.prems(1), of True] Suc.prems(3) good by (auto simp: fails_on_def)
    note d = data_in [OF b1(2,3,5) good]
    let ?b = "snd (insl P IDE_DATA 128 b1)"
    show ?thesis
    proof (cases "n = 0")
      case True
      then show ?thesis unfolding split using b1 d good by (cases "insl P IDE_DATA 128 b1") (simp add: next_phase_def get_sectors_def)
    next
      case False
      then have "phase ?b = Reads (Suc s) n" using d by (simp add: next_phase_def)
      then show ?thesis unfolding split using Suc.IH [of ?b "Suc s"] False b1 d good by (auto simp: split_beta get_sectors_Suc split: if_splits)
    qed
  qed
qed simp

lemma write_loop:
  assumes "sane b" "0 < n" "phase b = Writes s n" "length src = SECTSIZE * n"
  shows "if \<exists>t. s \<le> t \<and> t < s + n \<and> bad t then ide_write_loop N P src n b = Inl ide_error
    else \<exists>b'. ide_write_loop N P src n b = Inr b' \<and> sane b' \<and> disk_of b' = put_sectors s n src (disk_of b) \<and> phase b' = Ready"
  using assms
proof (induction n arbitrary: s b src)
  case (Suc n)
  have split: "(\<exists>t. s \<le> t \<and> t < s + Suc n \<and> bad t) \<longleftrightarrow> bad s \<or> (\<exists>t. Suc s \<le> t \<and> t < Suc s + n \<and> bad t)"
    by (metis Suc_leI add_Suc add_Suc_right le_add1 le_eq_less_or_eq le_imp_less_Suc order_le_less_trans Suc_leD)
  show ?case
  proof (cases "bad s")
    case True
    then show ?thesis unfolding split using wait_ready [OF Suc.prems(1), of True] Suc.prems(3) by (simp add: fails_on_def)
  next
    case good: False
    obtain b1 where b1: "ide_wait_ready N P True b = Inr b1" "sane b1" "delay b1 = 0" "disk_of b1 = disk_of b" "phase b1 = Writes s (Suc n)"
      using wait_ready [OF Suc.prems(1), of True] Suc.prems(3) good by (auto simp: fails_on_def)
    have l: "length (take SECTSIZE src) = SECTSIZE" "length (drop SECTSIZE src) = SECTSIZE * n" using Suc.prems(4) by auto
    note d = data_out [OF b1(2,3,5) good l(1)]
    show ?thesis
    proof (cases "n = 0")
      case True
      then show ?thesis unfolding split using b1 d good by (simp add: next_phase_def fun_upd_def)
    next
      case False
      then show ?thesis unfolding split
        using Suc.IH [OF conjunct1 [OF d] _ _ l(2), of "Suc s"] b1 d good by (auto simp: next_phase_def fun_upd_def split: if_splits)
    qed
  qed
qed simp

lemma read_sectors:
  assumes "sane b" "phase b = Ready" "0 < n" "n \<le> 256" "s < 2 ^ 28"
  shows "if \<exists>t. s \<le> t \<and> t < s + n \<and> bad t then ide_read N P s n b = Inl ide_error
    else \<exists>b'. ide_read N P s n b = Inr (0, get_sectors s n (disk_of b), b') \<and> sane b' \<and> disk_of b' = disk_of b \<and> phase b' = Ready"
proof -
  obtain b1 where b1: "ide_wait_ready N P False b = Inr b1" "sane b1" "delay b1 = 0" "disk_of b1 = disk_of b" "phase b1 = Ready"
    using wait_ready [OF assms(1), of False] assms(2) by auto
  have c: "sane (ide_command P n s 0x20 b1)" "disk_of (ide_command P n s 0x20 b1) = disk_of b" "phase (ide_command P n s 0x20 b1) = Reads s n"
    using command [OF b1(2,3,5) assms(3-5), where cmd = "0x20"] b1(4) by simp_all
  show ?thesis
    using read_loop [OF c(1) assms(3) c(3)] c(2) b1 assms(4) by (auto simp: ide_read_def split: if_splits)
qed

lemma write_sectors:
  assumes "sane b" "phase b = Ready" "0 < n" "n \<le> 256" "s < 2 ^ 28" "length src = SECTSIZE * n"
  shows "if \<exists>t. s \<le> t \<and> t < s + n \<and> bad t then ide_write N P s src n b = Inl ide_error
    else \<exists>b'. ide_write N P s src n b = Inr (0, b') \<and> sane b' \<and> disk_of b' = put_sectors s n src (disk_of b) \<and> phase b' = Ready"
proof -
  obtain b1 where b1: "ide_wait_ready N P False b = Inr b1" "sane b1" "delay b1 = 0" "disk_of b1 = disk_of b" "phase b1 = Ready"
    using wait_ready [OF assms(1), of False] assms(2) by auto
  have c: "sane (ide_command P n s 0x30 b1)" "disk_of (ide_command P n s 0x30 b1) = disk_of b" "phase (ide_command P n s 0x30 b1) = Writes s n"
    using command [OF b1(2,3,5) assms(3-5), where cmd = "0x30"] b1(4) by simp_all
  show ?thesis
    using write_loop [OF c(1) assms(3) c(3) assms(6)] c(2) b1 assms(4) by (auto simp: ide_write_def split: if_splits)
qed

end

section \<open>A controller\<close>

text \<open>
  After a command and after every sector it is busy for \<open>lag\<close> polls; while it is busy, writes to its registers and transfers at the
  data port have no effect, and reads of the data port give zeros. At a bad sector it reports an error and transfers nothing.
  A sector count of 0 stands for 256.
\<close>

record ata =
  sects :: "nat \<Rightarrow> byte list"
  reg_count :: byte
  reg_lba0 :: byte
  reg_lba1 :: byte
  reg_lba2 :: byte
  reg_head :: byte
  aphase :: ata_phase
  busy :: nat
  lag :: nat
  bad_sects :: "nat \<Rightarrow> bool"

definition ata_lba :: "ata \<Rightarrow> nat" where
  "ata_lba c = unat (reg_lba0 c) + 2 ^ 8 * unat (reg_lba1 c) + 2 ^ 16 * unat (reg_lba2 c) + 2 ^ 24 * unat (reg_head c AND 0x0F)"

definition ata_count :: "ata \<Rightarrow> nat" where
  "ata_count c = (if reg_count c = 0 then 256 else unat (reg_count c))"

definition ata_in :: "nat \<Rightarrow> ata \<Rightarrow> byte \<times> ata" where
  "ata_in p c =
     (if p = IDE_STATUS then
        (if 0 < busy c then (0x80, c\<lparr>busy := busy c - 1\<rparr>)
         else (if fails_on (bad_sects c) (aphase c) then 0x41 else 0x40, c))
      else (0, c))"

definition ata_out :: "nat \<Rightarrow> byte \<Rightarrow> ata \<Rightarrow> ata" where
  "ata_out p v c =
     (if 0 < busy c then c
      else if p = 0x1F2 then c\<lparr>reg_count := v\<rparr>
      else if p = 0x1F3 then c\<lparr>reg_lba0 := v\<rparr>
      else if p = 0x1F4 then c\<lparr>reg_lba1 := v\<rparr>
      else if p = 0x1F5 then c\<lparr>reg_lba2 := v\<rparr>
      else if p = 0x1F6 then c\<lparr>reg_head := v\<rparr>
      else if p = 0x1F7 then
        (if v = 0x20 then c\<lparr>aphase := Reads (ata_lba c) (ata_count c), busy := lag c\<rparr>
         else if v = 0x30 then c\<lparr>aphase := Writes (ata_lba c) (ata_count c), busy := lag c\<rparr>
         else c)
      else c)"

definition ata_insl :: "nat \<Rightarrow> nat \<Rightarrow> ata \<Rightarrow> byte list \<times> ata" where
  "ata_insl p k c =
     (if 0 < busy c \<or> fails_on (bad_sects c) (aphase c) then (replicate (4 * k) 0, c)
      else case aphase c of
        Reads s (Suc n) \<Rightarrow> (sects c s, c\<lparr>aphase := next_phase Reads s n, busy := lag c\<rparr>)
      | _ \<Rightarrow> (replicate (4 * k) 0, c))"

definition ata_outsl :: "nat \<Rightarrow> byte list \<Rightarrow> ata \<Rightarrow> ata" where
  "ata_outsl p xs c =
     (if 0 < busy c \<or> fails_on (bad_sects c) (aphase c) then c
      else case aphase c of
        Writes s (Suc n) \<Rightarrow> c\<lparr>sects := (sects c)(s := xs), aphase := next_phase Writes s n, busy := lag c\<rparr>
      | _ \<Rightarrow> c)"

definition ata_ports :: "ata ports" where
  "ata_ports = \<lparr>inb = ata_in, outb = ata_out, insl = ata_insl, outsl = ata_outsl\<rparr>"

definition ata_sane :: "nat \<Rightarrow> (nat \<Rightarrow> bool) \<Rightarrow> ata \<Rightarrow> bool" where
  "ata_sane N bad c \<longleftrightarrow> busy c < N \<and> lag c < N \<and> bad_sects c = bad"

lemma head_bits:
  assumes "k < 16"
  shows "unat ((0xE0 OR word_of_nat k) AND 0x0F :: byte) = k"
proof -
  have m: "(0x0F :: byte) = mask 4" by (simp add: mask_eq_exp_minus_1)
  have "(0xE0 OR w) AND 0x0F = take_bit 4 w" for w :: byte
    unfolding bit.conj_disj_distrib2 take_bit_eq_mask m [symmetric] by simp
  moreover have "unat (word_of_nat k :: byte) = k" using assms by (simp add: unat_of_nat take_bit_nat_eq_self)
  ultimately show ?thesis using assms by (simp add: unsigned_take_bit_eq take_bit_nat_eq_self)
qed

lemma lba_bytes:
  assumes "s < 2 ^ 28"
  shows "s mod 2 ^ 8 + 2 ^ 8 * (s div 2 ^ 8 mod 2 ^ 8) + 2 ^ 16 * (s div 2 ^ 16 mod 2 ^ 8) + 2 ^ 24 * (s div 2 ^ 24 mod 16) = (s :: nat)"
proof -
  have "s div 2 ^ 24 < 16" using assms by (simp add: less_mult_imp_div_less)
  then have top: "s div 2 ^ 24 mod 16 = s div 2 ^ 24" by simp
  have join: "t = 2 ^ 8 * a + r \<Longrightarrow> a = 2 ^ 8 * b + r' \<Longrightarrow> b = 2 ^ 8 * c + r'' \<Longrightarrow>
      r + 2 ^ 8 * r' + 2 ^ 16 * r'' + 2 ^ 24 * c = t" for t a b c r r' r'' :: nat
    by simp
  have "s div 2 ^ 16 = 2 ^ 8 * (s div 2 ^ 24) + s div 2 ^ 16 mod 2 ^ 8"
    using div_mult_mod_eq [of "s div 2 ^ 16" "2 ^ 8"] by (simp add: div_mult2_eq [symmetric])
  moreover have "s div 2 ^ 8 = 2 ^ 8 * (s div 2 ^ 16) + s div 2 ^ 8 mod 2 ^ 8"
    using div_mult_mod_eq [of "s div 2 ^ 8" "2 ^ 8"] by (simp add: div_mult2_eq [symmetric])
  moreover have "s = 2 ^ 8 * (s div 2 ^ 8) + s mod 2 ^ 8" by simp
  ultimately show ?thesis unfolding top by (intro join)
qed

definition task_file :: "nat \<Rightarrow> nat \<Rightarrow> ata \<Rightarrow> ata" where
  "task_file n s c =
     c\<lparr>reg_count := word_of_nat n, reg_lba0 := word_of_nat s, reg_lba1 := word_of_nat (s div 2 ^ 8),
       reg_lba2 := word_of_nat (s div 2 ^ 16), reg_head := 0xE0 OR word_of_nat (s div 2 ^ 24 mod 16)\<rparr>"

lemma task_file_regs:
  "reg_lba0 (task_file n s c) = word_of_nat s" "reg_lba1 (task_file n s c) = word_of_nat (s div 2 ^ 8)"
  "reg_lba2 (task_file n s c) = word_of_nat (s div 2 ^ 16)"
  "reg_head (task_file n s c) = 0xE0 OR word_of_nat (s div 2 ^ 24 mod 16)"
  by (simp_all add: task_file_def)

lemma ata_command:
  assumes "s < 2 ^ 28" "0 < n" "n \<le> 256" "busy c = 0"
  shows "ide_command ata_ports n s cmd c = ata_out 0x1F7 cmd (task_file n s c)"
    and "ata_lba (task_file n s c) = s" "ata_count (task_file n s c) = n"
proof -
  show "ide_command ata_ports n s cmd c = ata_out 0x1F7 cmd (task_file n s c)"
    using assms(4) by (simp add: ide_command_def ata_ports_def task_file_def) (simp add: ata_out_def)
  have u: "unat (word_of_nat k :: byte) = k mod 2 ^ 8" for k by (simp add: unat_of_nat take_bit_eq_mod)
  have h: "unat ((0xE0 OR word_of_nat (s div 2 ^ 24 mod 16)) AND 0x0F :: byte) = s div 2 ^ 24 mod 16"
    by (rule head_bits) simp
  show "ata_lba (task_file n s c) = s"
    unfolding ata_lba_def task_file_regs u h by (rule lba_bytes [OF assms(1)])
  show "ata_count (task_file n s c) = n"
  proof (cases "n = 256")
    case False
    then have "n mod 2 ^ 8 = n" using assms(3) by simp
    then show ?thesis using assms(2) by (auto simp: ata_count_def task_file_def word_unat_eq_iff u)
  qed (simp add: ata_count_def task_file_def)
qed

interpretation ata: ata_disk ata_ports N bad sects aphase busy "ata_sane N bad" for N bad
proof unfold_locales
  fix b s n xs cmd
  show "ata_sane N bad b \<Longrightarrow> busy b < N" by (simp add: ata_sane_def)
  show "ata_sane N bad b \<Longrightarrow> 0 < busy b \<Longrightarrow> fst (inb ata_ports IDE_STATUS b) AND 0xC0 \<noteq> 0x40"
    by (simp add: ata_ports_def ata_in_def)
  show "ata_sane N bad b \<Longrightarrow> busy b = 0 \<Longrightarrow> fst (inb ata_ports IDE_STATUS b) AND 0xC0 = 0x40 \<and>
      (fst (inb ata_ports IDE_STATUS b) AND 0x21 = 0 \<longleftrightarrow> \<not> fails_on bad (aphase b))"
    by (simp add: ata_ports_def ata_in_def ata_sane_def)
  show "ata_sane N bad b \<Longrightarrow> ata_sane N bad (snd (inb ata_ports IDE_STATUS b)) \<and>
      sects (snd (inb ata_ports IDE_STATUS b)) = sects b \<and> aphase (snd (inb ata_ports IDE_STATUS b)) = aphase b \<and>
      busy (snd (inb ata_ports IDE_STATUS b)) = busy b - 1"
    by (auto simp: ata_ports_def ata_in_def ata_sane_def)
  show "ata_sane N bad (ide_command ata_ports n s cmd b) \<and> sects (ide_command ata_ports n s cmd b) = sects b \<and>
      aphase (ide_command ata_ports n s cmd b) = (if cmd = 0x20 then Reads s n else Writes s n)"
    if "ata_sane N bad b" "busy b = 0" "aphase b = Ready" "0 < n" "n \<le> 256" "s < 2 ^ 28" "cmd \<in> {0x20, 0x30}"
    using that(1,2,7) ata_command(2,3) [OF that(6,4,5,2)]
    unfolding ata_command(1) [OF that(6,4,5,2)] by (auto simp: ata_out_def ata_sane_def task_file_def)
  show "ata_sane N bad b \<Longrightarrow> busy b = 0 \<Longrightarrow> aphase b = Reads s (Suc n) \<Longrightarrow> \<not> bad s \<Longrightarrow> fst (insl ata_ports IDE_DATA 128 b) = sects b s \<and>
      ata_sane N bad (snd (insl ata_ports IDE_DATA 128 b)) \<and> sects (snd (insl ata_ports IDE_DATA 128 b)) = sects b \<and>
      aphase (snd (insl ata_ports IDE_DATA 128 b)) = next_phase Reads s n"
    by (simp add: ata_ports_def ata_insl_def ata_sane_def fails_on_def)
  show "ata_sane N bad b \<Longrightarrow> busy b = 0 \<Longrightarrow> aphase b = Writes s (Suc n) \<Longrightarrow> \<not> bad s \<Longrightarrow> length xs = SECTSIZE \<Longrightarrow>
      ata_sane N bad (outsl ata_ports IDE_DATA xs b) \<and> sects (outsl ata_ports IDE_DATA xs b) = (sects b)(s := xs) \<and>
      aphase (outsl ata_ports IDE_DATA xs b) = next_phase Writes s n"
    by (simp add: ata_ports_def ata_outsl_def ata_sane_def fails_on_def)
qed


definition blank_disk :: ata where
  "blank_disk = \<lparr>sects = (\<lambda>_. replicate SECTSIZE 0), reg_count = 0, reg_lba0 = 0, reg_lba1 = 0, reg_lba2 = 0, reg_head = 0,
     aphase = Ready, busy = 2, lag = 3, bad_sects = (\<lambda>s. s = 7)\<rparr>"


text \<open>The assertion admits a count of 0, which the controller takes for 256: nothing is read, and the controller goes on
  waiting to deliver 256 sectors.\<close>

lemma read_of_nothing:
  assumes "ata_sane N bad c" "s < 2 ^ 28"
  shows "\<exists>c'. ide_read N ata_ports s 0 c = Inr (0, [], c') \<and> (\<exists>t. aphase c' = Reads t 256)"
proof -
  obtain c1 where c1: "ide_wait_ready N ata_ports False c = Inr c1" "busy c1 = 0" using ata.wait_ready [OF assms(1), of False] by auto
  show ?thesis by (auto simp: ide_read_def c1(1)) (simp add: ide_command_def ata_ports_def ata_out_def ata_count_def Let_def c1(2))
qed

section \<open>The boot loader\<close>

record 'io boot_loader =
  lmem :: "nat \<Rightarrow> byte"
  lbus :: 'io

definition put_bytes :: "nat \<Rightarrow> byte list \<Rightarrow> (nat \<Rightarrow> byte) \<Rightarrow> nat \<Rightarrow> byte" where
  "put_bytes a xs m = (\<lambda>x. if a \<le> x \<and> x < a + length xs then xs ! (x - a) else m x)"

definition waitdisk :: "nat \<Rightarrow> 'io ports \<Rightarrow> 'io \<Rightarrow> 'io result" where
  "waitdisk N P b = andThen (ide_poll N P b) (\<lambda>(r, b). Inr b)"

definition readsect :: "nat \<Rightarrow> 'io ports \<Rightarrow> nat \<Rightarrow> nat \<Rightarrow> 'io boot_loader \<Rightarrow> 'io boot_loader result" where
  "readsect N P dst offset s =
     andThen (waitdisk N P (lbus s)) (\<lambda>b.
     let b = outb P 0x1F2 1 b;
         b = outb P 0x1F3 (word_of_nat offset) b;
         b = outb P 0x1F4 (word_of_nat (offset div 2 ^ 8)) b;
         b = outb P 0x1F5 (word_of_nat (offset div 2 ^ 16)) b;
         b = outb P 0x1F6 (word_of_nat (offset div 2 ^ 24) OR 0xE0) b;
         b = outb P 0x1F7 0x20 b in
     andThen (waitdisk N P b) (\<lambda>b.
     let (xs, b) = insl P 0x1F0 (SECTSIZE div 4) b in
     Inr (s\<lparr>lmem := put_bytes dst xs (lmem s), lbus := b\<rparr>)))"

text \<open>The loop of \<^verbatim>\<open>readseg\<close>; the turns it gets are the sectors from \<^verbatim>\<open>va\<close> to \<^verbatim>\<open>end_va\<close> and one more.\<close>

fun readseg_loop :: "nat \<Rightarrow> 'io ports \<Rightarrow> nat \<Rightarrow> nat \<Rightarrow> nat \<Rightarrow> nat \<Rightarrow> 'io boot_loader \<Rightarrow> 'io boot_loader result" where
  "readseg_loop N P 0 va end_va offset s = Inl Spins"
| "readseg_loop N P (Suc n) va end_va offset s =
     (if va < end_va then
        andThen (readsect N P va offset s) (\<lambda>s.
        readseg_loop N P n (add32 va SECTSIZE) end_va (add32 offset 1) s)
      else Inr s)"

definition readseg :: "nat \<Rightarrow> 'io ports \<Rightarrow> nat \<Rightarrow> nat \<Rightarrow> nat \<Rightarrow> 'io boot_loader \<Rightarrow> 'io boot_loader result" where
  "readseg N P va count offset s =
     (let va = va mod 2 ^ 24;
          end_va = add32 va count;
          va = ROUNDDOWN va SECTSIZE;
          offset = offset div SECTSIZE + 1
      in readseg_loop N P (Suc ((end_va - va + (SECTSIZE - 1)) div SECTSIZE)) va end_va offset s)"

definition mem16 :: "(nat \<Rightarrow> byte) \<Rightarrow> nat \<Rightarrow> nat" where
  "mem16 m a = unat (m a) + 2 ^ 8 * unat (m (a + 1))"

definition mem32 :: "(nat \<Rightarrow> byte) \<Rightarrow> nat \<Rightarrow> nat" where
  "mem32 m a = mem16 m a + 2 ^ 16 * mem16 m (a + 2)"

abbreviation ELFHDR :: nat where "ELFHDR \<equiv> 0x10000"

text \<open>\<^verbatim>\<open>for (; ph < eph; ph++)\<close>: the headers are read from the memory as it is in that turn; a header has
  32 bytes, and there are no turns when \<^verbatim>\<open>eph\<close> wraps around.\<close>

fun load_kernel_segments :: "nat \<Rightarrow> 'io ports \<Rightarrow> nat \<Rightarrow> nat \<Rightarrow> 'io boot_loader \<Rightarrow> 'io boot_loader result" where
  "load_kernel_segments N P 0 ph s = Inr s"
| "load_kernel_segments N P (Suc n) ph s =
     andThen (readseg N P (mem32 (lmem s) (ph + 8)) (mem32 (lmem s) (ph + 20)) (mem32 (lmem s) (ph + 4)) s) (\<lambda>s.
     load_kernel_segments N P n (ph + 32) s)"

text \<open>\<^verbatim>\<open>cmain\<close> ends with a jump to the address it returns here; with a bad image it loops for ever.\<close>

definition cmain :: "nat \<Rightarrow> 'io ports \<Rightarrow> 'io boot_loader \<Rightarrow> (nat \<times> 'io boot_loader) result" where
  "cmain N P s =
     andThen (readseg N P ELFHDR (SECTSIZE * 8) 0 s) (\<lambda>s.
     if mem32 (lmem s) ELFHDR \<noteq> 0x464C457F then Inl Spins
     else
       let ph = add32 ELFHDR (mem32 (lmem s) (ELFHDR + 28));
           eph = add32 ph (32 * mem16 (lmem s) (ELFHDR + 44)) in
       andThen (load_kernel_segments N P ((eph - ph) div 32) ph s) (\<lambda>s.
       Inr (mem32 (lmem s) (ELFHDR + 24) mod 2 ^ 24, s)))"

section \<open>Loading the kernel\<close>

text \<open>The image of the kernel starts in sector 1.\<close>

definition kimage :: "(nat \<Rightarrow> byte list) \<Rightarrow> nat \<Rightarrow> byte" where
  "kimage D k = D (k div SECTSIZE + 1) ! (k mod SECTSIZE)"

definition full_sectors :: "(nat \<Rightarrow> byte list) \<Rightarrow> bool" where
  "full_sectors D \<longleftrightarrow> (\<forall>s. length (D s) = SECTSIZE)"

definition sectors_between :: "nat \<Rightarrow> nat \<Rightarrow> nat" where
  "sectors_between va end_va = (end_va - va + (SECTSIZE - 1)) div SECTSIZE"

lemma length_get_sectors: "full_sectors D \<Longrightarrow> length (get_sectors s n D) = SECTSIZE * n"
  by (induction n arbitrary: s) (auto simp: get_sectors_Suc full_sectors_def, simp add: get_sectors_def)

lemma nth_get_sectors:
  "full_sectors D \<Longrightarrow> i < SECTSIZE * n \<Longrightarrow> get_sectors s n D ! i = D (s + i div SECTSIZE) ! (i mod SECTSIZE)"
proof (induction n arbitrary: s i)
  case (Suc n)
  show ?case
  proof (cases "i < SECTSIZE")
    case False
    then have "i div SECTSIZE = Suc ((i - SECTSIZE) div SECTSIZE)" "i mod SECTSIZE = (i - SECTSIZE) mod SECTSIZE"
      by (simp_all add: le_div_geq le_mod_geq)
    then show ?thesis using Suc False by (simp add: get_sectors_Suc nth_append full_sectors_def)
  qed (use Suc.prems in \<open>simp add: get_sectors_Suc nth_append full_sectors_def\<close>)
qed simp

lemma put_bytes_Nil [simp]: "put_bytes a [] m = m"
  by (rule ext) (auto simp: put_bytes_def)

lemma put_bytes_append: "put_bytes (a + length xs) ys (put_bytes a xs m) = put_bytes a (xs @ ys) m"
  by (rule ext) (auto simp: put_bytes_def nth_append)

lemma sectors_between_less: "va < end_va \<Longrightarrow> sectors_between va end_va = Suc (sectors_between (va + SECTSIZE) end_va)"
proof (cases "va + SECTSIZE \<le> end_va")
  case True
  then have "end_va - va + (SECTSIZE - 1) = (end_va - (va + SECTSIZE) + (SECTSIZE - 1)) + SECTSIZE" by simp
  then show ?thesis unfolding sectors_between_def by (simp only: div_add_self2)
next
  case False
  moreover assume "va < end_va"
  ultimately have "end_va - va + (SECTSIZE - 1) - SECTSIZE < SECTSIZE" "SECTSIZE \<le> end_va - va + (SECTSIZE - 1)" by simp_all
  then have "(end_va - va + (SECTSIZE - 1)) div SECTSIZE = 1" by (simp add: le_div_geq)
  then show ?thesis using False by (simp add: sectors_between_def)
qed

lemma head_byte:
  assumes "offset < 2 ^ 28"
  shows "word_of_nat (offset div 2 ^ 24) OR 0xE0 = (0xE0 OR word_of_nat (offset div 2 ^ 24 mod 16) :: byte)"
proof -
  have "offset div 2 ^ 24 < 16" using assms by (simp add: less_mult_imp_div_less)
  then have "offset div 2 ^ 24 mod 16 = offset div 2 ^ 24" by simp
  then show ?thesis by (simp only: or.commute)
qed

context ata_disk
begin

lemma waits:
  assumes "sane b"
  shows "\<exists>b'. waitdisk N P b = Inr b' \<and> sane b' \<and> delay b' = 0 \<and> disk_of b' = disk_of b \<and> phase b' = phase b"
  using poll [OF assms delay_bound [OF assms]] by (auto simp: waitdisk_def)

lemma readsect_reads:
  assumes "sane (lbus s)" "phase (lbus s) = Ready" "offset < 2 ^ 28" "\<not> bad offset"
  shows "\<exists>b'. readsect N P dst offset s = Inr (s\<lparr>lmem := put_bytes dst (disk_of (lbus s) offset) (lmem s), lbus := b'\<rparr>) \<and>
    sane b' \<and> disk_of b' = disk_of (lbus s) \<and> phase b' = Ready"
proof -
  obtain b1 where b1: "waitdisk N P (lbus s) = Inr b1" "sane b1" "delay b1 = 0" "disk_of b1 = disk_of (lbus s)" "phase b1 = Ready"
    using waits [OF assms(1)] assms(2) by auto
  let ?b = "ide_command P 1 offset 0x20 b1"
  have c: "sane ?b" "disk_of ?b = disk_of (lbus s)" "phase ?b = Reads offset 1"
    using command [OF b1(2,3,5) _ _ assms(3), where n = 1 and cmd = "0x20"] b1(4) by simp_all
  obtain b2 where b2: "waitdisk N P ?b = Inr b2" "sane b2" "delay b2 = 0" "disk_of b2 = disk_of (lbus s)" "phase b2 = Reads offset (Suc 0)"
    using waits [OF c(1)] c by auto
  note d = data_in [OF b2(2,3,5) assms(4)]
  have e: "?b = outb P 0x1F7 0x20 (outb P 0x1F6 (word_of_nat (offset div 2 ^ 24) OR 0xE0) (outb P 0x1F5 (word_of_nat (offset div 2 ^ 16))
      (outb P 0x1F4 (word_of_nat (offset div 2 ^ 8)) (outb P 0x1F3 (word_of_nat offset) (outb P 0x1F2 1 b1)))))"
    unfolding head_byte [OF assms(3)] by (simp only: ide_command_def Let_def of_nat_1)
  show ?thesis
    using d b2(4) by (simp only: readsect_def b1(1) andThen_simps Let_def e [symmetric] b2(1) split_beta)
      (auto simp: next_phase_def)
qed

lemma readseg_loop_reads:
  assumes "sane (lbus s)" "phase (lbus s) = Ready" "full_sectors (disk_of (lbus s))" "sectors_between va end_va < n"
    "va + SECTSIZE * sectors_between va end_va < 2 ^ 32" "offset + sectors_between va end_va < 2 ^ 28" "\<forall>t. \<not> bad t"
  shows "\<exists>b'. readseg_loop N P n va end_va offset s =
      Inr (s\<lparr>lmem := put_bytes va (get_sectors offset (sectors_between va end_va) (disk_of (lbus s))) (lmem s), lbus := b'\<rparr>) \<and>
    sane b' \<and> disk_of b' = disk_of (lbus s) \<and> phase b' = Ready"
  using assms
proof (induction n arbitrary: va offset s)
  case (Suc n)
  show ?case
  proof (cases "va < end_va")
    case True
    note k = sectors_between_less [OF True]
    let ?D = "disk_of (lbus s)"
    have o: "offset < 2 ^ 28" using Suc.prems(6) by simp
    obtain b1 where b1: "readsect N P va offset s = Inr (s\<lparr>lmem := put_bytes va (?D offset) (lmem s), lbus := b1\<rparr>)"
      "sane b1" "disk_of b1 = ?D" "phase b1 = Ready"
      using readsect_reads [OF Suc.prems(1,2) o] Suc.prems(7) by blast
    have a: "add32 va SECTSIZE = va + SECTSIZE" "add32 offset (Suc 0) = Suc offset"
      using Suc.prems(5,6) by (simp_all add: add32_def k)
    have l: "length (?D offset) = SECTSIZE" using Suc.prems(3) by (simp add: full_sectors_def)
    show ?thesis
      using Suc.IH [of "s\<lparr>lmem := put_bytes va (?D offset) (lmem s), lbus := b1\<rparr>" "va + SECTSIZE" "Suc offset"] b1 True Suc.prems(3-7)
        put_bytes_append [of va "?D offset"] l
      by (auto simp: k a get_sectors_Suc)
  next
    case False
    then have "sectors_between va end_va = 0" by (simp add: sectors_between_def)
    then show ?thesis using False Suc.prems by (auto simp: get_sectors_def intro!: exI [of _ "lbus s"])
  qed
qed simp

end

text \<open>The bytes of the memory that a call of \<^verbatim>\<open>readseg\<close> may overwrite.\<close>

definition seg_first :: "nat \<Rightarrow> nat" where
  "seg_first va = ROUNDDOWN (va mod 2 ^ 24) SECTSIZE"

definition seg_last :: "nat \<Rightarrow> nat \<Rightarrow> nat" where
  "seg_last va count = seg_first va + SECTSIZE * sectors_between (seg_first va) (va mod 2 ^ 24 + count)"

definition seg_fits :: "nat \<Rightarrow> nat \<Rightarrow> nat \<Rightarrow> bool" where
  "seg_fits va count offset \<longleftrightarrow>
     offset mod SECTSIZE = va mod SECTSIZE \<and> va mod 2 ^ 24 + count < 2 ^ 31 \<and> offset + count < 2 ^ 31"

lemma sectors_between_bounds:
  "e \<le> f + SECTSIZE * sectors_between f e" "f \<le> e \<Longrightarrow> SECTSIZE * sectors_between f e < e - f + SECTSIZE"
proof -
  let ?x = "e - f + (SECTSIZE - 1)"
  have x: "SECTSIZE * (?x div SECTSIZE) + ?x mod SECTSIZE = ?x" "?x mod SECTSIZE < SECTSIZE" by simp_all
  show "e \<le> f + SECTSIZE * sectors_between f e" unfolding sectors_between_def using x by linarith
  show "f \<le> e \<Longrightarrow> SECTSIZE * sectors_between f e < e - f + SECTSIZE" unfolding sectors_between_def using x by linarith
qed

lemma seg_offset:
  assumes "offset mod SECTSIZE = va mod SECTSIZE"
  shows "va mod 2 ^ 24 + i = seg_first va + (offset mod SECTSIZE + i)"
    "(offset + i) div SECTSIZE = offset div SECTSIZE + (offset mod SECTSIZE + i) div SECTSIZE"
    "(offset + i) mod SECTSIZE = (offset mod SECTSIZE + i) mod SECTSIZE"
proof -
  have "va mod 2 ^ 24 mod SECTSIZE = va mod SECTSIZE" by (rule mod_mod_cancel) simp
  then show "va mod 2 ^ 24 + i = seg_first va + (offset mod SECTSIZE + i)"
    using mod_less_eq_dividend [of "va mod 2 ^ 24" SECTSIZE] assms by (simp add: seg_first_def ROUNDDOWN_def)
  show "(offset + i) div SECTSIZE = offset div SECTSIZE + (offset mod SECTSIZE + i) div SECTSIZE"
    using div_mult_self3 [of SECTSIZE "offset div SECTSIZE" "offset mod SECTSIZE + i"] by (simp add: mult.commute flip: add.assoc)
  show "(offset + i) mod SECTSIZE = (offset mod SECTSIZE + i) mod SECTSIZE" by (simp add: mod_add_left_eq)
qed

context ata_disk
begin

lemma readseg_reads:
  assumes "sane (lbus s)" "phase (lbus s) = Ready" "full_sectors (disk_of (lbus s))" "seg_fits va count offset" "\<forall>t. \<not> bad t"
  shows "\<exists>s'. readseg N P va count offset s = Inr s' \<and> sane (lbus s') \<and> phase (lbus s') = Ready \<and>
    disk_of (lbus s') = disk_of (lbus s) \<and>
    (\<forall>i<count. lmem s' (va mod 2 ^ 24 + i) = kimage (disk_of (lbus s)) (offset + i)) \<and>
    (\<forall>x. x < seg_first va \<or> seg_last va count \<le> x \<longrightarrow> lmem s' x = lmem s x)"
proof -
  let ?f = "seg_first va" and ?e = "va mod 2 ^ 24 + count" and ?o = "offset div SECTSIZE + 1" and ?D = "disk_of (lbus s)"
  let ?k = "sectors_between ?f ?e"
  have f: "?f \<le> va mod 2 ^ 24" by (simp add: seg_first_def ROUNDDOWN_le)
  have fits: "offset mod SECTSIZE = va mod SECTSIZE" "?e < 2 ^ 31" "offset + count < 2 ^ 31" using assms(4) by (simp_all add: seg_fits_def)
  have k: "?e \<le> ?f + SECTSIZE * ?k" "SECTSIZE * ?k < ?e - ?f + SECTSIZE" using sectors_between_bounds [where f = ?f and e = ?e] f by simp_all
  have e: "add32 (va mod 2 ^ 24) count = ?e" using fits(2) by (simp add: add32_def)
  have w: "?f + SECTSIZE * ?k < 2 ^ 32" using k(2) f fits(2) by simp
  have "?e - ?f = offset mod SECTSIZE + count" using seg_offset(1) [OF fits(1), of count] by simp
  then have "SECTSIZE * ?k < offset mod SECTSIZE + count + SECTSIZE" using k(2) by simp
  moreover have "SECTSIZE * (offset div SECTSIZE) + offset mod SECTSIZE = offset" by simp
  moreover have "SECTSIZE * (?o + ?k) = SECTSIZE * (offset div SECTSIZE) + SECTSIZE + SECTSIZE * ?k" by simp
  ultimately have "SECTSIZE * (?o + ?k) < offset + count + 2 * SECTSIZE" by linarith
  then have r: "?o + ?k < 2 ^ 28" using fits(3) by simp
  obtain b' where b': "readseg N P va count offset s = Inr (s\<lparr>lmem := put_bytes ?f (get_sectors ?o ?k ?D) (lmem s), lbus := b'\<rparr>)"
    "sane b'" "disk_of b' = ?D" "phase b' = Ready"
    using readseg_loop_reads [OF assms(1-3) _ w r assms(5), of "Suc ?k"]
    unfolding readseg_def Let_def e seg_first_def [symmetric] sectors_between_def [symmetric] by auto
  have "put_bytes ?f (get_sectors ?o ?k ?D) (lmem s) (va mod 2 ^ 24 + i) = kimage ?D (offset + i)" if "i < count" for i
  proof -
    have b: "offset mod SECTSIZE + i < SECTSIZE * ?k" using that k(1) seg_offset(1) [OF fits(1), of i] by simp
    show ?thesis
      using b nth_get_sectors [OF assms(3) b, of ?o] seg_offset [OF fits(1), of i]
      by (simp add: put_bytes_def length_get_sectors [OF assms(3)] kimage_def)
  qed
  moreover have "put_bytes ?f (get_sectors ?o ?k ?D) (lmem s) x = lmem s x" if "x < ?f \<or> seg_last va count \<le> x" for x
    using that by (auto simp: put_bytes_def length_get_sectors [OF assms(3)] seg_last_def)
  ultimately show ?thesis using b' by auto
qed

end

text \<open>The header and the segments as they are in the image on the disk.\<close>

definition e_phoff_of :: "(nat \<Rightarrow> byte list) \<Rightarrow> nat" where
  "e_phoff_of D = mem32 (kimage D) 28"

definition e_phnum_of :: "(nat \<Rightarrow> byte list) \<Rightarrow> nat" where
  "e_phnum_of D = mem16 (kimage D) 44"

definition seg_va :: "(nat \<Rightarrow> byte list) \<Rightarrow> nat \<Rightarrow> nat" where
  "seg_va D j = mem32 (kimage D) (e_phoff_of D + 32 * j + 8)"

definition seg_size :: "(nat \<Rightarrow> byte list) \<Rightarrow> nat \<Rightarrow> nat" where
  "seg_size D j = mem32 (kimage D) (e_phoff_of D + 32 * j + 20)"

definition seg_off :: "(nat \<Rightarrow> byte list) \<Rightarrow> nat \<Rightarrow> nat" where
  "seg_off D j = mem32 (kimage D) (e_phoff_of D + 32 * j + 4)"

text \<open>
  A kernel image: the headers are in the first 4096 bytes, each segment lies in the file as in memory up to whole sectors,
  keeps clear of the scratch page with the headers, and starts in a sector after the bytes of the segments before it.
\<close>

definition kernel_image :: "(nat \<Rightarrow> byte list) \<Rightarrow> bool" where
  "kernel_image D \<longleftrightarrow>
     full_sectors D \<and> mem32 (kimage D) 0 = 0x464C457F \<and> e_phoff_of D + 32 * e_phnum_of D \<le> 4096 \<and>
     (\<forall>j<e_phnum_of D.
        seg_fits (seg_va D j) (seg_size D j) (seg_off D j) \<and>
        (seg_last (seg_va D j) (seg_size D j) \<le> ELFHDR \<or> ELFHDR + 4096 \<le> seg_first (seg_va D j)) \<and>
        (\<forall>i<j. seg_va D i mod 2 ^ 24 + seg_size D i \<le> seg_first (seg_va D j)))"

definition header_in :: "(nat \<Rightarrow> byte list) \<Rightarrow> (nat \<Rightarrow> byte) \<Rightarrow> bool" where
  "header_in D m \<longleftrightarrow> (\<forall>i<4096. m (ELFHDR + i) = kimage D i)"

lemma header_words:
  assumes "header_in D m"
  shows "a + 4 \<le> 4096 \<Longrightarrow> mem32 m (ELFHDR + a) = mem32 (kimage D) a" "a + 2 \<le> 4096 \<Longrightarrow> mem16 m (ELFHDR + a) = mem16 (kimage D) a"
proof -
  have b: "m (ELFHDR + i) = kimage D i" if "i < 4096" for i using assms that by (simp add: header_in_def)
  have h: "a + 2 \<le> 4096 \<Longrightarrow> mem16 m (ELFHDR + a) = mem16 (kimage D) a" for a
    using b [of a] b [of "a + 1"] by (simp add: mem16_def)
  show "a + 2 \<le> 4096 \<Longrightarrow> mem16 m (ELFHDR + a) = mem16 (kimage D) a" by (rule h)
  show "a + 4 \<le> 4096 \<Longrightarrow> mem32 m (ELFHDR + a) = mem32 (kimage D) a"
    using h [of a] h [of "a + 2"] by (simp add: mem32_def)
qed

definition loaded_segment :: "(nat \<Rightarrow> byte list) \<Rightarrow> (nat \<Rightarrow> byte) \<Rightarrow> nat \<Rightarrow> bool" where
  "loaded_segment D m j \<longleftrightarrow> (\<forall>i < seg_size D j. m (seg_va D j mod 2 ^ 24 + i) = kimage D (seg_off D j + i))"

context ata_disk
begin

lemma load_segments_loads:
  assumes "sane (lbus s)" "phase (lbus s) = Ready" "disk_of (lbus s) = D" "kernel_image D" "header_in D (lmem s)" "\<forall>t. \<not> bad t"
    "j + n = e_phnum_of D"
  shows "\<exists>s'. load_kernel_segments N P n (ELFHDR + (e_phoff_of D + 32 * j)) s = Inr s' \<and> header_in D (lmem s') \<and>
    (\<forall>k. j \<le> k \<and> k < e_phnum_of D \<longrightarrow> loaded_segment D (lmem s') k) \<and>
    (\<forall>x. (\<forall>k. j \<le> k \<and> k < e_phnum_of D \<longrightarrow> x < seg_first (seg_va D k)) \<longrightarrow> lmem s' x = lmem s x)"
  using assms
proof (induction n arbitrary: j s)
  case 0
  then show ?case by auto
next
  case (Suc n)
  have j: "j < e_phnum_of D" using Suc.prems(7) by simp
  have K: "full_sectors D" "e_phoff_of D + 32 * e_phnum_of D \<le> 4096" "seg_fits (seg_va D j) (seg_size D j) (seg_off D j)"
    "seg_last (seg_va D j) (seg_size D j) \<le> ELFHDR \<or> ELFHDR + 4096 \<le> seg_first (seg_va D j)"
    using Suc.prems(4) j by (simp_all add: kernel_image_def)
  have later: "seg_va D j mod 2 ^ 24 + seg_size D j \<le> seg_first (seg_va D k)" if "j < k" "k < e_phnum_of D" for k
    using Suc.prems(4) that by (simp add: kernel_image_def)
  let ?p = "e_phoff_of D + 32 * j"
  have p: "?p + 32 \<le> 4096" using K(2) j by simp
  have w: "mem32 (lmem s) (ELFHDR + ?p + 8) = seg_va D j" "mem32 (lmem s) (ELFHDR + ?p + 20) = seg_size D j"
    "mem32 (lmem s) (ELFHDR + ?p + 4) = seg_off D j"
    using header_words(1) [OF Suc.prems(5), of "?p + 8"] header_words(1) [OF Suc.prems(5), of "?p + 20"]
      header_words(1) [OF Suc.prems(5), of "?p + 4"] p
    by (simp_all add: seg_va_def seg_size_def seg_off_def)
  obtain s1 where s1: "readseg N P (seg_va D j) (seg_size D j) (seg_off D j) s = Inr s1" "sane (lbus s1)" "phase (lbus s1) = Ready"
    "disk_of (lbus s1) = D" "loaded_segment D (lmem s1) j"
    "\<And>x. x < seg_first (seg_va D j) \<or> seg_last (seg_va D j) (seg_size D j) \<le> x \<Longrightarrow> lmem s1 x = lmem s x"
    using readseg_reads [OF Suc.prems(1,2) _ K(3) Suc.prems(6)] K(1) Suc.prems(3) by (auto simp: loaded_segment_def)
  have h: "header_in D (lmem s1)"
    using Suc.prems(5) K(4) by (auto simp: header_in_def intro!: s1(6) [THEN trans])
  obtain s2 where s2: "load_kernel_segments N P n (ELFHDR + (e_phoff_of D + 32 * Suc j)) s1 = Inr s2" "header_in D (lmem s2)"
    "\<And>k. Suc j \<le> k \<and> k < e_phnum_of D \<Longrightarrow> loaded_segment D (lmem s2) k"
    "\<And>x. (\<forall>k. Suc j \<le> k \<and> k < e_phnum_of D \<longrightarrow> x < seg_first (seg_va D k)) \<Longrightarrow> lmem s2 x = lmem s1 x"
    using Suc.IH [OF s1(2-4) Suc.prems(4) h Suc.prems(6), of "Suc j"] Suc.prems(7) by auto
  have run: "load_kernel_segments N P (Suc n) (ELFHDR + ?p) s = Inr s2"
    using s1(1) s2(1) unfolding load_kernel_segments.simps w by (simp add: algebra_simps)
  have "lmem s2 (seg_va D j mod 2 ^ 24 + i) = lmem s1 (seg_va D j mod 2 ^ 24 + i)" if "i < seg_size D j" for i
    using s2(4) later that by (meson Suc_le_lessD add_less_cancel_left less_le_trans)
  then have "loaded_segment D (lmem s2) j" using s1(5) by (simp add: loaded_segment_def)
  then have "loaded_segment D (lmem s2) k" if "j \<le> k \<and> k < e_phnum_of D" for k
    using s2(3) [of k] that by (cases "k = j") auto
  moreover have "lmem s2 x = lmem s x" if "\<forall>k. j \<le> k \<and> k < e_phnum_of D \<longrightarrow> x < seg_first (seg_va D k)" for x
    using s2(4) [of x] s1(6) [of x] that j by auto
  ultimately show ?case using run s2(2) by blast
qed

lemma cmain_loads:
  assumes "sane (lbus s)" "phase (lbus s) = Ready" "kernel_image (disk_of (lbus s))" "\<forall>t. \<not> bad t"
  shows "\<exists>s'. cmain N P s = Inr (mem32 (kimage (disk_of (lbus s))) 24 mod 2 ^ 24, s') \<and>
    (\<forall>j<e_phnum_of (disk_of (lbus s)). loaded_segment (disk_of (lbus s)) (lmem s') j)"
proof -
  let ?D = "disk_of (lbus s)"
  have K: "full_sectors ?D" "mem32 (kimage ?D) 0 = 0x464C457F" "e_phoff_of ?D + 32 * e_phnum_of ?D \<le> 4096"
    using assms(3) by (simp_all add: kernel_image_def)
  have "seg_fits ELFHDR (SECTSIZE * 8) 0" by (simp add: seg_fits_def)
  then obtain s1 where s1: "readseg N P ELFHDR (SECTSIZE * 8) 0 s = Inr s1" "sane (lbus s1)" "phase (lbus s1) = Ready"
    "disk_of (lbus s1) = ?D" "header_in ?D (lmem s1)"
    using readseg_reads [OF assms(1,2) K(1) _ assms(4), of ELFHDR "SECTSIZE * 8" 0] by (auto simp: header_in_def)
  note hw = header_words [OF s1(5)]
  have w: "mem32 (lmem s1) ELFHDR = 0x464C457F" "mem32 (lmem s1) (ELFHDR + 28) = e_phoff_of ?D"
    "mem16 (lmem s1) (ELFHDR + 44) = e_phnum_of ?D"
    using hw(1) [of 0] hw(1) [of 28] hw(2) [of 44] K(2) by (simp_all add: e_phoff_of_def e_phnum_of_def)
  have a: "add32 ELFHDR (e_phoff_of ?D) = ELFHDR + e_phoff_of ?D"
    "add32 (ELFHDR + e_phoff_of ?D) (32 * e_phnum_of ?D) = ELFHDR + e_phoff_of ?D + 32 * e_phnum_of ?D"
    using K(3) by (simp_all add: add32_def)
  obtain s2 where s2: "load_kernel_segments N P (e_phnum_of ?D) (ELFHDR + e_phoff_of ?D) s1 = Inr s2" "header_in ?D (lmem s2)"
    "\<And>k. k < e_phnum_of ?D \<Longrightarrow> loaded_segment ?D (lmem s2) k"
    using load_segments_loads [OF s1(2-4) assms(3) s1(5) assms(4), of 0] by auto
  have "mem32 (lmem s2) (ELFHDR + 24) = mem32 (kimage ?D) 24" using header_words(1) [OF s2(2), of 24] by simp
  then have "cmain N P s = Inr (mem32 (kimage ?D) 24 mod 2 ^ 24, s2)"
    using s1(1) s2(1) w(1) unfolding cmain_def Let_def by (simp only: andThen_simps w a) (simp only: diff_add_inverse nonzero_mult_div_cancel_left numeral_neq_zero if_False andThen_simps s2(1) simp_thms)
  then show ?thesis using s2(3) by blast
qed

end

text \<open>
  C6. The boot loader loads the kernel: from a disk without bad sectors that has a kernel image behind the boot sector
  \<^verbatim>\<open>cmain\<close> ends, control goes to the entry point of the header (below 16 MB), and every segment of the program headers is in memory at
  its address (below 16 MB) as it is in the image. The controller may be busy for up to \<open>N - 1\<close> polls at the start, after every command
  and after every sector, and ignores commands and transfers while it is.
\<close>

theorem boot_loads_kernel:
  assumes "ata_sane N (\<lambda>_. False) (lbus s)" "aphase (lbus s) = Ready" "kernel_image (sects (lbus s))"
  shows "\<exists>s'. cmain N ata_ports s = Inr (mem32 (kimage (sects (lbus s))) 24 mod 2 ^ 24, s') \<and>
    (\<forall>j<e_phnum_of (sects (lbus s)). \<forall>i < seg_size (sects (lbus s)) j.
       lmem s' (seg_va (sects (lbus s)) j mod 2 ^ 24 + i) = kimage (sects (lbus s)) (seg_off (sects (lbus s)) j + i))"
  using ata.cmain_loads [OF assms] by (auto simp: loaded_segment_def)

text \<open>The boot loader does not look at the error bit: for a bad sector it goes on, with what the data port gives.\<close>

lemma boot_ignores_errors:
  assumes "ata_sane N bad (lbus s)" "aphase (lbus s) = Ready" "offset < 2 ^ 28" "bad offset"
  shows "\<exists>b'. readsect N ata_ports dst offset s = Inr (s\<lparr>lmem := put_bytes dst (replicate SECTSIZE 0) (lmem s), lbus := b'\<rparr>)"
proof -
  obtain b1 where b1: "waitdisk N ata_ports (lbus s) = Inr b1" "ata_sane N bad b1" "busy b1 = 0" "aphase b1 = Ready"
    using ata.waits [OF assms(1)] assms(2) by auto
  let ?b = "ide_command ata_ports 1 offset 0x20 b1"
  have c: "ata_sane N bad ?b" "aphase ?b = Reads offset 1"
    using ata.command [OF b1(2-4) _ _ assms(3), where n = 1 and cmd = "0x20"] by simp_all
  obtain b2 where b2: "waitdisk N ata_ports ?b = Inr b2" "ata_sane N bad b2" "busy b2 = 0" "aphase b2 = Reads offset 1"
    using ata.waits [OF c(1)] c(2) by auto
  have e: "?b = outb ata_ports 0x1F7 0x20 (outb ata_ports 0x1F6 (word_of_nat (offset div 2 ^ 24) OR 0xE0)
      (outb ata_ports 0x1F5 (word_of_nat (offset div 2 ^ 16)) (outb ata_ports 0x1F4 (word_of_nat (offset div 2 ^ 8))
      (outb ata_ports 0x1F3 (word_of_nat offset) (outb ata_ports 0x1F2 1 b1)))))"
    unfolding head_byte [OF assms(3)] by (simp only: ide_command_def Let_def of_nat_1)
  have "insl ata_ports 0x1F0 (SECTSIZE div 4) b2 = (replicate SECTSIZE 0, b2)"
    using b2(2,4) assms(4) by (simp add: ata_ports_def ata_insl_def fails_on_def ata_sane_def)
  then show ?thesis
    by (simp only: readsect_def b1(1) andThen_simps Let_def e [symmetric] b2(1) prod.case) blast
qed

text \<open>An image with one segment of 600 bytes at \<^verbatim>\<open>0xF0100000\<close>.\<close>

definition tiny_header :: "byte list" where
  "tiny_header = [0x7F, 0x45, 0x4C, 0x46, 0, 0, 0, 0, 0, 0, 0, 0, 0, 0, 0, 0, 2, 0, 3, 0, 1, 0, 0, 0,
     0x0C, 0, 0x10, 0xF0, 52, 0, 0, 0, 0, 0, 0, 0, 0, 0, 0, 0, 52, 0, 32, 0, 1, 0, 40, 0, 0, 0, 0, 0,
     1, 0, 0, 0, 0, 0x10, 0, 0, 0, 0, 0x10, 0xF0, 0, 0, 0x10, 0, 0x58, 2, 0, 0, 0x58, 2, 0, 0, 5, 0, 0, 0, 0, 0x10, 0, 0]"

definition tiny_disk :: ata where
  "tiny_disk = blank_disk\<lparr>bad_sects := \<lambda>_. False, sects := \<lambda>s. if s = 1 then tiny_header @ replicate 428 0 else replicate SECTSIZE (word_of_nat s)\<rparr>"

lemma tiny_image:
  "full_sectors (sects tiny_disk)" "mem32 (kimage (sects tiny_disk)) 0 = 0x464C457F" "mem32 (kimage (sects tiny_disk)) 24 = 0xF010000C"
  "e_phoff_of (sects tiny_disk) = 52" "e_phnum_of (sects tiny_disk) = 1"
  by (simp_all add: full_sectors_def tiny_disk_def tiny_header_def mem32_def mem16_def kimage_def e_phoff_of_def e_phnum_of_def)

lemma tiny_segment:
  "seg_va (sects tiny_disk) 0 = 0xF0100000" "seg_size (sects tiny_disk) 0 = 600" "seg_off (sects tiny_disk) 0 = 4096"
  unfolding seg_va_def seg_size_def seg_off_def tiny_image
  by (simp_all add: tiny_disk_def tiny_header_def mem32_def mem16_def kimage_def)

lemma tiny_ready: "ata_sane 5 (\<lambda>_. False) tiny_disk" "aphase tiny_disk = Ready"
  by (simp_all add: tiny_disk_def blank_disk_def ata_sane_def)

theorem boot_loads_kernel_witness:
  "\<exists>s'. cmain 5 ata_ports \<lparr>lmem = (\<lambda>_. 0), lbus = tiny_disk\<rparr> = Inr (0x10000C, s') \<and>
    (\<forall>i<512. lmem s' (0x100000 + i) = 9) \<and> lmem s' 0x100257 = 10"
proof -
  have "kernel_image (sects tiny_disk)"
    by (simp add: kernel_image_def tiny_image tiny_segment seg_fits_def seg_first_def ROUNDDOWN_def)
  then obtain s' where s': "cmain 5 ata_ports \<lparr>lmem = (\<lambda>_. 0), lbus = tiny_disk\<rparr> = Inr (0x10000C, s')"
    "\<forall>i < 600. lmem s' (0x100000 + i) = kimage (sects tiny_disk) (4096 + i)"
    using boot_loads_kernel [of 5 "\<lparr>lmem = (\<lambda>_. 0), lbus = tiny_disk\<rparr>"]
    by (auto simp: tiny_image tiny_segment tiny_ready)
  have "kimage (sects tiny_disk) (4096 + i) = 9" if "i < 512" for i
    using that by (simp add: kimage_def tiny_disk_def div_add1_eq)
  moreover have "kimage (sects tiny_disk) 4695 = 10" by (simp add: kimage_def tiny_disk_def)
  ultimately show ?thesis using s' spec [OF s'(2), of 599] by auto
qed

end
