(* ===== verification/Fixed_Point.thy ===== *)
theory Fixed_Point
  imports FOS_Prelude "HOL-Library.Signed_Division"
begin

text \<open>
  The fixed point numbers of \<^verbatim>\<open>src/inc/fixed_point.h\<close>: 14 fraction bits in a 32 bit \<^verbatim>\<open>int\<close>. Signed arithmetic that leaves the
  range of \<^verbatim>\<open>int\<close> is undefined in C and an error here; a \<^verbatim>\<open>long long\<close> that is stored into an \<^verbatim>\<open>int\<close> keeps its low 32 bits.
  Division rounds toward zero.
\<close>

section \<open>Arithmetic of \<^verbatim>\<open>int\<close>\<close>

definition INT_MIN :: int where
  "INT_MIN = - (2 ^ 31)"

definition INT_MAX :: int where
  "INT_MAX = 2 ^ 31 - 1"

definition in_int :: "int \<Rightarrow> bool" where
  "in_int x \<longleftrightarrow> INT_MIN \<le> x \<and> x \<le> INT_MAX"

definition s32 :: "int \<Rightarrow> int result" where
  "s32 x = (if in_int x then Inr x else Inl (Corrupted ''signed overflow''))"

definition narrow :: "int \<Rightarrow> int" where
  "narrow x = (x + 2 ^ 31) mod 2 ^ 32 - 2 ^ 31"

text \<open>The division of two \<^verbatim>\<open>int\<close>: the processor traps on a zero divisor and on a quotient that is out of range.\<close>

definition idiv :: "int \<Rightarrow> int \<Rightarrow> int result" where
  "idiv a b = (if b = 0 \<or> a = INT_MIN \<and> b = - 1 then Inl (Cpu_trap ''Divide error'') else Inr (a sdiv b))"

section \<open>The operations\<close>

abbreviation FIX_F :: int where "FIX_F \<equiv> 16384"
abbreviation FIX_MAX_INT :: int where "FIX_MAX_INT \<equiv> 131071"
abbreviation FIX_MIN_INT :: int where "FIX_MIN_INT \<equiv> - 131071"

record fixed_point_t =
  fix_f :: int

definition mk_fix :: "int \<Rightarrow> fixed_point_t" where
  "mk_fix v = \<lparr>fix_f = v\<rparr>"

definition fix_int :: "int \<Rightarrow> fixed_point_t result" where
  "fix_int n =
     andThen (c_assert (FIX_MIN_INT \<le> n \<and> n \<le> FIX_MAX_INT) ''n >= FIX_MIN_INT && n <= FIX_MAX_INT'') (\<lambda>_.
     andThen (s32 (n * FIX_F)) (\<lambda>v. Inr (mk_fix v)))"

definition fix_frac :: "int \<Rightarrow> int \<Rightarrow> fixed_point_t result" where
  "fix_frac n d =
     andThen (c_assert (d \<noteq> 0) ''d != 0'') (\<lambda>_.
     andThen (idiv n d) (\<lambda>q.
     andThen (c_assert (FIX_MIN_INT \<le> q \<and> q \<le> FIX_MAX_INT) ''n / d >= FIX_MIN_INT && n / d <= FIX_MAX_INT'') (\<lambda>_.
     Inr (mk_fix (narrow ((n * FIX_F) sdiv d))))))"

definition fix_round :: "fixed_point_t \<Rightarrow> int result" where
  "fix_round x =
     (if fix_f x \<ge> 0 then andThen (s32 (fix_f x + FIX_F div 2)) (\<lambda>v. Inr (v sdiv FIX_F))
      else andThen (s32 (fix_f x - FIX_F div 2)) (\<lambda>v. Inr (v sdiv FIX_F)))"

definition fix_trunc :: "fixed_point_t \<Rightarrow> int" where
  "fix_trunc x = fix_f x sdiv FIX_F"

definition fix_add :: "fixed_point_t \<Rightarrow> fixed_point_t \<Rightarrow> fixed_point_t result" where
  "fix_add x y = andThen (s32 (fix_f x + fix_f y)) (\<lambda>v. Inr (mk_fix v))"

definition fix_sub :: "fixed_point_t \<Rightarrow> fixed_point_t \<Rightarrow> fixed_point_t result" where
  "fix_sub x y = andThen (s32 (fix_f x - fix_f y)) (\<lambda>v. Inr (mk_fix v))"

definition fix_mul :: "fixed_point_t \<Rightarrow> fixed_point_t \<Rightarrow> fixed_point_t" where
  "fix_mul x y = mk_fix (narrow ((fix_f x * fix_f y) sdiv FIX_F))"

definition fix_scale :: "fixed_point_t \<Rightarrow> int \<Rightarrow> fixed_point_t result" where
  "fix_scale x n = andThen (c_assert (n \<ge> 0) ''n >= 0'') (\<lambda>_. andThen (s32 (fix_f x * n)) (\<lambda>v. Inr (mk_fix v)))"

definition fix_div :: "fixed_point_t \<Rightarrow> fixed_point_t \<Rightarrow> fixed_point_t result" where
  "fix_div x y =
     (if fix_f y = 0 then Inl (Cpu_trap ''Divide error'') else Inr (mk_fix (narrow ((fix_f x * FIX_F) sdiv fix_f y))))"

definition fix_unscale :: "fixed_point_t \<Rightarrow> int \<Rightarrow> fixed_point_t result" where
  "fix_unscale x n = andThen (c_assert (n > 0) ''n > 0'') (\<lambda>_. andThen (idiv (fix_f x) n) (\<lambda>v. Inr (mk_fix v)))"

definition fix_inv :: "fixed_point_t \<Rightarrow> fixed_point_t result" where
  "fix_inv x = andThen (fix_int 1) (\<lambda>one. fix_div one x)"

definition fix_compare :: "fixed_point_t \<Rightarrow> fixed_point_t \<Rightarrow> int" where
  "fix_compare x y = (if fix_f x < fix_f y then - 1 else if fix_f x > fix_f y then 1 else 0)"

section \<open>Lemmas\<close>

lemma cdiv_bounds:
  fixes a b :: int
  assumes "b \<noteq> 0"
  shows "\<bar>(a sdiv b) * b - a\<bar> < \<bar>b\<bar>" "\<bar>(a sdiv b) * b\<bar> \<le> \<bar>a\<bar>"
proof -
  have e: "\<bar>b\<bar> * (\<bar>a\<bar> div \<bar>b\<bar>) + \<bar>a\<bar> mod \<bar>b\<bar> = \<bar>a\<bar>" by simp
  have m: "0 \<le> \<bar>a\<bar> mod \<bar>b\<bar>" "\<bar>a\<bar> mod \<bar>b\<bar> < \<bar>b\<bar>" using assms by simp_all
  have c: "(a sdiv b) * b = sgn a * (\<bar>b\<bar> * (\<bar>a\<bar> div \<bar>b\<bar>))"
    by (simp add: signed_divide_int_def abs_sgn mult.commute mult.left_commute)
  have a: "a = sgn a * \<bar>a\<bar>" by (simp add: sgn_mult_abs)
  have "(a sdiv b) * b - a = - sgn a * (\<bar>a\<bar> mod \<bar>b\<bar>)"
    using c a e by (metis add_diff_cancel_left' minus_diff_eq mult_minus_left right_diff_distrib')
  then show "\<bar>(a sdiv b) * b - a\<bar> < \<bar>b\<bar>" using m assms by (auto simp: abs_mult sgn_if)
  have "\<bar>b\<bar> * (\<bar>a\<bar> div \<bar>b\<bar>) \<le> \<bar>a\<bar>" using e m by linarith
  moreover have "0 \<le> \<bar>b\<bar> * (\<bar>a\<bar> div \<bar>b\<bar>)" by (simp add: pos_imp_zdiv_nonneg_iff assms)
  ultimately show "\<bar>(a sdiv b) * b\<bar> \<le> \<bar>a\<bar>" unfolding c by (auto simp: abs_mult sgn_if)
qed

lemma cdiv_exact: "b \<noteq> 0 \<Longrightarrow> ((q * b) sdiv b) = q" for b q :: int
  unfolding signed_divide_int_def sgn_mult abs_mult by (auto simp: sgn_if)

lemma narrow_id: "in_int x \<Longrightarrow> narrow x = x"
  by (simp add: narrow_def in_int_def INT_MIN_def INT_MAX_def)

lemma fix_int_ok: "\<bar>n\<bar> \<le> FIX_MAX_INT \<Longrightarrow> fix_int n = Inr (mk_fix (n * FIX_F))"
  by (auto simp: fix_int_def s32_def in_int_def INT_MIN_def INT_MAX_def c_assert_def abs_le_iff)

text \<open>
  Rounding gives the nearest integer, within half a unit, wherever the sum of the rounding does not overflow; an integer
  survives the conversion and back.
\<close>

lemma fix_round_nearest:
  assumes "\<bar>fix_f x\<bar> \<le> INT_MAX - FIX_F div 2"
  shows "\<exists>n. fix_round x = Inr n \<and> \<bar>2 * (n * FIX_F - fix_f x)\<bar> \<le> FIX_F"
proof (cases "fix_f x \<ge> 0")
  case True
  have "\<bar>((fix_f x + 8192) sdiv FIX_F) * FIX_F\<bar> \<le> \<bar>fix_f x + 8192\<bar>" "\<bar>((fix_f x + 8192) sdiv FIX_F) * FIX_F - (fix_f x + 8192)\<bar> < FIX_F"
    using cdiv_bounds [of FIX_F "fix_f x + 8192"] by simp_all
  then show ?thesis
    using assms True by (auto simp: fix_round_def s32_def in_int_def INT_MIN_def INT_MAX_def)
next
  case False
  have "\<bar>((fix_f x - 8192) sdiv FIX_F) * FIX_F\<bar> \<le> \<bar>fix_f x - 8192\<bar>" "\<bar>((fix_f x - 8192) sdiv FIX_F) * FIX_F - (fix_f x - 8192)\<bar> < FIX_F"
    using cdiv_bounds [of FIX_F "fix_f x - 8192"] by simp_all
  then show ?thesis
    using assms False by (auto simp: fix_round_def s32_def in_int_def INT_MIN_def INT_MAX_def)
qed

lemma fix_int_round_trip:
  assumes "\<bar>n\<bar> \<le> FIX_MAX_INT"
  shows "\<exists>x. fix_int n = Inr x \<and> fix_round x = Inr n \<and> fix_trunc x = n"
proof -
  let ?x = "mk_fix (n * FIX_F)"
  have "\<bar>n * FIX_F\<bar> \<le> FIX_MAX_INT * FIX_F" using assms by (simp add: abs_mult)
  then have b: "\<bar>fix_f ?x\<bar> \<le> INT_MAX - FIX_F div 2" by (simp add: mk_fix_def INT_MAX_def)
  obtain m where m: "fix_round ?x = Inr m" "\<bar>2 * (m * FIX_F - n * FIX_F)\<bar> \<le> FIX_F"
    using fix_round_nearest [OF b] by (auto simp: mk_fix_def)
  have "2 * (m * FIX_F - n * FIX_F) = 32768 * (m - n)" by simp
  then have "32768 * \<bar>m - n\<bar> \<le> 16384" using m(2) by (simp add: abs_mult)
  moreover have "32768 * k \<le> 16384 \<Longrightarrow> 0 \<le> k \<Longrightarrow> k = 0" for k :: int
  proof (rule ccontr)
    assume k: "32768 * k \<le> 16384" "0 \<le> k" "k \<noteq> 0"
    then have "32768 * 1 \<le> 32768 * k" by (intro mult_left_mono) simp_all
    then show False using k(1) by simp
  qed
  ultimately have "\<bar>m - n\<bar> = 0" by (metis abs_ge_zero)
  then have "m = n" by simp
  then show ?thesis using m(1) fix_int_ok [OF assms] cdiv_exact [of FIX_F n] by (simp add: fix_trunc_def mk_fix_def)
qed

text \<open>Truncation is toward zero, not down as the comment has it: minus one half becomes 0.\<close>

lemma fix_trunc_toward_zero:
  "\<bar>fix_trunc x * FIX_F\<bar> \<le> \<bar>fix_f x\<bar>" "\<bar>fix_trunc x * FIX_F - fix_f x\<bar> < FIX_F" "fix_trunc (mk_fix (- 8192)) = 0"
  using cdiv_bounds [of FIX_F "fix_f x"] by (simp_all add: fix_trunc_def mk_fix_def signed_divide_int_def)

text \<open>Products and quotients are exact up to one unit in the last place, when the result is in range.\<close>

lemma fix_mul_accurate:
  assumes "in_int ((fix_f x * fix_f y) sdiv FIX_F)"
  shows "\<bar>fix_f (fix_mul x y) * FIX_F - fix_f x * fix_f y\<bar> < FIX_F"
  using cdiv_bounds(1) [of FIX_F "fix_f x * fix_f y"] narrow_id [OF assms] by (simp add: fix_mul_def mk_fix_def)

lemma fix_div_accurate:
  assumes "fix_f y \<noteq> 0" "in_int ((fix_f x * FIX_F) sdiv fix_f y)"
  shows "\<exists>z. fix_div x y = Inr z \<and> \<bar>fix_f z * fix_f y - fix_f x * FIX_F\<bar> < \<bar>fix_f y\<bar>"
  using cdiv_bounds(1) [of "fix_f y" "fix_f x * FIX_F"] narrow_id [OF assms(2)] assms(1) by (simp add: fix_div_def mk_fix_def)

text \<open>Comparison is the order of the values.\<close>

lemma fix_compare_sign: "fix_compare x y = sgn (fix_f x - fix_f y)"
  by (simp add: fix_compare_def sgn_if)

end
