(* ===== verification/Kernel_Entry.thy ===== *)
theory Kernel_Entry
  imports System_Calls
begin

text \<open>
  How the kernel is entered and left in a hurry: the interrupt descriptor table and the names of the traps
  (\<^verbatim>\<open>idt_init\<close>, \<^verbatim>\<open>trapname\<close> of \<^verbatim>\<open>src/kern/trap/trap.c\<close>, with the numbers the stubs of
  \<^verbatim>\<open>src/kern/trap/trapentry.S\<close> push), what a program reaches with the instruction \<^verbatim>\<open>int\<close>, and the three kinds of
  panic of \<^verbatim>\<open>src/kern/init.c\<close>.
\<close>

section \<open>The descriptor table\<close>

datatype entry_point =
  DBL_FAULT | PAGE_FAULT | IRQ0_CLK_HANDLER | IRQ1_KBD_HANDLER | SYSCALL_HANDLER | ALL_FAULTS nat

text \<open>A gate as \<^verbatim>\<open>SETGATE\<close> fills it: a trap gate or an interrupt gate, its entry point and the privilege it asks for.\<close>

record gate =
  gd_istrap :: bool
  gd_off :: entry_point
  gd_dpl :: nat

abbreviation SETGATE :: "nat \<Rightarrow> bool \<Rightarrow> entry_point \<Rightarrow> nat \<Rightarrow> nat \<times> gate" where
  "SETGATE v istrap off dpl \<equiv> (v, \<lparr>gd_istrap = istrap, gd_off = off, gd_dpl = dpl\<rparr>)"

definition idt_gates :: "(nat \<times> gate) list" where
  "idt_gates =
     [SETGATE 8 False DBL_FAULT 0, SETGATE 14 False PAGE_FAULT 0,
      SETGATE 32 False IRQ0_CLK_HANDLER 3, SETGATE 33 False IRQ1_KBD_HANDLER 3, SETGATE 48 False SYSCALL_HANDLER 3,
      SETGATE 0 False (ALL_FAULTS 0) 3, SETGATE 1 True (ALL_FAULTS 1) 3, SETGATE 2 False (ALL_FAULTS 2) 3,
      SETGATE 3 True (ALL_FAULTS 3) 3, SETGATE 4 True (ALL_FAULTS 4) 3, SETGATE 5 False (ALL_FAULTS 5) 3,
      SETGATE 6 False (ALL_FAULTS 6) 3, SETGATE 7 False (ALL_FAULTS 7) 3, SETGATE 10 False (ALL_FAULTS 10) 3,
      SETGATE 11 False (ALL_FAULTS 11) 3, SETGATE 12 False (ALL_FAULTS 12) 3, SETGATE 13 False (ALL_FAULTS 13) 3,
      SETGATE 16 False (ALL_FAULTS 16) 3, SETGATE 17 False (ALL_FAULTS 17) 3, SETGATE 18 False (ALL_FAULTS 18) 3,
      SETGATE 19 False (ALL_FAULTS 19) 3,
      SETGATE 34 False (ALL_FAULTS 34) 3, SETGATE 35 False (ALL_FAULTS 35) 3, SETGATE 36 False (ALL_FAULTS 36) 3,
      SETGATE 37 False (ALL_FAULTS 37) 3, SETGATE 38 False (ALL_FAULTS 38) 3, SETGATE 39 False (ALL_FAULTS 39) 3,
      SETGATE 40 False (ALL_FAULTS 40) 3, SETGATE 41 False (ALL_FAULTS 41) 3, SETGATE 42 False (ALL_FAULTS 42) 3,
      SETGATE 43 False (ALL_FAULTS 43) 3, SETGATE 44 False (ALL_FAULTS 44) 3, SETGATE 45 False (ALL_FAULTS 45) 3,
      SETGATE 46 False (ALL_FAULTS 46) 3, SETGATE 47 False (ALL_FAULTS 47) 3]"

definition idt_init :: "nat \<rightharpoonup> gate" where
  "idt_init = map_of idt_gates"

text \<open>The number that the stub of an entry point pushes.\<close>

fun pushed_trapno :: "entry_point \<Rightarrow> nat" where
  "pushed_trapno DBL_FAULT = T_DBLFLT"
| "pushed_trapno PAGE_FAULT = T_PGFLT"
| "pushed_trapno IRQ0_CLK_HANDLER = 32"
| "pushed_trapno IRQ1_KBD_HANDLER = 33"
| "pushed_trapno SYSCALL_HANDLER = T_SYSCALL"
| "pushed_trapno (ALL_FAULTS n) = n"

definition excnames :: "string list" where
  "excnames =
     [''Divide error'', ''Debug'', ''Non-Maskable Interrupt'', ''Breakpoint'', ''Overflow'', ''BOUND Range Exceeded'',
      ''Invalid Opcode'', ''Device Not Available'', ''Double Fault'', ''Coprocessor Segment Overrun'', ''Invalid TSS'',
      ''Segment Not Present'', ''Stack Fault'', ''General Protection'', ''Page Fault'', ''(unknown trap)'',
      ''x87 FPU Floating-Point Error'', ''Alignment Check'', ''Machine-Check'', ''SIMD Floating-Point Exception'']"

definition trapname :: "nat \<Rightarrow> string" where
  "trapname trapno =
     (if trapno < length excnames then excnames ! trapno
      else if trapno = T_SYSCALL then ''System call''
      else if trapno = 32 then ''Clock Interrupt''
      else if trapno = 33 then ''Keyboard Interrupt''
      else ''(unknown trap)'')"

text \<open>
  The table covers the exceptions the processor defines, but for the reserved 9 and 15, the sixteen interrupt lines and the
  system call; every stub pushes the number of its own vector.
\<close>

lemma idt_all: "list_all (\<lambda>(v, g). pushed_trapno (gd_off g) = v \<and> gd_dpl g = (if v \<in> {8, 14} then 0 else 3) \<and>
    gd_istrap g = (v \<in> {1, 3, 4})) idt_gates"
  by (simp add: idt_gates_def)

lemma idt_gate:
  assumes "idt_init v = Some g"
  shows "pushed_trapno (gd_off g) = v" "gd_dpl g = (if v \<in> {8, 14} then 0 else 3)" "gd_istrap g \<longleftrightarrow> v \<in> {1, 3, 4}"
  using idt_all map_of_SomeD [OF assms [unfolded idt_init_def]] by (auto simp: list_all_iff)

lemma idt_vectors: "dom idt_init = {0..19} - {9, 15} \<union> {32..48}"
proof -
  have "dom idt_init = fst ` set idt_gates" by (simp add: idt_init_def dom_map_of_conv_image_fst)
  also have "\<dots> = set [0,1,2,3,4,5,6,7,8,10,11,12,13,14,16,17,18,19,32,33,34,35,36,37,38,39,40,41,42,43,44,45,46,47,48]"
    by (simp add: idt_gates_def insert_commute)
  also have "\<dots> = set ([0, 1, 2] @ filter (\<lambda>v. v \<noteq> 9 \<and> v \<noteq> 15) [3..<20] @ [32..<49])"
    by simp
  also have "\<dots> = {0..19} - {9, 15} \<union> {32..48}"
    by (simp only: set_append set_filter set_upt) auto
  finally show ?thesis .
qed

text \<open>The clock starts at 0 and its interrupt gets a handler.\<close>

definition kclock_init :: "machine \<Rightarrow> machine" where
  "kclock_init m = irq_install_handler 0 Clock_interrupt_handler (m\<lparr>msched := (msched m)\<lparr>ticks := 0\<rparr>\<rparr>)"

section \<open>The instruction int\<close>

text \<open>
  A program executes \<^verbatim>\<open>int v\<close>. Through a gate with privilege 3 the processor saves the flags and enters at the stub; an
  interrupt gate clears the interrupt flag, a trap gate leaves it. Otherwise it raises a general protection fault.
\<close>

definition enter_gate :: "gate \<Rightarrow> nat \<Rightarrow> machine \<Rightarrow> machine" where
  "enter_gate g tf m =
     (set_tf tf (\<lambda>t. t\<lparr>tf_trapno := pushed_trapno (gd_off g), tf_IF := interrupts m, tf_cs := 0x1B\<rparr>) m)
       \<lparr>interrupts := (interrupts m \<and> gd_istrap g)\<rparr>"

definition user_int :: "hooks \<Rightarrow> nat \<Rightarrow> nat \<Rightarrow> machine \<Rightarrow> (bool \<times> machine) result" where
  "user_int hook v tf m =
     (case idt_init v of
        Some g \<Rightarrow>
          if gd_dpl g = 3 then trap hook tf (enter_gate g tf m)
          else trap hook tf (enter_gate \<lparr>gd_istrap = False, gd_off = ALL_FAULTS 13, gd_dpl = 3\<rparr> tf m)
      | None \<Rightarrow> trap hook tf (enter_gate \<lparr>gd_istrap = False, gd_off = ALL_FAULTS 13, gd_dpl = 3\<rparr> tf m))"

text \<open>
  The gates of the interrupt lines ask for privilege 3: \<^verbatim>\<open>int 32\<close> in a program runs the handler of the clock interrupt and
  acknowledges an interrupt that the controller has not raised.
\<close>

lemma user_int_irq:
  assumes "v \<in> {32..47}"
  shows "user_int hook v tf m = trap hook tf (enter_gate (the (idt_init v)) tf m)"
    "tf_trapno (tframes (enter_gate (the (idt_init v)) tf m) tf) = v" "\<not> interrupts (enter_gate (the (idt_init v)) tf m)"
proof -
  have "v \<in> dom idt_init" unfolding idt_vectors using assms by auto
  then obtain g where g: "idt_init v = Some g" by auto
  note G = idt_gate [OF g]
  show "user_int hook v tf m = trap hook tf (enter_gate (the (idt_init v)) tf m)"
    using G(2) assms by (auto simp: user_int_def g)
  show "tf_trapno (tframes (enter_gate (the (idt_init v)) tf m) tf) = v" "\<not> interrupts (enter_gate (the (idt_init v)) tf m)"
    using G assms by (auto simp: g enter_gate_def set_tf_def)
qed

text \<open>
  The gates of the debug exceptions and of overflow are trap gates: with interrupts enabled, as in every program, a
  breakpoint finds them enabled in \<^verbatim>\<open>trap\<close> and panics there instead of at the end of \<^verbatim>\<open>trap_dispatch\<close>.
\<close>

lemma breakpoint_panics:
  assumes "v \<in> {1, 3, 4}" "interrupts m"
  shows "user_int hook v tf m = Inl (Panic ''trap(): interrupt is enabled while it's expected to be disabled'')"
proof -
  have "v \<in> dom idt_init" unfolding idt_vectors using assms by auto
  then obtain g where g: "idt_init v = Some g" by auto
  note G = idt_gate [OF g]
  have "interrupts (kclock_stop (enter_gate g tf m))"
    using G(3) assms by (auto simp: enter_gate_def set_tf_def kclock_stop_def)
  moreover have "gd_dpl g = 3" using G(2) assms(1) by auto
  ultimately show ?thesis by (simp add: user_int_def g trap_def Let_def)
qed

section \<open>Panics\<close>

text \<open>Where the processor goes after a panic: to the scheduler, when the running process has been ended, or to the prompt.\<close>

datatype after_panic = To_scheduler | To_prompt

definition runs_process :: "sched_st \<Rightarrow> bool" where
  "runs_process s \<longleftrightarrow> (\<exists>e. cpu_proc s = Some e \<and> env_status (envs s e) = ENV_RUNNING)"

lemma runs_process_code [code]:
  "runs_process s = (case cpu_proc s of None \<Rightarrow> False | Some e \<Rightarrow> env_status (envs s e) = ENV_RUNNING)"
  by (auto simp: runs_process_def split: option.splits)

definition exit_or_prompt :: "sched_st \<Rightarrow> (after_panic \<times> sched_st) result" where
  "exit_or_prompt s =
     (if runs_process s then
        andThen (env_exit s) (\<lambda>(gone, s). Inr (if gone then To_scheduler else To_prompt, s))
      else Inr (To_prompt, s))"

definition panic_one :: "sched_st \<Rightarrow> (after_panic \<times> sched_st) result" where
  "panic_one s = exit_or_prompt s"

definition panic_all :: "sched_st \<Rightarrow> (after_panic \<times> sched_st) result" where
  "panic_all s =
     (if scheduler_status s \<noteq> SCH_UNINITIALIZED then andThen (sched_exit_all_ready_envs s) exit_or_prompt
      else Inr (To_prompt, s))"

definition panic_into_prompt :: "sched_st \<Rightarrow> (after_panic \<times> sched_st) result" where
  "panic_into_prompt s = exit_or_prompt s"

text \<open>
  A panic in a running process costs that process only: it ends in the EXIT queue, every other environment is as it was,
  the invariant of the scheduler holds, and the processor is given to the scheduler. The same holds of the panic that is
  meant to break into the prompt: while a process runs, it does not get there.
\<close>

lemma panic_ends_process:
  assumes "sched_inv B s" "ctx s = In_process" "\<not> EnableBuffering s"
  shows "\<exists>e s'. cpu_proc s = Some e \<and> panic_one s = Inr (To_scheduler, s') \<and> panic_into_prompt s = Inr (To_scheduler, s') \<and>
    sched_inv B s' \<and> env_status (envs s' e) = ENV_EXIT \<and> env_exit_queue s' = e # env_exit_queue s \<and>
    (\<forall>g. g \<noteq> e \<longrightarrow> envs s' g = envs s g) \<and> ctx s' = In_scheduler \<and> cpu_proc s' = None"
proof -
  note D = sched_invD [OF assms(1)]
  obtain e where e: "cpu_proc s = Some e" "env_status (envs s e) = ENV_RUNNING" using D(4) [OF assms(2)] by auto
  have n: "e < nenv s" using q_inv_cpu [OF D(1) e(1)] by simp
  obtain s' where s': "sched_exit_env (env_id (envs s e)) s = Inr (True, s')" "sched_inv B s'"
    "env_status (envs s' e) = ENV_EXIT" "env_exit_queue s' = e # env_exit_queue s" "\<forall>g. g \<noteq> e \<longrightarrow> envs s' g = envs s g"
    "ctx s' = In_scheduler" "cpu_proc s' = None"
    using sched_exit_env_correct [OF assms(1-3) n disjI2 [OF e(1)]] e(1) by auto
  have "runs_process s" using e by (simp add: runs_process_def)
  then have "exit_or_prompt s = Inr (To_scheduler, s')" by (simp add: exit_or_prompt_def env_exit_def e(1) s'(1))
  then show ?thesis using e s' by (auto simp: panic_one_def panic_into_prompt_def)
qed

lemma panic_ends_process_witness:
  "\<exists>s'. panic_one (sample_running sample_sched) = Inr (To_scheduler, s') \<and> sched_inv {} s' \<and> env_exit_queue s' = [3]"
proof -
  let ?s = "sample_running sample_sched"
  have st: "ctx ?s = In_process" "\<not> EnableBuffering ?s" "cpu_proc ?s = Some 3" "env_exit_queue ?s = []"
    by (simp_all add: sample_running_def sample_env_def zero_env_def sample_sched_def upd_env_def)
  show ?thesis using panic_ends_process [OF sample_running_inv(1) st(1,2)] st(3,4) by auto
qed

text \<open>Outside of a process a panic changes nothing and goes to the prompt.\<close>

lemma panic_in_kernel: "cpu_proc s = None \<Longrightarrow> panic_one s = Inr (To_prompt, s)"
  by (simp add: panic_one_def exit_or_prompt_def runs_process_def)

end
