(* ===== verification/User_Library.thy ===== *)
theory User_Library
  imports FOS_Prelude
begin

text \<open>
  The parts of the user library for concurrency: the spin lock of \<^verbatim>\<open>src/lib/uspinlock.c\<close>, which processes share, the waits
  of \<^verbatim>\<open>src/lib/concurrency.c\<close>, and the semaphores of \<^verbatim>\<open>src/lib/semaphore.c\<close>, which are not implemented.
\<close>

section \<open>The spin lock\<close>

abbreviation NAMELEN :: nat where "NAMELEN \<equiv> 64"

record uspinlock =
  ulocked :: nat
  uname :: string

text \<open>\<^verbatim>\<open>strcpy\<close> into \<^verbatim>\<open>char name[NAMELEN]\<close> overruns the structure when the name and its terminator do not fit.\<close>

definition init_uspinlock :: "uspinlock \<Rightarrow> string \<Rightarrow> nat \<Rightarrow> uspinlock result" where
  "init_uspinlock lk name isOpened =
     andThen (c_assert (isOpened = 0 \<or> isOpened = 1) ''isOpened == 0 || isOpened == 1'') (\<lambda>_.
     if length name < NAMELEN then Inr (lk\<lparr>uname := name, ulocked := 1 - isOpened\<rparr>)
     else Inl (Corrupted ''strcpy(lk->name, name)''))"

definition xchg_lock :: "uspinlock \<Rightarrow> nat \<Rightarrow> nat \<times> uspinlock" where
  "xchg_lock lk new = (ulocked lk, lk\<lparr>ulocked := new\<rparr>)"

text \<open>\<^verbatim>\<open>acquire_uspinlock\<close> by a process that runs alone: when the lock is held the loop does not end.\<close>

fun acquire_uspinlock :: "nat \<Rightarrow> uspinlock \<Rightarrow> uspinlock result" where
  "acquire_uspinlock 0 lk = Inl Spins"
| "acquire_uspinlock (Suc n) lk = (let (old, lk) = xchg_lock lk 1 in if old \<noteq> 0 then acquire_uspinlock n lk else Inr lk)"

definition release_uspinlock :: "uspinlock \<Rightarrow> uspinlock result" where
  "release_uspinlock lk =
     (if ulocked lk = 0 then Inl (Panic ''release: lock is not held!'') else Inr (lk\<lparr>ulocked := 0\<rparr>))"

text \<open>
  Several processes at one lock. The exchange is atomic, so a turn of the loop is a step; so is the release.
\<close>

datatype lock_pos = Outside | Spinning | Inside

record spin_sys =
  lock :: uspinlock
  at :: "nat \<Rightarrow> lock_pos"

inductive spin_step :: "spin_sys \<Rightarrow> spin_sys \<Rightarrow> bool" where
  ask: "at s p = Outside \<Longrightarrow> spin_step s (s\<lparr>at := (at s)(p := Spinning)\<rparr>)"
| turn: "at s p = Spinning \<Longrightarrow> xchg_lock (lock s) 1 = (old, lk) \<Longrightarrow>
    spin_step s (s\<lparr>lock := lk, at := (at s)(p := if old \<noteq> 0 then Spinning else Inside)\<rparr>)"
| leave: "at s p = Inside \<Longrightarrow> release_uspinlock (lock s) = Inr lk \<Longrightarrow>
    spin_step s (s\<lparr>lock := lk, at := (at s)(p := Outside)\<rparr>)"

definition spin_inv :: "spin_sys \<Rightarrow> bool" where
  "spin_inv s \<longleftrightarrow>
     (ulocked (lock s) = 0 \<longrightarrow> (\<forall>p. at s p \<noteq> Inside)) \<and> (\<forall>p q. at s p = Inside \<and> at s q = Inside \<longrightarrow> p = q)"

lemma spin_step_inside:
  assumes "spin_step s s'" "spin_inv s"
  shows "(\<forall>r. at s' r = Inside \<longrightarrow> at s r = Inside) \<and> (ulocked (lock s') = ulocked (lock s) \<or> ulocked (lock s') = 1) \<or>
    (\<exists>p. at s' p = Inside \<and> (\<forall>r. r \<noteq> p \<longrightarrow> at s' r \<noteq> Inside) \<and> ulocked (lock s') = 1) \<or>
    (\<forall>r. at s' r \<noteq> Inside)"
  using assms(1)
proof cases
  case (ask p)
  then show ?thesis by auto
next
  case (turn p old lk)
  then have lk: "ulocked lk = 1" "old = ulocked (lock s)" by (auto simp: xchg_lock_def)
  have "\<forall>r. at s r \<noteq> Inside" if "old = 0" using assms(2) lk(2) that by (simp add: spin_inv_def)
  then show ?thesis using turn(1) lk(1) by (cases "old = 0") auto
next
  case (leave p lk)
  then have "at s r \<noteq> Inside" if "r \<noteq> p" for r using assms(2) that unfolding spin_inv_def by blast
  then show ?thesis using leave(1) by auto
qed

lemma spin_step_inv:
  assumes "spin_step s s'" "spin_inv s"
  shows "spin_inv s'"
  using spin_step_inside [OF assms]
proof (elim disjE conjE exE)
  fix p assume "\<forall>r. r \<noteq> p \<longrightarrow> at s' r \<noteq> Inside" "ulocked (lock s') = 1"
  then show ?thesis unfolding spin_inv_def by (metis zero_neq_one)
qed (use assms(2) in \<open>unfold spin_inv_def; metis zero_neq_one\<close>)+

lemma spin_reach_inv: "spin_step\<^sup>*\<^sup>* s s' \<Longrightarrow> spin_inv s \<Longrightarrow> spin_inv s'"
  by (induction rule: rtranclp_induct) (auto intro: spin_step_inv)

text \<open>
  From a fresh lock and processes that are outside: in every reachable state at most one process is inside, and it can leave:
  the test of the release never fails for it. When the lock is free every spinning process can enter.
\<close>

lemma uspinlock_mutual_exclusion:
  assumes "init_uspinlock lk0 name isOpened = Inr lk" "spin_step\<^sup>*\<^sup>* \<lparr>lock = lk, at = (\<lambda>_. Outside)\<rparr> s"
  shows "at s p = Inside \<Longrightarrow> at s q = Inside \<Longrightarrow> p = q"
    and "at s p = Inside \<Longrightarrow> \<exists>lk'. release_uspinlock (lock s) = Inr lk'"
    and "ulocked (lock s) = 0 \<Longrightarrow> at s p = Spinning \<Longrightarrow> \<exists>s'. spin_step s s' \<and> at s' p = Inside"
proof -
  have "spin_inv \<lparr>lock = lk, at = (\<lambda>_. Outside)\<rparr>" by (simp add: spin_inv_def)
  then have I: "spin_inv s" using spin_reach_inv [OF assms(2)] by blast
  show "at s p = Inside \<Longrightarrow> at s q = Inside \<Longrightarrow> p = q" using I unfolding spin_inv_def by blast
  show "at s p = Inside \<Longrightarrow> \<exists>lk'. release_uspinlock (lock s) = Inr lk'"
  proof -
    assume "at s p = Inside"
    then have "ulocked (lock s) \<noteq> 0" using I unfolding spin_inv_def by blast
    then show ?thesis by (simp add: release_uspinlock_def)
  qed
  assume u: "ulocked (lock s) = 0" and p: "at s p = Spinning"
  have "spin_step s (s\<lparr>lock := (lock s)\<lparr>ulocked := 1\<rparr>, at := (at s)(p := if (0 :: nat) \<noteq> 0 then Spinning else Inside)\<rparr>)"
    by (rule turn [OF p]) (simp add: xchg_lock_def u)
  then show "\<exists>s'. spin_step s s' \<and> at s' p = Inside" by auto
qed

lemma acquire_free: "ulocked lk = 0 \<Longrightarrow> acquire_uspinlock (Suc n) lk = Inr (lk\<lparr>ulocked := 1\<rparr>)"
  by (simp add: xchg_lock_def)

text \<open>A process that takes the lock again while it holds it does not come back.\<close>

lemma acquire_held_spins: "ulocked lk \<noteq> 0 \<Longrightarrow> acquire_uspinlock n lk = Inl Spins"
  by (induction n arbitrary: lk) (simp_all add: xchg_lock_def)

section \<open>Waiting\<close>

abbreviation CYCLES_PER_MILLISEC :: nat where "CYCLES_PER_MILLISEC \<equiv> 10000"

text \<open>
  \<open>now k\<close> is the time stamp counter at the \<open>k\<close>-th reading; the loop uses its low word only. The result is the number of
  readings, \<open>n\<close> a bound on the turns.
\<close>

definition low_word :: "nat \<Rightarrow> nat" where
  "low_word t = t mod 2 ^ 32"

fun sleep_loop :: "(nat \<Rightarrow> nat) \<Rightarrow> nat \<Rightarrow> nat \<Rightarrow> nat \<Rightarrow> nat \<Rightarrow> nat result" where
  "sleep_loop now 0 k time_in_cycles cycles_counter = Inl Spins"
| "sleep_loop now (Suc n) k time_in_cycles cycles_counter =
     (if cycles_counter < time_in_cycles
      then sleep_loop now n (Suc k) time_in_cycles (sub32 (low_word (now k)) (low_word (now 0)))
      else Inr k)"

definition env_sleep :: "(nat \<Rightarrow> nat) \<Rightarrow> nat \<Rightarrow> nat \<Rightarrow> nat result" where
  "env_sleep now n approxMilliSeconds =
     (let time_in_cycles = mul32 approxMilliSeconds CYCLES_PER_MILLISEC in sleep_loop now n 1 time_in_cycles 0)"

text \<open>
  When the counter moves forward by at most \<open>g\<close> cycles between two readings and the wait and \<open>g\<close> together fit into 32 bits,
  \<^verbatim>\<open>env_sleep\<close> returns, not before the time is over and less than \<open>g\<close> cycles after it.
\<close>

lemma low_word_diff:
  fixes now :: "nat \<Rightarrow> nat"
  assumes "now 0 \<le> t" "t - now 0 < 2 ^ 32"
  shows "sub32 (low_word t) (low_word (now 0)) = t - now 0"
proof -
  let ?b = "now 0 mod 2 ^ 32"
  have b: "?b < 2 ^ 32" by simp
  have "(t mod 2 ^ 32 + (2 ^ 32 - ?b)) mod 2 ^ 32 = (t + (2 ^ 32 - ?b)) mod 2 ^ 32" by (rule mod_add_left_eq)
  also have "t + (2 ^ 32 - ?b) = (t - now 0) + (now 0 - ?b) + 2 ^ 32"
    using assms(1) b mod_less_eq_dividend [of "now 0" "2 ^ 32"] by linarith
  also have "now 0 - ?b = 2 ^ 32 * (now 0 div 2 ^ 32)" by (rule minus_mod_eq_mult_div)
  finally show ?thesis using assms(2) by (simp add: sub32_def low_word_def)
qed

lemma sleep_loop_returns:
  assumes mono: "\<And>j. now j \<le> now (Suc j)" and gap: "\<And>j. now (Suc j) \<le> now j + g" and fits: "T + g \<le> 2 ^ 32"
    and "T \<le> now m - now 0" "m < n + k"
  shows "now k - now 0 < T + g \<Longrightarrow> \<exists>j. sleep_loop now (Suc n) (Suc k) T (now k - now 0) = Inr (Suc j) \<and> T \<le> now j - now 0 \<and> now j - now 0 < T + g"
  using assms(5)
proof (induction n arbitrary: k)
  case 0
  have "now m \<le> now k" using 0 mono by (simp add: lift_Suc_mono_le)
  then have "T \<le> now k - now 0" using assms(4) by linarith
  then show ?case using 0 by (auto intro!: exI [of _ k])
next
  case (Suc n)
  show ?case
  proof (cases "now k - now 0 < T")
    case False
    then show ?thesis using Suc.prems by (auto intro!: exI [of _ k])
  next
    case True
    have z: "now 0 \<le> now (Suc k)" "now 0 \<le> now k" using mono by (simp_all add: lift_Suc_mono_le)
    have l: "now (Suc k) - now 0 < T + g" using True gap [of k] z by linarith
    then have "sub32 (low_word (now (Suc k))) (low_word (now 0)) = now (Suc k) - now 0"
      using low_word_diff z(1) fits by simp
    then show ?thesis using Suc.IH [of "Suc k", OF l] Suc.prems(2) True by simp
  qed
qed

lemma env_sleep_waits:
  assumes "\<And>j. now j \<le> now (Suc j)" "\<And>j. now (Suc j) \<le> now j + g" "0 < g" "ms * CYCLES_PER_MILLISEC + g \<le> 2 ^ 32"
    and "ms * CYCLES_PER_MILLISEC \<le> now m - now 0"
  shows "\<exists>j. env_sleep now (m + 2) ms = Inr (Suc j) \<and> ms * CYCLES_PER_MILLISEC \<le> now j - now 0 \<and>
    now j - now 0 < ms * CYCLES_PER_MILLISEC + g"
proof -
  have "mul32 ms CYCLES_PER_MILLISEC = ms * CYCLES_PER_MILLISEC" using assms(3,4) by (simp add: mul32_def)
  then show ?thesis
    using sleep_loop_returns [OF assms(1,2,4,5), of "Suc m" 0] assms(3) by (simp add: env_sleep_def del: sleep_loop.simps)
qed

text \<open>The product of milliseconds and cycles wraps around: a wait of 429497 milliseconds is one of 2704 cycles.\<close>

lemma env_sleep_wraps: "mul32 429497 CYCLES_PER_MILLISEC = 2704"
  by (simp add: mul32_def)

fun busy_loop :: "nat \<Rightarrow> nat \<Rightarrow> nat" where
  "busy_loop 0 i = i"
| "busy_loop (Suc n) i = busy_loop n (Suc i)"

definition busy_wait :: "nat \<Rightarrow> nat" where
  "busy_wait loopMax = busy_loop loopMax 0"

lemma busy_wait_value: "busy_wait loopMax = loopMax"
proof -
  have "busy_loop n i = n + i" for n i by (induction n i rule: busy_loop.induct) simp_all
  then show ?thesis by (simp add: busy_wait_def)
qed

section \<open>Semaphores\<close>

definition create_semaphore :: "string \<Rightarrow> nat \<Rightarrow> 'a result" where
  "create_semaphore semaphoreName v = Inl (Panic ''create_semaphore() is not implemented yet...!!'')"

definition get_semaphore :: "int \<Rightarrow> string \<Rightarrow> 'a result" where
  "get_semaphore ownerEnvID semaphoreName = Inl (Panic ''get_semaphore() is not implemented yet...!!'')"

definition wait_semaphore :: "'s \<Rightarrow> 'a result" where
  "wait_semaphore sem = Inl (Panic ''wait_semaphore() is not implemented yet...!!'')"

definition signal_semaphore :: "'s \<Rightarrow> 'a result" where
  "signal_semaphore sem = Inl (Panic ''signal_semaphore() is not implemented yet...!!'')"

end
