(* ===== verification/Spec2Isabelle.thy ===== *)
theory Spec2Isabelle
  imports Queue_Macros Dynamic_Allocator Kspinlock Kernel_Heap Sync Environments Replacement Optimal_Faults Shared_Memory
    Console Command_Prompt Program_Loading System_Calls User_Access Kdebug Boot_Memory Sort_Programs Command_Readline Commands
    Devices Disk_Driver Fixed_Point Kernel_Entry User_Library
begin

text \<open>
  \<^bold>\<open>FOS, an educational operating system for the 32 bit x86: a shallow embedding and its correctness.\<close>

  FOS is a kernel (\<^verbatim>\<open>src/kern\<close>), a library that is linked into user programs and partly into the kernel
  (\<^verbatim>\<open>src/lib\<close>), headers shared by both (\<^verbatim>\<open>src/inc\<close>), a boot loader and a collection of user programs, most
  of them tests. The build has the kernel heap enabled (\<^verbatim>\<open>USE_KHEAP\<close>); it is the one that is modelled.

  \<^bold>\<open>Conventions.\<close> A routine is a function from its arguments and the state it reads to a result
  (theory \<open>FOS_Prelude\<close>): \<open>Inr\<close> of a value and the new state, or \<open>Inl\<close> of the way in which it does not come back: a
  panic or failed assertion, a processor exception, a write that breaks a linked structure, a busy-wait nobody ends, or the
  end of the calling process. C structures are records, addresses and \<^verbatim>\<open>uint32\<close> values natural numbers with
  the wrap-around written out (\<open>add32\<close>, \<open>sub32\<close>, \<open>mul32\<close>), page table entries 32 bit words. The intrusive lists of
  \<^verbatim>\<open>inc/queue.h\<close> are sequences; theory \<open>Queue_Macros\<close> has the pointer code of the macros and proves that it
  computes the operations on sequences. A routine that blocks is cut at the context switch into the part before it and the
  part a later resumption runs.

  \<^bold>\<open>Parts, and the theories that model them.\<close>

  \<^item> \<open>Queue_Macros\<close> (\<^verbatim>\<open>inc/queue.h\<close>): the list macros on links in a heap, refined to sequences.
  \<^item> \<open>Dynamic_Allocator\<close> (\<^verbatim>\<open>lib/dynamic_allocator.c\<close>): the allocator of power-of-two blocks that kernel and user
    heap share; the pages it takes and gives back are arguments. Invariant, behaviour of allocation and release, and that
    whatever a client has asked for and released, the blocks it holds are apart.
  \<^item> \<open>Kspinlock\<close> (\<^verbatim>\<open>kern/conc/kspinlock.c\<close>, \<^verbatim>\<open>kern/cpu/cpu.c\<close>): spin locks and the nesting of disabled
    interrupts.
  \<^item> \<open>Kernel_Memory\<close> (\<^verbatim>\<open>kern/mem/memory_manager.c\<close>, \<^verbatim>\<open>paging_helpers.c\<close>): frames, page directories and
    tables, mapping and permissions. \<open>Kernel_Heap\<close> (\<^verbatim>\<open>kern/mem/kheap.c\<close>): \<^verbatim>\<open>kmalloc\<close> and
    \<^verbatim>\<open>kfree\<close> over the block allocator and the runs of pages, with the heap invariant.
  \<^item> \<open>Scheduler\<close> (\<^verbatim>\<open>kern/cpu/sched.c\<close>, \<^verbatim>\<open>sched_helpers.c\<close>): process queues, round robin, priority round
    robin with ageing, the clock interrupt, ending processes. \<open>Environments\<close>: the table of environments and their
    numbers. \<open>Sync\<close> (\<^verbatim>\<open>kern/conc/channel.c\<close>, \<^verbatim>\<open>sleeplock.c\<close>, \<^verbatim>\<open>ksemaphore.c\<close>): blocking
    operations, and the system of all processes that call them as a step relation whose reachable states are shown to
    be safe.
  \<^item> \<open>Page_File\<close> (\<^verbatim>\<open>kern/disk/pagefile_manager.c\<close>), \<open>Working_Set\<close> (\<^verbatim>\<open>kern/mem/working_set_manager.c\<close>),
    \<open>Fault_Handler\<close> (\<^verbatim>\<open>kern/trap/fault_handler.c\<close>): paging of a user process. \<open>Replacement\<close> has the theorems
    on CLOCK, LRU ageing and modified CLOCK, \<open>Optimal_Faults\<close> the optimality of the fault count the kernel computes.
  \<^item> \<open>User_Memory\<close> (\<^verbatim>\<open>kern/mem/chunk_operations.c\<close> and the memory calls of \<^verbatim>\<open>kern/trap/syscall.c\<close>),
    \<open>User_Heap\<close> (\<^verbatim>\<open>lib/uheap.c\<close>), \<open>Shared_Memory\<close> (\<^verbatim>\<open>kern/mem/shared_memory_manager.c\<close>). The theorems on runs of the
    user heap hold for processes that do not release their topmost run: \<^verbatim>\<open>free\<close> of it lowers the break and leaves the run on
    the free list, and \<open>malloc_hands_out_twice\<close> shows what follows.
  \<^item> \<open>Program_Loading\<close> (\<^verbatim>\<open>kern/proc/user_environment.c\<close>): from the program headers to the pages of the page
    file, the initial working set, the kernel stack and the page directory. Empty pages are written from the frame of the
    zero page, with whatever it holds: the kernel clears only its first 1024 bytes.
  \<^item> \<open>C_Strings\<close> (\<^verbatim>\<open>lib/string.c\<close>), \<open>Printfmt\<close> (\<^verbatim>\<open>lib/printfmt.c\<close>, \<^verbatim>\<open>lib/printf.c\<close>),
    \<open>Console\<close> (\<^verbatim>\<open>kern/cons/console.c\<close>), \<open>Command_Prompt\<close> (\<^verbatim>\<open>lib/readline.c\<close>,
    \<^verbatim>\<open>kern/cmd/command_prompt.c\<close>): text in and out. \<open>Command_Readline\<close>
    (\<^verbatim>\<open>kern/cmd/command_readline.c\<close>): the line editor of the prompt, with its history and the completion of names.
  \<^item> \<open>System_Calls\<close> (\<^verbatim>\<open>kern/trap/trap.c\<close>, \<^verbatim>\<open>kern/trap/syscall.c\<close>, \<^verbatim>\<open>lib/syscall.c\<close>): from the stubs a
    program calls through the registers of the trap frame to the dispatcher and its handlers, on one record \<open>machine\<close>
    that joins the states of the parts above. The kernel-side hooks that the tests install are an argument.
    \<open>User_Access\<close>: the pages of its heap that a program reaches, with the page tables that are made when they are first needed.
  \<^item> \<open>Commands\<close> (\<^verbatim>\<open>kern/cmd/commands.c\<close>): the table of commands and each command on the record \<open>shell\<close>, which
    extends the machine by the history and the output; the command that starts the tests of \<^verbatim>\<open>kern/tests\<close> takes
    them as an argument. A line typed at the prompt is split by \<open>Command_Prompt\<close> and run here;
    the theorem is on lines with the number of arguments of the table, and a lemma on the lines that the tests of the prompt expect to be
    refused.
  \<^item> \<open>Kdebug\<close> (\<^verbatim>\<open>kern/trap/kdebug.c\<close>): the search in the table of symbols. \<open>Boot_Memory\<close>
    (\<^verbatim>\<open>kern/mem/boot_memory_manager.c\<close>): the allocator used before there are frames, the first page directory and
    the list of free frames it leaves. \<open>Sort_Programs\<close> (\<^verbatim>\<open>user/quicksort_*.c\<close>, \<^verbatim>\<open>user/mergesort_static.c\<close>,
    \<^verbatim>\<open>user/arrayOperations_stats.c\<close>): the sorting and selection routines of the example programs.
  \<^item> \<open>Devices\<close> (\<^verbatim>\<open>kern/cpu/picirq.c\<close>, \<^verbatim>\<open>kern/cpu/kclock.c\<close>): the interrupt controllers and the timer over a bus.
    \<open>Disk_Driver\<close> (\<^verbatim>\<open>lib/disk.c\<close>, \<^verbatim>\<open>boot/main.c\<close>): the IDE driver and the boot loader, which loads the kernel. The controller
    below them takes commands and data only when it is not busy, and reports bad sectors with its error bit.
    \<open>Kernel_Entry\<close> (\<^verbatim>\<open>kern/trap/trap.c\<close>, \<^verbatim>\<open>kern/init.c\<close>): the descriptor table and the panics.
  \<^item> \<open>Fixed_Point\<close> (\<^verbatim>\<open>inc/fixed_point.h\<close>): fixed point arithmetic. \<open>User_Library\<close> (\<^verbatim>\<open>lib/uspinlock.c\<close>,
    \<^verbatim>\<open>lib/concurrency.c\<close>): the spin lock of user programs with all interleavings at it, and the waits.

  \<^bold>\<open>Interfaces.\<close> What one part promises another is a locale, interpreted on the model of the part that keeps the
  promise: the page supplier of the block allocator, the sink of formatted output (three interpretations: a buffer, the
  buffered user output, the console), the input devices of the console, the blocking objects of \<open>Sync\<close> (sleeping lock and
  semaphore), the victim choice of page replacement, the mask registers and the counter of the devices, the disk below its
  driver. The instructions that reach the devices are an argument of the drivers; the locales say what the drivers need of the
  chips, and the boards on which they are interpreted follow the data sheets as far as the drivers use them.

  \<^bold>\<open>Loops and fuel.\<close> Loops over lists and counters are structural. A loop the code leaves only by a condition takes a
  bound on its turns and answers \<open>Spins\<close> when it is exceeded; the theorems on these loops show that the bound given is
  enough (\<open>clock_terminates\<close>: one turn more than there are pages). Loops over strings that have no bound at all are partial
  functions with values in \<open>option\<close>, and the theorems show that they return.

  \<^bold>\<open>Not modelled.\<close> Assembly (\<^verbatim>\<open>boot.S\<close>, \<^verbatim>\<open>entry.S\<close>, the register pushes of \<^verbatim>\<open>trapentry.S\<close>,
  \<^verbatim>\<open>context_switch.S\<close>), the programming of the serial and the parallel port, memory caches and the translation buffer,
  the task state segment, output whose only effect is text for the reader (a trap frame, the welcome message, the
  commented-out test runs of \<^verbatim>\<open>FOS_initialize\<close>), and the tests in \<^verbatim>\<open>kern/tests\<close> and \<^verbatim>\<open>user\<close>: their content is
  the expected outcome of one run, which the theorems here state for all runs. What the tests install in the kernel is an
  argument of the parts that call it. An interrupt in the middle of a handler is not modelled: a handler runs to its end or
  to its context switch. Operations that the sources leave as a panic are that panic.
\<close>

end
